(* ===== verification/Aosl_Prelude.thy ===== *)
theory Aosl_Prelude
  imports Main "HOL-Library.Word"
begin

text \<open>
  Shared vocabulary of the development: the machine integers of the C code, the
  outcome type of a C function that may abort or touch memory outside an object,
  the error numbers of \<^verbatim>\<open>include/api/aosl_errno.h\<close>, and the generic
  lemmas on lists and words that the component theories use.

  \<open>'a exec\<close> is the outcome of a call: \<open>Ret x\<close> when the function returns \<open>x\<close>,
  \<open>Abort\<close> when it calls \<^verbatim>\<open>abort ()\<close> (every \<^verbatim>\<open>BUG_ON\<close> does), and
  \<open>Fault\<close> when it reads or writes outside the object it addresses, which in C is
  undefined behaviour. \<open>NoFuel\<close> is the outcome of a loop over linked memory that was given too
  few rounds: such loops take a fuel argument, because on a cyclic structure the C loop
  does not end; the theorems about them show \<open>Ret\<close> from a stated amount of fuel on.
  \<open>ebind\<close> sequences two calls.
\<close>

unbundle bit_operations_syntax

type_synonym u8 = "8 word"
type_synonym u16 = "16 word"
type_synonym u32 = "32 word"
type_synonym u64 = "64 word"
type_synonym bytes = "8 word list"
type_synonym ptr = nat

named_theorems exec_simps \<open>evaluation of \<open>exec\<close> outcomes\<close>
named_theorems len_simps \<open>lengths and sizes of the model's buffers\<close>

datatype 'a exec = Ret (ret_val: 'a) | Abort | Fault | NoFuel

primrec ebind :: "'a exec \<Rightarrow> ('a \<Rightarrow> 'b exec) \<Rightarrow> 'b exec" where
  "ebind (Ret x) f = f x"
| "ebind Abort f = Abort"
| "ebind Fault f = Fault"
| "ebind NoFuel f = NoFuel"

text \<open>\<open>BUG_ON c\<close> before the rest of a function (\<^verbatim>\<open>include/kernel/bug.h\<close>).\<close>

definition bug_on :: "bool \<Rightarrow> 'a exec \<Rightarrow> 'a exec" where
  "bug_on c rest = (if c then Abort else rest)"

text \<open>An array access \<^verbatim>\<open>a [i]\<close>: outside the array it is a fault, never a value.\<close>

definition arr_get :: "'a list \<Rightarrow> nat \<Rightarrow> 'a exec" where
  "arr_get xs i = (if i < length xs then Ret (xs ! i) else Fault)"

definition arr_set :: "'a list \<Rightarrow> nat \<Rightarrow> 'a \<Rightarrow> 'a list exec" where
  "arr_set xs i v = (if i < length xs then Ret (xs[i := v]) else Fault)"

text \<open>Error numbers: the ones the modelled functions return.\<close>

definition AOSL_EBASE :: int where [simp]: "AOSL_EBASE = 1000"
definition AOSL_EPERM :: int where [simp]: "AOSL_EPERM = AOSL_EBASE + 1"
definition AOSL_ENOENT :: int where [simp]: "AOSL_ENOENT = AOSL_EBASE + 2"
definition AOSL_ESRCH :: int where [simp]: "AOSL_ESRCH = AOSL_EBASE + 3"
definition AOSL_EINTR :: int where [simp]: "AOSL_EINTR = AOSL_EBASE + 4"
definition AOSL_E2BIG :: int where [simp]: "AOSL_E2BIG = AOSL_EBASE + 7"
definition AOSL_EAGAIN :: int where [simp]: "AOSL_EAGAIN = AOSL_EBASE + 11"
definition AOSL_ENOMEM :: int where [simp]: "AOSL_ENOMEM = AOSL_EBASE + 12"
definition AOSL_EBUSY :: int where [simp]: "AOSL_EBUSY = AOSL_EBASE + 16"
definition AOSL_EEXIST :: int where [simp]: "AOSL_EEXIST = AOSL_EBASE + 17"
definition AOSL_EINVAL :: int where [simp]: "AOSL_EINVAL = AOSL_EBASE + 22"
definition AOSL_ENOSPC :: int where [simp]: "AOSL_ENOSPC = AOSL_EBASE + 28"
definition AOSL_EOVERFLOW :: int where [simp]: "AOSL_EOVERFLOW = AOSL_EBASE + 75"
definition AOSL_EMSGSIZE :: int where [simp]: "AOSL_EMSGSIZE = AOSL_EBASE + 90"
definition AOSL_EAFNOSUPPORT :: int where [simp]: "AOSL_EAFNOSUPPORT = AOSL_EBASE + 97"

lemma ebind_assoc [exec_simps]: "ebind (ebind m f) g = ebind m (\<lambda>x. ebind (f x) g)"
  by (cases m) simp_all

lemma ebind_Ret_iff [exec_simps]: "ebind m f = Ret y \<longleftrightarrow> (\<exists>x. m = Ret x \<and> f x = Ret y)"
  by (cases m) simp_all

lemma ebind_RetE:
  assumes "ebind m f = Ret y"
  obtains x where "m = Ret x" "f x = Ret y"
  using assms by (auto simp: ebind_Ret_iff)

lemma ebind_cong [fundef_cong]:
  "m = m' \<Longrightarrow> (\<And>x. m' = Ret x \<Longrightarrow> f x = g x) \<Longrightarrow> ebind m f = ebind m' g"
  by (cases m') simp_all

lemma bug_on_False [simp]: "bug_on False m = m" and bug_on_True [simp]: "bug_on True m = Abort"
  by (simp_all add: bug_on_def)

lemma bug_on_Ret_iff [exec_simps]: "bug_on c m = Ret x \<longleftrightarrow> \<not> c \<and> m = Ret x"
  by (simp add: bug_on_def)

lemma arr_get_in [simp]: "i < length xs \<Longrightarrow> arr_get xs i = Ret (xs ! i)"
  by (simp add: arr_get_def)

lemma arr_get_out [simp]: "length xs \<le> i \<Longrightarrow> arr_get xs i = Fault"
  by (simp add: arr_get_def)

lemma arr_set_in [simp]: "i < length xs \<Longrightarrow> arr_set xs i v = Ret (xs[i := v])"
  by (simp add: arr_set_def)

lemma arr_set_out [simp]: "length xs \<le> i \<Longrightarrow> arr_set xs i v = Fault"
  by (simp add: arr_set_def)

lemma arr_get_Ret_iff [exec_simps]: "arr_get xs i = Ret x \<longleftrightarrow> i < length xs \<and> xs ! i = x"
  by (auto simp: arr_get_def)

lemma arr_set_Ret_iff [exec_simps]: "arr_set xs i v = Ret ys \<longleftrightarrow> i < length xs \<and> ys = xs[i := v]"
  by (auto simp: arr_set_def)

subsection \<open>Words\<close>

lemma unat_u8_less [simp]: "unat (x :: u8) < 256"
  using unsigned_less [of x] by simp

lemma unat_u16_less [simp]: "unat (x :: u16) < 65536"
  using unsigned_less [of x] by simp

lemma unat_of_nat_u8 [simp]: "n < 256 \<Longrightarrow> unat (of_nat n :: u8) = n"
  by (simp add: unat_of_nat take_bit_nat_eq_self)

lemma unat_of_nat_u16 [simp]: "n < 65536 \<Longrightarrow> unat (of_nat n :: u16) = n"
  by (simp add: unat_of_nat take_bit_nat_eq_self)

lemma all_bits_u8: "x = (255 :: u8) \<longleftrightarrow> (\<forall>n < 8. bit x n)"
proof -
  have "(255 :: u8) = mask 8" by (simp add: mask_eq_exp_minus_1)
  then show ?thesis
    by (auto simp: bit_eq_iff bit_mask_iff dest: bit_imp_le_length)
qed

subsection \<open>Lists\<close>

lemma take_list_update_ge [simp]: "n \<le> i \<Longrightarrow> take n (xs[i := v]) = take n xs"
  by simp

lemma nth_append_replicate:
  "i < length xs + n \<Longrightarrow> (xs @ replicate n d) ! i = (if i < length xs then xs ! i else d)"
  by (auto simp: nth_append)

end
