(* ===== verification/Bitmap.thy ===== *)
theory Bitmap
  imports Aosl_Prelude
begin

text \<open>
  The bitmap of \<^verbatim>\<open>lib/bitmap.c\<close>: a byte array with one bit per identifier, the
  free list behind the object tables of the kernel. The record has the C struct's
  fields at their widths (\<^verbatim>\<open>uint8_t bit_arr_cnt, bit_cnt\<close>). A call of
  \<^verbatim>\<open>aosl_malloc_impl\<close> is a boolean argument: whether it returned a block.
  A null \<^verbatim>\<open>self\<close> is not a value of the model: every caller passes a live bitmap.

  The interface locale \<open>slot_bitmap\<close> states what a client of the bitmap relies on, and
  is interpreted on these definitions at the end.
\<close>

unbundle bit_operations_syntax

record bitmap_t =
  bit_arr :: "u8 list"
  bit_arr_cnt :: u8
  bit_cnt :: u8

definition BIT_ARRAY_CNT :: "nat \<Rightarrow> nat" where
  "BIT_ARRAY_CNT cnt = (cnt + 8 - 1) div 8"

definition bitmap_create :: "bool \<Rightarrow> bool \<Rightarrow> u8 \<Rightarrow> bitmap_t option" where
  "bitmap_create self_ok arr_ok cnt =
     (if cnt = 0 then None
      else let arr_cnt = BIT_ARRAY_CNT (unat cnt) in
        if \<not> self_ok then None
        else if \<not> arr_ok then None
        else Some \<lparr>bit_arr = replicate arr_cnt 0, bit_arr_cnt = of_nat arr_cnt, bit_cnt = cnt\<rparr>)"

definition bitmap_set :: "bitmap_t \<Rightarrow> u8 \<Rightarrow> bitmap_t exec" where
  "bitmap_set self i =
     (if bit_cnt self \<le> i then Ret self
      else let index = unat i div 8; offset = unat i mod 8 in
        ebind (arr_get (bit_arr self) index) (\<lambda>v.
        ebind (arr_set (bit_arr self) index (v OR push_bit offset 1)) (\<lambda>arr.
        Ret (self\<lparr>bit_arr := arr\<rparr>))))"

definition bitmap_clear :: "bitmap_t \<Rightarrow> u8 \<Rightarrow> bitmap_t exec" where
  "bitmap_clear self i =
     (if bit_cnt self \<le> i then Ret self
      else let index = unat i div 8; offset = unat i mod 8 in
        ebind (arr_get (bit_arr self) index) (\<lambda>v.
        ebind (arr_set (bit_arr self) index (v AND NOT (push_bit offset 1))) (\<lambda>arr.
        Ret (self\<lparr>bit_arr := arr\<rparr>))))"

text \<open>\<^verbatim>\<open>memset (bit_arr, 0, bit_arr_cnt)\<close> faults when the array is shorter.\<close>

definition bitmap_reset :: "bitmap_t \<Rightarrow> bitmap_t exec" where
  "bitmap_reset self =
     (let n = unat (bit_arr_cnt self) in
      if n = 0 then Ret self
      else if n \<le> length (bit_arr self)
        then Ret (self\<lparr>bit_arr := replicate n 0 @ drop n (bit_arr self)\<rparr>)
      else Fault)"

text \<open>The check is \<^verbatim>\<open>BUG_ON (i > self->bit_cnt)\<close>, as in the source: it lets \<open>i = bit_cnt\<close> pass.\<close>

definition bitmap_get :: "bitmap_t \<Rightarrow> u8 \<Rightarrow> bool exec" where
  "bitmap_get self i =
     bug_on (bit_cnt self < i)
       (let index = unat i div 8; offset = unat i mod 8 in
        ebind (arr_get (bit_arr self) index) (\<lambda>v. Ret (v AND push_bit offset 1 \<noteq> 0)))"

definition bitmap_copy :: "bitmap_t \<Rightarrow> bitmap_t \<Rightarrow> bitmap_t exec" where
  "bitmap_copy self src =
     bug_on (bit_cnt self < bit_cnt src)
       (ebind (bitmap_reset self) (\<lambda>self.
        let n = unat (bit_arr_cnt src) in
        if n \<le> length (bit_arr self) \<and> n \<le> length (bit_arr src)
        then Ret (self\<lparr>bit_arr := take n (bit_arr src) @ drop n (bit_arr self)\<rparr>)
        else Fault))"

text \<open>
  \<^verbatim>\<open>bitmap_find_first_zero_bit\<close>: the inner loop over the bits of one byte returns the
  function's result (\<open>Inl\<close>) or falls through with the new \<^verbatim>\<open>bitpos\<close> (\<open>Inr\<close>).
\<close>

function find_zero_in_byte :: "u8 \<Rightarrow> u8 \<Rightarrow> nat \<Rightarrow> int \<Rightarrow> int + int" where
  "find_zero_in_byte byte_val cnt bit_idx bitpos =
     (if bit_idx < 8 then
        if uint cnt \<le> bitpos then Inl (- 1)
        else if byte_val AND push_bit bit_idx 1 = 0 then Inl bitpos
        else find_zero_in_byte byte_val cnt (Suc bit_idx) (bitpos + 1)
      else Inr bitpos)"
  by pat_completeness auto
termination
  by (relation "measure (\<lambda>(_, _, k, _). 8 - k)") auto

function find_zero_from :: "bitmap_t \<Rightarrow> nat \<Rightarrow> int \<Rightarrow> int exec" where
  "find_zero_from self byte_idx bitpos =
     (if byte_idx < unat (bit_arr_cnt self) then
        ebind (arr_get (bit_arr self) byte_idx) (\<lambda>byte_val.
          if byte_val = 0xFF then find_zero_from self (Suc byte_idx) (bitpos + 8)
          else case find_zero_in_byte byte_val (bit_cnt self) 0 bitpos of
                 Inl r \<Rightarrow> Ret r
               | Inr bitpos' \<Rightarrow> find_zero_from self (Suc byte_idx) bitpos')
      else Ret (- 1))"
  by pat_completeness auto
termination
  by (relation "measure (\<lambda>(b, k, _). unat (bit_arr_cnt b) - k)") auto

definition bitmap_find_first_zero_bit :: "bitmap_t \<Rightarrow> int exec" where
  "bitmap_find_first_zero_bit self = find_zero_from self 0 0"

declare find_zero_in_byte.simps [simp del] find_zero_from.simps [simp del]

subsection \<open>Well-formed bitmaps and their bits\<close>

definition bitmap_ok :: "bitmap_t \<Rightarrow> bool" where
  "bitmap_ok b \<longleftrightarrow> length (bit_arr b) = unat (bit_arr_cnt b)
     \<and> unat (bit_arr_cnt b) = BIT_ARRAY_CNT (unat (bit_cnt b))"

text \<open>The abstraction: whether identifier \<open>i\<close> is taken.\<close>

definition taken :: "bitmap_t \<Rightarrow> nat \<Rightarrow> bool" where
  "taken b i \<longleftrightarrow> i < unat (bit_cnt b) \<and> bit (bit_arr b ! (i div 8)) (i mod 8)"

text \<open>
  What a client of the bitmap relies on: a first-fit free list over the identifiers below
  \<open>cap\<close>. \<open>mark\<close>, \<open>unmark\<close> and \<open>find\<close> never abort or fault on a good bitmap.
\<close>

locale slot_bitmap =
  fixes good :: "'b \<Rightarrow> bool"
    and cap :: "'b \<Rightarrow> nat"
    and used :: "'b \<Rightarrow> nat \<Rightarrow> bool"
    and find :: "'b \<Rightarrow> int exec"
    and mark :: "'b \<Rightarrow> nat \<Rightarrow> 'b exec"
    and unmark :: "'b \<Rightarrow> nat \<Rightarrow> 'b exec"
  assumes find_spec: "good b \<Longrightarrow>
      (\<exists>i < cap b. \<not> used b i \<and> (\<forall>j < i. used b j) \<and> find b = Ret (int i))
      \<or> ((\<forall>i < cap b. used b i) \<and> find b = Ret (- 1))"
    and mark_spec: "good b \<Longrightarrow> i < cap b \<Longrightarrow>
      \<exists>b'. mark b i = Ret b' \<and> good b' \<and> cap b' = cap b \<and> used b' = (used b)(i := True)"
    and unmark_spec: "good b \<Longrightarrow> i < cap b \<Longrightarrow>
      \<exists>b'. unmark b i = Ret b' \<and> good b' \<and> cap b' = cap b \<and> used b' = (used b)(i := False)"
    and used_cap: "good b \<Longrightarrow> used b i \<Longrightarrow> i < cap b"
begin

text \<open>First fit: what \<open>find\<close> answers is free, and below it everything is taken.\<close>

lemma find_free:
  assumes "good b" and "find b = Ret r" and "0 \<le> r"
  shows "nat r < cap b" and "\<not> used b (nat r)" and "\<forall>j < nat r. used b j"
  using find_spec [OF assms(1)] assms(2,3) by auto

lemma find_full:
  assumes "good b" and "find b = Ret r" and "r < 0"
  shows "\<forall>i < cap b. used b i" and "r = - 1"
  using find_spec [OF assms(1)] assms(2,3) by auto

lemma find_returns: "good b \<Longrightarrow> \<exists>r. find b = Ret r \<and> - 1 \<le> r \<and> r < int (cap b)"
  using find_spec [of b] by fastforce

text \<open>An allocation step: the identifier found is marked and no other identifier changes.\<close>

lemma find_mark:
  assumes "good b" and "find b = Ret r" and "0 \<le> r"
  obtains b' where "mark b (nat r) = Ret b'" and "good b'" and "cap b' = cap b"
    and "used b' = (used b)(nat r := True)"
  using mark_spec [OF assms(1) find_free(1) [OF assms]] by blast

lemma mark_unmark:
  assumes "good b" and "i < cap b" and "\<not> used b i" and "mark b i = Ret b1" and "unmark b1 i = Ret b2"
  shows "used b2 = used b"
proof -
  from mark_spec [OF assms(1,2)] assms(4)
  have b1: "good b1" "cap b1 = cap b" "used b1 = (used b)(i := True)" by auto
  with unmark_spec [of b1 i] assms(2,5) have "used b2 = (used b1)(i := False)" by auto
  with b1(3) assms(3) show ?thesis by (auto simp: fun_eq_iff)
qed

end

subsection \<open>Correctness of the operations\<close>

lemma BIT_ARRAY_CNT_less: "i < n \<Longrightarrow> i div 8 < BIT_ARRAY_CNT n"
  unfolding BIT_ARRAY_CNT_def by arith

lemma BIT_ARRAY_CNT_u8 [simp]: "BIT_ARRAY_CNT (unat (c :: u8)) < 256"
  using unat_u8_less [of c] unfolding BIT_ARRAY_CNT_def by arith

lemma bitmap_ok_index: "bitmap_ok b \<Longrightarrow> i < unat (bit_cnt b) \<Longrightarrow> i div 8 < length (bit_arr b)"
  by (simp add: bitmap_ok_def BIT_ARRAY_CNT_less)

lemma bit_exp_u8: "bit (2 ^ k :: u8) j \<longleftrightarrow> j = k \<and> k < 8"
  by (auto simp: bit_exp_iff)

lemma and_push_bit_1 [simp]: "(v :: u8) AND 2 ^ k = 0 \<longleftrightarrow> \<not> bit v k"
proof -
  have "v AND 2 ^ k = 0 \<longleftrightarrow> (\<forall>n. \<not> (bit v n \<and> n = k \<and> k < 8))"
    by (subst bit_eq_iff) (auto simp: bit_and_iff bit_exp_u8 dest: bit_imp_le_length)
  also have "\<dots> \<longleftrightarrow> \<not> bit v k" by (auto dest: bit_imp_le_length)
  finally show ?thesis .
qed

lemma bitmap_create_ok: "bitmap_create s a c = Some b \<Longrightarrow> bitmap_ok b \<and> bit_cnt b = c \<and> (\<forall>i. \<not> taken b i)"
  by (auto simp: bitmap_create_def bitmap_ok_def taken_def Let_def BIT_ARRAY_CNT_less split: if_splits)

lemma bit_or_push: "k < 8 \<Longrightarrow> bit ((v :: u8) OR 2 ^ k) j \<longleftrightarrow> bit v j \<or> j = k"
  by (auto simp: bit_or_iff bit_exp_u8)

lemma bit_and_not_push:
  "k < 8 \<Longrightarrow> j < 8 \<Longrightarrow> bit ((v :: u8) AND NOT (2 ^ k)) j \<longleftrightarrow> bit v j \<and> j \<noteq> k"
  by (auto simp: bit_and_iff bit_not_iff bit_exp_u8)

lemma div_mod_8_eq: "i div 8 = j div 8 \<Longrightarrow> i mod 8 = j mod 8 \<Longrightarrow> i = (j :: nat)"
  by (metis div_mult_mod_eq)

lemma bitmap_set_ok:
  assumes "bitmap_ok b" and "i < bit_cnt b"
  shows "\<exists>b'. bitmap_set b i = Ret b' \<and> bitmap_ok b' \<and> bit_cnt b' = bit_cnt b
           \<and> taken b' = (taken b)(unat i := True)"
proof -
  let ?k = "unat i div 8" and ?o = "unat i mod 8"
  let ?b = "b\<lparr>bit_arr := (bit_arr b)[?k := bit_arr b ! ?k OR push_bit ?o 1]\<rparr>"
  from assms(2) have lt: "unat i < unat (bit_cnt b)" by (simp add: word_less_nat_alt)
  with assms(1) have idx: "?k < length (bit_arr b)" by (rule bitmap_ok_index)
  from assms(2) have "\<not> bit_cnt b \<le> i" by simp
  with idx have "bitmap_set b i = Ret ?b" by (simp add: bitmap_set_def Let_def)
  moreover have "taken ?b = (taken b)(unat i := True)"
  proof
    fix j show "taken ?b j = ((taken b)(unat i := True)) j"
      using lt idx by (cases "j div 8 = ?k") (auto simp: taken_def bit_or_push dest: div_mod_8_eq)
  qed
  ultimately show ?thesis using assms(1) by (auto simp: bitmap_ok_def)
qed

lemma bitmap_clear_ok:
  assumes "bitmap_ok b" and "i < bit_cnt b"
  shows "\<exists>b'. bitmap_clear b i = Ret b' \<and> bitmap_ok b' \<and> bit_cnt b' = bit_cnt b
           \<and> taken b' = (taken b)(unat i := False)"
proof -
  let ?k = "unat i div 8" and ?o = "unat i mod 8"
  let ?b = "b\<lparr>bit_arr := (bit_arr b)[?k := bit_arr b ! ?k AND NOT (push_bit ?o 1)]\<rparr>"
  from assms(2) have lt: "unat i < unat (bit_cnt b)" by (simp add: word_less_nat_alt)
  with assms(1) have idx: "?k < length (bit_arr b)" by (rule bitmap_ok_index)
  from assms(2) have "\<not> bit_cnt b \<le> i" by simp
  with idx have "bitmap_clear b i = Ret ?b" by (simp add: bitmap_clear_def Let_def)
  moreover have "taken ?b = (taken b)(unat i := False)"
  proof
    fix j show "taken ?b j = ((taken b)(unat i := False)) j"
      using lt idx by (cases "j div 8 = ?k") (auto simp: taken_def bit_and_not_push dest: div_mod_8_eq)
  qed
  ultimately show ?thesis using assms(1) by (auto simp: bitmap_ok_def)
qed

lemma bitmap_get_ok: "bitmap_ok b \<Longrightarrow> i < bit_cnt b \<Longrightarrow> bitmap_get b i = Ret (taken b (unat i))"
  using bitmap_ok_index [of b "unat i"]
  by (auto simp: bitmap_get_def taken_def Let_def word_less_nat_alt)

lemma bitmap_copy_ok:
  assumes "bitmap_ok b" and "bitmap_ok src" and "bit_cnt src \<le> bit_cnt b" and "unat (bit_cnt src) mod 8 = 0"
  shows "\<exists>b'. bitmap_copy b src = Ret b' \<and> bitmap_ok b' \<and> bit_cnt b' = bit_cnt b \<and> taken b' = taken src"
proof -
  let ?n = "unat (bit_arr_cnt src)" and ?m = "unat (bit_arr_cnt b)"
  let ?b = "b\<lparr>bit_arr := take ?n (bit_arr src) @ drop ?n (replicate ?m 0)\<rparr>"
  from assms have nm: "?n \<le> ?m"
    by (simp add: bitmap_ok_def BIT_ARRAY_CNT_def word_le_nat_alt div_le_mono)
  with assms have "bitmap_copy b src = Ret ?b"
    by (auto simp: bitmap_copy_def bitmap_reset_def bitmap_ok_def Let_def bug_on_def)
  moreover have "taken ?b = taken src"
  proof
    fix i
    have "8 * ?n = unat (bit_cnt src)"
      using assms(2,4) by (auto simp: bitmap_ok_def BIT_ARRAY_CNT_def)
    then have "i < unat (bit_cnt src) \<longleftrightarrow> i div 8 < ?n" by auto
    moreover have "i div 8 < ?m" if "i < unat (bit_cnt b)"
      using that assms(1) by (simp add: bitmap_ok_def BIT_ARRAY_CNT_less)
    ultimately show "taken ?b i = taken src i"
      using assms nm by (auto simp: taken_def nth_append bitmap_ok_def word_le_nat_alt)
  qed
  ultimately show ?thesis using assms nm by (auto simp: bitmap_ok_def)
qed

lemma find_zero_in_byte_step:
  "find_zero_in_byte v c k (int p) =
     (if k < 8 then
        if unat c \<le> p then Inl (- 1)
        else if \<not> bit v k then Inl (int p)
        else find_zero_in_byte v c (Suc k) (int (Suc p))
      else Inr (int p))"
proof -
  have "uint c \<le> int p \<longleftrightarrow> unat c \<le> p" by (metis nat_le_iff nat_uint_eq)
  then show ?thesis by (subst find_zero_in_byte.simps) (simp add: add.commute)
qed

lemma find_zero_in_byte_Inr:
  "find_zero_in_byte v c k (int p) = Inr q \<Longrightarrow> k \<le> 8 \<Longrightarrow>
     q = int (p + (8 - k)) \<and> (\<forall>j. k \<le> j \<and> j < 8 \<longrightarrow> bit v j)"
proof (induction "8 - k" arbitrary: k p)
  case 0
  then have "k = 8" by simp
  with 0 show ?case by (auto simp: find_zero_in_byte_step [of v c 8 p])
next
  case (Suc n)
  from Suc.hyps(2) have k: "k < 8" and n: "n = 8 - Suc k" by auto
  with Suc.prems have b: "bit v k" and r: "find_zero_in_byte v c (Suc k) (int (Suc p)) = Inr q"
    by (auto simp: find_zero_in_byte_step [of v c k p] split: if_splits)
  from k have "Suc k \<le> 8" by simp
  from Suc.hyps(1) [OF n r this] have q: "q = int (Suc p + (8 - Suc k))"
    and rest: "\<forall>j. Suc k \<le> j \<and> j < 8 \<longrightarrow> bit v j" by auto
  have "bit v j" if "k \<le> j" "j < 8" for j
    using that rest b by (cases "j = k") auto
  with q k show ?case by auto
qed

text \<open>The loop answers the first clear bit, or -1 when it reaches \<open>bit_cnt\<close> first.\<close>

lemma find_zero_in_byte_Inl:
  "find_zero_in_byte v c k (int p) = Inl r \<Longrightarrow> k \<le> 8 \<Longrightarrow>
     (r = - 1 \<and> unat c < p + (8 - k) \<and> (\<forall>j. k \<le> j \<and> j < 8 \<and> p + (j - k) < unat c \<longrightarrow> bit v j))
   \<or> (\<exists>j. k \<le> j \<and> j < 8 \<and> r = int (p + (j - k)) \<and> p + (j - k) < unat c \<and> \<not> bit v j
          \<and> (\<forall>i. k \<le> i \<and> i < j \<longrightarrow> bit v i))"
proof (induction "8 - k" arbitrary: k p)
  case 0
  then have "k = 8" by simp
  with 0 show ?case by (auto simp: find_zero_in_byte_step [of v c 8 p])
next
  case (Suc n)
  from Suc.hyps(2) have k: "k < 8" and n: "n = 8 - Suc k" by auto
  consider "unat c \<le> p" "r = - 1" | "p < unat c" "\<not> bit v k" "r = int p"
    | "p < unat c" "bit v k" "find_zero_in_byte v c (Suc k) (int (Suc p)) = Inl r"
    using Suc.prems k by (auto simp: find_zero_in_byte_step [of v c k p] split: if_splits)
  then show ?case
  proof cases
    case 1 with k show ?thesis by auto
  next
    case 2 with k show ?thesis by (intro disjI2 exI [of _ k]) auto
  next
    case 3
    have split: "j = k \<or> Suc k \<le> j" if "k \<le> j" for j :: nat
      using that by auto
    from k have "Suc k \<le> 8" by simp
    from Suc.hyps(1) [OF n 3(3) this] show ?thesis
    proof (elim disjE exE conjE)
      assume "r = - 1" "unat c < Suc p + (8 - Suc k)"
        and "\<forall>j. Suc k \<le> j \<and> j < 8 \<and> Suc p + (j - Suc k) < unat c \<longrightarrow> bit v j"
      moreover from this have "bit v j" if "k \<le> j" "j < 8" "p + (j - k) < unat c" for j
        using that split [of j] 3(2) by auto
      ultimately show ?thesis using k by (intro disjI1) auto
    next
      fix j assume "Suc k \<le> j" "j < 8" "r = int (Suc p + (j - Suc k))" "Suc p + (j - Suc k) < unat c"
        "\<not> bit v j" "\<forall>i. Suc k \<le> i \<and> i < j \<longrightarrow> bit v i"
      moreover from this have "bit v i" if "k \<le> i" "i < j" for i
        using that split [of i] 3(2) by auto
      ultimately show ?thesis using k by (intro disjI2 exI [of _ j]) auto
    qed
  qed
qed

lemma taken_byte:
  "bitmap_ok b \<Longrightarrow> j < 8 \<Longrightarrow> 8 * k + j < unat (bit_cnt b) \<Longrightarrow> taken b (8 * k + j) = bit (bit_arr b ! k) j"
  by (simp add: taken_def)

lemma below_next_byte: "j < 8 * Suc k \<Longrightarrow> j < 8 * k \<or> (\<exists>i < 8. j = 8 * k + (i :: nat))"
  by (cases "j < 8 * k") (auto intro: exI [of _ "j - 8 * k"])

lemma find_zero_from_spec:
  assumes ok: "bitmap_ok b"
  shows "\<forall>j < 8 * k. j < unat (bit_cnt b) \<longrightarrow> taken b j \<Longrightarrow>
    (\<exists>i < unat (bit_cnt b). \<not> taken b i \<and> (\<forall>j < i. taken b j) \<and> find_zero_from b k (int (8 * k)) = Ret (int i))
    \<or> ((\<forall>i < unat (bit_cnt b). taken b i) \<and> find_zero_from b k (int (8 * k)) = Ret (- 1))"
proof (induction "unat (bit_arr_cnt b) - k" arbitrary: k)
  case 0
  then have "unat (bit_cnt b) \<le> 8 * k" using ok by (auto simp: bitmap_ok_def BIT_ARRAY_CNT_def)
  with 0 show ?case by (subst (1 2) find_zero_from.simps) auto
next
  case (Suc n)
  let ?v = "bit_arr b ! k"
  from Suc.hyps(2) have k: "k < unat (bit_arr_cnt b)" and n: "n = unat (bit_arr_cnt b) - Suc k" by auto
  have step: "find_zero_from b k (int (8 * k)) =
      (if ?v = 0xFF then find_zero_from b (Suc k) (int (8 * Suc k))
       else case find_zero_in_byte ?v (bit_cnt b) 0 (int (8 * k)) of
              Inl r \<Rightarrow> Ret r | Inr p \<Rightarrow> find_zero_from b (Suc k) p)"
    using k ok by (subst find_zero_from.simps) (simp add: bitmap_ok_def algebra_simps)
  have upto: "taken b j" if "j < 8 * Suc k" "j < unat (bit_cnt b)" "\<And>i. i < 8 \<Longrightarrow> j = 8 * k + i \<Longrightarrow> bit ?v i" for j
    using below_next_byte [OF that(1)]
  proof
    assume "j < 8 * k" with that(2) Suc.prems show ?thesis by blast
  next
    assume "\<exists>i < 8. j = 8 * k + i" with that(2,3) taken_byte [OF ok] show ?thesis by blast
  qed
  have advance: "?case" if "find_zero_from b k (int (8 * k)) = find_zero_from b (Suc k) (int (8 * Suc k))"
    and "\<forall>j < 8. bit ?v j"
  proof -
    have "\<forall>j < 8 * Suc k. j < unat (bit_cnt b) \<longrightarrow> taken b j"
      using that(2) by (auto intro: upto)
    from Suc.hyps(1) [OF n this] that(1) show ?thesis by (simp only:)
  qed
  show ?case
  proof (cases "?v = 0xFF")
    case True
    then have "\<forall>j < 8. bit ?v j" using all_bits_u8 by simp
    with step True show ?thesis by (intro advance) auto
  next
    case False
    show ?thesis
    proof (cases "find_zero_in_byte ?v (bit_cnt b) 0 (int (8 * k))")
      case (Inr p)
      from find_zero_in_byte_Inr [OF Inr] have "p = int (8 * Suc k)" "\<forall>j < 8. bit ?v j" by auto
      with step False Inr show ?thesis by (intro advance) auto
    next
      case (Inl r)
      with step False have r: "find_zero_from b k (int (8 * k)) = Ret r" by simp
      from find_zero_in_byte_Inl [OF Inl le0] show ?thesis
      proof (elim disjE exE conjE)
        assume "r = - 1" "unat (bit_cnt b) < 8 * k + (8 - 0)"
          and *: "\<forall>j. 0 \<le> j \<and> j < 8 \<and> 8 * k + (j - 0) < unat (bit_cnt b) \<longrightarrow> bit ?v j"
        then have "\<forall>i < unat (bit_cnt b). taken b i" by (auto intro: upto)
        with r \<open>r = - 1\<close> show ?thesis by simp
      next
        fix j assume j: "j < 8" "r = int (8 * k + (j - 0))" "8 * k + (j - 0) < unat (bit_cnt b)"
          "\<not> bit ?v j" "\<forall>i. 0 \<le> i \<and> i < j \<longrightarrow> bit ?v i"
        have "taken b i" if "i < 8 * k + j" for i
          using that j by (intro upto) auto
        with r j taken_byte [OF ok, of j k] show ?thesis by (intro disjI1 exI [of _ "8 * k + j"]) auto
      qed
    qed
  qed
qed

interpretation bm: slot_bitmap bitmap_ok "\<lambda>b. unat (bit_cnt b)" taken bitmap_find_first_zero_bit
  "\<lambda>b i. bitmap_set b (of_nat i)" "\<lambda>b i. bitmap_clear b (of_nat i)"
proof
  show "(\<exists>i < unat (bit_cnt b). \<not> taken b i \<and> (\<forall>j < i. taken b j) \<and> bitmap_find_first_zero_bit b = Ret (int i))
      \<or> ((\<forall>i < unat (bit_cnt b). taken b i) \<and> bitmap_find_first_zero_bit b = Ret (- 1))"
    if "bitmap_ok b" for b
    using find_zero_from_spec [OF that, of 0] by (simp add: bitmap_find_first_zero_bit_def)
next
  fix b :: bitmap_t and i :: nat
  assume ok: "bitmap_ok b" and i: "i < unat (bit_cnt b)"
  from i unat_u8_less [of "bit_cnt b"] have u: "unat (of_nat i :: u8) = i"
    by (intro unat_of_nat_u8) linarith
  with i have lt: "of_nat i < bit_cnt b" by (simp add: word_less_nat_alt)
  from bitmap_set_ok [OF ok lt] u
  show "\<exists>b'. bitmap_set b (of_nat i) = Ret b' \<and> bitmap_ok b' \<and> unat (bit_cnt b') = unat (bit_cnt b)
     \<and> taken b' = (taken b)(i := True)" by auto
  from bitmap_clear_ok [OF ok lt] u
  show "\<exists>b'. bitmap_clear b (of_nat i) = Ret b' \<and> bitmap_ok b' \<and> unat (bit_cnt b') = unat (bit_cnt b)
     \<and> taken b' = (taken b)(i := False)" by auto
next
  show "i < unat (bit_cnt b)" if "taken b i" for b i using that by (simp add: taken_def)
qed

subsection \<open>Properties\<close>

text \<open>
  C29. \<^verbatim>\<open>bitmap_find_first_zero_bit\<close>, the byte-wise scan with its \<^verbatim>\<open>0xFF\<close> shortcut, returns the
  least clear bit below \<^verbatim>\<open>bit_cnt\<close>, and -1 exactly when all are set, on every well-formed
  bitmap, including those whose size is not a multiple of eight.
\<close>

theorem find_first_zero_bit_correct:
  assumes "bitmap_ok b"
  shows "bitmap_find_first_zero_bit b =
    Ret (case find (\<lambda>i. \<not> taken b i) [0..<unat (bit_cnt b)] of None \<Rightarrow> - 1 | Some i \<Rightarrow> int i)"
proof -
  let ?n = "unat (bit_cnt b)"
  from bm.find_spec [OF assms] show ?thesis
  proof
    assume "\<exists>i < ?n. \<not> taken b i \<and> (\<forall>j < i. taken b j) \<and> bitmap_find_first_zero_bit b = Ret (int i)"
    then obtain i where i: "i < ?n" "\<not> taken b i" "\<forall>j < i. taken b j" "bitmap_find_first_zero_bit b = Ret (int i)"
      by blast
    then have "find (\<lambda>i. \<not> taken b i) [0..<?n] = Some i"
      unfolding find_Some_iff by (intro exI [of _ i]) auto
    with i(4) show ?thesis by simp
  next
    assume "(\<forall>i < ?n. taken b i) \<and> bitmap_find_first_zero_bit b = Ret (- 1)"
    moreover from this have "find (\<lambda>i. \<not> taken b i) [0..<?n] = None" unfolding find_None_iff by auto
    ultimately show ?thesis by simp
  qed
qed

theorem find_first_zero_bit_correct_witness:
  "bitmap_find_first_zero_bit \<lparr>bit_arr = [255, 15], bit_arr_cnt = 2, bit_cnt = 12\<rparr> = Ret (- 1)"
proof -
  let ?b = "\<lparr>bit_arr = [255, 15], bit_arr_cnt = 2, bit_cnt = 12\<rparr>"
  have "bitmap_ok ?b" by (simp add: bitmap_ok_def BIT_ARRAY_CNT_def)
  moreover have "find (\<lambda>i. \<not> taken ?b i) [0..<12] = None"
    by (simp add: taken_def upt_conv_Cons bit_iff_odd)
  ultimately show ?thesis by (simp add: find_first_zero_bit_correct)
qed

text \<open>
  Setting and clearing a bit of a well-formed bitmap are read back by \<^verbatim>\<open>bitmap_get\<close> at every
  index: the bit addressed has the new value and no other bit changes.
\<close>

theorem bitmap_set_clear_get:
  assumes "bitmap_ok b" and "i < bit_cnt b" and "j < bit_cnt b"
  shows "ebind (bitmap_set b i) (\<lambda>b'. bitmap_get b' j) = (if j = i then Ret True else bitmap_get b j)
    \<and> ebind (bitmap_clear b i) (\<lambda>b'. bitmap_get b' j) = (if j = i then Ret False else bitmap_get b j)"
proof -
  have inj: "unat j = unat i \<longleftrightarrow> j = i" by (simp add: word_unat_eq_iff)
  from bitmap_set_ok [OF assms(1,2)] bitmap_clear_ok [OF assms(1,2)] assms inj show ?thesis
    by (auto simp: bitmap_get_ok)
qed

theorem bitmap_set_clear_get_witness:
  "ebind (bitmap_set \<lparr>bit_arr = [5], bit_arr_cnt = 1, bit_cnt = 8\<rparr> 3) (\<lambda>b'. bitmap_get b' 3) = Ret True"
  using bitmap_set_clear_get [of "\<lparr>bit_arr = [5], bit_arr_cnt = 1, bit_cnt = 8\<rparr>" 3 3]
  by (simp add: bitmap_ok_def BIT_ARRAY_CNT_def)

text \<open>
  The range check of \<^verbatim>\<open>bitmap_get\<close> is off by one: at \<^verbatim>\<open>i = bit_cnt\<close> it does not stop the call, and
  when the size is a multiple of eight, as every table's is, the read is past the array.
\<close>

theorem bitmap_get_at_count_faults:
  assumes "bitmap_ok b" and "unat (bit_cnt b) mod 8 = 0"
  shows "bitmap_get b (bit_cnt b) = Fault"
proof -
  have "length (bit_arr b) = unat (bit_cnt b) div 8"
    using assms by (auto simp: bitmap_ok_def BIT_ARRAY_CNT_def)
  then show ?thesis by (simp add: bitmap_get_def Let_def)
qed

theorem bitmap_get_at_count_faults_witness:
  "bitmap_get \<lparr>bit_arr = [0], bit_arr_cnt = 1, bit_cnt = 8\<rparr> 8 = Fault"
  using bitmap_get_at_count_faults [of "\<lparr>bit_arr = [0], bit_arr_cnt = 1, bit_cnt = 8\<rparr>"]
  by (simp add: bitmap_ok_def BIT_ARRAY_CNT_def)

end
