(* ===== verification/Id_Table.thy ===== *)
theory Id_Table
  imports Bitmap
begin

text \<open>
  The identifier tables of the kernel. \<^verbatim>\<open>kernel/refobj.c\<close>, \<^verbatim>\<open>kernel/timer.c\<close>,
  \<^verbatim>\<open>kernel/mpq.c\<close> and \<^verbatim>\<open>lib/tls.c\<close> each keep a bitmap of the identifiers in use, a
  table indexed by identifier that grows by a fixed stride, and a maximum; the four
  allocators are the same text with these parameters. They are modelled once here,
  with the stride, the maximum and the table's zero entry as arguments, and each
  component's allocator is its own definition below.

  The object tables (all but the TLS one) pair the identifier with a 16-bit life id, so
  that a handle whose slot was freed and reused is told apart from the new one.
\<close>

unbundle bit_operations_syntax

text \<open>The table of one component: the static variables \<^verbatim>\<open>*_id_pool_bits\<close>, \<^verbatim>\<open>*_table\<close>, \<^verbatim>\<open>*_table_size\<close>.\<close>

record 'e id_pool =
  pool_bits :: bitmap_t
  pool_table :: "'e list"
  pool_size :: int

text \<open>The outcome of the three allocations made when a table grows.\<close>

record grow_mem =
  bits_ok :: bool
  arr_ok :: bool
  table_ok :: bool

text \<open>\<^verbatim>\<open>bitmap_set (bits, id)\<close> and the return value, once an identifier is chosen.\<close>

definition pool_take :: "int \<Rightarrow> ('e, 'z) id_pool_scheme \<Rightarrow> (int \<times> ('e, 'z) id_pool_scheme) exec" where
  "pool_take ident t = ebind (bitmap_set (pool_bits t) (word_of_int ident)) (\<lambda>b. Ret (ident, t\<lparr>pool_bits := b\<rparr>))"

text \<open>
  \<^verbatim>\<open>get_unused_refobj_id\<close> and its copies. \<^verbatim>\<open>bitmap_create\<close> takes a \<^verbatim>\<open>uint8_t\<close>, so the new
  size is truncated to eight bits at the call, as in C.
\<close>

definition pool_get_unused ::
  "int \<Rightarrow> int \<Rightarrow> 'e \<Rightarrow> grow_mem \<Rightarrow> ('e, 'z) id_pool_scheme \<Rightarrow> (int \<times> ('e, 'z) id_pool_scheme) exec" where
  "pool_get_unused stride max_size zero m t =
     ebind (bitmap_find_first_zero_bit (pool_bits t)) (\<lambda>ident.
     if ident < 0 then
       if max_size \<le> pool_size t then Ret (- AOSL_EOVERFLOW, t)
       else let new_size = pool_size t + stride in
         case bitmap_create (bits_ok m) (arr_ok m) (word_of_int new_size) of
           None \<Rightarrow> Ret (- AOSL_ENOMEM, t)
         | Some new_bits \<Rightarrow>
             if \<not> table_ok m then Ret (- AOSL_ENOMEM, t)
             else ebind (bitmap_copy new_bits (pool_bits t)) (\<lambda>new_bits.
               let t' = t\<lparr>pool_bits := new_bits,
                          pool_table := take (nat (pool_size t)) (pool_table t)
                                        @ replicate (nat (new_size - pool_size t)) zero,
                          pool_size := new_size\<rparr> in
               ebind (bitmap_find_first_zero_bit new_bits) (\<lambda>ident.
               bug_on (ident < 0) (pool_take ident t')))
     else pool_take ident t)"

definition pool_put_unused :: "int \<Rightarrow> ('e, 'z) id_pool_scheme \<Rightarrow> ('e, 'z) id_pool_scheme exec" where
  "pool_put_unused ident t =
     bug_on (ident < 0 \<or> pool_size t \<le> ident)
       (ebind (bitmap_clear (pool_bits t) (word_of_int ident)) (\<lambda>b. Ret (t\<lparr>pool_bits := b\<rparr>)))"

text \<open>Object tables: the entry is a pointer to the object, or null.\<close>

record 'p obj_table = "'p option id_pool" +
  life_id :: u16

definition STATIC_ID_POOL_SIZE :: nat where "STATIC_ID_POOL_SIZE = 8"

definition obj_table_init :: "grow_mem \<Rightarrow> 'p obj_table exec" where
  "obj_table_init m =
     (case bitmap_create (bits_ok m) (arr_ok m) (of_nat STATIC_ID_POOL_SIZE) of
        None \<Rightarrow> Abort
      | Some b \<Rightarrow> if \<not> table_ok m then Abort
          else Ret \<lparr>pool_bits = b, pool_table = replicate STATIC_ID_POOL_SIZE None,
                    pool_size = int STATIC_ID_POOL_SIZE, life_id = 1\<rparr>)"

text \<open>
  \<^verbatim>\<open>k_refobj_fini\<close> insists that every object is gone. (\<^verbatim>\<open>k_timer_fini\<close> and \<^verbatim>\<open>mpq_fini\<close> only log
  what is left.)
\<close>

definition k_refobj_fini :: "'p obj_table \<Rightarrow> unit exec" where
  "k_refobj_fini t = bug_on (list_ex (\<lambda>e. e \<noteq> None) (take (nat (pool_size t)) (pool_table t))) (Ret ())"

text \<open>The handle: \<^verbatim>\<open>((uint32_t)life_id << 16) | ref_id\<close>, the \<^verbatim>\<open>int16_t\<close> sign-extended first.\<close>

definition make_obj_id :: "16 word \<Rightarrow> u16 \<Rightarrow> u32" where
  "make_obj_id ref_id life = push_bit 16 (ucast life) OR scast ref_id"

definition get_obj_slot :: "u32 \<Rightarrow> int" where
  "get_obj_slot h = sint (ucast h :: 16 word)"

definition get_obj_life :: "u32 \<Rightarrow> u16" where
  "get_obj_life h = ucast (drop_bit 16 h)"

definition next_life_id :: "u16 \<Rightarrow> u16" where
  "next_life_id l = (if l + 1 = 0 then 1 else l + 1)"

text \<open>
  \<^verbatim>\<open>__refobj_id_install\<close> and its copies: the slot must be empty; the new handle is
  returned (the C code stores it into the object).
\<close>

definition obj_id_install ::
  "int \<Rightarrow> 'p \<Rightarrow> ('p, 'z) obj_table_scheme \<Rightarrow> (u32 \<times> ('p, 'z) obj_table_scheme) exec" where
  "obj_id_install ident p t =
     bug_on (ident < 0) (bug_on (pool_size t \<le> ident)
       (ebind (arr_get (pool_table t) (nat ident)) (\<lambda>e.
        if e \<noteq> None then Abort
        else ebind (arr_set (pool_table t) (nat ident) (Some p)) (\<lambda>tab.
          Ret (make_obj_id (word_of_int ident) (life_id t),
               t\<lparr>pool_table := tab, life_id := next_life_id (life_id t)\<rparr>)))))"

definition obj_id_uninstall ::
  "int \<Rightarrow> 'p \<Rightarrow> ('p, 'z) obj_table_scheme \<Rightarrow> (int \<times> ('p, 'z) obj_table_scheme) exec" where
  "obj_id_uninstall ident p t =
     bug_on (ident < 0) (bug_on (pool_size t \<le> ident)
       (ebind (arr_get (pool_table t) (nat ident)) (\<lambda>e.
        if e = Some p
        then ebind (arr_set (pool_table t) (nat ident) None) (\<lambda>tab. Ret (0, t\<lparr>pool_table := tab\<rparr>))
        else Ret (- AOSL_EINVAL, t))))"

text \<open>
  The lookup part of \<^verbatim>\<open>__refobj_get\<close>, \<^verbatim>\<open>timer_get\<close> and \<^verbatim>\<open>__mpq_get\<close>: \<open>obj_id_of\<close> reads the
  handle stored in the object.
\<close>

definition obj_lookup :: "('p \<Rightarrow> u32) \<Rightarrow> u32 \<Rightarrow> ('p, 'z) obj_table_scheme \<Rightarrow> 'p option exec" where
  "obj_lookup obj_id_of h t =
     (let slot = get_obj_slot h in
      if slot < 0 then Ret None
      else if slot < pool_size t then
        ebind (arr_get (pool_table t) (nat slot)) (\<lambda>e.
          Ret (case e of None \<Rightarrow> None | Some p \<Rightarrow> if obj_id_of p = h then Some p else None))
      else Ret None)"

subsection \<open>The components' allocators\<close>

definition REFOBJ_ID_POOL_MAX_SIZE :: int where "REFOBJ_ID_POOL_MAX_SIZE = 20480"
definition TIMER_ID_POOL_MAX_SIZE :: int where "TIMER_ID_POOL_MAX_SIZE = 20480"
definition MPQ_ID_POOL_MAX_SIZE :: int where "MPQ_ID_POOL_MAX_SIZE = 2048"

definition get_unused_refobj_id :: "grow_mem \<Rightarrow> 'p obj_table \<Rightarrow> (int \<times> 'p obj_table) exec" where
  "get_unused_refobj_id = pool_get_unused 8 REFOBJ_ID_POOL_MAX_SIZE None"

definition put_unused_refobj_id :: "int \<Rightarrow> 'p obj_table \<Rightarrow> 'p obj_table exec" where
  "put_unused_refobj_id = pool_put_unused"

definition get_unused_timer_id :: "grow_mem \<Rightarrow> 'p obj_table \<Rightarrow> (int \<times> 'p obj_table) exec" where
  "get_unused_timer_id = pool_get_unused 8 TIMER_ID_POOL_MAX_SIZE None"

definition put_unused_timer_id :: "int \<Rightarrow> 'p obj_table \<Rightarrow> 'p obj_table exec" where
  "put_unused_timer_id = pool_put_unused"

text \<open>The queue table also counts the queues: \<^verbatim>\<open>__mpq_count\<close>.\<close>

record 'p mpq_table = "'p obj_table" +
  mpq_count :: u64

definition get_unused_mpq_id :: "grow_mem \<Rightarrow> 'p mpq_table \<Rightarrow> (int \<times> 'p mpq_table) exec" where
  "get_unused_mpq_id m t =
     ebind (pool_get_unused 8 MPQ_ID_POOL_MAX_SIZE None m t) (\<lambda>(ident, t').
       Ret (ident, if 0 \<le> ident then t'\<lparr>mpq_count := mpq_count t' + 1\<rparr> else t'))"

definition put_unused_mpq_id :: "int \<Rightarrow> 'p mpq_table \<Rightarrow> 'p mpq_table exec" where
  "put_unused_mpq_id ident t =
     ebind (pool_put_unused ident t) (\<lambda>t'. Ret (t'\<lparr>mpq_count := mpq_count t' - 1\<rparr>))"

subsection \<open>Invariant\<close>

text \<open>Every identifier below the table's size has a bit and an entry; the size is a multiple of the stride.\<close>

definition pool_ok :: "int \<Rightarrow> ('e, 'z) id_pool_scheme \<Rightarrow> bool" where
  "pool_ok stride t \<longleftrightarrow> bitmap_ok (pool_bits t)
     \<and> unat (bit_cnt (pool_bits t)) = nat (pool_size t)
     \<and> length (pool_table t) = nat (pool_size t)
     \<and> stride dvd pool_size t \<and> 0 < pool_size t"

abbreviation in_use :: "('e, 'z) id_pool_scheme \<Rightarrow> nat \<Rightarrow> bool" where
  "in_use t \<equiv> taken (pool_bits t)"

text \<open>Object tables: an installed object's slot is in use, and the life id is never 0.\<close>

definition obj_table_ok :: "('p, 'z) obj_table_scheme \<Rightarrow> bool" where
  "obj_table_ok t \<longleftrightarrow> pool_ok 8 t \<and> life_id t \<noteq> 0
     \<and> (\<forall>i < length (pool_table t). pool_table t ! i \<noteq> None \<longrightarrow> in_use t i)"

text \<open>A stride the bitmap's eight-bit size can follow up to 256.\<close>

definition good_stride :: "int \<Rightarrow> bool" where
  "good_stride s \<longleftrightarrow> 0 < s \<and> 8 dvd s \<and> s dvd 256"

lemma good_stride_8 [simp]: "good_stride 8" and good_stride_16 [simp]: "good_stride 16"
  by (simp_all add: good_stride_def)

lemma pool_size_u8: "pool_ok s t \<Longrightarrow> pool_size t < 256"
  using unat_u8_less [of "bit_cnt (pool_bits t)"] by (simp add: pool_ok_def nat_less_iff)

text \<open>A table never outgrows the eight bits of \<^verbatim>\<open>bit_cnt\<close>: one stride short of 256 is the largest size.\<close>

lemma pool_size_max:
  assumes "pool_ok s t" and "good_stride s"
  shows "pool_size t + s \<le> 256"
proof -
  from assms obtain k m where k: "pool_size t = s * k" and m: "256 = s * m" and s: "0 < s"
    unfolding pool_ok_def good_stride_def dvd_def by blast
  from pool_size_u8 [OF assms(1)] have "s * k < s * m" using k m by simp
  then have "k + 1 \<le> m" using s by simp
  then have "s * (k + 1) \<le> s * m" using s by (intro mult_left_mono) auto
  then show ?thesis using k m by (simp add: algebra_simps)
qed

lemma word_of_int_u8: "0 \<le> n \<Longrightarrow> n < 256 \<Longrightarrow> unat (word_of_int n :: u8) = nat n"
  by (metis unat_of_nat_u8 nat_less_iff of_int_of_nat_eq of_nat_numeral nat_0_le)

lemma word_of_int_256 [simp]: "word_of_int 256 = (0 :: u8)"
  by simp

lemma bitmap_create_cases:
  assumes "0 < n" and "n \<le> 256"
  obtains (none) "bitmap_create a b (word_of_int n) = None" "n = 256 \<or> \<not> a \<or> \<not> b"
  | (some) bits where "bitmap_create a b (word_of_int n) = Some bits" "n < 256" "a" "b" "bitmap_ok bits"
      "unat (bit_cnt bits) = nat n"
proof (cases "n = 256 \<or> \<not> a \<or> \<not> b")
  case True
  then have "bitmap_create a b (word_of_int n) = None" by (auto simp: bitmap_create_def Let_def)
  then show thesis using True by (rule none)
next
  case False
  with assms have u: "unat (word_of_int n :: u8) = nat n" by (intro word_of_int_u8) auto
  with assms have nz: "(word_of_int n :: u8) \<noteq> 0" by (metis nat_0_iff not_less unat_0)
  with False obtain bits where b: "bitmap_create a b (word_of_int n) = Some bits"
    by (auto simp: bitmap_create_def Let_def)
  from bitmap_create_ok [OF this] u b False assms show thesis by (intro some [of bits]) auto
qed

lemma pool_take_ok:
  assumes "pool_ok s t" and "0 \<le> ident" and "ident < pool_size t"
  shows "\<exists>t'. pool_take ident t = Ret (ident, t') \<and> pool_ok s t' \<and> in_use t' = (in_use t)(nat ident := True)
     \<and> pool_table t' = pool_table t \<and> pool_size t' = pool_size t \<and> t' = t\<lparr>pool_bits := pool_bits t'\<rparr>"
proof -
  let ?b = "pool_bits t"
  from assms have ok: "bitmap_ok ?b" and lt: "nat ident < unat (bit_cnt ?b)"
    by (auto simp: pool_ok_def)
  from bm.mark_spec [OF ok lt] obtain b' where b':
    "bitmap_set ?b (of_nat (nat ident)) = Ret b'" "bitmap_ok b'" "unat (bit_cnt b') = unat (bit_cnt ?b)"
    "taken b' = (taken ?b)(nat ident := True)" by auto
  moreover from assms(2) have "of_nat (nat ident) = (word_of_int ident :: u8)"
    by (metis nat_0_le of_int_of_nat_eq)
  ultimately show ?thesis using assms(1) by (auto simp: pool_take_def pool_ok_def)
qed

text \<open>What a successful allocation does to the table.\<close>

definition pool_granted :: "int \<Rightarrow> 'e \<Rightarrow> ('e, 'z) id_pool_scheme \<Rightarrow> int \<Rightarrow> ('e, 'z) id_pool_scheme \<Rightarrow> bool" where
  "pool_granted s zero t ident t' \<longleftrightarrow>
     0 \<le> ident \<and> ident < pool_size t' \<and> pool_ok s t'
     \<and> \<not> in_use t (nat ident) \<and> in_use t' = (in_use t)(nat ident := True)
     \<and> (pool_size t' = pool_size t \<and> pool_table t' = pool_table t
        \<or> pool_size t' = pool_size t + s \<and> pool_table t' = pool_table t @ replicate (nat s) zero)
     \<and> t' = t\<lparr>pool_bits := pool_bits t', pool_table := pool_table t', pool_size := pool_size t'\<rparr>"

definition pool_full :: "('e, 'z) id_pool_scheme \<Rightarrow> bool" where
  "pool_full t \<longleftrightarrow> (\<forall>i < nat (pool_size t). in_use t i)"

lemma pool_take_granted:
  assumes "pool_ok s t" and "bitmap_find_first_zero_bit (pool_bits t) = Ret ident" and "0 \<le> ident"
  shows "\<exists>t'. pool_take ident t = Ret (ident, t') \<and> pool_granted s zero t ident t'
     \<and> pool_size t' = pool_size t \<and> pool_table t' = pool_table t"
proof -
  from assms(1) have ok: "bitmap_ok (pool_bits t)" by (simp add: pool_ok_def)
  note free = bm.find_free [OF ok assms(2,3)]
  with assms(1,3) have "ident < pool_size t" by (simp add: pool_ok_def nat_less_iff)
  from pool_take_ok [OF assms(1,3) this] free(2) \<open>ident < pool_size t\<close> assms(3)
  show ?thesis unfolding pool_granted_def by (auto simp: fun_eq_iff)
qed

text \<open>Growing: the new bitmap has the old bits, so its first free identifier is the old size.\<close>

lemma pool_grow_granted:
  assumes ok: "pool_ok s t" and s: "good_stride s" and full: "pool_full t"
    and nb: "bitmap_ok nb" "unat (bit_cnt nb) = nat (pool_size t + s)"
  shows "\<exists>t'. ebind (bitmap_copy nb (pool_bits t)) (\<lambda>nb.
      let t' = t\<lparr>pool_bits := nb, pool_table := take (nat (pool_size t)) (pool_table t)
                   @ replicate (nat (pool_size t + s - pool_size t)) zero, pool_size := pool_size t + s\<rparr> in
      ebind (bitmap_find_first_zero_bit nb) (\<lambda>ident. bug_on (ident < 0) (pool_take ident t')))
      = Ret (pool_size t, t') \<and> pool_granted s zero t (pool_size t) t' \<and> pool_size t' = pool_size t + s"
proof -
  have sz: "0 < pool_size t" "0 < s" "8 dvd pool_size t" "s dvd pool_size t"
    using ok s by (auto simp: pool_ok_def good_stride_def intro: dvd_trans)
  have old: "bitmap_ok (pool_bits t)" "unat (bit_cnt (pool_bits t)) = nat (pool_size t)"
    "length (pool_table t) = nat (pool_size t)" using ok by (auto simp: pool_ok_def)
  from sz(3) obtain k where "pool_size t = 8 * k" ..
  with old(2) have "unat (bit_cnt (pool_bits t)) mod 8 = 0" by (simp add: nat_mult_distrib)
  moreover have "bit_cnt (pool_bits t) \<le> bit_cnt nb"
    using old(2) nb(2) sz by (simp add: word_le_nat_alt nat_mono)
  ultimately obtain c where c: "bitmap_copy nb (pool_bits t) = Ret c"
    "bitmap_ok c" "unat (bit_cnt c) = nat (pool_size t + s)" "taken c = in_use t"
    using bitmap_copy_ok [OF nb(1) old(1)] nb(2) by auto
  let ?t = "t\<lparr>pool_bits := c, pool_table := pool_table t @ replicate (nat s) zero, pool_size := pool_size t + s\<rparr>"
  have tok: "pool_ok s ?t" using sz old c by (auto simp: pool_ok_def)
  obtain r where r: "bitmap_find_first_zero_bit c = Ret r" using bm.find_returns [OF c(2)] by blast
  have free: "\<not> taken c (nat (pool_size t))" using c(4) old(2) by (simp add: taken_def)
  have rpos: "0 \<le> r"
    using bm.find_full(1) [OF c(2) r] free c(3) sz by (metis nat_mono_iff less_add_same_cancel1 not_less add_pos_pos)
  have "r = pool_size t"
  proof -
    have "\<not> nat r < nat (pool_size t)"
      using bm.find_free(2) [OF c(2) r rpos] full c(4) by (auto simp: pool_full_def)
    moreover have "\<not> nat (pool_size t) < nat r"
      using bm.find_free(3) [OF c(2) r rpos] free by blast
    ultimately show ?thesis using rpos sz by linarith
  qed
  with r have find: "bitmap_find_first_zero_bit c = Ret (pool_size t)" by simp
  from pool_take_granted [OF tok, of "pool_size t"] find sz obtain t' where
    t': "pool_take (pool_size t) ?t = Ret (pool_size t, t')" "pool_granted s zero ?t (pool_size t) t'"
    "pool_size t' = pool_size ?t" "pool_table t' = pool_table ?t" by auto
  then have "pool_granted s zero t (pool_size t) t'"
    using c(4) by (auto simp: pool_granted_def)
  moreover have "ebind (bitmap_copy nb (pool_bits t)) (\<lambda>nb.
      let t' = t\<lparr>pool_bits := nb, pool_table := take (nat (pool_size t)) (pool_table t)
                   @ replicate (nat (pool_size t + s - pool_size t)) zero, pool_size := pool_size t + s\<rparr> in
      ebind (bitmap_find_first_zero_bit nb) (\<lambda>ident. bug_on (ident < 0) (pool_take ident t')))
      = Ret (pool_size t, t')"
    using c(1) find old(3) sz t'(1) by (simp add: bug_on_def)
  ultimately show ?thesis using t'(3) by auto
qed

lemma pool_get_unused_full:
  "bitmap_find_first_zero_bit (pool_bits t) = Ret r \<Longrightarrow> r < 0 \<Longrightarrow> \<not> mx \<le> pool_size t \<Longrightarrow>
   pool_get_unused s mx zero m t =
     (case bitmap_create (bits_ok m) (arr_ok m) (word_of_int (pool_size t + s)) of
        None \<Rightarrow> Ret (- AOSL_ENOMEM, t)
      | Some nb \<Rightarrow> if \<not> table_ok m then Ret (- AOSL_ENOMEM, t)
          else ebind (bitmap_copy nb (pool_bits t)) (\<lambda>nb.
            let t' = t\<lparr>pool_bits := nb, pool_table := take (nat (pool_size t)) (pool_table t)
                   @ replicate (nat (pool_size t + s - pool_size t)) zero, pool_size := pool_size t + s\<rparr> in
            ebind (bitmap_find_first_zero_bit nb) (\<lambda>ident. bug_on (ident < 0) (pool_take ident t'))))"
  by (simp add: pool_get_unused_def Let_def)

text \<open>Every call of the allocator ends in one of four ways; it never aborts and never faults.\<close>

lemma pool_get_unused_cases:
  assumes ok: "pool_ok s t" and s: "good_stride s"
  obtains
    (free) ident t' where "pool_get_unused s mx zero m t = Ret (ident, t')" "pool_granted s zero t ident t'"
      "\<not> pool_full t" "pool_size t' = pool_size t"
  | (overflow) "pool_get_unused s mx zero m t = Ret (- AOSL_EOVERFLOW, t)" "pool_full t" "mx \<le> pool_size t"
  | (nomem) "pool_get_unused s mx zero m t = Ret (- AOSL_ENOMEM, t)" "pool_full t" "pool_size t < mx"
      "pool_size t + s = 256 \<or> \<not> (bits_ok m \<and> arr_ok m \<and> table_ok m)"
  | (grown) t' where "pool_get_unused s mx zero m t = Ret (pool_size t, t')"
      "pool_granted s zero t (pool_size t) t'" "pool_full t" "pool_size t < mx" "pool_size t' = pool_size t + s"
      "pool_size t + s < 256" "bits_ok m \<and> arr_ok m \<and> table_ok m"
proof -
  have bok: "bitmap_ok (pool_bits t)" and sz: "unat (bit_cnt (pool_bits t)) = nat (pool_size t)" "0 < pool_size t"
    using ok by (auto simp: pool_ok_def)
  obtain r where r: "bitmap_find_first_zero_bit (pool_bits t) = Ret r" using bm.find_returns [OF bok] by blast
  show thesis
  proof (cases "0 \<le> r")
    case True
    from pool_take_granted [OF ok r True, of zero] obtain t' where t': "pool_take r t = Ret (r, t')"
      "pool_granted s zero t r t'" "pool_size t' = pool_size t" by blast
    moreover have "\<not> pool_full t"
      using bm.find_free(1,2) [OF bok r True] sz True by (auto simp: pool_full_def intro!: exI [of _ "nat r"])
    moreover have "pool_get_unused s mx zero m t = Ret (r, t')"
      using r True t'(1) by (simp add: pool_get_unused_def)
    ultimately show thesis using free by blast
  next
    case False
    then have rneg: "r < 0" by simp
    from False have full: "pool_full t" using bm.find_full(1) [OF bok r] sz(1) by (simp add: pool_full_def)
    let ?n = "pool_size t + s"
    have n: "0 < ?n" "?n \<le> 256" using sz(2) s pool_size_max [OF ok s] by (simp_all add: good_stride_def)
    show thesis
    proof (cases "mx \<le> pool_size t")
      case True
      then show thesis using r False full by (intro overflow) (simp_all add: pool_get_unused_def Let_def)
    next
      case mx: False
      then have lt: "pool_size t < mx" by simp
      from n show thesis
      proof (cases rule: bitmap_create_cases [case_names none some, of ?n "bits_ok m" "arr_ok m", consumes 2])
        case none
        then have "pool_get_unused s mx zero m t = Ret (- AOSL_ENOMEM, t)"
          by (simp only: pool_get_unused_full [OF r rneg mx] option.case)
        moreover have "pool_size t + s = 256 \<or> \<not> (bits_ok m \<and> arr_ok m \<and> table_ok m)" using none(2) by blast
        ultimately show thesis by (rule nomem [OF _ full lt])
      next
        case c: (some nb)
        show thesis
        proof (cases "table_ok m")
          case False
          then have "pool_get_unused s mx zero m t = Ret (- AOSL_ENOMEM, t)"
            by (simp only: pool_get_unused_full [OF r rneg mx] c(1) option.case if_True not_False_eq_True)
          moreover have "pool_size t + s = 256 \<or> \<not> (bits_ok m \<and> arr_ok m \<and> table_ok m)" using False by blast
          ultimately show thesis by (rule nomem [OF _ full lt])
        next
          case True
          have eq: "pool_get_unused s mx zero m t = ebind (bitmap_copy nb (pool_bits t)) (\<lambda>nb.
            let t' = t\<lparr>pool_bits := nb, pool_table := take (nat (pool_size t)) (pool_table t)
                   @ replicate (nat (pool_size t + s - pool_size t)) zero, pool_size := pool_size t + s\<rparr> in
            ebind (bitmap_find_first_zero_bit nb) (\<lambda>ident. bug_on (ident < 0) (pool_take ident t')))"
            by (simp only: pool_get_unused_full [OF r rneg mx] c(1) option.case True not_True_eq_False if_False)
          from pool_grow_granted [OF ok s full c(5,6), of zero, folded eq] obtain t' where t':
            "pool_get_unused s mx zero m t = Ret (pool_size t, t')"
            "pool_granted s zero t (pool_size t) t'" "pool_size t' = ?n" by (elim exE conjE)
          from t' True c(2-4) show thesis by (intro grown [OF _ _ full lt]) simp_all
        qed
      qed
    qed
  qed
qed


lemma pool_put_unused_ok:
  assumes "pool_ok s t" and "0 \<le> ident" and "ident < pool_size t"
  shows "\<exists>b. pool_put_unused ident t = Ret (t\<lparr>pool_bits := b\<rparr>) \<and> pool_ok s (t\<lparr>pool_bits := b\<rparr>)
     \<and> taken b = (in_use t)(nat ident := False) \<and> bitmap_clear (pool_bits t) (word_of_int ident) = Ret b"
proof -
  let ?b = "pool_bits t"
  from assms have ok: "bitmap_ok ?b" and lt: "nat ident < unat (bit_cnt ?b)"
    by (auto simp: pool_ok_def)
  from bm.unmark_spec [OF ok lt] obtain b where b:
    "bitmap_clear ?b (of_nat (nat ident)) = Ret b" "bitmap_ok b" "unat (bit_cnt b) = unat (bit_cnt ?b)"
    "taken b = (taken ?b)(nat ident := False)" by auto
  moreover from assms(2) have "of_nat (nat ident) = (word_of_int ident :: u8)"
    by (metis nat_0_le of_int_of_nat_eq)
  ultimately show ?thesis using assms by (auto simp: pool_put_unused_def pool_ok_def)
qed

lemma in_use_size: "pool_ok s t \<Longrightarrow> in_use t i \<Longrightarrow> i < nat (pool_size t)"
  by (auto simp: pool_ok_def taken_def)

subsection \<open>Handles\<close>

lemma make_obj_id_slot_word: "ucast (make_obj_id r l) = r"
  by (rule bit_word_eqI) (auto simp: make_obj_id_def bit_simps)

lemma get_obj_slot_make: "0 \<le> i \<Longrightarrow> i < 32768 \<Longrightarrow> get_obj_slot (make_obj_id (word_of_int i) l) = i"
  by (simp add: get_obj_slot_def make_obj_id_slot_word signed_take_bit_int_eq_self sint_sbintrunc')

lemma not_bit_15_small: "0 \<le> i \<Longrightarrow> i < 32768 \<Longrightarrow> \<not> bit (word_of_int i :: 16 word) 15"
  unfolding bit_word_of_int_iff by (simp add: bit_iff_odd)

lemma get_obj_life_make: "\<not> bit r 15 \<Longrightarrow> get_obj_life (make_obj_id r l) = l"
  by (rule bit_word_eqI) (auto simp: make_obj_id_def get_obj_life_def bit_simps min_def)

lemma make_obj_id_inject:
  assumes "0 \<le> i" "i < 32768" "0 \<le> j" "j < 32768"
  shows "make_obj_id (word_of_int i) l = make_obj_id (word_of_int j) k \<longleftrightarrow> i = j \<and> l = k"
  using get_obj_slot_make get_obj_life_make not_bit_15_small assms by metis

text \<open>Life ids run through 1 .. 65535 and skip 0.\<close>

lemma unat_next_life: "l \<noteq> 0 \<Longrightarrow> unat (next_life_id l) = unat l mod 65535 + 1"
proof (cases "unat l = 65535")
  case True
  then have "l + 1 = 0" by (simp add: unat_eq_0 [symmetric] unat_word_ariths)
  with True show ?thesis by (simp add: next_life_id_def)
next
  case False
  with unat_u16_less [of l] have lt: "unat l < 65535" by linarith
  then have "unat (l + 1) = unat l + 1" by (simp add: unat_word_ariths)
  moreover from this have "l + 1 \<noteq> 0" by (metis add_is_0 one_neq_zero unat_0)
  ultimately show ?thesis using lt by (simp add: next_life_id_def)
qed

lemma next_life_id_nonzero [simp]: "next_life_id l \<noteq> 0"
  by (simp add: next_life_id_def)

lemma life_id_range: "l \<noteq> 0 \<Longrightarrow> 0 < unat (l :: u16) \<and> unat l - 1 < 65535"
proof -
  assume "l \<noteq> 0"
  then have "0 < unat l" by (simp add: unat_gt_0)
  with unat_u16_less [of l] show ?thesis by linarith
qed

lemma unat_next_life_pow:
  assumes "l \<noteq> 0"
  shows "(next_life_id ^^ n) l \<noteq> 0 \<and> unat ((next_life_id ^^ n) l) = (unat l - 1 + n) mod 65535 + 1"
proof (induction n)
  case 0
  from life_id_range [OF assms] assms show ?case by (simp add: mod_less)
next
  case (Suc n)
  have "((a :: nat) mod 65535 + 1) mod 65535 + 1 = (a + 1) mod 65535 + 1" for a by (simp add: mod_simps)
  with Suc show ?case by (simp add: unat_next_life)
qed

text \<open>A life id comes back only after 65535 installations.\<close>

lemma next_life_pow_neq:
  assumes "l \<noteq> 0" and "0 < n" and "n < 65535"
  shows "(next_life_id ^^ n) l \<noteq> l"
proof
  assume eq: "(next_life_id ^^ n) l = l"
  define a where "a = unat l - 1"
  from life_id_range [OF assms(1)] have a: "unat l = a + 1" "a < 65535" by (auto simp: a_def)
  from unat_next_life_pow [OF assms(1), of n] eq a have "(a + n) mod 65535 = a" by simp
  then have "a + n < 65535 \<and> a + n = a \<or> 65535 \<le> a + n \<and> a + n - 65535 = a" using a(2) assms(3) by (simp add: mod_if split: if_splits)
  with a(2) assms(2,3) show False by linarith
qed

subsection \<open>Object tables\<close>

lemma obj_table_bound:
  assumes "obj_table_ok t"
  shows "0 < pool_size t" and "pool_size t < 256" and "length (pool_table t) = nat (pool_size t)"
  using assms pool_size_u8 [of 8 t] by (auto simp: obj_table_ok_def pool_ok_def)

lemma obj_id_install_ok:
  assumes ok: "obj_table_ok t" and used: "in_use t (nat ident)" and i: "0 \<le> ident"
    and empty: "pool_table t ! nat ident = None"
  shows "obj_id_install ident p t =
      Ret (make_obj_id (word_of_int ident) (life_id t),
           t\<lparr>pool_table := (pool_table t)[nat ident := Some p], life_id := next_life_id (life_id t)\<rparr>)"
    and "obj_table_ok (t\<lparr>pool_table := (pool_table t)[nat ident := Some p], life_id := next_life_id (life_id t)\<rparr>)"
proof -
  have lt: "ident < pool_size t" and len: "length (pool_table t) = nat (pool_size t)"
    using in_use_size [OF _ used, of 8] ok i by (auto simp: obj_table_ok_def pool_ok_def)
  then show "obj_id_install ident p t =
      Ret (make_obj_id (word_of_int ident) (life_id t),
           t\<lparr>pool_table := (pool_table t)[nat ident := Some p], life_id := next_life_id (life_id t)\<rparr>)"
    using i empty by (simp add: obj_id_install_def)
  show "obj_table_ok (t\<lparr>pool_table := (pool_table t)[nat ident := Some p], life_id := next_life_id (life_id t)\<rparr>)"
    using ok used lt i by (auto simp: obj_table_ok_def pool_ok_def nth_list_update split: if_splits)
qed

lemma obj_id_uninstall_ok:
  assumes ok: "obj_table_ok t" and i: "0 \<le> ident" "ident < pool_size t"
    and p: "pool_table t ! nat ident = Some p"
  shows "obj_id_uninstall ident p t = Ret (0, t\<lparr>pool_table := (pool_table t)[nat ident := None]\<rparr>)"
    and "obj_table_ok (t\<lparr>pool_table := (pool_table t)[nat ident := None]\<rparr>)"
  using assms obj_table_bound [OF ok]
  by (auto simp: obj_id_uninstall_def obj_table_ok_def pool_ok_def nth_list_update)

lemma obj_lookup_total:
  assumes "obj_table_ok t"
  shows "obj_lookup f h t =
    Ret (let i = get_obj_slot h in
         if 0 \<le> i \<and> i < pool_size t
         then case pool_table t ! nat i of None \<Rightarrow> None | Some p \<Rightarrow> if f p = h then Some p else None
         else None)"
  using obj_table_bound [OF assms] by (auto simp: obj_lookup_def Let_def split: option.splits)

subsection \<open>The allocator interface\<close>

text \<open>
  What the clients of an identifier table rely on. \<open>alloc\<close> takes the outcome of the
  allocations it may need and answers a fresh identifier or a negative error with the
  table unchanged; \<open>release\<close> of an identifier in use makes exactly that one free. Neither
  aborts or faults.
\<close>

datatype 'm pool_op = Get 'm | Put nat

text \<open>
  A client's run: \<open>Get\<close> allocates and aborts the run if the identifier it is given is one
  it already holds; \<open>Put\<close> gives back an identifier it holds.
\<close>

primrec run_pool_ops ::
  "('m \<Rightarrow> 't \<Rightarrow> (int \<times> 't) exec) \<Rightarrow> (int \<Rightarrow> 't \<Rightarrow> 't exec) \<Rightarrow> 'm pool_op list \<Rightarrow> nat set \<Rightarrow> 't \<Rightarrow> (nat set \<times> 't) exec" where
  "run_pool_ops alloc release [] held t = Ret (held, t)"
| "run_pool_ops alloc release (op # ops) held t =
     (case op of
        Get m \<Rightarrow> ebind (alloc m t) (\<lambda>(r, t').
          if r < 0 then run_pool_ops alloc release ops held t'
          else bug_on (nat r \<in> held) (run_pool_ops alloc release ops (insert (nat r) held) t'))
      | Put i \<Rightarrow>
          if i \<in> held then ebind (release (int i) t) (run_pool_ops alloc release ops (held - {i}))
          else run_pool_ops alloc release ops held t)"

locale id_allocator =
  fixes inv :: "'t \<Rightarrow> bool"
    and used :: "'t \<Rightarrow> nat \<Rightarrow> bool"
    and alloc :: "'m \<Rightarrow> 't \<Rightarrow> (int \<times> 't) exec"
    and release :: "int \<Rightarrow> 't \<Rightarrow> 't exec"
  assumes alloc_spec: "inv t \<Longrightarrow> \<exists>r t'. alloc m t = Ret (r, t') \<and> inv t'
      \<and> (0 \<le> r \<longrightarrow> \<not> used t (nat r) \<and> used t' = (used t)(nat r := True)) \<and> (r < 0 \<longrightarrow> t' = t)"
    and release_spec: "inv t \<Longrightarrow> used t i \<Longrightarrow> \<exists>t'. release (int i) t = Ret t' \<and> inv t'
      \<and> used t' = (used t)(i := False)"
begin

lemma alloc_fresh: "inv t \<Longrightarrow> alloc m t = Ret (r, t') \<Longrightarrow> 0 \<le> r \<Longrightarrow> \<not> used t (nat r) \<and> used t' (nat r)"
  using alloc_spec [of t m] by auto

lemma alloc_keeps: "inv t \<Longrightarrow> alloc m t = Ret (r, t') \<Longrightarrow> used t i \<Longrightarrow> inv t' \<and> used t' i"
  using alloc_spec [of t m] by (cases "0 \<le> r") auto

text \<open>A released identifier can be handed out again, and releasing what was just allocated undoes it.\<close>

lemma alloc_release:
  assumes "inv t" and "alloc m t = Ret (r, t1)" and "0 \<le> r" and "release r t1 = Ret t2"
  shows "inv t2" and "used t2 = used t"
proof -
  from alloc_spec [OF assms(1), of m] assms(2,3)
  have t1: "inv t1" "\<not> used t (nat r)" "used t1 = (used t)(nat r := True)" by auto
  from release_spec [OF t1(1), of "nat r"] t1(3) assms(3,4)
  have "inv t2" "used t2 = (used t1)(nat r := False)" by auto
  then show "inv t2" and "used t2 = used t" using t1 by (auto simp: fun_eq_iff)
qed

text \<open>
  Any sequence of calls: no identifier is handed out while it is still held. \<open>held\<close> is the
  client's view of the identifiers it was given and has not given back.
\<close>

lemma run_ops_ok:
  "inv t \<Longrightarrow> {i. used t i} = held \<Longrightarrow>
   \<exists>t' held'. run_pool_ops alloc release ops held t = Ret (held', t') \<and> inv t' \<and> {i. used t' i} = held'"
proof (induction ops arbitrary: t held)
  case (Cons op ops)
  show ?case
  proof (cases op)
    case (Get m)
    from alloc_spec [OF Cons.prems(1), of m] obtain r t' where t': "alloc m t = Ret (r, t')" "inv t'"
      "0 \<le> r \<longrightarrow> \<not> used t (nat r) \<and> used t' = (used t)(nat r := True)" "r < 0 \<longrightarrow> t' = t" by blast
    show ?thesis
    proof (cases "0 \<le> r")
      case True
      with t' Cons.prems have "nat r \<notin> held" "{i. used t' i} = insert (nat r) held" by auto
      with Cons.IH [OF t'(2) this(2)] True t'(1) Get show ?thesis by simp
    next
      case False
      with t'(4) have "t' = t" by simp
      with Cons.IH [OF Cons.prems] False t'(1) Get show ?thesis by simp
    qed
  next
    case (Put i)
    show ?thesis
    proof (cases "i \<in> held")
      case True
      with Cons.prems(2) have "used t i" by auto
      from release_spec [OF Cons.prems(1) this] obtain t' where t': "release (int i) t = Ret t'" "inv t'"
        "used t' = (used t)(i := False)" by blast
      with Cons.prems(2) have "{i. used t' i} = held - {i}" by auto
      with Cons.IH [OF t'(2) this] t'(1) Put True show ?thesis by simp
    next
      case False
      with Cons.IH [OF Cons.prems] Put show ?thesis by simp
    qed
  qed
qed simp

end

lemma pool_alloc_spec:
  assumes ok: "pool_ok s t" and s: "good_stride s"
  shows "\<exists>r t'. pool_get_unused s mx zero m t = Ret (r, t') \<and> pool_ok s t'
    \<and> (0 \<le> r \<longrightarrow> \<not> in_use t (nat r) \<and> in_use t' = (in_use t)(nat r := True) \<and> pool_granted s zero t r t')
    \<and> (r < 0 \<longrightarrow> t' = t)"
  using ok s by (cases rule: pool_get_unused_cases [case_names free overflow nomem grown, of s t mx zero m, consumes 2])
    (use ok in \<open>auto simp: pool_granted_def\<close>)

lemma pool_release_spec:
  assumes "pool_ok s t" and "in_use t i"
  shows "\<exists>b. pool_put_unused (int i) t = Ret (t\<lparr>pool_bits := b\<rparr>) \<and> pool_ok s (t\<lparr>pool_bits := b\<rparr>)
    \<and> taken b = (in_use t)(i := False)"
proof -
  from in_use_size [OF assms] have "int i < pool_size t" by simp
  from pool_put_unused_ok [OF assms(1) _ this] show ?thesis by auto
qed

interpretation rf: id_allocator "pool_ok 8" in_use get_unused_refobj_id put_unused_refobj_id
  using pool_alloc_spec [of 8] pool_release_spec [of 8]
  by unfold_locales (fastforce simp: get_unused_refobj_id_def put_unused_refobj_id_def)+

interpretation tm: id_allocator "pool_ok 8" in_use get_unused_timer_id put_unused_timer_id
  using pool_alloc_spec [of 8] pool_release_spec [of 8]
  by unfold_locales (fastforce simp: get_unused_timer_id_def put_unused_timer_id_def)+

text \<open>The queue table's invariant includes the counter that \<^verbatim>\<open>aosl_perf_set_callback\<close> reads.\<close>

definition mpq_table_ok :: "'p mpq_table \<Rightarrow> bool" where
  "mpq_table_ok t \<longleftrightarrow> pool_ok 8 t \<and> mpq_count t = of_nat (card {i. in_use t i})"

lemma finite_in_use: "pool_ok s t \<Longrightarrow> finite {i. in_use t i}"
  by (rule finite_subset [of _ "{..< nat (pool_size t)}"]) (auto dest: in_use_size)

lemma card_set_true: "finite {i. f i} \<Longrightarrow> \<not> f k \<Longrightarrow> card {i. (f(k := True)) i} = Suc (card {i. f i})"
proof -
  assume "finite {i. f i}" "\<not> f k"
  moreover have "{i. (f(k := True)) i} = insert k {i. f i}" by auto
  ultimately show ?thesis by simp
qed

lemma card_set_false: "finite {i. f i} \<Longrightarrow> f k \<Longrightarrow> Suc (card {i. (f(k := False)) i}) = card {i. f i}"
proof -
  assume f: "finite {i. f i}" "f k"
  have "{i. (f(k := False)) i} = {i. f i} - {k}" by auto
  with f show ?thesis by (simp add: card_Suc_Diff1 del: card_Diff_insert)
qed

interpretation mq: id_allocator mpq_table_ok in_use get_unused_mpq_id put_unused_mpq_id
proof
  fix t :: "'a mpq_table" and m
  assume inv: "mpq_table_ok t"
  then have ok: "pool_ok 8 t" by (simp add: mpq_table_ok_def)
  from pool_alloc_spec [OF ok good_stride_8, of MPQ_ID_POOL_MAX_SIZE None m] obtain r t' where
    t': "pool_get_unused 8 MPQ_ID_POOL_MAX_SIZE None m t = Ret (r, t')" "pool_ok 8 t'"
    "0 \<le> r \<longrightarrow> \<not> in_use t (nat r) \<and> in_use t' = (in_use t)(nat r := True) \<and> pool_granted 8 None t r t'"
    "r < 0 \<longrightarrow> t' = t" by blast
  show "\<exists>r t'. get_unused_mpq_id m t = Ret (r, t') \<and> mpq_table_ok t'
      \<and> (0 \<le> r \<longrightarrow> \<not> in_use t (nat r) \<and> in_use t' = (in_use t)(nat r := True)) \<and> (r < 0 \<longrightarrow> t' = t)"
  proof (cases "0 \<le> r")
    case True
    with t'(3) have "t' = t\<lparr>pool_bits := pool_bits t', pool_table := pool_table t', pool_size := pool_size t'\<rparr>"
      by (simp add: pool_granted_def)
    then have "mpq_count t' = mpq_count (t\<lparr>pool_bits := pool_bits t', pool_table := pool_table t', pool_size := pool_size t'\<rparr>)"
      by (rule arg_cong)
    then have "mpq_count t' = mpq_count t" by simp
    with t' True inv finite_in_use [OF ok] show ?thesis
      by (auto simp: get_unused_mpq_id_def mpq_table_ok_def pool_ok_def card_set_true)
  next
    case False
    with t' inv show ?thesis by (auto simp: get_unused_mpq_id_def)
  qed
next
  fix t :: "'a mpq_table" and i
  assume inv: "mpq_table_ok t" and i: "in_use t i"
  then have ok: "pool_ok 8 t" by (simp add: mpq_table_ok_def)
  from pool_release_spec [OF ok i] obtain b where
    b: "pool_put_unused (int i) t = Ret (t\<lparr>pool_bits := b\<rparr>)" "pool_ok 8 (t\<lparr>pool_bits := b\<rparr>)"
    "taken b = (in_use t)(i := False)" by blast
  let ?n = "card {j. taken b j}"
  from card_set_false [of "in_use t" i, OF finite_in_use [OF ok] i, folded b(3)] inv
  have "mpq_count t = of_nat (Suc ?n)" by (simp only: mpq_table_ok_def)
  then have "mpq_count t - 1 = of_nat ?n" by (simp only: of_nat_Suc add_diff_cancel_left')
  then have "mpq_table_ok (t\<lparr>pool_bits := b, mpq_count := mpq_count t - 1\<rparr>)"
    using b(2) by (simp add: mpq_table_ok_def pool_ok_def)
  with b show "\<exists>t'. put_unused_mpq_id (int i) t = Ret t' \<and> mpq_table_ok t' \<and> in_use t' = (in_use t)(i := False)"
    by (auto simp: put_unused_mpq_id_def)
qed

subsection \<open>Properties\<close>

lemma obj_table_init_ok:
  assumes "obj_table_init m = Ret t"
  shows "obj_table_ok t" and "{i. in_use t i} = {}" and "pool_table t = replicate 8 None"
proof -
  from assms obtain b where b: "bitmap_create (bits_ok m) (arr_ok m) 8 = Some b"
    and t: "t = \<lparr>pool_bits = b, pool_table = replicate 8 None, pool_size = 8, life_id = 1\<rparr>"
    by (auto simp: obj_table_init_def STATIC_ID_POOL_SIZE_def split: option.splits if_splits)
  from bitmap_create_ok [OF b] have "bitmap_ok b" "unat (bit_cnt b) = 8" "\<forall>i. \<not> taken b i" by auto
  with t show "obj_table_ok t" "{i. in_use t i} = {}" "pool_table t = replicate 8 None"
    by (auto simp: obj_table_ok_def pool_ok_def)
qed

text \<open>
  C8. Reference-object identifiers: from the state \<^verbatim>\<open>k_refobj_init\<close> leaves, whatever sequence of
  allocations and releases follows and whatever each \<^verbatim>\<open>malloc\<close> answers, no call aborts or
  faults, no identifier is handed out while it is held, and the bitmap's set of taken
  identifiers is exactly the set the clients hold.
\<close>

theorem refobj_ids_never_shared:
  fixes t :: "'p obj_table"
  assumes "obj_table_init m = Ret t"
  shows "\<exists>t' held. run_pool_ops get_unused_refobj_id put_unused_refobj_id ops {} t = Ret (held, t')
    \<and> pool_ok 8 t' \<and> {i. in_use t' i} = held"
  using rf.run_ops_ok [of t "{}" ops] obj_table_init_ok [OF assms] by (simp add: obj_table_ok_def)

abbreviation mem_ok :: grow_mem where
  "mem_ok \<equiv> \<lparr>bits_ok = True, arr_ok = True, table_ok = True\<rparr>"

abbreviation table0 :: "nat obj_table" where
  "table0 \<equiv> \<lparr>pool_bits = \<lparr>bit_arr = [0], bit_arr_cnt = 1, bit_cnt = 8\<rparr>, pool_table = replicate 8 None,
    pool_size = 8, life_id = 1\<rparr>"

lemma obj_table_init_table0: "obj_table_init mem_ok = Ret table0"
  by (simp add: obj_table_init_def bitmap_create_def BIT_ARRAY_CNT_def STATIC_ID_POOL_SIZE_def)

theorem refobj_ids_never_shared_witness:
  "\<exists>t' held. run_pool_ops get_unused_refobj_id put_unused_refobj_id [Get mem_ok, Get mem_ok, Put 0] {} table0
      = Ret (held, t') \<and> pool_ok 8 t' \<and> {i. in_use t' i} = held"
  by (rule refobj_ids_never_shared [OF obj_table_init_table0])

text \<open>
  Queue identifiers: the same for the queue table, and the queue counter that
  \<^verbatim>\<open>aosl_perf_set_callback\<close> checks is the number of identifiers in use (modulo the word size).
\<close>

theorem mpq_ids_never_shared:
  fixes t :: "'p mpq_table"
  assumes "pool_ok 8 t" and "{i. in_use t i} = {}" and "mpq_count t = 0"
  shows "\<exists>t' held. run_pool_ops get_unused_mpq_id put_unused_mpq_id ops {} t = Ret (held, t')
    \<and> pool_ok 8 t' \<and> {i. in_use t' i} = held \<and> mpq_count t' = of_nat (card held)"
proof -
  have "mpq_table_ok t" using assms by (simp add: mpq_table_ok_def)
  from mq.run_ops_ok [OF this assms(2), of ops] obtain t' held where
    "run_pool_ops get_unused_mpq_id put_unused_mpq_id ops {} t = Ret (held, t')"
    and t': "mpq_table_ok t'" "{i. in_use t' i} = held" by blast
  moreover have "pool_ok 8 t'" "mpq_count t' = of_nat (card held)"
    using t'(1) unfolding t'(2) [symmetric] mpq_table_ok_def by auto
  ultimately show ?thesis by blast
qed

theorem mpq_ids_never_shared_witness:
  "\<exists>t' held. run_pool_ops get_unused_mpq_id put_unused_mpq_id [Get mem_ok, Put 0, Get mem_ok] {}
     (\<lparr>pool_bits = \<lparr>bit_arr = [0], bit_arr_cnt = 1, bit_cnt = 8\<rparr>, pool_table = replicate 8 None,
       pool_size = 8, life_id = 1, mpq_count = 0\<rparr> :: nat mpq_table) = Ret (held, t')
    \<and> pool_ok 8 t' \<and> {i. in_use t' i} = held \<and> mpq_count t' = of_nat (card held)"
  by (rule mpq_ids_never_shared) (auto simp: pool_ok_def bitmap_ok_def BIT_ARRAY_CNT_def taken_def)

text \<open>
  C28. The tables stop growing at 248 identifiers: with 248 reference objects alive the
  allocator fails with \<^verbatim>\<open>-AOSL_ENOMEM\<close> even though memory is available, because
  \<^verbatim>\<open>bitmap_create\<close> takes a \<^verbatim>\<open>uint8_t\<close> and the next size, 256, arrives as 0. The declared
  maximum is \<^verbatim>\<open>REFOBJ_ID_POOL_MAX_SIZE\<close>, 20480, and its error, \<^verbatim>\<open>-AOSL_EOVERFLOW\<close>, cannot occur.
\<close>

theorem refobj_id_limit:
  assumes ok: "pool_ok 8 t" and used: "\<forall>i < 248. in_use t i"
  shows "get_unused_refobj_id m t = Ret (- AOSL_ENOMEM, t)"
proof -
  from used in_use_size [OF ok, of 247] have "247 < nat (pool_size t)" by simp
  with pool_size_max [OF ok good_stride_8] ok have size: "pool_size t = 248"
    by (auto simp: pool_ok_def elim!: dvdE)
  with used have full: "pool_full t" by (simp add: pool_full_def)
  from ok good_stride_8 show ?thesis unfolding get_unused_refobj_id_def
    by (cases rule: pool_get_unused_cases [of 8 t REFOBJ_ID_POOL_MAX_SIZE None m, consumes 2])
      (use full size in \<open>auto simp: REFOBJ_ID_POOL_MAX_SIZE_def\<close>)
qed

abbreviation full_table :: "nat obj_table" where
  "full_table \<equiv> \<lparr>pool_bits = \<lparr>bit_arr = replicate 31 255, bit_arr_cnt = 31, bit_cnt = 248\<rparr>,
    pool_table = replicate 248 (Some 0), pool_size = 248, life_id = 249\<rparr>"

theorem refobj_id_limit_witness: "get_unused_refobj_id mem_ok full_table = Ret (- AOSL_ENOMEM, full_table)"
proof (rule refobj_id_limit)
  show "pool_ok 8 full_table" by (simp add: pool_ok_def bitmap_ok_def BIT_ARRAY_CNT_def)
  have "bit (255 :: u8) n" if "n < 8" for n using that all_bits_u8 [of 255] by simp
  then show "\<forall>i < 248. in_use full_table i"
    by (auto simp: taken_def)
qed

text \<open>
  An installed object is found again by the handle it was given, and installing keeps
  the table's invariant. \<open>f\<close> reads the handle stored in an object.
\<close>

theorem install_then_lookup:
  assumes ok: "obj_table_ok t" and used: "in_use t (nat i)" and i: "0 \<le> i"
    and empty: "pool_table t ! nat i = None"
  shows "\<exists>h t'. obj_id_install i p t = Ret (h, t') \<and> obj_table_ok t' \<and> life_id t' \<noteq> 0
    \<and> (f p = h \<longrightarrow> obj_lookup f h t' = Ret (Some p))"
proof -
  let ?t = "t\<lparr>pool_table := (pool_table t)[nat i := Some p], life_id := next_life_id (life_id t)\<rparr>"
  note inst = obj_id_install_ok [OF ok used i empty, of p]
  have lt: "i < pool_size t" "pool_size t < 256" "length (pool_table t) = nat (pool_size t)"
    using in_use_size [OF _ used, of 8] ok i obj_table_bound [OF ok] by (auto simp: obj_table_ok_def)
  with i have "get_obj_slot (make_obj_id (word_of_int i) (life_id t)) = i"
    by (intro get_obj_slot_make) auto
  with i lt have "obj_lookup f (make_obj_id (word_of_int i) (life_id t)) ?t = Ret (Some p)"
    if "f p = make_obj_id (word_of_int i) (life_id t)"
    using that by (simp add: obj_lookup_total [OF inst(2)])
  with inst show ?thesis by (auto simp: obj_table_ok_def)
qed

theorem install_then_lookup_witness:
  "\<exists>h t'. obj_id_install 0 (7 :: nat) (table0\<lparr>pool_bits := \<lparr>bit_arr = [1], bit_arr_cnt = 1, bit_cnt = 8\<rparr>\<rparr>) = Ret (h, t')
    \<and> obj_table_ok t' \<and> life_id t' \<noteq> 0 \<and> ((\<lambda>_. 0x10000) (7 :: nat) = h \<longrightarrow> obj_lookup (\<lambda>_. 0x10000) h t' = Ret (Some 7))"
  by (rule install_then_lookup) (auto simp: obj_table_ok_def pool_ok_def bitmap_ok_def BIT_ARRAY_CNT_def taken_def nth_Cons')

text \<open>
  A stale handle is rejected: the handle of an object whose slot has since been given to
  another object finds nothing, as long as fewer than 65535 objects were installed in
  between (the life id is 16 bits wide and skips 0).
\<close>

theorem stale_handle_rejected:
  assumes ok: "obj_table_ok t" and i: "0 \<le> i" "i < pool_size t" and l: "l \<noteq> 0" and n: "0 < n" "n < 65535"
    and q: "pool_table t ! nat i = Some q" "f q = make_obj_id (word_of_int i) ((next_life_id ^^ n) l)"
  shows "obj_lookup f (make_obj_id (word_of_int i) l) t = Ret None"
proof -
  have i': "i < 32768" using i(2) obj_table_bound(2) [OF ok] by simp
  have "f q \<noteq> make_obj_id (word_of_int i) l"
    using q(2) next_life_pow_neq [OF l n] make_obj_id_inject [OF i(1) i' i(1) i'] by simp
  then show ?thesis using i q(1) get_obj_slot_make [OF i(1) i', of l] by (simp add: obj_lookup_total [OF ok])
qed

theorem stale_handle_rejected_witness:
  "obj_lookup (\<lambda>_. make_obj_id (word_of_int 3) ((next_life_id ^^ 1) 1)) (make_obj_id (word_of_int 3) 1)
     (table0\<lparr>pool_bits := \<lparr>bit_arr = [8], bit_arr_cnt = 1, bit_cnt = 8\<rparr>, pool_table := (replicate 8 None)[3 := Some (5 :: nat)]\<rparr>)
   = Ret None"
proof (rule stale_handle_rejected [where n = 1 and q = 5])
  show "obj_table_ok (table0\<lparr>pool_bits := \<lparr>bit_arr = [8], bit_arr_cnt = 1, bit_cnt = 8\<rparr>,
      pool_table := (replicate 8 None)[3 := Some (5 :: nat)]\<rparr>)"
    by (auto simp: obj_table_ok_def pool_ok_def bitmap_ok_def BIT_ARRAY_CNT_def taken_def nth_list_update
        split: if_splits)
qed simp_all

text \<open>
  Removing an object: \<^verbatim>\<open>__refobj_id_uninstall\<close> empties the slot only for the object that is in it, and from
  then on no handle of that slot finds anything; for any other object it is \<^verbatim>\<open>-AOSL_EINVAL\<close>
  and the table is unchanged.
\<close>

theorem uninstall_then_lookup:
  assumes ok: "obj_table_ok t" and i: "0 \<le> i" "i < pool_size t"
  shows "\<exists>r t'. obj_id_uninstall i p t = Ret (r, t') \<and> obj_table_ok t'
    \<and> (if pool_table t ! nat i = Some p
       then r = 0 \<and> (\<forall>f l. obj_lookup f (make_obj_id (word_of_int i) l) t' = Ret None)
       else r = - AOSL_EINVAL \<and> t' = t)"
proof (cases "pool_table t ! nat i = Some p")
  case True
  note un = obj_id_uninstall_ok [OF ok i True]
  have "i < 32768" using i(2) obj_table_bound(2) [OF ok] by simp
  then have "get_obj_slot (make_obj_id (word_of_int i) l) = i" for l by (rule get_obj_slot_make [OF i(1)])
  then have "obj_lookup f (make_obj_id (word_of_int i) l) (t\<lparr>pool_table := (pool_table t)[nat i := None]\<rparr>) = Ret None" for f l
    using i obj_table_bound [OF ok] by (simp add: obj_lookup_total [OF un(2)])
  with un True show ?thesis by auto
next
  case False
  with i obj_table_bound [OF ok] have "obj_id_uninstall i p t = Ret (- AOSL_EINVAL, t)"
    by (simp add: obj_id_uninstall_def)
  with ok False show ?thesis by auto
qed

theorem uninstall_then_lookup_witness:
  "\<exists>r t'. obj_id_uninstall 2 (1 :: nat) table0 = Ret (r, t') \<and> obj_table_ok t'
    \<and> (if pool_table table0 ! nat 2 = Some 1
       then r = 0 \<and> (\<forall>f l. obj_lookup f (make_obj_id (word_of_int 2) l) t' = Ret None)
       else r = - AOSL_EINVAL \<and> t' = table0)"
  by (rule uninstall_then_lookup) (auto simp: obj_table_init_ok(1) [OF obj_table_init_table0])

end
