(* ===== verification/Tls.thy ===== *)
theory Tls
  imports Id_Table
begin

text \<open>
  Thread-local storage, \<^verbatim>\<open>lib/tls.c\<close>. A key is an identifier of a pool that grows by 16; the
  slot of a key holds a sequence number that is odd while the key is allocated. Each
  thread has a table of values stamped with the sequence number of the key at the time of
  the store, so that a value left from an earlier life of a key is not returned.

  The red-black tree of thread nodes is used only through find by thread id and insert; its
  content is the map \<open>thread_tree\<close>. A null \<^verbatim>\<open>void *\<close> is \<open>None\<close>. The bytes of a block fresh from
  \<^verbatim>\<open>malloc\<close> are the argument \<open>raw\<close>.
\<close>

type_synonym k_tls_slot = u64

definition STATIC_TLS_KEY_ID_SIZE :: int where "STATIC_TLS_KEY_ID_SIZE = 16"
definition TLS_KEY_ID_MAX_SIZE :: int where "TLS_KEY_ID_MAX_SIZE = 512"

definition alloc_tls_key :: "grow_mem \<Rightarrow> (k_tls_slot, 'z) id_pool_scheme \<Rightarrow> (int \<times> (k_tls_slot, 'z) id_pool_scheme) exec" where
  "alloc_tls_key m t =
     ebind (pool_get_unused STATIC_TLS_KEY_ID_SIZE TLS_KEY_ID_MAX_SIZE 0 m t) (\<lambda>(key, t').
       if key < 0 then Ret (key, t')
       else ebind (arr_get (pool_table t') (nat key)) (\<lambda>seq.
            ebind (arr_set (pool_table t') (nat key) (seq + 1)) (\<lambda>tab.
            Ret (key, t'\<lparr>pool_table := tab\<rparr>))))"

definition free_tls_key :: "int \<Rightarrow> (k_tls_slot, 'z) id_pool_scheme \<Rightarrow> (int \<times> (k_tls_slot, 'z) id_pool_scheme) exec" where
  "free_tls_key key t =
     (if key < 0 \<or> pool_size t \<le> key then Ret (- AOSL_EINVAL, t)
      else ebind (bitmap_clear (pool_bits t) (word_of_int key)) (\<lambda>b.
           ebind (arr_get (pool_table t) (nat key)) (\<lambda>seq.
           ebind (arr_set (pool_table t) (nat key) (seq + 1)) (\<lambda>tab.
           Ret (0, t\<lparr>pool_bits := b, pool_table := tab\<rparr>)))))"

record 'v k_tls_value =
  tv_seq :: u64
  tv_val :: "'v option"

record 'v tls_thread_node =
  tls_key_table :: "'v k_tls_value list"
  tls_key_table_size :: nat

record 'v tls_state = "k_tls_slot id_pool" +
  thread_tree :: "u64 \<rightharpoonup> 'v tls_thread_node"

definition KEY_USED :: "k_tls_slot \<Rightarrow> bool" where
  "KEY_USED seq \<longleftrightarrow> odd seq"

definition k_tls_key_create :: "grow_mem \<Rightarrow> 'v tls_state \<Rightarrow> (int \<times> int option \<times> 'v tls_state) exec" where
  "k_tls_key_create m st =
     ebind (alloc_tls_key m st) (\<lambda>(err, st'). Ret (if err < 0 then (err, None, st') else (0, Some err, st')))"

definition k_tls_key_delete :: "int \<Rightarrow> 'v tls_state \<Rightarrow> (int \<times> 'v tls_state) exec" where
  "k_tls_key_delete key st = free_tls_key key st"

definition k_tls_key_get :: "u64 \<Rightarrow> int \<Rightarrow> 'v tls_state \<Rightarrow> ('v option \<times> 'v tls_state) exec" where
  "k_tls_key_get self key st =
     (if key < 0 \<or> pool_size st \<le> key then Ret (None, st)
      else ebind (arr_get (pool_table st) (nat key)) (\<lambda>seq.
        if \<not> KEY_USED seq then Ret (None, st)
        else case thread_tree st self of
          None \<Rightarrow> Ret (None, st)
        | Some n \<Rightarrow>
            if int (tls_key_table_size n) \<le> key then Ret (None, st)
            else ebind (arr_get (tls_key_table n) (nat key)) (\<lambda>v.
              if tv_val v \<noteq> None \<and> tv_seq v \<noteq> seq
              then ebind (arr_set (tls_key_table n) (nat key) (v\<lparr>tv_val := None\<rparr>)) (\<lambda>tab.
                Ret (None, st\<lparr>thread_tree := (thread_tree st)(self \<mapsto> n\<lparr>tls_key_table := tab\<rparr>)\<rparr>))
              else Ret (tv_val v, st))))"

text \<open>\<^verbatim>\<open>memset\<close> to 0 of a value: sequence number 0 and a null pointer.\<close>

definition zero_value :: "'v k_tls_value" where
  "zero_value = \<lparr>tv_seq = 0, tv_val = None\<rparr>"

text \<open>The thread's node, created on the first store. \<open>ok1\<close>, \<open>ok2\<close>: the two allocations.\<close>

definition tls_thread_node_of :: "bool \<Rightarrow> bool \<Rightarrow> u64 \<Rightarrow> 'v tls_state \<Rightarrow> 'v tls_thread_node exec" where
  "tls_thread_node_of ok1 ok2 self st =
     (case thread_tree st self of
        Some n \<Rightarrow> Ret n
      | None \<Rightarrow> bug_on (\<not> ok1) (bug_on (\<not> ok2)
          (Ret \<lparr>tls_key_table = replicate (nat (pool_size st)) zero_value, tls_key_table_size = nat (pool_size st)\<rparr>)))"

definition tls_grow_table :: "bool \<Rightarrow> (nat \<Rightarrow> 'v k_tls_value) \<Rightarrow> int \<Rightarrow> 'v tls_state \<Rightarrow> 'v tls_thread_node \<Rightarrow> 'v tls_thread_node exec" where
  "tls_grow_table ok raw key st n =
     (if int (tls_key_table_size n) \<le> key then
        let new_size = nat (pool_size st) in
        bug_on (\<not> ok)
          (if 0 < tls_key_table_size n then
             bug_on (new_size < tls_key_table_size n)
               (if length (tls_key_table n) < tls_key_table_size n then Fault
                else Ret \<lparr>tls_key_table = take (tls_key_table_size n) (tls_key_table n)
                                           @ replicate (new_size - tls_key_table_size n) zero_value,
                          tls_key_table_size = new_size\<rparr>)
           else Ret \<lparr>tls_key_table = map raw [0..<new_size], tls_key_table_size = new_size\<rparr>)
      else Ret n)"

definition k_tls_key_set ::
  "bool \<times> bool \<times> bool \<Rightarrow> (nat \<Rightarrow> 'v k_tls_value) \<Rightarrow> u64 \<Rightarrow> int \<Rightarrow> 'v option \<Rightarrow> 'v tls_state \<Rightarrow> (int \<times> 'v tls_state) exec" where
  "k_tls_key_set mem raw self key value st =
     (if key < 0 \<or> pool_size st \<le> key then Ret (- AOSL_EINVAL, st)
      else ebind (arr_get (pool_table st) (nat key)) (\<lambda>seq.
        if \<not> KEY_USED seq then Ret (- AOSL_EINVAL, st)
        else ebind (tls_thread_node_of (fst mem) (fst (snd mem)) self st) (\<lambda>n.
          ebind (tls_grow_table (snd (snd mem)) raw key st n) (\<lambda>n.
          bug_on (int (tls_key_table_size n) \<le> key)
            (ebind (arr_set (tls_key_table n) (nat key) \<lparr>tv_seq = seq, tv_val = value\<rparr>) (\<lambda>tab.
             Ret (0, st\<lparr>thread_tree := (thread_tree st)(self \<mapsto> n\<lparr>tls_key_table := tab\<rparr>)\<rparr>)))))))"

text \<open>A null bitmap or table makes the first access fault, which is recorded here at once.\<close>

definition rb_tls_init :: "bool \<Rightarrow> bool \<Rightarrow> bool \<Rightarrow> 'v tls_state exec" where
  "rb_tls_init ok1 ok2 ok3 =
     (case bitmap_create ok1 ok2 (word_of_int STATIC_TLS_KEY_ID_SIZE) of
        None \<Rightarrow> Fault
      | Some b \<Rightarrow> if \<not> ok3 then Fault
          else Ret \<lparr>pool_bits = b, pool_table = replicate (nat STATIC_TLS_KEY_ID_SIZE) 0,
                    pool_size = STATIC_TLS_KEY_ID_SIZE, thread_tree = Map.empty\<rparr>)"

subsection \<open>Invariant\<close>

definition keys_ok :: "(k_tls_slot, 'z) id_pool_scheme \<Rightarrow> bool" where
  "keys_ok t \<longleftrightarrow> pool_ok 16 t \<and> (\<forall>i < length (pool_table t). KEY_USED (pool_table t ! i) = in_use t i)"

definition node_ok :: "int \<Rightarrow> 'v tls_thread_node \<Rightarrow> bool" where
  "node_ok sz n \<longleftrightarrow> length (tls_key_table n) = tls_key_table_size n \<and> 0 < tls_key_table_size n
     \<and> int (tls_key_table_size n) \<le> sz"

text \<open>A stored value's stamp is not newer than its key's sequence number.\<close>

definition stamps_ok :: "u64 list \<Rightarrow> 'v tls_thread_node \<Rightarrow> bool" where
  "stamps_ok seqs n \<longleftrightarrow> (\<forall>i < length (tls_key_table n).
     tv_val (tls_key_table n ! i) \<noteq> None \<longrightarrow> tv_seq (tls_key_table n ! i) \<le> seqs ! i)"

definition tls_ok :: "'v tls_state \<Rightarrow> bool" where
  "tls_ok st \<longleftrightarrow> keys_ok st
     \<and> (\<forall>self n. thread_tree st self = Some n \<longrightarrow> node_ok (pool_size st) n \<and> stamps_ok (pool_table st) n)"

text \<open>
  The abstract content: the value a thread sees under a key. Only a live key, a table that
  reaches it and a stamp of the key's current life give one.
\<close>

definition live :: "'v tls_state \<Rightarrow> int \<Rightarrow> bool" where
  "live st key \<longleftrightarrow> 0 \<le> key \<and> in_use st (nat key)"

definition tls_value :: "'v tls_state \<Rightarrow> u64 \<Rightarrow> int \<Rightarrow> 'v option" where
  "tls_value st self key =
     (if live st key then
        case thread_tree st self of
          None \<Rightarrow> None
        | Some n \<Rightarrow> if nat key < tls_key_table_size n \<and> tv_seq (tls_key_table n ! nat key) = pool_table st ! nat key
                   then tv_val (tls_key_table n ! nat key) else None
      else None)"

lemma keys_ok_bound:
  assumes "keys_ok t"
  shows "0 < pool_size t" and "length (pool_table t) = nat (pool_size t)"
  using assms by (auto simp: keys_ok_def pool_ok_def)

lemma KEY_USED_step [simp]: "KEY_USED (x + 1) \<longleftrightarrow> \<not> KEY_USED x" and KEY_USED_2 [simp]: "KEY_USED (2 + x) \<longleftrightarrow> KEY_USED x" and KEY_USED_0 [simp]: "\<not> KEY_USED 0"
  by (simp_all add: KEY_USED_def)

text \<open>Allocation of a key: its slot's sequence number becomes odd, every other slot keeps its own.\<close>

lemma alloc_tls_key_ok:
  assumes ok: "keys_ok t"
  obtains (error) r where "alloc_tls_key m t = Ret (r, t)" "r < 0"
  | (key) k t' where "alloc_tls_key m t = Ret (k, t')" "0 \<le> k" "k < pool_size t'" "keys_ok t'" "\<not> in_use t (nat k)"
      "in_use t' = (in_use t)(nat k := True)" "pool_size t \<le> pool_size t'"
      "\<forall>i < length (pool_table t). i \<noteq> nat k \<longrightarrow> pool_table t' ! i = pool_table t ! i"
      "nat k < length (pool_table t) \<longrightarrow> pool_table t' ! nat k = pool_table t ! nat k + 1"
      "t' = t\<lparr>pool_bits := pool_bits t', pool_table := pool_table t', pool_size := pool_size t'\<rparr>"
proof -
  from ok have pok: "pool_ok 16 t" by (simp add: keys_ok_def)
  from pool_alloc_spec [OF pok good_stride_16, of TLS_KEY_ID_MAX_SIZE 0 m] obtain r t1 where
    t1: "pool_get_unused 16 TLS_KEY_ID_MAX_SIZE 0 m t = Ret (r, t1)" "pool_ok 16 t1"
    "0 \<le> r \<longrightarrow> \<not> in_use t (nat r) \<and> in_use t1 = (in_use t)(nat r := True) \<and> pool_granted 16 0 t r t1"
    "r < 0 \<longrightarrow> t1 = t" by blast
  show thesis
  proof (cases "r < 0")
    case True
    with t1 show thesis by (intro error [of r]) (simp_all add: alloc_tls_key_def STATIC_TLS_KEY_ID_SIZE_def)
  next
    case False
    then have r: "0 \<le> r" by simp
    with t1(3) have g: "pool_granted 16 0 t r t1" and u: "\<not> in_use t (nat r)" "in_use t1 = (in_use t)(nat r := True)"
      by auto
    let ?t = "t1\<lparr>pool_table := (pool_table t1)[nat r := pool_table t1 ! nat r + 1]\<rparr>"
    have len: "length (pool_table t1) = nat (pool_size t1)" "length (pool_table t) = nat (pool_size t)"
      using t1(2) pok by (auto simp: pool_ok_def)
    from g r len have lt: "r < pool_size t1" "nat r < length (pool_table t1)"
      and tab: "pool_table t1 = pool_table t \<or> pool_table t1 = pool_table t @ replicate 16 0"
      and size: "pool_size t \<le> pool_size t1"
      and scheme: "t1 = t\<lparr>pool_bits := pool_bits t1, pool_table := pool_table t1, pool_size := pool_size t1\<rparr>"
      by (auto simp: pool_granted_def)
    have used: "KEY_USED (pool_table t1 ! i) = in_use t i" if "i < length (pool_table t1)" for i
      using that tab ok in_use_size [OF pok, of i] len(2) unfolding keys_ok_def
      by (auto simp: nth_append_replicate split: if_splits)
    have "keys_ok ?t"
      unfolding keys_ok_def using t1(2) used u lt(2)
      by (auto simp: pool_ok_def nth_list_update)
    moreover have "alloc_tls_key m t = Ret (r, ?t)"
      using t1(1) False lt(2) by (simp add: alloc_tls_key_def STATIC_TLS_KEY_ID_SIZE_def)
    moreover have "\<forall>i < length (pool_table t). pool_table t1 ! i = pool_table t ! i"
      using tab by (auto simp: nth_append)
    moreover have "?t = t\<lparr>pool_bits := pool_bits ?t, pool_table := pool_table ?t, pool_size := pool_size ?t\<rparr>"
      by (subst scheme) simp
    ultimately show thesis using r lt u size by (intro key [of r ?t]) auto
  qed
qed

lemma free_tls_key_ok:
  assumes ok: "keys_ok t" and k: "0 \<le> k" "k < pool_size t"
  shows "\<exists>b. free_tls_key k t = Ret (0, t\<lparr>pool_bits := b, pool_table := (pool_table t)[nat k := pool_table t ! nat k + 1]\<rparr>)
    \<and> pool_ok 16 (t\<lparr>pool_bits := b\<rparr>) \<and> taken b = (in_use t)(nat k := False)"
proof -
  from ok have "pool_ok 16 t" by (simp add: keys_ok_def)
  from pool_put_unused_ok [OF this k] obtain b where
    "bitmap_clear (pool_bits t) (word_of_int k) = Ret b" "pool_ok 16 (t\<lparr>pool_bits := b\<rparr>)" "taken b = (in_use t)(nat k := False)"
    by blast
  then show ?thesis using k keys_ok_bound [OF ok] by (auto simp: free_tls_key_def)
qed

subsection \<open>Reading and storing\<close>

lemma live_iff:
  assumes "keys_ok st" and "0 \<le> key" and "key < pool_size st"
  shows "live st key \<longleftrightarrow> KEY_USED (pool_table st ! nat key)"
  using assms keys_ok_bound [OF assms(1)] by (simp add: live_def keys_ok_def)

lemma live_bound: "keys_ok st \<Longrightarrow> live st key \<Longrightarrow> 0 \<le> key \<and> key < pool_size st"
  using in_use_size [of 16 st "nat key"] by (auto simp: live_def keys_ok_def)

text \<open>What a node stores at an index, zeroes beyond its table; growing a table changes nothing of it.\<close>

definition stored :: "'v tls_thread_node option \<Rightarrow> nat \<Rightarrow> 'v k_tls_value" where
  "stored n i = (case n of None \<Rightarrow> zero_value
     | Some n \<Rightarrow> if i < tls_key_table_size n then tls_key_table n ! i else zero_value)"

lemma tls_value_stored:
  "tls_value st self key =
     (if live st key \<and> tv_seq (stored (thread_tree st self) (nat key)) = pool_table st ! nat key
      then tv_val (stored (thread_tree st self) (nat key)) else None)"
  by (auto simp: tls_value_def stored_def zero_value_def split: option.splits)

lemma tls_ok_update:
  assumes "tls_ok st" and "node_ok (pool_size st) n" and "stamps_ok (pool_table st) n"
  shows "tls_ok (st\<lparr>thread_tree := (thread_tree st)(self \<mapsto> n)\<rparr>)"
  using assms by (auto simp: tls_ok_def keys_ok_def pool_ok_def)

lemma node_ok_update:
  assumes "node_ok z n" and "stamps_ok seqs n" and "i < tls_key_table_size n" and "tv_val v = None \<or> tv_seq v \<le> seqs ! i"
  shows "node_ok z (n\<lparr>tls_key_table := (tls_key_table n)[i := v]\<rparr>)"
    and "stamps_ok seqs (n\<lparr>tls_key_table := (tls_key_table n)[i := v]\<rparr>)"
    and "stored (Some (n\<lparr>tls_key_table := (tls_key_table n)[i := v]\<rparr>)) = (stored (Some n))(i := v)"
  using assms by (auto simp: node_ok_def stamps_ok_def stored_def nth_list_update fun_eq_iff)

text \<open>A read returns the abstract value; dropping a stale value changes no thread's view.\<close>

lemma tls_get_ok:
  assumes ok: "tls_ok st"
  shows "\<exists>st'. k_tls_key_get self key st = Ret (tls_value st self key, st') \<and> tls_ok st' \<and> tls_value st' = tls_value st
     \<and> live st' = live st"
proof (cases "live st key \<and> (\<exists>n. thread_tree st self = Some n \<and> nat key < tls_key_table_size n
     \<and> tv_val (tls_key_table n ! nat key) \<noteq> None \<and> tv_seq (tls_key_table n ! nat key) \<noteq> pool_table st ! nat key)")
  case False
  have "k_tls_key_get self key st = Ret (tls_value st self key, st)"
  proof (cases "key < 0 \<or> pool_size st \<le> key")
    case True
    with live_bound [of st key] ok have "\<not> live st key" by (auto simp: tls_ok_def)
    with True show ?thesis by (auto simp: k_tls_key_get_def tls_value_def)
  next
    case in_range: False
    have kok: "keys_ok st" using ok by (simp add: tls_ok_def)
    have l: "live st key \<longleftrightarrow> KEY_USED (pool_table st ! nat key)" using live_iff [OF kok] in_range by simp
    show ?thesis
    proof (cases "thread_tree st self")
      case None
      with in_range keys_ok_bound [OF kok] l show ?thesis by (auto simp: k_tls_key_get_def tls_value_def)
    next
      case (Some n)
      with ok have "length (tls_key_table n) = tls_key_table_size n" by (auto simp: tls_ok_def node_ok_def)
      with Some in_range keys_ok_bound [OF kok] l False show ?thesis
        by (auto simp: k_tls_key_get_def tls_value_def)
    qed
  qed
  with ok show ?thesis by auto
next
  case True
  then obtain n where l: "live st key" and n: "thread_tree st self = Some n" "nat key < tls_key_table_size n"
    and v: "tv_val (tls_key_table n ! nat key) \<noteq> None" "tv_seq (tls_key_table n ! nat key) \<noteq> pool_table st ! nat key" by blast
  have kok: "keys_ok st" using ok by (simp add: tls_ok_def)
  note bound = live_bound [OF kok l] keys_ok_bound [OF kok]
  let ?v = "tls_key_table n ! nat key"
  let ?st = "st\<lparr>thread_tree := (thread_tree st)(self \<mapsto> n\<lparr>tls_key_table := (tls_key_table n)[nat key := ?v\<lparr>tv_val := None\<rparr>]\<rparr>)\<rparr>"
  from ok n have nok: "node_ok (pool_size st) n" "stamps_ok (pool_table st) n" by (auto simp: tls_ok_def)
  have "tls_value st self key = None" using n v by (simp add: tls_value_def)
  moreover have "k_tls_key_get self key st = Ret (None, ?st)"
    using bound l n v nok live_iff [OF kok] by (auto simp: k_tls_key_get_def node_ok_def)
  moreover have "tls_ok ?st"
    by (rule tls_ok_update [OF ok node_ok_update(1,2) [OF nok n(2)]]) simp_all
  moreover have "live ?st = live st" by (auto simp: live_def fun_eq_iff)
  moreover have "tls_value ?st = tls_value st"
    using n nok v by (auto simp: tls_value_def live_def fun_eq_iff node_ok_def nth_list_update split: option.splits)
  ultimately show ?thesis by auto
qed

text \<open>The thread's node with room for the key.\<close>

lemma tls_prepare_ok:
  assumes ok: "tls_ok st" and l: "live st key"
  shows "\<exists>n. ebind (tls_thread_node_of True True self st) (tls_grow_table True raw key st) = Ret n
     \<and> node_ok (pool_size st) n \<and> stamps_ok (pool_table st) n \<and> nat key < tls_key_table_size n
     \<and> stored (Some n) = stored (thread_tree st self)"
proof -
  have kok: "keys_ok st" using ok by (simp add: tls_ok_def)
  note bound = live_bound [OF kok l] keys_ok_bound [OF kok]
  obtain n0 where n0: "tls_thread_node_of True True self st = Ret n0" "node_ok (pool_size st) n0"
    "stamps_ok (pool_table st) n0" "stored (Some n0) = stored (thread_tree st self)"
  proof (cases "thread_tree st self")
    case None
    show thesis
      by (rule that) (use None bound in \<open>auto simp: tls_thread_node_of_def node_ok_def stamps_ok_def stored_def zero_value_def\<close>)
  next
    case (Some n)
    show thesis by (rule that) (use Some ok in \<open>auto simp: tls_thread_node_of_def tls_ok_def\<close>)
  qed
  show ?thesis
  proof (cases "int (tls_key_table_size n0) \<le> key")
    case False
    then have "tls_grow_table True raw key st n0 = Ret n0" by (simp add: tls_grow_table_def)
    with n0 False bound show ?thesis by (intro exI [of _ n0]) (simp add: nat_less_iff)
  next
    case True
    let ?n = "\<lparr>tls_key_table = tls_key_table n0 @ replicate (nat (pool_size st) - tls_key_table_size n0) zero_value,
      tls_key_table_size = nat (pool_size st)\<rparr>"
    have g: "tls_grow_table True raw key st n0 = Ret ?n"
      using True n0(2) by (auto simp: tls_grow_table_def node_ok_def Let_def bug_on_def)
    have "node_ok (pool_size st) ?n" using n0(2) bound by (auto simp: node_ok_def)
    moreover have "stamps_ok (pool_table st) ?n"
      using n0(2,3) by (auto simp: stamps_ok_def node_ok_def nth_append zero_value_def)
    moreover have "stored (Some ?n) = stored (Some n0)"
      using n0(2) by (auto simp: stored_def node_ok_def nth_append fun_eq_iff)
    ultimately show ?thesis using g n0(1,4) bound by (intro exI [of _ ?n]) (simp add: nat_less_iff)
  qed
qed

lemma tls_set_ok:
  assumes ok: "tls_ok st" and l: "live st key"
  shows "\<exists>st'. k_tls_key_set (True, True, True) raw self key v st = Ret (0, st') \<and> tls_ok st'
     \<and> tls_value st' = (\<lambda>s k. if s = self \<and> k = key then v else tls_value st s k) \<and> live st' = live st"
proof -
  have kok: "keys_ok st" using ok by (simp add: tls_ok_def)
  note bound = live_bound [OF kok l] keys_ok_bound [OF kok]
  from tls_prepare_ok [OF ok l, of self raw] obtain n0 n where
    n0: "tls_thread_node_of True True self st = Ret n0" "tls_grow_table True raw key st n0 = Ret n"
    and n: "node_ok (pool_size st) n" "stamps_ok (pool_table st) n" "nat key < tls_key_table_size n"
    and view: "stored (Some n) = stored (thread_tree st self)" by (auto simp: ebind_Ret_iff)
  let ?v = "\<lparr>tv_seq = pool_table st ! nat key, tv_val = v\<rparr>"
  let ?n = "n\<lparr>tls_key_table := (tls_key_table n)[nat key := ?v]\<rparr>"
  let ?st = "st\<lparr>thread_tree := (thread_tree st)(self \<mapsto> ?n)\<rparr>"
  note upd = node_ok_update [OF n, of ?v]
  have "k_tls_key_set (True, True, True) raw self key v st = Ret (0, ?st)"
    using bound l live_iff [OF kok] n0 n by (auto simp: k_tls_key_set_def node_ok_def bug_on_def)
  moreover have "tls_ok ?st" using ok upd by (intro tls_ok_update) auto
  moreover have lv: "live ?st = live st" by (auto simp: live_def fun_eq_iff)
  moreover have "tls_value ?st = (\<lambda>s k. if s = self \<and> k = key then v else tls_value st s k)"
  proof (intro ext)
    fix s k
    have "nat k = nat key \<longleftrightarrow> k = key" if "live st k" using that bound by (auto simp: live_def)
    with l view upd(3) show "tls_value ?st s k = (if s = self \<and> k = key then v else tls_value st s k)"
      by (auto simp: tls_value_stored lv)
  qed
  ultimately show ?thesis by blast
qed

lemma tls_set_dead:
  assumes ok: "tls_ok st" and l: "\<not> live st key"
  shows "k_tls_key_set mem raw self key v st = Ret (- AOSL_EINVAL, st)"
proof (cases "key < 0 \<or> pool_size st \<le> key")
  case True
  then show ?thesis by (auto simp: k_tls_key_set_def)
next
  case False
  have kok: "keys_ok st" using ok by (simp add: tls_ok_def)
  with False l live_iff [OF kok] keys_ok_bound [OF kok] show ?thesis by (simp add: k_tls_key_set_def)
qed

subsection \<open>Creating and deleting keys\<close>

text \<open>
  A key's sequence number can still be stepped: the 64-bit counter of the slot is not at its
  maximum. (Each creation and each deletion of a key adds one.)
\<close>

definition seq_room :: "'v tls_state \<Rightarrow> bool" where
  "seq_room st \<longleftrightarrow> (\<forall>s \<in> set (pool_table st). s \<noteq> - 1)"

lemma u64_less_step: "x \<noteq> - 1 \<Longrightarrow> (x :: u64) < x + 1"
proof -
  assume "x \<noteq> - 1"
  then have "1 + x \<noteq> 0" by (metis add_eq_0_iff)
  from unatSuc [OF this] show ?thesis by (simp add: word_less_nat_alt add.commute)
qed

text \<open>Stepping one slot's counter keeps the stamps below it; a stamp is then older than the slot.\<close>

lemma stamps_ok_step:
  assumes "stamps_ok seqs n" and "node_ok (int (length seqs)) n" and "length seqs \<le> length seqs'"
    and "\<forall>i < length seqs. i \<noteq> k \<longrightarrow> seqs' ! i = seqs ! i"
    and "k < length seqs \<longrightarrow> seqs' ! k = seqs ! k + 1 \<and> seqs ! k \<noteq> - 1"
  shows "stamps_ok seqs' n"
    and "k < length (tls_key_table n) \<and> tv_val (tls_key_table n ! k) \<noteq> None \<longrightarrow> tv_seq (tls_key_table n ! k) \<noteq> seqs' ! k"
proof -
  have len: "length (tls_key_table n) \<le> length seqs" using assms(2) by (simp add: node_ok_def)
  have up: "seqs ! i \<le> seqs' ! i" if "i < length seqs" for i
    using that assms(4,5) u64_less_step [of "seqs ! i"] by (cases "i = k") (auto intro: less_imp_le)
  show "stamps_ok seqs' n"
    using assms(1) len up unfolding stamps_ok_def by (meson order_trans less_le_trans)
  show "k < length (tls_key_table n) \<and> tv_val (tls_key_table n ! k) \<noteq> None \<longrightarrow> tv_seq (tls_key_table n ! k) \<noteq> seqs' ! k"
    using assms(1,5) len u64_less_step [of "seqs ! k"] unfolding stamps_ok_def by force
qed

text \<open>
  The states of one key operation: counter \<open>k\<close> steps by one, the other counters and the
  threads' tables stay. \<open>on\<close> is whether \<open>k\<close> is live afterwards.
\<close>

lemma tls_key_step:
  fixes st st' :: "'v tls_state"
  assumes ok: "tls_ok st" and room: "seq_room st" and kok: "keys_ok st'"
    and use: "in_use st' = (in_use st)(nat k := on)" and k: "0 \<le> k" and le: "pool_size st \<le> pool_size st'"
    and same: "\<forall>i < length (pool_table st). i \<noteq> nat k \<longrightarrow> pool_table st' ! i = pool_table st ! i"
    and step: "nat k < length (pool_table st) \<longrightarrow> pool_table st' ! nat k = pool_table st ! nat k + 1"
    and tree: "thread_tree st' = thread_tree st"
  shows "tls_ok st'" and "live st' = (live st)(k := on)"
    and "tls_value st' = (\<lambda>s j. if j = k then None else tls_value st s j)"
proof -
  have kok0: "keys_ok st" using ok by (simp add: tls_ok_def)
  note len = keys_ok_bound [OF kok0] keys_ok_bound [OF kok]
  have step': "nat k < length (pool_table st) \<longrightarrow>
      pool_table st' ! nat k = pool_table st ! nat k + 1 \<and> pool_table st ! nat k \<noteq> - 1"
    using step room by (auto simp: seq_room_def)
  have node: "node_ok (int (length (pool_table st))) n" "stamps_ok (pool_table st) n"
    if "thread_tree st self = Some n" for self n
    using ok that len by (auto simp: tls_ok_def)
  note new = stamps_ok_step [OF node(2,1) _ same step']
  have "length (pool_table st) \<le> length (pool_table st')" using len le by simp
  note new = new [OF _ _ this]
  have nok: "node_ok (pool_size st') n" if "thread_tree st self = Some n" for self n
    using ok that le by (force simp: tls_ok_def node_ok_def)
  show "tls_ok st'" unfolding tls_ok_def using kok nok new(1) tree by simp
  show lv: "live st' = (live st)(k := on)"
    using use k by (auto simp: live_def fun_eq_iff eq_nat_nat_iff)
  show "tls_value st' = (\<lambda>s j. if j = k then None else tls_value st s j)"
  proof (intro ext)
    fix s j
    have "tls_value st' s k = None"
    proof (cases "thread_tree st s")
      case None
      then show ?thesis by (simp add: tls_value_def tree)
    next
      case (Some n)
      with new(2) [of s n s] nok [of s n] show ?thesis
        by (auto simp: tls_value_def tree node_ok_def)
    qed
    moreover have "tls_value st' s j = tls_value st s j" if "j \<noteq> k"
    proof (cases "live st j")
      case True
      with live_bound [OF kok0 this] len that k have "pool_table st' ! nat j = pool_table st ! nat j"
        using same by (auto simp: eq_nat_nat_iff)
      with that show ?thesis by (simp add: tls_value_stored lv tree)
    next
      case False
      with that show ?thesis by (simp add: tls_value_stored lv)
    qed
    ultimately show "tls_value st' s j = (if j = k then None else tls_value st s j)" by simp
  qed
qed

lemma thread_tree_keys:
  "st' = st\<lparr>pool_bits := b, pool_table := tab, pool_size := z\<rparr> \<Longrightarrow> thread_tree st' = thread_tree st"
  by simp

lemma tls_create_ok:
  assumes ok: "tls_ok st" and room: "seq_room st"
  shows "(\<exists>r < 0. k_tls_key_create m st = Ret (r, None, st))
    \<or> (\<exists>k st'. k_tls_key_create m st = Ret (0, Some k, st') \<and> tls_ok st' \<and> \<not> live st k
         \<and> live st' = (live st)(k := True) \<and> tls_value st' = tls_value st)"
proof -
  have "keys_ok st" using ok by (simp add: tls_ok_def)
  then show ?thesis
  proof (cases rule: alloc_tls_key_ok [case_names error key, of st m, consumes 1])
    case (error r)
    then show ?thesis by (intro disjI1 exI [of _ r]) (simp add: k_tls_key_create_def)
  next
    case (key k st')
    note tree = thread_tree_keys [OF key(10)]
    have dead: "\<not> live st k" using key(5) by (simp add: live_def)
    note s = tls_key_step [OF ok room key(4,6,2,7,8,9) tree]
    have "tls_value st' = tls_value st"
      using s(3) dead by (auto simp: fun_eq_iff tls_value_def)
    with s(1,2) dead key(1,2) show ?thesis
      by (intro disjI2 exI [of _ k] exI [of _ st']) (simp add: k_tls_key_create_def)
  qed
qed

lemma tls_delete_ok:
  assumes ok: "tls_ok st" and room: "seq_room st" and l: "live st k"
  shows "\<exists>st'. k_tls_key_delete k st = Ret (0, st') \<and> tls_ok st'
    \<and> live st' = (live st)(k := False) \<and> tls_value st' = (\<lambda>s j. if j = k then None else tls_value st s j)"
proof -
  have kok: "keys_ok st" using ok by (simp add: tls_ok_def)
  note b = live_bound [OF kok l] keys_ok_bound [OF kok]
  from free_tls_key_ok [OF kok, of k] b obtain bits where
    f: "free_tls_key k st = Ret (0, st\<lparr>pool_bits := bits, pool_table := (pool_table st)[nat k := pool_table st ! nat k + 1]\<rparr>)"
    "pool_ok 16 (st\<lparr>pool_bits := bits\<rparr>)" "taken bits = (in_use st)(nat k := False)" by auto
  let ?st = "st\<lparr>pool_bits := bits, pool_table := (pool_table st)[nat k := pool_table st ! nat k + 1]\<rparr>"
  have "KEY_USED (pool_table st ! nat k)" using live_iff [OF kok] b l by simp
  with f kok have "keys_ok ?st"
    by (auto simp: keys_ok_def pool_ok_def nth_list_update)
  note s = tls_key_step [OF ok room this, of k False]
  have "tls_ok ?st \<and> live ?st = (live st)(k := False) \<and> tls_value ?st = (\<lambda>s j. if j = k then None else tls_value st s j)"
    by (intro conjI s) (use b f(3) in auto)
  with f(1) show ?thesis by (auto simp: k_tls_key_delete_def)
qed

subsection \<open>The store as an abstract machine\<close>

text \<open>
  What the users of thread-local storage rely on: a set of live keys and, for each thread and
  key, a value. The specification does not say which free key a creation picks.
\<close>

record 'v tls_spec =
  a_live :: "int \<Rightarrow> bool"
  a_val :: "u64 \<Rightarrow> int \<Rightarrow> 'v option"

datatype 'v tls_op = Create grow_mem | Delete int | Store u64 int "'v option" | Load u64 int

datatype 'v tls_out = Err int | Key int | Done | Val "'v option"

inductive tls_spec_step :: "'v tls_op \<Rightarrow> 'v tls_spec \<Rightarrow> 'v tls_out \<Rightarrow> 'v tls_spec \<Rightarrow> bool" where
  create: "\<not> a_live a k \<Longrightarrow> (\<And>s. a_val a s k = None) \<Longrightarrow>
     tls_spec_step (Create m) a (Key k) (a\<lparr>a_live := (a_live a)(k := True)\<rparr>)"
| create_err: "r < 0 \<Longrightarrow> tls_spec_step (Create m) a (Err r) a"
| delete: "a_live a k \<Longrightarrow> tls_spec_step (Delete k) a Done
     \<lparr>a_live = (a_live a)(k := False), a_val = (\<lambda>s j. if j = k then None else a_val a s j)\<rparr>"
| store: "a_live a k \<Longrightarrow> tls_spec_step (Store self k v) a Done
     (a\<lparr>a_val := (\<lambda>s j. if s = self \<and> j = k then v else a_val a s j)\<rparr>)"
| store_dead: "\<not> a_live a k \<Longrightarrow> tls_spec_step (Store self k v) a (Err (- AOSL_EINVAL)) a"
| load: "tls_spec_step (Load self k) a (Val (a_val a self k)) a"

inductive_cases tls_spec_storeE: "tls_spec_step (Store self k v) a out a'"
inductive_cases tls_spec_loadE: "tls_spec_step (Load self k) a out a'"

text \<open>A provider of such a store: every step is one the specification allows.\<close>

locale tls_provider =
  fixes inv :: "'s \<Rightarrow> bool"
    and abs :: "'s \<Rightarrow> 'v tls_spec"
    and step :: "'v tls_op \<Rightarrow> 's \<Rightarrow> ('v tls_out \<times> 's) exec"
    and room :: "'s \<Rightarrow> bool"
  assumes sim: "inv st \<Longrightarrow> (\<forall>k. op = Delete k \<longrightarrow> a_live (abs st) k) \<Longrightarrow> (\<exists>m k. op = Create m \<or> op = Delete k) \<longrightarrow> room st \<Longrightarrow>
      \<exists>out st'. step op st = Ret (out, st') \<and> inv st' \<and> tls_spec_step op (abs st) out (abs st')"
begin

text \<open>A thread reads back what it stored last, and no other thread or key is affected.\<close>

lemma load_after_store:
  assumes "inv st" and "a_live (abs st) k"
  shows "\<exists>st1 st2. step (Store self k v) st = Ret (Done, st1) \<and> inv st1
     \<and> step (Load s j) st1 = Ret (Val (if s = self \<and> j = k then v else a_val (abs st) s j), st2)"
proof -
  from sim [OF assms(1), of "Store self k v"] obtain out st1 where
    st1: "step (Store self k v) st = Ret (out, st1)" "inv st1" "tls_spec_step (Store self k v) (abs st) out (abs st1)" by auto
  from st1(3) assms(2) have o: "out = Done" "abs st1 = (abs st)\<lparr>a_val := (\<lambda>s j. if s = self \<and> j = k then v else a_val (abs st) s j)\<rparr>"
    by (auto elim: tls_spec_storeE)
  from sim [OF st1(2), of "Load s j"] obtain out' st2 where
    "step (Load s j) st1 = Ret (out', st2)" "tls_spec_step (Load s j) (abs st1) out' (abs st2)" by auto
  with o st1 show ?thesis by (auto elim!: tls_spec_loadE)
qed

end

text \<open>The code's operations as one step function, with memory available to \<^verbatim>\<open>k_tls_key_set\<close>.\<close>

definition tls_step :: "(nat \<Rightarrow> 'v k_tls_value) \<Rightarrow> 'v tls_op \<Rightarrow> 'v tls_state \<Rightarrow> ('v tls_out \<times> 'v tls_state) exec" where
  "tls_step raw op st =
     (case op of
        Create m \<Rightarrow> ebind (k_tls_key_create m st) (\<lambda>(err, key, st'). Ret (case key of None \<Rightarrow> Err err | Some k \<Rightarrow> Key k, st'))
      | Delete k \<Rightarrow> ebind (k_tls_key_delete k st) (\<lambda>(err, st'). Ret (if err < 0 then Err err else Done, st'))
      | Store self k v \<Rightarrow> ebind (k_tls_key_set (True, True, True) raw self k v st) (\<lambda>(err, st'). Ret (if err < 0 then Err err else Done, st'))
      | Load self k \<Rightarrow> ebind (k_tls_key_get self k st) (\<lambda>(v, st'). Ret (Val v, st')))"

definition tls_abs :: "'v tls_state \<Rightarrow> 'v tls_spec" where
  "tls_abs st = \<lparr>a_live = live st, a_val = tls_value st\<rparr>"

lemma tls_value_dead: "\<not> live st k \<Longrightarrow> tls_value st s k = None"
  by (simp add: tls_value_def)

lemma tls_step_sim:
  assumes ok: "tls_ok st" and del: "\<forall>k. op = Delete k \<longrightarrow> live st k"
    and room: "(\<exists>m k. op = Create m \<or> op = Delete k) \<longrightarrow> seq_room st"
  shows "\<exists>out st'. tls_step raw op st = Ret (out, st') \<and> tls_ok st' \<and> tls_spec_step op (tls_abs st) out (tls_abs st')"
proof (cases op)
  case (Create m)
  with room have "seq_room st" by simp
  from tls_create_ok [OF ok this, of m] show ?thesis
  proof (elim disjE exE conjE)
    fix r assume "r < 0" "k_tls_key_create m st = Ret (r, None, st)"
    with Create ok show ?thesis by (auto simp: tls_step_def intro: create_err)
  next
    fix k st' assume r: "k_tls_key_create m st = Ret (0, Some k, st')" "tls_ok st'" "\<not> live st k"
      "live st' = (live st)(k := True)" "tls_value st' = tls_value st"
    have "tls_spec_step (Create m) (tls_abs st) (Key k) ((tls_abs st)\<lparr>a_live := (a_live (tls_abs st))(k := True)\<rparr>)"
      using r(3) by (intro create) (simp_all add: tls_abs_def tls_value_dead)
    moreover have "(tls_abs st)\<lparr>a_live := (a_live (tls_abs st))(k := True)\<rparr> = tls_abs st'"
      using r(4,5) by (simp add: tls_abs_def)
    ultimately show ?thesis using Create r by (simp add: tls_step_def)
  qed
next
  case (Delete k)
  with del room have l: "live st k" and "seq_room st" by auto
  from tls_delete_ok [OF ok this(2,1)] obtain st' where st': "k_tls_key_delete k st = Ret (0, st')" "tls_ok st'"
    "live st' = (live st)(k := False)" "tls_value st' = (\<lambda>s j. if j = k then None else tls_value st s j)" by blast
  moreover have "tls_spec_step (Delete k) (tls_abs st) Done (tls_abs st')"
    using delete [of "tls_abs st" k, unfolded tls_abs_def tls_spec.select_convs tls_spec.update_convs] l st'
    by (simp add: tls_abs_def)
  ultimately show ?thesis using Delete by (simp add: tls_step_def)
next
  case (Store self k v)
  show ?thesis
  proof (cases "live st k")
    case True
    from tls_set_ok [OF ok this, of raw self v] obtain st' where st': "k_tls_key_set (True, True, True) raw self k v st = Ret (0, st')"
      "tls_ok st'" "tls_value st' = (\<lambda>s j. if s = self \<and> j = k then v else tls_value st s j)" "live st' = live st" by blast
    moreover have "tls_spec_step (Store self k v) (tls_abs st) Done (tls_abs st')"
      using store [of "tls_abs st" k self v, unfolded tls_abs_def tls_spec.select_convs tls_spec.update_convs] True st'
      by (simp add: tls_abs_def)
    ultimately show ?thesis using Store by (simp add: tls_step_def)
  next
    case False
    have "tls_spec_step (Store self k v) (tls_abs st) (Err (- AOSL_EINVAL)) (tls_abs st)"
      using False by (intro store_dead) (simp add: tls_abs_def)
    with tls_set_dead [OF ok False] Store ok show ?thesis by (simp add: tls_step_def)
  qed
next
  case (Load self k)
  from tls_get_ok [OF ok, of self k] obtain st' where "k_tls_key_get self k st = Ret (tls_value st self k, st')" "tls_ok st'"
    "tls_value st' = tls_value st" "live st' = live st" by blast
  moreover from this have "tls_abs st' = tls_abs st" by (simp add: tls_abs_def)
  moreover have "tls_spec_step (Load self k) (tls_abs st) (Val (tls_value st self k)) (tls_abs st)"
    using load [of self k "tls_abs st"] by (simp add: tls_abs_def)
  ultimately show ?thesis using Load by (simp add: tls_step_def)
qed

interpretation tl: tls_provider tls_ok tls_abs "tls_step raw" seq_room for raw
  by unfold_locales (rule tls_step_sim, simp_all add: tls_abs_def)

subsection \<open>Properties\<close>

lemma rb_tls_init_ok:
  assumes "rb_tls_init a b c = Ret st"
  shows "tls_ok st" and "seq_room st"
proof -
  from assms obtain bits where b: "bitmap_create a b 16 = Some bits"
    and st: "st = \<lparr>pool_bits = bits, pool_table = replicate 16 0, pool_size = 16, thread_tree = Map.empty\<rparr>"
    by (auto simp: rb_tls_init_def STATIC_TLS_KEY_ID_SIZE_def split: option.splits if_splits)
  from bitmap_create_ok [OF b] have "bitmap_ok bits" "unat (bit_cnt bits) = 16" "\<forall>i. \<not> taken bits i" by auto
  with st show "tls_ok st" "seq_room st" by (auto simp: tls_ok_def keys_ok_def pool_ok_def seq_room_def)
qed

text \<open>
  C15. Thread-local storage implements its specification, as long as only live keys are deleted (the code does not check this; the theorem
  below shows what the deletion of a dead key breaks) and no key has been created so often that its sequence number wraps: in a well-formed state every call of
  \<^verbatim>\<open>k_tls_key_create\<close>, \<^verbatim>\<open>k_tls_key_delete\<close> (of a live key), \<^verbatim>\<open>k_tls_key_set\<close> and \<^verbatim>\<open>k_tls_key_get\<close> returns, keeps the
  invariant, and is a step of the abstract machine of live keys and per-thread values: a new
  key reads null in every thread even when its identifier was used before, a deleted key
  loses its values, a store is seen by its thread under its key only.
\<close>

theorem tls_refines_spec:
  assumes "tls_ok st" and "seq_room st" and "\<forall>k. op = Delete k \<longrightarrow> live st k"
  shows "\<exists>out st'. tls_step raw op st = Ret (out, st') \<and> tls_ok st' \<and> tls_spec_step op (tls_abs st) out (tls_abs st')"
  using tls_step_sim [OF assms(1,3)] assms(2) by simp

abbreviation tls0 :: "nat tls_state" where
  "tls0 \<equiv> \<lparr>pool_bits = \<lparr>bit_arr = [0, 0], bit_arr_cnt = 2, bit_cnt = 16\<rparr>, pool_table = replicate 16 0,
    pool_size = 16, thread_tree = Map.empty\<rparr>"

lemma rb_tls_init_tls0: "rb_tls_init True True True = Ret tls0"
proof -
  have "replicate 2 (0 :: u8) = [0, 0]" by (simp add: numeral_2_eq_2)
  then show ?thesis by (simp add: rb_tls_init_def bitmap_create_def BIT_ARRAY_CNT_def STATIC_TLS_KEY_ID_SIZE_def)
qed

theorem tls_refines_spec_witness:
  "\<exists>out st'. tls_step (\<lambda>_. zero_value) (Create mem_ok) tls0 = Ret (out, st') \<and> tls_ok st'
     \<and> tls_spec_step (Create mem_ok) (tls_abs tls0) out (tls_abs st')"
  by (rule tls_refines_spec) (simp_all add: rb_tls_init_ok [OF rb_tls_init_tls0])

text \<open>
  A thread reads back the value it stored last under a live key; the same key in another
  thread and every other key keep the value they had.
\<close>

theorem tls_load_after_store:
  assumes "tls_ok st" and "live st k"
  shows "\<exists>st1 st2. tls_step raw (Store self k v) st = Ret (Done, st1) \<and> tls_ok st1
     \<and> tls_step raw (Load s j) st1 = Ret (Val (if s = self \<and> j = k then v else tls_value st s j), st2)"
  using tl.load_after_store [of st k raw self v s j, unfolded tls_abs_def tls_spec.select_convs] assms by blast

theorem tls_load_after_store_witness:
  "\<exists>st1 st2. tls_step (\<lambda>_. zero_value) (Store 7 0 (Some 3))
       (tls0\<lparr>pool_bits := \<lparr>bit_arr = [1, 0], bit_arr_cnt = 2, bit_cnt = 16\<rparr>, pool_table := 1 # replicate 15 0\<rparr>) = Ret (Done, st1)
     \<and> tls_ok st1 \<and> tls_step (\<lambda>_. zero_value) (Load 7 0) st1 = Ret (Val (Some 3), st2)"
proof -
  let ?st = "tls0\<lparr>pool_bits := \<lparr>bit_arr = [1, 0], bit_arr_cnt = 2, bit_cnt = 16\<rparr>, pool_table := 1 # replicate 15 0\<rparr>"
  have bits: "in_use ?st i \<longleftrightarrow> i = 0" for i
  proof -
    have "i div 8 = 0 \<or> i div 8 = 1" if "i < 16" using that by auto
    then show ?thesis by (auto simp: taken_def bit_1_iff)
  qed
  have "tls_ok ?st"
    using bits by (auto simp: tls_ok_def keys_ok_def pool_ok_def bitmap_ok_def BIT_ARRAY_CNT_def KEY_USED_def nth_Cons')
  moreover have "live ?st 0" using bits by (simp add: live_def)
  ultimately show ?thesis using tls_load_after_store [of ?st 0 "\<lambda>_. zero_value" 7 "Some 3" 7 0] by simp
qed

text \<open>
  Deleting a key that is not allocated is accepted and poisons it: the slot's counter becomes
  odd, so the next creation that returns this key makes it even, and every store under the
  new key is refused with \<^verbatim>\<open>-AOSL_EINVAL\<close>.
\<close>

theorem tls_double_delete:
  assumes ok: "tls_ok st" and k: "0 \<le> k" "k < pool_size st" and dead: "\<not> live st k"
  shows "\<exists>st1. k_tls_key_delete k st = Ret (0, st1)
     \<and> (\<forall>m st2 mem raw self v. k_tls_key_create m st1 = Ret (0, Some k, st2) \<longrightarrow>
          k_tls_key_set mem raw self k v st2 = Ret (- AOSL_EINVAL, st2))"
proof -
  have kok: "keys_ok st" using ok by (simp add: tls_ok_def)
  note len = keys_ok_bound [OF kok]
  let ?seq = "pool_table st ! nat k"
  from dead live_iff [OF kok k] have even: "\<not> KEY_USED ?seq" by simp
  from free_tls_key_ok [OF kok k] obtain b where
    f: "free_tls_key k st = Ret (0, st\<lparr>pool_bits := b, pool_table := (pool_table st)[nat k := ?seq + 1]\<rparr>)"
    "pool_ok 16 (st\<lparr>pool_bits := b\<rparr>)" by blast
  let ?st1 = "st\<lparr>pool_bits := b, pool_table := (pool_table st)[nat k := ?seq + 1]\<rparr>"
  have pok: "pool_ok 16 ?st1" using f(2) by (simp add: pool_ok_def)
  have "k_tls_key_set mem raw self k v st2 = Ret (- AOSL_EINVAL, st2)"
    if cr: "k_tls_key_create m ?st1 = Ret (0, Some k, st2)" for m st2 mem raw self v
  proof -
    from pool_alloc_spec [OF pok good_stride_16, of TLS_KEY_ID_MAX_SIZE 0 m] obtain r t where
      t: "pool_get_unused 16 TLS_KEY_ID_MAX_SIZE 0 m ?st1 = Ret (r, t)"
      "0 \<le> r \<longrightarrow> pool_granted 16 0 ?st1 r t" by blast
    have "0 \<le> r" using cr t(1)
      by (auto simp: k_tls_key_create_def alloc_tls_key_def STATIC_TLS_KEY_ID_SIZE_def split: if_splits)
    with t(2) have g: "r < pool_size t" "pool_ok 16 t"
      "pool_table t = pool_table ?st1 \<or> pool_table t = pool_table ?st1 @ replicate 16 0" "pool_size st \<le> pool_size t"
      by (auto simp: pool_granted_def)
    then have lt: "nat r < length (pool_table t)" "nat k < length (pool_table t)" "pool_table t ! nat k = ?seq + 1"
      using k len \<open>0 \<le> r\<close> by (auto simp: pool_ok_def nth_append)
    from cr t(1) \<open>0 \<le> r\<close> lt(1) have "r = k" "st2 = t\<lparr>pool_table := (pool_table t)[nat r := pool_table t ! nat r + 1]\<rparr>"
      by (auto simp: k_tls_key_create_def alloc_tls_key_def STATIC_TLS_KEY_ID_SIZE_def)
    with lt(2,3) g(4) k even show ?thesis by (simp add: k_tls_key_set_def)
  qed
  with f(1) show ?thesis by (auto simp: k_tls_key_delete_def)
qed

theorem tls_double_delete_witness:
  "\<exists>st1. k_tls_key_delete 0 tls0 = Ret (0, st1)
     \<and> (\<forall>m st2 mem raw self v. k_tls_key_create m st1 = Ret (0, Some 0, st2) \<longrightarrow>
          k_tls_key_set mem raw self 0 v st2 = Ret (- AOSL_EINVAL, st2))"
  by (rule tls_double_delete) (auto simp: rb_tls_init_ok [OF rb_tls_init_tls0] live_def taken_def)

end
