(* ===== verification/Handle_Table.thy ===== *)
theory Handle_Table
  imports Id_Table
begin

text \<open>
  What a component that keeps objects by handle relies on: the contract of an identifier table together with
  the object table, as the locale \<open>handle_table\<close>. A slot goes through four calls: allocated, installed, uninstalled, released. The
  timers (and the reference objects) are its clients.
\<close>

definition tab_entry :: "('p, 'z) obj_table_scheme \<Rightarrow> nat \<Rightarrow> 'p option" where
  "tab_entry t i = (if i < length (pool_table t) then pool_table t ! i else None)"

locale handle_table =
  fixes inv :: "'t \<Rightarrow> bool"
    and used :: "'t \<Rightarrow> nat \<Rightarrow> bool"
    and entry :: "'t \<Rightarrow> nat \<Rightarrow> 'p option"
    and alloc :: "'m \<Rightarrow> 't \<Rightarrow> (int \<times> 't) exec"
    and install :: "int \<Rightarrow> 'p \<Rightarrow> 't \<Rightarrow> (u32 \<times> 't) exec"
    and uninstall :: "int \<Rightarrow> 'p \<Rightarrow> 't \<Rightarrow> (int \<times> 't) exec"
    and release :: "int \<Rightarrow> 't \<Rightarrow> 't exec"
    and slot :: "u32 \<Rightarrow> int"
  assumes alloc_law: "inv t \<Longrightarrow> \<exists>r t'. alloc m t = Ret (r, t') \<and> inv t' \<and> (r < 0 \<longrightarrow> t' = t)
      \<and> (0 \<le> r \<longrightarrow> \<not> used t (nat r) \<and> used t' = (used t)(nat r := True) \<and> entry t' = entry t)"
    and install_law: "inv t \<Longrightarrow> used t i \<Longrightarrow> entry t i = None \<Longrightarrow>
      \<exists>h t'. install (int i) p t = Ret (h, t') \<and> inv t' \<and> slot h = int i \<and> used t' = used t \<and> entry t' = (entry t)(i := Some p)"
    and uninstall_law: "inv t \<Longrightarrow> entry t i = Some p \<Longrightarrow>
      \<exists>t'. uninstall (int i) p t = Ret (0, t') \<and> inv t' \<and> used t' = used t \<and> entry t' = (entry t)(i := None)"
    and release_law: "inv t \<Longrightarrow> used t i \<Longrightarrow> entry t i = None \<Longrightarrow>
      \<exists>t'. release (int i) t = Ret t' \<and> inv t' \<and> used t' = (used t)(i := False) \<and> entry t' = entry t"
    and entry_used: "inv t \<Longrightarrow> entry t i \<noteq> None \<Longrightarrow> used t i"
begin

text \<open>Creating an object: a fresh slot, the object in it, a handle that leads there.\<close>

lemma create_law:
  assumes "inv t"
  obtains (full) r where "alloc m t = Ret (r, t)" "r < 0"
  | (new) i h t1 t' where "alloc m t = Ret (int i, t1)" "install (int i) p t1 = Ret (h, t')" "inv t'" "slot h = int i"
      "\<not> used t i" "entry t i = None" "used t' = (used t)(i := True)" "entry t' = (entry t)(i := Some p)"
proof -
  from alloc_law [OF assms, of m] obtain r t1 where
    r: "alloc m t = Ret (r, t1)" "inv t1" "r < 0 \<longrightarrow> t1 = t"
    "0 \<le> r \<longrightarrow> \<not> used t (nat r) \<and> used t1 = (used t)(nat r := True) \<and> entry t1 = entry t" by blast
  show thesis
  proof (cases "0 \<le> r")
    case True
    then have int: "r = int (nat r)" by simp
    have free: "entry t (nat r) = None" using r(4) True entry_used [OF assms, of "nat r"] by blast
    from install_law [OF r(2), of "nat r" p] r(4) True free obtain h t' where
      h: "install (int (nat r)) p t1 = Ret (h, t')" "inv t'" "slot h = int (nat r)" "used t' = used t1" "entry t' = (entry t1)(nat r := Some p)"
      by auto
    show thesis by (rule new [of "nat r" t1 h t']) (use r True h free int in auto)
  next
    case False
    with r full show thesis by simp
  qed
qed

text \<open>The life of an object leaves the table as it was.\<close>

lemma life_cycle:
  assumes "inv t" and "used t i" and "entry t i = Some p"
  obtains t1 t2 where "uninstall (int i) p t = Ret (0, t1)" "release (int i) t1 = Ret t2" "inv t2"
    "used t2 = (used t)(i := False)" "entry t2 = (entry t)(i := None)"
proof -
  from uninstall_law [OF assms(1,3)] obtain t1 where
    t1: "uninstall (int i) p t = Ret (0, t1)" "inv t1" "used t1 = used t" "entry t1 = (entry t)(i := None)" by blast
  with release_law [OF t1(2), of i] assms(2) obtain t2 where
    "release (int i) t1 = Ret t2" "inv t2" "used t2 = (used t1)(i := False)" "entry t2 = entry t1" by auto
  with t1 show thesis by (intro that [of t1 t2]) auto
qed

end

lemma tab_entry_None: "obj_table_ok t \<Longrightarrow> \<not> in_use t i \<Longrightarrow> tab_entry t i = None"
  by (auto simp: obj_table_ok_def tab_entry_def)

lemma life_id_pool_upd: "t' = t\<lparr>pool_bits := a, pool_table := b, pool_size := c\<rparr> \<Longrightarrow> life_id t' = life_id t"
  by simp

lemma granted_entries:
  assumes ok: "obj_table_ok t" and g: "pool_granted 8 None t r t'"
  shows "obj_table_ok t'" and "tab_entry t' = tab_entry t"
proof -
  note g' = g [unfolded pool_granted_def]
  have use: "in_use t' = (in_use t)(nat r := True)" using g' by (elim conjE)
  have ok8: "pool_ok 8 t'" using g' by (elim conjE)
  have "pool_size t' = pool_size t \<and> pool_table t' = pool_table t
      \<or> pool_size t' = pool_size t + 8 \<and> pool_table t' = pool_table t @ replicate (nat 8) None" using g' by (elim conjE)
  then have tab: "pool_table t' = pool_table t \<or> pool_table t' = pool_table t @ replicate (nat 8) None" by blast
  have "t' = t\<lparr>pool_bits := pool_bits t', pool_table := pool_table t', pool_size := pool_size t'\<rparr>" using g' by (elim conjE)
  then have life: "life_id t' = life_id t" by (rule life_id_pool_upd)
  show eq: "tab_entry t' = tab_entry t"
    using tab by (auto simp: tab_entry_def fun_eq_iff nth_append)
  have "in_use t' i" if "i < length (pool_table t')" "pool_table t' ! i \<noteq> None" for i
  proof -
    have "tab_entry t i \<noteq> None" using that eq by (metis tab_entry_def)
    then have "in_use t i" using tab_entry_None [OF ok, of i] by (rule contrapos_np) 
    with use show ?thesis by simp
  qed
  with ok8 life ok show "obj_table_ok t'" by (simp add: obj_table_ok_def)
qed

lemma timer_alloc_law:
  assumes ok: "obj_table_ok t"
  shows "\<exists>r t'. get_unused_timer_id m t = Ret (r, t') \<and> obj_table_ok t' \<and> (r < 0 \<longrightarrow> t' = t)
      \<and> (0 \<le> r \<longrightarrow> \<not> in_use t (nat r) \<and> in_use t' = (in_use t)(nat r := True) \<and> tab_entry t' = tab_entry t)"
proof -
  have ok8: "pool_ok 8 t" using ok by (simp add: obj_table_ok_def)
  from pool_alloc_spec [OF ok8 good_stride_8, of TIMER_ID_POOL_MAX_SIZE None m] obtain r t' where
    r: "pool_get_unused 8 TIMER_ID_POOL_MAX_SIZE None m t = Ret (r, t')"
    "0 \<le> r \<longrightarrow> \<not> in_use t (nat r) \<and> in_use t' = (in_use t)(nat r := True) \<and> pool_granted 8 None t r t'" "r < 0 \<longrightarrow> t' = t" by blast
  have eq: "get_unused_timer_id m t = Ret (r, t')" using r(1) by (simp add: get_unused_timer_id_def)
  show ?thesis
  proof (cases "0 \<le> r")
    case True
    with r(2) have g: "pool_granted 8 None t r t'" and u: "\<not> in_use t (nat r)" "in_use t' = (in_use t)(nat r := True)" by blast+
    from eq u granted_entries [OF ok g] True show ?thesis by (intro exI [of _ r] exI [of _ t']) simp
  next
    case False
    with eq r(3) ok show ?thesis by simp
  qed
qed

lemma in_use_index:
  assumes "obj_table_ok t" and "in_use t i"
  shows "int i < pool_size t" and "i < length (pool_table t)"
proof -
  have ok8: "pool_ok 8 t" using assms(1) by (simp add: obj_table_ok_def)
  show "int i < pool_size t" "i < length (pool_table t)" using in_use_size [OF ok8 assms(2)] obj_table_bound [OF assms(1)] by simp_all
qed

lemma install_entry_law:
  assumes ok: "obj_table_ok t" and i: "in_use t i" "tab_entry t i = None"
  shows "\<exists>h t'. obj_id_install (int i) p t = Ret (h, t') \<and> obj_table_ok t' \<and> get_obj_slot h = int i \<and> in_use t' = in_use t
    \<and> tab_entry t' = (tab_entry t)(i := Some p)"
proof -
  note size = in_use_index [OF ok i(1)]
  let ?t = "t\<lparr>pool_table := (pool_table t)[nat (int i) := Some p], life_id := next_life_id (life_id t)\<rparr>"
  have "pool_table t ! nat (int i) = None" "in_use t (nat (int i))" "0 \<le> int i" using i size by (simp_all add: tab_entry_def)
  note ins = obj_id_install_ok [OF ok this(2,3,1), of p]
  have "get_obj_slot (make_obj_id (word_of_int (int i)) (life_id t)) = int i"
    using size(1) obj_table_bound(2) [OF ok] by (intro get_obj_slot_make) auto
  moreover have "tab_entry ?t = (tab_entry t)(i := Some p)" using size(2) by (auto simp: tab_entry_def)
  ultimately show ?thesis using ins by (intro exI [of _ "make_obj_id (word_of_int (int i)) (life_id t)"] exI [of _ ?t]) simp
qed

lemma uninstall_entry_law:
  assumes ok: "obj_table_ok t" and e: "tab_entry t i = Some p"
  shows "\<exists>t'. obj_id_uninstall (int i) p t = Ret (0, t') \<and> obj_table_ok t' \<and> in_use t' = in_use t \<and> tab_entry t' = (tab_entry t)(i := None)"
proof -
  have "in_use t i" using e tab_entry_None [OF ok, of i] by fastforce
  note size = in_use_index [OF ok this]
  have "pool_table t ! nat (int i) = Some p" "0 \<le> int i" using e size(2) by (simp_all add: tab_entry_def)
  note un = obj_id_uninstall_ok [OF ok this(2) size(1) this(1)]
  let ?t = "t\<lparr>pool_table := (pool_table t)[nat (int i) := None]\<rparr>"
  have "tab_entry ?t = (tab_entry t)(i := None)" using size(2) by (auto simp: tab_entry_def)
  with un show ?thesis by (intro exI [of _ ?t]) simp
qed

lemma release_entry_law:
  assumes ok: "obj_table_ok t" and i: "in_use t i" "tab_entry t i = None"
  shows "\<exists>t'. put_unused_timer_id (int i) t = Ret t' \<and> obj_table_ok t' \<and> in_use t' = (in_use t)(i := False) \<and> tab_entry t' = tab_entry t"
proof -
  have ok8: "pool_ok 8 t" using ok by (simp add: obj_table_ok_def)
  from pool_release_spec [OF ok8 i(1)] obtain b where
    b: "pool_put_unused (int i) t = Ret (t\<lparr>pool_bits := b\<rparr>)" "pool_ok 8 (t\<lparr>pool_bits := b\<rparr>)" "taken b = (in_use t)(i := False)" by blast
  have "taken b j" if "j < length (pool_table t)" "pool_table t ! j \<noteq> None" for j
  proof -
    have "j \<noteq> i" using that i(2) by (auto simp: tab_entry_def)
    moreover have "in_use t j" using ok that by (auto simp: obj_table_ok_def)
    ultimately show ?thesis unfolding b(3) by simp
  qed
  then have "obj_table_ok (t\<lparr>pool_bits := b\<rparr>)" using b(2) ok by (simp add: obj_table_ok_def)
  moreover have "tab_entry (t\<lparr>pool_bits := b\<rparr>) = tab_entry t" by (simp add: tab_entry_def fun_eq_iff)
  ultimately show ?thesis using b(1,3) by (intro exI [of _ "t\<lparr>pool_bits := b\<rparr>"]) (simp add: put_unused_timer_id_def)
qed

interpretation th: handle_table obj_table_ok in_use tab_entry get_unused_timer_id obj_id_install obj_id_uninstall put_unused_timer_id get_obj_slot
proof (unfold_locales, goal_cases)
  case (1 t m)
  then show ?case by (rule timer_alloc_law)
next
  case (2 t i p)
  then show ?case by (rule install_entry_law)
next
  case (3 t i p)
  then show ?case by (rule uninstall_entry_law)
next
  case (4 t i)
  then show ?case by (rule release_entry_law)
next
  case (5 t i)
  then show ?case using tab_entry_None [of t i] by metis
qed

end
