(* ===== verification/Rb_Heap.thy ===== *)
theory Rb_Heap
  imports Aosl_Prelude
begin

text \<open>
  The red-black tree of \<^verbatim>\<open>lib/rbtree.c\<close> and \<^verbatim>\<open>include/kernel/rbtree.h\<close>, as code over a heap of nodes. A pointer
  is a \<open>nat\<close>, null is 0, and dereferencing a pointer that is not the address of a node is a
  \<open>Fault\<close>. \<^verbatim>\<open>rb_parent_color\<close> packs the parent pointer and the colour in one word; the record has the
  two as fields, and the last section shows that the packing macros implement these fields
  for four-byte aligned nodes.

  \<^verbatim>\<open>__rb_rotate_left\<close> and \<^verbatim>\<open>__rb_rotate_right\<close>, and the two branches of each rebalancing loop, are the
  same text with left and right exchanged. They are one definition here with the side as an
  argument.
\<close>

datatype color = Red | Black

datatype side = L | R

primrec other :: "side \<Rightarrow> side" where
  "other L = R"
| "other R = L"

record rb_node =
  rb_parent :: ptr
  rb_color :: color
  rb_right :: ptr
  rb_left :: ptr

record rb_root =
  heap :: "ptr \<rightharpoonup> rb_node"
  root_node :: ptr
  count :: u64

primrec child :: "side \<Rightarrow> rb_node \<Rightarrow> ptr" where
  "child L n = rb_left n"
| "child R n = rb_right n"

primrec with_child :: "side \<Rightarrow> ptr \<Rightarrow> rb_node \<Rightarrow> rb_node" where
  "with_child L p n = n\<lparr>rb_left := p\<rparr>"
| "with_child R p n = n\<lparr>rb_right := p\<rparr>"

definition deref :: "rb_root \<Rightarrow> ptr \<Rightarrow> rb_node exec" where
  "deref s p = (case heap s p of None \<Rightarrow> Fault | Some n \<Rightarrow> Ret n)"

definition upd_node :: "ptr \<Rightarrow> (rb_node \<Rightarrow> rb_node) \<Rightarrow> rb_root \<Rightarrow> rb_root exec" where
  "upd_node p f s = ebind (deref s p) (\<lambda>n. Ret (s\<lparr>heap := (heap s)(p \<mapsto> f n)\<rparr>))"

definition rb_set_parent :: "ptr \<Rightarrow> ptr \<Rightarrow> rb_root \<Rightarrow> rb_root exec" where
  "rb_set_parent rb p = upd_node rb (\<lambda>n. n\<lparr>rb_parent := p\<rparr>)"

definition rb_set_color :: "ptr \<Rightarrow> color \<Rightarrow> rb_root \<Rightarrow> rb_root exec" where
  "rb_set_color rb c = upd_node rb (\<lambda>n. n\<lparr>rb_color := c\<rparr>)"

definition set_child :: "side \<Rightarrow> ptr \<Rightarrow> ptr \<Rightarrow> rb_root \<Rightarrow> rb_root exec" where
  "set_child d p q = upd_node p (with_child d q)"

text \<open>\<^verbatim>\<open>p && rb_is_red (p)\<close>; \<^verbatim>\<open>!p || rb_is_black (p)\<close> is its negation.\<close>

definition node_is_red :: "rb_root \<Rightarrow> ptr \<Rightarrow> bool exec" where
  "node_is_red s p = (if p = 0 then Ret False else ebind (deref s p) (\<lambda>n. Ret (rb_color n = Red)))"

definition aosl_rb_root_init :: "rb_root \<Rightarrow> rb_root" where
  "aosl_rb_root_init s = s\<lparr>root_node := 0, count := 0\<rparr>"

text \<open>
  The link of \<^verbatim>\<open>old\<close> in its parent (or the root) is redirected to \<^verbatim>\<open>new\<close>; \<open>d\<close> is the side tested first.
\<close>

definition relink :: "side \<Rightarrow> ptr \<Rightarrow> ptr \<Rightarrow> ptr \<Rightarrow> rb_root \<Rightarrow> rb_root exec" where
  "relink d parent old new s =
     (if parent \<noteq> 0 then
        ebind (deref s parent) (\<lambda>p.
          if old = child d p then set_child d parent new s else set_child (other d) parent new s)
      else Ret (s\<lparr>root_node := new\<rparr>))"

definition rb_rotate :: "side \<Rightarrow> ptr \<Rightarrow> rb_root \<Rightarrow> rb_root exec" where
  "rb_rotate d node s =
     ebind (deref s node) (\<lambda>n. let right = child (other d) n; parent = rb_parent n in
     ebind (deref s right) (\<lambda>r. let inner = child d r in
     ebind (set_child (other d) node inner s) (\<lambda>s.
     ebind (if inner \<noteq> 0 then rb_set_parent inner node s else Ret s) (\<lambda>s.
     ebind (set_child d right node s) (\<lambda>s.
     ebind (rb_set_parent right parent s) (\<lambda>s.
     ebind (relink d parent node right s) (\<lambda>s.
     rb_set_parent node right s)))))))"

definition rb_rotate_left :: "ptr \<Rightarrow> rb_root \<Rightarrow> rb_root exec" where
  "rb_rotate_left = rb_rotate L"

definition rb_rotate_right :: "ptr \<Rightarrow> rb_root \<Rightarrow> rb_root exec" where
  "rb_rotate_right = rb_rotate R"

subsection \<open>Insertion\<close>

text \<open>The loop of \<^verbatim>\<open>aosl_rb_insert_color\<close>; each iteration ends in the loop test of the next.\<close>

fun rb_insert_fix :: "nat \<Rightarrow> ptr \<Rightarrow> rb_root \<Rightarrow> rb_root exec" where
  "rb_insert_fix 0 node s = NoFuel"
| "rb_insert_fix (Suc fuel) node s =
     ebind (deref s node) (\<lambda>n. let parent = rb_parent n in
     if parent = 0 then Ret s else
     ebind (deref s parent) (\<lambda>p.
     if rb_color p \<noteq> Red then Ret s else let gparent = rb_parent p in
     ebind (deref s gparent) (\<lambda>g.
       let d = (if parent = rb_left g then L else R); uncle = child (other d) g in
       ebind (node_is_red s uncle) (\<lambda>uncle_red.
       if uncle_red then
         ebind (rb_set_color uncle Black s) (\<lambda>s.
         ebind (rb_set_color parent Black s) (\<lambda>s.
         ebind (rb_set_color gparent Red s) (\<lambda>s.
         rb_insert_fix fuel gparent s)))
       else
         ebind (if child (other d) p = node
                then ebind (rb_rotate d parent s) (\<lambda>s. Ret (parent, node, s))
                else Ret (node, parent, s)) (\<lambda>(node, parent, s).
         ebind (rb_set_color parent Black s) (\<lambda>s.
         ebind (rb_set_color gparent Red s) (\<lambda>s.
         ebind (rb_rotate (other d) gparent s) (\<lambda>s.
         rb_insert_fix fuel node s))))))))"

definition aosl_rb_insert_color :: "nat \<Rightarrow> ptr \<Rightarrow> rb_root \<Rightarrow> rb_root exec" where
  "aosl_rb_insert_color fuel node s =
     ebind (rb_insert_fix fuel node s) (\<lambda>s.
     ebind (rb_set_color (root_node s) Black s) (\<lambda>s.
     Ret (s\<lparr>count := count s + 1\<rparr>)))"

text \<open>A link \<^verbatim>\<open>struct aosl_rb_node **\<close> is the root's pointer or a child pointer of a node.\<close>

datatype rb_link = Root_Link | Child_Link ptr side

definition store_link :: "rb_link \<Rightarrow> ptr \<Rightarrow> rb_root \<Rightarrow> rb_root exec" where
  "store_link l p s = (case l of Root_Link \<Rightarrow> Ret (s\<lparr>root_node := p\<rparr>) | Child_Link q d \<Rightarrow> set_child d q p s)"

definition load_link :: "rb_link \<Rightarrow> rb_root \<Rightarrow> ptr exec" where
  "load_link l s = (case l of Root_Link \<Rightarrow> Ret (root_node s) | Child_Link q d \<Rightarrow> ebind (deref s q) (\<lambda>n. Ret (child d n)))"

text \<open>The node's memory exists before (it is a member of the caller's object): a new address is a fault.\<close>

definition rb_link_node :: "ptr \<Rightarrow> ptr \<Rightarrow> rb_link \<Rightarrow> rb_root \<Rightarrow> rb_root exec" where
  "rb_link_node node parent link s =
     ebind (upd_node node (\<lambda>_. \<lparr>rb_parent = parent, rb_color = Red, rb_right = 0, rb_left = 0\<rparr>) s) (store_link link node)"

definition rb_insert :: "nat \<Rightarrow> ptr \<Rightarrow> rb_link \<Rightarrow> ptr \<Rightarrow> rb_root \<Rightarrow> rb_root exec" where
  "rb_insert fuel node link parent s = ebind (rb_link_node node parent link s) (aosl_rb_insert_color fuel node)"

text \<open>
  \<^verbatim>\<open>aosl_vfind_rb_links\<close>: \<open>cmp p\<close> is \<^verbatim>\<open>root->rb_cmp (p, node, args)\<close>. The result is the link, the parent and the
  neighbours in the order.
\<close>

fun find_rb_links_from :: "nat \<Rightarrow> (ptr \<Rightarrow> int) \<Rightarrow> rb_root \<Rightarrow> rb_link \<Rightarrow> ptr \<Rightarrow> ptr \<Rightarrow> ptr \<Rightarrow> (rb_link \<times> ptr \<times> ptr \<times> ptr) exec" where
  "find_rb_links_from 0 cmp s link parent prev nxt = NoFuel"
| "find_rb_links_from (Suc fuel) cmp s link parent prev nxt =
     ebind (load_link link s) (\<lambda>p.
     if p = 0 then Ret (link, parent, prev, nxt)
     else if 0 < cmp p then find_rb_links_from fuel cmp s (Child_Link p L) p prev p
     else find_rb_links_from fuel cmp s (Child_Link p R) p p nxt)"

definition aosl_vfind_rb_links :: "nat \<Rightarrow> (ptr \<Rightarrow> int) \<Rightarrow> rb_root \<Rightarrow> (rb_link \<times> ptr \<times> ptr \<times> ptr) exec" where
  "aosl_vfind_rb_links fuel cmp s = find_rb_links_from fuel cmp s Root_Link 0 0 0"

fun find_rb_node_from :: "nat \<Rightarrow> (ptr \<Rightarrow> int) \<Rightarrow> rb_root \<Rightarrow> ptr \<Rightarrow> ptr exec" where
  "find_rb_node_from 0 cmp s p = NoFuel"
| "find_rb_node_from (Suc fuel) cmp s p =
     (if p = 0 then Ret 0
      else if cmp p = 0 then Ret p
      else ebind (deref s p) (\<lambda>n.
        if 0 < cmp p then find_rb_node_from fuel cmp s (rb_left n) else find_rb_node_from fuel cmp s (rb_right n)))"

definition aosl_vfind_rb_node :: "nat \<Rightarrow> (ptr \<Rightarrow> int) \<Rightarrow> rb_root \<Rightarrow> ptr exec" where
  "aosl_vfind_rb_node fuel cmp s = find_rb_node_from fuel cmp s (root_node s)"

definition aosl_rb_insert_node :: "nat \<Rightarrow> (ptr \<Rightarrow> int) \<Rightarrow> ptr \<Rightarrow> rb_root \<Rightarrow> rb_root exec" where
  "aosl_rb_insert_node fuel cmp node s =
     ebind (aosl_vfind_rb_links fuel cmp s) (\<lambda>(link, parent, prev, nxt). rb_insert fuel node link parent s)"

subsection \<open>Removal\<close>

text \<open>
  The loop of \<^verbatim>\<open>__rb_erase_color\<close>, in three parts: a red sibling is rotated away; an inner red nephew
  is rotated outward; the final recolouring and rotation. The loop returns \<^verbatim>\<open>node\<close> as it is
  when the loop ends or is left by \<^verbatim>\<open>break\<close>.
\<close>

definition erase_red_sibling :: "side \<Rightarrow> ptr \<Rightarrow> ptr \<Rightarrow> rb_root \<Rightarrow> (ptr \<times> rb_root) exec" where
  "erase_red_sibling d parent oth s =
     ebind (deref s oth) (\<lambda>ob.
     if rb_color ob = Red then
       ebind (rb_set_color oth Black s) (\<lambda>s.
       ebind (rb_set_color parent Red s) (\<lambda>s.
       ebind (rb_rotate d parent s) (\<lambda>s.
       ebind (deref s parent) (\<lambda>p. Ret (child (other d) p, s)))))
     else Ret (oth, s))"

definition erase_inner_nephew :: "side \<Rightarrow> ptr \<Rightarrow> ptr \<Rightarrow> rb_root \<Rightarrow> (ptr \<times> rb_root) exec" where
  "erase_inner_nephew d parent oth s =
     ebind (deref s oth) (\<lambda>ob.
     ebind (node_is_red s (child (other d) ob)) (\<lambda>far_red.
     if \<not> far_red then
       let near = child d ob in
       ebind (if near \<noteq> 0 then rb_set_color near Black s else Ret s) (\<lambda>s.
       ebind (rb_set_color oth Red s) (\<lambda>s.
       ebind (rb_rotate (other d) oth s) (\<lambda>s.
       ebind (deref s parent) (\<lambda>p. Ret (child (other d) p, s)))))
     else Ret (oth, s)))"

definition erase_finish :: "side \<Rightarrow> ptr \<Rightarrow> ptr \<Rightarrow> rb_root \<Rightarrow> rb_root exec" where
  "erase_finish d parent oth s =
     ebind (deref s parent) (\<lambda>p.
     ebind (rb_set_color oth (rb_color p) s) (\<lambda>s.
     ebind (rb_set_color parent Black s) (\<lambda>s.
     ebind (deref s oth) (\<lambda>ob. let far = child (other d) ob in
     ebind (if far \<noteq> 0 then rb_set_color far Black s else Ret s) (\<lambda>s.
     rb_rotate d parent s)))))"

fun rb_erase_fix :: "nat \<Rightarrow> ptr \<Rightarrow> ptr \<Rightarrow> rb_root \<Rightarrow> (ptr \<times> rb_root) exec" where
  "rb_erase_fix 0 node parent s = NoFuel"
| "rb_erase_fix (Suc fuel) node parent s =
     ebind (node_is_red s node) (\<lambda>red.
     if red \<or> node = root_node s then Ret (node, s)
     else ebind (deref s parent) (\<lambda>p.
       let d = (if rb_left p = node then L else R) in
       ebind (erase_red_sibling d parent (child (other d) p) s) (\<lambda>(oth, s).
       ebind (deref s oth) (\<lambda>ob.
       ebind (node_is_red s (rb_left ob)) (\<lambda>left_red.
       ebind (if left_red then Ret True else node_is_red s (rb_right ob)) (\<lambda>some_red.
       if \<not> some_red then
         ebind (rb_set_color oth Red s) (\<lambda>s.
         ebind (deref s parent) (\<lambda>p.
         rb_erase_fix fuel parent (rb_parent p) s))
       else
         ebind (erase_inner_nephew d parent oth s) (\<lambda>(oth, s).
         ebind (erase_finish d parent oth s) (\<lambda>s.
         Ret (root_node s, s)))))))))"

definition rb_erase_color :: "nat \<Rightarrow> ptr \<Rightarrow> ptr \<Rightarrow> rb_root \<Rightarrow> rb_root exec" where
  "rb_erase_color fuel node parent s =
     ebind (rb_erase_fix fuel node parent s) (\<lambda>(node, s).
     if node \<noteq> 0 then rb_set_color node Black s else Ret s)"

fun rb_descend :: "nat \<Rightarrow> side \<Rightarrow> rb_root \<Rightarrow> ptr \<Rightarrow> ptr exec" where
  "rb_descend 0 d s p = NoFuel"
| "rb_descend (Suc fuel) d s p =
     ebind (deref s p) (\<lambda>n. if child d n \<noteq> 0 then rb_descend fuel d s (child d n) else Ret p)"

text \<open>
  The two ways \<^verbatim>\<open>aosl_rb_erase\<close> unlinks: a node with at most one child is replaced by it; a node with
  two children is replaced by its successor. Both give \<^verbatim>\<open>child\<close>, \<^verbatim>\<open>parent\<close> and \<^verbatim>\<open>color\<close> at the label \<^verbatim>\<open>color\<close>.
\<close>

definition erase_unlink_one :: "ptr \<Rightarrow> ptr \<Rightarrow> rb_root \<Rightarrow> (ptr \<times> ptr \<times> color \<times> rb_root) exec" where
  "erase_unlink_one node chld s =
     ebind (deref s node) (\<lambda>n. let parent = rb_parent n; col = rb_color n in
     ebind (if chld \<noteq> 0 then rb_set_parent chld parent s else Ret s) (\<lambda>s.
     ebind (relink L parent node chld s) (\<lambda>s.
     Ret (chld, parent, col, s))))"

definition erase_unlink_two :: "nat \<Rightarrow> ptr \<Rightarrow> rb_root \<Rightarrow> (ptr \<times> ptr \<times> color \<times> rb_root) exec" where
  "erase_unlink_two fuel old s =
     ebind (deref s old) (\<lambda>ob.
     ebind (rb_descend fuel L s (rb_right ob)) (\<lambda>node.
     ebind (deref s node) (\<lambda>n. let chld = rb_right n; parent = rb_parent n; col = rb_color n in
     ebind (if chld \<noteq> 0 then rb_set_parent chld parent s else Ret s) (\<lambda>s.
     ebind (if parent = old
            then ebind (set_child R parent chld s) (\<lambda>s. Ret (node, s))
            else ebind (set_child L parent chld s) (\<lambda>s. Ret (parent, s))) (\<lambda>(parent, s).
     ebind (deref s old) (\<lambda>ob.
     ebind (upd_node node (\<lambda>_. ob) s) (\<lambda>s.
     ebind (relink L (rb_parent ob) old node s) (\<lambda>s.
     ebind (deref s old) (\<lambda>ob.
     ebind (rb_set_parent (rb_left ob) node s) (\<lambda>s.
     ebind (deref s old) (\<lambda>ob.
     ebind (if rb_right ob \<noteq> 0 then rb_set_parent (rb_right ob) node s else Ret s) (\<lambda>s.
     Ret (chld, parent, col, s)))))))))))))"

definition aosl_rb_erase :: "nat \<Rightarrow> ptr \<Rightarrow> rb_root \<Rightarrow> rb_root exec" where
  "aosl_rb_erase fuel node s =
     ebind (deref s node) (\<lambda>n.
     ebind (if rb_left n = 0 then erase_unlink_one node (rb_right n) s
            else if rb_right n = 0 then erase_unlink_one node (rb_left n) s
            else erase_unlink_two fuel node s) (\<lambda>(chld, parent, col, s).
     ebind (if col = Black then rb_erase_color fuel chld parent s else Ret s) (\<lambda>s.
     Ret (s\<lparr>count := count s - 1\<rparr>))))"

definition aosl_rb_remove :: "nat \<Rightarrow> (ptr \<Rightarrow> int) \<Rightarrow> rb_root \<Rightarrow> (ptr \<times> rb_root) exec" where
  "aosl_rb_remove fuel cmp s =
     ebind (aosl_vfind_rb_node fuel cmp s) (\<lambda>p.
     if p \<noteq> 0 then ebind (aosl_rb_erase fuel p s) (\<lambda>s. Ret (p, s)) else Ret (p, s))"

subsection \<open>Walking the tree\<close>

definition aosl_rb_first :: "nat \<Rightarrow> rb_root \<Rightarrow> ptr exec" where
  "aosl_rb_first fuel s = (if root_node s = 0 then Ret 0 else rb_descend fuel L s (root_node s))"

definition aosl_rb_last :: "nat \<Rightarrow> rb_root \<Rightarrow> ptr exec" where
  "aosl_rb_last fuel s = (if root_node s = 0 then Ret 0 else rb_descend fuel R s (root_node s))"

text \<open>The upward loop of \<^verbatim>\<open>aosl_rb_next\<close> (\<open>d = R\<close>) and \<^verbatim>\<open>aosl_rb_prev\<close> (\<open>d = L\<close>).\<close>

fun rb_ascend :: "nat \<Rightarrow> side \<Rightarrow> rb_root \<Rightarrow> ptr \<Rightarrow> ptr exec" where
  "rb_ascend 0 d s node = NoFuel"
| "rb_ascend (Suc fuel) d s node =
     ebind (deref s node) (\<lambda>n. let parent = rb_parent n in
     if parent = 0 then Ret 0
     else ebind (deref s parent) (\<lambda>p. if node = child d p then rb_ascend fuel d s parent else Ret parent))"

definition rb_step :: "nat \<Rightarrow> side \<Rightarrow> rb_root \<Rightarrow> ptr \<Rightarrow> ptr exec" where
  "rb_step fuel d s node =
     ebind (deref s node) (\<lambda>n.
     if rb_parent n = node then Ret 0
     else if child d n \<noteq> 0 then rb_descend fuel (other d) s (child d n)
     else rb_ascend fuel d s node)"

definition aosl_rb_next :: "nat \<Rightarrow> rb_root \<Rightarrow> ptr \<Rightarrow> ptr exec" where
  "aosl_rb_next fuel = rb_step fuel R"

definition aosl_rb_prev :: "nat \<Rightarrow> rb_root \<Rightarrow> ptr \<Rightarrow> ptr exec" where
  "aosl_rb_prev fuel = rb_step fuel L"

definition aosl_rb_replace_node :: "ptr \<Rightarrow> ptr \<Rightarrow> rb_root \<Rightarrow> rb_root exec" where
  "aosl_rb_replace_node victim new s =
     ebind (deref s victim) (\<lambda>v.
     ebind (relink L (rb_parent v) victim new s) (\<lambda>s.
     ebind (deref s victim) (\<lambda>v.
     ebind (if rb_left v \<noteq> 0 then rb_set_parent (rb_left v) new s else Ret s) (\<lambda>s.
     ebind (deref s victim) (\<lambda>v.
     ebind (if rb_right v \<noteq> 0 then rb_set_parent (rb_right v) new s else Ret s) (\<lambda>s.
     ebind (deref s victim) (\<lambda>v.
     upd_node new (\<lambda>_. v) s)))))))"

text \<open>
  The traversals, with \<^verbatim>\<open>*done_p\<close> threaded; the callback \<open>func\<close> works on a state of its own and answers
  \<^verbatim>\<open>done\<close>. A callback that changes the tree it walks is outside this model.
\<close>

type_synonym 'a walk_func = "ptr \<Rightarrow> 'a \<Rightarrow> int \<times> 'a"

definition visit_node :: "'a walk_func \<Rightarrow> ptr \<Rightarrow> int \<times> 'a \<Rightarrow> (int \<times> 'a) exec" where
  "visit_node func p a = Ret (if fst a = 0 then func p (snd a) else a)"

definition unless_done :: "(int \<times> 'a \<Rightarrow> (int \<times> 'a) exec) \<Rightarrow> int \<times> 'a \<Rightarrow> (int \<times> 'a) exec" where
  "unless_done f a = (if fst a = 0 then f a else Ret a)"

fun rb_traverse_dlr :: "nat \<Rightarrow> rb_root \<Rightarrow> 'a walk_func \<Rightarrow> ptr \<Rightarrow> int \<times> 'a \<Rightarrow> (int \<times> 'a) exec" where
  "rb_traverse_dlr 0 s func p a = NoFuel"
| "rb_traverse_dlr (Suc fuel) s func p a =
     (if p = 0 then Ret a
      else ebind (deref s p) (\<lambda>n.
           ebind (visit_node func p a) (\<lambda>a.
           ebind (unless_done (rb_traverse_dlr fuel s func (rb_left n)) a) (\<lambda>a.
           unless_done (rb_traverse_dlr fuel s func (rb_right n)) a))))"

fun rb_traverse_ldr :: "nat \<Rightarrow> rb_root \<Rightarrow> 'a walk_func \<Rightarrow> ptr \<Rightarrow> int \<times> 'a \<Rightarrow> (int \<times> 'a) exec" where
  "rb_traverse_ldr 0 s func p a = NoFuel"
| "rb_traverse_ldr (Suc fuel) s func p a =
     (if p = 0 then Ret a
      else ebind (deref s p) (\<lambda>n.
           ebind (unless_done (rb_traverse_ldr fuel s func (rb_left n)) a) (\<lambda>a.
           ebind (visit_node func p a) (\<lambda>a.
           unless_done (rb_traverse_ldr fuel s func (rb_right n)) a))))"

fun rb_traverse_lrd :: "nat \<Rightarrow> rb_root \<Rightarrow> 'a walk_func \<Rightarrow> ptr \<Rightarrow> int \<times> 'a \<Rightarrow> (int \<times> 'a) exec" where
  "rb_traverse_lrd 0 s func p a = NoFuel"
| "rb_traverse_lrd (Suc fuel) s func p a =
     (if p = 0 then Ret a
      else ebind (deref s p) (\<lambda>n.
           ebind (unless_done (rb_traverse_lrd fuel s func (rb_left n)) a) (\<lambda>a.
           ebind (unless_done (rb_traverse_lrd fuel s func (rb_right n)) a) (\<lambda>a.
           visit_node func p a))))"

definition aosl_rb_traverse_dlr :: "nat \<Rightarrow> rb_root \<Rightarrow> 'a walk_func \<Rightarrow> 'a \<Rightarrow> (int \<times> 'a) exec" where
  "aosl_rb_traverse_dlr fuel s func a = rb_traverse_dlr fuel s func (root_node s) (0, a)"

definition aosl_rb_traverse_ldr :: "nat \<Rightarrow> rb_root \<Rightarrow> 'a walk_func \<Rightarrow> 'a \<Rightarrow> (int \<times> 'a) exec" where
  "aosl_rb_traverse_ldr fuel s func a = rb_traverse_ldr fuel s func (root_node s) (0, a)"

definition aosl_rb_traverse_lrd :: "nat \<Rightarrow> rb_root \<Rightarrow> 'a walk_func \<Rightarrow> 'a \<Rightarrow> (int \<times> 'a) exec" where
  "aosl_rb_traverse_lrd fuel s func a = rb_traverse_lrd fuel s func (root_node s) (0, a)"

text \<open>
  The macro \<^verbatim>\<open>aosl_rb_clear\<close>: erase the root and free its object until the tree is empty. Freeing takes
  the node's memory out of the heap; the addresses freed are returned in order.
\<close>

fun aosl_rb_clear :: "nat \<Rightarrow> rb_root \<Rightarrow> (ptr list \<times> rb_root) exec" where
  "aosl_rb_clear 0 s = NoFuel"
| "aosl_rb_clear (Suc fuel) s =
     (if root_node s = 0 then Ret ([], s)
      else ebind (aosl_rb_erase (Suc fuel) (root_node s) s) (\<lambda>s'.
           ebind (aosl_rb_clear fuel (s'\<lparr>heap := (heap s')(root_node s := None)\<rparr>)) (\<lambda>(ps, s'').
           Ret (root_node s # ps, s''))))"

subsection \<open>The packed parent and colour\<close>

text \<open>
  \<^verbatim>\<open>rb_parent_color\<close> as one word: the parent's address with the colour in bit 0. The locale states what
  two separate fields would satisfy, for addresses that are multiples of four.
\<close>

unbundle bit_operations_syntax

definition rb_parent_of :: "u64 \<Rightarrow> u64" where "rb_parent_of w = w AND NOT 3"
definition rb_color_of :: "u64 \<Rightarrow> u64" where "rb_color_of w = w AND 1"
definition rb_with_parent :: "u64 \<Rightarrow> u64 \<Rightarrow> u64" where "rb_with_parent w p = (w AND 3) OR p"
definition rb_with_color :: "u64 \<Rightarrow> u64 \<Rightarrow> u64" where "rb_with_color w c = (w AND NOT 1) OR c"
definition rb_with_red :: "u64 \<Rightarrow> u64" where "rb_with_red w = w AND NOT 1"
definition rb_with_black :: "u64 \<Rightarrow> u64" where "rb_with_black w = w OR 1"

locale parent_and_color =
  fixes par :: "'w \<Rightarrow> 'w" and col :: "'w \<Rightarrow> 'w" and set_par :: "'w \<Rightarrow> 'w \<Rightarrow> 'w" and set_col :: "'w \<Rightarrow> 'w \<Rightarrow> 'w"
    and addr :: "'w \<Rightarrow> bool" and colour :: "'w \<Rightarrow> bool"
  assumes par_set_par: "addr p \<Longrightarrow> par (set_par w p) = p"
    and col_set_par: "addr p \<Longrightarrow> col (set_par w p) = col w"
    and par_set_col: "colour c \<Longrightarrow> par (set_col w c) = par w"
    and col_set_col: "colour c \<Longrightarrow> col (set_col w c) = c"
begin

lemma fields_independent:
  assumes "addr p" and "colour c"
  shows "par (set_col (set_par w p) c) = p" and "col (set_par (set_col w c) p) = c"
  using assms by (simp_all add: par_set_col col_set_par par_set_par col_set_col)

end

lemma word_3_bits: "bit (3 :: u64) n \<longleftrightarrow> n < 2"
proof -
  have "(3 :: u64) = mask 2" by (simp add: mask_eq_exp_minus_1)
  then have "bit (3 :: u64) n = bit (mask 2 :: u64) n" by (simp only:)
  also have "\<dots> \<longleftrightarrow> n < 2" unfolding bit_mask_iff by auto
  finally show ?thesis .
qed

lemma bit_parent_color:
  "bit (rb_parent_of w) n \<longleftrightarrow> bit w n \<and> 2 \<le> n" "bit (rb_color_of w) n \<longleftrightarrow> bit w n \<and> n = 0"
  "bit (rb_with_parent w p) n \<longleftrightarrow> bit w n \<and> n < 2 \<or> bit p n" "bit (rb_with_color w c) n \<longleftrightarrow> bit w n \<and> n \<noteq> 0 \<or> bit c n"
  unfolding rb_parent_of_def rb_color_of_def rb_with_parent_def rb_with_color_def bit_and_iff bit_or_iff bit_not_iff word_3_bits bit_1_iff
  by (auto dest: bit_imp_le_length)

lemma aligned_bits: "p AND 3 = (0 :: u64) \<Longrightarrow> n < 2 \<Longrightarrow> \<not> bit p n"
proof -
  assume p: "p AND 3 = 0" and n: "n < 2"
  have "bit (p AND 3) n \<longleftrightarrow> bit p n \<and> n < 2" unfolding bit_and_iff word_3_bits ..
  with p n show ?thesis by simp
qed

lemma colour_bits: "c = 0 \<or> c = (1 :: u64) \<Longrightarrow> bit c n \<Longrightarrow> n = 0"
  by (auto simp: bit_1_iff)

interpretation pc: parent_and_color rb_parent_of rb_color_of rb_with_parent rb_with_color
  "\<lambda>p. p AND 3 = 0" "\<lambda>c. c = 0 \<or> c = 1"
proof
  fix w p :: u64
  assume p: "p AND 3 = 0"
  show "rb_parent_of (rb_with_parent w p) = p" "rb_color_of (rb_with_parent w p) = rb_color_of w"
    by (rule bit_word_eqI; use aligned_bits [OF p] in \<open>force simp: bit_parent_color not_less [symmetric]\<close>)+
next
  fix w c :: u64
  assume c: "c = 0 \<or> c = 1"
  show "rb_parent_of (rb_with_color w c) = rb_parent_of w" "rb_color_of (rb_with_color w c) = c"
    by (rule bit_word_eqI; use colour_bits [OF c] in \<open>force simp: bit_parent_color\<close>)+
qed

text \<open>
  The packed word implements separate parent and colour fields: for a parent address that is a
  multiple of four and a colour bit, each setter is read back and leaves the other field,
  and \<^verbatim>\<open>rb_set_red\<close> and \<^verbatim>\<open>rb_set_black\<close> set colour 0 and 1 and keep the parent.
\<close>

theorem parent_color_packing:
  assumes "p AND 3 = (0 :: u64)" and "c = 0 \<or> c = 1"
  shows "rb_parent_of (rb_with_color (rb_with_parent w p) c) = p \<and> rb_color_of (rb_with_parent (rb_with_color w c) p) = c
    \<and> rb_color_of (rb_with_red (rb_with_parent w p)) = 0 \<and> rb_parent_of (rb_with_red (rb_with_parent w p)) = p
    \<and> rb_color_of (rb_with_black (rb_with_parent w p)) = 1 \<and> rb_parent_of (rb_with_black (rb_with_parent w p)) = p"
proof -
  have red: "rb_with_red v = rb_with_color v 0" for v by (simp add: rb_with_red_def rb_with_color_def)
  have black: "rb_with_black v = rb_with_color v 1" for v
    by (rule bit_word_eqI) (auto simp: rb_with_black_def rb_with_color_def bit_or_iff bit_and_iff bit_not_iff bit_1_iff)
  show ?thesis
    using pc.fields_independent [OF assms, of w] pc.fields_independent [OF assms(1), of 0 w]
      pc.fields_independent [OF assms(1), of 1 w] pc.col_set_col [of 0] pc.col_set_col [of 1]
    by (simp add: red black)
qed

theorem parent_color_packing_witness: "rb_parent_of (rb_with_black (rb_with_parent 3 0x1000)) = 0x1000"
  using parent_color_packing [of "0x1000" 0 3] by simp

end
