(* ===== verification/Rb_Tree.thy ===== *)
theory Rb_Tree
  imports Rb_Heap
begin

text \<open>
  What a heap of nodes represents. \<open>rbt\<close> is the tree of addresses and colours; \<open>rep\<close> says that the
  heap holds it with the right parent and child pointers. A position inside a tree is a
  context (a list of frames from the position up to the root) and the subtree there, and
  \<open>zrep\<close> says that the heap and the root pointer represent a subtree in its context. Each
  primitive of the code (recolouring, rotation, linking) is shown to change the tree at
  such a position as expected, to keep the addresses and to touch no other node.

  \<open>nd d x a c y\<close> is the node \<open>a\<close> of colour \<open>c\<close> with \<open>x\<close> on side \<open>d\<close> and \<open>y\<close> on the other.
\<close>

datatype rbt = E | N rbt ptr color rbt

primrec nd :: "side \<Rightarrow> rbt \<Rightarrow> ptr \<Rightarrow> color \<Rightarrow> rbt \<Rightarrow> rbt" where
  "nd L x a c y = N x a c y"
| "nd R x a c y = N y a c x"

fun root_ptr :: "rbt \<Rightarrow> ptr" where
  "root_ptr E = 0"
| "root_ptr (N l a c r) = a"

primrec inorder :: "rbt \<Rightarrow> ptr list" where
  "inorder E = []"
| "inorder (N l a c r) = inorder l @ a # inorder r"

primrec height :: "rbt \<Rightarrow> nat" where
  "height E = 0"
| "height (N l a c r) = Suc (max (height l) (height r))"

abbreviation addrs :: "rbt \<Rightarrow> ptr set" where
  "addrs t \<equiv> set (inorder t)"

text \<open>The memory of a node: \<open>p\<close> on side \<open>d\<close>, \<open>q\<close> on the other.\<close>

definition cell :: "side \<Rightarrow> ptr \<Rightarrow> color \<Rightarrow> ptr \<Rightarrow> ptr \<Rightarrow> rb_node" where
  "cell d par c p q = with_child d p (with_child (other d) q \<lparr>rb_parent = par, rb_color = c, rb_right = 0, rb_left = 0\<rparr>)"

lemma other_other [simp]: "other (other d) = d" and other_neq [simp]: "other d \<noteq> d" "d \<noteq> other d"
  by (cases d; simp)+

lemma side_cases: "d' = d \<or> d' = other d"
  by (cases d; cases d') auto

lemma cell_sel [simp]:
  "rb_parent (cell d par c p q) = par" "rb_color (cell d par c p q) = c"
  "child d (cell d par c p q) = p" "child (other d) (cell d par c p q) = q"
  "(cell d par c p q)\<lparr>rb_parent := par'\<rparr> = cell d par' c p q"
  "(cell d par c p q)\<lparr>rb_color := c'\<rparr> = cell d par c' p q"
  "with_child d p' (cell d par c p q) = cell d par c p' q"
  "with_child (other d) q' (cell d par c p q) = cell d par c p q'"
  by (cases d; simp add: cell_def)+

lemma cell_L_sel [simp]: "rb_left (cell L par c p q) = p" "rb_right (cell L par c p q) = q"
  by (simp_all add: cell_def)

lemma cell_R_sel [simp]: "rb_left (cell R par c p q) = q" "rb_right (cell R par c p q) = p"
  by (simp_all add: cell_def)

lemma cell_other: "cell (other d) par c p q = cell d par c q p"
  by (cases d) (simp_all add: cell_def)

lemma cell_eq: "cell L par c p q = \<lparr>rb_parent = par, rb_color = c, rb_right = q, rb_left = p\<rparr>"
  by (simp add: cell_def)

lemma nd_other: "nd (other d) x a c y = nd d y a c x"
  by (cases d) simp_all

lemma nd_neq_E [simp]: "nd d x a c y \<noteq> E" "E \<noteq> nd d x a c y"
  by (cases d; simp)+

lemma root_ptr_nd [simp]: "root_ptr (nd d x a c y) = a"
  by (cases d) simp_all

lemma addrs_nd [simp]: "addrs (nd d x a c y) = insert a (addrs x \<union> addrs y)"
  by (cases d) auto

lemma N_as_nd: "N l a c r = nd L l a c r"
  by simp

lemma rbt_side_cases:
  obtains (E) "t = E" | (N) x a c y where "t = nd d x a c y"
proof (cases t)
  case (N l a c r)
  show thesis
  proof (cases d)
    case L
    with N show thesis by (intro that(2) [of l a c r]) simp
  next
    case R
    with N show thesis by (intro that(2) [of r a c l]) simp
  qed
qed (rule that(1))

subsection \<open>Trees in the heap\<close>

fun rep :: "(ptr \<rightharpoonup> rb_node) \<Rightarrow> ptr \<Rightarrow> rbt \<Rightarrow> bool" where
  "rep h par E = True"
| "rep h par (N l a c r) \<longleftrightarrow> h a = Some (cell L par c (root_ptr l) (root_ptr r)) \<and> rep h a l \<and> rep h a r"

lemma rep_nd [simp]:
  "rep h par (nd d x a c y) \<longleftrightarrow> h a = Some (cell d par c (root_ptr x) (root_ptr y)) \<and> rep h a x \<and> rep h a y"
  using cell_other [of L] by (cases d) auto

lemma rep_cong: "(\<And>p. p \<in> addrs t \<Longrightarrow> h' p = h p) \<Longrightarrow> rep h' par t = rep h par t"
  by (induction t arbitrary: par) auto

lemma rep_upd [simp]: "p \<notin> addrs t \<Longrightarrow> rep (h(p := v)) par t = rep h par t"
  by (rule rep_cong) auto

text \<open>Contexts. A frame \<open>F d a c sib\<close>: the position is the child on side \<open>d\<close> of \<open>a\<close>, its sibling is \<open>sib\<close>.\<close>

datatype frame = F side ptr color rbt

type_synonym ctx = "frame list"

primrec plug :: "ctx \<Rightarrow> rbt \<Rightarrow> rbt" where
  "plug [] t = t"
| "plug (f # C) t = (case f of F d a c sib \<Rightarrow> plug C (nd d t a c sib))"

fun cpar :: "ctx \<Rightarrow> ptr" where
  "cpar [] = 0"
| "cpar (F d a c sib # C) = a"

fun caddrs :: "ctx \<Rightarrow> ptr set" where
  "caddrs [] = {}"
| "caddrs (F d a c sib # C) = insert a (addrs sib \<union> caddrs C)"

fun croot :: "ctx \<Rightarrow> ptr \<Rightarrow> ptr" where
  "croot [] p = p"
| "croot (F d a c sib # C) p = croot C a"

fun repctx :: "(ptr \<rightharpoonup> rb_node) \<Rightarrow> ctx \<Rightarrow> ptr \<Rightarrow> bool" where
  "repctx h [] p = True"
| "repctx h (F d a c sib # C) p \<longleftrightarrow> h a = Some (cell d (cpar C) c p (root_ptr sib)) \<and> rep h a sib \<and> repctx h C a"

lemma repctx_cong: "(\<And>p. p \<in> caddrs C \<Longrightarrow> h' p = h p) \<Longrightarrow> repctx h' C q = repctx h C q"
proof (induction C arbitrary: q)
  case (Cons f C)
  obtain d a c sib where f: "f = F d a c sib" by (cases f)
  have "rep h' a sib = rep h a sib" using Cons.prems f by (intro rep_cong) auto
  moreover have "repctx h' C a = repctx h C a" using Cons.prems f by (intro Cons.IH) auto
  ultimately show ?case using Cons.prems [of a] f by simp
qed simp

lemma repctx_upd [simp]: "p \<notin> caddrs C \<Longrightarrow> repctx (h(p := v)) C q = repctx h C q"
  by (rule repctx_cong) auto

lemma addrs_plug: "addrs (plug C t) = addrs t \<union> caddrs C"
  by (induction C arbitrary: t) (auto split: frame.splits)

lemma rep_plug: "rep h 0 (plug C t) \<longleftrightarrow> rep h (cpar C) t \<and> repctx h C (root_ptr t)"
  by (induction C arbitrary: t) (auto split: frame.splits)

lemma root_ptr_plug: "root_ptr (plug C t) = croot C (root_ptr t)"
  by (induction C arbitrary: t) (auto split: frame.splits)

text \<open>A red-black tree in memory: heap, root pointer, no address twice, and null is not an address.\<close>

definition trep :: "rb_root \<Rightarrow> rbt \<Rightarrow> bool" where
  "trep s t \<longleftrightarrow> rep (heap s) 0 t \<and> root_node s = root_ptr t \<and> distinct (inorder t) \<and> heap s 0 = None"

definition zrep :: "rb_root \<Rightarrow> ctx \<Rightarrow> rbt \<Rightarrow> bool" where
  "zrep s C t \<longleftrightarrow> trep s (plug C t)"

lemma zrep_Nil [simp]: "zrep s [] t = trep s t"
  by (simp add: zrep_def)

text \<open>Moving the position.\<close>

lemma zrep_Cons: "zrep s (F d a c sib # C) t = zrep s C (nd d t a c sib)"
  by (simp add: zrep_def)

lemma zrep_Cons_other: "zrep s (F (other d) a c t # C) sib = zrep s C (nd d t a c sib)"
  by (simp add: zrep_def nd_other)

text \<open>Distinctness in a context, in the form the heap updates need.\<close>

fun ctx_distinct :: "ctx \<Rightarrow> bool" where
  "ctx_distinct [] = True"
| "ctx_distinct (F d a c sib # C) \<longleftrightarrow> distinct (inorder sib) \<and> a \<notin> addrs sib \<and> a \<notin> caddrs C
     \<and> addrs sib \<inter> caddrs C = {} \<and> ctx_distinct C"

lemma distinct_nd: "distinct (inorder (nd d x a c y)) \<longleftrightarrow>
    distinct (inorder x) \<and> distinct (inorder y) \<and> a \<notin> addrs x \<and> a \<notin> addrs y \<and> addrs x \<inter> addrs y = {}"
  by (cases d) auto

lemma distinct_plug: "distinct (inorder (plug C t)) \<longleftrightarrow>
    distinct (inorder t) \<and> ctx_distinct C \<and> addrs t \<inter> caddrs C = {}"
proof (induction C arbitrary: t)
  case (Cons f C)
  then show ?case by (cases f) (auto simp: distinct_nd)
qed simp

lemma zrep_unfold:
  "zrep s C t \<longleftrightarrow> rep (heap s) (cpar C) t \<and> repctx (heap s) C (root_ptr t) \<and> root_node s = croot C (root_ptr t)
     \<and> distinct (inorder t) \<and> ctx_distinct C \<and> addrs t \<inter> caddrs C = {} \<and> heap s 0 = None"
  by (auto simp: zrep_def trep_def rep_plug root_ptr_plug distinct_plug)

lemma rep_nonzero: "rep h par t \<Longrightarrow> h 0 = None \<Longrightarrow> 0 \<notin> addrs t"
  by (induction t arbitrary: par) (auto intro!: gr0I)

lemma repctx_nonzero: "repctx h C p \<Longrightarrow> h 0 = None \<Longrightarrow> 0 \<notin> caddrs C"
proof (induction C arbitrary: p)
  case (Cons f C)
  then show ?case by (cases f) (auto dest: rep_nonzero intro!: gr0I)
qed simp

lemma zrep_nonzero: "zrep s C t \<Longrightarrow> 0 \<notin> addrs t \<and> 0 \<notin> caddrs C"
  by (auto simp: zrep_unfold dest: rep_nonzero repctx_nonzero)

lemma root_ptr_in: "t \<noteq> E \<Longrightarrow> root_ptr t \<in> addrs t"
  by (cases t) auto

lemma root_ptr_0_iff: "0 \<notin> addrs t \<Longrightarrow> root_ptr t = 0 \<longleftrightarrow> t = E"
  by (cases t) auto

text \<open>Reading the node at the position and its parent.\<close>

lemma zrep_deref:
  "zrep s C (nd d x a c y) \<Longrightarrow> deref s a = Ret (cell d (cpar C) c (root_ptr x) (root_ptr y))"
  by (simp add: zrep_unfold deref_def)

lemma zrep_deref_parent:
  "zrep s (F d a c sib # C) t \<Longrightarrow> deref s a = Ret (cell d (cpar C) c (root_ptr t) (root_ptr sib))"
  by (simp add: zrep_Cons zrep_deref)

text \<open>A step keeps every node outside the tree and the node count.\<close>

definition keeps :: "ptr set \<Rightarrow> rb_root \<Rightarrow> rb_root \<Rightarrow> bool" where
  "keeps A s s' \<longleftrightarrow> count s' = count s \<and> (\<forall>p. p \<notin> A \<longrightarrow> heap s' p = heap s p)"

lemma keeps_refl [simp]: "keeps A s s"
  by (simp add: keeps_def)

lemma keeps_trans: "keeps A s s' \<Longrightarrow> keeps A s' s'' \<Longrightarrow> keeps A s s''"
  by (simp add: keeps_def)

subsection \<open>Recolouring\<close>

lemma set_color_zrep:
  assumes z: "zrep s C (nd d x a c y)"
  obtains s' where "rb_set_color a c' s = Ret s'" "zrep s' C (nd d x a c' y)" "keeps (addrs (plug C (nd d x a c y))) s s'"
proof -
  let ?s = "s\<lparr>heap := (heap s)(a \<mapsto> cell d (cpar C) c' (root_ptr x) (root_ptr y))\<rparr>"
  have "rb_set_color a c' s = Ret ?s"
    using zrep_deref [OF z] by (simp add: rb_set_color_def upd_node_def)
  moreover have "zrep ?s C (nd d x a c' y)"
    using z zrep_nonzero [OF z] unfolding zrep_unfold by (auto simp: distinct_nd)
  moreover have "keeps (addrs (plug C (nd d x a c y))) s ?s"
    by (auto simp: keeps_def addrs_plug)
  ultimately show thesis by (rule that)
qed

subsection \<open>Redirecting a link\<close>

lemma relink_ok:
  assumes rc: "repctx (heap s) C old" and root: "root_node s = croot C old" and dist: "ctx_distinct C"
    and old: "old \<notin> caddrs C" "old \<noteq> 0" and null: "heap s 0 = None"
  obtains s' where "relink d (cpar C) old new s = Ret s'" "repctx (heap s') C new" "root_node s' = croot C new"
    "\<forall>p. p \<notin> caddrs C \<longrightarrow> heap s' p = heap s p" "count s' = count s"
proof (cases C)
  case Nil
  let ?s = "s\<lparr>root_node := new\<rparr>"
  show thesis by (rule that [of ?s]) (use Nil in \<open>simp_all add: relink_def\<close>)
next
  case (Cons f C')
  obtain e a c sib where f: "f = F e a c sib" by (cases f)
  have cell: "heap s a = Some (cell e (cpar C') c old (root_ptr sib))" and sib: "rep (heap s) a sib"
    and up: "repctx (heap s) C' a" using rc Cons f by auto
  have "a \<noteq> 0" using cell null by (auto intro: gr0I)
  have neq: "root_ptr sib \<noteq> old" using old Cons f root_ptr_in [of sib] by (cases sib) auto
  let ?s = "s\<lparr>heap := (heap s)(a \<mapsto> cell e (cpar C') c new (root_ptr sib))\<rparr>"
  have "relink d a old new s = Ret ?s"
    using side_cases [of e d] cell \<open>a \<noteq> 0\<close> neq
    by (auto simp: relink_def set_child_def upd_node_def deref_def cell_other)
  moreover have "repctx (heap ?s) C new" using Cons f sib up dist by simp
  ultimately show thesis using root Cons f by (intro that [of ?s]) auto
qed

subsection \<open>Rotation\<close>

text \<open>
  The heap after a rotation, before the link to the subtree is redirected: \<open>x\<close> has lost its
  child \<open>y\<close> and got \<open>y\<close>'s inner subtree, \<open>y\<close> has \<open>x\<close> as a child.
\<close>

lemma rotate_inner:
  assumes r: "rep (heap s) par (nd d a x c (nd d b y e f))"
    and dist: "distinct (inorder (nd d a x c (nd d b y e f)))" and null: "heap s 0 = None"
  shows "\<exists>h. ebind (set_child (other d) x (root_ptr b) s) (\<lambda>s.
      ebind (if root_ptr b \<noteq> 0 then rb_set_parent (root_ptr b) x s else Ret s) (\<lambda>s.
      ebind (set_child d y x s) (\<lambda>s. rb_set_parent y par s))) = Ret (s\<lparr>heap := h\<rparr>)
    \<and> h x = Some (cell d par c (root_ptr a) (root_ptr b)) \<and> h y = Some (cell d par e x (root_ptr f))
    \<and> rep h x a \<and> rep h x b \<and> rep h y f \<and> (\<forall>p. p \<notin> {x, y} \<union> addrs b \<longrightarrow> h p = heap s p)"
proof (cases b rule: rbt_side_cases [where d = d])
  case E
  with r dist show ?thesis
    by (auto simp: set_child_def rb_set_parent_def upd_node_def deref_def distinct_nd)
next
  case (N b1 z g b2)
  moreover have "z \<noteq> 0" using r N null by (auto intro: gr0I)
  ultimately show ?thesis using r dist
    by (auto simp: set_child_def rb_set_parent_def upd_node_def deref_def distinct_nd)
qed

lemma rotate_zrep:
  assumes z: "zrep s C (nd d a x c (nd d b y e f))"
  obtains s' where "rb_rotate d x s = Ret s'" "zrep s' C (nd d (nd d a x c b) y e f)"
    "keeps (addrs (plug C (nd d a x c (nd d b y e f)))) s s'"
proof -
  let ?t = "nd d a x c (nd d b y e f)"
  from z have r: "rep (heap s) (cpar C) ?t" and rc: "repctx (heap s) C x" and root: "root_node s = croot C x"
    and dist: "distinct (inorder ?t)" "ctx_distinct C" "addrs ?t \<inter> caddrs C = {}" and null: "heap s 0 = None"
    unfolding zrep_unfold by auto
  from rotate_inner [OF r dist(1) null] obtain h where
    h: "ebind (set_child (other d) x (root_ptr b) s) (\<lambda>s.
      ebind (if root_ptr b \<noteq> 0 then rb_set_parent (root_ptr b) x s else Ret s) (\<lambda>s.
      ebind (set_child d y x s) (\<lambda>s. rb_set_parent y (cpar C) s))) = Ret (s\<lparr>heap := h\<rparr>)"
    "h x = Some (cell d (cpar C) c (root_ptr a) (root_ptr b))" "h y = Some (cell d (cpar C) e x (root_ptr f))"
    "rep h x a" "rep h x b" "rep h y f" "\<forall>p. p \<notin> {x, y} \<union> addrs b \<longrightarrow> h p = heap s p" by blast
  let ?s1 = "s\<lparr>heap := h\<rparr>"
  have x0: "x \<noteq> 0" and h0: "h 0 = None" using zrep_nonzero [OF z] h(7) null by auto
  have "repctx h C x = repctx (heap s) C x" using h(7) dist(3) by (intro repctx_cong) auto
  with rc have rc1: "repctx (heap ?s1) C x" by simp
  obtain s2 where s2: "relink d (cpar C) x y ?s1 = Ret s2" "repctx (heap s2) C y" "root_node s2 = croot C y"
    "\<forall>p. p \<notin> caddrs C \<longrightarrow> heap s2 p = h p" "count s2 = count s"
  proof (rule relink_ok [OF rc1, of d y])
    show "x \<notin> caddrs C" "ctx_distinct C" using dist by auto
  qed (use root x0 h0 in auto)
  let ?s = "s2\<lparr>heap := (heap s2)(x \<mapsto> cell d y c (root_ptr a) (root_ptr b))\<rparr>"
  have out: "heap s2 p = h p" if "p \<in> addrs ?t" for p using that s2(4) dist(3) by blast
  then have hx: "heap s2 x = Some (cell d (cpar C) c (root_ptr a) (root_ptr b))" using h(2) by simp
  have "rb_rotate d x s = Ret ?s"
  proof -
    have "rb_rotate d x s = ebind (ebind (set_child (other d) x (root_ptr b) s) (\<lambda>s.
      ebind (if root_ptr b \<noteq> 0 then rb_set_parent (root_ptr b) x s else Ret s) (\<lambda>s.
      ebind (set_child d y x s) (\<lambda>s. rb_set_parent y (cpar C) s))))
      (\<lambda>s. ebind (relink d (cpar C) x y s) (\<lambda>s. rb_set_parent x y s))"
      using r by (simp add: rb_rotate_def deref_def ebind_assoc Let_def cong: if_cong)
    then show ?thesis
      unfolding h(1) using s2(1) hx by (simp add: rb_set_parent_def upd_node_def deref_def)
  qed
  moreover have "zrep ?s C (nd d (nd d a x c b) y e f)"
  proof -
    have agree: "rep (heap s2) q u = rep h q u" if "addrs u \<subseteq> addrs ?t" for q u
      using that out by (intro rep_cong) blast
    have "rep (heap s2) x a" "rep (heap s2) x b" "rep (heap s2) y f"
      using h(4-6) by (subst agree; auto)+
    then have "rep (heap ?s) (cpar C) (nd d (nd d a x c b) y e f)"
      using dist(1) h(3) out [of y] by (auto simp: distinct_nd)
    moreover have "repctx (heap ?s) C y" using s2(2) dist(3) by simp
    moreover have "heap s2 0 = None" using s2(4) h0 zrep_nonzero [OF z] by auto
    ultimately show ?thesis unfolding zrep_unfold using s2(3) dist x0 by (auto simp: distinct_nd)
  qed
  moreover have "keeps (addrs (plug C ?t)) s ?s"
    using s2(4,5) h(7) by (auto simp: keeps_def addrs_plug)
  ultimately show thesis by (rule that)
qed

subsection \<open>Red-black trees\<close>

fun isred :: "rbt \<Rightarrow> bool" where
  "isred (N l a Red r) = True"
| "isred _ = False"

text \<open>\<open>rbh t n\<close>: no red node has a red child and every path from the root of \<open>t\<close> down has \<open>n\<close> black nodes.\<close>

fun rbh :: "rbt \<Rightarrow> nat \<Rightarrow> bool" where
  "rbh E n \<longleftrightarrow> n = 0"
| "rbh (N l a Red r) n \<longleftrightarrow> rbh l n \<and> rbh r n \<and> \<not> isred l \<and> \<not> isred r"
| "rbh (N l a Black r) n \<longleftrightarrow> (case n of 0 \<Rightarrow> False | Suc m \<Rightarrow> rbh l m \<and> rbh r m)"

definition rb_tree :: "rbt \<Rightarrow> bool" where
  "rb_tree t \<longleftrightarrow> \<not> isred t \<and> (\<exists>n. rbh t n)"

lemma isred_N [simp]: "isred (N l a c r) \<longleftrightarrow> c = Red"
  by (cases c) auto

lemma isred_nd [simp]: "isred (nd d x a c y) \<longleftrightarrow> c = Red"
  by (cases d; cases c) auto

lemma rbh_nd_Red [simp]: "rbh (nd d x a Red y) n \<longleftrightarrow> rbh x n \<and> rbh y n \<and> \<not> isred x \<and> \<not> isred y"
  by (cases d) auto

lemma rbh_nd_Black: "rbh (nd d x a Black y) n \<longleftrightarrow> (\<exists>m. n = Suc m \<and> rbh x m \<and> rbh y m)"
  by (cases d; cases n) auto

lemma rbh_nd_Black_Suc [simp]: "rbh (nd d x a Black y) (Suc n) \<longleftrightarrow> rbh x n \<and> rbh y n"
  by (simp add: rbh_nd_Black)

lemma rbh_Suc_nonempty: "rbh t (Suc n) \<Longrightarrow> t \<noteq> E"
  by (cases t) auto

fun cblack :: "ctx \<Rightarrow> bool" where
  "cblack (F d a c sib # C) \<longleftrightarrow> c = Black"
| "cblack [] = False"

text \<open>\<open>cok C n\<close>: the context is that of a subtree of black height \<open>n\<close> in a red-black tree.\<close>

fun cok :: "ctx \<Rightarrow> nat \<Rightarrow> bool" where
  "cok [] n = True"
| "cok (F d a Red sib # C) n \<longleftrightarrow> rbh sib n \<and> \<not> isred sib \<and> cblack C \<and> cok C n"
| "cok (F d a Black sib # C) n \<longleftrightarrow> rbh sib n \<and> cok C (Suc n)"

lemma rbh_plug: "rbh t n \<Longrightarrow> cok C n \<Longrightarrow> (isred t \<Longrightarrow> cblack C \<or> C = []) \<Longrightarrow> \<exists>m. rbh (plug C t) m"
proof (induction C n arbitrary: t rule: cok.induct)
  case (2 d a sib C n)
  then have "\<not> isred t" by auto
  with 2 show ?case by auto
next
  case (3 d a sib C n)
  from 3(1) [of "nd d t a Black sib"] 3(2,3) show ?case by simp
qed auto

lemma isred_plug: "isred (plug C t) \<Longrightarrow> cok C n \<Longrightarrow> C = [] \<and> isred t"
proof (induction C n arbitrary: t rule: cok.induct)
  case (2 d a sib C n)
  then show ?case by (cases C) auto
next
  case (3 d a sib C n)
  then show ?case by force
qed auto

text \<open>Conversely a position of a red-black tree has such a context.\<close>

lemma rbh_unplug: "rbh (plug C t) m \<Longrightarrow> \<not> isred (plug C t) \<Longrightarrow>
    \<exists>n. rbh t n \<and> cok C n \<and> (isred t \<longrightarrow> cblack C)"
proof (induction C arbitrary: t)
  case (Cons f C)
  obtain d a c sib where f: "f = F d a c sib" by (cases f)
  with Cons.IH [of "nd d t a c sib"] Cons.prems obtain n where
    n: "rbh (nd d t a c sib) n" "cok C n" "c = Red \<longrightarrow> cblack C" by auto
  show ?case
  proof (cases c)
    case Red
    with n f show ?thesis by auto
  next
    case Black
    with n f show ?thesis by (auto simp: rbh_nd_Black)
  qed
qed auto

text \<open>The in-order sequence of a position.\<close>

primrec cpre :: "ctx \<Rightarrow> ptr list" where
  "cpre [] = []"
| "cpre (f # C) = (case f of F d a c sib \<Rightarrow> cpre C @ (case d of L \<Rightarrow> [] | R \<Rightarrow> inorder sib @ [a]))"

primrec cpost :: "ctx \<Rightarrow> ptr list" where
  "cpost [] = []"
| "cpost (f # C) = (case f of F d a c sib \<Rightarrow> (case d of L \<Rightarrow> a # inorder sib | R \<Rightarrow> []) @ cpost C)"

lemma inorder_plug: "inorder (plug C t) = cpre C @ inorder t @ cpost C"
  by (induction C arbitrary: t) (auto split: frame.splits side.splits)

lemma caddrs_seq: "caddrs C = set (cpre C) \<union> set (cpost C)"
proof (induction C)
  case (Cons f C)
  obtain d a c sib where f: "f = F d a c sib" by (cases f)
  with Cons show ?case by (cases d) auto
qed simp

lemma inorder_plug_cong: "inorder t = inorder u \<Longrightarrow> inorder (plug C t) = inorder (plug C u)"
  by (simp add: inorder_plug)

lemma inorder_rotate: "inorder (nd d (nd d a x c b) y e f) = inorder (nd d a x c' (nd d b y e' f))"
  by (cases d) simp_all

lemma nd_inorder: "inorder (nd d x a c y) = (case d of L \<Rightarrow> inorder x @ a # inorder y | R \<Rightarrow> inorder y @ a # inorder x)"
  by (cases d) simp_all

lemma inorder_color: "inorder (nd d x a c y) = inorder (nd d x a c' y)"
  by (cases d) simp_all

end
