(* ===== verification/Rb_Insert.thy ===== *)
theory Rb_Insert
  imports Rb_Tree
begin

text \<open>
  Insertion into the red-black tree: the rebalancing loop of \<^verbatim>\<open>aosl_rb_insert_color\<close>, the search of
  \<^verbatim>\<open>aosl_vfind_rb_links\<close> and \<^verbatim>\<open>aosl_vfind_rb_node\<close>, and \<^verbatim>\<open>aosl_rb_insert_node\<close> as a whole.
\<close>

declare rb_insert_fix.simps(2) [simp del]

lemma zrep_node_is_red: "zrep s C t \<Longrightarrow> node_is_red s (root_ptr t) = Ret (isred t)"
proof (cases t rule: rbt_side_cases [where d = L])
  case (N x a c y)
  moreover assume z: "zrep s C t"
  ultimately show ?thesis using zrep_nonzero [OF z] zrep_deref [of s C L x a c y]
    by (auto simp: node_is_red_def)
qed (simp add: node_is_red_def)

text \<open>The test \<^verbatim>\<open>parent == gparent->rb_left\<close> finds the side of a subtree that is not empty.\<close>

lemma zrep_side:
  assumes "zrep s (F d a c sib # C) t" and "t \<noteq> E \<or> sib \<noteq> E"
  shows "(if rb_left (cell d par c' (root_ptr t) (root_ptr sib)) = root_ptr t then L else R) = d"
proof (cases d)
  case R
  have d: "addrs t \<inter> addrs sib = {}" using assms(1) by (auto simp: zrep_unfold)
  have "root_ptr sib \<noteq> root_ptr t"
  proof (cases "t = E")
    case True
    with assms(2) have "root_ptr sib \<in> addrs sib" by (simp add: root_ptr_in)
    with zrep_nonzero [OF assms(1)] True show ?thesis by (auto intro!: gr0I)
  next
    case False
    show ?thesis
    proof (cases "sib = E")
      case True
      with False zrep_nonzero [OF assms(1)] root_ptr_in [OF False] show ?thesis by (auto intro!: gr0I)
    next
      case sib: False
      from d root_ptr_in [OF False] root_ptr_in [OF sib] show ?thesis by auto
    qed
  qed
  with R show ?thesis by simp
qed simp

text \<open>The last steps of an iteration: parent black, grandparent red, rotation at the grandparent.\<close>

lemma insert_tail:
  assumes z: "zrep s C (nd d (nd d a p Red b) g Black u)"
  obtains s' where "ebind (rb_set_color p Black s) (\<lambda>s. ebind (rb_set_color g Red s) (\<lambda>s.
      ebind (rb_rotate (other d) g s) f)) = f s'"
    "zrep s' C (nd d a p Black (nd d b g Red u))" "keeps (addrs (plug C (nd d (nd d a p Red b) g Black u))) s s'"
proof -
  let ?A = "addrs (plug C (nd d (nd d a p Red b) g Black u))"
  from z have "zrep s (F d g Black u # C) (nd d a p Red b)" by (simp add: zrep_Cons)
  from set_color_zrep [OF this, of Black] obtain s1 where
    s1: "rb_set_color p Black s = Ret s1" "zrep s1 (F d g Black u # C) (nd d a p Black b)" "keeps ?A s s1"
    by (auto simp: addrs_plug)
  from s1(2) have "zrep s1 C (nd d (nd d a p Black b) g Black u)" by (simp add: zrep_Cons)
  from set_color_zrep [OF this, of Red] obtain s2 where
    s2: "rb_set_color g Red s1 = Ret s2" "zrep s2 C (nd d (nd d a p Black b) g Red u)" "keeps ?A s1 s2"
    by (auto simp: addrs_plug)
  from s2(2) have "zrep s2 C (nd (other d) u g Red (nd (other d) b p Black a))" by (simp add: nd_other)
  from rotate_zrep [OF this] obtain s3 where
    s3: "rb_rotate (other d) g s2 = Ret s3" "zrep s3 C (nd (other d) (nd (other d) u g Red b) p Black a)"
    "keeps ?A s2 s3" by (auto simp: addrs_plug insert_commute Un_ac)
  show thesis
    by (rule that [of s3]) (use s1 s2 s3 in \<open>auto simp: nd_other intro: keeps_trans\<close>)
qed

lemma insert_recolor:
  assumes z: "zrep s C (nd d (nd e t p Red sib) g Black (nd k ul u Red ur))"
  obtains s' where "ebind (rb_set_color u Black s) (\<lambda>s. ebind (rb_set_color p Black s) (\<lambda>s.
      ebind (rb_set_color g Red s) f)) = f s'"
    "zrep s' C (nd d (nd e t p Black sib) g Red (nd k ul u Black ur))"
    "keeps (addrs (plug C (nd d (nd e t p Red sib) g Black (nd k ul u Red ur)))) s s'"
proof -
  let ?A = "addrs (plug C (nd d (nd e t p Red sib) g Black (nd k ul u Red ur)))"
  from z have "zrep s (F (other d) g Black (nd e t p Red sib) # C) (nd k ul u Red ur)" by (simp add: zrep_Cons_other)
  from set_color_zrep [OF this, of Black] obtain s1 where
    s1: "rb_set_color u Black s = Ret s1" "zrep s1 (F (other d) g Black (nd e t p Red sib) # C) (nd k ul u Black ur)"
    "keeps ?A s s1" by (auto simp: addrs_plug insert_commute Un_ac)
  from s1(2) have "zrep s1 (F d g Black (nd k ul u Black ur) # C) (nd e t p Red sib)" by (simp add: zrep_Cons nd_other)
  from set_color_zrep [OF this, of Black] obtain s2 where
    s2: "rb_set_color p Black s1 = Ret s2" "zrep s2 (F d g Black (nd k ul u Black ur) # C) (nd e t p Black sib)"
    "keeps ?A s1 s2" by (auto simp: addrs_plug insert_commute Un_ac)
  from s2(2) have "zrep s2 C (nd d (nd e t p Black sib) g Black (nd k ul u Black ur))" by (simp add: zrep_Cons)
  from set_color_zrep [OF this, of Red] obtain s3 where
    s3: "rb_set_color g Red s2 = Ret s3" "zrep s3 C (nd d (nd e t p Black sib) g Red (nd k ul u Black ur))"
    "keeps ?A s2 s3" by (auto simp: addrs_plug insert_commute Un_ac)
  show thesis by (rule that [of s3]) (use s1 s2 s3 in \<open>auto intro: keeps_trans\<close>)
qed

text \<open>One iteration below a red parent, by the colour of the uncle and the side of the node.\<close>

lemma insert_fix_step:
  assumes z: "zrep s (F d1 p Red sib # F d2 g Black unc # C) (nd d x node Red y)"
  shows "rb_insert_fix (Suc fuel) node s =
    (if isred unc then ebind (rb_set_color (root_ptr unc) Black s) (\<lambda>s. ebind (rb_set_color p Black s) (\<lambda>s.
         ebind (rb_set_color g Red s) (rb_insert_fix fuel g)))
     else ebind (if child (other d2) (cell d1 g Red node (root_ptr sib)) = node
            then ebind (rb_rotate d2 p s) (\<lambda>s. Ret (p, node, s)) else Ret (node, p, s)) (\<lambda>(node, parent, s).
         ebind (rb_set_color parent Black s) (\<lambda>s. ebind (rb_set_color g Red s) (\<lambda>s.
         ebind (rb_rotate (other d2) g s) (rb_insert_fix fuel node)))))"
proof -
  let ?P = "nd d1 (nd d x node Red y) p Red sib"
  have z2: "zrep s (F d2 g Black unc # C) ?P" and zu: "zrep s (F (other d2) g Black ?P # C) unc"
    using z by (simp_all add: zrep_Cons nd_other)
  have side: "(if p = rb_left (cell d2 (cpar C) Black p (root_ptr unc)) then L else R) = d2"
    using zrep_side [OF z2, of "cpar C" Black] by (simp add: eq_commute)
  have "p \<noteq> 0" using zrep_nonzero [OF z] by auto
  then show ?thesis
    using zrep_deref [OF z] zrep_deref_parent [OF z] zrep_deref_parent [OF z2] side zrep_node_is_red [OF zu]
    by (simp add: rb_insert_fix.simps(2) Let_def)
qed

lemma insert_fix_red_uncle:
  assumes z: "zrep s (F d1 p Red sib # F d2 g Black (nd k ul u Red ur) # C) (nd d x node Red y)"
  obtains s' where "rb_insert_fix (Suc fuel) node s = rb_insert_fix fuel g s'"
    "zrep s' C (nd d2 (nd d1 (nd d x node Red y) p Black sib) g Red (nd k ul u Black ur))"
    "keeps (addrs (plug (F d1 p Red sib # F d2 g Black (nd k ul u Red ur) # C) (nd d x node Red y))) s s'"
  using insert_recolor [of s C d2 d1 "nd d x node Red y" p sib g k ul u ur] z
  by (auto simp: insert_fix_step [OF z] zrep_Cons)

lemma insert_fix_outer:
  assumes z: "zrep s (F d p Red sib # F d g Black unc # C) (nd e x node Red y)" and u: "\<not> isred unc"
  obtains s' where "rb_insert_fix (Suc fuel) node s = rb_insert_fix fuel node s'"
    "zrep s' C (nd d (nd e x node Red y) p Black (nd d sib g Red unc))"
    "keeps (addrs (plug (F d p Red sib # F d g Black unc # C) (nd e x node Red y))) s s'"
proof -
  have "root_ptr sib \<noteq> node"
  proof (cases "sib = E")
    case False
    from z root_ptr_in [OF this] show ?thesis by (auto simp: zrep_unfold distinct_nd)
  qed (use zrep_nonzero [OF z] in auto)
  with insert_fix_step [OF z, of fuel] u
  have "rb_insert_fix (Suc fuel) node s = ebind (rb_set_color p Black s) (\<lambda>s. ebind (rb_set_color g Red s) (\<lambda>s.
         ebind (rb_rotate (other d) g s) (rb_insert_fix fuel node)))" by simp
  moreover from z have "zrep s C (nd d (nd d (nd e x node Red y) p Red sib) g Black unc)" by (simp add: zrep_Cons)
  from insert_tail [OF this, of "rb_insert_fix fuel node"] obtain s' where
    "ebind (rb_set_color p Black s) (\<lambda>s. ebind (rb_set_color g Red s) (\<lambda>s.
         ebind (rb_rotate (other d) g s) (rb_insert_fix fuel node))) = rb_insert_fix fuel node s'"
    "zrep s' C (nd d (nd e x node Red y) p Black (nd d sib g Red unc))"
    "keeps (addrs (plug C (nd d (nd d (nd e x node Red y) p Red sib) g Black unc))) s s'" by blast
  ultimately show thesis by (intro that [of s']) simp_all
qed

lemma insert_fix_inner:
  assumes z: "zrep s (F (other d) p Red sib # F d g Black unc # C) (nd d x node Red y)" and u: "\<not> isred unc"
  obtains s' where "rb_insert_fix (Suc fuel) node s = rb_insert_fix fuel p s'"
    "zrep s' C (nd d (nd d sib p Red x) node Black (nd d y g Red unc))"
    "keeps (addrs (plug (F (other d) p Red sib # F d g Black unc # C) (nd d x node Red y))) s s'"
proof -
  let ?A = "addrs (plug (F (other d) p Red sib # F d g Black unc # C) (nd d x node Red y))"
  from z have "zrep s (F d g Black unc # C) (nd d sib p Red (nd d x node Red y))" by (simp add: zrep_Cons nd_other)
  from rotate_zrep [OF this] obtain s1 where s1: "rb_rotate d p s = Ret s1"
    "zrep s1 C (nd d (nd d (nd d sib p Red x) node Red y) g Black unc)" "keeps ?A s s1"
    by (auto simp: zrep_Cons nd_other)
  from insert_tail [OF s1(2), of "rb_insert_fix fuel p"] obtain s2 where
    s2: "ebind (rb_set_color node Black s1) (\<lambda>s. ebind (rb_set_color g Red s) (\<lambda>s.
         ebind (rb_rotate (other d) g s) (rb_insert_fix fuel p))) = rb_insert_fix fuel p s2"
    "zrep s2 C (nd d (nd d sib p Red x) node Black (nd d y g Red unc))" "keeps ?A s1 s2"
    by (auto simp: addrs_plug insert_commute Un_ac)
  with insert_fix_step [OF z, of fuel] u s1(1) have "rb_insert_fix (Suc fuel) node s = rb_insert_fix fuel p s2"
    by (simp add: cell_other)
  then show thesis using s2(2) keeps_trans [OF s1(3) s2(3)] by (rule that)
qed

text \<open>
  The loop: the subtree at the position has a red root and is a red-black tree by itself, its
  context is that of a red-black tree; only its root may clash with a red parent. The
  result is a red-black tree but for the colour of the root.
\<close>

definition fix_ok :: "nat \<Rightarrow> ptr \<Rightarrow> rb_root \<Rightarrow> rbt \<Rightarrow> bool" where
  "fix_ok fuel node s t \<longleftrightarrow> (\<exists>s' T. rb_insert_fix fuel node s = Ret s' \<and> trep s' T \<and> (\<exists>m. rbh T m) \<and> T \<noteq> E
     \<and> inorder T = inorder t \<and> keeps (addrs t) s s')"

lemma fix_ok_step:
  assumes "rb_insert_fix (Suc fuel) node s = rb_insert_fix fuel node' s1" and "keeps (addrs t) s s1"
    and "fix_ok fuel node' s1 t'" and "inorder t' = inorder t"
  shows "fix_ok (Suc fuel) node s t"
  using assms unfolding fix_ok_def by (auto intro: keeps_trans)

lemma context_cases:
  assumes "cok C n"
  obtains (root) "C = []" | (black) d1 p sib C1 where "C = F d1 p Black sib # C1"
    | (red) d1 p sib d2 g unc C2 where "C = F d1 p Red sib # F d2 g Black unc # C2"
proof (cases C)
  case (Cons f C1)
  obtain d1 p pc sib where f: "f = F d1 p pc sib" by (cases f)
  show thesis
  proof (cases pc)
    case Red
    with Cons f assms have "cblack C1" by simp
    then obtain d2 g unc C2 where "C1 = F d2 g Black unc # C2" by (cases C1 rule: cblack.cases) auto
    with Cons f Red show thesis using red by blast
  qed (use Cons f black in blast)
qed (rule root)

lemma insert_fix_ok:
  assumes "zrep s C (nd d x node Red y)" and "rbh (nd d x node Red y) n" and "cok C n" and "length C < fuel"
  shows "fix_ok fuel node s (plug C (nd d x node Red y))"
  using assms
proof (induction fuel arbitrary: s C d x node y n)
  case (Suc fuel)
  note z = Suc.prems(1) and h = Suc.prems(2) and ok = Suc.prems(3)
  let ?t = "nd d x node Red y"
  consider (root) "C = []" | (black) d1 p sib C1 where "C = F d1 p Black sib # C1"
    | (red) d1 p sib d2 g unc C2 where "C = F d1 p Red sib # F d2 g Black unc # C2"
    using ok context_cases by metis
  then show ?case
  proof cases
    case root
    with z h zrep_deref [OF z] show ?thesis unfolding fix_ok_def
      by (intro exI [of _ s] exI [of _ ?t]) (auto simp: rb_insert_fix.simps(2))
  next
    case black
    have "p \<noteq> 0" using zrep_nonzero [OF z] black by auto
    then have "rb_insert_fix (Suc fuel) node s = Ret s"
      using zrep_deref [OF z] zrep_deref_parent [of s d1 p Black sib C1 ?t] z black by (simp add: rb_insert_fix.simps(2))
    moreover have "\<exists>m. rbh (plug C ?t) m" using h ok black by (intro rbh_plug [of ?t n]) auto
    moreover have "plug C ?t \<noteq> E" using addrs_plug [of C ?t] by auto
    ultimately show ?thesis using z by (auto simp: fix_ok_def zrep_def)
  next
    case red
    from ok red have sib: "rbh sib n" "\<not> isred sib" and unc: "rbh unc n" "cok C2 (Suc n)" by auto
    have len: "length C2 + 1 < fuel" using Suc.prems(4) red by simp
    show ?thesis
    proof (cases "isred unc")
      case True
      then obtain ul u ur where u: "unc = nd L ul u Red ur" by (cases unc) auto
      from z [unfolded red u] obtain s1 where
        s1: "rb_insert_fix (Suc fuel) node s = rb_insert_fix fuel g s1"
        "zrep s1 C2 (nd d2 (nd d1 ?t p Black sib) g Red (nd L ul u Black ur))" "keeps (addrs (plug C ?t)) s s1"
        unfolding red u by (rule insert_fix_red_uncle)
      have "fix_ok fuel g s1 (plug C2 (nd d2 (nd d1 ?t p Black sib) g Red (nd L ul u Black ur)))"
        using s1(2) by (rule Suc.IH [where n = "Suc n"]) (use h sib unc u len in auto)
      from s1(1,3) this show ?thesis
        by (rule fix_ok_step) (simp add: red u inorder_plug nd_inorder split: side.split)
    next
      case False
      consider (outer) "d1 = d2" | (inner) "d1 = other d2" using side_cases by blast
      then show ?thesis
      proof cases
        case outer
        from z [unfolded red outer] False obtain s1 where
          s1: "rb_insert_fix (Suc fuel) node s = rb_insert_fix fuel node s1"
          "zrep s1 C2 (nd d2 ?t p Black (nd d2 sib g Red unc))" "keeps (addrs (plug C ?t)) s s1"
          unfolding red outer by (rule insert_fix_outer)
        have "fix_ok fuel node s1 (plug (F d2 p Black (nd d2 sib g Red unc) # C2) ?t)"
          by (rule Suc.IH [where n = n]) (use s1(2) h sib unc False len in \<open>auto simp: zrep_Cons\<close>)
        from s1(1,3) this show ?thesis
          by (rule fix_ok_step) (simp add: red outer inorder_plug nd_inorder split: side.split)
      next
        case inner
        obtain x' y' where t: "?t = nd d2 x' node Red y'" using side_cases [of d d2] by (auto simp: nd_other)
        from z [unfolded red inner t] False obtain s1 where
          s1: "rb_insert_fix (Suc fuel) node s = rb_insert_fix fuel p s1"
          "zrep s1 C2 (nd d2 (nd d2 sib p Red x') node Black (nd d2 y' g Red unc))" "keeps (addrs (plug C ?t)) s s1"
          unfolding red inner t by (rule insert_fix_inner)
        have "fix_ok fuel p s1 (plug (F d2 node Black (nd d2 y' g Red unc) # C2) (nd d2 sib p Red x'))"
          by (rule Suc.IH [where n = n]) (use s1(2) h [unfolded t] sib unc False len in \<open>auto simp: zrep_Cons\<close>)
        from s1(1,3) this show ?thesis
          by (rule fix_ok_step) (simp add: red inner t inorder_plug nd_inorder split: side.split)
      qed
    qed
  qed
qed simp

subsection \<open>Linking and colouring\<close>

lemma insert_color_ok:
  assumes z: "zrep s C (N E node Red E)" and ok: "cok C 0" and fuel: "length C < fuel"
  shows "\<exists>s' T. aosl_rb_insert_color fuel node s = Ret s' \<and> trep s' T \<and> rb_tree T
    \<and> inorder T = cpre C @ node # cpost C \<and> count s' = count s + 1
    \<and> (\<forall>p. p \<notin> insert node (caddrs C) \<longrightarrow> heap s' p = heap s p)"
proof -
  from z have "zrep s C (nd L E node Red E)" by simp
  from insert_fix_ok [OF this _ ok fuel] obtain s1 T1 m where
    s1: "rb_insert_fix fuel node s = Ret s1" "trep s1 T1" "rbh T1 m" "T1 \<noteq> E"
    "inorder T1 = cpre C @ node # cpost C" "keeps (insert node (caddrs C)) s s1"
    by (auto simp: fix_ok_def inorder_plug caddrs_seq)
  then obtain l a c r where T1: "T1 = nd L l a c r" by (cases T1) auto
  with s1(2) have "zrep s1 [] (nd L l a c r)" and root: "root_node s1 = a" by (simp_all add: trep_def)
  from set_color_zrep [OF this(1), of Black] obtain s2 where
    s2: "rb_set_color a Black s1 = Ret s2" "trep s2 (nd L l a Black r)" "keeps (addrs T1) s1 s2"
    by (auto simp: T1)
  have "addrs T1 = addrs (plug C (N E node Red E))" using s1(5) by (simp add: inorder_plug)
  then have "addrs T1 = insert node (caddrs C)" by (simp add: addrs_plug)
  with s2(3) s1(6) have k: "keeps (insert node (caddrs C)) s s2" by (auto intro: keeps_trans)
  have "rbh (nd L l a Black r) (case c of Red \<Rightarrow> Suc m | Black \<Rightarrow> m)" using s1(3) T1 by (cases c) simp_all
  then have "rb_tree (nd L l a Black r)" by (auto simp: rb_tree_def)
  moreover have "trep (s2\<lparr>count := count s2 + 1\<rparr>) (nd L l a Black r)" using s2(2) by (simp add: trep_def)
  moreover have "inorder (nd L l a Black r) = cpre C @ node # cpost C" using s1(5) T1 by simp
  ultimately show ?thesis using s1(1) s2(1) root k unfolding keeps_def
    by (intro exI [of _ "s2\<lparr>count := count s2 + 1\<rparr>"] exI [of _ "nd L l a Black r"]) (simp add: aosl_rb_insert_color_def)
qed

fun link_of :: "ctx \<Rightarrow> rb_link" where
  "link_of [] = Root_Link"
| "link_of (F d a c sib # C) = Child_Link a d"

lemma load_link_of: "zrep s C t \<Longrightarrow> load_link (link_of C) s = Ret (root_ptr t)"
proof (cases C)
  case (Cons f C1)
  moreover assume "zrep s C t"
  ultimately show ?thesis using zrep_deref_parent by (cases f) (fastforce simp: load_link_def)
qed (simp add: load_link_def trep_def)

lemma link_node_ok:
  assumes z: "zrep s C E" and new: "node \<notin> caddrs C" and mem: "heap s node \<noteq> None"
  shows "\<exists>s'. rb_link_node node (cpar C) (link_of C) s = Ret s' \<and> zrep s' C (N E node Red E)
    \<and> keeps (insert node (caddrs C)) s s'"
proof -
  have n0: "node \<noteq> 0" using mem z by (auto simp: zrep_unfold intro: gr0I)
  let ?v = "\<lparr>rb_parent = cpar C, rb_color = Red, rb_right = 0, rb_left = 0\<rparr>"
  let ?s1 = "s\<lparr>heap := (heap s)(node \<mapsto> ?v)\<rparr>"
  have v: "?v = cell L (cpar C) Red 0 0" by (simp add: cell_eq)
  from mem have u: "upd_node node (\<lambda>_. ?v) s = Ret ?s1" by (auto simp: upd_node_def deref_def)
  show ?thesis
  proof (cases C)
    case Nil
    with u z n0 show ?thesis
      by (auto simp: rb_link_node_def store_link_def zrep_unfold keeps_def cell_eq)
  next
    case (Cons f C1)
    obtain d a c sib where f: "f = F d a c sib" by (cases f)
    let ?s2 = "?s1\<lparr>heap := (heap ?s1)(a \<mapsto> cell d (cpar C1) c node (root_ptr sib))\<rparr>"
    have cell: "heap s a = Some (cell d (cpar C1) c 0 (root_ptr sib))" using z Cons f by (auto simp: zrep_unfold)
    have "rb_link_node node (cpar C) (link_of C) s = Ret ?s2"
      using u Cons f cell new by (simp add: rb_link_node_def store_link_def set_child_def upd_node_def deref_def)
    moreover have "zrep ?s2 C (N E node Red E)"
      using z n0 new zrep_nonzero [OF z] Cons f by (auto simp: zrep_unfold cell_eq)
    moreover have "keeps (insert node (caddrs C)) s ?s2" using Cons f by (simp add: keeps_def)
    ultimately show ?thesis by blast
  qed
qed

subsection \<open>Search\<close>

text \<open>
  A comparison function fits an ordered sequence of nodes when its sign does not fall along it:
  first the nodes before the key, then the equal ones, then those after it.
\<close>

definition ordered_by :: "(ptr \<Rightarrow> int) \<Rightarrow> ptr list \<Rightarrow> bool" where
  "ordered_by cmp xs \<longleftrightarrow> sorted_wrt (\<lambda>p q. sgn (cmp p) \<le> sgn (cmp q)) xs"

lemma ordered_by_append: "ordered_by cmp (xs @ p # ys) \<longleftrightarrow> ordered_by cmp xs \<and> ordered_by cmp ys
    \<and> (\<forall>q \<in> set xs. sgn (cmp q) \<le> sgn (cmp p)) \<and> (\<forall>q \<in> set ys. sgn (cmp p) \<le> sgn (cmp q))
    \<and> (\<forall>q \<in> set xs. \<forall>r \<in> set ys. sgn (cmp q) \<le> sgn (cmp r))"
  by (auto simp: ordered_by_def sorted_wrt_append)

lemma sgn_pos_le: "0 < (x :: int) \<Longrightarrow> sgn x \<le> sgn y \<Longrightarrow> 0 < y"
  and sgn_nonpos_le: "(y :: int) \<le> 0 \<Longrightarrow> sgn x \<le> sgn y \<Longrightarrow> x \<le> 0"
  and sgn_neg_le: "(y :: int) < 0 \<Longrightarrow> sgn x \<le> sgn y \<Longrightarrow> x < 0"
  by (auto simp: sgn_if split: if_splits)

definition last_or_null :: "ptr list \<Rightarrow> ptr" where
  "last_or_null xs = (if xs = [] then 0 else last xs)"

definition first_or_null :: "ptr list \<Rightarrow> ptr" where
  "first_or_null xs = (case xs of [] \<Rightarrow> 0 | x # _ \<Rightarrow> x)"

lemma find_links_ok:
  "zrep s C t \<Longrightarrow> height t < fuel \<Longrightarrow> ordered_by cmp (inorder t) \<Longrightarrow>
   (\<forall>p \<in> set (cpre C). cmp p \<le> 0) \<Longrightarrow> (\<forall>p \<in> set (cpost C). 0 < cmp p) \<Longrightarrow>
   \<exists>C'. find_rb_links_from fuel cmp s (link_of C) (cpar C) (last_or_null (cpre C)) (first_or_null (cpost C))
      = Ret (link_of C', cpar C', last_or_null (cpre C'), first_or_null (cpost C'))
     \<and> plug C' E = plug C t \<and> length C' \<le> length C + height t
     \<and> (\<forall>p \<in> set (cpre C'). cmp p \<le> 0) \<and> (\<forall>p \<in> set (cpost C'). 0 < cmp p)"
proof (induction fuel arbitrary: C t)
  case (Suc fuel)
  show ?case
  proof (cases t)
    case E
    with Suc.prems load_link_of [OF Suc.prems(1)] show ?thesis by (intro exI [of _ C]) simp
  next
    case (N l p c r)
    have "p \<noteq> 0" using zrep_nonzero [OF Suc.prems(1)] N by auto
    with load_link_of [OF Suc.prems(1)] N have
      step: "find_rb_links_from (Suc fuel) cmp s (link_of C) (cpar C) prev nxt =
        (if 0 < cmp p then find_rb_links_from fuel cmp s (Child_Link p L) p prev p
         else find_rb_links_from fuel cmp s (Child_Link p R) p p nxt)" for prev nxt by simp
    have ord: "ordered_by cmp (inorder l)" "ordered_by cmp (inorder r)"
      "\<forall>q \<in> addrs l. sgn (cmp q) \<le> sgn (cmp p)" "\<forall>q \<in> addrs r. sgn (cmp p) \<le> sgn (cmp q)"
      using Suc.prems(3) N by (auto simp: ordered_by_append)
    show ?thesis
    proof (cases "0 < cmp p")
      case True
      have z: "zrep s (F L p c r # C) l" using Suc.prems(1) N by (simp add: zrep_Cons)
      have post: "\<forall>q \<in> set (cpost (F L p c r # C)). 0 < cmp q"
        using Suc.prems(5) ord(4) True by (auto intro: sgn_pos_le [OF True])
      from Suc.IH [OF z _ ord(1) _ post] Suc.prems(2,4) N obtain C' where
        "find_rb_links_from fuel cmp s (Child_Link p L) p (last_or_null (cpre C)) p
          = Ret (link_of C', cpar C', last_or_null (cpre C'), first_or_null (cpost C'))"
        "plug C' E = plug C t" "length C' \<le> length (F L p c r # C) + height l"
        "\<forall>p \<in> set (cpre C'). cmp p \<le> 0" "\<forall>p \<in> set (cpost C'). 0 < cmp p"
        by (auto simp: first_or_null_def)
      with True N show ?thesis by (intro exI [of _ C']) (auto simp: step simp del: find_rb_links_from.simps)
    next
      case False
      have z: "zrep s (F R p c l # C) r" using Suc.prems(1) N by (simp add: zrep_Cons)
      have pre: "\<forall>q \<in> set (cpre (F R p c l # C)). cmp q \<le> 0"
        using Suc.prems(4) ord(3) False by (auto intro: sgn_nonpos_le [of "cmp p"])
      from Suc.IH [OF z _ ord(2) pre] Suc.prems(2,5) N obtain C' where
        "find_rb_links_from fuel cmp s (Child_Link p R) p p (first_or_null (cpost C))
          = Ret (link_of C', cpar C', last_or_null (cpre C'), first_or_null (cpost C'))"
        "plug C' E = plug C t" "length C' \<le> length (F R p c l # C) + height r"
        "\<forall>p \<in> set (cpre C'). cmp p \<le> 0" "\<forall>p \<in> set (cpost C'). 0 < cmp p"
        by (auto simp: last_or_null_def)
      with False N show ?thesis by (intro exI [of _ C']) (auto simp: step simp del: find_rb_links_from.simps)
    qed
  qed
qed simp

lemma takeWhile_split:
  assumes "\<forall>x \<in> set xs. P x" and "\<forall>x \<in> set ys. \<not> P x"
  shows "takeWhile P (xs @ ys) = xs" and "dropWhile P (xs @ ys) = ys"
  using assms by (induction xs) (cases ys; auto)+

lemma vfind_links_ok:
  assumes t: "trep s T" and ord: "ordered_by cmp (inorder T)" and fuel: "height T < fuel"
  obtains C where "aosl_vfind_rb_links fuel cmp s = Ret (link_of C, cpar C, last_or_null (cpre C), first_or_null (cpost C))"
    "zrep s C E" "plug C E = T" "length C < fuel"
    "cpre C = takeWhile (\<lambda>p. cmp p \<le> 0) (inorder T)" "cpost C = dropWhile (\<lambda>p. cmp p \<le> 0) (inorder T)"
proof -
  from find_links_ok [of s "[]" T fuel cmp] t ord fuel obtain C where
    C: "aosl_vfind_rb_links fuel cmp s = Ret (link_of C, cpar C, last_or_null (cpre C), first_or_null (cpost C))"
    "plug C E = T" "length C \<le> height T" "\<forall>p \<in> set (cpre C). cmp p \<le> 0" "\<forall>p \<in> set (cpost C). 0 < cmp p"
    by (auto simp: aosl_vfind_rb_links_def last_or_null_def first_or_null_def)
  have "inorder T = cpre C @ cpost C" using inorder_plug [of C E] C(2) by simp
  moreover have "\<forall>p \<in> set (cpost C). \<not> cmp p \<le> 0" using C(5) by auto
  note tw = takeWhile_split [OF C(4) this]
  ultimately show thesis using C(1-3) t fuel tw by (intro that [of C]) (simp_all add: zrep_def)
qed

lemma insert_node_ok:
  assumes t: "trep s T" "rb_tree T" and ord: "ordered_by cmp (inorder T)" and fuel: "height T < fuel"
    and new: "node \<notin> addrs T" "heap s node \<noteq> None"
  shows "\<exists>s' T'. aosl_rb_insert_node fuel cmp node s = Ret s' \<and> trep s' T' \<and> rb_tree T'
    \<and> inorder T' = takeWhile (\<lambda>p. cmp p \<le> 0) (inorder T) @ node # dropWhile (\<lambda>p. cmp p \<le> 0) (inorder T)
    \<and> count s' = count s + 1 \<and> (\<forall>p. p \<notin> insert node (addrs T) \<longrightarrow> heap s' p = heap s p)"
proof -
  from vfind_links_ok [OF t(1) ord fuel] obtain C where
    C: "aosl_vfind_rb_links fuel cmp s = Ret (link_of C, cpar C, last_or_null (cpre C), first_or_null (cpost C))"
    "zrep s C E" "plug C E = T" "length C < fuel"
    "cpre C = takeWhile (\<lambda>p. cmp p \<le> 0) (inorder T)" "cpost C = dropWhile (\<lambda>p. cmp p \<le> 0) (inorder T)" by blast
  have A: "caddrs C = addrs T" using addrs_plug [of C E] C(3) by simp
  from link_node_ok [OF C(2) _ new(2)] new(1) A obtain s1 where
    s1: "rb_link_node node (cpar C) (link_of C) s = Ret s1" "zrep s1 C (N E node Red E)" "keeps (insert node (caddrs C)) s s1"
    by auto
  have "cok C 0" using rbh_unplug [of C E] t(2) C(3) by (auto simp: rb_tree_def)
  from insert_color_ok [OF s1(2) this C(4)] C(1,5,6) s1(1,3) A show ?thesis
    by (auto simp: aosl_rb_insert_node_def rb_insert_def keeps_def)
qed

text \<open>The search returns the first node on its path that compares equal, and null exactly when none does.\<close>

lemma find_node_ok:
  "zrep s C t \<Longrightarrow> height t < fuel \<Longrightarrow> ordered_by cmp (inorder t) \<Longrightarrow>
   \<exists>p. find_rb_node_from fuel cmp s (root_ptr t) = Ret p
     \<and> (p = 0 \<and> (\<forall>q \<in> addrs t. cmp q \<noteq> 0) \<or> p \<in> addrs t \<and> cmp p = 0)"
proof (induction fuel arbitrary: C t)
  case (Suc fuel)
  show ?case
  proof (cases t)
    case (N l p c r)
    have p0: "p \<noteq> 0" using zrep_nonzero [OF Suc.prems(1)] N by auto
    have ord: "ordered_by cmp (inorder l)" "ordered_by cmp (inorder r)"
      "\<forall>q \<in> addrs l. sgn (cmp q) \<le> sgn (cmp p)" "\<forall>q \<in> addrs r. sgn (cmp p) \<le> sgn (cmp q)"
      using Suc.prems(3) N by (auto simp: ordered_by_append)
    have zl: "zrep s (F L p c r # C) l" and zr: "zrep s (F R p c l # C) r" and d: "deref s p = Ret (cell L (cpar C) c (root_ptr l) (root_ptr r))"
      using Suc.prems(1) N zrep_deref [of s C L l p c r] by (simp_all add: zrep_Cons)
    consider "cmp p = 0" | "0 < cmp p" | "cmp p < 0" by linarith
    then show ?thesis
    proof cases
      case 2
      then have "\<forall>q \<in> addrs r. cmp q \<noteq> 0" by (metis ord(4) sgn_pos_le less_irrefl)
      with Suc.IH [OF zl _ ord(1)] Suc.prems(2) N 2 p0 d show ?thesis by auto
    next
      case 3
      then have "\<forall>q \<in> addrs l. cmp q \<noteq> 0" by (metis ord(3) sgn_neg_le less_irrefl)
      with Suc.IH [OF zr _ ord(2)] Suc.prems(2) N 3 p0 d show ?thesis by auto
    qed (use N p0 in auto)
  qed simp
qed simp

end
