(* ===== verification/Rb_Erase.thy ===== *)
theory Rb_Erase
  imports Rb_Insert
begin

text \<open>
  Removal from the red-black tree: the rebalancing loop of \<^verbatim>\<open>__rb_erase_color\<close>, the two ways of
  unlinking a node, and \<^verbatim>\<open>aosl_rb_erase\<close> and \<^verbatim>\<open>aosl_rb_remove\<close> as wholes.
\<close>

declare rb_erase_fix.simps(2) [simp del]

lemmas addrs_ac = addrs_plug insert_commute Un_ac

lemma io_plug: "inorder x = inorder y \<Longrightarrow> inorder (plug C x) = inorder (plug C y)"
  by (simp add: inorder_plug)

lemma io_frame: "inorder sib = inorder sib' \<Longrightarrow> inorder (plug (F d p c sib # C) t) = inorder (plug (F d p c' sib' # C) t)"
  by (cases d) (simp_all add: inorder_plug)

subsection \<open>One round of the loop\<close>

text \<open>After the first part the sibling is black, and the position is still one black node short.\<close>

lemma erase_red_sibling_ok:
  assumes z: "zrep s (F d p c sib # C) t" and ok: "cok (F d p c sib # C) (Suc n)"
  obtains s' c' nl ob nr C' where
    "erase_red_sibling d p (root_ptr sib) s = Ret (ob, s')" "zrep s' (F d p c' (nd d nl ob Black nr) # C') t"
    "cok (F d p c' (nd d nl ob Black nr) # C') (Suc n)" "c' = Red \<or> C' = C"
    "inorder (plug (F d p c' (nd d nl ob Black nr) # C') t) = inorder (plug (F d p c sib # C) t)"
    "keeps (addrs (plug (F d p c sib # C) t)) s s'"
proof -
  let ?A = "addrs (plug (F d p c sib # C) t)"
  have rb: "rbh sib (Suc n)" using ok by (cases c) auto
  then obtain sl ob oc sr where sib: "sib = nd d sl ob oc sr"
    by (cases sib rule: rbt_side_cases [where d = d]) auto
  have zs: "zrep s (F (other d) p c t # C) sib" using z by (simp add: zrep_Cons nd_other)
  note dob = zrep_deref [OF zs [unfolded sib]]
  show thesis
  proof (cases oc)
    case Black
    have "erase_red_sibling d p (root_ptr sib) s = Ret (ob, s)"
      using dob sib Black by (simp add: erase_red_sibling_def)
    with z ok sib Black show thesis by (intro that [of ob s c sl sr C]) auto
  next
    case Red
    with ok sib have c: "c = Black" by (cases c) auto
    from set_color_zrep [OF zs [unfolded sib], of Black] obtain s1 where
      s1: "rb_set_color ob Black s = Ret s1" "zrep s1 C (nd d t p Black (nd d sl ob Black sr))" "keeps ?A s s1"
      by (auto simp: sib c zrep_Cons nd_other addrs_ac)
    from set_color_zrep [OF s1(2), of Red] obtain s2 where
      s2: "rb_set_color p Red s1 = Ret s2" "zrep s2 C (nd d t p Red (nd d sl ob Black sr))" "keeps ?A s1 s2"
      by (auto simp: sib c addrs_ac)
    from rotate_zrep [OF s2(2)] obtain s3 where
      s3: "rb_rotate d p s2 = Ret s3" "zrep s3 C (nd d (nd d t p Red sl) ob Black sr)" "keeps ?A s2 s3"
      by (auto simp: sib c addrs_ac)
    have z3: "zrep s3 (F d p Red sl # F d ob Black sr # C) t" using s3(2) by (simp add: zrep_Cons)
    have h: "rbh sl (Suc n)" "rbh sr (Suc n)" "\<not> isred sl" using rb sib Red by auto
    then obtain nl o2 nr where sl: "sl = nd d nl o2 Black nr"
      by (cases sl rule: rbt_side_cases [where d = d]) (auto elim: color.exhaust, metis color.exhaust)
    have "erase_red_sibling d p (root_ptr sib) s = Ret (o2, s3)"
      using dob sib Red s1(1) s2(1) s3(1) zrep_deref_parent [OF z3] sl by (simp add: erase_red_sibling_def)
    moreover have "inorder (plug (F d p Red sl # F d ob Black sr # C) t) = inorder (plug (F d p c sib # C) t)"
      using inorder_rotate [of d t p Red sl ob Black sr Black Red] by (auto simp: sib c Red intro: io_plug)
    ultimately show thesis
      using z3 ok sib c Red h sl keeps_trans [OF keeps_trans [OF s1(3) s2(3)] s3(3)]
      by (intro that [of o2 s3 Red nl nr "F d ob Black sr # C"]) simp_all
  qed
qed

text \<open>The second part turns a red inner nephew into a red outer one.\<close>

lemma erase_inner_nephew_ok:
  assumes z: "zrep s (F d p c (nd d nl ob Black nr) # C) t" and h: "rbh nl n" "rbh nr n" and red: "isred nl \<or> isred nr"
  obtains s' a q k x f y where
    "erase_inner_nephew d p ob s = Ret (q, s')" "zrep s' (F d p c (nd d a q Black (nd k x f Red y)) # C) t"
    "rbh a n" "rbh (nd k x f Red y) n"
    "inorder (nd d a q Black (nd k x f Red y)) = inorder (nd d nl ob Black nr)"
    "keeps (addrs (plug (F d p c (nd d nl ob Black nr) # C) t)) s s'"
proof -
  let ?A = "addrs (plug (F d p c (nd d nl ob Black nr) # C) t)"
  let ?C = "F (other d) p c t # C"
  have zs: "zrep s ?C (nd d nl ob Black nr)" using z by (simp add: zrep_Cons nd_other)
  note dob = zrep_deref [OF zs]
  have zr: "zrep s (F (other d) ob Black nl # ?C) nr" and zl: "zrep s (F d ob Black nr # ?C) nl"
    using zs by (simp_all add: zrep_Cons nd_other)
  show thesis
  proof (cases "isred nr")
    case True
    then obtain x f y where nr: "nr = nd L x f Red y" by (cases nr) auto
    have "erase_inner_nephew d p ob s = Ret (ob, s)"
      using dob zrep_node_is_red [OF zr] True by (simp add: erase_inner_nephew_def)
    with z h nr show thesis by (intro that [of ob s nl L x f y]) auto
  next
    case False
    with red obtain a q b where nl: "nl = nd d a q Red b"
      by (cases nl rule: rbt_side_cases [where d = d]) auto
    have q0: "q \<noteq> 0" using zrep_nonzero [OF zl] nl by auto
    from set_color_zrep [OF zl [unfolded nl], of Black] obtain s1 where
      s1: "rb_set_color q Black s = Ret s1" "zrep s1 ?C (nd d (nd d a q Black b) ob Black nr)" "keeps ?A s s1"
      by (auto simp: nl zrep_Cons nd_other addrs_ac)
    from set_color_zrep [OF s1(2), of Red] obtain s2 where
      s2: "rb_set_color ob Red s1 = Ret s2" "zrep s2 ?C (nd d (nd d a q Black b) ob Red nr)" "keeps ?A s1 s2"
      by (auto simp: nl nd_other addrs_ac)
    from s2(2) have "zrep s2 ?C (nd (other d) nr ob Red (nd (other d) b q Black a))" by (simp add: nd_other)
    from rotate_zrep [OF this] obtain s3 where
      s3: "rb_rotate (other d) ob s2 = Ret s3" "zrep s3 ?C (nd d a q Black (nd d b ob Red nr))" "keeps ?A s2 s3"
      by (auto simp: nl nd_other addrs_ac)
    have z3: "zrep s3 (F d p c (nd d a q Black (nd d b ob Red nr)) # C) t" using s3(2) by (simp add: zrep_Cons nd_other)
    have "erase_inner_nephew d p ob s = Ret (q, s3)"
      using dob zrep_node_is_red [OF zr] False nl q0 s1(1) s2(1) s3(1) zrep_deref_parent [OF z3]
      by (simp add: erase_inner_nephew_def)
    moreover have "inorder (nd d a q Black (nd d b ob Red nr)) = inorder (nd d nl ob Black nr)"
      using inorder_rotate [of d a q Black b ob Red nr] by (simp add: nl nd_inorder split: side.split)
    ultimately show thesis using z3 h False nl keeps_trans [OF keeps_trans [OF s1(3) s2(3)] s3(3)]
      by (intro that [of q s3 a d b ob nr]) simp_all
  qed
qed

text \<open>The last part gives the position the black node it lacks.\<close>

lemma erase_finish_ok:
  assumes z: "zrep s (F d p c (nd d a q Black (nd k x f Red y)) # C) t"
  obtains s' where "erase_finish d p q s = Ret s'" "zrep s' C (nd d (nd d t p Black a) q c (nd k x f Black y))"
    "keeps (addrs (plug (F d p c (nd d a q Black (nd k x f Red y)) # C) t)) s s'"
proof -
  let ?A = "addrs (plug (F d p c (nd d a q Black (nd k x f Red y)) # C) t)"
  let ?C = "F (other d) p c t # C"
  have zq: "zrep s ?C (nd d a q Black (nd k x f Red y))" using z by (simp add: zrep_Cons nd_other)
  from set_color_zrep [OF zq, of c] obtain s1 where
    s1: "rb_set_color q c s = Ret s1" "zrep s1 C (nd d t p c (nd d a q c (nd k x f Red y)))" "keeps ?A s s1"
    by (auto simp: zrep_Cons nd_other addrs_ac)
  from set_color_zrep [OF s1(2), of Black] obtain s2 where
    s2: "rb_set_color p Black s1 = Ret s2" "zrep s2 C (nd d t p Black (nd d a q c (nd k x f Red y)))" "keeps ?A s1 s2"
    by (auto simp: addrs_ac)
  have z2: "zrep s2 (F (other d) p Black t # C) (nd d a q c (nd k x f Red y))"
    and zf: "zrep s2 (F (other d) q c a # F (other d) p Black t # C) (nd k x f Red y)"
    using s2(2) by (simp_all add: zrep_Cons nd_other)
  have f0: "f \<noteq> 0" using zrep_nonzero [OF zf] by auto
  from set_color_zrep [OF zf, of Black] obtain s3 where
    s3: "rb_set_color f Black s2 = Ret s3" "zrep s3 C (nd d t p Black (nd d a q c (nd k x f Black y)))" "keeps ?A s2 s3"
    by (auto simp: zrep_Cons nd_other addrs_ac)
  from rotate_zrep [OF s3(2)] obtain s4 where
    s4: "rb_rotate d p s3 = Ret s4" "zrep s4 C (nd d (nd d t p Black a) q c (nd k x f Black y))" "keeps ?A s3 s4"
    by (auto simp: addrs_ac)
  have "erase_finish d p q s = Ret s4"
    using zrep_deref_parent [OF z] s1(1) s2(1) zrep_deref [OF z2] f0 s3(1) s4(1) by (simp add: erase_finish_def)
  then show thesis using s4(2) keeps_trans [OF keeps_trans [OF keeps_trans [OF s1(3) s2(3)] s3(3)] s4(3)] by (rule that)
qed

subsection \<open>The loop\<close>

fun blacken :: "rbt \<Rightarrow> rbt" where
  "blacken E = E"
| "blacken (N l a c r) = N l a Black r"

lemma blacken_nd [simp]: "blacken (nd d x a c y) = nd d x a Black y"
  by (cases d) simp_all

lemma blacken_inorder [simp]: "inorder (blacken t) = inorder t" and blacken_E [simp]: "blacken t = E \<longleftrightarrow> t = E"
  and blacken_not_red [simp]: "\<not> isred (blacken t)"
  by (cases t; simp)+

text \<open>One black node short of \<open>Suc n\<close>, to be made up by colouring the root black if it is red.\<close>

definition short :: "rbt \<Rightarrow> nat \<Rightarrow> bool" where
  "short t n \<longleftrightarrow> (if isred t then rbh (blacken t) (Suc n) else rbh t n)"

definition erase_fix_done :: "nat \<Rightarrow> ptr \<Rightarrow> ptr \<Rightarrow> rb_root \<Rightarrow> rbt \<Rightarrow> bool" where
  "erase_fix_done fuel node par s T \<longleftrightarrow> (\<exists>s' C t. rb_erase_fix fuel node par s = Ret (root_ptr t, s') \<and> zrep s' C t
     \<and> rb_tree (plug C (blacken t)) \<and> inorder (plug C t) = inorder T \<and> keeps (addrs T) s s')"

lemma erase_fix_done_step:
  assumes "rb_erase_fix (Suc fuel) node par s = rb_erase_fix fuel node' par' s1" and "keeps (addrs T) s s1"
    and "erase_fix_done fuel node' par' s1 T'" and "inorder T' = inorder T"
  shows "erase_fix_done (Suc fuel) node par s T"
  using assms unfolding erase_fix_done_def by (auto intro: keeps_trans)

lemma rb_tree_plug:
  assumes "rbh t n" and "cok C n" and "\<not> isred t"
  shows "rb_tree (plug C t)"
  using rbh_plug [OF assms(1,2)] isred_plug [OF _ assms(2), of t] assms(3) by (auto simp: rb_tree_def)

lemma rb_tree_blacken:
  assumes "rbh t n"
  shows "rb_tree (blacken t)"
proof (cases t)
  case (N l a c r)
  with assms have "rbh (blacken t) (case c of Red \<Rightarrow> Suc n | Black \<Rightarrow> n)" by (cases c) simp_all
  then show ?thesis unfolding rb_tree_def by auto
qed (auto simp: rb_tree_def)

text \<open>A round with a black sibling \<open>ob\<close>, by the colours of its children.\<close>

lemma erase_fix_round:
  assumes z: "zrep s (F d p c sib # C) t" and t: "\<not> isred t" and ok: "cok (F d p c sib # C) (Suc n)"
    and sibling: "erase_red_sibling d p (root_ptr sib) s = Ret (ob, s1)"
    and z1: "zrep s1 (F d p c1 (nd d nl ob Black nr) # C1) t"
  shows "rb_erase_fix (Suc fuel) (root_ptr t) p s =
    (if isred nl \<or> isred nr then ebind (erase_inner_nephew d p ob s1) (\<lambda>(oth, s).
        ebind (erase_finish d p oth s) (\<lambda>s. Ret (root_node s, s)))
     else ebind (rb_set_color ob Red s1) (\<lambda>s. ebind (deref s p) (\<lambda>p'. rb_erase_fix fuel p (rb_parent p') s)))"
proof -
  have "rbh sib (Suc n)" using ok by (cases c) auto
  then have sib: "sib \<noteq> E" by (rule rbh_Suc_nonempty)
  have root: "root_ptr t \<noteq> root_node s"
  proof -
    have r: "root_node s = croot C p" using z by (simp add: zrep_unfold)
    have "croot C p \<in> insert p (caddrs C)" by (induction C arbitrary: p rule: caddrs.induct) auto
    moreover have "root_ptr t \<notin> insert p (caddrs C)"
    proof (cases "t = E")
      case True
      with zrep_nonzero [OF z] show ?thesis by auto
    next
      case False
      from root_ptr_in [OF this] z show ?thesis by (auto simp: zrep_unfold)
    qed
    ultimately show ?thesis using r by metis
  qed
  have side: "(if rb_left (cell d (cpar C) c (root_ptr t) (root_ptr sib)) = root_ptr t then L else R) = d"
    using zrep_side [OF z] sib by simp
  have dob: "deref s1 ob = Ret (cell d p Black (root_ptr nl) (root_ptr nr))"
    using z1 zrep_deref [of s1 "F (other d) p c1 t # C1" d nl ob Black nr] by (simp add: zrep_Cons nd_other)
  have zl: "zrep s1 (F d ob Black nr # F (other d) p c1 t # C1) nl"
    and zr: "zrep s1 (F (other d) ob Black nl # F (other d) p c1 t # C1) nr"
    using z1 by (simp_all add: zrep_Cons nd_other)
  note red = zrep_node_is_red [OF zl] zrep_node_is_red [OF zr]
  have some: "ebind (node_is_red s1 (rb_left (cell d p Black (root_ptr nl) (root_ptr nr)))) (\<lambda>l.
      ebind (if l then Ret True else node_is_red s1 (rb_right (cell d p Black (root_ptr nl) (root_ptr nr)))) g)
      = g (isred nl \<or> isred nr)" for g :: "bool \<Rightarrow> (ptr \<times> rb_root) exec"
    using red by (cases d) auto
  show ?thesis
    using zrep_node_is_red [OF z] t root zrep_deref_parent [OF z] side sibling dob some
    by (simp add: rb_erase_fix.simps(2) Let_def)
qed

lemma erase_fix_ok:
  assumes "zrep s C t" and "short t n" and "cok C (Suc n)" and "0 < fuel" and "isred t \<or> length C < fuel"
  shows "erase_fix_done fuel (root_ptr t) (cpar C) s (plug C t)"
  using assms
proof (induction fuel arbitrary: s C t n)
  case (Suc fuel)
  note z = Suc.prems(1)
  show ?case
  proof (cases "isred t \<or> C = []")
    case True
    then have "rb_erase_fix (Suc fuel) (root_ptr t) (cpar C) s = Ret (root_ptr t, s)"
      using zrep_node_is_red [OF z] z by (auto simp: rb_erase_fix.simps(2) trep_def)
    moreover have "rb_tree (plug C (blacken t))"
    proof (cases "isred t")
      case True
      with Suc.prems(2,3) show ?thesis by (intro rb_tree_plug [of _ "Suc n"]) (simp_all add: short_def)
    next
      case False
      with \<open>isred t \<or> C = []\<close> Suc.prems(2) show ?thesis by (simp add: short_def rb_tree_blacken)
    qed
    ultimately show ?thesis using z unfolding erase_fix_done_def by (intro exI [of _ s] exI [of _ C] exI [of _ t]) simp
  next
    case False
    then obtain d p c sib C1 where C: "C = F d p c sib # C1" and t: "\<not> isred t" by (cases C) (auto, metis frame.exhaust)
    let ?T = "plug C t"
    from z [unfolded C] Suc.prems(3) [unfolded C] obtain s1 c1 nl ob nr C2 where
      s1: "erase_red_sibling d p (root_ptr sib) s = Ret (ob, s1)" "zrep s1 (F d p c1 (nd d nl ob Black nr) # C2) t"
      "cok (F d p c1 (nd d nl ob Black nr) # C2) (Suc n)" "c1 = Red \<or> C2 = C1"
      "inorder (plug (F d p c1 (nd d nl ob Black nr) # C2) t) = inorder ?T" "keeps (addrs ?T) s s1"
      unfolding C by (rule erase_red_sibling_ok)
    have h: "rbh nl n" "rbh nr n" "rbh t n" using s1(3) Suc.prems(2) t by (cases c1; simp add: short_def)+
    have addr: "addrs (plug (F d p c1 (nd d nl ob Black nr) # C2) t) = addrs ?T" using s1(5) by simp
    note round = erase_fix_round [OF z [unfolded C] t Suc.prems(3) [unfolded C] s1(1,2), of fuel]
    show ?thesis
    proof (cases "isred nl \<or> isred nr")
      case True
      from s1(2) h(1,2) True obtain s2 a q k x f y where
        s2: "erase_inner_nephew d p ob s1 = Ret (q, s2)" "zrep s2 (F d p c1 (nd d a q Black (nd k x f Red y)) # C2) t"
        "rbh a n" "rbh (nd k x f Red y) n" "inorder (nd d a q Black (nd k x f Red y)) = inorder (nd d nl ob Black nr)"
        "keeps (addrs ?T) s1 s2" unfolding addr [symmetric] by (rule erase_inner_nephew_ok)
      have io2: "inorder (plug (F d p c1 (nd d a q Black (nd k x f Red y)) # C2) t) = inorder ?T"
        using io_frame [OF s2(5)] s1(5) by metis
      from s2(2) obtain s3 where
        s3: "erase_finish d p q s2 = Ret s3" "zrep s3 C2 (nd d (nd d t p Black a) q c1 (nd k x f Black y))"
        "keeps (addrs ?T) s2 s3" unfolding io2 [symmetric] by (rule erase_finish_ok)
      let ?u = "nd d (nd d t p Black a) q c1 (nd k x f Black y)"
      have io3: "inorder (plug C2 ?u) = inorder ?T"
        using io2 by (auto simp: nd_inorder inorder_plug split: side.splits)
      have ht: "rbh ?u (case c1 of Red \<Rightarrow> Suc n | Black \<Rightarrow> Suc (Suc n))" using h(3) s2(3,4) by (cases c1) auto
      have "\<exists>m. rbh (plug C2 ?u) m" using s1(3) ht by (intro rbh_plug [OF ht]) (cases c1; auto)+
      then have "rb_tree (blacken (plug C2 ?u))" using rb_tree_blacken by blast
      moreover have "trep s3 (plug C2 ?u)" "root_node s3 = root_ptr (plug C2 ?u)" using s3(2) by (auto simp: zrep_def trep_def)
      moreover have "rb_erase_fix (Suc fuel) (root_ptr t) (cpar C) s = Ret (root_node s3, s3)"
        using round True C s2(1) s3(1) by simp
      ultimately show ?thesis unfolding erase_fix_done_def
        using io3 keeps_trans [OF keeps_trans [OF s1(6) s2(6)] s3(3)]
        by (intro exI [of _ s3] exI [of _ "[]"] exI [of _ "plug C2 ?u"]) simp
    next
      case False
      from s1(2) have "zrep s1 (F (other d) p c1 t # C2) (nd d nl ob Black nr)" by (simp add: zrep_Cons nd_other)
      from set_color_zrep [OF this, of Red] obtain s2 where
        s2: "rb_set_color ob Red s1 = Ret s2" "zrep s2 C2 (nd d t p c1 (nd d nl ob Red nr))" "keeps (addrs ?T) s1 s2"
        using addr by (auto simp: zrep_Cons nd_other)
      let ?u = "nd d t p c1 (nd d nl ob Red nr)"
      have eq: "rb_erase_fix (Suc fuel) (root_ptr t) (cpar C) s = rb_erase_fix fuel (root_ptr ?u) (cpar C2) s2"
        using round False C s2(1) zrep_deref [OF s2(2)] by simp
      have rest: "erase_fix_done fuel (root_ptr ?u) (cpar C2) s2 (plug C2 ?u)"
      proof (rule Suc.IH [OF s2(2), of "case c1 of Red \<Rightarrow> n | Black \<Rightarrow> Suc n"])
        show "short ?u (case c1 of Red \<Rightarrow> n | Black \<Rightarrow> Suc n)" using h False by (cases c1) (auto simp: short_def)
        show "cok C2 (Suc (case c1 of Red \<Rightarrow> n | Black \<Rightarrow> Suc n))" using s1(3) by (cases c1) auto
        show "0 < fuel" "isred ?u \<or> length C2 < fuel" using Suc.prems(5) t C s1(4) by auto
      qed
      have "inorder (plug C2 ?u) = inorder ?T"
        using s1(5) by (auto simp: nd_inorder inorder_plug split: side.splits)
      with eq keeps_trans [OF s1(6) s2(3)] rest show ?thesis by (rule erase_fix_done_step)
    qed
  qed
qed simp

lemma erase_color_ok:
  assumes z: "zrep s C t" and t: "rbh t n" and ok: "cok C (Suc n)" and fuel: "length C < fuel"
  shows "\<exists>s' T. rb_erase_color fuel (root_ptr t) (cpar C) s = Ret s' \<and> trep s' T \<and> rb_tree T
    \<and> inorder T = inorder (plug C t) \<and> keeps (addrs (plug C t)) s s'"
proof -
  have "short t n" using t
    by (cases t rule: rbt_side_cases [where d = L]; cases "isred t") (auto simp: short_def)
  moreover have "0 < fuel" "isred t \<or> length C < fuel" using fuel by auto
  ultimately have "erase_fix_done fuel (root_ptr t) (cpar C) s (plug C t)" using erase_fix_ok [OF z _ ok] by blast
  then obtain s1 C1 u where
    s1: "rb_erase_fix fuel (root_ptr t) (cpar C) s = Ret (root_ptr u, s1)" "zrep s1 C1 u" "rb_tree (plug C1 (blacken u))"
    "inorder (plug C1 u) = inorder (plug C t)" "keeps (addrs (plug C t)) s s1"
    unfolding erase_fix_done_def by auto
  show ?thesis
  proof (cases u rule: rbt_side_cases [where d = L])
    case E
    with s1 show ?thesis by (intro exI [of _ s1] exI [of _ "plug C1 u"]) (auto simp: rb_erase_color_def zrep_def)
  next
    case (N x a c y)
    have a0: "a \<noteq> 0" using zrep_nonzero [OF s1(2)] N by auto
    from set_color_zrep [OF s1(2) [unfolded N], of Black] obtain s2 where
      s2: "rb_set_color a Black s1 = Ret s2" "zrep s2 C1 (blacken u)" "keeps (addrs (plug C1 u)) s1 s2"
      by (auto simp: N)
    moreover have "inorder (plug C1 (blacken u)) = inorder (plug C t)" using s1(4) by (simp add: inorder_plug)
    ultimately show ?thesis using s1 a0 N
      by (intro exI [of _ s2] exI [of _ "plug C1 (blacken u)"]) (auto simp: rb_erase_color_def zrep_def intro: keeps_trans)
  qed
qed

subsection \<open>Unlinking\<close>

text \<open>The parent pointer of a subtree's root is changed.\<close>

lemma reparent:
  assumes "rep (heap s) par t" and "distinct (inorder t)" and "heap s 0 = None"
  obtains h where "(if root_ptr t \<noteq> 0 then rb_set_parent (root_ptr t) q s else Ret s) = Ret (s\<lparr>heap := h\<rparr>)"
    "rep h q t" "\<forall>p. p \<notin> addrs t \<longrightarrow> h p = heap s p"
proof (cases t rule: rbt_side_cases [where d = L])
  case E
  show thesis by (rule that [of "heap s"]) (simp_all add: E)
next
  case (N x a c y)
  let ?h = "(heap s)(a \<mapsto> cell L q c (root_ptr x) (root_ptr y))"
  have "a \<noteq> 0" using assms(1,3) N by (auto intro: gr0I)
  then show thesis
    by (intro that [of ?h]) (use assms N in \<open>auto simp: rb_set_parent_def upd_node_def deref_def\<close>)
qed

lemma unlink_one_ok:
  assumes z: "zrep s C (nd d E y c t)"
  obtains s1 s2 where "(if root_ptr t \<noteq> 0 then rb_set_parent (root_ptr t) (cpar C) s else Ret s) = Ret s1"
    "relink L (cpar C) y (root_ptr t) s1 = Ret s2" "\<forall>p. p \<notin> addrs t \<longrightarrow> heap s1 p = heap s p" "heap s2 y = heap s y"
    "zrep s2 C t" "keeps (addrs (plug C (nd d E y c t))) s s2"
proof -
  let ?u = "nd d E y c t"
  from z have r: "rep (heap s) y t" and rc: "repctx (heap s) C y" and root: "root_node s = croot C y"
    and dist: "distinct (inorder t)" "y \<notin> addrs t" "ctx_distinct C" "addrs ?u \<inter> caddrs C = {}" and null: "heap s 0 = None"
    unfolding zrep_unfold by (auto simp: distinct_nd)
  from reparent [OF r dist(1) null] obtain h where
    h: "(if root_ptr t \<noteq> 0 then rb_set_parent (root_ptr t) (cpar C) s else Ret s) = Ret (s\<lparr>heap := h\<rparr>)"
    "rep h (cpar C) t" "\<forall>p. p \<notin> addrs t \<longrightarrow> h p = heap s p" by blast
  let ?s1 = "s\<lparr>heap := h\<rparr>"
  have "repctx h C y = repctx (heap s) C y" using h(3) dist(4) by (intro repctx_cong) auto
  with rc have rc1: "repctx (heap ?s1) C y" by simp
  have h0: "heap ?s1 0 = None" and y0: "y \<noteq> 0" using h(3) null zrep_nonzero [OF z] by auto
  obtain s2 where s2: "relink L (cpar C) y (root_ptr t) ?s1 = Ret s2" "repctx (heap s2) C (root_ptr t)"
    "root_node s2 = croot C (root_ptr t)" "\<forall>p. p \<notin> caddrs C \<longrightarrow> heap s2 p = h p" "count s2 = count s"
  proof (rule relink_ok [OF rc1 _ dist(3), of L "root_ptr t"])
    show "root_node ?s1 = croot C y" "y \<notin> caddrs C" using root dist(4) by auto
  qed (use y0 h0 in auto)
  have "rep (heap s2) (cpar C) t = rep h (cpar C) t" using s2(4) dist(4) by (intro rep_cong) auto
  with h(2) have "rep (heap s2) (cpar C) t" by simp
  moreover have "heap s2 0 = None" using s2(4) h0 zrep_nonzero [OF z] by auto
  ultimately have "zrep s2 C t" unfolding zrep_unfold using s2(2,3) dist by auto
  moreover have "heap s2 y = heap s y" using s2(4) h(3) dist by auto
  moreover have "keeps (addrs (plug C ?u)) s s2" using s2(4,5) h(3) by (auto simp: keeps_def addrs_plug)
  ultimately show thesis using h(1,3) s2(1) by (intro that [of ?s1 s2]) auto
qed

text \<open>Descending to the outermost node on one side.\<close>

lemma plug_append: "plug (S @ C) t = plug C (plug S t)"
  by (induction S arbitrary: t) (auto split: frame.splits)

lemma zrep_append: "zrep s (S @ C) t = zrep s C (plug S t)"
  by (simp add: zrep_def plug_append)

fun on_side :: "side \<Rightarrow> frame \<Rightarrow> bool" where
  "on_side d (F e a c sib) \<longleftrightarrow> e = d"

lemma descend_ok:
  assumes "zrep s C t" and "t \<noteq> E" and "height t \<le> fuel"
  obtains S y c u where "rb_descend fuel d s (root_ptr t) = Ret y" "t = plug S (nd d E y c u)" "list_all (on_side d) S"
    "length S < height t"
  using assms
proof (induction fuel arbitrary: C t thesis)
  case 0
  then show ?case by (cases t) auto
next
  case (Suc fuel)
  from Suc.prems(3) obtain x a c w where t: "t = nd d x a c w" by (cases t rule: rbt_side_cases [where d = d]) auto
  note da = zrep_deref [OF Suc.prems(2) [unfolded t]]
  have z: "zrep s (F d a c w # C) x" using Suc.prems(2) t by (simp add: zrep_Cons)
  show ?case
  proof (cases "x = E")
    case True
    show ?thesis by (rule Suc.prems(1) [of a "[]" c w]) (use True t da in \<open>auto, cases d, auto\<close>)
  next
    case False
    have ht: "height x \<le> fuel" "height x < height t" using Suc.prems(4) t by (cases d; auto)+
    have x0: "root_ptr x \<noteq> 0" using zrep_nonzero [OF z] root_ptr_in [OF False] by (metis)
    from Suc.IH [OF _ z False ht(1)] obtain S y c' u where
      S: "rb_descend fuel d s (root_ptr x) = Ret y" "x = plug S (nd d E y c' u)" "list_all (on_side d) S" "length S < height x" by blast
    show ?thesis
      by (rule Suc.prems(1) [of y "S @ [F d a c w]" c' u]) (use S t da x0 ht in \<open>simp_all add: plug_append\<close>)
  qed
qed

text \<open>
  One node takes another's place: the links around \<open>old\<close> are turned to \<open>new\<close>. The memory of \<open>new\<close> itself
  is filled before (removal) or after (\<^verbatim>\<open>aosl_rb_replace_node\<close>).
\<close>

lemma splice_ok:
  assumes z: "zrep s C (N l old c r)" and new: "new \<notin> addrs (plug C (N l old c r))" "new \<noteq> 0"
  obtains s2 s3 s4 where
    "relink L (cpar C) old new s = Ret s2"
    "(if root_ptr l \<noteq> 0 then rb_set_parent (root_ptr l) new s2 else Ret s2) = Ret s3"
    "(if root_ptr r \<noteq> 0 then rb_set_parent (root_ptr r) new s3 else Ret s3) = Ret s4"
    "\<forall>s' \<in> {s2, s3, s4}. deref s' old = Ret (cell L (cpar C) c (root_ptr l) (root_ptr r)) \<and> heap s' new = heap s new"
    "zrep (s4\<lparr>heap := (heap s4)(new \<mapsto> cell L (cpar C) c (root_ptr l) (root_ptr r))\<rparr>) C (N l new c r)"
    "keeps (addrs (plug C (N l old c r))) s s4"
proof -
  let ?t = "N l old c r" and ?cell = "cell L (cpar C) c (root_ptr l) (root_ptr r)"
  from z have r: "heap s old = Some ?cell" "rep (heap s) old l" "rep (heap s) old r"
    and rc: "repctx (heap s) C old" and root: "root_node s = croot C old"
    and dist: "distinct (inorder ?t)" "ctx_distinct C" "addrs ?t \<inter> caddrs C = {}" and null: "heap s 0 = None"
    unfolding zrep_unfold by auto
  have new0: "new \<notin> addrs ?t" "new \<notin> caddrs C" using new by (auto simp: addrs_plug)
  obtain s2 where s2: "relink L (cpar C) old new s = Ret s2" "repctx (heap s2) C new" "root_node s2 = croot C new"
    "\<forall>p. p \<notin> caddrs C \<longrightarrow> heap s2 p = heap s p" "count s2 = count s"
  proof (rule relink_ok [OF rc root dist(2), of L new])
    show "old \<notin> caddrs C" using dist(3) by auto
  qed (use zrep_nonzero [OF z] null in auto)
  have null2: "heap s2 0 = None" using s2(4) null zrep_nonzero [OF z] by auto
  have out: "heap s2 p = heap s p" if "p \<in> addrs ?t" for p using that s2(4) dist(3) by auto
  have r2: "rep (heap s2) old l" "rep (heap s2) old r"
    using r rep_cong [of l "heap s2" "heap s"] rep_cong [of r "heap s2" "heap s"] out by auto
  have dl: "distinct (inorder l)" "distinct (inorder r)" using dist(1) by auto
  from reparent [OF r2(1) dl(1) null2, of new] obtain h3 where
    h3: "(if root_ptr l \<noteq> 0 then rb_set_parent (root_ptr l) new s2 else Ret s2) = Ret (s2\<lparr>heap := h3\<rparr>)" "rep h3 new l"
    "\<forall>p. p \<notin> addrs l \<longrightarrow> h3 p = heap s2 p" by blast
  have r3: "rep h3 old r" using rep_cong [of r h3 "heap s2"] h3(3) r2(2) dist(1) by auto
  have null3: "h3 0 = None" using h3(3) null2 zrep_nonzero [OF z] by auto
  from reparent [of "s2\<lparr>heap := h3\<rparr>" old r new] r3 dl(2) null3 obtain h4 where
    h4: "(if root_ptr r \<noteq> 0 then rb_set_parent (root_ptr r) new (s2\<lparr>heap := h3\<rparr>) else Ret (s2\<lparr>heap := h3\<rparr>)) = Ret (s2\<lparr>heap := h4\<rparr>)"
    "rep h4 new r" "\<forall>p. p \<notin> addrs r \<longrightarrow> h4 p = h3 p" by auto
  have "rep h4 new l" using rep_cong [of l h4 h3] h4(3) h3(2) dist(1) by auto
  moreover have "h4 p = heap s2 p" if "p \<in> caddrs C" for p
  proof -
    have "p \<notin> addrs l" "p \<notin> addrs r" using that dist(3) by auto
    then show ?thesis using h4(3) h3(3) by simp
  qed
  then have "repctx h4 C new" using s2(2) repctx_cong [of C h4 "heap s2" new] by simp
  moreover have "h4 0 = None" using h4(3) null3 zrep_nonzero [OF z] by auto
  ultimately have "zrep (s2\<lparr>heap := h4(new \<mapsto> ?cell)\<rparr>) C (N l new c r)"
    unfolding zrep_unfold using h4(2) s2(3) dist new0 new(2) by auto
  moreover have "heap s2 new = heap s new" "h3 new = heap s new" "h4 new = heap s new"
    "heap s2 old = Some ?cell" "h3 old = Some ?cell" "h4 old = Some ?cell"
    using out [of old] r(1) h3(3) h4(3) s2(4) dist(1) new0 by auto
  moreover have "keeps (addrs (plug C ?t)) s (s2\<lparr>heap := h4\<rparr>)"
    using s2(4,5) h3(3) h4(3) by (auto simp: keeps_def addrs_plug)
  ultimately show thesis using s2(1) h3(1) h4(1)
    by (intro that [of s2 "s2\<lparr>heap := h3\<rparr>" "s2\<lparr>heap := h4\<rparr>"]) (auto simp: deref_def)
qed

lemma replace_ok:
  assumes z: "zrep s C (N l old c r)" and new: "new \<notin> addrs (plug C (N l old c r))" "heap s new \<noteq> None"
  obtains s1 s2 s3 s4 where
    "upd_node new (\<lambda>_. cell L (cpar C) c (root_ptr l) (root_ptr r)) s = Ret s1" "relink L (cpar C) old new s1 = Ret s2"
    "(if root_ptr l \<noteq> 0 then rb_set_parent (root_ptr l) new s2 else Ret s2) = Ret s3"
    "(if root_ptr r \<noteq> 0 then rb_set_parent (root_ptr r) new s3 else Ret s3) = Ret s4"
    "deref s2 old = Ret (cell L (cpar C) c (root_ptr l) (root_ptr r))"
    "deref s3 old = Ret (cell L (cpar C) c (root_ptr l) (root_ptr r))"
    "zrep s4 C (N l new c r)" "keeps (insert new (addrs (plug C (N l old c r)))) s s4"
proof -
  let ?t = "N l old c r" and ?cell = "cell L (cpar C) c (root_ptr l) (root_ptr r)"
  let ?s1 = "s\<lparr>heap := (heap s)(new \<mapsto> ?cell)\<rparr>"
  have new0: "new \<noteq> 0" "new \<notin> addrs ?t" "new \<notin> caddrs C"
    using new z by (auto simp: addrs_plug zrep_unfold intro: gr0I)
  have u: "upd_node new (\<lambda>_. ?cell) s = Ret ?s1" using new(2) by (auto simp: upd_node_def deref_def)
  have z1: "zrep ?s1 C ?t" using z new0 by (auto simp: zrep_unfold)
  from splice_ok [OF z1 new(1) new0(1)] obtain s2 s3 s4 where
    s: "relink L (cpar C) old new ?s1 = Ret s2"
    "(if root_ptr l \<noteq> 0 then rb_set_parent (root_ptr l) new s2 else Ret s2) = Ret s3"
    "(if root_ptr r \<noteq> 0 then rb_set_parent (root_ptr r) new s3 else Ret s3) = Ret s4"
    "\<forall>s' \<in> {s2, s3, s4}. deref s' old = Ret ?cell \<and> heap s' new = heap ?s1 new"
    "zrep (s4\<lparr>heap := (heap s4)(new \<mapsto> ?cell)\<rparr>) C (N l new c r)" "keeps (addrs (plug C ?t)) ?s1 s4" .
  have "s4\<lparr>heap := (heap s4)(new \<mapsto> ?cell)\<rparr> = s4" using s(4) by (simp add: fun_upd_idem)
  with s(5) have "zrep s4 C (N l new c r)" by simp
  moreover have "keeps (insert new (addrs (plug C ?t))) s s4" using s(6) by (auto simp: keeps_def)
  ultimately show thesis using u s(1-4) by (intro that [of ?s1 s2 s3 s4]) auto
qed

lemma relink_frame:
  assumes "heap s a = Some (cell d par c old q)" and "a \<noteq> 0" and "d = R \<longrightarrow> q \<noteq> old"
  shows "relink L a old new s = set_child d a new s"
  using assms by (cases d) (auto simp: relink_def deref_def)

lemma caddrs_append: "caddrs (S @ C) = caddrs S \<union> caddrs C"
  by (induction S rule: caddrs.induct) auto

lemma frames_L_par:
  assumes "list_all (on_side L) S"
  shows "S = [] \<or> (\<exists>a c sib S'. S = F L a c sib # S')"
  using assms by (cases S) (auto elim!: on_side.elims)

text \<open>The successor's parent loses it: on the right when that is \<open>old\<close> itself, on the left otherwise.\<close>

lemma successor_relink:
  assumes zy: "zrep s (S @ F R old c l # C) (nd L E y cy t)" and S: "list_all (on_side L) S"
    and r: "relink L (cpar (S @ F R old c l # C)) y (root_ptr t) s1 = Ret s2"
    and same: "\<forall>p. p \<notin> addrs t \<longrightarrow> heap s1 p = heap s p" and sib: "root_ptr l \<noteq> y"
  shows "(if cpar (S @ F R old c l # C) = old
      then ebind (set_child R (cpar (S @ F R old c l # C)) (root_ptr t) s1) (\<lambda>s. Ret (y, s))
      else ebind (set_child L (cpar (S @ F R old c l # C)) (root_ptr t) s1) (\<lambda>s. Ret (cpar (S @ F R old c l # C), s)))
    = Ret (cpar (S @ F R y c l # C), s2)"
proof (cases "S = []")
  case True
  have "deref s old = Ret (cell R (cpar C) c y (root_ptr l))" "old \<notin> addrs t" "old \<noteq> 0"
    using zy True zrep_nonzero [OF zy] by (auto simp: zrep_unfold deref_def)
  with same have "heap s1 old = Some (cell R (cpar C) c y (root_ptr l))" by (auto simp: deref_def split: option.splits)
  from relink_frame [OF this \<open>old \<noteq> 0\<close>, of "root_ptr t"] sib r True have "set_child R old (root_ptr t) s1 = Ret s2" by simp
  with True show ?thesis by simp
next
  case False
  with frames_L_par [OF S] obtain a ca sb S' where S': "S = F L a ca sb # S'" by blast
  have "deref s a = Ret (cell L (cpar (S' @ F R old c l # C)) ca y (root_ptr sb))" "a \<notin> addrs t" "a \<noteq> 0" "a \<noteq> old"
    using zy S' zrep_nonzero [OF zy] by (auto simp: zrep_unfold caddrs_append deref_def)
  moreover from this same have "heap s1 a = Some (cell L (cpar (S' @ F R old c l # C)) ca y (root_ptr sb))"
    by (auto simp: deref_def split: option.splits)
  from relink_frame [OF this, of "root_ptr t"] r S' \<open>a \<noteq> 0\<close> have "set_child L a (root_ptr t) s1 = Ret s2" by simp
  ultimately show ?thesis using S' by simp
qed

text \<open>
  Removing a node with two children: the position of the successor \<open>y\<close> loses \<open>y\<close>, and \<open>y\<close> takes the
  place of \<open>old\<close>. \<open>S\<close> is the path of left links from \<open>old\<close>'s right child down to \<open>y\<close>.
\<close>

lemma unlink_two_ok:
  assumes z: "zrep s C (N l old c r)" and lr: "l \<noteq> E" "r \<noteq> E" and fuel: "height r \<le> fuel"
  obtains S y cy t s' where
    "erase_unlink_two fuel old s = Ret (root_ptr t, cpar (S @ F R y c l # C), cy, s')"
    "r = plug S (N E y cy t)" "zrep s' (S @ F R y c l # C) t" "length S < height r" "list_all (on_side L) S"
    "keeps (addrs (plug C (N l old c r))) s s'"
proof -
  let ?A = "addrs (plug C (N l old c r))"
  have zr: "zrep s (F R old c l # C) r" using z by (simp add: zrep_Cons)
  from descend_ok [OF zr lr(2) fuel, of L] obtain S y cy t where
    S: "rb_descend fuel L s (root_ptr r) = Ret y" "r = plug S (nd L E y cy t)" "list_all (on_side L) S" "length S < height r" .
  let ?C = "S @ F R old c l # C"
  have zy: "zrep s ?C (nd L E y cy t)" using zr S(2) by (simp add: zrep_append zrep_Cons)
  from unlink_one_ok [OF zy] obtain s1 s2 where
    s1: "(if root_ptr t \<noteq> 0 then rb_set_parent (root_ptr t) (cpar ?C) s else Ret s) = Ret s1"
    "relink L (cpar ?C) y (root_ptr t) s1 = Ret s2" "\<forall>p. p \<notin> addrs t \<longrightarrow> heap s1 p = heap s p" "heap s2 y = heap s y"
    "zrep s2 ?C t" "keeps (addrs (plug ?C (nd L E y cy t))) s s2" .
  have A: "addrs (plug ?C (nd L E y cy t)) = ?A" using S(2) by (simp add: plug_append)
  have yC: "y \<notin> caddrs ?C" "y \<notin> addrs t" "addrs t \<inter> caddrs ?C = {}" using zy by (auto simp: zrep_unfold)
  have sib: "root_ptr l \<noteq> y" using yC(1) root_ptr_in [OF lr(1)] by (auto simp: caddrs_append)
  have up: "(if cpar ?C = old then ebind (set_child R (cpar ?C) (root_ptr t) s1) (\<lambda>s. Ret (y, s))
      else ebind (set_child L (cpar ?C) (root_ptr t) s1) (\<lambda>s. Ret (cpar ?C, s))) = Ret (cpar (S @ F R y c l # C), s2)"
    using successor_relink [OF zy S(3) s1(2,3) sib] .
  have z2: "zrep s2 C (N l old c (plug S t))" using s1(5) by (simp add: zrep_append zrep_Cons)
  have A2: "addrs (plug C (N l old c (plug S t))) = addrs t \<union> caddrs ?C" using addrs_plug [of ?C t] by (simp add: plug_append)
  have ynew: "y \<notin> addrs (plug C (N l old c (plug S t)))" "heap s2 y \<noteq> None"
    using A2 yC s1(4) zy by (auto simp: zrep_unfold)
  from replace_ok [OF z2 ynew] obtain s3 s4 s5 s6 where
    s3: "upd_node y (\<lambda>_. cell L (cpar C) c (root_ptr l) (root_ptr (plug S t))) s2 = Ret s3" "relink L (cpar C) old y s3 = Ret s4"
    "(if root_ptr l \<noteq> 0 then rb_set_parent (root_ptr l) y s4 else Ret s4) = Ret s5"
    "(if root_ptr (plug S t) \<noteq> 0 then rb_set_parent (root_ptr (plug S t)) y s5 else Ret s5) = Ret s6"
    "deref s4 old = Ret (cell L (cpar C) c (root_ptr l) (root_ptr (plug S t)))"
    "deref s5 old = Ret (cell L (cpar C) c (root_ptr l) (root_ptr (plug S t)))"
    "zrep s6 C (N l y c (plug S t))" "keeps (insert y (addrs (plug C (N l old c (plug S t))))) s2 s6" .
  have l0: "root_ptr l \<noteq> 0" using zrep_nonzero [OF z] root_ptr_in [OF lr(1)] by (auto intro: gr0I)
  have "erase_unlink_two fuel old s = Ret (root_ptr t, cpar (S @ F R y c l # C), cy, s6)"
    using zrep_deref [of s C L l old c r] z S(1) zrep_deref [OF zy] s1(1) up
      zrep_deref [of s2 C L l old c "plug S t"] z2 s3 l0
    by (simp only: erase_unlink_two_def Let_def ebind.simps cell_L_sel cell_sel nd.simps prod.case up root_ptr.simps if_True refl
        simp_thms)
  moreover have "zrep s6 (S @ F R y c l # C) t" using s3(7) by (simp add: zrep_append zrep_Cons)
  moreover have "insert y (addrs t \<union> caddrs ?C) = ?A" using A by (simp add: addrs_plug)
  then have "keeps ?A s s6" using keeps_trans [OF s1(6) [unfolded A]] s3(8) A2 by simp
  ultimately show thesis using S(2-4) by (intro that [of t S y cy s6]) auto
qed

subsection \<open>Removal\<close>

lemma position_of:
  assumes "a \<in> addrs T"
  obtains C l c r where "T = plug C (N l a c r)"
  using assms
proof (induction T arbitrary: thesis)
  case (N l b c r)
  consider "a = b" | "a \<in> addrs l" | "a \<in> addrs r" using N.prems(2) by auto
  then show ?case
  proof cases
    case 1
    then show ?thesis using N.prems(1) [of "[]" l c r] by simp
  next
    case 2
    from N.IH(1) [OF _ 2] obtain C l' c' r' where "l = plug C (N l' a c' r')" by blast
    then show ?thesis using N.prems(1) [of "C @ [F L b c r]" l' c' r'] by (simp add: plug_append)
  next
    case 3
    from N.IH(2) [OF _ 3] obtain C l' c' r' where "r = plug C (N l' a c' r')" by blast
    then show ?thesis using N.prems(1) [of "C @ [F R b c l]" l' c' r'] by (simp add: plug_append)
  qed
qed simp

lemma height_nd: "height (nd d x a c y) = Suc (max (height x) (height y))"
  by (cases d) (simp_all add: max.commute)

lemma height_plug: "length C + height t \<le> height (plug C t)"
proof (induction C arbitrary: t)
  case (Cons f C)
  obtain d a c sib where "f = F d a c sib" by (cases f)
  with Cons [of "nd d t a c sib"] show ?case by (simp add: height_nd)
qed simp

lemma cok_rename: "cok (S @ F d a c sib # C) n = cok (S @ F d b c sib # C) n"
proof (induction S n rule: cok.induct)
  case (1 n)
  then show ?case by (cases c) auto
next
  case (2 d' a' sib' C' n)
  have "cblack (C' @ F d a c sib # C) = cblack (C' @ F d b c sib # C)" by (cases C' rule: cblack.cases) auto
  with 2 show ?case by simp
qed simp

text \<open>What is left to do at the label \<^verbatim>\<open>color\<close>: the position has lost the node \<open>y\<close> of colour \<open>cy\<close>.\<close>

lemma erase_tail:
  assumes z: "zrep s C t" and t: "rbh (nd d E y cy t) n" and ok: "cok C n" and fuel: "length C < fuel"
  shows "\<exists>s' T. ebind (if cy = Black then rb_erase_color fuel (root_ptr t) (cpar C) s else Ret s) (\<lambda>s.
      Ret (s\<lparr>count := count s - 1\<rparr>)) = Ret s' \<and> trep s' T \<and> rb_tree T \<and> inorder T = inorder (plug C t)
    \<and> count s' = count s - 1 \<and> (\<forall>p. p \<notin> addrs (plug C t) \<longrightarrow> heap s' p = heap s p)"
proof (cases cy)
  case Red
  with t have "rbh t n" "\<not> isred t" by auto
  then have "rb_tree (plug C t)" using ok by (intro rb_tree_plug)
  with Red z show ?thesis by (auto simp: zrep_def trep_def)
next
  case Black
  with t obtain m where m: "n = Suc m" "rbh t m" by (auto simp: rbh_nd_Black)
  from erase_color_ok [OF z m(2) _ fuel] ok m(1) obtain s1 T where
    "rb_erase_color fuel (root_ptr t) (cpar C) s = Ret s1" "trep s1 T" "rb_tree T" "inorder T = inorder (plug C t)"
    "keeps (addrs (plug C t)) s s1" by auto
  with Black show ?thesis by (auto simp: keeps_def trep_def)
qed

lemma remove1_mid: "distinct (xs @ a # ys) \<Longrightarrow> remove1 a (xs @ a # ys) = xs @ ys"
  by (simp add: remove1_append)

lemma cpre_left: "list_all (on_side L) S \<Longrightarrow> cpre S = []"
proof (induction S)
  case (Cons f S)
  then show ?case by (cases f) auto
qed simp

definition erase_result :: "rb_root exec \<Rightarrow> ptr \<Rightarrow> rbt \<Rightarrow> rb_root \<Rightarrow> bool" where
  "erase_result e node T s \<longleftrightarrow> (\<exists>s' T'. e = Ret s' \<and> trep s' T' \<and> rb_tree T' \<and> inorder T' = remove1 node (inorder T)
     \<and> count s' = count s - 1 \<and> (\<forall>p. p \<notin> addrs T \<longrightarrow> heap s' p = heap s p))"

abbreviation erase_rest :: "nat \<Rightarrow> ptr \<times> ptr \<times> color \<times> rb_root \<Rightarrow> rb_root exec" where
  "erase_rest fuel \<equiv> \<lambda>(chld, parent, col, s).
     ebind (if col = Black then rb_erase_color fuel chld parent s else Ret s) (\<lambda>s. Ret (s\<lparr>count := count s - 1\<rparr>))"

lemma erase_one_ok:
  assumes z: "zrep s C (nd d E node c u)" and h: "rbh (nd d E node c u) n" "cok C n" and fuel: "length C < fuel"
  shows "erase_result (ebind (erase_unlink_one node (root_ptr u) s) (erase_rest fuel)) node (plug C (nd d E node c u)) s"
proof -
  let ?T = "plug C (nd d E node c u)"
  from unlink_one_ok [OF z] obtain s1 s2 where
    s1: "(if root_ptr u \<noteq> 0 then rb_set_parent (root_ptr u) (cpar C) s else Ret s) = Ret s1"
    "relink L (cpar C) node (root_ptr u) s1 = Ret s2" "zrep s2 C u" "keeps (addrs ?T) s s2" .
  have un: "erase_unlink_one node (root_ptr u) s = Ret (root_ptr u, cpar C, c, s2)"
    using zrep_deref [OF z] s1(1,2) by (simp add: erase_unlink_one_def)
  from erase_tail [OF s1(3) h fuel] obtain s3 T3 where
    s3: "ebind (if c = Black then rb_erase_color fuel (root_ptr u) (cpar C) s2 else Ret s2) (\<lambda>s.
      Ret (s\<lparr>count := count s - 1\<rparr>)) = Ret s3" "trep s3 T3" "rb_tree T3" "inorder T3 = inorder (plug C u)"
    "count s3 = count s2 - 1" "\<forall>p. p \<notin> addrs (plug C u) \<longrightarrow> heap s3 p = heap s2 p" by auto
  have "distinct (inorder ?T)" using z by (simp add: zrep_def trep_def)
  then have "inorder T3 = remove1 node (inorder ?T)"
    using s3(4) remove1_mid [of "cpre C" node "inorder u @ cpost C"] remove1_mid [of "cpre C @ inorder u" node "cpost C"]
    by (cases d) (simp_all add: inorder_plug)
  then show ?thesis using un s3 s1(4) unfolding erase_result_def
    by (intro exI [of _ s3] exI [of _ T3]) (auto simp: keeps_def addrs_plug)
qed

lemma erase_two_ok:
  assumes z: "zrep s C (N l node c r)" and rb: "rb_tree (plug C (N l node c r))" and lr: "l \<noteq> E" "r \<noteq> E"
    and fuel: "length C + height (N l node c r) < fuel"
  shows "erase_result (ebind (erase_unlink_two fuel node s) (erase_rest fuel)) node (plug C (N l node c r)) s"
proof -
  let ?T = "plug C (N l node c r)"
  have "height r \<le> fuel" using fuel by simp
  from unlink_two_ok [OF z lr this] obtain S y cy t s1 where
    s1: "erase_unlink_two fuel node s = Ret (root_ptr t, cpar (S @ F R y c l # C), cy, s1)"
    "r = plug S (N E y cy t)" "zrep s1 (S @ F R y c l # C) t" "length S < height r" "list_all (on_side L) S"
    "keeps (addrs ?T) s s1" .
  let ?C = "S @ F R y c l # C"
  have T: "?T = plug (S @ F R node c l # C) (nd L E y cy t)" using s1(2) by (simp add: plug_append)
  with rbh_unplug [of "S @ F R node c l # C" "nd L E y cy t"] rb obtain n where
    h: "rbh (nd L E y cy t) n" "cok ?C n" by (auto simp: rb_tree_def cok_rename [of S R node c l C _ y])
  have "length ?C < fuel" using fuel s1(4) by simp
  from erase_tail [OF s1(3) h this] obtain s3 T3 where
    s3: "ebind (if cy = Black then rb_erase_color fuel (root_ptr t) (cpar ?C) s1 else Ret s1) (\<lambda>s.
      Ret (s\<lparr>count := count s - 1\<rparr>)) = Ret s3" "trep s3 T3" "rb_tree T3" "inorder T3 = inorder (plug ?C t)"
    "count s3 = count s1 - 1" "\<forall>p. p \<notin> addrs (plug ?C t) \<longrightarrow> heap s3 p = heap s1 p" by auto
  have io: "inorder ?T = (cpre C @ inorder l) @ node # (y # inorder t @ cpost S @ cpost C)"
    using s1(2) cpre_left [OF s1(5)] by (simp add: inorder_plug)
  have "distinct (inorder ?T)" using z by (simp add: zrep_def trep_def)
  then have "inorder T3 = remove1 node (inorder ?T)"
    unfolding io using s3(4) cpre_left [OF s1(5)] by (subst remove1_mid) (simp_all add: inorder_plug plug_append)
  moreover have "addrs (plug ?C t) \<subseteq> addrs ?T" using T by (auto simp: addrs_plug caddrs_append)
  ultimately show ?thesis using s1(1,6) s3 unfolding erase_result_def
    by (intro exI [of _ s3] exI [of _ T3]) (auto simp: keeps_def)
qed

lemma erase_ok:
  assumes t: "trep s T" "rb_tree T" and mem: "node \<in> addrs T" and fuel: "height T < fuel"
  shows "erase_result (aosl_rb_erase fuel node s) node T s"
proof -
  from position_of [OF mem] obtain C l c r where T: "T = plug C (N l node c r)" .
  with t(1) have z: "zrep s C (N l node c r)" by (simp add: zrep_def)
  have dn: "deref s node = Ret (cell L (cpar C) c (root_ptr l) (root_ptr r))" using zrep_deref [of s C L] z by simp
  have nz: "root_ptr l = 0 \<longleftrightarrow> l = E" "root_ptr r = 0 \<longleftrightarrow> r = E" using zrep_nonzero [OF z] by (simp_all add: root_ptr_0_iff)
  have len: "length C + height (N l node c r) < fuel" using height_plug [of C "N l node c r"] fuel T by simp
  show ?thesis
  proof (cases "l = E \<or> r = E")
    case True
    obtain d u where u: "N l node c r = nd d E node c u"
      and eq: "aosl_rb_erase fuel node s = ebind (erase_unlink_one node (root_ptr u) s) (erase_rest fuel)"
    proof (cases "l = E")
      case True
      then show thesis using dn by (intro that [of L r]) (simp_all add: aosl_rb_erase_def)
    next
      case False
      with \<open>l = E \<or> r = E\<close> show thesis using dn nz by (intro that [of R l]) (simp_all add: aosl_rb_erase_def)
    qed
    from rbh_unplug [of C "nd d E node c u"] t(2) T u obtain n where
      h: "rbh (nd d E node c u) n" "cok C n" by (auto simp: rb_tree_def)
    have "length C < fuel" using len by simp
    from erase_one_ok [OF z [unfolded u] h this] show ?thesis unfolding eq T u .
  next
    case False
    with dn nz have "aosl_rb_erase fuel node s = ebind (erase_unlink_two fuel node s) (erase_rest fuel)"
      by (simp add: aosl_rb_erase_def)
    with erase_two_ok [OF z _ _ _ len] t(2) T False show ?thesis by simp
  qed
qed

end
