(* ===== verification/Rb_Walk.thy ===== *)
theory Rb_Walk
  imports Rb_Erase
begin

text \<open>
  Iteration over the red-black tree (first, last, next, previous, the three traversals), replacing a
  node, the height bound, and the tree's contract with its users: an ordered collection of
  nodes, as the locale \<open>ordered_nodes\<close> and its interpretation on the code.
\<close>

subsection \<open>Neighbours in the order\<close>

primrec nearest :: "side \<Rightarrow> ptr list \<Rightarrow> ptr" where
  "nearest L xs = first_or_null xs"
| "nearest R xs = last_or_null xs"

text \<open>What lies beyond a position on side \<open>d\<close>.\<close>

primrec beyond :: "side \<Rightarrow> ctx \<Rightarrow> ptr list" where
  "beyond L C = cpre C"
| "beyond R C = cpost C"

lemma first_or_null_simps [simp]: "first_or_null [] = 0" "first_or_null (x # xs) = x"
  by (simp_all add: first_or_null_def)

lemma last_or_null_simps [simp]: "last_or_null [] = 0" "last_or_null (xs @ [x]) = x"
  by (simp_all add: last_or_null_def)

lemma last_or_null_append: "ys \<noteq> [] \<Longrightarrow> last_or_null (xs @ ys) = last_or_null ys"
  by (simp add: last_or_null_def)

lemma first_or_null_append: "xs \<noteq> [] \<Longrightarrow> first_or_null (xs @ ys) = first_or_null xs"
  by (cases xs) simp_all

lemma cpost_right: "list_all (on_side R) S \<Longrightarrow> cpost S = []"
proof (induction S)
  case (Cons f S)
  then show ?case by (cases f) auto
qed simp

lemma descend_nearest:
  assumes "zrep s C t" and "t \<noteq> E" and "height t \<le> fuel"
  shows "rb_descend fuel d s (root_ptr t) = Ret (nearest d (inorder t))"
proof -
  from descend_ok [OF assms, of d] obtain S y c u where
    y: "rb_descend fuel d s (root_ptr t) = Ret y" "t = plug S (nd d E y c u)" "list_all (on_side d) S" .
  then show ?thesis
    by (cases d) (auto simp: inorder_plug cpre_left cpost_right last_or_null_def)
qed

lemma ascend_nearest:
  "zrep s C t \<Longrightarrow> t \<noteq> E \<Longrightarrow> length C < fuel \<Longrightarrow>
     rb_ascend fuel d s (root_ptr t) = Ret (nearest (other d) (beyond d C))"
proof (induction fuel arbitrary: C t)
  case (Suc fuel)
  from Suc.prems(2) obtain x a c y where t: "t = nd L x a c y" by (cases t) auto
  note da = zrep_deref [OF Suc.prems(1) [unfolded t]]
  show ?case
  proof (cases C)
    case Nil
    with da t show ?thesis by (cases d) simp_all
  next
    case (Cons f C1)
    obtain e p pc sib where f: "f = F e p pc sib" by (cases f)
    with Suc.prems(1) Cons have z: "zrep s (F e p pc sib # C1) t" by simp
    have p0: "p \<noteq> 0" using zrep_nonzero [OF z] by auto
    note dp = zrep_deref_parent [OF z]
    show ?thesis
    proof (cases "e = d")
      case True
      have "rb_ascend fuel d s p = Ret (nearest (other d) (beyond d C1))"
        using Suc.IH [of C1 "nd e t p pc sib"] z Suc.prems(3) Cons by (simp add: zrep_Cons)
      with da dp p0 True Cons f t show ?thesis by (cases d) simp_all
    next
      case False
      then have e: "e = other d" using side_cases by blast
      have "root_ptr sib \<noteq> a"
      proof (cases "sib = E")
        case False
        from z t root_ptr_in [OF this] show ?thesis by (auto simp: zrep_unfold)
      qed (use zrep_nonzero [OF z] t in auto)
      with da dp p0 e Cons f t show ?thesis by (cases d) (simp_all add: last_or_null_def)
    qed
  qed
qed simp

lemma step_nearest:
  assumes z: "zrep s C (N l node c r)" and fuel: "length C + height (N l node c r) < fuel"
  shows "rb_step fuel d s node = Ret (nearest (other d) (case d of L \<Rightarrow> cpre C @ inorder l | R \<Rightarrow> inorder r @ cpost C))"
proof -
  obtain u v where t: "N l node c r = nd d u node c v" and u: "u = (case d of L \<Rightarrow> l | R \<Rightarrow> r)" by (cases d) auto
  note dn = zrep_deref [OF z [unfolded t]]
  have par: "cpar C \<noteq> node" using z zrep_nonzero [OF z] by (cases C rule: cpar.cases) (auto simp: zrep_unfold)
  have zu: "zrep s (F d node c v # C) u" using z t by (simp add: zrep_Cons)
  have ht: "height u \<le> fuel" "length C < fuel" using fuel u by (cases d; simp)+
  show ?thesis
  proof (cases "u = E")
    case True
    have "rb_ascend fuel d s node = Ret (nearest (other d) (beyond d C))"
      using ascend_nearest [OF z _ ht(2), of d] by simp
    with True dn par u show ?thesis by (cases d) (simp_all add: rb_step_def)
  next
    case False
    then have "root_ptr u \<noteq> 0" "inorder u \<noteq> []" using root_ptr_in [OF False] zrep_nonzero [OF zu] by (auto intro: gr0I)
    then show ?thesis
      using dn par descend_nearest [OF zu False ht(1), of "other d"] u
      by (cases d) (simp_all add: rb_step_def first_or_null_append last_or_null_append)
  qed
qed

text \<open>A place in the order is a place in the tree.\<close>

lemma inorder_split:
  assumes "distinct (inorder T)" and "inorder T = xs @ node # ys"
  obtains C l c r where "T = plug C (N l node c r)" "xs = cpre C @ inorder l" "ys = inorder r @ cpost C"
proof -
  have "node \<in> addrs T" using assms(2) by simp
  from position_of [OF this] obtain C l c r where T: "T = plug C (N l node c r)" .
  then have eq: "(cpre C @ inorder l) @ node # (inorder r @ cpost C) = xs @ node # ys" using assms(2) by (simp add: inorder_plug)
  have "distinct (xs @ node # ys)" "distinct ((cpre C @ inorder l) @ node # (inorder r @ cpost C))"
    using assms eq by auto
  then have "node \<notin> set xs" "node \<notin> set (cpre C @ inorder l)" "node \<notin> set ys" "node \<notin> set (inorder r @ cpost C)" by auto
  with eq have "cpre C @ inorder l = xs \<and> inorder r @ cpost C = ys" by (subst (asm) append_Cons_eq_iff) auto
  with T show thesis by (intro that) auto
qed

lemma neighbours_ok:
  assumes t: "trep s T" and io: "inorder T = xs @ node # ys" and fuel: "height T < fuel"
  shows "aosl_rb_next fuel s node = Ret (first_or_null ys)" and "aosl_rb_prev fuel s node = Ret (last_or_null xs)"
proof -
  have "distinct (inorder T)" using t by (simp add: trep_def)
  from inorder_split [OF this io] obtain C l c r where
    T: "T = plug C (N l node c r)" "xs = cpre C @ inorder l" "ys = inorder r @ cpost C" .
  have z: "zrep s C (N l node c r)" using t T by (simp add: zrep_def)
  have "length C + height (N l node c r) < fuel" using height_plug [of C "N l node c r"] fuel T(1) by simp
  note st = step_nearest [OF z this]
  show "aosl_rb_next fuel s node = Ret (first_or_null ys)" "aosl_rb_prev fuel s node = Ret (last_or_null xs)"
    using st [of R] st [of L] T by (simp_all add: aosl_rb_next_def aosl_rb_prev_def)
qed

lemma ends_ok:
  assumes t: "trep s T" and fuel: "height T < fuel"
  shows "aosl_rb_first fuel s = Ret (first_or_null (inorder T))" and "aosl_rb_last fuel s = Ret (last_or_null (inorder T))"
proof -
  have z: "zrep s [] T" and r: "root_node s = root_ptr T" using t by (auto simp: trep_def)
  have nz: "root_ptr T = 0 \<longleftrightarrow> T = E" using zrep_nonzero [OF z] by (simp add: root_ptr_0_iff)
  show "aosl_rb_first fuel s = Ret (first_or_null (inorder T))" "aosl_rb_last fuel s = Ret (last_or_null (inorder T))"
    using descend_nearest [OF z, of fuel L] descend_nearest [OF z, of fuel R] fuel r nz
    by (auto simp: aosl_rb_first_def aosl_rb_last_def)
qed

subsection \<open>Traversals\<close>

text \<open>A walk over a list of nodes that stops when the callback says so.\<close>

fun walk :: "'a walk_func \<Rightarrow> ptr list \<Rightarrow> int \<times> 'a \<Rightarrow> int \<times> 'a" where
  "walk func [] a = a"
| "walk func (p # ps) a = (if fst a = 0 then walk func ps (func p (snd a)) else a)"

lemma walk_done [simp]: "fst a \<noteq> 0 \<Longrightarrow> walk func ps a = a"
  by (cases ps) simp_all

lemma walk_append: "walk func (ps @ qs) a = walk func qs (walk func ps a)"
  by (induction ps arbitrary: a) auto

primrec preorder :: "rbt \<Rightarrow> ptr list" where
  "preorder E = []"
| "preorder (N l a c r) = a # preorder l @ preorder r"

primrec postorder :: "rbt \<Rightarrow> ptr list" where
  "postorder E = []"
| "postorder (N l a c r) = postorder l @ postorder r @ [a]"

lemma visit_node_walk: "visit_node func p a = Ret (walk func [p] a)"
  by (simp add: visit_node_def)

lemma unless_done_walk: "f a = Ret (walk func ps a) \<Longrightarrow> unless_done f a = Ret (walk func ps a)"
  by (simp add: unless_done_def)

lemma traverse_ok:
  "rep (heap s) par t \<Longrightarrow> heap s 0 = None \<Longrightarrow> height t < fuel \<Longrightarrow>
     rb_traverse_dlr fuel s func (root_ptr t) a = Ret (walk func (preorder t) a)
   \<and> rb_traverse_ldr fuel s func (root_ptr t) a = Ret (walk func (inorder t) a)
   \<and> rb_traverse_lrd fuel s func (root_ptr t) a = Ret (walk func (postorder t) a)"
proof (induction t arbitrary: par fuel a)
  case E
  then show ?case by (cases fuel) simp_all
next
  case (N l p c r)
  then obtain k where k: "fuel = Suc k" by (cases fuel) auto
  have p0: "p \<noteq> 0" and d: "deref s p = Ret (cell L par c (root_ptr l) (root_ptr r))"
    using N.prems(1,2) by (auto simp: deref_def intro: gr0I)
  have "rep (heap s) p l" "rep (heap s) p r" "height l < k" "height r < k" using N.prems k by auto
  note sub = N.IH(1) [OF this(1) N.prems(2) this(3)] N.IH(2) [OF this(2) N.prems(2) this(4)]
  have l: "unless_done (rb_traverse_dlr k s func (root_ptr l)) b = Ret (walk func (preorder l) b)"
    "unless_done (rb_traverse_ldr k s func (root_ptr l)) b = Ret (walk func (inorder l) b)"
    "unless_done (rb_traverse_lrd k s func (root_ptr l)) b = Ret (walk func (postorder l) b)" for b
    using sub(1) by (simp_all add: unless_done_walk)
  have r: "unless_done (rb_traverse_dlr k s func (root_ptr r)) b = Ret (walk func (preorder r) b)"
    "unless_done (rb_traverse_ldr k s func (root_ptr r)) b = Ret (walk func (inorder r) b)"
    "unless_done (rb_traverse_lrd k s func (root_ptr r)) b = Ret (walk func (postorder r) b)" for b
    using sub(2) by (simp_all add: unless_done_walk)
  show ?case
    using p0 d k by (simp add: l r visit_node_walk walk_append del: walk.simps)
      (simp add: walk_append [symmetric] walk_append [of func "[p]", symmetric, simplified])
qed

subsection \<open>Replacing a node\<close>

lemma replace_node_ok:
  assumes t: "trep s (plug C (N l victim c r))" and new: "new \<notin> addrs (plug C (N l victim c r))" "heap s new \<noteq> None"
  shows "\<exists>s'. aosl_rb_replace_node victim new s = Ret s' \<and> trep s' (plug C (N l new c r)) \<and> count s' = count s"
proof -
  let ?cell = "cell L (cpar C) c (root_ptr l) (root_ptr r)"
  have z: "zrep s C (N l victim c r)" using t by (simp add: zrep_def)
  have "new \<noteq> 0" using new(2) t by (auto simp: trep_def intro: gr0I)
  from splice_ok [OF z new(1) this] obtain s2 s3 s4 where
    s: "relink L (cpar C) victim new s = Ret s2"
    "(if root_ptr l \<noteq> 0 then rb_set_parent (root_ptr l) new s2 else Ret s2) = Ret s3"
    "(if root_ptr r \<noteq> 0 then rb_set_parent (root_ptr r) new s3 else Ret s3) = Ret s4"
    "\<forall>s' \<in> {s2, s3, s4}. deref s' victim = Ret ?cell \<and> heap s' new = heap s new"
    "zrep (s4\<lparr>heap := (heap s4)(new \<mapsto> ?cell)\<rparr>) C (N l new c r)" "keeps (addrs (plug C (N l victim c r))) s s4" .
  have d: "deref s victim = Ret ?cell" using zrep_deref [of s C L] z by simp
  have "upd_node new (\<lambda>_. ?cell) s4 = Ret (s4\<lparr>heap := (heap s4)(new \<mapsto> ?cell)\<rparr>)"
    using s(4) new(2) by (auto simp: upd_node_def deref_def split: option.splits)
  then have "aosl_rb_replace_node victim new s = Ret (s4\<lparr>heap := (heap s4)(new \<mapsto> ?cell)\<rparr>)"
    using d s(1-4) by (simp only: aosl_rb_replace_node_def ebind.simps cell_sel cell_L_sel ball_simps simp_thms)
  with s(5,6) show ?thesis by (auto simp: zrep_def keeps_def)
qed

subsection \<open>Height and size\<close>

lemma rbh_height: "rbh t n \<Longrightarrow> height t \<le> 2 * n + (if isred t then 1 else 0)"
proof (induction t n rule: rbh.induct)
  case (2 l a r n)
  then show ?case by auto
next
  case (3 l a r n)
  then obtain m where m: "n = Suc m" "rbh l m" "rbh r m" by (cases n) auto
  with 3(1,2) [of m] show ?case by (auto split: if_splits)
qed auto

lemma rbh_size: "rbh t n \<Longrightarrow> 2 ^ n \<le> Suc (length (inorder t))"
proof (induction t n rule: rbh.induct)
  case (3 l a r n)
  then obtain m where m: "n = Suc m" "rbh l m" "rbh r m" by (cases n) auto
  with 3(1,2) [of m] show ?case by auto
qed auto

lemma height_le_length: "height t \<le> length (inorder t)"
  by (induction t) auto

subsection \<open>Clearing\<close>

lemma trep_free:
  assumes "trep s T" and "p \<notin> addrs T"
  shows "trep (s\<lparr>heap := (heap s)(p := None)\<rparr>) T"
  using assms by (auto simp: trep_def)

lemma clear_ok:
  assumes "trep s T" and "rb_tree T" and "length (inorder T) < fuel"
  shows "\<exists>ps s'. aosl_rb_clear fuel s = Ret (ps, s') \<and> trep s' E \<and> distinct ps \<and> set ps = addrs T
    \<and> (\<forall>p. heap s' p = (if p \<in> addrs T then None else heap s p))"
  using assms
proof (induction fuel arbitrary: s T)
  case (Suc fuel)
  show ?case
  proof (cases "T = E")
    case True
    with Suc.prems(1) show ?thesis by (auto simp: trep_def)
  next
    case False
    let ?p = "root_node s"
    have p: "?p \<in> addrs T" "?p \<noteq> 0"
      using Suc.prems(1) False root_ptr_in [OF False] zrep_nonzero [of s "[]" T] by (auto simp: trep_def intro: gr0I)
    have "height T < Suc fuel" using Suc.prems(3) height_le_length [of T] by simp
    from erase_ok [OF Suc.prems(1,2) p(1) this] obtain s1 T1 where
      s1: "aosl_rb_erase (Suc fuel) ?p s = Ret s1" "trep s1 T1" "rb_tree T1" "inorder T1 = remove1 ?p (inorder T)"
      "\<forall>p. p \<notin> addrs T \<longrightarrow> heap s1 p = heap s p"
      unfolding erase_result_def by blast
    have dist: "distinct (inorder T)" using Suc.prems(1) by (simp add: trep_def)
    then have A: "addrs T1 = addrs T - {?p}" using s1(4) by simp
    let ?s2 = "s1\<lparr>heap := (heap s1)(?p := None)\<rparr>"
    have "trep ?s2 T1" using s1(2) A by (intro trep_free) auto
    moreover have "length (inorder T1) = length (inorder T) - 1" using s1(4) p(1) by (simp add: length_remove1)
    then have "length (inorder T1) < fuel" using Suc.prems(3) length_pos_if_in_set [OF p(1)] by linarith
    ultimately obtain ps s' where
      r: "aosl_rb_clear fuel ?s2 = Ret (ps, s')" "trep s' E" "distinct ps" "set ps = addrs T1"
      "\<forall>q. heap s' q = (if q \<in> addrs T1 then None else heap ?s2 q)"
      using Suc.IH [of ?s2 T1] s1(3) by blast
    have "heap s' q = (if q \<in> addrs T then None else heap s q)" for q
      using r(5) s1(5) A p(1) by auto
    with r(1-4) s1(1) p A show ?thesis by (auto simp: insert_absorb)
  qed
qed simp

subsection \<open>The memory of the nodes\<close>

text \<open>Insertion and removal neither allocate nor free: the addresses that are nodes stay the same.\<close>

definition node_mem :: "rb_root \<Rightarrow> ptr set" where
  "node_mem s = dom (heap s)"

lemma upd_node_mem: "upd_node p f s = Ret s' \<Longrightarrow> node_mem s' = node_mem s"
  by (auto simp: upd_node_def deref_def exec_simps node_mem_def split: option.splits if_splits)

lemma rb_set_mem:
  "rb_set_parent p q s = Ret s' \<Longrightarrow> node_mem s' = node_mem s" "rb_set_color p c s = Ret s' \<Longrightarrow> node_mem s' = node_mem s"
  "set_child d p q s = Ret s' \<Longrightarrow> node_mem s' = node_mem s"
  by (auto simp: rb_set_parent_def rb_set_color_def set_child_def dest: upd_node_mem)

lemma node_mem_root [simp]: "node_mem (s\<lparr>root_node := p\<rparr>) = node_mem s" "node_mem (s\<lparr>count := n\<rparr>) = node_mem s"
  by (simp_all add: node_mem_def)

lemma relink_mem: "relink d p a b s = Ret s' \<Longrightarrow> node_mem s' = node_mem s"
  by (auto simp: relink_def exec_simps split: if_splits dest: rb_set_mem)

lemma rotate_mem: "rb_rotate d p s = Ret s' \<Longrightarrow> node_mem s' = node_mem s"
  by (auto simp: rb_rotate_def exec_simps Let_def split: if_splits dest!: rb_set_mem relink_mem)

lemma erase_parts_mem:
  "erase_red_sibling d p q s = Ret (r, s') \<Longrightarrow> node_mem s' = node_mem s"
  "erase_inner_nephew d p q s = Ret (r, s') \<Longrightarrow> node_mem s' = node_mem s"
  "erase_finish d p q s = Ret s' \<Longrightarrow> node_mem s' = node_mem s"
  by (auto simp: erase_red_sibling_def erase_inner_nephew_def erase_finish_def exec_simps Let_def split: if_splits dest!: rb_set_mem rotate_mem)

lemma erase_fix_mem: "rb_erase_fix fuel node parent s = Ret (r, s') \<Longrightarrow> node_mem s' = node_mem s"
proof (induction fuel arbitrary: node parent s)
  case (Suc fuel)
  from Suc.prems show ?case
    by (auto simp: rb_erase_fix.simps exec_simps Let_def split: if_splits prod.splits dest!: rb_set_mem erase_parts_mem Suc.IH)
qed simp

lemma erase_color_mem: "rb_erase_color fuel node parent s = Ret s' \<Longrightarrow> node_mem s' = node_mem s"
  by (auto simp: rb_erase_color_def exec_simps split: if_splits dest!: rb_set_mem erase_fix_mem)

lemma unlink_mem:
  "erase_unlink_one a b s = Ret (x, y, z, s') \<Longrightarrow> node_mem s' = node_mem s"
  "erase_unlink_two fuel a s = Ret (x, y, z, s') \<Longrightarrow> node_mem s' = node_mem s"
  by (auto simp: erase_unlink_one_def erase_unlink_two_def exec_simps Let_def split: if_splits dest!: rb_set_mem relink_mem upd_node_mem)

lemma erase_mem:
  assumes "aosl_rb_erase fuel node s = Ret s'"
  shows "node_mem s' = node_mem s"
proof -
  from assms obtain n :: rb_node and x where
    x: "(if rb_left n = 0 then erase_unlink_one node (rb_right n) s else if rb_right n = 0 then erase_unlink_one node (rb_left n) s
      else erase_unlink_two fuel node s) = Ret x" "erase_rest fuel x = Ret s'"
    unfolding aosl_rb_erase_def ebind_Ret_iff by blast
  obtain chld parent col s1 where x': "x = (chld, parent, col, s1)" by (cases x)
  with x obtain s2 where
    1: "(if rb_left n = 0 then erase_unlink_one node (rb_right n) s else if rb_right n = 0 then erase_unlink_one node (rb_left n) s
      else erase_unlink_two fuel node s) = Ret (chld, parent, col, s1)"
    "(if col = Black then rb_erase_color fuel chld parent s1 else Ret s1) = Ret s2" "s' = s2\<lparr>count := count s2 - 1\<rparr>"
    by (auto simp: ebind_Ret_iff)
  from 1(1) have "node_mem s1 = node_mem s" by (simp split: if_splits add: unlink_mem)
  moreover from 1(2) have "node_mem s2 = node_mem s1" by (auto split: if_splits dest: erase_color_mem)
  ultimately show ?thesis using 1(3) by simp
qed

lemma insert_fix_mem: "rb_insert_fix fuel node s = Ret s' \<Longrightarrow> node_mem s' = node_mem s"
proof (induction fuel arbitrary: node s)
  case (Suc fuel)
  from Suc.prems obtain n where n: "deref s node = Ret n" by (auto simp: rb_insert_fix.simps exec_simps)
  show ?case
  proof (cases "rb_parent n = 0")
    case True
    with Suc.prems n show ?thesis by (simp add: rb_insert_fix.simps)
  next
    case False
    with Suc.prems n obtain p where p: "deref s (rb_parent n) = Ret p" by (auto simp: rb_insert_fix.simps Let_def ebind_Ret_iff)
    show ?thesis
    proof (cases "rb_color p = Red")
      case Red: True
      with Suc.prems n False p obtain g where g: "deref s (rb_parent p) = Ret g" by (auto simp: rb_insert_fix.simps Let_def ebind_Ret_iff)
      define d where "d = (if rb_parent n = rb_left g then L else R)"
      from Suc.prems n False p Red g d_def obtain ur where ur: "node_is_red s (child (other d) g) = Ret ur"
        by (auto simp: rb_insert_fix.simps exec_simps Let_def)
      show ?thesis
      proof (cases ur)
        case True
        with Suc.prems n False p Red g d_def ur show ?thesis
          by (auto simp: rb_insert_fix.simps exec_simps Let_def simp del: child.simps dest!: rb_set_mem Suc.IH)
      next
        case nur: False
        let ?m = "if child (other d) p = node then ebind (rb_rotate d (rb_parent n) s) (\<lambda>s. Ret (rb_parent n, node, s)) else Ret (node, rb_parent n, s)"
        have "rb_insert_fix (Suc fuel) node s = ebind ?m (\<lambda>(node, parent, s). ebind (rb_set_color parent Black s) (\<lambda>s.
            ebind (rb_set_color (rb_parent p) Red s) (\<lambda>s. ebind (rb_rotate (other d) (rb_parent p) s) (\<lambda>s. rb_insert_fix fuel node s))))"
          using n False p Red g ur nur unfolding rb_insert_fix.simps Let_def d_def by simp
        with Suc.prems obtain x where x: "?m = Ret x"
          "(\<lambda>(node, parent, s). ebind (rb_set_color parent Black s) (\<lambda>s. ebind (rb_set_color (rb_parent p) Red s) (\<lambda>s.
            ebind (rb_rotate (other d) (rb_parent p) s) (\<lambda>s. rb_insert_fix fuel node s)))) x = Ret s'"
          by (simp only:) (erule ebind_RetE)
        obtain a b s1 where "x = (a, b, s1)" by (cases x)
        moreover from this x(1) have "node_mem s1 = node_mem s" by (auto simp: exec_simps split: if_splits dest: rotate_mem)
        ultimately show ?thesis using x(2) by (auto simp: exec_simps dest!: rb_set_mem rotate_mem Suc.IH)
      qed
    qed (use Suc.prems n False p in \<open>simp add: rb_insert_fix.simps\<close>)
  qed
qed simp

lemma rb_insert_mem: "rb_insert fuel node link parent s = Ret s' \<Longrightarrow> node_mem s' = node_mem s"
  by (cases link; auto simp: rb_insert_def rb_link_node_def store_link_def aosl_rb_insert_color_def exec_simps
      dest!: rb_set_mem upd_node_mem insert_fix_mem)

subsection \<open>The contract with the users of the tree\<close>

text \<open>
  What timers, thread tables and thread-local storage rely on: a collection of nodes in order.
  \<open>holds s xs\<close>: the nodes of \<open>s\<close> are \<open>xs\<close>, in order. \<open>mem s p\<close>: \<open>p\<close> is the address of a node's memory.
  A new node goes after all nodes that do not compare greater.
\<close>

lemma sorted_insert_mid:
  assumes "sorted_wrt (\<lambda>p q. key p \<le> key q) (ys @ zs)" and "\<forall>p \<in> set ys. key p \<le> (key n :: int)" and "\<forall>p \<in> set zs. key n < key p"
  shows "sorted_wrt (\<lambda>p q. key p \<le> key q) (ys @ n # zs)"
  using assms by (auto simp: sorted_wrt_append intro: less_imp_le)

locale ordered_nodes =
  fixes holds :: "'s \<Rightarrow> ptr list \<Rightarrow> bool"
    and mem :: "'s \<Rightarrow> ptr \<Rightarrow> bool"
    and insert_node :: "(ptr \<Rightarrow> int) \<Rightarrow> ptr \<Rightarrow> 's \<Rightarrow> 's exec"
    and erase_node :: "ptr \<Rightarrow> 's \<Rightarrow> 's exec"
    and find_node :: "(ptr \<Rightarrow> int) \<Rightarrow> 's \<Rightarrow> ptr exec"
    and first_node :: "'s \<Rightarrow> ptr exec"
  assumes insert_law: "holds s xs \<Longrightarrow> ordered_by cmp xs \<Longrightarrow> n \<notin> set xs \<Longrightarrow> mem s n \<Longrightarrow> Suc (length xs) < 2 ^ 64 \<Longrightarrow>
      \<exists>s'. insert_node cmp n s = Ret s' \<and> holds s' (takeWhile (\<lambda>p. cmp p \<le> 0) xs @ n # dropWhile (\<lambda>p. cmp p \<le> 0) xs)
        \<and> (\<forall>p. mem s p \<longrightarrow> mem s' p)"
    and erase_law: "holds s xs \<Longrightarrow> n \<in> set xs \<Longrightarrow> \<exists>s'. erase_node n s = Ret s' \<and> holds s' (remove1 n xs)"
    and find_law: "holds s xs \<Longrightarrow> ordered_by cmp xs \<Longrightarrow>
      \<exists>p. find_node cmp s = Ret p \<and> (p = 0 \<and> (\<forall>q \<in> set xs. cmp q \<noteq> 0) \<or> p \<in> set xs \<and> cmp p = 0)"
    and first_law: "holds s xs \<Longrightarrow> first_node s = Ret (first_or_null xs)"
    and no_null: "holds s xs \<Longrightarrow> 0 \<notin> set xs \<and> distinct xs"
begin

text \<open>
  Nodes ordered by a key (a timer's expiry, a thread's id): insertion keeps the order, and the new
  node goes behind the nodes of the same key.
\<close>

lemma insert_keyed:
  fixes key :: "ptr \<Rightarrow> int"
  assumes h: "holds s xs" and srt: "sorted (map key xs)" and n: "n \<notin> set xs" "mem s n" "Suc (length xs) < 2 ^ 64"
  shows "\<exists>s' ys zs. insert_node (\<lambda>p. key p - key n) n s = Ret s' \<and> holds s' (ys @ n # zs) \<and> xs = ys @ zs
    \<and> sorted (map key (ys @ n # zs)) \<and> (\<forall>p \<in> set ys. key p \<le> key n) \<and> (\<forall>p \<in> set zs. key n < key p)"
proof -
  let ?P = "\<lambda>p. key p - key n \<le> 0"
  have mono: "sorted_wrt (\<lambda>p q. key p \<le> key q) xs" using srt by (simp add: sorted_map)
  then have "ordered_by (\<lambda>p. key p - key n) xs"
    unfolding ordered_by_def by (rule sorted_wrt_mono_rel [rotated]) (auto simp: sgn_if)
  from insert_law [OF h this n] obtain s' where
    s': "insert_node (\<lambda>p. key p - key n) n s = Ret s'" "holds s' (takeWhile ?P xs @ n # dropWhile ?P xs)" by blast
  have lo: "\<forall>p \<in> set (takeWhile ?P xs). key p \<le> key n" by (auto dest: set_takeWhileD)
  have hi: "\<forall>p \<in> set (dropWhile ?P xs). key n < key p"
  proof (cases "dropWhile ?P xs")
    case Nil
    show ?thesis unfolding Nil by simp
  next
    case (Cons z zs)
    with hd_dropWhile [of ?P xs] have "\<not> ?P z" by (metis list.distinct(1) list.sel(1))
    moreover have "sorted_wrt (\<lambda>p q. key p \<le> key q) (z # zs)"
      using mono Cons by (metis sorted_wrt_append takeWhile_dropWhile_id)
    ultimately show ?thesis unfolding Cons by auto
  qed
  define ys zs where "ys = takeWhile ?P xs" and "zs = dropWhile ?P xs"
  note defs = ys_def [symmetric] zs_def [symmetric]
  have xs: "xs = ys @ zs" by (simp add: ys_def zs_def)
  from sorted_insert_mid [OF mono [unfolded xs] lo [unfolded defs] hi [unfolded defs]]
  have "sorted (map key (ys @ n # zs))" by (simp only: sorted_map)
  with s' lo hi xs show ?thesis unfolding defs by blast
qed

end

definition rb_fuel :: "rb_root \<Rightarrow> nat" where
  "rb_fuel s = Suc (unat (count s))"

definition rb_holds :: "rb_root \<Rightarrow> ptr list \<Rightarrow> bool" where
  "rb_holds s xs \<longleftrightarrow> (\<exists>T. trep s T \<and> rb_tree T \<and> inorder T = xs) \<and> count s = of_nat (length xs) \<and> length xs < 2 ^ 64"

lemma unat_of_nat_u64: "n < 2 ^ 64 \<Longrightarrow> unat (of_nat n :: u64) = n"
  by (simp add: unat_of_nat take_bit_nat_eq_self)

text \<open>As many rounds as there are nodes, and one more, are enough for every loop.\<close>

lemma rb_holds_fuel:
  assumes "rb_holds s xs"
  obtains T where "trep s T" "rb_tree T" "inorder T = xs" "height T < rb_fuel s"
proof -
  from assms obtain T where T: "trep s T" "rb_tree T" "inorder T = xs" and c: "unat (count s) = length xs"
    by (auto simp: rb_holds_def unat_of_nat_u64)
  have "height T < rb_fuel s" using height_le_length [of T] T(3) c by (simp add: rb_fuel_def)
  with T show thesis by (rule that)
qed

lemma rep_dom: "rep h par t \<Longrightarrow> p \<in> addrs t \<Longrightarrow> h p \<noteq> None"
  by (induction t arbitrary: par) auto

interpretation rbn: ordered_nodes rb_holds "\<lambda>s p. heap s p \<noteq> None" "\<lambda>cmp n s. aosl_rb_insert_node (rb_fuel s) cmp n s"
  "\<lambda>n s. aosl_rb_erase (rb_fuel s) n s" "\<lambda>cmp s. aosl_vfind_rb_node (rb_fuel s) cmp s" "\<lambda>s. aosl_rb_first (rb_fuel s) s"
proof
  fix s xs cmp and n :: ptr
  assume h: "rb_holds s xs"
  from rb_holds_fuel [OF h] obtain T where T: "trep s T" "rb_tree T" "inorder T = xs" "height T < rb_fuel s" .
  have c: "count s = of_nat (length xs)" using h by (simp add: rb_holds_def)
  show "0 \<notin> set xs \<and> distinct xs" using T zrep_nonzero [of s "[]" T] by (auto simp: trep_def)
  show "aosl_rb_first (rb_fuel s) s = Ret (first_or_null xs)" using ends_ok [OF T(1,4)] T(3) by simp
  show "\<exists>p. aosl_vfind_rb_node (rb_fuel s) cmp s = Ret p \<and> (p = 0 \<and> (\<forall>q \<in> set xs. cmp q \<noteq> 0) \<or> p \<in> set xs \<and> cmp p = 0)"
    if "ordered_by cmp xs"
    using find_node_ok [of s "[]" T "rb_fuel s" cmp] T that by (simp add: aosl_vfind_rb_node_def trep_def)
  show "\<exists>s'. aosl_rb_erase (rb_fuel s) n s = Ret s' \<and> rb_holds s' (remove1 n xs)" if n: "n \<in> set xs"
  proof -
    obtain k where "length xs = Suc k" using n by (cases xs) auto
    then have "count s - 1 = of_nat (length xs - 1)" using c by simp
    moreover have "erase_result (aosl_rb_erase (rb_fuel s) n s) n T s" using erase_ok [OF T(1,2) _ T(4)] T(3) n by blast
    moreover have "length xs - 1 < 2 ^ 64" using h unfolding rb_holds_def by linarith
    ultimately show ?thesis using T(3) n by (auto simp: erase_result_def rb_holds_def length_remove1)
  qed
  show "\<exists>s'. aosl_rb_insert_node (rb_fuel s) cmp n s = Ret s'
      \<and> rb_holds s' (takeWhile (\<lambda>p. cmp p \<le> 0) xs @ n # dropWhile (\<lambda>p. cmp p \<le> 0) xs)
      \<and> (\<forall>p. heap s p \<noteq> None \<longrightarrow> heap s' p \<noteq> None)"
    if "ordered_by cmp xs" "n \<notin> set xs" "heap s n \<noteq> None" "Suc (length xs) < 2 ^ 64"
  proof -
    have "length (takeWhile P xs) + length (dropWhile P xs) = length xs" for P
      by (metis length_append takeWhile_dropWhile_id)
    then have len: "length (takeWhile P xs @ n # dropWhile P xs) = Suc (length xs)" for P by simp
    from insert_node_ok [OF T(1,2) _ T(4)] that T(3) obtain s' T' where
      s': "aosl_rb_insert_node (rb_fuel s) cmp n s = Ret s'" "trep s' T'" "rb_tree T'"
      "inorder T' = takeWhile (\<lambda>p. cmp p \<le> 0) xs @ n # dropWhile (\<lambda>p. cmp p \<le> 0) xs" "count s' = count s + 1"
      "\<forall>p. p \<notin> insert n (addrs T) \<longrightarrow> heap s' p = heap s p" by blast
    have "set (takeWhile P xs) \<union> set (dropWhile P xs) = set xs" for P
      by (metis set_append takeWhile_dropWhile_id)
    then have A: "addrs T' = insert n (addrs T)" using s'(4) T(3) by auto
    have "heap s' p \<noteq> None" if "heap s p \<noteq> None" for p
      using that s'(2,6) A rep_dom [of "heap s'" 0 T' p] by (cases "p \<in> addrs T'") (auto simp: trep_def)
    then show ?thesis using s' c len that(4) by (auto simp: rb_holds_def)
  qed
qed

subsection \<open>Properties\<close>

abbreviation demo_node :: rb_node where
  "demo_node \<equiv> \<lparr>rb_parent = 0, rb_color = Black, rb_right = 0, rb_left = 0\<rparr>"

abbreviation demo :: rb_root where
  "demo \<equiv> \<lparr>heap = [4 \<mapsto> demo_node, 8 \<mapsto> demo_node], root_node = 4, count = 1\<rparr>"

lemma demo_trep: "trep demo (N E 4 Black E)" and demo_tree: "rb_tree (N E 4 Black E)"
  by (auto simp: trep_def cell_eq rb_tree_def intro: exI [of _ 1])

text \<open>
  C12. Insertion: \<^verbatim>\<open>aosl_rb_insert_node\<close> on a well-formed red-black tree returns (fuel above the height is
  enough), never dereferences a pointer that is not a node, leaves a well-formed red-black
  tree whose nodes in order are the old ones with the new node placed after every node
  that does not compare greater, counts it, and changes no memory outside the tree.
\<close>

theorem rb_insert_node_correct:
  assumes "trep s T" and "rb_tree T" and "ordered_by cmp (inorder T)" and "height T < fuel"
    and "node \<notin> addrs T" and "heap s node \<noteq> None"
  shows "\<exists>s' T'. aosl_rb_insert_node fuel cmp node s = Ret s' \<and> trep s' T' \<and> rb_tree T'
    \<and> inorder T' = takeWhile (\<lambda>p. cmp p \<le> 0) (inorder T) @ node # dropWhile (\<lambda>p. cmp p \<le> 0) (inorder T)
    \<and> count s' = count s + 1 \<and> (\<forall>p. p \<notin> insert node (addrs T) \<longrightarrow> heap s' p = heap s p)"
  by (rule insert_node_ok [OF assms])

theorem rb_insert_node_correct_witness:
  "\<exists>s' T'. aosl_rb_insert_node 2 (\<lambda>p. int p - 8) 8 demo = Ret s' \<and> trep s' T' \<and> rb_tree T' \<and> inorder T' = [4, 8]
    \<and> count s' = count demo + 1 \<and> (\<forall>p. p \<notin> {8, 4} \<longrightarrow> heap s' p = heap demo p)"
  using rb_insert_node_correct [OF demo_trep demo_tree, of "\<lambda>p. int p - 8" 2 8] by (simp add: ordered_by_def)

text \<open>
  C11. Removal: \<^verbatim>\<open>aosl_rb_erase\<close> of a node of a well-formed red-black tree returns, leaves a well-formed
  red-black tree with the same nodes in the same order but that one, counts it, and changes no
  memory outside the tree.
\<close>

theorem rb_erase_correct:
  assumes "trep s T" and "rb_tree T" and "node \<in> addrs T" and "height T < fuel"
  shows "\<exists>s' T'. aosl_rb_erase fuel node s = Ret s' \<and> trep s' T' \<and> rb_tree T' \<and> inorder T' = remove1 node (inorder T)
    \<and> count s' = count s - 1 \<and> (\<forall>p. p \<notin> addrs T \<longrightarrow> heap s' p = heap s p)"
  using erase_ok [OF assms] by (simp add: erase_result_def)

theorem rb_erase_correct_witness:
  "\<exists>s' T'. aosl_rb_erase 2 4 demo = Ret s' \<and> trep s' T' \<and> rb_tree T' \<and> inorder T' = []
    \<and> count s' = count demo - 1 \<and> (\<forall>p. p \<notin> {4} \<longrightarrow> heap s' p = heap demo p)"
  using rb_erase_correct [OF demo_trep demo_tree, of 4 2] by simp

text \<open>
  Search and \<^verbatim>\<open>aosl_rb_remove\<close>: null and no change exactly when no node of the ordered tree compares
  equal; otherwise some node that compares equal is returned and taken out of the tree.
\<close>

theorem rb_remove_correct:
  assumes "trep s T" and "rb_tree T" and "ordered_by cmp (inorder T)" and "height T < fuel"
  shows "\<exists>p s' T'. aosl_rb_remove fuel cmp s = Ret (p, s') \<and> trep s' T' \<and> rb_tree T' \<and> aosl_vfind_rb_node fuel cmp s = Ret p
    \<and> (if \<exists>q \<in> addrs T. cmp q = 0 then p \<in> addrs T \<and> cmp p = 0 \<and> inorder T' = remove1 p (inorder T) else p = 0 \<and> s' = s \<and> T' = T)"
proof -
  from find_node_ok [of s "[]" T fuel cmp] assms obtain p where
    p: "aosl_vfind_rb_node fuel cmp s = Ret p" "p = 0 \<and> (\<forall>q \<in> addrs T. cmp q \<noteq> 0) \<or> p \<in> addrs T \<and> cmp p = 0"
    by (auto simp: aosl_vfind_rb_node_def trep_def)
  have n0: "0 \<notin> addrs T" using zrep_nonzero [of s "[]" T] assms(1) by simp
  show ?thesis
  proof (cases "p \<in> addrs T")
    case True
    with n0 have "p \<noteq> 0" by (auto intro: gr0I)
    with erase_ok [OF assms(1,2) True assms(4)] p True n0 show ?thesis
      by (auto simp: erase_result_def aosl_rb_remove_def)
  next
    case False
    with p assms show ?thesis by (auto simp: aosl_rb_remove_def)
  qed
qed

theorem rb_remove_correct_witness:
  "\<exists>p s' T'. aosl_rb_remove 2 (\<lambda>p. int p - 4) demo = Ret (p, s') \<and> trep s' T' \<and> rb_tree T'
    \<and> aosl_vfind_rb_node 2 (\<lambda>p. int p - 4) demo = Ret p \<and> p = 4 \<and> inorder T' = []"
  using rb_remove_correct [OF demo_trep demo_tree, of "\<lambda>p. int p - 4" 2] by (force simp: ordered_by_def)

text \<open>
  Iteration: \<^verbatim>\<open>aosl_rb_first\<close> and \<^verbatim>\<open>aosl_rb_last\<close> are the ends of the order, \<^verbatim>\<open>aosl_rb_next\<close> and \<^verbatim>\<open>aosl_rb_prev\<close> the
  neighbours of a node in it, and null beyond the ends.
\<close>

theorem rb_iteration_correct:
  assumes "trep s T" and "inorder T = xs @ node # ys" and "height T < fuel"
  shows "aosl_rb_next fuel s node = Ret (first_or_null ys) \<and> aosl_rb_prev fuel s node = Ret (last_or_null xs)
    \<and> aosl_rb_first fuel s = Ret (first_or_null (xs @ [node])) \<and> aosl_rb_last fuel s = Ret (last_or_null (node # ys))"
  using neighbours_ok [OF assms] ends_ok [OF assms(1,3)] assms(2)
  by (cases xs) (simp_all add: last_or_null_def)

theorem rb_iteration_correct_witness: "aosl_rb_next 2 demo 4 = Ret 0 \<and> aosl_rb_first 2 demo = Ret 4"
  using rb_iteration_correct [OF demo_trep, of "[]" 4 "[]" 2] by simp

text \<open>
  The three traversals call the function on the nodes in pre-order, in-order and post-order, each
  node once, and stop at the first call that returns a non-zero value.
\<close>

theorem rb_traversals_correct:
  assumes "trep s T" and "height T < fuel"
  shows "aosl_rb_traverse_dlr fuel s func a = Ret (walk func (preorder T) (0, a))
    \<and> aosl_rb_traverse_ldr fuel s func a = Ret (walk func (inorder T) (0, a))
    \<and> aosl_rb_traverse_lrd fuel s func a = Ret (walk func (postorder T) (0, a))"
  using traverse_ok [of s 0 T fuel func "(0, a)"] assms
  by (auto simp: trep_def aosl_rb_traverse_dlr_def aosl_rb_traverse_ldr_def aosl_rb_traverse_lrd_def)

theorem rb_traversals_correct_witness:
  "aosl_rb_traverse_ldr 2 demo (\<lambda>p acc. (0, p # acc)) [] = Ret (0, [4])"
  using rb_traversals_correct [OF demo_trep, of 2 "\<lambda>p acc. (0, p # acc)" "[]"] by simp

text \<open>
  The height of a red-black tree of \<open>n\<close> nodes is at most \<open>2 log2 (n + 1)\<close>, which bounds the rounds of
  every loop over the tree.
\<close>

theorem rb_height_bound:
  assumes "rb_tree T"
  shows "2 ^ ((height T + 1) div 2) \<le> Suc (length (inorder T))"
proof -
  from assms obtain n where n: "rbh T n" "\<not> isred T" by (auto simp: rb_tree_def)
  from rbh_height [OF n(1)] n(2) have "(height T + 1) div 2 \<le> n" by simp
  then have "(2 :: nat) ^ ((height T + 1) div 2) \<le> 2 ^ n" by simp
  also have "\<dots> \<le> Suc (length (inorder T))" by (rule rbh_size [OF n(1)])
  finally show ?thesis .
qed

theorem rb_height_bound_witness: "2 ^ ((height (N E 4 Black E) + 1) div 2) \<le> Suc (length (inorder (N E 4 Black E)))"
  by (rule rb_height_bound [OF demo_tree])

text \<open>
  \<^verbatim>\<open>aosl_rb_clear\<close> erases and frees every node exactly once, ends with an empty tree, and leaves the
  other memory alone.
\<close>

theorem rb_clear_correct:
  assumes "trep s T" and "rb_tree T" and "length (inorder T) < fuel"
  shows "\<exists>ps s'. aosl_rb_clear fuel s = Ret (ps, s') \<and> trep s' E \<and> distinct ps \<and> set ps = addrs T
    \<and> (\<forall>p. heap s' p = (if p \<in> addrs T then None else heap s p))"
  by (rule clear_ok [OF assms])

theorem rb_clear_correct_witness:
  "\<exists>ps s'. aosl_rb_clear 2 demo = Ret (ps, s') \<and> trep s' E \<and> distinct ps \<and> set ps = {4}
    \<and> (\<forall>p. heap s' p = (if p \<in> {4} then None else heap demo p))"
  using rb_clear_correct [OF demo_trep demo_tree, of 2] by simp

text \<open>
  A tree ordered by a key (the expiry of a timer, the id of a thread) stays ordered by it when a
  node is inserted with the comparison by that key, and the new node goes behind the nodes
  of the same key: equal keys are served first come, first served. As many rounds as the
  node count says, and one more, are enough.
\<close>

theorem rb_insert_keyed:
  fixes key :: "ptr \<Rightarrow> int"
  assumes "rb_holds s xs" and "sorted (map key xs)" and "n \<notin> set xs" and "heap s n \<noteq> None" and "Suc (length xs) < 2 ^ 64"
  shows "\<exists>s' ys zs. aosl_rb_insert_node (rb_fuel s) (\<lambda>p. key p - key n) n s = Ret s' \<and> rb_holds s' (ys @ n # zs) \<and> xs = ys @ zs
    \<and> sorted (map key (ys @ n # zs)) \<and> (\<forall>p \<in> set ys. key p \<le> key n) \<and> (\<forall>p \<in> set zs. key n < key p)"
  by (rule rbn.insert_keyed [OF assms])

theorem rb_insert_keyed_witness:
  "\<exists>s' ys zs. aosl_rb_insert_node (rb_fuel demo) (\<lambda>p. 5 - 5) 8 demo = Ret s' \<and> rb_holds s' (ys @ 8 # zs) \<and> [4] = ys @ zs
    \<and> sorted (map (\<lambda>p. 5 :: int) (ys @ 8 # zs)) \<and> (\<forall>p \<in> set ys. (5 :: int) \<le> 5) \<and> (\<forall>p \<in> set zs. (5 :: int) < 5)"
proof (rule rb_insert_keyed)
  show "rb_holds demo [4]" unfolding rb_holds_def
    by (intro conjI exI [of _ "N E 4 Black E"] demo_trep demo_tree) simp_all
qed simp_all

text \<open>
  Replacing a node: the new node takes the victim's place, colour and links, and the tree is
  otherwise the same; nothing is rebalanced.
\<close>

theorem rb_replace_correct:
  assumes "trep s (plug C (N l victim c r))" and "new \<notin> addrs (plug C (N l victim c r))" and "heap s new \<noteq> None"
  shows "\<exists>s'. aosl_rb_replace_node victim new s = Ret s' \<and> trep s' (plug C (N l new c r)) \<and> count s' = count s"
  by (rule replace_node_ok [OF assms])

theorem rb_replace_correct_witness:
  "\<exists>s'. aosl_rb_replace_node 4 8 demo = Ret s' \<and> trep s' (plug [] (N E 8 Black E)) \<and> count s' = count demo"
  by (rule rb_replace_correct) (use demo_trep in simp_all)

end
