(* ===== verification/Aosl_List.thy ===== *)
theory Aosl_List
  imports Aosl_Prelude
begin

text \<open>
  The circular doubly linked lists of \<^verbatim>\<open>include/api/aosl_list.h\<close>, over a heap of list heads. The operations are
  the code's pointer assignments, one by one; \<open>ring h head xs\<close> says that the heap holds the list with
  head \<open>head\<close> and entries \<open>xs\<close>. The contract of a list with its users is the locale \<open>entry_list\<close>.
\<close>

record list_head =
  next_p :: ptr
  prev_p :: ptr

type_synonym lheap = "ptr \<rightharpoonup> list_head"

definition AOSL_LIST_POISON1 :: ptr where "AOSL_LIST_POISON1 = 0x00100100 + 1"
definition AOSL_LIST_POISON2 :: ptr where "AOSL_LIST_POISON2 = 0x00200200 + 3"

definition lh_get :: "lheap \<Rightarrow> ptr \<Rightarrow> list_head exec" where
  "lh_get h p = (case h p of None \<Rightarrow> Fault | Some n \<Rightarrow> Ret n)"

definition lh_upd :: "ptr \<Rightarrow> (list_head \<Rightarrow> list_head) \<Rightarrow> lheap \<Rightarrow> lheap exec" where
  "lh_upd p f h = ebind (lh_get h p) (\<lambda>n. Ret (h(p \<mapsto> f n)))"

definition set_next :: "ptr \<Rightarrow> ptr \<Rightarrow> lheap \<Rightarrow> lheap exec" where
  "set_next p q = lh_upd p (\<lambda>n. n\<lparr>next_p := q\<rparr>)"

definition set_prev :: "ptr \<Rightarrow> ptr \<Rightarrow> lheap \<Rightarrow> lheap exec" where
  "set_prev p q = lh_upd p (\<lambda>n. n\<lparr>prev_p := q\<rparr>)"

definition aosl_list_head_init :: "ptr \<Rightarrow> lheap \<Rightarrow> lheap exec" where
  "aosl_list_head_init l h = ebind (set_next l l h) (set_prev l l)"

definition aosl_list_head_poison :: "ptr \<Rightarrow> lheap \<Rightarrow> lheap exec" where
  "aosl_list_head_poison l h = ebind (set_next l AOSL_LIST_POISON1 h) (set_prev l AOSL_LIST_POISON2)"

definition list_add_between :: "ptr \<Rightarrow> ptr \<Rightarrow> ptr \<Rightarrow> lheap \<Rightarrow> lheap exec" where
  "list_add_between new prev nxt h =
     ebind (set_prev nxt new h) (\<lambda>h.
     ebind (set_next new nxt h) (\<lambda>h.
     ebind (set_prev new prev h) (\<lambda>h.
     set_next prev new h)))"

definition aosl_list_add :: "ptr \<Rightarrow> ptr \<Rightarrow> lheap \<Rightarrow> lheap exec" where
  "aosl_list_add new head h = ebind (lh_get h head) (\<lambda>n. list_add_between new head (next_p n) h)"

definition aosl_list_add_tail :: "ptr \<Rightarrow> ptr \<Rightarrow> lheap \<Rightarrow> lheap exec" where
  "aosl_list_add_tail new head h = ebind (lh_get h head) (\<lambda>n. list_add_between new (prev_p n) head h)"

definition list_del_between :: "ptr \<Rightarrow> ptr \<Rightarrow> lheap \<Rightarrow> lheap exec" where
  "list_del_between prev nxt h = ebind (set_prev nxt prev h) (set_next prev nxt)"

definition list_del_entry :: "ptr \<Rightarrow> lheap \<Rightarrow> lheap exec" where
  "list_del_entry entry h = ebind (lh_get h entry) (\<lambda>n. list_del_between (prev_p n) (next_p n) h)"

definition aosl_list_del :: "ptr \<Rightarrow> lheap \<Rightarrow> lheap exec" where
  "aosl_list_del entry h = ebind (list_del_entry entry h) (aosl_list_head_poison entry)"

definition aosl_list_del_init :: "ptr \<Rightarrow> lheap \<Rightarrow> lheap exec" where
  "aosl_list_del_init entry h = ebind (list_del_entry entry h) (aosl_list_head_init entry)"

definition aosl_list_move :: "ptr \<Rightarrow> ptr \<Rightarrow> lheap \<Rightarrow> lheap exec" where
  "aosl_list_move l head h = ebind (list_del_entry l h) (aosl_list_add l head)"

definition aosl_list_move_tail :: "ptr \<Rightarrow> ptr \<Rightarrow> lheap \<Rightarrow> lheap exec" where
  "aosl_list_move_tail l head h = ebind (list_del_entry l h) (aosl_list_add_tail l head)"

definition aosl_list_empty :: "ptr \<Rightarrow> lheap \<Rightarrow> bool exec" where
  "aosl_list_empty head h = ebind (lh_get h head) (\<lambda>n. Ret (next_p n = head))"

definition aosl_list_valid :: "ptr \<Rightarrow> lheap \<Rightarrow> bool exec" where
  "aosl_list_valid head h =
     (if head = 0 then Ret False
      else ebind (lh_get h head) (\<lambda>n. Ret (\<not> (next_p n = AOSL_LIST_POISON1 \<or> prev_p n = AOSL_LIST_POISON2))))"

definition aosl_list_empty_careful :: "ptr \<Rightarrow> lheap \<Rightarrow> bool exec" where
  "aosl_list_empty_careful head h = ebind (lh_get h head) (\<lambda>n. Ret (next_p n = head \<and> next_p n = prev_p n))"

definition aosl_list_is_singular :: "ptr \<Rightarrow> lheap \<Rightarrow> bool exec" where
  "aosl_list_is_singular head h =
     ebind (aosl_list_empty head h) (\<lambda>e. ebind (lh_get h head) (\<lambda>n. Ret (\<not> e \<and> next_p n = prev_p n)))"

definition list_splice :: "ptr \<Rightarrow> ptr \<Rightarrow> ptr \<Rightarrow> lheap \<Rightarrow> lheap exec" where
  "list_splice l prev nxt h =
     ebind (lh_get h l) (\<lambda>n. let first = next_p n; last = prev_p n in
     ebind (set_prev first prev h) (\<lambda>h.
     ebind (set_next prev first h) (\<lambda>h.
     ebind (set_next last nxt h) (\<lambda>h.
     set_prev nxt last h))))"

definition aosl_list_splice_tail_init :: "ptr \<Rightarrow> ptr \<Rightarrow> lheap \<Rightarrow> lheap exec" where
  "aosl_list_splice_tail_init l head h =
     ebind (aosl_list_empty l h) (\<lambda>e.
     if \<not> e then
       ebind (lh_get h head) (\<lambda>n.
       ebind (list_splice l (prev_p n) head h) (aosl_list_head_init l))
     else Ret h)"

definition aosl_list_head :: "ptr \<Rightarrow> lheap \<Rightarrow> ptr exec" where
  "aosl_list_head head h =
     ebind (aosl_list_empty head h) (\<lambda>e. if \<not> e then ebind (lh_get h head) (\<lambda>n. Ret (next_p n)) else Ret 0)"

definition aosl_list_next :: "ptr \<Rightarrow> ptr \<Rightarrow> lheap \<Rightarrow> ptr exec" where
  "aosl_list_next head node h = ebind (lh_get h node) (\<lambda>n. Ret (if next_p n \<noteq> head then next_p n else 0))"

definition aosl_list_prev :: "ptr \<Rightarrow> ptr \<Rightarrow> lheap \<Rightarrow> ptr exec" where
  "aosl_list_prev head node h = ebind (lh_get h node) (\<lambda>n. Ret (if prev_p n \<noteq> head then prev_p n else 0))"

definition aosl_list_tail :: "ptr \<Rightarrow> lheap \<Rightarrow> ptr exec" where
  "aosl_list_tail head h =
     ebind (aosl_list_empty head h) (\<lambda>e. if \<not> e then ebind (lh_get h head) (\<lambda>n. Ret (prev_p n)) else Ret 0)"

definition aosl_list_remove_head :: "ptr \<Rightarrow> lheap \<Rightarrow> (ptr \<times> lheap) exec" where
  "aosl_list_remove_head head h =
     ebind (aosl_list_empty head h) (\<lambda>e.
     if \<not> e then ebind (lh_get h head) (\<lambda>n. ebind (aosl_list_del (next_p n) h) (\<lambda>h'. Ret (next_p n, h')))
     else Ret (0, h))"

definition aosl_list_remove_head_init :: "ptr \<Rightarrow> lheap \<Rightarrow> (ptr \<times> lheap) exec" where
  "aosl_list_remove_head_init head h =
     ebind (aosl_list_empty head h) (\<lambda>e.
     if \<not> e then ebind (lh_get h head) (\<lambda>n. ebind (aosl_list_del_init (next_p n) h) (\<lambda>h'. Ret (next_p n, h')))
     else Ret (0, h))"

definition aosl_list_remove_tail :: "ptr \<Rightarrow> lheap \<Rightarrow> (ptr \<times> lheap) exec" where
  "aosl_list_remove_tail head h =
     ebind (aosl_list_empty head h) (\<lambda>e.
     if \<not> e then ebind (lh_get h head) (\<lambda>n. ebind (aosl_list_del (prev_p n) h) (\<lambda>h'. Ret (prev_p n, h')))
     else Ret (0, h))"

definition aosl_list_remove_tail_init :: "ptr \<Rightarrow> lheap \<Rightarrow> (ptr \<times> lheap) exec" where
  "aosl_list_remove_tail_init head h =
     ebind (aosl_list_empty head h) (\<lambda>e.
     if \<not> e then ebind (lh_get h head) (\<lambda>n. ebind (aosl_list_del_init (prev_p n) h) (\<lambda>h'. Ret (prev_p n, h')))
     else Ret (0, h))"

text \<open>The loop of \<^verbatim>\<open>aosl_list_for_each\<close>, collecting the entries it visits.\<close>

fun list_walk :: "nat \<Rightarrow> ptr \<Rightarrow> ptr \<Rightarrow> lheap \<Rightarrow> ptr list exec" where
  "list_walk 0 head pos h = NoFuel"
| "list_walk (Suc fuel) head pos h =
     (if pos = head then Ret []
      else ebind (lh_get h pos) (\<lambda>n. ebind (list_walk fuel head (next_p n) h) (\<lambda>ps. Ret (pos # ps))))"

definition aosl_list_for_each :: "nat \<Rightarrow> ptr \<Rightarrow> lheap \<Rightarrow> ptr list exec" where
  "aosl_list_for_each fuel head h = ebind (lh_get h head) (\<lambda>n. list_walk fuel head (next_p n) h)"

subsection \<open>Lists in the heap\<close>

text \<open>\<open>chain h zs\<close>: neighbours in \<open>zs\<close> point at each other. A ring closes the chain through its head.\<close>

definition linked :: "lheap \<Rightarrow> ptr \<Rightarrow> ptr \<Rightarrow> bool" where
  "linked h p q \<longleftrightarrow> map_option next_p (h p) = Some q \<and> map_option prev_p (h q) = Some p"

fun chain :: "lheap \<Rightarrow> ptr list \<Rightarrow> bool" where
  "chain h (p # q # zs) \<longleftrightarrow> linked h p q \<and> chain h (q # zs)"
| "chain h _ = True"

definition ring :: "lheap \<Rightarrow> ptr \<Rightarrow> ptr list \<Rightarrow> bool" where
  "ring h head xs \<longleftrightarrow> chain h (head # xs @ [head]) \<and> distinct (head # xs) \<and> h 0 = None"

lemma chain_split: "chain h (as @ p # q # bs) \<longleftrightarrow> chain h (as @ [p]) \<and> linked h p q \<and> chain h (q # bs)"
  by (induction h as rule: chain.induct) auto

lemma chain_snoc: "ys \<noteq> [] \<Longrightarrow> chain h (ys @ [q]) \<longleftrightarrow> chain h ys \<and> linked h (last ys) q"
  by (cases ys rule: rev_cases) (auto simp: chain_split)

lemma chain_cong:
  assumes "\<And>a. a \<in> set (butlast zs) \<Longrightarrow> map_option next_p (h' a) = map_option next_p (h a)"
    and "\<And>a. a \<in> set (tl zs) \<Longrightarrow> map_option prev_p (h' a) = map_option prev_p (h a)"
  shows "chain h' zs = chain h zs"
  using assms by (induction h zs rule: chain.induct) (auto simp: linked_def)

lemma chain_dom: "chain h (p # q # zs) \<Longrightarrow> a \<in> set (p # q # zs) \<Longrightarrow> h a \<noteq> None"
  by (induction zs arbitrary: p q) (auto simp: linked_def)

lemma ring_dom: "ring h head xs \<Longrightarrow> a \<in> set (head # xs) \<Longrightarrow> h a \<noteq> None"
proof -
  assume r: "ring h head xs" and a: "a \<in> set (head # xs)"
  from r have "chain h (head # hd (xs @ [head]) # tl (xs @ [head]))" by (cases xs) (simp_all add: ring_def)
  from chain_dom [OF this, of a] a show ?thesis by (cases xs) auto
qed

lemma ring_nonzero: "ring h head xs \<Longrightarrow> 0 \<notin> set (head # xs)"
  using ring_dom [of h head xs 0] unfolding ring_def by blast

text \<open>Before the first entry and after the last: the neighbours of the head.\<close>

definition before :: "ptr \<Rightarrow> ptr list \<Rightarrow> ptr" where "before head xs = last (head # xs)"
definition after :: "ptr \<Rightarrow> ptr list \<Rightarrow> ptr" where "after head xs = hd (xs @ [head])"

lemma before_after_simps [simp]:
  "before p [] = p" "before p (xs @ [x]) = x" "after p [] = p" "after p (x # xs) = x"
  by (simp_all add: before_def after_def)

lemma ring_at:
  "chain h (head # xs @ ys @ [head]) \<longleftrightarrow> chain h (head # xs) \<and> linked h (before head xs) (after head ys) \<and> chain h (ys @ [head])"
proof -
  obtain as p where p: "head # xs = as @ [p]" by (metis list.distinct(1) rev_exhaust)
  obtain q bs where q: "ys @ [head] = q # bs" by (cases ys) auto
  have "chain h (head # xs @ ys @ [head]) = chain h ((head # xs) @ (ys @ [head]))" by simp
  also have "\<dots> \<longleftrightarrow> chain h (as @ [p]) \<and> linked h p q \<and> chain h (q # bs)" unfolding p q by (simp add: chain_split)
  finally show ?thesis unfolding before_def after_def p q by simp
qed

lemma ring_links:
  assumes "ring h head (xs @ ys)"
  shows "linked h (before head xs) (after head ys)"
  using assms by (simp add: ring_def ring_at)

text \<open>A heap that differs in the links between two neighbours only.\<close>

definition relinked :: "ptr \<Rightarrow> ptr \<Rightarrow> ptr set \<Rightarrow> lheap \<Rightarrow> lheap \<Rightarrow> bool" where
  "relinked p q A h h' \<longleftrightarrow> (\<forall>a. a \<noteq> p \<longrightarrow> a \<notin> A \<longrightarrow> map_option next_p (h' a) = map_option next_p (h a))
     \<and> (\<forall>a. a \<noteq> q \<longrightarrow> a \<notin> A \<longrightarrow> map_option prev_p (h' a) = map_option prev_p (h a))
     \<and> (\<forall>a. a \<notin> {p, q} \<union> A \<longrightarrow> h' a = h a) \<and> dom h' = dom h"

lemma chain_relinked:
  assumes r: "relinked p q A h h'" and "p \<notin> set (butlast zs)" and "q \<notin> set (tl zs)" and A: "A \<inter> set zs = {}"
  shows "chain h' zs = chain h zs"
proof (rule chain_cong)
  fix a
  show "map_option next_p (h' a) = map_option next_p (h a)" if "a \<in> set (butlast zs)"
  proof -
    have "a \<noteq> p" "a \<notin> A" using that in_set_butlastD [OF that] assms(2) A by auto
    with r show ?thesis by (simp add: relinked_def)
  qed
  show "map_option prev_p (h' a) = map_option prev_p (h a)" if "a \<in> set (tl zs)"
  proof -
    have "a \<noteq> q" "a \<notin> A" using that assms(3) A by (cases zs; auto)+
    with r show ?thesis by (simp add: relinked_def)
  qed
qed

lemma relinked_chains:
  assumes r: "relinked (before head xs) (after head ys) A h h'" and d: "distinct (head # xs @ ys)" and A: "A \<inter> set (head # xs @ ys) = {}"
  shows "chain h' (head # xs) = chain h (head # xs)" and "chain h' (ys @ [head]) = chain h (ys @ [head])"
proof -
  have "before head xs \<notin> set (butlast (head # xs))" using d
    by (cases xs rule: rev_cases) (auto simp: butlast_append)
  moreover have "after head ys \<notin> set (tl (head # xs))" using d by (cases ys) auto
  ultimately show "chain h' (head # xs) = chain h (head # xs)" using A by (intro chain_relinked [OF r]) auto
  have "before head xs \<notin> set (butlast (ys @ [head]))" using d by (cases xs rule: rev_cases) auto
  moreover have "after head ys \<notin> set (tl (ys @ [head]))" using d by (cases ys) auto
  ultimately show "chain h' (ys @ [head]) = chain h (ys @ [head])" using A by (intro chain_relinked [OF r]) auto
qed

lemma lh_upd_Ret: "h p = Some n \<Longrightarrow> lh_upd p f h = Ret (h(p \<mapsto> f n))"
  by (simp add: lh_upd_def lh_get_def)

lemma add_between_ok:
  assumes r: "ring h head (xs @ ys)" and new: "new \<notin> set (head # xs @ ys)" "h new \<noteq> None"
  obtains h' where "list_add_between new (before head xs) (after head ys) h = Ret h'" "ring h' head (xs @ new # ys)"
    "dom h' = dom h" "\<forall>a. a \<notin> set (head # new # xs @ ys) \<longrightarrow> h' a = h a"
proof -
  let ?p = "before head xs" and ?q = "after head ys"
  have in_p: "?p \<in> set (head # xs @ ys)" "?q \<in> set (head # xs @ ys)" unfolding before_def after_def by (cases ys; auto)+
  with new(1) have neq: "new \<noteq> ?p" "new \<noteq> ?q" by auto
  from ring_dom [OF r in_p(1)] ring_dom [OF r in_p(2)] new(2) obtain P Q N where
    cells: "h ?p = Some P" "h ?q = Some Q" "h new = Some N" by blast
  obtain h' where h': "list_add_between new ?p ?q h = Ret h'" "linked h' ?p new" "linked h' new ?q" "relinked ?p ?q {new} h h'"
  proof (cases "?p = ?q")
    case True
    have "list_add_between new ?p ?q h = Ret (h(?p \<mapsto> P\<lparr>prev_p := new, next_p := new\<rparr>, new \<mapsto> N\<lparr>next_p := ?q, prev_p := ?p\<rparr>))"
      using cells neq True by (auto simp: list_add_between_def set_prev_def set_next_def lh_upd_Ret fun_upd_twist)
    then show thesis
      by (rule that) (use cells neq True in \<open>auto simp: linked_def relinked_def\<close>)
  next
    case False
    have "list_add_between new ?p ?q h
      = Ret (h(?q \<mapsto> Q\<lparr>prev_p := new\<rparr>, new \<mapsto> N\<lparr>next_p := ?q, prev_p := ?p\<rparr>, ?p \<mapsto> P\<lparr>next_p := new\<rparr>))"
      using cells neq False by (auto simp: list_add_between_def set_prev_def set_next_def lh_upd_Ret)
    then show thesis
      by (rule that) (use cells neq False in \<open>auto simp: linked_def relinked_def\<close>)
  qed
  have d: "distinct (head # xs @ ys)" "h 0 = None" using r by (auto simp: ring_def)
  from h'(4) have "dom h' = dom h" by (simp add: relinked_def)
  moreover from this d have "h' 0 = None" by blast
  moreover have "chain h' (head # xs)" "chain h' (ys @ [head])"
    using relinked_chains [OF h'(4) d(1)] new(1) r by (auto simp: ring_def ring_at)
  then have "chain h' (head # xs @ (new # ys) @ [head])"
    unfolding ring_at using h'(2,3) by (cases ys) auto
  ultimately show thesis using h' d new in_p by (intro that [of h']) (auto simp: ring_def relinked_def)
qed

lemma del_between_ok:
  assumes r: "ring h head (xs @ e # ys)"
  obtains h' where "list_del_entry e h = Ret h'" "ring h' head (xs @ ys)" "dom h' = dom h"
    "\<forall>a. a \<notin> set (head # xs @ ys) \<longrightarrow> h' a = h a"
proof -
  let ?p = "before head xs" and ?q = "after head ys"
  have d: "distinct (head # xs @ ys)" "e \<notin> set (head # xs @ ys)" "h 0 = None" using r by (auto simp: ring_def)
  have in_p: "?p \<in> set (head # xs @ ys)" "?q \<in> set (head # xs @ ys)" unfolding before_def after_def by (cases ys; auto)+
  have links: "linked h ?p e" "linked h e ?q"
    using ring_links [OF r] ring_links [of h head "xs @ [e]" ys] r by simp_all
  from ring_dom [OF r, of ?p] ring_dom [OF r, of ?q] ring_dom [OF r, of e] in_p obtain P Q N where
    cells: "h ?p = Some P" "h ?q = Some Q" "h e = Some N" by fastforce
  have N: "prev_p N = ?p" "next_p N = ?q" using links cells by (auto simp: linked_def)
  obtain h' where h': "list_del_entry e h = Ret h'" "linked h' ?p ?q" "relinked ?p ?q {} h h'"
  proof (cases "?p = ?q")
    case True
    have "list_del_entry e h = Ret (h(?p \<mapsto> P\<lparr>prev_p := ?p, next_p := ?q\<rparr>))"
      using cells N True by (auto simp: list_del_entry_def list_del_between_def lh_get_def set_prev_def set_next_def lh_upd_Ret)
    then show thesis by (rule that) (use cells True in \<open>auto simp: linked_def relinked_def\<close>)
  next
    case False
    have "list_del_entry e h = Ret (h(?q \<mapsto> Q\<lparr>prev_p := ?p\<rparr>, ?p \<mapsto> P\<lparr>next_p := ?q\<rparr>))"
      using cells N False by (auto simp: list_del_entry_def list_del_between_def lh_get_def set_prev_def set_next_def lh_upd_Ret)
    then show thesis by (rule that) (use cells False in \<open>auto simp: linked_def relinked_def\<close>)
  qed
  from h'(3) have "dom h' = dom h" by (simp add: relinked_def)
  moreover from this d have "h' 0 = None" by blast
  moreover have "chain h (head # xs @ (e # ys) @ [head])" using r by (simp add: ring_def)
  then have "chain h (head # xs)" "chain h (ys @ [head])" unfolding ring_at by (cases ys; simp)+
  then have "chain h' (head # xs @ ys @ [head])"
    unfolding ring_at using relinked_chains [OF h'(3) d(1)] h'(2) by simp
  moreover have "h' a = h a" if "a \<notin> set (head # xs @ ys)" for a
  proof -
    have "a \<noteq> ?p" "a \<noteq> ?q" using that in_p by metis+
    with h'(3) show ?thesis by (simp add: relinked_def)
  qed
  ultimately show thesis using h' d by (intro that [of h']) (auto simp: ring_def)
qed

lemma ring_frame: "ring h head xs \<Longrightarrow> (\<And>a. a \<in> set (head # xs) \<Longrightarrow> h' a = h a) \<Longrightarrow> h' 0 = None \<Longrightarrow> ring h' head xs"
proof -
  assume r: "ring h head xs" and eq: "\<And>a. a \<in> set (head # xs) \<Longrightarrow> h' a = h a" and 0: "h' 0 = None"
  have "chain h' (head # xs @ [head]) = chain h (head # xs @ [head])"
    by (rule chain_cong) (use eq in \<open>auto simp: butlast_append\<close>)
  with r 0 show ?thesis by (simp add: ring_def)
qed

lemma ring_head_cell:
  assumes "ring h head xs"
  obtains n where "h head = Some n" "next_p n = after head xs" "prev_p n = before head xs"
  using ring_links [of h head "[]" xs] ring_links [of h head xs "[]"] assms
  by (auto simp: linked_def)

lemma ring_entry_cell:
  assumes "ring h head (xs @ e # ys)"
  obtains n where "h e = Some n" "next_p n = after head ys" "prev_p n = before head xs"
  using ring_links [of h head "xs @ [e]" ys] ring_links [of h head xs "e # ys"] assms
  by (auto simp: linked_def)

lemma add_ok:
  assumes r: "ring h head xs" and new: "new \<notin> set (head # xs)" "h new \<noteq> None"
  shows "\<exists>h'. aosl_list_add new head h = Ret h' \<and> ring h' head (new # xs) \<and> dom h' = dom h
    \<and> (\<forall>a. a \<notin> set (head # new # xs) \<longrightarrow> h' a = h a)"
proof -
  from ring_head_cell [OF r] obtain n where "h head = Some n" "next_p n = after head xs" .
  moreover from add_between_ok [of h head "[]" xs new] r new obtain h' where
    "list_add_between new head (after head xs) h = Ret h'" "ring h' head (new # xs)"
    "dom h' = dom h" "\<forall>a. a \<notin> set (head # new # xs) \<longrightarrow> h' a = h a" by auto
  ultimately show ?thesis by (auto simp: aosl_list_add_def lh_get_def)
qed

lemma add_tail_ok:
  assumes r: "ring h head xs" and new: "new \<notin> set (head # xs)" "h new \<noteq> None"
  shows "\<exists>h'. aosl_list_add_tail new head h = Ret h' \<and> ring h' head (xs @ [new]) \<and> dom h' = dom h
    \<and> (\<forall>a. a \<notin> set (head # new # xs) \<longrightarrow> h' a = h a)"
proof -
  from ring_head_cell [OF r] obtain n where "h head = Some n" "prev_p n = before head xs" .
  moreover from add_between_ok [of h head xs "[]" new] r new obtain h' where
    "list_add_between new (before head xs) head h = Ret h'" "ring h' head (xs @ [new])"
    "dom h' = dom h" "\<forall>a. a \<notin> set (head # new # xs) \<longrightarrow> h' a = h a" by auto
  ultimately show ?thesis by (auto simp: aosl_list_add_tail_def lh_get_def)
qed

text \<open>Removing an entry; what is left in it depends on the operation.\<close>

lemma del_ok:
  assumes r: "ring h head (xs @ e # ys)"
  shows "\<exists>h'. aosl_list_del e h = Ret h' \<and> ring h' head (xs @ ys) \<and> dom h' = dom h \<and> aosl_list_valid e h' = Ret False
      \<and> (\<forall>a. a \<notin> set (head # xs @ e # ys) \<longrightarrow> h' a = h a)"
    and "\<exists>h'. aosl_list_del_init e h = Ret h' \<and> ring h' head (xs @ ys) \<and> dom h' = dom h \<and> aosl_list_empty_careful e h' = Ret True
      \<and> (\<forall>a. a \<notin> set (head # xs @ e # ys) \<longrightarrow> h' a = h a)"
proof -
  from del_between_ok [OF r] obtain h' where h': "list_del_entry e h = Ret h'" "ring h' head (xs @ ys)" "dom h' = dom h"
    "\<forall>a. a \<notin> set (head # xs @ ys) \<longrightarrow> h' a = h a" .
  have e: "e \<notin> set (head # xs @ ys)" "e \<noteq> 0" "h e \<noteq> None"
    using r ring_nonzero [OF r] ring_dom [OF r, of e] by (auto simp: ring_def)
  with h'(3) obtain n where n: "h' e = Some n" by blast
  have frame: "ring (h'(e \<mapsto> v)) head (xs @ ys)" for v
    by (rule ring_frame [OF h'(2)]) (use e h'(2) in \<open>auto simp: ring_def\<close>)
  have dom: "dom (h'(e \<mapsto> v)) = dom h" for v using h'(3) n by auto
  have "aosl_list_del e h = Ret (h'(e \<mapsto> n\<lparr>next_p := AOSL_LIST_POISON1, prev_p := AOSL_LIST_POISON2\<rparr>))"
    using h'(1) n by (simp add: aosl_list_del_def aosl_list_head_poison_def set_next_def set_prev_def lh_upd_Ret)
  then show "\<exists>h'. aosl_list_del e h = Ret h' \<and> ring h' head (xs @ ys) \<and> dom h' = dom h \<and> aosl_list_valid e h' = Ret False
      \<and> (\<forall>a. a \<notin> set (head # xs @ e # ys) \<longrightarrow> h' a = h a)"
    using frame dom h'(4) e by (auto simp: aosl_list_valid_def lh_get_def)
  have "aosl_list_del_init e h = Ret (h'(e \<mapsto> n\<lparr>next_p := e, prev_p := e\<rparr>))"
    using h'(1) n by (simp add: aosl_list_del_init_def aosl_list_head_init_def set_next_def set_prev_def lh_upd_Ret)
  then show "\<exists>h'. aosl_list_del_init e h = Ret h' \<and> ring h' head (xs @ ys) \<and> dom h' = dom h \<and> aosl_list_empty_careful e h' = Ret True
      \<and> (\<forall>a. a \<notin> set (head # xs @ e # ys) \<longrightarrow> h' a = h a)"
    using frame dom h'(4) e by (auto simp: aosl_list_empty_careful_def lh_get_def)
qed

lemma empty_ok: "ring h head xs \<Longrightarrow> aosl_list_empty head h = Ret (xs = [])"
proof -
  assume r: "ring h head xs"
  from ring_head_cell [OF r] obtain n where "h head = Some n" "next_p n = after head xs" .
  moreover have "after head xs = head \<longleftrightarrow> xs = []" using r by (cases xs) (auto simp: ring_def)
  ultimately show ?thesis by (simp add: aosl_list_empty_def lh_get_def)
qed

lemma head_tail_ok:
  assumes r: "ring h head xs"
  shows "aosl_list_head head h = Ret (if xs = [] then 0 else hd xs)" and "aosl_list_tail head h = Ret (if xs = [] then 0 else last xs)"
proof -
  from ring_head_cell [OF r] obtain n where "h head = Some n" "next_p n = after head xs" "prev_p n = before head xs" .
  then show "aosl_list_head head h = Ret (if xs = [] then 0 else hd xs)" "aosl_list_tail head h = Ret (if xs = [] then 0 else last xs)"
    using empty_ok [OF r] by (auto simp: aosl_list_head_def aosl_list_tail_def lh_get_def after_def before_def)
qed

lemma next_prev_ok:
  assumes r: "ring h head (xs @ e # ys)"
  shows "aosl_list_next head e h = Ret (if ys = [] then 0 else hd ys)" and "aosl_list_prev head e h = Ret (if xs = [] then 0 else last xs)"
proof -
  from ring_entry_cell [OF r] obtain n where "h e = Some n" "next_p n = after head ys" "prev_p n = before head xs" .
  moreover have "after head ys = head \<longleftrightarrow> ys = []" "before head xs = head \<longleftrightarrow> xs = []"
    using r by (cases ys; cases xs rule: rev_cases; auto simp: ring_def)+
  ultimately show "aosl_list_next head e h = Ret (if ys = [] then 0 else hd ys)" "aosl_list_prev head e h = Ret (if xs = [] then 0 else last xs)"
    by (auto simp: aosl_list_next_def aosl_list_prev_def lh_get_def after_def before_def)
qed

lemma remove_head_ok:
  assumes r: "ring h head xs"
  shows "\<exists>h'. aosl_list_remove_head head h = Ret (if xs = [] then 0 else hd xs, h') \<and> ring h' head (tl xs) \<and> dom h' = dom h"
    and "\<exists>h'. aosl_list_remove_tail head h = Ret (if xs = [] then 0 else last xs, h') \<and> ring h' head (butlast xs) \<and> dom h' = dom h"
proof -
  from ring_head_cell [OF r] obtain n where n: "h head = Some n" "next_p n = after head xs" "prev_p n = before head xs" .
  show "\<exists>h'. aosl_list_remove_head head h = Ret (if xs = [] then 0 else hd xs, h') \<and> ring h' head (tl xs) \<and> dom h' = dom h"
  proof (cases xs)
    case Nil
    with r empty_ok [OF r] show ?thesis by (simp add: aosl_list_remove_head_def)
  next
    case (Cons x ys)
    with del_ok(1) [of h head "[]" x ys] r n empty_ok [OF r] show ?thesis
      by (auto simp: aosl_list_remove_head_def lh_get_def)
  qed
  show "\<exists>h'. aosl_list_remove_tail head h = Ret (if xs = [] then 0 else last xs, h') \<and> ring h' head (butlast xs) \<and> dom h' = dom h"
  proof (cases xs rule: rev_cases)
    case Nil
    with r empty_ok [OF r] show ?thesis by (simp add: aosl_list_remove_tail_def)
  next
    case (snoc ys x)
    with del_ok(1) [of h head ys x "[]"] r n empty_ok [OF r] show ?thesis
      by (auto simp: aosl_list_remove_tail_def lh_get_def)
  qed
qed

lemma list_walk_ok:
  "ring h head (xs @ ys) \<Longrightarrow> length ys < fuel \<Longrightarrow> list_walk fuel head (after head ys) h = Ret ys"
proof (induction ys arbitrary: xs fuel)
  case Nil
  then show ?case by (cases fuel) auto
next
  case (Cons y ys)
  then obtain k where k: "fuel = Suc k" by (cases fuel) auto
  from ring_entry_cell [OF Cons.prems(1)] obtain n where "h y = Some n" "next_p n = after head ys" .
  moreover have "list_walk k head (after head ys) h = Ret ys" using Cons.IH [of "xs @ [y]" k] Cons.prems k by simp
  moreover have "y \<noteq> head" using Cons.prems(1) by (auto simp: ring_def)
  ultimately show ?case using k by (simp add: lh_get_def)
qed

lemma move_ok:
  assumes r: "ring h head (xs @ e # ys)"
  shows "\<exists>h'. aosl_list_move e head h = Ret h' \<and> ring h' head (e # xs @ ys)"
    and "\<exists>h'. aosl_list_move_tail e head h = Ret h' \<and> ring h' head (xs @ ys @ [e])"
proof -
  from del_between_ok [OF r] obtain h' where h': "list_del_entry e h = Ret h'" "ring h' head (xs @ ys)" "dom h' = dom h" .
  have e: "e \<notin> set (head # xs @ ys)" "h' e \<noteq> None" using r ring_dom [OF r, of e] h'(3) by (auto simp: ring_def)
  show "\<exists>h'. aosl_list_move e head h = Ret h' \<and> ring h' head (e # xs @ ys)"
    using add_ok [OF h'(2) e] h'(1) by (auto simp: aosl_list_move_def)
  show "\<exists>h'. aosl_list_move_tail e head h = Ret h' \<and> ring h' head (xs @ ys @ [e])"
    using add_tail_ok [OF h'(2) e] h'(1) by (auto simp: aosl_list_move_tail_def)
qed

subsection \<open>Splicing\<close>

lemma set_next_effect:
  assumes "h p \<noteq> None"
  obtains h' where "set_next p q h = Ret h'" "dom h' = dom h"
    "\<And>a. map_option next_p (h' a) = (if a = p then Some q else map_option next_p (h a))"
    "\<And>a. map_option prev_p (h' a) = map_option prev_p (h a)"
proof -
  from assms obtain n where n: "h p = Some n" by blast
  show thesis by (rule that [of "h(p \<mapsto> n\<lparr>next_p := q\<rparr>)"]) (use n in \<open>auto simp: set_next_def lh_upd_Ret\<close>)
qed

lemma set_prev_effect:
  assumes "h p \<noteq> None"
  obtains h' where "set_prev p q h = Ret h'" "dom h' = dom h"
    "\<And>a. map_option next_p (h' a) = map_option next_p (h a)"
    "\<And>a. map_option prev_p (h' a) = (if a = p then Some q else map_option prev_p (h a))"
proof -
  from assms obtain n where n: "h p = Some n" by blast
  show thesis by (rule that [of "h(p \<mapsto> n\<lparr>prev_p := q\<rparr>)"]) (use n in \<open>auto simp: set_prev_def lh_upd_Ret\<close>)
qed

lemma splice_effect:
  assumes "h l = Some n" and "\<And>a. a \<in> {next_p n, prev_p n, p, q} \<Longrightarrow> h a \<noteq> None"
  obtains h' where "list_splice l p q h = Ret h'" "dom h' = dom h"
    "\<And>a. map_option next_p (h' a) = (if a = prev_p n then Some q else if a = p then Some (next_p n) else map_option next_p (h a))"
    "\<And>a. map_option prev_p (h' a) = (if a = q then Some (prev_p n) else if a = next_p n then Some p else map_option prev_p (h a))"
proof -
  have in_h: "next_p n \<in> dom h" "prev_p n \<in> dom h" "p \<in> dom h" "q \<in> dom h" using assms(2) by (auto simp: domIff)
  from in_h have "h (next_p n) \<noteq> None" by blast
  from set_prev_effect [of h "next_p n" p, OF this] obtain h1 where
    1: "set_prev (next_p n) p h = Ret h1" "dom h1 = dom h" "\<And>a. map_option next_p (h1 a) = map_option next_p (h a)"
    "\<And>a. map_option prev_p (h1 a) = (if a = next_p n then Some p else map_option prev_p (h a))" by blast
  from 1(2) in_h have "h1 p \<noteq> None" by blast
  from set_next_effect [of h1 p "next_p n", OF this] obtain h2 where
    2: "set_next p (next_p n) h1 = Ret h2" "dom h2 = dom h1" "\<And>a. map_option next_p (h2 a) = (if a = p then Some (next_p n) else map_option next_p (h1 a))"
    "\<And>a. map_option prev_p (h2 a) = map_option prev_p (h1 a)" by blast
  from 1(2) 2(2) in_h have "h2 (prev_p n) \<noteq> None" by blast
  from set_next_effect [of h2 "prev_p n" q, OF this] obtain h3 where
    3: "set_next (prev_p n) q h2 = Ret h3" "dom h3 = dom h2" "\<And>a. map_option next_p (h3 a) = (if a = prev_p n then Some q else map_option next_p (h2 a))"
    "\<And>a. map_option prev_p (h3 a) = map_option prev_p (h2 a)" by blast
  from 1(2) 2(2) 3(2) in_h have "h3 q \<noteq> None" by blast
  from set_prev_effect [of h3 q "prev_p n", OF this] obtain h4 where
    4: "set_prev q (prev_p n) h3 = Ret h4" "dom h4 = dom h3" "\<And>a. map_option next_p (h4 a) = map_option next_p (h3 a)"
    "\<And>a. map_option prev_p (h4 a) = (if a = q then Some (prev_p n) else map_option prev_p (h3 a))" by blast
  show thesis
  proof (rule that [of h4])
    show "list_splice l p q h = Ret h4" using assms(1) 1(1) 2(1) 3(1) 4(1) by (simp add: list_splice_def lh_get_def)
    show "dom h4 = dom h" using 1(2) 2(2) 3(2) 4(2) by simp
  qed (simp_all add: 1(3,4) 2(3,4) 3(3,4) 4(3,4))
qed

lemma ring_seq: "ring h head (xs @ y # ys) \<Longrightarrow> chain h (head # xs) \<and> chain h (y # ys)"
proof -
  assume "ring h head (xs @ y # ys)"
  then have "chain h (head # xs @ (y # ys) @ [head])" by (simp add: ring_def)
  then have "chain h (head # xs)" "chain h ((y # ys) @ [head])" unfolding ring_at by auto
  moreover obtain as p where p: "y # ys = as @ [p]" by (metis list.distinct(1) rev_exhaust)
  ultimately show ?thesis unfolding p by (simp add: chain_split)
qed

lemma splice_tail_init_ok:
  assumes r: "ring h head xs" "ring h l ys" and dis: "set (head # xs) \<inter> set (l # ys) = {}"
  shows "\<exists>h'. aosl_list_splice_tail_init l head h = Ret h' \<and> ring h' head (xs @ ys) \<and> ring h' l [] \<and> dom h' = dom h"
proof (cases ys)
  case Nil
  with r empty_ok [OF r(2)] show ?thesis by (auto simp: aosl_list_splice_tail_init_def)
next
  case (Cons y ys')
  let ?p = "before head xs" and ?z = "last ys"
  from ring_head_cell [OF r(2)] Cons obtain n where n: "h l = Some n" "next_p n = y" "prev_p n = ?z" by (auto simp: before_def)
  from ring_head_cell [OF r(1)] obtain m where m: "h head = Some m" "prev_p m = ?p" .
  have p: "?p \<in> set (head # xs)" unfolding before_def by (rule last_in_set) simp
  have z: "?z \<in> set ys" "y \<in> set ys" using Cons by auto
  have "h a \<noteq> None" if "a \<in> {next_p n, prev_p n, ?p, head}" for a
  proof -
    have "a \<in> set (head # xs) \<or> a \<in> set (l # ys)" using that p z n(2,3) by auto
    with ring_dom [OF r(1)] ring_dom [OF r(2)] show ?thesis by blast
  qed
  from splice_effect [of h l n ?p head, OF n(1) this] obtain h1 where
    h1: "list_splice l ?p head h = Ret h1" "dom h1 = dom h"
    "\<And>a. map_option next_p (h1 a) = (if a = ?z then Some head else if a = ?p then Some y else map_option next_p (h a))"
    "\<And>a. map_option prev_p (h1 a) = (if a = head then Some ?z else if a = y then Some ?p else map_option prev_p (h a))"
    unfolding n(2,3) by blast
  from h1(2) n(1) obtain c where c: "h1 l = Some c" by blast
  let ?h = "h1(l \<mapsto> c\<lparr>next_p := l, prev_p := l\<rparr>)"
  have d: "distinct (head # xs)" "distinct (l # ys)" "h 0 = None" using r by (auto simp: ring_def)
  have l: "l \<notin> set (head # xs)" "l \<notin> set ys" using dis d by auto
  have "aosl_list_splice_tail_init l head h = Ret ?h"
    using empty_ok [OF r(2)] Cons m h1(1) c
    by (simp add: aosl_list_splice_tail_init_def lh_get_def aosl_list_head_init_def set_next_def set_prev_def lh_upd_Ret)
  moreover have dom: "dom ?h = dom h" using h1(2) c by auto
  moreover have "?h 0 = None" using dom d(3) by (metis domIff)
  then have "ring ?h l []" by (simp add: ring_def linked_def)
  moreover have "ring ?h head (xs @ ys)"
  proof -
    have xs0: "chain h (head # xs)" using r(1) ring_at [of h head xs "[]"] by (simp add: ring_def)
    have ys0: "chain h ys" using r(2) Cons ring_seq [of h l "[]" y ys'] by simp
    have "chain ?h (head # xs) = chain h (head # xs)"
    proof (rule chain_cong)
      fix a
      have pb: "?p \<notin> set (butlast (head # xs))" using d(1) by (cases xs rule: rev_cases) (auto simp: butlast_append)
      show "map_option next_p (?h a) = map_option next_p (h a)" if "a \<in> set (butlast (head # xs))"
      proof -
        have "a \<in> set (head # xs)" using that by (rule in_set_butlastD)
        then have "a \<noteq> l" "a \<noteq> ?z" "a \<noteq> ?p" using l(1) dis z that pb by auto
        then show ?thesis by (simp add: h1(3))
      qed
      show "map_option prev_p (?h a) = map_option prev_p (h a)" if "a \<in> set (tl (head # xs))"
      proof -
        have "a \<noteq> l" "a \<noteq> y" "a \<noteq> head" using that l(1) dis z d(1) by auto
        then show ?thesis by (simp add: h1(4))
      qed
    qed
    moreover have "chain ?h ys = chain h ys"
    proof (rule chain_cong)
      fix a
      have zb: "?z \<notin> set (butlast ys)" using d(2) by (cases ys rule: rev_cases) auto
      show "map_option next_p (?h a) = map_option next_p (h a)" if "a \<in> set (butlast ys)"
      proof -
        have "a \<in> set ys" using that by (rule in_set_butlastD)
        then have "a \<noteq> l" "a \<noteq> ?z" "a \<noteq> ?p" using l(2) dis p that zb by auto
        then show ?thesis by (simp add: h1(3))
      qed
      show "map_option prev_p (?h a) = map_option prev_p (h a)" if "a \<in> set (tl ys)"
      proof -
        have "a \<noteq> l" "a \<noteq> y" "a \<noteq> head" using that l(2) dis d(2) Cons by auto
        then show ?thesis by (simp add: h1(4))
      qed
    qed
    moreover have "?p \<noteq> l" "y \<noteq> l" "?z \<noteq> l" "head \<noteq> l" "?p \<noteq> ?z" "y \<noteq> head" using p z l dis by auto
    then have "linked ?h ?p y" "linked ?h ?z head" by (simp_all add: linked_def h1(3,4) del: map_option_eq_Some)
    moreover have "chain ?h (ys @ [head]) \<longleftrightarrow> chain ?h ys \<and> linked ?h ?z head" using Cons by (intro chain_snoc) simp
    moreover have "after head ys = y" using Cons by simp
    ultimately have "chain ?h (head # xs)" "linked ?h ?p (after head ys)" "chain ?h (ys @ [head])"
      using xs0 ys0 by metis+
    then have "chain ?h (head # xs @ ys @ [head])" unfolding ring_at by simp
    with \<open>?h 0 = None\<close> d dis show ?thesis by (auto simp: ring_def)
  qed
  ultimately show ?thesis by blast
qed

subsection \<open>The contract with the users of a list\<close>

text \<open>
  Queues of functions, of timers and of descriptors use a list as a first-in first-out queue.
  \<open>holds h l xs\<close>: the entries of list \<open>l\<close> are \<open>xs\<close>; \<open>mem h e\<close>: \<open>e\<close> is an entry's memory.
\<close>

fun push_all :: "(ptr \<Rightarrow> 'h \<Rightarrow> 'h exec) \<Rightarrow> ptr list \<Rightarrow> 'h \<Rightarrow> 'h exec" where
  "push_all push [] h = Ret h"
| "push_all push (e # es) h = ebind (push e h) (push_all push es)"

fun pop_many :: "('h \<Rightarrow> (ptr \<times> 'h) exec) \<Rightarrow> nat \<Rightarrow> 'h \<Rightarrow> (ptr list \<times> 'h) exec" where
  "pop_many pop 0 h = Ret ([], h)"
| "pop_many pop (Suc n) h = ebind (pop h) (\<lambda>(p, h). ebind (pop_many pop n h) (\<lambda>(ps, h). Ret (p # ps, h)))"

locale entry_list =
  fixes holds :: "'h \<Rightarrow> ptr \<Rightarrow> ptr list \<Rightarrow> bool"
    and mem :: "'h \<Rightarrow> ptr \<Rightarrow> bool"
    and push :: "ptr \<Rightarrow> ptr \<Rightarrow> 'h \<Rightarrow> 'h exec"
    and pop :: "ptr \<Rightarrow> 'h \<Rightarrow> (ptr \<times> 'h) exec"
  assumes push_law: "holds h l xs \<Longrightarrow> e \<notin> set (l # xs) \<Longrightarrow> mem h e \<Longrightarrow>
      \<exists>h'. push e l h = Ret h' \<and> holds h' l (xs @ [e]) \<and> (\<forall>a. mem h' a = mem h a)"
    and pop_law: "holds h l xs \<Longrightarrow>
      \<exists>h'. pop l h = Ret (if xs = [] then 0 else hd xs, h') \<and> holds h' l (tl xs) \<and> (\<forall>a. mem h' a = mem h a)"
begin

lemma push_all_ok:
  "holds h l xs \<Longrightarrow> distinct es \<Longrightarrow> set es \<inter> set (l # xs) = {} \<Longrightarrow> (\<forall>e \<in> set es. mem h e) \<Longrightarrow>
    \<exists>h'. push_all (\<lambda>e. push e l) es h = Ret h' \<and> holds h' l (xs @ es) \<and> (\<forall>a. mem h' a = mem h a)"
proof (induction es arbitrary: h xs)
  case (Cons e es)
  have "e \<notin> set (l # xs)" "mem h e" using Cons.prems by auto
  from push_law [OF Cons.prems(1) this] obtain h1 where
    h1: "push e l h = Ret h1" "holds h1 l (xs @ [e])" "\<forall>a. mem h1 a = mem h a" by blast
  have "distinct es" "set es \<inter> set (l # xs @ [e]) = {}" "\<forall>e \<in> set es. mem h1 e" using Cons.prems h1(3) by auto
  from Cons.IH [OF h1(2) this] h1(1,3) show ?case by auto
qed auto

lemma pop_many_ok:
  "holds h l (xs @ ys) \<Longrightarrow> 0 \<notin> set xs \<Longrightarrow> \<exists>h'. pop_many (pop l) (length xs) h = Ret (xs, h') \<and> holds h' l ys"
proof (induction xs arbitrary: h)
  case (Cons x xs)
  from pop_law [OF Cons.prems(1)] obtain h1 where "pop l h = Ret (x, h1)" "holds h1 l (xs @ ys)" by auto
  moreover from Cons.IH [OF this(2)] Cons.prems(2) obtain h2 where
    "pop_many (pop l) (length xs) h1 = Ret (xs, h2)" "holds h2 l ys" by auto
  ultimately show ?case by simp
qed simp

text \<open>What goes in at the tail comes out at the head in the same order.\<close>

lemma fifo:
  assumes "holds h l []" and "distinct es" and "l \<notin> set es" and "\<forall>e \<in> set es. mem h e" and "0 \<notin> set es"
  shows "\<exists>h1 h2. push_all (\<lambda>e. push e l) es h = Ret h1 \<and> pop_many (pop l) (length es) h1 = Ret (es, h2) \<and> holds h2 l []"
proof -
  from push_all_ok [of h l "[]" es] assms obtain h1 where "push_all (\<lambda>e. push e l) es h = Ret h1" "holds h1 l (es @ [])" by auto
  with pop_many_ok [of h1 l es "[]"] assms(5) show ?thesis by blast
qed

end

interpretation al: entry_list ring "\<lambda>h p. h p \<noteq> None" aosl_list_add_tail aosl_list_remove_head
proof
  fix h l xs and e :: ptr
  assume r: "ring h l xs"
  have eq: "\<forall>a. (h' a \<noteq> None) = (h a \<noteq> None)" if "dom h' = dom h" for h' :: lheap using that by (metis domIff)
  show "\<exists>h'. aosl_list_add_tail e l h = Ret h' \<and> ring h' l (xs @ [e]) \<and> (\<forall>a. (h' a \<noteq> None) = (h a \<noteq> None))"
    if "e \<notin> set (l # xs)" "h e \<noteq> None"
    using add_tail_ok [OF r that] eq by blast
  show "\<exists>h'. aosl_list_remove_head l h = Ret (if xs = [] then 0 else hd xs, h') \<and> ring h' l (tl xs) \<and> (\<forall>a. (h' a \<noteq> None) = (h a \<noteq> None))"
    using remove_head_ok(1) [OF r] eq by blast
qed

subsection \<open>Properties\<close>

abbreviation lh :: "ptr \<Rightarrow> ptr \<Rightarrow> list_head" where
  "lh n p \<equiv> \<lparr>next_p = n, prev_p = p\<rparr>"

text \<open>
  The list operations do what their names say on every well-formed list: an entry is added at the
  front or at the back, removed from wherever it is (left poisoned by \<^verbatim>\<open>aosl_list_del\<close> and as an empty
  list by \<^verbatim>\<open>aosl_list_del_init\<close>), moved to either end, and its neighbours are found; no other memory changes.
\<close>

theorem list_operations_correct:
  assumes r: "ring h head (xs @ e # ys)" and new: "new \<notin> set (head # xs @ e # ys)" "h new \<noteq> None"
  shows "(\<exists>h'. aosl_list_add new head h = Ret h' \<and> ring h' head (new # xs @ e # ys) \<and> (\<forall>a. a \<notin> set (head # new # xs @ e # ys) \<longrightarrow> h' a = h a))
    \<and> (\<exists>h'. aosl_list_add_tail new head h = Ret h' \<and> ring h' head (xs @ e # ys @ [new]) \<and> (\<forall>a. a \<notin> set (head # new # xs @ e # ys) \<longrightarrow> h' a = h a))
    \<and> (\<exists>h'. aosl_list_del e h = Ret h' \<and> ring h' head (xs @ ys) \<and> aosl_list_valid e h' = Ret False \<and> (\<forall>a. a \<notin> set (head # xs @ e # ys) \<longrightarrow> h' a = h a))
    \<and> (\<exists>h'. aosl_list_del_init e h = Ret h' \<and> ring h' head (xs @ ys) \<and> aosl_list_empty_careful e h' = Ret True)
    \<and> (\<exists>h'. aosl_list_move e head h = Ret h' \<and> ring h' head (e # xs @ ys))
    \<and> (\<exists>h'. aosl_list_move_tail e head h = Ret h' \<and> ring h' head (xs @ ys @ [e]))
    \<and> aosl_list_next head e h = Ret (if ys = [] then 0 else hd ys) \<and> aosl_list_prev head e h = Ret (if xs = [] then 0 else last xs)
    \<and> aosl_list_for_each (Suc (length (xs @ e # ys))) head h = Ret (xs @ e # ys)"
proof -
  from ring_head_cell [OF r] obtain n where n: "h head = Some n" "next_p n = after head (xs @ e # ys)" .
  have "aosl_list_for_each (Suc (length (xs @ e # ys))) head h = Ret (xs @ e # ys)"
    using n list_walk_ok [of h head "[]" "xs @ e # ys"] r by (simp add: aosl_list_for_each_def lh_get_def del: list_walk.simps)
  moreover note add_ok [OF r new] add_tail_ok [OF r new] del_ok [OF r] move_ok [OF r] next_prev_ok [OF r]
  ultimately show ?thesis by auto
qed

theorem list_operations_correct_witness:
  "aosl_list_next 4 8 [4 \<mapsto> lh 8 8, 8 \<mapsto> lh 4 4, 12 \<mapsto> lh 0 0] = Ret 0
   \<and> (\<exists>h'. aosl_list_add_tail 12 4 [4 \<mapsto> lh 8 8, 8 \<mapsto> lh 4 4, 12 \<mapsto> lh 0 0] = Ret h' \<and> ring h' 4 [8, 12])"
proof -
  let ?h = "[4 \<mapsto> lh 8 8, 8 \<mapsto> lh 4 4, 12 \<mapsto> lh 0 0]"
  have "ring ?h 4 ([] @ 8 # [])" by (auto simp: ring_def linked_def)
  from list_operations_correct [OF this, of 12] show ?thesis by auto
qed

text \<open>
  Splicing: \<^verbatim>\<open>aosl_list_splice_tail_init\<close> moves all entries of one list, in order, to the end of another list that
  shares nothing with it, and leaves the first list empty.
\<close>

theorem list_splice_correct:
  assumes "ring h head xs" and "ring h l ys" and "set (head # xs) \<inter> set (l # ys) = {}"
  shows "\<exists>h'. aosl_list_splice_tail_init l head h = Ret h' \<and> ring h' head (xs @ ys) \<and> ring h' l []"
  using splice_tail_init_ok [OF assms] by blast

theorem list_splice_correct_witness:
  "\<exists>h'. aosl_list_splice_tail_init 8 4 [4 \<mapsto> lh 4 4, 8 \<mapsto> lh 12 12, 12 \<mapsto> lh 8 8] = Ret h' \<and> ring h' 4 ([] @ [12]) \<and> ring h' 8 []"
  by (rule list_splice_correct) (auto simp: ring_def linked_def)

text \<open>
  First in, first out: entries added one by one with \<^verbatim>\<open>aosl_list_add_tail\<close> to an empty list come out of
  \<^verbatim>\<open>aosl_list_remove_head\<close> in the same order, and the list is empty again.
\<close>

theorem list_fifo:
  assumes "ring h l []" and "distinct es" and "l \<notin> set es" and "\<forall>e \<in> set es. h e \<noteq> None"
  shows "\<exists>h1 h2. push_all (\<lambda>e. aosl_list_add_tail e l) es h = Ret h1
    \<and> pop_many (aosl_list_remove_head l) (length es) h1 = Ret (es, h2) \<and> ring h2 l []"
proof (rule al.fifo [OF assms])
  show "0 \<notin> set es" using assms(1,4) by (auto simp: ring_def)
qed

theorem list_fifo_witness:
  "\<exists>h1 h2. push_all (\<lambda>e. aosl_list_add_tail e 4) [12, 8] [4 \<mapsto> lh 4 4, 8 \<mapsto> lh 0 0, 12 \<mapsto> lh 0 0] = Ret h1
    \<and> pop_many (aosl_list_remove_head 4) (length [12, 8 :: ptr]) h1 = Ret ([12, 8], h2) \<and> ring h2 4 []"
  by (rule list_fifo) (auto simp: ring_def linked_def)

end
