(* ===== verification/Timer.thy ===== *)
theory Timer
  imports Handle_Table Rb_Walk Aosl_List
begin

text \<open>
  The timers of a queue, \<^verbatim>\<open>kernel/timer.c\<close>. A scheduled timer is in a red-black tree ordered by expiry and, in the
  same order, in a doubly linked list threaded through the timers, whose first element the queue's
  loop looks at. The state of the model is what the functions reach from a \<^verbatim>\<open>struct mp_queue\<close>:
  the timer base, the list of all timers of the queue, the memory of the timers, the
  global identifier table, the error number of the thread, and the queue's call stack record. A timer
  and the tree node in it have the same address here (\<^verbatim>\<open>container_of\<close> is the identity), so the
  memory of a timer is its entry in \<open>tmem\<close> and its node in the heap of \<open>active\<close>.

  Not under the code's control, and so arguments: the clock (\<open>tick k\<close> is the \<open>k\<close>-th reading), the timer's
  callback (a function on the whole state, which may call any operation here), the outcome of an
  allocation, and the outcome of a call to another queue's thread. A destructor is recorded, not run.
  Sizes are those of a 64-bit target. Loops over the tree get \<open>rb_fuel\<close> rounds, one more than the tree has nodes.
\<close>

record timer_node =
  timer_prev :: ptr
  timer_next :: ptr
  obj_id :: u32
  usage :: u64
  timer_q_id :: u64
  interval :: u64
  expire_time :: u64
  func :: ptr
  dtor :: ptr
  argv :: "u64 list"

text \<open>\<^verbatim>\<open>struct mpq_stack\<close>, the fields \<^verbatim>\<open>mpq_stack_fini\<close> resets.\<close>

record mpq_stack =
  stack_id :: ptr
  prepare_calls :: ptr
  err_stack_id :: ptr
  task_exec_err :: int
  resume_calls :: ptr
  prepare_calls_count :: u32
  task_exec_count :: u32

record timer_queue =
  qid :: u64
  active :: rb_root
  first :: ptr
  timers :: "ptr list"
  timer_count :: u64
  q_stack_curr :: mpq_stack
  tmem :: "ptr \<rightharpoonup> timer_node"
  timer_table :: "ptr obj_table"
  dtor_calls :: "(ptr \<times> u64 list) list"
  clock_reads :: nat
  aosl_errno :: int

definition AOSL_STACK_INVALID :: ptr where "AOSL_STACK_INVALID = 0"
definition AOSL_INVALID_TIMER_INTERVAL :: u64 where "AOSL_INVALID_TIMER_INTERVAL = - 1"
definition AOSL_MPQ_TIMER_INVALID :: u32 where "AOSL_MPQ_TIMER_INVALID = - 1"
definition MPQ_ARGC_MAX :: nat where "MPQ_ARGC_MAX = 64"

definition mpq_stack_fini :: "mpq_stack \<Rightarrow> mpq_stack" where
  "mpq_stack_fini stk = stk\<lparr>prepare_calls := 0, err_stack_id := AOSL_STACK_INVALID, task_exec_err := 0,
     resume_calls := 0, prepare_calls_count := 0, task_exec_count := 0\<rparr>"

text \<open>Signed comparison of clock values (\<^verbatim>\<open>include/kernel/timer.h\<close>).\<close>

definition time_after_eq :: "u64 \<Rightarrow> u64 \<Rightarrow> bool" where
  "time_after_eq a b \<longleftrightarrow> 0 \<le> sint (a - b)"

definition timer_at :: "timer_queue \<Rightarrow> ptr \<Rightarrow> timer_node exec" where
  "timer_at s p = (case tmem s p of None \<Rightarrow> Fault | Some t \<Rightarrow> Ret t)"

definition upd_timer :: "ptr \<Rightarrow> (timer_node \<Rightarrow> timer_node) \<Rightarrow> timer_queue \<Rightarrow> timer_queue exec" where
  "upd_timer p f s = ebind (timer_at s p) (\<lambda>t. Ret (s\<lparr>tmem := (tmem s)(p \<mapsto> f t)\<rparr>))"

definition set_timer_prev :: "ptr \<Rightarrow> ptr \<Rightarrow> timer_queue \<Rightarrow> timer_queue exec" where
  "set_timer_prev p q = upd_timer p (\<lambda>t. t\<lparr>timer_prev := q\<rparr>)"

definition set_timer_next :: "ptr \<Rightarrow> ptr \<Rightarrow> timer_queue \<Rightarrow> timer_queue exec" where
  "set_timer_next p q = upd_timer p (\<lambda>t. t\<lparr>timer_next := q\<rparr>)"

definition set_expire_time :: "ptr \<Rightarrow> u64 \<Rightarrow> timer_queue \<Rightarrow> timer_queue exec" where
  "set_expire_time p e = upd_timer p (\<lambda>t. t\<lparr>expire_time := e\<rparr>)"

definition set_interval :: "ptr \<Rightarrow> u64 \<Rightarrow> timer_queue \<Rightarrow> timer_queue exec" where
  "set_interval p i = upd_timer p (\<lambda>t. t\<lparr>interval := i\<rparr>)"

definition aosl_tick_now :: "(nat \<Rightarrow> u64) \<Rightarrow> timer_queue \<Rightarrow> u64 \<times> timer_queue" where
  "aosl_tick_now tick s = (tick (clock_reads s), s\<lparr>clock_reads := Suc (clock_reads s)\<rparr>)"

subsection \<open>The ordered tree and list of scheduled timers\<close>

fun find_timer_from :: "nat \<Rightarrow> u64 \<Rightarrow> timer_queue \<Rightarrow> rb_link \<Rightarrow> ptr \<Rightarrow> ptr \<Rightarrow> (rb_link \<times> ptr \<times> ptr) exec" where
  "find_timer_from 0 expire s link parent prev = NoFuel"
| "find_timer_from (Suc fuel) expire s link parent prev =
     ebind (load_link link (active s)) (\<lambda>p.
     if p = 0 then Ret (link, prev, parent)
     else ebind (timer_at s p) (\<lambda>entry.
       if expire < expire_time entry then find_timer_from fuel expire s (Child_Link p L) p prev
       else find_timer_from fuel expire s (Child_Link p R) p p))"

definition find_timer_prepare :: "ptr \<Rightarrow> timer_queue \<Rightarrow> (rb_link \<times> ptr \<times> ptr) exec" where
  "find_timer_prepare timer s =
     ebind (timer_at s timer) (\<lambda>t. find_timer_from (rb_fuel (active s)) (expire_time t) s Root_Link 0 0)"

definition timer_link_list :: "ptr \<Rightarrow> ptr \<Rightarrow> ptr \<Rightarrow> timer_queue \<Rightarrow> timer_queue exec" where
  "timer_link_list timer prev parent s =
     ebind (set_timer_prev timer prev s) (\<lambda>s.
     if prev = 0 then
       ebind (if parent \<noteq> 0
              then ebind (set_timer_next timer parent s) (set_timer_prev parent timer)
              else set_timer_next timer 0 s) (\<lambda>s.
       Ret (s\<lparr>first := timer\<rparr>))
     else
       ebind (timer_at s prev) (\<lambda>pv. let nxt = timer_next pv in
       ebind (set_timer_next timer nxt s) (\<lambda>s.
       ebind (if nxt \<noteq> 0 then set_timer_prev nxt timer s else Ret s) (\<lambda>s.
       set_timer_next prev timer s))))"

definition timer_link_rb :: "ptr \<Rightarrow> rb_link \<Rightarrow> ptr \<Rightarrow> timer_queue \<Rightarrow> timer_queue exec" where
  "timer_link_rb timer link parent s =
     ebind (rb_link_node timer parent link (active s)) (\<lambda>a.
     ebind (aosl_rb_insert_color (rb_fuel (active s)) timer a) (\<lambda>a.
     Ret (s\<lparr>active := a\<rparr>)))"

definition insert_timer :: "ptr \<Rightarrow> timer_queue \<Rightarrow> timer_queue exec" where
  "insert_timer timer s =
     ebind (find_timer_prepare timer s) (\<lambda>(link, prev, parent).
     ebind (timer_link_list timer prev parent s) (\<lambda>s.
     timer_link_rb timer link parent s))"

definition timer_unlink_list :: "ptr \<Rightarrow> timer_queue \<Rightarrow> timer_queue exec" where
  "timer_unlink_list timer s =
     ebind (timer_at s timer) (\<lambda>t. let nxt = timer_next t in
     ebind (if first s = timer then
              if nxt \<noteq> 0 then ebind (set_timer_prev nxt 0 s) (\<lambda>s. Ret (s\<lparr>first := nxt\<rparr>))
              else Ret (s\<lparr>first := 0\<rparr>)
            else
              ebind (set_timer_next (timer_prev t) nxt s) (\<lambda>s.
              if nxt \<noteq> 0 then ebind (timer_at s timer) (\<lambda>t. set_timer_prev nxt (timer_prev t) s) else Ret s)) (\<lambda>s.
     ebind (set_timer_next timer AOSL_LIST_POISON1 s) (\<lambda>s.
     set_timer_prev timer AOSL_LIST_POISON2 s)))"

definition timer_unlink_rb :: "ptr \<Rightarrow> timer_queue \<Rightarrow> timer_queue exec" where
  "timer_unlink_rb timer s =
     ebind (aosl_rb_erase (rb_fuel (active s)) timer (active s)) (\<lambda>a. Ret (s\<lparr>active := a\<rparr>))"

definition unlink_timer :: "ptr \<Rightarrow> timer_queue \<Rightarrow> timer_queue exec" where
  "unlink_timer timer s = ebind (timer_unlink_list timer s) (timer_unlink_rb timer)"

definition sched_timer :: "(nat \<Rightarrow> u64) \<Rightarrow> ptr \<Rightarrow> u64 \<Rightarrow> timer_queue \<Rightarrow> timer_queue exec" where
  "sched_timer tick timer expire s =
     ebind (timer_at s timer) (\<lambda>t.
     ebind (if expire \<noteq> 0 then
              ebind (if interval t \<noteq> AOSL_INVALID_TIMER_INTERVAL
                     then set_interval timer AOSL_INVALID_TIMER_INTERVAL s else Ret s) (set_expire_time timer expire)
            else if interval t \<noteq> AOSL_INVALID_TIMER_INTERVAL then
              (let (now, s) = aosl_tick_now tick s in set_expire_time timer (now + interval t) s)
            else set_expire_time timer (- 1) s)
     (insert_timer timer))"

definition scheduled :: "timer_node \<Rightarrow> bool" where
  "scheduled t \<longleftrightarrow> timer_next t \<noteq> AOSL_LIST_POISON1"

definition cancel_timer_on_q :: "ptr \<Rightarrow> timer_queue \<Rightarrow> timer_queue exec" where
  "cancel_timer_on_q timer s =
     ebind (timer_at s timer) (\<lambda>t. if scheduled t then unlink_timer timer s else Ret s)"

definition resched_timer :: "(nat \<Rightarrow> u64) \<Rightarrow> ptr \<Rightarrow> u64 \<Rightarrow> u64 \<Rightarrow> timer_queue \<Rightarrow> timer_queue exec" where
  "resched_timer tick timer ival expire s =
     ebind (timer_at s timer) (\<lambda>t.
     ebind (if scheduled t then unlink_timer timer s else Ret s) (\<lambda>s.
     ebind (if expire = 0 \<and> ival \<noteq> AOSL_INVALID_TIMER_INTERVAL then set_interval timer ival s else Ret s) (\<lambda>s.
     sched_timer tick timer expire s)))"

subsection \<open>Creation and destruction\<close>

text \<open>
  \<open>mem\<close> is what \<^verbatim>\<open>aosl_malloc\<close> returns, \<open>gm\<close> the allocations of a growing identifier table. The memory of a fresh timer
  has a tree node with unknown contents. The error or the timer is the value \<open>Inl\<close> or \<open>Inr\<close> (\<^verbatim>\<open>ERR_PTR\<close>).
\<close>

definition fresh_node :: rb_node where
  "fresh_node = \<lparr>rb_parent = 0, rb_color = Red, rb_right = 0, rb_left = 0\<rparr>"

definition timer_id_install :: "int \<Rightarrow> ptr \<Rightarrow> timer_queue \<Rightarrow> timer_queue exec" where
  "timer_id_install ident timer s =
     ebind (obj_id_install ident timer (timer_table s)) (\<lambda>(h, tab).
     upd_timer timer (\<lambda>t. t\<lparr>obj_id := h\<rparr>) (s\<lparr>timer_table := tab\<rparr>))"

definition create_timer_on_q ::
  "ptr option \<Rightarrow> grow_mem \<Rightarrow> u64 \<Rightarrow> ptr \<Rightarrow> ptr \<Rightarrow> u64 list \<Rightarrow> timer_queue \<Rightarrow> ((int + ptr) \<times> timer_queue) exec" where
  "create_timer_on_q mem gm ival fn dt args s =
     (case mem of
        None \<Rightarrow> Ret (Inl (- AOSL_ENOMEM), s)
      | Some timer \<Rightarrow>
          ebind (get_unused_timer_id gm (timer_table s)) (\<lambda>(ident, tab). let s = s\<lparr>timer_table := tab\<rparr> in
          if ident < 0 then Ret (Inl ident, s)
          else
            let t = \<lparr>timer_prev = AOSL_LIST_POISON2, timer_next = AOSL_LIST_POISON1, obj_id = AOSL_MPQ_TIMER_INVALID,
                     usage = 1, timer_q_id = qid s, interval = ival, expire_time = - 1, func = fn, dtor = dt, argv = args\<rparr>;
                s = s\<lparr>tmem := (tmem s)(timer \<mapsto> t), active := (active s)\<lparr>heap := (heap (active s))(timer \<mapsto> fresh_node)\<rparr>,
                      timers := timers s @ [timer], timer_count := timer_count s + 1\<rparr>
            in ebind (timer_id_install ident timer s) (\<lambda>s. Ret (Inr timer, s))))"

definition timer_dtor :: "timer_node \<Rightarrow> timer_queue \<Rightarrow> timer_queue" where
  "timer_dtor t s = (if dtor t \<noteq> 0 then s\<lparr>dtor_calls := dtor_calls s @ [(dtor t, argv t)]\<rparr> else s)"

definition free_timer :: "ptr \<Rightarrow> timer_queue \<Rightarrow> timer_queue exec" where
  "free_timer timer s =
     ebind (timer_at s timer) (\<lambda>t. let ident = get_obj_slot (obj_id t); s = timer_dtor t s in
     ebind (put_unused_timer_id ident (timer_table s)) (\<lambda>tab.
     Ret (s\<lparr>timer_table := tab, tmem := (tmem s)(timer := None),
            active := (active s)\<lparr>heap := (heap (active s))(timer := None)\<rparr>\<rparr>)))"

definition timer_put :: "ptr \<Rightarrow> timer_queue \<Rightarrow> timer_queue exec" where
  "timer_put timer s =
     ebind (timer_at s timer) (\<lambda>t.
     ebind (upd_timer timer (\<lambda>t. t\<lparr>usage := usage t - 1\<rparr>) s) (\<lambda>s.
     if usage t - 1 = 0 then free_timer timer s else Ret s))"

text \<open>A table entry that is not a timer's memory is a dangling pointer: reading its \<^verbatim>\<open>obj_id\<close> is a fault.\<close>

definition timer_get :: "u32 \<Rightarrow> timer_queue \<Rightarrow> (ptr \<times> timer_queue) exec" where
  "timer_get h s = (let slot = get_obj_slot h; tab = timer_table s in
     if slot < 0 then Ret (0, s)
     else if slot < pool_size tab then
       ebind (arr_get (pool_table tab) (nat slot)) (\<lambda>e.
       case e of
         None \<Rightarrow> Ret (0, s)
       | Some timer \<Rightarrow> ebind (timer_at s timer) (\<lambda>t.
           if obj_id t = h then ebind (upd_timer timer (\<lambda>t. t\<lparr>usage := usage t + 1\<rparr>) s) (\<lambda>s. Ret (timer, s))
           else Ret (0, s)))
     else Ret (0, s))"

definition kill_timer_on_q :: "ptr \<Rightarrow> timer_queue \<Rightarrow> (int \<times> timer_queue) exec" where
  "kill_timer_on_q timer s =
     ebind (timer_at s timer) (\<lambda>t.
     ebind (obj_id_uninstall (get_obj_slot (obj_id t)) timer (timer_table s)) (\<lambda>(err, tab). let s = s\<lparr>timer_table := tab\<rparr> in
     if err < 0 then Ret (err, s)
     else
       ebind (cancel_timer_on_q timer s) (\<lambda>s.
       ebind (timer_put timer (s\<lparr>timers := remove1 timer (timers s), timer_count := timer_count s - 1\<rparr>)) (\<lambda>s.
       Ret (0, s)))))"

definition mpq_init_timers :: "timer_queue \<Rightarrow> timer_queue" where
  "mpq_init_timers s = s\<lparr>active := aosl_rb_root_init (active s), first := 0, timers := [], timer_count := 0\<rparr>"

text \<open>The loop looks at the head of the list until it is empty; a timer that could not be removed would stay there for ever.\<close>

fun fini_timers_loop :: "nat \<Rightarrow> timer_queue \<Rightarrow> timer_queue exec" where
  "fini_timers_loop 0 s = NoFuel"
| "fini_timers_loop (Suc fuel) s =
     (case timers s of
        [] \<Rightarrow> Ret s
      | timer # _ \<Rightarrow> ebind (kill_timer_on_q timer s) (\<lambda>(_, s). fini_timers_loop fuel s))"

definition mpq_fini_timers :: "timer_queue \<Rightarrow> timer_queue exec" where
  "mpq_fini_timers s = ebind (fini_timers_loop (Suc (length (timers s))) s) (\<lambda>s. Ret (s\<lparr>timer_count := 0\<rparr>))"

subsection \<open>Running\<close>

type_synonym timer_func = "ptr \<Rightarrow> u32 \<Rightarrow> u64 \<Rightarrow> u64 list \<Rightarrow> timer_queue \<Rightarrow> timer_queue exec"

text \<open>One round of the loop of \<^verbatim>\<open>__check_and_run_timers\<close>, for the first timer when it is due.\<close>

definition run_first_timer :: "(nat \<Rightarrow> u64) \<Rightarrow> timer_func \<Rightarrow> u64 \<Rightarrow> ptr \<Rightarrow> timer_queue \<Rightarrow> timer_queue exec" where
  "run_first_timer tick cb now timer s =
     ebind (unlink_timer timer s) (\<lambda>s.
     ebind (timer_at s timer) (\<lambda>t.
     ebind (if interval t \<noteq> AOSL_INVALID_TIMER_INTERVAL then
              (let (tk, s) = aosl_tick_now tick s in
               ebind (set_expire_time timer (tk + interval t - (now - expire_time t)) s) (insert_timer timer))
            else Ret s) (\<lambda>s.
     ebind (timer_at s timer) (\<lambda>t.
     ebind (cb (func t) (obj_id t) now (argv t) s) (\<lambda>s.
     Ret (s\<lparr>q_stack_curr := mpq_stack_fini (q_stack_curr s)\<rparr>))))))"

fun run_timers_loop :: "nat \<Rightarrow> (nat \<Rightarrow> u64) \<Rightarrow> timer_func \<Rightarrow> u64 \<Rightarrow> int \<Rightarrow> timer_queue \<Rightarrow> (int \<times> timer_queue) exec" where
  "run_timers_loop 0 tick cb now cnt s = NoFuel"
| "run_timers_loop (Suc fuel) tick cb now cnt s =
     (if first s = 0 then Ret (cnt, s)
      else ebind (timer_at s (first s)) (\<lambda>t.
        if time_after_eq now (expire_time t) then
          ebind (run_first_timer tick cb now (first s) s) (run_timers_loop fuel tick cb now (cnt + 1))
        else Ret (cnt, s)))"

definition check_and_run_timers :: "nat \<Rightarrow> (nat \<Rightarrow> u64) \<Rightarrow> timer_func \<Rightarrow> timer_queue \<Rightarrow> (int \<times> timer_queue) exec" where
  "check_and_run_timers fuel tick cb s =
     (let (now, s) = aosl_tick_now tick s in run_timers_loop fuel tick cb now 0 s)"

subsection \<open>Invariant\<close>

text \<open>
  \<open>tchain m p xs q\<close>: the timers \<open>xs\<close> are linked in this order, with \<open>p\<close> before the first and \<open>q\<close> after the last.
\<close>

fun tchain :: "(ptr \<rightharpoonup> timer_node) \<Rightarrow> ptr \<Rightarrow> ptr list \<Rightarrow> ptr \<Rightarrow> bool" where
  "tchain m p [] q = True"
| "tchain m p (x # xs) q \<longleftrightarrow> (\<exists>t. m x = Some t \<and> timer_prev t = p \<and> timer_next t = after q xs) \<and> tchain m x xs q"

definition expire_of :: "(ptr \<rightharpoonup> timer_node) \<Rightarrow> ptr \<Rightarrow> int" where
  "expire_of m p = (case m p of None \<Rightarrow> 0 | Some t \<Rightarrow> uint (expire_time t))"

definition timer_addr :: "ptr \<Rightarrow> bool" where
  "timer_addr p \<longleftrightarrow> 0 < p \<and> p < 2 ^ 64 \<and> p \<noteq> AOSL_LIST_POISON1"

text \<open>The scheduled timers of \<open>s\<close> are \<open>xs\<close>, in the order in which they fire.\<close>

definition timers_ok :: "timer_queue \<Rightarrow> ptr list \<Rightarrow> bool" where
  "timers_ok s xs \<longleftrightarrow> rb_holds (active s) xs \<and> tchain (tmem s) 0 xs 0 \<and> first s = after 0 xs
     \<and> sorted (map (expire_of (tmem s)) xs) \<and> node_mem (active s) = dom (tmem s)
     \<and> (\<forall>p \<in> dom (tmem s). timer_addr p)
     \<and> (\<forall>p t. tmem s p = Some t \<longrightarrow> p \<notin> set xs \<longrightarrow> timer_next t = AOSL_LIST_POISON1)"

lemma before_Cons [simp]: "before p (x # xs) = before x xs"
  by (simp add: before_def)

lemma after_append: "after q (xs @ ys) = after (after q ys) xs" and before_append: "before p (xs @ ys) = before (before p xs) ys"
  by (cases xs; cases ys; simp add: after_def before_def)+

lemma tchain_append: "tchain m p (xs @ ys) q \<longleftrightarrow> tchain m p xs (after q ys) \<and> tchain m (before p xs) ys q"
  by (induction xs arbitrary: p) (auto simp: after_append)

lemma tchain_cong: "(\<And>x. x \<in> set xs \<Longrightarrow> m' x = m x) \<Longrightarrow> tchain m' p xs q = tchain m p xs q"
  by (induction xs arbitrary: p) auto

lemma tchain_upd [simp]: "a \<notin> set xs \<Longrightarrow> tchain (m(a := v)) p xs q = tchain m p xs q"
  by (rule tchain_cong) auto

lemma tchain_dom: "tchain m p xs q \<Longrightarrow> set xs \<subseteq> dom m"
  by (induction xs arbitrary: p) auto

text \<open>The pointer into a chain from the left, and out of it to the right.\<close>

lemma tchain_set_prev: "tchain m p (x # xs) q \<Longrightarrow> x \<notin> set xs \<Longrightarrow> m x = Some t \<Longrightarrow> tchain (m(x \<mapsto> t\<lparr>timer_prev := p'\<rparr>)) p' (x # xs) q"
  by auto

lemma tchain_set_next:
  assumes "tchain m p (xs @ [x]) q" and "x \<notin> set xs" and "m x = Some t"
  shows "tchain (m(x \<mapsto> t\<lparr>timer_next := q'\<rparr>)) p (xs @ [x]) q'"
  using assms by (auto simp: tchain_append)

text \<open>Two memories that agree but for the links.\<close>

definition no_links :: "timer_node \<Rightarrow> timer_node" where
  "no_links t = t\<lparr>timer_prev := 0, timer_next := 0\<rparr>"

definition links_only :: "ptr set \<Rightarrow> (ptr \<rightharpoonup> timer_node) \<Rightarrow> (ptr \<rightharpoonup> timer_node) \<Rightarrow> bool" where
  "links_only A m m' \<longleftrightarrow> (\<forall>p. map_option no_links (m' p) = map_option no_links (m p)) \<and> (\<forall>p. p \<notin> A \<longrightarrow> m' p = m p)"

lemma links_only_dom: "links_only A m m' \<Longrightarrow> dom m' = dom m"
  unfolding links_only_def dom_def by (auto simp: map_option_case split: option.splits)

lemma no_links_sel: "no_links t = no_links u \<Longrightarrow> expire_time t = expire_time u \<and> interval t = interval u \<and> obj_id t = obj_id u
    \<and> usage t = usage u \<and> func t = func u \<and> dtor t = dtor u \<and> argv t = argv u \<and> timer_q_id t = timer_q_id u"
  by (cases t; cases u) (simp add: no_links_def)

lemma links_only_expire: "links_only A m m' \<Longrightarrow> expire_of m' = expire_of m"
proof
  fix p
  assume "links_only A m m'"
  then have "map_option no_links (m' p) = map_option no_links (m p)" by (simp add: links_only_def)
  then show "expire_of m' p = expire_of m p"
    by (cases "m p"; cases "m' p") (auto simp: expire_of_def dest: no_links_sel)
qed

lemma no_links_upd [simp]:
  "no_links (t\<lparr>timer_prev := a\<rparr>) = no_links t" "no_links (t\<lparr>timer_next := a\<rparr>) = no_links t"
  by (simp_all add: no_links_def)

lemma links_only_refl [simp]: "links_only A m m"
  by (simp add: links_only_def)

lemma links_only_set:
  "links_only A m m' \<Longrightarrow> m' p = Some t \<Longrightarrow> p \<in> A \<Longrightarrow> links_only A m (m'(p \<mapsto> t\<lparr>timer_prev := a\<rparr>))"
  "links_only A m m' \<Longrightarrow> m' p = Some t \<Longrightarrow> p \<in> A \<Longrightarrow> links_only A m (m'(p \<mapsto> t\<lparr>timer_next := a\<rparr>))"
  unfolding links_only_def by (auto, (metis option.simps(9))+)

subsection \<open>Linking and unlinking\<close>

lemma upd_timer_Ret: "tmem s p = Some t \<Longrightarrow> upd_timer p f s = Ret (s\<lparr>tmem := (tmem s)(p \<mapsto> f t)\<rparr>)"
  by (simp add: upd_timer_def timer_at_def)

lemmas timer_set_defs = set_timer_prev_def set_timer_next_def set_expire_time_def set_interval_def

lemma link_list_ok:
  assumes c: "tchain (tmem s) 0 (ys @ zs) 0" and d: "distinct (timer # ys @ zs)" and nz: "0 \<notin> set (ys @ zs)"
    and t: "tmem s timer = Some t" and p: "ys = [] \<Longrightarrow> parent = after 0 zs" and f: "first s = after 0 (ys @ zs)"
  obtains m' where "timer_link_list timer (before 0 ys) parent s = Ret (s\<lparr>tmem := m', first := after 0 (ys @ timer # zs)\<rparr>)"
    "tchain m' 0 (ys @ timer # zs) 0" "links_only (insert timer (set (ys @ zs))) (tmem s) m'"
proof (cases ys rule: rev_cases)
  case Nil
  show thesis
  proof (cases zs)
    case Nil
    let ?m = "(tmem s)(timer \<mapsto> t\<lparr>timer_prev := 0, timer_next := 0\<rparr>)"
    have "timer_link_list timer (before 0 ys) parent s = Ret (s\<lparr>tmem := ?m, first := after 0 (ys @ timer # zs)\<rparr>)"
      using \<open>ys = []\<close> Nil p t by (simp add: timer_link_list_def timer_set_defs upd_timer_Ret)
    then show thesis by (rule that) (use \<open>ys = []\<close> Nil t in \<open>auto simp: links_only_def\<close>)
  next
    case (Cons z zs')
    with c \<open>ys = []\<close> obtain u where u: "tmem s z = Some u" by auto
    let ?m = "(tmem s)(timer \<mapsto> t\<lparr>timer_prev := 0, timer_next := z\<rparr>, z \<mapsto> u\<lparr>timer_prev := timer\<rparr>)"
    have "timer_link_list timer (before 0 ys) parent s = Ret (s\<lparr>tmem := ?m, first := after 0 (ys @ timer # zs)\<rparr>)"
      using \<open>ys = []\<close> Cons p t u d nz by (simp add: timer_link_list_def timer_set_defs upd_timer_Ret)
    then show thesis by (rule that) (use \<open>ys = []\<close> Cons t u d c in \<open>auto simp: links_only_def\<close>)
  qed
next
  case (snoc ys' y)
  with c obtain v where v: "tmem s y = Some v" "timer_next v = after 0 zs" by (auto simp: tchain_append)
  have y: "y \<noteq> 0" "y \<noteq> timer" "y \<notin> set ys'" "y \<notin> set zs" using snoc nz d by auto
  have c': "tchain (tmem s) 0 ys' y" "timer_prev v = before 0 ys'" "tchain (tmem s) y zs 0" using c snoc v by (auto simp: tchain_append)
  have fst: "first s = after 0 (ys @ timer # zs)" using f snoc by (simp add: after_append)
  show thesis
  proof (cases zs)
    case Nil
    let ?m = "(tmem s)(timer \<mapsto> t\<lparr>timer_prev := y, timer_next := 0\<rparr>, y \<mapsto> v\<lparr>timer_next := timer\<rparr>)"
    have "timer_link_list timer (before 0 ys) parent s = Ret (s\<lparr>tmem := ?m, first := after 0 (ys @ timer # zs)\<rparr>)"
      using snoc Nil t v y fst [symmetric] by (simp add: timer_link_list_def timer_set_defs upd_timer_Ret timer_at_def before_append)
    then show thesis by (rule that) (use snoc Nil t v y d c' in \<open>auto simp: links_only_def tchain_append\<close>)
  next
    case (Cons z zs')
    with c' obtain u where u: "tmem s z = Some u" by auto
    have z: "z \<noteq> 0" "z \<noteq> timer" "z \<noteq> y" "z \<notin> set ys'" "z \<notin> set zs'" using snoc Cons nz d by auto
    let ?m = "(tmem s)(timer \<mapsto> t\<lparr>timer_prev := y, timer_next := z\<rparr>, z \<mapsto> u\<lparr>timer_prev := timer\<rparr>, y \<mapsto> v\<lparr>timer_next := timer\<rparr>)"
    have "timer_link_list timer (before 0 ys) parent s = Ret (s\<lparr>tmem := ?m, first := after 0 (ys @ timer # zs)\<rparr>)"
      using snoc Cons t u v y z fst [symmetric] by (simp add: timer_link_list_def timer_set_defs upd_timer_Ret timer_at_def before_append)
    then show thesis by (rule that) (use snoc Cons t u v y z d c' in \<open>auto simp: links_only_def tchain_append\<close>)
  qed
qed

lemma unlink_list_ok:
  assumes c: "tchain (tmem s) 0 (ys @ timer # zs) 0" and d: "distinct (ys @ timer # zs)" and nz: "0 \<notin> set (ys @ timer # zs)"
    and f: "first s = after 0 (ys @ timer # zs)"
  obtains m' t' where "timer_unlink_list timer s = Ret (s\<lparr>tmem := m', first := after 0 (ys @ zs)\<rparr>)"
    "tchain m' 0 (ys @ zs) 0" "links_only (set (ys @ timer # zs)) (tmem s) m'" "m' timer = Some t'" "timer_next t' = AOSL_LIST_POISON1"
proof -
  from c obtain t where t: "tmem s timer = Some t" "timer_prev t = before 0 ys" "timer_next t = after 0 zs" by (auto simp: tchain_append)
  let ?t = "t\<lparr>timer_next := AOSL_LIST_POISON1, timer_prev := AOSL_LIST_POISON2\<rparr>"
  show thesis
  proof (cases ys rule: rev_cases)
    case Nil
    show thesis
    proof (cases zs)
      case Nil
      let ?m = "(tmem s)(timer \<mapsto> ?t)"
      have "timer_unlink_list timer s = Ret (s\<lparr>tmem := ?m, first := after 0 (ys @ zs)\<rparr>)"
        using \<open>ys = []\<close> Nil t f by (simp add: timer_unlink_list_def timer_set_defs upd_timer_Ret timer_at_def)
      then show thesis by (rule that) (use \<open>ys = []\<close> Nil t in \<open>auto simp: links_only_def\<close>)
    next
      case (Cons z zs')
      with c \<open>ys = []\<close> obtain u where u: "tmem s z = Some u" by auto
      let ?m = "(tmem s)(z \<mapsto> u\<lparr>timer_prev := 0\<rparr>, timer \<mapsto> ?t)"
      have "timer_unlink_list timer s = Ret (s\<lparr>tmem := ?m, first := after 0 (ys @ zs)\<rparr>)"
        using \<open>ys = []\<close> Cons t u d nz f by (simp add: timer_unlink_list_def timer_set_defs upd_timer_Ret timer_at_def)
      then show thesis by (rule that) (use \<open>ys = []\<close> Cons t u d c in \<open>auto simp: links_only_def\<close>)
    qed
  next
    case (snoc ys' y)
    with c obtain v where v: "tmem s y = Some v" by (auto simp: tchain_append)
    have y: "y \<noteq> 0" "y \<noteq> timer" "y \<notin> set ys'" "y \<notin> set zs" using snoc nz d by auto
    have c': "tchain (tmem s) 0 ys' y" "timer_prev v = before 0 ys'" "tchain (tmem s) timer zs 0" using c snoc v by (auto simp: tchain_append)
    have fst: "first s = after 0 (ys @ zs)" using f snoc by (simp add: after_append)
    have neq: "first s \<noteq> timer" using f snoc d by (cases ys') auto
    show thesis
    proof (cases zs)
      case Nil
      let ?m = "(tmem s)(y \<mapsto> v\<lparr>timer_next := 0\<rparr>, timer \<mapsto> ?t)"
      have "timer_unlink_list timer s = Ret (s\<lparr>tmem := ?m, first := after 0 (ys @ zs)\<rparr>)"
        using snoc Nil t v y neq fst [symmetric] by (simp add: timer_unlink_list_def timer_set_defs upd_timer_Ret timer_at_def before_append)
      then show thesis by (rule that) (use snoc Nil t v y d c' in \<open>auto simp: links_only_def tchain_append\<close>)
    next
      case (Cons z zs')
      with c' obtain u where u: "tmem s z = Some u" by auto
      have z: "z \<noteq> 0" "z \<noteq> timer" "z \<noteq> y" "z \<notin> set ys'" "z \<notin> set zs'" using snoc Cons nz d by auto
      let ?m = "(tmem s)(y \<mapsto> v\<lparr>timer_next := z\<rparr>, z \<mapsto> u\<lparr>timer_prev := y\<rparr>, timer \<mapsto> ?t)"
      have "timer_unlink_list timer s = Ret (s\<lparr>tmem := ?m, first := after 0 (ys @ zs)\<rparr>)"
        using snoc Cons t u v y z neq fst [symmetric] by (simp add: timer_unlink_list_def timer_set_defs upd_timer_Ret timer_at_def before_append)
      then show thesis by (rule that) (use snoc Cons t u v y z d c' in \<open>auto simp: links_only_def tchain_append\<close>)
    qed
  qed
qed

text \<open>The search of \<^verbatim>\<open>__find_timer_prepare\<close> is the tree's own search with the difference of the expiries as the comparison.\<close>

abbreviation expire_cmp :: "timer_queue \<Rightarrow> u64 \<Rightarrow> ptr \<Rightarrow> int" where
  "expire_cmp s e \<equiv> \<lambda>p. expire_of (tmem s) p - uint e"

lemma find_timer_sim:
  "find_rb_links_from fuel (expire_cmp s e) (active s) link parent prev nxt = Ret (l, pa, pv, nx) \<Longrightarrow>
    node_mem (active s) = dom (tmem s) \<Longrightarrow> find_timer_from fuel e s link parent prev = Ret (l, pv, pa)"
proof (induction fuel arbitrary: link parent prev nxt)
  case (Suc fuel)
  from Suc.prems(1) obtain p where p: "load_link link (active s) = Ret p"
    unfolding find_rb_links_from.simps by (rule ebind_RetE)
  show ?case
  proof (cases "p = 0")
    case True
    with Suc.prems p show ?thesis by simp
  next
    case False
    let ?d = "if 0 < expire_cmp s e p then L else R"
    from Suc.prems(1) p False have r: "find_rb_links_from fuel (expire_cmp s e) (active s) (Child_Link p ?d) p
        (if 0 < expire_cmp s e p then prev else p) (if 0 < expire_cmp s e p then p else nxt) = Ret (l, pa, pv, nx)"
      by (auto split: if_splits)
    then obtain n where "heap (active s) p = Some n"
      by (cases fuel) (auto simp: load_link_def deref_def exec_simps split: option.splits if_splits)
    then have "p \<in> dom (tmem s)" using Suc.prems(2) by (auto simp: node_mem_def)
    then obtain t where t: "tmem s p = Some t" by blast
    then have iff: "0 < expire_cmp s e p \<longleftrightarrow> e < expire_time t" by (simp add: expire_of_def word_less_def)
    have "find_timer_from fuel e s (Child_Link p ?d) p (if 0 < expire_cmp s e p then prev else p) = Ret (l, pv, pa)"
      using Suc.IH [OF r Suc.prems(2)] .
    with p False t show ?thesis unfolding iff by (auto simp: timer_at_def split: if_splits)
  qed
qed simp

lemma first_after: "after 0 xs = first_or_null xs" and last_before: "before 0 xs = last_or_null xs"
  by (auto simp: after_def before_def first_or_null_def last_or_null_def split: list.splits)

lemma cpar_leftmost: "cpre C = [] \<Longrightarrow> cpar C = first_or_null (cpost C)"
  by (cases C rule: cpar.cases) (auto simp: first_or_null_def split: side.splits)

lemma timers_bound:
  assumes "distinct xs" and "\<forall>p \<in> set xs. timer_addr p"
  shows "length xs < 2 ^ 64"
proof -
  define N :: nat where "N = 2 ^ 64"
  have "set xs \<subseteq> {0 <..< N}" using assms(2) unfolding timer_addr_def N_def by fastforce
  from card_mono [OF _ this] have "card (set xs) \<le> N - 1" by simp
  moreover have "0 < N" by (simp add: N_def)
  ultimately show ?thesis unfolding N_def [symmetric] distinct_card [OF assms(1)] by linarith
qed

lemma timers_okD:
  assumes "timers_ok s xs"
  shows "distinct xs" and "0 \<notin> set xs" and "set xs \<subseteq> dom (tmem s)" and "AOSL_LIST_POISON1 \<notin> dom (tmem s)"
proof -
  show "distinct xs" "0 \<notin> set xs" using assms rbn.no_null [of "active s" xs] by (auto simp: timers_ok_def)
  show "set xs \<subseteq> dom (tmem s)" using assms by (intro tchain_dom [of _ 0 _ 0]) (simp add: timers_ok_def)
  show "AOSL_LIST_POISON1 \<notin> dom (tmem s)" using assms by (auto simp: timers_ok_def timer_addr_def)
qed

definition frame_q :: "timer_queue \<Rightarrow> timer_queue \<Rightarrow> bool" where
  "frame_q s s' \<longleftrightarrow> s' = s\<lparr>active := active s', first := first s', tmem := tmem s'\<rparr>"

lemma insert_timer_ok:
  assumes ok: "timers_ok s xs" and new: "timer \<notin> set xs" and t: "tmem s timer = Some t"
  obtains s' ys zs where "insert_timer timer s = Ret s'" "xs = ys @ zs" "timers_ok s' (ys @ timer # zs)"
    "\<forall>p \<in> set ys. expire_of (tmem s) p \<le> uint (expire_time t)" "\<forall>p \<in> set zs. uint (expire_time t) < expire_of (tmem s) p"
    "links_only (insert timer (set xs)) (tmem s) (tmem s')" "frame_q s s'"
proof -
  let ?e = "expire_time t" let ?cmp = "expire_cmp s ?e" let ?a = "active s" let ?fuel = "rb_fuel ?a"
  have h: "rb_holds ?a xs" and mem: "node_mem ?a = dom (tmem s)" and srt: "sorted (map (expire_of (tmem s)) xs)"
    and adr: "\<forall>p \<in> dom (tmem s). timer_addr p" and chn: "tchain (tmem s) 0 xs 0" and fst: "first s = after 0 xs"
    and poison: "\<forall>p u. tmem s p = Some u \<longrightarrow> p \<notin> set xs \<longrightarrow> timer_next u = AOSL_LIST_POISON1"
    using ok by (auto simp: timers_ok_def)
  note D = timers_okD [OF ok]
  from rb_holds_fuel [OF h] obtain T where T: "trep ?a T" "rb_tree T" "inorder T = xs" "height T < ?fuel" .
  have srt': "sorted_wrt (\<lambda>p q. expire_of (tmem s) p \<le> expire_of (tmem s) q) xs" using srt by (simp add: sorted_map)
  have ord: "ordered_by ?cmp (inorder T)"
    unfolding ordered_by_def T(3) using srt' by (rule sorted_wrt_mono_rel [rotated]) (auto simp: sgn_if)
  from vfind_links_ok [OF T(1) ord T(4)] obtain C where
    C: "aosl_vfind_rb_links ?fuel ?cmp ?a = Ret (link_of C, cpar C, last_or_null (cpre C), first_or_null (cpost C))"
    "cpre C = takeWhile (\<lambda>p. ?cmp p \<le> 0) xs" "cpost C = dropWhile (\<lambda>p. ?cmp p \<le> 0) xs" unfolding T(3) by blast
  define ys zs where "ys = cpre C" and "zs = cpost C"
  have xs: "xs = ys @ zs" using C(2,3) by (simp add: ys_def zs_def)
  have prep: "find_timer_prepare timer s = Ret (link_of C, before 0 ys, cpar C)"
    using find_timer_sim [OF C(1) [unfolded aosl_vfind_rb_links_def] mem] t
    by (simp add: find_timer_prepare_def timer_at_def last_before ys_def)
  have lo: "\<forall>p \<in> set ys. expire_of (tmem s) p \<le> uint ?e" using C(2) by (auto simp: ys_def dest: set_takeWhileD)
  have hi: "\<forall>p \<in> set zs. uint ?e < expire_of (tmem s) p"
  proof (cases zs)
    case (Cons z zs')
    with C(3) hd_dropWhile [of "\<lambda>p. ?cmp p \<le> 0" xs] have "\<not> ?cmp z \<le> 0" unfolding zs_def by (metis list.distinct(1) list.sel(1))
    moreover have "sorted_wrt (\<lambda>p q. expire_of (tmem s) p \<le> expire_of (tmem s) q) (z # zs')"
      using srt' xs Cons by (simp add: sorted_wrt_append)
    ultimately show ?thesis unfolding Cons by auto
  qed simp
  have "ys = [] \<Longrightarrow> cpar C = after 0 zs" using cpar_leftmost [of C] by (simp add: ys_def zs_def first_after)
  from link_list_ok [of s ys zs timer t "cpar C", OF _ _ _ t this] chn fst D new xs obtain m' where
    m': "timer_link_list timer (before 0 ys) (cpar C) s = Ret (s\<lparr>tmem := m', first := after 0 (ys @ timer # zs)\<rparr>)"
    "tchain m' 0 (ys @ timer # zs) 0" "links_only (insert timer (set xs)) (tmem s) m'" by auto
  have bound: "Suc (length xs) < 2 ^ 64"
    using timers_bound [of "timer # xs"] D adr new t by auto
  have "heap ?a timer \<noteq> None" using mem t by (auto simp: node_mem_def)
  from rbn.insert_law [OF h ord [unfolded T(3)] new this bound] obtain a' where
    a': "aosl_rb_insert_node ?fuel ?cmp timer ?a = Ret a'" "rb_holds a' (ys @ timer # zs)"
    unfolding ys_def zs_def C(2,3) by blast
  have ins: "rb_insert ?fuel timer (link_of C) (cpar C) ?a = Ret a'" using a'(1) C(1) by (simp add: aosl_rb_insert_node_def)
  let ?s = "s\<lparr>active := a', first := after 0 (ys @ timer # zs), tmem := m'\<rparr>"
  have "insert_timer timer s = Ret ?s"
    using prep m'(1) ins by (auto simp: insert_timer_def timer_link_rb_def rb_insert_def exec_simps)
  moreover have "timers_ok ?s (ys @ timer # zs)"
  proof -
    have ex: "expire_of m' = expire_of (tmem s)" by (rule links_only_expire [OF m'(3)])
    have "expire_of (tmem s) timer = uint ?e" using t by (simp add: expire_of_def)
    with sorted_insert_mid [of "expire_of (tmem s)" ys zs timer] srt' lo hi xs
    have "sorted (map (expire_of m') (ys @ timer # zs))" unfolding ex sorted_map by simp
    moreover have "node_mem a' = dom m'" using rb_insert_mem [OF ins] mem links_only_dom [OF m'(3)] by simp
    moreover have "\<forall>p \<in> dom m'. timer_addr p" using adr links_only_dom [OF m'(3)] by simp
    moreover have "timer_next u = AOSL_LIST_POISON1" if "m' p = Some u" "p \<notin> set (ys @ timer # zs)" for p u
      using that m'(3) poison xs by (auto simp: links_only_def)
    ultimately show ?thesis using a'(2) m'(2) by (auto simp: timers_ok_def)
  qed
  moreover have "frame_q s ?s" by (simp add: frame_q_def)
  ultimately show thesis using xs lo hi m'(3) by (intro that [of ?s ys zs]) auto
qed

lemma unlink_timer_ok:
  assumes ok: "timers_ok s xs" and old: "timer \<in> set xs"
  obtains s' t where "unlink_timer timer s = Ret s'" "timers_ok s' (remove1 timer xs)"
    "links_only (set xs) (tmem s) (tmem s')" "frame_q s s'" "tmem s' timer = Some t" "timer_next t = AOSL_LIST_POISON1"
proof -
  let ?a = "active s"
  have h: "rb_holds ?a xs" and mem: "node_mem ?a = dom (tmem s)" and srt: "sorted (map (expire_of (tmem s)) xs)"
    and adr: "\<forall>p \<in> dom (tmem s). timer_addr p" and chn: "tchain (tmem s) 0 xs 0" and fst: "first s = after 0 xs"
    and poison: "\<forall>p u. tmem s p = Some u \<longrightarrow> p \<notin> set xs \<longrightarrow> timer_next u = AOSL_LIST_POISON1"
    using ok by (auto simp: timers_ok_def)
  note D = timers_okD [OF ok]
  from old obtain ys zs where xs: "xs = ys @ timer # zs" by (meson split_list)
  then have r: "remove1 timer xs = ys @ zs" using D(1) by (simp add: remove1_append)
  from unlink_list_ok [of s ys timer zs] chn fst D xs obtain m' t where
    m': "timer_unlink_list timer s = Ret (s\<lparr>tmem := m', first := after 0 (ys @ zs)\<rparr>)"
    "tchain m' 0 (ys @ zs) 0" "links_only (set xs) (tmem s) m'" "m' timer = Some t" "timer_next t = AOSL_LIST_POISON1" by auto
  from rbn.erase_law [OF h old] obtain a' where a': "aosl_rb_erase (rb_fuel ?a) timer ?a = Ret a'" "rb_holds a' (ys @ zs)"
    unfolding r by blast
  let ?s = "s\<lparr>active := a', first := after 0 (ys @ zs), tmem := m'\<rparr>"
  have "unlink_timer timer s = Ret ?s" using m'(1) a'(1) by (simp add: unlink_timer_def timer_unlink_rb_def)
  moreover have "timers_ok ?s (ys @ zs)"
  proof -
    have "sorted (map (expire_of m') (ys @ zs))" using srt xs by (simp add: links_only_expire [OF m'(3)] sorted_append)
    moreover have "node_mem a' = dom m'" using erase_mem [OF a'(1)] mem links_only_dom [OF m'(3)] by simp
    moreover have "\<forall>p \<in> dom m'. timer_addr p" using adr links_only_dom [OF m'(3)] by simp
    moreover have "timer_next u = AOSL_LIST_POISON1" if "m' p = Some u" "p \<notin> set (ys @ zs)" for p u
      using that m'(3-5) poison xs by (cases "p = timer") (auto simp: links_only_def)
    ultimately show ?thesis using a'(2) m'(2) by (auto simp: timers_ok_def)
  qed
  moreover have "frame_q s ?s" by (simp add: frame_q_def)
  ultimately show thesis using m' r by (intro that [of ?s t]) auto
qed

subsection \<open>Scheduling\<close>

lemma upd_unscheduled_ok:
  assumes ok: "timers_ok s xs" and t: "tmem s timer = Some t" and new: "timer \<notin> set xs" and f: "timer_next (f t) = timer_next t"
  shows "upd_timer timer f s = Ret (s\<lparr>tmem := (tmem s)(timer \<mapsto> f t)\<rparr>)" and "timers_ok (s\<lparr>tmem := (tmem s)(timer \<mapsto> f t)\<rparr>) xs"
proof -
  show "upd_timer timer f s = Ret (s\<lparr>tmem := (tmem s)(timer \<mapsto> f t)\<rparr>)" using t by (rule upd_timer_Ret)
  have "map (expire_of ((tmem s)(timer \<mapsto> f t))) xs = map (expire_of (tmem s)) xs"
    using new by (intro map_cong) (auto simp: expire_of_def)
  moreover have "dom ((tmem s)(timer \<mapsto> f t)) = dom (tmem s)" using t by auto
  ultimately show "timers_ok (s\<lparr>tmem := (tmem s)(timer \<mapsto> f t)\<rparr>) xs"
    using ok new t f unfolding timers_ok_def by (auto cong: map_cong)
qed

lemma timers_ok_frame [simp]:
  "timers_ok (s\<lparr>clock_reads := n\<rparr>) xs = timers_ok s xs" "timers_ok (s\<lparr>q_stack_curr := k\<rparr>) xs = timers_ok s xs"
  "timers_ok (s\<lparr>timers := l\<rparr>) xs = timers_ok s xs" "timers_ok (s\<lparr>timer_count := c\<rparr>) xs = timers_ok s xs"
  "timers_ok (s\<lparr>timer_table := tb\<rparr>) xs = timers_ok s xs" "timers_ok (s\<lparr>dtor_calls := dc\<rparr>) xs = timers_ok s xs"
  "timers_ok (s\<lparr>aosl_errno := e\<rparr>) xs = timers_ok s xs"
  by (simp_all add: timers_ok_def)

text \<open>What \<^verbatim>\<open>__sched_timer\<close> stores: the expiry and the interval.\<close>

definition sched_values :: "(nat \<Rightarrow> u64) \<Rightarrow> u64 \<Rightarrow> timer_queue \<Rightarrow> timer_node \<Rightarrow> timer_node" where
  "sched_values tick expire s t =
     (if expire \<noteq> 0 then t\<lparr>interval := AOSL_INVALID_TIMER_INTERVAL, expire_time := expire\<rparr>
      else if interval t \<noteq> AOSL_INVALID_TIMER_INTERVAL then t\<lparr>expire_time := tick (clock_reads s) + interval t\<rparr>
      else t\<lparr>expire_time := - 1\<rparr>)"

lemma same_interval: "interval t = i \<Longrightarrow> t\<lparr>interval := i, expire_time := e\<rparr> = t\<lparr>expire_time := e\<rparr>" for t :: timer_node
  by (cases t) simp

lemma sched_timer_ok:
  assumes ok: "timers_ok s xs" and new: "timer \<notin> set xs" and t: "tmem s timer = Some t"
  obtains s' ys zs t' where "sched_timer tick timer expire s = Ret s'" "xs = ys @ zs" "timers_ok s' (ys @ timer # zs)"
    "tmem s' timer = Some t'" "no_links t' = no_links (sched_values tick expire s t)"
    "\<forall>p \<in> set ys. expire_of (tmem s) p \<le> uint (expire_time t')" "\<forall>p \<in> set zs. uint (expire_time t') < expire_of (tmem s) p"
    "links_only (insert timer (set xs)) ((tmem s)(timer \<mapsto> sched_values tick expire s t)) (tmem s')"
    "s' = s\<lparr>active := active s', first := first s', tmem := tmem s', clock_reads := clock_reads s'\<rparr>"
proof -
  let ?v = "sched_values tick expire s t"
  let ?n = "if expire = 0 \<and> interval t \<noteq> AOSL_INVALID_TIMER_INTERVAL then Suc (clock_reads s) else clock_reads s"
  let ?s = "s\<lparr>clock_reads := ?n, tmem := (tmem s)(timer \<mapsto> ?v)\<rparr>"
  have eq: "sched_timer tick timer expire s = insert_timer timer ?s"
  proof -
    note defs = sched_timer_def timer_at_def timer_set_defs aosl_tick_now_def sched_values_def Let_def
    show ?thesis
      using t same_interval by (cases "interval t = AOSL_INVALID_TIMER_INTERVAL") (auto simp: defs upd_timer_Ret same_interval)
  qed
  have "timer_next ?v = timer_next t" by (simp add: sched_values_def)
  then have ok': "timers_ok ?s xs"
    using upd_unscheduled_ok(2) [of "s\<lparr>clock_reads := ?n\<rparr>" xs timer t "\<lambda>_. ?v"] ok t new by simp
  have t': "tmem ?s timer = Some ?v" by simp
  from insert_timer_ok [OF ok' new t'] obtain s' ys zs where
    s': "insert_timer timer ?s = Ret s'" "xs = ys @ zs" "timers_ok s' (ys @ timer # zs)"
    "\<forall>p \<in> set ys. expire_of (tmem ?s) p \<le> uint (expire_time ?v)" "\<forall>p \<in> set zs. uint (expire_time ?v) < expire_of (tmem ?s) p"
    "links_only (insert timer (set xs)) (tmem ?s) (tmem s')" "frame_q ?s s'" .
  have same: "expire_of (tmem ?s) p = expire_of (tmem s) p" if "p \<in> set xs" for p using that new by (auto simp: expire_of_def)
  from s'(6) have "map_option no_links (tmem s' timer) = Some (no_links ?v)" by (simp add: links_only_def)
  then obtain u where u: "tmem s' timer = Some u" "no_links u = no_links ?v" by auto
  then have "expire_time u = expire_time ?v" using no_links_sel by blast
  moreover have "s' = s\<lparr>active := active s', first := first s', tmem := tmem s', clock_reads := clock_reads s'\<rparr>"
    using s'(7) unfolding frame_q_def by (cases s; cases s') simp
  ultimately show thesis using s' u same eq by (intro that [of s' ys zs u]) auto
qed

lemma scheduled_iff:
  assumes ok: "timers_ok s xs" and t: "tmem s timer = Some t"
  shows "scheduled t \<longleftrightarrow> timer \<in> set xs"
proof
  show "timer \<in> set xs" if "scheduled t" using that ok t by (auto simp: timers_ok_def scheduled_def)
  assume "timer \<in> set xs"
  then obtain ys zs where xs: "xs = ys @ timer # zs" by (meson split_list)
  then have "timer_next t = after 0 zs" using ok t by (auto simp: timers_ok_def tchain_append)
  moreover have "after 0 zs \<in> insert 0 (dom (tmem s))" using timers_okD(3) [OF ok] xs by (cases zs) auto
  moreover have "AOSL_LIST_POISON1 \<noteq> 0" by (simp add: AOSL_LIST_POISON1_def)
  ultimately show "scheduled t" using timers_okD(4) [OF ok] unfolding scheduled_def by (metis insertE)
qed

text \<open>What scheduling leaves alone: everything about the timers but when and in which order they fire.\<close>

definition timer_ident :: "timer_node \<Rightarrow> u32 \<times> u64 \<times> ptr \<times> ptr \<times> u64 list" where
  "timer_ident t = (obj_id t, usage t, func t, dtor t, argv t)"

definition same_timers :: "timer_queue \<Rightarrow> timer_queue \<Rightarrow> bool" where
  "same_timers s s' \<longleftrightarrow> (\<forall>q. map_option timer_ident (tmem s' q) = map_option timer_ident (tmem s q)) \<and> timers s' = timers s
     \<and> timer_table s' = timer_table s \<and> timer_count s' = timer_count s \<and> dtor_calls s' = dtor_calls s \<and> aosl_errno s' = aosl_errno s"

lemma same_timers_trans: "same_timers s s' \<Longrightarrow> same_timers s' s'' \<Longrightarrow> same_timers s s''"
  by (simp add: same_timers_def)

lemma links_only_ident: "links_only A m m' \<Longrightarrow> map_option timer_ident (m' q) = map_option timer_ident (m q)"
proof -
  assume "links_only A m m'"
  then have "map_option no_links (m' q) = map_option no_links (m q)" by (simp add: links_only_def)
  then show ?thesis by (cases "m q"; cases "m' q") (auto simp: timer_ident_def dest: no_links_sel)
qed

lemma same_timers_links: "links_only A (tmem s) (tmem s') \<Longrightarrow> frame_q s s' \<Longrightarrow> same_timers s s'"
  using links_only_ident [of A "tmem s" "tmem s'"] unfolding frame_q_def same_timers_def by (cases s; cases s') simp

lemma sched_ident: "timer_ident (sched_values tick expire s t) = timer_ident t"
  by (simp add: timer_ident_def sched_values_def)

lemma cancel_ok:
  assumes ok: "timers_ok s xs" and t: "tmem s timer = Some t"
  obtains s' t' where "cancel_timer_on_q timer s = Ret s'" "timers_ok s' (remove1 timer xs)"
    "links_only (set xs) (tmem s) (tmem s')" "frame_q s s'" "tmem s' timer = Some t'" "\<not> scheduled t'"
proof (cases "timer \<in> set xs")
  case True
  from unlink_timer_ok [OF ok True] obtain s' t' where
    "unlink_timer timer s = Ret s'" "timers_ok s' (remove1 timer xs)"
    "links_only (set xs) (tmem s) (tmem s')" "frame_q s s'" "tmem s' timer = Some t'" "timer_next t' = AOSL_LIST_POISON1" .
  then show thesis using True t scheduled_iff [OF ok t]
    by (intro that [of s' t']) (auto simp: cancel_timer_on_q_def timer_at_def scheduled_def)
next
  case False
  then show thesis using t ok scheduled_iff [OF ok t]
    by (intro that [of s t]) (auto simp: cancel_timer_on_q_def timer_at_def frame_q_def remove1_idem)
qed

lemma resched_ok:
  assumes ok: "timers_ok s xs" and t: "tmem s timer = Some t"
  obtains s' ys zs t' where "resched_timer tick timer ival expire s = Ret s'" "remove1 timer xs = ys @ zs"
    "timers_ok s' (ys @ timer # zs)" "tmem s' timer = Some t'"
    "expire_time t' = expire_time (sched_values tick expire s (if expire = 0 \<and> ival \<noteq> AOSL_INVALID_TIMER_INTERVAL then t\<lparr>interval := ival\<rparr> else t))"
    "\<forall>p \<in> set ys. expire_of (tmem s) p \<le> uint (expire_time t')" "\<forall>p \<in> set zs. uint (expire_time t') < expire_of (tmem s) p"
    "same_timers s s'"
proof -
  let ?g = "\<lambda>u :: timer_node. if expire = 0 \<and> ival \<noteq> AOSL_INVALID_TIMER_INTERVAL then u\<lparr>interval := ival\<rparr> else u"
  from cancel_ok [OF ok t] obtain s1 t1 where
    1: "cancel_timer_on_q timer s = Ret s1" "timers_ok s1 (remove1 timer xs)" "links_only (set xs) (tmem s) (tmem s1)"
    "frame_q s s1" "tmem s1 timer = Some t1" .
  have new: "timer \<notin> set (remove1 timer xs)" using timers_okD(1) [OF ok] by simp
  let ?s2 = "s1\<lparr>tmem := (tmem s1)(timer \<mapsto> ?g t1)\<rparr>"
  have set: "(if expire = 0 \<and> ival \<noteq> AOSL_INVALID_TIMER_INTERVAL then set_interval timer ival s1 else Ret s1) = Ret ?s2"
    using 1(5) by (auto simp: timer_set_defs upd_timer_Ret fun_upd_idem)
  have ok2: "timers_ok ?s2 (remove1 timer xs)" using upd_unscheduled_ok(2) [OF 1(2,5) new, of ?g] by simp
  have "tmem ?s2 timer = Some (?g t1)" by simp
  from sched_timer_ok [OF ok2 new this, of tick expire] obtain s' ys zs t' where
    s': "sched_timer tick timer expire ?s2 = Ret s'" "remove1 timer xs = ys @ zs" "timers_ok s' (ys @ timer # zs)"
    "tmem s' timer = Some t'" "no_links t' = no_links (sched_values tick expire ?s2 (?g t1))"
    "\<forall>p \<in> set ys. expire_of (tmem ?s2) p \<le> uint (expire_time t')" "\<forall>p \<in> set zs. uint (expire_time t') < expire_of (tmem ?s2) p"
    "links_only (insert timer (set (remove1 timer xs))) ((tmem ?s2)(timer \<mapsto> sched_values tick expire ?s2 (?g t1))) (tmem s')"
    "s' = ?s2\<lparr>active := active s', first := first s', tmem := tmem s', clock_reads := clock_reads s'\<rparr>" .
  have "map_option timer_ident (tmem s' q) = map_option timer_ident (tmem s1 q)" for q
  proof -
    have "timer_ident (?g t1) = timer_ident t1" by (simp add: timer_ident_def)
    then show ?thesis using links_only_ident [OF s'(8), of q] 1(5) by (cases "q = timer") (simp_all add: sched_ident)
  qed
  then have "same_timers s1 s'" using s'(9) unfolding same_timers_def by (cases s1; cases s') simp
  with same_timers_links [OF 1(3,4)] have st: "same_timers s s'" by (rule same_timers_trans)
  have eq: "resched_timer tick timer ival expire s = Ret s'"
    using 1(1) set s'(1) t by (simp add: resched_timer_def cancel_timer_on_q_def timer_at_def ebind_assoc)
  have same: "expire_of (tmem ?s2) p = expire_of (tmem s) p" if "p \<in> set (remove1 timer xs)" for p
    using that new links_only_expire [OF 1(3)] by (auto simp: expire_of_def fun_eq_iff)
  from 1(3,5) t have "no_links t1 = no_links t" unfolding links_only_def by (metis option.simps(9) option.inject)
  then have "interval t1 = interval t" using no_links_sel by blast
  moreover have "clock_reads ?s2 = clock_reads s" using 1(4) unfolding frame_q_def by (cases s; cases s1) simp
  moreover have "expire_time t' = expire_time (sched_values tick expire ?s2 (?g t1))" using s'(5) no_links_sel by blast
  ultimately have "expire_time t' = expire_time (sched_values tick expire s (?g t))" by (auto simp: sched_values_def)
  then show thesis using s'(2-4,6,7) eq same st by (intro that [of s' ys zs t']) auto
qed

subsection \<open>Running the due timers\<close>

lemma sint_nonneg_u64: "0 \<le> sint (w :: u64) \<longleftrightarrow> uint w < 2 ^ 63"
proof -
  have "uint w = take_bit (Suc 63) (uint w)" using unsigned_less [of w] by (intro take_bit_int_eq_self [symmetric]) auto
  also have "\<dots> = 2 ^ 63 * of_bool (bit w 63) + take_bit 63 (uint w)" unfolding take_bit_Suc_from_most by (simp add: bit_uint_iff)
  finally have split: "uint w = 2 ^ 63 * of_bool (bit w 63) + take_bit 63 (uint w)" .
  have "bit w 63 \<longleftrightarrow> 2 ^ 63 \<le> uint w"
  proof (cases "bit w 63")
    case True
    with split have "uint w = 2 ^ 63 + take_bit 63 (uint w)" by (metis of_bool_eq(2) mult_1_right)
    then have "2 ^ 63 \<le> uint w" using take_bit_nonnegative [of 63 "uint w"] by linarith
    with True show ?thesis by blast
  next
    case False
    with split have "uint w = take_bit 63 (uint w)" by simp
    then have "uint w < 2 ^ 63" by (metis take_bit_int_less_exp)
    with False show ?thesis by linarith
  qed
  moreover have "0 \<le> sint w \<longleftrightarrow> \<not> bit w 63" by (simp add: sint_uint signed_take_bit_nonnegative_iff bit_uint_iff)
  ultimately show ?thesis by linarith
qed

text \<open>For clock values below \<open>2 ^ 63\<close> the signed comparison is the comparison of the numbers.\<close>

lemma time_after_eq_iff:
  assumes "uint a < 2 ^ 63" and "uint b < 2 ^ 63"
  shows "time_after_eq a b \<longleftrightarrow> uint b \<le> uint a"
proof (cases "uint b \<le> uint a")
  case True
  then have "uint (a - b) = uint a - uint b" using uint_sub_lem by blast
  moreover have "uint a - uint b < 2 ^ 63" using assms uint_ge_0 [of b] by linarith
  ultimately show ?thesis using True by (simp only: time_after_eq_def sint_nonneg_u64)
next
  case False
  have p: "(2 :: int) ^ 64 = 2 * 2 ^ 63" "(0 :: int) < 2 ^ 63" by simp_all
  have "uint (a - b) = (uint a - uint b) mod 2 ^ 64" by (simp add: uint_word_ariths)
  also have "\<dots> = (uint a - uint b + 2 ^ 64) mod 2 ^ 64" by (simp only: mod_add_self2)
  also have "\<dots> = uint a - uint b + 2 ^ 64"
    using False assms uint_ge_0 [of a] p by (intro mod_pos_pos_trivial) linarith+
  finally have "2 ^ 63 \<le> uint (a - b)" using assms uint_ge_0 [of a] p by linarith
  then show ?thesis using False by (simp add: time_after_eq_def sint_nonneg_u64)
qed

text \<open>When a timer fires, a periodic one is moved to its next expiry.\<close>

definition periodic :: "timer_node \<Rightarrow> bool" where
  "periodic t \<longleftrightarrow> interval t \<noteq> AOSL_INVALID_TIMER_INTERVAL"

definition fired_values :: "(nat \<Rightarrow> u64) \<Rightarrow> u64 \<Rightarrow> nat \<Rightarrow> timer_node \<Rightarrow> timer_node" where
  "fired_values tick now k t = (if periodic t then t\<lparr>expire_time := tick k + interval t - (now - expire_time t)\<rparr> else t)"

lemma links_only_trans: "links_only A m m' \<Longrightarrow> links_only A m' m'' \<Longrightarrow> links_only A m m''"
  by (simp add: links_only_def)

lemma links_only_mono: "links_only A m m' \<Longrightarrow> A \<subseteq> B \<Longrightarrow> links_only B m m'"
  by (auto simp: links_only_def)

lemma links_only_upd:
  "links_only A m m' \<Longrightarrow> x \<in> A \<Longrightarrow> no_links t' = no_links t \<Longrightarrow> links_only A (m(x \<mapsto> t)) (m'(x \<mapsto> t'))"
  by (auto simp: links_only_def)

lemma no_links_expire: "no_links t = no_links u \<Longrightarrow> no_links (t\<lparr>expire_time := e\<rparr>) = no_links (u\<lparr>expire_time := e\<rparr>)"
  by (cases t; cases u) (simp add: no_links_def)

text \<open>A callback that leaves the timers alone; what it does to the thread is any function of its arguments.\<close>

definition quiet :: "(ptr \<Rightarrow> u32 \<Rightarrow> u64 \<Rightarrow> u64 list \<Rightarrow> int \<Rightarrow> int) \<Rightarrow> timer_func" where
  "quiet g = (\<lambda>fn h now args s. Ret (s\<lparr>aosl_errno := g fn h now args (aosl_errno s)\<rparr>))"

lemma run_first_ok:
  assumes ok: "timers_ok s (x # xs)" and t: "tmem s x = Some t"
  obtains s' ys zs where "run_first_timer tick (quiet g) now x s = Ret s'" "xs = ys @ zs"
    "timers_ok s' (if periodic t then ys @ x # zs else xs)"
    "links_only (set (x # xs)) ((tmem s)(x \<mapsto> fired_values tick now (clock_reads s) t)) (tmem s')"
    "clock_reads s' = (if periodic t then Suc (clock_reads s) else clock_reads s)"
    "aosl_errno s' = g (func t) (obj_id t) now (argv t) (aosl_errno s)"
    "timers s' = timers s" "timer_table s' = timer_table s" "timer_count s' = timer_count s" "dtor_calls s' = dtor_calls s"
proof -
  let ?e = "tick (clock_reads s) + interval t - (now - expire_time t)"
  have "x \<in> set (x # xs)" by simp
  from unlink_timer_ok [OF ok this] obtain s1 t1 where
    "unlink_timer x s = Ret s1" "timers_ok s1 (remove1 x (x # xs))" and 1: "links_only (set (x # xs)) (tmem s) (tmem s1)"
    "frame_q s s1" "tmem s1 x = Some t1" .
  then have 1: "unlink_timer x s = Ret s1" "timers_ok s1 xs" "links_only (set (x # xs)) (tmem s) (tmem s1)" "frame_q s s1" "tmem s1 x = Some t1"
    by simp_all
  have x: "x \<notin> set xs" using timers_okD(1) [OF ok] by simp
  from 1(3,5) t have "no_links t1 = no_links t" unfolding links_only_def by (metis option.simps(9) option.inject)
  note t1 = no_links_sel [OF this] no_links_expire [OF this] this
  have fr: "clock_reads s1 = clock_reads s" "aosl_errno s1 = aosl_errno s" "q_stack_curr s1 = q_stack_curr s"
    "timers s1 = timers s" "timer_table s1 = timer_table s" "timer_count s1 = timer_count s" "dtor_calls s1 = dtor_calls s"
    using 1(4) unfolding frame_q_def by (cases s; cases s1; simp)+
  show thesis
  proof (cases "periodic t")
    case False
    let ?s = "s1\<lparr>aosl_errno := g (func t) (obj_id t) now (argv t) (aosl_errno s), q_stack_curr := mpq_stack_fini (q_stack_curr s)\<rparr>"
    have "run_first_timer tick (quiet g) now x s = Ret ?s"
      using 1(1,5) t1(1) False fr by (simp add: run_first_timer_def timer_at_def quiet_def periodic_def)
    moreover have "links_only (set (x # xs)) ((tmem s)(x \<mapsto> fired_values tick now (clock_reads s) t)) (tmem ?s)"
      using 1(3) False t by (simp add: fired_values_def fun_upd_idem)
    ultimately show thesis using 1(2) False fr by (intro that [of ?s "[]" xs]) auto
  next
    case True
    let ?t2 = "t1\<lparr>expire_time := ?e\<rparr>"
    let ?s2 = "s1\<lparr>clock_reads := Suc (clock_reads s), tmem := (tmem s1)(x \<mapsto> ?t2)\<rparr>"
    have ok2: "timers_ok ?s2 xs"
      using upd_unscheduled_ok(2) [of "s1\<lparr>clock_reads := Suc (clock_reads s)\<rparr>" xs x t1 "\<lambda>_. ?t2"] 1(2,5) x by simp
    have "tmem ?s2 x = Some ?t2" by simp
    from insert_timer_ok [OF ok2 x this] obtain s3 ys zs where
      3: "insert_timer x ?s2 = Ret s3" "xs = ys @ zs" "timers_ok s3 (ys @ x # zs)" "links_only (insert x (set xs)) (tmem ?s2) (tmem s3)" "frame_q ?s2 s3" .
    have fr3: "clock_reads s3 = Suc (clock_reads s)" "aosl_errno s3 = aosl_errno s" "q_stack_curr s3 = q_stack_curr s"
      "timers s3 = timers s" "timer_table s3 = timer_table s" "timer_count s3 = timer_count s" "dtor_calls s3 = dtor_calls s"
      using 3(5) fr unfolding frame_q_def by (cases s3; cases s1; simp)+
    from 3(4) have "map_option no_links (tmem s3 x) = Some (no_links ?t2)" by (simp add: links_only_def)
    then obtain t3 where t3: "tmem s3 x = Some t3" "no_links t3 = no_links ?t2" by auto
    let ?s = "s3\<lparr>aosl_errno := g (func t) (obj_id t) now (argv t) (aosl_errno s), q_stack_curr := mpq_stack_fini (q_stack_curr s)\<rparr>"
    have "run_first_timer tick (quiet g) now x s = Ret ?s"
      using 1(1,5) t1(1) True fr fr3 3(1) t3(1) no_links_sel [OF t3(2)]
      by (simp add: run_first_timer_def timer_at_def quiet_def periodic_def aosl_tick_now_def timer_set_defs upd_timer_Ret)
    moreover have "links_only (set (x # xs)) ((tmem s)(x \<mapsto> fired_values tick now (clock_reads s) t)) (tmem ?s2)"
      using links_only_upd [OF 1(3), of x ?t2 "t\<lparr>expire_time := ?e\<rparr>"] t1(2) True by (simp add: fired_values_def)
    then have "links_only (set (x # xs)) ((tmem s)(x \<mapsto> fired_values tick now (clock_reads s) t)) (tmem ?s)"
      using 3(4) by (simp add: links_only_trans)
    ultimately show thesis using 3(2,3) True fr3 by (intro that [of ?s ys zs]) auto
  qed
qed

lemma next_expiry:
  fixes tk now e i :: u64
  assumes "uint e \<le> uint now" and "uint now \<le> uint tk" and "uint tk < 2 ^ 62" and "uint i < 2 ^ 62"
  shows "uint (tk + i - (now - e)) = uint tk + uint i - (uint now - uint e)"
proof -
  have p: "(2 :: int) ^ LENGTH(64) = 4 * 2 ^ 62" "(0 :: int) < 2 ^ 62" by simp_all
  have d: "uint (now - e) = uint now - uint e" using assms(1) uint_sub_lem by blast
  have "uint tk + uint i < 2 ^ LENGTH(64)" using assms(3,4) p by linarith
  then have a: "uint (tk + i) = uint tk + uint i" using uint_add_lem by blast
  have "uint (now - e) \<le> uint (tk + i)" unfolding d a using assms(2) uint_ge_0 [of e] uint_ge_0 [of i] by linarith
  then have "uint (tk + i - (now - e)) = uint (tk + i) - uint (now - e)" using uint_sub_lem by blast
  then show ?thesis unfolding d a .
qed

text \<open>How late the timers are in all: every round of the loop makes this smaller.\<close>

definition late :: "u64 \<Rightarrow> (ptr \<rightharpoonup> timer_node) \<Rightarrow> ptr \<Rightarrow> nat" where
  "late now m p = nat (uint now + 1 - expire_of m p)"

definition lateness :: "u64 \<Rightarrow> (ptr \<rightharpoonup> timer_node) \<Rightarrow> ptr list \<Rightarrow> nat" where
  "lateness now m xs = sum_list (map (late now m) xs)"

lemma lateness_append [simp]: "lateness now m (xs @ ys) = lateness now m xs + lateness now m ys"
  and lateness_Cons [simp]: "lateness now m (x # xs) = late now m x + lateness now m xs"
  by (simp_all add: lateness_def)

lemma lateness_cong: "(\<And>p. p \<in> set xs \<Longrightarrow> expire_of m' p = expire_of m p) \<Longrightarrow> lateness now m' xs = lateness now m xs"
  unfolding lateness_def late_def by (intro arg_cong [where f = sum_list] map_cong) auto

definition clock_fits :: "(ptr \<rightharpoonup> timer_node) \<Rightarrow> ptr list \<Rightarrow> bool" where
  "clock_fits m xs \<longleftrightarrow> (\<forall>p \<in> set xs. expire_of m p < 2 ^ 63
     \<and> (\<forall>t. m p = Some t \<longrightarrow> periodic t \<longrightarrow> 0 < uint (interval t) \<and> uint (interval t) < 2 ^ 62))"

lemma timers_ok_first:
  assumes ok: "timers_ok s xs"
  shows "first s = 0 \<longleftrightarrow> xs = []" and "xs = x # xs' \<Longrightarrow> first s = x \<and> (\<exists>t. tmem s x = Some t \<and> expire_of (tmem s) x = uint (expire_time t))"
    and "xs = x # xs' \<Longrightarrow> p \<in> set xs \<Longrightarrow> expire_of (tmem s) x \<le> expire_of (tmem s) p"
proof -
  have f: "first s = after 0 xs" using ok by (simp add: timers_ok_def)
  show "first s = 0 \<longleftrightarrow> xs = []" using f timers_okD(2) [OF ok] by (cases xs) auto
  show "first s = x \<and> (\<exists>t. tmem s x = Some t \<and> expire_of (tmem s) x = uint (expire_time t))" if "xs = x # xs'"
    using that f ok by (auto simp: timers_ok_def expire_of_def)
  show "expire_of (tmem s) x \<le> expire_of (tmem s) p" if "xs = x # xs'" "p \<in> set xs"
    using that ok by (auto simp: timers_ok_def)
qed

text \<open>One round in terms of the expiries: the measure falls and the bounds are kept.\<close>

lemma fire_due:
  assumes ok: "timers_ok s (x # xs)" and fits: "clock_fits (tmem s) (x # xs)" and due: "expire_of (tmem s) x \<le> uint now"
    and tick: "\<forall>k. uint now \<le> uint (tick k) \<and> uint (tick k) < 2 ^ 62"
  obtains s' xs' where "run_first_timer tick (quiet g) now x s = Ret s'" "timers_ok s' xs'" "clock_fits (tmem s') xs'"
    "lateness now (tmem s') xs' < lateness now (tmem s) (x # xs)"
proof -
  from timers_ok_first(2) [OF ok] obtain t where t: "tmem s x = Some t" "expire_of (tmem s) x = uint (expire_time t)" by blast
  let ?v = "fired_values tick now (clock_reads s) t"
  from run_first_ok [OF ok t(1), of tick g now] obtain s' ys zs where
    s': "run_first_timer tick (quiet g) now x s = Ret s'" "xs = ys @ zs" "timers_ok s' (if periodic t then ys @ x # zs else xs)"
    "links_only (set (x # xs)) ((tmem s)(x \<mapsto> ?v)) (tmem s')" .
  have x: "x \<notin> set xs" using timers_okD(1) [OF ok] by simp
  have ex: "expire_of (tmem s') = expire_of ((tmem s)(x \<mapsto> ?v))" by (rule links_only_expire [OF s'(4)])
  have exp: "expire_of (tmem s') p = expire_of (tmem s) p" if "p \<noteq> x" for p using that unfolding ex by (simp add: expire_of_def)
  have exx: "expire_of (tmem s') x = uint (expire_time ?v)" unfolding ex by (simp add: expire_of_def)
  have late: "lateness now (tmem s') ws = lateness now (tmem s) ws" if "set ws \<subseteq> set xs" for ws
  proof (rule lateness_cong)
    show "expire_of (tmem s') p = expire_of (tmem s) p" if "p \<in> set ws" for p
      using that \<open>set ws \<subseteq> set xs\<close> x by (intro exp) auto
  qed
  have iv: "periodic u = periodic w \<and> interval u = interval w"
    if "tmem s' p = Some u" "((tmem s)(x \<mapsto> ?v)) p = Some w" for p u w
  proof -
    from s'(4) that have "no_links u = no_links w" unfolding links_only_def by (metis option.simps(9) option.inject)
    from no_links_sel [OF this] show ?thesis by (simp add: periodic_def)
  qed
  have ivs: "0 < uint (interval u) \<and> uint (interval u) < 2 ^ 62" if "p \<in> set (x # xs)" "tmem s' p = Some u" "periodic u" for p u
  proof -
    have "p \<in> dom ((tmem s)(x \<mapsto> ?v))" using that(2) links_only_dom [OF s'(4)] by blast
    then obtain w where w: "((tmem s)(x \<mapsto> ?v)) p = Some w" by blast
    note iv [OF that(2) w]
    moreover have "periodic ?v = periodic t" "interval ?v = interval t" by (simp_all add: fired_values_def periodic_def)
    moreover have "periodic q \<Longrightarrow> 0 < uint (interval q) \<and> uint (interval q) < 2 ^ 62" if "tmem s p = Some q" for q
      using fits \<open>p \<in> set (x # xs)\<close> that unfolding clock_fits_def by blast
    ultimately show ?thesis using that(3) w t(1) by (cases "p = x") auto
  qed
  have fit: "clock_fits (tmem s') ws" if ws: "set ws \<subseteq> set (x # xs)" "x \<in> set ws \<Longrightarrow> expire_of (tmem s') x < 2 ^ 63" for ws
    unfolding clock_fits_def
  proof (intro ballI conjI allI impI)
    fix p u
    assume p: "p \<in> set ws"
    then have pin: "p \<in> set (x # xs)" using ws(1) by blast
    show "expire_of (tmem s') p < 2 ^ 63"
    proof (cases "p = x")
      case False
      have "expire_of (tmem s) p < 2 ^ 63" using fits pin by (simp only: clock_fits_def)
      with exp [OF False] show ?thesis by simp
    qed (use ws(2) p in simp)
    show "0 < uint (interval u)" "uint (interval u) < 2 ^ 62" if "tmem s' p = Some u" "periodic u"
      using ivs [OF pin that] by auto
  qed
  have pos: "0 < late now (tmem s) x" using due by (simp add: late_def)
  show thesis
  proof (cases "periodic t")
    case False
    have "clock_fits (tmem s') xs" using x by (intro fit) auto
    with False s'(1,3) pos late [of xs] show thesis by (intro that [of s' xs]) auto
  next
    case True
    have i: "0 < uint (interval t)" "uint (interval t) < 2 ^ 62" using fits t(1) True by (auto simp: clock_fits_def)
    let ?tk = "tick (clock_reads s)"
    have tk: "uint now \<le> uint ?tk" "uint ?tk < 2 ^ 62" using tick by auto
    have nx: "expire_of (tmem s') x = uint ?tk + uint (interval t) - (uint now - uint (expire_time t))"
      using exx True next_expiry [of "expire_time t" now ?tk "interval t"] due t(2) tk i by (simp add: fired_values_def)
    have "late now (tmem s') x < late now (tmem s) x" using nx i tk due t(2) by (simp add: late_def)
    moreover have "expire_of (tmem s') x < 2 ^ 63" using nx tk i due t(2) by simp
    then have "clock_fits (tmem s') (ys @ x # zs)" using s'(2) by (intro fit) auto
    ultimately show thesis using s' True late [of ys] late [of zs] by (intro that [of s' "ys @ x # zs"]) auto
  qed
qed

lemma run_timers_ok:
  assumes tick: "\<forall>k. uint now \<le> uint (tick k) \<and> uint (tick k) < 2 ^ 62"
  shows "timers_ok s xs \<Longrightarrow> clock_fits (tmem s) xs \<Longrightarrow> lateness now (tmem s) xs < fuel \<Longrightarrow>
    \<exists>n s' ys. run_timers_loop fuel tick (quiet g) now cnt s = Ret (cnt + int n, s') \<and> timers_ok s' ys
      \<and> (\<forall>p \<in> set ys. uint now < expire_of (tmem s') p)"
proof (induction fuel arbitrary: s xs cnt)
  case (Suc fuel)
  have n62: "uint now < 2 ^ 63" using tick [rule_format, of 0] by simp
  show ?case
  proof (cases xs)
    case Nil
    with Suc.prems show ?thesis using timers_ok_first(1) [OF Suc.prems(1)] by (intro exI [of _ 0] exI [of _ s] exI [of _ "[]"]) simp
  next
    case (Cons x xs')
    note f = timers_ok_first(1) [OF Suc.prems(1)] timers_ok_first(2) [OF Suc.prems(1) Cons] timers_ok_first(3) [OF Suc.prems(1) Cons]
    from f(2) obtain t where t: "first s = x" "tmem s x = Some t" "expire_of (tmem s) x = uint (expire_time t)" by blast
    have "uint (expire_time t) < 2 ^ 63" using Suc.prems(2) t(3) Cons by (auto simp: clock_fits_def)
    note due = time_after_eq_iff [OF n62 this]
    show ?thesis
    proof (cases "uint (expire_time t) \<le> uint now")
      case False
      then have "\<forall>p \<in> set xs. uint now < expire_of (tmem s) p" using f(3) t(3) by fastforce
      with False due f(1) t Cons Suc.prems(1) show ?thesis
        by (intro exI [of _ 0] exI [of _ s] exI [of _ xs]) (auto simp: timer_at_def)
    next
      case True
      from fire_due [OF Suc.prems(1) [unfolded Cons] Suc.prems(2) [unfolded Cons] _ tick, of g] True t(3) obtain s' xs2 where
        s': "run_first_timer tick (quiet g) now x s = Ret s'" "timers_ok s' xs2" "clock_fits (tmem s') xs2"
        "lateness now (tmem s') xs2 < lateness now (tmem s) (x # xs')" by metis
      have "lateness now (tmem s') xs2 < fuel" using s'(4) Suc.prems(3) Cons by simp
      from Suc.IH [OF s'(2,3) this, of "cnt + 1"] obtain n s'' ys where
        "run_timers_loop fuel tick (quiet g) now (cnt + 1) s' = Ret (cnt + 1 + int n, s'')" "timers_ok s'' ys"
        "\<forall>p \<in> set ys. uint now < expire_of (tmem s'') p" by blast
      then show ?thesis using True due f(1) t Cons s'(1)
        by (intro exI [of _ "Suc n"] exI [of _ s''] exI [of _ ys]) (simp add: timer_at_def)
    qed
  qed
qed simp

text \<open>One-shot timers fire once each, in the order of the list.\<close>

definition oneshots :: "(ptr \<rightharpoonup> timer_node) \<Rightarrow> ptr list \<Rightarrow> bool" where
  "oneshots m xs \<longleftrightarrow> (\<forall>p \<in> set xs. expire_of m p < 2 ^ 63 \<and> (\<forall>t. m p = Some t \<longrightarrow> \<not> periodic t))"

definition call_of :: "(ptr \<Rightarrow> u32 \<Rightarrow> u64 \<Rightarrow> u64 list \<Rightarrow> int \<Rightarrow> int) \<Rightarrow> (ptr \<rightharpoonup> timer_node) \<Rightarrow> u64 \<Rightarrow> ptr \<Rightarrow> int \<Rightarrow> int" where
  "call_of g m now p = (case m p of None \<Rightarrow> id | Some t \<Rightarrow> g (func t) (obj_id t) now (argv t))"

lemma links_only_call: "links_only A m m' \<Longrightarrow> call_of g m' now = call_of g m now"
proof
  fix p
  assume "links_only A m m'"
  then have "map_option no_links (m' p) = map_option no_links (m p)" by (simp add: links_only_def)
  then show "call_of g m' now p = call_of g m now p"
    by (cases "m p"; cases "m' p") (auto simp: call_of_def dest: no_links_sel)
qed

lemma links_only_oneshots:
  assumes lo: "links_only A m m'" and o: "oneshots m xs"
  shows "oneshots m' xs"
  unfolding oneshots_def
proof (intro ballI conjI allI impI)
  fix p t
  assume p: "p \<in> set xs"
  show "expire_of m' p < 2 ^ 63" using o p links_only_expire [OF lo] by (simp add: oneshots_def)
  assume t: "m' p = Some t"
  from lo t obtain u where u: "m p = Some u" "no_links t = no_links u" unfolding links_only_def by (metis map_option_eq_Some option.simps(9))
  have "\<not> periodic u" using o p u(1) by (simp add: oneshots_def)
  with no_links_sel [OF u(2)] show "\<not> periodic t" by (simp add: periodic_def)
qed

lemma run_oneshots_ok:
  assumes now: "uint now < 2 ^ 63"
  shows "timers_ok s xs \<Longrightarrow> oneshots (tmem s) xs \<Longrightarrow> length xs < fuel \<Longrightarrow>
    let due = takeWhile (\<lambda>p. expire_of (tmem s) p \<le> uint now) xs in
    \<exists>s'. run_timers_loop fuel tick (quiet g) now cnt s = Ret (cnt + int (length due), s')
      \<and> timers_ok s' (dropWhile (\<lambda>p. expire_of (tmem s) p \<le> uint now) xs)
      \<and> aosl_errno s' = fold (call_of g (tmem s) now) due (aosl_errno s)"
proof (induction fuel arbitrary: s xs cnt)
  case (Suc fuel)
  show ?case
  proof (cases xs)
    case Nil
    with Suc.prems show ?thesis using timers_ok_first(1) [OF Suc.prems(1)] by simp
  next
    case (Cons x xs')
    note f = timers_ok_first(1) [OF Suc.prems(1)] timers_ok_first(2) [OF Suc.prems(1) Cons]
    from f(2) obtain t where t: "first s = x" "tmem s x = Some t" "expire_of (tmem s) x = uint (expire_time t)" by blast
    have o: "uint (expire_time t) < 2 ^ 63" "\<not> periodic t" using Suc.prems(2) t Cons by (auto simp: oneshots_def)
    note due = time_after_eq_iff [OF now o(1)]
    show ?thesis
    proof (cases "uint (expire_time t) \<le> uint now")
      case False
      with due f(1) t Cons Suc.prems(1) show ?thesis by (simp add: timer_at_def)
    next
      case True
      from run_first_ok [OF Suc.prems(1) [unfolded Cons] t(2), of tick g now] obtain s' ys zs where
        "run_first_timer tick (quiet g) now x s = Ret s'" "timers_ok s' (if periodic t then ys @ x # zs else xs')"
        "links_only (set (x # xs')) ((tmem s)(x \<mapsto> fired_values tick now (clock_reads s) t)) (tmem s')"
        "aosl_errno s' = g (func t) (obj_id t) now (argv t) (aosl_errno s)" .
      then have s': "run_first_timer tick (quiet g) now x s = Ret s'" "timers_ok s' xs'" "links_only (set (x # xs')) (tmem s) (tmem s')"
        "aosl_errno s' = g (func t) (obj_id t) now (argv t) (aosl_errno s)"
        using t(2) o(2) by (simp_all add: fired_values_def fun_upd_idem)
      have ev: "expire_of (tmem s') = expire_of (tmem s)" "call_of g (tmem s') now = call_of g (tmem s) now"
        by (rule links_only_expire [OF s'(3)], rule links_only_call [OF s'(3)])
      have "oneshots (tmem s') xs'" using links_only_oneshots [OF s'(3), of xs'] Suc.prems(2) Cons by (simp add: oneshots_def)
      from Suc.IH [OF s'(2) this, of "cnt + 1"] Suc.prems(3) Cons obtain s'' where
        s'': "run_timers_loop fuel tick (quiet g) now (cnt + 1) s' = Ret (cnt + 1 + int (length (takeWhile (\<lambda>p. expire_of (tmem s) p \<le> uint now) xs')), s'')"
        "timers_ok s'' (dropWhile (\<lambda>p. expire_of (tmem s) p \<le> uint now) xs')"
        "aosl_errno s'' = fold (call_of g (tmem s) now) (takeWhile (\<lambda>p. expire_of (tmem s) p \<le> uint now) xs') (aosl_errno s')"
        unfolding Let_def ev by auto
      have step: "run_timers_loop (Suc fuel) tick (quiet g) now cnt s = run_timers_loop fuel tick (quiet g) now (cnt + 1) s'"
        using True due f(1) t Cons s'(1) by (simp add: timer_at_def)
      have "call_of g (tmem s) now x (aosl_errno s) = aosl_errno s'" using s'(4) t(2) by (simp add: call_of_def)
      with s'' True t(3) Cons show ?thesis unfolding step Let_def by (simp add: algebra_simps)
    qed
  qed
qed simp

subsection \<open>Properties\<close>

abbreviation demo_timer :: timer_node where
  "demo_timer \<equiv> \<lparr>timer_prev = 0, timer_next = 0, obj_id = 0x10000, usage = 1, timer_q_id = 0,
     interval = AOSL_INVALID_TIMER_INTERVAL, expire_time = 5, func = 100, dtor = 0, argv = []\<rparr>"

abbreviation demo_stack :: mpq_stack where
  "demo_stack \<equiv> \<lparr>stack_id = 0, prepare_calls = 0, err_stack_id = 0, task_exec_err = 0, resume_calls = 0, prepare_calls_count = 0, task_exec_count = 0\<rparr>"

abbreviation demo_queue :: timer_queue where
  "demo_queue \<equiv> \<lparr>qid = 0, active = \<lparr>heap = [4 \<mapsto> demo_node, 8 \<mapsto> demo_node], root_node = 4, count = 1\<rparr>, first = 4, timers = [4, 8], timer_count = 2,
     q_stack_curr = demo_stack, tmem = [4 \<mapsto> demo_timer, 8 \<mapsto> demo_timer\<lparr>timer_next := AOSL_LIST_POISON1, interval := 10\<rparr>],
     timer_table = table0, dtor_calls = [], clock_reads = 0, aosl_errno = 0\<rparr>"

lemma demo_queue_ok: "timers_ok demo_queue [4]"
proof -
  have "rb_holds \<lparr>heap = [4 \<mapsto> demo_node, 8 \<mapsto> demo_node], root_node = 4, count = 1\<rparr> [4]"
    using demo_trep demo_tree unfolding rb_holds_def by (intro conjI exI [of _ "N E 4 Black E"]) auto
  then show ?thesis
    by (auto simp: timers_ok_def timer_addr_def AOSL_LIST_POISON1_def node_mem_def)
qed

text \<open>
  Scheduling: \<^verbatim>\<open>__resched_timer\<close> of any timer of the queue, scheduled or not, returns with the timer in its
  place by expiry, behind the timers that expire at the same time, and the other timers in
  their order; the tree, the linked list and \<^verbatim>\<open>base->first\<close> agree again. A given expiry makes the timer one-shot; without
  one the expiry is the clock plus the interval.
\<close>

theorem timer_resched_correct:
  assumes "timers_ok s xs" and "tmem s timer = Some t"
  shows "\<exists>s' ys zs t'. resched_timer tick timer ival expire s = Ret s' \<and> remove1 timer xs = ys @ zs \<and> timers_ok s' (ys @ timer # zs)
    \<and> tmem s' timer = Some t'
    \<and> expire_time t' = (if expire \<noteq> 0 then expire
        else let i = (if ival \<noteq> AOSL_INVALID_TIMER_INTERVAL then ival else interval t) in
          if i \<noteq> AOSL_INVALID_TIMER_INTERVAL then tick (clock_reads s) + i else - 1)
    \<and> (\<forall>p \<in> set ys. expire_of (tmem s) p \<le> uint (expire_time t')) \<and> (\<forall>p \<in> set zs. uint (expire_time t') < expire_of (tmem s) p)"
proof -
  from resched_ok [OF assms, of tick ival expire] obtain s' ys zs t' where
    s': "resched_timer tick timer ival expire s = Ret s'" "remove1 timer xs = ys @ zs" "timers_ok s' (ys @ timer # zs)" "tmem s' timer = Some t'"
    "expire_time t' = expire_time (sched_values tick expire s (if expire = 0 \<and> ival \<noteq> AOSL_INVALID_TIMER_INTERVAL then t\<lparr>interval := ival\<rparr> else t))"
    "\<forall>p \<in> set ys. expire_of (tmem s) p \<le> uint (expire_time t')" "\<forall>p \<in> set zs. uint (expire_time t') < expire_of (tmem s) p" .
  moreover have "expire_time t' = (if expire \<noteq> 0 then expire
        else let i = (if ival \<noteq> AOSL_INVALID_TIMER_INTERVAL then ival else interval t) in
          if i \<noteq> AOSL_INVALID_TIMER_INTERVAL then tick (clock_reads s) + i else - 1)"
    unfolding s'(5) by (auto simp: sched_values_def Let_def)
  ultimately show ?thesis by (intro exI [of _ s'] exI [of _ ys] exI [of _ zs] exI [of _ t']) simp
qed

theorem timer_resched_correct_witness:
  "\<exists>s' t'. resched_timer (\<lambda>_. 1) 8 3 0 demo_queue = Ret s' \<and> tmem s' 8 = Some t' \<and> expire_time t' = 4"
  using timer_resched_correct [OF demo_queue_ok, of 8 "demo_timer\<lparr>timer_next := AOSL_LIST_POISON1, interval := 10\<rparr>" "\<lambda>_. 1" 3 0]
  by (auto simp: AOSL_INVALID_TIMER_INTERVAL_def)

text \<open>
  Cancelling: \<^verbatim>\<open>__cancel_timer_on_q\<close> takes the timer out of the schedule, leaves it marked as not scheduled,
  keeps the order of the others, and does nothing to a timer that is not scheduled.
\<close>

theorem timer_cancel_correct:
  assumes "timers_ok s xs" and "tmem s timer = Some t"
  shows "\<exists>s' t'. cancel_timer_on_q timer s = Ret s' \<and> timers_ok s' (remove1 timer xs) \<and> tmem s' timer = Some t' \<and> \<not> scheduled t'
    \<and> expire_of (tmem s') = expire_of (tmem s) \<and> (timer \<notin> set xs \<longrightarrow> s' = s)"
proof -
  from cancel_ok [OF assms] obtain s' t' where
    s': "cancel_timer_on_q timer s = Ret s'" "timers_ok s' (remove1 timer xs)" "links_only (set xs) (tmem s) (tmem s')"
    "tmem s' timer = Some t'" "\<not> scheduled t'" .
  moreover have "s' = s" if "timer \<notin> set xs"
    using s'(1) assms(2) that scheduled_iff [OF assms] by (simp add: cancel_timer_on_q_def timer_at_def)
  ultimately show ?thesis using links_only_expire [OF s'(3)] by blast
qed

theorem timer_cancel_correct_witness:
  "\<exists>s' t'. cancel_timer_on_q 4 demo_queue = Ret s' \<and> timers_ok s' [] \<and> tmem s' 4 = Some t' \<and> \<not> scheduled t'"
  using timer_cancel_correct [OF demo_queue_ok, of 4 demo_timer] by auto

text \<open>
  C18. Firing order: when the scheduled timers are one-shot, \<^verbatim>\<open>__check_and_run_timers\<close> calls the callback of exactly the
  timers that have expired, once each, in the order of their expiry, returns their number and leaves the others scheduled. (The callback
  leaves the timers alone; its calls show in what it does to the thread. Clock values are below \<open>2 ^ 63\<close> milliseconds.)
\<close>

theorem oneshots_fire_in_order:
  assumes "timers_ok s xs" and "oneshots (tmem s) xs" and "uint (tick (clock_reads s)) < 2 ^ 63" and "length xs < fuel"
  shows "let now = tick (clock_reads s); due = takeWhile (\<lambda>p. expire_of (tmem s) p \<le> uint now) xs in
    \<exists>s'. check_and_run_timers fuel tick (quiet g) s = Ret (int (length due), s')
      \<and> timers_ok s' (dropWhile (\<lambda>p. expire_of (tmem s) p \<le> uint now) xs)
      \<and> aosl_errno s' = fold (call_of g (tmem s) now) due (aosl_errno s)"
  using run_oneshots_ok [OF assms(3), of "s\<lparr>clock_reads := Suc (clock_reads s)\<rparr>" xs fuel tick g 0] assms(1,2,4)
  by (simp add: check_and_run_timers_def aosl_tick_now_def Let_def)

theorem oneshots_fire_in_order_witness:
  "\<exists>s'. check_and_run_timers 2 (\<lambda>_. 7) (quiet (\<lambda>fn h now args e. int fn)) demo_queue = Ret (1, s') \<and> timers_ok s' [] \<and> aosl_errno s' = 100"
  using oneshots_fire_in_order [OF demo_queue_ok, of "\<lambda>_. 7" 2 "\<lambda>fn h now args e. int fn"]
  by (auto simp: oneshots_def periodic_def expire_of_def call_of_def Let_def)

text \<open>
  C24. The loop ends and nothing due is left: when every periodic timer that is scheduled has a positive interval (with the interval 0, which the
  code accepts, it need not end), the callbacks leave the timers alone and the clock does not go back and stays below \<open>2 ^ 62\<close> milliseconds
  (intervals too, and expiry times below \<open>2 ^ 63\<close>), \<^verbatim>\<open>__check_and_run_timers\<close> returns after finitely many rounds (at most the sum of how late the timers are) and
  every timer still scheduled expires later than the time the loop started with.
\<close>

theorem check_and_run_finishes:
  assumes "timers_ok s xs" and "clock_fits (tmem s) xs"
    and "\<forall>k. uint (tick (clock_reads s)) \<le> uint (tick k) \<and> uint (tick k) < 2 ^ 62"
    and "lateness (tick (clock_reads s)) (tmem s) xs < fuel"
  shows "\<exists>n s' ys. check_and_run_timers fuel tick (quiet g) s = Ret (int n, s') \<and> timers_ok s' ys
    \<and> (\<forall>p \<in> set ys. uint (tick (clock_reads s)) < expire_of (tmem s') p)"
  using run_timers_ok [OF assms(3), of "s\<lparr>clock_reads := Suc (clock_reads s)\<rparr>" xs fuel g 0] assms(1,2,4)
  by (simp add: check_and_run_timers_def aosl_tick_now_def)

theorem check_and_run_finishes_witness:
  "\<exists>n s' ys. check_and_run_timers 10 (\<lambda>_. 7) (quiet (\<lambda>fn h now args e. e)) demo_queue = Ret (int n, s') \<and> timers_ok s' ys
    \<and> (\<forall>p \<in> set ys. 7 < expire_of (tmem s') p)"
  using check_and_run_finishes [OF demo_queue_ok, of "\<lambda>_. 7" 10 "\<lambda>fn h now args e. e"]
  by (simp add: clock_fits_def expire_of_def periodic_def lateness_def late_def)

text \<open>
  A periodic timer that fires keeps its phase: its next expiry is its last one plus the interval (plus what the clock
  moved since the loop started). A timer that is late by several intervals therefore fires once for each of them.
\<close>

theorem periodic_next_expiry:
  assumes "timers_ok s (x # xs)" and "tmem s x = Some t" and "periodic t"
  shows "\<exists>s' t'. run_first_timer tick (quiet g) now x s = Ret s' \<and> tmem s' x = Some t'
    \<and> expire_time t' = expire_time t + interval t + (tick (clock_reads s) - now)"
proof -
  from run_first_ok [OF assms(1,2), of tick g now] obtain s' where
    s': "run_first_timer tick (quiet g) now x s = Ret s'"
    "links_only (set (x # xs)) ((tmem s)(x \<mapsto> fired_values tick now (clock_reads s) t)) (tmem s')" .
  from s'(2) have "map_option no_links (tmem s' x) = Some (no_links (fired_values tick now (clock_reads s) t))" by (simp add: links_only_def)
  then obtain t' where t': "tmem s' x = Some t'" "no_links t' = no_links (fired_values tick now (clock_reads s) t)" by auto
  from no_links_sel [OF t'(2)] have "expire_time t' = expire_time t + interval t + (tick (clock_reads s) - now)"
    using assms(3) by (simp add: fired_values_def algebra_simps)
  with s'(1) t'(1) show ?thesis by blast
qed

theorem periodic_next_expiry_witness:
  "\<exists>s' t'. run_first_timer (\<lambda>_. 7) (quiet (\<lambda>fn h now args e. e)) 7 4 (demo_queue\<lparr>tmem := (tmem demo_queue)(4 \<mapsto> demo_timer\<lparr>interval := 1\<rparr>)\<rparr>) = Ret s'
    \<and> tmem s' 4 = Some t' \<and> expire_time t' = 6"
proof -
  have "timers_ok (demo_queue\<lparr>tmem := (tmem demo_queue)(4 \<mapsto> demo_timer\<lparr>interval := 1\<rparr>)\<rparr>) [4]"
    using demo_queue_ok unfolding timers_ok_def by (auto simp: expire_of_def)
  from periodic_next_expiry [OF this, of "demo_timer\<lparr>interval := 1\<rparr>" "\<lambda>_. 7" "\<lambda>fn h now args e. e" 7]
  show ?thesis by (simp add: periodic_def AOSL_INVALID_TIMER_INTERVAL_def)
qed

end
