(* ===== verification/Timer_Api.thy ===== *)
theory Timer_Api
  imports Timer
begin

text \<open>
  The timer calls of \<^verbatim>\<open>include/api/aosl_mpq_timer.h\<close>, the second half of \<^verbatim>\<open>kernel/timer.c\<close>, and the life of a timer
  from creation to destruction. A call that works on a queue by its identifier runs its work on the thread of
  that queue through \<^verbatim>\<open>__mpq_call\<close>; whether the identifier names a queue (\<open>found\<close>) and whether the call was
  carried out (\<open>call_out\<close>) are arguments, and the state is that of the queue concerned. The
  error number is that of the calling thread. The variable arguments are a list.
\<close>

datatype call_out = Call_Done | Call_Failed int

text \<open>\<^verbatim>\<open>__mpq_call (q, -1, name, f, ...)\<close>: \<open>Inl e\<close> when it returns a negative value, with \<^verbatim>\<open>aosl_errno\<close> set to \<open>e\<close>.\<close>

definition q_call :: "call_out \<Rightarrow> (timer_queue \<Rightarrow> ('a \<times> timer_queue) exec) \<Rightarrow> timer_queue \<Rightarrow> ((int + 'a) \<times> timer_queue) exec" where
  "q_call co f s = (case co of
       Call_Done \<Rightarrow> ebind (f s) (\<lambda>(x, s). Ret (Inr x, s))
     | Call_Failed e \<Rightarrow> Ret (Inl e, s\<lparr>aosl_errno := e\<rparr>))"

definition timer_fail :: "int \<Rightarrow> timer_queue \<Rightarrow> (u32 \<times> timer_queue) exec" where
  "timer_fail e s = Ret (AOSL_MPQ_TIMER_INVALID, s\<lparr>aosl_errno := e\<rparr>)"

definition int_fail :: "int \<Rightarrow> timer_queue \<Rightarrow> (int \<times> timer_queue) exec" where
  "int_fail e s = Ret (- 1, s\<lparr>aosl_errno := e\<rparr>)"

text \<open>\<^verbatim>\<open>return_err\<close> (\<^verbatim>\<open>include/kernel/err.h\<close>) of a timer or error pointer, and of an \<^verbatim>\<open>int\<close>.\<close>

definition return_timer :: "(int + ptr) \<times> timer_queue \<Rightarrow> (u32 \<times> timer_queue) exec" where
  "return_timer r = (case r of
       (Inl err, s) \<Rightarrow> timer_fail (- err) s
     | (Inr timer, s) \<Rightarrow> ebind (timer_at s timer) (\<lambda>t. Ret (obj_id t, s)))"

definition return_err :: "int \<Rightarrow> timer_queue \<Rightarrow> (int \<times> timer_queue) exec" where
  "return_err err s = (if - 4095 \<le> err \<and> err < 0 then int_fail (- err) s else Ret (err, s))"

subsection \<open>Creating and setting\<close>

definition aosl_mpq_create_timer ::
  "bool \<Rightarrow> ptr option \<Rightarrow> grow_mem \<Rightarrow> u64 \<Rightarrow> ptr \<Rightarrow> ptr \<Rightarrow> u64 list \<Rightarrow> timer_queue \<Rightarrow> (u32 \<times> timer_queue) exec" where
  "aosl_mpq_create_timer cur mem gm ival fn dt args s =
     (if sint ival < 0 then timer_fail AOSL_EINVAL s
      else if fn = 0 then timer_fail AOSL_EINVAL s
      else if MPQ_ARGC_MAX < length args then timer_fail AOSL_E2BIG s
      else if \<not> cur then timer_fail AOSL_EINVAL s
      else ebind (create_timer_on_q mem gm ival fn dt args s) return_timer)"

definition target_q_create_timer ::
  "ptr option \<Rightarrow> grow_mem \<Rightarrow> u64 \<Rightarrow> ptr \<Rightarrow> ptr \<Rightarrow> u64 list \<Rightarrow> timer_queue \<Rightarrow> ((int + ptr) \<times> timer_queue) exec" where
  "target_q_create_timer mem gm ival fn dt args s = create_timer_on_q mem gm ival fn dt args s"

text \<open>The result of the call made on the other thread: \<^verbatim>\<open>timer\<close> is what it stored, or \<^verbatim>\<open>ERR_PTR (-aosl_errno)\<close>.\<close>

definition called_timer :: "(int + (int + ptr)) \<times> timer_queue \<Rightarrow> (u32 \<times> timer_queue) exec" where
  "called_timer r = (case r of (Inl e, s) \<Rightarrow> return_timer (Inl (- e), s) | (Inr x, s) \<Rightarrow> return_timer (x, s))"

definition mpq_create_timer_on_q_args ::
  "bool \<Rightarrow> call_out \<Rightarrow> ptr option \<Rightarrow> grow_mem \<Rightarrow> u64 \<Rightarrow> ptr \<Rightarrow> ptr \<Rightarrow> u64 list \<Rightarrow> timer_queue \<Rightarrow> (u32 \<times> timer_queue) exec" where
  "mpq_create_timer_on_q_args found co mem gm ival fn dt args s =
     (if fn = 0 then timer_fail AOSL_EINVAL s
      else if MPQ_ARGC_MAX < length args then timer_fail AOSL_E2BIG s
      else if \<not> found then timer_fail AOSL_EINVAL s
      else ebind (q_call co (target_q_create_timer mem gm ival fn dt args) s) called_timer)"

definition aosl_mpq_create_timer_on_q ::
  "bool \<Rightarrow> call_out \<Rightarrow> ptr option \<Rightarrow> grow_mem \<Rightarrow> u64 \<Rightarrow> ptr \<Rightarrow> ptr \<Rightarrow> u64 list \<Rightarrow> timer_queue \<Rightarrow> (u32 \<times> timer_queue) exec" where
  "aosl_mpq_create_timer_on_q found co mem gm ival fn dt args s =
     (if sint ival < 0 then timer_fail AOSL_EINVAL s
      else mpq_create_timer_on_q_args found co mem gm ival fn dt args s)"

definition aosl_mpq_create_oneshot_timer ::
  "bool \<Rightarrow> ptr option \<Rightarrow> grow_mem \<Rightarrow> ptr \<Rightarrow> ptr \<Rightarrow> u64 list \<Rightarrow> timer_queue \<Rightarrow> (u32 \<times> timer_queue) exec" where
  "aosl_mpq_create_oneshot_timer cur mem gm fn dt args s =
     (if fn = 0 then timer_fail AOSL_EINVAL s
      else if MPQ_ARGC_MAX < length args then timer_fail AOSL_E2BIG s
      else if \<not> cur then timer_fail AOSL_EINVAL s
      else ebind (create_timer_on_q mem gm AOSL_INVALID_TIMER_INTERVAL fn dt args s) return_timer)"

definition aosl_mpq_create_oneshot_timer_on_q ::
  "bool \<Rightarrow> call_out \<Rightarrow> ptr option \<Rightarrow> grow_mem \<Rightarrow> ptr \<Rightarrow> ptr \<Rightarrow> u64 list \<Rightarrow> timer_queue \<Rightarrow> (u32 \<times> timer_queue) exec" where
  "aosl_mpq_create_oneshot_timer_on_q found co mem gm fn dt args s =
     mpq_create_timer_on_q_args found co mem gm AOSL_INVALID_TIMER_INTERVAL fn dt args s"

definition set_timer_on_q ::
  "(nat \<Rightarrow> u64) \<Rightarrow> ptr option \<Rightarrow> grow_mem \<Rightarrow> u64 \<Rightarrow> u64 \<Rightarrow> ptr \<Rightarrow> ptr \<Rightarrow> u64 list \<Rightarrow> timer_queue \<Rightarrow> ((int + ptr) \<times> timer_queue) exec" where
  "set_timer_on_q tick mem gm ival expire fn dt args s =
     ebind (create_timer_on_q mem gm ival fn dt args s) (\<lambda>(r, s).
     case r of
       Inl err \<Rightarrow> Ret (Inl err, s)
     | Inr timer \<Rightarrow> ebind (sched_timer tick timer expire s) (\<lambda>s. Ret (Inr timer, s)))"

definition aosl_mpq_set_timer ::
  "(nat \<Rightarrow> u64) \<Rightarrow> bool \<Rightarrow> ptr option \<Rightarrow> grow_mem \<Rightarrow> u64 \<Rightarrow> ptr \<Rightarrow> ptr \<Rightarrow> u64 list \<Rightarrow> timer_queue \<Rightarrow> (u32 \<times> timer_queue) exec" where
  "aosl_mpq_set_timer tick cur mem gm ival fn dt args s =
     (if sint ival < 0 then timer_fail AOSL_EINVAL s
      else if fn = 0 then timer_fail AOSL_EINVAL s
      else if MPQ_ARGC_MAX < length args then timer_fail AOSL_E2BIG s
      else if \<not> cur then timer_fail AOSL_EINVAL s
      else ebind (set_timer_on_q tick mem gm ival 0 fn dt args s) return_timer)"

text \<open>The expiry is passed by address: a null address is \<open>None\<close> and counts as 0.\<close>

definition target_q_set_timer ::
  "(nat \<Rightarrow> u64) \<Rightarrow> ptr option \<Rightarrow> grow_mem \<Rightarrow> u64 \<Rightarrow> u64 option \<Rightarrow> ptr \<Rightarrow> ptr \<Rightarrow> u64 list \<Rightarrow> timer_queue \<Rightarrow> ((int + ptr) \<times> timer_queue) exec" where
  "target_q_set_timer tick mem gm ival expire_p fn dt args s =
     set_timer_on_q tick mem gm ival (case expire_p of None \<Rightarrow> 0 | Some e \<Rightarrow> e) fn dt args s"

definition mpq_set_timer_on_q_args ::
  "(nat \<Rightarrow> u64) \<Rightarrow> bool \<Rightarrow> call_out \<Rightarrow> ptr option \<Rightarrow> grow_mem \<Rightarrow> u64 \<Rightarrow> u64 option \<Rightarrow> ptr \<Rightarrow> ptr \<Rightarrow> u64 list \<Rightarrow> timer_queue \<Rightarrow> (u32 \<times> timer_queue) exec" where
  "mpq_set_timer_on_q_args tick found co mem gm ival expire_p fn dt args s =
     (if fn = 0 then timer_fail AOSL_EINVAL s
      else if MPQ_ARGC_MAX < length args then timer_fail AOSL_E2BIG s
      else if \<not> found then timer_fail AOSL_EINVAL s
      else ebind (q_call co (target_q_set_timer tick mem gm ival expire_p fn dt args) s) called_timer)"

definition aosl_mpq_set_timer_on_q ::
  "(nat \<Rightarrow> u64) \<Rightarrow> bool \<Rightarrow> call_out \<Rightarrow> ptr option \<Rightarrow> grow_mem \<Rightarrow> u64 \<Rightarrow> ptr \<Rightarrow> ptr \<Rightarrow> u64 list \<Rightarrow> timer_queue \<Rightarrow> (u32 \<times> timer_queue) exec" where
  "aosl_mpq_set_timer_on_q tick found co mem gm ival fn dt args s =
     (if sint ival < 0 then timer_fail AOSL_EINVAL s
      else mpq_set_timer_on_q_args tick found co mem gm ival None fn dt args s)"

definition aosl_mpq_set_oneshot_timer ::
  "(nat \<Rightarrow> u64) \<Rightarrow> bool \<Rightarrow> ptr option \<Rightarrow> grow_mem \<Rightarrow> u64 \<Rightarrow> ptr \<Rightarrow> ptr \<Rightarrow> u64 list \<Rightarrow> timer_queue \<Rightarrow> (u32 \<times> timer_queue) exec" where
  "aosl_mpq_set_oneshot_timer tick cur mem gm expire fn dt args s =
     (if fn = 0 then timer_fail AOSL_EINVAL s
      else if MPQ_ARGC_MAX < length args then timer_fail AOSL_E2BIG s
      else if expire = 0 then timer_fail AOSL_EINVAL s
      else if \<not> cur then timer_fail AOSL_EINVAL s
      else ebind (set_timer_on_q tick mem gm AOSL_INVALID_TIMER_INTERVAL expire fn dt args s) return_timer)"

definition aosl_mpq_set_oneshot_timer_on_q ::
  "(nat \<Rightarrow> u64) \<Rightarrow> bool \<Rightarrow> call_out \<Rightarrow> ptr option \<Rightarrow> grow_mem \<Rightarrow> u64 \<Rightarrow> ptr \<Rightarrow> ptr \<Rightarrow> u64 list \<Rightarrow> timer_queue \<Rightarrow> (u32 \<times> timer_queue) exec" where
  "aosl_mpq_set_oneshot_timer_on_q tick found co mem gm expire fn dt args s =
     mpq_set_timer_on_q_args tick found co mem gm AOSL_INVALID_TIMER_INTERVAL (Some expire) fn dt args s"

subsection \<open>Working on a timer by its handle\<close>

text \<open>Every such call takes a reference, works, and gives the reference back.\<close>

definition with_timer :: "u32 \<Rightarrow> (ptr \<Rightarrow> timer_queue \<Rightarrow> (int \<times> timer_queue) exec) \<Rightarrow> timer_queue \<Rightarrow> (int \<times> timer_queue) exec" where
  "with_timer h work s =
     ebind (timer_get h s) (\<lambda>(timer, s).
     if timer \<noteq> 0 then ebind (work timer s) (\<lambda>(r, s). ebind (timer_put timer s) (\<lambda>s. Ret (r, s)))
     else int_fail AOSL_ENOENT s)"

text \<open>The readers return what they store through the pointer, when it is not null, as the second component.\<close>

definition aosl_mpq_timer_interval :: "u32 \<Rightarrow> bool \<Rightarrow> timer_queue \<Rightarrow> (int \<times> u64 option \<times> timer_queue) exec" where
  "aosl_mpq_timer_interval h ptr_given s =
     ebind (timer_get h s) (\<lambda>(timer, s).
     if timer \<noteq> 0 then
       ebind (timer_at s timer) (\<lambda>t. let out = (if ptr_given then Some (interval t) else None) in
       ebind (timer_put timer s) (\<lambda>s. Ret (0, out, s)))
     else Ret (- 1, None, s\<lparr>aosl_errno := AOSL_ENOENT\<rparr>))"

definition aosl_mpq_timer_active :: "u32 \<Rightarrow> bool \<Rightarrow> timer_queue \<Rightarrow> (int \<times> bool option \<times> timer_queue) exec" where
  "aosl_mpq_timer_active h ptr_given s =
     ebind (timer_get h s) (\<lambda>(timer, s).
     if timer \<noteq> 0 then
       ebind (timer_at s timer) (\<lambda>t. let out = (if ptr_given then Some (scheduled t) else None) in
       ebind (timer_put timer s) (\<lambda>s. Ret (0, out, s)))
     else Ret (- 1, None, s\<lparr>aosl_errno := AOSL_ENOENT\<rparr>))"

definition aosl_mpq_timer_arg :: "u32 \<Rightarrow> u64 \<Rightarrow> bool \<Rightarrow> timer_queue \<Rightarrow> (int \<times> u64 option \<times> timer_queue) exec" where
  "aosl_mpq_timer_arg h n ptr_given s =
     ebind (timer_get h s) (\<lambda>(timer, s).
     if timer \<noteq> 0 then
       ebind (timer_at s timer) (\<lambda>t.
       let (err, out) = (if unat n < length (argv t) then (0, if ptr_given then Some (argv t ! unat n) else None)
                         else (- AOSL_EINVAL, None)) in
       ebind (timer_put timer s) (\<lambda>s.
       ebind (return_err err s) (\<lambda>(r, s). Ret (r, out, s))))
     else Ret (- 1, None, s\<lparr>aosl_errno := AOSL_ENOENT\<rparr>))"

definition target_q_resched_timer :: "(nat \<Rightarrow> u64) \<Rightarrow> ptr \<Rightarrow> u64 \<Rightarrow> u64 option \<Rightarrow> timer_queue \<Rightarrow> (unit \<times> timer_queue) exec" where
  "target_q_resched_timer tick timer ival expire_p s =
     ebind (resched_timer tick timer ival (case expire_p of None \<Rightarrow> 0 | Some e \<Rightarrow> e) s) (\<lambda>s. Ret ((), s))"

definition mpq_resched_timer ::
  "(nat \<Rightarrow> u64) \<Rightarrow> bool \<Rightarrow> call_out \<Rightarrow> ptr \<Rightarrow> u64 \<Rightarrow> u64 option \<Rightarrow> timer_queue \<Rightarrow> (int \<times> timer_queue) exec" where
  "mpq_resched_timer tick found co timer ival expire_p s =
     (if \<not> found then int_fail AOSL_EINVAL s
      else ebind (q_call co (target_q_resched_timer tick timer ival expire_p) s) (\<lambda>(r, s).
        case r of Inl _ \<Rightarrow> Ret (- 1, s) | Inr _ \<Rightarrow> Ret (0, s)))"

definition aosl_mpq_resched_timer ::
  "(nat \<Rightarrow> u64) \<Rightarrow> bool \<Rightarrow> call_out \<Rightarrow> u32 \<Rightarrow> u64 \<Rightarrow> timer_queue \<Rightarrow> (int \<times> timer_queue) exec" where
  "aosl_mpq_resched_timer tick found co h ival =
     with_timer h (\<lambda>timer s. ebind (timer_at s timer) (\<lambda>t.
       let ival = (if sint ival < 0 then interval t else ival) in
       if sint ival < 0 then int_fail AOSL_EINVAL s
       else mpq_resched_timer tick found co timer ival None s))"

definition aosl_mpq_resched_oneshot_timer ::
  "(nat \<Rightarrow> u64) \<Rightarrow> bool \<Rightarrow> call_out \<Rightarrow> u32 \<Rightarrow> u64 \<Rightarrow> timer_queue \<Rightarrow> (int \<times> timer_queue) exec" where
  "aosl_mpq_resched_oneshot_timer tick found co h expire s =
     (if expire = 0 then int_fail AOSL_EINVAL s
      else with_timer h (\<lambda>timer s. mpq_resched_timer tick found co timer AOSL_INVALID_TIMER_INTERVAL (Some expire) s) s)"

definition target_q_cancel_timer :: "ptr \<Rightarrow> timer_queue \<Rightarrow> (unit \<times> timer_queue) exec" where
  "target_q_cancel_timer timer s = ebind (cancel_timer_on_q timer s) (\<lambda>s. Ret ((), s))"

definition mpq_cancel_timer :: "bool \<Rightarrow> call_out \<Rightarrow> ptr \<Rightarrow> timer_queue \<Rightarrow> (int \<times> timer_queue) exec" where
  "mpq_cancel_timer found co timer s =
     (if \<not> found then int_fail AOSL_EINVAL s
      else ebind (q_call co (target_q_cancel_timer timer) s) (\<lambda>(r, s).
        case r of Inl _ \<Rightarrow> Ret (- 1, s) | Inr _ \<Rightarrow> Ret (0, s)))"

definition aosl_mpq_cancel_timer :: "bool \<Rightarrow> call_out \<Rightarrow> u32 \<Rightarrow> timer_queue \<Rightarrow> (int \<times> timer_queue) exec" where
  "aosl_mpq_cancel_timer found co h = with_timer h (mpq_cancel_timer found co)"

definition target_q_kill_timer :: "ptr \<Rightarrow> timer_queue \<Rightarrow> (int \<times> timer_queue) exec" where
  "target_q_kill_timer timer s = kill_timer_on_q timer s"

definition mpq_kill_timer :: "bool \<Rightarrow> call_out \<Rightarrow> ptr \<Rightarrow> timer_queue \<Rightarrow> (int \<times> timer_queue) exec" where
  "mpq_kill_timer found co timer s =
     (if \<not> found then int_fail AOSL_EINVAL s
      else ebind (q_call co (target_q_kill_timer timer) s) (\<lambda>(r, s).
        case r of Inl _ \<Rightarrow> Ret (- 1, s) | Inr err \<Rightarrow> return_err err s))"

definition aosl_mpq_kill_timer :: "bool \<Rightarrow> call_out \<Rightarrow> u32 \<Rightarrow> timer_queue \<Rightarrow> (int \<times> timer_queue) exec" where
  "aosl_mpq_kill_timer found co h = with_timer h (mpq_kill_timer found co)"

subsection \<open>The life of a timer\<close>

text \<open>
  \<open>refs p\<close> counts the references on \<open>p\<close> taken by \<^verbatim>\<open>timer_get\<close> and not given back; the queue's list has one more on each of its
  timers. All timers of the table belong to the queue of the state.
\<close>

definition owned :: "timer_queue \<Rightarrow> (ptr \<Rightarrow> nat) \<Rightarrow> ptr \<Rightarrow> nat" where
  "owned s refs p = (if p \<in> set (timers s) then 1 else 0) + refs p"

definition timer_entry_ok :: "timer_queue \<Rightarrow> (ptr \<Rightarrow> nat) \<Rightarrow> ptr \<Rightarrow> timer_node \<Rightarrow> bool" where
  "timer_entry_ok s refs p t \<longleftrightarrow> usage t = of_nat (owned s refs p) \<and> 0 < owned s refs p \<and> owned s refs p < 2 ^ 64
     \<and> 0 \<le> get_obj_slot (obj_id t) \<and> in_use (timer_table s) (nat (get_obj_slot (obj_id t)))
     \<and> tab_entry (timer_table s) (nat (get_obj_slot (obj_id t))) = (if p \<in> set (timers s) then Some p else None)"

definition slots_apart :: "(ptr \<rightharpoonup> timer_node) \<Rightarrow> bool" where
  "slots_apart m \<longleftrightarrow> (\<forall>p q t u. m p = Some t \<longrightarrow> m q = Some u \<longrightarrow> get_obj_slot (obj_id t) = get_obj_slot (obj_id u) \<longrightarrow> p = q)"

definition queue_ok :: "timer_queue \<Rightarrow> ptr list \<Rightarrow> (ptr \<Rightarrow> nat) \<Rightarrow> bool" where
  "queue_ok s xs refs \<longleftrightarrow> timers_ok s xs \<and> obj_table_ok (timer_table s) \<and> distinct (timers s) \<and> set xs \<subseteq> set (timers s)
     \<and> set (timers s) \<subseteq> dom (tmem s) \<and> timer_count s = of_nat (length (timers s))
     \<and> (\<forall>p t. tmem s p = Some t \<longrightarrow> timer_entry_ok s refs p t)
     \<and> (\<forall>i p. tab_entry (timer_table s) i = Some p \<longrightarrow> p \<in> set (timers s) \<and> (\<exists>t. tmem s p = Some t \<and> get_obj_slot (obj_id t) = int i))
     \<and> slots_apart (tmem s) \<and> (\<forall>p. tmem s p = None \<longrightarrow> refs p = 0)"

lemma queue_okD:
  assumes "queue_ok s xs refs"
  shows "timers_ok s xs" and "obj_table_ok (timer_table s)" and "distinct (timers s)" and "set xs \<subseteq> set (timers s)"
    and "set (timers s) \<subseteq> dom (tmem s)" and "tmem s p = Some t \<Longrightarrow> timer_entry_ok s refs p t"
    and "tab_entry (timer_table s) i = Some q \<Longrightarrow> q \<in> set (timers s) \<and> (\<exists>t. tmem s q = Some t \<and> get_obj_slot (obj_id t) = int i)" and "slots_apart (tmem s)"
    and "timer_count s = of_nat (length (timers s))" and "tmem s q = None \<Longrightarrow> refs q = 0"
  using assms unfolding queue_ok_def by blast+

text \<open>Changing a timer's use count together with its references.\<close>

lemma usage_ok:
  assumes ok: "queue_ok s xs refs" and t: "tmem s p = Some t"
    and n: "0 < owned s (refs(p := n)) p" "owned s (refs(p := n)) p < 2 ^ 64"
    and u: "usage (f t) = of_nat (owned s (refs(p := n)) p)" "no_links (f t) = no_links (t\<lparr>usage := usage (f t)\<rparr>)"
      "timer_next (f t) = timer_next t" "timer_prev (f t) = timer_prev t"
  shows "queue_ok (s\<lparr>tmem := (tmem s)(p \<mapsto> f t)\<rparr>) xs (refs(p := n))"
proof -
  let ?s = "s\<lparr>tmem := (tmem s)(p \<mapsto> f t)\<rparr>" and ?m = "(tmem s)(p \<mapsto> f t)"
  note D = queue_okD [OF ok]
  from no_links_sel [OF u(2)] have same: "expire_time (f t) = expire_time t" "obj_id (f t) = obj_id t" by simp_all
  have ch: "tchain ?m a ws b = tchain (tmem s) a ws b" for a ws b
    using t u(3,4) by (induction ws arbitrary: a) auto
  have ex: "expire_of ?m = expire_of (tmem s)" using t same(1) by (auto simp: expire_of_def)
  have dm: "dom ?m = dom (tmem s)" using t by auto
  have "timers_ok ?s xs"
    using D(1) t u(3) unfolding timers_ok_def by (simp add: ch ex dm del: dom_fun_upd)
  moreover have "timer_entry_ok ?s (refs(p := n)) q v" if "?m q = Some v" for q v
  proof (cases "q = p")
    case True
    with that D(6) [OF t] n u(1) same show ?thesis by (auto simp: timer_entry_ok_def owned_def)
  next
    case False
    with that D(6) [of q v] show ?thesis by (simp add: timer_entry_ok_def owned_def)
  qed
  moreover have "slots_apart ?m" using D(8) t same(2) unfolding slots_apart_def by (metis fun_upd_apply option.inject)
  moreover have "q \<in> set (timers s) \<and> (\<exists>u. ?m q = Some u \<and> get_obj_slot (obj_id u) = int i)" if "tab_entry (timer_table s) i = Some q" for i q
    using D(7) [OF that] t same(2) by (cases "q = p") auto
  ultimately show ?thesis using D(2-5,9,10) dm unfolding queue_ok_def by (simp del: dom_fun_upd)
qed

lemma no_links_usage [simp]: "no_links (t\<lparr>usage := u\<rparr>) = (no_links t)\<lparr>usage := u\<rparr>"
  by (simp add: no_links_def)

lemma timer_get_ok:
  assumes ok: "queue_ok s xs refs" and room: "\<forall>p. refs p < 2 ^ 63"
  obtains (none) "timer_get h s = Ret (0, s)" "\<forall>p \<in> set (timers s). \<forall>t. tmem s p = Some t \<longrightarrow> obj_id t \<noteq> h"
  | (some) p t s' where "timer_get h s = Ret (p, s')" "p \<in> set (timers s)" "p \<noteq> 0" "tmem s p = Some t" "obj_id t = h"
      "s' = s\<lparr>tmem := (tmem s)(p \<mapsto> t\<lparr>usage := usage t + 1\<rparr>)\<rparr>" "queue_ok s' xs (refs(p := Suc (refs p)))"
proof -
  note D = queue_okD [OF ok]
  let ?tab = "timer_table s" and ?i = "get_obj_slot h"
  note bnd = obj_table_bound [OF D(2)]
  have here: "0 \<le> ?i \<and> tab_entry ?tab (nat ?i) = Some p" if "p \<in> set (timers s)" "tmem s p = Some t" "obj_id t = h" for p t
    using D(6) [OF that(2)] that(1,3) by (auto simp: timer_entry_ok_def)
  show thesis
  proof (cases "0 \<le> ?i \<and> ?i < pool_size ?tab")
    case False
    then have "timer_get h s = Ret (0, s)" by (auto simp: timer_get_def Let_def)
    moreover have "tab_entry ?tab (nat ?i) = None \<or> ?i < 0" using False bnd by (auto simp: tab_entry_def)
    ultimately show thesis using here by (intro none) fastforce+
  next
    case True
    then have get: "arr_get (pool_table ?tab) (nat ?i) = Ret (tab_entry ?tab (nat ?i))" using bnd by (simp add: tab_entry_def)
    show thesis
    proof (cases "tab_entry ?tab (nat ?i)")
      case None
      then have "timer_get h s = Ret (0, s)" using True get by (simp add: timer_get_def Let_def)
      then show thesis using here None by (intro none) fastforce+
    next
      case (Some p)
      then have p: "p \<in> set (timers s)" using D(7) by blast
      then obtain t where t: "tmem s p = Some t" using D(5) by blast
      have p0: "p \<noteq> 0" using D(1) t by (auto simp: timers_ok_def timer_addr_def)
      show thesis
      proof (cases "obj_id t = h")
        case False
        then have "timer_get h s = Ret (0, s)" using True get Some t by (simp add: timer_get_def Let_def timer_at_def)
        moreover have "obj_id u \<noteq> h" if "q \<in> set (timers s)" "tmem s q = Some u" for q u
          using here [OF that] Some False t that(2) by fastforce
        ultimately show thesis by (intro none) blast+
      next
        case eq: True
        let ?f = "\<lambda>t. t\<lparr>usage := usage t + 1\<rparr>"
        have "timer_get h s = Ret (p, s\<lparr>tmem := (tmem s)(p \<mapsto> ?f t)\<rparr>)"
          using True get Some t eq by (simp add: timer_get_def Let_def timer_at_def upd_timer_Ret)
        moreover have "usage t = of_nat (owned s refs p)" using D(6) [OF t] by (simp add: timer_entry_ok_def)
        then have "usage (?f t) = of_nat (owned s (refs(p := Suc (refs p))) p)" by (simp add: owned_def)
        moreover have "refs p < 2 ^ 63" using room by blast
        then have "owned s (refs(p := Suc (refs p))) p < 2 ^ 64" by (simp add: owned_def)
        moreover have "0 < owned s (refs(p := Suc (refs p))) p" by (simp add: owned_def)
        ultimately show thesis using usage_ok [OF ok t, of "Suc (refs p)" ?f] p p0 t eq by (intro some) auto
      qed
    qed
  qed
qed

lemma free_mem_ok:
  assumes ok: "timers_ok s xs" and p: "p \<notin> set xs"
  shows "timers_ok (s\<lparr>tmem := (tmem s)(p := None), active := (active s)\<lparr>heap := (heap (active s))(p := None)\<rparr>\<rparr>) xs"
proof -
  let ?a = "(active s)\<lparr>heap := (heap (active s))(p := None)\<rparr>" and ?m = "(tmem s)(p := None)"
  from ok obtain T where T: "trep (active s) T" "rb_tree T" "inorder T = xs" and c: "count (active s) = of_nat (length xs)" "length xs < 2 ^ 64"
    by (auto simp: timers_ok_def rb_holds_def)
  have "rb_holds ?a xs" using trep_free [OF T(1), of p] T c p unfolding rb_holds_def by auto
  moreover have "node_mem ?a = dom ?m" using ok by (auto simp: timers_ok_def node_mem_def)
  moreover have "map (expire_of ?m) xs = map (expire_of (tmem s)) xs" using p by (intro map_cong) (auto simp: expire_of_def)
  moreover have "tchain ?m 0 xs 0" using ok p by (simp add: timers_ok_def)
  ultimately show ?thesis using ok unfolding timers_ok_def by (auto split: if_splits cong: map_cong)
qed

lemma timer_put_ok:
  assumes ok: "queue_ok s xs refs" and r: "0 < refs p"
  obtains (kept) s' where "timer_put p s = Ret s'" "queue_ok s' xs (refs(p := refs p - 1))" "p \<in> set (timers s) \<or> 1 < refs p"
      "dtor_calls s' = dtor_calls s" "timers s' = timers s" "dom (tmem s') = dom (tmem s)" "aosl_errno s' = aosl_errno s"
      "\<forall>q. q \<noteq> p \<longrightarrow> tmem s' q = tmem s q" "tmem s' p = map_option (\<lambda>t. t\<lparr>usage := usage t - 1\<rparr>) (tmem s p)"
  | (freed) s' t where "timer_put p s = Ret s'" "queue_ok s' xs (refs(p := 0))" "p \<notin> set (timers s)" "refs p = 1" "tmem s p = Some t"
      "tmem s' = (tmem s)(p := None)" "timers s' = timers s" "aosl_errno s' = aosl_errno s"
      "dtor_calls s' = dtor_calls s @ (if dtor t \<noteq> 0 then [(dtor t, argv t)] else [])"
proof -
  note D = queue_okD [OF ok]
  have "tmem s p \<noteq> None" using r D(10) [of p] by auto
  then obtain t where t: "tmem s p = Some t" by blast
  note E = D(6) [OF t, unfolded timer_entry_ok_def]
  let ?f = "\<lambda>t. t\<lparr>usage := usage t - 1\<rparr>" and ?n = "owned s refs p"
  have u: "usage t = of_nat ?n" "0 < ?n" "?n < 2 ^ 64" using E by auto
  have unat: "unat (usage t) = ?n" using u unat_of_nat_u64 by simp
  have zero: "usage t - 1 = 0 \<longleftrightarrow> ?n = 1"
  proof
    show "?n = 1" if "usage t - 1 = 0" using that unat by simp
    show "usage t - 1 = 0" if "?n = 1" using that u(1) by simp
  qed
  let ?s = "s\<lparr>tmem := (tmem s)(p \<mapsto> ?f t)\<rparr>"
  have put: "timer_put p s = (if ?n = 1 then free_timer p ?s else Ret ?s)"
    using t zero by (auto simp: timer_put_def timer_at_def upd_timer_Ret)
  show thesis
  proof (cases "?n = 1")
    case False
    have n: "owned s (refs(p := refs p - Suc 0)) p = ?n - 1" using r by (simp add: owned_def)
    have "usage (?f t) = of_nat (?n - 1)" using u by (simp add: of_nat_diff)
    then have "queue_ok ?s xs (refs(p := refs p - Suc 0))"
      using u False by (intro usage_ok [OF ok t, of "refs p - Suc 0" ?f]) (auto simp: n)
    moreover have "p \<in> set (timers s) \<or> 1 < refs p" using False r by (auto simp: owned_def split: if_splits)
    moreover have "dom (tmem ?s) = dom (tmem s)" using t by auto
    ultimately show thesis using put False t by (intro kept [of ?s]) auto
  next
    case True
    then have p: "p \<notin> set (timers s)" "refs p = 1" using r by (auto simp: owned_def split: if_splits)
    let ?i = "nat (get_obj_slot (obj_id t))"
    have i: "in_use (timer_table s) ?i" "tab_entry (timer_table s) ?i = None" "get_obj_slot (obj_id t) = int ?i" using E p by auto
    from th.release_law [OF D(2) i(1,2)] obtain tab where
      tab: "put_unused_timer_id (int ?i) (timer_table s) = Ret tab" "obj_table_ok tab" "in_use tab = (in_use (timer_table s))(?i := False)"
      "tab_entry tab = tab_entry (timer_table s)" by blast
    let ?d = "dtor_calls s @ (if dtor t \<noteq> 0 then [(dtor t, argv t)] else [])"
    let ?s' = "s\<lparr>timer_table := tab, tmem := (tmem s)(p := None), active := (active s)\<lparr>heap := (heap (active s))(p := None)\<rparr>, dtor_calls := ?d\<rparr>"
    have "free_timer p ?s = Ret ?s'"
      using tab(1) i(3) by (simp add: free_timer_def timer_at_def timer_dtor_def Let_def)
    moreover have "queue_ok ?s' xs (refs(p := 0))"
    proof -
      have "timers_ok (s\<lparr>tmem := (tmem s)(p := None), active := (active s)\<lparr>heap := (heap (active s))(p := None)\<rparr>\<rparr>) xs"
        using D(1,4) p(1) by (intro free_mem_ok) auto
      then have "timers_ok ?s' xs" by (simp add: timers_ok_def)
      moreover have "timer_entry_ok ?s' (refs(p := 0)) q v" if "((tmem s)(p := None)) q = Some v" for q v
      proof -
        from that have q: "q \<noteq> p" "tmem s q = Some v" by (auto split: if_splits)
        then have "nat (get_obj_slot (obj_id v)) \<noteq> ?i" using D(8) t D(6) [OF q(2)] E unfolding slots_apart_def timer_entry_ok_def
          by (metis nat_0_le)
        then show ?thesis using D(6) [OF q(2)] q(1) tab(3,4) by (simp add: timer_entry_ok_def owned_def)
      qed
      moreover have "slots_apart ((tmem s)(p := None))" using D(8) unfolding slots_apart_def by (metis fun_upd_apply option.distinct(1))
      moreover have "set (timers s) \<subseteq> dom ((tmem s)(p := None))" using D(5) p(1) by auto
      moreover have "q \<in> set (timers s) \<and> (\<exists>u. ((tmem s)(p := None)) q = Some u \<and> get_obj_slot (obj_id u) = int j)"
        if "tab_entry (timer_table s) j = Some q" for j q using D(7) [OF that] p(1) by (cases "q = p") auto
      ultimately show ?thesis using D(3,4,9,10) tab(2,4) unfolding queue_ok_def by simp
    qed
    ultimately show thesis using put True p t by (intro freed [of ?s' t]) auto
  qed
qed

text \<open>Killing takes the timer off the table, the schedule and the list; the list's reference is then the caller's to give back.\<close>

lemma detach_ok:
  assumes ok: "queue_ok s xs refs" and p: "p \<in> set (timers s)" and t: "tmem s p = Some t"
  obtains tab s1 s2 where "obj_id_uninstall (get_obj_slot (obj_id t)) p (timer_table s) = Ret (0, tab)"
    "cancel_timer_on_q p (s\<lparr>timer_table := tab\<rparr>) = Ret s1"
    "s2 = s1\<lparr>timers := remove1 p (timers s1), timer_count := timer_count s1 - 1\<rparr>"
    "queue_ok s2 (remove1 p xs) (refs(p := Suc (refs p)))" "timers s2 = remove1 p (timers s)" "dtor_calls s2 = dtor_calls s"
    "links_only (set xs) (tmem s) (tmem s2)" "aosl_errno s2 = aosl_errno s"
proof -
  note D = queue_okD [OF ok]
  note E = D(6) [OF t, unfolded timer_entry_ok_def]
  let ?i = "nat (get_obj_slot (obj_id t))"
  have i: "get_obj_slot (obj_id t) = int ?i" "tab_entry (timer_table s) ?i = Some p" using E p by auto
  from th.uninstall_law [OF D(2) i(2)] obtain tab where
    tab: "obj_id_uninstall (int ?i) p (timer_table s) = Ret (0, tab)" "obj_table_ok tab" "in_use tab = in_use (timer_table s)"
    "tab_entry tab = (tab_entry (timer_table s))(?i := None)" by blast
  have "timers_ok (s\<lparr>timer_table := tab\<rparr>) xs" "tmem (s\<lparr>timer_table := tab\<rparr>) p = Some t" using D(1) t by simp_all
  from cancel_ok [OF this] obtain s1 where
    s1: "cancel_timer_on_q p (s\<lparr>timer_table := tab\<rparr>) = Ret s1" "timers_ok s1 (remove1 p xs)"
    "links_only (set xs) (tmem (s\<lparr>timer_table := tab\<rparr>)) (tmem s1)" "frame_q (s\<lparr>timer_table := tab\<rparr>) s1" .
  have fr: "timers s1 = timers s" "timer_table s1 = tab" "timer_count s1 = timer_count s" "dtor_calls s1 = dtor_calls s" "aosl_errno s1 = aosl_errno s"
    using s1(4) unfolding frame_q_def by (cases s; cases s1; simp)+
  let ?s2 = "s1\<lparr>timers := remove1 p (timers s1), timer_count := timer_count s1 - 1\<rparr>"
  have lo: "links_only (set xs) (tmem s) (tmem s1)" using s1(3) by simp
  have prv: "\<exists>v. tmem s q = Some v \<and> no_links u = no_links v" if "tmem s1 q = Some u" for q u
    using lo that unfolding links_only_def by (metis map_option_eq_Some option.simps(9))
  have "queue_ok ?s2 (remove1 p xs) (refs(p := Suc (refs p)))"
  proof -
    have mem: "set (remove1 p (timers s)) = set (timers s) - {p}" using D(3) by (rule set_remove1_eq)
    have "timer_entry_ok ?s2 (refs(p := Suc (refs p))) q u" if "tmem s1 q = Some u" for q u
    proof -
      from prv [OF that] obtain v where v: "tmem s q = Some v" "no_links u = no_links v" by blast
      from no_links_sel [OF v(2)] have uv: "usage u = usage v" "obj_id u = obj_id v" by simp_all
      have own: "owned ?s2 (refs(p := Suc (refs p))) q = owned s refs q" using p by (auto simp: owned_def fr mem)
      have neq: "nat (get_obj_slot (obj_id v)) \<noteq> ?i" if "q \<noteq> p"
        using that D(8) v(1) t D(6) [OF v(1)] E unfolding slots_apart_def timer_entry_ok_def by (metis nat_0_le)
      show ?thesis using D(6) [OF v(1)] t v(1) neq i unfolding timer_entry_ok_def own
        by (cases "q = p") (auto simp: uv fr tab mem)
    qed
    moreover have "slots_apart (tmem s1)"
      unfolding slots_apart_def
    proof (intro allI impI)
      fix a b u w
      assume "tmem s1 a = Some u" "tmem s1 b = Some w" "get_obj_slot (obj_id u) = get_obj_slot (obj_id w)"
      with prv [of a u] prv [of b w] D(8) show "a = b" unfolding slots_apart_def by (metis no_links_sel)
    qed
    moreover have "set (remove1 p xs) \<subseteq> set (remove1 p (timers s))" using D(4) timers_okD(1) [OF D(1)] D(3) by auto
    moreover have "set (remove1 p (timers s)) \<subseteq> dom (tmem s1)" using D(5) links_only_dom [OF lo] mem by auto
    moreover have "timer_count s - 1 = of_nat (length (remove1 p (timers s)))"
    proof -
      have "length (timers s) = Suc (length (remove1 p (timers s)))" using length_pos_if_in_set [OF p] p by (simp add: length_remove1)
      then show ?thesis using D(9) by simp
    qed
    moreover have "q \<in> set (remove1 p (timers s)) \<and> (\<exists>u. tmem s1 q = Some u \<and> get_obj_slot (obj_id u) = int j)" if "tab_entry tab j = Some q" for j q
    proof -
      have j: "j \<noteq> ?i" "tab_entry (timer_table s) j = Some q" using that tab(4) by (auto split: if_splits)
      then obtain v where v: "q \<in> set (timers s)" "tmem s q = Some v" "get_obj_slot (obj_id v) = int j" using D(7) by blast
      then have "q \<noteq> p" using t j(1) by auto
      moreover from v(2) lo obtain u where u: "tmem s1 q = Some u" "no_links u = no_links v" unfolding links_only_def
        by (metis map_option_eq_Some option.simps(9))
      moreover from no_links_sel [OF u(2)] have "obj_id u = obj_id v" by blast
      ultimately show ?thesis using v(1,3) mem by auto
    qed
    moreover have "(refs(p := Suc (refs p))) q = 0" if "tmem s1 q = None" for q
    proof -
      have "q \<notin> dom (tmem s)" using that links_only_dom [OF lo] by auto
      then show ?thesis using D(10) [of q] t by auto
    qed
    ultimately show ?thesis using s1(2) tab(2) D(3) unfolding queue_ok_def by (simp add: fr)
  qed
  then show thesis using tab(1) i(1) s1(1) fr lo by (intro that [of tab s1 ?s2]) auto
qed

lemma same_timers_dom: "same_timers s s' \<Longrightarrow> tmem s' q = None \<longleftrightarrow> tmem s q = None"
  unfolding same_timers_def by (metis option.map_disc_iff)

lemma same_timers_queue_ok:
  assumes ok: "queue_ok s xs refs" and st: "same_timers s s'" and t: "timers_ok s' xs'" and sub: "set xs' \<subseteq> set (timers s)"
  shows "queue_ok s' xs' refs"
proof -
  note D = queue_okD [OF ok]
  have fr: "timers s' = timers s" "timer_table s' = timer_table s" "timer_count s' = timer_count s" using st by (auto simp: same_timers_def)
  have fwd: "\<exists>v. tmem s' q = Some v \<and> obj_id v = obj_id u" if "tmem s q = Some u" for q u
  proof -
    from st that have "map_option timer_ident (tmem s' q) = Some (timer_ident u)" by (simp add: same_timers_def)
    then show ?thesis by (auto simp: timer_ident_def)
  qed
  have bwd: "\<exists>v. tmem s q = Some v \<and> obj_id v = obj_id u \<and> usage v = usage u" if "tmem s' q = Some u" for q u
  proof -
    from st that have "map_option timer_ident (tmem s q) = Some (timer_ident u)" by (metis same_timers_def option.simps(9))
    then show ?thesis by (auto simp: timer_ident_def)
  qed
  have "timer_entry_ok s' refs q u" if "tmem s' q = Some u" for q u
  proof -
    from bwd [OF that] obtain v where v: "tmem s q = Some v" "obj_id v = obj_id u" "usage v = usage u" by blast
    have "owned s' refs q = owned s refs q" by (simp add: owned_def fr)
    with D(6) [OF v(1)] v(2,3) fr show ?thesis by (simp add: timer_entry_ok_def)
  qed
  moreover have "slots_apart (tmem s')" unfolding slots_apart_def
  proof (intro allI impI)
    fix a b u w
    assume "tmem s' a = Some u" "tmem s' b = Some w" and eq: "get_obj_slot (obj_id u) = get_obj_slot (obj_id w)"
    from bwd [OF this(1)] bwd [OF this(2)] eq D(8) show "a = b" unfolding slots_apart_def by metis
  qed
  moreover have "q \<in> set (timers s) \<and> (\<exists>u. tmem s' q = Some u \<and> get_obj_slot (obj_id u) = int i)" if e: "tab_entry (timer_table s) i = Some q" for i q
  proof -
    from D(7) [OF e] obtain v where "q \<in> set (timers s)" "tmem s q = Some v" "get_obj_slot (obj_id v) = int i" by blast
    with fwd [of q v] show ?thesis by auto
  qed
  moreover have "set (timers s) \<subseteq> dom (tmem s')" using D(5) fwd by blast
  ultimately show ?thesis using D(2,3,9,10) t sub same_timers_dom [OF st] unfolding queue_ok_def fr by blast
qed

lemma kill_ok:
  assumes ok: "queue_ok s xs refs" and p: "p \<in> set (timers s)" and t: "tmem s p = Some t"
  obtains s' where "kill_timer_on_q p s = Ret (0, s')" "queue_ok s' (remove1 p xs) refs" "timers s' = remove1 p (timers s)"
    "dtor_calls s' = dtor_calls s @ (if refs p = 0 \<and> dtor t \<noteq> 0 then [(dtor t, argv t)] else [])"
    "tmem s' p = None \<longleftrightarrow> refs p = 0" "\<forall>q. q \<noteq> p \<longrightarrow> map_option timer_ident (tmem s' q) = map_option timer_ident (tmem s q)"
    "aosl_errno s' = aosl_errno s" "0 < refs p \<longrightarrow> (\<exists>u. tmem s' p = Some u \<and> obj_id u = obj_id t \<and> dtor u = dtor t \<and> argv u = argv t)"
proof -
  from detach_ok [OF ok p t] obtain tab s1 s2 where
    d: "obj_id_uninstall (get_obj_slot (obj_id t)) p (timer_table s) = Ret (0, tab)"
    "cancel_timer_on_q p (s\<lparr>timer_table := tab\<rparr>) = Ret s1" "s2 = s1\<lparr>timers := remove1 p (timers s1), timer_count := timer_count s1 - 1\<rparr>"
    "queue_ok s2 (remove1 p xs) (refs(p := Suc (refs p)))" "timers s2 = remove1 p (timers s)" "dtor_calls s2 = dtor_calls s"
    "links_only (set xs) (tmem s) (tmem s2)" "aosl_errno s2 = aosl_errno s" .
  have eq: "kill_timer_on_q p s = ebind (timer_put p s2) (\<lambda>s. Ret (0, s))"
    using t d(1-3) by (simp add: kill_timer_on_q_def timer_at_def)
  have notin: "p \<notin> set (timers s2)" using d(5) queue_okD(3) [OF ok] by simp
  have mem: "tmem s2 p \<noteq> None" using links_only_dom [OF d(7)] t by blast
  note id = links_only_ident [OF d(7)]
  have upd: "(refs(p := Suc (refs p)))(p := refs p) = refs" "(refs(p := Suc (refs p))) p = Suc (refs p)" by auto
  have "0 < (refs(p := Suc (refs p))) p" by simp
  from d(4) this show thesis
  proof (cases rule: timer_put_ok [case_names kept freed, consumes 2])
    case (kept s')
    have r: "0 < refs p" using kept(3) notin by simp
    have e: "(refs(p := Suc (refs p)))(p := (refs(p := Suc (refs p))) p - 1) = refs" by auto
    have q: "queue_ok s' (remove1 p xs) refs" using kept(2) unfolding e .
    have nn: "tmem s' p \<noteq> None" using kept(6) mem by blast
    from mem obtain t2 where t2: "tmem s2 p = Some t2" by blast
    then have "timer_ident t2 = timer_ident t" using id [of p] t by simp
    then have u: "\<exists>u. tmem s' p = Some u \<and> obj_id u = obj_id t \<and> dtor u = dtor t \<and> argv u = argv t"
      using kept(9) t2 by (simp add: timer_ident_def)
    show thesis by (rule that [of s', OF _ q _ _ _ _ _ impI [OF u]])
      (use r nn kept(1,3-8) eq d(5,6,8) id in \<open>simp_all\<close>)
  next
    case (freed s' t2)
    have r: "refs p = 0" using freed(4) by simp
    then have e: "(refs(p := Suc (refs p)))(p := 0) = refs" by auto
    have q: "queue_ok s' (remove1 p xs) refs" using freed(2) unfolding e .
    have "timer_ident t2 = timer_ident t" using id [of p] freed(5) t by simp
    then have "dtor t2 = dtor t" "argv t2 = argv t" by (simp_all add: timer_ident_def)
    then show thesis by (intro that [of s'])
      (use r q freed eq d(5,6,8) id in \<open>simp_all\<close>)
  qed
qed

lemma alloc_mem_ok:
  assumes ok: "timers_ok s xs" and p: "tmem s p = None" "timer_addr p" and t: "timer_next t = AOSL_LIST_POISON1"
  shows "timers_ok (s\<lparr>tmem := (tmem s)(p \<mapsto> t), active := (active s)\<lparr>heap := (heap (active s))(p \<mapsto> fresh_node)\<rparr>\<rparr>) xs"
proof -
  let ?a = "(active s)\<lparr>heap := (heap (active s))(p \<mapsto> fresh_node)\<rparr>" and ?m = "(tmem s)(p \<mapsto> t)"
  have px: "p \<notin> set xs" using timers_okD(3) [OF ok] p(1) by blast
  from ok obtain T where T: "trep (active s) T" "rb_tree T" "inorder T = xs" and c: "count (active s) = of_nat (length xs)" "length xs < 2 ^ 64"
    by (auto simp: timers_ok_def rb_holds_def)
  have "trep ?a T" using T(1,3) px p(2) by (auto simp: trep_def timer_addr_def)
  then have "rb_holds ?a xs" using T c unfolding rb_holds_def by auto
  moreover have "node_mem ?a = dom ?m" using ok by (auto simp: timers_ok_def node_mem_def)
  moreover have "map (expire_of ?m) xs = map (expire_of (tmem s)) xs" using px by (intro map_cong) (auto simp: expire_of_def)
  moreover have "tchain ?m 0 xs 0" using ok px by (simp add: timers_ok_def)
  ultimately show ?thesis using ok p(2) t unfolding timers_ok_def by (auto split: if_splits cong: map_cong)
qed

definition new_timer :: "u64 \<Rightarrow> u32 \<Rightarrow> u64 \<Rightarrow> ptr \<Rightarrow> ptr \<Rightarrow> u64 list \<Rightarrow> timer_node" where
  "new_timer q h ival fn dt args = \<lparr>timer_prev = AOSL_LIST_POISON2, timer_next = AOSL_LIST_POISON1, obj_id = h, usage = 1, timer_q_id = q,
     interval = ival, expire_time = - 1, func = fn, dtor = dt, argv = args\<rparr>"

lemma create_ok:
  assumes ok: "queue_ok s xs refs" and p: "tmem s p = None" "timer_addr p"
  obtains (full) err where "create_timer_on_q (Some p) gm ival fn dt args s = Ret (Inl err, s)" "err < 0"
  | (new) s' h where "create_timer_on_q (Some p) gm ival fn dt args s = Ret (Inr p, s')" "queue_ok s' xs refs"
      "timers s' = timers s @ [p]" "tmem s' = (tmem s)(p \<mapsto> new_timer (qid s) h ival fn dt args)"
      "\<forall>q \<in> set (timers s). \<forall>t. tmem s q = Some t \<longrightarrow> obj_id t \<noteq> h" "dtor_calls s' = dtor_calls s" "clock_reads s' = clock_reads s"
proof -
  note D = queue_okD [OF ok]
  have pt: "p \<notin> set (timers s)" "refs p = 0" using D(5) p(1) D(10) [OF p(1)] by auto
  show thesis
  proof (cases rule: th.create_law [OF D(2), where m = gm and p = p, case_names full new])
    case (full r)
    then have "create_timer_on_q (Some p) gm ival fn dt args s = Ret (Inl r, s)" by (simp add: create_timer_on_q_def)
    with full(2) show thesis by (intro that(1))
  next
    case (new i h tab1 tab)
    let ?t0 = "new_timer (qid s) AOSL_MPQ_TIMER_INVALID ival fn dt args"
    let ?t = "new_timer (qid s) h ival fn dt args"
    let ?s = "s\<lparr>tmem := (tmem s)(p \<mapsto> ?t), active := (active s)\<lparr>heap := (heap (active s))(p \<mapsto> fresh_node)\<rparr>,
      timers := timers s @ [p], timer_count := timer_count s + 1, timer_table := tab\<rparr>"
    have "create_timer_on_q (Some p) gm ival fn dt args s = Ret (Inr p, ?s)"
      using new(1,2) by (simp add: create_timer_on_q_def timer_id_install_def upd_timer_Ret new_timer_def Let_def)
    moreover have "queue_ok ?s xs refs"
    proof -
      have "timers_ok (s\<lparr>tmem := (tmem s)(p \<mapsto> ?t), active := (active s)\<lparr>heap := (heap (active s))(p \<mapsto> fresh_node)\<rparr>\<rparr>) xs"
        using D(1) p by (rule alloc_mem_ok) (simp add: new_timer_def)
      then have "timers_ok ?s xs" by (simp add: timers_ok_def)
      moreover have "timer_entry_ok ?s refs q v" if "((tmem s)(p \<mapsto> ?t)) q = Some v" for q v
      proof (cases "q = p")
        case True
        moreover have "0 \<le> get_obj_slot h" "nat (get_obj_slot h) = i" using new(4) by simp_all
        ultimately show ?thesis using that pt new(7,8) by (auto simp: timer_entry_ok_def owned_def new_timer_def)
      next
        case False
        then have v: "tmem s q = Some v" using that by simp
        then have "nat (get_obj_slot (obj_id v)) \<noteq> i" using D(6) [OF v] new(5) by (auto simp: timer_entry_ok_def)
        then show ?thesis using D(6) [OF v] False new(7,8) by (simp add: timer_entry_ok_def owned_def)
      qed
      moreover have slot: "get_obj_slot (obj_id v) \<noteq> int i" if "tmem s q = Some v" for q v
        using D(6) [OF that] new(5) by (auto simp: timer_entry_ok_def)
      then have "slots_apart ((tmem s)(p \<mapsto> ?t))" using D(8) new(4) unfolding slots_apart_def
        by (auto simp: new_timer_def) metis+
      moreover have "q \<in> set (timers s @ [p]) \<and> (\<exists>u. ((tmem s)(p \<mapsto> ?t)) q = Some u \<and> get_obj_slot (obj_id u) = int j)"
        if "tab_entry tab j = Some q" for j q
        using that D(7) [of j q] new(4,8) p(1) by (auto simp: new_timer_def split: if_splits)
      moreover have "set (timers s @ [p]) \<subseteq> dom ((tmem s)(p \<mapsto> ?t))" using D(5) by auto
      ultimately show ?thesis using D(3,4,9,10) pt new(3) unfolding queue_ok_def by auto
    qed
    moreover have "obj_id t \<noteq> h" if "tmem s q = Some t" for q t
      using D(6) [OF that] new(4,5) by (auto simp: timer_entry_ok_def)
    ultimately show thesis by (intro that(2) [of ?s h]) auto
  qed
qed

text \<open>The destructor call a timer is due.\<close>

definition dtor_record :: "(ptr \<rightharpoonup> timer_node) \<Rightarrow> ptr \<Rightarrow> (ptr \<times> u64 list) list" where
  "dtor_record m p = (case m p of None \<Rightarrow> [] | Some t \<Rightarrow> if dtor t \<noteq> 0 then [(dtor t, argv t)] else [])"

lemma fini_loop_ok:
  "queue_ok s xs (\<lambda>_. 0) \<Longrightarrow> length (timers s) < fuel \<Longrightarrow>
    \<exists>s'. fini_timers_loop fuel s = Ret s' \<and> queue_ok s' [] (\<lambda>_. 0) \<and> timers s' = []
      \<and> dtor_calls s' = dtor_calls s @ concat (map (dtor_record (tmem s)) (timers s))"
proof (induction fuel arbitrary: s xs)
  case (Suc fuel)
  note D = queue_okD [OF Suc.prems(1)]
  show ?case
  proof (cases "timers s")
    case Nil
    with D(4) Suc.prems(1) show ?thesis by simp
  next
    case (Cons p ps)
    then have p: "p \<in> set (timers s)" by simp
    with D(5) obtain t where t: "tmem s p = Some t" by blast
    from kill_ok [OF Suc.prems(1) p t] obtain s1 where
      s1: "kill_timer_on_q p s = Ret (0, s1)" "queue_ok s1 (remove1 p xs) (\<lambda>_. 0)" "timers s1 = remove1 p (timers s)"
      "dtor_calls s1 = dtor_calls s @ (if dtor t \<noteq> 0 then [(dtor t, argv t)] else [])"
      "\<forall>q. q \<noteq> p \<longrightarrow> map_option timer_ident (tmem s1 q) = map_option timer_ident (tmem s q)" by auto
    have ps: "timers s1 = ps" "p \<notin> set ps" using s1(3) Cons D(3) by auto
    have "dtor_record (tmem s1) q = dtor_record (tmem s) q" if "q \<in> set ps" for q
    proof -
      have "map_option timer_ident (tmem s1 q) = map_option timer_ident (tmem s q)" using s1(5) that ps(2) by metis
      then show ?thesis by (cases "tmem s q"; cases "tmem s1 q") (auto simp: timer_ident_def dtor_record_def)
    qed
    then have "concat (map (dtor_record (tmem s1)) ps) = concat (map (dtor_record (tmem s)) ps)" by (simp cong: map_cong)
    moreover have "dtor_record (tmem s) p = (if dtor t \<noteq> 0 then [(dtor t, argv t)] else [])" using t by (simp add: dtor_record_def)
    moreover from Suc.IH [OF s1(2)] ps(1) Suc.prems(2) Cons obtain s' where
      "fini_timers_loop fuel s1 = Ret s'" "queue_ok s' [] (\<lambda>_. 0)" "timers s' = []"
      "dtor_calls s' = dtor_calls s1 @ concat (map (dtor_record (tmem s1)) ps)" by auto
    ultimately show ?thesis using Cons s1(1,4) by simp
  qed
qed simp

subsection \<open>Every reachable state\<close>

text \<open>
  The operations the calls are made of, in any order: \<open>refs\<close> says who may give a reference back. As in the code, a timer that exists may be
  rescheduled, cancelled and killed, also when it is no longer on the queue's list; the flag remembers whether a timer was rescheduled after it was killed. A timer fires with a callback that leaves the timers alone; what a callback does to them is further steps.
\<close>

type_synonym timer_sys = "timer_queue \<times> (ptr \<Rightarrow> nat) \<times> bool"

inductive timer_step :: "timer_sys \<Rightarrow> timer_sys \<Rightarrow> bool" where
  create: "tmem s p = None \<Longrightarrow> timer_addr p \<Longrightarrow> create_timer_on_q (Some p) gm ival fn dt args s = Ret (r, s') \<Longrightarrow> timer_step (s, refs, l) (s', refs, l)"
| get: "\<forall>p. refs p < 2 ^ 63 \<Longrightarrow> timer_get h s = Ret (p, s') \<Longrightarrow> timer_step (s, refs, l) (s', if p = 0 then refs else refs(p := Suc (refs p)), l)"
| put: "0 < refs p \<Longrightarrow> timer_put p s = Ret s' \<Longrightarrow> timer_step (s, refs, l) (s', refs(p := refs p - 1), l)"
| resched: "tmem s p \<noteq> None \<Longrightarrow> resched_timer tick p ival expire s = Ret s' \<Longrightarrow> timer_step (s, refs, l) (s', refs, l \<or> p \<notin> set (timers s))"
| cancel: "tmem s p \<noteq> None \<Longrightarrow> cancel_timer_on_q p s = Ret s' \<Longrightarrow> timer_step (s, refs, l) (s', refs, l)"
| kill: "tmem s p \<noteq> None \<Longrightarrow> kill_timer_on_q p s = Ret (r, s') \<Longrightarrow> timer_step (s, refs, l) (s', refs, l)"
| fire: "first s \<noteq> 0 \<Longrightarrow> run_first_timer tick (quiet g) now (first s) s = Ret s' \<Longrightarrow> timer_step (s, refs, l) (s', refs, l)"

text \<open>Killing a timer a second time, which a thread that looked it up before may do, finds the slot of its handle empty and changes nothing.\<close>

lemma kill_again:
  assumes ok: "queue_ok s xs refs" and p: "p \<notin> set (timers s)" and t: "tmem s p = Some t"
  shows "kill_timer_on_q p s = Ret (- AOSL_EINVAL, s)"
proof -
  note D = queue_okD [OF ok]
  let ?i = "nat (get_obj_slot (obj_id t))"
  have E: "0 \<le> get_obj_slot (obj_id t)" "in_use (timer_table s) ?i" "tab_entry (timer_table s) ?i = None" using D(6) [OF t] p by (auto simp: timer_entry_ok_def)
  have i: "get_obj_slot (obj_id t) < pool_size (timer_table s)" "?i < length (pool_table (timer_table s))" "pool_table (timer_table s) ! ?i = None"
    using E in_use_index [OF D(2) E(2)] by (auto simp: tab_entry_def split: if_splits)
  then show ?thesis using E(1) t by (simp add: kill_timer_on_q_def timer_at_def obj_id_uninstall_def arr_get_def)
qed

lemma resched_queue_ok:
  assumes ok: "queue_ok s xs refs" and p: "p \<in> set (timers s)"
  obtains s' xs' where "resched_timer tick p ival expire s = Ret s'" "queue_ok s' xs' refs" "same_timers s s'" "p \<in> set xs'"
proof -
  note D = queue_okD [OF ok]
  from p D(5) obtain t where t: "tmem s p = Some t" by blast
  from resched_ok [OF D(1) t, of tick ival expire] obtain s' ys zs where
    s': "resched_timer tick p ival expire s = Ret s'" "remove1 p xs = ys @ zs" "timers_ok s' (ys @ p # zs)" "same_timers s s'" .
  have "set (ys @ p # zs) \<subseteq> set (timers s)" using D(4) p s'(2) set_remove1_subset [of p xs] by auto
  from same_timers_queue_ok [OF ok s'(4,3) this] s' show thesis by (intro that) auto
qed

lemma cancel_queue_ok:
  assumes ok: "queue_ok s xs refs" and t: "tmem s p = Some t"
  obtains s' where "cancel_timer_on_q p s = Ret s'" "queue_ok s' (remove1 p xs) refs"
proof -
  note D = queue_okD [OF ok]
  from cancel_ok [OF D(1) t] obtain s' where
    s': "cancel_timer_on_q p s = Ret s'" "timers_ok s' (remove1 p xs)" "links_only (set xs) (tmem s) (tmem s')" "frame_q s s'" .
  have "set (remove1 p xs) \<subseteq> set (timers s)" using D(4) set_remove1_subset [of p xs] by blast
  from same_timers_queue_ok [OF ok same_timers_links [OF s'(3,4)] s'(2) this] s'(1) show thesis by (intro that)
qed

lemma queue_ok_errno [simp]: "queue_ok (s\<lparr>aosl_errno := e\<rparr>) xs refs = queue_ok s xs refs"
proof -
  have "timer_entry_ok (s\<lparr>aosl_errno := e\<rparr>) refs = timer_entry_ok s refs" by (simp add: timer_entry_ok_def owned_def fun_eq_iff)
  then show ?thesis by (simp add: queue_ok_def)
qed

lemma fire_queue_ok:
  assumes ok: "queue_ok s xs refs" and f: "first s \<noteq> 0"
  obtains s' xs' where "run_first_timer tick (quiet g) now (first s) s = Ret s'" "queue_ok s' xs' refs"
proof -
  note D = queue_okD [OF ok]
  from f D(1) obtain x ws where xs: "xs = x # ws" "first s = x" by (cases xs) (auto simp: timers_ok_def after_def)
  with D(4,5) obtain t where t: "tmem s x = Some t" by auto
  from run_first_ok [OF D(1) [unfolded xs(1)] t, of tick g now] obtain s' ys zs where
    s': "run_first_timer tick (quiet g) now x s = Ret s'" "ws = ys @ zs" "timers_ok s' (if periodic t then ys @ x # zs else ws)"
    "links_only (set (x # ws)) ((tmem s)(x \<mapsto> fired_values tick now (clock_reads s) t)) (tmem s')"
    "timers s' = timers s" "timer_table s' = timer_table s" "timer_count s' = timer_count s" "dtor_calls s' = dtor_calls s" .
  have "timer_ident (fired_values tick now (clock_reads s) t) = timer_ident t" by (simp add: fired_values_def timer_ident_def)
  then have "map_option timer_ident (tmem s' q) = map_option timer_ident (tmem s q)" for q
    using links_only_ident [OF s'(4), of q] t by simp
  then have "same_timers s (s'\<lparr>aosl_errno := aosl_errno s\<rparr>)" using s' by (simp add: same_timers_def)
  moreover have "timers_ok (s'\<lparr>aosl_errno := aosl_errno s\<rparr>) (if periodic t then ys @ x # zs else ws)" using s'(3) by simp
  moreover have "set (if periodic t then ys @ x # zs else ws) \<subseteq> set (timers s)" using D(4) xs s'(2) by auto
  ultimately have "queue_ok (s'\<lparr>aosl_errno := aosl_errno s\<rparr>) (if periodic t then ys @ x # zs else ws) refs" by (rule same_timers_queue_ok [OF ok])
  then show thesis using s'(1) xs(2) by (intro that) simp_all
qed

lemma timer_step_flag: "timer_step (s, refs, l) (s', refs', l') \<Longrightarrow> l \<Longrightarrow> l'"
  by (erule timer_step.cases) auto

lemma timer_step_ok:
  assumes "timer_step (s, refs, l) (s', refs', l')" and "queue_ok s xs refs" and "\<not> l'"
  shows "\<not> l \<and> (\<exists>xs'. queue_ok s' xs' refs')"
  using assms
proof (cases rule: timer_step.cases)
  case (create p gm ival fn dt args r)
  from assms(2) create(3,4) show ?thesis
    by (cases rule: create_ok [where gm = gm and ival = ival and fn = fn and dt = dt and args = args, case_names full new, consumes 3])
      (use create assms(2,3) in auto)
next
  case (get h p)
  from assms(2) get(3) show ?thesis
    by (cases rule: timer_get_ok [where h = h, case_names none some, consumes 2]) (use get assms(2,3) in auto)
next
  case (put p)
  from assms(2) put(3) show ?thesis
    by (cases rule: timer_put_ok [case_names kept freed, consumes 2]) (use put assms(3) in auto)
next
  case (resched p tick ival expire)
  then have p: "p \<in> set (timers s)" using assms(3) by simp
  from resched_queue_ok [OF assms(2) p, of tick ival expire] resched assms(3) show ?thesis by auto
next
  case (cancel p)
  from cancel(3) obtain t where "tmem s p = Some t" by blast
  from cancel_queue_ok [OF assms(2) this] cancel assms(3) show ?thesis by auto
next
  case (kill p r)
  then obtain t where t: "tmem s p = Some t" by blast
  show ?thesis
  proof (cases "p \<in> set (timers s)")
    case True
    from kill_ok [OF assms(2) True t] kill assms(3) show ?thesis by auto
  next
    case False
    from kill_again [OF assms(2) False t] kill assms(2,3) show ?thesis by auto
  qed
next
  case (fire tick g now)
  from fire_queue_ok [OF assms(2) fire(3), of tick g now] fire assms(3) show ?thesis by auto
qed

definition fresh_queue :: "timer_queue \<Rightarrow> bool" where
  "fresh_queue s \<longleftrightarrow> tmem s = Map.empty \<and> heap (active s) = Map.empty \<and> obj_table_ok (timer_table s) \<and> tab_entry (timer_table s) = (\<lambda>_. None)"

lemma init_queue_ok: "fresh_queue s \<Longrightarrow> queue_ok (mpq_init_timers s) [] (\<lambda>_. 0)"
proof -
  assume f: "fresh_queue s"
  then have "trep (aosl_rb_root_init (active s)) E" by (simp add: fresh_queue_def trep_def aosl_rb_root_init_def)
  then have "rb_holds (aosl_rb_root_init (active s)) []"
    unfolding rb_holds_def by (auto simp: aosl_rb_root_init_def rb_tree_def intro!: exI [of _ E])
  with f show ?thesis
    by (simp add: fresh_queue_def queue_ok_def mpq_init_timers_def timers_ok_def node_mem_def aosl_rb_root_init_def slots_apart_def)
qed

lemma reachable_queue_ok:
  assumes "timer_step\<^sup>*\<^sup>* (s, refs, False) (s', refs', l')" and "\<exists>xs. queue_ok s xs refs"
  shows "\<not> l' \<longrightarrow> (\<exists>xs. queue_ok s' xs refs')"
  using assms
proof (induction "(s', refs', l')" arbitrary: s' refs' l' rule: rtranclp_induct)
  case (step y)
  obtain s1 refs1 l1 where y: "y = (s1, refs1, l1)" by (metis prod_cases3)
  show ?case
  proof
    assume "\<not> l'"
    with timer_step_ok [OF step.hyps(2) [unfolded y]] step.hyps(3) [OF y] step.prems show "\<exists>xs. queue_ok s' xs refs'"
      by (metis (full_types) step.hyps(2) timer_step_flag y)
  qed
qed simp

lemma timer_get_own:
  assumes ok: "queue_ok s xs refs" and room: "\<forall>q. refs q < 2 ^ 63" and p: "p \<in> set (timers s)" and t: "tmem s p = Some t"
  shows "timer_get (obj_id t) s = Ret (p, s\<lparr>tmem := (tmem s)(p \<mapsto> t\<lparr>usage := usage t + 1\<rparr>)\<rparr>)"
    and "queue_ok (s\<lparr>tmem := (tmem s)(p \<mapsto> t\<lparr>usage := usage t + 1\<rparr>)\<rparr>) xs (refs(p := Suc (refs p)))"
proof -
  from ok room have "timer_get (obj_id t) s = Ret (p, s\<lparr>tmem := (tmem s)(p \<mapsto> t\<lparr>usage := usage t + 1\<rparr>)\<rparr>)
    \<and> queue_ok (s\<lparr>tmem := (tmem s)(p \<mapsto> t\<lparr>usage := usage t + 1\<rparr>)\<rparr>) xs (refs(p := Suc (refs p)))"
  proof (cases rule: timer_get_ok [where h = "obj_id t", case_names none some, consumes 2])
    case none
    with p t show ?thesis by blast
  next
    case (some q u s')
    then have "q = p" using queue_okD(8) [OF ok] t unfolding slots_apart_def by metis
    with some t show ?thesis by simp
  qed
  then show "timer_get (obj_id t) s = Ret (p, s\<lparr>tmem := (tmem s)(p \<mapsto> t\<lparr>usage := usage t + 1\<rparr>)\<rparr>)"
    and "queue_ok (s\<lparr>tmem := (tmem s)(p \<mapsto> t\<lparr>usage := usage t + 1\<rparr>)\<rparr>) xs (refs(p := Suc (refs p)))" by blast+
qed

lemma timer_get_gone:
  assumes ok: "queue_ok s' xs' refs" and room: "\<forall>q. refs q < 2 ^ 63" and old: "slots_apart (tmem s)" "tmem s p = Some t"
    and new: "p \<notin> set (timers s')" "\<forall>q. q \<noteq> p \<longrightarrow> map_option timer_ident (tmem s' q) = map_option timer_ident (tmem s q)"
  shows "timer_get (obj_id t) s' = Ret (0, s')"
  using ok room
proof (cases rule: timer_get_ok [where h = "obj_id t", case_names none some, consumes 2])
  case (some q u s1)
  then have "q \<noteq> p" using new(1) by blast
  with new(2) some(4) obtain v where "tmem s q = Some v" "obj_id v = obj_id u"
    by (cases "tmem s q") (auto simp: timer_ident_def)
  with old some(5) \<open>q \<noteq> p\<close> show ?thesis unfolding slots_apart_def by metis
qed

lemma kill_call_ok:
  assumes ok: "queue_ok s xs refs" and p: "p \<in> set (timers s)" and t: "tmem s p = Some t" and room: "\<forall>q. refs q < 2 ^ 63"
  obtains s' where "aosl_mpq_kill_timer True Call_Done (obj_id t) s = Ret (0, s')" "queue_ok s' (remove1 p xs) refs" "timers s' = remove1 p (timers s)"
    "tmem s' p = None \<longleftrightarrow> refs p = 0" "dtor_calls s' = dtor_calls s @ (if refs p = 0 \<and> dtor t \<noteq> 0 then [(dtor t, argv t)] else [])"
    "timer_get (obj_id t) s' = Ret (0, s')"
proof -
  note D = queue_okD [OF ok]
  let ?s1 = "s\<lparr>tmem := (tmem s)(p \<mapsto> t\<lparr>usage := usage t + 1\<rparr>)\<rparr>" and ?r1 = "refs(p := Suc (refs p))"
  have p0: "p \<noteq> 0" using D(1) t by (auto simp: timers_ok_def timer_addr_def)
  note get = timer_get_own [OF ok room p t]
  have t1: "tmem ?s1 p = Some (t\<lparr>usage := usage t + 1\<rparr>)" and p1: "p \<in> set (timers ?s1)" using p by simp_all
  have r1: "0 < ?r1 p" by simp
  from kill_ok [OF get(2) p1 t1] obtain s2 where
    s2: "kill_timer_on_q p ?s1 = Ret (0, s2)" "queue_ok s2 (remove1 p xs) ?r1" "timers s2 = remove1 p (timers ?s1)"
    "dtor_calls s2 = dtor_calls ?s1 @ (if ?r1 p = 0 \<and> dtor (t\<lparr>usage := usage t + 1\<rparr>) \<noteq> 0 then [(dtor (t\<lparr>usage := usage t + 1\<rparr>), argv (t\<lparr>usage := usage t + 1\<rparr>))] else [])"
    "\<forall>q. q \<noteq> p \<longrightarrow> map_option timer_ident (tmem s2 q) = map_option timer_ident (tmem ?s1 q)"
    and u: "0 < ?r1 p \<longrightarrow> (\<exists>u. tmem s2 p = Some u \<and> obj_id u = obj_id (t\<lparr>usage := usage t + 1\<rparr>) \<and> dtor u = dtor (t\<lparr>usage := usage t + 1\<rparr>) \<and> argv u = argv (t\<lparr>usage := usage t + 1\<rparr>))" .
  from mp [OF u r1] obtain u where u: "tmem s2 p = Some u" "dtor u = dtor t" "argv u = argv t" by auto
  have notin: "p \<notin> set (timers s2)" using s2(3) D(3) by simp
  have idn: "\<forall>q. q \<noteq> p \<longrightarrow> map_option timer_ident (tmem s2 q) = map_option timer_ident (tmem s q)" using s2(5) by simp
  have call: "aosl_mpq_kill_timer True Call_Done (obj_id t) s = ebind (timer_put p s2) (\<lambda>s. Ret (0, s))"
    using get(1) s2(1) p0 by (simp add: aosl_mpq_kill_timer_def with_timer_def mpq_kill_timer_def q_call_def target_q_kill_timer_def return_err_def)
  from s2(2) r1 obtain s' where
    s': "timer_put p s2 = Ret s'" "queue_ok s' (remove1 p xs) refs" "timers s' = timers s2" "tmem s' p = None \<longleftrightarrow> refs p = 0"
    "dtor_calls s' = dtor_calls s @ (if refs p = 0 \<and> dtor t \<noteq> 0 then [(dtor t, argv t)] else [])" "\<forall>q. q \<noteq> p \<longrightarrow> tmem s' q = tmem s2 q"
  proof (cases rule: timer_put_ok [case_names kept freed, consumes 2])
    case (kept s')
    have e: "?r1(p := ?r1 p - 1) = refs" by auto
    have q: "queue_ok s' (remove1 p xs) refs" using kept(2) unfolding e .
    show thesis by (rule that [OF kept(1) q kept(5)]) (use kept(3,4,8,9) notin s2(4) u in auto)
  next
    case (freed s' t2)
    have r: "refs p = 0" using freed(4) by simp
    then have e: "?r1(p := 0) = refs" by auto
    have q: "queue_ok s' (remove1 p xs) refs" using freed(2) unfolding e .
    show thesis by (rule that [OF freed(1) q freed(7)]) (use freed(5,6,9) r s2(4) u in auto)
  qed
  have "\<forall>q. q \<noteq> p \<longrightarrow> map_option timer_ident (tmem s' q) = map_option timer_ident (tmem s q)" using idn s'(6) by simp
  from timer_get_gone [OF s'(2) room D(8) t _ this] notin s'(3) have "timer_get (obj_id t) s' = Ret (0, s')" by simp
  with s' s2(3) call show thesis by (intro that [of s']) simp_all
qed


subsection \<open>Properties\<close>

abbreviation q0 :: timer_queue where
  "q0 \<equiv> mpq_init_timers \<lparr>qid = 0, active = \<lparr>heap = Map.empty, root_node = 0, count = 0\<rparr>, first = 0, timers = [], timer_count = 0,
     q_stack_curr = demo_stack, tmem = Map.empty, timer_table = table0, dtor_calls = [], clock_reads = 0, aosl_errno = 0\<rparr>"

lemma q0_fresh: "fresh_queue \<lparr>qid = 0, active = \<lparr>heap = Map.empty, root_node = 0, count = 0\<rparr>, first = 0, timers = [], timer_count = 0,
     q_stack_curr = demo_stack, tmem = Map.empty, timer_table = table0, dtor_calls = [], clock_reads = 0, aosl_errno = 0\<rparr>"
  using obj_table_init_ok [OF obj_table_init_table0] by (auto simp: fresh_queue_def tab_entry_def fun_eq_iff)

lemma q0_ok: "queue_ok q0 [] (\<lambda>_. 0)"
  by (rule init_queue_ok [OF q0_fresh])

lemma find0: "bitmap_find_first_zero_bit \<lparr>bit_arr = [0], bit_arr_cnt = 1, bit_cnt = 8\<rparr> = Ret 0"
  by (simp add: bitmap_find_first_zero_bit_def find_zero_from.simps find_zero_in_byte.simps)

lemma alloc0: "\<exists>tab. get_unused_timer_id mem_ok table0 = Ret (0, tab)"
  by (simp add: get_unused_timer_id_def pool_get_unused_def pool_take_def find0 bitmap_set_def)

lemma create0: "timer_table s = table0 \<Longrightarrow> create_timer_on_q (Some p) mem_ok ival fn dt args s \<noteq> Ret (Inl err, s')"
  using alloc0 by (auto simp: create_timer_on_q_def Let_def ebind_Ret_iff)

text \<open>A queue with one timer in it, to apply the properties to.\<close>

lemma q1_create:
  obtains s h where "create_timer_on_q (Some 8) mem_ok 5 100 200 [7] q0 = Ret (Inr 8, s)" "queue_ok s [] (\<lambda>_. 0)" "timers s = [8]"
    "tmem s 8 = Some (new_timer 0 h 5 100 200 [7])" "dtor_calls s = []"
proof -
  have p: "tmem q0 8 = None" "timer_addr 8" by (simp_all add: mpq_init_timers_def timer_addr_def AOSL_LIST_POISON1_def)
  have "create_timer_on_q (Some 8) mem_ok 5 100 200 [7] q0 \<noteq> Ret (Inl err, q0)" for err
    by (rule create0) (simp add: mpq_init_timers_def)
  with q0_ok p show thesis
    by (cases rule: create_ok [where gm = mem_ok and ival = 5 and fn = 100 and dt = 200 and args = "[7]", case_names full new, consumes 3])
      (auto simp: mpq_init_timers_def intro: that)
qed

text \<open>
  C7. Safety of a queue's timers: from an empty queue, whatever sequence of creations, look-ups, reference
  drops, (re)schedulings, cancellations, kills (also of a timer that was killed before) and firings of callbacks that leave the timers alone is carried out, as long as no timer that was already killed is rescheduled,
  the use counts, the handle table, the list of timers, the tree and the schedule stay consistent, and every further operation on a timer of the queue returns:
  none reads freed memory. The code does not exclude the rescheduling of a killed timer; the race at the end of this theory is what happens then.
\<close>

theorem timer_queue_safe:
  assumes "fresh_queue s0" and "timer_step\<^sup>*\<^sup>* (mpq_init_timers s0, \<lambda>_. 0, False) (s, refs, killed_rescheduled)" and "\<not> killed_rescheduled"
  shows "(\<exists>xs. queue_ok s xs refs)
    \<and> (\<forall>p \<in> set (timers s). (\<exists>s'. kill_timer_on_q p s = Ret (0, s')) \<and> (\<exists>s'. cancel_timer_on_q p s = Ret s') \<and> (\<exists>s'. resched_timer tick p ival e s = Ret s'))
    \<and> (tmem s q \<noteq> None \<longrightarrow> (\<exists>r s'. kill_timer_on_q q s = Ret (r, s')) \<and> (\<exists>s'. cancel_timer_on_q q s = Ret s'))
    \<and> (0 < refs q \<longrightarrow> (\<exists>s'. timer_put q s = Ret s'))
    \<and> (first s \<noteq> 0 \<longrightarrow> (\<exists>s'. run_first_timer tick (quiet g) now (first s) s = Ret s'))"
proof -
  from reachable_queue_ok [OF assms(2)] init_queue_ok [OF assms(1)] assms(3) obtain xs where ok: "queue_ok s xs refs" by blast
  note D = queue_okD [OF ok]
  have "\<exists>s'. kill_timer_on_q p s = Ret (0, s')" "\<exists>s'. cancel_timer_on_q p s = Ret s'" "\<exists>s'. resched_timer tick p ival e s = Ret s'" if "p \<in> set (timers s)" for p
  proof -
    from that D(5) obtain t where t: "tmem s p = Some t" by blast
    from kill_ok [OF ok that t] show "\<exists>s'. kill_timer_on_q p s = Ret (0, s')" by blast
    from cancel_queue_ok [OF ok t] show "\<exists>s'. cancel_timer_on_q p s = Ret s'" by blast
    from resched_queue_ok [OF ok that, of tick ival e] show "\<exists>s'. resched_timer tick p ival e s = Ret s'" by blast
  qed
  moreover have "\<exists>r s'. kill_timer_on_q q s = Ret (r, s')" "\<exists>s'. cancel_timer_on_q q s = Ret s'" if "tmem s q \<noteq> None"
  proof -
    from that obtain t where t: "tmem s q = Some t" by blast
    show "\<exists>r s'. kill_timer_on_q q s = Ret (r, s')" using kill_again [OF ok _ t] calculation(1) by (cases "q \<in> set (timers s)") blast+
    from cancel_queue_ok [OF ok t] show "\<exists>s'. cancel_timer_on_q q s = Ret s'" by blast
  qed
  moreover have "\<exists>s'. timer_put q s = Ret s'" if "0 < refs q"
    using ok that by (cases rule: timer_put_ok [case_names kept freed, consumes 2]) auto
  moreover have "\<exists>s'. run_first_timer tick (quiet g) now (first s) s = Ret s'" if "first s \<noteq> 0"
    using fire_queue_ok [OF ok that, of tick g now] by blast
  ultimately show ?thesis using ok by blast
qed

theorem timer_queue_safe_witness:
  "\<exists>s s'. timer_step\<^sup>*\<^sup>* (q0, \<lambda>_. 0, False) (s, \<lambda>_. 0, False) \<and> timers s = [8] \<and> kill_timer_on_q 8 s = Ret (0, s')"
proof -
  have p: "tmem q0 8 = None" "timer_addr 8" by (simp_all add: mpq_init_timers_def timer_addr_def AOSL_LIST_POISON1_def)
  from q1_create obtain s h where s: "create_timer_on_q (Some 8) mem_ok 5 100 200 [7] q0 = Ret (Inr 8, s)" "timers s = [8]" .
  from timer_step.create [OF p s(1)] have r: "timer_step\<^sup>*\<^sup>* (q0, \<lambda>_. 0, False) (s, \<lambda>_. 0, False)" by (rule r_into_rtranclp)
  from timer_queue_safe [OF q0_fresh r, of "\<lambda>_. 0" 0 0 8 "\<lambda>fn h now args e. e" 0] s(2) obtain s' where "kill_timer_on_q 8 s = Ret (0, s')" by auto
  with r s(2) show ?thesis by blast
qed

text \<open>
  \<^verbatim>\<open>aosl_mpq_kill_timer\<close> carried out on the timer's queue returns 0 and takes the timer off the queue, the schedule and the handle
  table: later calls with the handle find nothing (\<^verbatim>\<open>AOSL_ENOENT\<close>). When no other thread holds a reference the
  timer is freed and its destructor called, once; otherwise both wait for the last holder.
\<close>

theorem kill_timer_call:
  assumes "queue_ok s xs refs" and "p \<in> set (timers s)" and "tmem s p = Some t" and "\<forall>q. refs q < 2 ^ 63"
  shows "\<exists>s'. aosl_mpq_kill_timer True Call_Done (obj_id t) s = Ret (0, s') \<and> queue_ok s' (remove1 p xs) refs \<and> timers s' = remove1 p (timers s)
    \<and> (tmem s' p = None \<longleftrightarrow> refs p = 0)
    \<and> dtor_calls s' = dtor_calls s @ (if refs p = 0 \<and> dtor t \<noteq> 0 then [(dtor t, argv t)] else [])
    \<and> (\<forall>found co. aosl_mpq_kill_timer found co (obj_id t) s' = Ret (- 1, s'\<lparr>aosl_errno := AOSL_ENOENT\<rparr>))"
proof -
  from kill_call_ok [OF assms] obtain s' where
    s': "aosl_mpq_kill_timer True Call_Done (obj_id t) s = Ret (0, s')" "queue_ok s' (remove1 p xs) refs" "timers s' = remove1 p (timers s)"
    "tmem s' p = None \<longleftrightarrow> refs p = 0" "dtor_calls s' = dtor_calls s @ (if refs p = 0 \<and> dtor t \<noteq> 0 then [(dtor t, argv t)] else [])"
    "timer_get (obj_id t) s' = Ret (0, s')" .
  then show ?thesis by (intro exI [of _ s']) (simp add: aosl_mpq_kill_timer_def with_timer_def int_fail_def)
qed

theorem kill_timer_call_witness:
  "\<exists>s h s'. timers s = [8] \<and> aosl_mpq_kill_timer True Call_Done h s = Ret (0, s') \<and> timers s' = [] \<and> tmem s' 8 = None \<and> dtor_calls s' = [(200, [7])]"
proof -
  from q1_create obtain s h where s: "queue_ok s [] (\<lambda>_. 0)" "timers s = [8]" "tmem s 8 = Some (new_timer 0 h 5 100 200 [7])" "dtor_calls s = []" .
  from kill_timer_call [OF s(1) _ s(3)] s(2,4) show ?thesis by (auto simp: new_timer_def)
qed

text \<open>
  \<^verbatim>\<open>mpq_fini_timers\<close> of a queue whose timers nobody else holds ends: every timer is freed, the list is empty, and the
  destructor of each has been called exactly once, in the order of creation.
\<close>

theorem fini_timers_correct:
  assumes "queue_ok s xs (\<lambda>_. 0)"
  shows "\<exists>s'. mpq_fini_timers s = Ret s' \<and> timers s' = [] \<and> tmem s' = Map.empty \<and> first s' = 0
    \<and> dtor_calls s' = dtor_calls s @ concat (map (dtor_record (tmem s)) (timers s))"
proof -
  from fini_loop_ok [OF assms, of "Suc (length (timers s))"] obtain s' where
    s': "fini_timers_loop (Suc (length (timers s))) s = Ret s'" "queue_ok s' [] (\<lambda>_. 0)" "timers s' = []"
    "dtor_calls s' = dtor_calls s @ concat (map (dtor_record (tmem s)) (timers s))" by auto
  have "tmem s' p = None" for p
    using queue_okD(6) [OF s'(2), of p] s'(3) by (cases "tmem s' p") (auto simp: timer_entry_ok_def owned_def)
  then have "tmem s' = Map.empty" by (rule ext)
  moreover have "first s' = 0" using queue_okD(1) [OF s'(2)] by (simp add: timers_ok_def after_def)
  ultimately show ?thesis using s' by (simp add: mpq_fini_timers_def)
qed

theorem fini_timers_correct_witness:
  "\<exists>s s'. timers s = [8] \<and> mpq_fini_timers s = Ret s' \<and> timers s' = [] \<and> dtor_calls s' = [(200, [7])]"
proof -
  from q1_create obtain s h where s: "queue_ok s [] (\<lambda>_. 0)" "timers s = [8]" "tmem s 8 = Some (new_timer 0 h 5 100 200 [7])" "dtor_calls s = []" .
  from fini_timers_correct [OF s(1)] s(2-4) show ?thesis by (auto simp: dtor_record_def new_timer_def)
qed



end
