(* ===== verification/Use_Count.thy ===== *)
theory Use_Count
  imports Handle_Table
begin

text \<open>
  Objects that are found by handle and freed with their last reference: the accounting that \<^verbatim>\<open>kernel/refobj.c\<close> and \<^verbatim>\<open>kernel/mpq.c\<close>
  share. The table holds one reference on an installed object; \<open>refs p\<close> counts the others. \<open>um\<close> gives handle and
  use count of every object in memory. The laws say what each operation on table and counts keeps.
\<close>

lemma refobj_pool: "get_unused_refobj_id = get_unused_timer_id" "put_unused_refobj_id = put_unused_timer_id"
  by (simp_all add: get_unused_refobj_id_def get_unused_timer_id_def REFOBJ_ID_POOL_MAX_SIZE_def TIMER_ID_POOL_MAX_SIZE_def
      put_unused_refobj_id_def put_unused_timer_id_def fun_eq_iff)

interpretation rh: handle_table obj_table_ok in_use tab_entry get_unused_refobj_id obj_id_install obj_id_uninstall put_unused_refobj_id get_obj_slot
  unfolding refobj_pool by (rule th.handle_table_axioms)

type_synonym use_map = "ptr \<rightharpoonup> u32 \<times> u64"

definition installed :: "(ptr, 'z) obj_table_scheme \<Rightarrow> u32 \<Rightarrow> ptr \<Rightarrow> bool" where
  "installed tab h p \<longleftrightarrow> tab_entry tab (nat (get_obj_slot h)) = Some p"

definition holders :: "(ptr, 'z) obj_table_scheme \<Rightarrow> (ptr \<Rightarrow> nat) \<Rightarrow> u32 \<Rightarrow> ptr \<Rightarrow> nat" where
  "holders tab refs h p = (if installed tab h p then 1 else 0) + refs p"

definition counted_entry :: "(ptr, 'z) obj_table_scheme \<Rightarrow> (ptr \<Rightarrow> nat) \<Rightarrow> ptr \<Rightarrow> u32 \<times> u64 \<Rightarrow> bool" where
  "counted_entry tab refs p e \<longleftrightarrow> (case e of (h, u) \<Rightarrow>
     u = of_nat (holders tab refs h p) \<and> 0 < holders tab refs h p \<and> holders tab refs h p < 2 ^ 64
     \<and> 0 \<le> get_obj_slot h \<and> in_use tab (nat (get_obj_slot h)) \<and> tab_entry tab (nat (get_obj_slot h)) \<in> {None, Some p})"

definition handles_apart :: "use_map \<Rightarrow> bool" where
  "handles_apart um \<longleftrightarrow> (\<forall>p q h u k v. um p = Some (h, u) \<longrightarrow> um q = Some (k, v) \<longrightarrow> get_obj_slot h = get_obj_slot k \<longrightarrow> p = q)"

definition counted :: "ptr obj_table \<Rightarrow> use_map \<Rightarrow> (ptr \<Rightarrow> nat) \<Rightarrow> bool" where
  "counted tab um refs \<longleftrightarrow> obj_table_ok tab \<and> (\<forall>p e. um p = Some e \<longrightarrow> counted_entry tab refs p e)
     \<and> (\<forall>i p. tab_entry tab i = Some p \<longrightarrow> (\<exists>h u. um p = Some (h, u) \<and> get_obj_slot h = int i))
     \<and> handles_apart um \<and> (\<forall>p. um p = None \<longrightarrow> refs p = 0)"

lemma countedD:
  assumes "counted tab um refs"
  shows "obj_table_ok tab" and "um p = Some e \<Longrightarrow> counted_entry tab refs p e"
    and "tab_entry tab i = Some p \<Longrightarrow> \<exists>h u. um p = Some (h, u) \<and> get_obj_slot h = int i"
    and "handles_apart um" and "um p = None \<Longrightarrow> refs p = 0"
  using assms unfolding counted_def by blast+

lemma handles_apartD: "handles_apart um \<Longrightarrow> um p = Some (h, u) \<Longrightarrow> um q = Some (k, v) \<Longrightarrow> get_obj_slot h = get_obj_slot k \<Longrightarrow> p = q"
  unfolding handles_apart_def by blast

lemma counted_slot_neq:
  assumes c: "counted tab um refs" and p: "um p = Some (h, u)" and q: "um q = Some (k, v)" "q \<noteq> p"
  shows "nat (get_obj_slot k) \<noteq> nat (get_obj_slot h)"
proof
  assume "nat (get_obj_slot k) = nat (get_obj_slot h)"
  moreover have "0 \<le> get_obj_slot k" "0 \<le> get_obj_slot h"
    using countedD(2) [OF c p] countedD(2) [OF c q(1)] by (simp_all add: counted_entry_def)
  ultimately have "get_obj_slot k = get_obj_slot h" by simp
  from handles_apartD [OF countedD(4) [OF c] q(1) p this] q(2) show False by simp
qed

text \<open>Changing the count of one object with its references.\<close>

lemma counted_upd:
  assumes c: "counted tab um refs" and p: "um p = Some (h, u)"
    and n: "0 < holders tab (refs(p := n)) h p" "holders tab (refs(p := n)) h p < 2 ^ 64"
  shows "counted tab (um(p \<mapsto> (h, of_nat (holders tab (refs(p := n)) h p)))) (refs(p := n))"
proof -
  let ?um = "um(p \<mapsto> (h, of_nat (holders tab (refs(p := n)) h p)))"
  have "counted_entry tab (refs(p := n)) q e" if "?um q = Some e" for q e
    using that countedD(2) [OF c p] countedD(2) [OF c, of q e] n
    by (cases "q = p") (auto simp: counted_entry_def holders_def split: if_splits)
  moreover have "handles_apart ?um" unfolding handles_apart_def
  proof (intro allI impI)
    fix a b k v l w
    assume "?um a = Some (k, v)" "?um b = Some (l, w)" and eq: "get_obj_slot k = get_obj_slot l"
    then obtain v' w' where "um a = Some (k, v')" "um b = Some (l, w')" using p by (auto split: if_splits)
    from handles_apartD [OF countedD(4) [OF c] this eq] show "a = b" .
  qed
  moreover have "\<exists>k v. ?um q = Some (k, v) \<and> get_obj_slot k = int i" if "tab_entry tab i = Some q" for i q
    using countedD(3) [OF c that] p by (cases "q = p") auto
  ultimately show ?thesis using countedD(1,5) [OF c] unfolding counted_def by auto
qed

lemma counted_get:
  assumes c: "counted tab um refs" and p: "um p = Some (h, u)" and r: "refs p < 2 ^ 63"
  shows "counted tab (um(p \<mapsto> (h, u + 1))) (refs(p := Suc (refs p)))"
proof -
  have "u = of_nat (holders tab refs h p)" using countedD(2) [OF c p] by (simp add: counted_entry_def)
  then have u: "u + 1 = of_nat (holders tab (refs(p := Suc (refs p))) h p)" by (simp add: holders_def)
  have "0 < holders tab (refs(p := Suc (refs p))) h p" "holders tab (refs(p := Suc (refs p))) h p < 2 ^ 64" using r by (auto simp: holders_def)
  from counted_upd [OF c p this] show ?thesis unfolding u .
qed

lemma counted_put_keep:
  assumes c: "counted tab um refs" and p: "um p = Some (h, u)" and r: "0 < refs p" "installed tab h p \<or> 1 < refs p"
  shows "counted tab (um(p \<mapsto> (h, u - 1))) (refs(p := refs p - 1))" and "u - 1 \<noteq> 0"
proof -
  note E = countedD(2) [OF c p, unfolded counted_entry_def, simplified]
  let ?n = "holders tab (refs(p := refs p - 1)) h p"
  have n: "holders tab refs h p = Suc ?n" "0 < ?n" using r by (auto simp: holders_def)
  then have u: "u - 1 = of_nat ?n" using E by simp
  have "?n < 2 ^ 64" using n(1) E by simp
  with counted_upd [OF c p, of "refs p - 1"] n(2) u show "counted tab (um(p \<mapsto> (h, u - 1))) (refs(p := refs p - 1))" by simp
  have "unat (of_nat ?n :: u64) = ?n" using \<open>?n < 2 ^ 64\<close> by (simp add: unat_of_nat take_bit_nat_eq_self)
  with u n(2) show "u - 1 \<noteq> 0" by (metis less_numeral_extra(3) unat_0)
qed

lemma counted_put_free:
  assumes c: "counted tab um refs" and p: "um p = Some (h, u)" and r: "refs p = 1" "\<not> installed tab h p"
  obtains tab' where "u - 1 = 0" "put_unused_refobj_id (get_obj_slot h) tab = Ret tab'" "counted tab' (um(p := None)) (refs(p := 0))"
    "tab_entry tab' = tab_entry tab"
proof -
  note D = countedD [OF c]
  note E = D(2) [OF p, unfolded counted_entry_def, simplified]
  let ?i = "nat (get_obj_slot h)"
  have u: "u = 1" using E r by (simp add: holders_def)
  have i: "in_use tab ?i" "tab_entry tab ?i = None" "get_obj_slot h = int ?i" using E r(2) by (auto simp: installed_def)
  from rh.release_law [OF D(1) i(1,2)] obtain tab' where
    tab: "put_unused_refobj_id (int ?i) tab = Ret tab'" "obj_table_ok tab'" "in_use tab' = (in_use tab)(?i := False)" "tab_entry tab' = tab_entry tab" by blast
  have "counted_entry tab' (refs(p := 0)) q e" if "(um(p := None)) q = Some e" for q e
  proof -
    obtain k v where e: "e = (k, v)" by (cases e)
    have q: "um q = Some (k, v)" "q \<noteq> p" using that e by (auto split: if_splits)
    from counted_slot_neq [OF c p q] D(2) [OF q(1)] tab(3,4) q(2) show ?thesis
      by (simp add: e counted_entry_def holders_def installed_def)
  qed
  moreover have "handles_apart (um(p := None))" using D(4) unfolding handles_apart_def by auto
  moreover have "\<exists>k v. (um(p := None)) q = Some (k, v) \<and> get_obj_slot k = int j" if "tab_entry tab' j = Some q" for j q
  proof -
    have j: "tab_entry tab j = Some q" using that tab(4) by simp
    from D(3) [OF j] obtain k v where k: "um q = Some (k, v)" "get_obj_slot k = int j" by blast
    have "q \<noteq> p" using j i(2) k p by auto
    with k show ?thesis by simp
  qed
  ultimately have "counted tab' (um(p := None)) (refs(p := 0))" using tab(2) D(5) unfolding counted_def by auto
  moreover have "put_unused_refobj_id (get_obj_slot h) tab = Ret tab'"
    using tab(1) i(3) by simp
  ultimately show thesis using u tab(4) by (intro that [of tab']) simp_all
qed

lemma counted_uninstall:
  assumes c: "counted tab um refs" and p: "um p = Some (h, u)" and ins: "installed tab h p"
  obtains tab' where "obj_id_uninstall (get_obj_slot h) p tab = Ret (0, tab')" "counted tab' um (refs(p := Suc (refs p)))" "\<not> installed tab' h p"
    "tab_entry tab' = (tab_entry tab)(nat (get_obj_slot h) := None)"
proof -
  note D = countedD [OF c]
  note E = D(2) [OF p, unfolded counted_entry_def, simplified]
  let ?i = "nat (get_obj_slot h)"
  have i: "get_obj_slot h = int ?i" "tab_entry tab ?i = Some p" using E ins by (auto simp: installed_def)
  from rh.uninstall_law [OF D(1) i(2)] obtain tab' where
    tab: "obj_id_uninstall (int ?i) p tab = Ret (0, tab')" "obj_table_ok tab'" "in_use tab' = in_use tab" "tab_entry tab' = (tab_entry tab)(?i := None)" by blast
  have gone: "\<not> installed tab' h p" using tab(4) by (simp add: installed_def)
  have "counted_entry tab' (refs(p := Suc (refs p))) q e" if q: "um q = Some e" for q e
  proof (cases "q = p")
    case True
    then have "e = (h, u)" using p q by simp
    then show ?thesis using True E tab(3,4) gone ins by (auto simp: counted_entry_def holders_def)
  next
    case False
    obtain k v where e: "e = (k, v)" by (cases e)
    from counted_slot_neq [OF c p q [unfolded e] False] D(2) [OF q] tab(3,4) False show ?thesis
      by (simp add: e counted_entry_def holders_def installed_def)
  qed
  moreover have "\<exists>k v. um q = Some (k, v) \<and> get_obj_slot k = int j" if "tab_entry tab' j = Some q" for j q
    using D(3) [of j q] that tab(4) by (auto split: if_splits)
  ultimately have "counted tab' um (refs(p := Suc (refs p)))" using tab(2) D(4,5) p unfolding counted_def by auto
  then show thesis using tab(1,4) i(1) gone by (intro that) simp_all
qed

lemma counted_create:
  assumes c: "counted tab um refs" and p: "um p = None"
  obtains (full) r where "get_unused_refobj_id m tab = Ret (r, tab)" "r < 0"
  | (new) i h tab1 tab' where "get_unused_refobj_id m tab = Ret (int i, tab1)" "obj_id_install (int i) p tab1 = Ret (h, tab')"
      "counted tab' (um(p \<mapsto> (h, 1))) refs" "installed tab' h p" "\<forall>q k u. um q = Some (k, u) \<longrightarrow> k \<noteq> h"
proof -
  note D = countedD [OF c]
  show thesis
  proof (cases rule: rh.create_law [OF D(1), where m = m and p = p, case_names full new])
    case (full r)
    then show thesis by (intro that(1)) simp_all
  next
    case (new i h tab1 tab')
    have slot: "nat (get_obj_slot k) \<noteq> i" if "um q = Some (k, v)" for q k v
      using D(2) [OF that] new(5) by (auto simp: counted_entry_def)
    have r: "refs p = 0" using D(5) [OF p] .
    have ins: "installed tab' h p" using new(4,8) by (simp add: installed_def)
    have "counted_entry tab' refs q e" if "(um(p \<mapsto> (h, 1))) q = Some e" for q e
    proof (cases "q = p")
      case True
      moreover have "0 \<le> get_obj_slot h" "nat (get_obj_slot h) = i" using new(4) by simp_all
      ultimately show ?thesis using that r ins new(7,8) by (auto simp: counted_entry_def holders_def)
    next
      case False
      obtain k v where e: "e = (k, v)" by (cases e)
      have q: "um q = Some (k, v)" using that False e by simp
      from D(2) [OF q] slot [OF q] new(7,8) show ?thesis by (simp add: e counted_entry_def holders_def installed_def)
    qed
    moreover have "handles_apart (um(p \<mapsto> (h, 1)))" unfolding handles_apart_def
    proof (intro allI impI)
      fix a b k v l w
      assume ab: "(um(p \<mapsto> (h, 1))) a = Some (k, v)" "(um(p \<mapsto> (h, 1))) b = Some (l, w)" "get_obj_slot k = get_obj_slot l"
      have i: "nat (get_obj_slot h) = i" using new(4) by simp
      show "a = b"
      proof (cases "a = p \<or> b = p")
        case True
        with ab i slot [of a k v] slot [of b l w] show ?thesis by (auto split: if_splits)
      next
        case False
        with ab handles_apartD [OF D(4), of a k v b l w] show ?thesis by simp
      qed
    qed
    moreover have "\<exists>k v. (um(p \<mapsto> (h, 1))) q = Some (k, v) \<and> get_obj_slot k = int j" if "tab_entry tab' j = Some q" for j q
      using that D(3) [of j q] new(4,8) p by (cases "j = i") auto
    ultimately have "counted tab' (um(p \<mapsto> (h, 1))) refs" using new(3) D(5) unfolding counted_def by auto
    moreover have "\<forall>q k u. um q = Some (k, u) \<longrightarrow> k \<noteq> h" using slot new(4) by fastforce
    ultimately show thesis using new(1,2) ins by (intro that(2)) simp_all
  qed
qed

end
