(* ===== verification/Refobj.thy ===== *)
theory Refobj
  imports Use_Count "HOL-Library.AList"
begin

text \<open>
  Reference objects, \<^verbatim>\<open>kernel/refobj.c\<close> and \<^verbatim>\<open>include/kernel/refobj.h\<close>: an object is found by its handle, held by use
  counts, locked for reading or writing, and destroyed. The tree of per-thread nodes of an object is an association list by
  thread (its order is never used); allocation of a node does not fail (\<^verbatim>\<open>aosl_malloc_impl\<close> aborts first). The object's
  read-write lock is the number of its readers and whether a writer has it; a thread that would have to wait for it does
  not return within the call, outcome \<open>NoFuel\<close>.
\<close>

subsection \<open>Data\<close>

record robj_thread_node =
  tn_usage :: u32
  get_count :: u32
  lock_count :: u32
  active_ts :: u64

record stop_lock =
  readers :: nat
  writer :: bool

record refobj =
  r_arg :: ptr
  r_dtor :: ptr
  r_id :: u32
  r_usage :: u64
  r_lock :: stop_lock
  r_flags :: u32
  thread_nodes :: "(u64 \<times> robj_thread_node) list"

record ref_sys =
  robjs :: "ptr \<rightharpoonup> refobj"
  ref_table :: "ptr obj_table"
  ref_dtors :: "(ptr \<times> ptr) list"
  ref_errno :: int

text \<open>
  The calling thread: its identity, the clock it reads, the objects whose functions are running on its queue (\<^verbatim>\<open>refobj_on_this_q\<close>),
  and which thread nodes the clean-up traversal comes past: it erases while it traverses, which moves nodes, so it may miss some.
\<close>

record ref_thread =
  self :: u64
  tick_now :: u64
  on_this_q :: "ptr \<Rightarrow> bool"
  visited :: "u64 \<Rightarrow> bool"

definition REFOBJ_DESTROYED :: u32 where "REFOBJ_DESTROYED = 0x80000000"
definition REFOBJ_MODIFY_ASYNC :: u32 where "REFOBJ_MODIFY_ASYNC = 0x40000000"
definition REFOBJ_RDLOCK_RECURSIVE :: u32 where "REFOBJ_RDLOCK_RECURSIVE = 0x20000000"
definition REFOBJ_CALLER_FREE :: u32 where "REFOBJ_CALLER_FREE = 0x10000000"

definition refobj_is_destroyed :: "refobj \<Rightarrow> bool" where
  "refobj_is_destroyed ro \<longleftrightarrow> r_flags ro AND REFOBJ_DESTROYED \<noteq> 0"

definition refobj_set_destroyed :: "refobj \<Rightarrow> refobj" where
  "refobj_set_destroyed ro = ro\<lparr>r_flags := r_flags ro OR REFOBJ_DESTROYED\<rparr>"

definition refobj_is_modify_async :: "refobj \<Rightarrow> bool" where
  "refobj_is_modify_async ro \<longleftrightarrow> r_flags ro AND REFOBJ_MODIFY_ASYNC \<noteq> 0"

definition refobj_is_rdlock_recursive :: "refobj \<Rightarrow> bool" where
  "refobj_is_rdlock_recursive ro \<longleftrightarrow> r_flags ro AND REFOBJ_RDLOCK_RECURSIVE \<noteq> 0"

definition refobj_is_caller_free :: "refobj \<Rightarrow> bool" where
  "refobj_is_caller_free ro \<longleftrightarrow> r_flags ro AND REFOBJ_CALLER_FREE \<noteq> 0"

definition thread_rdlock_count :: "robj_thread_node \<Rightarrow> u32" where
  "thread_rdlock_count n = lock_count n AND 0x7fffffff"

definition thread_wrlocked :: "robj_thread_node \<Rightarrow> bool" where
  "thread_wrlocked n \<longleftrightarrow> lock_count n AND 0x80000000 \<noteq> 0"

definition THREAD_MAX_IDLE_TIME :: int where "THREAD_MAX_IDLE_TIME = 60000"
definition THREAD_CLEANUP_THRESHOLD :: nat where "THREAD_CLEANUP_THRESHOLD = 64"

subsection \<open>The lock of an object\<close>

definition rdlock_raw :: "refobj \<Rightarrow> refobj exec" where
  "rdlock_raw ro = (if writer (r_lock ro) then NoFuel else Ret (ro\<lparr>r_lock := (r_lock ro)\<lparr>readers := Suc (readers (r_lock ro))\<rparr>\<rparr>))"

definition rdunlock_raw :: "refobj \<Rightarrow> refobj exec" where
  "rdunlock_raw ro = (if readers (r_lock ro) = 0 then Fault else Ret (ro\<lparr>r_lock := (r_lock ro)\<lparr>readers := readers (r_lock ro) - 1\<rparr>\<rparr>))"

definition wrlock_raw :: "refobj \<Rightarrow> refobj exec" where
  "wrlock_raw ro = (if writer (r_lock ro) \<or> 0 < readers (r_lock ro) then NoFuel else Ret (ro\<lparr>r_lock := (r_lock ro)\<lparr>writer := True\<rparr>\<rparr>))"

definition wrunlock_raw :: "refobj \<Rightarrow> refobj exec" where
  "wrunlock_raw ro = (if writer (r_lock ro) then Ret (ro\<lparr>r_lock := (r_lock ro)\<lparr>writer := False\<rparr>\<rparr>) else Fault)"

text \<open>\<^verbatim>\<open>k_rwlock_rd2wrlock\<close> gives the read lock back and takes the write lock; \<^verbatim>\<open>k_rwlock_wr2rdlock\<close> is the way back.\<close>

definition rd2wrlock_raw :: "refobj \<Rightarrow> refobj exec" where
  "rd2wrlock_raw ro = ebind (rdunlock_raw ro) wrlock_raw"

definition wr2rdlock_raw :: "refobj \<Rightarrow> refobj exec" where
  "wr2rdlock_raw ro = ebind (wrunlock_raw ro) rdlock_raw"

subsection \<open>Thread nodes\<close>

definition upd_node :: "ref_thread \<Rightarrow> (robj_thread_node \<Rightarrow> robj_thread_node) \<Rightarrow> refobj \<Rightarrow> refobj exec" where
  "upd_node thr f ro = (case map_of (thread_nodes ro) (self thr) of
       None \<Rightarrow> Fault
     | Some n \<Rightarrow> Ret (ro\<lparr>thread_nodes := AList.update (self thr) (f n) (thread_nodes ro)\<rparr>))"

definition this_node :: "ref_thread \<Rightarrow> refobj \<Rightarrow> robj_thread_node exec" where
  "this_node thr ro = (case map_of (thread_nodes ro) (self thr) of None \<Rightarrow> Fault | Some n \<Rightarrow> Ret n)"

text \<open>The result says whether the thread has a node; it then has one more use.\<close>

definition robj_this_thread_node_get :: "ref_thread \<Rightarrow> bool \<Rightarrow> refobj \<Rightarrow> bool \<times> refobj" where
  "robj_this_thread_node_get thr create ro = (case map_of (thread_nodes ro) (self thr) of
       Some n \<Rightarrow> (True, ro\<lparr>thread_nodes := AList.update (self thr) (n\<lparr>tn_usage := tn_usage n + 1, active_ts := tick_now thr\<rparr>) (thread_nodes ro)\<rparr>)
     | None \<Rightarrow> if create
         then (True, ro\<lparr>thread_nodes := AList.update (self thr)
                 \<lparr>tn_usage = 2, get_count = 0, lock_count = 0, active_ts = tick_now thr\<rparr> (thread_nodes ro)\<rparr>)
         else (False, ro))"

text \<open>A node whose use count drops to 0 is freed; the tree would then hold a dangling node.\<close>

definition robj_this_thread_node_put :: "ref_thread \<Rightarrow> refobj \<Rightarrow> refobj exec" where
  "robj_this_thread_node_put thr ro =
     ebind (this_node thr ro) (\<lambda>n. if tn_usage n - 1 = 0 then Fault else upd_node thr (\<lambda>n. n\<lparr>tn_usage := tn_usage n - 1\<rparr>) ro)"

definition check_erase_node :: "ref_thread \<Rightarrow> robj_thread_node \<Rightarrow> bool" where
  "check_erase_node thr n \<longleftrightarrow> tn_usage n = 1 \<and> get_count n = 0 \<and> lock_count n = 0
     \<and> THREAD_MAX_IDLE_TIME \<le> sint (ucast (tick_now thr - active_ts n) :: u32)"

definition refobj_lock_threads_cleanup :: "ref_thread \<Rightarrow> refobj \<Rightarrow> refobj" where
  "refobj_lock_threads_cleanup thr ro =
     (if THREAD_CLEANUP_THRESHOLD < length (thread_nodes ro)
      then ro\<lparr>thread_nodes := filter (\<lambda>(t, n). \<not> (visited thr t \<and> check_erase_node thr n)) (thread_nodes ro)\<rparr>
      else ro)"

definition refobj_thread_rdlock :: "ref_thread \<Rightarrow> refobj \<Rightarrow> refobj exec" where
  "refobj_thread_rdlock thr ro =
     (let (_, ro) = robj_this_thread_node_get thr True ro in
      ebind (this_node thr ro) (\<lambda>n.
      if thread_wrlocked n then Abort
      else if \<not> refobj_is_rdlock_recursive ro \<and> 0 < thread_rdlock_count n then Abort
      else
        ebind (upd_node thr (\<lambda>n. n\<lparr>lock_count := lock_count n + 1\<rparr>) ro) (\<lambda>ro.
        ebind (this_node thr ro) (\<lambda>n.
        ebind (robj_this_thread_node_put thr ro) (\<lambda>ro.
        if thread_rdlock_count n = 1 then rdlock_raw ro else Ret ro)))))"

definition refobj_thread_rdunlock :: "ref_thread \<Rightarrow> refobj \<Rightarrow> refobj exec" where
  "refobj_thread_rdunlock thr ro =
     (let (found, ro) = robj_this_thread_node_get thr False ro in
      if \<not> found then Abort
      else
        ebind (upd_node thr (\<lambda>n. n\<lparr>lock_count := lock_count n - 1\<rparr>) ro) (\<lambda>ro.
        ebind (this_node thr ro) (\<lambda>n.
        ebind (robj_this_thread_node_put thr ro) (\<lambda>ro.
        ebind (if thread_rdlock_count n = 0 then rdunlock_raw ro else Ret ro) (\<lambda>ro.
        Ret (refobj_lock_threads_cleanup thr ro))))))"

definition refobj_thread_wrlock :: "ref_thread \<Rightarrow> bool \<Rightarrow> refobj \<Rightarrow> refobj exec" where
  "refobj_thread_wrlock thr rdlocked ro =
     (let (_, ro) = robj_this_thread_node_get thr True ro in
      ebind (this_node thr ro) (\<lambda>n.
      if lock_count n \<noteq> 0 then Abort
      else
        ebind (upd_node thr (\<lambda>n. n\<lparr>lock_count := 0x80000000\<rparr>) ro) (\<lambda>ro.
        ebind (robj_this_thread_node_put thr ro) (\<lambda>ro.
        if rdlocked then rd2wrlock_raw ro else wrlock_raw ro))))"

definition refobj_thread_wrunlock :: "ref_thread \<Rightarrow> bool \<Rightarrow> refobj \<Rightarrow> refobj exec" where
  "refobj_thread_wrunlock thr rdlocked ro =
     (let (found, ro) = robj_this_thread_node_get thr False ro in
      if \<not> found then Abort
      else
        ebind (upd_node thr (\<lambda>n. n\<lparr>lock_count := 0\<rparr>) ro) (\<lambda>ro.
        ebind (robj_this_thread_node_put thr ro) (\<lambda>ro.
        ebind (if rdlocked then wr2rdlock_raw ro else wrunlock_raw ro) (\<lambda>ro.
        Ret (refobj_lock_threads_cleanup thr ro)))))"

subsection \<open>Creation, look-up, release\<close>

definition robj_at :: "ptr \<Rightarrow> ref_sys \<Rightarrow> refobj exec" where
  "robj_at p s = (case robjs s p of None \<Rightarrow> Fault | Some ro \<Rightarrow> Ret ro)"

definition upd_robj :: "ptr \<Rightarrow> (refobj \<Rightarrow> refobj exec) \<Rightarrow> ref_sys \<Rightarrow> ref_sys exec" where
  "upd_robj p f s = ebind (robj_at p s) (\<lambda>ro. ebind (f ro) (\<lambda>ro. Ret (s\<lparr>robjs := (robjs s)(p \<mapsto> ro)\<rparr>)))"

definition refobj_ctor :: "ptr \<Rightarrow> ptr \<Rightarrow> bool \<Rightarrow> bool \<Rightarrow> bool \<Rightarrow> refobj" where
  "refobj_ctor arg dt modify_async rdlock_recursive caller_free =
     \<lparr>r_arg = arg, r_dtor = dt, r_id = 0, r_usage = 1, r_lock = \<lparr>readers = 0, writer = False\<rparr>,
      r_flags = (if modify_async then REFOBJ_MODIFY_ASYNC else 0) OR (if rdlock_recursive then REFOBJ_RDLOCK_RECURSIVE else 0)
        OR (if caller_free then REFOBJ_CALLER_FREE else 0),
      thread_nodes = []\<rparr>"

text \<open>\<open>mem\<close> is what \<^verbatim>\<open>aosl_malloc\<close> returns, \<open>gm\<close> the allocations of a growing identifier table.\<close>

definition refobj_create ::
  "ptr option \<Rightarrow> grow_mem \<Rightarrow> ptr \<Rightarrow> ptr \<Rightarrow> bool \<Rightarrow> bool \<Rightarrow> bool \<Rightarrow> ref_sys \<Rightarrow> ((int + ptr) \<times> ref_sys) exec" where
  "refobj_create mem gm arg dt modify_async rdlock_recursive caller_free s =
     (case mem of
        None \<Rightarrow> Ret (Inl (- AOSL_ENOMEM), s)
      | Some p \<Rightarrow>
          let ro = refobj_ctor arg dt modify_async rdlock_recursive caller_free in
          ebind (get_unused_refobj_id gm (ref_table s)) (\<lambda>(ident, tab). let s = s\<lparr>ref_table := tab\<rparr> in
          if ident < 0 then Ret (Inl ident, s)
          else ebind (obj_id_install ident p (ref_table s)) (\<lambda>(h, tab).
            Ret (Inr p, s\<lparr>ref_table := tab, robjs := (robjs s)(p \<mapsto> ro\<lparr>r_id := h\<rparr>)\<rparr>))))"

text \<open>The user's destructor runs before the object's own, which frees the thread nodes with it.\<close>

definition refobj_free :: "ptr \<Rightarrow> ref_sys \<Rightarrow> ref_sys exec" where
  "refobj_free p s =
     ebind (robj_at p s) (\<lambda>ro.
     let s = (if r_dtor ro \<noteq> 0 then s\<lparr>ref_dtors := ref_dtors s @ [(r_dtor ro, r_arg ro)]\<rparr> else s) in
     ebind (put_unused_refobj_id (get_obj_slot (r_id ro)) (ref_table s)) (\<lambda>tab.
     Ret (s\<lparr>ref_table := tab, robjs := (robjs s)(p := None)\<rparr>)))"

definition refobj_put_raw :: "ptr \<Rightarrow> ref_sys \<Rightarrow> ref_sys exec" where
  "refobj_put_raw p s =
     ebind (robj_at p s) (\<lambda>ro.
     ebind (upd_robj p (\<lambda>ro. Ret (ro\<lparr>r_usage := r_usage ro - 1\<rparr>)) s) (\<lambda>s.
     if r_usage ro - 1 = 0 then refobj_free p s else Ret s))"

text \<open>How often the thread holds the object, counted for objects that their destroyer frees.\<close>

definition thread_inc_get_count :: "ref_thread \<Rightarrow> refobj \<Rightarrow> refobj exec" where
  "thread_inc_get_count thr ro =
     (let (_, ro) = robj_this_thread_node_get thr True ro in
      ebind (upd_node thr (\<lambda>n. n\<lparr>get_count := get_count n + 1\<rparr>) ro) (robj_this_thread_node_put thr))"

definition thread_dec_get_count :: "ref_thread \<Rightarrow> refobj \<Rightarrow> refobj exec" where
  "thread_dec_get_count thr ro =
     (let (found, ro) = robj_this_thread_node_get thr False ro in
      if \<not> found then Abort
      else ebind (upd_node thr (\<lambda>n. n\<lparr>get_count := get_count n - 1\<rparr>) ro) (robj_this_thread_node_put thr))"

definition refobj_get_raw :: "ref_thread \<Rightarrow> bool \<Rightarrow> u32 \<Rightarrow> ref_sys \<Rightarrow> (ptr \<times> ref_sys) exec" where
  "refobj_get_raw thr inc_get_count ref s =
     (let slot = get_obj_slot ref; tab = ref_table s in
      if slot < 0 then Ret (0, s)
      else ebind (if slot < pool_size tab then
               ebind (arr_get (pool_table tab) (nat slot)) (\<lambda>e.
               case e of
                 None \<Rightarrow> Ret (0, s)
               | Some p \<Rightarrow> ebind (robj_at p s) (\<lambda>ro.
                   if r_id ro = ref then ebind (upd_robj p (\<lambda>ro. Ret (ro\<lparr>r_usage := r_usage ro + 1\<rparr>)) s) (\<lambda>s. Ret (p, s))
                   else Ret (0, s)))
             else Ret (0, s)) (\<lambda>(p, s).
      if p \<noteq> 0 then
        ebind (robj_at p s) (\<lambda>ro.
        if inc_get_count \<and> refobj_is_caller_free ro then
          ebind (upd_robj p (thread_inc_get_count thr) s) (\<lambda>s. Ret (p, s))
        else Ret (p, s))
      else Ret (p, s)))"

definition refobj_get :: "ref_thread \<Rightarrow> u32 \<Rightarrow> ref_sys \<Rightarrow> (ptr \<times> ref_sys) exec" where
  "refobj_get thr ref s = refobj_get_raw thr True ref s"

definition refobj_put :: "ref_thread \<Rightarrow> ptr \<Rightarrow> ref_sys \<Rightarrow> ref_sys exec" where
  "refobj_put thr p s =
     ebind (robj_at p s) (\<lambda>ro.
     ebind (if refobj_is_caller_free ro then
              upd_robj p (thread_dec_get_count thr) s
            else Ret s) (refobj_put_raw p))"

subsection \<open>Locking and running\<close>

definition no_lock_needed :: "ref_thread \<Rightarrow> ptr \<Rightarrow> refobj \<Rightarrow> bool" where
  "no_lock_needed thr p ro \<longleftrightarrow> on_this_q thr p \<and> \<not> refobj_is_modify_async ro"

definition refobj_rdlock :: "ref_thread \<Rightarrow> ptr \<Rightarrow> ref_sys \<Rightarrow> (int \<times> ref_sys) exec" where
  "refobj_rdlock thr p s =
     ebind (robj_at p s) (\<lambda>ro.
     if no_lock_needed thr p ro then Ret (0, s)
     else
       ebind (upd_robj p (refobj_thread_rdlock thr) s) (\<lambda>s.
       ebind (robj_at p s) (\<lambda>ro.
       if refobj_is_destroyed ro then ebind (upd_robj p (refobj_thread_rdunlock thr) s) (\<lambda>s. Ret (- AOSL_EPERM, s))
       else Ret (0, s))))"

definition refobj_rdunlock :: "ref_thread \<Rightarrow> ptr \<Rightarrow> ref_sys \<Rightarrow> ref_sys exec" where
  "refobj_rdunlock thr p s =
     ebind (robj_at p s) (\<lambda>ro. if no_lock_needed thr p ro then Ret s else upd_robj p (refobj_thread_rdunlock thr) s)"

definition refobj_wrlock :: "ref_thread \<Rightarrow> bool \<Rightarrow> ptr \<Rightarrow> ref_sys \<Rightarrow> (int \<times> ref_sys) exec" where
  "refobj_wrlock thr rdlocked p s =
     ebind (upd_robj p (refobj_thread_wrlock thr rdlocked) s) (\<lambda>s.
     ebind (robj_at p s) (\<lambda>ro.
     if refobj_is_destroyed ro then
       ebind (upd_robj p (refobj_thread_wrunlock thr rdlocked) s) (\<lambda>s. if rdlocked then Abort else Ret (- AOSL_EPERM, s))
     else Ret (0, s)))"

definition refobj_wrunlock :: "ref_thread \<Rightarrow> bool \<Rightarrow> ptr \<Rightarrow> ref_sys \<Rightarrow> ref_sys exec" where
  "refobj_wrunlock thr rdlocked p s = upd_robj p (refobj_thread_wrunlock thr rdlocked) s"

definition AOSL_REF_INVALID :: u32 where "AOSL_REF_INVALID = - 1"

definition aosl_ref_create ::
  "ptr option \<Rightarrow> grow_mem \<Rightarrow> ptr \<Rightarrow> ptr \<Rightarrow> bool \<Rightarrow> bool \<Rightarrow> bool \<Rightarrow> ref_sys \<Rightarrow> (u32 \<times> ref_sys) exec" where
  "aosl_ref_create mem gm arg dt modify_async recursive caller_free s =
     ebind (refobj_create mem gm arg dt modify_async recursive caller_free s) (\<lambda>(r, s).
     case r of
       Inl err \<Rightarrow> Ret (AOSL_REF_INVALID, s\<lparr>ref_errno := - err\<rparr>)
     | Inr p \<Rightarrow> ebind (robj_at p s) (\<lambda>ro. Ret (r_id ro, s)))"

datatype refobj_op_type = REFOBJ_NOLOCK_OP | REFOBJ_RDLOCK_OP | REFOBJ_WRLOCK_OP

text \<open>The function to run is given the object's argument; its variable arguments are part of it.\<close>

type_synonym ref_func = "ptr \<Rightarrow> ref_sys \<Rightarrow> ref_sys exec"

definition refobj_op_argv :: "ref_thread \<Rightarrow> refobj_op_type \<Rightarrow> ref_func \<Rightarrow> ptr \<Rightarrow> ref_sys \<Rightarrow> (int \<times> ref_sys) exec" where
  "refobj_op_argv thr op f p s =
     ebind (robj_at p s) (\<lambda>ro. let rdlocked = (op = REFOBJ_WRLOCK_OP \<and> no_lock_needed thr p ro) in
     ebind (case op of
              REFOBJ_WRLOCK_OP \<Rightarrow> refobj_wrlock thr rdlocked p s
            | REFOBJ_RDLOCK_OP \<Rightarrow> refobj_rdlock thr p s
            | REFOBJ_NOLOCK_OP \<Rightarrow> Ret (0, s)) (\<lambda>(err, s).
     if err < 0 then Ret (err, s)
     else
       ebind (robj_at p s) (\<lambda>ro.
       ebind (f (r_arg ro) s) (\<lambda>s.
       ebind (case op of
                REFOBJ_WRLOCK_OP \<Rightarrow> refobj_wrunlock thr rdlocked p s
              | REFOBJ_RDLOCK_OP \<Rightarrow> refobj_rdunlock thr p s
              | REFOBJ_NOLOCK_OP \<Rightarrow> Ret s) (\<lambda>s.
       Ret (0, s))))))"

definition ref_op_argv :: "ref_thread \<Rightarrow> refobj_op_type \<Rightarrow> ref_func \<Rightarrow> u32 \<Rightarrow> ref_sys \<Rightarrow> (int \<times> ref_sys) exec" where
  "ref_op_argv thr op f ref s =
     ebind (refobj_get thr ref s) (\<lambda>(p, s).
     if p = 0 then Ret (- AOSL_EINVAL, s)
     else
       ebind (refobj_op_argv thr op f p s) (\<lambda>(err, s).
       ebind (refobj_put thr p s) (\<lambda>s. Ret (err, s))))"

definition AOSL_FREE_ONLY_OBJ :: ptr where "AOSL_FREE_ONLY_OBJ = 1"

definition refobj_op_args :: "ref_thread \<Rightarrow> refobj_op_type \<Rightarrow> ref_func \<Rightarrow> ptr \<Rightarrow> ref_sys \<Rightarrow> (int \<times> ref_sys) exec" where
  "refobj_op_args thr op f p s = (if p = AOSL_FREE_ONLY_OBJ then Ret (- AOSL_EINVAL, s) else refobj_op_argv thr op f p s)"

definition ref_return_err :: "int \<times> ref_sys \<Rightarrow> (int \<times> ref_sys) exec" where
  "ref_return_err r = (case r of (err, s) \<Rightarrow>
     if - 4095 \<le> err \<and> err < 0 then Ret (- 1, s\<lparr>ref_errno := - err\<rparr>) else Ret (err, s))"

definition aosl_ref_hold :: "ref_thread \<Rightarrow> ref_func \<Rightarrow> u32 \<Rightarrow> ref_sys \<Rightarrow> (int \<times> ref_sys) exec" where
  "aosl_ref_hold thr f ref s = ebind (ref_op_argv thr REFOBJ_NOLOCK_OP f ref s) ref_return_err"

definition aosl_ref_read :: "ref_thread \<Rightarrow> ref_func \<Rightarrow> u32 \<Rightarrow> ref_sys \<Rightarrow> (int \<times> ref_sys) exec" where
  "aosl_ref_read thr f ref s = ebind (ref_op_argv thr REFOBJ_RDLOCK_OP f ref s) ref_return_err"

definition aosl_ref_write :: "ref_thread \<Rightarrow> ref_func \<Rightarrow> u32 \<Rightarrow> ref_sys \<Rightarrow> (int \<times> ref_sys) exec" where
  "aosl_ref_write thr f ref s = ebind (ref_op_argv thr REFOBJ_WRLOCK_OP f ref s) ref_return_err"

definition aosl_refobj_read :: "ref_thread \<Rightarrow> ref_func \<Rightarrow> ptr \<Rightarrow> ref_sys \<Rightarrow> (int \<times> ref_sys) exec" where
  "aosl_refobj_read thr f p s = ebind (refobj_op_args thr REFOBJ_RDLOCK_OP f p s) ref_return_err"

definition aosl_refobj_arg :: "ptr \<Rightarrow> ref_sys \<Rightarrow> ptr exec" where
  "aosl_refobj_arg p s = ebind (robj_at p s) (\<lambda>ro. Ret (r_arg ro))"

definition aosl_refobj_id :: "ptr \<Rightarrow> ref_sys \<Rightarrow> u32 exec" where
  "aosl_refobj_id p s = ebind (robj_at p s) (\<lambda>ro. Ret (r_id ro))"

subsection \<open>Destruction\<close>

text \<open>
  The last loop sleeps until the other holders are gone: \<open>env\<close> is what the other threads do during a sleep, and each
  round takes one unit of fuel.
\<close>

fun wait_holders :: "nat \<Rightarrow> (ref_sys \<Rightarrow> ref_sys) \<Rightarrow> ptr \<Rightarrow> u32 \<Rightarrow> ref_sys \<Rightarrow> ref_sys exec" where
  "wait_holders 0 env p cnt s = NoFuel"
| "wait_holders (Suc fuel) env p cnt s =
     ebind (robj_at p s) (\<lambda>ro.
     if 1 + sint cnt < sint (r_usage ro) then wait_holders fuel env p cnt (env s) else Ret s)"

definition mark_destroyed :: "ptr \<Rightarrow> ref_sys \<Rightarrow> (int \<times> ref_sys) exec" where
  "mark_destroyed p s =
     ebind (robj_at p s) (\<lambda>ro.
     if \<not> refobj_is_destroyed ro then
       ebind (upd_robj p wrlock_raw s) (\<lambda>s.
       ebind (robj_at p s) (\<lambda>ro. let err = (if refobj_is_destroyed ro then - AOSL_EPERM else 0) in
       ebind (upd_robj p (\<lambda>ro. wrunlock_raw (refobj_set_destroyed ro)) s) (\<lambda>s. Ret (err, s))))
     else Ret (- AOSL_EPERM, s))"

definition ref_delete_wait :: "nat \<Rightarrow> (ref_sys \<Rightarrow> ref_sys) \<Rightarrow> ptr \<Rightarrow> u32 \<Rightarrow> ref_sys \<Rightarrow> ref_sys exec" where
  "ref_delete_wait fuel env p cnt s =
     ebind (refobj_put_raw p s) (\<lambda>s.
     ebind (robj_at p s) (\<lambda>ro.
     if refobj_is_caller_free ro \<and> \<not> refobj_is_modify_async ro then wait_holders fuel env p cnt s else Ret s))"

definition aosl_ref_destroy :: "nat \<Rightarrow> (ref_sys \<Rightarrow> ref_sys) \<Rightarrow> ref_thread \<Rightarrow> u32 \<Rightarrow> bool \<Rightarrow> ref_sys \<Rightarrow> (int \<times> ref_sys) exec" where
  "aosl_ref_destroy fuel env thr ref do_delete s =
     ebind (refobj_get_raw thr False ref s) (\<lambda>(p, s).
     if p = 0 then ref_return_err (- AOSL_ENOENT, s)
     else
       ebind (robj_at p s) (\<lambda>ro.
       if no_lock_needed thr p ro then Abort
       else
         let (found, ro) = robj_this_thread_node_get thr False ro in
         ebind (if found then ebind (this_node thr ro) (\<lambda>n. if 0 < thread_rdlock_count n then Abort
                               else ebind (robj_this_thread_node_put thr ro) (\<lambda>ro. Ret (get_count n, ro)))
                else Ret (0, ro)) (\<lambda>(cnt, ro).
         let s = s\<lparr>robjs := (robjs s)(p \<mapsto> ro)\<rparr> in
         ebind (if do_delete then ebind (obj_id_uninstall (get_obj_slot ref) p (ref_table s)) (\<lambda>(err, tab). Ret (err, s\<lparr>ref_table := tab\<rparr>))
                else Ret (0, s)) (\<lambda>(err, s).
         ebind (if err < 0 then Ret (err, s)
                else ebind (mark_destroyed p s) (\<lambda>(err, s).
                  if do_delete then ebind (ref_delete_wait fuel env p cnt s) (\<lambda>s. Ret (0, s)) else Ret (err, s))) (\<lambda>(err, s).
         ebind (refobj_put_raw p s) (\<lambda>s. ref_return_err (err, s)))))))"

subsection \<open>Invariant\<close>

text \<open>Between calls a thread node has one use, the tree's.\<close>

definition nodes_ok :: "refobj \<Rightarrow> bool" where
  "nodes_ok ro \<longleftrightarrow> (\<forall>(t, n) \<in> set (thread_nodes ro). tn_usage n = 1)"

definition use_of :: "ref_sys \<Rightarrow> use_map" where
  "use_of s = (\<lambda>p. map_option (\<lambda>ro. (r_id ro, r_usage ro)) (robjs s p))"

definition refs_ok :: "ref_sys \<Rightarrow> (ptr \<Rightarrow> nat) \<Rightarrow> bool" where
  "refs_ok s refs \<longleftrightarrow> counted (ref_table s) (use_of s) refs \<and> robjs s 0 = None \<and> (\<forall>p ro. robjs s p = Some ro \<longrightarrow> nodes_ok ro)"

text \<open>What the lock functions leave alone.\<close>

definition same_robj :: "refobj \<Rightarrow> refobj \<Rightarrow> bool" where
  "same_robj ro ro' \<longleftrightarrow> r_id ro' = r_id ro \<and> r_usage ro' = r_usage ro \<and> r_arg ro' = r_arg ro \<and> r_dtor ro' = r_dtor ro
     \<and> (nodes_ok ro \<longrightarrow> nodes_ok ro')"

lemma set_alist_update: "set (AList.update k v al) \<subseteq> insert (k, v) (set al)"
  by (induction al) auto

lemma nodes_ok_update: "nodes_ok ro \<Longrightarrow> tn_usage n = 1 \<Longrightarrow> nodes_ok (ro\<lparr>thread_nodes := AList.update t n (thread_nodes ro)\<rparr>)"
  using set_alist_update [of t n "thread_nodes ro"] by (fastforce simp: nodes_ok_def)

lemma nodes_okD: "nodes_ok ro \<Longrightarrow> map_of (thread_nodes ro) t = Some n \<Longrightarrow> tn_usage n = 1"
  by (auto simp: nodes_ok_def dest: map_of_SomeD)

text \<open>The node of the calling thread, taken, changed by \<open>f\<close> and given back.\<close>

definition with_node :: "ref_thread \<Rightarrow> robj_thread_node \<Rightarrow> refobj \<Rightarrow> refobj" where
  "with_node thr n ro = ro\<lparr>thread_nodes := AList.update (self thr) n (thread_nodes ro)\<rparr>"

definition node_of :: "ref_thread \<Rightarrow> refobj \<Rightarrow> robj_thread_node" where
  "node_of thr ro = (case map_of (thread_nodes ro) (self thr) of
     Some n \<Rightarrow> n\<lparr>active_ts := tick_now thr\<rparr> | None \<Rightarrow> \<lparr>tn_usage = 1, get_count = 0, lock_count = 0, active_ts = tick_now thr\<rparr>)"

lemma with_node_sel [simp]:
  "r_id (with_node thr n ro) = r_id ro" "r_usage (with_node thr n ro) = r_usage ro" "r_arg (with_node thr n ro) = r_arg ro"
  "r_dtor (with_node thr n ro) = r_dtor ro" "r_flags (with_node thr n ro) = r_flags ro" "r_lock (with_node thr n ro) = r_lock ro"
  "map_of (thread_nodes (with_node thr n ro)) t = (if t = self thr then Some n else map_of (thread_nodes ro) t)"
  by (simp_all add: with_node_def update_conv)

lemma with_node_twice [simp]: "with_node thr n (with_node thr m ro) = with_node thr n ro"
  by (simp add: with_node_def)

lemma node_upd_order [simp]:
  "(n :: robj_thread_node)\<lparr>lock_count := a, tn_usage := b\<rparr> = n\<lparr>tn_usage := b, lock_count := a\<rparr>"
  "n\<lparr>get_count := a, tn_usage := b\<rparr> = n\<lparr>tn_usage := b, get_count := a\<rparr>"
  "n\<lparr>active_ts := c, tn_usage := b\<rparr> = n\<lparr>tn_usage := b, active_ts := c\<rparr>"
  "tn_usage n = b \<Longrightarrow> n\<lparr>tn_usage := b\<rparr> = n"
  by simp_all

lemma node_get_eq:
  "create \<or> map_of (thread_nodes ro) (self thr) \<noteq> None \<Longrightarrow>
   robj_this_thread_node_get thr create ro = (True, with_node thr ((node_of thr ro)\<lparr>tn_usage := tn_usage (node_of thr ro) + 1\<rparr>) ro)"
  by (auto simp: robj_this_thread_node_get_def with_node_def node_of_def split: option.splits)

lemma node_get_none:
  "map_of (thread_nodes ro) (self thr) = None \<Longrightarrow> robj_this_thread_node_get thr False ro = (False, ro)"
  by (simp add: robj_this_thread_node_get_def)

lemma this_node_with [simp]: "this_node thr (with_node thr n ro) = Ret n"
  by (simp add: this_node_def)

lemma upd_node_with [simp]: "upd_node thr f (with_node thr n ro) = Ret (with_node thr (f n) ro)"
  by (simp add: upd_node_def) (simp add: with_node_def)

lemma node_put_with [simp]:
  "tn_usage n - 1 \<noteq> 0 \<Longrightarrow> robj_this_thread_node_put thr (with_node thr n ro) = Ret (with_node thr (n\<lparr>tn_usage := tn_usage n - 1\<rparr>) ro)"
  by (simp add: robj_this_thread_node_put_def)

lemma node_of_usage: "nodes_ok ro \<Longrightarrow> tn_usage (node_of thr ro) = 1"
  by (auto simp: node_of_def dest: nodes_okD split: option.splits)

lemma with_node_ok: "nodes_ok ro \<Longrightarrow> tn_usage n = 1 \<Longrightarrow> nodes_ok (with_node thr n ro)"
  unfolding with_node_def by (rule nodes_ok_update)

lemma raw_lock_same:
  "rdlock_raw ro = Ret ro' \<Longrightarrow> same_robj ro ro'" "rdunlock_raw ro = Ret ro' \<Longrightarrow> same_robj ro ro'"
  "wrlock_raw ro = Ret ro' \<Longrightarrow> same_robj ro ro'" "wrunlock_raw ro = Ret ro' \<Longrightarrow> same_robj ro ro'"
  by (auto simp: rdlock_raw_def rdunlock_raw_def wrlock_raw_def wrunlock_raw_def same_robj_def nodes_ok_def split: if_splits)

lemma same_robj_trans: "same_robj ro ro' \<Longrightarrow> same_robj ro' ro'' \<Longrightarrow> same_robj ro ro''"
  by (simp add: same_robj_def)

lemma same_robj_refl [simp]: "same_robj ro ro"
  by (simp add: same_robj_def)

lemma swap_lock_same:
  "rd2wrlock_raw ro = Ret ro' \<Longrightarrow> same_robj ro ro'" "wr2rdlock_raw ro = Ret ro' \<Longrightarrow> same_robj ro ro'"
  by (auto simp: rd2wrlock_raw_def wr2rdlock_raw_def ebind_Ret_iff intro: same_robj_trans dest: raw_lock_same)

lemma same_with_node: "nodes_ok ro \<Longrightarrow> tn_usage n = 1 \<Longrightarrow> same_robj ro (with_node thr n ro)"
  by (simp add: same_robj_def with_node_ok)

lemma cleanup_same: "same_robj ro (refobj_lock_threads_cleanup thr ro)"
  by (auto simp: same_robj_def refobj_lock_threads_cleanup_def nodes_ok_def)

lemma thread_rdlock_same:
  assumes "refobj_thread_rdlock thr ro = Ret ro'" and ok: "nodes_ok ro"
  shows "same_robj ro ro'"
proof -
  let ?n = "node_of thr ro"
  let ?m = "?n\<lparr>lock_count := lock_count ?n + 1\<rparr>"
  have u: "tn_usage ?n = 1" using node_of_usage [OF ok] .
  have "(if thread_rdlock_count ?m = 1 then rdlock_raw (with_node thr ?m ro) else Ret (with_node thr ?m ro)) = Ret ro'"
    using assms(1) u by (simp add: refobj_thread_rdlock_def node_get_eq thread_rdlock_count_def split: if_splits)
  moreover have "same_robj ro (with_node thr ?m ro)" using ok u by (intro same_with_node) simp_all
  ultimately show ?thesis by (auto split: if_splits intro: same_robj_trans dest: raw_lock_same)
qed

lemma thread_rdunlock_same:
  assumes "refobj_thread_rdunlock thr ro = Ret ro'" and ok: "nodes_ok ro"
  shows "same_robj ro ro'"
proof -
  let ?n = "node_of thr ro"
  let ?m = "?n\<lparr>lock_count := lock_count ?n - 1\<rparr>"
  have u: "tn_usage ?n = 1" using node_of_usage [OF ok] .
  have "map_of (thread_nodes ro) (self thr) \<noteq> None"
    by (rule notI) (use assms(1) in \<open>simp add: refobj_thread_rdunlock_def node_get_none\<close>)
  then have "ebind (if thread_rdlock_count ?m = 0 then rdunlock_raw (with_node thr ?m ro) else Ret (with_node thr ?m ro))
      (\<lambda>ro. Ret (refobj_lock_threads_cleanup thr ro)) = Ret ro'"
    using assms(1) u by (simp add: refobj_thread_rdunlock_def node_get_eq thread_rdlock_count_def)
  then obtain r where r: "(if thread_rdlock_count ?m = 0 then rdunlock_raw (with_node thr ?m ro) else Ret (with_node thr ?m ro)) = Ret r"
    "ro' = refobj_lock_threads_cleanup thr r" by (auto elim!: ebind_RetE)
  have "same_robj ro (with_node thr ?m ro)" using ok u by (intro same_with_node) simp_all
  with r show ?thesis by (auto split: if_splits intro: same_robj_trans cleanup_same dest: raw_lock_same)
qed

lemma thread_wrlock_same:
  assumes "refobj_thread_wrlock thr rdl ro = Ret ro'" and ok: "nodes_ok ro"
  shows "same_robj ro ro'"
proof -
  let ?n = "node_of thr ro"
  let ?m = "?n\<lparr>lock_count := 0x80000000\<rparr>"
  have u: "tn_usage ?n = 1" using node_of_usage [OF ok] .
  have "(if rdl then rd2wrlock_raw (with_node thr ?m ro) else wrlock_raw (with_node thr ?m ro)) = Ret ro'"
    using assms(1) u by (simp add: refobj_thread_wrlock_def node_get_eq split: if_splits)
  moreover have "same_robj ro (with_node thr ?m ro)" using ok u by (intro same_with_node) simp_all
  ultimately show ?thesis by (auto split: if_splits intro: same_robj_trans dest: raw_lock_same swap_lock_same)
qed

lemma thread_wrunlock_same:
  assumes "refobj_thread_wrunlock thr rdl ro = Ret ro'" and ok: "nodes_ok ro"
  shows "same_robj ro ro'"
proof -
  let ?n = "node_of thr ro"
  let ?m = "?n\<lparr>lock_count := 0\<rparr>"
  have u: "tn_usage ?n = 1" using node_of_usage [OF ok] .
  have "map_of (thread_nodes ro) (self thr) \<noteq> None"
    by (rule notI) (use assms(1) in \<open>simp add: refobj_thread_wrunlock_def node_get_none\<close>)
  then have "ebind (if rdl then wr2rdlock_raw (with_node thr ?m ro) else wrunlock_raw (with_node thr ?m ro))
      (\<lambda>ro. Ret (refobj_lock_threads_cleanup thr ro)) = Ret ro'"
    using assms(1) u by (simp add: refobj_thread_wrunlock_def node_get_eq)
  then obtain r where r: "(if rdl then wr2rdlock_raw (with_node thr ?m ro) else wrunlock_raw (with_node thr ?m ro)) = Ret r"
    "ro' = refobj_lock_threads_cleanup thr r" by (auto elim!: ebind_RetE)
  have "same_robj ro (with_node thr ?m ro)" using ok u by (intro same_with_node) simp_all
  with r show ?thesis by (auto split: if_splits intro: same_robj_trans cleanup_same dest: raw_lock_same swap_lock_same)
qed

text \<open>An update of one object by such a function.\<close>

lemma upd_robj_Ret: "robjs s p = Some ro \<Longrightarrow> f ro = Ret ro' \<Longrightarrow> upd_robj p f s = Ret (s\<lparr>robjs := (robjs s)(p \<mapsto> ro')\<rparr>)"
  by (simp add: upd_robj_def robj_at_def)

lemma upd_robjE:
  assumes "upd_robj p f s = Ret s'"
  obtains ro ro' where "robjs s p = Some ro" "f ro = Ret ro'" "s' = s\<lparr>robjs := (robjs s)(p \<mapsto> ro')\<rparr>"
proof -
  from assms obtain ro where ro: "robj_at p s = Ret ro" "ebind (f ro) (\<lambda>ro. Ret (s\<lparr>robjs := (robjs s)(p \<mapsto> ro)\<rparr>)) = Ret s'"
    unfolding upd_robj_def by (rule ebind_RetE)
  from ro(2) obtain ro' where "f ro = Ret ro'" "s' = s\<lparr>robjs := (robjs s)(p \<mapsto> ro')\<rparr>" by (auto elim: ebind_RetE)
  moreover have "robjs s p = Some ro" using ro(1) by (simp add: robj_at_def split: option.splits)
  ultimately show thesis by (intro that)
qed

lemma refs_okD:
  assumes "refs_ok s refs"
  shows "counted (ref_table s) (use_of s) refs" and "robjs s 0 = None" and "robjs s p = Some ro \<Longrightarrow> nodes_ok ro"
  using assms unfolding refs_ok_def by blast+

lemma upd_same_ok:
  assumes ok: "refs_ok s refs" and p: "robjs s p = Some ro" and same: "same_robj ro ro'"
  shows "refs_ok (s\<lparr>robjs := (robjs s)(p \<mapsto> ro')\<rparr>) refs"
proof -
  have "use_of (s\<lparr>robjs := (robjs s)(p \<mapsto> ro')\<rparr>) = use_of s" using p same by (auto simp: use_of_def same_robj_def)
  moreover have "nodes_ok ro'" using same refs_okD(3) [OF ok p] by (simp add: same_robj_def)
  moreover have "p \<noteq> 0" using refs_okD(2) [OF ok] p by (metis option.distinct(1))
  ultimately show ?thesis using ok by (simp add: refs_ok_def)
qed

lemma upd_robj_ok:
  assumes ok: "refs_ok s refs" and u: "upd_robj p f s = Ret s'" and f: "\<And>ro ro'. f ro = Ret ro' \<Longrightarrow> nodes_ok ro \<Longrightarrow> same_robj ro ro'"
  shows "refs_ok s' refs"
proof -
  from upd_robjE [OF u] obtain ro ro' where r: "robjs s p = Some ro" "f ro = Ret ro'" "s' = s\<lparr>robjs := (robjs s)(p \<mapsto> ro')\<rparr>" .
  from upd_same_ok [OF ok r(1) f [OF r(2) refs_okD(3) [OF ok r(1)]]] r(3) show ?thesis by simp
qed

lemmas lock_same = thread_rdlock_same thread_rdunlock_same thread_wrlock_same thread_wrunlock_same

lemma refobj_rdlock_ok: "refs_ok s refs \<Longrightarrow> refobj_rdlock thr p s = Ret (r, s') \<Longrightarrow> refs_ok s' refs"
  by (auto simp: refobj_rdlock_def ebind_Ret_iff split: if_splits dest: upd_robj_ok [OF _ _ lock_same(1)] upd_robj_ok [OF _ _ lock_same(2)])

lemma refobj_rdunlock_ok: "refs_ok s refs \<Longrightarrow> refobj_rdunlock thr p s = Ret s' \<Longrightarrow> refs_ok s' refs"
  by (auto simp: refobj_rdunlock_def ebind_Ret_iff split: if_splits dest: upd_robj_ok [OF _ _ lock_same(2)])

lemma refobj_wrunlock_ok: "refs_ok s refs \<Longrightarrow> refobj_wrunlock thr rdl p s = Ret s' \<Longrightarrow> refs_ok s' refs"
  by (auto simp: refobj_wrunlock_def dest: upd_robj_ok [OF _ _ lock_same(4)])

lemma refobj_wrlock_ok: "refs_ok s refs \<Longrightarrow> refobj_wrlock thr rdl p s = Ret (r, s') \<Longrightarrow> refs_ok s' refs"
  by (auto simp: refobj_wrlock_def ebind_Ret_iff split: if_splits dest: upd_robj_ok [OF _ _ lock_same(3)] upd_robj_ok [OF _ _ lock_same(4)])

text \<open>Changing the count.\<close>

lemma use_of_usage:
  "robjs s p = Some ro \<Longrightarrow> use_of (s\<lparr>robjs := (robjs s)(p \<mapsto> ro\<lparr>r_usage := u\<rparr>)\<rparr>) = (use_of s)(p \<mapsto> (r_id ro, u))"
  by (auto simp: use_of_def)

lemma use_of_Some: "robjs s p = Some ro \<Longrightarrow> use_of s p = Some (r_id ro, r_usage ro)"
  by (simp add: use_of_def)

lemma nodes_ok_usage [simp]: "nodes_ok (ro\<lparr>r_usage := u\<rparr>) = nodes_ok ro"
  by (simp add: nodes_ok_def)

abbreviation owned_at :: "ref_sys \<Rightarrow> refobj \<Rightarrow> ptr \<Rightarrow> bool" where
  "owned_at s ro p \<equiv> installed (ref_table s) (r_id ro) p"

lemma refobj_put_raw_ok:
  assumes ok: "refs_ok s refs" and r: "0 < refs p"
  obtains (kept) ro where "robjs s p = Some ro" "owned_at s ro p \<or> 1 < refs p"
      "refobj_put_raw p s = Ret (s\<lparr>robjs := (robjs s)(p \<mapsto> ro\<lparr>r_usage := r_usage ro - 1\<rparr>)\<rparr>)"
      "refs_ok (s\<lparr>robjs := (robjs s)(p \<mapsto> ro\<lparr>r_usage := r_usage ro - 1\<rparr>)\<rparr>) (refs(p := refs p - 1))"
  | (freed) ro s' where "robjs s p = Some ro" "\<not> owned_at s ro p" "refs p = 1" "refobj_put_raw p s = Ret s'" "refs_ok s' (refs(p := refs p - 1))"
      "robjs s' = (robjs s)(p := None)" "ref_dtors s' = ref_dtors s @ (if r_dtor ro \<noteq> 0 then [(r_dtor ro, r_arg ro)] else [])"
      "ref_errno s' = ref_errno s" "tab_entry (ref_table s') = tab_entry (ref_table s)"
proof -
  note C = refs_okD(1) [OF ok]
  have "robjs s p \<noteq> None"
  proof
    assume "robjs s p = None"
    then have "use_of s p = None" by (simp add: use_of_def)
    with countedD(5) [OF C] r show False by simp
  qed
  then obtain ro where ro: "robjs s p = Some ro" by blast
  note um = use_of_Some [of s p ro, OF ro]
  let ?s = "s\<lparr>robjs := (robjs s)(p \<mapsto> ro\<lparr>r_usage := r_usage ro - 1\<rparr>)\<rparr>"
  have put: "refobj_put_raw p s = (if r_usage ro - 1 = 0 then refobj_free p ?s else Ret ?s)"
    using ro by (simp add: refobj_put_raw_def robj_at_def upd_robj_Ret)
  show thesis
  proof (cases "owned_at s ro p \<or> 1 < refs p")
    case True
    note k = counted_put_keep [OF C um r True]
    have "counted (ref_table ?s) (use_of ?s) (refs(p := refs p - 1))" using k(1) use_of_usage [of s p ro, OF ro] by simp
    moreover have "nodes_ok ro" using refs_okD(3) [OF ok ro] .
    moreover have "p \<noteq> 0" using refs_okD(2) [OF ok] ro by (metis option.distinct(1))
    ultimately have "refs_ok ?s (refs(p := refs p - 1))" using ok by (simp add: refs_ok_def)
    with ro True put k(2) show thesis by (intro kept [of ro]) simp_all
  next
    case False
    then have one: "refs p = 1" "\<not> owned_at s ro p" using r by auto
    from counted_put_free [OF C um one] obtain tab' where
      t: "r_usage ro - 1 = 0" "put_unused_refobj_id (get_obj_slot (r_id ro)) (ref_table s) = Ret tab'"
      "counted tab' ((use_of s)(p := None)) (refs(p := 0))" "tab_entry tab' = tab_entry (ref_table s)" .
    let ?s' = "s\<lparr>ref_table := tab', robjs := (robjs s)(p := None), ref_dtors := ref_dtors s @ (if r_dtor ro \<noteq> 0 then [(r_dtor ro, r_arg ro)] else [])\<rparr>"
    have "refobj_free p ?s = Ret ?s'" using t(2) by (cases "r_dtor ro = 0") (simp_all add: refobj_free_def robj_at_def Let_def)
    moreover have "use_of ?s' = (use_of s)(p := None)" by (auto simp: use_of_def)
    then have "refs_ok ?s' (refs(p := 0))" using t(3) ok by (simp add: refs_ok_def)
    ultimately show thesis using ro one put t(1,4) by (intro freed [of ro ?s']) simp_all
  qed
qed

lemma inc_get_count_eq:
  "nodes_ok ro \<Longrightarrow> thread_inc_get_count thr ro = Ret (with_node thr ((node_of thr ro)\<lparr>get_count := get_count (node_of thr ro) + 1\<rparr>) ro)"
  using node_of_usage [of ro thr] by (simp add: thread_inc_get_count_def node_get_eq)

lemma dec_get_count_eq:
  "nodes_ok ro \<Longrightarrow> thread_dec_get_count thr ro = (if map_of (thread_nodes ro) (self thr) = None then Abort
     else Ret (with_node thr ((node_of thr ro)\<lparr>get_count := get_count (node_of thr ro) - 1\<rparr>) ro))"
  using node_of_usage [of ro thr] by (auto simp: thread_dec_get_count_def node_get_eq node_get_none)

lemma refobj_get_raw_ok:
  assumes ok: "refs_ok s refs" and room: "\<forall>p. refs p < 2 ^ 63"
  obtains (none) "refobj_get_raw thr inc h s = Ret (0, s)" "\<forall>p ro. robjs s p = Some ro \<longrightarrow> owned_at s ro p \<longrightarrow> r_id ro \<noteq> h"
  | (some) p ro ro' where "robjs s p = Some ro" "owned_at s ro p" "r_id ro = h" "p \<noteq> 0" "same_robj (ro\<lparr>r_usage := r_usage ro + 1\<rparr>) ro'"
      "r_flags ro' = r_flags ro" "r_lock ro' = r_lock ro" "\<not> inc \<longrightarrow> ro' = ro\<lparr>r_usage := r_usage ro + 1\<rparr>"
      "refobj_get_raw thr inc h s = Ret (p, s\<lparr>robjs := (robjs s)(p \<mapsto> ro')\<rparr>)"
      "refs_ok (s\<lparr>robjs := (robjs s)(p \<mapsto> ro')\<rparr>) (refs(p := Suc (refs p)))"
      "inc \<and> refobj_is_caller_free ro \<longrightarrow> map_of (thread_nodes ro') (self thr) \<noteq> None"
proof -
  note C = refs_okD(1) [OF ok]
  let ?tab = "ref_table s" and ?i = "get_obj_slot h"
  note bnd = obj_table_bound [OF countedD(1) [OF C]]
  have here: "0 \<le> ?i \<and> tab_entry ?tab (nat ?i) = Some p" if "robjs s p = Some ro" "owned_at s ro p" "r_id ro = h" for p ro
    using countedD(2) [OF C use_of_Some [of s p ro, OF that(1)]] that(2,3) by (auto simp: counted_entry_def installed_def)
  show thesis
  proof (cases "0 \<le> ?i \<and> ?i < pool_size ?tab")
    case False
    then have "refobj_get_raw thr inc h s = Ret (0, s)" by (auto simp: refobj_get_raw_def Let_def)
    moreover have "tab_entry ?tab (nat ?i) = None \<or> ?i < 0" using False bnd by (auto simp: tab_entry_def)
    ultimately show thesis using here by (intro none) fastforce+
  next
    case True
    then have get: "arr_get (pool_table ?tab) (nat ?i) = Ret (tab_entry ?tab (nat ?i))" using bnd by (simp add: tab_entry_def)
    show thesis
    proof (cases "tab_entry ?tab (nat ?i)")
      case None
      then have "refobj_get_raw thr inc h s = Ret (0, s)" using True get by (simp add: refobj_get_raw_def Let_def)
      then show thesis using here None by (intro none) fastforce+
    next
      case (Some p)
      from countedD(3) [OF C Some] obtain ro where ro: "robjs s p = Some ro" "get_obj_slot (r_id ro) = int (nat ?i)" by (auto simp: use_of_def)
      have p0: "p \<noteq> 0" using refs_okD(2) [OF ok] ro(1) by (metis option.distinct(1))
      show thesis
      proof (cases "r_id ro = h")
        case False
        then have "refobj_get_raw thr inc h s = Ret (0, s)" using True get Some ro(1) by (simp add: refobj_get_raw_def Let_def robj_at_def)
        moreover have "r_id qo \<noteq> h" if "robjs s q = Some qo" "owned_at s qo q" for q qo
          using here [OF that] Some False ro(1) that(1) by fastforce
        ultimately show thesis by (intro none) blast+
      next
        case eq: True
        let ?ro = "ro\<lparr>r_usage := r_usage ro + 1\<rparr>"
        let ?s1 = "s\<lparr>robjs := (robjs s)(p \<mapsto> ?ro)\<rparr>"
        have own: "owned_at s ro p" using Some eq by (simp add: installed_def)
        have r: "refs p < 2 ^ 63" using room by blast
        have "counted ?tab ((use_of s)(p \<mapsto> (r_id ro, r_usage ro + 1))) (refs(p := Suc (refs p)))"
          by (rule counted_get [OF C use_of_Some [of s p ro, OF ro(1)] r])
        then have ok1: "refs_ok ?s1 (refs(p := Suc (refs p)))"
          using use_of_usage [of s p ro, OF ro(1)] ok p0 refs_okD(3) [OF ok ro(1)] by (simp add: refs_ok_def)
        have first: "refobj_get_raw thr inc h s = (if inc \<and> refobj_is_caller_free ?ro then
            ebind (upd_robj p (thread_inc_get_count thr) ?s1) (\<lambda>s. Ret (p, s))
            else Ret (p, ?s1))"
          using True get Some ro(1) eq p0 by (simp add: refobj_get_raw_def robj_at_def upd_robj_Ret cong: if_cong)
        show thesis
        proof (cases "inc \<and> refobj_is_caller_free ?ro")
          case False
          then have nf: "\<not> (inc \<and> refobj_is_caller_free ro)" by (simp add: refobj_is_caller_free_def)
          have "refobj_get_raw thr inc h s = Ret (p, ?s1)" unfolding first using False by (rule if_not_P)
          with nf ok1 ro(1) own eq p0 show thesis by (intro some [of p ro ?ro]) (assumption | blast | simp)+
        next
          case True
          let ?ro2 = "with_node thr ((node_of thr ?ro)\<lparr>get_count := get_count (node_of thr ?ro) + 1\<rparr>) ?ro"
          have no: "nodes_ok ?ro" using refs_okD(3) [OF ok ro(1)] by simp
          have same: "same_robj ?ro ?ro2" using no node_of_usage [OF no] by (intro same_with_node) simp_all
          have at1: "robjs ?s1 p = Some ?ro" by simp
          from upd_same_ok [OF ok1 at1 same] have "refs_ok (s\<lparr>robjs := (robjs s)(p \<mapsto> ?ro2)\<rparr>) (refs(p := Suc (refs p)))" by simp
          moreover have "refobj_get_raw thr inc h s = Ret (p, s\<lparr>robjs := (robjs s)(p \<mapsto> ?ro2)\<rparr>)"
            using first True upd_robj_Ret [where f = "thread_inc_get_count thr", OF at1 inc_get_count_eq [OF no]] by simp
          ultimately show thesis using ro(1) own eq p0 same True by (intro some [of p ro ?ro2]) simp_all
        qed
      qed
    qed
  qed
qed

lemma refobj_put_ok:
  assumes ok: "refs_ok s refs" and r: "0 < refs p" and put: "refobj_put thr p s = Ret s'"
  shows "refs_ok s' (refs(p := refs p - 1))"
proof -
  from put obtain ro s1 where s1: "robj_at p s = Ret ro" "(if refobj_is_caller_free ro then upd_robj p (thread_dec_get_count thr) s else Ret s) = Ret s1"
    "refobj_put_raw p s1 = Ret s'" unfolding refobj_put_def by (elim ebind_RetE)
  have same: "same_robj a b" if "thread_dec_get_count thr a = Ret b" "nodes_ok a" for a b
    using that node_of_usage [OF that(2), of thr] by (auto simp: dec_get_count_eq split: if_splits intro!: same_with_node)
  have "refs_ok s1 refs"
  proof (cases "refobj_is_caller_free ro")
    case True
    with s1(2) have "upd_robj p (thread_dec_get_count thr) s = Ret s1" by simp
    from upd_robj_ok [OF ok this same] show ?thesis .
  next
    case False
    with s1(2) ok show ?thesis by simp
  qed
  from this r show ?thesis
    by (cases rule: refobj_put_raw_ok [case_names kept freed, consumes 2]) (use s1(3) in simp_all)
qed

lemma refobj_put_returns:
  assumes ok: "refs_ok s refs" and r: "0 < refs p" and ro: "robjs s p = Some ro"
    and node: "refobj_is_caller_free ro \<longrightarrow> map_of (thread_nodes ro) (self thr) \<noteq> None"
  obtains s' where "refobj_put thr p s = Ret s'" "refs_ok s' (refs(p := refs p - 1))"
proof -
  note no = refs_okD(3) [OF ok ro]
  let ?ro' = "with_node thr ((node_of thr ro)\<lparr>get_count := get_count (node_of thr ro) - 1\<rparr>) ro"
  let ?s1 = "if refobj_is_caller_free ro then s\<lparr>robjs := (robjs s)(p \<mapsto> ?ro')\<rparr> else s"
  have eq: "refobj_put thr p s = refobj_put_raw p ?s1"
    using ro node no upd_robj_Ret [of s p ro "thread_dec_get_count thr" ?ro'] by (simp add: refobj_put_def robj_at_def dec_get_count_eq)
  have "same_robj ro ?ro'" using no node_of_usage [OF no] by (intro same_with_node) simp_all
  then have "refs_ok ?s1 refs" using ok upd_same_ok [OF ok ro] by simp
  from this r show thesis
    by (cases rule: refobj_put_raw_ok [case_names kept freed, consumes 2]) (use eq in \<open>auto intro: that\<close>)
qed

lemma refobj_create_ok:
  assumes ok: "refs_ok s refs" and p: "robjs s p = None" "p \<noteq> 0"
  obtains (full) err where "refobj_create (Some p) gm arg dt ma rr cf s = Ret (Inl err, s)" "err < 0"
  | (new) s' h where "refobj_create (Some p) gm arg dt ma rr cf s = Ret (Inr p, s')" "refs_ok s' refs"
      "robjs s' = (robjs s)(p \<mapsto> (refobj_ctor arg dt ma rr cf)\<lparr>r_id := h\<rparr>)" "installed (ref_table s') h p"
      "\<forall>q ro. robjs s q = Some ro \<longrightarrow> r_id ro \<noteq> h" "ref_dtors s' = ref_dtors s"
proof -
  have um: "use_of s p = None" using p(1) by (simp add: use_of_def)
  show thesis
  proof (cases rule: counted_create [OF refs_okD(1) [OF ok] um, where m = gm, case_names full new])
    case (full r)
    then have "refobj_create (Some p) gm arg dt ma rr cf s = Ret (Inl r, s)" by (simp add: refobj_create_def Let_def)
    then show thesis using full(2) by (rule that(1))
  next
    case (new i h tab1 tab')
    let ?ro = "(refobj_ctor arg dt ma rr cf)\<lparr>r_id := h\<rparr>"
    let ?s = "s\<lparr>ref_table := tab', robjs := (robjs s)(p \<mapsto> ?ro)\<rparr>"
    have "refobj_create (Some p) gm arg dt ma rr cf s = Ret (Inr p, ?s)" using new(1,2) by (simp add: refobj_create_def Let_def)
    moreover have "use_of ?s = (use_of s)(p \<mapsto> (h, 1))" by (auto simp: use_of_def refobj_ctor_def)
    then have "refs_ok ?s refs" using new(3) ok p(2) by (simp add: refs_ok_def nodes_ok_def refobj_ctor_def)
    moreover have "r_id ro \<noteq> h" if "robjs s q = Some ro" for q ro using new(5) use_of_Some [of s q ro, OF that] by blast
    ultimately show thesis using new(4) by (intro that(2) [of ?s h]) simp_all
  qed
qed

lemma mark_destroyed_ok: "refs_ok s refs \<Longrightarrow> mark_destroyed p s = Ret (r, s') \<Longrightarrow> refs_ok s' refs"
proof -
  assume ok: "refs_ok s refs" and m: "mark_destroyed p s = Ret (r, s')"
  have same: "same_robj a b" if "wrunlock_raw (refobj_set_destroyed a) = Ret b" "nodes_ok a" for a b
    using that raw_lock_same(4) [OF that(1)] by (auto simp: same_robj_def refobj_set_destroyed_def nodes_ok_def)
  from m ok show ?thesis unfolding mark_destroyed_def
    by (auto simp: ebind_Ret_iff split: if_splits dest: upd_robj_ok [OF _ _ raw_lock_same(3)] upd_robj_ok [OF _ _ same])
qed

subsection \<open>Every interleaving\<close>

text \<open>
  The steps the calls are made of; \<^verbatim>\<open>aosl_ref_destroy\<close> with deletion is look-up, uninstallation (which hands the table's reference to
  the caller), marking and two releases, and other threads may step in between. \<open>refs\<close> counts references taken and not given back.
\<close>

inductive ref_step :: "ref_sys \<times> (ptr \<Rightarrow> nat) \<Rightarrow> ref_sys \<times> (ptr \<Rightarrow> nat) \<Rightarrow> bool" where
  create: "robjs s p = None \<Longrightarrow> p \<noteq> 0 \<Longrightarrow> refobj_create (Some p) gm arg dt ma rr cf s = Ret (r, s') \<Longrightarrow> ref_step (s, refs) (s', refs)"
| get: "\<forall>p. refs p < 2 ^ 63 \<Longrightarrow> refobj_get_raw thr inc h s = Ret (p, s') \<Longrightarrow> ref_step (s, refs) (s', if p = 0 then refs else refs(p := Suc (refs p)))"
| put: "0 < refs p \<Longrightarrow> refobj_put thr p s = Ret s' \<Longrightarrow> ref_step (s, refs) (s', refs(p := refs p - 1))"
| put_raw: "0 < refs p \<Longrightarrow> refobj_put_raw p s = Ret s' \<Longrightarrow> ref_step (s, refs) (s', refs(p := refs p - 1))"
| rdlock: "0 < refs p \<Longrightarrow> refobj_rdlock thr p s = Ret (r, s') \<Longrightarrow> ref_step (s, refs) (s', refs)"
| rdunlock: "0 < refs p \<Longrightarrow> refobj_rdunlock thr p s = Ret s' \<Longrightarrow> ref_step (s, refs) (s', refs)"
| wrlock: "0 < refs p \<Longrightarrow> refobj_wrlock thr rdl p s = Ret (r, s') \<Longrightarrow> ref_step (s, refs) (s', refs)"
| wrunlock: "0 < refs p \<Longrightarrow> refobj_wrunlock thr rdl p s = Ret s' \<Longrightarrow> ref_step (s, refs) (s', refs)"
| mark: "0 < refs p \<Longrightarrow> mark_destroyed p s = Ret (r, s') \<Longrightarrow> ref_step (s, refs) (s', refs)"
| uninstall: "0 < refs p \<Longrightarrow> robjs s p = Some ro \<Longrightarrow> obj_id_uninstall (get_obj_slot (r_id ro)) p (ref_table s) = Ret (0, tab) \<Longrightarrow>
    ref_step (s, refs) (s\<lparr>ref_table := tab\<rparr>, refs(p := Suc (refs p)))"

lemma uninstalled_own:
  assumes ok: "refs_ok s refs" and ro: "robjs s p = Some ro" and u: "obj_id_uninstall (get_obj_slot (r_id ro)) p (ref_table s) = Ret (0, tab)"
  shows "owned_at s ro p"
proof -
  note E = countedD(2) [OF refs_okD(1) [OF ok] use_of_Some [of s p ro, OF ro], unfolded counted_entry_def, simplified]
  from u have "pool_table (ref_table s) ! nat (get_obj_slot (r_id ro)) = Some p" "nat (get_obj_slot (r_id ro)) < length (pool_table (ref_table s))"
    using E by (auto simp: obj_id_uninstall_def exec_simps split: if_splits)
  then show ?thesis by (simp add: installed_def tab_entry_def)
qed

lemma refs_ok_uninstall:
  assumes ok: "refs_ok s refs" and ro: "robjs s p = Some ro" and own: "owned_at s ro p"
  obtains tab where "obj_id_uninstall (get_obj_slot (r_id ro)) p (ref_table s) = Ret (0, tab)"
    "refs_ok (s\<lparr>ref_table := tab\<rparr>) (refs(p := Suc (refs p)))" "\<not> installed tab (r_id ro) p"
    "tab_entry tab = (tab_entry (ref_table s))(nat (get_obj_slot (r_id ro)) := None)"
proof -
  from counted_uninstall [OF refs_okD(1) [OF ok] use_of_Some [of s p ro, OF ro] own] obtain tab where
    t: "obj_id_uninstall (get_obj_slot (r_id ro)) p (ref_table s) = Ret (0, tab)" "counted tab (use_of s) (refs(p := Suc (refs p)))"
    "\<not> installed tab (r_id ro) p" "tab_entry tab = (tab_entry (ref_table s))(nat (get_obj_slot (r_id ro)) := None)" .
  have "use_of (s\<lparr>ref_table := tab\<rparr>) = use_of s" by (simp add: use_of_def)
  with t(2) ok have "refs_ok (s\<lparr>ref_table := tab\<rparr>) (refs(p := Suc (refs p)))" by (simp add: refs_ok_def)
  with t show thesis by (intro that [of tab]) simp_all
qed

lemma ref_step_ok:
  assumes st: "ref_step (s, refs) (s', refs')" and ok: "refs_ok s refs"
  shows "refs_ok s' refs'"
  using st
proof (cases rule: ref_step.cases)
  case (create p gm arg dt ma rr cf r)
  from ok create(2,3) show ?thesis
    by (cases rule: refobj_create_ok [where gm = gm and arg = arg and dt = dt and ma = ma and rr = rr and cf = cf, case_names full new, consumes 3])
      (use create ok in auto)
next
  case (get thr inc h p)
  from ok get(2) show ?thesis
    by (cases rule: refobj_get_raw_ok [where thr = thr and inc = inc and h = h, case_names none some, consumes 2]) (use get ok in auto)
next
  case (put p thr)
  then show ?thesis using refobj_put_ok [OF ok put(2,3)] by simp
next
  case (put_raw p)
  from ok put_raw(2) show ?thesis by (cases rule: refobj_put_raw_ok [case_names kept freed, consumes 2]) (use put_raw in simp_all)
next
  case (rdlock p thr r)
  then show ?thesis using refobj_rdlock_ok [OF ok] by blast
next
  case (rdunlock p thr)
  then show ?thesis using refobj_rdunlock_ok [OF ok] by blast
next
  case (wrlock p thr rdl r)
  then show ?thesis using refobj_wrlock_ok [OF ok] by blast
next
  case (wrunlock p thr rdl)
  then show ?thesis using refobj_wrunlock_ok [OF ok] by blast
next
  case (mark p r)
  then show ?thesis using mark_destroyed_ok [OF ok] by blast
next
  case (uninstall p ro tab)
  from refs_ok_uninstall [OF ok uninstall(4) uninstalled_own [OF ok uninstall(4,5)]] uninstall show ?thesis by auto
qed

lemma refs_reachable:
  assumes "ref_step\<^sup>*\<^sup>* (s, refs) (s', refs')" and "refs_ok s refs"
  shows "refs_ok s' refs'"
  using assms
proof (induction rule: rtranclp_induct2)
  case (step a b c d)
  from ref_step_ok [OF step.hyps(2) step.IH [OF step.prems]] show ?case .
qed

lemma init_refs_ok:
  assumes "robjs s = Map.empty" and "obj_table_init gm = Ret (ref_table s)"
  shows "refs_ok s (\<lambda>_. 0)"
proof -
  have "tab_entry (ref_table s) i = None" for i
    using obj_table_init_ok(3) [OF assms(2)] by (simp add: tab_entry_def)
  with obj_table_init_ok(1) [OF assms(2)] assms(1) show ?thesis
    by (simp add: refs_ok_def counted_def use_of_def handles_apart_def)
qed

subsection \<open>Destroying\<close>

lemma get_own:
  assumes ok: "refs_ok s refs" and room: "\<forall>p. refs p < 2 ^ 63" and ro: "robjs s p = Some ro" and own: "owned_at s ro p"
  shows "refobj_get_raw thr False (r_id ro) s = Ret (p, s\<lparr>robjs := (robjs s)(p \<mapsto> ro\<lparr>r_usage := r_usage ro + 1\<rparr>)\<rparr>)"
    and "refs_ok (s\<lparr>robjs := (robjs s)(p \<mapsto> ro\<lparr>r_usage := r_usage ro + 1\<rparr>)\<rparr>) (refs(p := Suc (refs p)))" and "p \<noteq> 0"
proof -
  let ?s = "s\<lparr>robjs := (robjs s)(p \<mapsto> ro\<lparr>r_usage := r_usage ro + 1\<rparr>)\<rparr>"
  from ok room have "refobj_get_raw thr False (r_id ro) s = Ret (p, ?s) \<and> refs_ok ?s (refs(p := Suc (refs p))) \<and> p \<noteq> 0"
  proof (cases rule: refobj_get_raw_ok [where thr = thr and inc = False and h = "r_id ro", case_names none some, consumes 2])
    case none
    with ro own show ?thesis by blast
  next
    case (some q qo qo')
    from handles_apartD [OF countedD(4) [OF refs_okD(1) [OF ok]] use_of_Some [of s q qo, OF some(1)] use_of_Some [of s p ro, OF ro]] some(3)
    have q: "q = p" by simp
    have "qo' = ro\<lparr>r_usage := r_usage ro + 1\<rparr>" using some(1,8) ro unfolding q by simp
    then show ?thesis using some(4,9,10) unfolding q by simp
  qed
  then show "refobj_get_raw thr False (r_id ro) s = Ret (p, ?s)" "refs_ok ?s (refs(p := Suc (refs p)))" "p \<noteq> 0" by blast+
qed

lemma get_gone:
  assumes ok: "refs_ok s refs" and room: "\<forall>p. refs p < 2 ^ 63" and gone: "tab_entry (ref_table s) (nat (get_obj_slot h)) = None"
  shows "refobj_get thr h s = Ret (0, s)" and "refobj_get_raw thr inc h s = Ret (0, s)"
proof -
  show raw: "refobj_get_raw thr inc h s = Ret (0, s)" for inc
    using ok room
    by (cases rule: refobj_get_raw_ok [where thr = thr and inc = inc and h = h, case_names none some, consumes 2])
      (use gone in \<open>auto simp: installed_def\<close>)
  show "refobj_get thr h s = Ret (0, s)" unfolding refobj_get_def by (rule raw)
qed

lemma destroyed_flag: "refobj_is_destroyed (refobj_set_destroyed ro)"
proof -
  have "(r_flags ro OR REFOBJ_DESTROYED) AND REFOBJ_DESTROYED = REFOBJ_DESTROYED" by (simp add: bit.conj_disj_distrib2 and.commute)
  then show ?thesis by (simp add: refobj_is_destroyed_def refobj_set_destroyed_def REFOBJ_DESTROYED_def)
qed

lemma mark_destroyed_eq:
  assumes ro: "robjs s p = Some ro" and d: "\<not> refobj_is_destroyed ro" and l: "readers (r_lock ro) = 0" "\<not> writer (r_lock ro)"
  shows "mark_destroyed p s = Ret (0, s\<lparr>robjs := (robjs s)(p \<mapsto> refobj_set_destroyed ro)\<rparr>)"
proof -
  have eq: "ro\<lparr>r_flags := f, r_lock := (r_lock ro)\<lparr>writer := False\<rparr>\<rparr> = ro\<lparr>r_flags := f\<rparr>" for f
    using l(2) by (cases ro; cases "r_lock ro") simp
  show ?thesis
    using ro d l by (simp add: mark_destroyed_def robj_at_def wrlock_raw_def wrunlock_raw_def upd_robj_def refobj_is_destroyed_def
        refobj_set_destroyed_def Let_def eq)
qed

text \<open>The part of \<^verbatim>\<open>aosl_ref_destroy\<close> after the object is marked.\<close>

lemma wait_holders_done: "robjs s p = Some ro \<Longrightarrow> sint (r_usage ro) \<le> 1 + sint cnt \<Longrightarrow> wait_holders (Suc fuel) env p cnt s = Ret s"
  by (simp add: robj_at_def)

lemma delete_tail:
  assumes ok: "refs_ok s (refs(p := Suc (Suc (refs p))))" and ro: "robjs s p = Some ro" and gone: "\<not> owned_at s ro p"
    and wait: "refs p = 0 \<or> \<not> refobj_is_caller_free ro \<or> refobj_is_modify_async ro" and cnt: "0 \<le> sint cnt"
  obtains s' where "ebind (ref_delete_wait (Suc fuel) env p cnt s) (refobj_put_raw p) = Ret s'" "refs_ok s' refs"
    "robjs s' p = (if refs p = 0 then None else Some (ro\<lparr>r_usage := r_usage ro - 2\<rparr>))"
    "ref_dtors s' = ref_dtors s @ (if refs p = 0 \<and> r_dtor ro \<noteq> 0 then [(r_dtor ro, r_arg ro)] else [])"
    "ref_errno s' = ref_errno s" "tab_entry (ref_table s') = tab_entry (ref_table s)"
proof -
  let ?r2 = "refs(p := Suc (Suc (refs p)))" and ?ro1 = "ro\<lparr>r_usage := r_usage ro - 1\<rparr>"
  let ?r1 = "refs(p := Suc (refs p))"
  let ?s1 = "s\<lparr>robjs := (robjs s)(p \<mapsto> ?ro1)\<rparr>"
  have "0 < ?r2 p" by simp
  with ok have 1: "refobj_put_raw p s = Ret ?s1 \<and> refs_ok ?s1 ?r1"
  proof (cases rule: refobj_put_raw_ok [case_names kept freed, consumes 2])
    case (kept qo)
    have qo: "qo = ro" using kept(1) ro by simp
    have e: "?r2(p := ?r2 p - 1) = ?r1" by auto
    show ?thesis using kept(3,4) unfolding e qo by blast
  next
    case (freed qo s')
    then show ?thesis by simp
  qed
  have usage: "r_usage ?ro1 = of_nat (Suc (refs p))"
    using countedD(2) [OF refs_okD(1) [OF conjunct2 [OF 1]] use_of_Some [of ?s1 p ?ro1]] gone
    by (simp add: counted_entry_def holders_def)
  have "ref_delete_wait (Suc fuel) env p cnt s = Ret ?s1"
  proof (cases "refs p = 0")
    case True
    then have "sint (r_usage ?ro1) \<le> 1 + sint cnt" using usage cnt by simp
    then show ?thesis using 1 wait_holders_done [of ?s1 p ?ro1 cnt fuel env] by (simp add: ref_delete_wait_def robj_at_def del: wait_holders.simps)
  next
    case False
    with wait 1 show ?thesis by (auto simp: ref_delete_wait_def robj_at_def refobj_is_caller_free_def refobj_is_modify_async_def simp del: wait_holders.simps)
  qed
  then have eq: "ebind (ref_delete_wait (Suc fuel) env p cnt s) (refobj_put_raw p) = refobj_put_raw p ?s1" by simp
  have undo: "?r1(p := ?r1 p - 1) = refs" by auto
  from 1 have ok1: "refs_ok ?s1 ?r1" by blast
  have "0 < ?r1 p" by simp
  with ok1 show thesis
  proof (cases rule: refobj_put_raw_ok [case_names kept freed, consumes 2])
    case (kept qo)
    have qo: "qo = ?ro1" using kept(1) by simp
    have "0 < refs p" using kept(2) gone unfolding qo by simp
    then show thesis using kept(3,4) unfolding undo qo
      by (intro that [of "?s1\<lparr>robjs := (robjs ?s1)(p \<mapsto> ?ro1\<lparr>r_usage := r_usage ?ro1 - 1\<rparr>)\<rparr>"]) (simp_all add: eq)
  next
    case (freed qo s')
    have qo: "qo = ?ro1" using freed(1) by simp
    have "refs p = 0" using freed(3) by simp
    then show thesis using freed(4-9) unfolding undo qo by (intro that [of s']) (simp_all add: eq)
  qed
qed

text \<open>A thread whose node holds no read lock; the node is taken and given back.\<close>

lemma destroy_node:
  assumes ok: "nodes_ok ro" and n: "thread_rdlock_count (node_of thr ro) = 0"
  obtains cnt ro' where "(let (found, ro) = robj_this_thread_node_get thr False ro in
      ebind (if found then ebind (this_node thr ro) (\<lambda>n. if 0 < thread_rdlock_count n then Abort
                               else ebind (robj_this_thread_node_put thr ro) (\<lambda>ro. Ret (get_count n, ro)))
                else Ret (0, ro)) f) = f (cnt, ro')"
    "same_robj ro ro'" "r_flags ro' = r_flags ro" "r_lock ro' = r_lock ro" "cnt = get_count (node_of thr ro)"
proof (cases "map_of (thread_nodes ro) (self thr)")
  case None
  then show thesis by (intro that [of 0 ro]) (simp_all add: node_get_none node_of_def)
next
  case (Some m)
  have u: "tn_usage (node_of thr ro) = 1" using node_of_usage [OF ok] .
  have c: "thread_rdlock_count ((node_of thr ro)\<lparr>tn_usage := 2\<rparr>) = 0" using n by (simp add: thread_rdlock_count_def)
  show thesis
    by (rule that [of "get_count (node_of thr ro)" "with_node thr (node_of thr ro) ro"])
      (use Some u c ok in \<open>simp_all add: node_get_eq same_with_node\<close>)
qed

lemma destroy_ok:
  assumes ok: "refs_ok s refs" and room: "\<forall>q. refs q < 2 ^ 63" and ro: "robjs s p = Some ro" "owned_at s ro p" "\<not> refobj_is_destroyed ro"
    and free: "readers (r_lock ro) = 0" "\<not> writer (r_lock ro)" "\<not> no_lock_needed thr p ro"
    and node: "thread_rdlock_count (node_of thr ro) = 0" "0 \<le> sint (get_count (node_of thr ro))"
    and wait: "refs p = 0 \<or> \<not> refobj_is_caller_free ro \<or> refobj_is_modify_async ro"
  obtains s' where "aosl_ref_destroy (Suc fuel) env thr (r_id ro) True s = Ret (0, s')" "refs_ok s' refs"
    "robjs s' p = None \<longleftrightarrow> refs p = 0" "\<forall>ro'. robjs s' p = Some ro' \<longrightarrow> refobj_is_destroyed ro'"
    "ref_dtors s' = ref_dtors s @ (if refs p = 0 \<and> r_dtor ro \<noteq> 0 then [(r_dtor ro, r_arg ro)] else [])"
    "tab_entry (ref_table s') (nat (get_obj_slot (r_id ro))) = None"
proof -
  let ?h = "r_id ro" and ?ro1 = "ro\<lparr>r_usage := r_usage ro + 1\<rparr>" and ?r1 = "refs(p := Suc (refs p))"
  let ?s1 = "s\<lparr>robjs := (robjs s)(p \<mapsto> ?ro1)\<rparr>"
  note get = get_own(1) [OF ok room ro(1,2), of thr] get_own(2,3) [OF ok room ro(1,2)]
  have no1: "nodes_ok ?ro1" using refs_okD(3) [OF ok ro(1)] by simp
  have nd: "node_of thr ?ro1 = node_of thr ro" by (simp add: node_of_def)
  define rest where "rest = (\<lambda>(cnt, ro'). let s = ?s1\<lparr>robjs := (robjs ?s1)(p \<mapsto> ro')\<rparr> in
         ebind (ebind (obj_id_uninstall (get_obj_slot ?h) p (ref_table s)) (\<lambda>(err, tab). Ret (err, s\<lparr>ref_table := tab\<rparr>))) (\<lambda>(err, s).
         ebind (if err < 0 then Ret (err, s)
                else ebind (mark_destroyed p s) (\<lambda>(err, s). ebind (ref_delete_wait (Suc fuel) env p cnt s) (\<lambda>s. Ret (0, s)))) (\<lambda>(err, s).
         ebind (refobj_put_raw p s) (\<lambda>s. ref_return_err (err, s)))))"
  have n1: "thread_rdlock_count (node_of thr ?ro1) = 0" using node(1) nd by simp
  from destroy_node [OF no1 n1, of rest] obtain cnt ro2 where
    d: "(let (found, ro) = robj_this_thread_node_get thr False ?ro1 in
      ebind (if found then ebind (this_node thr ro) (\<lambda>n. if 0 < thread_rdlock_count n then Abort
                               else ebind (robj_this_thread_node_put thr ro) (\<lambda>ro. Ret (get_count n, ro)))
                else Ret (0, ro)) rest) = rest (cnt, ro2)"
    "same_robj ?ro1 ro2" "r_flags ro2 = r_flags ?ro1" "r_lock ro2 = r_lock ?ro1" "cnt = get_count (node_of thr ?ro1)" .
  have nl: "\<not> no_lock_needed thr p ?ro1" using free(3) by (simp add: no_lock_needed_def refobj_is_modify_async_def)
  have call: "aosl_ref_destroy (Suc fuel) env thr ?h True s = rest (cnt, ro2)"
    using get(1,3) nl d(1) unfolding aosl_ref_destroy_def rest_def by (simp add: robj_at_def cong: if_cong)
  let ?s2 = "s\<lparr>robjs := (robjs s)(p \<mapsto> ro2)\<rparr>"
  have ok2: "refs_ok ?s2 ?r1" using upd_same_ok [OF get(2), of p ?ro1 ro2] d(2) by simp
  have id: "r_id ro2 = ?h" "r_arg ro2 = r_arg ro" "r_dtor ro2 = r_dtor ro" "r_usage ro2 = r_usage ro + 1" using d(2) by (simp_all add: same_robj_def)
  have own2: "owned_at ?s2 ro2 p" using ro(2) id by simp
  from refs_ok_uninstall [OF ok2 _ own2] obtain tab where
    t: "obj_id_uninstall (get_obj_slot (r_id ro2)) p (ref_table ?s2) = Ret (0, tab)"
    "refs_ok (?s2\<lparr>ref_table := tab\<rparr>) (?r1(p := Suc (?r1 p)))" "\<not> installed tab (r_id ro2) p"
    "tab_entry tab = (tab_entry (ref_table ?s2))(nat (get_obj_slot (r_id ro2)) := None)" by auto
  let ?s3 = "?s2\<lparr>ref_table := tab\<rparr>" and ?ro3 = "refobj_set_destroyed ro2"
  let ?s4 = "?s3\<lparr>robjs := (robjs ?s3)(p \<mapsto> ?ro3)\<rparr>"
  have m: "mark_destroyed p ?s3 = Ret (0, ?s4)"
    using ro(3) free(1,2) d(3,4) by (intro mark_destroyed_eq) (simp_all add: refobj_is_destroyed_def)
  have r2: "?r1(p := Suc (?r1 p)) = refs(p := Suc (Suc (refs p)))" by auto
  have ok4: "refs_ok ?s4 (refs(p := Suc (Suc (refs p))))" using mark_destroyed_ok [OF t(2) m] unfolding r2 .
  have at4: "robjs ?s4 p = Some ?ro3" by simp
  have fl: "refobj_is_caller_free ?ro3 = refobj_is_caller_free ro" "refobj_is_modify_async ?ro3 = refobj_is_modify_async ro"
    using d(3) by (simp_all add: refobj_is_caller_free_def refobj_is_modify_async_def refobj_set_destroyed_def REFOBJ_DESTROYED_def
        REFOBJ_CALLER_FREE_def REFOBJ_MODIFY_ASYNC_def bit.conj_disj_distrib2)
  have gone4: "\<not> owned_at ?s4 ?ro3 p" using t(3) by (simp add: refobj_set_destroyed_def)
  have w4: "refs p = 0 \<or> \<not> refobj_is_caller_free ?ro3 \<or> refobj_is_modify_async ?ro3" using wait fl by simp
  have c4: "0 \<le> sint cnt" using d(5) nd node(2) by simp
  from delete_tail [OF ok4 at4 gone4 w4 c4, of fuel env] obtain s' where
    f: "ebind (ref_delete_wait (Suc fuel) env p cnt ?s4) (refobj_put_raw p) = Ret s'" "refs_ok s' refs"
    "robjs s' p = (if refs p = 0 then None else Some (?ro3\<lparr>r_usage := r_usage ?ro3 - 2\<rparr>))"
    "ref_dtors s' = ref_dtors ?s4 @ (if refs p = 0 \<and> r_dtor ?ro3 \<noteq> 0 then [(r_dtor ?ro3, r_arg ?ro3)] else [])"
    "tab_entry (ref_table s') = tab_entry (ref_table ?s4)" .
  from f(1) obtain s5 where s5: "ref_delete_wait (Suc fuel) env p cnt ?s4 = Ret s5" "refobj_put_raw p s5 = Ret s'" by (rule ebind_RetE)
  have "rest (cnt, ro2) = Ret (0, s')"
    using t(1) m s5 id(1) unfolding rest_def by (simp add: ref_return_err_def)
  moreover have "refobj_is_destroyed (?ro3\<lparr>r_usage := u\<rparr>)" for u using destroyed_flag [of ro2] by (simp add: refobj_is_destroyed_def)
  ultimately show thesis using call f(2-5) t(4) id
    by (intro that [of s']) (simp_all add: refobj_set_destroyed_def split: if_splits)
qed

subsection \<open>Properties\<close>

abbreviation ref0 :: ref_sys where
  "ref0 \<equiv> \<lparr>robjs = Map.empty, ref_table = table0, ref_dtors = [], ref_errno = 0\<rparr>"

abbreviation thr0 :: ref_thread where
  "thr0 \<equiv> \<lparr>self = 1, tick_now = 0, on_this_q = (\<lambda>_. False), visited = (\<lambda>_. True)\<rparr>"

lemma ref0_ok: "refs_ok ref0 (\<lambda>_. 0)"
  using init_refs_ok [of ref0 mem_ok] obj_table_init_table0 by simp

lemma ref1_create:
  obtains s h where "refobj_create (Some 8) mem_ok 7 100 False False False ref0 = Ret (Inr 8, s)" "refs_ok s (\<lambda>_. 0)"
    "robjs s 8 = Some ((refobj_ctor 7 100 False False False)\<lparr>r_id := h\<rparr>)" "installed (ref_table s) h 8" "ref_dtors s = []"
proof -
  have find0: "bitmap_find_first_zero_bit \<lparr>bit_arr = [0], bit_arr_cnt = 1, bit_cnt = 8\<rparr> = Ret 0"
    by (simp add: bitmap_find_first_zero_bit_def find_zero_from.simps find_zero_in_byte.simps)
  have "\<exists>tab. get_unused_refobj_id mem_ok table0 = Ret (0, tab)"
    by (simp add: get_unused_refobj_id_def pool_get_unused_def pool_take_def find0 bitmap_set_def)
  then have "refobj_create (Some 8) mem_ok 7 100 False False False ref0 \<noteq> Ret (Inl err, s')" for err s'
    by (auto simp: refobj_create_def Let_def ebind_Ret_iff)
  note nofail = this
  have "robjs ref0 8 = None" "(8 :: ptr) \<noteq> 0" by simp_all
  with ref0_ok show thesis
    by (cases rule: refobj_create_ok [where gm = mem_ok and arg = 7 and dt = 100 and ma = False and rr = False and cf = False, case_names full new, consumes 3])
      (use nofail in \<open>auto intro: that\<close>)
qed

text \<open>
  C3. Reference objects are safe to hold: whatever threads create, look up, release, lock, mark and uninstall objects, in whatever
  order, an object that somebody holds is in memory and can be released; its use count is the number of its holders plus one while it
  is in the table; a look-up returns, and what it finds is an object in memory with that handle.
\<close>

theorem ref_objects_safe:
  assumes "robjs s0 = Map.empty" and "obj_table_init gm = Ret (ref_table s0)" and "ref_step\<^sup>*\<^sup>* (s0, \<lambda>_. 0) (s, refs)"
  shows "(0 < refs p \<longrightarrow> robjs s p \<noteq> None \<and> (\<exists>s'. refobj_put_raw p s = Ret s'))
    \<and> (\<forall>ro. robjs s p = Some ro \<longrightarrow> r_usage ro = of_nat ((if installed (ref_table s) (r_id ro) p then 1 else 0) + refs p))
    \<and> ((\<forall>q. refs q < 2 ^ 63) \<longrightarrow> (\<exists>q s'. refobj_get thr h s = Ret (q, s') \<and> (q \<noteq> 0 \<longrightarrow> (\<exists>ro. robjs s' q = Some ro \<and> r_id ro = h))))"
proof -
  have ok: "refs_ok s refs" using refs_reachable [OF assms(3)] init_refs_ok [OF assms(1,2)] by blast
  have "robjs s p \<noteq> None \<and> (\<exists>s'. refobj_put_raw p s = Ret s')" if "0 < refs p"
    using ok that by (cases rule: refobj_put_raw_ok [case_names kept freed, consumes 2]) auto
  moreover have "r_usage ro = of_nat ((if installed (ref_table s) (r_id ro) p then 1 else 0) + refs p)" if "robjs s p = Some ro" for ro
    using countedD(2) [OF refs_okD(1) [OF ok] use_of_Some [of s p ro, OF that]] by (simp add: counted_entry_def holders_def)
  moreover have "\<exists>q s'. refobj_get thr h s = Ret (q, s') \<and> (q \<noteq> 0 \<longrightarrow> (\<exists>ro. robjs s' q = Some ro \<and> r_id ro = h))" if "\<forall>q. refs q < 2 ^ 63"
    using ok that unfolding refobj_get_def
    by (cases rule: refobj_get_raw_ok [where thr = thr and inc = True and h = h, case_names none some, consumes 2]) (auto simp: same_robj_def)
  ultimately show ?thesis by blast
qed

theorem ref_objects_safe_witness:
  "\<exists>s refs q s'. ref_step\<^sup>*\<^sup>* (ref0, \<lambda>_. 0) (s, refs) \<and> robjs s 8 \<noteq> None \<and> refobj_get thr0 9 s = Ret (q, s')"
proof -
  from ref1_create obtain s h where s: "refobj_create (Some 8) mem_ok 7 100 False False False ref0 = Ret (Inr 8, s)"
    "robjs s 8 = Some ((refobj_ctor 7 100 False False False)\<lparr>r_id := h\<rparr>)" .
  have "robjs ref0 8 = None" "(8 :: ptr) \<noteq> 0" by simp_all
  from ref_step.create [OF this s(1)] have st: "ref_step\<^sup>*\<^sup>* (ref0, \<lambda>_. 0) (s, \<lambda>_. 0)" by (rule r_into_rtranclp)
  have "robjs ref0 = Map.empty" "obj_table_init mem_ok = Ret (ref_table ref0)" using obj_table_init_table0 by simp_all
  from ref_objects_safe [OF this st, of 8 thr0 9] st s(2) show ?thesis by auto
qed

text \<open>
  C23. Destroying: \<^verbatim>\<open>aosl_ref_destroy\<close> with deletion of an object that nobody has locked returns 0; the handle is then unknown for
  good. When nobody holds the object it is freed and its destructor called, once; otherwise it is left marked
  as destroyed for its holders, and the last of them frees it. (An object its destroyer has to free waits for the holders instead.)
\<close>

theorem ref_destroy_correct:
  assumes "refs_ok s refs" and "\<forall>q. refs q < 2 ^ 63" and "robjs s p = Some ro" and "installed (ref_table s) (r_id ro) p"
    and "\<not> refobj_is_destroyed ro" and "readers (r_lock ro) = 0" and "\<not> writer (r_lock ro)" and "\<not> no_lock_needed thr p ro"
    and "thread_rdlock_count (node_of thr ro) = 0" and "0 \<le> sint (get_count (node_of thr ro))"
    and "refs p = 0 \<or> \<not> refobj_is_caller_free ro \<or> refobj_is_modify_async ro"
  shows "\<exists>s'. aosl_ref_destroy (Suc fuel) env thr (r_id ro) True s = Ret (0, s') \<and> refs_ok s' refs
    \<and> (robjs s' p = None \<longleftrightarrow> refs p = 0) \<and> (\<forall>ro'. robjs s' p = Some ro' \<longrightarrow> refobj_is_destroyed ro')
    \<and> ref_dtors s' = ref_dtors s @ (if refs p = 0 \<and> r_dtor ro \<noteq> 0 then [(r_dtor ro, r_arg ro)] else [])
    \<and> refobj_get thr' (r_id ro) s' = Ret (0, s')
    \<and> aosl_ref_destroy fuel' env' thr' (r_id ro) d s' = Ret (- 1, s'\<lparr>ref_errno := AOSL_ENOENT\<rparr>)"
proof -
  from destroy_ok [OF assms, of fuel env] obtain s' where
    s': "aosl_ref_destroy (Suc fuel) env thr (r_id ro) True s = Ret (0, s')" "refs_ok s' refs"
    "robjs s' p = None \<longleftrightarrow> refs p = 0" "\<forall>ro'. robjs s' p = Some ro' \<longrightarrow> refobj_is_destroyed ro'"
    "ref_dtors s' = ref_dtors s @ (if refs p = 0 \<and> r_dtor ro \<noteq> 0 then [(r_dtor ro, r_arg ro)] else [])"
    "tab_entry (ref_table s') (nat (get_obj_slot (r_id ro))) = None" .
  note gone = get_gone [OF s'(2) assms(2) s'(6)]
  have "aosl_ref_destroy fuel' env' thr' (r_id ro) d s' = Ret (- 1, s'\<lparr>ref_errno := AOSL_ENOENT\<rparr>)"
    using gone(2) [of thr'] by (simp add: aosl_ref_destroy_def ref_return_err_def)
  with s'(1-5) gone(1) [of thr'] show ?thesis by (intro exI [of _ s'] conjI)
qed

theorem ref_destroy_correct_witness:
  "\<exists>s h s'. robjs s 8 \<noteq> None \<and> aosl_ref_destroy 1 id thr0 h True s = Ret (0, s') \<and> robjs s' 8 = None \<and> ref_dtors s' = [(100, 7)]"
proof -
  from ref1_create obtain s h where s: "refs_ok s (\<lambda>_. 0)" "robjs s 8 = Some ((refobj_ctor 7 100 False False False)\<lparr>r_id := h\<rparr>)"
    "installed (ref_table s) h 8" "ref_dtors s = []" .
  let ?ro = "(refobj_ctor 7 100 False False False)\<lparr>r_id := h\<rparr>"
  from ref_destroy_correct [OF s(1) _ s(2), of thr0 0 id thr0 0 id True] s(3,4)
  have "\<exists>s'. aosl_ref_destroy (Suc 0) id thr0 h True s = Ret (0, s') \<and> robjs s' 8 = None \<and> ref_dtors s' = [(100, 7)]"
    by (auto simp: refobj_ctor_def refobj_is_destroyed_def no_lock_needed_def thread_rdlock_count_def node_of_def)
  with s(2) show ?thesis unfolding One_nat_def by (metis option.distinct(1))
qed

end
