(* ===== verification/Mpq.thy ===== *)
theory Mpq
  imports Timer Refobj
begin

text \<open>
  Multiplex queues, the core of \<^verbatim>\<open>kernel/mpq.c\<close>: function objects are queued to a queue by any thread and run, in order, by the
  queue's own thread. The state is what one thread sees; \<open>this_q\<close> is the queue of that thread (0 when it has none). A critical section
  under \<^verbatim>\<open>q->lock\<close> or the table lock is one update. What the thread depends on besides is the environment: the callbacks, what
  the other threads do while it waits, the clock, and whether the wake-up of a queue could be written. The chain of function objects
  from \<^verbatim>\<open>head\<close> to \<^verbatim>\<open>tail\<close> is a list.
\<close>

subsection \<open>Data\<close>

text \<open>What \<^verbatim>\<open>argv\<close> points to: an argument vector or, with \<^verbatim>\<open>ARGC_TYPE_DATA_LEN\<close> set in \<^verbatim>\<open>argc\<close>, a block of data.\<close>

datatype payload = Argv "u64 list" | Data bytes

record q_func_obj =
  queued_ts :: u64
  sync_obj :: "nat option"
  fo_done_qid :: u64
  fo_ref :: u32
  f_name :: string
  fo_f :: ptr
  fo_argc :: u64
  fo_argv :: payload

record mp_queue =
  mq_usage :: u64
  mq_id :: u64
  need_kicking :: bool
  terminated :: bool
  exiting :: bool
  q_flags :: u32
  q_max :: int
  wait_q_count :: int
  fos :: "q_func_obj list"
  mq_count :: u64
  kick_q_count :: u64
  run_func_done_qid :: u64
  run_func_refobj :: "ptr list"
  run_func_argc :: u64
  run_func_argv :: "payload option"
  mq_arg :: ptr
  mq_stack :: mpq_stack
  exec_funcs_count :: u64
  exec_timers_count :: u64
  exec_fds_count :: u64
  destroy_wait :: "nat list"

text \<open>An invocation: queue, function, object, argument count, arguments.\<close>

type_synonym invocation = "ptr \<times> ptr \<times> ptr \<times> u64 \<times> payload"

record mpq_sys =
  queues :: "ptr \<rightharpoonup> mp_queue"
  q_table :: "ptr mpq_table"
  this_q :: ptr
  refsys :: ref_sys
  sync_count :: nat
  sync_done :: "nat list"
  perf_f :: ptr
  perf_calls :: "(string \<times> bool) list"
  invoked :: "invocation list"
  main_qid :: u64
  mq_errno :: int

type_synonym mpq_func = "ptr \<Rightarrow> u64 \<Rightarrow> ptr \<Rightarrow> u64 \<Rightarrow> payload \<Rightarrow> mpq_sys \<Rightarrow> mpq_sys exec"

record mpq_env =
  callback :: mpq_func
  others :: "mpq_sys \<Rightarrow> mpq_sys"
  tick :: "mpq_sys \<Rightarrow> u64"
  kick_ok :: "mpq_sys \<Rightarrow> bool"
  self_id :: u64
  cleaned :: "u64 \<Rightarrow> bool"

definition AOSL_MPQ_INVALID :: u64 where "AOSL_MPQ_INVALID = - 1"
definition ARGC_TYPE_DATA_LEN :: u64 where "ARGC_TYPE_DATA_LEN = 0x80000000"
definition MPQ_DATA_LEN_MAX :: nat where "MPQ_DATA_LEN_MAX = 8192"
definition AOSL_MPQ_FLAG_NONBLOCK :: u32 where "AOSL_MPQ_FLAG_NONBLOCK = 1"
definition AOSL_MPQ_FLAG_DESTROY_NOT_ALLOWED :: u32 where "AOSL_MPQ_FLAG_DESTROY_NOT_ALLOWED = 0x80000000"

definition get_mpq_id :: "u64 \<Rightarrow> int" where
  "get_mpq_id q = sint (ucast q :: u16)"

definition aosl_mpq_invalid :: "u64 \<Rightarrow> bool" where
  "aosl_mpq_invalid q \<longleftrightarrow> get_mpq_id q < 0"

definition aosl_ref_invalid :: "u32 \<Rightarrow> bool" where
  "aosl_ref_invalid ref \<longleftrightarrow> get_obj_slot ref < 0"

text \<open>\<^verbatim>\<open>type_argv ? (len / sizeof (uintptr_t)) : (len | ARGC_TYPE_DATA_LEN)\<close>\<close>

definition argc_of :: "payload \<Rightarrow> u64" where
  "argc_of p = (case p of Argv ws \<Rightarrow> of_nat (length ws) | Data bs \<Rightarrow> of_nat (length bs) OR ARGC_TYPE_DATA_LEN)"

definition queue_at :: "ptr \<Rightarrow> mpq_sys \<Rightarrow> mp_queue exec" where
  "queue_at q s = (case queues s q of None \<Rightarrow> Fault | Some mq \<Rightarrow> Ret mq)"

definition upd_queue :: "ptr \<Rightarrow> (mp_queue \<Rightarrow> mp_queue) \<Rightarrow> mpq_sys \<Rightarrow> mpq_sys exec" where
  "upd_queue q f s = ebind (queue_at q s) (\<lambda>mq. Ret (s\<lparr>queues := (queues s)(q \<mapsto> f mq)\<rparr>))"

definition this_mpq_id :: "mpq_sys \<Rightarrow> u64 exec" where
  "this_mpq_id s = (if this_q s \<noteq> 0 then ebind (queue_at (this_q s) s) (\<lambda>mq. Ret (mq_id mq)) else Ret AOSL_MPQ_INVALID)"

subsection \<open>Finding a queue\<close>

definition mpq_get :: "u64 \<Rightarrow> mpq_sys \<Rightarrow> (ptr \<times> mpq_sys) exec" where
  "mpq_get mpq_obj_id s = (let slot = get_mpq_id mpq_obj_id; tab = q_table s in
     if slot < 0 then Ret (0, s)
     else if slot < pool_size tab then
       ebind (arr_get (pool_table tab) (nat slot)) (\<lambda>e.
       case e of
         None \<Rightarrow> Ret (0, s)
       | Some q \<Rightarrow> ebind (queue_at q s) (\<lambda>mq.
           if mq_id mq = mpq_obj_id then ebind (upd_queue q (\<lambda>mq. mq\<lparr>mq_usage := mq_usage mq + 1\<rparr>) s) (\<lambda>s. Ret (q, s))
           else Ret (0, s)))
     else Ret (0, s))"

definition mpq_put :: "ptr \<Rightarrow> mpq_sys \<Rightarrow> mpq_sys exec" where
  "mpq_put q s = upd_queue q (\<lambda>mq. mq\<lparr>mq_usage := mq_usage mq - 1\<rparr>) s"

definition mpq_get_or_this :: "u64 \<Rightarrow> mpq_sys \<Rightarrow> (ptr \<times> mpq_sys) exec" where
  "mpq_get_or_this mpq_obj_id s =
     (if \<not> aosl_mpq_invalid mpq_obj_id then
        ebind (this_mpq_id s) (\<lambda>this_id. if mpq_obj_id = this_id then Ret (this_q s, s) else mpq_get mpq_obj_id s)
      else Ret (0, s))"

definition mpq_put_or_this :: "ptr \<Rightarrow> mpq_sys \<Rightarrow> mpq_sys exec" where
  "mpq_put_or_this q s = (if q \<noteq> this_q s then mpq_put q s else Ret s)"

definition os_mp_kick :: "mpq_env \<Rightarrow> ptr \<Rightarrow> mpq_sys \<Rightarrow> mpq_sys exec" where
  "os_mp_kick e q s = (if kick_ok e s then Ret s else upd_queue q (\<lambda>mq. mq\<lparr>kick_q_count := kick_q_count mq - 1\<rparr>) s)"

definition mp_kick_q :: "mpq_env \<Rightarrow> ptr \<Rightarrow> mpq_sys \<Rightarrow> mpq_sys exec" where
  "mp_kick_q e q s =
     ebind (queue_at q s) (\<lambda>mq.
     if need_kicking mq then ebind (upd_queue q (\<lambda>mq. mq\<lparr>kick_q_count := kick_q_count mq + 1\<rparr>) s) (os_mp_kick e q)
     else Ret s)"

subsection \<open>Queueing\<close>

definition enqueue_fo :: "u64 \<Rightarrow> q_func_obj \<Rightarrow> mp_queue \<Rightarrow> mp_queue" where
  "enqueue_fo now fo mq = mq\<lparr>fos := fos mq @ [fo\<lparr>queued_ts := now\<rparr>], mq_count := mq_count mq + 1\<rparr>"

text \<open>The caller of a synchronous call sleeps until its function object has been executed.\<close>

fun await_sync :: "nat \<Rightarrow> mpq_env \<Rightarrow> nat \<Rightarrow> mpq_sys \<Rightarrow> mpq_sys exec" where
  "await_sync 0 e n s = NoFuel"
| "await_sync (Suc fuel) e n s = (if n \<in> set (sync_done s) then Ret s else await_sync fuel e n (others e s))"

text \<open>The loop of \<^verbatim>\<open>____add_f\<close>: a full blocking queue makes the caller wait, and others run meanwhile.\<close>

fun add_f_loop :: "nat \<Rightarrow> mpq_env \<Rightarrow> ptr \<Rightarrow> bool \<Rightarrow> q_func_obj \<Rightarrow> mpq_sys \<Rightarrow> (int \<times> mpq_sys) exec" where
  "add_f_loop 0 e q no_fail fo s = NoFuel"
| "add_f_loop (Suc fuel) e q no_fail fo s =
     ebind (queue_at q s) (\<lambda>mq.
     if no_fail \<or> sint (mq_count mq) < q_max mq then
       ebind (upd_queue q (enqueue_fo (tick e s) fo) s) (\<lambda>s.
       ebind (if q \<noteq> this_q s then mp_kick_q e q s else Ret s) (\<lambda>s.
       ebind (case sync_obj fo of None \<Rightarrow> Ret s | Some n \<Rightarrow> await_sync (Suc fuel) e n s) (\<lambda>s.
       Ret (0, s))))
     else if q_flags mq AND AOSL_MPQ_FLAG_NONBLOCK \<noteq> 0 then Ret (- AOSL_EAGAIN, s)
     else
       ebind (if this_q s \<noteq> 0 then ebind (queue_at (this_q s) s) (\<lambda>tq. Ret (terminated tq)) else Ret False) (\<lambda>stop.
       if stop then Ret (- AOSL_EINTR, s)
       else
         ebind (upd_queue q (\<lambda>mq. mq\<lparr>wait_q_count := wait_q_count mq + 1\<rparr>) s) (\<lambda>s.
         ebind (upd_queue q (\<lambda>mq. mq\<lparr>wait_q_count := wait_q_count mq - 1\<rparr>) (others e s)) (\<lambda>s.
         add_f_loop fuel e q no_fail fo s))))"

definition add_f :: "nat \<Rightarrow> mpq_env \<Rightarrow> ptr \<Rightarrow> bool \<Rightarrow> bool \<Rightarrow> u64 \<Rightarrow> u32 \<Rightarrow> string \<Rightarrow> ptr \<Rightarrow> payload \<Rightarrow> mpq_sys \<Rightarrow> (int \<times> mpq_sys) exec" where
  "add_f fuel e q no_fail sync done_qid ref name f data s =
     ebind (if this_q s \<noteq> 0 then ebind (queue_at (this_q s) s) (\<lambda>tq. Ret (exiting tq \<and> done_qid = mq_id tq)) else Ret False) (\<lambda>refuse.
     if refuse then Ret (- AOSL_EPERM, s)
     else
       let fo = \<lparr>queued_ts = 0, sync_obj = (if sync then Some (sync_count s) else None), fo_done_qid = done_qid, fo_ref = ref,
                 f_name = name, fo_f = f, fo_argc = argc_of data, fo_argv = data\<rparr>;
           s = (if sync then s\<lparr>sync_count := Suc (sync_count s)\<rparr> else s)
       in add_f_loop fuel e q no_fail fo s)"

definition mpq_queue_no_fail :: "nat \<Rightarrow> mpq_env \<Rightarrow> ptr \<Rightarrow> u64 \<Rightarrow> u32 \<Rightarrow> string \<Rightarrow> ptr \<Rightarrow> payload \<Rightarrow> mpq_sys \<Rightarrow> (int \<times> mpq_sys) exec" where
  "mpq_queue_no_fail fuel e q done_qid ref name f data s =
     ebind (add_f fuel e q True False done_qid ref name f data s) (\<lambda>(_, s). Ret (0, s))"

definition mpq_queue_no_fail_argv :: "nat \<Rightarrow> mpq_env \<Rightarrow> u64 \<Rightarrow> u64 \<Rightarrow> u32 \<Rightarrow> string \<Rightarrow> ptr \<Rightarrow> u64 list \<Rightarrow> mpq_sys \<Rightarrow> (int \<times> mpq_sys) exec" where
  "mpq_queue_no_fail_argv fuel e tq dq ref name f args s =
     ebind (mpq_get tq s) (\<lambda>(q, s).
     if q \<noteq> 0 then
       ebind (add_f fuel e q True False dq ref name f (Argv args) s) (\<lambda>(_, s).
       ebind (mpq_put q s) (\<lambda>s. Ret (0, s)))
     else Ret (- 1, s\<lparr>mq_errno := AOSL_ESRCH\<rparr>))"

subsection \<open>Running\<close>

definition refobj_on_this_q :: "ptr \<Rightarrow> mpq_sys \<Rightarrow> bool" where
  "refobj_on_this_q robj s \<longleftrightarrow> (case queues s (this_q s) of
     None \<Rightarrow> False | Some mq \<Rightarrow> this_q s \<noteq> 0 \<and> robj \<in> set (run_func_refobj mq))"

definition mpq_thread :: "mpq_env \<Rightarrow> mpq_sys \<Rightarrow> ref_thread" where
  "mpq_thread e s = \<lparr>self = self_id e, tick_now = tick e s, on_this_q = (\<lambda>p. refobj_on_this_q p s), visited = cleaned e\<rparr>"

definition q_invoke_f :: "mpq_env \<Rightarrow> ptr \<Rightarrow> u64 \<Rightarrow> ptr \<Rightarrow> string \<Rightarrow> ptr \<Rightarrow> u64 \<Rightarrow> u64 \<Rightarrow> payload \<Rightarrow> mpq_sys \<Rightarrow> mpq_sys exec" where
  "q_invoke_f e q done_qid robj name f ts ac av s =
     ebind (queue_at q s) (\<lambda>old.
     ebind (upd_queue q (\<lambda>mq. mq\<lparr>run_func_done_qid := done_qid, run_func_refobj := robj # run_func_refobj mq,
       run_func_argc := ac, run_func_argv := Some av\<rparr>) s) (\<lambda>s.
     ebind (callback e f ts robj (ac AND NOT ARGC_TYPE_DATA_LEN) av (s\<lparr>invoked := invoked s @ [(q, f, robj, ac, av)]\<rparr>)) (\<lambda>s.
     let s = (if perf_f s \<noteq> 0 then s\<lparr>perf_calls := perf_calls s @ [(name, robj = AOSL_FREE_ONLY_OBJ)]\<rparr> else s) in
     upd_queue q (\<lambda>mq. mq\<lparr>run_func_done_qid := run_func_done_qid old, run_func_refobj := run_func_refobj old,
       run_func_argc := run_func_argc old, run_func_argv := run_func_argv old\<rparr>) s)))"

text \<open>The object, whether its read lock was taken; a dead one is \<^verbatim>\<open>AOSL_FREE_ONLY_OBJ\<close>, no reference is 0.\<close>

definition mpq_invoke_refobj_get :: "ref_thread \<Rightarrow> u32 \<Rightarrow> ref_sys \<Rightarrow> (ptr \<times> bool \<times> ref_sys) exec" where
  "mpq_invoke_refobj_get thr ref r =
     (if \<not> aosl_ref_invalid ref then
        ebind (refobj_get thr ref r) (\<lambda>(robj, r).
        if robj \<noteq> 0 then
          ebind (robj_at robj r) (\<lambda>ro. let async = refobj_is_modify_async ro in
          ebind (if \<not> async then upd_robj robj rdlock_raw r else Ret r) (\<lambda>r.
          ebind (robj_at robj r) (\<lambda>ro.
          if refobj_is_destroyed ro then
            ebind (if \<not> async then upd_robj robj rdunlock_raw r else Ret r) (\<lambda>r.
            ebind (refobj_put thr robj r) (\<lambda>r. Ret (AOSL_FREE_ONLY_OBJ, False, r)))
          else Ret (robj, \<not> async, r))))
        else Ret (AOSL_FREE_ONLY_OBJ, False, r))
      else Ret (0, False, r))"

definition mpq_invoke_refobj_put :: "ref_thread \<Rightarrow> ptr \<Rightarrow> bool \<Rightarrow> ref_sys \<Rightarrow> ref_sys exec" where
  "mpq_invoke_refobj_put thr robj locked r =
     (if robj \<noteq> AOSL_FREE_ONLY_OBJ \<and> robj \<noteq> 0 then
        ebind (if locked then upd_robj robj rdunlock_raw r else Ret r) (refobj_put thr robj)
      else Ret r)"

text \<open>What is queued to the \<^verbatim>\<open>done\<close> queue: as many words or bytes as \<^verbatim>\<open>argc\<close> says.\<close>

definition requeue_data :: "u64 \<Rightarrow> payload \<Rightarrow> payload exec" where
  "requeue_data ac av =
     (if ac AND ARGC_TYPE_DATA_LEN = 0
      then (case av of Argv ws \<Rightarrow> if unat ac \<le> length ws then Ret (Argv (take (unat ac) ws)) else Fault | Data bs \<Rightarrow> Fault)
      else (let n = unat (ac AND NOT ARGC_TYPE_DATA_LEN) in
        case av of Data bs \<Rightarrow> if n \<le> length bs then Ret (Data (take n bs)) else Fault | Argv ws \<Rightarrow> Fault))"

definition invoke_f :: "nat \<Rightarrow> mpq_env \<Rightarrow> ptr \<Rightarrow> u64 \<Rightarrow> u32 \<Rightarrow> string \<Rightarrow> ptr \<Rightarrow> u64 \<Rightarrow> u64 \<Rightarrow> payload \<Rightarrow> mpq_sys \<Rightarrow> mpq_sys exec" where
  "invoke_f fuel e q done_qid ref name f ts ac av s =
     ebind (mpq_invoke_refobj_get (mpq_thread e s) ref (refsys s)) (\<lambda>(robj, locked, r).
     ebind (q_invoke_f e q done_qid robj name f ts ac av (s\<lparr>refsys := r\<rparr>)) (\<lambda>s.
     ebind (mpq_invoke_refobj_put (mpq_thread e s) robj locked (refsys s)) (\<lambda>r. let s = s\<lparr>refsys := r\<rparr> in
     if \<not> aosl_mpq_invalid done_qid \<and> robj \<noteq> AOSL_FREE_ONLY_OBJ then
       ebind (mpq_get done_qid s) (\<lambda>(done_q, s).
       if done_q \<noteq> 0 then
         ebind (requeue_data ac av) (\<lambda>data.
         ebind (add_f fuel e done_q True False AOSL_MPQ_INVALID ref name f data s) (\<lambda>(_, s).
         mpq_put done_q s))
       else q_invoke_f e q AOSL_MPQ_INVALID AOSL_FREE_ONLY_OBJ name f ts ac av s)
     else Ret s)))"

definition process_fo :: "nat \<Rightarrow> mpq_env \<Rightarrow> ptr \<Rightarrow> q_func_obj \<Rightarrow> mpq_sys \<Rightarrow> mpq_sys exec" where
  "process_fo fuel e q fo s =
     ebind (invoke_f fuel e q (fo_done_qid fo) (fo_ref fo) (f_name fo) (fo_f fo) (queued_ts fo) (fo_argc fo) (fo_argv fo) s) (\<lambda>s.
     ebind (upd_queue q (\<lambda>mq. mq\<lparr>mq_stack := mpq_stack_fini (mq_stack mq), mq_count := mq_count mq - 1\<rparr>) s) (\<lambda>s.
     Ret (case sync_obj fo of None \<Rightarrow> s | Some n \<Rightarrow> s\<lparr>sync_done := n # sync_done s\<rparr>)))"

definition take_funcs :: "mp_queue \<Rightarrow> q_func_obj list \<times> mp_queue" where
  "take_funcs mq = (fos mq, mq\<lparr>fos := []\<rparr>)"

fun run_funcs :: "nat \<Rightarrow> mpq_env \<Rightarrow> ptr \<Rightarrow> q_func_obj list \<Rightarrow> int \<Rightarrow> mpq_sys \<Rightarrow> (int \<times> mpq_sys) exec" where
  "run_funcs fuel e q [] cnt s = Ret (cnt, s)"
| "run_funcs fuel e q (fo # batch) cnt s = ebind (process_fo fuel e q fo s) (run_funcs fuel e q batch (cnt + 1))"

definition check_and_call_funcs :: "nat \<Rightarrow> mpq_env \<Rightarrow> ptr \<Rightarrow> mpq_sys \<Rightarrow> (int \<times> mpq_sys) exec" where
  "check_and_call_funcs fuel e q s =
     ebind (queue_at q s) (\<lambda>mq.
     if fos mq \<noteq> [] then
       let (batch, mq) = take_funcs mq in run_funcs fuel e q batch 0 (s\<lparr>queues := (queues s)(q \<mapsto> mq)\<rparr>)
     else Ret (0, s))"

text \<open>The head of the timers decides how long the queue may sleep; \<open>None\<close>: for ever.\<close>

definition mpq_max_wait_time :: "u64 \<Rightarrow> u64 option \<Rightarrow> int" where
  "mpq_max_wait_time now first_expire = (case first_expire of
       None \<Rightarrow> - 1
     | Some ex \<Rightarrow> let msecs = sint (ex - now) in if msecs < 0 then 0 else msecs)"

definition mpq_stack_init :: "mpq_stack \<Rightarrow> ptr \<Rightarrow> mpq_stack" where
  "mpq_stack_init stk ident = stk\<lparr>stack_id := ident, prepare_calls := 0, err_stack_id := AOSL_STACK_INVALID, task_exec_err := 0,
     resume_calls := 0, prepare_calls_count := 0, task_exec_count := 0\<rparr>"

definition add_or_invoke_f :: "nat \<Rightarrow> mpq_env \<Rightarrow> ptr \<Rightarrow> bool \<Rightarrow> u64 \<Rightarrow> u32 \<Rightarrow> string \<Rightarrow> ptr \<Rightarrow> payload \<Rightarrow> mpq_sys \<Rightarrow> (int \<times> mpq_sys) exec" where
  "add_or_invoke_f fuel e q sync done_qid ref name f data s =
     (if sync \<and> \<not> aosl_mpq_invalid done_qid then Abort
      else if sync \<and> q = this_q s then
        ebind (queue_at q s) (\<lambda>mq. let curr_stack = mq_stack mq in
        ebind (upd_queue q (\<lambda>mq. mq\<lparr>mq_stack := mpq_stack_init curr_stack (stack_id curr_stack)\<rparr>) s) (\<lambda>s.
        ebind (invoke_f fuel e q done_qid ref name f (tick e s) (argc_of data) data s) (\<lambda>s.
        ebind (upd_queue q (\<lambda>mq. mq\<lparr>mq_stack := curr_stack\<rparr>) s) (\<lambda>s.
        Ret (0, s)))))
      else add_f fuel e q False sync done_qid ref name f data s)"

subsection \<open>Laws\<close>

definition queues_ok :: "mpq_sys \<Rightarrow> bool" where
  "queues_ok s \<longleftrightarrow> pool_size (q_table s) = int (length (pool_table (q_table s)))
     \<and> (\<forall>i q. tab_entry (q_table s) i = Some q \<longrightarrow> q \<noteq> 0 \<and> queues s q \<noteq> None)"

text \<open>The queue an identifier leads to.\<close>

definition find_queue :: "mpq_sys \<Rightarrow> u64 \<Rightarrow> ptr option" where
  "find_queue s qi = (if get_mpq_id qi < 0 then None
     else case tab_entry (q_table s) (nat (get_mpq_id qi)) of
       None \<Rightarrow> None
     | Some q \<Rightarrow> (case queues s q of None \<Rightarrow> None | Some mq \<Rightarrow> if mq_id mq = qi then Some q else None))"

definition hold_queue :: "ptr \<Rightarrow> mpq_sys \<Rightarrow> mpq_sys" where
  "hold_queue q s = (case queues s q of None \<Rightarrow> s | Some mq \<Rightarrow> s\<lparr>queues := (queues s)(q \<mapsto> mq\<lparr>mq_usage := mq_usage mq + 1\<rparr>)\<rparr>)"

lemma upd_queue_Ret: "queues s q = Some mq \<Longrightarrow> upd_queue q f s = Ret (s\<lparr>queues := (queues s)(q \<mapsto> f mq)\<rparr>)"
  by (simp add: upd_queue_def queue_at_def)

lemma find_queue_Some: "queues_ok s \<Longrightarrow> find_queue s qi = Some q \<Longrightarrow> q \<noteq> 0 \<and> (\<exists>mq. queues s q = Some mq \<and> mq_id mq = qi)"
  by (auto simp: find_queue_def queues_ok_def split: if_splits option.splits)

lemma mpq_get_find:
  assumes ok: "queues_ok s"
  shows "mpq_get qi s = (case find_queue s qi of None \<Rightarrow> Ret (0, s) | Some q \<Rightarrow> Ret (q, hold_queue q s))"
proof (cases "get_mpq_id qi < 0 \<or> pool_size (q_table s) \<le> get_mpq_id qi")
  case True
  then show ?thesis using ok by (auto simp: mpq_get_def find_queue_def tab_entry_def queues_ok_def Let_def)
next
  case False
  let ?i = "nat (get_mpq_id qi)"
  have i: "?i < length (pool_table (q_table s))" using False ok by (auto simp: queues_ok_def)
  then have e: "tab_entry (q_table s) ?i = pool_table (q_table s) ! ?i" by (simp add: tab_entry_def)
  show ?thesis
  proof (cases "pool_table (q_table s) ! ?i")
    case None
    with False i e show ?thesis by (simp add: mpq_get_def find_queue_def Let_def)
  next
    case (Some q)
    then have "queues s q \<noteq> None" using ok e unfolding queues_ok_def by metis
    then obtain mq where mq: "queues s q = Some mq" by blast
    with False i e Some show ?thesis
      by (simp add: mpq_get_def find_queue_def Let_def queue_at_def upd_queue_Ret hold_queue_def)
  qed
qed

text \<open>Callbacks that leave the queues alone.\<close>

definition quiet_func :: "(ptr \<Rightarrow> ptr \<Rightarrow> payload \<Rightarrow> int \<Rightarrow> int) \<Rightarrow> mpq_func" where
  "quiet_func g = (\<lambda>f ts robj n av s. Ret (s\<lparr>mq_errno := g f robj av (mq_errno s)\<rparr>))"

text \<open>What an invocation leaves behind besides the queues.\<close>

definition same_queues :: "mpq_sys \<Rightarrow> mpq_sys \<Rightarrow> bool" where
  "same_queues s s' \<longleftrightarrow> queues s' = queues s \<and> q_table s' = q_table s \<and> this_q s' = this_q s \<and> refsys s' = refsys s
     \<and> sync_count s' = sync_count s \<and> sync_done s' = sync_done s \<and> main_qid s' = main_qid s"

lemma q_invoke_quiet:
  assumes cb: "callback e = quiet_func g" and q: "queues s q = Some mq"
  obtains s' where "q_invoke_f e q d robj name f ts ac av s = Ret s'" "same_queues s s'" "invoked s' = invoked s @ [(q, f, robj, ac, av)]"
proof -
  let ?u = "\<lambda>mq. mq\<lparr>run_func_done_qid := d, run_func_refobj := robj # run_func_refobj mq, run_func_argc := ac, run_func_argv := Some av\<rparr>"
  let ?s = "s\<lparr>queues := (queues s)(q \<mapsto> ?u mq), invoked := invoked s @ [(q, f, robj, ac, av)], mq_errno := g f robj av (mq_errno s)\<rparr>"
  let ?s' = "(if perf_f s \<noteq> 0 then ?s\<lparr>perf_calls := perf_calls s @ [(name, robj = AOSL_FREE_ONLY_OBJ)]\<rparr> else ?s)\<lparr>queues := queues s\<rparr>"
  have id: "(queues s)(q \<mapsto> mq) = queues s" using q by (rule fun_upd_idem)
  have "q_invoke_f e q d robj name f ts ac av s = Ret ?s'"
    using q cb by (simp add: q_invoke_f_def queue_at_def upd_queue_Ret quiet_func_def Let_def id)
  then show thesis by (rule that) (simp_all add: same_queues_def)
qed

text \<open>Queueing without a limit, for the \<^verbatim>\<open>done\<close> queue.\<close>

definition new_fo :: "u64 \<Rightarrow> bool \<Rightarrow> nat \<Rightarrow> u64 \<Rightarrow> u32 \<Rightarrow> string \<Rightarrow> ptr \<Rightarrow> payload \<Rightarrow> q_func_obj" where
  "new_fo now sync n d ref name f data = \<lparr>queued_ts = now, sync_obj = (if sync then Some n else None), fo_done_qid = d, fo_ref = ref,
     f_name = name, fo_f = f, fo_argc = argc_of data, fo_argv = data\<rparr>"

text \<open>The queue \<open>q\<close> has the further objects \<open>xs\<close>; apart from wake-up counts nothing else is different.\<close>

definition plain :: "mp_queue \<Rightarrow> mp_queue" where
  "plain mq = mq\<lparr>kick_q_count := 0\<rparr>"

definition with_fos :: "q_func_obj list \<Rightarrow> mp_queue \<Rightarrow> mp_queue" where
  "with_fos xs mq = mq\<lparr>fos := fos mq @ xs, mq_count := mq_count mq + of_nat (length xs)\<rparr>"

definition grown_map :: "ptr \<Rightarrow> q_func_obj list \<Rightarrow> (ptr \<rightharpoonup> mp_queue) \<Rightarrow> (ptr \<rightharpoonup> mp_queue) \<Rightarrow> bool" where
  "grown_map q xs m m' \<longleftrightarrow> (\<forall>p. map_option plain (m' p) = map_option (\<lambda>mq. plain (if p = q then with_fos xs mq else mq)) (m p))"

definition grown :: "ptr \<Rightarrow> q_func_obj list \<Rightarrow> mpq_sys \<Rightarrow> mpq_sys \<Rightarrow> bool" where
  "grown q xs s s' \<longleftrightarrow> grown_map q xs (queues s) (queues s') \<and> s' = s\<lparr>queues := queues s'\<rparr>"

lemma with_fos_Nil [simp]: "with_fos [] mq = mq"
  by (simp add: with_fos_def)

lemma grown_map_refl [simp]: "grown_map q [] m m"
proof -
  have "map_option plain (m p) = map_option (\<lambda>mq. plain (if p = q then with_fos [] mq else mq)) (m p)" for p by (cases "m p") simp_all
  then show ?thesis by (simp add: grown_map_def)
qed

lemma mp_kick_q_ok:
  assumes "queues s q = Some mq"
  obtains mq' where "mp_kick_q e q s = Ret (s\<lparr>queues := (queues s)(q \<mapsto> mq')\<rparr>)" "plain mq' = plain mq"
proof -
  have id: "(queues s)(q \<mapsto> mq) = queues s" using assms by (rule fun_upd_idem)
  let ?up = "mq\<lparr>kick_q_count := kick_q_count mq + 1\<rparr>" and ?dn = "mq\<lparr>kick_q_count := kick_q_count mq + 1 - 1\<rparr>"
  consider (no) "\<not> need_kicking mq" | (good) "need_kicking mq" "kick_ok e (s\<lparr>queues := (queues s)(q \<mapsto> ?up)\<rparr>)"
    | (bad) "need_kicking mq" "\<not> kick_ok e (s\<lparr>queues := (queues s)(q \<mapsto> ?up)\<rparr>)" by blast
  then show thesis
  proof cases
    case no
    have "mp_kick_q e q s = Ret (s\<lparr>queues := (queues s)(q \<mapsto> mq)\<rparr>)" using no assms by (simp add: mp_kick_q_def queue_at_def id)
    then show thesis by (rule that) (simp add: plain_def)
  next
    case good
    have "mp_kick_q e q s = Ret (s\<lparr>queues := (queues s)(q \<mapsto> ?up)\<rparr>)" using good assms
      by (simp add: mp_kick_q_def queue_at_def upd_queue_Ret os_mp_kick_def)
    then show thesis by (rule that) (simp add: plain_def)
  next
    case bad
    have "mp_kick_q e q s = Ret (s\<lparr>queues := (queues s)(q \<mapsto> ?dn)\<rparr>)" using bad assms
      by (simp add: mp_kick_q_def queue_at_def upd_queue_Ret os_mp_kick_def)
    then show thesis by (rule that) (simp add: plain_def)
  qed
qed

lemma add_f_room:
  assumes q: "queues s q = Some mq" and room: "no_fail \<or> sint (mq_count mq) < q_max mq"
    and here: "this_q s = 0 \<or> (\<exists>tq. queues s (this_q s) = Some tq \<and> \<not> (exiting tq \<and> d = mq_id tq))"
  obtains s' where "add_f (Suc fuel) e q no_fail False d ref name f data s = Ret (0, s')" "grown q [new_fo (tick e s) False 0 d ref name f data] s s'"
proof -
  let ?fo = "new_fo (tick e s) False 0 d ref name f data"
  let ?mq = "mq\<lparr>fos := fos mq @ [?fo], mq_count := mq_count mq + 1\<rparr>"
  let ?s1 = "s\<lparr>queues := (queues s)(q \<mapsto> ?mq)\<rparr>"
  have eq: "add_f (Suc fuel) e q no_fail False d ref name f data s = ebind (if q \<noteq> this_q s then mp_kick_q e q ?s1 else Ret ?s1) (\<lambda>s. Ret (0, s))"
    using q room here by (auto simp: add_f_def queue_at_def upd_queue_Ret enqueue_fo_def new_fo_def Let_def)
  have q1: "queues ?s1 q = Some ?mq" by simp
  show thesis
  proof (cases "q = this_q s")
    case True
    have "grown q [?fo] s ?s1" using q by (auto simp: grown_def grown_map_def with_fos_def)
    with eq True show thesis by (intro that [of ?s1]) simp_all
  next
    case False
    from mp_kick_q_ok [OF q1, of e] obtain mq' where
      k: "mp_kick_q e q ?s1 = Ret (?s1\<lparr>queues := (queues ?s1)(q \<mapsto> mq')\<rparr>)" "plain mq' = plain ?mq" .
    have "grown q [?fo] s (?s1\<lparr>queues := (queues ?s1)(q \<mapsto> mq')\<rparr>)" using q k(2) by (auto simp: grown_def grown_map_def with_fos_def)
    with eq False k(1) show thesis by (intro that [of "?s1\<lparr>queues := (queues ?s1)(q \<mapsto> mq')\<rparr>"]) simp_all
  qed
qed

lemma data_len_mask:
  assumes "n < 2 ^ 31"
  shows "(of_nat n OR ARGC_TYPE_DATA_LEN) AND ARGC_TYPE_DATA_LEN \<noteq> 0" and "(of_nat n OR ARGC_TYPE_DATA_LEN) AND NOT ARGC_TYPE_DATA_LEN = of_nat n"
    and "(of_nat n :: u64) AND ARGC_TYPE_DATA_LEN = 0"
proof -
  have bit: "bit ARGC_TYPE_DATA_LEN k \<longleftrightarrow> k = 31" for k
  proof -
    have "ARGC_TYPE_DATA_LEN = 2 ^ 31" by (simp add: ARGC_TYPE_DATA_LEN_def)
    then show ?thesis unfolding \<open>ARGC_TYPE_DATA_LEN = 2 ^ 31\<close> bit_exp_iff by auto
  qed
  have nb: "\<not> bit (of_nat n :: u64) 31"
  proof -
    have "\<not> bit n 31" using assms by (simp add: bit_iff_odd)
    then show ?thesis by (simp add: bit_of_nat_iff)
  qed
  show "(of_nat n :: u64) AND ARGC_TYPE_DATA_LEN = 0" by (rule bit_eqI) (use nb in \<open>auto simp: bit_and_iff bit\<close>)
  show "(of_nat n OR ARGC_TYPE_DATA_LEN) AND NOT ARGC_TYPE_DATA_LEN = of_nat n"
    by (rule bit_eqI) (use nb in \<open>auto simp: bit_and_iff bit_or_iff bit_not_iff bit\<close>)
  have "bit ((of_nat n OR ARGC_TYPE_DATA_LEN) AND ARGC_TYPE_DATA_LEN) 31" by (simp add: bit_and_iff bit_or_iff bit)
  then show "(of_nat n OR ARGC_TYPE_DATA_LEN) AND ARGC_TYPE_DATA_LEN \<noteq> 0" by auto
qed

definition payload_len :: "payload \<Rightarrow> nat" where
  "payload_len p = (case p of Argv ws \<Rightarrow> length ws | Data bs \<Rightarrow> length bs)"

lemma requeue_argc: "payload_len p < 2 ^ 31 \<Longrightarrow> requeue_data (argc_of p) p = Ret p"
proof (cases p)
  case (Argv ws)
  assume "payload_len p < 2 ^ 31"
  then have n: "length ws < 2 ^ 31" using Argv by (simp add: payload_len_def)
  then have "unat (of_nat (length ws) :: u64) = length ws" by (simp add: unat_of_nat take_bit_nat_eq_self)
  with Argv data_len_mask(3) [OF n] show ?thesis by (simp add: requeue_data_def argc_of_def)
next
  case (Data bs)
  assume "payload_len p < 2 ^ 31"
  then have n: "length bs < 2 ^ 31" using Data by (simp add: payload_len_def)
  then have "unat (of_nat (length bs) :: u64) = length bs" by (simp add: unat_of_nat take_bit_nat_eq_self)
  with Data data_len_mask(1,2) [OF n] show ?thesis by (simp add: requeue_data_def argc_of_def Let_def)
qed

lemma grown_mapD:
  assumes "grown_map q xs m m'" and "m p = Some mq"
  obtains mq' where "m' p = Some mq'" "plain mq' = plain (if p = q then with_fos xs mq else mq)"
  using assms by (auto simp: grown_map_def dest!: spec [of _ p])

lemma plain_usage: "plain a = plain b \<Longrightarrow> plain (a\<lparr>mq_usage := mq_usage a + k\<rparr>) = plain (b\<lparr>mq_usage := mq_usage b + k\<rparr>)"
proof -
  assume e: "plain a = plain b"
  have "plain (m\<lparr>mq_usage := mq_usage m + k\<rparr>) = (plain m)\<lparr>mq_usage := mq_usage (plain m) + k\<rparr>" for m by (simp add: plain_def)
  with e show ?thesis by simp
qed

text \<open>Queueing to a queue that is held for it.\<close>

lemma hold_add_put:
  assumes q: "queues s q = Some mq"
    and here: "this_q s = 0 \<or> (\<exists>tq. queues s (this_q s) = Some tq \<and> mq_id tq \<noteq> d)"
  obtains s1 s' ts where "add_f (Suc fuel) e q True False d ref name f data (hold_queue q s) = Ret (0, s1)" "mpq_put q s1 = Ret s'"
    "grown q [new_fo ts False 0 d ref name f data] s s'"
proof -
  let ?h = "mq\<lparr>mq_usage := mq_usage mq + 1\<rparr>" and ?s = "hold_queue q s"
  have hs: "?s = s\<lparr>queues := (queues s)(q \<mapsto> ?h)\<rparr>" using q by (simp add: hold_queue_def)
  have q1: "queues ?s q = Some ?h" using hs by simp
  have "this_q ?s = 0 \<or> (\<exists>tq. queues ?s (this_q ?s) = Some tq \<and> \<not> (exiting tq \<and> d = mq_id tq))"
    using here q by (auto simp: hs)
  from add_f_room [where no_fail = True, OF q1 _ this, of fuel e ref name f data] obtain s1 where
    s1: "add_f (Suc fuel) e q True False d ref name f data ?s = Ret (0, s1)" "grown q [new_fo (tick e ?s) False 0 d ref name f data] ?s s1" by blast
  let ?x = "[new_fo (tick e ?s) False 0 d ref name f data]"
  have g: "grown_map q ?x (queues ?s) (queues s1)" "s1 = ?s\<lparr>queues := queues s1\<rparr>" using s1(2) unfolding grown_def by blast+
  from grown_mapD [OF g(1) q1] obtain m1 where m1: "queues s1 q = Some m1" "plain m1 = plain (with_fos ?x ?h)" by auto
  let ?s' = "s1\<lparr>queues := (queues s1)(q \<mapsto> m1\<lparr>mq_usage := mq_usage m1 - 1\<rparr>)\<rparr>"
  have put: "mpq_put q s1 = Ret ?s'" using m1(1) by (simp add: mpq_put_def upd_queue_Ret)
  have "plain (m1\<lparr>mq_usage := mq_usage m1 + - 1\<rparr>) = plain ((with_fos ?x ?h)\<lparr>mq_usage := mq_usage (with_fos ?x ?h) + - 1\<rparr>)"
    using m1(2) by (rule plain_usage)
  then have "plain (m1\<lparr>mq_usage := mq_usage m1 - 1\<rparr>) = plain (with_fos ?x mq)" by (simp add: with_fos_def plain_def)
  moreover have "map_option plain (queues s1 p) = map_option plain (queues s p)" if "p \<noteq> q" for p
    using g(1) that hs unfolding grown_map_def by (auto cong: map_option_cong)
  ultimately have "grown_map q ?x (queues s) (queues ?s')" using q by (auto simp: grown_map_def cong: map_option_cong)
  moreover have "?s' = s\<lparr>queues := queues ?s'\<rparr>"
  proof -
    have "s1 = s\<lparr>queues := queues s1\<rparr>" using g(2) unfolding hs by (cases s; cases s1) simp
    then show ?thesis by (cases s; cases s1) simp
  qed
  ultimately show thesis using s1(1) put by (intro that [of s1 ?s' "tick e ?s"]) (simp_all add: grown_def)
qed

text \<open>Where the result of a function with a \<^verbatim>\<open>done\<close> queue goes.\<close>

definition done_to :: "mpq_sys \<Rightarrow> u64 \<Rightarrow> ptr \<Rightarrow> ptr option option" where
  "done_to s d robj = (if \<not> aosl_mpq_invalid d \<and> robj \<noteq> AOSL_FREE_ONLY_OBJ then Some (find_queue s d) else None)"

lemma find_queue_cong: "queues s' = queues s \<Longrightarrow> q_table s' = q_table s \<Longrightarrow> find_queue s' d = find_queue s d"
  unfolding find_queue_def by presburger

lemma queues_ok_cong: "queues s' = queues s \<Longrightarrow> q_table s' = q_table s \<Longrightarrow> queues_ok s' = queues_ok s"
  by (simp add: queues_ok_def)

definition frame_sys :: "mpq_sys \<Rightarrow> mpq_sys \<Rightarrow> bool" where
  "frame_sys s s' \<longleftrightarrow> q_table s' = q_table s \<and> this_q s' = this_q s \<and> sync_count s' = sync_count s \<and> sync_done s' = sync_done s
     \<and> main_qid s' = main_qid s"

lemma invoke_f_ok:
  assumes cb: "callback e = quiet_func g" and ok: "queues_ok s" and q: "queues s q = Some mq" "this_q s = q" "mq_id mq \<noteq> AOSL_MPQ_INVALID"
    and get: "mpq_invoke_refobj_get (mpq_thread e s) ref (refsys s) = Ret (robj, locked, r1)"
    and put: "\<And>t. self t = self_id e \<Longrightarrow> \<exists>r2. mpq_invoke_refobj_put t robj locked r1 = Ret r2"
    and av: "requeue_data ac av = Ret av" "ac = argc_of av"
  obtains s' where "invoke_f (Suc fuel) e q d ref name f ts ac av s = Ret s'" "frame_sys s s'"
    "invoked s' = invoked s @ (q, f, robj, ac, av) # (if done_to s d robj = Some None then [(q, f, AOSL_FREE_ONLY_OBJ, ac, av)] else [])"
    "case done_to s d robj of Some (Some dq) \<Rightarrow> (\<exists>now. grown_map dq [new_fo now False 0 AOSL_MPQ_INVALID ref name f av] (queues s) (queues s'))
       | _ \<Rightarrow> queues s' = queues s"
    "\<exists>t. self t = self_id e \<and> mpq_invoke_refobj_put t robj locked r1 = Ret (refsys s')"
proof -
  let ?s0 = "s\<lparr>refsys := r1\<rparr>"
  have q0: "queues ?s0 q = Some mq" using q(1) by simp
  from q_invoke_quiet [OF cb q0, of d robj name f ts ac av] obtain s1 where
    s1: "q_invoke_f e q d robj name f ts ac av ?s0 = Ret s1" "same_queues ?s0 s1" "invoked s1 = invoked ?s0 @ [(q, f, robj, ac, av)]" .
  have sq: "queues s1 = queues s" "q_table s1 = q_table s" "this_q s1 = q" "refsys s1 = r1" "sync_count s1 = sync_count s" "sync_done s1 = sync_done s"
    "main_qid s1 = main_qid s" using s1(2) q(2) by (simp_all add: same_queues_def)
  have sf: "self (mpq_thread e s1) = self_id e" by (simp add: mpq_thread_def)
  from put [OF this] obtain r2 where r2: "mpq_invoke_refobj_put (mpq_thread e s1) robj locked r1 = Ret r2" by blast
  let ?s2 = "s1\<lparr>refsys := r2\<rparr>"
  have fq: "find_queue ?s2 d = find_queue s d" and ok2: "queues_ok ?s2"
    using find_queue_cong [of ?s2 s d] queues_ok_cong [of ?s2 s] sq ok by simp_all
  have q2: "queues ?s2 q = Some mq" "this_q ?s2 = q" using q sq by simp_all
  have call: "invoke_f (Suc fuel) e q d ref name f ts ac av s = (case done_to s d robj of
      None \<Rightarrow> Ret ?s2
    | Some None \<Rightarrow> q_invoke_f e q AOSL_MPQ_INVALID AOSL_FREE_ONLY_OBJ name f ts ac av ?s2
    | Some (Some dq) \<Rightarrow> ebind (add_f (Suc fuel) e dq True False AOSL_MPQ_INVALID ref name f av (hold_queue dq ?s2)) (\<lambda>(_, s). mpq_put dq s))"
    using get s1(1) r2 sq(4) av(1) find_queue_Some [OF ok, of d]
    by (auto simp: invoke_f_def done_to_def mpq_get_find [OF ok2] fq split: option.splits)
  have fr: "frame_sys s ?s2" using sq q(2) by (simp add: frame_sys_def)
  have inv: "invoked ?s2 = invoked s @ [(q, f, robj, ac, av)]" using s1(3) by simp
  show thesis
  proof (cases "done_to s d robj")
    case None
    with call fr inv sq(1) sf r2 show thesis by (intro that [of ?s2]) auto
  next
    case (Some fd)
    show thesis
    proof (cases fd)
      case None
      from q_invoke_quiet [OF cb q2(1), of AOSL_MPQ_INVALID AOSL_FREE_ONLY_OBJ name f ts ac av] obtain s3 where
        s3: "q_invoke_f e q AOSL_MPQ_INVALID AOSL_FREE_ONLY_OBJ name f ts ac av ?s2 = Ret s3" "same_queues ?s2 s3"
        "invoked s3 = invoked ?s2 @ [(q, f, AOSL_FREE_ONLY_OBJ, ac, av)]" .
      have "frame_sys s s3" "queues s3 = queues s" "refsys s3 = r2" using fr s3(2) sq(1) by (simp_all add: frame_sys_def same_queues_def)
      with call Some None s3(1,3) inv sf r2 show thesis by (intro that [of s3]) auto
    next
      case dq: (Some dq)
      have "find_queue s d = Some dq" using Some dq by (simp add: done_to_def split: if_splits)
      from find_queue_Some [OF ok this] obtain dm where dm: "queues ?s2 dq = Some dm" using sq(1) by auto
      have "this_q ?s2 = 0 \<or> (\<exists>tq. queues ?s2 (this_q ?s2) = Some tq \<and> mq_id tq \<noteq> AOSL_MPQ_INVALID)" using q2 q(3) by auto
      from hold_add_put [OF dm this, of fuel e ref name f av] obtain s3 s4 now where
        h: "add_f (Suc fuel) e dq True False AOSL_MPQ_INVALID ref name f av (hold_queue dq ?s2) = Ret (0, s3)" "mpq_put dq s3 = Ret s4"
        "grown dq [new_fo now False 0 AOSL_MPQ_INVALID ref name f av] ?s2 s4" .
      have g: "grown_map dq [new_fo now False 0 AOSL_MPQ_INVALID ref name f av] (queues s) (queues s4)"
        using h(3) sq(1) unfolding grown_def by simp
      have e4: "s4 = ?s2\<lparr>queues := queues s4\<rparr>" using h(3) unfolding grown_def by blast
      have "frame_sys s s4" "refsys s4 = r2" "invoked s4 = invoked ?s2"
        using fr e4 by (cases s4; cases s1; simp add: frame_sys_def)+
      with call Some dq h(1,2) g inv sf r2 show thesis by (intro that [of s4]) auto
    qed
  qed
qed

text \<open>An object that is found alive is held and read-locked for the time of the call, and given back after it.\<close>

definition live_obj :: "ref_sys \<Rightarrow> u32 \<Rightarrow> bool" where
  "live_obj r ref \<longleftrightarrow> (\<exists>p ro. robjs r p = Some ro \<and> installed (ref_table r) (r_id ro) p \<and> r_id ro = ref \<and> \<not> refobj_is_destroyed ro)"

lemma lock_unlock: "\<not> writer (r_lock ro) \<Longrightarrow> rdlock_raw ro = Ret (ro\<lparr>r_lock := (r_lock ro)\<lparr>readers := Suc (readers (r_lock ro))\<rparr>\<rparr>)
    \<and> rdunlock_raw (ro\<lparr>r_lock := (r_lock ro)\<lparr>readers := Suc (readers (r_lock ro))\<rparr>\<rparr>) = Ret ro"
  by (simp add: rdlock_raw_def rdunlock_raw_def)

text \<open>Giving back a reference to an object that its handle still finds keeps the object and changes no lock.\<close>

definition same_locks :: "ref_sys \<Rightarrow> ref_sys \<Rightarrow> bool" where
  "same_locks r r' \<longleftrightarrow> (\<forall>p. map_option r_lock (robjs r' p) = map_option r_lock (robjs r p))"

lemma refobj_put_locks:
  assumes ok: "refs_ok r refs" and n: "0 < refs p" and ro: "robjs r p = Some ro" "installed (ref_table r) (r_id ro) p"
    and node: "refobj_is_caller_free ro \<longrightarrow> map_of (thread_nodes ro) (self thr) \<noteq> None" and put: "refobj_put thr p r = Ret r'"
  shows "same_locks r r'"
proof -
  note no = refs_okD(3) [OF ok ro(1)]
  let ?ro' = "with_node thr ((node_of thr ro)\<lparr>get_count := get_count (node_of thr ro) - 1\<rparr>) ro"
  let ?ro1 = "if refobj_is_caller_free ro then ?ro' else ro"
  let ?r1 = "if refobj_is_caller_free ro then r\<lparr>robjs := (robjs r)(p \<mapsto> ?ro')\<rparr> else r"
  have eq: "refobj_put thr p r = refobj_put_raw p ?r1"
    using ro node no upd_robj_Ret [of r p ro "thread_dec_get_count thr" ?ro'] by (simp add: refobj_put_def robj_at_def dec_get_count_eq)
  have "same_robj ro ?ro'" using no node_of_usage [OF no] by (intro same_with_node) simp_all
  then have ok1: "refs_ok ?r1 refs" using ok upd_same_ok [OF ok ro(1)] by simp
  have at: "robjs ?r1 p = Some ?ro1" "installed (ref_table ?r1) (r_id ?ro1) p" using ro by simp_all
  have lk: "same_locks r ?r1" using ro(1) by (simp add: same_locks_def with_node_def)
  obtain r1 ro1 where r1: "refobj_put_raw p r1 = Ret r'" "refs_ok r1 refs" "robjs r1 p = Some ro1" "installed (ref_table r1) (r_id ro1) p" "same_locks r r1"
    using put eq ok1 at lk by metis
  from r1(2) n show ?thesis
  proof (cases rule: refobj_put_raw_ok [case_names kept freed, consumes 2])
    case (kept ro2)
    have "r' = r1\<lparr>robjs := (robjs r1)(p \<mapsto> ro2\<lparr>r_usage := r_usage ro2 - 1\<rparr>)\<rparr>" using r1(1) kept(3) by simp
    then have "same_locks r1 r'" using kept(1) by (simp add: same_locks_def)
    then show ?thesis using r1(5) by (simp add: same_locks_def)
  next
    case (freed ro2 s')
    then show ?thesis using r1(3,4) by simp
  qed
qed

lemma invoke_refobj:
  assumes ok: "refs_ok r refs" and room: "\<forall>p. refs p < 2 ^ 63" and nw: "\<forall>p ro. robjs r p = Some ro \<longrightarrow> \<not> writer (r_lock ro)"
    and one: "robjs r AOSL_FREE_ONLY_OBJ = None"
  obtains robj locked r1 where "mpq_invoke_refobj_get thr ref r = Ret (robj, locked, r1)" "robj = 0 \<longleftrightarrow> aosl_ref_invalid ref"
    "robj = AOSL_FREE_ONLY_OBJ \<longleftrightarrow> \<not> aosl_ref_invalid ref \<and> \<not> live_obj r ref"
    "\<And>t. self t = self thr \<Longrightarrow> \<exists>r2. mpq_invoke_refobj_put t robj locked r1 = Ret r2 \<and> refs_ok r2 refs \<and> same_locks r r2"
proof (cases "aosl_ref_invalid ref")
  case True
  then show thesis using ok by (intro that [of 0 False r]) (simp_all add: mpq_invoke_refobj_get_def mpq_invoke_refobj_put_def AOSL_FREE_ONLY_OBJ_def same_locks_def)
next
  case valid: False
  from ok room show thesis
  proof (cases rule: refobj_get_raw_ok [where thr = thr and inc = True and h = ref, case_names none some, consumes 2])
    case none
    have "\<not> live_obj r ref" using none(2) by (auto simp: live_obj_def)
    moreover have "mpq_invoke_refobj_get thr ref r = Ret (AOSL_FREE_ONLY_OBJ, False, r)"
      using valid none(1) by (simp add: mpq_invoke_refobj_get_def refobj_get_def)
    ultimately show thesis using valid ok by (intro that [of AOSL_FREE_ONLY_OBJ False r])
      (simp_all add: mpq_invoke_refobj_put_def AOSL_FREE_ONLY_OBJ_def same_locks_def)
  next
    case (some p ro ro')
    let ?r1 = "refs(p := Suc (refs p))" and ?s1 = "r\<lparr>robjs := (robjs r)(p \<mapsto> ro')\<rparr>"
    let ?ro2 = "ro'\<lparr>r_lock := (r_lock ro')\<lparr>readers := Suc (readers (r_lock ro'))\<rparr>\<rparr>"
    let ?s2 = "?s1\<lparr>robjs := (robjs ?s1)(p \<mapsto> ?ro2)\<rparr>"
    have at1: "robjs ?s1 p = Some ro'" and at2: "robjs ?s2 p = Some ?ro2" by simp_all
    have p1: "p \<noteq> AOSL_FREE_ONLY_OBJ" using some(1) one by (metis option.distinct(1))
    have fl: "refobj_is_destroyed ro' = refobj_is_destroyed ro" "refobj_is_modify_async ro' = refobj_is_modify_async ro"
      "refobj_is_caller_free ro' = refobj_is_caller_free ro" "refobj_is_destroyed ?ro2 = refobj_is_destroyed ro"
      using some(6) by (simp_all add: refobj_is_destroyed_def refobj_is_modify_async_def refobj_is_caller_free_def)
    have "\<not> writer (r_lock ro')" using nw some(1,7) by simp
    note lk = lock_unlock [OF this]
    have un: "?r1(p := ?r1 p - 1) = refs" "0 < ?r1 p" by auto
    have lock: "upd_robj p rdlock_raw ?s1 = Ret ?s2" using lk by (intro upd_robj_Ret [where f = rdlock_raw, OF at1]) blast
    have unlock: "upd_robj p rdunlock_raw ?s2 = Ret ?s1"
      using upd_robj_Ret [where f = rdunlock_raw, OF at2 conjunct2 [OF lk]] by simp
    have lk1: "same_locks r ?s1" using some(1,7) by (simp add: same_locks_def)
    have putback: "\<exists>r2. refobj_put t p ?s1 = Ret r2 \<and> refs_ok r2 refs \<and> same_locks r r2" if "self t = self thr" for t
    proof -
      have node: "refobj_is_caller_free ro' \<longrightarrow> map_of (thread_nodes ro') (self t) \<noteq> None" using some(11) fl(3) that by simp
      from refobj_put_returns [OF some(10) un(2) at1 node] un(1) obtain r2 where r2: "refobj_put t p ?s1 = Ret r2" "refs_ok r2 refs" by metis
      have "installed (ref_table ?s1) (r_id ro') p" using some(2,5) by (simp add: same_robj_def)
      from refobj_put_locks [OF some(10) un(2) at1 this node r2(1)] lk1 have "same_locks r r2" by (simp add: same_locks_def)
      with r2 show ?thesis by blast
    qed
    have slot: "live_obj r ref \<longleftrightarrow> \<not> refobj_is_destroyed ro"
    proof
      assume "live_obj r ref"
      then obtain q qo where qo: "robjs r q = Some qo" "r_id qo = ref" "\<not> refobj_is_destroyed qo" by (auto simp: live_obj_def)
      from handles_apartD [OF countedD(4) [OF refs_okD(1) [OF ok]] use_of_Some [of r q qo, OF qo(1)] use_of_Some [of r p ro, OF some(1)]] qo(2) some(3)
      have "q = p" by simp
      with qo some(1) show "\<not> refobj_is_destroyed ro" by simp
    next
      assume "\<not> refobj_is_destroyed ro"
      with some(1-3) show "live_obj r ref" by (auto simp: live_obj_def)
    qed
    show thesis
    proof (cases "refobj_is_destroyed ro")
      case True
      from putback [of thr] obtain r2 where r2: "refobj_put thr p ?s1 = Ret r2" "refs_ok r2 refs \<and> same_locks r r2" by blast
      have "mpq_invoke_refobj_get thr ref r = Ret (AOSL_FREE_ONLY_OBJ, False, r2)"
        using valid some(4,9) at1 at2 fl lock unlock r2(1) True by (simp add: mpq_invoke_refobj_get_def refobj_get_def robj_at_def Let_def)
      then show thesis using valid slot True r2(2) by (intro that [of AOSL_FREE_ONLY_OBJ False r2])
        (simp_all add: mpq_invoke_refobj_put_def AOSL_FREE_ONLY_OBJ_def)
    next
      case False
      let ?a = "refobj_is_modify_async ro"
      have "mpq_invoke_refobj_get thr ref r = Ret (p, \<not> ?a, if ?a then ?s1 else ?s2)"
        using valid some(4,9) at1 at2 fl lock False by (simp add: mpq_invoke_refobj_get_def refobj_get_def robj_at_def Let_def)
      moreover have "mpq_invoke_refobj_put t p (\<not> ?a) (if ?a then ?s1 else ?s2) = refobj_put t p ?s1" for t
        using some(4) p1 unlock by (simp add: mpq_invoke_refobj_put_def)
      ultimately show thesis using putback valid slot False some(4) p1
        by (intro that [of p "\<not> ?a" "if ?a then ?s1 else ?s2"]) simp_all
    qed
  qed
qed

text \<open>Which queue an identifier leads to depends on the table and the queues' identifiers only.\<close>

definition same_ids :: "mpq_sys \<Rightarrow> mpq_sys \<Rightarrow> bool" where
  "same_ids s s' \<longleftrightarrow> q_table s' = q_table s \<and> (\<forall>p. map_option mq_id (queues s' p) = map_option mq_id (queues s p))"

lemma same_ids_find: "same_ids s s' \<Longrightarrow> find_queue s' d = find_queue s d"
proof -
  assume a: "same_ids s s'"
  have "(case queues s' q of None \<Rightarrow> None | Some mq \<Rightarrow> if mq_id mq = d then Some q else None)
      = (case queues s q of None \<Rightarrow> None | Some mq \<Rightarrow> if mq_id mq = d then Some q else None)" for q
  proof -
    have "map_option mq_id (queues s' q) = map_option mq_id (queues s q)" using a by (simp add: same_ids_def)
    then show ?thesis by (cases "queues s q"; cases "queues s' q") simp_all
  qed
  with a show ?thesis by (simp add: find_queue_def same_ids_def cong: option.case_cong)
qed

lemma same_ids_ok: "same_ids s s' \<Longrightarrow> queues_ok s \<Longrightarrow> queues_ok s'"
  unfolding same_ids_def queues_ok_def by (metis option.map_disc_iff)

lemma same_ids_trans: "same_ids s s' \<Longrightarrow> same_ids s' s'' \<Longrightarrow> same_ids s s''"
  by (simp add: same_ids_def)

lemma grown_same_ids: "grown_map q xs (queues s) (queues s') \<Longrightarrow> q_table s' = q_table s \<Longrightarrow> same_ids s s'"
proof -
  assume g: "grown_map q xs (queues s) (queues s')" and t: "q_table s' = q_table s"
  have id: "mq_id (plain mq) = mq_id mq" "mq_id (with_fos xs mq) = mq_id mq" for mq by (simp_all add: plain_def with_fos_def)
  have "map_option mq_id (queues s' p) = map_option mq_id (queues s p)" for p
  proof -
    have "map_option mq_id (map_option plain (queues s' p)) = map_option mq_id (map_option (\<lambda>mq. plain (if p = q then with_fos xs mq else mq)) (queues s p))"
      using g unfolding grown_map_def by simp
    then show ?thesis by (cases "queues s p"; cases "queues s' p") (auto simp: id split: if_splits)
  qed
  with t show ?thesis by (simp add: same_ids_def)
qed

text \<open>A function object without a reference object, as \<^verbatim>\<open>____add_f\<close> makes it; what running it invokes.\<close>

definition plain_fo :: "q_func_obj \<Rightarrow> bool" where
  "plain_fo fo \<longleftrightarrow> aosl_ref_invalid (fo_ref fo) \<and> fo_argc fo = argc_of (fo_argv fo) \<and> payload_len (fo_argv fo) < 2 ^ 31"

definition calls_of :: "mpq_sys \<Rightarrow> ptr \<Rightarrow> q_func_obj \<Rightarrow> invocation list" where
  "calls_of s q fo = (q, fo_f fo, 0, fo_argc fo, fo_argv fo) #
     (if \<not> aosl_mpq_invalid (fo_done_qid fo) \<and> find_queue s (fo_done_qid fo) = None
      then [(q, fo_f fo, AOSL_FREE_ONLY_OBJ, fo_argc fo, fo_argv fo)] else [])"

lemma process_plain:
  assumes cb: "callback e = quiet_func g" and ok: "queues_ok s" and q: "queues s q = Some mq" "this_q s = q" "mq_id mq \<noteq> AOSL_MPQ_INVALID"
    and fo: "plain_fo fo" "find_queue s (fo_done_qid fo) \<noteq> Some q"
  obtains s' mq' where "process_fo (Suc fuel) e q fo s = Ret s'" "same_ids s s'" "this_q s' = q" "queues s' q = Some mq'"
    "fos mq' = fos mq" "mq_count mq' = mq_count mq - 1" "invoked s' = invoked s @ calls_of s q fo"
    "sync_done s' = (case sync_obj fo of None \<Rightarrow> [] | Some n \<Rightarrow> [n]) @ sync_done s"
proof -
  let ?d = "fo_done_qid fo" and ?av = "fo_argv fo"
  have inv: "aosl_ref_invalid (fo_ref fo)" and ac: "fo_argc fo = argc_of ?av" and rq: "requeue_data (fo_argc fo) ?av = Ret ?av"
    using fo(1) requeue_argc [of ?av] by (simp_all add: plain_fo_def)
  have get: "mpq_invoke_refobj_get (mpq_thread e s) (fo_ref fo) (refsys s) = Ret (0, False, refsys s)" using inv by (simp add: mpq_invoke_refobj_get_def)
  have put: "\<exists>r2. mpq_invoke_refobj_put t 0 False (refsys s) = Ret r2" for t by (simp add: mpq_invoke_refobj_put_def)
  from invoke_f_ok [OF cb ok q get put rq ac, of fuel ?d "f_name fo" "fo_f fo" "queued_ts fo"] obtain s1 where
    s1: "invoke_f (Suc fuel) e q ?d (fo_ref fo) (f_name fo) (fo_f fo) (queued_ts fo) (fo_argc fo) ?av s = Ret s1" "frame_sys s s1"
    "invoked s1 = invoked s @ (q, fo_f fo, 0, fo_argc fo, ?av) # (if done_to s ?d 0 = Some None then [(q, fo_f fo, AOSL_FREE_ONLY_OBJ, fo_argc fo, ?av)] else [])"
    "case done_to s ?d 0 of Some (Some dq) \<Rightarrow> (\<exists>now. grown_map dq [new_fo now False 0 AOSL_MPQ_INVALID (fo_ref fo) (f_name fo) (fo_f fo) ?av] (queues s) (queues s1))
       | _ \<Rightarrow> queues s1 = queues s" by blast
  have z: "(0 :: ptr) \<noteq> AOSL_FREE_ONLY_OBJ" by (simp add: AOSL_FREE_ONLY_OBJ_def)
  have calls: "invoked s1 = invoked s @ calls_of s q fo" using s1(3) z by (simp add: calls_of_def done_to_def)
  have fr: "q_table s1 = q_table s" "this_q s1 = q" "sync_done s1 = sync_done s" using s1(2) q(2) by (simp_all add: frame_sys_def)
  have "same_ids s s1 \<and> (\<exists>m1. queues s1 q = Some m1 \<and> plain m1 = plain mq)"
  proof (cases "done_to s ?d 0")
    case None
    with s1(4) fr(1) q(1) show ?thesis by (simp add: same_ids_def)
  next
    case (Some fd)
    show ?thesis
    proof (cases fd)
      case None
      with Some s1(4) fr(1) q(1) show ?thesis by (simp add: same_ids_def)
    next
      case dq: (Some dq)
      then have "find_queue s ?d = Some dq" using Some by (simp add: done_to_def split: if_splits)
      then have "dq \<noteq> q" using fo(2) by auto
      from Some dq s1(4) obtain now where gm: "grown_map dq [new_fo now False 0 AOSL_MPQ_INVALID (fo_ref fo) (f_name fo) (fo_f fo) ?av] (queues s) (queues s1)" by auto
      from grown_mapD [OF gm q(1)] obtain m1 where "queues s1 q = Some m1" "plain m1 = plain (if q = dq then with_fos [new_fo now False 0 AOSL_MPQ_INVALID (fo_ref fo) (f_name fo) (fo_f fo) ?av] mq else mq)" .
      with \<open>dq \<noteq> q\<close> grown_same_ids [OF gm fr(1)] show ?thesis by auto
    qed
  qed
  then obtain m1 where m1: "same_ids s s1" "queues s1 q = Some m1" "plain m1 = plain mq" by blast
  have sel: "fos m1 = fos mq" "mq_count m1 = mq_count mq" using m1(3) by (cases m1; cases mq; simp add: plain_def)+
  let ?m2 = "m1\<lparr>mq_stack := mpq_stack_fini (mq_stack m1), mq_count := mq_count m1 - 1\<rparr>"
  let ?s2 = "s1\<lparr>queues := (queues s1)(q \<mapsto> ?m2)\<rparr>"
  let ?s' = "case sync_obj fo of None \<Rightarrow> ?s2 | Some n \<Rightarrow> ?s2\<lparr>sync_done := n # sync_done ?s2\<rparr>"
  have "process_fo (Suc fuel) e q fo s = Ret ?s'" using s1(1) m1(2) by (simp add: process_fo_def upd_queue_Ret split: option.splits)
  moreover have "same_ids s1 ?s'" using m1(2) by (auto simp: same_ids_def split: option.splits)
  then have "same_ids s ?s'" using m1(1) by (rule same_ids_trans [rotated])
  moreover have "queues ?s' q = Some ?m2" "this_q ?s' = q" "invoked ?s' = invoked s1"
    "sync_done ?s' = (case sync_obj fo of None \<Rightarrow> [] | Some n \<Rightarrow> [n]) @ sync_done s" using fr by (auto split: option.splits)
  ultimately show thesis using sel calls by (intro that [of ?s' ?m2]) simp_all
qed

lemma run_plain:
  assumes cb: "callback e = quiet_func g"
  shows "queues_ok s \<Longrightarrow> queues s q = Some mq \<Longrightarrow> this_q s = q \<Longrightarrow> mq_id mq \<noteq> AOSL_MPQ_INVALID \<Longrightarrow>
    \<forall>fo \<in> set batch. plain_fo fo \<and> find_queue s (fo_done_qid fo) \<noteq> Some q \<Longrightarrow>
    \<exists>s' mq'. run_funcs (Suc fuel) e q batch cnt s = Ret (cnt + int (length batch), s') \<and> same_ids s s' \<and> queues s' q = Some mq' \<and> fos mq' = fos mq
      \<and> mq_count mq' = mq_count mq - of_nat (length batch) \<and> invoked s' = invoked s @ concat (map (calls_of s q) batch)
      \<and> sync_done s' = rev (List.map_filter sync_obj batch) @ sync_done s"
proof (induction batch arbitrary: s mq cnt)
  case Nil
  then show ?case by (simp add: same_ids_def map_filter_simps)
next
  case (Cons fo batch)
  have fo: "plain_fo fo" "find_queue s (fo_done_qid fo) \<noteq> Some q" using Cons.prems(5) by auto
  from process_plain [OF cb Cons.prems(1-4) fo, of fuel] obtain s1 m1 where
    s1: "process_fo (Suc fuel) e q fo s = Ret s1" "same_ids s s1" "this_q s1 = q" "queues s1 q = Some m1" "fos m1 = fos mq" "mq_count m1 = mq_count mq - 1"
    "invoked s1 = invoked s @ calls_of s q fo" "sync_done s1 = (case sync_obj fo of None \<Rightarrow> [] | Some n \<Rightarrow> [n]) @ sync_done s" .
  have id: "mq_id m1 = mq_id mq" using s1(2,4) Cons.prems(2) by (simp add: same_ids_def) (metis option.inject option.simps(9))
  have fq: "find_queue s1 d = find_queue s d" for d using same_ids_find [OF s1(2)] .
  have cl: "calls_of s1 q x = calls_of s q x" for x by (simp add: calls_of_def fq)
  from Cons.IH [OF same_ids_ok [OF s1(2) Cons.prems(1)] s1(4,3), of "cnt + 1"] Cons.prems(4,5) id fq obtain s' m' where
    s': "run_funcs (Suc fuel) e q batch (cnt + 1) s1 = Ret (cnt + 1 + int (length batch), s')" "same_ids s1 s'" "queues s' q = Some m'" "fos m' = fos m1"
    "mq_count m' = mq_count m1 - of_nat (length batch)" "invoked s' = invoked s1 @ concat (map (calls_of s1 q) batch)"
    "sync_done s' = rev (List.map_filter sync_obj batch) @ sync_done s1" by auto
  have "concat (map (calls_of s1 q) batch) = concat (map (calls_of s q) batch)" by (simp add: cl cong: map_cong)
  moreover have "same_ids s s'" using s1(2) s'(2) by (rule same_ids_trans)
  ultimately show ?case using s1 s' by (intro exI [of _ s'] exI [of _ m']) (simp add: map_filter_simps split: option.splits)
qed

subsection \<open>Properties\<close>

abbreviation mq0 :: mp_queue where
  "mq0 \<equiv> \<lparr>mq_usage = 1, mq_id = 0x10000, need_kicking = False, terminated = False, exiting = False, q_flags = 1, q_max = 1, wait_q_count = 0, fos = [],
     mq_count = 0, kick_q_count = 0, run_func_done_qid = - 1, run_func_refobj = [], run_func_argc = 0, run_func_argv = None, mq_arg = 0, mq_stack = demo_stack,
     exec_funcs_count = 0, exec_timers_count = 0, exec_fds_count = 0, destroy_wait = []\<rparr>"

abbreviation sys0 :: mpq_sys where
  "sys0 \<equiv> \<lparr>queues = [16 \<mapsto> mq0], q_table = \<lparr>pool_bits = \<lparr>bit_arr = [1], bit_arr_cnt = 1, bit_cnt = 8\<rparr>,
       pool_table = (replicate 8 None)[0 := Some 16], pool_size = 8, life_id = 2, mpq_count = 1\<rparr>, this_q = 16, refsys = ref0, sync_count = 0, sync_done = [],
     perf_f = 0, perf_calls = [], invoked = [], main_qid = - 1, mq_errno = 0\<rparr>"

abbreviation env0 :: mpq_env where
  "env0 \<equiv> \<lparr>callback = quiet_func (\<lambda>f robj av err. err), others = (\<lambda>s. s), tick = (\<lambda>s. 5), kick_ok = (\<lambda>s. True), self_id = 1, cleaned = (\<lambda>_. True)\<rparr>"

lemma minus_one_invalid: "aosl_ref_invalid (- 1)" "aosl_mpq_invalid (- 1)" "get_mpq_id (- 1) = - 1"
proof -
  have "(ucast (- 1 :: u32) :: u16) = - 1" "(ucast (- 1 :: u64) :: u16) = - 1" by (rule bit_word_eqI; simp add: bit_ucast_iff)+
  then show "aosl_ref_invalid (- 1)" "aosl_mpq_invalid (- 1)" "get_mpq_id (- 1) = - 1"
    by (simp_all add: aosl_ref_invalid_def aosl_mpq_invalid_def get_obj_slot_def get_mpq_id_def)
qed

lemma sys0_ok: "queues_ok sys0"
  by (auto simp: queues_ok_def tab_entry_def nth_list_update split: if_splits)

lemma sys0_find: "find_queue sys0 0x10000 = Some 16"
  by (simp add: find_queue_def tab_entry_def get_mpq_id_def)

text \<open>
  C22. Queueing (\<^verbatim>\<open>____add_f\<close>): when the queue has room, or the call ignores its limit, the function goes to the end of the queue with
  its arguments, the count grows by one, no other queue changes, and what a receiver reads of the arguments by the stored \<^verbatim>\<open>argc\<close> is
  what was passed. A full queue refuses a non-blocking call with \<^verbatim>\<open>AOSL_EAGAIN\<close>; a caller whose own queue is
  being destroyed gets \<^verbatim>\<open>AOSL_EINTR\<close> instead of waiting; a queue that is exiting cannot be its own \<^verbatim>\<open>done\<close> queue.
\<close>

theorem add_f_correct:
  assumes "queues s q = Some mq" and "queues s (this_q s) = Some tq" and "this_q s \<noteq> 0" and "payload_len data < 2 ^ 31"
  shows "let r = add_f (Suc fuel) e q no_fail False d ref name f data s in
    if exiting tq \<and> d = mq_id tq then r = Ret (- AOSL_EPERM, s)
    else if no_fail \<or> sint (mq_count mq) < q_max mq then
      (\<exists>s' fo. r = Ret (0, s') \<and> grown q [fo] s s' \<and> fo_f fo = f \<and> fo_ref fo = ref \<and> fo_done_qid fo = d \<and> sync_obj fo = None
        \<and> requeue_data (fo_argc fo) (fo_argv fo) = Ret data)
    else if q_flags mq AND AOSL_MPQ_FLAG_NONBLOCK \<noteq> 0 then r = Ret (- AOSL_EAGAIN, s)
    else terminated tq \<longrightarrow> r = Ret (- AOSL_EINTR, s)"
proof -
  let ?r = "add_f (Suc fuel) e q no_fail False d ref name f data s"
  consider (perm) "exiting tq \<and> d = mq_id tq" | (room) "\<not> (exiting tq \<and> d = mq_id tq)" "no_fail \<or> sint (mq_count mq) < q_max mq"
    | (full) "\<not> (exiting tq \<and> d = mq_id tq)" "\<not> (no_fail \<or> sint (mq_count mq) < q_max mq)" by blast
  then show ?thesis
  proof cases
    case perm
    with assms(2,3) show ?thesis by (simp add: add_f_def queue_at_def Let_def)
  next
    case room
    have "this_q s = 0 \<or> (\<exists>tq. queues s (this_q s) = Some tq \<and> \<not> (exiting tq \<and> d = mq_id tq))" using assms(2) room(1) by auto
    from add_f_room [OF assms(1) room(2) this, of fuel e ref name f data] obtain s' where
      s': "?r = Ret (0, s')" "grown q [new_fo (tick e s) False 0 d ref name f data] s s'" .
    have "requeue_data (argc_of data) data = Ret data" using assms(4) by (rule requeue_argc)
    then have "\<exists>s' fo. ?r = Ret (0, s') \<and> grown q [fo] s s' \<and> fo_f fo = f \<and> fo_ref fo = ref \<and> fo_done_qid fo = d \<and> sync_obj fo = None
        \<and> requeue_data (fo_argc fo) (fo_argv fo) = Ret data"
      by (intro exI [of _ s'] exI [of _ "new_fo (tick e s) False 0 d ref name f data"]) (use s' in \<open>simp add: new_fo_def\<close>)
    with room show ?thesis unfolding Let_def by (simp only: if_True if_False simp_thms)
  next
    case full
    have pass: "?r = add_f_loop (Suc fuel) e q no_fail (new_fo 0 False 0 d ref name f data) s"
      using full(1) assms(2,3) by (auto simp: add_f_def queue_at_def Let_def new_fo_def)
    have "?r = Ret (- AOSL_EAGAIN, s)" if "q_flags mq AND AOSL_MPQ_FLAG_NONBLOCK \<noteq> 0" using full(2) that assms(1) pass by (simp add: queue_at_def)
    moreover have "?r = Ret (- AOSL_EINTR, s)" if "q_flags mq AND AOSL_MPQ_FLAG_NONBLOCK = 0" "terminated tq"
      using full(2) that assms(1-3) pass by (simp add: queue_at_def)
    ultimately show ?thesis unfolding Let_def if_not_P [OF full(1)] if_not_P [OF full(2)] by auto
  qed
qed

theorem add_f_correct_witness:
  "\<exists>s' fo. add_f 1 env0 16 False False (- 1) (- 1) ''f'' 100 (Argv [7, 8]) sys0 = Ret (0, s') \<and> grown 16 [fo] sys0 s'
     \<and> requeue_data (fo_argc fo) (fo_argv fo) = Ret (Argv [7, 8])"
  using add_f_correct [of sys0 16 mq0 mq0 "Argv [7, 8]" 0 env0 False "- 1" "- 1" "''f''" 100] by (simp add: payload_len_def) blast

text \<open>
  C13. A function is finished exactly once (\<^verbatim>\<open>__invoke_f\<close>): it is called on the queue, with its object when that is alive; for a dead
  object it is called for freeing only, and that is all. Otherwise, when it has a \<^verbatim>\<open>done\<close> queue, it is queued there once with the same
  arguments, or, that queue being gone, called once more for freeing. Every reference and read lock taken
  for the call is given back: the use counts add up for the same holders as before, and every object has the lock it had. (Callbacks that leave the queues and objects alone.)
\<close>

theorem invoke_f_finishes_once:
  assumes "callback e = quiet_func g" and "queues_ok s" and "queues s q = Some mq" and "this_q s = q" and "mq_id mq \<noteq> AOSL_MPQ_INVALID"
    and "refs_ok (refsys s) refs" and "\<forall>p. refs p < 2 ^ 63" and "\<forall>p ro. robjs (refsys s) p = Some ro \<longrightarrow> \<not> writer (r_lock ro)"
    and "robjs (refsys s) AOSL_FREE_ONLY_OBJ = None" and "payload_len av < 2 ^ 31"
  shows "\<exists>robj s'. invoke_f (Suc fuel) e q d ref name f ts (argc_of av) av s = Ret s'
    \<and> (robj = 0 \<longleftrightarrow> aosl_ref_invalid ref) \<and> (robj = AOSL_FREE_ONLY_OBJ \<longleftrightarrow> \<not> aosl_ref_invalid ref \<and> \<not> live_obj (refsys s) ref)
    \<and> invoked s' = invoked s @ (q, f, robj, argc_of av, av) # (if done_to s d robj = Some None then [(q, f, AOSL_FREE_ONLY_OBJ, argc_of av, av)] else [])
    \<and> (case done_to s d robj of
         Some (Some dq) \<Rightarrow> \<exists>now. grown_map dq [new_fo now False 0 AOSL_MPQ_INVALID ref name f av] (queues s) (queues s')
       | _ \<Rightarrow> queues s' = queues s)
    \<and> refs_ok (refsys s') refs \<and> (\<forall>p. map_option r_lock (robjs (refsys s') p) = map_option r_lock (robjs (refsys s) p))"
proof -
  from invoke_refobj [OF assms(6-9), of "mpq_thread e s" ref] obtain robj locked r1 where
    get: "mpq_invoke_refobj_get (mpq_thread e s) ref (refsys s) = Ret (robj, locked, r1)" "robj = 0 \<longleftrightarrow> aosl_ref_invalid ref"
      "robj = AOSL_FREE_ONLY_OBJ \<longleftrightarrow> \<not> aosl_ref_invalid ref \<and> \<not> live_obj (refsys s) ref"
    and put: "\<And>t. self t = self (mpq_thread e s) \<Longrightarrow> \<exists>r2. mpq_invoke_refobj_put t robj locked r1 = Ret r2 \<and> refs_ok r2 refs \<and> same_locks (refsys s) r2" by blast
  have put': "\<exists>r2. mpq_invoke_refobj_put t robj locked r1 = Ret r2 \<and> refs_ok r2 refs \<and> same_locks (refsys s) r2" if "self t = self_id e" for t
    using put [of t] that by (simp add: mpq_thread_def)
  have putr: "\<exists>r2. mpq_invoke_refobj_put t robj locked r1 = Ret r2" if "self t = self_id e" for t using put' [OF that] by blast
  from invoke_f_ok [OF assms(1-5) get(1) putr requeue_argc [OF assms(10)] refl, of fuel d name f ts] obtain s' where
    s': "invoke_f (Suc fuel) e q d ref name f ts (argc_of av) av s = Ret s'"
    "invoked s' = invoked s @ (q, f, robj, argc_of av, av) # (if done_to s d robj = Some None then [(q, f, AOSL_FREE_ONLY_OBJ, argc_of av, av)] else [])"
    "case done_to s d robj of Some (Some dq) \<Rightarrow> (\<exists>now. grown_map dq [new_fo now False 0 AOSL_MPQ_INVALID ref name f av] (queues s) (queues s'))
       | _ \<Rightarrow> queues s' = queues s"
    "\<exists>t. self t = self_id e \<and> mpq_invoke_refobj_put t robj locked r1 = Ret (refsys s')" by blast
  from s'(4) obtain t where t: "self t = self_id e" "mpq_invoke_refobj_put t robj locked r1 = Ret (refsys s')" by blast
  with put' [OF t(1)] have "refs_ok (refsys s') refs" "\<forall>p. map_option r_lock (robjs (refsys s') p) = map_option r_lock (robjs (refsys s) p)" by (simp_all add: same_locks_def)
  with s'(1-3) get(2,3) show ?thesis by (intro exI [of _ robj] exI [of _ s'] conjI)
qed

theorem invoke_f_finishes_once_witness:
  "\<exists>s'. invoke_f 1 env0 16 0x10000 (- 1) ''f'' 100 5 (argc_of (Argv [7])) (Argv [7]) sys0 = Ret s' \<and> invoked s' = [(16, 100, 0, 1, Argv [7])]
     \<and> (\<exists>now. grown_map 16 [new_fo now False 0 AOSL_MPQ_INVALID (- 1) ''f'' 100 (Argv [7])] (queues sys0) (queues s'))"
proof -
  note inv = minus_one_invalid(1)
  have d: "done_to sys0 0x10000 0 = Some (Some 16)" using sys0_find
    by (simp add: done_to_def aosl_mpq_invalid_def get_mpq_id_def AOSL_FREE_ONLY_OBJ_def)
  have "mq_id mq0 \<noteq> AOSL_MPQ_INVALID" by (simp add: AOSL_MPQ_INVALID_def)
  from invoke_f_finishes_once [OF _ sys0_ok _ _ this _, of env0 "\<lambda>f robj av err. err" 16 "\<lambda>_. 0" "Argv [7]" 0 "0x10000" "- 1" "''f''" 100 5] ref0_ok inv d
  show ?thesis by (auto simp: payload_len_def argc_of_def)
qed

text \<open>
  C14. Running (\<^verbatim>\<open>__check_and_call_funcs\<close>): the functions on the queue are called once each in the order in which they were queued (each
  followed by its freeing call when its \<^verbatim>\<open>done\<close> queue is gone); the queue is then empty, the count has gone down by their number, the synchronous
  callers among them are released, and their number is returned. (Functions without reference objects whose
  \<^verbatim>\<open>done\<close> queue is another queue; callbacks that leave the queues alone.)
\<close>

theorem check_and_call_funcs_correct:
  assumes "callback e = quiet_func g" and "queues_ok s" and "queues s q = Some mq" and "this_q s = q" and "mq_id mq \<noteq> AOSL_MPQ_INVALID"
    and "\<forall>fo \<in> set (fos mq). plain_fo fo \<and> find_queue s (fo_done_qid fo) \<noteq> Some q"
  shows "\<exists>s' mq'. check_and_call_funcs (Suc fuel) e q s = Ret (int (length (fos mq)), s') \<and> queues s' q = Some mq' \<and> fos mq' = []
    \<and> mq_count mq' = mq_count mq - of_nat (length (fos mq)) \<and> invoked s' = invoked s @ concat (map (calls_of s q) (fos mq))
    \<and> sync_done s' = rev (List.map_filter sync_obj (fos mq)) @ sync_done s"
proof (cases "fos mq = []")
  case True
  with assms(3) show ?thesis by (intro exI [of _ s] exI [of _ mq]) (simp add: check_and_call_funcs_def queue_at_def map_filter_simps)
next
  case False
  let ?mq = "mq\<lparr>fos := []\<rparr>"
  let ?s = "s\<lparr>queues := (queues s)(q \<mapsto> ?mq)\<rparr>"
  have ids: "same_ids s ?s" using assms(3) by (auto simp: same_ids_def)
  have fq: "find_queue ?s d = find_queue s d" for d by (rule same_ids_find [OF ids])
  have cl: "calls_of ?s q x = calls_of s q x" for x by (simp add: calls_of_def fq)
  have pre: "queues ?s q = Some ?mq" "this_q ?s = q" "mq_id ?mq \<noteq> AOSL_MPQ_INVALID"
    "\<forall>fo \<in> set (fos mq). plain_fo fo \<and> find_queue ?s (fo_done_qid fo) \<noteq> Some q" using assms(4-6) by (simp_all add: fq)
  from run_plain [OF assms(1) same_ids_ok [OF ids assms(2)] pre, of fuel 0] obtain s' m' where
    r: "run_funcs (Suc fuel) e q (fos mq) 0 ?s = Ret (0 + int (length (fos mq)), s')" "queues s' q = Some m'" "fos m' = fos ?mq"
    "mq_count m' = mq_count ?mq - of_nat (length (fos mq))" "invoked s' = invoked ?s @ concat (map (calls_of ?s q) (fos mq))"
    "sync_done s' = rev (List.map_filter sync_obj (fos mq)) @ sync_done ?s" by blast
  have "check_and_call_funcs (Suc fuel) e q s = Ret (int (length (fos mq)), s')"
    using assms(3) False r(1) by (simp add: check_and_call_funcs_def queue_at_def take_funcs_def)
  moreover have "concat (map (calls_of ?s q) (fos mq)) = concat (map (calls_of s q) (fos mq))" by (simp add: cl cong: map_cong)
  ultimately show ?thesis using r by (intro exI [of _ s'] exI [of _ m']) simp
qed

theorem check_and_call_funcs_correct_witness:
  "\<exists>s'. check_and_call_funcs 1 env0 16 (sys0\<lparr>queues := [16 \<mapsto> mq0\<lparr>fos := [new_fo 1 False 0 (- 1) (- 1) ''f'' 100 (Argv [7]), new_fo 2 True 3 0x10001 (- 1) ''g'' 200 (Argv [])],
       mq_count := 2\<rparr>]\<rparr>) = Ret (2, s')
     \<and> invoked s' = [(16, 100, 0, 1, Argv [7]), (16, 200, 0, 0, Argv []), (16, 200, AOSL_FREE_ONLY_OBJ, 0, Argv [])] \<and> sync_done s' = [3]"
proof -
  let ?fos = "[new_fo 1 False 0 (- 1) (- 1) ''f'' 100 (Argv [7]), new_fo 2 True 3 0x10001 (- 1) ''g'' 200 (Argv [])]"
  let ?mq = "mq0\<lparr>fos := ?fos, mq_count := 2\<rparr>" and ?s = "sys0\<lparr>queues := [16 \<mapsto> mq0\<lparr>fos := [new_fo 1 False 0 (- 1) (- 1) ''f'' 100 (Argv [7]), new_fo 2 True 3 0x10001 (- 1) ''g'' 200 (Argv [])],
       mq_count := 2\<rparr>]\<rparr>"
  have ok: "queues_ok ?s" by (auto simp: queues_ok_def tab_entry_def nth_list_update split: if_splits)
  have inv: "aosl_ref_invalid (- 1)" "aosl_mpq_invalid (- 1)" "\<not> aosl_mpq_invalid 0x10001"
    using minus_one_invalid(1,2) by (simp_all add: aosl_mpq_invalid_def [of "0x10001"] get_mpq_id_def)
  have fq: "find_queue ?s (- 1) = None" "find_queue ?s 0x10001 = None"
    using minus_one_invalid(3) by (simp_all add: find_queue_def get_mpq_id_def [of "0x10001"] tab_entry_def)
  have "plain_fo fo \<and> find_queue ?s (fo_done_qid fo) \<noteq> Some 16" if "fo \<in> set ?fos" for fo
    using that inv fq by (auto simp: plain_fo_def new_fo_def payload_len_def)
  then have p: "\<forall>fo \<in> set (fos ?mq). plain_fo fo \<and> find_queue ?s (fo_done_qid fo) \<noteq> Some 16" by simp
  have i: "mq_id ?mq \<noteq> AOSL_MPQ_INVALID" by (simp add: AOSL_MPQ_INVALID_def)
  have pre: "callback env0 = quiet_func (\<lambda>f robj av err. err)" "queues ?s 16 = Some ?mq" "this_q ?s = 16" by simp_all
  have calls: "calls_of ?s 16 (new_fo 1 False 0 (- 1) (- 1) ''f'' 100 (Argv [7])) = [(16, 100, 0, 1, Argv [7])]"
    "calls_of ?s 16 (new_fo 2 True 3 0x10001 (- 1) ''g'' 200 (Argv [])) = [(16, 200, 0, 0, Argv []), (16, 200, AOSL_FREE_ONLY_OBJ, 0, Argv [])]"
    using inv fq by (simp_all add: calls_of_def new_fo_def argc_of_def)
  from check_and_call_funcs_correct [OF pre(1) ok pre(2,3) i p, of 0] obtain s' where
    "check_and_call_funcs (Suc 0) env0 16 ?s = Ret (int (length (fos ?mq)), s')" "invoked s' = invoked ?s @ concat (map (calls_of ?s 16) (fos ?mq))"
    "sync_done s' = rev (List.map_filter sync_obj (fos ?mq)) @ sync_done ?s" by blast
  then show ?thesis using calls by (intro exI [of _ s']) (simp add: map_filter_simps new_fo_def)
qed

end
