(* ===== verification/Mpq_Api.thy ===== *)
theory Mpq_Api
  imports Mpq
begin

text \<open>
  The calls of \<^verbatim>\<open>include/api/aosl_mpq.h\<close> on queues by their identifier: queueing, synchronous and asynchronous calls with their limits and error numbers, and the queries of the
  running function. The life of queues is in \<open>Mpq_Life\<close>.
\<close>

definition mpq_fail :: "int \<Rightarrow> mpq_sys \<Rightarrow> (int \<times> mpq_sys) exec" where
  "mpq_fail err s = Ret (- 1, s\<lparr>mq_errno := err\<rparr>)"

definition mpq_return_err :: "int \<times> mpq_sys \<Rightarrow> (int \<times> mpq_sys) exec" where
  "mpq_return_err r = (case r of (err, s) \<Rightarrow> if - 4095 \<le> err \<and> err < 0 then mpq_fail (- err) s else Ret (err, s))"

subsection \<open>Queueing and calling by identifier\<close>

definition add_func_argv :: "nat \<Rightarrow> mpq_env \<Rightarrow> ptr \<Rightarrow> bool \<Rightarrow> u64 \<Rightarrow> u32 \<Rightarrow> string \<Rightarrow> ptr \<Rightarrow> u64 list \<Rightarrow> mpq_sys \<Rightarrow> (int \<times> mpq_sys) exec" where
  "add_func_argv fuel e q sync done_qid ref name f args s =
     (if MPQ_ARGC_MAX < length args then mpq_fail AOSL_E2BIG s
      else ebind (add_or_invoke_f fuel e q sync done_qid ref name f (Argv args) s) mpq_return_err)"

text \<open>The variable arguments are read into a vector first.\<close>

definition add_func_args :: "nat \<Rightarrow> mpq_env \<Rightarrow> ptr \<Rightarrow> bool \<Rightarrow> u64 \<Rightarrow> u32 \<Rightarrow> string \<Rightarrow> ptr \<Rightarrow> u64 list \<Rightarrow> mpq_sys \<Rightarrow> (int \<times> mpq_sys) exec" where
  "add_func_args fuel e q sync done_qid ref name f args s =
     (if MPQ_ARGC_MAX < length args then mpq_fail AOSL_E2BIG s
      else ebind (add_or_invoke_f fuel e q sync done_qid ref name f (Argv args) s) mpq_return_err)"

definition add_func_data :: "nat \<Rightarrow> mpq_env \<Rightarrow> ptr \<Rightarrow> bool \<Rightarrow> u64 \<Rightarrow> u32 \<Rightarrow> string \<Rightarrow> ptr \<Rightarrow> bytes \<Rightarrow> mpq_sys \<Rightarrow> (int \<times> mpq_sys) exec" where
  "add_func_data fuel e q sync done_qid ref name f data s =
     (if MPQ_DATA_LEN_MAX < length data then mpq_fail AOSL_EMSGSIZE s
      else ebind (add_or_invoke_f fuel e q sync done_qid ref name f (Data data) s) mpq_return_err)"

text \<open>\<open>treat_this\<close>: the calling thread's own queue is used without taking a reference.\<close>

definition with_queue :: "u64 \<Rightarrow> bool \<Rightarrow> (ptr \<Rightarrow> mpq_sys \<Rightarrow> (int \<times> mpq_sys) exec) \<Rightarrow> mpq_sys \<Rightarrow> (int \<times> mpq_sys) exec" where
  "with_queue tq treat_this work s =
     ebind (if treat_this then mpq_get_or_this tq s else mpq_get tq s) (\<lambda>(q, s).
     if q = 0 then mpq_fail AOSL_EINVAL s
     else
       ebind (work q s) (\<lambda>(err, s).
       ebind (if treat_this then mpq_put_or_this q s else mpq_put q s) (\<lambda>s. Ret (err, s))))"

definition add_func_args_qid :: "nat \<Rightarrow> mpq_env \<Rightarrow> u64 \<Rightarrow> bool \<Rightarrow> bool \<Rightarrow> u64 \<Rightarrow> u32 \<Rightarrow> string \<Rightarrow> ptr \<Rightarrow> u64 list \<Rightarrow> mpq_sys \<Rightarrow> (int \<times> mpq_sys) exec" where
  "add_func_args_qid fuel e tq treat_this sync dq ref name f args =
     with_queue tq treat_this (\<lambda>q. add_func_args fuel e q sync dq ref name f args)"

definition add_func_argv_qid :: "nat \<Rightarrow> mpq_env \<Rightarrow> u64 \<Rightarrow> bool \<Rightarrow> bool \<Rightarrow> u64 \<Rightarrow> u32 \<Rightarrow> string \<Rightarrow> ptr \<Rightarrow> u64 list \<Rightarrow> mpq_sys \<Rightarrow> (int \<times> mpq_sys) exec" where
  "add_func_argv_qid fuel e tq treat_this sync dq ref name f args =
     with_queue tq treat_this (\<lambda>q. add_func_argv fuel e q sync dq ref name f args)"

definition add_func_data_qid :: "nat \<Rightarrow> mpq_env \<Rightarrow> u64 \<Rightarrow> bool \<Rightarrow> bool \<Rightarrow> u64 \<Rightarrow> u32 \<Rightarrow> string \<Rightarrow> ptr \<Rightarrow> bytes \<Rightarrow> mpq_sys \<Rightarrow> (int \<times> mpq_sys) exec" where
  "add_func_data_qid fuel e tq treat_this sync dq ref name f data =
     with_queue tq treat_this (\<lambda>q. add_func_data fuel e q sync dq ref name f data)"

definition aosl_mpq_queue :: "nat \<Rightarrow> mpq_env \<Rightarrow> u64 \<Rightarrow> u64 \<Rightarrow> u32 \<Rightarrow> string \<Rightarrow> ptr \<Rightarrow> u64 list \<Rightarrow> mpq_sys \<Rightarrow> (int \<times> mpq_sys) exec" where
  "aosl_mpq_queue fuel e tq dq ref name f args s = add_func_args_qid fuel e tq False False dq ref name f args s"

definition aosl_mpq_call :: "nat \<Rightarrow> mpq_env \<Rightarrow> u64 \<Rightarrow> u32 \<Rightarrow> string \<Rightarrow> ptr \<Rightarrow> u64 list \<Rightarrow> mpq_sys \<Rightarrow> (int \<times> mpq_sys) exec" where
  "aosl_mpq_call fuel e qi ref name f args s = add_func_args_qid fuel e qi True True AOSL_MPQ_INVALID ref name f args s"

definition aosl_mpq_run :: "nat \<Rightarrow> mpq_env \<Rightarrow> u64 \<Rightarrow> u32 \<Rightarrow> string \<Rightarrow> ptr \<Rightarrow> u64 list \<Rightarrow> mpq_sys \<Rightarrow> (int \<times> mpq_sys) exec" where
  "aosl_mpq_run fuel e qi ref name f args s =
     ebind (this_mpq_id s) (\<lambda>this_id. add_func_args_qid fuel e qi True (this_id = qi) AOSL_MPQ_INVALID ref name f args s)"

definition aosl_mpq_queue_argv :: "nat \<Rightarrow> mpq_env \<Rightarrow> u64 \<Rightarrow> u64 \<Rightarrow> u32 \<Rightarrow> string \<Rightarrow> ptr \<Rightarrow> u64 list \<Rightarrow> mpq_sys \<Rightarrow> (int \<times> mpq_sys) exec" where
  "aosl_mpq_queue_argv fuel e tq dq ref name f args s = add_func_argv_qid fuel e tq False False dq ref name f args s"

definition aosl_mpq_call_argv :: "nat \<Rightarrow> mpq_env \<Rightarrow> u64 \<Rightarrow> u32 \<Rightarrow> string \<Rightarrow> ptr \<Rightarrow> u64 list \<Rightarrow> mpq_sys \<Rightarrow> (int \<times> mpq_sys) exec" where
  "aosl_mpq_call_argv fuel e qi ref name f args s = add_func_argv_qid fuel e qi True True AOSL_MPQ_INVALID ref name f args s"

definition aosl_mpq_run_argv :: "nat \<Rightarrow> mpq_env \<Rightarrow> u64 \<Rightarrow> u32 \<Rightarrow> string \<Rightarrow> ptr \<Rightarrow> u64 list \<Rightarrow> mpq_sys \<Rightarrow> (int \<times> mpq_sys) exec" where
  "aosl_mpq_run_argv fuel e qi ref name f args s =
     ebind (this_mpq_id s) (\<lambda>this_id. add_func_argv_qid fuel e qi True (this_id = qi) AOSL_MPQ_INVALID ref name f args s)"

definition aosl_mpq_queue_data :: "nat \<Rightarrow> mpq_env \<Rightarrow> u64 \<Rightarrow> u64 \<Rightarrow> u32 \<Rightarrow> string \<Rightarrow> ptr \<Rightarrow> bytes \<Rightarrow> mpq_sys \<Rightarrow> (int \<times> mpq_sys) exec" where
  "aosl_mpq_queue_data fuel e tq dq ref name f data s = add_func_data_qid fuel e tq False False dq ref name f data s"

definition aosl_mpq_call_data :: "nat \<Rightarrow> mpq_env \<Rightarrow> u64 \<Rightarrow> u32 \<Rightarrow> string \<Rightarrow> ptr \<Rightarrow> bytes \<Rightarrow> mpq_sys \<Rightarrow> (int \<times> mpq_sys) exec" where
  "aosl_mpq_call_data fuel e qi ref name f data s = add_func_data_qid fuel e qi True True AOSL_MPQ_INVALID ref name f data s"

definition aosl_mpq_run_data :: "nat \<Rightarrow> mpq_env \<Rightarrow> u64 \<Rightarrow> u32 \<Rightarrow> string \<Rightarrow> ptr \<Rightarrow> bytes \<Rightarrow> mpq_sys \<Rightarrow> (int \<times> mpq_sys) exec" where
  "aosl_mpq_run_data fuel e qi ref name f data s =
     ebind (this_mpq_id s) (\<lambda>this_id. add_func_data_qid fuel e qi True (this_id = qi) AOSL_MPQ_INVALID ref name f data s)"

subsection \<open>Flags and what is running\<close>

datatype bit_op = BITOP_OR | BITOP_AND | BITOP_XOR | BITOP_OTHER

definition queue_change_flags :: "bit_op \<Rightarrow> u32 \<Rightarrow> mp_queue \<Rightarrow> mp_queue" where
  "queue_change_flags bop bits mq = mq\<lparr>q_flags := (case bop of
     BITOP_OR \<Rightarrow> q_flags mq OR bits | BITOP_AND \<Rightarrow> q_flags mq AND bits | BITOP_XOR \<Rightarrow> q_flags mq XOR bits | BITOP_OTHER \<Rightarrow> q_flags mq)\<rparr>"

definition aosl_mpq_change_flags :: "u64 \<Rightarrow> bit_op \<Rightarrow> u32 \<Rightarrow> mpq_sys \<Rightarrow> (int \<times> mpq_sys) exec" where
  "aosl_mpq_change_flags qi bop bits =
     with_queue qi True (\<lambda>q s. ebind (upd_queue q (queue_change_flags bop bits) s) (\<lambda>s. Ret (0, s)))"

definition aosl_mpq_get_flags :: "u64 \<Rightarrow> mpq_sys \<Rightarrow> (int \<times> mpq_sys) exec" where
  "aosl_mpq_get_flags qi = with_queue qi True (\<lambda>q s. ebind (queue_at q s) (\<lambda>mq. Ret (sint (q_flags mq), s)))"

text \<open>The calls about the running thread's queue; what they store through a pointer is the second component of the result.\<close>

definition on_this :: "('a option \<Rightarrow> mpq_sys \<Rightarrow> (int \<times> 'a option \<times> mpq_sys) exec) \<Rightarrow> (mp_queue \<Rightarrow> int + 'a) \<Rightarrow> mpq_sys \<Rightarrow> (int \<times> 'a option \<times> mpq_sys) exec" where
  "on_this none work s =
     (if this_q s = 0 then Ret (- 1, None, s\<lparr>mq_errno := AOSL_EINVAL\<rparr>)
      else ebind (queue_at (this_q s) s) (\<lambda>mq.
        case work mq of Inl err \<Rightarrow> Ret (- 1, None, s\<lparr>mq_errno := err\<rparr>) | Inr x \<Rightarrow> none (Some x) s))"

definition aosl_mpq_run_func_arg :: "u64 \<Rightarrow> mpq_sys \<Rightarrow> (int \<times> u64 option \<times> mpq_sys) exec" where
  "aosl_mpq_run_func_arg n = on_this (\<lambda>out s. Ret (0, out, s)) (\<lambda>mq.
     case run_func_argv mq of
       None \<Rightarrow> Inl AOSL_EPERM
     | Some av \<Rightarrow>
         if run_func_argc mq AND ARGC_TYPE_DATA_LEN \<noteq> 0 then Inl AOSL_EINVAL
         else if run_func_argc mq \<le> n then Inl AOSL_ENOENT
         else (case av of Argv ws \<Rightarrow> Inr (ws ! unat n) | Data _ \<Rightarrow> Inl AOSL_EINVAL))"

definition aosl_mpq_run_func_data :: "mpq_sys \<Rightarrow> (int \<times> (u64 \<times> payload) option \<times> mpq_sys) exec" where
  "aosl_mpq_run_func_data = on_this (\<lambda>out s. Ret (0, out, s)) (\<lambda>mq.
     case run_func_argv mq of
       None \<Rightarrow> Inl AOSL_EPERM
     | Some av \<Rightarrow>
         if run_func_argc mq AND ARGC_TYPE_DATA_LEN = 0 then Inl AOSL_EINVAL
         else Inr (run_func_argc mq AND NOT ARGC_TYPE_DATA_LEN, av))"

definition aosl_mpq_run_func_done_qid :: "mpq_sys \<Rightarrow> (u64 \<times> mpq_sys) exec" where
  "aosl_mpq_run_func_done_qid s =
     (if this_q s = 0 then Ret (- 1, s\<lparr>mq_errno := AOSL_EINVAL\<rparr>) else ebind (queue_at (this_q s) s) (\<lambda>mq. Ret (run_func_done_qid mq, s)))"

definition aosl_mpq_running_refobj :: "ptr \<Rightarrow> mpq_sys \<Rightarrow> bool" where
  "aosl_mpq_running_refobj robj s = (if robj \<noteq> AOSL_FREE_ONLY_OBJ \<and> robj \<noteq> 0 then refobj_on_this_q robj s else False)"

definition aosl_mpq_get_q_arg :: "mpq_sys \<Rightarrow> (ptr \<times> mpq_sys) exec" where
  "aosl_mpq_get_q_arg s =
     (if this_q s = 0 then Ret (0, s\<lparr>mq_errno := AOSL_EINVAL\<rparr>) else ebind (queue_at (this_q s) s) (\<lambda>mq. Ret (mq_arg mq, s)))"

definition aosl_mpq_set_q_arg :: "ptr \<Rightarrow> mpq_sys \<Rightarrow> (int \<times> mpq_sys) exec" where
  "aosl_mpq_set_q_arg arg s =
     (if this_q s = 0 then mpq_fail AOSL_EINVAL s else ebind (upd_queue (this_q s) (\<lambda>mq. mq\<lparr>mq_arg := arg\<rparr>) s) (\<lambda>s. Ret (0, s)))"

definition aosl_mpq_queued_count :: "u64 \<Rightarrow> mpq_sys \<Rightarrow> (int \<times> mpq_sys) exec" where
  "aosl_mpq_queued_count qi = with_queue qi True (\<lambda>q s. ebind (queue_at q s) (\<lambda>mq. Ret (sint (ucast (mq_count mq) :: u32), s)))"

definition aosl_mpq_exec_counters :: "mpq_sys \<Rightarrow> (int \<times> (u64 \<times> u64 \<times> u64) option \<times> mpq_sys) exec" where
  "aosl_mpq_exec_counters = on_this (\<lambda>out s. Ret (0, out, s)) (\<lambda>mq. Inr (exec_funcs_count mq, exec_timers_count mq, exec_fds_count mq))"

definition aosl_mpq_this_destroyed :: "mpq_sys \<Rightarrow> bool exec" where
  "aosl_mpq_this_destroyed s = (if this_q s \<noteq> 0 then ebind (queue_at (this_q s) s) (\<lambda>mq. Ret (terminated mq)) else Ret True)"

definition aosl_mpq_is_main :: "mpq_sys \<Rightarrow> bool exec" where
  "aosl_mpq_is_main s = (if this_q s = 0 \<or> aosl_mpq_invalid (main_qid s) then Ret False
     else ebind (queue_at (this_q s) s) (\<lambda>mq. Ret (mq_id mq = main_qid s)))"

end
