(* ===== verification/Mpq_Life.thy ===== *)
theory Mpq_Life
  imports Mpq_Api
begin

text \<open>
  The life of queues in \<^verbatim>\<open>kernel/mpq.c\<close>: creation with its thread, the loop of that thread, termination and the final drain, waiting
  for the end of a queue, the main queue, and the ownership count of the library. The poll back end, the timers' pass, the release of the
  descriptors and the user's callbacks are fields of the environment. The last part follows one queue through every interleaving of
  its clients with its thread.
\<close>

subsection \<open>Creation and destruction\<close>

type_synonym user_init = "(ptr \<Rightarrow> mpq_sys \<Rightarrow> (int \<times> mpq_sys) exec) option"
type_synonym user_fini = "(ptr \<Rightarrow> mpq_sys \<Rightarrow> mpq_sys exec) option"

record life_env =
  funcs_env :: mpq_env
  q_mem :: "mpq_sys \<Rightarrow> ptr option"
  q_grow :: grow_mem
  mp_init_err :: "int option"
  thread_err :: int
  stack_base :: ptr
  run_timers :: "ptr \<Rightarrow> mpq_sys \<Rightarrow> (int \<times> mpq_sys) exec"
  first_expire :: "ptr \<Rightarrow> mpq_sys \<Rightarrow> u64 option"
  poll_dispatch :: "ptr \<Rightarrow> int \<Rightarrow> mpq_sys \<Rightarrow> (int \<times> mpq_sys) exec"
  fini_resources :: "ptr \<Rightarrow> mpq_sys \<Rightarrow> mpq_sys exec"
  shrink_pools :: "mpq_sys \<Rightarrow> mpq_sys exec"

definition MPQ_MAX_SIZE :: int where "MPQ_MAX_SIZE = 1000000"
definition MPQ_DEFAULT_SIZE :: int where "MPQ_DEFAULT_SIZE = 10000"

definition mpq_id_install :: "int \<Rightarrow> ptr \<Rightarrow> mpq_sys \<Rightarrow> mpq_sys exec" where
  "mpq_id_install ident q s =
     ebind (obj_id_install ident q (q_table s)) (\<lambda>(h, tab).
     upd_queue q (\<lambda>mq. mq\<lparr>mq_id := ucast h\<rparr>) (s\<lparr>q_table := tab\<rparr>))"

definition mpq_id_uninstall :: "int \<Rightarrow> ptr \<Rightarrow> mpq_sys \<Rightarrow> (int \<times> mpq_sys) exec" where
  "mpq_id_uninstall ident q s = ebind (obj_id_uninstall ident q (q_table s)) (\<lambda>(err, tab). Ret (err, s\<lparr>q_table := tab\<rparr>))"

text \<open>The fields after \<^verbatim>\<open>__q_create\<close>; the identifier is written by the installation.\<close>

definition new_queue :: "u32 \<Rightarrow> int \<Rightarrow> mp_queue" where
  "new_queue flags max_size = \<lparr>mq_usage = 1, mq_id = AOSL_MPQ_INVALID, need_kicking = False, terminated = False, exiting = False, q_flags = flags,
     q_max = max_size, wait_q_count = 0, fos = [], mq_count = 0, kick_q_count = 0, run_func_done_qid = AOSL_MPQ_INVALID, run_func_refobj = [],
     run_func_argc = 0, run_func_argv = None, mq_arg = 0,
     mq_stack = \<lparr>stack_id = AOSL_STACK_INVALID, prepare_calls = 0, err_stack_id = AOSL_STACK_INVALID, task_exec_err = 0, resume_calls = 0,
       prepare_calls_count = 0, task_exec_count = 0\<rparr>,
     exec_funcs_count = 0, exec_timers_count = 0, exec_fds_count = 0, destroy_wait = []\<rparr>"

definition q_create :: "life_env \<Rightarrow> u32 \<Rightarrow> int \<Rightarrow> mpq_sys \<Rightarrow> (ptr \<times> mpq_sys) exec" where
  "q_create le flags max_size s = (case q_mem le s of
       None \<Rightarrow> Ret (0, s)
     | Some q \<Rightarrow> (case mp_init_err le of
         Some err \<Rightarrow> Ret (0, s\<lparr>mq_errno := err\<rparr>)
       | None \<Rightarrow>
           let s = s\<lparr>queues := (queues s)(q \<mapsto> new_queue flags max_size)\<rparr> in
           ebind (get_unused_mpq_id (q_grow le) (q_table s)) (\<lambda>(ident, tab). let s = s\<lparr>q_table := tab\<rparr> in
           if ident < 0 then Ret (0, s\<lparr>queues := (queues s)(q := None), mq_errno := - ident\<rparr>)
           else ebind (mpq_id_install ident q s) (\<lambda>s. Ret (q, s)))))"

definition q_destroy :: "life_env \<Rightarrow> ptr \<Rightarrow> mpq_sys \<Rightarrow> mpq_sys exec" where
  "q_destroy le q s =
     ebind (queue_at q s) (\<lambda>mq. let ident = mq_id mq in
     ebind (fini_resources le q s) (\<lambda>s.
     ebind (put_unused_mpq_id (get_mpq_id ident) (q_table s)) (\<lambda>tab. let s = s\<lparr>q_table := tab\<rparr> in
     ebind (if ident = main_qid s then shrink_pools le (s\<lparr>main_qid := AOSL_MPQ_INVALID\<rparr>) else Ret s) (\<lambda>s.
     Ret (s\<lparr>queues := (queues s)(q := None)\<rparr>)))))"

text \<open>The loops of \<^verbatim>\<open>__q_wait_destroy\<close>: while other threads hold references, and then until nothing is queued.\<close>

fun drain_users :: "nat \<Rightarrow> mpq_env \<Rightarrow> ptr \<Rightarrow> mpq_sys \<Rightarrow> mpq_sys exec" where
  "drain_users 0 e q s = NoFuel"
| "drain_users (Suc fuel) e q s =
     ebind (queue_at q s) (\<lambda>mq.
     if 1 < sint (mq_usage mq) then ebind (check_and_call_funcs (Suc fuel) e q s) (\<lambda>(_, s). drain_users fuel e q (others e s))
     else Ret s)"

fun drain_own :: "nat \<Rightarrow> mpq_env \<Rightarrow> ptr \<Rightarrow> mpq_sys \<Rightarrow> mpq_sys exec" where
  "drain_own 0 e q s = NoFuel"
| "drain_own (Suc fuel) e q s = ebind (check_and_call_funcs (Suc fuel) e q s) (\<lambda>(n, s). if n = 0 then Ret s else drain_own fuel e q s)"

definition q_wait_destroy :: "nat \<Rightarrow> life_env \<Rightarrow> user_fini \<Rightarrow> ptr \<Rightarrow> ptr \<Rightarrow> mpq_sys \<Rightarrow> mpq_sys exec" where
  "q_wait_destroy fuel le fini arg q s =
     ebind (queue_at q s) (\<lambda>mq.
     ebind (mpq_id_uninstall (get_mpq_id (mq_id mq)) q s) (\<lambda>(_, s).
     ebind (drain_users fuel (funcs_env le) q s) (\<lambda>s.
     ebind (drain_own fuel (funcs_env le) q s) (\<lambda>s.
     ebind (case fini of None \<Rightarrow> Ret s | Some f \<Rightarrow> f arg s) (\<lambda>s.
     ebind (queue_at q s) (\<lambda>mq.
     ebind (q_destroy le q (s\<lparr>this_q := 0\<rparr>)) (\<lambda>s.
     Ret (s\<lparr>sync_done := rev (destroy_wait mq) @ sync_done s\<rparr>))))))))"

subsection \<open>The thread of a queue\<close>

definition more_u64 :: "int \<Rightarrow> u64 \<Rightarrow> u64" where
  "more_u64 n c = (if 0 < n then c + word_of_int n else c)"

fun mp_queue_poll_loop :: "nat \<Rightarrow> life_env \<Rightarrow> ptr \<Rightarrow> mpq_sys \<Rightarrow> mpq_sys exec" where
  "mp_queue_poll_loop 0 le q s = NoFuel"
| "mp_queue_poll_loop (Suc fuel) le q s =
     ebind (check_and_call_funcs (Suc fuel) (funcs_env le) q s) (\<lambda>(n, s).
     ebind (upd_queue q (\<lambda>mq. mq\<lparr>exec_funcs_count := more_u64 n (exec_funcs_count mq)\<rparr>) s) (\<lambda>s.
     ebind (run_timers le q s) (\<lambda>(n, s).
     ebind (upd_queue q (\<lambda>mq. mq\<lparr>exec_timers_count := more_u64 n (exec_timers_count mq)\<rparr>) s) (\<lambda>s.
     ebind (queue_at q s) (\<lambda>mq.
     if terminated mq then upd_queue q (\<lambda>mq. mq\<lparr>exiting := True\<rparr>) s
     else
       let timeo = mpq_max_wait_time (tick (funcs_env le) s) (first_expire le q s) in
       ebind (poll_dispatch le q timeo s) (\<lambda>(n, s).
       if n < 0 then Abort
       else
         ebind (upd_queue q (\<lambda>mq. mq\<lparr>exec_fds_count := more_u64 n (exec_fds_count mq)\<rparr>) s) (\<lambda>s.
         mp_queue_poll_loop fuel le q s)))))))"

definition set_stack_base :: "life_env \<Rightarrow> ptr \<Rightarrow> mpq_sys \<Rightarrow> mpq_sys exec" where
  "set_stack_base le q s = upd_queue q (\<lambda>mq. mq\<lparr>mq_stack := (mq_stack mq)\<lparr>stack_id := stack_base le\<rparr>\<rparr>) s"

text \<open>The thread up to the signal to its creator (queue or 0, error number), and from there on.\<close>

definition mpq_thread_start :: "nat \<Rightarrow> life_env \<Rightarrow> u32 \<Rightarrow> int \<Rightarrow> user_init \<Rightarrow> user_fini \<Rightarrow> ptr \<Rightarrow> mpq_sys \<Rightarrow> (ptr \<times> int \<times> mpq_sys) exec" where
  "mpq_thread_start fuel le flags max_size init fini arg s =
     ebind (q_create le flags max_size s) (\<lambda>(q, s). let err = mq_errno s in
     if q \<noteq> 0 then
       ebind (upd_queue q (\<lambda>mq. mq\<lparr>mq_arg := arg\<rparr>) s) (\<lambda>s.
       ebind (set_stack_base le q (s\<lparr>this_q := q\<rparr>)) (\<lambda>s.
       case init of
         None \<Rightarrow> Ret (q, err, s)
       | Some f \<Rightarrow>
           ebind (f arg s) (\<lambda>(r, s).
           if r < 0 then
             let err = mq_errno s in
             ebind (upd_queue q (\<lambda>mq. mq\<lparr>terminated := True, exiting := True\<rparr>) s) (\<lambda>s.
             ebind (q_wait_destroy fuel le fini arg q s) (\<lambda>s. Ret (0, err, s)))
           else Ret (q, err, s))))
     else ebind (case fini of None \<Rightarrow> Ret s | Some f \<Rightarrow> f arg s) (\<lambda>s. Ret (0, err, s)))"

definition mpq_thread_run :: "nat \<Rightarrow> life_env \<Rightarrow> user_fini \<Rightarrow> ptr \<Rightarrow> ptr \<Rightarrow> mpq_sys \<Rightarrow> mpq_sys exec" where
  "mpq_thread_run fuel le fini arg q s =
     (if q \<noteq> 0 then
        ebind (set_stack_base le q s) (\<lambda>s.
        ebind (mp_queue_poll_loop fuel le q s) (q_wait_destroy fuel le fini arg q))
      else Ret s)"

text \<open>The creator waits until the new thread has signalled; its own queue and error number are its own.\<close>

definition mpq_create :: "nat \<Rightarrow> life_env \<Rightarrow> u32 \<Rightarrow> int \<Rightarrow> user_init \<Rightarrow> user_fini \<Rightarrow> ptr \<Rightarrow> mpq_sys \<Rightarrow> (ptr \<times> mpq_sys) exec" where
  "mpq_create fuel le flags max_size init fini arg s =
     (if max_size < 1 \<or> MPQ_MAX_SIZE < max_size then Ret (0, s\<lparr>mq_errno := AOSL_EINVAL\<rparr>)
      else if thread_err le \<noteq> 0 then Ret (0, s)
      else
        ebind (mpq_thread_start fuel le flags max_size init fini arg (s\<lparr>this_q := 0\<rparr>)) (\<lambda>(q, err, s').
        Ret (q, s'\<lparr>this_q := this_q s, mq_errno := (if q = 0 then err else mq_errno s)\<rparr>)))"

definition mpq_create_flags :: "nat \<Rightarrow> life_env \<Rightarrow> u32 \<Rightarrow> int \<Rightarrow> user_init \<Rightarrow> user_fini \<Rightarrow> ptr \<Rightarrow> mpq_sys \<Rightarrow> (u64 \<times> mpq_sys) exec" where
  "mpq_create_flags fuel le flags max_size init fini arg s =
     (if flags AND 0xffff0000 \<noteq> 0 then Ret (- 1, s\<lparr>mq_errno := AOSL_EINVAL\<rparr>)
      else
        ebind (mpq_create fuel le flags max_size init fini arg s) (\<lambda>(q, s).
        if q \<noteq> 0 then ebind (queue_at q s) (\<lambda>mq. Ret (mq_id mq, s)) else Ret (AOSL_MPQ_INVALID, s)))"

definition aosl_mpq_create :: "nat \<Rightarrow> life_env \<Rightarrow> int \<Rightarrow> user_init \<Rightarrow> user_fini \<Rightarrow> ptr \<Rightarrow> mpq_sys \<Rightarrow> (u64 \<times> mpq_sys) exec" where
  "aosl_mpq_create fuel le max_size init fini arg s = mpq_create_flags fuel le 0 max_size init fini arg s"

definition aosl_mpq_create_flags :: "nat \<Rightarrow> life_env \<Rightarrow> u32 \<Rightarrow> int \<Rightarrow> user_init \<Rightarrow> user_fini \<Rightarrow> ptr \<Rightarrow> mpq_sys \<Rightarrow> (u64 \<times> mpq_sys) exec" where
  "aosl_mpq_create_flags fuel le flags max_size init fini arg s = mpq_create_flags fuel le flags max_size init fini arg s"

definition get_or_create_current :: "life_env \<Rightarrow> mpq_sys \<Rightarrow> (ptr \<times> mpq_sys) exec" where
  "get_or_create_current le s =
     (if this_q s = 0 then
        ebind (q_create le 0 MPQ_DEFAULT_SIZE s) (\<lambda>(q, s). Ret (q, if q \<noteq> 0 then s\<lparr>this_q := q\<rparr> else s))
      else Ret (this_q s, s))"

definition aosl_mpq_this :: "mpq_sys \<Rightarrow> u64 exec" where
  "aosl_mpq_this s = this_mpq_id s"

definition aosl_mpq_current :: "life_env \<Rightarrow> mpq_sys \<Rightarrow> (u64 \<times> mpq_sys) exec" where
  "aosl_mpq_current le s =
     ebind (get_or_create_current le s) (\<lambda>(q, s). if q \<noteq> 0 then ebind (queue_at q s) (\<lambda>mq. Ret (mq_id mq, s)) else Ret (- 1, s))"

definition aosl_mpq_loop :: "nat \<Rightarrow> life_env \<Rightarrow> mpq_sys \<Rightarrow> mpq_sys exec" where
  "aosl_mpq_loop fuel le s =
     (if this_q s \<noteq> 0 then
        ebind (set_stack_base le (this_q s) s) (\<lambda>s'.
        ebind (mp_queue_poll_loop fuel le (this_q s) s') (q_wait_destroy fuel le None 0 (this_q s)))
      else Ret s)"

subsection \<open>Terminating and waiting\<close>

text \<open>The waiters that \<^verbatim>\<open>__mpq_destroy\<close> wakes on the caller's own queue look at it again, which changes nothing here.\<close>

definition mpq_destroy_q :: "mpq_env \<Rightarrow> ptr \<Rightarrow> mpq_sys \<Rightarrow> mpq_sys exec" where
  "mpq_destroy_q e q s =
     ebind (upd_queue q (\<lambda>mq. mq\<lparr>terminated := True\<rparr>) s) (\<lambda>s. if q \<noteq> this_q s then mp_kick_q e q s else Ret s)"

definition mpq_destroy :: "mpq_env \<Rightarrow> u64 \<Rightarrow> bool \<Rightarrow> mpq_sys \<Rightarrow> (int \<times> mpq_sys) exec" where
  "mpq_destroy e qi check_allowed s =
     ebind (mpq_get qi s) (\<lambda>(q, s).
     if q = 0 then mpq_fail AOSL_EINVAL s
     else
       ebind (queue_at q s) (\<lambda>mq.
       if check_allowed \<and> q_flags mq AND AOSL_MPQ_FLAG_DESTROY_NOT_ALLOWED \<noteq> 0 then ebind (mpq_put q s) (mpq_fail AOSL_EPERM)
       else ebind (mpq_destroy_q e q s) (\<lambda>s. ebind (mpq_put q s) (\<lambda>s. Ret (0, s)))))"

definition aosl_mpq_destroy :: "mpq_env \<Rightarrow> u64 \<Rightarrow> mpq_sys \<Rightarrow> (int \<times> mpq_sys) exec" where
  "aosl_mpq_destroy e qi s = mpq_destroy e qi True s"

text \<open>A wait entry is a synchronisation object like that of a synchronous call.\<close>

definition mpq_add_wait :: "ptr \<Rightarrow> mpq_sys \<Rightarrow> (nat \<times> mpq_sys) exec" where
  "mpq_add_wait q s =
     ebind (upd_queue q (\<lambda>mq. mq\<lparr>destroy_wait := destroy_wait mq @ [sync_count s]\<rparr>) s) (\<lambda>s'.
     Ret (sync_count s, s'\<lparr>sync_count := Suc (sync_count s)\<rparr>))"

definition mpq_destroy_wait :: "nat \<Rightarrow> mpq_env \<Rightarrow> nat \<Rightarrow> mpq_sys \<Rightarrow> (int \<times> mpq_sys) exec" where
  "mpq_destroy_wait fuel e n s = ebind (await_sync fuel e n s) (\<lambda>s. Ret (0, s))"

definition mpq_do_wait :: "nat \<Rightarrow> mpq_env \<Rightarrow> u64 \<Rightarrow> bool \<Rightarrow> bool \<Rightarrow> mpq_sys \<Rightarrow> (int \<times> mpq_sys) exec" where
  "mpq_do_wait fuel e qi issue_destroy check_allowed s =
     ebind (mpq_get qi s) (\<lambda>(q, s).
     if q = 0 then Ret (- AOSL_EINVAL, s)
     else if q = this_q s then ebind (mpq_put q s) (\<lambda>s. Ret (- AOSL_EBUSY, s))
     else
       ebind (queue_at q s) (\<lambda>mq.
       if issue_destroy \<and> check_allowed \<and> q_flags mq AND AOSL_MPQ_FLAG_DESTROY_NOT_ALLOWED \<noteq> 0
       then ebind (mpq_put q s) (\<lambda>s. Ret (- AOSL_EPERM, s))
       else
         ebind (mpq_add_wait q s) (\<lambda>(n, s).
         ebind (if issue_destroy then mpq_destroy_q e q s else Ret s) (\<lambda>s.
         ebind (mpq_put q s) (mpq_destroy_wait fuel e n)))))"

definition aosl_mpq_destroy_wait :: "nat \<Rightarrow> mpq_env \<Rightarrow> u64 \<Rightarrow> mpq_sys \<Rightarrow> (int \<times> mpq_sys) exec" where
  "aosl_mpq_destroy_wait fuel e qi s = ebind (mpq_do_wait fuel e qi True True s) mpq_return_err"

definition aosl_mpq_wait :: "nat \<Rightarrow> mpq_env \<Rightarrow> u64 \<Rightarrow> mpq_sys \<Rightarrow> (int \<times> mpq_sys) exec" where
  "aosl_mpq_wait fuel e qi s = ebind (mpq_do_wait fuel e qi False True s) mpq_return_err"

subsection \<open>The main queue\<close>

text \<open>The registration of the exit handler is not state of the library. \<^verbatim>\<open>aosl_mpq_main\<close> goes through an \<^verbatim>\<open>int\<close>.\<close>

definition aosl_main_start :: "nat \<Rightarrow> life_env \<Rightarrow> user_init \<Rightarrow> user_fini \<Rightarrow> ptr \<Rightarrow> mpq_sys \<Rightarrow> (int \<times> mpq_sys) exec" where
  "aosl_main_start fuel le init fini arg s =
     (if main_qid s = - 1 then
        ebind (mpq_create fuel le (AOSL_MPQ_FLAG_DESTROY_NOT_ALLOWED OR AOSL_MPQ_FLAG_NONBLOCK) 100000 init fini arg (s\<lparr>main_qid := 0\<rparr>)) (\<lambda>(q, s).
        if q = 0 then Ret (- 1, s)
        else ebind (queue_at q s) (\<lambda>mq. Ret (0, s\<lparr>main_qid := mq_id mq\<rparr>)))
      else mpq_fail AOSL_EEXIST s)"

definition aosl_mpq_main :: "mpq_sys \<Rightarrow> u64" where
  "aosl_mpq_main s = (let main_q = scast (ucast (main_qid s) :: u32) in if get_mpq_id main_q < 0 then AOSL_MPQ_INVALID else main_q)"

definition aosl_main_exit :: "mpq_env \<Rightarrow> mpq_sys \<Rightarrow> (int \<times> mpq_sys) exec" where
  "aosl_main_exit e s = mpq_destroy e (main_qid s) False s"

definition aosl_main_exit_wait :: "nat \<Rightarrow> mpq_env \<Rightarrow> mpq_sys \<Rightarrow> (int \<times> mpq_sys) exec" where
  "aosl_main_exit_wait fuel e s = ebind (mpq_do_wait fuel e (main_qid s) True False s) mpq_return_err"

definition aosl_main_wait :: "nat \<Rightarrow> mpq_env \<Rightarrow> mpq_sys \<Rightarrow> (int \<times> mpq_sys) exec" where
  "aosl_main_wait fuel e s = ebind (mpq_do_wait fuel e (main_qid s) False False s) mpq_return_err"

definition aosl_perf_set_callback :: "ptr \<Rightarrow> mpq_sys \<Rightarrow> (int \<times> mpq_sys) exec" where
  "aosl_perf_set_callback f s = mpq_return_err (if mpq_count (q_table s) = 0 then (0, s\<lparr>perf_f := f\<rparr>) else (- AOSL_EPERM, s))"

subsection \<open>The ownership count of the library\<close>

datatype lib_module = Mod_mm | Mod_thread | Mod_errno | Mod_refobj | Mod_timer | Mod_fileobj | Mod_iofd | Mod_mpq | Mod_mpqp | Mod_route

datatype module_event = Init lib_module | Fini lib_module

record lib_state =
  init_refcount :: u64
  module_log :: "module_event list"

definition ctor_order :: "lib_module list" where
  "ctor_order = [Mod_mm, Mod_thread, Mod_errno, Mod_refobj, Mod_timer, Mod_fileobj, Mod_iofd, Mod_mpq, Mod_mpqp, Mod_route]"

definition dtor_order :: "lib_module list" where
  "dtor_order = [Mod_route, Mod_mpqp, Mod_mpq, Mod_iofd, Mod_fileobj, Mod_timer, Mod_refobj, Mod_errno, Mod_thread, Mod_mm]"

definition aosl_ctor :: "lib_state \<Rightarrow> lib_state" where
  "aosl_ctor l =
     (if 0 < sint (init_refcount l) then l\<lparr>init_refcount := init_refcount l + 1\<rparr>
      else l\<lparr>module_log := module_log l @ map Init ctor_order, init_refcount := 1\<rparr>)"

definition aosl_dtor :: "bool \<Rightarrow> lib_state \<Rightarrow> lib_state exec" where
  "aosl_dtor on_queue_thread l =
     (if init_refcount l = 0 then Ret l
      else
        let l = l\<lparr>init_refcount := init_refcount l - 1\<rparr> in
        if 0 < sint (init_refcount l) then Ret l
        else if on_queue_thread then Abort
        else Ret (l\<lparr>module_log := module_log l @ map Fini dtor_order\<rparr>))"

subsection \<open>One queue under every interleaving\<close>

text \<open>
  The queue at \<open>q\<close>, its thread and its clients. The thread is in its poll loop, in one of the two loops of \<^verbatim>\<open>__q_wait_destroy\<close>,
  or has destroyed the queue. \<open>l_holding\<close> counts the references the clients hold; \<open>l_added\<close> and \<open>l_executed\<close> are
  the functions that were queued and those that have been run. A client queues while it holds a reference (the full queue makes it wait, so
  the step may come late); the thread itself queues from a callback. A reference count below \<open>2 ^ 62\<close> is
  the number of threads that may hold one at a time.
\<close>

datatype life_phase = Polling | Users_left | Own_left | Destroyed

record q_life =
  l_sys :: mpq_sys
  l_phase :: life_phase
  l_batch :: "q_func_obj list"
  l_running :: "q_func_obj option"
  l_holding :: nat
  l_added :: "q_func_obj list"
  l_executed :: "q_func_obj list"

definition fo_done :: "mp_queue \<Rightarrow> mp_queue" where
  "fo_done mq = mq\<lparr>mq_stack := mpq_stack_fini (mq_stack mq), mq_count := mq_count mq - 1\<rparr>"

text \<open>The release of descriptors, timers and pools leaves the queues alone.\<close>

definition quiet_release :: "life_env \<Rightarrow> bool" where
  "quiet_release le \<longleftrightarrow> (\<forall>q s. fini_resources le q s = Ret s) \<and> (\<forall>s. shrink_pools le s = Ret s)"

inductive q_step :: "ptr \<Rightarrow> q_life \<Rightarrow> q_life \<Rightarrow> bool" for q :: ptr where
  client_get: "mpq_get qi (l_sys l) = Ret (q, s') \<Longrightarrow> q \<noteq> 0 \<Longrightarrow> l_holding l < 2 ^ 62
    \<Longrightarrow> q_step q l (l\<lparr>l_sys := s', l_holding := Suc (l_holding l)\<rparr>)"
| client_add: "0 < l_holding l \<Longrightarrow> upd_queue q (enqueue_fo now fo) (l_sys l) = Ret s'
    \<Longrightarrow> q_step q l (l\<lparr>l_sys := s', l_added := l_added l @ [fo\<lparr>queued_ts := now\<rparr>]\<rparr>)"
| client_kill: "0 < l_holding l \<Longrightarrow> mpq_destroy_q e q (l_sys l) = Ret s' \<Longrightarrow> q_step q l (l\<lparr>l_sys := s'\<rparr>)"
| client_put: "0 < l_holding l \<Longrightarrow> mpq_put q (l_sys l) = Ret s' \<Longrightarrow> q_step q l (l\<lparr>l_sys := s', l_holding := l_holding l - 1\<rparr>)"
| own_add: "l_phase l = Polling \<or> l_running l \<noteq> None \<Longrightarrow> upd_queue q (enqueue_fo now fo) (l_sys l) = Ret s'
    \<Longrightarrow> q_step q l (l\<lparr>l_sys := s', l_added := l_added l @ [fo\<lparr>queued_ts := now\<rparr>]\<rparr>)"
| take: "l_phase l \<noteq> Destroyed \<Longrightarrow> l_batch l = [] \<Longrightarrow> l_running l = None \<Longrightarrow> queue_at q (l_sys l) = Ret mq \<Longrightarrow> take_funcs mq = (batch, mq')
    \<Longrightarrow> q_step q l (l\<lparr>l_sys := (l_sys l)\<lparr>queues := (queues (l_sys l))(q \<mapsto> mq')\<rparr>, l_batch := batch\<rparr>)"
| start: "l_batch l = fo # batch \<Longrightarrow> l_running l = None \<Longrightarrow> q_step q l (l\<lparr>l_batch := batch, l_running := Some fo\<rparr>)"
| finish: "l_running l = Some fo \<Longrightarrow> upd_queue q fo_done (l_sys l) = Ret s'
    \<Longrightarrow> q_step q l (l\<lparr>l_sys := s', l_running := None, l_executed := l_executed l @ [fo]\<rparr>)"
| leave: "l_phase l = Polling \<Longrightarrow> l_batch l = [] \<Longrightarrow> l_running l = None \<Longrightarrow> queue_at q (l_sys l) = Ret mq \<Longrightarrow> terminated mq
    \<Longrightarrow> upd_queue q (\<lambda>mq. mq\<lparr>exiting := True\<rparr>) (l_sys l) = Ret s' \<Longrightarrow> mpq_id_uninstall (get_mpq_id (mq_id mq)) q s' = Ret (err, s'')
    \<Longrightarrow> q_step q l (l\<lparr>l_sys := s'', l_phase := Users_left\<rparr>)"
| users_gone: "l_phase l = Users_left \<Longrightarrow> l_batch l = [] \<Longrightarrow> l_running l = None \<Longrightarrow> queue_at q (l_sys l) = Ret mq \<Longrightarrow> \<not> 1 < sint (mq_usage mq)
    \<Longrightarrow> q_step q l (l\<lparr>l_phase := Own_left\<rparr>)"
| destroy: "l_phase l = Own_left \<Longrightarrow> l_batch l = [] \<Longrightarrow> l_running l = None \<Longrightarrow> queue_at q (l_sys l) = Ret mq \<Longrightarrow> fos mq = []
    \<Longrightarrow> quiet_release le
    \<Longrightarrow> q_destroy le q ((l_sys l)\<lparr>this_q := 0\<rparr>) = Ret s' \<Longrightarrow> q_step q l (l\<lparr>l_sys := s', l_phase := Destroyed\<rparr>)"

inductive q_reachable :: "ptr \<Rightarrow> q_life \<Rightarrow> q_life \<Rightarrow> bool" for q :: ptr and l0 :: q_life where
  here: "q_reachable q l0 l0"
| step: "q_reachable q l0 l \<Longrightarrow> q_step q l l' \<Longrightarrow> q_reachable q l0 l'"

inductive_cases q_reachableE: "q_reachable q l0 l"

text \<open>A queue just after its creation.\<close>

definition fresh_queue :: "ptr \<Rightarrow> mpq_sys \<Rightarrow> bool" where
  "fresh_queue q s \<longleftrightarrow> queues_ok s \<and> (\<exists>mq. queues s q = Some mq \<and> find_queue s (mq_id mq) = Some q \<and> fos mq = [] \<and> mq_count mq = 0 \<and> mq_usage mq = 1)
     \<and> (\<forall>i j. tab_entry (q_table s) i = Some q \<longrightarrow> tab_entry (q_table s) j = Some q \<longrightarrow> i = j)"

definition start_life :: "mpq_sys \<Rightarrow> q_life" where
  "start_life s = \<lparr>l_sys = s, l_phase = Polling, l_batch = [], l_running = None, l_holding = 0, l_added = [], l_executed = []\<rparr>"

definition running_list :: "q_life \<Rightarrow> q_func_obj list" where
  "running_list l = (case l_running l of None \<Rightarrow> [] | Some fo \<Rightarrow> [fo])"

text \<open>Only the slot of its identifier leads to the queue, and none after the uninstallation.\<close>

definition one_slot :: "ptr \<Rightarrow> mp_queue \<Rightarrow> q_life \<Rightarrow> bool" where
  "one_slot q mq l \<longleftrightarrow> (\<forall>i. tab_entry (q_table (l_sys l)) i = Some q \<longrightarrow> l_phase l = Polling \<and> get_mpq_id (mq_id mq) = int i)"

definition life_inv :: "ptr \<Rightarrow> q_life \<Rightarrow> bool" where
  "life_inv q l \<longleftrightarrow> queues_ok (l_sys l) \<and> l_holding l \<le> 2 ^ 62 \<and> (l_phase l = Own_left \<or> l_phase l = Destroyed \<longrightarrow> l_holding l = 0)
     \<and> (case queues (l_sys l) q of
         None \<Rightarrow> l_phase l = Destroyed \<and> l_batch l = [] \<and> l_running l = None \<and> l_executed l = l_added l
       | Some mq \<Rightarrow> l_phase l \<noteq> Destroyed \<and> l_added l = l_executed l @ running_list l @ l_batch l @ fos mq
           \<and> mq_count mq = of_nat (length (running_list l @ l_batch l @ fos mq)) \<and> mq_usage mq = of_nat (Suc (l_holding l)) \<and> one_slot q mq l)"

lemma life_invD:
  assumes "life_inv q l" and "queues (l_sys l) q = Some mq"
  shows "queues_ok (l_sys l)" "l_holding l \<le> 2 ^ 62" "l_phase l = Own_left \<longrightarrow> l_holding l = 0" "l_phase l \<noteq> Destroyed"
    "l_added l = l_executed l @ running_list l @ l_batch l @ fos mq" "mq_count mq = of_nat (length (running_list l @ l_batch l @ fos mq))"
    "mq_usage mq = of_nat (Suc (l_holding l))" "one_slot q mq l"
  using assms by (auto simp: life_inv_def)

lemma queues_ok_upd: "queues_ok s \<Longrightarrow> queues_ok (s\<lparr>queues := (queues s)(q \<mapsto> mq)\<rparr>)"
  by (auto simp: queues_ok_def)

text \<open>A step that writes the queue.\<close>

lemma life_inv_write:
  assumes inv: "life_inv q l" and mq: "queues (l_sys l) q = Some mq" and sys: "l_sys l' = (l_sys l)\<lparr>queues := (queues (l_sys l))(q \<mapsto> mq')\<rparr>"
    and "mq_id mq' = mq_id mq" and ph: "l_phase l' = l_phase l" and "l_holding l' \<le> 2 ^ 62" and "l_phase l = Own_left \<longrightarrow> l_holding l' = 0"
    and "l_added l' = l_executed l' @ running_list l' @ l_batch l' @ fos mq'"
    and "mq_count mq' = of_nat (length (running_list l' @ l_batch l' @ fos mq'))" and "mq_usage mq' = of_nat (Suc (l_holding l'))"
  shows "life_inv q l'"
proof -
  note d = life_invD [OF inv mq]
  have "one_slot q mq' l'" using d(8) assms(4) ph sys by (simp add: one_slot_def)
  moreover have "queues_ok (l_sys l')" unfolding sys by (rule queues_ok_upd [OF d(1)])
  ultimately show ?thesis using assms d(4) by (simp add: life_inv_def)
qed

lemma upd_queueD: "upd_queue q f s = Ret s' \<Longrightarrow> \<exists>mq. queues s q = Some mq \<and> s' = s\<lparr>queues := (queues s)(q \<mapsto> f mq)\<rparr>"
  by (auto simp: upd_queue_def queue_at_def split: option.splits)

lemma queue_atD: "queue_at q s = Ret mq \<Longrightarrow> queues s q = Some mq"
  by (auto simp: queue_at_def split: option.splits)

lemma plain_eqD: "plain a = plain b \<Longrightarrow> fos a = fos b \<and> mq_count a = mq_count b \<and> mq_usage a = mq_usage b \<and> mq_id a = mq_id b"
  by (cases a; cases b) (simp add: plain_def)

lemma life_inv_get:
  assumes inv: "life_inv q l" and get: "mpq_get qi (l_sys l) = Ret (q, s')" "q \<noteq> 0" "l_holding l < 2 ^ 62"
  shows "life_inv q (l\<lparr>l_sys := s', l_holding := Suc (l_holding l)\<rparr>)"
proof -
  have ok: "queues_ok (l_sys l)" using inv by (simp add: life_inv_def)
  from get(1,2) have f: "find_queue (l_sys l) qi = Some q" and s': "s' = hold_queue q (l_sys l)"
    unfolding mpq_get_find [OF ok] by (auto split: option.splits)
  from find_queue_Some [OF ok f] obtain mq where mq: "queues (l_sys l) q = Some mq" by blast
  note d = life_invD [OF inv mq]
  have "\<exists>i. tab_entry (q_table (l_sys l)) i = Some q" using f by (auto simp: find_queue_def split: if_splits option.splits)
  then have "l_phase l = Polling" using d(8) by (auto simp: one_slot_def)
  then show ?thesis using d mq s' get(3)
    by (intro life_inv_write [OF inv mq, of _ "mq\<lparr>mq_usage := mq_usage mq + 1\<rparr>"]) (simp_all add: hold_queue_def running_list_def)
qed

lemma life_inv_add:
  assumes inv: "life_inv q l" and "upd_queue q (enqueue_fo now fo) (l_sys l) = Ret s'"
  shows "life_inv q (l\<lparr>l_sys := s', l_added := l_added l @ [fo\<lparr>queued_ts := now\<rparr>]\<rparr>)"
proof -
  from upd_queueD [OF assms(2)] obtain mq where mq: "queues (l_sys l) q = Some mq"
    and s': "s' = (l_sys l)\<lparr>queues := (queues (l_sys l))(q \<mapsto> enqueue_fo now fo mq)\<rparr>" by blast
  note d = life_invD [OF inv mq]
  show ?thesis using d s'
    by (intro life_inv_write [OF inv mq, of _ "enqueue_fo now fo mq"]) (simp_all add: enqueue_fo_def running_list_def)
qed

lemma life_inv_kill:
  assumes inv: "life_inv q l" and "mpq_destroy_q e q (l_sys l) = Ret s'"
  shows "life_inv q (l\<lparr>l_sys := s'\<rparr>)"
proof -
  let ?s = "l_sys l"
  from assms(2) obtain mq where mq: "queues ?s q = Some mq"
    by (auto simp: mpq_destroy_q_def upd_queue_def queue_at_def split: option.splits)
  let ?mq = "mq\<lparr>terminated := True\<rparr>" and ?s1 = "?s\<lparr>queues := (queues ?s)(q \<mapsto> mq\<lparr>terminated := True\<rparr>)\<rparr>"
  have up: "upd_queue q (\<lambda>mq. mq\<lparr>terminated := True\<rparr>) ?s = Ret ?s1" using mq by (simp add: upd_queue_Ret)
  have "queues ?s1 q = Some ?mq" by simp
  from mp_kick_q_ok [OF this, of e] obtain mq' where k: "mp_kick_q e q ?s1 = Ret (?s1\<lparr>queues := (queues ?s1)(q \<mapsto> mq')\<rparr>)" "plain mq' = plain ?mq" .
  have "\<exists>m. s' = ?s\<lparr>queues := (queues ?s)(q \<mapsto> m)\<rparr> \<and> plain m = plain ?mq"
    using assms(2) k unfolding mpq_destroy_q_def up by (cases "q = this_q ?s") auto
  then obtain m where m: "s' = ?s\<lparr>queues := (queues ?s)(q \<mapsto> m)\<rparr>" "plain m = plain ?mq" by blast
  show ?thesis using m(1) plain_eqD [OF m(2)] life_invD [OF inv mq]
    by (intro life_inv_write [OF inv mq, of _ m]) (simp_all add: running_list_def)
qed

lemma life_inv_put:
  assumes inv: "life_inv q l" and h: "0 < l_holding l" and "mpq_put q (l_sys l) = Ret s'"
  shows "life_inv q (l\<lparr>l_sys := s', l_holding := l_holding l - 1\<rparr>)"
proof -
  from upd_queueD [OF assms(3) [unfolded mpq_put_def]] obtain mq where mq: "queues (l_sys l) q = Some mq"
    and s': "s' = (l_sys l)\<lparr>queues := (queues (l_sys l))(q \<mapsto> mq\<lparr>mq_usage := mq_usage mq - 1\<rparr>)\<rparr>" by blast
  obtain n where n: "l_holding l = Suc n" using h by (cases "l_holding l") auto
  show ?thesis using s' n life_invD [OF inv mq]
    by (intro life_inv_write [OF inv mq, of _ "mq\<lparr>mq_usage := mq_usage mq - 1\<rparr>"]) (simp_all add: running_list_def)
qed

lemma life_inv_take:
  assumes inv: "life_inv q l" and "l_batch l = []" "l_running l = None" "queue_at q (l_sys l) = Ret mq" "take_funcs mq = (batch, mq')"
  shows "life_inv q (l\<lparr>l_sys := (l_sys l)\<lparr>queues := (queues (l_sys l))(q \<mapsto> mq')\<rparr>, l_batch := batch\<rparr>)"
proof -
  note mq = queue_atD [OF assms(4)]
  show ?thesis using assms(2,3,5) life_invD [OF inv mq]
    by (intro life_inv_write [OF inv mq, of _ mq']) (auto simp: take_funcs_def running_list_def)
qed

lemma life_inv_finish:
  assumes inv: "life_inv q l" and "l_running l = Some fo" "upd_queue q fo_done (l_sys l) = Ret s'"
  shows "life_inv q (l\<lparr>l_sys := s', l_running := None, l_executed := l_executed l @ [fo]\<rparr>)"
proof -
  from upd_queueD [OF assms(3)] obtain mq where mq: "queues (l_sys l) q = Some mq"
    and s': "s' = (l_sys l)\<lparr>queues := (queues (l_sys l))(q \<mapsto> fo_done mq)\<rparr>" by blast
  show ?thesis using s' assms(2) life_invD [OF inv mq]
    by (intro life_inv_write [OF inv mq, of _ "fo_done mq"]) (simp_all add: running_list_def fo_done_def)
qed

lemma life_inv_start:
  assumes inv: "life_inv q l" and "l_batch l = fo # batch" "l_running l = None"
  shows "life_inv q (l\<lparr>l_batch := batch, l_running := Some fo\<rparr>)"
proof -
  obtain mq where mq: "queues (l_sys l) q = Some mq" using inv assms(2) by (cases "queues (l_sys l) q") (auto simp: life_inv_def)
  show ?thesis using assms(2,3) life_invD [OF inv mq] mq by (simp add: life_inv_def running_list_def one_slot_def)
qed

lemma uninstall_shape:
  assumes "mpq_id_uninstall ident q s = Ret (err, s')"
  obtains i where "ident = int i" "i < length (pool_table (q_table s))"
    "s' = s\<lparr>q_table := (if pool_table (q_table s) ! i = Some q then (q_table s)\<lparr>pool_table := (pool_table (q_table s))[i := None]\<rparr> else q_table s)\<rparr>"
proof -
  let ?t = "q_table s"
  have 0: "0 \<le> ident" "ident < pool_size ?t" "nat ident < length (pool_table ?t)"
    using assms by (auto simp: mpq_id_uninstall_def obj_id_uninstall_def bug_on_def arr_get_def split: if_splits)
  have "s' = s\<lparr>q_table := (if pool_table ?t ! nat ident = Some q then ?t\<lparr>pool_table := (pool_table ?t)[nat ident := None]\<rparr> else ?t)\<rparr>"
    using assms 0 by (cases "pool_table ?t ! nat ident = Some q") (simp_all add: mpq_id_uninstall_def obj_id_uninstall_def bug_on_def arr_get_def arr_set_def)
  with 0 show thesis by (intro that [of "nat ident"]) simp_all
qed

lemma uninstallD:
  assumes "mpq_id_uninstall ident q s = Ret (err, s')" and "\<forall>i. tab_entry (q_table s) i = Some q \<longrightarrow> ident = int i"
  shows "queues s' = queues s" "\<forall>i. tab_entry (q_table s') i \<noteq> Some q" "\<forall>i p. tab_entry (q_table s') i = Some p \<longrightarrow> tab_entry (q_table s) i = Some p"
    "pool_size (q_table s') = pool_size (q_table s) \<and> length (pool_table (q_table s')) = length (pool_table (q_table s))"
proof -
  from uninstall_shape [OF assms(1)] obtain i where i: "ident = int i" "i < length (pool_table (q_table s))"
    and s': "s' = s\<lparr>q_table := (if pool_table (q_table s) ! i = Some q then (q_table s)\<lparr>pool_table := (pool_table (q_table s))[i := None]\<rparr> else q_table s)\<rparr>" .
  show "queues s' = queues s" by (simp add: s')
  have "tab_entry (q_table s') j \<noteq> Some q" for j
  proof (cases "j = i")
    case True
    then show ?thesis using i by (simp add: s' tab_entry_def)
  next
    case False
    then have "tab_entry (q_table s) j \<noteq> Some q" using assms(2) i(1) by auto
    with False show ?thesis by (auto simp: s' tab_entry_def split: if_splits)
  qed
  then show "\<forall>j. tab_entry (q_table s') j \<noteq> Some q" by blast
  have "tab_entry (q_table s) j = Some p" if "tab_entry (q_table s') j = Some p" for j p
    using that by (cases "j = i") (auto simp: s' tab_entry_def split: if_splits)
  then show "\<forall>i p. tab_entry (q_table s') i = Some p \<longrightarrow> tab_entry (q_table s) i = Some p" by blast
  show "pool_size (q_table s') = pool_size (q_table s) \<and> length (pool_table (q_table s')) = length (pool_table (q_table s))" by (simp add: s')
qed

lemma life_inv_leave:
  assumes inv: "life_inv q l" and "l_phase l = Polling" "queue_at q (l_sys l) = Ret mq"
    and "upd_queue q (\<lambda>mq. mq\<lparr>exiting := True\<rparr>) (l_sys l) = Ret s'" "mpq_id_uninstall (get_mpq_id (mq_id mq)) q s' = Ret (err, s'')"
  shows "life_inv q (l\<lparr>l_sys := s'', l_phase := Users_left\<rparr>)"
proof -
  note mq = queue_atD [OF assms(3)]
  note d = life_invD [OF inv mq]
  have s': "s' = (l_sys l)\<lparr>queues := (queues (l_sys l))(q \<mapsto> mq\<lparr>exiting := True\<rparr>)\<rparr>" using assms(4) mq by (simp add: upd_queue_Ret)
  have slot: "\<forall>i. tab_entry (q_table s') i = Some q \<longrightarrow> get_mpq_id (mq_id mq) = int i" using d(8) by (simp add: s' one_slot_def)
  note u = uninstallD [OF assms(5) slot]
  have ok: "queues_ok s''" using queues_ok_upd [OF d(1), of q "mq\<lparr>exiting := True\<rparr>"] u(1,3,4) unfolding queues_ok_def s' [symmetric] by metis
  have q: "queues s'' q = Some (mq\<lparr>exiting := True\<rparr>)" using u(1) by (simp add: s')
  show ?thesis using d ok q u(2) by (simp add: life_inv_def one_slot_def running_list_def)
qed

lemma usage_one: "n \<le> 2 ^ 62 \<Longrightarrow> \<not> 1 < sint (of_nat (Suc n) :: u64) \<Longrightarrow> n = 0"
proof -
  assume n: "n \<le> 2 ^ 62" and "\<not> 1 < sint (of_nat (Suc n) :: u64)"
  moreover have "sint (of_nat (Suc n) :: u64) = int (Suc n)" using n by (simp only: signed_of_nat) (simp add: signed_take_bit_int_eq_self)
  ultimately show "n = 0" by linarith
qed

lemma life_inv_gone:
  assumes inv: "life_inv q l" and "queue_at q (l_sys l) = Ret mq" "l_phase l = Users_left" "\<not> 1 < sint (mq_usage mq)"
  shows "life_inv q (l\<lparr>l_phase := Own_left\<rparr>)"
proof -
  note mq = queue_atD [OF assms(2)]
  note d = life_invD [OF inv mq]
  have "l_holding l = 0" using usage_one [OF d(2)] assms(4) unfolding d(7) by blast
  then show ?thesis using d mq assms(3) by (simp add: life_inv_def one_slot_def running_list_def)
qed

lemma q_destroyD:
  assumes "q_destroy le q s = Ret s'" and "quiet_release le"
  shows "queues s' = (queues s)(q := None)" "tab_entry (q_table s') = tab_entry (q_table s)"
    "pool_size (q_table s') = pool_size (q_table s) \<and> length (pool_table (q_table s')) = length (pool_table (q_table s))"
  using assms
  by (auto simp: q_destroy_def quiet_release_def queue_at_def put_unused_mpq_id_def pool_put_unused_def bug_on_def tab_entry_def fun_eq_iff
      ebind_Ret_iff Let_def split: if_splits option.splits)

lemma life_inv_destroy:
  assumes inv: "life_inv q l" and "l_phase l = Own_left" "l_batch l = []" "l_running l = None" "queue_at q (l_sys l) = Ret mq" "fos mq = []"
    and "quiet_release le" "q_destroy le q ((l_sys l)\<lparr>this_q := 0\<rparr>) = Ret s'"
  shows "life_inv q (l\<lparr>l_sys := s', l_phase := Destroyed\<rparr>)"
proof -
  note mq = queue_atD [OF assms(5)]
  note d = life_invD [OF inv mq]
  note u = q_destroyD [OF assms(8,7)]
  have "tab_entry (q_table (l_sys l)) i \<noteq> Some q" for i using d(8) assms(2) by (auto simp: one_slot_def)
  then have "queues_ok s'" using d(1) u by (auto simp: queues_ok_def)
  then show ?thesis using assms(2-6) d u(1) by (simp add: life_inv_def running_list_def)
qed

lemma q_step_inv: "q_step q l l' \<Longrightarrow> life_inv q l \<Longrightarrow> life_inv q l'"
proof (induction rule: q_step.induct)
  case client_get then show ?case by (blast intro: life_inv_get)
next
  case client_add then show ?case by (blast intro: life_inv_add)
next
  case client_kill then show ?case by (blast intro: life_inv_kill)
next
  case client_put then show ?case by (blast intro: life_inv_put)
next
  case own_add then show ?case by (blast intro: life_inv_add)
next
  case take then show ?case by (blast intro: life_inv_take)
next
  case start then show ?case by (blast intro: life_inv_start)
next
  case finish then show ?case by (blast intro: life_inv_finish)
next
  case leave then show ?case by (blast intro: life_inv_leave)
next
  case users_gone then show ?case by (blast intro: life_inv_gone)
next
  case destroy then show ?case by (blast intro: life_inv_destroy)
qed

lemma fresh_life_inv:
  assumes "fresh_queue q s"
  shows "life_inv q (start_life s)"
proof -
  from assms obtain mq where mq: "queues s q = Some mq" "find_queue s (mq_id mq) = Some q" "fos mq = []" "mq_count mq = 0" "mq_usage mq = 1"
    and ok: "queues_ok s" and uniq: "\<forall>i j. tab_entry (q_table s) i = Some q \<longrightarrow> tab_entry (q_table s) j = Some q \<longrightarrow> i = j"
    unfolding fresh_queue_def by blast
  have "get_mpq_id (mq_id mq) = int i" if "tab_entry (q_table s) i = Some q" for i
  proof -
    have "0 \<le> get_mpq_id (mq_id mq)" "tab_entry (q_table s) (nat (get_mpq_id (mq_id mq))) = Some q"
      using mq(2) by (auto simp: find_queue_def split: if_splits option.splits)
    with uniq that have "nat (get_mpq_id (mq_id mq)) = i" by blast
    with \<open>0 \<le> get_mpq_id (mq_id mq)\<close> show ?thesis by simp
  qed
  with mq ok show ?thesis by (simp add: life_inv_def start_life_def running_list_def one_slot_def)
qed

lemma reachable_inv: "q_reachable q l0 l \<Longrightarrow> life_inv q l0 \<Longrightarrow> life_inv q l"
  by (induction rule: q_reachable.induct) (auto intro: q_step_inv)

lemma executed_prefix:
  assumes "life_inv q l"
  shows "\<exists>rest. l_added l = l_executed l @ rest"
  using assms by (cases "queues (l_sys l) q") (auto simp: life_inv_def)

abbreviation demo_fo :: q_func_obj where
  "demo_fo \<equiv> new_fo 5 False 0 (- 1) (- 1) ''f'' 100 (Argv [7])"

abbreviation sys1 :: mpq_sys where
  "sys1 \<equiv> sys0\<lparr>queues := [16 \<mapsto> mq0\<lparr>mq_usage := 2\<rparr>]\<rparr>"

lemma sys0_fresh: "fresh_queue 16 sys0"
  using sys0_ok sys0_find by (auto simp: fresh_queue_def tab_entry_def nth_list_update split: if_splits)

lemma sys0_life:
  obtains l where "q_reachable 16 (start_life sys0) l" "l_added l = [demo_fo]" "l_holding l = 1"
proof -
  define l1 where "l1 = (start_life sys0)\<lparr>l_sys := sys1, l_holding := 1\<rparr>"
  define s2 where "s2 = sys1\<lparr>queues := (queues sys1)(16 \<mapsto> enqueue_fo 5 demo_fo (mq0\<lparr>mq_usage := 2\<rparr>))\<rparr>"
  define l2 where "l2 = l1\<lparr>l_sys := s2, l_added := [demo_fo\<lparr>queued_ts := 5\<rparr>]\<rparr>"
  have "mpq_get 0x10000 (l_sys (start_life sys0)) = Ret (16, sys1)"
    using mpq_get_find [OF sys0_ok, of "0x10000"] sys0_find by (simp add: start_life_def hold_queue_def)
  from q_step.client_get [OF this] have 1: "q_step 16 (start_life sys0) l1" by (simp add: l1_def start_life_def)
  have "upd_queue 16 (enqueue_fo 5 demo_fo) (l_sys l1) = Ret s2" by (simp add: upd_queue_def queue_at_def l1_def s2_def)
  from q_step.client_add [OF _ this] have 2: "q_step 16 l1 l2" by (simp add: l2_def) (simp add: l1_def start_life_def)
  have "q_reachable 16 (start_life sys0) l2" using 1 2 by (blast intro: q_reachable.intros)
  then show thesis by (rule that) (simp_all add: l2_def l1_def new_fo_def)
qed

text \<open>
  C1. No function is lost (the queue under every interleaving of its clients with its thread): what has been run is a prefix
  of what was queued, in order; the count of the queue is what is still to be run; whoever holds a reference finds the queue in memory;
  a look-up never touches freed memory; and once the queue is destroyed every function that was queued has been run, nobody holds
  a reference and no identifier leads to it.
\<close>

theorem no_function_lost:
  assumes "fresh_queue q s" and "q_reachable q (start_life s) l"
  shows "(\<exists>rest. l_added l = l_executed l @ rest \<and> (\<forall>mq. queues (l_sys l) q = Some mq \<longrightarrow> mq_count mq = of_nat (length rest)))
    \<and> (0 < l_holding l \<longrightarrow> queues (l_sys l) q \<noteq> None) \<and> (\<forall>qi. \<exists>r. mpq_get qi (l_sys l) = Ret r)
    \<and> (l_phase l = Destroyed \<longrightarrow> l_executed l = l_added l \<and> l_holding l = 0 \<and> (\<forall>qi. find_queue (l_sys l) qi \<noteq> Some q))"
proof -
  note inv = reachable_inv [OF assms(2) fresh_life_inv [OF assms(1)]]
  have ok: "queues_ok (l_sys l)" using inv by (simp add: life_inv_def)
  have get: "\<exists>r. mpq_get qi (l_sys l) = Ret r" for qi unfolding mpq_get_find [OF ok] by (cases "find_queue (l_sys l) qi") auto
  show ?thesis
  proof (cases "queues (l_sys l) q")
    case None
    then have "find_queue (l_sys l) qi \<noteq> Some q" for qi using find_queue_Some [OF ok, of qi q] by auto
    with None inv get show ?thesis by (auto simp: life_inv_def)
  next
    case (Some mq)
    note d = life_invD [OF inv Some]
    show ?thesis using d(4-6) Some get by (intro conjI exI [of _ "running_list l @ l_batch l @ fos mq"]) auto
  qed
qed

theorem no_function_lost_witness:
  "\<exists>l :: q_life. l_added l = [demo_fo] \<and> l_holding l = 1 \<and> queues (l_sys l) 16 \<noteq> None \<and> (\<exists>rest. [demo_fo] = l_executed l @ rest)"
proof -
  obtain l where l: "q_reachable 16 (start_life sys0) l" "l_added l = [demo_fo]" "l_holding l = 1" by (rule sys0_life)
  from no_function_lost [OF sys0_fresh l(1)] l(2,3) show ?thesis by (intro exI [of _ l]) auto
qed

end
