(* ===== verification/Queue_Create.thy ===== *)
theory Queue_Create
  imports Mpq_Life
begin

text \<open>
  The table of queue identifiers as a \<open>handle_table\<close>, and what \<^verbatim>\<open>__mpq_create\<close> promises to its callers: a fresh queue that its identifier
  leads to, or nothing at all.
\<close>

subsection \<open>The table of queues\<close>

definition queue_table_ok :: "'p mpq_table \<Rightarrow> bool" where
  "queue_table_ok t \<longleftrightarrow> obj_table_ok t \<and> mpq_count t = of_nat (card {i. in_use t i})"

lemma queue_table_mpq: "queue_table_ok t \<Longrightarrow> mpq_table_ok t"
  by (simp add: queue_table_ok_def mpq_table_ok_def obj_table_ok_def)

lemma queue_alloc_law:
  assumes ok: "queue_table_ok t"
  shows "\<exists>r t'. get_unused_mpq_id m t = Ret (r, t') \<and> queue_table_ok t' \<and> (r < 0 \<longrightarrow> t' = t)
      \<and> (0 \<le> r \<longrightarrow> \<not> in_use t (nat r) \<and> in_use t' = (in_use t)(nat r := True) \<and> tab_entry t' = tab_entry t)"
proof -
  have o: "obj_table_ok t" using ok by (simp add: queue_table_ok_def)
  then have ok8: "pool_ok 8 t" by (simp add: obj_table_ok_def)
  from pool_alloc_spec [OF ok8 good_stride_8, of MPQ_ID_POOL_MAX_SIZE None m] obtain r t1 where
    r: "pool_get_unused 8 MPQ_ID_POOL_MAX_SIZE None m t = Ret (r, t1)"
    "0 \<le> r \<longrightarrow> \<not> in_use t (nat r) \<and> in_use t1 = (in_use t)(nat r := True) \<and> pool_granted 8 None t r t1" "r < 0 \<longrightarrow> t1 = t" by blast
  from mq.alloc_spec [OF queue_table_mpq [OF ok], of m] obtain r' t' where
    q: "get_unused_mpq_id m t = Ret (r', t')" "mpq_table_ok t'" by blast
  have eq: "r' = r" "t' = (if 0 \<le> r then t1\<lparr>mpq_count := mpq_count t1 + 1\<rparr> else t1)" using q(1) r(1) by (auto simp: get_unused_mpq_id_def)
  show ?thesis
  proof (cases "0 \<le> r")
    case True
    with r(2) have g: "pool_granted 8 None t r t1" and u: "\<not> in_use t (nat r)" "in_use t1 = (in_use t)(nat r := True)" by blast+
    note e = granted_entries [OF o g]
    have t': "t' = t1\<lparr>mpq_count := mpq_count t1 + 1\<rparr>" using eq True by simp
    have "obj_table_ok t'" using e(1) by (simp add: t' obj_table_ok_def pool_ok_def)
    then have "queue_table_ok t'" using q(2) by (simp add: queue_table_ok_def mpq_table_ok_def)
    moreover have "tab_entry t' = tab_entry t" unfolding e(2) [symmetric] by (simp add: t' tab_entry_def fun_eq_iff)
    moreover have "in_use t' = (in_use t)(nat r := True)" using u(2) by (simp add: t')
    ultimately show ?thesis using q(1) eq(1) u(1) True by (intro exI [of _ r] exI [of _ t']) simp
  next
    case False
    with q(1) eq r(3) ok show ?thesis by simp
  qed
qed

lemma install_count: "obj_id_install i p t = Ret (h, t') \<Longrightarrow> mpq_count t' = mpq_count t"
  by (auto simp: obj_id_install_def bug_on_def arr_get_def arr_set_def ebind_Ret_iff Let_def split: if_splits)

lemma uninstall_count: "obj_id_uninstall i p t = Ret (r, t') \<Longrightarrow> mpq_count t' = mpq_count t"
  by (auto simp: obj_id_uninstall_def bug_on_def arr_get_def arr_set_def ebind_Ret_iff split: if_splits)

lemma queue_release_law:
  assumes ok: "queue_table_ok t" and i: "in_use t i" "tab_entry t i = None"
  shows "\<exists>t'. put_unused_mpq_id (int i) t = Ret t' \<and> queue_table_ok t' \<and> in_use t' = (in_use t)(i := False) \<and> tab_entry t' = tab_entry t"
proof -
  have o: "obj_table_ok t" using ok by (simp add: queue_table_ok_def)
  from mq.release_spec [OF queue_table_mpq [OF ok] i(1)] obtain t' where
    t': "put_unused_mpq_id (int i) t = Ret t'" "mpq_table_ok t'" "in_use t' = (in_use t)(i := False)" by blast
  from pool_release_spec [of 8 t i] o i(1) obtain b where "pool_put_unused (int i) t = Ret (t\<lparr>pool_bits := b\<rparr>)" by (auto simp: obj_table_ok_def)
  with t'(1) have eq: "t' = t\<lparr>pool_bits := b, mpq_count := mpq_count t - 1\<rparr>" by (simp add: put_unused_mpq_id_def)
  have tab: "pool_table t' = pool_table t" "life_id t' = life_id t" by (simp_all add: eq)
  have "in_use t' j" if "j < length (pool_table t')" "pool_table t' ! j \<noteq> None" for j
  proof -
    have "j \<noteq> i" using that i(2) by (auto simp: tab tab_entry_def)
    moreover have "in_use t j" using o that by (auto simp: tab obj_table_ok_def)
    ultimately show ?thesis unfolding t'(3) by simp
  qed
  then have "queue_table_ok t'" using t'(2) o tab(2) by (simp add: queue_table_ok_def mpq_table_ok_def obj_table_ok_def)
  with t' show ?thesis by (auto simp: tab_entry_def fun_eq_iff tab)
qed

interpretation qh: handle_table queue_table_ok in_use tab_entry get_unused_mpq_id obj_id_install obj_id_uninstall put_unused_mpq_id get_obj_slot
proof (unfold_locales, goal_cases)
  case (1 t m)
  then show ?case by (rule queue_alloc_law)
next
  case (2 t i p)
  have o: "obj_table_ok t" using 2(1) by (simp add: queue_table_ok_def)
  from install_entry_law [OF o 2(2,3), of p] obtain h t' where
    t': "obj_id_install (int i) p t = Ret (h, t')" "obj_table_ok t'" "get_obj_slot h = int i" "in_use t' = in_use t"
    "tab_entry t' = (tab_entry t)(i := Some p)" by blast
  have "queue_table_ok t'" using t'(2,4) 2(1) install_count [OF t'(1)] by (simp add: queue_table_ok_def)
  with t' show ?case by blast
next
  case (3 t i p)
  have o: "obj_table_ok t" using 3(1) by (simp add: queue_table_ok_def)
  from uninstall_entry_law [OF o 3(2)] obtain t' where
    t': "obj_id_uninstall (int i) p t = Ret (0, t')" "obj_table_ok t'" "in_use t' = in_use t" "tab_entry t' = (tab_entry t)(i := None)" by blast
  have "queue_table_ok t'" using t'(2,3) 3(1) uninstall_count [OF t'(1)] by (simp add: queue_table_ok_def)
  with t' show ?case by blast
next
  case (4 t i)
  then show ?case by (rule queue_release_law)
next
  case (5 t i)
  then show ?case using tab_entry_None [of t i] unfolding queue_table_ok_def by metis
qed

subsection \<open>Creating a queue\<close>

text \<open>
  What the creation relies on: memory for the queue is fresh (if there is any), releasing descriptors and timers leaves the queues alone, and the
  user's callbacks return with the queues as they were. Nothing is assumed of which of them fail.
\<close>

definition quiet_init :: "user_init \<Rightarrow> bool" where
  "quiet_init init \<longleftrightarrow> (case init of None \<Rightarrow> True | Some f \<Rightarrow> \<forall>arg s. \<exists>r n. f arg s = Ret (r, s\<lparr>mq_errno := n\<rparr>))"

definition quiet_fini :: "user_fini \<Rightarrow> bool" where
  "quiet_fini fini \<longleftrightarrow> (case fini of None \<Rightarrow> True | Some f \<Rightarrow> \<forall>arg s. \<exists>n. f arg s = Ret (s\<lparr>mq_errno := n\<rparr>))"

definition fresh_mem :: "life_env \<Rightarrow> mpq_sys \<Rightarrow> bool" where
  "fresh_mem le s \<longleftrightarrow> (\<forall>q. q_mem le (s\<lparr>this_q := 0\<rparr>) = Some q \<longrightarrow> q \<noteq> 0 \<and> queues s q = None)"

definition sys_ok :: "mpq_sys \<Rightarrow> bool" where
  "sys_ok s \<longleftrightarrow> queue_table_ok (q_table s) \<and> (\<forall>i q. tab_entry (q_table s) i = Some q \<longrightarrow> q \<noteq> 0 \<and> queues s q \<noteq> None)"

lemma sys_ok_queues_ok: "sys_ok s \<Longrightarrow> queues_ok s"
  using obj_table_bound [of "q_table s"] by (auto simp: sys_ok_def queue_table_ok_def queues_ok_def)

lemma sys_ok_frame [simp]: "sys_ok (s\<lparr>mq_errno := n\<rparr>) = sys_ok s" "sys_ok (s\<lparr>this_q := q\<rparr>) = sys_ok s"
  by (simp_all add: sys_ok_def)

lemma sys_ok_upd: "sys_ok s \<Longrightarrow> q_table s' = q_table s \<Longrightarrow> queues s' = (queues s)(q \<mapsto> mq) \<Longrightarrow> sys_ok s'"
  by (auto simp: sys_ok_def)

lemma call_init_ok: "quiet_init (Some f) \<Longrightarrow> \<exists>r n. f arg s = Ret (r, s\<lparr>mq_errno := n\<rparr>)"
  by (simp add: quiet_init_def)

lemma call_fini_ok: "quiet_fini fini \<Longrightarrow> \<exists>n. (case fini of None \<Rightarrow> Ret s | Some f \<Rightarrow> f arg s) = Ret (s\<lparr>mq_errno := n\<rparr>)"
proof (cases fini)
  case None
  then show ?thesis by (intro exI [of _ "mq_errno s"]) simp
qed (simp add: quiet_fini_def)

lemma handle_slot: "get_mpq_id (ucast (h :: u32)) = get_obj_slot h"
proof -
  have "(ucast (ucast h :: u64) :: u16) = ucast h" by (rule bit_word_eqI) (simp add: bit_unsigned_iff)
  then show ?thesis by (simp add: get_mpq_id_def get_obj_slot_def)
qed

text \<open>A queue as \<^verbatim>\<open>__q_create\<close> leaves it.\<close>

definition created_queue :: "ptr \<Rightarrow> nat \<Rightarrow> mpq_sys \<Rightarrow> mpq_sys \<Rightarrow> bool" where
  "created_queue q i s s' \<longleftrightarrow> q \<noteq> 0 \<and> queues s q = None \<and> sys_ok s'
     \<and> (\<exists>mq. queues s' = (queues s)(q \<mapsto> mq) \<and> mq_count mq = 0 \<and> mq_usage mq = 1 \<and> fos mq = [] \<and> \<not> terminated mq
         \<and> get_mpq_id (mq_id mq) = int i)
     \<and> in_use (q_table s') i \<and> tab_entry (q_table s) i = None \<and> tab_entry (q_table s') = (tab_entry (q_table s))(i := Some q)"

definition same_registry :: "mpq_sys \<Rightarrow> mpq_sys \<Rightarrow> bool" where
  "same_registry s s' \<longleftrightarrow> sys_ok s' \<and> queues s' = queues s \<and> tab_entry (q_table s') = tab_entry (q_table s)"

lemma q_create_law:
  assumes ok: "sys_ok s" and mem: "\<forall>q. q_mem le s = Some q \<longrightarrow> q \<noteq> 0 \<and> queues s q = None"
  obtains (failed) s' where "q_create le flags max_size s = Ret (0, s')" "same_registry s s'" "this_q s' = this_q s"
  | (made) q i s' where "q_create le flags max_size s = Ret (q, s')" "created_queue q i s s'" "this_q s' = this_q s"
proof -
  have tab: "queue_table_ok (q_table s)" using ok by (simp add: sys_ok_def)
  consider (none) "q_mem le s = None" | (mp) q n where "q_mem le s = Some q" "mp_init_err le = Some n"
    | (go) q where "q_mem le s = Some q" "mp_init_err le = None" by (cases "q_mem le s"; cases "mp_init_err le") auto
  then show thesis
  proof cases
    case none
    with ok show thesis by (intro failed [of s]) (simp_all add: q_create_def same_registry_def)
  next
    case (mp q n)
    with ok show thesis by (intro failed [of "s\<lparr>mq_errno := n\<rparr>"]) (simp_all add: q_create_def same_registry_def sys_ok_def)
  next
    case (go q)
    have q: "q \<noteq> 0 \<and> queues s q = None" using mem go(1) by blast
    show thesis
    proof (cases rule: qh.create_law [OF tab, where m = "q_grow le" and p = q, case_names full new])
      case (full r)
      have "(queues s)(q := None) = queues s" using q by (simp add: fun_upd_idem)
      with full go ok show thesis
        by (intro failed [of "s\<lparr>q_table := q_table s, mq_errno := - r\<rparr>"]) (simp_all add: q_create_def same_registry_def sys_ok_def Let_def)
    next
      case (new i h t1 t')
      let ?mq = "(new_queue flags max_size)\<lparr>mq_id := ucast h\<rparr>"
      let ?s = "s\<lparr>q_table := t', queues := (queues s)(q \<mapsto> ?mq)\<rparr>"
      have eq: "q_create le flags max_size s = Ret (q, ?s)"
        using go new(1,2) by (simp add: q_create_def Let_def mpq_id_install_def upd_queue_def queue_at_def)
      have "\<forall>j p. tab_entry t' j = Some p \<longrightarrow> p \<noteq> 0 \<and> ((queues s)(q \<mapsto> ?mq)) p \<noteq> None"
        using ok q unfolding new(8) sys_ok_def by auto
      then have sok: "sys_ok ?s" using new(3) by (simp add: sys_ok_def)
      have "created_queue q i s ?s"
        unfolding created_queue_def using q sok new(4,6,7,8) by (auto simp: new_queue_def handle_slot)
      then show thesis by (intro made [OF eq]) simp_all
    qed
  qed
qed

text \<open>An idle queue that nobody else holds is taken down at once.\<close>

lemma idle_destroy:
  assumes ok: "sys_ok s" and mq: "queues s q = Some mq" "mq_usage mq = 1" "fos mq = []" "get_mpq_id (mq_id mq) = int i"
    and slot: "in_use (q_table s) i" "tab_entry (q_table s) i = Some q" "\<And>j. tab_entry (q_table s) j = Some q \<Longrightarrow> j = i"
    and le: "quiet_release le" "quiet_fini fini"
  obtains s' where "q_wait_destroy (Suc fuel) le fini arg q s = Ret s'" "sys_ok s'" "queues s' = (queues s)(q := None)"
    "tab_entry (q_table s') = (tab_entry (q_table s))(i := None)"
proof -
  have tab: "queue_table_ok (q_table s)" using ok by (simp add: sys_ok_def)
  from qh.life_cycle [OF tab slot(1,2)] obtain t1 t2 where
    t: "obj_id_uninstall (int i) q (q_table s) = Ret (0, t1)" "put_unused_mpq_id (int i) t1 = Ret t2" "queue_table_ok t2"
    "tab_entry t2 = (tab_entry (q_table s))(i := None)" by metis
  let ?s1 = "s\<lparr>q_table := t1\<rparr>"
  from call_fini_ok [OF le(2), of ?s1 arg] obtain n where
    n: "(case fini of None \<Rightarrow> Ret ?s1 | Some f \<Rightarrow> f arg ?s1) = Ret (?s1\<lparr>mq_errno := n\<rparr>)" by blast
  let ?s2 = "?s1\<lparr>mq_errno := n, this_q := 0\<rparr>"
  have drain: "drain_users (Suc fuel) (funcs_env le) q ?s1 = Ret ?s1" "drain_own (Suc fuel) (funcs_env le) q ?s1 = Ret ?s1"
    using mq by (simp_all add: queue_at_def check_and_call_funcs_def)
  let ?m = "if mq_id mq = main_qid s then AOSL_MPQ_INVALID else main_qid s"
  have dest: "q_destroy le q ?s2 = Ret (s\<lparr>q_table := t2, mq_errno := n, this_q := 0, main_qid := ?m, queues := (queues s)(q := None)\<rparr>)"
    using mq le(1) t(2) by (simp add: q_destroy_def queue_at_def quiet_release_def Let_def)
  let ?s' = "s\<lparr>q_table := t2, mq_errno := n, this_q := 0, main_qid := ?m, queues := (queues s)(q := None), sync_done := rev (destroy_wait mq) @ sync_done s\<rparr>"
  have run: "q_wait_destroy (Suc fuel) le fini arg q s = Ret ?s'"
    unfolding q_wait_destroy_def using mq(1,4) t(1) by (simp add: queue_at_def mpq_id_uninstall_def drain n dest del: drain_users.simps drain_own.simps)
  have "p \<noteq> 0 \<and> ((queues s)(q := None)) p \<noteq> None" if "tab_entry t2 j = Some p" for j p
  proof -
    have "j \<noteq> i" "tab_entry (q_table s) j = Some p" using that unfolding t(4) by (auto split: if_splits)
    with slot(3) [of j] have "p \<noteq> q" by blast
    with \<open>tab_entry (q_table s) j = Some p\<close> ok show ?thesis by (auto simp: sys_ok_def)
  qed
  with t(3) have "sys_ok ?s'" by (simp add: sys_ok_def)
  with run t(4) show thesis by (intro that [of ?s']) simp_all
qed

lemma created_queue_upd:
  assumes "created_queue q i s s1" and "queues s1 q = Some mq" and "queues s' = (queues s1)(q \<mapsto> mq')" "q_table s' = q_table s1"
    and "mq_count mq' = mq_count mq" "mq_usage mq' = mq_usage mq" "fos mq' = fos mq" "terminated mq' = terminated mq" "mq_id mq' = mq_id mq"
  shows "created_queue q i s s'"
proof -
  have "sys_ok s1" using assms(1) by (simp add: created_queue_def)
  then have "sys_ok s'" using assms(4,3) by (rule sys_ok_upd)
  with assms show ?thesis by (auto simp: created_queue_def)
qed

lemma created_queueD:
  assumes "created_queue q i s s'"
  obtains mq where "queues s' = (queues s)(q \<mapsto> mq)" "mq_count mq = 0" "mq_usage mq = 1" "fos mq = []" "\<not> terminated mq" "get_mpq_id (mq_id mq) = int i"
  using assms by (auto simp: created_queue_def)

lemma created_slot:
  assumes "created_queue q i s s'" and "sys_ok s" and "tab_entry (q_table s') j = Some q"
  shows "j = i"
proof (rule ccontr)
  assume "j \<noteq> i"
  then have "tab_entry (q_table s) j = Some q" using assms(1,3) by (simp add: created_queue_def)
  then have "queues s q \<noteq> None" using assms(2) unfolding sys_ok_def by blast
  then show False using assms(1) by (simp add: created_queue_def)
qed

text \<open>The thread sets the queue's argument and stack before it calls the user.\<close>

lemma thread_prepare:
  assumes c: "created_queue q i s s1"
  obtains s2 where "ebind (upd_queue q (\<lambda>mq. mq\<lparr>mq_arg := arg\<rparr>) s1) (\<lambda>s. set_stack_base le q (s\<lparr>this_q := q\<rparr>)) = Ret s2" "created_queue q i s s2"
proof -
  from created_queueD [OF c] obtain mq where mq: "queues s1 = (queues s)(q \<mapsto> mq)" by blast
  then have q1: "queues s1 q = Some mq" by simp
  let ?mq = "mq\<lparr>mq_arg := arg, mq_stack := (mq_stack mq)\<lparr>stack_id := stack_base le\<rparr>\<rparr>"
  let ?s = "s1\<lparr>queues := (queues s1)(q \<mapsto> ?mq), this_q := q\<rparr>"
  have "ebind (upd_queue q (\<lambda>mq. mq\<lparr>mq_arg := arg\<rparr>) s1) (\<lambda>s. set_stack_base le q (s\<lparr>this_q := q\<rparr>)) = Ret ?s"
    using q1 by (simp add: upd_queue_def queue_at_def set_stack_base_def)
  moreover have "created_queue q i s ?s" by (rule created_queue_upd [OF c q1, where mq' = ?mq]) simp_all
  ultimately show thesis by (rule that)
qed

text \<open>A user's initialisation that fails takes the new queue down again.\<close>

lemma init_failed:
  assumes c: "created_queue q i s s1" and ok: "sys_ok s" and le: "quiet_release le" "quiet_fini fini"
  obtains s' where "ebind (upd_queue q (\<lambda>mq. mq\<lparr>terminated := True, exiting := True\<rparr>) s1) (q_wait_destroy (Suc fuel) le fini arg q) = Ret s'"
    "same_registry s s'"
proof -
  from created_queueD [OF c] obtain mq where
    mq: "queues s1 = (queues s)(q \<mapsto> mq)" "mq_usage mq = 1" "fos mq = []" "get_mpq_id (mq_id mq) = int i" by blast
  let ?mq = "mq\<lparr>terminated := True, exiting := True\<rparr>"
  let ?s = "s1\<lparr>queues := (queues s)(q \<mapsto> ?mq)\<rparr>"
  have eq: "upd_queue q (\<lambda>mq. mq\<lparr>terminated := True, exiting := True\<rparr>) s1 = Ret ?s" using mq(1) by (simp add: upd_queue_def queue_at_def)
  have "sys_ok s1" using c by (simp add: created_queue_def)
  then have sok: "sys_ok ?s" by (rule sys_ok_upd [where q = q and mq = ?mq]) (simp_all add: mq(1))
  have slot: "in_use (q_table ?s) i" "tab_entry (q_table ?s) i = Some q" using c by (auto simp: created_queue_def)
  have one: "j = i" if "tab_entry (q_table ?s) j = Some q" for j using created_slot [OF c ok, of j] that by simp
  from idle_destroy [OF sok _ _ _ _ slot one le, where mq = ?mq] mq obtain s' where
    s': "q_wait_destroy (Suc fuel) le fini arg q ?s = Ret s'" "sys_ok s'" "queues s' = (queues ?s)(q := None)"
    "tab_entry (q_table s') = (tab_entry (q_table ?s))(i := None)" by auto
  have "queues s' = queues s" using s'(3) c by (simp add: created_queue_def fun_upd_idem)
  moreover have "tab_entry (q_table s') = tab_entry (q_table s)" using s'(4) c by (auto simp: created_queue_def fun_upd_idem)
  ultimately show thesis using s'(1,2) eq by (intro that [of s']) (simp_all add: same_registry_def)
qed

lemma mpq_create_law:
  assumes ok: "sys_ok s" and mem: "fresh_mem le s" and le: "quiet_release le" "quiet_init init" "quiet_fini fini"
  obtains (failed) s' where "mpq_create (Suc fuel) le flags max_size init fini arg s = Ret (0, s')" "same_registry s s'" "this_q s' = this_q s"
  | (made) q i s' where "mpq_create (Suc fuel) le flags max_size init fini arg s = Ret (q, s')" "created_queue q i s s'" "this_q s' = this_q s"
proof -
  let ?s0 = "s\<lparr>this_q := 0\<rparr>" and ?run = "mpq_thread_start (Suc fuel) le flags max_size init fini arg (s\<lparr>this_q := 0\<rparr>)"
  have ok0: "sys_ok ?s0" using ok by simp
  have mem0: "\<forall>q. q_mem le ?s0 = Some q \<longrightarrow> q \<noteq> 0 \<and> queues ?s0 q = None" using mem by (simp add: fresh_mem_def)
  have start: "(\<exists>err s'. ?run = Ret (0, err, s') \<and> same_registry s s') \<or> (\<exists>q i err s'. ?run = Ret (q, err, s') \<and> created_queue q i s s')"
  proof (cases rule: q_create_law [OF ok0 mem0, where flags = flags and max_size = max_size, case_names failed made])
    case (failed s1)
    from call_fini_ok [OF le(3), of s1 arg] obtain n where n: "(case fini of None \<Rightarrow> Ret s1 | Some f \<Rightarrow> f arg s1) = Ret (s1\<lparr>mq_errno := n\<rparr>)" by blast
    have "?run = Ret (0, mq_errno s1, s1\<lparr>mq_errno := n\<rparr>)" using failed(1) n by (simp add: mpq_thread_start_def Let_def)
    moreover have "same_registry s (s1\<lparr>mq_errno := n\<rparr>)" using failed(2) by (simp add: same_registry_def)
    ultimately show ?thesis by blast
  next
    case (made q i s1)
    have c1: "created_queue q i s s1" using made(2) by (simp add: created_queue_def)
    then have "q \<noteq> 0" by (simp add: created_queue_def)
    from thread_prepare [OF c1, of arg le] obtain s2 where
      s2: "ebind (upd_queue q (\<lambda>mq. mq\<lparr>mq_arg := arg\<rparr>) s1) (\<lambda>s. set_stack_base le q (s\<lparr>this_q := q\<rparr>)) = Ret s2" and c2: "created_queue q i s s2" .
    let ?err = "mq_errno s1"
    let ?user = "\<lambda>s. case init of None \<Rightarrow> Ret (q, ?err, s) | Some f \<Rightarrow>
      ebind (f arg s) (\<lambda>(r, s). if r < 0 then let err = mq_errno s in
        ebind (upd_queue q (\<lambda>mq. mq\<lparr>terminated := True, exiting := True\<rparr>) s) (\<lambda>s.
        ebind (q_wait_destroy (Suc fuel) le fini arg q s) (\<lambda>s. Ret (0, err, s))) else Ret (q, ?err, s))"
    have run: "?run = ebind (ebind (upd_queue q (\<lambda>mq. mq\<lparr>mq_arg := arg\<rparr>) s1) (\<lambda>s. set_stack_base le q (s\<lparr>this_q := q\<rparr>))) ?user"
      using made(1) \<open>q \<noteq> 0\<close> by (simp add: mpq_thread_start_def Let_def ebind_assoc)
    show ?thesis
    proof (cases init)
      case None
      with run s2 c2 show ?thesis by auto
    next
      case (Some f)
      from call_init_ok [of f arg s2] le(2) Some obtain r n where r: "f arg s2 = Ret (r, s2\<lparr>mq_errno := n\<rparr>)" by blast
      have c3: "created_queue q i s (s2\<lparr>mq_errno := n\<rparr>)" using c2 by (simp add: created_queue_def)
      show ?thesis
      proof (cases "r < 0")
        case True
        from init_failed [OF c3 ok le(1,3), of fuel arg] obtain s' where
          s': "ebind (upd_queue q (\<lambda>mq. mq\<lparr>terminated := True, exiting := True\<rparr>) (s2\<lparr>mq_errno := n\<rparr>)) (q_wait_destroy (Suc fuel) le fini arg q) = Ret s'"
          "same_registry s s'" .
        have "?run = ebind (ebind (upd_queue q (\<lambda>mq. mq\<lparr>terminated := True, exiting := True\<rparr>) (s2\<lparr>mq_errno := n\<rparr>)) (q_wait_destroy (Suc fuel) le fini arg q)) (\<lambda>s. Ret (0, n, s))"
          using run s2 Some r True by (simp add: ebind_assoc)
        with s' show ?thesis by auto
      next
        case False
        with run s2 Some r c3 show ?thesis by auto
      qed
    qed
  qed
  show thesis
  proof (cases "max_size < 1 \<or> MPQ_MAX_SIZE < max_size \<or> thread_err le \<noteq> 0")
    case True
    let ?s = "if max_size < 1 \<or> MPQ_MAX_SIZE < max_size then s\<lparr>mq_errno := AOSL_EINVAL\<rparr> else s"
    show thesis using True ok by (intro failed [of ?s]) (auto simp: mpq_create_def same_registry_def)
  next
    case False
    from start show thesis
    proof (elim disjE exE conjE)
      fix err s' assume "?run = Ret (0, err, s')" "same_registry s s'"
      with False show thesis by (intro failed [of "s'\<lparr>this_q := this_q s, mq_errno := err\<rparr>"]) (simp_all add: mpq_create_def same_registry_def)
    next
      fix q i err s' assume "?run = Ret (q, err, s')" "created_queue q i s s'"
      with False show thesis
        by (intro made [of q "s'\<lparr>this_q := this_q s, mq_errno := mq_errno s\<rparr>" i]) (simp_all add: mpq_create_def created_queue_def)
    qed
  qed
qed

lemma created_fresh:
  assumes "created_queue q i s s'" and "sys_ok s"
  shows "fresh_queue q s'"
proof -
  have sok: "sys_ok s'" using assms(1) by (simp add: created_queue_def)
  from created_queueD [OF assms(1)] obtain mq where
    mq: "queues s' = (queues s)(q \<mapsto> mq)" "mq_count mq = 0" "mq_usage mq = 1" "fos mq = []" "\<not> terminated mq" "get_mpq_id (mq_id mq) = int i" .
  have "tab_entry (q_table s') i = Some q" using assms(1) by (simp add: created_queue_def)
  then have "find_queue s' (mq_id mq) = Some q" using mq by (simp add: find_queue_def)
  with mq sys_ok_queues_ok [OF sok] created_slot [OF assms] show ?thesis unfolding fresh_queue_def by auto
qed

text \<open>A system with the queue of \<open>sys0\<close> and room for another.\<close>

abbreviation le0 :: life_env where
  "le0 \<equiv> \<lparr>funcs_env = env0, q_mem = (\<lambda>s. Some 32), q_grow = mem_ok, mp_init_err = None, thread_err = 0, stack_base = 4096,
     run_timers = (\<lambda>q s. Ret (0, s)), first_expire = (\<lambda>q s. None), poll_dispatch = (\<lambda>q n s. Ret (0, s)),
     fini_resources = (\<lambda>q s. Ret s), shrink_pools = (\<lambda>s. Ret s)\<rparr>"

lemma sys0_sys_ok: "sys_ok sys0"
proof -
  have "{i. in_use (q_table sys0) i} = {0}" by (auto simp: taken_def bit_1_iff)
  then show ?thesis
    by (auto simp: sys_ok_def queue_table_ok_def obj_table_ok_def pool_ok_def bitmap_ok_def BIT_ARRAY_CNT_def taken_def tab_entry_def nth_list_update)
qed

lemma le0_quiet: "fresh_mem le0 sys0" "quiet_release le0" "quiet_init None" "quiet_fini None"
  by (simp_all add: fresh_mem_def quiet_release_def quiet_init_def quiet_fini_def)

text \<open>
  C21. A created queue is a fresh one: whatever fails on the way (memory, the poll back end, the identifier table, the thread, the
  user's initialisation, which takes the new queue down again through the ordinary destruction), \<^verbatim>\<open>__mpq_create\<close> returns; a null queue leaves
  every queue and every identifier as it was, and any other is one that did not exist before, idle, held by its own thread only and found
  by its identifier and by no other, the start of the life that no function is lost in.
\<close>

theorem create_fresh_or_nothing:
  assumes "sys_ok s" and "fresh_mem le s" and "quiet_release le" "quiet_init init" "quiet_fini fini"
  shows "\<exists>q s'. mpq_create (Suc fuel) le flags max_size init fini arg s = Ret (q, s') \<and> sys_ok s' \<and> this_q s' = this_q s
    \<and> (\<forall>p. p \<noteq> q \<longrightarrow> queues s' p = queues s p)
    \<and> (if q = 0 then queues s' = queues s \<and> tab_entry (q_table s') = tab_entry (q_table s) else queues s q = None \<and> fresh_queue q s')"
proof (cases rule: mpq_create_law [OF assms, where fuel = fuel and flags = flags and max_size = max_size and arg = arg, case_names failed made])
  case (failed s')
  then show ?thesis by (auto simp: same_registry_def)
next
  case (made q i s')
  then have "q \<noteq> 0" "queues s q = None" "sys_ok s'" by (auto simp: created_queue_def)
  moreover have "queues s' p = queues s p" if "p \<noteq> q" for p using made(2) that by (auto simp: created_queue_def)
  ultimately show ?thesis using made created_fresh [OF made(2) assms(1)] by (intro exI [of _ q] exI [of _ s']) simp
qed

theorem create_fresh_or_nothing_witness:
  "\<exists>q s'. mpq_create 1 le0 0 10 None None 0 sys0 = Ret (q, s') \<and> (q \<noteq> 0 \<longrightarrow> fresh_queue q s')"
  using create_fresh_or_nothing [OF sys0_sys_ok le0_quiet, of 0 0 10 0] by (auto split: if_splits)

end
