(* ===== verification/Mpqp.thy ===== *)
theory Mpqp
  imports Queue_Create "HOL-Library.Multiset"
begin

text \<open>
  Pools of queues: \<^verbatim>\<open>kernel/mpqp.c\<close>. A pool is a table of queues of which the first \<^verbatim>\<open>q_count\<close> entries are in use; work goes to
  the queue with the fewest functions, and the pool grows while all its queues are busy. The operations take the creation of a
  queue (\<^verbatim>\<open>__pool_create_mpq\<close>) as an argument; what the pool relies on is the locale \<open>queue_creator\<close>, which the creation of \<open>Mpq_Life\<close>
  satisfies. Names of queues are not modelled.
\<close>

subsection \<open>Data\<close>

record pool_entry =
  pe_q :: ptr
  pe_usage :: u32

record mpq_pool =
  qp_size :: int
  pool_entries :: "pool_entry list"
  qp_count :: int
  qp_q_max :: int
  qp_max_idles :: int
  qp_flags :: u32
  qp_pri :: int
  qp_stack_size :: int

text \<open>The four pools of the library; \<open>None\<close> is the null pointer.\<close>

record mpq_pools =
  cpu_pool :: "mpq_pool option"
  gpu_pool :: "mpq_pool option"
  gen_pool :: "mpq_pool option"
  ltw_pool :: "mpq_pool option"

type_synonym create_f = "mpq_sys \<Rightarrow> (ptr \<times> mpq_sys) exec"

definition MPQP_MAX_SIZE :: int where "MPQP_MAX_SIZE = 65536"

definition empty_entry :: pool_entry where
  "empty_entry = \<lparr>pe_q = 0, pe_usage = 0\<rparr>"

subsection \<open>Choosing an entry\<close>

fun best_q_from :: "pool_entry list \<Rightarrow> ptr \<Rightarrow> mpq_sys \<Rightarrow> ptr exec" where
  "best_q_from [] best s = Ret best"
| "best_q_from (entry # es) best s =
     ebind (queue_at (pe_q entry) s) (\<lambda>mq.
     if best = 0 then best_q_from es (pe_q entry) s
     else
       ebind (queue_at best s) (\<lambda>b.
       best_q_from es (if sint (mq_count mq) < sint (mq_count b) then pe_q entry else best) s))"

definition in_use_entries :: "mpq_pool \<Rightarrow> pool_entry list exec" where
  "in_use_entries qp = (if nat (qp_count qp) \<le> length (pool_entries qp) then Ret (take (nat (qp_count qp)) (pool_entries qp)) else Fault)"

definition mpqp_find_best_q_locked :: "mpq_pool \<Rightarrow> mpq_sys \<Rightarrow> ptr exec" where
  "mpqp_find_best_q_locked qp s = ebind (in_use_entries qp) (\<lambda>es. best_q_from es 0 s)"

fun best_alloc_from :: "pool_entry list \<Rightarrow> nat \<Rightarrow> (nat \<times> u32) option \<Rightarrow> (nat \<times> u32) option" where
  "best_alloc_from [] i best = best"
| "best_alloc_from (entry # es) i best =
     best_alloc_from es (Suc i) (case best of
       None \<Rightarrow> Some (i, pe_usage entry)
     | Some (j, u) \<Rightarrow> if pe_usage entry < u then Some (i, pe_usage entry) else best)"

definition mpqp_find_best_alloc_entry_locked :: "mpq_pool \<Rightarrow> nat option exec" where
  "mpqp_find_best_alloc_entry_locked qp = ebind (in_use_entries qp) (\<lambda>es. Ret (map_option fst (best_alloc_from es 0 None)))"

fun entry_with_qid :: "pool_entry list \<Rightarrow> nat \<Rightarrow> u64 \<Rightarrow> mpq_sys \<Rightarrow> nat option exec" where
  "entry_with_qid [] i qi s = Ret None"
| "entry_with_qid (entry # es) i qi s = ebind (queue_at (pe_q entry) s) (\<lambda>mq. if mq_id mq = qi then Ret (Some i) else entry_with_qid es (Suc i) qi s)"

definition mpqp_find_entry_with_qid_locked :: "mpq_pool \<Rightarrow> u64 \<Rightarrow> mpq_sys \<Rightarrow> nat option exec" where
  "mpqp_find_entry_with_qid_locked qp qi s = ebind (in_use_entries qp) (\<lambda>es. entry_with_qid es 0 qi s)"

subsection \<open>The queues of a pool\<close>

record mpqp_q_idle_stat =
  idle_counter :: int
  last_exec_funcs_count :: u64

datatype shrink_act = No_shrink | Shrink_one | Shrink_all

text \<open>What the idle check of a queue decides; \<open>mpqp_q_check_shrink\<close> below is the whole timer function.\<close>

definition idle_check :: "mpq_pool \<Rightarrow> mp_queue \<Rightarrow> mpqp_q_idle_stat \<Rightarrow> mpqp_q_idle_stat \<times> shrink_act" where
  "idle_check qp this st =
     (let idle = (if exec_funcs_count this = last_exec_funcs_count st \<and> mq_count this = 0 then idle_counter st + 1 else 0) in
      (\<lparr>idle_counter = idle, last_exec_funcs_count = exec_funcs_count this\<rparr>,
       if 2 * qp_max_idles qp \<le> idle then Shrink_all else if qp_max_idles qp \<le> idle then Shrink_one else No_shrink))"

text \<open>\<open>mem\<close>: whether the statistics could be allocated; \<open>set_timer\<close>: \<^verbatim>\<open>aosl_mpq_set_timer\<close> on the new queue, negative when it fails.\<close>

definition mpqp_q_init :: "bool \<Rightarrow> (mpq_sys \<Rightarrow> (int \<times> mpq_sys) exec) \<Rightarrow> user_init \<Rightarrow> mpq_pool \<Rightarrow> ptr \<Rightarrow> mpq_sys \<Rightarrow> (int \<times> mpq_sys) exec" where
  "mpqp_q_init mem set_timer init qp arg s =
     ebind (if 0 < qp_max_idles qp then (if \<not> mem then Ret (- 1, s) else set_timer s) else Ret (0, s)) (\<lambda>(r, s).
     if r < 0 then Ret (- 1, s) else (case init of None \<Rightarrow> Ret (0, s) | Some f \<Rightarrow> f arg s))"

definition mpqp_q_fini :: "user_fini \<Rightarrow> ptr \<Rightarrow> mpq_sys \<Rightarrow> mpq_sys exec" where
  "mpqp_q_fini fini arg s = (case fini of None \<Rightarrow> Ret s | Some f \<Rightarrow> f arg s)"

definition pool_create_mpq :: "nat \<Rightarrow> life_env \<Rightarrow> bool \<Rightarrow> (mpq_sys \<Rightarrow> (int \<times> mpq_sys) exec) \<Rightarrow> user_init \<Rightarrow> user_fini \<Rightarrow> ptr \<Rightarrow> mpq_pool \<Rightarrow> create_f" where
  "pool_create_mpq fuel le mem set_timer init fini arg qp s =
     mpq_create fuel le (qp_flags qp OR AOSL_MPQ_FLAG_DESTROY_NOT_ALLOWED) (qp_q_max qp)
       (Some (\<lambda>_. mpqp_q_init mem set_timer init qp arg)) (Some (\<lambda>_. mpqp_q_fini fini arg)) 0 s"

text \<open>The index of the new entry, or a negative error number.\<close>

definition pool_create_add_mpq_locked :: "create_f \<Rightarrow> mpq_pool \<Rightarrow> mpq_sys \<Rightarrow> ((int + nat) \<times> mpq_pool \<times> mpq_sys) exec" where
  "pool_create_add_mpq_locked create qp s =
     ebind (create s) (\<lambda>(q, s).
     if q = 0 then Ret (Inl (- mq_errno s), qp, s)
     else
       ebind (arr_get (pool_entries qp) (nat (qp_count qp))) (\<lambda>entry.
       bug_on (pe_q entry \<noteq> 0 \<or> pe_usage entry \<noteq> 0)
         (Ret (Inr (nat (qp_count qp)), qp\<lparr>pool_entries := (pool_entries qp)[nat (qp_count qp) := \<lparr>pe_q = q, pe_usage = 1\<rparr>], qp_count := qp_count qp + 1\<rparr>, s))))"

definition q_load :: "u64 \<Rightarrow> mp_queue \<Rightarrow> mp_queue" where
  "q_load k mq = mq\<lparr>mq_usage := mq_usage mq + k, mq_count := mq_count mq + k\<rparr>"

definition mpqp_best_q_get :: "create_f \<Rightarrow> mpq_pool \<Rightarrow> mpq_sys \<Rightarrow> ((int + ptr) \<times> mpq_pool \<times> mpq_sys) exec" where
  "mpqp_best_q_get create qp s =
     ebind (mpqp_find_best_q_locked qp s) (\<lambda>q.
     ebind (if q = 0 then Ret True else ebind (queue_at q s) (\<lambda>mq. Ret (0 < sint (mq_count mq) \<and> qp_count qp < qp_size qp))) (\<lambda>grow.
     ebind (if grow then
              ebind (pool_create_add_mpq_locked create qp s) (\<lambda>(r, qp, s).
              case r of
                Inl err \<Rightarrow> Ret (if q = 0 then Inl err else Inr q, qp, s)
              | Inr i \<Rightarrow> ebind (arr_get (pool_entries qp) i) (\<lambda>entry. Ret (Inr (pe_q entry), qp, s)))
            else Ret (Inr q, qp, s)) (\<lambda>(r, qp, s).
     case r of
       Inl err \<Rightarrow> Ret (Inl err, qp, s)
     | Inr q \<Rightarrow> ebind (upd_queue q (q_load 1) s) (\<lambda>s. Ret (Inr q, qp, s)))))"

definition mpqp_best_q_put :: "ptr \<Rightarrow> mpq_sys \<Rightarrow> mpq_sys exec" where
  "mpqp_best_q_put q s = upd_queue q (q_load (- 1)) s"

definition best_q_put_qid :: "u64 \<Rightarrow> mpq_sys \<Rightarrow> (int \<times> mpq_sys) exec" where
  "best_q_put_qid qi s =
     ebind (mpq_get qi s) (\<lambda>(q, s).
     if q \<noteq> 0 then ebind (mpqp_best_q_put q s) (\<lambda>s. ebind (mpq_put q s) (\<lambda>s. Ret (0, s))) else Ret (- 1, s))"

definition mpqp_best_entry_get_or_alloc :: "create_f \<Rightarrow> mpq_pool \<Rightarrow> mpq_sys \<Rightarrow> ((int + nat) \<times> mpq_pool \<times> mpq_sys) exec" where
  "mpqp_best_entry_get_or_alloc create qp s =
     ebind (mpqp_find_best_alloc_entry_locked qp) (\<lambda>found.
     ebind (case found of None \<Rightarrow> Ret True | Some i \<Rightarrow> ebind (arr_get (pool_entries qp) i) (\<lambda>entry. Ret (1 < pe_usage entry \<and> qp_count qp < qp_size qp))) (\<lambda>grow.
     ebind (if grow then
              ebind (pool_create_add_mpq_locked create qp s) (\<lambda>(r, qp, s).
              Ret (case r of Inl err \<Rightarrow> (case found of None \<Rightarrow> Inl err | Some i \<Rightarrow> Inr i) | Inr i \<Rightarrow> Inr i, qp, s))
            else Ret (case found of None \<Rightarrow> Inl 0 | Some i \<Rightarrow> Inr i, qp, s)) (\<lambda>(r, qp, s).
     case r of
       Inl err \<Rightarrow> Ret (Inl err, qp, s)
     | Inr i \<Rightarrow>
         ebind (arr_get (pool_entries qp) i) (\<lambda>entry.
         Ret (Inr i, qp\<lparr>pool_entries := (pool_entries qp)[i := entry\<lparr>pe_usage := pe_usage entry + 1\<rparr>]\<rparr>, s)))))"

subsection \<open>Queueing to a pool\<close>

text \<open>\<^verbatim>\<open>__mpqp_best_q_queue\<close> and \<^verbatim>\<open>__mpqp_best_q_call\<close>: \<open>work\<close> is the queueing or calling function with its arguments; the identifier goes through an \<^verbatim>\<open>int\<close>.\<close>

definition best_q_work :: "create_f \<Rightarrow> (ptr \<Rightarrow> mpq_sys \<Rightarrow> (int \<times> mpq_sys) exec) \<Rightarrow> mpq_pool \<Rightarrow> mpq_sys \<Rightarrow> (int \<times> mpq_pool \<times> mpq_sys) exec" where
  "best_q_work create work qp s =
     ebind (mpqp_best_q_get create qp s) (\<lambda>(r, qp, s).
     case r of
       Inl err \<Rightarrow> Ret (- 1, qp, s\<lparr>mq_errno := - err\<rparr>)
     | Inr q \<Rightarrow>
         ebind (work q s) (\<lambda>(err, s).
         ebind (queue_at q s) (\<lambda>mq.
         ebind (mpqp_best_q_put q s) (\<lambda>s.
         Ret (if 0 \<le> err then sint (ucast (mq_id mq) :: u32) else err, qp, s)))))"

definition aosl_mpqp_queue_argv :: "nat \<Rightarrow> mpq_env \<Rightarrow> create_f \<Rightarrow> u64 \<Rightarrow> u32 \<Rightarrow> string \<Rightarrow> ptr \<Rightarrow> u64 list \<Rightarrow> mpq_pool \<Rightarrow> mpq_sys \<Rightarrow> (int \<times> mpq_pool \<times> mpq_sys) exec" where
  "aosl_mpqp_queue_argv fuel e create dq ref name f args qp s =
     (if MPQ_ARGC_MAX < length args then Ret (- 1, qp, s\<lparr>mq_errno := AOSL_E2BIG\<rparr>)
      else best_q_work create (\<lambda>q. add_func_argv fuel e q False dq ref name f args) qp s)"

definition aosl_mpqp_call_argv :: "nat \<Rightarrow> mpq_env \<Rightarrow> create_f \<Rightarrow> u32 \<Rightarrow> string \<Rightarrow> ptr \<Rightarrow> u64 list \<Rightarrow> mpq_pool \<Rightarrow> mpq_sys \<Rightarrow> (int \<times> mpq_pool \<times> mpq_sys) exec" where
  "aosl_mpqp_call_argv fuel e create ref name f args qp s =
     (if MPQ_ARGC_MAX < length args then Ret (- 1, qp, s\<lparr>mq_errno := AOSL_E2BIG\<rparr>)
      else best_q_work create (\<lambda>q. add_func_argv fuel e q True AOSL_MPQ_INVALID ref name f args) qp s)"

definition aosl_mpqp_queue_args :: "nat \<Rightarrow> mpq_env \<Rightarrow> create_f \<Rightarrow> u64 \<Rightarrow> u32 \<Rightarrow> string \<Rightarrow> ptr \<Rightarrow> u64 list \<Rightarrow> mpq_pool \<Rightarrow> mpq_sys \<Rightarrow> (int \<times> mpq_pool \<times> mpq_sys) exec" where
  "aosl_mpqp_queue_args fuel e create dq ref name f args qp s =
     (if MPQ_ARGC_MAX < length args then Ret (- 1, qp, s\<lparr>mq_errno := AOSL_E2BIG\<rparr>)
      else best_q_work create (\<lambda>q. add_func_args fuel e q False dq ref name f args) qp s)"

definition aosl_mpqp_call_args :: "nat \<Rightarrow> mpq_env \<Rightarrow> create_f \<Rightarrow> u32 \<Rightarrow> string \<Rightarrow> ptr \<Rightarrow> u64 list \<Rightarrow> mpq_pool \<Rightarrow> mpq_sys \<Rightarrow> (int \<times> mpq_pool \<times> mpq_sys) exec" where
  "aosl_mpqp_call_args fuel e create ref name f args qp s =
     (if MPQ_ARGC_MAX < length args then Ret (- 1, qp, s\<lparr>mq_errno := AOSL_E2BIG\<rparr>)
      else best_q_work create (\<lambda>q. add_func_args fuel e q True AOSL_MPQ_INVALID ref name f args) qp s)"

definition aosl_mpqp_queue_data :: "nat \<Rightarrow> mpq_env \<Rightarrow> create_f \<Rightarrow> u64 \<Rightarrow> u32 \<Rightarrow> string \<Rightarrow> ptr \<Rightarrow> bytes \<Rightarrow> mpq_pool \<Rightarrow> mpq_sys \<Rightarrow> (int \<times> mpq_pool \<times> mpq_sys) exec" where
  "aosl_mpqp_queue_data fuel e create dq ref name f data qp s = best_q_work create (\<lambda>q. add_func_data fuel e q False dq ref name f data) qp s"

definition aosl_mpqp_call_data :: "nat \<Rightarrow> mpq_env \<Rightarrow> create_f \<Rightarrow> u32 \<Rightarrow> string \<Rightarrow> ptr \<Rightarrow> bytes \<Rightarrow> mpq_pool \<Rightarrow> mpq_sys \<Rightarrow> (int \<times> mpq_pool \<times> mpq_sys) exec" where
  "aosl_mpqp_call_data fuel e create ref name f data qp s = best_q_work create (\<lambda>q. add_func_data fuel e q True AOSL_MPQ_INVALID ref name f data) qp s"

text \<open>The calls on the general pool: a null pool is dereferenced.\<close>

definition on_gen_pool :: "(mpq_pool \<Rightarrow> mpq_sys \<Rightarrow> ('a \<times> mpq_pool \<times> mpq_sys) exec) \<Rightarrow> mpq_pools \<Rightarrow> mpq_sys \<Rightarrow> ('a \<times> mpq_pools \<times> mpq_sys) exec" where
  "on_gen_pool work ps s = (case gen_pool ps of
       None \<Rightarrow> Fault
     | Some qp \<Rightarrow> ebind (work qp s) (\<lambda>(r, qp, s). Ret (r, ps\<lparr>gen_pool := Some qp\<rparr>, s)))"

definition genp_queue_no_fail_argv :: "nat \<Rightarrow> mpq_env \<Rightarrow> create_f \<Rightarrow> u64 \<Rightarrow> u32 \<Rightarrow> string \<Rightarrow> ptr \<Rightarrow> u64 list \<Rightarrow> mpq_pools \<Rightarrow> mpq_sys \<Rightarrow> (int \<times> mpq_pools \<times> mpq_sys) exec" where
  "genp_queue_no_fail_argv fuel e create dq ref name f args ps s =
     (if MPQ_ARGC_MAX < length args then Ret (- 1, ps, s\<lparr>mq_errno := AOSL_E2BIG\<rparr>)
      else on_gen_pool (best_q_work create (\<lambda>q. mpq_queue_no_fail fuel e q dq ref name f (Argv args))) ps s)"

definition genp_best_q_get :: "create_f \<Rightarrow> mpq_pools \<Rightarrow> mpq_sys \<Rightarrow> (u64 \<times> mpq_pools \<times> mpq_sys) exec" where
  "genp_best_q_get create ps s =
     on_gen_pool (\<lambda>qp s.
       ebind (mpqp_best_q_get create qp s) (\<lambda>(r, qp, s).
       case r of Inl err \<Rightarrow> Ret (AOSL_MPQ_INVALID, qp, s) | Inr q \<Rightarrow> ebind (queue_at q s) (\<lambda>mq. Ret (mq_id mq, qp, s)))) ps s"

definition aosl_mpq_alloc :: "create_f \<Rightarrow> mpq_pools \<Rightarrow> mpq_sys \<Rightarrow> (u64 \<times> mpq_pools \<times> mpq_sys) exec" where
  "aosl_mpq_alloc create ps s =
     on_gen_pool (\<lambda>qp s.
       ebind (mpqp_best_entry_get_or_alloc create qp s) (\<lambda>(r, qp, s).
       case r of
         Inl err \<Rightarrow> Ret (- 1, qp, s\<lparr>mq_errno := - err\<rparr>)
       | Inr i \<Rightarrow> ebind (arr_get (pool_entries qp) i) (\<lambda>entry. ebind (queue_at (pe_q entry) s) (\<lambda>mq. Ret (mq_id mq, qp, s))))) ps s"

text \<open>The error number is stored with its sign.\<close>

definition pool_free_qid :: "u64 \<Rightarrow> mpq_pool \<Rightarrow> mpq_sys \<Rightarrow> (int \<times> mpq_pool \<times> mpq_sys) exec" where
  "pool_free_qid qi qp s =
     ebind (mpqp_find_entry_with_qid_locked qp qi s) (\<lambda>found.
     case found of
       None \<Rightarrow> Ret (- 1, qp, s\<lparr>mq_errno := - AOSL_EINVAL\<rparr>)
     | Some i \<Rightarrow>
         ebind (arr_get (pool_entries qp) i) (\<lambda>entry.
         if 1 < pe_usage entry then Ret (0, qp\<lparr>pool_entries := (pool_entries qp)[i := entry\<lparr>pe_usage := pe_usage entry - 1\<rparr>]\<rparr>, s)
         else Ret (- 1, qp, s\<lparr>mq_errno := - AOSL_EPERM\<rparr>)))"

definition aosl_mpq_free :: "u64 \<Rightarrow> mpq_pools \<Rightarrow> mpq_sys \<Rightarrow> (int \<times> mpq_pools \<times> mpq_sys) exec" where
  "aosl_mpq_free qi = on_gen_pool (pool_free_qid qi)"

subsection \<open>Creating a pool\<close>

definition mpqp_create :: "bool \<Rightarrow> bool \<Rightarrow> int \<Rightarrow> int \<Rightarrow> int \<Rightarrow> int \<Rightarrow> int \<Rightarrow> u32 \<Rightarrow> mpq_sys \<Rightarrow> mpq_pool option \<times> mpq_sys" where
  "mpqp_create pool_mem entries_mem psize pri stack_size max_size max_idles flags s =
     (if (psize < 1 \<or> MPQP_MAX_SIZE < psize) \<or> (max_size < 1 \<or> MPQ_MAX_SIZE < max_size) \<or> (max_idles = 0 \<or> 0x7fffffff div 3 < max_idles)
      then (None, s\<lparr>mq_errno := AOSL_EINVAL\<rparr>)
      else if \<not> pool_mem \<or> \<not> entries_mem then (None, s\<lparr>mq_errno := AOSL_ENOMEM\<rparr>)
      else (Some \<lparr>qp_size = psize, pool_entries = replicate (nat psize) empty_entry, qp_count = 0, qp_q_max = max_size, qp_max_idles = max_idles,
                 qp_flags = flags, qp_pri = pri, qp_stack_size = stack_size\<rparr>, s))"

definition AOSL_THRD_PRI_DEFAULT :: int where "AOSL_THRD_PRI_DEFAULT = 0"
definition AOSL_THRD_PRI_HIGH :: int where "AOSL_THRD_PRI_HIGH = 3"
definition AOSL_MPQ_FLAG_SIGP_EVENT :: u32 where "AOSL_MPQ_FLAG_SIGP_EVENT = 2"
definition LTWP_SIZE :: int where "LTWP_SIZE = 2"
definition LTWP_MAX_IDLES :: int where "LTWP_MAX_IDLES = 5"

definition pool_cpus :: "int \<Rightarrow> int" where
  "pool_cpus processors = (if processors < 1 \<or> MPQP_MAX_SIZE < processors then 1 else processors)"

definition created :: "mpq_pool option \<Rightarrow> int" where
  "created qp = (if qp = None then - 1 else 0)"

definition mpqp_create_cpu_pool :: "int \<Rightarrow> bool \<Rightarrow> bool \<Rightarrow> mpq_pools \<Rightarrow> mpq_sys \<Rightarrow> int \<times> mpq_pools \<times> mpq_sys" where
  "mpqp_create_cpu_pool processors m1 m2 ps s =
     (let (qp, s) = mpqp_create m1 m2 (pool_cpus processors) AOSL_THRD_PRI_HIGH 0 10000 (- 1) 0 s in (created qp, ps\<lparr>cpu_pool := qp\<rparr>, s))"

definition mpqp_create_gpu_pool :: "int \<Rightarrow> bool \<Rightarrow> bool \<Rightarrow> mpq_pools \<Rightarrow> mpq_sys \<Rightarrow> int \<times> mpq_pools \<times> mpq_sys" where
  "mpqp_create_gpu_pool processors m1 m2 ps s =
     (let (qp, s) = mpqp_create m1 m2 (pool_cpus processors) AOSL_THRD_PRI_HIGH 0 10000 (- 1) 0 s in (created qp, ps\<lparr>gpu_pool := qp\<rparr>, s))"

definition mpqp_create_gen_pool :: "int \<Rightarrow> bool \<Rightarrow> bool \<Rightarrow> mpq_pools \<Rightarrow> mpq_sys \<Rightarrow> int \<times> mpq_pools \<times> mpq_sys" where
  "mpqp_create_gen_pool processors m1 m2 ps s =
     (let (qp, s) = mpqp_create m1 m2 (pool_cpus processors * 2) AOSL_THRD_PRI_HIGH 0 10000 (- 1) 0 s in (created qp, ps\<lparr>gen_pool := qp\<rparr>, s))"

definition mpqp_create_ltw_pool :: "bool \<Rightarrow> bool \<Rightarrow> mpq_pools \<Rightarrow> mpq_sys \<Rightarrow> int \<times> mpq_pools \<times> mpq_sys" where
  "mpqp_create_ltw_pool m1 m2 ps s =
     (let ltwp_size = (if LTWP_SIZE < 1 \<or> 64 < LTWP_SIZE then 32 else LTWP_SIZE);
          (qp, s) = mpqp_create m1 m2 ltwp_size AOSL_THRD_PRI_DEFAULT (push_bit 10 4) 100 LTWP_MAX_IDLES AOSL_MPQ_FLAG_SIGP_EVENT s
      in (created qp, ps\<lparr>ltw_pool := qp\<rparr>, s))"

definition k_mpqp_init :: "bool \<Rightarrow> bool \<Rightarrow> mpq_pools \<Rightarrow> mpq_sys \<Rightarrow> (mpq_pools \<times> mpq_sys) exec" where
  "k_mpqp_init m1 m2 ps s = (case mpqp_create_ltw_pool m1 m2 ps s of (r, ps, s) \<Rightarrow> if r < 0 then Abort else Ret (ps, s))"

subsection \<open>Shrinking a pool\<close>

definition destroy_held :: "mpq_env \<Rightarrow> ptr \<Rightarrow> mpq_sys \<Rightarrow> mpq_sys exec" where
  "destroy_held e q s =
     ebind (upd_queue q (\<lambda>mq. mq\<lparr>mq_usage := mq_usage mq + 1\<rparr>) s) (\<lambda>s. ebind (mpq_destroy_q e q s) (mpq_put q))"

definition detach_last :: "mpq_pool \<Rightarrow> (ptr \<times> mpq_pool) exec" where
  "detach_last qp =
     (if 1 < qp_count qp then
        let i = nat (qp_count qp - 1) in
        ebind (arr_get (pool_entries qp) i) (\<lambda>entry.
        bug_on (pe_usage entry = 0)
          (Ret (if pe_usage entry = 1 then (pe_q entry, qp\<lparr>pool_entries := (pool_entries qp)[i := empty_entry], qp_count := qp_count qp - 1\<rparr>)
                else (0, qp))))
      else Ret (0, qp))"

definition mpqp_shrink :: "nat \<Rightarrow> mpq_env \<Rightarrow> bool \<Rightarrow> mpq_pool \<Rightarrow> mpq_sys \<Rightarrow> (int \<times> mpq_pool \<times> mpq_sys) exec" where
  "mpqp_shrink fuel e wait qp s =
     ebind (detach_last qp) (\<lambda>(q, qp).
     if q \<noteq> 0 then
       let should_wait = (wait \<and> this_q s \<noteq> q) in
       ebind (if should_wait then mpq_add_wait q s else Ret (0, s)) (\<lambda>(n, s).
       ebind (destroy_held e q s) (\<lambda>s.
       ebind (if should_wait then mpq_destroy_wait fuel e n s else Ret (0, s)) (\<lambda>(_, s).
       Ret (0, qp, s))))
     else Ret (- 1, qp, s\<lparr>mq_errno := AOSL_EPERM\<rparr>))"

text \<open>The queues of all entries are terminated; the wait entries of those to be waited for. An entry without a queue leaves a wait entry of zeros.\<close>

fun destroy_entries :: "mpq_env \<Rightarrow> bool \<Rightarrow> pool_entry list \<Rightarrow> mpq_sys \<Rightarrow> (nat list \<times> mpq_sys) exec" where
  "destroy_entries e wait [] s = Ret ([], s)"
| "destroy_entries e wait (entry # es) s =
     (if pe_q entry \<noteq> 0 then
        ebind (if wait \<and> this_q s \<noteq> pe_q entry then ebind (mpq_add_wait (pe_q entry) s) (\<lambda>(n, s). Ret ([n], s)) else Ret ([], s)) (\<lambda>(w, s).
        ebind (destroy_held e (pe_q entry) s) (\<lambda>s.
        ebind (destroy_entries e wait es s) (\<lambda>(ws, s). Ret (w @ ws, s))))
      else if wait then Fault
      else destroy_entries e wait es s)"

fun wait_entries :: "nat \<Rightarrow> mpq_env \<Rightarrow> nat list \<Rightarrow> mpq_sys \<Rightarrow> mpq_sys exec" where
  "wait_entries fuel e [] s = Ret s"
| "wait_entries fuel e (n # ns) s = ebind (mpq_destroy_wait fuel e n s) (\<lambda>(_, s). wait_entries fuel e ns s)"

definition clear_entries :: "mpq_pool \<Rightarrow> mpq_pool" where
  "clear_entries qp = qp\<lparr>pool_entries := replicate (nat (qp_count qp)) empty_entry @ drop (nat (qp_count qp)) (pool_entries qp), qp_count := 0\<rparr>"

definition mpqp_shrink_all :: "nat \<Rightarrow> mpq_env \<Rightarrow> bool \<Rightarrow> mpq_pool \<Rightarrow> mpq_sys \<Rightarrow> (mpq_pool \<times> mpq_sys) exec" where
  "mpqp_shrink_all fuel e wait qp s =
     (if 0 < qp_count qp then
        ebind (in_use_entries qp) (\<lambda>es.
        ebind (destroy_entries e wait es s) (\<lambda>(ws, s). let qp = clear_entries qp in
        ebind (wait_entries fuel e ws s) (\<lambda>s. Ret (qp, s))))
      else Ret (qp, s))"

definition shrink_all_null :: "nat \<Rightarrow> mpq_env \<Rightarrow> mpq_pool option \<Rightarrow> mpq_sys \<Rightarrow> (mpq_pool option \<times> mpq_sys) exec" where
  "shrink_all_null fuel e qp s = (case qp of None \<Rightarrow> Ret (None, s) | Some qp \<Rightarrow> ebind (mpqp_shrink_all fuel e True qp s) (\<lambda>(qp, s). Ret (Some qp, s)))"

definition mpqp_shrink_pools :: "nat \<Rightarrow> mpq_env \<Rightarrow> mpq_pools \<Rightarrow> mpq_sys \<Rightarrow> (mpq_pools \<times> mpq_sys) exec" where
  "mpqp_shrink_pools fuel e ps s =
     ebind (shrink_all_null fuel e (cpu_pool ps) s) (\<lambda>(qp, s). let ps = ps\<lparr>cpu_pool := qp\<rparr> in
     ebind (shrink_all_null fuel e (gpu_pool ps) s) (\<lambda>(qp, s). let ps = ps\<lparr>gpu_pool := qp\<rparr> in
     ebind (shrink_all_null fuel e (gen_pool ps) s) (\<lambda>(qp, s). let ps = ps\<lparr>gen_pool := qp\<rparr> in
     ebind (shrink_all_null fuel e (ltw_pool ps) s) (\<lambda>(qp, s). Ret (ps\<lparr>ltw_pool := qp\<rparr>, s)))))"

text \<open>The calls of \<^verbatim>\<open>aosl_mpqp.h\<close>; a null pool is refused, but not by \<^verbatim>\<open>aosl_mpqp_destroy\<close>.\<close>

definition aosl_mpqp_shrink :: "nat \<Rightarrow> mpq_env \<Rightarrow> bool \<Rightarrow> mpq_pool option \<Rightarrow> mpq_sys \<Rightarrow> (int \<times> mpq_pool option \<times> mpq_sys) exec" where
  "aosl_mpqp_shrink fuel e wait qp s = (case qp of
       None \<Rightarrow> Ret (- 1, None, s)
     | Some qp \<Rightarrow> ebind (mpqp_shrink fuel e wait qp s) (\<lambda>(r, qp, s). Ret (r, Some qp, s)))"

definition aosl_mpqp_shrink_all :: "nat \<Rightarrow> mpq_env \<Rightarrow> bool \<Rightarrow> mpq_pool option \<Rightarrow> mpq_sys \<Rightarrow> (mpq_pool option \<times> mpq_sys) exec" where
  "aosl_mpqp_shrink_all fuel e wait qp s = (case qp of
       None \<Rightarrow> Ret (None, s)
     | Some qp \<Rightarrow> ebind (mpqp_shrink_all fuel e wait qp s) (\<lambda>(qp, s). Ret (Some qp, s)))"

definition aosl_mpqp_destroy :: "nat \<Rightarrow> mpq_env \<Rightarrow> bool \<Rightarrow> mpq_pool option \<Rightarrow> mpq_sys \<Rightarrow> mpq_sys exec" where
  "aosl_mpqp_destroy fuel e wait qp s =
     ebind (aosl_mpqp_shrink_all fuel e wait qp s) (\<lambda>(qp, s). case qp of None \<Rightarrow> Fault | Some _ \<Rightarrow> Ret s)"

definition k_mpqp_fini :: "nat \<Rightarrow> mpq_env \<Rightarrow> mpq_pools \<Rightarrow> mpq_sys \<Rightarrow> (mpq_pools \<times> mpq_sys) exec" where
  "k_mpqp_fini fuel e ps s = ebind (aosl_mpqp_destroy fuel e True (ltw_pool ps) s) (\<lambda>s. Ret (ps\<lparr>ltw_pool := None\<rparr>, s))"

text \<open>The timer function that every queue of a pool with a positive \<^verbatim>\<open>q_max_idles\<close> runs once a second.\<close>

definition mpqp_q_check_shrink :: "nat \<Rightarrow> mpq_env \<Rightarrow> mpqp_q_idle_stat \<Rightarrow> mpq_pool \<Rightarrow> mpq_sys \<Rightarrow> (mpqp_q_idle_stat \<times> mpq_pool \<times> mpq_sys) exec" where
  "mpqp_q_check_shrink fuel e st qp s =
     (if qp_max_idles qp < 0 then Abort
      else
        ebind (queue_at (this_q s) s) (\<lambda>this.
        case idle_check qp this st of
          (st, Shrink_all) \<Rightarrow> ebind (mpqp_shrink_all fuel e True qp s) (\<lambda>(qp, s). Ret (st, qp, s))
        | (st, Shrink_one) \<Rightarrow> ebind (mpqp_shrink fuel e True qp s) (\<lambda>(_, qp, s). Ret (st, qp, s))
        | (st, No_shrink) \<Rightarrow> Ret (st, qp, s)))"

subsection \<open>After everything queued so far\<close>

text \<open>The counters and names that \<^verbatim>\<open>aosl_mpqp_pool_tail_queue\<close> allocates; both are given back by the last queue of the pool.\<close>

record promise_mem =
  pm_counts :: "ptr \<rightharpoonup> u64"
  pm_names :: "ptr \<rightharpoonup> string"

definition promise_last :: "nat \<Rightarrow> mpq_env \<Rightarrow> u64 \<Rightarrow> ptr \<Rightarrow> u64 \<Rightarrow> u64 \<Rightarrow> string \<Rightarrow> ptr \<Rightarrow> u64 list \<Rightarrow> mpq_sys \<Rightarrow> mpq_sys exec" where
  "promise_last fuel e ts robj ac done_qid name f args s =
     ebind (q_invoke_f e (this_q s) done_qid robj name f ts (ac - 4) (Argv args) s) (\<lambda>s.
     if \<not> aosl_mpq_invalid done_qid \<and> robj \<noteq> AOSL_FREE_ONLY_OBJ then
       ebind (mpq_get done_qid s) (\<lambda>(done_q, s).
       if done_q \<noteq> 0 then
         ebind (if robj \<noteq> 0 then aosl_refobj_id robj (refsys s) else Ret (- 1)) (\<lambda>ref.
         ebind (mpq_queue_no_fail fuel e done_q AOSL_MPQ_INVALID ref name f (Argv args) s) (\<lambda>(_, s). mpq_put done_q s))
       else q_invoke_f e (this_q s) AOSL_MPQ_INVALID AOSL_FREE_ONLY_OBJ name f ts (ac - 4) (Argv args) s)
     else Ret s)"

definition each_pool_promise_f :: "nat \<Rightarrow> mpq_env \<Rightarrow> u64 \<Rightarrow> ptr \<Rightarrow> u64 \<Rightarrow> u64 list \<Rightarrow> promise_mem \<Rightarrow> mpq_sys \<Rightarrow> (promise_mem \<times> mpq_sys) exec" where
  "each_pool_promise_f fuel e ts robj ac args pm s =
     ebind (arr_get args 0) (\<lambda>count_p.
     case pm_counts pm (unat count_p) of
       None \<Rightarrow> Fault
     | Some c \<Rightarrow>
         if c - 1 = 0 then
           ebind (arr_get args 1) (\<lambda>done_qid. ebind (arr_get args 2) (\<lambda>name_p. ebind (arr_get args 3) (\<lambda>f.
           let name = (case pm_names pm (unat name_p) of None \<Rightarrow> [] | Some n \<Rightarrow> n);
               pm = pm\<lparr>pm_counts := (pm_counts pm)(unat count_p := None)\<rparr> in
           ebind (promise_last fuel e ts robj ac done_qid name (unat f) (drop 4 args) s) (\<lambda>s.
           Ret (pm\<lparr>pm_names := (pm_names pm)(unat name_p := None)\<rparr>, s)))))
         else Ret (pm\<lparr>pm_counts := (pm_counts pm)(unat count_p \<mapsto> c - 1)\<rparr>, s))"

fun queue_to_all :: "nat \<Rightarrow> mpq_env \<Rightarrow> u32 \<Rightarrow> ptr \<Rightarrow> u64 list \<Rightarrow> pool_entry list \<Rightarrow> mpq_sys \<Rightarrow> mpq_sys exec" where
  "queue_to_all fuel e ref f args [] s = Ret s"
| "queue_to_all fuel e ref f args (entry # es) s =
     ebind (mpq_queue_no_fail fuel e (pe_q entry) AOSL_MPQ_INVALID ref [] f (Argv args) s) (\<lambda>(_, s). queue_to_all fuel e ref f args es s)"

text \<open>\<open>mem\<close>: the addresses of the counter and of the copied name; \<open>promise_f\<close>: the address of \<^verbatim>\<open>____each_pool_promise_f\<close>.\<close>

definition mpqp_pool_tail_queue_argv :: "nat \<Rightarrow> mpq_env \<Rightarrow> create_f \<Rightarrow> (ptr \<times> ptr) option \<Rightarrow> ptr \<Rightarrow> u64 \<Rightarrow> u32 \<Rightarrow> string \<Rightarrow> ptr \<Rightarrow> u64 list
    \<Rightarrow> promise_mem \<Rightarrow> mpq_pool \<Rightarrow> mpq_sys \<Rightarrow> (int \<times> promise_mem \<times> mpq_pool \<times> mpq_sys) exec" where
  "mpqp_pool_tail_queue_argv fuel e create mem promise_f done_qid ref name f args pm qp s = (case mem of
       None \<Rightarrow> Ret (- 1, pm, qp, s)
     | Some (count_p, name_p) \<Rightarrow>
         ebind (if qp_count qp = 0 then pool_create_add_mpq_locked create qp s else Ret (Inr 0, qp, s)) (\<lambda>(r, qp, s).
         case r of
           Inl err \<Rightarrow> if err < 0 then Ret (- 1, pm, qp, s\<lparr>mq_errno := - err\<rparr>) else Ret (0, pm, qp, s)
         | Inr _ \<Rightarrow>
             let pm = pm\<lparr>pm_counts := (pm_counts pm)(count_p \<mapsto> word_of_int (qp_count qp)), pm_names := (pm_names pm)(name_p \<mapsto> name)\<rparr>;
                 this_argv = [of_nat count_p, done_qid, of_nat name_p, of_nat f] @ args in
             ebind (in_use_entries qp) (\<lambda>es.
             ebind (queue_to_all fuel e ref promise_f this_argv es s) (\<lambda>s. Ret (0, pm, qp, s)))))"

definition aosl_mpqp_pool_tail_queue :: "nat \<Rightarrow> mpq_env \<Rightarrow> create_f \<Rightarrow> (ptr \<times> ptr) option \<Rightarrow> ptr \<Rightarrow> u64 \<Rightarrow> u32 \<Rightarrow> string \<Rightarrow> ptr \<Rightarrow> u64 list
    \<Rightarrow> promise_mem \<Rightarrow> mpq_pool \<Rightarrow> mpq_sys \<Rightarrow> (int \<times> promise_mem \<times> mpq_pool \<times> mpq_sys) exec" where
  "aosl_mpqp_pool_tail_queue fuel e create mem promise_f dq ref name f args pm qp s =
     (if MPQ_ARGC_MAX < length args then Ret (- 1, pm, qp, s\<lparr>mq_errno := AOSL_E2BIG\<rparr>)
      else mpqp_pool_tail_queue_argv fuel e create mem promise_f dq ref name f args pm qp s)"

subsection \<open>The invariant of a pool\<close>

definition pool_queues :: "mpq_pool \<Rightarrow> ptr list" where
  "pool_queues qp = map pe_q (take (nat (qp_count qp)) (pool_entries qp))"

definition mpq_pool_ok :: "mpq_pool \<Rightarrow> mpq_sys \<Rightarrow> bool" where
  "mpq_pool_ok qp s \<longleftrightarrow> 0 < qp_size qp \<and> 0 \<le> qp_count qp \<and> qp_count qp \<le> qp_size qp \<and> qp_size qp = int (length (pool_entries qp))
     \<and> (\<forall>entry \<in> set (take (nat (qp_count qp)) (pool_entries qp)). pe_q entry \<noteq> 0 \<and> queues s (pe_q entry) \<noteq> None \<and> pe_usage entry \<noteq> 0)
     \<and> (\<forall>entry \<in> set (drop (nat (qp_count qp)) (pool_entries qp)). entry = empty_entry)
     \<and> distinct (pool_queues qp)"

text \<open>The load of a queue as the pool compares it.\<close>

definition q_load_of :: "mpq_sys \<Rightarrow> ptr \<Rightarrow> int" where
  "q_load_of s q = (case queues s q of None \<Rightarrow> 0 | Some mq \<Rightarrow> sint (mq_count mq))"

lemma mpq_pool_okD:
  assumes "mpq_pool_ok qp s"
  shows "0 \<le> qp_count qp" "qp_count qp \<le> qp_size qp" "qp_size qp = int (length (pool_entries qp))" "nat (qp_count qp) \<le> length (pool_entries qp)"
    "distinct (pool_queues qp)" "\<And>q. q \<in> set (pool_queues qp) \<Longrightarrow> q \<noteq> 0 \<and> queues s q \<noteq> None" "0 < qp_size qp"
  using assms by (auto simp: mpq_pool_ok_def pool_queues_def)

lemma in_use_entries_ok: "mpq_pool_ok qp s \<Longrightarrow> in_use_entries qp = Ret (take (nat (qp_count qp)) (pool_entries qp))"
  using mpq_pool_okD(4) [of qp s] by (simp add: in_use_entries_def)

lemma mpq_pool_ok_sys: "mpq_pool_ok qp s \<Longrightarrow> (\<And>q. queues s q \<noteq> None \<Longrightarrow> queues s' q \<noteq> None) \<Longrightarrow> mpq_pool_ok qp s'"
  unfolding mpq_pool_ok_def by blast

lemma pool_queues_Nil: "mpq_pool_ok qp s \<Longrightarrow> pool_queues qp = [] \<longleftrightarrow> qp_count qp = 0"
  using mpq_pool_okD(1,4) [of qp s] by (auto simp: pool_queues_def)

text \<open>The scan keeps a least loaded queue.\<close>

lemma best_q_from_least:
  assumes "\<forall>entry \<in> set es. pe_q entry \<noteq> 0 \<and> queues s (pe_q entry) \<noteq> None" and "best = 0 \<or> queues s best \<noteq> None"
  shows "\<exists>q. best_q_from es best s = Ret q \<and> (q = 0 \<longleftrightarrow> best = 0 \<and> es = []) \<and> (q = best \<or> q \<in> pe_q ` set es)
    \<and> (best \<noteq> 0 \<longrightarrow> q_load_of s q \<le> q_load_of s best) \<and> (\<forall>entry \<in> set es. q_load_of s q \<le> q_load_of s (pe_q entry))"
  using assms
proof (induction es arbitrary: best)
  case (Cons entry es)
  obtain mq where mq: "queues s (pe_q entry) = Some mq" "pe_q entry \<noteq> 0" using Cons.prems(1) by auto
  define b where "b = (if best = 0 \<or> q_load_of s (pe_q entry) < q_load_of s best then pe_q entry else best)"
  have step: "best_q_from (entry # es) best s = best_q_from es b s"
    using mq Cons.prems(2) by (auto simp: b_def queue_at_def q_load_of_def)
  have b: "b \<noteq> 0" "queues s b \<noteq> None" using mq Cons.prems(2) by (auto simp: b_def)
  from Cons.IH [of b] Cons.prems(1) b obtain q where
    q: "best_q_from es b s = Ret q" "q \<noteq> 0" "q = b \<or> q \<in> pe_q ` set es" "q_load_of s q \<le> q_load_of s b"
    "\<forall>entry \<in> set es. q_load_of s q \<le> q_load_of s (pe_q entry)" by auto
  have "q_load_of s b \<le> q_load_of s (pe_q entry)" "best \<noteq> 0 \<longrightarrow> q_load_of s b \<le> q_load_of s best" "b = best \<or> b = pe_q entry" by (auto simp: b_def)
  with q show ?case unfolding step by auto
qed simp

lemma find_best_least:
  assumes ok: "mpq_pool_ok qp s"
  obtains q where "mpqp_find_best_q_locked qp s = Ret q" "q = 0 \<longleftrightarrow> qp_count qp = 0" "q \<noteq> 0 \<Longrightarrow> q \<in> set (pool_queues qp)"
    "\<And>p. p \<in> set (pool_queues qp) \<Longrightarrow> q_load_of s q \<le> q_load_of s p"
proof -
  let ?es = "take (nat (qp_count qp)) (pool_entries qp)"
  have "\<forall>entry \<in> set ?es. pe_q entry \<noteq> 0 \<and> queues s (pe_q entry) \<noteq> None" using ok by (auto simp: mpq_pool_ok_def)
  from best_q_from_least [OF this disjI1 [OF refl]] obtain q where q: "best_q_from ?es 0 s = Ret q" "q = 0 \<longleftrightarrow> ?es = []"
    "q = 0 \<or> q \<in> pe_q ` set ?es" "\<forall>entry \<in> set ?es. q_load_of s q \<le> q_load_of s (pe_q entry)"
    unfolding simp_thms by (elim exE conjE)
  have nil: "?es = [] \<longleftrightarrow> qp_count qp = 0" using pool_queues_Nil [OF ok] unfolding pool_queues_def map_is_Nil_conv .
  show thesis
  proof (rule that)
    show "mpqp_find_best_q_locked qp s = Ret q" using q(1) in_use_entries_ok [OF ok] by (simp add: mpqp_find_best_q_locked_def)
    show "q = 0 \<longleftrightarrow> qp_count qp = 0" using q(2) nil by blast
    show "q \<in> set (pool_queues qp)" if "q \<noteq> 0" using q(3) that by (auto simp: pool_queues_def)
    show "q_load_of s q \<le> q_load_of s p" if "p \<in> set (pool_queues qp)" for p using q(4) that by (auto simp: pool_queues_def)
  qed
qed

subsection \<open>Creating a queue for a pool\<close>

text \<open>What a pool relies on: a creation that fails leaves the queues alone; one that succeeds adds an idle queue that nobody holds and that is not terminated.\<close>

locale queue_creator =
  fixes create :: "'e \<Rightarrow> create_f"
    and env_ok :: "'e \<Rightarrow> mpq_sys \<Rightarrow> bool"
  assumes create_law: "env_ok env s \<Longrightarrow> \<exists>q s'. create env s = Ret (q, s') \<and> this_q s' = this_q s
    \<and> (if q = 0 then queues s' = queues s
       else queues s q = None \<and> (\<exists>mq. queues s' = (queues s)(q \<mapsto> mq) \<and> mq_count mq = 0 \<and> mq_usage mq = 1 \<and> \<not> terminated mq))"
begin

text \<open>The new queue takes the first free entry.\<close>

lemma add_law:
  assumes ok: "mpq_pool_ok qp s" and env: "env_ok env s" and room: "qp_count qp < qp_size qp"
  obtains (none) n s' where "pool_create_add_mpq_locked (create env) qp s = Ret (Inl n, qp, s')" "queues s' = queues s" "this_q s' = this_q s"
  | (added) qp' s' q mq where "pool_create_add_mpq_locked (create env) qp s = Ret (Inr (nat (qp_count qp)), qp', s')" "mpq_pool_ok qp' s'"
      "qp_count qp' = qp_count qp + 1" "pool_queues qp' = pool_queues qp @ [q]" "queues s q = None" "queues s' = (queues s)(q \<mapsto> mq)"
      "mq_count mq = 0" "mq_usage mq = 1" "this_q s' = this_q s" "qp_size qp' = qp_size qp"
      "pool_entries qp' = (pool_entries qp)[nat (qp_count qp) := \<lparr>pe_q = q, pe_usage = 1\<rparr>]" "\<not> terminated mq"
proof -
  let ?n = "nat (qp_count qp)" and ?es = "pool_entries qp"
  note d = mpq_pool_okD [OF ok]
  have n: "?n < length ?es" using d room by linarith
  have free: "?es ! ?n = empty_entry"
  proof -
    have "?es ! ?n \<in> set (drop ?n ?es)" using n by (simp add: Cons_nth_drop_Suc [symmetric])
    then show ?thesis using ok by (auto simp: mpq_pool_ok_def)
  qed
  from create_law [OF env] obtain q s' where c: "create env s = Ret (q, s')" "this_q s' = this_q s"
    "if q = 0 then queues s' = queues s
       else queues s q = None \<and> (\<exists>mq. queues s' = (queues s)(q \<mapsto> mq) \<and> mq_count mq = 0 \<and> mq_usage mq = 1 \<and> \<not> terminated mq)" by blast
  show thesis
  proof (cases "q = 0")
    case True
    with c show thesis by (intro none [of "- mq_errno s'" s']) (simp_all add: pool_create_add_mpq_locked_def)
  next
    case False
    with c(3) obtain mq where mq: "queues s q = None" "queues s' = (queues s)(q \<mapsto> mq)" "mq_count mq = 0" "mq_usage mq = 1" "\<not> terminated mq" by auto
    let ?e = "\<lparr>pe_q = q, pe_usage = 1\<rparr>"
    let ?qp = "qp\<lparr>pool_entries := ?es[?n := ?e], qp_count := qp_count qp + 1\<rparr>"
    have eq: "pool_create_add_mpq_locked (create env) qp s = Ret (Inr ?n, ?qp, s')"
      using c(1) False n free by (simp add: pool_create_add_mpq_locked_def arr_get_def bug_on_def empty_entry_def)
    have Suc: "nat (qp_count qp + 1) = Suc ?n" using d(1) by simp
    have tk: "take (Suc ?n) (?es[?n := ?e]) = take ?n ?es @ [?e]" using n by (simp add: take_Suc_conv_app_nth)
    have dr: "drop (Suc ?n) (?es[?n := ?e]) = drop (Suc ?n) ?es" by simp
    have pq: "pool_queues ?qp = pool_queues qp @ [q]" by (simp add: pool_queues_def Suc tk)
    have "q \<notin> set (pool_queues qp)" using d(6) [of q] mq(1) by blast
    then have dist: "distinct (pool_queues ?qp)" using d(5) by (simp add: pq)
    have used: "\<forall>entry \<in> set (take ?n ?es @ [?e]). pe_q entry \<noteq> 0 \<and> queues s' (pe_q entry) \<noteq> None \<and> pe_usage entry \<noteq> 0"
      using ok False by (auto simp: mpq_pool_ok_def mq(2))
    have "set (drop (Suc ?n) ?es) \<subseteq> set (drop ?n ?es)" by (rule set_drop_subset_set_drop) simp
    then have rest: "\<forall>entry \<in> set (drop (Suc ?n) ?es). entry = empty_entry" using ok unfolding mpq_pool_ok_def by blast
    have "mpq_pool_ok ?qp s'" using d room dist used rest by (simp add: mpq_pool_ok_def Suc tk)
    with eq pq mq c(2) show thesis by (intro added [of ?qp s' q mq]) simp_all
  qed
qed

text \<open>The queue that work goes to.\<close>

lemma get_law:
  assumes ok: "mpq_pool_ok qp s" and env: "env_ok env s"
  obtains (none) n s' where "mpqp_best_q_get (create env) qp s = Ret (Inl n, qp, s')" "qp_count qp = 0" "queues s' = queues s"
  | (old) q mq s' where "mpqp_best_q_get (create env) qp s = Ret (Inr q, qp, s')" "q \<in> set (pool_queues qp)" "queues s q = Some mq"
      "queues s' = (queues s)(q \<mapsto> q_load 1 mq)" "\<forall>p \<in> set (pool_queues qp). q_load_of s q \<le> q_load_of s p" "this_q s' = this_q s"
      "q_load_of s q \<le> 0 \<or> qp_count qp = qp_size qp \<or> (\<exists>s1. create env s = Ret (0, s1))"
  | (new) q mq qp' s' where "mpqp_best_q_get (create env) qp s = Ret (Inr q, qp', s')" "mpq_pool_ok qp' s'" "pool_queues qp' = pool_queues qp @ [q]"
      "queues s q = None" "queues s' = (queues s)(q \<mapsto> q_load 1 mq)" "mq_count mq = 0" "mq_usage mq = 1" "this_q s' = this_q s"
      "\<forall>p \<in> set (pool_queues qp). 0 < q_load_of s p" "qp_count qp' = qp_count qp + 1"
      "pool_entries qp' = (pool_entries qp)[nat (qp_count qp) := \<lparr>pe_q = q, pe_usage = 1\<rparr>]" "\<not> terminated mq"
proof -
  note d = mpq_pool_okD [OF ok]
  from find_best_least [OF ok] obtain q where q: "mpqp_find_best_q_locked qp s = Ret q" "q = 0 \<longleftrightarrow> qp_count qp = 0"
    "q \<noteq> 0 \<Longrightarrow> q \<in> set (pool_queues qp)" "\<And>p. p \<in> set (pool_queues qp) \<Longrightarrow> q_load_of s q \<le> q_load_of s p" by blast
  define grow where "grow \<longleftrightarrow> q = 0 \<or> 0 < q_load_of s q \<and> qp_count qp < qp_size qp"
  have some: "\<exists>mq. queues s q = Some mq \<and> q_load_of s q = sint (mq_count mq)" if "q \<noteq> 0" using d(6) [OF q(3) [OF that]] by (auto simp: q_load_of_def)
  have dec: "(if q = 0 then Ret True else ebind (queue_at q s) (\<lambda>mq. Ret (0 < sint (mq_count mq) \<and> qp_count qp < qp_size qp))) = Ret grow"
    using some by (auto simp: grow_def queue_at_def)
  note unf = mpqp_best_q_get_def q(1) dec ebind.simps
  show thesis
  proof (cases grow)
    case False
    then have "q \<noteq> 0" by (simp add: grow_def)
    from some [OF this] obtain mq where mq: "queues s q = Some mq" "q_load_of s q = sint (mq_count mq)" by blast
    have eq: "mpqp_best_q_get (create env) qp s = Ret (Inr q, qp, s\<lparr>queues := (queues s)(q \<mapsto> q_load 1 mq)\<rparr>)"
      unfolding unf using False mq(1) by (simp add: upd_queue_Ret)
    have "q_load_of s q \<le> 0 \<or> qp_count qp = qp_size qp" using False \<open>q \<noteq> 0\<close> d(2) by (auto simp: grow_def)
    with mq(1) q(3,4) \<open>q \<noteq> 0\<close> show thesis by (intro old [OF eq]) auto
  next
    case True
    then have room: "qp_count qp < qp_size qp" using q(2) d(7) by (auto simp: grow_def)
    show thesis
    proof (cases rule: add_law [OF ok env room, case_names none added])
      case (none n s1)
      have fail: "\<exists>s1. create env s = Ret (0, s1)"
        using create_law [OF env] none(1) by (auto simp: pool_create_add_mpq_locked_def ebind_Ret_iff bug_on_def split: if_splits)
      show thesis
      proof (cases "q = 0")
        case True
        then have "mpqp_best_q_get (create env) qp s = Ret (Inl n, qp, s1)" unfolding unf using none(1) grow_def by simp
        with True q(2) none(2) show thesis by (intro that(1) [of n s1]) simp_all
      next
        case False
        from some [OF this] obtain mq where mq: "queues s q = Some mq" by blast
        have eq: "mpqp_best_q_get (create env) qp s = Ret (Inr q, qp, s1\<lparr>queues := (queues s1)(q \<mapsto> q_load 1 mq)\<rparr>)"
          unfolding unf using True none(1,2) False mq by (simp add: upd_queue_Ret)
        show thesis using mq q(3,4) False none(2,3) fail by (intro old [OF eq]) auto
      qed
    next
      case (added qp1 s1 p mq)
      have n: "nat (qp_count qp) < length (pool_entries qp)" using d room by linarith
      have eq: "mpqp_best_q_get (create env) qp s = Ret (Inr p, qp1, s1\<lparr>queues := (queues s1)(p \<mapsto> q_load 1 mq)\<rparr>)"
        unfolding unf using True added(1,6,11) n by (simp add: upd_queue_Ret arr_get_def)
      have okp: "mpq_pool_ok qp1 (s1\<lparr>queues := (queues s1)(p \<mapsto> q_load 1 mq)\<rparr>)" by (rule mpq_pool_ok_sys [OF added(2)]) simp
      have busy: "0 < q_load_of s x" if "x \<in> set (pool_queues qp)" for x
      proof -
        have "qp_count qp \<noteq> 0" using that pool_queues_Nil [OF ok] by auto
        then have "0 < q_load_of s q" using True q(2) by (simp add: grow_def)
        with q(4) [OF that] show ?thesis by linarith
      qed
      show thesis using added(3-9,11,12) okp busy by (intro new [OF eq]) auto
    qed
  qed
qed

end

text \<open>The creation of \<^verbatim>\<open>kernel/mpq.c\<close> with the pool's callbacks keeps the contract.\<close>

record pool_env =
  pv_fuel :: nat
  pv_life :: life_env
  pv_mem :: bool
  pv_timer :: "mpq_sys \<Rightarrow> (int \<times> mpq_sys) exec"
  pv_init :: user_init
  pv_fini :: user_fini
  pv_arg :: ptr
  pv_pool :: mpq_pool

definition create_for_pool :: "pool_env \<Rightarrow> create_f" where
  "create_for_pool v = pool_create_mpq (pv_fuel v) (pv_life v) (pv_mem v) (pv_timer v) (pv_init v) (pv_fini v) (pv_arg v) (pv_pool v)"

definition pool_env_ok :: "pool_env \<Rightarrow> mpq_sys \<Rightarrow> bool" where
  "pool_env_ok v s \<longleftrightarrow> 0 < pv_fuel v \<and> sys_ok s \<and> fresh_mem (pv_life v) s \<and> quiet_release (pv_life v)
     \<and> (\<forall>s. \<exists>r n. pv_timer v s = Ret (r, s\<lparr>mq_errno := n\<rparr>)) \<and> quiet_init (pv_init v) \<and> quiet_fini (pv_fini v)"

lemma mpqp_q_init_quiet:
  assumes "\<forall>s. \<exists>r n. tm s = Ret (r, s\<lparr>mq_errno := n\<rparr>)" and "quiet_init init"
  shows "quiet_init (Some (\<lambda>_. mpqp_q_init mem tm init qp arg))"
proof -
  have same: "\<exists>n. s = s\<lparr>mq_errno := n\<rparr>" for s :: mpq_sys by (rule exI [of _ "mq_errno s"]) simp
  have tm: "\<exists>r n. (if 0 < qp_max_idles qp then if \<not> mem then Ret (- 1, s) else tm s else Ret (0, s)) = Ret (r, s\<lparr>mq_errno := n\<rparr>)" for s
    using assms(1) by (cases "0 < qp_max_idles qp"; cases mem) (simp_all add: same)
  have init: "\<exists>r n. (case init of None \<Rightarrow> Ret (0, s) | Some f \<Rightarrow> f arg s) = Ret (r, s\<lparr>mq_errno := n\<rparr>)" for s
    using assms(2) by (cases init) (simp_all add: same quiet_init_def)
  have "\<exists>r n. mpqp_q_init mem tm init qp arg s = Ret (r, s\<lparr>mq_errno := n\<rparr>)" for s
  proof -
    from tm [of s] obtain r n where t: "(if 0 < qp_max_idles qp then if \<not> mem then Ret (- 1, s) else tm s else Ret (0, s)) = Ret (r, s\<lparr>mq_errno := n\<rparr>)" by blast
    from init [of "s\<lparr>mq_errno := n\<rparr>"] obtain r' m where
      i: "(case init of None \<Rightarrow> Ret (0, s\<lparr>mq_errno := n\<rparr>) | Some f \<Rightarrow> f arg (s\<lparr>mq_errno := n\<rparr>)) = Ret (r', s\<lparr>mq_errno := m\<rparr>)" by auto
    show ?thesis unfolding mpqp_q_init_def t ebind.simps prod.case i by (cases "r < 0") auto
  qed
  then show ?thesis by (simp add: quiet_init_def)
qed

lemma mpqp_q_fini_quiet: "quiet_fini fini \<Longrightarrow> quiet_fini (Some (\<lambda>_. mpqp_q_fini fini arg))"
  using call_fini_ok [of fini _ arg] by (simp add: quiet_fini_def [of "Some _"] mpqp_q_fini_def)

interpretation pq: queue_creator create_for_pool pool_env_ok
proof
  fix v s
  assume "pool_env_ok v s"
  then obtain fuel where v: "pv_fuel v = Suc fuel" "sys_ok s" "fresh_mem (pv_life v) s" "quiet_release (pv_life v)"
    "\<forall>s. \<exists>r n. pv_timer v s = Ret (r, s\<lparr>mq_errno := n\<rparr>)" "quiet_init (pv_init v)" "quiet_fini (pv_fini v)"
    by (auto simp: pool_env_ok_def gr0_conv_Suc)
  note i = mpqp_q_init_quiet [OF v(5,6), of "pv_mem v" "pv_pool v" "pv_arg v"] and f = mpqp_q_fini_quiet [OF v(7), of "pv_arg v"]
  let ?flags = "qp_flags (pv_pool v) OR AOSL_MPQ_FLAG_DESTROY_NOT_ALLOWED" and ?max = "qp_q_max (pv_pool v)"
  show "\<exists>q s'. create_for_pool v s = Ret (q, s') \<and> this_q s' = this_q s
      \<and> (if q = 0 then queues s' = queues s
         else queues s q = None \<and> (\<exists>mq. queues s' = (queues s)(q \<mapsto> mq) \<and> mq_count mq = 0 \<and> mq_usage mq = 1 \<and> \<not> terminated mq))"
  proof (cases rule: mpq_create_law [OF v(2-4) i f, where fuel = fuel and flags = ?flags and max_size = ?max and arg = 0, case_names failed made])
    case (failed s')
    then show ?thesis by (auto simp: create_for_pool_def pool_create_mpq_def v(1) same_registry_def)
  next
    case (made q i s')
    then show ?thesis by (auto simp: create_for_pool_def pool_create_mpq_def v(1) created_queue_def)
  qed
qed

subsection \<open>Properties\<close>

lemma q_load_inv [simp]: "q_load (- k) (q_load k mq) = mq" "mq_id (q_load k mq) = mq_id mq"
  by (simp_all add: q_load_def)

text \<open>
  C20. Work goes to a least loaded queue: \<^verbatim>\<open>__mpqp_best_q_get\<close> always returns; it fails only for an empty pool whose first queue cannot be
  created; it returns a queue of the pool with its usage and count raised by one and every other queue as it was. An existing
  queue is one with the fewest functions, and a busy one only when the pool is full or a creation failed; a new queue is added only
  when all others are busy. The invariant of the pool is kept.
\<close>

theorem pool_picks_least_loaded:
  assumes "mpq_pool_ok qp s" and "pool_env_ok v s"
  shows "\<exists>r qp' s'. mpqp_best_q_get (create_for_pool v) qp s = Ret (r, qp', s') \<and> mpq_pool_ok qp' s'
    \<and> (case r of
        Inl n \<Rightarrow> qp_count qp = 0 \<and> qp' = qp \<and> queues s' = queues s
      | Inr q \<Rightarrow> q \<in> set (pool_queues qp') \<and> (\<exists>mq. queues s' = (queues s)(q \<mapsto> q_load 1 mq)
          \<and> (if queues s q = None
             then pool_queues qp' = pool_queues qp @ [q] \<and> mq_count mq = 0 \<and> mq_usage mq = 1 \<and> (\<forall>p \<in> set (pool_queues qp). 0 < q_load_of s p)
             else queues s q = Some mq \<and> qp' = qp \<and> (\<forall>p \<in> set (pool_queues qp). q_load_of s q \<le> q_load_of s p)
               \<and> (q_load_of s q \<le> 0 \<or> qp_count qp = qp_size qp \<or> (\<exists>s1. create_for_pool v s = Ret (0, s1))))))"
proof (cases rule: pq.get_law [OF assms, case_names none old new])
  case (none n s')
  moreover have "mpq_pool_ok qp s'" by (rule mpq_pool_ok_sys [OF assms(1)]) (simp add: none(3))
  ultimately show ?thesis by (intro exI [of _ "Inl n"] exI [of _ qp] exI [of _ s']) simp
next
  case (old q mq s')
  have "mpq_pool_ok qp s'" by (rule mpq_pool_ok_sys [OF assms(1)]) (simp add: old(4))
  with old show ?thesis by (intro exI [of _ "Inr q"] exI [of _ qp] exI [of _ s']) auto
next
  case (new q mq qp' s')
  then show ?thesis by (intro exI [of _ "Inr q"] exI [of _ qp'] exI [of _ s']) auto
qed

abbreviation pool0 :: mpq_pool where
  "pool0 \<equiv> \<lparr>qp_size = 2, pool_entries = [\<lparr>pe_q = 16, pe_usage = 1\<rparr>, empty_entry], qp_count = 1, qp_q_max = 1, qp_max_idles = 5, qp_flags = 2,
     qp_pri = 0, qp_stack_size = 4096\<rparr>"

abbreviation pv0 :: pool_env where
  "pv0 \<equiv> \<lparr>pv_fuel = 1, pv_life = le0, pv_mem = True, pv_timer = (\<lambda>s. Ret (1, s)), pv_init = None, pv_fini = None, pv_arg = 0, pv_pool = pool0\<rparr>"

lemma pool0_ok: "mpq_pool_ok pool0 sys0" "pool_queues pool0 = [16]"
  by (simp_all add: mpq_pool_ok_def pool_queues_def)

lemma pv0_ok: "pool_env_ok pv0 sys0"
proof -
  have "\<exists>n. s = s\<lparr>mq_errno := n\<rparr>" for s :: mpq_sys by (rule exI [of _ "mq_errno s"]) simp
  then show ?thesis using sys0_sys_ok le0_quiet by (simp add: pool_env_ok_def)
qed

theorem pool_picks_least_loaded_witness:
  "\<exists>r qp' s'. mpqp_best_q_get (create_for_pool pv0) pool0 sys0 = Ret (r, qp', s') \<and> mpq_pool_ok qp' s' \<and> (\<exists>q. r = Inr q \<and> q \<in> set (pool_queues qp'))"
  using pool_picks_least_loaded [OF pool0_ok(1) pv0_ok]
  apply (elim exE conjE)
  subgoal for r qp' s' by (rule exI [of _ r], rule exI [of _ qp'], rule exI [of _ s']) (cases r; simp)
  done

text \<open>
  Queueing to a pool adds one function to one queue: when the chosen queue has room beside the place the call itself reserves, the call
  returns the identifier of that queue (through an \<^verbatim>\<open>int\<close>) and the queue differs from before only by the function at its end; the reservation is gone.
\<close>

theorem pool_queue_adds_one:
  assumes get: "mpqp_best_q_get create qp s = Ret (Inr q, qp', s1)" and mq: "queues s1 q = Some (q_load 1 mq)" and room: "sint (mq_count (q_load 1 mq)) < q_max mq"
    and args: "length args \<le> MPQ_ARGC_MAX" and thread: "this_q s1 = 0"
  shows "\<exists>s' mq'. aosl_mpqp_queue_argv (Suc fuel) e create dq ref name f args qp s = Ret (sint (ucast (mq_id mq) :: u32), qp', s')
    \<and> queues s' q = Some mq' \<and> plain mq' = plain (with_fos [new_fo (tick e s1) False 0 dq ref name f (Argv args)] mq)
    \<and> (\<forall>p. p \<noteq> q \<longrightarrow> map_option plain (queues s' p) = map_option plain (queues s1 p))"
proof -
  let ?fo = "new_fo (tick e s1) False 0 dq ref name f (Argv args)"
  have "False \<or> sint (mq_count (q_load 1 mq)) < q_max (q_load 1 mq)" using room by (simp add: q_load_def)
  from add_f_room [OF mq this, of dq fuel e ref name f "Argv args"] thread obtain s2 where
    s2: "add_f (Suc fuel) e q False False dq ref name f (Argv args) s1 = Ret (0, s2)" "grown q [?fo] s1 s2" by blast
  have work: "add_func_argv (Suc fuel) e q False dq ref name f args s1 = Ret (0, s2)"
    using args s2(1) by (simp add: add_func_argv_def add_or_invoke_f_def mpq_return_err_def)
  have gm: "grown_map q [?fo] (queues s1) (queues s2)" using s2(2) by (simp add: grown_def)
  from grown_mapD [OF gm mq] obtain m2 where m2: "queues s2 q = Some m2" "plain m2 = plain (with_fos [?fo] (q_load 1 mq))" by auto
  let ?s' = "s2\<lparr>queues := (queues s2)(q \<mapsto> q_load (- 1) m2)\<rparr>"
  have id: "mq_id m2 = mq_id mq" using plain_eqD [OF m2(2)] by (simp add: with_fos_def)
  have run: "aosl_mpqp_queue_argv (Suc fuel) e create dq ref name f args qp s = Ret (sint (ucast (mq_id mq) :: u32), qp', ?s')"
    using args by (simp add: aosl_mpqp_queue_argv_def best_q_work_def get work queue_at_def m2(1) mpqp_best_q_put_def upd_queue_Ret id)
  have push: "plain (q_load k m) = q_load k (plain m)" for k m by (simp add: plain_def q_load_def)
  have "q_load (- 1) (with_fos [?fo] (q_load 1 mq)) = with_fos [?fo] mq" by (simp add: q_load_def with_fos_def)
  then have "plain (q_load (- 1) m2) = plain (with_fos [?fo] mq)" using m2(2) push by metis
  moreover have "map_option plain (queues ?s' p) = map_option plain (queues s1 p)" if "p \<noteq> q" for p
    using gm that by (simp add: grown_map_def)
  ultimately show ?thesis using run by (intro exI [of _ ?s'] exI [of _ "q_load (- 1) m2"]) simp
qed

abbreviation wide0 :: mp_queue where
  "wide0 \<equiv> mq0\<lparr>q_max := 10\<rparr>"

abbreviation sys_wide :: mpq_sys where
  "sys_wide \<equiv> sys0\<lparr>queues := [16 \<mapsto> wide0], this_q := 0\<rparr>"

lemma wide_get: "mpqp_best_q_get create pool0 sys_wide = Ret (Inr 16, pool0, sys_wide\<lparr>queues := [16 \<mapsto> q_load 1 wide0]\<rparr>)"
  by (simp add: mpqp_best_q_get_def mpqp_find_best_q_locked_def in_use_entries_def queue_at_def upd_queue_def)

theorem pool_queue_adds_one_witness:
  "\<exists>s' mq'. aosl_mpqp_queue_argv 1 env0 (create_for_pool pv0) (- 1) (- 1) ''f'' 100 [7] pool0 sys_wide = Ret (0x10000, pool0, s')
    \<and> queues s' 16 = Some mq' \<and> plain mq' = plain (with_fos [new_fo 5 False 0 (- 1) (- 1) ''f'' 100 (Argv [7])] wide0)"
  using pool_queue_adds_one [OF wide_get, where mq = wide0 and args = "[7]" and fuel = 0 and e = env0 and dq = "- 1" and ref = "- 1" and name = "''f''" and f = 100
    and create = "create_for_pool pv0"] by (auto simp: q_load_def MPQ_ARGC_MAX_def)

text \<open>The place that the call reserves is counted against the limit: nothing the other threads do makes room in a queue of length one.\<close>

definition full_for_ever :: "ptr \<Rightarrow> mpq_sys \<Rightarrow> bool" where
  "full_for_ever q s \<longleftrightarrow> this_q s = 0 \<and> (\<exists>mq. queues s q = Some mq \<and> q_max mq \<le> sint (mq_count mq) \<and> q_flags mq AND AOSL_MPQ_FLAG_NONBLOCK = 0)"

lemma full_loop:
  assumes others: "\<And>s. full_for_ever q s \<Longrightarrow> full_for_ever q (others e s)"
  shows "full_for_ever q s \<Longrightarrow> add_f_loop fuel e q False fo s = NoFuel"
proof (induction fuel arbitrary: s)
  case (Suc fuel)
  then obtain mq where mq: "queues s q = Some mq" "q_max mq \<le> sint (mq_count mq)" "q_flags mq AND AOSL_MPQ_FLAG_NONBLOCK = 0" "this_q s = 0"
    by (auto simp: full_for_ever_def)
  let ?s = "s\<lparr>queues := (queues s)(q \<mapsto> mq\<lparr>wait_q_count := wait_q_count mq + 1\<rparr>)\<rparr>"
  have "full_for_ever q ?s" using mq by (simp add: full_for_ever_def)
  from others [OF this] obtain m where m: "queues (others e ?s) q = Some m" "q_max m \<le> sint (mq_count m)" "q_flags m AND AOSL_MPQ_FLAG_NONBLOCK = 0"
    "this_q (others e ?s) = 0" by (auto simp: full_for_ever_def)
  let ?s2 = "(others e ?s)\<lparr>queues := (queues (others e ?s))(q \<mapsto> m\<lparr>wait_q_count := wait_q_count m - 1\<rparr>)\<rparr>"
  have "full_for_ever q ?s2" using m by (simp add: full_for_ever_def)
  from Suc.IH [OF this] mq m(1) show ?case by (simp add: queue_at_def upd_queue_Ret)
qed simp

text \<open>
  A pool of queues of length one accepts nothing: \<^verbatim>\<open>aosl_mpqp_create\<close> allows \<^verbatim>\<open>max\<close> = 1, but \<^verbatim>\<open>__mpqp_best_q_get\<close> has raised the count of
  the queue by one when \<^verbatim>\<open>____add_f\<close> compares it with the limit, and keeps it raised: the call waits for room for ever, however long the
  other threads run, as long as they leave the reservation alone.
\<close>

theorem pool_length_one_blocks:
  assumes get: "mpqp_best_q_get create qp s = Ret (Inr q, qp', s1)" and mq: "queues s1 q = Some mq" "q_max mq = 1" "1 \<le> sint (mq_count mq)"
    "q_flags mq AND AOSL_MPQ_FLAG_NONBLOCK = 0" and thread: "this_q s1 = 0" and args: "length args \<le> MPQ_ARGC_MAX"
    and others: "\<forall>s. full_for_ever q s \<longrightarrow> full_for_ever q (others e s)"
  shows "aosl_mpqp_queue_argv fuel e create dq ref name f args qp s = NoFuel"
proof -
  have "full_for_ever q s1" using mq thread by (simp add: full_for_ever_def)
  then have "add_f_loop fuel e q False fo s1 = NoFuel" for fo using others by (blast intro: full_loop)
  then show ?thesis using args thread get
    by (simp add: aosl_mpqp_queue_argv_def best_q_work_def add_func_argv_def add_or_invoke_f_def add_f_def Let_def)
qed

abbreviation short0 :: mp_queue where
  "short0 \<equiv> mq0\<lparr>q_flags := 0\<rparr>"

lemma short_get: "mpqp_best_q_get create pool0 (sys0\<lparr>queues := [16 \<mapsto> short0], this_q := 0\<rparr>)
    = Ret (Inr 16, pool0, sys0\<lparr>queues := [16 \<mapsto> q_load 1 short0], this_q := 0\<rparr>)"
  by (simp add: mpqp_best_q_get_def mpqp_find_best_q_locked_def in_use_entries_def queue_at_def upd_queue_def)

theorem pool_length_one_blocks_witness:
  "aosl_mpqp_queue_argv 1000 env0 (create_for_pool pv0) (- 1) (- 1) ''f'' 100 [7] pool0 (sys0\<lparr>queues := [16 \<mapsto> short0], this_q := 0\<rparr>) = NoFuel"
  by (rule pool_length_one_blocks [OF short_get, of "q_load 1 short0"]) (simp_all add: q_load_def MPQ_ARGC_MAX_def)

subsection \<open>Allocated queues\<close>

text \<open>Raising or lowering the usage of an entry.\<close>

definition set_usage :: "nat \<Rightarrow> u32 \<Rightarrow> mpq_pool \<Rightarrow> mpq_pool" where
  "set_usage i u qp = qp\<lparr>pool_entries := (pool_entries qp)[i := (pool_entries qp ! i)\<lparr>pe_usage := u\<rparr>]\<rparr>"

lemma set_usage_queues: "pool_queues (set_usage i u qp) = pool_queues qp"
proof -
  have "map pe_q (pool_entries (set_usage i u qp)) = map pe_q (pool_entries qp)"
    unfolding set_usage_def by (cases "i < length (pool_entries qp)") (simp_all add: map_update list_update_same_conv list_update_beyond)
  then have "take n (map pe_q (pool_entries (set_usage i u qp))) = take n (map pe_q (pool_entries qp))" for n by simp
  then show ?thesis unfolding pool_queues_def by (simp add: take_map [symmetric]) (simp add: set_usage_def)
qed

lemma set_usage_ok:
  assumes ok: "mpq_pool_ok qp s" and i: "i < nat (qp_count qp)" and u: "u \<noteq> 0"
  shows "mpq_pool_ok (set_usage i u qp) s"
proof -
  let ?n = "nat (qp_count qp)" and ?es = "pool_entries qp" and ?e = "(pool_entries qp ! i)\<lparr>pe_usage := u\<rparr>"
  note d = mpq_pool_okD [OF ok]
  have "?es ! i \<in> set (take ?n ?es)" using i d(4) by (auto simp: in_set_conv_nth intro!: exI [of _ i])
  then have e: "pe_q ?e \<noteq> 0 \<and> queues s (pe_q ?e) \<noteq> None \<and> pe_usage ?e \<noteq> 0" using ok u by (simp add: mpq_pool_ok_def)
  have "set (take ?n (?es[i := ?e])) \<subseteq> insert ?e (set (take ?n ?es))" by (simp add: take_update_swap set_update_subset_insert)
  then have used: "\<forall>entry \<in> set (take ?n (?es[i := ?e])). pe_q entry \<noteq> 0 \<and> queues s (pe_q entry) \<noteq> None \<and> pe_usage entry \<noteq> 0"
    using e ok unfolding mpq_pool_ok_def by blast
  have "drop ?n (?es[i := ?e]) = drop ?n ?es" using i by simp
  then have rest: "\<forall>entry \<in> set (drop ?n (?es[i := ?e])). entry = empty_entry" using ok by (simp add: mpq_pool_ok_def)
  have "distinct (pool_queues (set_usage i u qp))" using d(5) by (simp add: set_usage_queues)
  then show ?thesis using d used rest by (simp add: mpq_pool_ok_def set_usage_def)
qed

lemma best_alloc_from_index:
  "best_alloc_from es i best = Some (j, u) \<Longrightarrow> (best = Some (j, u) \<or> i \<le> j \<and> j < i + length es)"
proof (induction es arbitrary: i best)
  case (Cons entry es)
  let ?b = "case best of None \<Rightarrow> Some (i, pe_usage entry) | Some (j, u) \<Rightarrow> if pe_usage entry < u then Some (i, pe_usage entry) else best"
  have "best_alloc_from es (Suc i) ?b = Some (j, u)" using Cons.prems by simp
  from Cons.IH [OF this] have "?b = Some (j, u) \<or> Suc i \<le> j \<and> j < Suc i + length es" .
  then show ?case by (auto split: option.splits if_splits prod.splits)
qed simp

text \<open>The clients of a pool: what they hold is a bag of queues, one for every allocation that was not given back.\<close>

record pool_life =
  pl_pool :: mpq_pool
  pl_sys :: mpq_sys
  pl_held :: "ptr multiset"

definition entry_q :: "mpq_pool \<Rightarrow> nat \<Rightarrow> ptr" where
  "entry_q qp i = pe_q (pool_entries qp ! i)"

text \<open>
  A queue is alive when it is in memory and not terminated. What other threads do may end terminated queues and any queue outside the pool; they do not terminate a
  queue of the pool, whose flag \<^verbatim>\<open>AOSL_MPQ_FLAG_DESTROY_NOT_ALLOWED\<close> makes \<^verbatim>\<open>aosl_mpq_destroy\<close> refuse, and a queue that is not terminated does not go away.
\<close>

definition q_alive :: "mpq_sys \<Rightarrow> ptr \<Rightarrow> bool" where
  "q_alive s q \<longleftrightarrow> (\<exists>mq. queues s q = Some mq \<and> \<not> terminated mq)"

definition spares :: "ptr set \<Rightarrow> mpq_sys \<Rightarrow> mpq_sys \<Rightarrow> bool" where
  "spares P s s' \<longleftrightarrow> (\<forall>p \<in> P. q_alive s p \<longrightarrow> q_alive s' p)"

text \<open>
  Allocations and releases, the two ways work makes a pool grow (the choice of a queue, and the first queue for a function at the tail), shrinking by one and by all,
  and what other threads do. \<^verbatim>\<open>__mpqp_shrink_all\<close> resets every entry, allocated or not: after it nobody holds a queue of the pool any more.
\<close>

inductive pool_step :: "pool_life \<Rightarrow> pool_life \<Rightarrow> bool" where
  alloc: "pool_env_ok v (pl_sys l) \<Longrightarrow> mpqp_best_entry_get_or_alloc (create_for_pool v) (pl_pool l) (pl_sys l) = Ret (Inr i, qp', s')
    \<Longrightarrow> size (pl_held l) < 2 ^ 32 - 2 \<Longrightarrow> pool_step l (l\<lparr>pl_pool := qp', pl_sys := s', pl_held := add_mset (entry_q qp' i) (pl_held l)\<rparr>)"
| alloc_fails: "pool_env_ok v (pl_sys l) \<Longrightarrow> mpqp_best_entry_get_or_alloc (create_for_pool v) (pl_pool l) (pl_sys l) = Ret (Inl n, qp', s')
    \<Longrightarrow> pool_step l (l\<lparr>pl_pool := qp', pl_sys := s'\<rparr>)"
| free: "mpqp_find_entry_with_qid_locked (pl_pool l) qi (pl_sys l) = Ret (Some i) \<Longrightarrow> pool_free_qid qi (pl_pool l) (pl_sys l) = Ret (0, qp', s')
    \<Longrightarrow> pool_step l (l\<lparr>pl_pool := qp', pl_sys := s', pl_held := pl_held l - {#entry_q (pl_pool l) i#}\<rparr>)"
| free_fails: "pool_free_qid qi (pl_pool l) (pl_sys l) = Ret (- 1, qp', s') \<Longrightarrow> pool_step l (l\<lparr>pl_pool := qp', pl_sys := s'\<rparr>)"
| choose: "pool_env_ok v (pl_sys l) \<Longrightarrow> mpqp_best_q_get (create_for_pool v) (pl_pool l) (pl_sys l) = Ret (r, qp', s') \<Longrightarrow> pool_step l (l\<lparr>pl_pool := qp', pl_sys := s'\<rparr>)"
| first_q: "pool_env_ok v (pl_sys l) \<Longrightarrow> qp_count (pl_pool l) = 0 \<Longrightarrow> pool_create_add_mpq_locked (create_for_pool v) (pl_pool l) (pl_sys l) = Ret (r, qp', s')
    \<Longrightarrow> pool_step l (l\<lparr>pl_pool := qp', pl_sys := s'\<rparr>)"
| shrink: "mpqp_shrink fuel e wait (pl_pool l) (pl_sys l) = Ret (r, qp', s') \<Longrightarrow> \<forall>s. spares (set (pool_queues qp')) s (others e s)
    \<Longrightarrow> pool_step l (l\<lparr>pl_pool := qp', pl_sys := s'\<rparr>)"
| shrink_all: "mpqp_shrink_all fuel e wait (pl_pool l) (pl_sys l) = Ret (qp', s') \<Longrightarrow> pool_step l (l\<lparr>pl_pool := qp', pl_sys := s', pl_held := {#}\<rparr>)"
| work: "spares (set (pool_queues (pl_pool l))) (pl_sys l) s' \<Longrightarrow> pool_step l (l\<lparr>pl_sys := s'\<rparr>)"

inductive pool_reachable :: "pool_life \<Rightarrow> pool_life \<Rightarrow> bool" for l0 :: pool_life where
  here: "pool_reachable l0 l0"
| step: "pool_reachable l0 l \<Longrightarrow> pool_step l l' \<Longrightarrow> pool_reachable l0 l'"

definition used_entries :: "mpq_pool \<Rightarrow> pool_entry list" where
  "used_entries qp = take (nat (qp_count qp)) (pool_entries qp)"

definition alloc_inv :: "pool_life \<Rightarrow> bool" where
  "alloc_inv l \<longleftrightarrow> mpq_pool_ok (pl_pool l) (pl_sys l) \<and> size (pl_held l) < 2 ^ 32 - 1
     \<and> (\<forall>entry \<in> set (used_entries (pl_pool l)). unat (pe_usage entry) = Suc (count (pl_held l) (pe_q entry)))
     \<and> set_mset (pl_held l) \<subseteq> set (pool_queues (pl_pool l)) \<and> (\<forall>q \<in> set (pool_queues (pl_pool l)). q_alive (pl_sys l) q)"

lemma find_alloc_index:
  assumes ok: "mpq_pool_ok qp s"
  obtains (empty) "mpqp_find_best_alloc_entry_locked qp = Ret None"
  | (found) i where "mpqp_find_best_alloc_entry_locked qp = Ret (Some i)" "i < nat (qp_count qp)"
proof (cases "best_alloc_from (take (nat (qp_count qp)) (pool_entries qp)) 0 None")
  case None
  then show thesis using in_use_entries_ok [OF ok] by (intro empty) (simp add: mpqp_find_best_alloc_entry_locked_def)
next
  case (Some ju)
  obtain j u where ju: "ju = (j, u)" by fastforce
  have "j < nat (qp_count qp)" using best_alloc_from_index [OF Some [unfolded ju]] mpq_pool_okD(4) [OF ok] by simp
  then show thesis using in_use_entries_ok [OF ok] Some ju by (intro found [of j]) (simp_all add: mpqp_find_best_alloc_entry_locked_def)
qed

lemma find_alloc_empty:
  assumes "mpq_pool_ok qp s" and "mpqp_find_best_alloc_entry_locked qp = Ret None"
  shows "qp_count qp = 0"
proof (rule ccontr)
  assume "qp_count qp \<noteq> 0"
  then have "take (nat (qp_count qp)) (pool_entries qp) \<noteq> []"
    using pool_queues_Nil [OF assms(1)] unfolding pool_queues_def map_is_Nil_conv by blast
  then obtain entry es where es: "take (nat (qp_count qp)) (pool_entries qp) = entry # es" unfolding neq_Nil_conv by blast
  have some: "best_alloc_from es i (Some b) \<noteq> None" for i b es
  proof (induction es arbitrary: i b)
    case (Cons entry es)
    obtain j u where "b = (j, u)" by fastforce
    then show ?case using Cons.IH by simp
  qed simp
  have "best_alloc_from es (Suc 0) (Some (0, pe_usage entry)) = None"
    using assms(2) in_use_entries_ok [OF assms(1)] es by (simp add: mpqp_find_best_alloc_entry_locked_def)
  with some show False by blast
qed

context queue_creator
begin

lemma alloc_law:
  assumes ok: "mpq_pool_ok qp s" and env: "env_ok env s"
  obtains (none) n s' where "mpqp_best_entry_get_or_alloc (create env) qp s = Ret (Inl n, qp, s')" "queues s' = queues s"
  | (old) i s' where "mpqp_best_entry_get_or_alloc (create env) qp s = Ret (Inr i, set_usage i (pe_usage (pool_entries qp ! i) + 1) qp, s')"
      "i < nat (qp_count qp)" "queues s' = queues s"
  | (new) qp1 s' q mq where "mpqp_best_entry_get_or_alloc (create env) qp s = Ret (Inr (nat (qp_count qp)), set_usage (nat (qp_count qp)) 2 qp1, s')"
      "mpq_pool_ok qp1 s'" "qp_count qp1 = qp_count qp + 1" "pool_queues qp1 = pool_queues qp @ [q]" "queues s q = None" "queues s' = (queues s)(q \<mapsto> mq)"
      "pool_entries qp1 = (pool_entries qp)[nat (qp_count qp) := \<lparr>pe_q = q, pe_usage = 1\<rparr>]" "\<not> terminated mq"
proof -
  note d = mpq_pool_okD [OF ok]
  let ?n = "nat (qp_count qp)"
  have grown: thesis if room: "qp_count qp < qp_size qp" and found: "mpqp_find_best_alloc_entry_locked qp = Ret fo"
    "case fo of None \<Rightarrow> True | Some i \<Rightarrow> i < ?n \<and> 1 < pe_usage (pool_entries qp ! i)" for fo
  proof -
    have len: "i < length (pool_entries qp)" if "i < ?n" for i using d that by linarith
    have n: "?n < length (pool_entries qp)" using d room by linarith
    have dec: "(case fo of None \<Rightarrow> Ret True | Some i \<Rightarrow> ebind (arr_get (pool_entries qp) i) (\<lambda>entry. Ret (1 < pe_usage entry \<and> qp_count qp < qp_size qp))) = Ret True"
      using found(2) room len by (auto simp: arr_get_def split: option.splits)
    show thesis
    proof (cases rule: add_law [OF ok env room, case_names fails added])
      case (fails n s1)
      show thesis
      proof (cases fo)
        case None
        then show thesis using fails found(1) dec by (intro none [of n s1]) (simp_all add: mpqp_best_entry_get_or_alloc_def)
      next
        case (Some i)
        then show thesis using fails found dec len
          by (intro old [of i s1]) (simp_all add: mpqp_best_entry_get_or_alloc_def arr_get_def set_usage_def)
      qed
    next
      case (added qp1 s1 q mq)
      have "mpqp_best_entry_get_or_alloc (create env) qp s = Ret (Inr ?n, set_usage ?n 2 qp1, s1)"
        using added(1,11) found(1) dec n by (simp add: mpqp_best_entry_get_or_alloc_def arr_get_def set_usage_def)
      then show thesis using added by (intro new [of qp1 s1 q mq]) simp_all
    qed
  qed
  show thesis
  proof (cases rule: find_alloc_index [OF ok, case_names empty found])
    case empty
    then have "qp_count qp < qp_size qp" using find_alloc_empty [OF ok empty] d(7) by simp
    with grown [OF this empty] show thesis by simp
  next
    case (found i)
    show thesis
    proof (cases "1 < pe_usage (pool_entries qp ! i) \<and> qp_count qp < qp_size qp")
      case True
      with grown [OF _ found(1)] found(2) show thesis by simp
    next
      case False
      have len: "i < length (pool_entries qp)" using d found(2) by linarith
      have "mpqp_best_entry_get_or_alloc (create env) qp s = Ret (Inr i, set_usage i (pe_usage (pool_entries qp ! i) + 1) qp, s)"
        using False found(1) len by (auto simp: mpqp_best_entry_get_or_alloc_def arr_get_def set_usage_def)
      then show thesis using found(2) by (intro old [of i s]) simp_all
    qed
  qed
qed

end

lemma pool_queues_used: "pool_queues qp = map pe_q (used_entries qp)"
  by (simp add: pool_queues_def used_entries_def)

lemma used_nth: "mpq_pool_ok qp s \<Longrightarrow> i < nat (qp_count qp) \<Longrightarrow> i < length (used_entries qp) \<and> used_entries qp ! i = pool_entries qp ! i"
  using mpq_pool_okD(4) [of qp s] by (simp add: used_entries_def)

lemma entry_q_in: "mpq_pool_ok qp s \<Longrightarrow> i < nat (qp_count qp) \<Longrightarrow> entry_q qp i \<in> set (pool_queues qp)"
  using used_nth [of qp s i] by (auto simp: pool_queues_used entry_q_def in_set_conv_nth intro!: imageI exI [of _ i])

lemma used_set_usage:
  assumes "mpq_pool_ok qp s" and "i < nat (qp_count qp)"
  shows "used_entries (set_usage i u qp) = (used_entries qp)[i := (pool_entries qp ! i)\<lparr>pe_usage := u\<rparr>]"
  using assms by (simp add: used_entries_def set_usage_def take_update_swap)

text \<open>A change of one entry with the bag that goes with it.\<close>

lemma usage_inv:
  assumes inv: "\<forall>entry \<in> set (used_entries qp). unat (pe_usage entry) = Suc (count held (pe_q entry))" and ok: "mpq_pool_ok qp s"
    and i: "i < nat (qp_count qp)" and u: "unat u = Suc (count held' (entry_q qp i))" and other: "\<And>q. q \<noteq> entry_q qp i \<Longrightarrow> count held' q = count held q"
  shows "\<forall>entry \<in> set (used_entries (set_usage i u qp)). unat (pe_usage entry) = Suc (count held' (pe_q entry))"
proof
  fix entry assume "entry \<in> set (used_entries (set_usage i u qp))"
  then obtain j where j: "j < length (used_entries qp)" "entry = (used_entries qp)[i := (pool_entries qp ! i)\<lparr>pe_usage := u\<rparr>] ! j"
    unfolding used_set_usage [OF ok i] by (auto simp: in_set_conv_nth)
  note n = used_nth [OF ok i]
  show "unat (pe_usage entry) = Suc (count held' (pe_q entry))"
  proof (cases "j = i")
    case True
    with j n u show ?thesis by (simp add: entry_q_def)
  next
    case False
    have "distinct (map pe_q (used_entries qp))" using mpq_pool_okD(5) [OF ok] by (simp add: pool_queues_used)
    then have "pe_q (used_entries qp ! j) \<noteq> pe_q (used_entries qp ! i)" using False j(1) n by (metis length_map nth_eq_iff_index_eq nth_map)
    then have "pe_q (used_entries qp ! j) \<noteq> entry_q qp i" using n by (simp add: entry_q_def)
    from other [OF this] inv j False show ?thesis by (simp add: nth_mem)
  qed
qed

lemma alloc_invD:
  assumes "alloc_inv l"
  shows "mpq_pool_ok (pl_pool l) (pl_sys l)" "size (pl_held l) < 2 ^ 32 - 1"
    "\<forall>entry \<in> set (used_entries (pl_pool l)). unat (pe_usage entry) = Suc (count (pl_held l) (pe_q entry))"
    "set_mset (pl_held l) \<subseteq> set (pool_queues (pl_pool l))" "\<forall>q \<in> set (pool_queues (pl_pool l)). q_alive (pl_sys l) q"
  using assms by (simp_all add: alloc_inv_def)

lemma mpq_pool_ok_alive:
  assumes "mpq_pool_ok qp s" and "\<forall>q \<in> set (pool_queues qp). q_alive s' q"
  shows "mpq_pool_ok qp s'"
  using assms by (auto simp: mpq_pool_ok_def pool_queues_def q_alive_def)

lemma alloc_inv_sys:
  assumes "alloc_inv l" and "spares (set (pool_queues (pl_pool l))) (pl_sys l) s'"
  shows "alloc_inv (l\<lparr>pl_sys := s'\<rparr>)"
  using alloc_invD [OF assms(1)] mpq_pool_ok_alive [of "pl_pool l" "pl_sys l" s'] assms(2) by (simp add: alloc_inv_def spares_def)

lemma spares_queues: "queues s' = queues s \<Longrightarrow> spares P s s'"
  by (simp add: spares_def q_alive_def)

lemma spares_other: "\<forall>p. p \<noteq> q \<longrightarrow> queues s' p = queues s p \<Longrightarrow> q \<notin> P \<Longrightarrow> spares P s s'"
  by (metis spares_def q_alive_def)

lemma usage_at:
  assumes "alloc_inv l" and "i < nat (qp_count (pl_pool l))"
  shows "unat (pe_usage (pool_entries (pl_pool l) ! i)) = Suc (count (pl_held l) (entry_q (pl_pool l) i))"
proof -
  have "pool_entries (pl_pool l) ! i \<in> set (used_entries (pl_pool l))"
    using used_nth [OF alloc_invD(1) [OF assms(1)] assms(2)] by (metis nth_mem)
  then show ?thesis using alloc_invD(3) [OF assms(1)] by (simp add: entry_q_def)
qed

lemma count_le_size: "count M x \<le> size M"
  by (metis count_le_replicate_mset_subset_eq order_refl size_mset_mono size_replicate_mset)

lemma alloc_inv_alloc:
  assumes inv: "alloc_inv l" and env: "pool_env_ok v (pl_sys l)" and bound: "size (pl_held l) < 2 ^ 32 - 2"
    and run: "mpqp_best_entry_get_or_alloc (create_for_pool v) (pl_pool l) (pl_sys l) = Ret (Inr i, qp', s')"
  shows "alloc_inv (l\<lparr>pl_pool := qp', pl_sys := s', pl_held := add_mset (entry_q qp' i) (pl_held l)\<rparr>)"
proof -
  let ?qp = "pl_pool l" and ?s = "pl_sys l" and ?held = "pl_held l"
  note d = alloc_invD [OF inv]
  have size: "size (add_mset q ?held) < 2 ^ 32 - 1" for q using bound by simp
  show ?thesis
  proof (cases rule: pq.alloc_law [OF d(1) env, case_names none old new])
    case (none n s1)
    with run show ?thesis by simp
  next
    case (old j s1)
    let ?u = "pe_usage (pool_entries ?qp ! j)"
    have eq: "i = j" "qp' = set_usage j (?u + 1) ?qp" "s' = s1" using run old(1) by auto
    have en: "entry_q qp' i = entry_q ?qp j"
      using used_nth [OF d(1) old(2)] mpq_pool_okD(4) [OF d(1)] old(2) by (simp add: eq entry_q_def set_usage_def)
    have "unat ?u = Suc (count ?held (entry_q ?qp j))" by (rule usage_at [OF inv old(2)])
    moreover have "count ?held (entry_q ?qp j) \<le> size ?held" by (rule count_le_size)
    ultimately have "unat ?u + 1 < 2 ^ 32" using bound by linarith
    then have u: "unat (?u + 1) = Suc (unat ?u)" by (simp add: unat_word_ariths)
    then have nz: "?u + 1 \<noteq> 0" by auto
    have "mpq_pool_ok ?qp s1" by (rule mpq_pool_ok_sys [OF d(1)]) (simp add: old(3))
    note ok = set_usage_ok [OF this old(2) nz]
    have cnt: "\<forall>entry \<in> set (used_entries (set_usage j (?u + 1) ?qp)). unat (pe_usage entry) = Suc (count (add_mset (entry_q ?qp j) ?held) (pe_q entry))"
      by (rule usage_inv [OF d(3,1) old(2)]) (use u usage_at [OF inv old(2)] in auto)
    have "insert (entry_q ?qp j) (set_mset ?held) \<subseteq> set (pool_queues ?qp)" using entry_q_in [OF d(1) old(2)] d(4) by simp
    moreover have "\<forall>q \<in> set (pool_queues ?qp). q_alive s1 q" using d(5) old(3) by (simp add: q_alive_def)
    ultimately show ?thesis using ok cnt size en by (simp add: alloc_inv_def eq set_usage_queues)
  next
    case (new qp1 s1 q mq)
    let ?n = "nat (qp_count ?qp)"
    have eq: "i = ?n" "qp' = set_usage ?n 2 qp1" "s' = s1" using run new(1) by auto
    have n: "?n < nat (qp_count qp1)" using new(3) mpq_pool_okD(1) [OF d(1)] by simp
    have len: "?n < length (pool_entries ?qp)" using less_le_trans [OF n mpq_pool_okD(4) [OF new(2)]] new(7) by simp
    have q1: "entry_q qp1 ?n = q" using len new(7) by (simp add: entry_q_def)
    have en: "entry_q qp' i = q" using len q1 new(7) by (simp add: eq entry_q_def set_usage_def)
    have "q \<notin> set (pool_queues ?qp)" using mpq_pool_okD(6) [OF d(1), of q] new(5) by blast
    then have zero: "count ?held q = 0" using d(4) by (meson count_eq_zero_iff subsetD)
    have used1: "used_entries qp1 = used_entries ?qp @ [\<lparr>pe_q = q, pe_usage = 1\<rparr>]"
      using new(3,7) len mpq_pool_okD(1) [OF d(1)] by (simp add: used_entries_def nat_add_distrib take_Suc_conv_app_nth)
    then have cnt1: "\<forall>entry \<in> set (used_entries qp1). unat (pe_usage entry) = Suc (count ?held (pe_q entry))" using d(3) zero by simp
    have cnt: "\<forall>entry \<in> set (used_entries (set_usage ?n 2 qp1)). unat (pe_usage entry) = Suc (count (add_mset q ?held) (pe_q entry))"
      by (rule usage_inv [OF cnt1 new(2) n]) (use zero q1 in auto)
    have "set_mset (add_mset q ?held) \<subseteq> set (pool_queues qp1)" using d(4) new(4) by auto
    moreover have "\<forall>x \<in> set (pool_queues qp1). q_alive s1 x" using d(5) new(4,6,8) by (auto simp: q_alive_def)
    ultimately show ?thesis using set_usage_ok [OF new(2) n, of 2] cnt size en by (simp add: alloc_inv_def eq set_usage_queues)
  qed
qed

lemma entry_with_qid_index: "entry_with_qid es i qi s = Ret (Some j) \<Longrightarrow> i \<le> j \<and> j < i + length es"
proof (induction es arbitrary: i)
  case (Cons entry es)
  then obtain mq where "queue_at (pe_q entry) s = Ret mq" "(if mq_id mq = qi then Ret (Some i) else entry_with_qid es (Suc i) qi s) = Ret (Some j)"
    by (auto simp: ebind_Ret_iff)
  then show ?case using Cons.IH [of "Suc i"] by (auto split: if_splits)
qed simp

lemma found_index:
  assumes "mpq_pool_ok qp s" and "mpqp_find_entry_with_qid_locked qp qi s = Ret (Some i)"
  shows "i < nat (qp_count qp)"
proof -
  have "entry_with_qid (take (nat (qp_count qp)) (pool_entries qp)) 0 qi s = Ret (Some i)"
    using assms(2) by (simp add: mpqp_find_entry_with_qid_locked_def in_use_entries_ok [OF assms(1)])
  from entry_with_qid_index [OF this] mpq_pool_okD(4) [OF assms(1)] show ?thesis by simp
qed

lemma alloc_inv_free:
  assumes inv: "alloc_inv l" and found: "mpqp_find_entry_with_qid_locked (pl_pool l) qi (pl_sys l) = Ret (Some i)"
    and run: "pool_free_qid qi (pl_pool l) (pl_sys l) = Ret (0, qp', s')"
  shows "alloc_inv (l\<lparr>pl_pool := qp', pl_sys := s', pl_held := pl_held l - {#entry_q (pl_pool l) i#}\<rparr>)"
proof -
  let ?qp = "pl_pool l" and ?held = "pl_held l" and ?u = "pe_usage (pool_entries (pl_pool l) ! i)"
  note d = alloc_invD [OF inv]
  note i = found_index [OF d(1) found]
  have len: "i < length (pool_entries ?qp)" using i mpq_pool_okD(4) [OF d(1)] by (rule less_le_trans)
  have eq: "1 < ?u" "qp' = set_usage i (?u - 1) ?qp" "s' = pl_sys l"
    using run len by (auto simp: pool_free_qid_def found arr_get_def set_usage_def split: if_splits)
  have u: "unat (?u - 1) = unat ?u - 1" using eq(1) by (metis unat_1 unat_sub less_imp_le)
  have "1 < unat ?u" using eq(1) by (metis unat_1 word_less_nat_alt)
  then have nz: "?u - 1 \<noteq> 0" using u by auto
  have some: "0 < count ?held (entry_q ?qp i)" using usage_at [OF inv i] \<open>1 < unat ?u\<close> by simp
  have cnt: "\<forall>entry \<in> set (used_entries (set_usage i (?u - 1) ?qp)). unat (pe_usage entry) = Suc (count (?held - {#entry_q ?qp i#}) (pe_q entry))"
    by (rule usage_inv [OF d(3,1) i]) (use u usage_at [OF inv i] some in auto)
  have "size (?held - {#entry_q ?qp i#}) \<le> size ?held" by (rule size_mset_mono) simp
  moreover have "set_mset (?held - {#entry_q ?qp i#}) \<subseteq> set (pool_queues ?qp)" using d(4) by (auto dest: in_diffD)
  ultimately show ?thesis using set_usage_ok [OF d(1) i nz] cnt d(2,5) by (simp add: alloc_inv_def eq(2,3) set_usage_queues)
qed

lemma free_fails_same: "pool_free_qid qi qp s = Ret (- 1, qp', s') \<Longrightarrow> qp' = qp \<and> queues s' = queues s"
  by (cases "mpqp_find_entry_with_qid_locked qp qi s") (auto simp: pool_free_qid_def arr_get_def split: option.splits if_splits)

text \<open>A new queue in the first free entry, not allocated by anybody.\<close>

lemma alloc_inv_grow:
  assumes inv: "alloc_inv l" and ok: "mpq_pool_ok qp' s'" and new: "qp_count qp' = qp_count (pl_pool l) + 1" "queues (pl_sys l) q = None"
    "pool_entries qp' = (pool_entries (pl_pool l))[nat (qp_count (pl_pool l)) := \<lparr>pe_q = q, pe_usage = 1\<rparr>]" "queues s' = (queues (pl_sys l))(q \<mapsto> mq)" "\<not> terminated mq"
  shows "alloc_inv (l\<lparr>pl_pool := qp', pl_sys := s'\<rparr>)"
proof -
  let ?qp = "pl_pool l" and ?n = "nat (qp_count (pl_pool l))"
  note d = alloc_invD [OF inv]
  have n: "?n < nat (qp_count qp')" using new(1) mpq_pool_okD(1) [OF d(1)] by simp
  have len: "?n < length (pool_entries ?qp)" using less_le_trans [OF n mpq_pool_okD(4) [OF ok]] new(3) by simp
  have used: "used_entries qp' = used_entries ?qp @ [\<lparr>pe_q = q, pe_usage = 1\<rparr>]"
    using new(1,3) len mpq_pool_okD(1) [OF d(1)] by (simp add: used_entries_def nat_add_distrib take_Suc_conv_app_nth)
  then have pq: "pool_queues qp' = pool_queues ?qp @ [q]" by (simp add: pool_queues_used)
  have "q \<notin> set (pool_queues ?qp)" using mpq_pool_okD(6) [OF d(1), of q] new(2) by blast
  then have "count (pl_held l) q = 0" using d(4) by (meson count_eq_zero_iff subsetD)
  then have "\<forall>entry \<in> set (used_entries qp'). unat (pe_usage entry) = Suc (count (pl_held l) (pe_q entry))" using d(3) used by simp
  moreover have "\<forall>x \<in> set (pool_queues qp'). q_alive s' x" using d(5) pq new(4,5) by (auto simp: q_alive_def)
  ultimately show ?thesis using ok d(2,4) pq by (auto simp: alloc_inv_def)
qed

lemma alloc_inv_choose:
  assumes inv: "alloc_inv l" and env: "pool_env_ok v (pl_sys l)" and run: "mpqp_best_q_get (create_for_pool v) (pl_pool l) (pl_sys l) = Ret (r, qp', s')"
  shows "alloc_inv (l\<lparr>pl_pool := qp', pl_sys := s'\<rparr>)"
proof (cases rule: pq.get_law [OF alloc_invD(1) [OF inv] env, case_names none old new])
  case (none n s1)
  then show ?thesis using run alloc_inv_sys [OF inv spares_queues, of s1] by simp
next
  case (old q mq s1)
  have "spares (set (pool_queues (pl_pool l))) (pl_sys l) s1" using old(3,4) by (auto simp: spares_def q_alive_def q_load_def)
  from alloc_inv_sys [OF inv this] have "alloc_inv (l\<lparr>pl_sys := s1\<rparr>)" .
  moreover have eq: "qp' = pl_pool l" "s' = s1" using run old(1) by simp_all
  ultimately show ?thesis unfolding eq by simp
next
  case (new q mq qp1 s1)
  have "\<not> terminated (q_load 1 mq)" using new(12) by (simp add: q_load_def)
  from alloc_inv_grow [OF inv new(2,10,4,11,5) this] new(1) run show ?thesis by simp
qed

lemma alloc_inv_first:
  assumes inv: "alloc_inv l" and env: "pool_env_ok v (pl_sys l)" and zero: "qp_count (pl_pool l) = 0"
    and run: "pool_create_add_mpq_locked (create_for_pool v) (pl_pool l) (pl_sys l) = Ret (r, qp', s')"
  shows "alloc_inv (l\<lparr>pl_pool := qp', pl_sys := s'\<rparr>)"
proof -
  note ok = alloc_invD(1) [OF inv]
  have room: "qp_count (pl_pool l) < qp_size (pl_pool l)" using zero mpq_pool_okD(7) [OF ok] by simp
  show ?thesis
  proof (cases rule: pq.add_law [OF ok env room, case_names none added])
    case (none n s1)
    then show ?thesis using run alloc_inv_sys [OF inv spares_queues, of s1] by simp
  next
    case (added qp1 s1 q mq)
    from alloc_inv_grow [OF inv added(2,3,5,11,6,12)] added(1) run show ?thesis by simp
  qed
qed

text \<open>Terminating a queue touches no other queue.\<close>

definition only_q :: "ptr \<Rightarrow> mpq_sys \<Rightarrow> mpq_sys \<Rightarrow> bool" where
  "only_q q s s' \<longleftrightarrow> (\<forall>p. p \<noteq> q \<longrightarrow> queues s' p = queues s p)"

lemma only_refl [simp]: "only_q q s s" and only_trans: "only_q q a b \<Longrightarrow> only_q q b c \<Longrightarrow> only_q q a c"
  by (auto simp: only_q_def)

lemma only_upd: "upd_queue q f s = Ret s' \<Longrightarrow> only_q q s s'"
  by (auto simp: only_q_def dest!: upd_queueD)

lemma only_kick: "mp_kick_q e q s = Ret s' \<Longrightarrow> only_q q s s'"
proof -
  assume run: "mp_kick_q e q s = Ret s'"
  then obtain mq where mq: "queues s q = Some mq" by (auto simp: mp_kick_q_def ebind_Ret_iff dest!: queue_atD)
  from mp_kick_q_ok [OF this, of e] obtain mq' where "mp_kick_q e q s = Ret (s\<lparr>queues := (queues s)(q \<mapsto> mq')\<rparr>)" by blast
  with run show ?thesis by (auto simp: only_q_def)
qed

lemma only_destroy: "mpq_destroy_q e q s = Ret s' \<Longrightarrow> only_q q s s'"
proof -
  assume "mpq_destroy_q e q s = Ret s'"
  then obtain s1 where s1: "upd_queue q (\<lambda>mq. mq\<lparr>terminated := True\<rparr>) s = Ret s1" "(if q \<noteq> this_q s1 then mp_kick_q e q s1 else Ret s1) = Ret s'"
    by (auto simp: mpq_destroy_q_def ebind_Ret_iff)
  have "only_q q s1 s'" using s1(2) only_kick [of e q s1 s'] by (cases "q = this_q s1") auto
  with only_upd [OF s1(1)] show ?thesis by (rule only_trans)
qed

lemma only_destroy_held:
  assumes "destroy_held e q s = Ret s'"
  shows "only_q q s s'"
proof -
  from assms obtain s1 s2 where "upd_queue q (\<lambda>mq. mq\<lparr>mq_usage := mq_usage mq + 1\<rparr>) s = Ret s1" "mpq_destroy_q e q s1 = Ret s2" "mpq_put q s2 = Ret s'"
    by (auto simp: destroy_held_def ebind_Ret_iff)
  then have "only_q q s s1" "only_q q s1 s2" "only_q q s2 s'" by (auto simp: mpq_put_def dest: only_upd only_destroy)
  then show ?thesis by (blast intro: only_trans)
qed

lemma only_add_wait: "mpq_add_wait q s = Ret (n, s') \<Longrightarrow> only_q q s s'"
  by (auto simp: mpq_add_wait_def ebind_Ret_iff only_q_def dest!: upd_queueD)

lemma spares_refl [simp]: "spares P s s" and spares_trans: "spares P a b \<Longrightarrow> spares P b c \<Longrightarrow> spares P a c"
  by (auto simp: spares_def)

lemma spares_await: "\<forall>s. spares P s (others e s) \<Longrightarrow> await_sync fuel e n s = Ret s' \<Longrightarrow> spares P s s'"
proof (induction fuel arbitrary: s)
  case (Suc fuel)
  have "spares P s (others e s)" using Suc.prems(1) by blast
  with Suc show ?case by (auto split: if_splits intro: spares_trans)
qed simp

text \<open>The last entry is given up only when it is not allocated, and never the only one.\<close>

lemma detach_law:
  assumes ok: "mpq_pool_ok qp s" and run: "detach_last qp = Ret (q, qp')"
  obtains (stay) "q = 0" "qp' = qp"
  | (gone) "q \<noteq> 0" "1 < qp_count qp" "qp_count qp' = qp_count qp - 1" "mpq_pool_ok qp' s" "used_entries qp = used_entries qp' @ [\<lparr>pe_q = q, pe_usage = 1\<rparr>]"
proof (cases "q = 0")
  case True
  let ?i = "nat (qp_count qp - 1)"
  note d = mpq_pool_okD [OF ok]
  have "qp' = qp"
  proof (rule ccontr)
    assume "qp' \<noteq> qp"
    then have one: "1 < qp_count qp" "pe_q (pool_entries qp ! ?i) = 0"
      using run True by (auto simp: detach_last_def arr_get_def bug_on_def Let_def split: if_splits)
    have "?i < nat (qp_count qp)" using one(1) by simp
    from entry_q_in [OF ok this] d(6) one(2) show False by (auto simp: entry_q_def)
  qed
  with True show thesis by (rule stay)
next
  case False
  let ?i = "nat (qp_count qp - 1)" and ?es = "pool_entries qp"
  note d = mpq_pool_okD [OF ok]
  have one: "1 < qp_count qp" "pe_usage (?es ! ?i) = 1" "pe_q (?es ! ?i) = q" "qp' = qp\<lparr>pool_entries := ?es[?i := empty_entry], qp_count := qp_count qp - 1\<rparr>"
    using run False by (auto simp: detach_last_def arr_get_def bug_on_def Let_def split: if_splits)
  have i: "?i < length ?es" and Suc: "nat (qp_count qp) = Suc ?i" using one(1) d(2,3) by linarith+
  have e: "?es ! ?i = \<lparr>pe_q = q, pe_usage = 1\<rparr>" using one(2,3) by (cases "?es ! ?i") simp
  have used: "used_entries qp = take ?i ?es @ [?es ! ?i]" using i by (simp add: used_entries_def Suc take_Suc_conv_app_nth)
  have used': "used_entries qp' = take ?i ?es" by (simp add: used_entries_def one(4))
  have pq: "pool_queues qp = pool_queues qp' @ [q]" by (simp add: pool_queues_used used used' e)
  have dr: "drop ?i (?es[?i := empty_entry]) = empty_entry # drop (Suc ?i) ?es" using i by (simp add: Cons_nth_drop_Suc [symmetric] drop_update_swap)
  have "\<forall>entry \<in> set (drop (Suc ?i) ?es). entry = empty_entry" using ok unfolding mpq_pool_ok_def Suc by blast
  then have rest: "\<forall>entry \<in> set (drop ?i (?es[?i := empty_entry])). entry = empty_entry" unfolding dr by simp
  have live: "\<forall>entry \<in> set (take ?i ?es). pe_q entry \<noteq> 0 \<and> queues s (pe_q entry) \<noteq> None \<and> pe_usage entry \<noteq> 0"
    using ok used unfolding mpq_pool_ok_def used_entries_def [symmetric] by simp
  have "distinct (pool_queues qp')" using d(5) by (simp add: pq)
  then have "mpq_pool_ok qp' s" using d(2,3,7) one(1) rest live by (simp add: mpq_pool_ok_def one(4))
  moreover have "qp_count qp' = qp_count qp - 1" by (simp add: one(4))
  moreover have "used_entries qp = used_entries qp' @ [\<lparr>pe_q = q, pe_usage = 1\<rparr>]" by (simp add: used used' e)
  ultimately show thesis using False one(1) by (intro gone)
qed

lemma shrink_law:
  assumes ok: "mpq_pool_ok qp s" and run: "mpqp_shrink fuel e wait qp s = Ret (r, qp', s')"
    and others: "\<forall>s. spares (set (pool_queues qp')) s (others e s)"
  obtains (refused) "r = - 1" "qp' = qp" "queues s' = queues s"
  | (gone) q where "r = 0" "detach_last qp = Ret (q, qp')" "q \<noteq> 0" "q \<notin> set (pool_queues qp') \<Longrightarrow> spares (set (pool_queues qp')) s s'"
proof -
  from run obtain q qp1 where d: "detach_last qp = Ret (q, qp1)" by (auto simp: mpqp_shrink_def ebind_Ret_iff)
  show thesis
  proof (cases "q = 0")
    case True
    from detach_law [OF ok d] True have "qp1 = qp" by (cases rule: detach_law [OF ok d]) auto
    with True d run show thesis by (intro refused) (auto simp: mpqp_shrink_def)
  next
    case False
    let ?w = "wait \<and> this_q s \<noteq> q" and ?P = "set (pool_queues qp')"
    from run d False obtain n s1 s2 x s3 where
      s: "(if ?w then mpq_add_wait q s else Ret (0, s)) = Ret (n, s1)" "destroy_held e q s1 = Ret s2"
      "(if ?w then mpq_destroy_wait fuel e n s2 else Ret (0, s2)) = Ret (x, s3)" and r: "r = 0" "qp' = qp1" "s' = s3"
      by (auto simp: mpqp_shrink_def Let_def ebind_Ret_iff)
    have "only_q q s s1" using s(1) only_add_wait [of q s n s1] by (cases ?w) auto
    from only_trans [OF this only_destroy_held [OF s(2)]] have "q \<notin> ?P \<Longrightarrow> spares ?P s s2" by (simp add: only_q_def spares_other)
    moreover have "spares ?P s2 s3"
    proof (cases ?w)
      case True
      with s(3) have "await_sync fuel e n s2 = Ret s3" by (auto simp: mpq_destroy_wait_def ebind_Ret_iff)
      then show ?thesis by (rule spares_await [OF others])
    next
      case False
      with s(3) show ?thesis by auto
    qed
    ultimately have "q \<notin> ?P \<Longrightarrow> spares ?P s s'" using r(3) by (blast intro: spares_trans)
    with r d False show thesis by (intro gone) simp_all
  qed
qed

lemma alloc_inv_shrink:
  assumes inv: "alloc_inv l" and run: "mpqp_shrink fuel e wait (pl_pool l) (pl_sys l) = Ret (r, qp', s')"
    and others: "\<forall>s. spares (set (pool_queues qp')) s (others e s)"
  shows "alloc_inv (l\<lparr>pl_pool := qp', pl_sys := s'\<rparr>)"
proof -
  note d = alloc_invD [OF inv]
  show ?thesis
  proof (cases rule: shrink_law [OF d(1) run others, case_names refused gone])
    case refused
    then show ?thesis using alloc_inv_sys [OF inv spares_queues, of s'] by simp
  next
    case (gone q)
    note g = gone
    show ?thesis
    proof (cases rule: detach_law [OF d(1) gone(2), case_names stay gone])
      case stay
      with g show ?thesis by simp
    next
      case gone
      have pq: "pool_queues (pl_pool l) = pool_queues qp' @ [q]" by (simp add: pool_queues_used gone(5))
      then have "q \<notin> set (pool_queues qp')" using mpq_pool_okD(5) [OF d(1)] by simp
      from g(4) [OF this] have alive: "\<forall>x \<in> set (pool_queues qp'). q_alive s' x" using d(5) pq by (simp add: spares_def)
      have "count (pl_held l) q = 0" using d(3) unfolding gone(5) by simp
      then have "set_mset (pl_held l) \<subseteq> set (pool_queues qp')" using d(4) pq by (auto simp: count_eq_zero_iff)
      moreover have "\<forall>entry \<in> set (used_entries qp'). unat (pe_usage entry) = Suc (count (pl_held l) (pe_q entry))" using d(3) unfolding gone(5) by simp
      moreover have "mpq_pool_ok qp' s'" by (rule mpq_pool_ok_alive [OF gone(4) alive])
      ultimately show ?thesis using d(2) alive by (simp add: alloc_inv_def)
    qed
  qed
qed

text \<open>Nothing is left of the pool's queues.\<close>

lemma alloc_inv_shrink_all:
  assumes inv: "alloc_inv l" and run: "mpqp_shrink_all fuel e wait (pl_pool l) (pl_sys l) = Ret (qp', s')"
  shows "alloc_inv (l\<lparr>pl_pool := qp', pl_sys := s', pl_held := {#}\<rparr>)"
proof -
  let ?qp = "pl_pool l" and ?n = "nat (qp_count (pl_pool l))"
  note ok = alloc_invD(1) [OF inv] and k = mpq_pool_okD [OF alloc_invD(1) [OF inv]]
  have qp': "qp' = (if 0 < qp_count ?qp then clear_entries ?qp else ?qp)" using run by (auto simp: mpqp_shrink_all_def Let_def ebind_Ret_iff split: if_splits)
  have zero: "qp_count qp' = 0" using qp' k(1) by (auto simp: clear_entries_def)
  have "\<forall>entry \<in> set (drop ?n (pool_entries ?qp)). entry = empty_entry" using ok by (simp add: mpq_pool_ok_def)
  then have "\<forall>entry \<in> set (pool_entries qp'). entry = empty_entry" using qp' zero by (auto simp: clear_entries_def split: if_splits)
  moreover have "length (pool_entries qp') = length (pool_entries ?qp)" "qp_size qp' = qp_size ?qp" using qp' k(4) by (simp_all add: clear_entries_def)
  ultimately have "mpq_pool_ok qp' s'" "pool_queues qp' = []" "used_entries qp' = []" using zero k(3,7) by (simp_all add: mpq_pool_ok_def pool_queues_def used_entries_def)
  then show ?thesis by (simp add: alloc_inv_def)
qed

lemma pool_step_inv: "pool_step l l' \<Longrightarrow> alloc_inv l \<Longrightarrow> alloc_inv l'"
proof (induction rule: pool_step.induct)
  case (alloc v l i qp' s')
  then show ?case by (blast intro: alloc_inv_alloc)
next
  case (alloc_fails v l n qp' s')
  note ok = alloc_invD(1) [OF alloc_fails(3)]
  have "qp' = pl_pool l \<and> queues s' = queues (pl_sys l)"
    by (cases rule: pq.alloc_law [OF ok alloc_fails(1)]) (use alloc_fails(2) in auto)
  then show ?case using alloc_inv_sys [OF alloc_fails(3) spares_queues, of s'] by simp
next
  case (free l qi i qp' s')
  then show ?case by (blast intro: alloc_inv_free)
next
  case (free_fails qi l qp' s')
  then show ?case using free_fails_same [OF free_fails(1)] alloc_inv_sys [OF free_fails(2) spares_queues, of s'] by simp
next
  case (choose v l r qp' s')
  then show ?case by (blast intro: alloc_inv_choose)
next
  case (first_q v l r qp' s')
  then show ?case by (blast intro: alloc_inv_first)
next
  case (shrink fuel e wait l r qp' s')
  then show ?case by (blast intro: alloc_inv_shrink)
next
  case (shrink_all fuel e wait l qp' s')
  then show ?case by (blast intro: alloc_inv_shrink_all)
next
  case (work l s')
  then show ?case by (blast intro: alloc_inv_sys)
qed

lemma pool_reachable_inv: "pool_reachable l0 l \<Longrightarrow> alloc_inv l0 \<Longrightarrow> alloc_inv l"
  by (induction rule: pool_reachable.induct) (auto intro: pool_step_inv)

text \<open>
  C9. An allocated queue stays until it is given back or the whole pool is shrunk: through any sequence of allocations, releases (also of queues that are not allocated), choices of
  a queue for work, shrinkings by one, shrinkings of the whole pool (which take every queue away, allocated or not, and with it all allocations) and work of other threads, who do not
  terminate queues of the pool, the usage of an entry is one more than the allocations of its queue that are held, a queue that
  somebody has allocated is in the pool, in memory and not terminated, and the pool keeps its invariant. The bound is the width of the usage counter.
\<close>

theorem allocated_queues_stay:
  assumes "mpq_pool_ok (pl_pool l0) (pl_sys l0)" and "pl_held l0 = {#}" and "\<forall>entry \<in> set (used_entries (pl_pool l0)). pe_usage entry = 1"
    and "\<forall>q \<in> set (pool_queues (pl_pool l0)). q_alive (pl_sys l0) q" and "pool_reachable l0 l"
  shows "mpq_pool_ok (pl_pool l) (pl_sys l)
    \<and> (\<forall>entry \<in> set (used_entries (pl_pool l)). unat (pe_usage entry) = Suc (count (pl_held l) (pe_q entry)))
    \<and> (\<forall>q \<in># pl_held l. q \<in> set (pool_queues (pl_pool l)) \<and> q_alive (pl_sys l) q)"
proof -
  have "alloc_inv l0" using assms(1-4) by (simp add: alloc_inv_def)
  note d = alloc_invD [OF pool_reachable_inv [OF assms(5) this]]
  then show ?thesis by blast
qed

abbreviation plife0 :: pool_life where
  "plife0 \<equiv> \<lparr>pl_pool = pool0, pl_sys = sys0, pl_held = {#}\<rparr>"

theorem allocated_queues_stay_witness:
  "\<exists>l :: pool_life. pl_held l = {#16#} \<and> q_alive (pl_sys l) 16 \<and> mpq_pool_ok (pl_pool l) (pl_sys l)"
proof -
  let ?qp = "set_usage 0 2 pool0"
  let ?l = "plife0\<lparr>pl_pool := ?qp, pl_sys := sys0, pl_held := add_mset (entry_q ?qp 0) {#}\<rparr>"
  have run: "mpqp_best_entry_get_or_alloc (create_for_pool pv0) (pl_pool plife0) (pl_sys plife0) = Ret (Inr 0, ?qp, sys0)"
    by (simp add: mpqp_best_entry_get_or_alloc_def mpqp_find_best_alloc_entry_locked_def in_use_entries_def arr_get_def set_usage_def)
  have "pool_step plife0 (plife0\<lparr>pl_pool := ?qp, pl_sys := sys0, pl_held := add_mset (entry_q ?qp 0) (pl_held plife0)\<rparr>)"
    by (rule pool_step.alloc [OF _ run]) (use pv0_ok in simp_all)
  then have reach: "pool_reachable plife0 ?l" by (auto intro: pool_reachable.intros)
  have held: "pl_held ?l = {#16#}" by (simp add: entry_q_def set_usage_def)
  have "\<forall>q \<in> set (pool_queues (pl_pool plife0)). q_alive (pl_sys plife0) q" using pool0_ok(2) by (simp add: q_alive_def)
  from allocated_queues_stay [OF _ _ _ this reach] pool0_ok(1) have ok: "mpq_pool_ok (pl_pool ?l) (pl_sys ?l)" "\<forall>q \<in># pl_held ?l. q_alive (pl_sys ?l) q"
    by (simp_all add: used_entries_def)
  show ?thesis by (rule exI [of _ ?l]) (use held ok in simp)
qed

subsection \<open>After everything queued so far: properties\<close>

text \<open>The queues of a pool run the promise one after the other, in any order.\<close>

fun run_promises :: "nat \<Rightarrow> mpq_env \<Rightarrow> u64 \<Rightarrow> u64 list \<Rightarrow> (ptr \<times> u64 \<times> ptr) list \<Rightarrow> promise_mem \<Rightarrow> mpq_sys \<Rightarrow> (promise_mem \<times> mpq_sys) exec" where
  "run_promises fuel e ac args [] pm s = Ret (pm, s)"
| "run_promises fuel e ac args ((q, ts, robj) # runs) pm s =
     ebind (each_pool_promise_f fuel e ts robj ac args pm (s\<lparr>this_q := q\<rparr>)) (\<lambda>(pm, s). run_promises fuel e ac args runs pm s)"

definition promise_args :: "ptr \<Rightarrow> u64 \<Rightarrow> ptr \<Rightarrow> ptr \<Rightarrow> u64 list \<Rightarrow> u64 list" where
  "promise_args count_p done_qid name_p f args = [of_nat count_p, done_qid, of_nat name_p, of_nat f] @ args"

lemma promise_not_last:
  assumes "pm_counts pm cp = Some (of_nat (Suc (Suc n)))" and "Suc (Suc n) < 2 ^ 64" and "cp < 2 ^ 64"
  shows "each_pool_promise_f fuel e ts robj ac (promise_args cp d np f args) pm s = Ret (pm\<lparr>pm_counts := (pm_counts pm)(cp \<mapsto> of_nat (Suc n))\<rparr>, s)"
proof -
  have cp: "unat (of_nat cp :: u64) = cp" using assms(3) by (simp add: unat_of_nat take_bit_nat_eq_self)
  have nz: "(of_nat (Suc n) :: u64) \<noteq> 0"
  proof
    assume "(of_nat (Suc n) :: u64) = 0"
    then have "unat (of_nat (Suc n) :: u64) = 0" by simp
    then show False using assms(2) by (simp add: unat_of_nat take_bit_nat_eq_self del: of_nat_Suc)
  qed
  have "(of_nat (Suc (Suc n)) :: u64) - 1 = of_nat (Suc n)" by simp
  with nz show ?thesis using assms(1) by (simp add: each_pool_promise_f_def promise_args_def arr_get_def cp del: of_nat_Suc)
qed

lemma promise_is_last:
  assumes "pm_counts pm cp = Some 1" and "cp < 2 ^ 64" "np < 2 ^ 64" "f < 2 ^ 64" and "pm_names pm np = Some name"
  shows "each_pool_promise_f fuel e ts robj ac (promise_args cp d np f args) pm s
    = ebind (promise_last fuel e ts robj ac d name f args s) (\<lambda>s. Ret (pm\<lparr>pm_counts := (pm_counts pm)(cp := None), pm_names := (pm_names pm)(np := None)\<rparr>, s))"
proof -
  have "unat (of_nat n :: u64) = n" if "n < 2 ^ 64" for n using that by (simp add: unat_of_nat take_bit_nat_eq_self)
  with assms show ?thesis by (simp add: each_pool_promise_f_def promise_args_def arr_get_def Let_def)
qed

text \<open>
  The function queued to the tail of a pool runs once, in the queue that comes last: with the counter at the number of queues, the queues
  before the last one only count down, whatever their order; the last one runs the function (and its completion) and gives back
  the counter and the copied name.
\<close>

theorem tail_runs_once:
  assumes "pm_counts pm cp = Some (of_nat (Suc (length runs)))" and "Suc (length runs) < 2 ^ 64" and "cp < 2 ^ 64" "np < 2 ^ 64" "f < 2 ^ 64"
    and "pm_names pm np = Some name"
  shows "run_promises fuel e ac (promise_args cp d np f args) (runs @ [(q, ts, robj)]) pm s
    = ebind (promise_last fuel e ts robj ac d name f args (s\<lparr>this_q := q\<rparr>))
        (\<lambda>s. Ret (pm\<lparr>pm_counts := (pm_counts pm)(cp := None), pm_names := (pm_names pm)(np := None)\<rparr>, s))"
  using assms(1,2,6)
proof (induction runs arbitrary: pm s)
  case Nil
  have one: "pm_counts pm cp = Some 1" using Nil.prems(1) by simp
  show ?case by (simp only: append_Nil run_promises.simps promise_is_last [OF one assms(3-5) Nil.prems(3)] ebind_assoc ebind.simps prod.case)
next
  case (Cons r runs)
  obtain p t ro where r: "r = (p, t, ro)" using prod_cases3 by blast
  have c: "pm_counts pm cp = Some (of_nat (Suc (Suc (length runs))))" "Suc (Suc (length runs)) < 2 ^ 64" using Cons.prems by simp_all
  let ?pm = "pm\<lparr>pm_counts := (pm_counts pm)(cp \<mapsto> of_nat (Suc (length runs)))\<rparr>"
  have "pm_counts ?pm cp = Some (of_nat (Suc (length runs)))" "Suc (length runs) < 2 ^ 64" "pm_names ?pm np = Some name" using Cons.prems by simp_all
  note IH = Cons.IH [OF this, of "s\<lparr>this_q := p\<rparr>"]
  have pm: "?pm\<lparr>pm_counts := (pm_counts ?pm)(cp := None), pm_names := (pm_names ?pm)(np := None)\<rparr>
    = pm\<lparr>pm_counts := (pm_counts pm)(cp := None), pm_names := (pm_names pm)(np := None)\<rparr>" by simp
  have again: "(s\<lparr>this_q := p\<rparr>)\<lparr>this_q := q\<rparr> = s\<lparr>this_q := q\<rparr>" by simp
  show ?case by (simp only: r append_Cons run_promises.simps promise_not_last [OF c assms(3)] ebind.simps prod.case IH pm again)
qed

theorem tail_runs_once_witness:
  "run_promises 1 env0 5 (promise_args 800 (- 1) 900 100 [7]) [(32, 5, 0), (16, 5, 0)] \<lparr>pm_counts = [800 \<mapsto> 2], pm_names = [900 \<mapsto> ''tail'']\<rparr> sys0
   = ebind (promise_last 1 env0 5 0 5 (- 1) ''tail'' 100 [7] (sys0\<lparr>this_q := 16\<rparr>)) (\<lambda>s. Ret (\<lparr>pm_counts = Map.empty, pm_names = Map.empty\<rparr>, s))"
  using tail_runs_once [where pm = "\<lparr>pm_counts = [800 \<mapsto> 2], pm_names = [900 \<mapsto> ''tail'']\<rparr>" and cp = 800 and runs = "[(32, 5, 0)]" and np = 900 and f = 100
    and name = "''tail''" and fuel = 1 and e = env0 and ac = 5 and d = "- 1" and args = "[7]" and q = 16 and ts = 5 and robj = 0 and s = sys0] by simp

subsection \<open>The pools that are never created\<close>

text \<open>
  The general pool does not exist: the start of the library creates the pool for long waits and no other, so \<^verbatim>\<open>aosl_mpq_alloc\<close>, \<^verbatim>\<open>aosl_mpq_free\<close> and
  \<^verbatim>\<open>genp_best_q_get\<close>, which use the general pool, dereference a null pointer in every program.
\<close>

theorem general_pool_missing:
  assumes "k_mpqp_init m1 m2 \<lparr>cpu_pool = None, gpu_pool = None, gen_pool = None, ltw_pool = None\<rparr> s = Ret (ps, s')"
  shows "aosl_mpq_alloc create ps s'' = Fault \<and> aosl_mpq_free qi ps s'' = Fault \<and> genp_best_q_get create ps s'' = Fault
    \<and> (\<exists>qp. ltw_pool ps = Some qp \<and> mpq_pool_ok qp s'' \<and> qp_size qp = 2)"
proof -
  have ps: "gen_pool ps = None" "\<exists>qp. ltw_pool ps = Some qp \<and> qp_size qp = 2 \<and> pool_entries qp = replicate 2 empty_entry \<and> qp_count qp = 0"
    using assms by (auto simp: k_mpqp_init_def mpqp_create_ltw_pool_def mpqp_create_def LTWP_SIZE_def LTWP_MAX_IDLES_def MPQP_MAX_SIZE_def MPQ_MAX_SIZE_def
        created_def Let_def split: if_splits)
  then show ?thesis by (auto simp: aosl_mpq_alloc_def aosl_mpq_free_def genp_best_q_get_def on_gen_pool_def mpq_pool_ok_def pool_queues_def)
qed

theorem general_pool_missing_witness:
  "\<exists>ps. k_mpqp_init True True \<lparr>cpu_pool = None, gpu_pool = None, gen_pool = None, ltw_pool = None\<rparr> sys0 = Ret (ps, sys0)
    \<and> aosl_mpq_alloc (create_for_pool pv0) ps sys0 = Fault \<and> aosl_mpq_free 0x10000 ps sys0 = Fault"
proof -
  obtain ps where ps: "k_mpqp_init True True \<lparr>cpu_pool = None, gpu_pool = None, gen_pool = None, ltw_pool = None\<rparr> sys0 = Ret (ps, sys0)"
    by (auto simp: k_mpqp_init_def mpqp_create_ltw_pool_def mpqp_create_def LTWP_SIZE_def LTWP_MAX_IDLES_def MPQP_MAX_SIZE_def MPQ_MAX_SIZE_def created_def Let_def)
  from general_pool_missing [OF this, of "create_for_pool pv0" sys0 "0x10000"] ps show ?thesis by blast
qed

text \<open>The promise goes into every queue of the pool.\<close>

definition one_more :: "u32 \<Rightarrow> ptr \<Rightarrow> u64 list \<Rightarrow> mp_queue option \<Rightarrow> mp_queue option \<Rightarrow> bool" where
  "one_more ref f args m m' \<longleftrightarrow> (\<exists>mq mq' ts. m = Some mq \<and> m' = Some mq'
     \<and> plain mq' = plain (with_fos [new_fo ts False 0 AOSL_MPQ_INVALID ref [] f (Argv args)] mq))"

lemma one_more_plain:
  assumes "map_option plain m1 = map_option plain m" and "one_more ref f args m1 m2"
  shows "one_more ref f args m m2"
proof -
  from assms(2) obtain mq1 mq2 ts where m: "m1 = Some mq1" "m2 = Some mq2" "plain mq2 = plain (with_fos [new_fo ts False 0 AOSL_MPQ_INVALID ref [] f (Argv args)] mq1)"
    by (auto simp: one_more_def)
  from assms(1) m(1) obtain mq where mq: "m = Some mq" "plain mq1 = plain mq" by (cases m) auto
  have "plain (with_fos xs a) = with_fos xs (plain a)" for xs a by (simp add: plain_def with_fos_def)
  with m(3) mq(2) have "plain mq2 = plain (with_fos [new_fo ts False 0 AOSL_MPQ_INVALID ref [] f (Argv args)] mq)" by simp
  with m(2) mq(1) show ?thesis unfolding one_more_def by blast
qed

lemma queue_to_all_each:
  assumes "distinct (map pe_q es)" and "\<forall>entry \<in> set es. queues s (pe_q entry) \<noteq> None" and "this_q s = 0"
  shows "\<exists>s'. queue_to_all (Suc fuel) e ref f args es s = Ret s' \<and> this_q s' = 0
    \<and> (\<forall>p. if p \<in> pe_q ` set es then one_more ref f args (queues s p) (queues s' p) else map_option plain (queues s' p) = map_option plain (queues s p))"
  using assms
proof (induction es arbitrary: s)
  case (Cons entry es)
  let ?q = "pe_q entry"
  from Cons.prems(2) obtain mq where mq: "queues s ?q = Some mq" by auto
  from add_f_room [where no_fail = True, OF mq, of AOSL_MPQ_INVALID fuel e ref "[]" f "Argv args"] Cons.prems(3) obtain s1 where
    s1: "add_f (Suc fuel) e ?q True False AOSL_MPQ_INVALID ref [] f (Argv args) s = Ret (0, s1)"
    "grown ?q [new_fo (tick e s) False 0 AOSL_MPQ_INVALID ref [] f (Argv args)] s s1" by blast
  have g: "grown_map ?q [new_fo (tick e s) False 0 AOSL_MPQ_INVALID ref [] f (Argv args)] (queues s) (queues s1)" using s1(2) by (simp add: grown_def)
  have this1: "this_q s1 = this_q (s\<lparr>queues := queues s1\<rparr>)" using s1(2) unfolding grown_def by metis
  have same: "map_option plain (queues s1 p) = map_option plain (queues s p)" if "p \<noteq> ?q" for p using g that by (simp add: grown_map_def)
  have here: "one_more ref f args (queues s ?q) (queues s1 ?q)" using mq by (rule grown_mapD [OF g]) (auto simp: one_more_def mq)
  have d: "distinct (map pe_q es)" "?q \<notin> pe_q ` set es" using Cons.prems(1) by simp_all
  have "queues s1 (pe_q en) \<noteq> None" if "en \<in> set es" for en
  proof -
    have "pe_q en \<in> pe_q ` set es" using that by (rule imageI)
    then have "pe_q en \<noteq> ?q" using d(2) by metis
    from same [OF this] Cons.prems(2) that show ?thesis by (cases "queues s1 (pe_q en)") auto
  qed
  from Cons.IH [OF d(1) _, of s1] this this1 Cons.prems(3) obtain s2 where
    s2: "queue_to_all (Suc fuel) e ref f args es s1 = Ret s2" "this_q s2 = 0"
    "\<And>p. if p \<in> pe_q ` set es then one_more ref f args (queues s1 p) (queues s2 p) else map_option plain (queues s2 p) = map_option plain (queues s1 p)" by auto
  have "if p \<in> pe_q ` set (entry # es) then one_more ref f args (queues s p) (queues s2 p) else map_option plain (queues s2 p) = map_option plain (queues s p)" for p
  proof (cases "p = ?q")
    case True
    then have "map_option plain (queues s2 ?q) = map_option plain (queues s1 ?q)" using s2(3) [of ?q] d(2) by simp
    with here obtain mq1 mq2 ts where "queues s2 ?q = Some mq2" "plain mq2 = plain (with_fos [new_fo ts False 0 AOSL_MPQ_INVALID ref [] f (Argv args)] mq1)" "queues s ?q = Some mq1"
      by (auto simp: one_more_def)
    then show ?thesis using True by (auto simp: one_more_def)
  next
    case False
    then show ?thesis using s2(3) [of p] same [OF False] one_more_plain [OF same [OF False]] by (auto split: if_splits)
  qed
  then show ?case using s1(1) s2(1,2) by (auto simp: mpq_queue_no_fail_def)
qed simp

text \<open>
  A call to the tail of a pool reaches every queue: each queue of the pool gets the promise once, behind everything it already has, the
  other queues are as before, and the shared counter starts at the number of queues, which is what makes the function run once.
\<close>

theorem tail_reaches_every_queue:
  assumes ok: "mpq_pool_ok qp s" and some: "qp_count qp \<noteq> 0" and thread: "this_q s = 0" and args: "length args \<le> MPQ_ARGC_MAX"
  shows "\<exists>s'. aosl_mpqp_pool_tail_queue (Suc fuel) e create (Some (cp, np)) pf d ref name f args pm qp s
      = Ret (0, pm\<lparr>pm_counts := (pm_counts pm)(cp \<mapsto> of_nat (length (pool_queues qp))), pm_names := (pm_names pm)(np \<mapsto> name)\<rparr>, qp, s')
    \<and> (\<forall>p. if p \<in> set (pool_queues qp) then one_more ref pf (promise_args cp d np f args) (queues s p) (queues s' p)
           else map_option plain (queues s' p) = map_option plain (queues s p))"
proof -
  note k = mpq_pool_okD [OF ok]
  have d: "distinct (map pe_q (used_entries qp))" using k(5) by (simp add: pool_queues_used)
  have live: "\<forall>entry \<in> set (used_entries qp). queues s (pe_q entry) \<noteq> None" using k(6) by (auto simp: pool_queues_used)
  from queue_to_all_each [OF d live thread, of fuel e ref pf "promise_args cp d np f args"] obtain s' where
    s': "queue_to_all (Suc fuel) e ref pf (promise_args cp d np f args) (used_entries qp) s = Ret s'"
    "\<forall>p. if p \<in> pe_q ` set (used_entries qp) then one_more ref pf (promise_args cp d np f args) (queues s p) (queues s' p)
      else map_option plain (queues s' p) = map_option plain (queues s p)" by blast
  have n: "(word_of_int (qp_count qp) :: u64) = of_nat (length (pool_queues qp))"
    using k(1,4) by (simp add: pool_queues_def min_def)
  have use: "in_use_entries qp = Ret (used_entries qp)" using in_use_entries_ok [OF ok] by (simp add: used_entries_def)
  have "aosl_mpqp_pool_tail_queue (Suc fuel) e create (Some (cp, np)) pf d ref name f args pm qp s
      = Ret (0, pm\<lparr>pm_counts := (pm_counts pm)(cp \<mapsto> of_nat (length (pool_queues qp))), pm_names := (pm_names pm)(np \<mapsto> name)\<rparr>, qp, s')"
    using some args s'(1) by (simp add: aosl_mpqp_pool_tail_queue_def mpqp_pool_tail_queue_argv_def Let_def use n promise_args_def)
  with s'(2) show ?thesis by (auto simp: pool_queues_used)
qed

theorem tail_reaches_every_queue_witness:
  "\<exists>s'. aosl_mpqp_pool_tail_queue 1 env0 (create_for_pool pv0) (Some (800, 900)) 77 (- 1) (- 1) ''t'' 100 [7] \<lparr>pm_counts = Map.empty, pm_names = Map.empty\<rparr> pool0 sys_wide
      = Ret (0, \<lparr>pm_counts = [800 \<mapsto> 1], pm_names = [900 \<mapsto> ''t'']\<rparr>, pool0, s')
    \<and> one_more (- 1) 77 (promise_args 800 (- 1) 900 100 [7]) (Some wide0) (queues s' 16)"
proof -
  have ok: "mpq_pool_ok pool0 sys_wide" by (rule mpq_pool_ok_sys [OF pool0_ok(1)]) (simp split: if_splits)
  have a: "qp_count pool0 \<noteq> 0" "this_q sys_wide = 0" "length [7 :: u64] \<le> MPQ_ARGC_MAX" by (simp_all add: MPQ_ARGC_MAX_def)
  from tail_reaches_every_queue [OF ok a, of 0 env0 "create_for_pool pv0" 800 900 77 "- 1" "- 1" "''t''" 100 "\<lparr>pm_counts = Map.empty, pm_names = Map.empty\<rparr>"]
  show ?thesis by (auto simp: pool_queues_def dest!: spec [of _ 16])
qed

end
