(* ===== verification/Inet.thy ===== *)
theory Inet
  imports Aosl_Prelude
begin

text \<open>
  Internet addresses as text: \<^verbatim>\<open>net/inet.c\<close>. An address is the list of its bytes as natural numbers below 256, in network order; a
  C string is the list of its characters without the terminator. The parsers return \<open>None\<close> for 0 (not an address). A temporary array is the list
  of what has been written to it, and writing or reading beyond it is a fault.
\<close>

subsection \<open>Printing\<close>

text \<open>\<^verbatim>\<open>sprintf\<close> of an unsigned number in the given base (\<open>%u\<close>, \<open>%x\<close>).\<close>

definition digit_char :: "nat \<Rightarrow> char" where
  "digit_char d = char_of (if d < 10 then 48 + d else 87 + d)"

function radix_str :: "nat \<Rightarrow> nat \<Rightarrow> string" where
  "radix_str b n = (if n < b \<or> b < 2 then [digit_char n] else radix_str b (n div b) @ [digit_char (n mod b)])"
  by pat_completeness auto
termination
  by (relation "measure snd") (auto intro: div_less_dividend)

declare radix_str.simps [simp del]

abbreviation dec_str :: "nat \<Rightarrow> string" where "dec_str \<equiv> radix_str 10"
abbreviation hex_str :: "nat \<Rightarrow> string" where "hex_str \<equiv> radix_str 16"

definition dotted :: "nat list \<Rightarrow> string" where
  "dotted q = dec_str (q ! 0) @ ''.'' @ dec_str (q ! 1) @ ''.'' @ dec_str (q ! 2) @ ''.'' @ dec_str (q ! 3)"

definition inet_ntop4 :: "nat list \<Rightarrow> int \<Rightarrow> (int + string) exec" where
  "inet_ntop4 src sz = (let tmp = dotted src in
     if 16 < length tmp + 1 then Fault else if sz \<le> int (length tmp) then Ret (Inl AOSL_ENOSPC) else Ret (Inr tmp))"

definition words_of :: "nat list \<Rightarrow> nat list" where
  "words_of src = map (\<lambda>i. src ! (2 * i) * 256 + src ! (2 * i + 1)) [0..<8]"

text \<open>The longest run of zero words: \<open>(base, len)\<close> with base -1 for none.\<close>

definition better :: "int \<times> int \<Rightarrow> int \<times> int \<Rightarrow> int \<times> int" where
  "better best cur = (if fst best = - 1 \<or> snd best < snd cur then cur else best)"

fun zero_run :: "nat list \<Rightarrow> int \<Rightarrow> int \<times> int \<Rightarrow> int \<times> int \<Rightarrow> int \<times> int" where
  "zero_run [] i best cur = (if fst cur \<noteq> - 1 then better best cur else best)"
| "zero_run (w # ws) i best cur =
     (if w = 0 then zero_run ws (i + 1) best (if fst cur = - 1 then (i, 1) else (fst cur, snd cur + 1))
      else if fst cur \<noteq> - 1 then zero_run ws (i + 1) (better best cur) (- 1, snd cur)
      else zero_run ws (i + 1) best cur)"

definition best_run :: "nat list \<Rightarrow> int \<times> int" where
  "best_run ws = (let best = zero_run ws 0 (- 1, 0) (- 1, 0) in if fst best \<noteq> - 1 \<and> snd best < 2 then (- 1, snd best) else best)"

fun ntop6_words :: "nat list \<Rightarrow> int \<times> int \<Rightarrow> nat list \<Rightarrow> int \<Rightarrow> string \<Rightarrow> (int + string) exec" where
  "ntop6_words src best [] i tmp = Ret (Inr tmp)"
| "ntop6_words src best (w # ws) i tmp =
     (if fst best \<noteq> - 1 \<and> fst best \<le> i \<and> i < fst best + snd best
      then ntop6_words src best ws (i + 1) (if i = fst best then tmp @ '':'' else tmp)
      else
        let tmp = (if i \<noteq> 0 then tmp @ '':'' else tmp) in
        if i = 6 \<and> fst best = 0 \<and> (snd best = 6 \<or> snd best = 5 \<and> words_of src ! 5 = 0xffff) then
          ebind (inet_ntop4 (drop 12 src) (46 - int (length tmp))) (\<lambda>r. Ret (case r of Inl err \<Rightarrow> Inl err | Inr t \<Rightarrow> Inr (tmp @ t)))
        else ntop6_words src best ws (i + 1) (tmp @ hex_str w))"

definition inet_ntop6 :: "nat list \<Rightarrow> int \<Rightarrow> (int + string) exec" where
  "inet_ntop6 src sz = (let ws = words_of src; best = best_run ws in
     ebind (ntop6_words src best ws 0 []) (\<lambda>r. case r of
       Inl err \<Rightarrow> Ret (Inl err)
     | Inr tmp \<Rightarrow>
         let tmp = (if fst best \<noteq> - 1 \<and> fst best + snd best = 8 then tmp @ '':'' else tmp) in
         if 46 < length tmp + 1 then Fault
         else if sz < int (length tmp) + 1 then Ret (Inl AOSL_ENOSPC)
         else Ret (Inr tmp)))"

datatype af = AOSL_AF_INET | AOSL_AF_INET6 | AOSL_AF_OTHER

text \<open>With \<^verbatim>\<open>CONFIG_AOSL_IPV6\<close>.\<close>

definition k_inet_ntop :: "af \<Rightarrow> nat list \<Rightarrow> int \<Rightarrow> (int + string) exec" where
  "k_inet_ntop fam src sz = (case fam of
     AOSL_AF_INET \<Rightarrow> inet_ntop4 src sz | AOSL_AF_INET6 \<Rightarrow> inet_ntop6 src sz | AOSL_AF_OTHER \<Rightarrow> Ret (Inl AOSL_EAFNOSUPPORT))"

subsection \<open>Parsing\<close>

text \<open>The octets before the current one, the current one, whether a digit of it was seen, and the number of octets begun.\<close>

fun pton4_loop :: "string \<Rightarrow> nat list \<Rightarrow> nat \<Rightarrow> bool \<Rightarrow> nat \<Rightarrow> nat list option exec" where
  "pton4_loop [] done cur saw_digit octets =
     (if octets < 4 then Ret None else if length done = 3 then Ret (Some (done @ [cur])) else Fault)"
| "pton4_loop (ch # src) done cur saw_digit octets =
     (if 48 \<le> (of_char ch :: nat) \<and> (of_char ch :: nat) \<le> 57 then
        let new = cur * 10 + (of_char ch - 48) in
        if saw_digit \<and> cur = 0 then Ret None
        else if 255 < new then Ret None
        else if \<not> saw_digit then (if 4 < octets + 1 then Ret None else pton4_loop src done new True (octets + 1))
        else pton4_loop src done new saw_digit octets
      else if ch = CHR ''.'' \<and> saw_digit then
        (if octets = 4 then Ret None
         else if 3 < length done + 1 then Fault
         else pton4_loop src (done @ [cur]) 0 False octets)
      else Ret None)"

definition inet_pton4 :: "string \<Rightarrow> nat list option exec" where
  "inet_pton4 src = pton4_loop src [] 0 False 0"

definition hex_digit_value :: "char \<Rightarrow> int" where
  "hex_digit_value ch = (let c = of_char ch :: int in
     if 48 \<le> c \<and> c \<le> 57 then c - 48
     else if 97 \<le> c \<and> c \<le> 102 then c - 97 + 10
     else if 65 \<le> c \<and> c \<le> 70 then c - 65 + 10
     else - 1)"

definition put_word :: "nat \<Rightarrow> nat list \<Rightarrow> nat list" where
  "put_word val out = out @ [val div 256 mod 256, val mod 256]"

text \<open>After the loop: the last word, and the zeros for \<^verbatim>\<open>::\<close>.\<close>

definition pton6_end :: "nat list \<Rightarrow> nat option \<Rightarrow> nat \<Rightarrow> nat \<Rightarrow> nat list option" where
  "pton6_end out colonp xdigits_seen val =
     (if 0 < xdigits_seen \<and> 16 < length out + 2 then None
      else
        let out = (if 0 < xdigits_seen then put_word val out else out) in
        case colonp of
          None \<Rightarrow> if length out \<noteq> 16 then None else Some out
        | Some c \<Rightarrow> if length out = 16 then None else Some (take c out @ replicate (16 - length out) 0 @ drop c out))"

text \<open>\<^verbatim>\<open>val <<= 4; val |= digit\<close> adds the digit: the four low bits are free.\<close>

fun pton6_loop :: "string \<Rightarrow> nat list \<Rightarrow> nat option \<Rightarrow> string \<Rightarrow> nat \<Rightarrow> nat \<Rightarrow> nat list option exec" where
  "pton6_loop [] out colonp curtok xdigits_seen val = Ret (pton6_end out colonp xdigits_seen val)"
| "pton6_loop (ch # src) out colonp curtok xdigits_seen val =
     (if 0 \<le> hex_digit_value ch then
        if xdigits_seen = 4 then Ret None
        else
          let val = val * 16 + nat (hex_digit_value ch) in
          if 0xffff < val then Ret None else pton6_loop src out colonp curtok (xdigits_seen + 1) val
      else if ch = CHR '':'' then
        if xdigits_seen = 0 then (if colonp \<noteq> None then Ret None else pton6_loop src out (Some (length out)) src xdigits_seen val)
        else if src = [] then Ret None
        else if 16 < length out + 2 then Ret None
        else pton6_loop src (put_word val out) colonp src 0 0
      else if ch = CHR ''.'' \<and> length out + 4 \<le> 16 then
        ebind (inet_pton4 curtok) (\<lambda>r. case r of None \<Rightarrow> Ret None | Some q \<Rightarrow> Ret (pton6_end (out @ q) colonp 0 val))
      else Ret None)"

definition inet_pton6 :: "string \<Rightarrow> nat list option exec" where
  "inet_pton6 src = (case src of
       [] \<Rightarrow> Ret None
     | ch # rest \<Rightarrow>
         if ch = CHR '':'' then (if rest = [] \<or> hd rest \<noteq> CHR '':'' then Ret None else pton6_loop rest [] None rest 0 0)
         else pton6_loop src [] None src 0 0)"

definition k_inet_pton :: "af \<Rightarrow> string \<Rightarrow> (int + nat list option) exec" where
  "k_inet_pton fam src = (case fam of
     AOSL_AF_INET \<Rightarrow> ebind (inet_pton4 src) (\<lambda>r. Ret (Inr r)) | AOSL_AF_INET6 \<Rightarrow> ebind (inet_pton6 src) (\<lambda>r. Ret (Inr r))
   | AOSL_AF_OTHER \<Rightarrow> Ret (Inl AOSL_EAFNOSUPPORT))"

subsection \<open>Digits\<close>

lemma dec_digit: "d < 10 \<Longrightarrow> (of_char (digit_char d) :: nat) = 48 + d"
  by (simp add: digit_char_def)

lemma hex_digit: "d < 16 \<Longrightarrow> hex_digit_value (digit_char d) = int d"
proof -
  assume d: "d < 16"
  have "(of_char (digit_char d) :: nat) = (if d < 10 then 48 + d else 87 + d)" using d by (simp add: digit_char_def)
  then have "(of_char (digit_char d) :: int) = int (if d < 10 then 48 + d else 87 + d)" by (metis of_nat_of_char)
  with d show ?thesis by (simp add: hex_digit_value_def Let_def)
qed

lemma char_dec_digit:
  assumes "48 \<le> (of_char ch :: nat)" "(of_char ch :: nat) \<le> 57"
  shows "digit_char (of_char ch - 48) = ch" "of_char ch - 48 < (10 :: nat)"
  using assms by (auto simp: digit_char_def)

lemma radix_small: "n < b \<Longrightarrow> radix_str b n = [digit_char n]"
  by (subst radix_str.simps) simp

lemma radix_snoc: "0 < n \<Longrightarrow> d < b \<Longrightarrow> 1 < b \<Longrightarrow> radix_str b (n * b + d) = radix_str b n @ [digit_char d]"
proof -
  assume h: "0 < n" "d < b" "1 < b"
  have "b * 1 \<le> b * n" using h by (intro mult_le_mono2) simp
  then have "\<not> n * b + d < b" by (metis mult.commute mult.right_neutral le_add1 le_trans not_le)
  with h show ?thesis by (subst radix_str.simps) simp
qed

lemma radix_length: "n < b ^ k \<Longrightarrow> 0 < k \<Longrightarrow> 1 < b \<Longrightarrow> length (radix_str b n) \<le> k"
proof (induction k arbitrary: n)
  case (Suc k)
  show ?case
  proof (cases "n < b")
    case True
    then show ?thesis by (simp add: radix_small)
  next
    case False
    then have "k \<noteq> 0" using Suc.prems by (cases k) auto
    moreover have "n div b < b ^ k" using Suc.prems by (simp add: less_mult_imp_div_less mult.commute)
    ultimately have "length (radix_str b (n div b)) \<le> k" using Suc by blast
    with False Suc.prems(3) show ?thesis by (subst radix_str.simps) simp
  qed
qed simp

lemma radix_nonempty [simp]: "radix_str b n \<noteq> []"
  by (subst radix_str.simps) simp

subsection \<open>Dotted quads\<close>

text \<open>Reading a printed octet.\<close>

lemma pton4_octet: "n < 256 \<Longrightarrow> k < 4 \<Longrightarrow> pton4_loop (dec_str n @ rest) pre 0 False k = pton4_loop rest pre n True (k + 1)"
proof (induction n arbitrary: rest rule: less_induct)
  case (less n)
  show ?case
  proof (cases "n < 10")
    case True
    then show ?thesis using less.prems by (simp add: radix_small dec_digit Let_def)
  next
    case False
    have d: "n mod 10 < 10" "n div 10 * 10 + n mod 10 = n" "0 < n div 10" using False by simp_all
    have "dec_str n = dec_str (n div 10) @ [digit_char (n mod 10)]" using False by (subst radix_str.simps) simp
    with less.IH [of "n div 10" "digit_char (n mod 10) # rest"] d less.prems show ?thesis by (simp add: dec_digit Let_def)
  qed
qed

lemma pton4_dotted:
  assumes "\<forall>x \<in> set q. x < 256" "length q = 4"
  shows "inet_pton4 (dotted q) = Ret (Some q)"
proof -
  obtain a b c d where q: "q = [a, b, c, d]" using assms(2) by (auto simp: length_Suc_conv numeral_eq_Suc)
  have "pton4_loop (dec_str d) [a, b, c] 0 False 3 = pton4_loop [] [a, b, c] d True 4"
    using pton4_octet [of d 3 "[]" "[a, b, c]"] assms(1) q by simp
  with q assms(1) show ?thesis by (simp add: inet_pton4_def dotted_def pton4_octet Let_def numeral_3_eq_3)
qed

text \<open>What has been read so far, as text.\<close>

definition shown :: "nat list \<Rightarrow> nat \<Rightarrow> bool \<Rightarrow> string" where
  "shown pre cur saw = concat (map (\<lambda>x. dec_str x @ ''.'') pre) @ (if saw then dec_str cur else [])"

definition reading :: "nat list \<Rightarrow> nat \<Rightarrow> bool \<Rightarrow> nat \<Rightarrow> bool" where
  "reading pre cur saw octets \<longleftrightarrow> (\<forall>x \<in> set pre. x < 256) \<and> cur < 256 \<and> (\<not> saw \<longrightarrow> cur = 0) \<and> octets = length pre + (if saw then 1 else 0) \<and> length pre \<le> 3"

lemma pton4_sound:
  "reading pre cur saw octets \<Longrightarrow> \<exists>r. pton4_loop s pre cur saw octets = Ret r
     \<and> (\<forall>q. r = Some q \<longrightarrow> length q = 4 \<and> (\<forall>x \<in> set q. x < 256) \<and> shown pre cur saw @ s = dotted q)"
proof (induction s arbitrary: pre cur saw octets)
  case Nil
  show ?case
  proof (cases "octets < 4")
    case False
    then have 3: "length pre = 3" "saw" using Nil by (auto simp: reading_def split: if_splits)
    then obtain a b c where "pre = [a, b, c]" by (auto simp: length_Suc_conv numeral_eq_Suc)
    with 3 False Nil show ?thesis by (simp add: reading_def shown_def dotted_def)
  qed simp
next
  case (Cons ch s)
  show ?case
  proof (cases "48 \<le> (of_char ch :: nat) \<and> (of_char ch :: nat) \<le> 57")
    case True
    let ?d = "of_char ch - 48 :: nat" and ?new = "cur * 10 + (of_char ch - 48)"
    note ch = char_dec_digit [of ch] True
    show ?thesis
    proof (cases "saw \<and> cur = 0 \<or> 255 < ?new \<or> \<not> saw \<and> 4 < octets + 1")
      case True
      then show ?thesis using ch by (auto simp: Let_def)
    next
      case False
      let ?o = "if saw then octets else octets + 1"
      have r: "reading pre ?new True ?o" using Cons.prems False by (auto simp: reading_def)
      have t: "shown pre ?new True = shown pre cur saw @ [ch]"
      proof (cases saw)
        case True
        then have "dec_str ?new = dec_str cur @ [ch]" using False ch radix_snoc [of cur ?d 10] by simp
        with True show ?thesis by (simp add: shown_def)
      next
        case no: False
        then have "cur = 0" using Cons.prems by (simp add: reading_def)
        with no ch show ?thesis by (simp add: shown_def radix_small)
      qed
      have "pton4_loop (ch # s) pre cur saw octets = pton4_loop s pre ?new True ?o" using False ch by (auto simp: Let_def)
      with Cons.IH [OF r] t show ?thesis by simp
    qed
  next
    case no_digit: False
    show ?thesis
    proof (cases "ch = CHR ''.'' \<and> saw \<and> octets \<noteq> 4")
      case True
      then have r: "reading (pre @ [cur]) 0 False octets" using Cons.prems by (auto simp: reading_def)
      have t: "shown (pre @ [cur]) 0 False = shown pre cur saw @ [ch]" using True by (simp add: shown_def)
      have "pton4_loop (ch # s) pre cur saw octets = pton4_loop s (pre @ [cur]) 0 False octets" using True Cons.prems by (auto simp: reading_def)
      with Cons.IH [OF r] t show ?thesis by simp
    next
      case False
      then show ?thesis using no_digit by auto
    qed
  qed
qed

lemma inet_pton4_total: "\<exists>r. inet_pton4 s = Ret r \<and> (\<forall>q. r = Some q \<longrightarrow> length q = 4 \<and> (\<forall>x \<in> set q. x < 256) \<and> s = dotted q)"
  using pton4_sound [of "[]" 0 False 0 s] by (simp add: inet_pton4_def reading_def shown_def)

subsection \<open>The longest run of zeros\<close>

definition zeros_at :: "nat list \<Rightarrow> int \<Rightarrow> int \<times> int \<Rightarrow> bool" where
  "zeros_at ws i r \<longleftrightarrow> fst r = - 1 \<or> 0 \<le> fst r \<and> 1 \<le> snd r \<and> fst r + snd r \<le> i \<and> (\<forall>k. fst r \<le> int k \<and> int k < fst r + snd r \<longrightarrow> ws ! k = 0)"

lemma zero_run_ok:
  "drop n ws = rest \<Longrightarrow> n \<le> length ws \<Longrightarrow> zeros_at ws (int n) best \<Longrightarrow> zeros_at ws (int n) cur \<Longrightarrow> fst cur = - 1 \<or> fst cur + snd cur = int n
    \<Longrightarrow> zeros_at ws (int (length ws)) (zero_run rest (int n) best cur)"
proof (induction rest arbitrary: n best cur)
  case Nil
  then show ?case by (auto simp: better_def)
next
  case (Cons w rest)
  have n: "n < length ws" using Cons.prems(1) by (metis drop_all list.discI not_le)
  have w: "ws ! n = w" "drop (Suc n) ws = rest" using Cons.prems(1) by (simp_all add: Cons_nth_drop_Suc [OF n, symmetric])
  have up: "zeros_at ws (int n) r \<Longrightarrow> zeros_at ws (int (Suc n)) r" for r by (auto simp: zeros_at_def)
  have z: "zeros_at ws (int (Suc n)) (if fst cur = - 1 then (int n, 1) else (fst cur, snd cur + 1))" if "w = 0"
  proof (cases "fst cur = - 1")
    case True
    have "k = n" if "n \<le> k" "int k < int n + 1" for k using that by simp
    with True that w(1) show ?thesis by (auto simp: zeros_at_def)
  next
    case False
    then have c: "0 \<le> fst cur" "1 \<le> snd cur" "fst cur + snd cur = int n" "\<And>k. fst cur \<le> int k \<Longrightarrow> k < n \<Longrightarrow> ws ! k = 0"
      using Cons.prems(4,5) by (auto simp: zeros_at_def)
    have "ws ! k = 0" if "fst cur \<le> int k" "int k < fst cur + (snd cur + 1)" for k
    proof (cases "k = n")
      case False
      then have "k < n" using that c(3) by linarith
      with that c(4) show ?thesis by blast
    qed (use w(1) \<open>w = 0\<close> in simp)
    with False c show ?thesis by (auto simp: zeros_at_def)
  qed
  have ih: "zeros_at ws (int (Suc n)) b \<Longrightarrow> zeros_at ws (int (Suc n)) c \<Longrightarrow> fst c = - 1 \<or> fst c + snd c = int (Suc n)
      \<Longrightarrow> zeros_at ws (int (length ws)) (zero_run rest (int n + 1) b c)" for b c
    using Cons.IH [OF w(2)] n by (simp add: add.commute)
  have none: "zeros_at ws i (- 1, l)" for i l by (simp add: zeros_at_def)
  consider (zero) "w = 0" | (stop) "w \<noteq> 0" "fst cur \<noteq> - 1" | (skip) "w \<noteq> 0" "fst cur = - 1" by blast
  then show ?case
  proof cases
    case zero
    have "zeros_at ws (int (length ws)) (zero_run rest (int n + 1) best (if fst cur = - 1 then (int n, 1) else (fst cur, snd cur + 1)))"
      by (rule ih [OF up [OF Cons.prems(3)] z [OF zero]]) (use Cons.prems(5) in auto)
    with zero show ?thesis by simp
  next
    case stop
    have "zeros_at ws (int (length ws)) (zero_run rest (int n + 1) (better best cur) (- 1, snd cur))"
      by (rule ih [OF _ none]) (use up [OF Cons.prems(3)] up [OF Cons.prems(4)] in \<open>simp_all add: better_def\<close>)
    with stop show ?thesis by simp
  next
    case skip
    have "zeros_at ws (int (length ws)) (zero_run rest (int n + 1) best cur)"
      by (rule ih [OF up [OF Cons.prems(3)] up [OF Cons.prems(4)]]) (simp add: skip)
    with skip show ?thesis by simp
  qed
qed

lemma best_run_ok: "best_run ws = (b, l) \<Longrightarrow> b \<noteq> - 1 \<Longrightarrow> 0 \<le> b \<and> 2 \<le> l \<and> b + l \<le> int (length ws) \<and> (\<forall>k. b \<le> int k \<and> int k < b + l \<longrightarrow> ws ! k = 0)"
  using zero_run_ok [of 0 ws ws "(- 1, 0)" "(- 1, 0)"] by (auto simp: best_run_def Let_def zeros_at_def split: if_splits)

subsection \<open>Reading printed words\<close>

lemma colon_dot [simp]: "hex_digit_value (CHR '':'') = - 1" "hex_digit_value (CHR ''.'') = - 1"
  by (simp_all add: hex_digit_value_def)

lemma pton6_word:
  "w < 16 ^ 4 \<Longrightarrow> pton6_loop (hex_str w @ rest) out c tok 0 0 = pton6_loop rest out c tok (length (hex_str w)) w"
proof (induction w arbitrary: rest rule: less_induct)
  case (less w)
  show ?case
  proof (cases "w < 16")
    case True
    then show ?thesis by (simp add: radix_small hex_digit Let_def)
  next
    case False
    have h: "hex_str w = hex_str (w div 16) @ [digit_char (w mod 16)]" using False by (subst radix_str.simps) simp
    have "length (hex_str (w div 16)) \<le> 3" by (rule radix_length) (use less.prems in simp_all)
    moreover have "w div 16 * 16 + nat (int (w mod 16)) = w" by simp
    moreover have "pton6_loop (hex_str (w div 16) @ digit_char (w mod 16) # rest) out c tok 0 0
        = pton6_loop (digit_char (w mod 16) # rest) out c tok (length (hex_str (w div 16))) (w div 16)"
      by (rule less.IH) (use False less.prems in auto)
    ultimately show ?thesis using less.prems unfolding h by (simp add: hex_digit Let_def)
  qed
qed

lemma pton6_decimal:
  "n < 10 ^ k \<Longrightarrow> 0 < k \<Longrightarrow> k \<le> 3 \<Longrightarrow> \<exists>v. v < 16 ^ length (dec_str n) \<and>
     (\<forall>rest. pton6_loop (dec_str n @ rest) out c tok 0 0 = pton6_loop rest out c tok (length (dec_str n)) v)"
proof (induction k arbitrary: n)
  case (Suc k)
  show ?case
  proof (cases "n < 10")
    case True
    then show ?thesis by (intro exI [of _ n]) (simp add: radix_small hex_digit Let_def)
  next
    case False
    then have k: "0 < k" using Suc.prems by (cases k) auto
    have n: "n div 10 < 10 ^ k" using Suc.prems(1) by (simp add: less_mult_imp_div_less mult.commute)
    from Suc.IH [OF n k] Suc.prems obtain v where v: "v < 16 ^ length (dec_str (n div 10))"
      "\<And>rest. pton6_loop (dec_str (n div 10) @ rest) out c tok 0 0 = pton6_loop rest out c tok (length (dec_str (n div 10))) v" by auto
    have h: "dec_str n = dec_str (n div 10) @ [digit_char (n mod 10)]" using False by (subst radix_str.simps) simp
    have l: "length (dec_str (n div 10)) \<le> 2" using radix_length [OF n k] Suc.prems(3) by simp
    then have "v < 16 ^ 2" using v(1) by (meson le_trans less_le_trans nat_le_linear not_le one_le_numeral power_increasing)
    then have "v * 16 + n mod 10 \<le> 0xffff" "v * 16 + n mod 10 < 16 ^ Suc (length (dec_str (n div 10)))" using v(1) by auto
    with v(2) l show ?thesis unfolding h by (intro exI [of _ "v * 16 + n mod 10"]) (simp add: hex_digit Let_def)
  qed
qed simp

definition bytes_of :: "nat list \<Rightarrow> nat list" where
  "bytes_of ws = concat (map (\<lambda>w. [w div 256 mod 256, w mod 256]) ws)"

lemma bytes_of_simps [simp]: "bytes_of [] = []" "bytes_of (w # ws) = w div 256 mod 256 # w mod 256 # bytes_of ws"
  "bytes_of (xs @ ys) = bytes_of xs @ bytes_of ys"
  by (simp_all add: bytes_of_def)

lemma length_bytes_of [simp]: "length (bytes_of ws) = 2 * length ws"
  by (induction ws) simp_all

lemma bytes_of_zeros: "bytes_of (replicate n 0) = replicate (2 * n) 0"
  by (induction n) simp_all

lemma pton6_words:
  "rest \<noteq> [] \<Longrightarrow> \<forall>w \<in> set ws. w < 16 ^ 4 \<Longrightarrow> length out + 2 * length ws \<le> 16 \<Longrightarrow>
   pton6_loop (concat (map (\<lambda>w. hex_str w @ '':'') ws) @ rest) out c tok 0 0 = pton6_loop rest (out @ bytes_of ws) c (if ws = [] then tok else rest) 0 0"
proof (induction ws arbitrary: out tok)
  case (Cons w ws)
  let ?r = "concat (map (\<lambda>w. hex_str w @ '':'') ws) @ rest"
  have "pton6_loop (hex_str w @ CHR '':'' # ?r) out c tok 0 0 = pton6_loop (CHR '':'' # ?r) out c tok (length (hex_str w)) w"
    using Cons.prems(2) by (intro pton6_word) simp
  also have "\<dots> = pton6_loop ?r (put_word w out) c ?r 0 0" using Cons.prems by simp
  also have "\<dots> = pton6_loop rest (put_word w out @ bytes_of ws) c (if ws = [] then ?r else rest) 0 0"
    by (rule Cons.IH) (use Cons.prems in \<open>simp_all add: put_word_def\<close>)
  finally show ?case by (simp add: put_word_def)
qed simp

text \<open>Words joined by colons.\<close>

fun joined :: "nat list \<Rightarrow> string" where
  "joined [] = []"
| "joined [w] = hex_str w"
| "joined (w # ws) = hex_str w @ '':'' @ joined ws"

lemma joined_snoc: "joined (ws @ [w]) = concat (map (\<lambda>w. hex_str w @ '':'') ws) @ hex_str w"
  by (induction ws rule: joined.induct) simp_all

lemma pton6_joined:
  assumes "\<forall>w \<in> set ws. w < 16 ^ 4" and "length out + 2 * length ws \<le> 16"
  shows "pton6_loop (joined ws) out c tok 0 0 = Ret (pton6_end (out @ bytes_of ws) c 0 0)"
proof (cases ws rule: rev_cases)
  case (snoc us w)
  have "pton6_loop (joined ws) out c tok 0 0 = pton6_loop (hex_str w) (out @ bytes_of us) c (if us = [] then tok else hex_str w) 0 0"
    unfolding snoc joined_snoc by (rule pton6_words) (use assms snoc in simp_all)
  also have "\<dots> = Ret (pton6_end (out @ bytes_of us) c (length (hex_str w)) w)" using pton6_word [of w "[]"] assms snoc by simp
  also have "pton6_end (out @ bytes_of us) c (length (hex_str w)) w = pton6_end (out @ bytes_of ws) c 0 0"
    using assms(2) snoc by (simp add: pton6_end_def put_word_def Let_def split: option.splits)
  finally show ?thesis .
qed simp

lemma pton6_dotted:
  assumes q: "length q = 4" "\<forall>x \<in> set q. x < 256" and out: "length out < 12"
  shows "pton6_loop (dotted q) out (Some k) (dotted q) 0 0 = Ret (pton6_end (out @ q) (Some k) 0 0)"
proof -
  have "q ! 0 < 256" using q by (simp add: numeral_eq_Suc)
  then have "q ! 0 < 10 ^ 3" by simp
  from pton6_decimal [OF this, of out "Some k" "dotted q"] obtain v where
    v: "\<And>rest. pton6_loop (dec_str (q ! 0) @ rest) out (Some k) (dotted q) 0 0 = pton6_loop rest out (Some k) (dotted q) (length (dec_str (q ! 0))) v" by auto
  obtain r where r: "dotted q = dec_str (q ! 0) @ CHR ''.'' # r" by (simp add: dotted_def)
  have "pton6_loop (dotted q) out (Some k) (dotted q) 0 0 = pton6_loop (CHR ''.'' # r) out (Some k) (dotted q) (length (dec_str (q ! 0))) v"
    using v [of "CHR ''.'' # r"] r by simp
  with pton4_dotted [OF q(2,1)] out show ?thesis by (simp add: pton6_end_def)
qed

subsection \<open>Printing and reading back\<close>

definition colon_words :: "nat list \<Rightarrow> string" where
  "colon_words ws = concat (map (\<lambda>w. '':'' @ hex_str w) ws)"

lemma joined_Cons: "joined (w # ws) = hex_str w @ colon_words ws"
  by (induction ws arbitrary: w) (simp_all add: colon_words_def)

lemma colon_joined: "ws \<noteq> [] \<Longrightarrow> colon_words ws = '':'' @ joined ws"
  by (cases ws) (simp_all add: joined_Cons, simp add: colon_words_def)

lemma joined_colon: "ws \<noteq> [] \<Longrightarrow> joined ws @ '':'' = concat (map (\<lambda>w. hex_str w @ '':'') ws)"
  by (cases ws rule: rev_cases) (simp_all add: joined_snoc)

definition in_run :: "int \<times> int \<Rightarrow> int \<Rightarrow> bool" where
  "in_run best i \<longleftrightarrow> fst best \<noteq> - 1 \<and> fst best \<le> i \<and> i < fst best + snd best"

definition mapped_v4 :: "nat list \<Rightarrow> int \<times> int \<Rightarrow> bool" where
  "mapped_v4 src best \<longleftrightarrow> fst best = 0 \<and> (snd best = 6 \<or> snd best = 5 \<and> words_of src ! 5 = 0xffff)"

lemma ntop6_step:
  "ntop6_words src best (w # ws) i tmp =
     (if in_run best i then ntop6_words src best ws (i + 1) (if i = fst best then tmp @ '':'' else tmp)
      else let tmp = (if i \<noteq> 0 then tmp @ '':'' else tmp) in
        if i = 6 \<and> mapped_v4 src best then
          ebind (inet_ntop4 (drop 12 src) (46 - int (length tmp))) (\<lambda>r. Ret (case r of Inl err \<Rightarrow> Inl err | Inr t \<Rightarrow> Inr (tmp @ t)))
        else ntop6_words src best ws (i + 1) (tmp @ hex_str w))"
  by (simp add: in_run_def mapped_v4_def)

declare ntop6_words.simps(2) [simp del]

lemma ntop6_plain:
  "0 < i \<Longrightarrow> \<forall>k < length xs. \<not> in_run best (i + int k) \<and> \<not> (i + int k = 6 \<and> mapped_v4 src best) \<Longrightarrow>
     ntop6_words src best (xs @ ys) i tmp = ntop6_words src best ys (i + int (length xs)) (tmp @ colon_words xs)"
proof (induction xs arbitrary: i tmp)
  case (Cons x xs)
  have 0: "\<not> in_run best i" "\<not> (i = 6 \<and> mapped_v4 src best)" using Cons.prems(2) [rule_format, of 0] by simp_all
  have k: "\<forall>k < length xs. \<not> in_run best (i + 1 + int k) \<and> \<not> (i + 1 + int k = 6 \<and> mapped_v4 src best)"
  proof (intro allI impI)
    fix k assume "k < length xs"
    with Cons.prems(2) [rule_format, of "Suc k"] show "\<not> in_run best (i + 1 + int k) \<and> \<not> (i + 1 + int k = 6 \<and> mapped_v4 src best)"
      by (simp add: algebra_simps)
  qed
  have "ntop6_words src best ((x # xs) @ ys) i tmp = ntop6_words src best (xs @ ys) (i + 1) (tmp @ '':'' @ hex_str x)"
    using 0 Cons.prems(1) by (auto simp: ntop6_step)
  also have "\<dots> = ntop6_words src best ys (i + 1 + int (length xs)) ((tmp @ '':'' @ hex_str x) @ colon_words xs)"
    using Cons.IH [OF _ k] Cons.prems(1) by simp
  finally show ?case by (simp add: colon_words_def algebra_simps)
qed (simp add: colon_words_def)

lemma ntop6_first:
  assumes "\<forall>k < length xs. \<not> in_run best (int k) \<and> \<not> (int k = 6 \<and> mapped_v4 src best)" "xs \<noteq> []"
  shows "ntop6_words src best (xs @ ys) 0 [] = ntop6_words src best ys (int (length xs)) (joined xs)"
proof (cases xs)
  case (Cons x us)
  have "\<not> in_run best 0" using assms(1) Cons by force
  then have "ntop6_words src best (xs @ ys) 0 [] = ntop6_words src best (us @ ys) 1 (hex_str x)" using Cons by (simp add: ntop6_step)
  also have "\<dots> = ntop6_words src best ys (1 + int (length us)) (hex_str x @ colon_words us)"
  proof (rule ntop6_plain, simp, intro allI impI)
    fix k assume "k < length us"
    with assms(1) [rule_format, of "Suc k"] Cons show "\<not> in_run best (1 + int k) \<and> \<not> (1 + int k = 6 \<and> mapped_v4 src best)" by (simp add: algebra_simps)
  qed
  finally show ?thesis using Cons by (simp add: joined_Cons)
qed (use assms in simp)

lemma ntop6_inside:
  "fst best < i \<Longrightarrow> 0 \<le> fst best \<Longrightarrow> i + int (length xs) \<le> fst best + snd best \<Longrightarrow>
     ntop6_words src best (xs @ ys) i tmp = ntop6_words src best ys (i + int (length xs)) tmp"
proof (induction xs arbitrary: i)
  case (Cons x xs)
  have "in_run best i" using Cons.prems by (auto simp: in_run_def)
  then have "ntop6_words src best ((x # xs) @ ys) i tmp = ntop6_words src best (xs @ ys) (i + 1) tmp" using Cons.prems by (simp add: ntop6_step)
  with Cons.IH [of "i + 1"] Cons.prems show ?case by (simp add: algebra_simps)
qed simp

lemma ntop6_run:
  assumes "0 \<le> b" "int (length zs) = l" "zs \<noteq> []"
  shows "ntop6_words src (b, l) (zs @ ys) b tmp = ntop6_words src (b, l) ys (b + l) (tmp @ '':'')"
proof (cases zs)
  case (Cons z us)
  have "in_run (b, l) b" using assms Cons by (auto simp: in_run_def)
  then have "ntop6_words src (b, l) (zs @ ys) b tmp = ntop6_words src (b, l) (us @ ys) (b + 1) (tmp @ '':'')" using Cons by (simp add: ntop6_step)
  also have "\<dots> = ntop6_words src (b, l) ys (b + 1 + int (length us)) (tmp @ '':'')" by (rule ntop6_inside) (use assms Cons in auto)
  also have "b + 1 + int (length us) = b + l" using assms(2) Cons by simp
  finally show ?thesis .
qed (use assms in simp)

lemma hex_chars: "c \<in> set (hex_str n) \<Longrightarrow> 0 \<le> hex_digit_value c"
proof (induction n rule: less_induct)
  case (less n)
  show ?case
  proof (cases "n < 16")
    case True
    with less.prems show ?thesis by (simp add: radix_small hex_digit)
  next
    case False
    then have "hex_str n = hex_str (n div 16) @ [digit_char (n mod 16)]" by (subst radix_str.simps) simp
    then have "c \<in> set (hex_str (n div 16)) \<or> c = digit_char (n mod 16)" using less.prems by auto
    then show ?thesis using less.IH [of "n div 16"] False by (auto simp: hex_digit)
  qed
qed

lemma pton6_hex_first: "inet_pton6 (hex_str w @ rest) = pton6_loop (hex_str w @ rest) [] None (hex_str w @ rest) 0 0"
proof -
  obtain c r where c: "hex_str w = c # r" by (cases "hex_str w") auto
  then have "0 \<le> hex_digit_value c" using hex_chars [of c w] by simp
  then have "c \<noteq> CHR '':''" by auto
  with c show ?thesis by (simp add: inet_pton6_def)
qed

lemma pton6_shortened:
  assumes "\<forall>w \<in> set (pre @ post). w < 16 ^ 4" and "length pre + length post < 8"
  shows "inet_pton6 (joined pre @ ''::'' @ joined post) =
    Ret (Some (bytes_of pre @ replicate (16 - 2 * length pre - 2 * length post) 0 @ bytes_of post))"
proof -
  let ?rest = "CHR '':'' # joined post"
  have post: "pton6_loop (joined post) out (Some (length out)) tok 0 0 = Ret (Some (out @ replicate (16 - length out - 2 * length post) 0 @ bytes_of post))"
    if "length out + 2 * length post < 16" for out tok
    using pton6_joined [of post out "Some (length out)" tok] assms(1) that by (simp add: pton6_end_def)
  show ?thesis
  proof (cases pre)
    case Nil
    then show ?thesis using post [of "[]" "joined post"] assms(2) by (simp add: inet_pton6_def)
  next
    case (Cons w ws)
    let ?t = "joined pre @ ''::'' @ joined post"
    have t: "?t = concat (map (\<lambda>w. hex_str w @ '':'') pre) @ ?rest" using joined_colon [of pre] Cons by simp
    have "\<exists>r. ?t = hex_str w @ r" using Cons by (simp add: joined_Cons)
    then have "inet_pton6 ?t = pton6_loop ?t [] None ?t 0 0" using pton6_hex_first [of w] by auto
    also have "\<dots> = pton6_loop (concat (map (\<lambda>w. hex_str w @ '':'') pre) @ ?rest) [] None ?t 0 0" by (subst t) (rule refl)
    also have "\<dots> = pton6_loop ?rest (bytes_of pre) None ?rest 0 0" using pton6_words [of ?rest pre "[]"] assms Cons by simp
    also have "\<dots> = pton6_loop (joined post) (bytes_of pre) (Some (length (bytes_of pre))) (joined post) 0 0" by simp
    finally show ?thesis using post [of "bytes_of pre"] assms(2) by simp
  qed
qed

lemma pton6_mapped:
  assumes q: "length q = 4" "\<forall>x \<in> set q. x < 256"
  shows "inet_pton6 (''::'' @ dotted q) = Ret (Some (replicate 12 0 @ q))"
    "inet_pton6 (''::'' @ hex_str 0xffff @ '':'' @ dotted q) = Ret (Some (replicate 10 0 @ [255, 255] @ q))"
proof -
  have "inet_pton6 (''::'' @ t) = pton6_loop t [] (Some 0) t 0 0" for t by (simp add: inet_pton6_def)
  note start = this
  show "inet_pton6 (''::'' @ dotted q) = Ret (Some (replicate 12 0 @ q))"
    unfolding start using pton6_dotted [OF q, of "[]" 0] q by (simp add: pton6_end_def)
  have ne: "dotted q \<noteq> []" by (simp add: dotted_def)
  have "pton6_loop (hex_str 0xffff @ '':'' @ dotted q) [] (Some 0) tok 0 0 = pton6_loop (dotted q) [255, 255] (Some 0) (dotted q) 0 0" for tok
    using pton6_words [OF ne, of "[0xffff]" "[]" "Some 0" tok] by simp
  then show "inet_pton6 (''::'' @ hex_str 0xffff @ '':'' @ dotted q) = Ret (Some (replicate 10 0 @ [255, 255] @ q))"
    unfolding start using pton6_dotted [OF q, of "[255, 255]" 0] q by (simp add: pton6_end_def)
qed

subsection \<open>Addresses\<close>

definition addr_ok :: "nat \<Rightarrow> nat list \<Rightarrow> bool" where
  "addr_ok n src \<longleftrightarrow> length src = n \<and> (\<forall>x \<in> set src. x < 256)"

lemma words_of_ok:
  assumes "addr_ok 16 src"
  shows "length (words_of src) = 8" "\<forall>w \<in> set (words_of src). w < 16 ^ 4" "bytes_of (words_of src) = src"
proof -
  show "length (words_of src) = 8" by (simp add: words_of_def)
  have b: "src ! i < 256" if "i < 16" for i using assms that by (simp add: addr_ok_def)
  have "src ! (2 * i) * 256 + src ! (2 * i + 1) < 16 ^ 4" if "i < 8" for i using b [of "2 * i"] b [of "2 * i + 1"] that by simp
  then show "\<forall>w \<in> set (words_of src). w < 16 ^ 4" by (auto simp: words_of_def)
  have len: "length src = 16" using assms by (simp add: addr_ok_def)
  have "bytes_of (map (\<lambda>i. src ! (2 * i) * 256 + src ! (2 * i + 1)) [0..<n]) = map ((!) src) [0..<2 * n]" if "n \<le> 8" for n
    using that
  proof (induction n)
    case (Suc n)
    then have "src ! (2 * n) < 256" "src ! (2 * n + 1) < 256" using b by simp_all
    then show ?case using Suc by simp
  qed simp
  from this [of 8] show "bytes_of (words_of src) = src" using len map_nth [of src] by (simp add: words_of_def)
qed

lemma dotted_length: "addr_ok 4 q \<Longrightarrow> length (dotted q) \<le> 15"
proof -
  assume "addr_ok 4 q"
  then have "q ! i < 256" if "i < 4" for i using that by (simp add: addr_ok_def)
  then have "length (dec_str (q ! i)) \<le> 3" if "i < 4" for i using that by (intro radix_length) force+
  from this [of 0] this [of 1] this [of 2] this [of 3] show ?thesis by (simp add: dotted_def)
qed

lemma joined_length: "\<forall>w \<in> set ws. w < 16 ^ 4 \<Longrightarrow> length (joined ws) \<le> 5 * length ws"
proof (induction ws rule: joined.induct)
  case (2 w)
  then show ?case using radix_length [of w 16 4] by simp
next
  case (3 w v ws)
  then show ?case using radix_length [of w 16 4] by simp
qed simp

lemma ntop6_shortened:
  assumes "0 \<le> b" "length pre = nat b" "int (length zs) = l" "0 < l" "\<not> mapped_v4 src (b, l)"
  shows "ntop6_words src (b, l) (pre @ zs @ post) 0 [] = Ret (Inr (joined pre @ '':'' @ colon_words post))"
proof -
  have zs: "zs \<noteq> []" using assms(3,4) by auto
  have "ntop6_words src (b, l) (pre @ zs @ post) 0 [] = ntop6_words src (b, l) (zs @ post) b (joined pre)"
  proof (cases "pre = []")
    case True
    with assms(1,2) show ?thesis by simp
  next
    case False
    have "ntop6_words src (b, l) (pre @ zs @ post) 0 [] = ntop6_words src (b, l) (zs @ post) (int (length pre)) (joined pre)"
      by (rule ntop6_first) (use assms False in \<open>auto simp: in_run_def\<close>)
    with assms(1,2) show ?thesis by simp
  qed
  also have "\<dots> = ntop6_words src (b, l) (post @ []) (b + l) (joined pre @ '':'')" using ntop6_run [OF assms(1,3) zs] by simp
  also have "\<dots> = ntop6_words src (b, l) [] (b + l + int (length post)) ((joined pre @ '':'') @ colon_words post)"
    by (rule ntop6_plain) (use assms in \<open>auto simp: in_run_def\<close>)
  finally show ?thesis by simp
qed

lemma hex_ffff: "hex_str 0xffff = ''ffff''"
proof -
  have "char_of (102 :: nat) = CHR ''f''" by code_simp
  then show ?thesis by (simp add: radix_str.simps digit_char_def)
qed

lemma ntop6_mapped:
  assumes "int (length zs) = l" "zs \<noteq> []" and d4: "\<And>sz. 15 < sz \<Longrightarrow> inet_ntop4 (drop 12 src) sz = Ret (Inr (dotted (drop 12 src)))"
  shows "l = 6 \<Longrightarrow> ntop6_words src (0, l) (zs @ [w6, w7]) 0 [] = Ret (Inr (''::'' @ dotted (drop 12 src)))"
    "l = 5 \<Longrightarrow> words_of src ! 5 = 0xffff \<Longrightarrow> ntop6_words src (0, l) (zs @ [0xffff, w6, w7]) 0 [] = Ret (Inr (''::'' @ hex_str 0xffff @ '':'' @ dotted (drop 12 src)))"
proof -
  have run: "ntop6_words src (0, l) (zs @ ys) 0 [] = ntop6_words src (0, l) ys l '':''" for ys using ntop6_run [OF _ assms(1,2), of 0] by simp
  show "ntop6_words src (0, l) (zs @ [w6, w7]) 0 [] = Ret (Inr (''::'' @ dotted (drop 12 src)))" if "l = 6"
    unfolding run using that d4 by (simp add: ntop6_step in_run_def mapped_v4_def)
  show "ntop6_words src (0, l) (zs @ [0xffff, w6, w7]) 0 [] = Ret (Inr (''::'' @ hex_str 0xffff @ '':'' @ dotted (drop 12 src)))"
    if "l = 5" "words_of src ! 5 = 0xffff"
    unfolding run using that d4 by (simp add: ntop6_step in_run_def mapped_v4_def hex_ffff)
qed

text \<open>The text of an address: its length is bounded and it reads back as the address.\<close>

definition v6_text :: "nat list \<Rightarrow> string \<Rightarrow> bool" where
  "v6_text src t \<longleftrightarrow> length t \<le> 40 \<and> inet_pton6 t = Ret (Some src) \<and>
     (\<exists>b l tmp. best_run (words_of src) = (b, l) \<and> ntop6_words src (b, l) (words_of src) 0 [] = Ret (Inr tmp) \<and> t = (if b \<noteq> - 1 \<and> b + l = 8 then tmp @ '':'' else tmp))"

lemma v6_text_plain:
  assumes ok: "addr_ok 16 src" and best: "best_run (words_of src) = (- 1, l)"
  shows "v6_text src (joined (words_of src))"
proof -
  let ?ws = "words_of src"
  note w = words_of_ok [OF ok]
  have 1: "ntop6_words src (- 1, l) (?ws @ []) 0 [] = ntop6_words src (- 1, l) [] (int (length ?ws)) (joined ?ws)"
    by (rule ntop6_first) (use w(1) in \<open>auto simp: in_run_def mapped_v4_def\<close>)
  obtain x xs where x: "?ws = x # xs" using w(1) by (cases ?ws) auto
  have "inet_pton6 (joined ?ws) = pton6_loop (joined ?ws) [] None (joined ?ws) 0 0" using pton6_hex_first [of x] by (simp add: x joined_Cons)
  also have "\<dots> = Ret (pton6_end (bytes_of ?ws) None 0 0)" using pton6_joined [of ?ws "[]"] w by simp
  finally have "inet_pton6 (joined ?ws) = Ret (Some src)" using w ok by (simp add: pton6_end_def addr_ok_def)
  with 1 joined_length [OF w(2)] w(1) best show ?thesis by (simp add: v6_text_def)
qed

lemma two_elems: "length xs = 2 \<Longrightarrow> \<exists>a b. xs = [a, b]"
  by (auto simp: length_Suc_conv numeral_eq_Suc)

lemma addr_tail:
  assumes "addr_ok 16 src"
  shows "bytes_of (take 6 (words_of src)) @ drop 12 src = src"
proof -
  note w = words_of_ok [OF assms]
  have "bytes_of (take 6 (words_of src)) @ bytes_of (drop 6 (words_of src)) = src"
    using w(3) bytes_of_simps(3) [of "take 6 (words_of src)" "drop 6 (words_of src)"] by simp
  moreover from this have "drop 12 src = drop 12 (bytes_of (take 6 (words_of src)) @ bytes_of (drop 6 (words_of src)))" by (simp only:)
  then have "drop 12 src = bytes_of (drop 6 (words_of src))" using w(1) by simp
  ultimately show ?thesis by simp
qed

lemma v6_text_mapped:
  assumes ok: "addr_ok 16 src" and best: "best_run (words_of src) = (0, l)" and v4: "mapped_v4 src (0, l)"
  shows "\<exists>t. v6_text src t"
proof -
  let ?ws = "words_of src" and ?q = "drop 12 src"
  note w = words_of_ok [OF ok]
  have q: "length ?q = 4" "\<forall>x \<in> set ?q. x < 256" using ok by (auto simp: addr_ok_def dest: in_set_dropD)
  then have dl: "length (dotted ?q) \<le> 15" by (intro dotted_length) (simp add: addr_ok_def)
  then have d4: "inet_ntop4 ?q sz = Ret (Inr (dotted ?q))" if "15 < sz" for sz using that by (simp add: inet_ntop4_def Let_def)
  from best_run_ok [OF best] have z: "ws0 < nat l \<Longrightarrow> ?ws ! ws0 = 0" for ws0 by auto
  have zs: "take (nat l) ?ws = replicate (nat l) 0" if "nat l \<le> 8" by (rule nth_equalityI) (use z w(1) that in auto)
  note src = addr_tail [OF ok]
  obtain w6 w7 where d6: "drop 6 ?ws = [w6, w7]" using two_elems [of "drop 6 ?ws"] w(1) by auto
  consider (six) "l = 6" | (five) "l = 5" "?ws ! 5 = 0xffff" using v4 by (auto simp: mapped_v4_def)
  then show ?thesis
  proof cases
    case six
    then have t6: "take 6 ?ws = replicate 6 0" using zs by simp
    have ws: "?ws = replicate 6 0 @ [w6, w7]" using append_take_drop_id [of 6 ?ws] unfolding t6 d6 by (rule sym)
    have "ntop6_words src (0, l) ?ws 0 [] = Ret (Inr (''::'' @ dotted ?q))"
      unfolding ws by (rule ntop6_mapped(1) [OF _ _ d4]) (use six in simp_all)
    moreover have "inet_pton6 (''::'' @ dotted ?q) = Ret (Some src)"
      using pton6_mapped(1) [OF q] src unfolding t6 bytes_of_zeros by simp
    ultimately have "v6_text src (''::'' @ dotted ?q)" using dl best six by (simp add: v6_text_def)
    then show ?thesis ..
  next
    case five
    then have t5: "take 5 ?ws = replicate 5 0" using zs by simp
    have t6: "take 6 ?ws = replicate 5 0 @ [0xffff]" using take_Suc_conv_app_nth [of 5 ?ws] t5 five(2) w(1) by simp
    have ws: "?ws = replicate 5 0 @ [0xffff, w6, w7]" using append_take_drop_id [of 6 ?ws] unfolding t6 d6 by simp
    have "ntop6_words src (0, l) (replicate 5 0 @ [0xffff, w6, w7]) 0 [] = Ret (Inr (''::'' @ hex_str 0xffff @ '':'' @ dotted ?q))"
      by (rule ntop6_mapped(2) [OF _ _ d4]) (use five in simp_all)
    then have "ntop6_words src (0, l) ?ws 0 [] = Ret (Inr (''::'' @ hex_str 0xffff @ '':'' @ dotted ?q))" unfolding ws .
    moreover have "inet_pton6 (''::'' @ hex_str 0xffff @ '':'' @ dotted ?q) = Ret (Some src)"
      using pton6_mapped(2) [OF q] src unfolding t6 bytes_of_simps bytes_of_zeros by simp
    ultimately have "v6_text src (''::'' @ hex_str 0xffff @ '':'' @ dotted ?q)" using dl best five(1) by (simp add: v6_text_def hex_ffff)
    then show ?thesis ..
  qed
qed

lemma v6_text_shortened:
  assumes ok: "addr_ok 16 src" and best: "best_run (words_of src) = (b, l)" and b: "b \<noteq> - 1" and v4: "\<not> mapped_v4 src (b, l)"
  shows "\<exists>t. v6_text src t"
proof -
  let ?ws = "words_of src"
  note w = words_of_ok [OF ok]
  from best_run_ok [OF best b] have r: "0 \<le> b" "2 \<le> l" "b + l \<le> 8" "\<And>k. b \<le> int k \<Longrightarrow> int k < b + l \<Longrightarrow> ?ws ! k = 0"
    using w(1) by auto
  define pre zs post where "pre = take (nat b) ?ws" and "zs = replicate (nat l) (0::nat)" and "post = drop (nat (b + l)) ?ws"
  have mid: "take (nat l) (drop (nat b) ?ws) = zs" by (rule nth_equalityI) (use r w(1) in \<open>auto simp: zs_def\<close>)
  have "drop (nat l) (drop (nat b) ?ws) = post" using r(1,2) by (simp add: post_def nat_add_distrib add.commute)
  then have split: "?ws = pre @ zs @ post" using append_take_drop_id [of "nat b" ?ws] append_take_drop_id [of "nat l" "drop (nat b) ?ws"]
    by (simp add: pre_def mid)
  have len: "length pre = nat b" "int (length zs) = l" "length post = 8 - nat (b + l)" using w(1) r by (simp_all add: pre_def zs_def post_def)
  have set: "\<forall>x \<in> set (pre @ post). x < 16 ^ 4" using w(2) split by auto
  have 8: "length pre + length post < 8" "16 - 2 * length pre - 2 * length post = 2 * nat l" using len r by linarith+
  have src: "src = bytes_of pre @ replicate (2 * nat l) 0 @ bytes_of post" using arg_cong [OF split, of bytes_of] w(3) by (simp add: zs_def bytes_of_zeros)
  let ?t = "joined pre @ ''::'' @ joined post"
  have words: "ntop6_words src (b, l) ?ws 0 [] = Ret (Inr (joined pre @ '':'' @ colon_words post))"
    unfolding split by (rule ntop6_shortened) (use r len v4 in simp_all)
  have "(if b \<noteq> - 1 \<and> b + l = 8 then (joined pre @ '':'' @ colon_words post) @ '':'' else joined pre @ '':'' @ colon_words post) = ?t"
  proof (cases "post = []")
    case True
    then have "b + l = 8" using len(3) r by simp
    with True b show ?thesis by (simp add: colon_words_def)
  next
    case False
    then have "b + l \<noteq> 8" using len(3) by auto
    with False show ?thesis by (simp add: colon_joined)
  qed
  moreover have "inet_pton6 ?t = Ret (Some src)" using pton6_shortened [OF set 8(1)] src 8(2) by simp
  moreover have "length ?t \<le> 40" using joined_length [of pre] joined_length [of post] set 8(1) by auto
  ultimately have "v6_text src ?t" using words best unfolding v6_text_def by (intro conjI exI) (assumption | simp)+
  then show ?thesis ..
qed

lemma v6_text_exists: "addr_ok 16 src \<Longrightarrow> \<exists>t. v6_text src t"
proof -
  assume ok: "addr_ok 16 src"
  obtain b l where best: "best_run (words_of src) = (b, l)" by (metis surj_pair)
  consider "b = - 1" | "b \<noteq> - 1" "mapped_v4 src (b, l)" | "b \<noteq> - 1" "\<not> mapped_v4 src (b, l)" by blast
  then show ?thesis
  proof cases
    case 1
    with v6_text_plain [OF ok] best show ?thesis by blast
  next
    case 2
    then have "b = 0" by (simp add: mapped_v4_def)
    with v6_text_mapped [OF ok] best 2 show ?thesis by blast
  next
    case 3
    with v6_text_shortened [OF ok best] show ?thesis by blast
  qed
qed

text \<open>
  C26. IPv4 text and addresses (\<^verbatim>\<open>inet_ntop4\<close>, \<^verbatim>\<open>inet_pton4\<close>): the parser always returns, touches no memory outside its array, and accepts a
  string exactly when it is the printed form of an address, which it then yields; printing needs at most 16 bytes and refuses a smaller buffer
  than the text and its terminator with \<^verbatim>\<open>AOSL_ENOSPC\<close>.
\<close>

theorem inet4_text_exact:
  assumes "addr_ok 4 q"
  shows "inet_ntop4 q sz = Ret (if sz \<le> int (length (dotted q)) then Inl AOSL_ENOSPC else Inr (dotted q)) \<and> length (dotted q) \<le> 15
    \<and> (\<forall>s. \<exists>r. inet_pton4 s = Ret r \<and> (r = Some q \<longleftrightarrow> s = dotted q) \<and> (\<forall>p. r = Some p \<longrightarrow> addr_ok 4 p))"
proof -
  note len = dotted_length [OF assms]
  have "\<exists>r. inet_pton4 s = Ret r \<and> (r = Some q \<longleftrightarrow> s = dotted q) \<and> (\<forall>p. r = Some p \<longrightarrow> addr_ok 4 p)" for s
  proof -
    from inet_pton4_total [of s] obtain r where r: "inet_pton4 s = Ret r"
      "\<forall>p. r = Some p \<longrightarrow> length p = 4 \<and> (\<forall>x \<in> set p. x < 256) \<and> s = dotted p" by blast
    have "r = Some q" if "s = dotted q" using pton4_dotted [of q] assms r(1) that by (simp add: addr_ok_def)
    moreover have "s = dotted q" if "r = Some q" using r(2) that by blast
    moreover have "addr_ok 4 p" if "r = Some p" for p using r(2) that by (simp add: addr_ok_def)
    ultimately show ?thesis using r(1) by blast
  qed
  moreover have "inet_ntop4 q sz = Ret (if sz \<le> int (length (dotted q)) then Inl AOSL_ENOSPC else Inr (dotted q))"
    using len by (simp add: inet_ntop4_def Let_def)
  ultimately show ?thesis using len by blast
qed

theorem inet4_text_exact_witness:
  "inet_ntop4 [192, 168, 0, 1] 16 = Ret (Inr (dotted [192, 168, 0, 1])) \<and> inet_pton4 (dotted [192, 168, 0, 1]) = Ret (Some [192, 168, 0, 1])"
  using inet4_text_exact [of "[192, 168, 0, 1]" 16] by (auto simp: addr_ok_def)

text \<open>
  C16. IPv6 text and addresses (\<^verbatim>\<open>inet_ntop6\<close>, \<^verbatim>\<open>inet_pton6\<close>): every address has a text of at most 40 characters, whichever run of zeros it shortens and
  whether or not it ends in a dotted quad; the printer writes it without overrunning its buffer of 46 bytes when the caller's
  buffer is large enough, and the parser reads exactly the address back.
\<close>

theorem inet6_roundtrip:
  assumes "addr_ok 16 src"
  shows "\<exists>t. length t \<le> 40 \<and> (\<forall>sz. inet_ntop6 src sz = Ret (if sz \<le> int (length t) then Inl AOSL_ENOSPC else Inr t)) \<and> inet_pton6 t = Ret (Some src)"
proof -
  from v6_text_exists [OF assms] obtain t where v: "v6_text src t" ..
  then obtain b l tmp where t: "length t \<le> 40" "inet_pton6 t = Ret (Some src)" "best_run (words_of src) = (b, l)"
    "ntop6_words src (b, l) (words_of src) 0 [] = Ret (Inr tmp)" "t = (if b \<noteq> - 1 \<and> b + l = 8 then tmp @ '':'' else tmp)"
    unfolding v6_text_def by blast
  have "inet_ntop6 src sz = Ret (if sz \<le> int (length t) then Inl AOSL_ENOSPC else Inr t)" for sz
    using t(1,3,4) unfolding inet_ntop6_def Let_def by (simp add: t(5) [symmetric])
  with t(1,2) show ?thesis by blast
qed

theorem inet6_roundtrip_witness:
  "\<exists>t. inet_ntop6 [0x20, 1, 0xd, 0xb8, 0, 0, 0, 0, 0, 0, 0, 0, 0, 0, 0, 1] 46 = Ret (Inr t)
     \<and> inet_pton6 t = Ret (Some [0x20, 1, 0xd, 0xb8, 0, 0, 0, 0, 0, 0, 0, 0, 0, 0, 0, 1])"
proof -
  define a :: "nat list" where "a = [0x20, 1, 0xd, 0xb8, 0, 0, 0, 0, 0, 0, 0, 0, 0, 0, 0, 1]"
  have "addr_ok 16 a" by (simp add: addr_ok_def a_def)
  from inet6_roundtrip [OF this] obtain t where "length t \<le> 40"
    "\<forall>sz. inet_ntop6 a sz = Ret (if sz \<le> int (length t) then Inl AOSL_ENOSPC else Inr t)" "inet_pton6 t = Ret (Some a)" by blast
  then have "inet_ntop6 a 46 = Ret (Inr t) \<and> inet_pton6 t = Ret (Some a)" by simp
  then show ?thesis unfolding a_def by blast
qed

end
