(* ===== verification/Rwlock.thy ===== *)
theory Rwlock
  imports Aosl_Prelude
begin

text \<open>
  The read-write lock: \<^verbatim>\<open>include/kernel/rwlock-generic.h\<close> and \<^verbatim>\<open>lib/rwlockimpl.c\<close>. The fast paths are single atomic operations on the
  count; the slow paths run under \<^verbatim>\<open>wait_lock\<close> but race with the fast paths of other threads, so every atomic operation on the count is a step of
  its own. What only the holder of \<^verbatim>\<open>wait_lock\<close> reads or writes (the list of waiters) changes together with the next
  operation on the count. A thread may wake up at any time, which covers the pulses of the events. The count is
  an integer: with fewer than \<open>2 ^ 30\<close> threads it stays far inside an \<^verbatim>\<open>intptr_t\<close> of 64 bits.
\<close>

subsection \<open>Data\<close>

definition RWLOCK_ACTIVE_MASK :: int where "RWLOCK_ACTIVE_MASK = 0xffffffff"
definition RWLOCK_UNLOCKED_VALUE :: int where "RWLOCK_UNLOCKED_VALUE = 0"
definition RWLOCK_ACTIVE_BIAS :: int where "RWLOCK_ACTIVE_BIAS = 1"
definition RWLOCK_WAITING_BIAS :: int where "RWLOCK_WAITING_BIAS = - (RWLOCK_ACTIVE_MASK + 1)"
definition RWLOCK_ACTIVE_READ_BIAS :: int where "RWLOCK_ACTIVE_READ_BIAS = RWLOCK_ACTIVE_BIAS"
definition RWLOCK_ACTIVE_WRITE_BIAS :: int where "RWLOCK_ACTIVE_WRITE_BIAS = RWLOCK_WAITING_BIAS + RWLOCK_ACTIVE_BIAS"

lemmas rwlock_biases = RWLOCK_ACTIVE_MASK_def RWLOCK_UNLOCKED_VALUE_def RWLOCK_ACTIVE_BIAS_def RWLOCK_WAITING_BIAS_def
  RWLOCK_ACTIVE_READ_BIAS_def RWLOCK_ACTIVE_WRITE_BIAS_def

text \<open>\<open>x & RWLOCK_ACTIVE_MASK\<close>\<close>

definition active_part :: "int \<Rightarrow> int" where
  "active_part x = x mod (RWLOCK_ACTIVE_MASK + 1)"

datatype rwlock_waiter_type = RWLOCK_WAITING_FOR_WRITE | RWLOCK_WAITING_FOR_READ

datatype rwlock_wake_type = RWLOCK_WAKE_ANY | RWLOCK_WAKE_READERS | RWLOCK_WAKE_READ_OWNED

text \<open>
  Where a thread is. In \<^verbatim>\<open>__rwlock_do_wake\<close> it is at the look at the first waiter, before the attempt to grant, before taking the attempt back, or
  before the grant with the adjustment made so far; and it knows its caller.
\<close>

datatype wake_stage = Wake_head | Wake_try | Wake_undo | Wake_grant int

datatype wake_caller = From_read | From_write int | From_unlock | From_downgrade

datatype rw_pc =
    Idle | Reading | Writing
  | Read_failed | Write_failed
  | Read_waiting | Write_locked int | Write_waiting
  | Unlock_wake | Downgrade_wake
  | Waking rwlock_wake_type wake_caller wake_stage

type_synonym tid = nat

text \<open>\<open>granted\<close>: the readers whose event pointer has been cleared and who have not gone on yet.\<close>

record k_raw_rwlock =
  rw_count :: int
  wait_lock :: "tid option"
  wait_list :: "(tid \<times> rwlock_waiter_type) list"
  granted :: "tid list"
  pc :: "tid \<Rightarrow> rw_pc"

definition rwlock_init :: k_raw_rwlock where
  "rwlock_init = \<lparr>rw_count = RWLOCK_UNLOCKED_VALUE, wait_lock = None, wait_list = [], granted = [], pc = (\<lambda>_. Idle)\<rparr>"

definition goto :: "tid \<Rightarrow> rw_pc \<Rightarrow> k_raw_rwlock \<Rightarrow> k_raw_rwlock" where
  "goto t l rw = rw\<lparr>pc := (pc rw)(t := l)\<rparr>"

definition rwlock_atomic_add :: "int \<Rightarrow> k_raw_rwlock \<Rightarrow> k_raw_rwlock" where
  "rwlock_atomic_add delta rw = rw\<lparr>rw_count := rw_count rw + delta\<rparr>"

subsection \<open>Fast paths\<close>

definition rwlock_rdlock :: "tid \<Rightarrow> k_raw_rwlock \<Rightarrow> k_raw_rwlock" where
  "rwlock_rdlock t rw = (let rw = rwlock_atomic_add 1 rw in goto t (if rw_count rw \<le> 0 then Read_failed else Reading) rw)"

definition rwlock_tryrdlock :: "tid \<Rightarrow> k_raw_rwlock \<Rightarrow> k_raw_rwlock" where
  "rwlock_tryrdlock t rw = (if 0 \<le> rw_count rw then goto t Reading (rwlock_atomic_add RWLOCK_ACTIVE_READ_BIAS rw) else rw)"

definition rwlock_wrlock :: "tid \<Rightarrow> k_raw_rwlock \<Rightarrow> k_raw_rwlock" where
  "rwlock_wrlock t rw = (let rw = rwlock_atomic_add RWLOCK_ACTIVE_WRITE_BIAS rw in
     goto t (if rw_count rw \<noteq> RWLOCK_ACTIVE_WRITE_BIAS then Write_failed else Writing) rw)"

definition rwlock_trywrlock :: "tid \<Rightarrow> k_raw_rwlock \<Rightarrow> k_raw_rwlock" where
  "rwlock_trywrlock t rw = (if rw_count rw = RWLOCK_UNLOCKED_VALUE then goto t Writing (rw\<lparr>rw_count := RWLOCK_ACTIVE_WRITE_BIAS\<rparr>) else rw)"

definition rwlock_rdunlock :: "tid \<Rightarrow> k_raw_rwlock \<Rightarrow> k_raw_rwlock" where
  "rwlock_rdunlock t rw = (let rw = rwlock_atomic_add (- 1) rw in
     goto t (if rw_count rw < - 1 \<and> active_part (rw_count rw) = 0 then Unlock_wake else Idle) rw)"

definition rwlock_wrunlock :: "tid \<Rightarrow> k_raw_rwlock \<Rightarrow> k_raw_rwlock" where
  "rwlock_wrunlock t rw = (let rw = rwlock_atomic_add (- RWLOCK_ACTIVE_WRITE_BIAS) rw in
     goto t (if rw_count rw < 0 then Unlock_wake else Idle) rw)"

definition rwlock_wr2rd_lock :: "tid \<Rightarrow> k_raw_rwlock \<Rightarrow> k_raw_rwlock" where
  "rwlock_wr2rd_lock t rw = (let rw = rwlock_atomic_add (- RWLOCK_WAITING_BIAS) rw in
     goto t (if rw_count rw < 0 then Downgrade_wake else Reading) rw)"

subsection \<open>Waking\<close>

text \<open>The caller goes on: only the writer keeps \<^verbatim>\<open>wait_lock\<close>.\<close>

definition wake_done :: "tid \<Rightarrow> wake_caller \<Rightarrow> k_raw_rwlock \<Rightarrow> k_raw_rwlock" where
  "wake_done t caller rw = (case caller of
       From_read \<Rightarrow> goto t Read_waiting (rw\<lparr>wait_lock := None\<rparr>)
     | From_write c \<Rightarrow> goto t (Write_locked c) rw
     | From_unlock \<Rightarrow> goto t Idle (rw\<lparr>wait_lock := None\<rparr>)
     | From_downgrade \<Rightarrow> goto t Reading (rw\<lparr>wait_lock := None\<rparr>))"

definition leading_readers :: "(tid \<times> rwlock_waiter_type) list \<Rightarrow> (tid \<times> rwlock_waiter_type) list" where
  "leading_readers ws = takeWhile (\<lambda>w. snd w = RWLOCK_WAITING_FOR_READ) ws"

definition rwlock_do_wake :: "tid \<Rightarrow> rwlock_wake_type \<Rightarrow> wake_caller \<Rightarrow> wake_stage \<Rightarrow> k_raw_rwlock \<Rightarrow> k_raw_rwlock" where
  "rwlock_do_wake t kind caller stage rw = (case stage of
       Wake_head \<Rightarrow>
         if snd (hd (wait_list rw)) = RWLOCK_WAITING_FOR_WRITE then wake_done t caller rw
         else if kind \<noteq> RWLOCK_WAKE_READ_OWNED then goto t (Waking kind caller Wake_try) rw
         else goto t (Waking kind caller (Wake_grant 0)) rw
     | Wake_try \<Rightarrow>
         let oldcount = rw_count rw; rw = rwlock_atomic_add RWLOCK_ACTIVE_READ_BIAS rw in
         if oldcount < RWLOCK_WAITING_BIAS then goto t (Waking kind caller Wake_undo) rw
         else goto t (Waking kind caller (Wake_grant RWLOCK_ACTIVE_READ_BIAS)) rw
     | Wake_undo \<Rightarrow>
         let rw = rwlock_atomic_add (- RWLOCK_ACTIVE_READ_BIAS) rw in
         if active_part (rw_count rw) \<noteq> 0 then wake_done t caller rw
         else goto t (Waking kind caller Wake_try) rw
     | Wake_grant adjustment \<Rightarrow>
         let readers = leading_readers (wait_list rw); woken = length readers;
             rest = drop woken (wait_list rw);
             adj = int woken * RWLOCK_ACTIVE_READ_BIAS - adjustment;
             adj = (if rest = [] then adj - RWLOCK_WAITING_BIAS else adj)
         in wake_done t caller ((rwlock_atomic_add adj rw)\<lparr>wait_list := rest, granted := map fst readers @ granted rw\<rparr>))"

subsection \<open>Slow paths\<close>

definition rwlock_read_lock_failed :: "tid \<Rightarrow> k_raw_rwlock \<Rightarrow> k_raw_rwlock" where
  "rwlock_read_lock_failed t rw =
     (let adjustment = - RWLOCK_ACTIVE_READ_BIAS + (if wait_list rw = [] then RWLOCK_WAITING_BIAS else 0);
          rw = rwlock_atomic_add adjustment (rw\<lparr>wait_list := wait_list rw @ [(t, RWLOCK_WAITING_FOR_READ)]\<rparr>);
          cnt = rw_count rw in
      if cnt = RWLOCK_WAITING_BIAS \<or> RWLOCK_WAITING_BIAS < cnt \<and> adjustment \<noteq> - RWLOCK_ACTIVE_READ_BIAS
      then goto t (Waking RWLOCK_WAKE_ANY From_read Wake_head) (rw\<lparr>wait_lock := Some t\<rparr>)
      else goto t Read_waiting rw)"

definition rwlock_write_lock_failed :: "tid \<Rightarrow> k_raw_rwlock \<Rightarrow> k_raw_rwlock" where
  "rwlock_write_lock_failed t rw =
     (let adjustment = - RWLOCK_ACTIVE_WRITE_BIAS + (if wait_list rw = [] then RWLOCK_WAITING_BIAS else 0);
          rw = rwlock_atomic_add adjustment (rw\<lparr>wait_list := wait_list rw @ [(t, RWLOCK_WAITING_FOR_WRITE)], wait_lock := Some t\<rparr>);
          cnt = rw_count rw in
      if RWLOCK_WAITING_BIAS < cnt \<and> adjustment = - RWLOCK_ACTIVE_WRITE_BIAS
      then goto t (Waking RWLOCK_WAKE_READERS (From_write cnt) Wake_head) rw
      else goto t (Write_locked cnt) rw)"

text \<open>One round of the writer's loop: it takes the lock, or gives up \<^verbatim>\<open>wait_lock\<close> and sleeps.\<close>

definition write_try :: "tid \<Rightarrow> int \<Rightarrow> k_raw_rwlock \<Rightarrow> k_raw_rwlock" where
  "write_try t cnt rw =
     (if active_part cnt = 0 \<and> rw_count rw = RWLOCK_WAITING_BIAS then
        goto t Writing (rw\<lparr>rw_count := RWLOCK_ACTIVE_WRITE_BIAS + (if length (wait_list rw) \<noteq> 1 then RWLOCK_WAITING_BIAS else 0),
          wait_list := remove1 (t, RWLOCK_WAITING_FOR_WRITE) (wait_list rw), wait_lock := None\<rparr>)
      else goto t Write_waiting (rw\<lparr>wait_lock := None\<rparr>))"

definition rwlock_wake :: "tid \<Rightarrow> k_raw_rwlock \<Rightarrow> k_raw_rwlock" where
  "rwlock_wake t rw = (if wait_list rw \<noteq> [] then goto t (Waking RWLOCK_WAKE_ANY From_unlock Wake_head) (rw\<lparr>wait_lock := Some t\<rparr>) else goto t Idle rw)"

definition rwlock_downgrade_wake :: "tid \<Rightarrow> k_raw_rwlock \<Rightarrow> k_raw_rwlock" where
  "rwlock_downgrade_wake t rw =
     (if wait_list rw \<noteq> [] then goto t (Waking RWLOCK_WAKE_READ_OWNED From_downgrade Wake_head) (rw\<lparr>wait_lock := Some t\<rparr>) else goto t Reading rw)"

subsection \<open>Interleavings\<close>

inductive rw_step :: "nat \<Rightarrow> k_raw_rwlock \<Rightarrow> k_raw_rwlock \<Rightarrow> bool" for n :: nat where
  rdlock: "t < n \<Longrightarrow> pc rw t = Idle \<Longrightarrow> rw_step n rw (rwlock_rdlock t rw)"
| tryrdlock: "t < n \<Longrightarrow> pc rw t = Idle \<Longrightarrow> rw_step n rw (rwlock_tryrdlock t rw)"
| wrlock: "t < n \<Longrightarrow> pc rw t = Idle \<Longrightarrow> rw_step n rw (rwlock_wrlock t rw)"
| trywrlock: "t < n \<Longrightarrow> pc rw t = Idle \<Longrightarrow> rw_step n rw (rwlock_trywrlock t rw)"
| rdunlock: "t < n \<Longrightarrow> pc rw t = Reading \<Longrightarrow> rw_step n rw (rwlock_rdunlock t rw)"
| wrunlock: "t < n \<Longrightarrow> pc rw t = Writing \<Longrightarrow> rw_step n rw (rwlock_wrunlock t rw)"
| wr2rd: "t < n \<Longrightarrow> pc rw t = Writing \<Longrightarrow> rw_step n rw (rwlock_wr2rd_lock t rw)"
| read_failed: "t < n \<Longrightarrow> pc rw t = Read_failed \<Longrightarrow> wait_lock rw = None \<Longrightarrow> rw_step n rw (rwlock_read_lock_failed t rw)"
| read_granted: "t < n \<Longrightarrow> pc rw t = Read_waiting \<Longrightarrow> t \<in> set (granted rw) \<Longrightarrow> rw_step n rw (goto t Reading (rw\<lparr>granted := remove1 t (granted rw)\<rparr>))"
| write_failed: "t < n \<Longrightarrow> pc rw t = Write_failed \<Longrightarrow> wait_lock rw = None \<Longrightarrow> rw_step n rw (rwlock_write_lock_failed t rw)"
| write_try: "t < n \<Longrightarrow> pc rw t = Write_locked cnt \<Longrightarrow> rw_step n rw (write_try t cnt rw)"
| write_again: "t < n \<Longrightarrow> pc rw t = Write_waiting \<Longrightarrow> wait_lock rw = None \<Longrightarrow> rw_step n rw (goto t (Write_locked (rw_count rw)) (rw\<lparr>wait_lock := Some t\<rparr>))"
| wake: "t < n \<Longrightarrow> pc rw t = Unlock_wake \<Longrightarrow> wait_lock rw = None \<Longrightarrow> rw_step n rw (rwlock_wake t rw)"
| downgrade: "t < n \<Longrightarrow> pc rw t = Downgrade_wake \<Longrightarrow> wait_lock rw = None \<Longrightarrow> rw_step n rw (rwlock_downgrade_wake t rw)"
| do_wake: "t < n \<Longrightarrow> pc rw t = Waking kind caller stage \<Longrightarrow> rw_step n rw (rwlock_do_wake t kind caller stage rw)"

inductive rw_reachable :: "nat \<Rightarrow> k_raw_rwlock \<Rightarrow> bool" for n :: nat where
  init: "rw_reachable n rwlock_init"
| step: "rw_reachable n rw \<Longrightarrow> rw_step n rw rw' \<Longrightarrow> rw_reachable n rw'"

subsection \<open>The invariant\<close>

text \<open>What a thread has added to the count.\<close>

fun rbias :: "rw_pc \<Rightarrow> int" where
  "rbias Reading = 1"
| "rbias Read_failed = 1"
| "rbias Downgrade_wake = 1"
| "rbias (Waking kind caller stage) = (case stage of Wake_undo \<Rightarrow> 1 | Wake_grant a \<Rightarrow> a | _ \<Rightarrow> 0) + (if caller = From_downgrade then 1 else 0)"
| "rbias _ = 0"

fun wbias :: "rw_pc \<Rightarrow> int" where
  "wbias Writing = 1"
| "wbias Write_failed = 1"
| "wbias _ = 0"

definition readers_in :: "nat \<Rightarrow> k_raw_rwlock \<Rightarrow> int" where
  "readers_in n rw = (\<Sum>t<n. rbias (pc rw t)) + int (length (granted rw))"

definition writers_in :: "nat \<Rightarrow> k_raw_rwlock \<Rightarrow> int" where
  "writers_in n rw = (\<Sum>t<n. wbias (pc rw t))"

definition queue_bias :: "k_raw_rwlock \<Rightarrow> int" where
  "queue_bias rw = (if wait_list rw \<noteq> [] then 2 ^ 32 else 0)"

definition count_inv :: "nat \<Rightarrow> k_raw_rwlock \<Rightarrow> bool" where
  "count_inv n rw \<longleftrightarrow> rw_count rw = readers_in n rw + writers_in n rw * (1 - 2 ^ 32) - queue_bias rw"

text \<open>Who is on the list of waiters or has been granted the lock from it.\<close>

fun write_queued :: "rw_pc \<Rightarrow> bool" where
  "write_queued (Write_locked c) = True"
| "write_queued Write_waiting = True"
| "write_queued (Waking kind caller stage) = (\<exists>c. caller = From_write c)"
| "write_queued _ = False"

fun read_queued :: "rw_pc \<Rightarrow> bool" where
  "read_queued Read_waiting = True"
| "read_queued (Waking kind caller stage) = (caller = From_read)"
| "read_queued _ = False"

definition queue_inv :: "nat \<Rightarrow> k_raw_rwlock \<Rightarrow> bool" where
  "queue_inv n rw \<longleftrightarrow> distinct (map fst (wait_list rw) @ granted rw) \<and> (\<forall>t \<in> set (granted rw). t < n \<and> read_queued (pc rw t))
     \<and> (\<forall>t k. (t, k) \<in> set (wait_list rw) \<longrightarrow> t < n \<and> (k = RWLOCK_WAITING_FOR_WRITE \<longrightarrow> write_queued (pc rw t)) \<and> (k = RWLOCK_WAITING_FOR_READ \<longrightarrow> read_queued (pc rw t)))
     \<and> (\<forall>t. write_queued (pc rw t) \<longrightarrow> (t, RWLOCK_WAITING_FOR_WRITE) \<in> set (wait_list rw))"

fun in_slow_path :: "rw_pc \<Rightarrow> bool" where
  "in_slow_path (Write_locked c) = True"
| "in_slow_path (Waking kind caller stage) = True"
| "in_slow_path _ = False"

fun stage_ok :: "(tid \<times> rwlock_waiter_type) list \<Rightarrow> rw_pc \<Rightarrow> bool" where
  "stage_ok ws (Waking kind caller stage) = (ws \<noteq> [] \<and> (stage \<noteq> Wake_head \<longrightarrow> snd (hd ws) = RWLOCK_WAITING_FOR_READ)
     \<and> (kind = RWLOCK_WAKE_READ_OWNED \<longleftrightarrow> caller = From_downgrade)
     \<and> (case stage of Wake_grant a \<Rightarrow> a = 1 \<or> a = 0 \<and> caller = From_downgrade | _ \<Rightarrow> True))"
| "stage_ok ws _ = True"

definition lock_inv :: "nat \<Rightarrow> k_raw_rwlock \<Rightarrow> bool" where
  "lock_inv n rw \<longleftrightarrow> (\<forall>t. in_slow_path (pc rw t) \<longrightarrow> wait_lock rw = Some t) \<and> (\<forall>t. stage_ok (wait_list rw) (pc rw t)) \<and> (\<forall>t \<ge> n. pc rw t = Idle)"

text \<open>Who may read: the holders, those about to be let in, and the thread that is letting readers in.\<close>

fun reads_pc :: "rw_pc \<Rightarrow> bool" where
  "reads_pc Reading = True"
| "reads_pc Downgrade_wake = True"
| "reads_pc (Waking kind caller stage) = (caller = From_downgrade \<or> (\<exists>a. stage = Wake_grant a))"
| "reads_pc _ = False"

definition holds_read :: "k_raw_rwlock \<Rightarrow> tid \<Rightarrow> bool" where
  "holds_read rw t \<longleftrightarrow> reads_pc (pc rw t) \<or> t \<in> set (granted rw)"

definition exclusion :: "k_raw_rwlock \<Rightarrow> bool" where
  "exclusion rw \<longleftrightarrow> (\<forall>t u. pc rw t = Writing \<longrightarrow> \<not> holds_read rw u \<and> (pc rw u = Writing \<longrightarrow> u = t))"

definition rw_inv :: "nat \<Rightarrow> k_raw_rwlock \<Rightarrow> bool" where
  "rw_inv n rw \<longleftrightarrow> count_inv n rw \<and> queue_inv n rw \<and> lock_inv n rw \<and> exclusion rw"

subsection \<open>What the count tells\<close>

lemma sum_upd: "t < (n :: nat) \<Longrightarrow> (\<Sum>i<n. f ((g(t := x)) i)) = (\<Sum>i<n. f (g i)) - f (g t) + (f x :: int)"
proof -
  assume t: "t < n"
  then have "(\<Sum>i<n. f ((g(t := x)) i)) = f x + (\<Sum>i \<in> {..<n} - {t}. f (g i))"
    by (subst sum.remove [of _ t]) (auto intro: sum.cong)
  moreover have "(\<Sum>i<n. f (g i)) = f (g t) + (\<Sum>i \<in> {..<n} - {t}. f (g i))" using t by (subst sum.remove [of _ t]) (auto intro: sum.cong)
  ultimately show ?thesis by simp
qed

lemma rbias_bounds: "stage_ok ws l \<Longrightarrow> 0 \<le> rbias l \<and> rbias l \<le> 2 \<and> (reads_pc l \<longrightarrow> 1 \<le> rbias l)"
  by (cases l) (auto split: wake_stage.splits)

lemma wbias_bounds: "0 \<le> wbias l \<and> wbias l \<le> 1"
  by (cases l) auto

lemma in_bounds:
  assumes "queue_inv n rw" "lock_inv n rw"
  shows "0 \<le> readers_in n rw" "readers_in n rw \<le> 3 * int n" "0 \<le> writers_in n rw" "writers_in n rw \<le> int n"
proof -
  have "set (granted rw) \<subseteq> {..<n}" "distinct (granted rw)" using assms(1) by (auto simp: queue_inv_def)
  then have g: "length (granted rw) \<le> n" by (metis card_lessThan card_mono distinct_card finite_lessThan)
  have b: "0 \<le> rbias (pc rw t)" "rbias (pc rw t) \<le> 2" for t using rbias_bounds [of "wait_list rw" "pc rw t"] assms(2) by (auto simp: lock_inv_def)
  have "(\<Sum>t<n. rbias (pc rw t)) \<le> (\<Sum>t<n. 2)" by (intro sum_mono) (simp add: b)
  then show "readers_in n rw \<le> 3 * int n" using g by (simp add: readers_in_def)
  show "0 \<le> readers_in n rw" using b by (simp add: readers_in_def sum_nonneg)
  show "0 \<le> writers_in n rw" using wbias_bounds by (simp add: writers_in_def sum_nonneg)
  have "(\<Sum>t<n. wbias (pc rw t)) \<le> (\<Sum>t<n. 1)" by (intro sum_mono) (simp add: wbias_bounds)
  then show "writers_in n rw \<le> int n" by (simp add: writers_in_def)
qed

lemma no_writers:
  assumes "writers_in n rw = 0" "lock_inv n rw"
  shows "pc rw t \<noteq> Writing"
proof
  assume w: "pc rw t = Writing"
  then have t: "t < n" using assms(2) by (metis lock_inv_def not_le rw_pc.distinct(3))
  have "wbias (pc rw t) \<le> (\<Sum>t<n. wbias (pc rw t))" by (rule member_le_sum) (use t wbias_bounds in auto)
  with w assms(1) show False by (simp add: writers_in_def)
qed

lemma no_readers:
  assumes "readers_in n rw = 0" "lock_inv n rw"
  shows "\<not> holds_read rw t"
proof -
  have b: "0 \<le> rbias (pc rw t)" "reads_pc (pc rw t) \<longrightarrow> 1 \<le> rbias (pc rw t)" for t
    using rbias_bounds [of "wait_list rw" "pc rw t"] assms(2) by (auto simp: lock_inv_def)
  have s: "0 \<le> (\<Sum>t<n. rbias (pc rw t))" using b by (simp add: sum_nonneg)
  then have "(\<Sum>t<n. rbias (pc rw t)) = 0" "length (granted rw) = 0" using assms(1) unfolding readers_in_def by linarith+
  then have 0: "(\<Sum>t<n. rbias (pc rw t)) = 0" "granted rw = []" by simp_all
  have "\<not> reads_pc (pc rw t)"
  proof
    assume r: "reads_pc (pc rw t)"
    then have t: "t < n" using assms(2) by (metis lock_inv_def not_le reads_pc.simps(4))
    have "rbias (pc rw t) \<le> (\<Sum>t<n. rbias (pc rw t))" by (rule member_le_sum) (use t b in auto)
    with r b(2) 0 show False by fastforce
  qed
  with 0 show ?thesis by (simp add: holds_read_def)
qed

lemma not_negative_no_writers:
  assumes inv: "rw_inv n rw" and n: "n < 2 ^ 30" and c: "0 \<le> rw_count rw + queue_bias rw"
  shows "pc rw t \<noteq> Writing"
proof (rule no_writers)
  note b = in_bounds [of n rw]
  have i: "queue_inv n rw" "lock_inv n rw" "count_inv n rw" using inv by (simp_all add: rw_inv_def)
  have "0 \<le> readers_in n rw + writers_in n rw * (1 - 2 ^ 32)" using i(3) c by (simp add: count_inv_def)
  moreover have "readers_in n rw < 2 ^ 32 - 1" using b(2) [OF i(1,2)] n by simp
  ultimately have "writers_in n rw < 1" by auto
  with b(3) [OF i(1,2)] show "writers_in n rw = 0" by simp
  show "lock_inv n rw" by (rule i(2))
qed

lemma inactive_nobody:
  assumes inv: "rw_inv n rw" and n: "n < 2 ^ 30" and c: "active_part (rw_count rw) = 0"
  shows "pc rw t \<noteq> Writing" "\<not> holds_read rw t"
proof -
  note b = in_bounds [of n rw]
  have i: "queue_inv n rw" "lock_inv n rw" "count_inv n rw" using inv by (simp_all add: rw_inv_def)
  let ?k = "readers_in n rw + writers_in n rw"
  have eq: "rw_count rw = ?k + 2 ^ 32 * (- writers_in n rw - (if wait_list rw \<noteq> [] then 1 else 0))"
    using i(3) by (cases "wait_list rw = []") (simp_all add: count_inv_def queue_bias_def algebra_simps)
  have "rw_count rw mod 2 ^ 32 = ?k mod 2 ^ 32" by (simp only: eq mod_mult_self2)
  then have "?k mod 2 ^ 32 = 0" using c by (simp add: active_part_def rwlock_biases)
  moreover have "0 \<le> ?k" "?k < 2 ^ 32" using b [OF i(1,2)] n by simp_all
  ultimately have "?k = 0" by (metis mod_pos_pos_trivial)
  then have "readers_in n rw = 0" "writers_in n rw = 0" using b [OF i(1,2)] by simp_all
  with no_writers [OF _ i(2)] no_readers [OF _ i(2)] show "pc rw t \<noteq> Writing" "\<not> holds_read rw t" by blast+
qed

subsection \<open>Preservation\<close>

text \<open>One thread moves; each part of the invariant has its own condition.\<close>

lemma count_step:
  assumes "count_inv n rw" "t < n" "pc rw' = (pc rw)(t := l)"
    and "rw_count rw' - rw_count rw = rbias l - rbias (pc rw t) + (int (length (granted rw')) - int (length (granted rw)))
      + (wbias l - wbias (pc rw t)) * (1 - 2 ^ 32) - (queue_bias rw' - queue_bias rw)"
  shows "count_inv n rw'"
proof -
  have "readers_in n rw' = readers_in n rw + rbias l - rbias (pc rw t) + (int (length (granted rw')) - int (length (granted rw)))"
    using sum_upd [OF assms(2), of rbias "pc rw" l] by (simp add: readers_in_def assms(3))
  moreover have "writers_in n rw' = writers_in n rw + (wbias l - wbias (pc rw t))"
    using sum_upd [OF assms(2), of wbias "pc rw" l] by (simp add: writers_in_def assms(3))
  ultimately show ?thesis using assms(1,4) by (simp add: count_inv_def algebra_simps)
qed

lemma queue_step:
  assumes "queue_inv n rw" "pc rw' = (pc rw)(t := l)" "wait_list rw' = wait_list rw" "granted rw' = granted rw"
    and "read_queued l = read_queued (pc rw t)" "write_queued l = write_queued (pc rw t)"
  shows "queue_inv n rw'"
proof -
  have "read_queued (pc rw' u) = read_queued (pc rw u)" "write_queued (pc rw' u) = write_queued (pc rw u)" for u using assms(2,5,6) by simp_all
  with assms(1,3,4) show ?thesis unfolding queue_inv_def by simp
qed

lemma queue_join:
  assumes "queue_inv n rw" "t < n" "pc rw' = (pc rw)(t := l)" "wait_list rw' = wait_list rw @ [(t, k)]" "granted rw' = granted rw"
    and old: "\<not> read_queued (pc rw t)" "\<not> write_queued (pc rw t)"
    and new: "write_queued l \<longleftrightarrow> k = RWLOCK_WAITING_FOR_WRITE" "read_queued l \<longleftrightarrow> k = RWLOCK_WAITING_FOR_READ"
  shows "queue_inv n rw'"
proof -
  have all: "j = RWLOCK_WAITING_FOR_WRITE \<or> j = RWLOCK_WAITING_FOR_READ" for j by (cases j) simp_all
  have g: "t \<notin> set (granted rw)" using assms(1) old by (auto simp: queue_inv_def)
  have l: "(t, j) \<notin> set (wait_list rw)" for j using assms(1) old all [of j] unfolding queue_inv_def by blast
  then have l': "t \<notin> fst ` set (wait_list rw)" by auto
  have "distinct (map fst (wait_list rw') @ granted rw')" using assms(1,4,5) g l' by (auto simp: queue_inv_def)
  moreover have "u < n \<and> read_queued (pc rw' u)" if "u \<in> set (granted rw')" for u
    using assms(1,3,5) that g by (auto simp: queue_inv_def)
  moreover have "u < n \<and> (j = RWLOCK_WAITING_FOR_WRITE \<longrightarrow> write_queued (pc rw' u)) \<and> (j = RWLOCK_WAITING_FOR_READ \<longrightarrow> read_queued (pc rw' u))"
    if "(u, j) \<in> set (wait_list rw')" for u j
    using assms(1-4) new that l by (cases "u = t") (auto simp: queue_inv_def)
  moreover have "(u, RWLOCK_WAITING_FOR_WRITE) \<in> set (wait_list rw')" if "write_queued (pc rw' u)" for u
    using assms(1,3,4) new that by (cases "u = t") (auto simp: queue_inv_def)
  ultimately show ?thesis unfolding queue_inv_def by blast
qed

lemma lock_step:
  assumes "lock_inv n rw" "t < n" "pc rw' = (pc rw)(t := l)"
    and "wait_lock rw = None \<or> wait_lock rw = Some t \<or> wait_lock rw' = wait_lock rw \<and> wait_list rw' = wait_list rw"
    and "in_slow_path l \<longrightarrow> wait_lock rw' = Some t" "stage_ok (wait_list rw') l"
  shows "lock_inv n rw'"
proof -
  have "(in_slow_path (pc rw' u) \<longrightarrow> wait_lock rw' = Some u) \<and> stage_ok (wait_list rw') (pc rw' u)" for u
  proof (cases "u = t")
    case False
    then have u: "pc rw' u = pc rw u" "in_slow_path (pc rw u) \<longrightarrow> wait_lock rw = Some u" "stage_ok (wait_list rw) (pc rw u)"
      using assms(1,3) by (simp_all add: lock_inv_def)
    show ?thesis
    proof (cases "in_slow_path (pc rw u)")
      case True
      with u False assms(4) show ?thesis by auto
    next
      case no: False
      then have "stage_ok ws (pc rw u)" for ws by (cases "pc rw u") auto
      with no u show ?thesis by simp
    qed
  qed (use assms in simp)
  moreover have "pc rw' u = Idle" if "n \<le> u" for u using assms(1-3) that by (simp add: lock_inv_def)
  ultimately show ?thesis by (simp add: lock_inv_def)
qed

lemma excl_keep:
  assumes "exclusion rw" "pc rw' = (pc rw)(t := l)" "l \<noteq> Writing" "\<And>u. holds_read rw' u \<Longrightarrow> \<exists>v. holds_read rw v"
  shows "exclusion rw'"
  using assms unfolding exclusion_def by (metis fun_upd_apply)

lemma excl_reader:
  assumes "\<And>u. pc rw u \<noteq> Writing" "pc rw' = (pc rw)(t := l)" "l \<noteq> Writing"
  shows "exclusion rw'"
  using assms by (simp add: exclusion_def)

lemma excl_writer:
  assumes "\<And>u. pc rw u \<noteq> Writing" "\<And>u. \<not> holds_read rw u" "pc rw' = (pc rw)(t := Writing)" "granted rw' = granted rw"
  shows "exclusion rw'"
  using assms by (auto simp: exclusion_def holds_read_def split: if_splits)

lemma holds_step: "pc rw' = (pc rw)(t := l) \<Longrightarrow> set (granted rw') \<subseteq> set (granted rw) \<Longrightarrow> reads_pc l \<Longrightarrow> holds_read rw t \<Longrightarrow> holds_read rw' u \<Longrightarrow> \<exists>v. holds_read rw v"
  by (auto simp: holds_read_def split: if_splits)

lemma holds_step_not: "pc rw' = (pc rw)(t := l) \<Longrightarrow> set (granted rw') \<subseteq> set (granted rw) \<Longrightarrow> \<not> reads_pc l \<Longrightarrow> holds_read rw' u \<Longrightarrow> \<exists>v. holds_read rw v"
  by (auto simp: holds_read_def split: if_splits)

lemmas rw_ops = goto_def rwlock_atomic_add_def queue_bias_def rwlock_biases

text \<open>A move that leaves the list of waiters and the grants alone.\<close>

lemma rw_inv_move:
  assumes inv: "rw_inv n rw" and t: "t < n" and pc': "pc rw' = (pc rw)(t := l)"
    and same: "wait_list rw' = wait_list rw" "granted rw' = granted rw"
    and q: "read_queued l = read_queued (pc rw t)" "write_queued l = write_queued (pc rw t)"
    and c: "rw_count rw' - rw_count rw = rbias l - rbias (pc rw t) + (wbias l - wbias (pc rw t)) * (1 - 2 ^ 32)"
    and lk: "wait_lock rw = None \<or> wait_lock rw = Some t \<or> wait_lock rw' = wait_lock rw" "in_slow_path l \<longrightarrow> wait_lock rw' = Some t" "stage_ok (wait_list rw) l"
    and ex: "exclusion rw'"
  shows "rw_inv n rw'"
proof -
  have i: "count_inv n rw" "queue_inv n rw" "lock_inv n rw" using inv by (simp_all add: rw_inv_def)
  have "count_inv n rw'" by (rule count_step [OF i(1) t pc']) (use c same in \<open>simp add: queue_bias_def\<close>)
  moreover have "queue_inv n rw'" by (rule queue_step [OF i(2) pc' same q])
  moreover have "lock_inv n rw'" by (rule lock_step [OF i(3) t pc']) (use lk same in auto)
  ultimately show ?thesis using ex by (simp add: rw_inv_def)
qed

lemma inv_excl: "rw_inv n rw \<Longrightarrow> exclusion rw"
  by (simp add: rw_inv_def)

lemma inv_lock: "rw_inv n rw \<Longrightarrow> in_slow_path (pc rw t) \<Longrightarrow> wait_lock rw = Some t"
  by (simp add: rw_inv_def lock_inv_def)

lemma inv_stage: "rw_inv n rw \<Longrightarrow> stage_ok (wait_list rw) (pc rw t)"
  by (simp add: rw_inv_def lock_inv_def)

lemma queue_bias_nonneg: "0 \<le> queue_bias rw"
  by (simp add: queue_bias_def)

lemma inv_rdlock:
  assumes "rw_inv n rw" "n < 2 ^ 30" "t < n" "pc rw t = Idle"
  shows "rw_inv n (rwlock_rdlock t rw)"
proof -
  let ?l = "if rw_count rw + 1 \<le> 0 then Read_failed else Reading" and ?rw = "rwlock_rdlock t rw"
  have p: "pc ?rw = (pc rw)(t := ?l)" by (simp add: rwlock_rdlock_def rw_ops Let_def)
  have "exclusion ?rw"
  proof (cases "rw_count rw + 1 \<le> 0")
    case True
    then show ?thesis by (intro excl_keep [OF inv_excl [OF assms(1)] p])
      (auto simp: rwlock_rdlock_def rw_ops holds_read_def split: if_splits)
  next
    case False
    have "pc rw u \<noteq> Writing" for u by (rule not_negative_no_writers [OF assms(1,2)]) (use False queue_bias_nonneg [of rw] in linarith)
    with False show ?thesis by (intro excl_reader [OF _ p]) simp_all
  qed
  then show ?thesis by (intro rw_inv_move [OF assms(1,3) p]) (use assms(4) in \<open>simp_all add: rwlock_rdlock_def rw_ops Let_def\<close>)
qed

lemma inv_tryrdlock:
  assumes "rw_inv n rw" "n < 2 ^ 30" "t < n" "pc rw t = Idle"
  shows "rw_inv n (rwlock_tryrdlock t rw)"
proof (cases "0 \<le> rw_count rw")
  case True
  let ?rw = "rwlock_tryrdlock t rw"
  have p: "pc ?rw = (pc rw)(t := Reading)" using True by (simp add: rwlock_tryrdlock_def rw_ops)
  have "pc rw u \<noteq> Writing" for u by (rule not_negative_no_writers [OF assms(1,2)]) (use True queue_bias_nonneg [of rw] in linarith)
  then have "exclusion ?rw" by (intro excl_reader [OF _ p]) simp_all
  then show ?thesis by (intro rw_inv_move [OF assms(1,3) p]) (use assms(4) True in \<open>simp_all add: rwlock_tryrdlock_def rw_ops\<close>)
qed (use assms in \<open>simp add: rwlock_tryrdlock_def\<close>)

lemma inv_wrlock:
  assumes "rw_inv n rw" "n < 2 ^ 30" "t < n" "pc rw t = Idle"
  shows "rw_inv n (rwlock_wrlock t rw)"
proof -
  let ?l = "if rw_count rw = 0 then Writing else Write_failed" and ?rw = "rwlock_wrlock t rw"
  have p: "pc ?rw = (pc rw)(t := ?l)" by (simp add: rwlock_wrlock_def rw_ops Let_def)
  have "exclusion ?rw"
  proof (cases "rw_count rw = 0")
    case True
    note no = inactive_nobody [OF assms(1,2)]
    show ?thesis by (rule excl_writer [of rw _ t]) (use no True p in \<open>simp_all add: active_part_def rwlock_wrlock_def rw_ops Let_def\<close>)
  next
    case False
    then show ?thesis by (intro excl_keep [OF inv_excl [OF assms(1)] p])
      (auto simp: rwlock_wrlock_def rw_ops holds_read_def split: if_splits)
  qed
  then show ?thesis by (intro rw_inv_move [OF assms(1,3) p]) (use assms(4) in \<open>simp_all add: rwlock_wrlock_def rw_ops Let_def\<close>)
qed

lemma inv_trywrlock:
  assumes "rw_inv n rw" "n < 2 ^ 30" "t < n" "pc rw t = Idle"
  shows "rw_inv n (rwlock_trywrlock t rw)"
proof (cases "rw_count rw = 0")
  case True
  let ?rw = "rwlock_trywrlock t rw"
  have p: "pc ?rw = (pc rw)(t := Writing)" using True by (simp add: rwlock_trywrlock_def rw_ops)
  note no = inactive_nobody [OF assms(1,2)]
  have "exclusion ?rw" by (rule excl_writer [of rw _ t]) (use no True p in \<open>simp_all add: active_part_def rwlock_trywrlock_def rw_ops\<close>)
  then show ?thesis by (intro rw_inv_move [OF assms(1,3) p]) (use assms(4) True in \<open>simp_all add: rwlock_trywrlock_def rw_ops\<close>)
qed (use assms in \<open>simp add: rwlock_trywrlock_def rwlock_biases\<close>)

lemma inv_rdunlock:
  assumes "rw_inv n rw" "t < n" "pc rw t = Reading"
  shows "rw_inv n (rwlock_rdunlock t rw)"
proof -
  let ?l = "if rw_count rw - 1 < - 1 \<and> active_part (rw_count rw - 1) = 0 then Unlock_wake else Idle" and ?rw = "rwlock_rdunlock t rw"
  have p: "pc ?rw = (pc rw)(t := ?l)" by (simp add: rwlock_rdunlock_def rw_ops Let_def)
  have "exclusion ?rw" by (intro excl_keep [OF inv_excl [OF assms(1)] p]) (auto simp: rwlock_rdunlock_def rw_ops holds_read_def Let_def split: if_splits)
  then show ?thesis by (intro rw_inv_move [OF assms(1,2) p]) (use assms(3) in \<open>simp_all add: rwlock_rdunlock_def rw_ops Let_def\<close>)
qed

lemma inv_wrunlock:
  assumes "rw_inv n rw" "t < n" "pc rw t = Writing"
  shows "rw_inv n (rwlock_wrunlock t rw)"
proof -
  let ?l = "if rw_count rw - RWLOCK_ACTIVE_WRITE_BIAS < 0 then Unlock_wake else Idle" and ?rw = "rwlock_wrunlock t rw"
  have p: "pc ?rw = (pc rw)(t := ?l)" by (simp add: rwlock_wrunlock_def goto_def rwlock_atomic_add_def Let_def)
  have "exclusion ?rw" by (intro excl_keep [OF inv_excl [OF assms(1)] p]) (auto simp: rwlock_wrunlock_def rw_ops holds_read_def Let_def split: if_splits)
  then show ?thesis by (intro rw_inv_move [OF assms(1,2) p]) (use assms(3) in \<open>simp_all add: rwlock_wrunlock_def rw_ops Let_def\<close>)
qed

lemma inv_wr2rd:
  assumes "rw_inv n rw" "t < n" "pc rw t = Writing"
  shows "rw_inv n (rwlock_wr2rd_lock t rw)"
proof -
  let ?l = "if rw_count rw - RWLOCK_WAITING_BIAS < 0 then Downgrade_wake else Reading" and ?rw = "rwlock_wr2rd_lock t rw"
  have p: "pc ?rw = (pc rw)(t := ?l)" by (simp add: rwlock_wr2rd_lock_def goto_def rwlock_atomic_add_def Let_def)
  have "pc rw u = Writing \<longrightarrow> u = t" for u using inv_excl [OF assms(1)] assms(3) unfolding exclusion_def by blast
  then have "pc ?rw u \<noteq> Writing" for u unfolding p by (cases "u = t") auto
  then have "exclusion ?rw" unfolding exclusion_def by blast
  then show ?thesis by (intro rw_inv_move [OF assms(1,2) p]) (use assms(3) in \<open>simp_all add: rwlock_wr2rd_lock_def rw_ops Let_def\<close>)
qed

lemma inv_again:
  assumes "rw_inv n rw" "t < n" "pc rw t = Write_waiting" "wait_lock rw = None"
  shows "rw_inv n (goto t (Write_locked (rw_count rw)) (rw\<lparr>wait_lock := Some t\<rparr>))"
proof -
  let ?rw = "goto t (Write_locked (rw_count rw)) (rw\<lparr>wait_lock := Some t\<rparr>)"
  have p: "pc ?rw = (pc rw)(t := Write_locked (rw_count rw))" by (simp add: goto_def)
  have "exclusion ?rw" by (intro excl_keep [OF inv_excl [OF assms(1)] p]) (auto simp: goto_def holds_read_def split: if_splits)
  then show ?thesis by (intro rw_inv_move [OF assms(1,2) p]) (use assms(3,4) in \<open>simp_all add: goto_def\<close>)
qed

lemma inv_wake:
  assumes "rw_inv n rw" "t < n" "pc rw t = Unlock_wake" "wait_lock rw = None"
  shows "rw_inv n (rwlock_wake t rw)"
proof -
  let ?l = "if wait_list rw \<noteq> [] then Waking RWLOCK_WAKE_ANY From_unlock Wake_head else Idle" and ?rw = "rwlock_wake t rw"
  have p: "pc ?rw = (pc rw)(t := ?l)" by (simp add: rwlock_wake_def goto_def)
  have "exclusion ?rw" by (intro excl_keep [OF inv_excl [OF assms(1)] p]) (auto simp: rwlock_wake_def goto_def holds_read_def split: if_splits)
  then show ?thesis by (intro rw_inv_move [OF assms(1,2) p]) (use assms(3,4) in \<open>simp_all add: rwlock_wake_def goto_def\<close>)
qed

lemma inv_downgrade:
  assumes "rw_inv n rw" "t < n" "pc rw t = Downgrade_wake" "wait_lock rw = None"
  shows "rw_inv n (rwlock_downgrade_wake t rw)"
proof -
  let ?l = "if wait_list rw \<noteq> [] then Waking RWLOCK_WAKE_READ_OWNED From_downgrade Wake_head else Reading" and ?rw = "rwlock_downgrade_wake t rw"
  have p: "pc ?rw = (pc rw)(t := ?l)" by (simp add: rwlock_downgrade_wake_def goto_def)
  have h: "holds_read rw t" using assms(3) by (simp add: holds_read_def)
  then have "exclusion ?rw" by (intro excl_keep [OF inv_excl [OF assms(1)] p]) auto
  then show ?thesis by (intro rw_inv_move [OF assms(1,2) p]) (use assms(3,4) in \<open>simp_all add: rwlock_downgrade_wake_def goto_def\<close>)
qed

text \<open>A failed attempt becomes a place in the list of waiters.\<close>

lemma rw_inv_join:
  assumes inv: "rw_inv n rw" and t: "t < n" and pc': "pc rw' = (pc rw)(t := l)" and lk: "wait_lock rw = None"
    and wl: "wait_list rw' = wait_list rw @ [(t, k)]" "granted rw' = granted rw"
    and old: "\<not> read_queued (pc rw t)" "\<not> write_queued (pc rw t)"
    and new: "write_queued l \<longleftrightarrow> k = RWLOCK_WAITING_FOR_WRITE" "read_queued l \<longleftrightarrow> k = RWLOCK_WAITING_FOR_READ" "rbias l = 0" "wbias l = 0" "\<not> reads_pc l"
    and c: "rw_count rw' - rw_count rw = - rbias (pc rw t) - wbias (pc rw t) * (1 - 2 ^ 32) - (if wait_list rw = [] then 2 ^ 32 else 0)"
    and sl: "in_slow_path l \<longrightarrow> wait_lock rw' = Some t" "stage_ok (wait_list rw') l"
  shows "rw_inv n rw'"
proof -
  have i: "count_inv n rw" "queue_inv n rw" "lock_inv n rw" "exclusion rw" using inv by (simp_all add: rw_inv_def)
  have "count_inv n rw'" by (rule count_step [OF i(1) t pc']) (use c new wl in \<open>simp add: queue_bias_def\<close>)
  moreover have "queue_inv n rw'" by (rule queue_join [OF i(2) t pc' wl old new(1,2)])
  moreover have "lock_inv n rw'" by (rule lock_step [OF i(3) t pc']) (use lk sl in auto)
  moreover have "l \<noteq> Writing" using new(4) by auto
  then have "exclusion rw'" by (rule excl_keep [OF i(4) pc']) (rule holds_step_not [OF pc' _ new(5)], use wl in auto)
  ultimately show ?thesis by (simp add: rw_inv_def)
qed

lemma read_failed_form:
  obtains l where "rwlock_read_lock_failed t rw = rw\<lparr>rw_count := rw_count rw - 1 - (if wait_list rw = [] then 2 ^ 32 else 0),
      wait_list := wait_list rw @ [(t, RWLOCK_WAITING_FOR_READ)], wait_lock := (if l = Read_waiting then wait_lock rw else Some t), pc := (pc rw)(t := l)\<rparr>"
    "l = Waking RWLOCK_WAKE_ANY From_read Wake_head \<or> l = Read_waiting"
proof -
  let ?c = "rw_count rw - 1 - (if wait_list rw = [] then 2 ^ 32 else 0)"
  let ?l = "if ?c = - (2 ^ 32) \<or> - (2 ^ 32) < ?c \<and> wait_list rw = [] then Waking RWLOCK_WAKE_ANY From_read Wake_head else Read_waiting"
  show thesis
  proof (rule that [of ?l])
    show "rwlock_read_lock_failed t rw = rw\<lparr>rw_count := ?c, wait_list := wait_list rw @ [(t, RWLOCK_WAITING_FOR_READ)],
        wait_lock := (if ?l = Read_waiting then wait_lock rw else Some t), pc := (pc rw)(t := ?l)\<rparr>"
      by (cases "wait_list rw = []") (auto simp: rwlock_read_lock_failed_def Let_def rw_ops)
  qed simp
qed

lemma write_failed_form:
  obtains l c where "rwlock_write_lock_failed t rw = rw\<lparr>rw_count := rw_count rw + (2 ^ 32 - 1) - (if wait_list rw = [] then 2 ^ 32 else 0),
      wait_list := wait_list rw @ [(t, RWLOCK_WAITING_FOR_WRITE)], wait_lock := Some t, pc := (pc rw)(t := l)\<rparr>"
    "l = Waking RWLOCK_WAKE_READERS (From_write c) Wake_head \<or> l = Write_locked c"
proof -
  let ?a = "- RWLOCK_ACTIVE_WRITE_BIAS + (if wait_list rw = [] then RWLOCK_WAITING_BIAS else 0)"
  define rw1 where "rw1 = rwlock_atomic_add ?a (rw\<lparr>wait_list := wait_list rw @ [(t, RWLOCK_WAITING_FOR_WRITE)], wait_lock := Some t\<rparr>)"
  define c where "c = rw_count rw1"
  define l where "l = (if RWLOCK_WAITING_BIAS < c \<and> ?a = - RWLOCK_ACTIVE_WRITE_BIAS then Waking RWLOCK_WAKE_READERS (From_write c) Wake_head else Write_locked c)"
  have "rwlock_write_lock_failed t rw = goto t l rw1" unfolding rwlock_write_lock_failed_def Let_def l_def c_def rw1_def by (rule if_distrib [symmetric, where f = "\<lambda>l. goto t l _"])
  also have "\<dots> = rw\<lparr>rw_count := rw_count rw + (2 ^ 32 - 1) - (if wait_list rw = [] then 2 ^ 32 else 0),
      wait_list := wait_list rw @ [(t, RWLOCK_WAITING_FOR_WRITE)], wait_lock := Some t, pc := (pc rw)(t := l)\<rparr>"
    by (simp add: goto_def rw1_def rwlock_atomic_add_def rwlock_biases)
  finally show thesis by (rule that [of l c]) (simp add: l_def)
qed

lemma inv_read_failed:
  assumes "rw_inv n rw" "t < n" "pc rw t = Read_failed" "wait_lock rw = None"
  shows "rw_inv n (rwlock_read_lock_failed t rw)"
proof -
  from read_failed_form [of t rw] obtain l where
    f: "rwlock_read_lock_failed t rw = rw\<lparr>rw_count := rw_count rw - 1 - (if wait_list rw = [] then 2 ^ 32 else 0),
      wait_list := wait_list rw @ [(t, RWLOCK_WAITING_FOR_READ)], wait_lock := (if l = Read_waiting then wait_lock rw else Some t), pc := (pc rw)(t := l)\<rparr>"
    and l: "l = Waking RWLOCK_WAKE_ANY From_read Wake_head \<or> l = Read_waiting" .
  show ?thesis unfolding f by (rule rw_inv_join [OF assms(1,2) _ assms(4), of _ l RWLOCK_WAITING_FOR_READ]) (use l assms(3) in auto)
qed

lemma inv_write_failed:
  assumes "rw_inv n rw" "t < n" "pc rw t = Write_failed" "wait_lock rw = None"
  shows "rw_inv n (rwlock_write_lock_failed t rw)"
proof -
  from write_failed_form [of t rw] obtain l c where
    f: "rwlock_write_lock_failed t rw = rw\<lparr>rw_count := rw_count rw + (2 ^ 32 - 1) - (if wait_list rw = [] then 2 ^ 32 else 0),
      wait_list := wait_list rw @ [(t, RWLOCK_WAITING_FOR_WRITE)], wait_lock := Some t, pc := (pc rw)(t := l)\<rparr>"
    and l: "l = Waking RWLOCK_WAKE_READERS (From_write c) Wake_head \<or> l = Write_locked c" .
  show ?thesis unfolding f by (rule rw_inv_join [OF assms(1,2) _ assms(4), of _ l RWLOCK_WAITING_FOR_WRITE]) (use l assms(3) in auto)
qed

lemma queue_leave:
  assumes "queue_inv n rw" "pc rw' = (pc rw)(t := l)" "\<not> read_queued l" "\<not> write_queued l"
    and "distinct (map fst (wait_list rw') @ granted rw')" "set (granted rw') \<subseteq> set (granted rw) - {t}"
    and "set (wait_list rw') \<subseteq> set (wait_list rw)" "\<And>j. (t, j) \<notin> set (wait_list rw')" "\<And>u. u \<noteq> t \<Longrightarrow> (u, RWLOCK_WAITING_FOR_WRITE) \<in> set (wait_list rw) \<Longrightarrow> (u, RWLOCK_WAITING_FOR_WRITE) \<in> set (wait_list rw')"
  shows "queue_inv n rw'"
proof -
  have "u < n \<and> read_queued (pc rw' u)" if "u \<in> set (granted rw')" for u
    using assms(1,2,6) that by (cases "u = t") (auto simp: queue_inv_def)
  moreover have "u < n \<and> (j = RWLOCK_WAITING_FOR_WRITE \<longrightarrow> write_queued (pc rw' u)) \<and> (j = RWLOCK_WAITING_FOR_READ \<longrightarrow> read_queued (pc rw' u))"
    if "(u, j) \<in> set (wait_list rw')" for u j
  proof (cases "u = t")
    case False
    moreover have "(u, j) \<in> set (wait_list rw)" using that assms(7) by blast
    ultimately show ?thesis using assms(1,2) by (simp add: queue_inv_def)
  qed (use that assms(8) in simp)
  moreover have "(u, RWLOCK_WAITING_FOR_WRITE) \<in> set (wait_list rw')" if "write_queued (pc rw' u)" for u
    using assms(1,2,4,9) that by (cases "u = t") (auto simp: queue_inv_def)
  ultimately show ?thesis using assms(5) unfolding queue_inv_def by blast
qed

lemma inv_granted:
  assumes inv: "rw_inv n rw" and t: "t < n" "pc rw t = Read_waiting" "t \<in> set (granted rw)"
  shows "rw_inv n (goto t Reading (rw\<lparr>granted := remove1 t (granted rw)\<rparr>))"
proof -
  let ?rw = "goto t Reading (rw\<lparr>granted := remove1 t (granted rw)\<rparr>)"
  have i: "count_inv n rw" "queue_inv n rw" "lock_inv n rw" "exclusion rw" using inv by (simp_all add: rw_inv_def)
  have p: "pc ?rw = (pc rw)(t := Reading)" by (simp add: goto_def)
  have len: "int (length (granted rw)) = int (length (remove1 t (granted rw))) + 1"
    using t(3) by (simp add: length_remove1) (metis Suc_pred length_pos_if_in_set of_nat_Suc add.commute)
  have "count_inv n ?rw" by (rule count_step [OF i(1) t(1) p]) (use t(2) len in \<open>simp add: goto_def queue_bias_def\<close>)
  moreover have "queue_inv n ?rw"
    by (rule queue_leave [OF i(2) p]) (use i(2) t(3) in \<open>auto simp: goto_def queue_inv_def distinct_remove1 set_remove1_eq\<close>)
  moreover have "lock_inv n ?rw" by (rule lock_step [OF i(3) t(1) p]) (simp_all add: goto_def)
  moreover have "exclusion ?rw" by (rule excl_keep [OF i(4) p]) (use t(3) in \<open>auto simp: holds_read_def\<close>)
  ultimately show ?thesis by (simp add: rw_inv_def)
qed

lemma distinct_fst_remove1: "distinct (map fst xs) \<Longrightarrow> distinct (map fst (remove1 x xs))"
  by (auto simp: distinct_map distinct_remove1 intro: inj_on_subset)

lemma inv_write_try:
  assumes inv: "rw_inv n rw" and n: "n < 2 ^ 30" and t: "t < n" "pc rw t = Write_locked cnt"
  shows "rw_inv n (write_try t cnt rw)"
proof (cases "active_part cnt = 0 \<and> rw_count rw = RWLOCK_WAITING_BIAS")
  case True
  let ?rw = "write_try t cnt rw" and ?wl = "remove1 (t, RWLOCK_WAITING_FOR_WRITE) (wait_list rw)"
  have i: "count_inv n rw" "queue_inv n rw" "lock_inv n rw" using inv by (simp_all add: rw_inv_def)
  have p: "pc ?rw = (pc rw)(t := Writing)" "granted ?rw = granted rw" "wait_list ?rw = ?wl" using True by (simp_all add: write_try_def goto_def)
  have m: "(t, RWLOCK_WAITING_FOR_WRITE) \<in> set (wait_list rw)" using i(2) t(2) by (simp add: queue_inv_def)
  have d: "distinct (map fst (wait_list rw))" "distinct (wait_list rw)" using i(2) by (auto simp: queue_inv_def distinct_map)
  have e2: "wait_list rw \<noteq> []" using m by auto
  have "length ?wl = length (wait_list rw) - 1" using m by (simp add: length_remove1)
  then have e: "?wl = [] \<longleftrightarrow> length (wait_list rw) = 1" using e2 unfolding length_0_conv [symmetric] by (cases "wait_list rw") simp_all
  have sub: "set ?wl = set (wait_list rw) - {(t, RWLOCK_WAITING_FOR_WRITE)}" by (rule set_remove1_eq [OF d(2)])
  have only: "(t, j) \<notin> set ?wl" for j
  proof
    assume "(t, j) \<in> set ?wl"
    then have "(t, j) \<in> set (wait_list rw)" "j \<noteq> RWLOCK_WAITING_FOR_WRITE" unfolding sub by auto
    with eq_key_imp_eq_value [OF d(1) m] show False by blast
  qed
  have c: "rw_count ?rw = RWLOCK_ACTIVE_WRITE_BIAS + (if length (wait_list rw) \<noteq> 1 then RWLOCK_WAITING_BIAS else 0)" using True by (simp add: write_try_def goto_def)
  have "count_inv n ?rw" by (rule count_step [OF i(1) t(1) p(1)]) (use t(2) True c p(2,3) e e2 in \<open>simp add: queue_bias_def rwlock_biases\<close>)
  moreover have "queue_inv n ?rw"
  proof (rule queue_leave [OF i(2) p(1)])
    show "distinct (map fst (wait_list ?rw) @ granted ?rw)"
    proof -
      have "fst ` set ?wl \<subseteq> fst ` set (wait_list rw)" unfolding sub by blast
      moreover have "fst ` set (wait_list rw) \<inter> set (granted rw) = {}" "distinct (granted rw)" using i(2) by (auto simp: queue_inv_def)
      ultimately have "set (map fst ?wl) \<inter> set (granted rw) = {}" unfolding set_map by blast
      with distinct_fst_remove1 [OF d(1), of "(t, RWLOCK_WAITING_FOR_WRITE)"] \<open>distinct (granted rw)\<close> show ?thesis
        unfolding p(2,3) distinct_append by blast
    qed
    show "set (granted ?rw) \<subseteq> set (granted rw) - {t}" using i(2) m unfolding p(2) queue_inv_def by force
    show "(t, j) \<notin> set (wait_list ?rw)" for j unfolding p(3) by (rule only)
    show "set (wait_list ?rw) \<subseteq> set (wait_list rw)" unfolding p(3) by (rule set_remove1_subset)
    show "(u, RWLOCK_WAITING_FOR_WRITE) \<in> set (wait_list ?rw)" if "u \<noteq> t" "(u, RWLOCK_WAITING_FOR_WRITE) \<in> set (wait_list rw)" for u
      using that unfolding p(3) sub by simp
  qed simp_all
  moreover have "lock_inv n ?rw" by (rule lock_step [OF i(3) t(1) p(1)]) (use inv_lock [OF inv, of t] t(2) in simp_all)
  moreover have "exclusion ?rw"
  proof -
    have "active_part (rw_count rw) = 0" using True by (simp add: active_part_def rwlock_biases)
    note no = inactive_nobody [OF inv n this]
    show ?thesis by (rule excl_writer [OF no p(1,2)])
  qed
  ultimately show ?thesis by (simp add: rw_inv_def)
next
  case False
  then have f: "write_try t cnt rw = goto t Write_waiting (rw\<lparr>wait_lock := None\<rparr>)" (is "_ = ?rw") unfolding write_try_def by (rule if_not_P)
  have p: "pc ?rw = (pc rw)(t := Write_waiting)" by (simp add: goto_def)
  have "exclusion ?rw" by (intro excl_keep [OF inv_excl [OF inv] p]) (auto simp: goto_def holds_read_def split: if_splits)
  then show ?thesis unfolding f by (intro rw_inv_move [OF inv t(1) p]) (use t(2) inv_lock [OF inv, of t] in \<open>simp_all add: goto_def\<close>)
qed

text \<open>The stages of waking.\<close>

fun after_wake :: "wake_caller \<Rightarrow> rw_pc" where
  "after_wake From_read = Read_waiting"
| "after_wake (From_write c) = Write_locked c"
| "after_wake From_unlock = Idle"
| "after_wake From_downgrade = Reading"

lemma wake_done_form:
  "wake_done t caller rw = rw\<lparr>wait_lock := (case caller of From_write c \<Rightarrow> wait_lock rw | _ \<Rightarrow> None), pc := (pc rw)(t := after_wake caller)\<rparr>"
  by (cases caller) (simp_all add: wake_done_def goto_def)

lemma after_wake_props [simp]:
  "rbias (after_wake caller) = (if caller = From_downgrade then 1 else 0)" "wbias (after_wake caller) = 0" "after_wake caller \<noteq> Writing"
  "read_queued (after_wake caller) \<longleftrightarrow> caller = From_read" "write_queued (after_wake caller) \<longleftrightarrow> (\<exists>c. caller = From_write c)"
  "reads_pc (after_wake caller) \<longleftrightarrow> caller = From_downgrade" "stage_ok ws (after_wake caller)" "in_slow_path (after_wake caller) \<longleftrightarrow> (\<exists>c. caller = From_write c)"
  by (cases caller; simp)+

text \<open>A stage that leaves the waiters alone.\<close>

lemma inv_wake_move:
  assumes inv: "rw_inv n rw" and t: "t < n" "pc rw t = Waking kind caller stage" and pc': "pc rw' = (pc rw)(t := l)"
    and same: "wait_list rw' = wait_list rw" "granted rw' = granted rw" and "l \<noteq> Writing" "wbias l = 0"
    and "read_queued l \<longleftrightarrow> caller = From_read" "write_queued l \<longleftrightarrow> (\<exists>c. caller = From_write c)" "in_slow_path l \<longrightarrow> wait_lock rw' = Some t" "stage_ok (wait_list rw) l"
    and "rw_count rw' - rw_count rw = rbias l - rbias (pc rw t)" and "reads_pc l \<longrightarrow> caller = From_downgrade \<or> (\<forall>u. pc rw u \<noteq> Writing)"
  shows "rw_inv n rw'"
proof (rule rw_inv_move [OF inv t(1) pc' same])
  show "exclusion rw'"
  proof (cases "reads_pc l \<and> caller \<noteq> From_downgrade")
    case True
    then have "\<And>u. pc rw u \<noteq> Writing" using assms(14) by blast
    then show ?thesis by (rule excl_reader [OF _ pc' assms(7)])
  next
    case False
    have "\<exists>v. holds_read rw v" if "holds_read rw' u" for u
    proof (cases "reads_pc l")
      case True
      with False have "holds_read rw t" using t(2) by (simp add: holds_read_def)
      then show ?thesis by blast
    next
      case no: False
      show ?thesis by (rule holds_step_not [OF pc' _ no that]) (simp add: same)
    qed
    then show ?thesis by (rule excl_keep [OF inv_excl [OF inv] pc' assms(7)])
  qed
  show "wait_lock rw = None \<or> wait_lock rw = Some t \<or> wait_lock rw' = wait_lock rw" using inv_lock [OF inv, of t] t(2) by simp
qed (use assms in simp_all)

lemma inv_wake_try:
  assumes inv: "rw_inv n rw" and n: "n < 2 ^ 30" and t: "t < n" "pc rw t = Waking kind caller Wake_try"
  shows "rw_inv n (rwlock_do_wake t kind caller Wake_try rw)"
proof -
  let ?l = "Waking kind caller (if rw_count rw < RWLOCK_WAITING_BIAS then Wake_undo else Wake_grant 1)"
  have f: "rwlock_do_wake t kind caller Wake_try rw = goto t ?l (rwlock_atomic_add 1 rw)" by (simp add: rwlock_do_wake_def Let_def RWLOCK_ACTIVE_READ_BIAS_def RWLOCK_ACTIVE_BIAS_def)
  have st: "stage_ok (wait_list rw) (Waking kind caller Wake_try)" using inv_stage [OF inv, of t] t(2) by simp
  have "pc rw u \<noteq> Writing" if "\<not> rw_count rw < RWLOCK_WAITING_BIAS" for u
    by (rule not_negative_no_writers [OF inv n]) (use that st in \<open>simp add: queue_bias_def rwlock_biases\<close>)
  then show ?thesis unfolding f using inv_lock [OF inv, of t] t(2) st
    by (intro inv_wake_move [OF inv t, of _ ?l]) (auto simp: goto_def rwlock_atomic_add_def)
qed

lemma inv_wake_undo:
  assumes inv: "rw_inv n rw" and t: "t < n" "pc rw t = Waking kind caller Wake_undo"
  shows "rw_inv n (rwlock_do_wake t kind caller Wake_undo rw)"
proof -
  let ?rw = "rwlock_atomic_add (- 1) rw"
  have f: "rwlock_do_wake t kind caller Wake_undo rw = (if active_part (rw_count rw - 1) \<noteq> 0 then wake_done t caller ?rw else goto t (Waking kind caller Wake_try) ?rw)"
    by (simp add: rwlock_do_wake_def Let_def RWLOCK_ACTIVE_READ_BIAS_def RWLOCK_ACTIVE_BIAS_def rwlock_atomic_add_def)
  have st: "stage_ok (wait_list rw) (Waking kind caller Wake_undo)" using inv_stage [OF inv, of t] t(2) by simp
  have lk: "wait_lock rw = Some t" using inv_lock [OF inv, of t] t(2) by simp
  have "rw_inv n (wake_done t caller ?rw)" unfolding wake_done_form
    by (rule inv_wake_move [OF inv t, of _ "after_wake caller"]) (use lk t(2) in \<open>auto simp: rwlock_atomic_add_def\<close>)
  moreover have "rw_inv n (goto t (Waking kind caller Wake_try) ?rw)"
    by (rule inv_wake_move [OF inv t, of _ "Waking kind caller Wake_try"]) (use lk t(2) st in \<open>auto simp: goto_def rwlock_atomic_add_def\<close>)
  ultimately show ?thesis by (simp add: f)
qed

lemma inv_wake_head:
  assumes inv: "rw_inv n rw" and t: "t < n" "pc rw t = Waking kind caller Wake_head"
  shows "rw_inv n (rwlock_do_wake t kind caller Wake_head rw)"
proof -
  have st: "stage_ok (wait_list rw) (Waking kind caller Wake_head)" using inv_stage [OF inv, of t] t(2) by simp
  have lk: "wait_lock rw = Some t" using inv_lock [OF inv, of t] t(2) by simp
  have two: "snd x = RWLOCK_WAITING_FOR_WRITE \<or> snd x = RWLOCK_WAITING_FOR_READ" for x :: "nat \<times> rwlock_waiter_type" by (cases "snd x") simp_all
  have "rw_inv n (wake_done t caller rw)" unfolding wake_done_form
    by (rule inv_wake_move [OF inv t, of _ "after_wake caller"]) (use lk t(2) in auto)
  moreover have "rw_inv n (goto t (Waking kind caller Wake_try) rw)" if "snd (hd (wait_list rw)) = RWLOCK_WAITING_FOR_READ"
    by (rule inv_wake_move [OF inv t, of _ "Waking kind caller Wake_try"]) (use that lk t(2) st in \<open>auto simp: goto_def\<close>)
  moreover have "rw_inv n (goto t (Waking kind caller (Wake_grant 0)) rw)" if "snd (hd (wait_list rw)) = RWLOCK_WAITING_FOR_READ" "kind = RWLOCK_WAKE_READ_OWNED"
    by (rule inv_wake_move [OF inv t, of _ "Waking kind caller (Wake_grant 0)"]) (use that lk t(2) st in \<open>auto simp: goto_def\<close>)
  ultimately show ?thesis using two [of "hd (wait_list rw)"] by (auto simp: rwlock_do_wake_def)
qed

lemma inv_wake_grant:
  assumes inv: "rw_inv n rw" and t: "t < n" "pc rw t = Waking kind caller (Wake_grant a)"
  shows "rw_inv n (rwlock_do_wake t kind caller (Wake_grant a) rw)"
proof -
  let ?rw' = "rwlock_do_wake t kind caller (Wake_grant a) rw"
  define rs where "rs = leading_readers (wait_list rw)"
  define rest where "rest = drop (length rs) (wait_list rw)"
  have split: "wait_list rw = rs @ rest"
    unfolding rs_def rest_def leading_readers_def by (metis takeWhile_dropWhile_id append_eq_conv_conj)
  have rs: "\<forall>x \<in> set rs. snd x = RWLOCK_WAITING_FOR_READ" unfolding rs_def leading_readers_def by (auto dest: set_takeWhileD)
  have i: "count_inv n rw" "queue_inv n rw" "lock_inv n rw" "exclusion rw" using inv by (simp_all add: rw_inv_def)
  have st: "wait_list rw \<noteq> []" using inv_stage [OF inv, of t] t(2) by simp
  have f: "rw_count ?rw' = rw_count rw + int (length rs) - a + (if rest = [] then 2 ^ 32 else 0)" "pc ?rw' = (pc rw)(t := after_wake caller)"
    "wait_list ?rw' = rest" "granted ?rw' = map fst rs @ granted rw" "(\<exists>c. caller = From_write c) \<longrightarrow> wait_lock ?rw' = wait_lock rw"
    by (auto simp: rwlock_do_wake_def wake_done_form Let_def rs_def rest_def rwlock_atomic_add_def rwlock_biases)
  have "count_inv n ?rw'" by (rule count_step [OF i(1) t(1) f(2)]) (use f(1,3,4) t(2) st in \<open>simp add: queue_bias_def\<close>)
  moreover have "queue_inv n ?rw'"
  proof -
    have q: "read_queued (pc ?rw' u) = read_queued (pc rw u)" "write_queued (pc ?rw' u) = write_queued (pc rw u)" for u using t(2) unfolding f(2) by simp_all
    have d: "distinct (map fst rest @ map fst rs @ granted rw)" using i(2) unfolding queue_inv_def split by auto
    moreover have "u < n \<and> read_queued (pc rw u)" if u: "u \<in> set (map fst rs @ granted rw)" for u
    proof (cases "u \<in> set (granted rw)")
      case True
      then show ?thesis using i(2) by (simp add: queue_inv_def)
    next
      case False
      then obtain k where k: "(u, k) \<in> set rs" using u by auto
      then have "k = RWLOCK_WAITING_FOR_READ" "(u, k) \<in> set (wait_list rw)" using rs split by auto
      then show ?thesis using i(2) unfolding queue_inv_def by blast
    qed
    moreover have "(u, RWLOCK_WAITING_FOR_WRITE) \<in> set rest" if "write_queued (pc rw u)" for u
    proof -
      have "(u, RWLOCK_WAITING_FOR_WRITE) \<in> set (wait_list rw)" using i(2) that by (simp add: queue_inv_def)
      moreover have "(u, RWLOCK_WAITING_FOR_WRITE) \<notin> set rs" using rs by force
      ultimately show ?thesis using split by auto
    qed
    moreover have "(u, k) \<in> set (wait_list rw)" if "(u, k) \<in> set rest" for u k using that split by simp
    ultimately show ?thesis using i(2) unfolding queue_inv_def q f(3,4) by blast
  qed
  moreover have "lock_inv n ?rw'" by (rule lock_step [OF i(3) t(1) f(2)]) (use inv_lock [OF inv, of t] t(2) f(5) in auto)
  moreover have "exclusion ?rw'"
  proof (rule excl_reader [OF _ f(2)])
    have "holds_read rw t" using t(2) by (simp add: holds_read_def)
    then show "pc rw u \<noteq> Writing" for u using i(4) unfolding exclusion_def by blast
  qed simp
  ultimately show ?thesis by (simp add: rw_inv_def)
qed

lemma rw_step_inv: "rw_step n rw rw' \<Longrightarrow> n < 2 ^ 30 \<Longrightarrow> rw_inv n rw \<Longrightarrow> rw_inv n rw'"
proof (induction rule: rw_step.induct)
  case (do_wake t rw kind caller stage)
  then show ?case by (cases stage) (simp_all add: inv_wake_head inv_wake_try inv_wake_undo inv_wake_grant)
qed (simp_all add: inv_rdlock inv_tryrdlock inv_wrlock inv_trywrlock inv_rdunlock inv_wrunlock inv_wr2rd inv_read_failed inv_granted
    inv_write_failed inv_write_try inv_again inv_wake inv_downgrade)

lemma rw_init_inv: "rw_inv n rwlock_init"
  by (simp add: rw_inv_def rwlock_init_def count_inv_def readers_in_def writers_in_def queue_bias_def RWLOCK_UNLOCKED_VALUE_def queue_inv_def lock_inv_def exclusion_def)

lemma rw_reachable_inv: "rw_reachable n rw \<Longrightarrow> n < 2 ^ 30 \<Longrightarrow> rw_inv n rw"
  by (induction rule: rw_reachable.induct) (auto intro: rw_init_inv rw_step_inv)

text \<open>
  C4. Mutual exclusion of the read-write lock, under every interleaving of the atomic operations of its fast and slow paths (fewer than
  \<open>2 ^ 30\<close> threads): while a thread has the lock for writing, no other has it for writing, none for reading, and none has been
  granted it from the list of waiters; the count never leaves the range of an \<^verbatim>\<open>intptr_t\<close>; and when every thread has left and nobody
  waits the count is the unlocked value again.
\<close>

theorem rwlock_excludes:
  assumes "n < 2 ^ 30" and "rw_reachable n rw"
  shows "(pc rw t = Writing \<longrightarrow> pc rw u \<noteq> Reading \<and> (pc rw u = Writing \<longrightarrow> u = t) \<and> granted rw = [])
    \<and> - (2 ^ 63) \<le> rw_count rw \<and> rw_count rw < 2 ^ 63
    \<and> ((\<forall>v. pc rw v = Idle) \<and> wait_list rw = [] \<and> granted rw = [] \<longrightarrow> rw_count rw = RWLOCK_UNLOCKED_VALUE)"
proof -
  note inv = rw_reachable_inv [OF assms(2,1)]
  then have i: "count_inv n rw" "queue_inv n rw" "lock_inv n rw" "exclusion rw" by (simp_all add: rw_inv_def)
  have "pc rw u \<noteq> Reading \<and> (pc rw u = Writing \<longrightarrow> u = t) \<and> granted rw = []" if "pc rw t = Writing"
  proof -
    have no: "\<not> holds_read rw v" for v using i(4) that unfolding exclusion_def by blast
    have "pc rw u \<noteq> Reading" using no [of u] by (auto simp: holds_read_def)
    moreover have "granted rw = []" using no by (cases "granted rw") (auto simp: holds_read_def)
    ultimately show ?thesis using i(4) that unfolding exclusion_def by blast
  qed
  moreover have "- (2 ^ 63) \<le> rw_count rw \<and> rw_count rw < 2 ^ 63"
    using in_bounds [OF i(2,3)] assms(1) i(1) by (auto simp: count_inv_def queue_bias_def)
  moreover have "rw_count rw = RWLOCK_UNLOCKED_VALUE" if "\<forall>v. pc rw v = Idle" "wait_list rw = []" "granted rw = []"
    using i(1) that by (simp add: count_inv_def readers_in_def writers_in_def queue_bias_def RWLOCK_UNLOCKED_VALUE_def)
  ultimately show ?thesis by blast
qed

theorem rwlock_excludes_witness:
  "\<exists>rw. rw_reachable 2 rw \<and> pc rw 0 = Writing \<and> pc rw 1 = Read_waiting \<and> granted rw = [] \<and> wait_list rw = [(1, RWLOCK_WAITING_FOR_READ)]"
proof -
  define rw1 where "rw1 = rwlock_wrlock 0 rwlock_init"
  define rw2 where "rw2 = rwlock_rdlock 1 rw1"
  define rw3 where "rw3 = rwlock_read_lock_failed 1 rw2"
  have "rw_step 2 rwlock_init rw1" unfolding rw1_def by (rule rw_step.wrlock) (simp_all add: rwlock_init_def)
  moreover have "rw_step 2 rw1 rw2" unfolding rw2_def by (rule rw_step.rdlock) (simp_all add: rw1_def rwlock_init_def rwlock_wrlock_def rw_ops Let_def)
  moreover have "rw_step 2 rw2 rw3" unfolding rw3_def
    by (rule rw_step.read_failed) (simp_all add: rw2_def rw1_def rwlock_init_def rwlock_wrlock_def rwlock_rdlock_def rw_ops Let_def)
  ultimately have r: "rw_reachable 2 rw3" by (blast intro: rw_reachable.intros)
  have "pc rw3 0 = Writing" "pc rw3 1 = Read_waiting" "wait_list rw3 = [(1, RWLOCK_WAITING_FOR_READ)]"
    by (simp_all add: rw3_def rw2_def rw1_def rwlock_init_def rwlock_wrlock_def rwlock_rdlock_def rwlock_read_lock_failed_def rw_ops Let_def)
  with rwlock_excludes [OF _ r, of 0 1] r show ?thesis by (intro exI [of _ rw3]) simp
qed

end
