(* ===== verification/Iofd.thy ===== *)
theory Iofd
  imports Mpq_Api
begin

text \<open>
  Descriptors on queues: \<^verbatim>\<open>kernel/fileobj.c\<close>, \<^verbatim>\<open>kernel/iofd.c\<close> and \<^verbatim>\<open>include/kernel/iofd.h\<close>. An \<^verbatim>\<open>iofd\<close> has a reference count, a read buffer that is cut into
  packets by a user function, and a queue of buffers that the socket did not take yet. The red-black tree of attached descriptors is
  a map from descriptors to objects. The user's functions and the socket are fields of the environment; a user function
  may do anything to the state, also close the descriptor it was called for. The functions that read and write only move bytes.
\<close>

subsection \<open>Data\<close>

text \<open>A buffer of the write queue: the bytes behind the node, and how many of them are sent (\<^verbatim>\<open>w_data\<close>).\<close>

record w_buffer =
  w_bytes :: bytes
  w_sent :: nat

record w_queue =
  w_nodes :: "w_buffer list"
  w_count :: u64
  w_total_len :: u64

record iofd =
  io_fd :: int
  io_usage :: u64
  io_life :: u32
  io_flags :: u32
  io_qid :: u64
  io_timer :: u32
  max_pkt_size :: nat
  r_buf :: bytes
  r_data :: nat
  r_tail :: nat
  r_extra_size :: nat
  io_wq :: w_queue
  read_f :: ptr
  write_f :: ptr
  chk_pkt_f :: ptr
  post_f :: ptr
  put_fd_f :: ptr
  io_data_f :: ptr
  event_f :: ptr
  io_argv :: "u64 list"

text \<open>
  What happens outside: bytes taken by the socket or got from it, packets and events given to the user, descriptors closed, timers killed; and the bytes that a call of the
  user's had accepted, which the histories of theory \<open>Iofd_Stream\<close> note.
\<close>

datatype io_event = Sent int bytes | Received int bytes | Packet int bytes | Event int int | Closed int | Timer_killed u32 | Fd_put int | Accepted int bytes

record io_sys =
  iofds :: "ptr \<rightharpoonup> iofd"
  attached_fds :: "int \<rightharpoonup> ptr"
  fobj_life_id :: u32
  q_iofds :: "u64 \<Rightarrow> ptr list"
  q_iofd_count :: "u64 \<Rightarrow> int"
  io_log :: "io_event list"
  io_errno :: int

record io_env =
  hal_read :: "int \<Rightarrow> nat \<Rightarrow> io_sys \<Rightarrow> int \<times> bytes"
  hal_write :: "int \<Rightarrow> bytes \<Rightarrow> io_sys \<Rightarrow> int"
  hal_close :: "int \<Rightarrow> io_sys \<Rightarrow> int"
  user_read :: "ptr \<Rightarrow> int \<Rightarrow> nat \<Rightarrow> io_sys \<Rightarrow> int \<times> bytes"
  user_write :: "ptr \<Rightarrow> int \<Rightarrow> bytes \<Rightarrow> io_sys \<Rightarrow> int"
  user_check :: "ptr \<Rightarrow> bytes \<Rightarrow> io_sys \<Rightarrow> (int \<times> io_sys) exec"
  user_post :: "ptr \<Rightarrow> bytes \<Rightarrow> io_sys \<Rightarrow> (int \<times> io_sys) exec"
  user_data :: "ptr \<Rightarrow> bytes \<Rightarrow> io_sys \<Rightarrow> io_sys exec"
  user_event :: "ptr \<Rightarrow> int \<Rightarrow> int \<Rightarrow> io_sys \<Rightarrow> io_sys exec"
  user_put_fd :: "ptr \<Rightarrow> int \<Rightarrow> io_sys \<Rightarrow> int"
  add_event :: "ptr \<Rightarrow> io_sys \<Rightarrow> int"
  oneshot_timer :: "ptr \<Rightarrow> io_sys \<Rightarrow> u32"

definition AOSL_EBADF :: int where [simp]: "AOSL_EBADF = AOSL_EBASE + 9"
definition AOSL_ENONET :: int where [simp]: "AOSL_ENONET = AOSL_EBASE + 64"
definition AOSL_ETIMEDOUT :: int where [simp]: "AOSL_ETIMEDOUT = AOSL_EBASE + 110"
definition AOSL_EINPROGRESS :: int where [simp]: "AOSL_EINPROGRESS = AOSL_EBASE + 115"
definition AOSL_EHAL :: int where [simp]: "AOSL_EHAL = AOSL_EBASE + 1000"
definition AOSL_HAL_RET_EAGAIN :: int where [simp]: "AOSL_HAL_RET_EAGAIN = - 2001"
definition AOSL_HAL_RET_EINTR :: int where [simp]: "AOSL_HAL_RET_EINTR = - 2002"
definition AOSL_HAL_RET_EINPROGRESS :: int where [simp]: "AOSL_HAL_RET_EINPROGRESS = - 2003"

definition AOSL_INVALID_FD :: int where "AOSL_INVALID_FD = - 1"
definition AOSL_POLLIN :: u32 where "AOSL_POLLIN = 1"
definition AOSL_POLLOUT :: u32 where "AOSL_POLLOUT = 2"
definition IOFD_NOT_READY :: u32 where "IOFD_NOT_READY = 256"
definition IOFD_SOCK_LISTEN :: u32 where "IOFD_SOCK_LISTEN = 512"
definition IOFD_READ_RETURN_0 :: u32 where "IOFD_READ_RETURN_0 = 1024"
definition IOFD_NO_INIT_READ :: u32 where "IOFD_NO_INIT_READ = 2048"
definition FD_MAX_PACKET_SIZE_MIN :: nat where "FD_MAX_PACKET_SIZE_MIN = 1024"
definition FD_MAX_PACKET_SIZE_MAX :: nat where "FD_MAX_PACKET_SIZE_MAX = 4194304"
definition FD_MAX_EXTRA_BYTES :: nat where "FD_MAX_EXTRA_BYTES = 4096"
definition FD_MAX_WBUF_SIZE :: nat where "FD_MAX_WBUF_SIZE = 131072"
definition MAX_LW_COPY_SIZE :: nat where "MAX_LW_COPY_SIZE = 96"
definition MIN_SYSCALL_SIZE :: nat where "MIN_SYSCALL_SIZE = 1024"
definition AOSL_IOFD_READY_FOR_WRITING :: int where "AOSL_IOFD_READY_FOR_WRITING = 1"
definition TIMER_INVALID :: u32 where "TIMER_INVALID = - 1"

definition aosl_fd_invalid :: "int \<Rightarrow> bool" where
  "aosl_fd_invalid fd \<longleftrightarrow> fd = AOSL_INVALID_FD"

definition timer_invalid :: "u32 \<Rightarrow> bool" where
  "timer_invalid t \<longleftrightarrow> sint (ucast t :: u16) < 0"

definition hal_error :: "int \<Rightarrow> int" where
  "hal_error err = (if err = AOSL_HAL_RET_EINTR then AOSL_EINTR else if err = AOSL_HAL_RET_EAGAIN then AOSL_EAGAIN
     else if err = AOSL_HAL_RET_EINPROGRESS then AOSL_EINPROGRESS else AOSL_EHAL)"

definition aosl_hal_set_error :: "int \<Rightarrow> io_sys \<Rightarrow> int \<times> io_sys" where
  "aosl_hal_set_error err s = (if err < 0 then (- hal_error err, s\<lparr>io_errno := hal_error err\<rparr>) else (0, s))"

definition iofd_at :: "ptr \<Rightarrow> io_sys \<Rightarrow> iofd exec" where
  "iofd_at p s = (case iofds s p of None \<Rightarrow> Fault | Some f \<Rightarrow> Ret f)"

definition upd_iofd :: "ptr \<Rightarrow> (iofd \<Rightarrow> iofd) \<Rightarrow> io_sys \<Rightarrow> io_sys exec" where
  "upd_iofd p g s = ebind (iofd_at p s) (\<lambda>f. Ret (s\<lparr>iofds := (iofds s)(p \<mapsto> g f)\<rparr>))"

definition log_io :: "io_event \<Rightarrow> io_sys \<Rightarrow> io_sys" where
  "log_io ev s = s\<lparr>io_log := io_log s @ [ev]\<rparr>"

definition set_flag :: "u32 \<Rightarrow> iofd \<Rightarrow> iofd" where
  "set_flag b f = f\<lparr>io_flags := io_flags f OR b\<rparr>"

definition clear_flag :: "u32 \<Rightarrow> iofd \<Rightarrow> iofd" where
  "clear_flag b f = f\<lparr>io_flags := io_flags f AND NOT b\<rparr>"

definition has_flag :: "u32 \<Rightarrow> iofd \<Rightarrow> bool" where
  "has_flag b f \<longleftrightarrow> io_flags f AND b \<noteq> 0"

subsection \<open>The table of descriptors\<close>

definition install_fd :: "int \<Rightarrow> ptr \<Rightarrow> io_sys \<Rightarrow> (int \<times> io_sys) exec" where
  "install_fd fd p s =
     (if aosl_fd_invalid fd then Ret (- AOSL_EBADF, s)
      else if attached_fds s fd \<noteq> None then Ret (- AOSL_EBUSY, s)
      else
        ebind (upd_iofd p (\<lambda>f. f\<lparr>io_life := fobj_life_id s\<rparr>) s) (\<lambda>s.
        ebind (iofd_at p s) (\<lambda>f.
        Ret (0, s\<lparr>fobj_life_id := fobj_life_id s + 1, attached_fds := (attached_fds s)(io_fd f \<mapsto> p)\<rparr>))))"

definition remove_fd :: "ptr \<Rightarrow> io_sys \<Rightarrow> (int \<times> io_sys) exec" where
  "remove_fd p s =
     ebind (iofd_at p s) (\<lambda>f.
     Ret (if attached_fds s (io_fd f) = Some p then 0 else - AOSL_ENONET, s\<lparr>attached_fds := (attached_fds s)(io_fd f := None)\<rparr>))"

definition iofd_hold :: "ptr \<Rightarrow> io_sys \<Rightarrow> io_sys exec" where
  "iofd_hold p s = upd_iofd p (\<lambda>f. f\<lparr>io_usage := io_usage f + 1\<rparr>) s"

definition iofd_get :: "int \<Rightarrow> io_sys \<Rightarrow> (ptr \<times> io_sys) exec" where
  "iofd_get fd s =
     (if aosl_fd_invalid fd then Ret (0, s)
      else (case attached_fds s fd of None \<Rightarrow> Ret (0, s) | Some p \<Rightarrow> ebind (iofd_hold p s) (\<lambda>s. Ret (p, s))))"

text \<open>The last reference runs \<^verbatim>\<open>iofd_destructor\<close>, which frees the write buffers, and frees the object.\<close>

definition iofd_put :: "ptr \<Rightarrow> io_sys \<Rightarrow> io_sys exec" where
  "iofd_put p s =
     ebind (iofd_at p s) (\<lambda>f.
     if io_usage f - 1 = 0 then Ret (s\<lparr>iofds := (iofds s)(p := None)\<rparr>)
     else Ret (s\<lparr>iofds := (iofds s)(p \<mapsto> f\<lparr>io_usage := io_usage f - 1\<rparr>)\<rparr>))"

subsection \<open>The queue of unsent buffers\<close>

definition w_queue_init :: w_queue where
  "w_queue_init = \<lparr>w_nodes = [], w_count = 0, w_total_len = 0\<rparr>"

definition w_queue_add :: "w_buffer \<Rightarrow> w_queue \<Rightarrow> w_queue" where
  "w_queue_add b q = \<lparr>w_nodes = w_nodes q @ [b], w_count = w_count q + 1, w_total_len = w_total_len q + of_nat (length (w_bytes b))\<rparr>"

definition w_queue_remove_head :: "w_queue \<Rightarrow> w_queue" where
  "w_queue_remove_head q = (case w_nodes q of
       [] \<Rightarrow> q
     | b # bs \<Rightarrow> \<lparr>w_nodes = bs, w_count = w_count q - 1, w_total_len = w_total_len q - of_nat (length (w_bytes b))\<rparr>)"

definition w_queue_space :: "w_queue \<Rightarrow> u64" where
  "w_queue_space q = (if w_total_len q < of_nat FD_MAX_WBUF_SIZE then of_nat FD_MAX_WBUF_SIZE - w_total_len q else 0)"

subsection \<open>Removing and closing\<close>

definition kill_timer :: "ptr \<Rightarrow> io_sys \<Rightarrow> io_sys exec" where
  "kill_timer p s =
     ebind (iofd_at p s) (\<lambda>f.
     if \<not> timer_invalid (io_timer f) then upd_iofd p (\<lambda>f. f\<lparr>io_timer := TIMER_INVALID\<rparr>) (log_io (Timer_killed (io_timer f)) s)
     else Ret s)"

text \<open>\<open>q\<close> is the identifier of the queue. The result of \<^verbatim>\<open>os_del_event_fd\<close> is only logged.\<close>

definition q_del_f :: "u64 \<Rightarrow> ptr \<Rightarrow> io_sys \<Rightarrow> (int \<times> io_sys) exec" where
  "q_del_f q p s =
     ebind (iofd_at p s) (\<lambda>f.
     if io_qid f \<noteq> q then Ret (- AOSL_EPERM, s)
     else
       ebind (kill_timer p s) (\<lambda>s.
       ebind (remove_fd p s) (\<lambda>(err, s).
       if err < 0 then Ret (err, s)
       else
         let s = s\<lparr>q_iofds := (q_iofds s)(q := remove1 p (q_iofds s q)), q_iofd_count := (q_iofd_count s)(q := q_iofd_count s q - 1)\<rparr> in
         ebind (iofd_put p s) (\<lambda>s. Ret (err, s)))))"

definition mpq_del_fd :: "u64 \<Rightarrow> int \<Rightarrow> io_sys \<Rightarrow> (int \<times> io_sys) exec" where
  "mpq_del_fd q fd s =
     ebind (iofd_get fd s) (\<lambda>(p, s).
     if p = 0 then Ret (- AOSL_ENOENT, s)
     else ebind (q_del_f q p s) (\<lambda>(err, s). ebind (iofd_put p s) (\<lambda>s. Ret (err, s))))"

definition close_fd :: "io_env \<Rightarrow> int \<Rightarrow> io_sys \<Rightarrow> int \<times> io_sys" where
  "close_fd e fd s = (let err = hal_close e fd s; s = log_io (Closed fd) s in if err < 0 then aosl_hal_set_error err s else (err, s))"

definition this_q_close_f :: "io_env \<Rightarrow> u64 \<Rightarrow> ptr \<Rightarrow> io_sys \<Rightarrow> (int \<times> io_sys) exec" where
  "this_q_close_f e q p s =
     ebind (iofd_at p s) (\<lambda>f. let fd = io_fd f in
     ebind (iofd_hold p s) (\<lambda>s.
     ebind (q_del_f q p s) (\<lambda>(err, s).
     if err < 0 then ebind (iofd_put p s) (\<lambda>s. Ret (err, s))
     else
       let (err, s) = (if put_fd_f f \<noteq> 0 then (user_put_fd e (put_fd_f f) fd s, log_io (Fd_put fd) s) else close_fd e fd s) in
       ebind (upd_iofd p (\<lambda>f. f\<lparr>io_fd := AOSL_INVALID_FD\<rparr>) s) (\<lambda>s.
       ebind (iofd_put p s) (\<lambda>s. Ret (err, s))))))"

definition f_event_and_close :: "io_env \<Rightarrow> u64 \<Rightarrow> ptr \<Rightarrow> int \<Rightarrow> io_sys \<Rightarrow> io_sys exec" where
  "f_event_and_close e q p iofd_err s =
     ebind (iofd_at p s) (\<lambda>f.
     if \<not> aosl_fd_invalid (io_fd f) then
       ebind (if event_f f \<noteq> 0 then user_event e (event_f f) (io_fd f) iofd_err (log_io (Event (io_fd f) iofd_err) s) else Ret s) (\<lambda>s.
       ebind (iofd_at p s) (\<lambda>f.
       if \<not> aosl_fd_invalid (io_fd f) then ebind (this_q_close_f e q p s) (\<lambda>(_, s). Ret s) else Ret s))
     else Ret s)"

text \<open>The loop of \<^verbatim>\<open>mpq_fini_iofds\<close> runs as long as the queue has descriptors.\<close>

fun fini_iofds_loop :: "nat \<Rightarrow> io_env \<Rightarrow> u64 \<Rightarrow> io_sys \<Rightarrow> io_sys exec" where
  "fini_iofds_loop 0 e q s = NoFuel"
| "fini_iofds_loop (Suc fuel) e q s = (case q_iofds s q of
       [] \<Rightarrow> Ret s
     | p # _ \<Rightarrow> ebind (this_q_close_f e q p s) (\<lambda>(_, s). fini_iofds_loop fuel e q s))"

definition mpq_fini_iofds :: "nat \<Rightarrow> io_env \<Rightarrow> u64 \<Rightarrow> io_sys \<Rightarrow> io_sys exec" where
  "mpq_fini_iofds fuel e q s = ebind (fini_iofds_loop fuel e q s) (\<lambda>s. Ret (s\<lparr>q_iofd_count := (q_iofd_count s)(q := 0)\<rparr>))"

definition mpq_init_iofds :: "u64 \<Rightarrow> io_sys \<Rightarrow> io_sys" where
  "mpq_init_iofds q s = s\<lparr>q_iofds := (q_iofds s)(q := []), q_iofd_count := (q_iofd_count s)(q := 0)\<rparr>"

subsection \<open>Writing\<close>

definition default_write :: "io_env \<Rightarrow> int \<Rightarrow> bytes \<Rightarrow> io_sys \<Rightarrow> int \<times> io_sys" where
  "default_write e fd buf s = (let err = hal_write e fd buf s in if err < 0 then aosl_hal_set_error err s else (err, s))"

definition sent :: "int \<Rightarrow> int \<Rightarrow> bytes \<Rightarrow> io_sys \<Rightarrow> io_sys" where
  "sent fd n buf s = (if 0 < n then log_io (Sent fd (take (nat n) buf)) s else s)"

text \<open>\<open>write_f\<close> is the default function or the user's.\<close>

definition AOSL_DEFAULT_FN :: ptr where "AOSL_DEFAULT_FN = 1"

definition call_write :: "io_env \<Rightarrow> iofd \<Rightarrow> bytes \<Rightarrow> io_sys \<Rightarrow> int \<times> io_sys" where
  "call_write e f buf s =
     (let (err, s) = (if write_f f = AOSL_DEFAULT_FN then default_write e (io_fd f) buf s else (user_write e (write_f f) (io_fd f) buf s, s))
      in (err, sent (io_fd f) err buf s))"

fun write_loop :: "nat \<Rightarrow> io_env \<Rightarrow> u64 \<Rightarrow> ptr \<Rightarrow> io_sys \<Rightarrow> (int \<times> io_sys) exec" where
  "write_loop 0 e q p s = NoFuel"
| "write_loop (Suc fuel) e q p s =
     ebind (iofd_at p s) (\<lambda>f.
     case w_nodes (io_wq f) of
       [] \<Rightarrow>
         if event_f f \<noteq> 0 then
           ebind (user_event e (event_f f) (io_fd f) AOSL_IOFD_READY_FOR_WRITING (log_io (Event (io_fd f) AOSL_IOFD_READY_FOR_WRITING) s)) (\<lambda>s. Ret (0, s))
         else Ret (0, s)
     | node # nodes \<Rightarrow>
         let (err, s) = call_write e f (drop (w_sent node) (w_bytes node)) s in
         ebind (upd_iofd p (set_flag AOSL_POLLOUT) s) (\<lambda>s.
         if err < 0 then
           (if err \<noteq> - AOSL_EAGAIN then ebind (f_event_and_close e q p err s) (\<lambda>s. Ret (err, s)) else Ret (0, s))
         else
           let node = node\<lparr>w_sent := w_sent node + nat err\<rparr> in
           ebind (upd_iofd p (\<lambda>f. f\<lparr>io_wq := (io_wq f)\<lparr>w_nodes := node # nodes\<rparr>\<rparr>) s) (\<lambda>s.
           if w_sent node < length (w_bytes node) then Ret (0, s)
           else ebind (upd_iofd p (\<lambda>f. f\<lparr>io_wq := w_queue_remove_head (io_wq f)\<rparr>) s) (write_loop fuel e q p))))"

definition iofd_write_data :: "nat \<Rightarrow> io_env \<Rightarrow> u64 \<Rightarrow> ptr \<Rightarrow> io_sys \<Rightarrow> (int \<times> io_sys) exec" where
  "iofd_write_data fuel e q p s =
     ebind (iofd_at p s) (\<lambda>f.
     ebind (if has_flag IOFD_NOT_READY f then ebind (upd_iofd p (clear_flag IOFD_NOT_READY) s) (kill_timer p) else Ret s) (\<lambda>s.
     write_loop fuel e q p s))"

text \<open>\<open>mem\<close>: whether the node can be allocated.\<close>

definition iofd_write :: "io_env \<Rightarrow> bool \<Rightarrow> ptr \<Rightarrow> bytes \<Rightarrow> io_sys \<Rightarrow> (int \<times> io_sys) exec" where
  "iofd_write e mem p buf s =
     ebind (iofd_at p s) (\<lambda>f. let len = length buf in
     if FD_MAX_WBUF_SIZE < len then Ret (- AOSL_EMSGSIZE, s)
     else if w_queue_space (io_wq f) < of_nat len then Ret (- AOSL_EAGAIN, s)
     else
       let queue = (\<lambda>n s. if \<not> mem then Ret (- AOSL_ENOMEM, s)
         else ebind (upd_iofd p (\<lambda>f. f\<lparr>io_wq := w_queue_add \<lparr>w_bytes = drop n buf, w_sent = 0\<rparr> (io_wq f)\<rparr>) s) (\<lambda>s. Ret (int len, s))) in
       if w_nodes (io_wq f) \<noteq> [] \<or> has_flag IOFD_NOT_READY f then queue 0 s
       else
         let err = hal_write e (io_fd f) buf s; s = sent (io_fd f) err buf s in
         ebind (upd_iofd p (set_flag AOSL_POLLOUT) s) (\<lambda>s.
         if err \<le> 0 then Ret (aosl_hal_set_error err s)
         else if nat err < len then queue (nat err) s
         else Ret (int len, s)))"

text \<open>
  \<^verbatim>\<open>aosl_write\<close>: the call on the queue of the descriptor, which another thread may have to run. \<open>on_queue\<close> is what \<^verbatim>\<open>__mpq_call_argv\<close> does: it fails
  with an error number or runs the given function. \<open>found_q\<close>: whether \<^verbatim>\<open>__mpq_get_or_this\<close> finds the queue.
\<close>

type_synonym on_queue = "(io_sys \<Rightarrow> (int \<times> io_sys) exec) \<Rightarrow> io_sys \<Rightarrow> (int + int \<times> io_sys) exec"

definition io_return_err :: "int \<times> io_sys \<Rightarrow> int \<times> io_sys" where
  "io_return_err r = (case r of (err, s) \<Rightarrow> if - 4095 \<le> err \<and> err < 0 then (- 1, s\<lparr>io_errno := - err\<rparr>) else (err, s))"

definition call_on_queue :: "on_queue \<Rightarrow> (io_sys \<Rightarrow> (int \<times> io_sys) exec) \<Rightarrow> io_sys \<Rightarrow> (int \<times> io_sys) exec" where
  "call_on_queue on_queue work s = ebind (on_queue work s) (\<lambda>r. case r of Inl errno \<Rightarrow> Ret (errno, s\<lparr>io_errno := errno\<rparr>) | Inr (err, s) \<Rightarrow> Ret (err, s))"

definition aosl_write :: "io_env \<Rightarrow> bool \<Rightarrow> on_queue \<Rightarrow> bool \<Rightarrow> int \<Rightarrow> bytes \<Rightarrow> io_sys \<Rightarrow> (int \<times> io_sys) exec" where
  "aosl_write e mem on_queue found_q fd buf s =
     ebind (iofd_get fd s) (\<lambda>(p, s).
     ebind (if p = 0 then Ret (- AOSL_EINVAL, s)
            else
              ebind (if found_q then call_on_queue on_queue (iofd_write e mem p buf) s else Ret (- AOSL_EINVAL, s)) (\<lambda>(err, s).
              ebind (iofd_put p s) (\<lambda>s. Ret (err, s)))) (\<lambda>r.
     Ret (io_return_err r)))"

subsection \<open>Reading\<close>

definition default_read :: "io_env \<Rightarrow> int \<Rightarrow> nat \<Rightarrow> io_sys \<Rightarrow> int \<times> bytes \<times> io_sys" where
  "default_read e fd len s = (let (err, data) = hal_read e fd len s in if err < 0 then let (err, s) = aosl_hal_set_error err s in (err, data, s) else (err, data, s))"

definition call_read :: "io_env \<Rightarrow> iofd \<Rightarrow> nat \<Rightarrow> io_sys \<Rightarrow> int \<times> bytes \<times> io_sys" where
  "call_read e f len s =
     (let (err, data, s) = (if read_f f = AOSL_DEFAULT_FN then default_read e (io_fd f) len s
            else let (err, data) = user_read e (read_f f) (io_fd f) len s in (err, data, s))
      in (err, data, if 0 < err then log_io (Received (io_fd f) data) s else s))"

definition buff_size :: "iofd \<Rightarrow> nat" where
  "buff_size f = (if chk_pkt_f f \<noteq> 0 then max_pkt_size f * 2 else max_pkt_size f)"

definition pending_len :: "iofd \<Rightarrow> int" where
  "pending_len f = int (r_tail f) - int (r_data f)"

definition unread :: "iofd \<Rightarrow> nat \<Rightarrow> bytes" where
  "unread f n = take n (drop (r_data f) (r_buf f))"

definition iofd_better_move_buffer :: "iofd \<Rightarrow> bool" where
  "iofd_better_move_buffer f \<longleftrightarrow> chk_pkt_f f = 0
     \<or> max_pkt_size f * 2 - r_tail f < MIN_SYSCALL_SIZE
     \<or> int (max_pkt_size f) < int (r_data f) \<and> pending_len f < int MIN_SYSCALL_SIZE
     \<or> pending_len f \<le> int MAX_LW_COPY_SIZE \<and> int (max_pkt_size f div 2) \<le> int (r_data f)"

definition move_buffer :: "iofd \<Rightarrow> iofd" where
  "move_buffer f = (let len = nat (pending_len f) in f\<lparr>r_buf := unread f len @ drop len (r_buf f), r_data := 0, r_tail := len\<rparr>)"

text \<open>How the inner loop ends: with the value that \<^verbatim>\<open>__iofd_read_data\<close> returns, or for more bytes.\<close>

datatype packets_end = Finished int | More_bytes

text \<open>After a user function: the descriptor may be closed, and then there is nothing more to do.\<close>

definition unless_closed :: "ptr \<Rightarrow> io_sys \<Rightarrow> (iofd \<Rightarrow> io_sys \<Rightarrow> (packets_end \<times> io_sys) exec) \<Rightarrow> (packets_end \<times> io_sys) exec" where
  "unless_closed p s rest = ebind (iofd_at p s) (\<lambda>f. if aosl_fd_invalid (io_fd f) then Ret (Finished 0, s) else rest f s)"

text \<open>A packet of \<open>err\<close> bytes is processed and given to the user; \<open>rest\<close> goes on behind it.\<close>

definition give_packet :: "io_env \<Rightarrow> ptr \<Rightarrow> int \<Rightarrow> io_sys \<Rightarrow> (io_sys \<Rightarrow> (packets_end \<times> io_sys) exec) \<Rightarrow> (packets_end \<times> io_sys) exec" where
  "give_packet e p err s rest =
     ebind (iofd_at p s) (\<lambda>f.
     let deliver = (\<lambda>data_len f s.
           if 0 \<le> data_len then
             ebind (user_data e (io_data_f f) (unread f (nat data_len)) (log_io (Packet (io_fd f) (unread f (nat data_len))) s)) (\<lambda>s.
             unless_closed p s (\<lambda>_ s. ebind (upd_iofd p (\<lambda>f. f\<lparr>r_data := r_data f + nat err\<rparr>) s) rest))
           else ebind (upd_iofd p (\<lambda>f. f\<lparr>r_data := r_data f + nat err\<rparr>) s) rest) in
     if post_f f \<noteq> 0 then ebind (user_post e (post_f f) (unread f (nat err)) s) (\<lambda>(data_len, s). unless_closed p s (deliver data_len))
     else deliver err f s)"

definition check_packet :: "io_env \<Rightarrow> u64 \<Rightarrow> ptr \<Rightarrow> io_sys \<Rightarrow> (int \<Rightarrow> io_sys \<Rightarrow> (packets_end \<times> io_sys) exec) \<Rightarrow> (packets_end \<times> io_sys) exec" where
  "check_packet e q p s rest =
     ebind (iofd_at p s) (\<lambda>f.
     if chk_pkt_f f \<noteq> 0 \<and> 0 < pending_len f then
       ebind (user_check e (chk_pkt_f f) (unread f (nat (pending_len f))) s) (\<lambda>(err, s).
       unless_closed p s (\<lambda>f s.
         if err < 0 \<or> pending_len f < err then
           ebind (f_event_and_close e q p (if err < 0 then err else - AOSL_EINVAL) s) (\<lambda>s. Ret (Finished (if 0 < err then - AOSL_EINVAL else err), s))
         else rest err s))
     else rest (pending_len f) s)"

fun read_packets :: "nat \<Rightarrow> io_env \<Rightarrow> u64 \<Rightarrow> ptr \<Rightarrow> io_sys \<Rightarrow> (packets_end \<times> io_sys) exec" where
  "read_packets 0 e q p s = NoFuel"
| "read_packets (Suc fuel) e q p s =
     check_packet e q p s (\<lambda>err s.
     ebind (iofd_at p s) (\<lambda>f.
     let rest = (\<lambda>s.
           ebind (iofd_at p s) (\<lambda>f.
           if has_flag IOFD_READ_RETURN_0 f then
             (if chk_pkt_f f \<noteq> 0 then Ret (Finished 0, s) else ebind (upd_iofd p (clear_flag IOFD_READ_RETURN_0) s) (\<lambda>s. Ret (More_bytes, s)))
           else if err = 0 then Ret (More_bytes, s)
           else read_packets fuel e q p s)) in
     if 0 < err \<or> has_flag IOFD_READ_RETURN_0 f then give_packet e p err s rest else rest s))"

definition store_bytes :: "nat \<Rightarrow> bytes \<Rightarrow> bytes \<Rightarrow> bytes" where
  "store_bytes n data buf = take n buf @ data @ drop (n + length data) buf"

text \<open>A read function that stores more than it was given room for overruns the buffer.\<close>

fun iofd_read_data :: "nat \<Rightarrow> io_env \<Rightarrow> u64 \<Rightarrow> ptr \<Rightarrow> io_sys \<Rightarrow> (int \<times> io_sys) exec" where
  "iofd_read_data 0 e q p s = NoFuel"
| "iofd_read_data (Suc fuel) e q p s =
     ebind (read_packets (Suc fuel) e q p s) (\<lambda>(r, s).
     case r of
       Finished err \<Rightarrow> Ret (err, s)
     | More_bytes \<Rightarrow>
         ebind (upd_iofd p (\<lambda>f. if iofd_better_move_buffer f then move_buffer f else f) s) (\<lambda>s.
         ebind (iofd_at p s) (\<lambda>f.
         let (err, data, s) = call_read e f (buff_size f - r_tail f) s in
         ebind (upd_iofd p (set_flag AOSL_POLLIN) s) (\<lambda>s.
         if err < 0 then
           (if err \<noteq> - AOSL_EAGAIN then ebind (f_event_and_close e q p err s) (\<lambda>s. Ret (err, s)) else Ret (0, s))
         else if err = 0 then ebind (upd_iofd p (set_flag IOFD_READ_RETURN_0) s) (iofd_read_data fuel e q p)
         else if length data \<noteq> nat err \<or> buff_size f - r_tail f < nat err then Fault
         else
           ebind (upd_iofd p (\<lambda>f. f\<lparr>r_buf := store_bytes (r_tail f) data (r_buf f), r_tail := r_tail f + nat err\<rparr>) s) (iofd_read_data fuel e q p)))))"

subsection \<open>Adding a descriptor\<close>

definition align_ptr :: "nat \<Rightarrow> nat" where
  "align_ptr n = (n + 7) div 8 * 8"

definition q_add_fd :: "io_env \<Rightarrow> u64 \<Rightarrow> ptr \<Rightarrow> io_sys \<Rightarrow> int \<times> io_sys" where
  "q_add_fd e q p s =
     (let err = add_event e p s in
      if err < 0 then (err, s)
      else (0, s\<lparr>q_iofds := (q_iofds s)(q := q_iofds s q @ [p]), q_iofd_count := (q_iofd_count s)(q := q_iofd_count s q + 1)\<rparr>))"

record fd_params =
  pf_flags :: u32
  pf_timeo :: int
  pf_max_pkt :: nat
  pf_extra :: nat
  pf_read :: ptr
  pf_write :: ptr
  pf_check :: ptr
  pf_post :: ptr
  pf_data :: ptr
  pf_event :: ptr
  pf_argv :: "u64 list"

definition new_iofd :: "u64 \<Rightarrow> fd_params \<Rightarrow> iofd" where
  "new_iofd q a = (let pkt = align_ptr (pf_max_pkt a) in
     \<lparr>io_fd = AOSL_INVALID_FD, io_usage = 1, io_life = 0, io_flags = pf_flags a, io_qid = q, io_timer = TIMER_INVALID, max_pkt_size = pkt,
      r_buf = replicate (if pf_check a \<noteq> 0 then pkt * 2 else pkt) 0, r_data = 0, r_tail = 0, r_extra_size = pf_extra a, io_wq = w_queue_init,
      read_f = pf_read a, write_f = pf_write a, chk_pkt_f = pf_check a, post_f = pf_post a, put_fd_f = 0, io_data_f = pf_data a, event_f = pf_event a,
      io_argv = pf_argv a\<rparr>)"

text \<open>
  \<open>mem\<close>: the address of the new object. \<open>get_fd\<close>: for a call without a descriptor, what \<^verbatim>\<open>get_fd_f\<close> gives (its result and the descriptor) and
  the function that takes the descriptor back. The state after a failure is that before the call; making the descriptor non-blocking is not state.
\<close>

definition mpq_add_fd_argv :: "io_env \<Rightarrow> ptr option \<Rightarrow> (int \<times> int \<times> ptr) \<Rightarrow> u32 \<Rightarrow> u64 \<Rightarrow> int \<Rightarrow> fd_params \<Rightarrow> io_sys \<Rightarrow> (int \<times> io_sys) exec" where
  "mpq_add_fd_argv e mem get_fd qflags q fd a s =
     (if qflags AND 2 \<noteq> 0 then Ret (- AOSL_EPERM, s)
      else if pf_check a \<noteq> 0 \<and> pf_max_pkt a < FD_MAX_PACKET_SIZE_MIN \<or> FD_MAX_PACKET_SIZE_MAX < pf_max_pkt a then Ret (- AOSL_EINVAL, s)
      else if FD_MAX_EXTRA_BYTES \<le> pf_extra a then Ret (- AOSL_EINVAL, s)
      else if pf_data a = 0 then Ret (- AOSL_EINVAL, s)
      else
        ebind (if fd \<noteq> AOSL_INVALID_FD then iofd_get fd s else Ret (0, s)) (\<lambda>(p, s).
        if p \<noteq> 0 then ebind (iofd_put p s) (\<lambda>s. Ret (- AOSL_EEXIST, s))
        else (case mem of
          None \<Rightarrow> Ret (- AOSL_ENOMEM, s)
        | Some p \<Rightarrow>
            let (err, fd, put) = (if fd = AOSL_INVALID_FD then get_fd else (0, fd, 0)) in
            if err < 0 \<or> fd = AOSL_INVALID_FD then Ret (err, s)
            else
              let s' = s\<lparr>iofds := (iofds s)(p \<mapsto> (new_iofd q a)\<lparr>put_fd_f := put, io_fd := fd\<rparr>)\<rparr> in
              ebind (install_fd fd p s') (\<lambda>(err, s').
              if err < 0 then Ret (err, s'\<lparr>iofds := (iofds s')(p := None)\<rparr>)
              else
                let (err, s') = q_add_fd e q p s' in
                if err < 0 then ebind (remove_fd p s') (\<lambda>(_, s'). Ret (err, s'\<lparr>iofds := (iofds s')(p := None)\<rparr>))
                else
                  ebind (if pf_flags a AND IOFD_NOT_READY \<noteq> 0 \<and> 0 \<le> pf_timeo a then upd_iofd p (\<lambda>f. f\<lparr>io_timer := oneshot_timer e p s'\<rparr>) s' else Ret s') (\<lambda>s'.
                  Ret (0, s'))))))"

definition iofd_not_ready_timeout :: "io_env \<Rightarrow> u64 \<Rightarrow> ptr \<Rightarrow> io_sys \<Rightarrow> io_sys exec" where
  "iofd_not_ready_timeout e q p s =
     ebind (iofd_hold p s) (\<lambda>s.
     ebind (iofd_at p s) (\<lambda>f.
     ebind (if has_flag IOFD_NOT_READY f then f_event_and_close e q p (- AOSL_ETIMEDOUT) s else Ret s) (\<lambda>s.
     ebind (kill_timer p s) (iofd_put p))))"

subsection \<open>Calls from any thread\<close>

definition iofd_close :: "io_env \<Rightarrow> on_queue \<Rightarrow> bool \<Rightarrow> int \<Rightarrow> io_sys \<Rightarrow> (int \<times> io_sys) exec" where
  "iofd_close e on_queue found_q fd s =
     ebind (iofd_get fd s) (\<lambda>(p, s).
     if p = 0 then Ret (close_fd e fd s)
     else
       ebind (iofd_at p s) (\<lambda>f.
       ebind (if found_q then call_on_queue on_queue (this_q_close_f e (io_qid f) p) s else Ret (- AOSL_EINVAL, s)) (\<lambda>(err, s).
       ebind (iofd_put p s) (\<lambda>s. Ret (err, s)))))"

definition aosl_close :: "io_env \<Rightarrow> on_queue \<Rightarrow> bool \<Rightarrow> int \<Rightarrow> io_sys \<Rightarrow> (int \<times> io_sys) exec" where
  "aosl_close e on_queue found_q fd s = ebind (iofd_close e on_queue found_q fd s) (\<lambda>r. Ret (io_return_err r))"

definition iofd_del :: "on_queue \<Rightarrow> bool \<Rightarrow> int \<Rightarrow> io_sys \<Rightarrow> (int \<times> io_sys) exec" where
  "iofd_del on_queue found_q fd s =
     ebind (iofd_get fd s) (\<lambda>(p, s).
     if p = 0 then Ret (- AOSL_EBADF, s)
     else
       ebind (iofd_at p s) (\<lambda>f.
       ebind (if found_q then call_on_queue on_queue (q_del_f (io_qid f) p) s else Ret (- AOSL_EINVAL, s)) (\<lambda>(err, s).
       ebind (iofd_put p s) (\<lambda>s. Ret (err, s)))))"

definition aosl_mpq_del_fd :: "on_queue \<Rightarrow> bool \<Rightarrow> int \<Rightarrow> io_sys \<Rightarrow> (int \<times> io_sys) exec" where
  "aosl_mpq_del_fd on_queue found_q fd s = ebind (iofd_del on_queue found_q fd s) (\<lambda>r. Ret (io_return_err r))"

definition aosl_mpq_add_fd :: "io_env \<Rightarrow> ptr option \<Rightarrow> (u32 \<times> u64) option \<Rightarrow> int \<Rightarrow> fd_params \<Rightarrow> io_sys \<Rightarrow> (int \<times> io_sys) exec" where
  "aosl_mpq_add_fd e mem this fd a s =
     (if MPQ_ARGC_MAX < length (pf_argv a) then Ret (- 1, s\<lparr>io_errno := AOSL_E2BIG\<rparr>)
      else (case this of
        None \<Rightarrow> Ret (- 1, s\<lparr>io_errno := AOSL_EINVAL\<rparr>)
      | Some (qflags, q) \<Rightarrow>
          ebind (mpq_add_fd_argv e mem (0, AOSL_INVALID_FD, 0) qflags q fd (a\<lparr>pf_flags := 0, pf_timeo := - 1, pf_extra := 0, pf_post := 0\<rparr>) s) (\<lambda>r. Ret (io_return_err r))))"

definition aosl_mpq_add_fd_on_q :: "io_env \<Rightarrow> ptr option \<Rightarrow> on_queue \<Rightarrow> (u32 \<times> u64) option \<Rightarrow> int \<Rightarrow> fd_params \<Rightarrow> io_sys \<Rightarrow> (int \<times> io_sys) exec" where
  "aosl_mpq_add_fd_on_q e mem on_queue target fd a s =
     (if MPQ_ARGC_MAX < length (pf_argv a) then Ret (io_return_err (- AOSL_E2BIG, s))
      else (case target of
        None \<Rightarrow> Ret (io_return_err (- AOSL_EINVAL, s))
      | Some (qflags, q) \<Rightarrow>
          ebind (call_on_queue on_queue (mpq_add_fd_argv e mem (0, AOSL_INVALID_FD, 0) qflags q fd (a\<lparr>pf_flags := 0, pf_timeo := - 1, pf_extra := 0, pf_post := 0\<rparr>)) s) (\<lambda>r.
          Ret (io_return_err r))))"

definition aosl_mpq_fd_arg :: "int \<Rightarrow> nat \<Rightarrow> io_sys \<Rightarrow> (int \<times> u64 option \<times> io_sys) exec" where
  "aosl_mpq_fd_arg fd n s =
     ebind (iofd_get fd s) (\<lambda>(p, s).
     ebind (if p = 0 then Ret (- AOSL_EINVAL, None, s)
            else
              ebind (iofd_at p s) (\<lambda>f.
              let r = (if n < length (io_argv f) then (0, Some (io_argv f ! n)) else (- AOSL_ENOENT, None)) in
              ebind (iofd_put p s) (\<lambda>s. Ret (fst r, snd r, s)))) (\<lambda>(err, arg, s).
     let (err, s) = io_return_err (err, s) in Ret (err, arg, s)))"

subsection \<open>Dispatching\<close>

text \<open>One event of \<^verbatim>\<open>os_mp_dispatch_poll\<close> and \<^verbatim>\<open>os_mp_dispatch_select\<close>; the descriptor may be gone by the time its event comes up.\<close>

definition dispatch_event :: "nat \<Rightarrow> io_env \<Rightarrow> u64 \<Rightarrow> int \<Rightarrow> u32 \<Rightarrow> io_sys \<Rightarrow> io_sys exec" where
  "dispatch_event fuel e q fd events s =
     ebind (iofd_get fd s) (\<lambda>(p, s).
     if p = 0 then Ret s
     else
       ebind (if events AND AOSL_POLLOUT \<noteq> 0 then iofd_write_data fuel e q p s else Ret (0, s)) (\<lambda>(err, s).
       ebind (if 0 \<le> err \<and> events AND AOSL_POLLIN \<noteq> 0 then iofd_read_data fuel e q p s else Ret (0, s)) (\<lambda>(_, s).
       iofd_put p s)))"

lemma upd_iofd_Ret: "iofds s p = Some f \<Longrightarrow> upd_iofd p g s = Ret (s\<lparr>iofds := (iofds s)(p \<mapsto> g f)\<rparr>)"
  by (simp add: upd_iofd_def iofd_at_def)

end
