(* ===== verification/Iofd_Stream.thy ===== *)
theory Iofd_Stream
  imports Iofd "HOL-Library.Sublist"
begin

text \<open>
  What the descriptors of \<^verbatim>\<open>kernel/iofd.c\<close> do to the bytes that pass through them: whatever the socket takes, refuses or delivers at a time, the bytes
  accepted for sending leave in order and the bytes that arrived reach the user in order, and both loops end.
\<close>

subsection \<open>The bytes that go out\<close>

definition sent_bytes :: "int \<Rightarrow> io_event list \<Rightarrow> bytes" where
  "sent_bytes fd evs = concat (map (\<lambda>ev. case ev of Sent fd' bs \<Rightarrow> if fd' = fd then bs else [] | _ \<Rightarrow> []) evs)"

definition accepted_bytes :: "int \<Rightarrow> io_event list \<Rightarrow> bytes" where
  "accepted_bytes fd evs = concat (map (\<lambda>ev. case ev of Accepted fd' bs \<Rightarrow> if fd' = fd then bs else [] | _ \<Rightarrow> []) evs)"

definition unsent :: "w_queue \<Rightarrow> bytes" where
  "unsent q = concat (map (\<lambda>b. drop (w_sent b) (w_bytes b)) (w_nodes q))"

definition total_len :: "w_queue \<Rightarrow> nat" where
  "total_len q = sum_list (map (length \<circ> w_bytes) (w_nodes q))"

definition wq_ok :: "w_queue \<Rightarrow> bool" where
  "wq_ok q \<longleftrightarrow> (\<forall>b \<in> set (w_nodes q). w_sent b \<le> length (w_bytes b)) \<and> total_len q \<le> FD_MAX_WBUF_SIZE
     \<and> w_total_len q = of_nat (total_len q) \<and> w_count q = of_nat (length (w_nodes q))"

text \<open>What the socket does is left open, except that it takes no more than it is given.\<close>

definition socket_ok :: "io_env \<Rightarrow> bool" where
  "socket_ok e \<longleftrightarrow> (\<forall>fd buf s. hal_write e fd buf s \<le> int (length buf)) \<and> (\<forall>f fd buf s. user_write e f fd buf s \<le> int (length buf))"

lemma sent_bytes_simps [simp]:
  "sent_bytes fd [] = []" "sent_bytes fd (evs @ evs') = sent_bytes fd evs @ sent_bytes fd evs'"
  "sent_bytes fd [Sent fd' bs] = (if fd' = fd then bs else [])" "sent_bytes fd [Event a b] = []" "sent_bytes fd [Closed a] = []" "sent_bytes fd [Timer_killed t] = []"
  "sent_bytes fd [Fd_put a] = []" "sent_bytes fd [Packet a bs] = []" "sent_bytes fd [Received a bs] = []" "sent_bytes fd [Accepted a bs] = []"
  by (simp_all add: sent_bytes_def)

lemma accepted_bytes_simps [simp]:
  "accepted_bytes fd [] = []" "accepted_bytes fd (evs @ evs') = accepted_bytes fd evs @ accepted_bytes fd evs'"
  "accepted_bytes fd [Accepted fd' bs] = (if fd' = fd then bs else [])" "accepted_bytes fd [Sent a bs] = []" "accepted_bytes fd [Event a b] = []"
  by (simp_all add: accepted_bytes_def)

text \<open>The state of an open descriptor as far as writing is concerned: what was accepted has left, or waits in the queue.\<close>

definition w_state :: "ptr \<Rightarrow> int \<Rightarrow> io_sys \<Rightarrow> bool" where
  "w_state p fd s \<longleftrightarrow> (\<exists>f. iofds s p = Some f \<and> io_fd f = fd \<and> wq_ok (io_wq f)
     \<and> accepted_bytes fd (io_log s) = sent_bytes fd (io_log s) @ unsent (io_wq f))"

definition io_open :: "ptr \<Rightarrow> int \<Rightarrow> io_sys \<Rightarrow> bool" where
  "io_open p fd s \<longleftrightarrow> (\<exists>f. iofds s p = Some f \<and> io_fd f = fd)"

lemma sent_log: "sent_bytes fd (io_log (sent fd' n buf s)) = sent_bytes fd (io_log s) @ (if fd' = fd \<and> 0 < n then take (nat n) buf else [])"
  "iofds (sent fd' n buf s) = iofds s" "accepted_bytes fd (io_log (sent fd' n buf s)) = accepted_bytes fd (io_log s)"
  by (simp_all add: sent_def log_io_def)

lemma call_write_ok:
  assumes "socket_ok e" and "call_write e f buf s = (err, s')"
  shows "err \<le> int (length buf)" "iofds s' = iofds s"
    "sent_bytes fd (io_log s') = sent_bytes fd (io_log s) @ (if io_fd f = fd \<and> 0 < err then take (nat err) buf else [])"
    "accepted_bytes fd (io_log s') = accepted_bytes fd (io_log s)"
proof -
  let ?r = "if write_f f = AOSL_DEFAULT_FN then default_write e (io_fd f) buf s else (user_write e (write_f f) (io_fd f) buf s, s)"
  obtain err' s1 where r: "?r = (err', s1)" by fastforce
  have s1: "iofds s1 = iofds s \<and> io_log s1 = io_log s \<and> err' \<le> int (length buf)"
    using r assms(1) by (auto simp: default_write_def aosl_hal_set_error_def hal_error_def socket_ok_def Let_def split: if_splits)
  have eq: "err = err'" "s' = sent (io_fd f) err' buf s1" using assms(2) r by (auto simp: call_write_def)
  show "err \<le> int (length buf)" "iofds s' = iofds s" using s1 by (simp_all add: eq sent_log)
  show "sent_bytes fd (io_log s') = sent_bytes fd (io_log s) @ (if io_fd f = fd \<and> 0 < err then take (nat err) buf else [])"
    using s1 by (simp add: eq sent_log)
  show "accepted_bytes fd (io_log s') = accepted_bytes fd (io_log s)" using s1 by (simp add: eq sent_log)
qed

lemma wq_ok_head:
  assumes "wq_ok q" and "w_nodes q = node # nodes" and "w_sent node \<le> k" "k \<le> length (w_bytes node)"
  shows "k < length (w_bytes node) \<Longrightarrow> wq_ok (q\<lparr>w_nodes := node\<lparr>w_sent := k\<rparr> # nodes\<rparr>)"
    "k = length (w_bytes node) \<Longrightarrow> wq_ok (w_queue_remove_head (q\<lparr>w_nodes := node\<lparr>w_sent := k\<rparr> # nodes\<rparr>))"
  using assms by (auto simp: wq_ok_def total_len_def w_queue_remove_head_def)

lemma unsent_head:
  assumes "w_nodes q = node # nodes" and "k \<le> length (drop (w_sent node) (w_bytes node))"
  shows "unsent q = take k (drop (w_sent node) (w_bytes node)) @ unsent (q\<lparr>w_nodes := node\<lparr>w_sent := w_sent node + k\<rparr> # nodes\<rparr>)"
proof -
  have "take k (drop (w_sent node) (w_bytes node)) @ drop (w_sent node + k) (w_bytes node) = drop (w_sent node) (w_bytes node)"
    by (metis append_take_drop_id drop_drop add.commute)
  then show ?thesis using assms(1) by (simp add: unsent_def)
qed

text \<open>Deleting and closing move no bytes and, with a reference left, come back.\<close>

definition is_stream :: "io_event \<Rightarrow> bool" where
  "is_stream ev \<longleftrightarrow> (case ev of Sent _ _ \<Rightarrow> True | Received _ _ \<Rightarrow> True | Packet _ _ \<Rightarrow> True | Accepted _ _ \<Rightarrow> True | _ \<Rightarrow> False)"

definition quiet_log :: "io_sys \<Rightarrow> io_sys \<Rightarrow> bool" where
  "quiet_log s s' \<longleftrightarrow> filter is_stream (io_log s') = filter is_stream (io_log s)"

lemma is_stream_simps [simp]:
  "is_stream (Sent fd bs)" "is_stream (Received fd bs)" "is_stream (Packet fd bs)" "is_stream (Accepted fd bs)" "\<not> is_stream (Event fd n)" "\<not> is_stream (Closed fd)"
  "\<not> is_stream (Timer_killed t)" "\<not> is_stream (Fd_put fd)"
  by (simp_all add: is_stream_def)

lemma quiet_log_refl [simp]: "quiet_log s s"
  by (simp add: quiet_log_def)

lemma quiet_log_trans: "quiet_log s s1 \<Longrightarrow> quiet_log s1 s2 \<Longrightarrow> quiet_log s s2"
  by (simp add: quiet_log_def)

lemma sent_filter: "sent_bytes fd (filter is_stream evs) = sent_bytes fd evs"
  by (induction evs) (auto simp: sent_bytes_def is_stream_def split: io_event.split)

lemma accepted_filter: "accepted_bytes fd (filter is_stream evs) = accepted_bytes fd evs"
  by (induction evs) (auto simp: accepted_bytes_def is_stream_def split: io_event.split)

lemma quiet_log_sent:
  "quiet_log s s' \<Longrightarrow> sent_bytes fd (io_log s') = sent_bytes fd (io_log s)"
  "quiet_log s s' \<Longrightarrow> accepted_bytes fd (io_log s') = accepted_bytes fd (io_log s)"
  by (metis quiet_log_def sent_filter) (metis quiet_log_def accepted_filter)

lemma kill_timer_out: "iofds s p = Some f \<Longrightarrow> \<exists>s' t. kill_timer p s = Ret s' \<and> quiet_log s s' \<and> iofds s' p = Some (f\<lparr>io_timer := t\<rparr>)"
  by (cases f) (auto simp: kill_timer_def iofd_at_def upd_iofd_def log_io_def quiet_log_def)

lemma remove_out: "iofds s p = Some f \<Longrightarrow> \<exists>r s'. remove_fd p s = Ret (r, s') \<and> iofds s' = iofds s \<and> io_log s' = io_log s"
  by (auto simp: remove_fd_def iofd_at_def)

lemma q_del_out:
  assumes f: "iofds s p = Some f" and nz: "io_usage f \<noteq> 1"
  shows "\<exists>r s' t. q_del_f q p s = Ret (r, s') \<and> quiet_log s s' \<and> iofds s' p = Some (f\<lparr>io_timer := t, io_usage := io_usage f - (if r < 0 then 0 else 1)\<rparr>)"
proof (cases "io_qid f = q")
  case True
  from kill_timer_out [OF f] obtain s1 t where k: "kill_timer p s = Ret s1" "quiet_log s s1" "iofds s1 p = Some (f\<lparr>io_timer := t\<rparr>)" by blast
  from remove_out [OF k(3)] obtain r s2 where m: "remove_fd p s1 = Ret (r, s2)" "iofds s2 = iofds s1" "io_log s2 = io_log s1" by blast
  show ?thesis using True f k m nz by (intro exI [of _ r] exI [of _ t]) (auto simp: q_del_f_def iofd_at_def iofd_put_def Let_def quiet_log_def)
next
  case False
  then show ?thesis using f by (cases f) (auto simp: q_del_f_def iofd_at_def)
qed

lemma iofd_put_any:
  "iofds s p = Some f \<Longrightarrow> \<exists>s'. iofd_put p s = Ret s' \<and> io_log s' = io_log s \<and> (if io_usage f = 1 then iofds s' p = None else iofds s' p = Some (f\<lparr>io_usage := io_usage f - 1\<rparr>))"
  by (auto simp: iofd_put_def iofd_at_def)

lemma put_fd_or_close_out:
  "\<exists>r s'. (if g \<noteq> 0 then (user_put_fd e g fd s, log_io (Fd_put fd) s) else close_fd e fd s) = (r, s') \<and> iofds s' = iofds s \<and> quiet_log s s'"
  by (auto simp: close_fd_def log_io_def aosl_hal_set_error_def Let_def quiet_log_def)

text \<open>Closing ends with the descriptor as it was, when the queue is not the right one, or without it.\<close>

lemma close_any:
  assumes f: "iofds s p = Some f" and u: "io_usage f \<noteq> 0"
  shows "\<exists>r s'. this_q_close_f e q p s = Ret (r, s') \<and> quiet_log s s'
    \<and> ((\<exists>t. iofds s' p = Some (f\<lparr>io_timer := t\<rparr>)) \<or> iofds s' p = None \<or> (\<exists>f'. iofds s' p = Some f' \<and> io_fd f' = AOSL_INVALID_FD))"
proof -
  let ?f = "f\<lparr>io_usage := io_usage f + 1\<rparr>"
  let ?s = "s\<lparr>iofds := (iofds s)(p \<mapsto> ?f)\<rparr>"
  have hold: "iofd_hold p s = Ret ?s" and at: "iofd_at p s = Ret f" using f by (simp_all add: iofd_hold_def upd_iofd_Ret iofd_at_def)
  obtain r1 s1 t where d: "q_del_f q p ?s = Ret (r1, s1)" "quiet_log ?s s1" "iofds s1 p = Some (f\<lparr>io_timer := t, io_usage := io_usage f + 1 - (if r1 < 0 then 0 else 1)\<rparr>)"
    using q_del_out [of ?s p ?f q] u by auto
  have l1: "quiet_log s s1" using d(2) by (simp add: quiet_log_def)
  show ?thesis
  proof (cases "r1 < 0")
    case True
    from iofd_put_any [OF d(3)] obtain s2 where s2: "iofd_put p s1 = Ret s2" "io_log s2 = io_log s1" "iofds s2 p = Some (f\<lparr>io_timer := t, io_usage := io_usage f\<rparr>)"
      using True u by auto
    have "this_q_close_f e q p s = Ret (r1, s2)" using True by (simp add: this_q_close_f_def at hold d(1) s2(1) Let_def)
    moreover have "iofds s2 p = Some (f\<lparr>io_timer := t\<rparr>)" using s2(3) by (cases f) simp
    moreover have "quiet_log s s2" using l1 s2(2) by (simp add: quiet_log_def)
    ultimately show ?thesis by blast
  next
    case False
    let ?f1 = "f\<lparr>io_timer := t, io_usage := io_usage f\<rparr>"
    obtain r2 s2 where c: "(if put_fd_f f \<noteq> 0 then (user_put_fd e (put_fd_f f) (io_fd f) s1, log_io (Fd_put (io_fd f)) s1) else close_fd e (io_fd f) s1) = (r2, s2)"
      "iofds s2 = iofds s1" "quiet_log s1 s2"
      using put_fd_or_close_out [of "put_fd_f f" e "io_fd f" s1] by blast
    let ?s3 = "s2\<lparr>iofds := (iofds s2)(p \<mapsto> ?f1\<lparr>io_fd := AOSL_INVALID_FD\<rparr>)\<rparr>"
    have u3: "upd_iofd p (\<lambda>f. f\<lparr>io_fd := AOSL_INVALID_FD\<rparr>) s2 = Ret ?s3" using c(2) d(3) False by (simp add: upd_iofd_Ret)
    from iofd_put_any [of ?s3 p "?f1\<lparr>io_fd := AOSL_INVALID_FD\<rparr>"] obtain s4 where s4: "iofd_put p ?s3 = Ret s4" "io_log s4 = io_log s2"
      "iofds s4 p = None \<or> (\<exists>f. iofds s4 p = Some f \<and> io_fd f = AOSL_INVALID_FD)" by (auto split: if_splits)
    have "this_q_close_f e q p s = Ret (r2, s4)" using False c(1) u3 s4(1) by (auto simp: this_q_close_f_def at hold d(1) Let_def split: if_splits)
    moreover have "quiet_log s s4" using l1 c(3) s4(2) by (simp add: quiet_log_def)
    ultimately show ?thesis using s4(3) by blast
  qed
qed

text \<open>
  What the code outside does to a descriptor: it writes to it, with or without memory for a node, or does anything else that leaves its queue of buffers and its stream alone, closing it
  included. The bytes a call accepts are those it reports; a call that reports an error accepts those that went out before, which only happens when
  there is no memory for the rest of them.
\<close>

definition write_taken :: "int \<Rightarrow> bytes \<Rightarrow> int \<Rightarrow> io_sys \<Rightarrow> io_sys \<Rightarrow> bytes" where
  "write_taken fd buf r s s' = (if 0 < r then take (nat r) buf else take (length (sent_bytes fd (io_log s')) - length (sent_bytes fd (io_log s))) buf)"

inductive w_call :: "ptr \<Rightarrow> int \<Rightarrow> io_sys \<Rightarrow> io_sys \<Rightarrow> bool" for p fd where
  Accept: "socket_ok e \<Longrightarrow> io_open p fd s \<Longrightarrow> iofd_write e mem p buf s = Ret (r, s') \<Longrightarrow> w_call p fd s (log_io (Accepted fd (write_taken fd buf r s s')) s')"
| Elsewhere: "sent_bytes fd (io_log s') = sent_bytes fd (io_log s) \<Longrightarrow> accepted_bytes fd (io_log s') = accepted_bytes fd (io_log s)
    \<Longrightarrow> \<forall>f'. iofds s' p = Some f' \<longrightarrow> io_fd f' = fd \<longrightarrow> (\<exists>f. iofds s p = Some f \<and> io_fd f = fd \<and> io_wq f' = io_wq f)
    \<Longrightarrow> w_call p fd s s'"

text \<open>The event function may do all that, any number of times; it returns, and leaves the object, to which its caller has a reference.\<close>

definition polite_event :: "ptr \<Rightarrow> int \<Rightarrow> io_env \<Rightarrow> bool" where
  "polite_event p fd e \<longleftrightarrow> (\<forall>g n s f. iofds s p = Some f \<and> io_fd f = fd \<and> io_usage f \<noteq> 0 \<longrightarrow>
     (\<exists>s' f'. user_event e g fd n s = Ret s' \<and> (w_call p fd)\<^sup>*\<^sup>* s s' \<and> iofds s' p = Some f' \<and> io_usage f' \<noteq> 0))"

definition w_closed :: "ptr \<Rightarrow> int \<Rightarrow> io_sys \<Rightarrow> bool" where
  "w_closed p fd s \<longleftrightarrow> \<not> io_open p fd s \<and> prefix (sent_bytes fd (io_log s)) (accepted_bytes fd (io_log s))"

text \<open>Accepting a buffer: nothing of it, or all of it, sent or queued; without memory for a node the part that was sent at once.\<close>

lemma queue_space:
  assumes "wq_ok q" and "\<not> w_queue_space q < of_nat n" and "n \<le> FD_MAX_WBUF_SIZE"
  shows "total_len q + n \<le> FD_MAX_WBUF_SIZE"
proof -
  have t: "total_len q \<le> 131072" "w_total_len q = of_nat (total_len q)" using assms(1) by (simp_all add: wq_ok_def FD_MAX_WBUF_SIZE_def)
  have u: "unat (of_nat m :: u64) = m" if "m \<le> 131072" for m using that by (simp add: unat_of_nat take_bit_nat_eq_self)
  have "unat (w_queue_space q) = 131072 - total_len q"
    using t u [of "total_len q"] u [of 131072] by (simp add: w_queue_space_def FD_MAX_WBUF_SIZE_def word_less_nat_alt unat_sub word_le_nat_alt)
  then show ?thesis using assms(2,3) t(1) u [of n] by (simp add: word_less_nat_alt FD_MAX_WBUF_SIZE_def)
qed

lemma wq_ok_add:
  assumes "wq_ok q" and "total_len q + length (w_bytes b) \<le> FD_MAX_WBUF_SIZE" and "w_sent b = 0"
  shows "wq_ok (w_queue_add b q)" "unsent (w_queue_add b q) = unsent q @ w_bytes b"
  using assms by (auto simp: wq_ok_def w_queue_add_def total_len_def unsent_def)

text \<open>The outcome \<open>out\<close> of a write: the queue is fine, what left and what waits is what it was before and the bytes taken.\<close>

definition write_outcome :: "ptr \<Rightarrow> int \<Rightarrow> bytes \<Rightarrow> bool \<Rightarrow> iofd \<Rightarrow> io_sys \<Rightarrow> int \<times> io_sys \<Rightarrow> bool" where
  "write_outcome p fd buf mem f s out = (case out of (r, s') \<Rightarrow>
     (\<exists>f'. iofds s' p = Some f' \<and> io_fd f' = fd \<and> wq_ok (io_wq f')
        \<and> sent_bytes fd (io_log s') @ unsent (io_wq f') = sent_bytes fd (io_log s) @ unsent (io_wq f) @ write_taken fd buf r s s')
     \<and> accepted_bytes fd (io_log s') = accepted_bytes fd (io_log s)
     \<and> (r = int (length buf) \<or> r \<le> 0 \<and> (mem \<longrightarrow> sent_bytes fd (io_log s') = sent_bytes fd (io_log s))))"

lemma write_outcome_nothing:
  "iofds s p = Some f \<Longrightarrow> io_fd f = fd \<Longrightarrow> wq_ok (io_wq f) \<Longrightarrow> r \<le> 0 \<Longrightarrow> write_outcome p fd buf mem f s (r, s)"
  by (simp add: write_outcome_def write_taken_def)

lemma iofd_write_out:
  assumes e: "socket_ok e" and f: "iofds s p = Some f" "io_fd f = fd" "wq_ok (io_wq f)"
  shows "\<exists>r s'. iofd_write e mem p buf s = Ret (r, s') \<and> write_outcome p fd buf mem f s (r, s')"
proof -
  have at: "iofd_at p s = Ret f" using f(1) by (simp add: iofd_at_def)
  let ?full = "FD_MAX_WBUF_SIZE < length buf" and ?space = "w_queue_space (io_wq f) < of_nat (length buf)"
  consider (none) "?full \<or> ?space" | (queue) "\<not> ?full" "\<not> ?space" "w_nodes (io_wq f) \<noteq> [] \<or> has_flag IOFD_NOT_READY f"
    | (send) "\<not> ?full" "\<not> ?space" "w_nodes (io_wq f) = []" "\<not> has_flag IOFD_NOT_READY f" by blast
  then show ?thesis
  proof cases
    case none
    then show ?thesis using write_outcome_nothing [OF f] by (auto simp: iofd_write_def at Let_def)
  next
    case queue
    have room: "total_len (io_wq f) + length buf \<le> FD_MAX_WBUF_SIZE" using queue_space [OF f(3) queue(2)] queue(1) by simp
    show ?thesis
    proof (cases mem)
      case True
      then show ?thesis using queue f wq_ok_add [OF f(3), of "\<lparr>w_bytes = buf, w_sent = 0\<rparr>"] room
        by (simp add: iofd_write_def at upd_iofd_Ret write_outcome_def write_taken_def Let_def)
    next
      case False
      then show ?thesis using queue write_outcome_nothing [OF f, of "- AOSL_ENOMEM"] by (simp add: iofd_write_def at Let_def)
    qed
  next
    case send
    let ?err = "hal_write e fd buf s" and ?s = "sent fd (hal_write e fd buf s) buf s"
    have ios: "iofds ?s p = Some f" using f(1) by (simp add: sent_log)
    have le: "?err \<le> int (length buf)" using e by (simp add: socket_ok_def)
    have empty: "unsent (io_wq f) = []" using send by (simp add: unsent_def)
    have room: "total_len (io_wq f) + length (drop (nat ?err) buf) \<le> FD_MAX_WBUF_SIZE" using queue_space [OF f(3) send(2)] send(1) by simp
    note add = wq_ok_add [OF f(3), of "\<lparr>w_bytes = drop (nat ?err) buf, w_sent = 0\<rparr>"]
    let ?f = "set_flag AOSL_POLLOUT f"
    let ?s1 = "?s\<lparr>iofds := (iofds ?s)(p \<mapsto> ?f)\<rparr>"
    have fl: "io_fd ?f = fd" "io_wq ?f = io_wq f" using f(2) by (simp_all add: set_flag_def)
    have run: "iofd_write e mem p buf s = (if ?err \<le> 0 then Ret (aosl_hal_set_error ?err ?s1)
       else if nat ?err < length buf then if \<not> mem then Ret (- AOSL_ENOMEM, ?s1)
         else ebind (upd_iofd p (\<lambda>f. f\<lparr>io_wq := w_queue_add \<lparr>w_bytes = drop (nat ?err) buf, w_sent = 0\<rparr> (io_wq f)\<rparr>) ?s1) (\<lambda>s. Ret (int (length buf), s))
       else Ret (int (length buf), ?s1))"
      using send f(2) by (simp add: iofd_write_def at Let_def upd_iofd_Ret [OF ios])
    consider (err) "?err \<le> 0" | (some) "0 < ?err" "nat ?err < length buf" | (all) "?err = int (length buf)" "0 < ?err" using le by linarith
    then show ?thesis
    proof cases
      case err
      then show ?thesis using f fl empty by (auto simp: run aosl_hal_set_error_def hal_error_def write_outcome_def write_taken_def sent_log)
    next
      case some
      let ?s2 = "?s1\<lparr>iofds := (iofds ?s1)(p \<mapsto> ?f\<lparr>io_wq := w_queue_add \<lparr>w_bytes = drop (nat ?err) buf, w_sent = 0\<rparr> (io_wq f)\<rparr>)\<rparr>"
      let ?out = "if mem then (int (length buf), ?s2) else (- AOSL_ENOMEM, ?s1)"
      have "iofd_write e mem p buf s = Ret ?out" using some fl by (simp add: run upd_iofd_Ret)
      moreover have "write_outcome p fd buf mem f s ?out" using some f fl empty add room by (simp add: write_outcome_def write_taken_def sent_log)
      ultimately show ?thesis by (metis surj_pair)
    next
      case all
      then show ?thesis using f fl empty by (simp add: run write_outcome_def write_taken_def sent_log)
    qed
  qed
qed

lemma w_call_keeps:
  assumes "w_call p fd s s'" and inv: "w_state p fd s \<or> w_closed p fd s"
  shows "w_state p fd s' \<or> w_closed p fd s'"
  using assms(1)
proof cases
  case (Accept e mem buf r s1)
  then have "w_state p fd s" using inv by (auto simp: w_closed_def)
  then obtain f where f: "iofds s p = Some f" "io_fd f = fd" "wq_ok (io_wq f)" "accepted_bytes fd (io_log s) = sent_bytes fd (io_log s) @ unsent (io_wq f)"
    by (auto simp: w_state_def)
  from iofd_write_out [OF Accept(2) f(1-3), of mem buf] Accept(4) have "write_outcome p fd buf mem f s (r, s1)" by auto
  then have "w_state p fd s'" using f(4) Accept(1) by (auto simp: write_outcome_def w_state_def log_io_def)
  then show ?thesis by blast
next
  case Elsewhere
  show ?thesis
  proof (cases "io_open p fd s'")
    case True
    then obtain f' f where "iofds s' p = Some f'" "io_fd f' = fd" "iofds s p = Some f" "io_fd f = fd" "io_wq f' = io_wq f"
      using Elsewhere by (auto simp: io_open_def)
    then show ?thesis using inv Elsewhere by (auto simp: w_state_def w_closed_def io_open_def)
  next
    case False
    then show ?thesis using inv Elsewhere by (auto simp: w_state_def w_closed_def)
  qed
qed

lemma w_calls_keep:
  assumes "(w_call p fd)\<^sup>*\<^sup>* s s'" and "w_state p fd s \<or> w_closed p fd s"
  shows "w_state p fd s' \<or> w_closed p fd s'"
  using assms by (induction rule: rtranclp_induct) (auto dest: w_call_keeps)

lemma event_out:
  assumes w: "w_state p fd s" and f: "iofds s p = Some f" and u: "io_usage f \<noteq> 0" and ev: "polite_event p fd e"
  shows "\<exists>s' f'. user_event e g fd n (log_io (Event fd n) s) = Ret s' \<and> (w_state p fd s' \<or> w_closed p fd s') \<and> iofds s' p = Some f' \<and> io_usage f' \<noteq> 0"
proof -
  let ?s = "log_io (Event fd n) s"
  have ws: "w_state p fd ?s" using w by (auto simp: w_state_def log_io_def)
  have "iofds ?s p = Some f" "io_fd f = fd" using w f by (auto simp: w_state_def log_io_def)
  with ev u obtain s' f' where "user_event e g fd n ?s = Ret s'" "(w_call p fd)\<^sup>*\<^sup>* ?s s'" "iofds s' p = Some f'" "io_usage f' \<noteq> 0"
    unfolding polite_event_def by blast
  with w_calls_keep [of p fd ?s s'] ws show ?thesis by blast
qed

lemma close_out:
  assumes w: "w_state p fd s \<or> w_closed p fd s" and f: "iofds s p = Some f" and u: "io_usage f \<noteq> 0" and fd: "fd \<noteq> AOSL_INVALID_FD"
  shows "\<exists>r s'. this_q_close_f e q p s = Ret (r, s') \<and> (w_state p fd s' \<or> w_closed p fd s')"
proof -
  from close_any [OF f u, of e q] obtain r s' where c: "this_q_close_f e q p s = Ret (r, s')" "quiet_log s s'"
    "(\<exists>t. iofds s' p = Some (f\<lparr>io_timer := t\<rparr>)) \<or> iofds s' p = None \<or> (\<exists>f'. iofds s' p = Some f' \<and> io_fd f' = AOSL_INVALID_FD)" by blast
  have "w_state p fd s' \<or> w_closed p fd s'"
    using c(3) w f fd quiet_log_sent [OF c(2), of fd] by (auto simp: w_state_def w_closed_def io_open_def)
  with c(1) show ?thesis by blast
qed

lemma event_and_close_out:
  assumes w: "w_state p fd s" and f: "iofds s p = Some f" and u: "io_usage f \<noteq> 0" and fd: "fd \<noteq> AOSL_INVALID_FD" and ev: "polite_event p fd e"
  shows "\<exists>s'. f_event_and_close e q p err s = Ret s' \<and> (w_state p fd s' \<or> w_closed p fd s')"
proof -
  have fdf: "io_fd f = fd" using w f by (auto simp: w_state_def)
  obtain s1 f1 where s1: "(if event_f f \<noteq> 0 then user_event e (event_f f) fd err (log_io (Event fd err) s) else Ret s) = Ret s1"
    "w_state p fd s1 \<or> w_closed p fd s1" "iofds s1 p = Some f1" "io_usage f1 \<noteq> 0"
    using event_out [OF w f u ev, of "event_f f" err] w f u by (cases "event_f f = 0") auto
  from close_out [OF s1(2-4) fd, of e q] obtain r s' where "this_q_close_f e q p s1 = Ret (r, s')" "w_state p fd s' \<or> w_closed p fd s'" by blast
  moreover have "f_event_and_close e q p err s = (if io_fd f1 = AOSL_INVALID_FD then Ret s1 else ebind (this_q_close_f e q p s1) (\<lambda>(_, s). Ret s))"
    using s1 f fd by (cases "event_f f = 0") (auto simp: f_event_and_close_def iofd_at_def aosl_fd_invalid_def fdf)
  ultimately show ?thesis using s1(2) by auto
qed

lemma w_state_upd:
  assumes "w_state p fd s" and "iofds s p = Some f" and "iofds s' p = Some f'" and "io_fd f' = io_fd f" and "wq_ok (io_wq f')" and "accepted_bytes fd (io_log s') = accepted_bytes fd (io_log s)"
    and "sent_bytes fd (io_log s') @ unsent (io_wq f') = sent_bytes fd (io_log s) @ unsent (io_wq f)"
  shows "w_state p fd s'"
  using assms by (auto simp: w_state_def)

text \<open>One round of the loop of \<^verbatim>\<open>__iofd_write_data\<close> keeps what is accepted: what leaves the queue is what the socket took.\<close>

lemma write_round:
  assumes w: "w_state p fd s" and f: "iofds s p = Some f" and n: "w_nodes (io_wq f) = node # nodes" and e: "socket_ok e"
    and c: "call_write e f (drop (w_sent node) (w_bytes node)) s = (err, s1)"
  defines "f1 \<equiv> set_flag AOSL_POLLOUT f"
  defines "s2 \<equiv> s1\<lparr>iofds := (iofds s1)(p \<mapsto> f1)\<rparr>"
  shows "err < 0 \<Longrightarrow> w_state p fd s2"
    and "0 \<le> err \<Longrightarrow> w_state p fd (s1\<lparr>iofds := (iofds s1)(p \<mapsto> f1\<lparr>io_wq := (io_wq f)\<lparr>w_nodes := node\<lparr>w_sent := w_sent node + nat err\<rparr> # nodes\<rparr>\<rparr>)\<rparr>)"
    and "0 \<le> err \<Longrightarrow> length (w_bytes node) \<le> w_sent node + nat err \<Longrightarrow>
      w_state p fd (s1\<lparr>iofds := (iofds s1)(p \<mapsto> f1\<lparr>io_wq := w_queue_remove_head ((io_wq f)\<lparr>w_nodes := node\<lparr>w_sent := w_sent node + nat err\<rparr> # nodes\<rparr>)\<rparr>)\<rparr>)"
proof -
  note cw = call_write_ok(1,2) [OF e c] call_write_ok(3) [OF e c, of fd] call_write_ok(4) [OF e c, of fd]
  from w f have q: "wq_ok (io_wq f)" and fd: "io_fd f = fd" by (auto simp: w_state_def)
  then have sn: "w_sent node \<le> length (w_bytes node)" using n by (simp add: wq_ok_def)
  let ?k = "w_sent node + nat err"
  let ?q = "(io_wq f)\<lparr>w_nodes := node\<lparr>w_sent := ?k\<rparr> # nodes\<rparr>"
  have flag: "io_fd f1 = fd" "io_wq f1 = io_wq f" using fd by (simp_all add: f1_def set_flag_def)
  show "err < 0 \<Longrightarrow> w_state p fd s2"
    by (rule w_state_upd [OF w f, of _ f1]) (use cw fd q flag in \<open>auto simp: s2_def\<close>)
  assume pos: "0 \<le> err"
  have k: "nat err \<le> length (drop (w_sent node) (w_bytes node))" using cw(1) pos by auto
  have un: "unsent (io_wq f) = take (nat err) (drop (w_sent node) (w_bytes node)) @ unsent ?q" by (rule unsent_head [OF n k])
  have out: "sent_bytes fd (io_log s1) @ unsent ?q = sent_bytes fd (io_log s) @ unsent (io_wq f)" using cw(3) fd pos by (auto simp: un)
  have ok: "wq_ok ?q" using q n sn k by (auto simp: wq_ok_def total_len_def)
  show "w_state p fd (s1\<lparr>iofds := (iofds s1)(p \<mapsto> f1\<lparr>io_wq := ?q\<rparr>)\<rparr>)"
    by (rule w_state_upd [OF w f, of _ "f1\<lparr>io_wq := ?q\<rparr>"]) (use out ok fd flag cw(4) in auto)
  assume full: "length (w_bytes node) \<le> ?k"
  have "?k = length (w_bytes node)" using full sn k by simp
  then have "wq_ok (w_queue_remove_head ?q)" using wq_ok_head(2) [OF q n, of ?k] by simp
  moreover have "unsent (w_queue_remove_head ?q) = unsent ?q" using full by (simp add: w_queue_remove_head_def unsent_def)
  ultimately show "w_state p fd (s1\<lparr>iofds := (iofds s1)(p \<mapsto> f1\<lparr>io_wq := w_queue_remove_head ?q\<rparr>)\<rparr>)"
    by (intro w_state_upd [OF w f, of _ "f1\<lparr>io_wq := w_queue_remove_head ?q\<rparr>"]) (use out fd flag cw(4) in auto)
qed

lemma write_loop_out:
  assumes "socket_ok e" and "polite_event p fd e" and "fd \<noteq> AOSL_INVALID_FD"
  shows "w_state p fd s \<Longrightarrow> iofds s p = Some f \<Longrightarrow> io_usage f \<noteq> 0 \<Longrightarrow> length (w_nodes (io_wq f)) < fuel
    \<Longrightarrow> \<exists>r s'. write_loop fuel e q p s = Ret (r, s') \<and> (w_state p fd s' \<or> w_closed p fd s')"
proof (induction fuel arbitrary: s f)
  case (Suc fuel)
  note w = \<open>w_state p fd s\<close> and f = \<open>iofds s p = Some f\<close>
  show ?case
  proof (cases "w_nodes (io_wq f)")
    case Nil
    have fdf: "io_fd f = fd" using w f by (auto simp: w_state_def)
    from event_out [OF w f Suc.prems(3) assms(2), of "event_f f" AOSL_IOFD_READY_FOR_WRITING] obtain s1 where
      "user_event e (event_f f) fd AOSL_IOFD_READY_FOR_WRITING (log_io (Event fd AOSL_IOFD_READY_FOR_WRITING) s) = Ret s1" "w_state p fd s1 \<or> w_closed p fd s1" by blast
    then show ?thesis using Nil f w by (cases "event_f f = 0") (simp_all add: iofd_at_def fdf)
  next
    case (Cons node nodes)
    obtain err s1 where c: "call_write e f (drop (w_sent node) (w_bytes node)) s = (err, s1)" by fastforce
    note round = write_round [OF w f Cons assms(1) c]
    let ?f1 = "set_flag AOSL_POLLOUT f"
    have ios: "iofds s1 p = Some f" using call_write_ok(2) [OF assms(1) c] f by simp
    have us: "io_usage ?f1 = io_usage f" "io_wq ?f1 = io_wq f" by (simp_all add: set_flag_def)
    show ?thesis
    proof (cases "err < 0")
      case True
      from event_and_close_out [OF round(1) [OF True] _ _ assms(3,2), of ?f1 q err] Suc.prems(3) us show ?thesis
        using True Cons f round(1) by (auto simp: iofd_at_def c upd_iofd_Ret [OF ios])
    next
      case False
      then have pos: "0 \<le> err" by simp
      let ?q = "(io_wq f)\<lparr>w_nodes := node\<lparr>w_sent := w_sent node + nat err\<rparr> # nodes\<rparr>"
      let ?s3 = "s1\<lparr>iofds := (iofds s1)(p \<mapsto> ?f1\<lparr>io_wq := w_queue_remove_head ?q\<rparr>)\<rparr>"
      show ?thesis
      proof (cases "w_sent node + nat err < length (w_bytes node)")
        case True
        then show ?thesis using pos Cons f round(2) by (auto simp: iofd_at_def c upd_iofd_Ret [OF ios] upd_iofd_Ret us)
      next
        case full: False
        have "length (w_nodes (io_wq (?f1\<lparr>io_wq := w_queue_remove_head ?q\<rparr>))) < fuel" using Suc.prems(4) Cons by (simp add: w_queue_remove_head_def)
        with Suc.IH [OF round(3) [OF pos]] full Suc.prems(3) us have "\<exists>r s'. write_loop fuel e q p ?s3 = Ret (r, s') \<and> (w_state p fd s' \<or> w_closed p fd s')" by simp
        then show ?thesis using pos full Cons f by (simp add: iofd_at_def c upd_iofd_Ret [OF ios] upd_iofd_Ret us)
      qed
    qed
  qed
qed simp

lemma write_data_out:
  assumes e: "socket_ok e" "polite_event p fd e" "fd \<noteq> AOSL_INVALID_FD" and w: "w_state p fd s" and f: "iofds s p = Some f" and u: "io_usage f \<noteq> 0"
    and fuel: "length (w_nodes (io_wq f)) < fuel"
  shows "\<exists>r s'. iofd_write_data fuel e q p s = Ret (r, s') \<and> (w_state p fd s' \<or> w_closed p fd s')"
proof (cases "has_flag IOFD_NOT_READY f")
  case True
  let ?f = "clear_flag IOFD_NOT_READY f" and ?s = "s\<lparr>iofds := (iofds s)(p \<mapsto> clear_flag IOFD_NOT_READY f)\<rparr>"
  from kill_timer_out [of ?s p ?f] obtain s1 t where k: "kill_timer p ?s = Ret s1" "quiet_log ?s s1" "iofds s1 p = Some (?f\<lparr>io_timer := t\<rparr>)" by auto
  have "sent_bytes fd (io_log s1) = sent_bytes fd (io_log s)" "accepted_bytes fd (io_log s1) = accepted_bytes fd (io_log s)" using quiet_log_sent [OF k(2)] by simp_all
  then have "w_state p fd s1" by (intro w_state_upd [OF w f k(3)]) (use w f in \<open>auto simp: w_state_def clear_flag_def\<close>)
  from write_loop_out [OF e this k(3)] show ?thesis using True f u k fuel by (simp add: iofd_write_data_def iofd_at_def upd_iofd_Ret clear_flag_def)
next
  case False
  with write_loop_out [OF e w f u fuel] f show ?thesis by (simp add: iofd_write_data_def iofd_at_def)
qed

text \<open>A history of one descriptor: what the code outside does, and rounds of \<^verbatim>\<open>__iofd_write_data\<close>. The socket may behave differently each time.\<close>

inductive w_step :: "ptr \<Rightarrow> int \<Rightarrow> io_sys \<Rightarrow> io_sys \<Rightarrow> bool" for p fd where
  Call: "w_call p fd s s' \<Longrightarrow> w_step p fd s s'"
| Flush: "socket_ok e \<Longrightarrow> polite_event p fd e \<Longrightarrow> iofds s p = Some f \<Longrightarrow> io_fd f = fd \<Longrightarrow> io_usage f \<noteq> 0 \<Longrightarrow> length (w_nodes (io_wq f)) < fuel
    \<Longrightarrow> iofd_write_data fuel e q p s = Ret (r, s') \<Longrightarrow> w_step p fd s s'"

lemma w_step_keeps:
  assumes "w_step p fd s s'" and fd: "fd \<noteq> AOSL_INVALID_FD" and inv: "w_state p fd s \<or> w_closed p fd s"
  shows "w_state p fd s' \<or> w_closed p fd s'"
  using assms(1)
proof cases
  case Call
  then show ?thesis using w_call_keeps inv by blast
next
  case (Flush e f fuel q r)
  then have "w_state p fd s" using inv by (auto simp: w_closed_def io_open_def)
  from write_data_out [OF Flush(1,2) fd this Flush(3,5,6), of q] Flush(7) show ?thesis by auto
qed

lemma w_steps_keep:
  assumes "(w_step p fd)\<^sup>*\<^sup>* s s'" and "fd \<noteq> AOSL_INVALID_FD" and "w_state p fd s"
  shows "w_state p fd s' \<or> w_closed p fd s'"
  using assms(1) by (induction rule: rtranclp_induct) (use assms(2,3) w_step_keeps in blast)+

text \<open>
  C5. Writing keeps the order and loses nothing. In any history of calls of \<^verbatim>\<open>____write\<close>, with or without memory for a node, and of \<^verbatim>\<open>__iofd_write_data\<close>, whatever the socket takes and
  refuses, and whatever the event function does (write to the descriptor or close it included), the bytes that left the descriptor are always the first bytes of those that were
  accepted, and while the descriptor is open the rest of them waits in its queue, which never holds more than \<^verbatim>\<open>FD_MAX_WBUF_SIZE\<close> bytes. The bytes accepted are those the calls report, and,
  of a call that fails, those that left nevertheless; a further call accepts all it was given or fails, and a failing call has sent nothing unless there was no memory for
  the node of the rest.
\<close>

theorem write_stream_in_order:
  assumes "iofds s0 p = Some f0" and "io_fd f0 = fd" and "io_wq f0 = w_queue_init" and "sent_bytes fd (io_log s0) = []" and "accepted_bytes fd (io_log s0) = []"
    and "fd \<noteq> AOSL_INVALID_FD" and "(w_step p fd)\<^sup>*\<^sup>* s0 s"
  shows "prefix (sent_bytes fd (io_log s)) (accepted_bytes fd (io_log s))
    \<and> (\<forall>f. iofds s p = Some f \<and> io_fd f = fd \<longrightarrow>
         accepted_bytes fd (io_log s) = sent_bytes fd (io_log s) @ unsent (io_wq f) \<and> total_len (io_wq f) \<le> FD_MAX_WBUF_SIZE
         \<and> (\<forall>e mem buf. socket_ok e \<longrightarrow> (\<exists>r s'. iofd_write e mem p buf s = Ret (r, s')
              \<and> (r = int (length buf) \<or> r \<le> 0 \<and> (mem \<longrightarrow> sent_bytes fd (io_log s') = sent_bytes fd (io_log s))))))"
proof -
  have "wq_ok w_queue_init" by (simp add: wq_ok_def w_queue_init_def total_len_def)
  then have "w_state p fd s0" using assms(1-5) by (simp add: w_state_def unsent_def w_queue_init_def)
  from w_steps_keep [OF assms(7,6) this] have st: "w_state p fd s \<or> w_closed p fd s" .
  have pre: "prefix (sent_bytes fd (io_log s)) (accepted_bytes fd (io_log s))" using st by (auto simp: w_state_def w_closed_def)
  have "wq_ok (io_wq f)" "accepted_bytes fd (io_log s) = sent_bytes fd (io_log s) @ unsent (io_wq f)" if "iofds s p = Some f" "io_fd f = fd" for f
    using st that by (auto simp: w_state_def w_closed_def io_open_def)
  moreover have "\<exists>r s'. iofd_write e mem p buf s = Ret (r, s') \<and> (r = int (length buf) \<or> r \<le> 0 \<and> (mem \<longrightarrow> sent_bytes fd (io_log s') = sent_bytes fd (io_log s)))"
    if "iofds s p = Some f" "io_fd f = fd" "socket_ok e" for f e mem buf
    using iofd_write_out [OF that(3,1,2) calculation(1) [OF that(1,2)], of mem buf] by (auto simp: write_outcome_def)
  ultimately show ?thesis using pre by (auto simp: wq_ok_def)
qed

subsection \<open>The bytes that come in\<close>

definition received_bytes :: "int \<Rightarrow> io_event list \<Rightarrow> bytes" where
  "received_bytes fd evs = concat (map (\<lambda>ev. case ev of Received fd' bs \<Rightarrow> if fd' = fd then bs else [] | _ \<Rightarrow> []) evs)"

definition packet_bytes :: "int \<Rightarrow> io_event list \<Rightarrow> bytes" where
  "packet_bytes fd evs = concat (map (\<lambda>ev. case ev of Packet fd' bs \<Rightarrow> if fd' = fd then bs else [] | _ \<Rightarrow> []) evs)"

definition r_ok :: "iofd \<Rightarrow> bool" where
  "r_ok f \<longleftrightarrow> r_data f \<le> r_tail f \<and> r_tail f \<le> length (r_buf f) \<and> length (r_buf f) = buff_size f"

definition pending :: "iofd \<Rightarrow> bytes" where
  "pending f = unread f (r_tail f - r_data f)"

lemma received_simps [simp]:
  "received_bytes fd [] = []" "received_bytes fd (evs @ evs') = received_bytes fd evs @ received_bytes fd evs'"
  "received_bytes fd [Received fd' bs] = (if fd' = fd then bs else [])" "received_bytes fd [Packet fd' bs] = []"
  "packet_bytes fd [] = []" "packet_bytes fd (evs @ evs') = packet_bytes fd evs @ packet_bytes fd evs'"
  "packet_bytes fd [Packet fd' bs] = (if fd' = fd then bs else [])" "packet_bytes fd [Received fd' bs] = []"
  by (simp_all add: received_bytes_def packet_bytes_def)

lemma received_filter: "received_bytes fd (filter is_stream evs) = received_bytes fd evs" "packet_bytes fd (filter is_stream evs) = packet_bytes fd evs"
  by (induction evs) (auto simp: received_bytes_def packet_bytes_def is_stream_def split: io_event.split)

lemma quiet_log_received:
  "quiet_log s s' \<Longrightarrow> received_bytes fd (io_log s') = received_bytes fd (io_log s)"
  "quiet_log s s' \<Longrightarrow> packet_bytes fd (io_log s') = packet_bytes fd (io_log s)"
  by (metis quiet_log_def received_filter(1)) (metis quiet_log_def received_filter(2))

text \<open>Reading an open stream: the bytes that came in are those given to the user as packets, followed by those in the buffer.\<close>

definition r_state :: "ptr \<Rightarrow> int \<Rightarrow> io_sys \<Rightarrow> bool" where
  "r_state p fd s \<longleftrightarrow> (\<exists>f. iofds s p = Some f \<and> io_fd f = fd \<and> io_usage f \<noteq> 0 \<and> r_ok f \<and> chk_pkt_f f \<noteq> 0 \<and> post_f f = 0
     \<and> received_bytes fd (io_log s) = packet_bytes fd (io_log s) @ pending f)"

definition r_closed :: "ptr \<Rightarrow> int \<Rightarrow> io_sys \<Rightarrow> bool" where
  "r_closed p fd s \<longleftrightarrow> \<not> io_open p fd s \<and> prefix (packet_bytes fd (io_log s)) (received_bytes fd (io_log s))"

text \<open>
  What the user's functions may do to a descriptor that is being read: anything, as long as they return, do not read from it themselves and leave the object, to which their caller has a
  reference. When they close the descriptor, \<^verbatim>\<open>__iofd_read_data\<close> stops.
\<close>

definition same_reading :: "iofd \<Rightarrow> iofd \<Rightarrow> bool" where
  "same_reading f f' \<longleftrightarrow> r_buf f' = r_buf f \<and> r_data f' = r_data f \<and> r_tail f' = r_tail f \<and> max_pkt_size f' = max_pkt_size f \<and> chk_pkt_f f' = chk_pkt_f f \<and> post_f f' = post_f f
     \<and> has_flag IOFD_READ_RETURN_0 f' = has_flag IOFD_READ_RETURN_0 f"

definition user_effect :: "ptr \<Rightarrow> int \<Rightarrow> io_sys \<Rightarrow> io_sys \<Rightarrow> bool" where
  "user_effect p fd s s' \<longleftrightarrow> received_bytes fd (io_log s') = received_bytes fd (io_log s) \<and> packet_bytes fd (io_log s') = packet_bytes fd (io_log s)
     \<and> (\<exists>f f'. iofds s p = Some f \<and> iofds s' p = Some f' \<and> io_usage f' \<noteq> 0 \<and> (io_fd f' = AOSL_INVALID_FD \<or> io_fd f' = fd \<and> same_reading f f'))"

definition polite_user :: "ptr \<Rightarrow> int \<Rightarrow> io_env \<Rightarrow> bool" where
  "polite_user p fd e \<longleftrightarrow> (\<forall>s f. iofds s p = Some f \<and> io_fd f = fd \<and> io_usage f \<noteq> 0 \<longrightarrow>
     (\<forall>g n. \<exists>s'. user_event e g fd n s = Ret s' \<and> user_effect p fd s s')
     \<and> (\<forall>g bs. \<exists>s'. user_data e g bs s = Ret s' \<and> user_effect p fd s s')
     \<and> (\<forall>g bs. \<exists>n s'. user_check e g bs s = Ret (n, s') \<and> user_effect p fd s s'))"

text \<open>A source of at most \<open>n\<close> bytes.\<close>

definition source_ok :: "io_env \<Rightarrow> int \<Rightarrow> nat \<Rightarrow> bool" where
  "source_ok e fd n \<longleftrightarrow> (\<forall>len s k data. (hal_read e fd len s = (k, data) \<or> (\<exists>g. user_read e g fd len s = (k, data))) \<and> 0 < k
     \<longrightarrow> nat k \<le> len \<and> length data = nat k \<and> length (received_bytes fd (io_log s)) + nat k \<le> n)"

lemma pending_length: "r_ok f \<Longrightarrow> length (pending f) = r_tail f - r_data f" "r_ok f \<Longrightarrow> pending_len f = int (length (pending f))"
  by (auto simp: r_ok_def pending_def unread_def pending_len_def)

lemma buff_size_upd [simp]:
  "buff_size (f\<lparr>r_data := a\<rparr>) = buff_size f" "buff_size (f\<lparr>r_tail := a\<rparr>) = buff_size f" "buff_size (f\<lparr>r_buf := b\<rparr>) = buff_size f" "buff_size (f\<lparr>io_flags := c\<rparr>) = buff_size f"
  by (simp_all add: buff_size_def)

lemma pending_take:
  assumes "r_ok f" and "k \<le> length (pending f)"
  shows "r_ok (f\<lparr>r_data := r_data f + k\<rparr>)" "pending f = unread f k @ pending (f\<lparr>r_data := r_data f + k\<rparr>)"
    "length (pending (f\<lparr>r_data := r_data f + k\<rparr>)) = length (pending f) - k"
proof -
  note ok = assms(1)[unfolded r_ok_def] and k = assms(2)[unfolded pending_length(1) [OF assms(1)]]
  show ok': "r_ok (f\<lparr>r_data := r_data f + k\<rparr>)" using ok k by (auto simp: r_ok_def)
  have "r_tail f - r_data f = k + (r_tail f - (r_data f + k))" using k ok by simp
  then show "pending f = unread f k @ pending (f\<lparr>r_data := r_data f + k\<rparr>)"
    by (simp add: pending_def unread_def take_add drop_drop add.commute)
  show "length (pending (f\<lparr>r_data := r_data f + k\<rparr>)) = length (pending f) - k"
    by (simp add: pending_length(1) [OF ok'] pending_length(1) [OF assms(1)])
qed

lemma pending_zero: "r_data g = 0 \<Longrightarrow> pending g = take (r_tail g) (r_buf g)"
  by (simp add: pending_def unread_def)

lemma pending_move:
  assumes "r_ok f"
  shows "r_ok (move_buffer f)" "pending (move_buffer f) = pending f" "r_tail (move_buffer f) = length (pending f)"
proof -
  have n: "nat (pending_len f) = length (pending f)" "length (pending f) = r_tail f - r_data f" using pending_length [OF assms] by simp_all
  have "unread f (length (pending f)) = pending f" by (simp add: n(2)) (simp add: pending_def)
  then have m: "move_buffer f = f\<lparr>r_buf := pending f @ drop (length (pending f)) (r_buf f), r_data := 0, r_tail := length (pending f)\<rparr>"
    by (simp add: move_buffer_def Let_def n(1))
  have "length (pending f) \<le> length (r_buf f)" using assms n(2) by (auto simp: r_ok_def)
  then show "r_ok (move_buffer f)" using assms by (auto simp: m r_ok_def)
  show "pending (move_buffer f) = pending f" by (simp add: m pending_zero)
  show "r_tail (move_buffer f) = length (pending f)" by (simp add: m)
qed

lemma pending_store:
  assumes "r_ok f" and "length data \<le> buff_size f - r_tail f"
  shows "r_ok (f\<lparr>r_buf := store_bytes (r_tail f) data (r_buf f), r_tail := r_tail f + length data\<rparr>)"
    "pending (f\<lparr>r_buf := store_bytes (r_tail f) data (r_buf f), r_tail := r_tail f + length data\<rparr>) = pending f @ data"
proof -
  note ok = assms(1)[unfolded r_ok_def]
  show "r_ok (f\<lparr>r_buf := store_bytes (r_tail f) data (r_buf f), r_tail := r_tail f + length data\<rparr>)"
    using ok assms(2) by (auto simp: r_ok_def store_bytes_def)
  have "drop (r_data f) (store_bytes (r_tail f) data (r_buf f)) = take (r_tail f - r_data f) (drop (r_data f) (r_buf f)) @ data @ drop (r_tail f + length data) (r_buf f)"
    using ok by (auto simp: store_bytes_def drop_take)
  moreover have "length (take (r_tail f - r_data f) (drop (r_data f) (r_buf f))) = r_tail f - r_data f" using ok by auto
  ultimately show "pending (f\<lparr>r_buf := store_bytes (r_tail f) data (r_buf f), r_tail := r_tail f + length data\<rparr>) = pending f @ data"
    using ok by (simp add: pending_def unread_def del: length_take)
qed

lemma same_reading_state:
  assumes "same_reading f f'"
  shows "r_ok f' = r_ok f" "pending f' = pending f" "pending_len f' = pending_len f" "unread f' k = unread f k"
  using assms by (simp_all add: same_reading_def r_ok_def pending_def unread_def buff_size_def pending_len_def)

definition in_order :: "ptr \<Rightarrow> int \<Rightarrow> io_sys \<Rightarrow> io_sys \<Rightarrow> bool" where
  "in_order p fd s s' \<longleftrightarrow> (r_state p fd s' \<or> r_closed p fd s') \<and> received_bytes fd (io_log s') = received_bytes fd (io_log s)"

lemma in_order_trans: "in_order p fd s s1 \<Longrightarrow> in_order p fd s1 s2 \<Longrightarrow> in_order p fd s s2"
  by (simp add: in_order_def)

lemma user_effect_state:
  assumes r: "r_state p fd s" and f: "iofds s p = Some f" and u: "user_effect p fd s s'" and fd: "fd \<noteq> AOSL_INVALID_FD"
  shows "in_order p fd s s'"
    "\<exists>f'. iofds s' p = Some f' \<and> io_usage f' \<noteq> 0 \<and> (io_fd f' = AOSL_INVALID_FD \<or> io_fd f' = fd \<and> same_reading f f' \<and> r_state p fd s')"
proof -
  from u f obtain f' where f': "iofds s' p = Some f'" "io_usage f' \<noteq> 0" "io_fd f' = AOSL_INVALID_FD \<or> io_fd f' = fd \<and> same_reading f f'" by (auto simp: user_effect_def)
  have log: "received_bytes fd (io_log s') = received_bytes fd (io_log s)" "packet_bytes fd (io_log s') = packet_bytes fd (io_log s)" using u by (simp_all add: user_effect_def)
  have open_: "r_state p fd s'" if "io_fd f' = fd" "same_reading f f'" using that f' log r f same_reading_state [OF that(2)] by (auto simp: r_state_def same_reading_def)
  have closed: "r_closed p fd s'" if "io_fd f' = AOSL_INVALID_FD" using that f' log r f fd by (auto simp: r_closed_def r_state_def io_open_def)
  show "in_order p fd s s'" using f'(3) open_ closed log by (auto simp: in_order_def)
  show "\<exists>f'. iofds s' p = Some f' \<and> io_usage f' \<noteq> 0 \<and> (io_fd f' = AOSL_INVALID_FD \<or> io_fd f' = fd \<and> same_reading f f' \<and> r_state p fd s')" using f' open_ by blast
qed

lemma close_read:
  assumes r: "r_state p fd s" and f: "iofds s p = Some f" and fd: "fd \<noteq> AOSL_INVALID_FD"
  shows "\<exists>r s'. this_q_close_f e q p s = Ret (r, s') \<and> in_order p fd s s'"
proof -
  from r f have u: "io_usage f \<noteq> 0" by (auto simp: r_state_def)
  from close_any [OF f u, of e q] obtain r0 s' where c: "this_q_close_f e q p s = Ret (r0, s')" "quiet_log s s'"
    "(\<exists>t. iofds s' p = Some (f\<lparr>io_timer := t\<rparr>)) \<or> iofds s' p = None \<or> (\<exists>f'. iofds s' p = Some f' \<and> io_fd f' = AOSL_INVALID_FD)" by blast
  have t: "r_ok (f\<lparr>io_timer := t\<rparr>) = r_ok f" "pending (f\<lparr>io_timer := t\<rparr>) = pending f" for t
    by (simp_all add: r_ok_def pending_def unread_def buff_size_def)
  have "in_order p fd s s'" using c(3) r f fd quiet_log_received [OF c(2), of fd] by (auto simp: in_order_def r_state_def r_closed_def io_open_def t)
  with c(1) show ?thesis by blast
qed

lemma event_and_close_read:
  assumes r: "r_state p fd s" and fd: "fd \<noteq> AOSL_INVALID_FD" and e: "polite_user p fd e"
  shows "\<exists>s'. f_event_and_close e q p err s = Ret s' \<and> in_order p fd s s'"
proof -
  from r obtain f where f: "iofds s p = Some f" "io_fd f = fd" "io_usage f \<noteq> 0" by (auto simp: r_state_def)
  let ?s = "log_io (Event fd err) s"
  have rs: "r_state p fd ?s" "iofds ?s p = Some f" "in_order p fd s ?s" using r f by (auto simp: r_state_def log_io_def in_order_def received_bytes_def packet_bytes_def)
  obtain s1 where s1: "user_event e (event_f f) fd err ?s = Ret s1" "user_effect p fd ?s s1" using e rs(2) f unfolding polite_user_def by blast
  note ue = user_effect_state [OF rs(1,2) s1(2) fd]
  obtain s2 f2 where s2: "(if event_f f \<noteq> 0 then user_event e (event_f f) fd err ?s else Ret s) = Ret s2" "in_order p fd s s2" "iofds s2 p = Some f2"
    "io_fd f2 = AOSL_INVALID_FD \<or> io_fd f2 = fd \<and> r_state p fd s2"
  proof (cases "event_f f = 0")
    case True
    then show ?thesis using that [of s f] f r by (simp add: in_order_def)
  next
    case False
    then show ?thesis using that [of s1] s1 ue rs(3) in_order_trans by fastforce
  qed
  have fec: "f_event_and_close e q p err s = (if io_fd f2 = AOSL_INVALID_FD then Ret s2 else ebind (this_q_close_f e q p s2) (\<lambda>(_, s). Ret s))"
    using s2(1,3) f fd by (cases "event_f f = 0") (auto simp: f_event_and_close_def iofd_at_def aosl_fd_invalid_def)
  show ?thesis
  proof (cases "io_fd f2 = AOSL_INVALID_FD")
    case True
    then show ?thesis using s2(2) by (simp add: fec)
  next
    case False
    then have r2: "r_state p fd s2" using s2(4) by blast
    from close_read [OF r2 s2(3) fd, of e q] obtain r0 s' where "this_q_close_f e q p s2 = Ret (r0, s')" "in_order p fd s2 s'" by blast
    then show ?thesis using False in_order_trans [OF s2(2)] by (simp add: fec)
  qed
qed

text \<open>One turn of the inner loop of \<^verbatim>\<open>__iofd_read_data\<close> gives a packet and moves on behind it, or stops because the data function closed the descriptor.\<close>

lemma give_packet_run:
  assumes r: "r_state p fd s" and f: "iofds s p = Some f" and e: "polite_user p fd e" and fd: "fd \<noteq> AOSL_INVALID_FD" and n: "0 \<le> n" "nat n \<le> length (pending f)"
  shows "(\<exists>s'. in_order p fd s s' \<and> (\<forall>rest. give_packet e p n s rest = Ret (Finished 0, s')))
    \<or> (\<exists>s' f'. r_state p fd s' \<and> in_order p fd s s' \<and> iofds s' p = Some f' \<and> length (pending f') = length (pending f) - nat n
         \<and> has_flag IOFD_READ_RETURN_0 f' = has_flag IOFD_READ_RETURN_0 f \<and> (\<forall>rest. give_packet e p n s rest = rest s'))"
proof -
  from r f have st: "io_fd f = fd" "io_usage f \<noteq> 0" "r_ok f" "chk_pkt_f f \<noteq> 0" "post_f f = 0" "received_bytes fd (io_log s) = packet_bytes fd (io_log s) @ pending f" by (auto simp: r_state_def)
  let ?s = "log_io (Packet fd (unread f (nat n))) s"
  have at: "iofds ?s p = Some f" using f by (simp add: log_io_def)
  obtain s1 where s1: "user_data e (io_data_f f) (unread f (nat n)) ?s = Ret s1" "user_effect p fd ?s s1" using e at st(1,2) unfolding polite_user_def by blast
  from s1(2) at obtain f1 where f1: "iofds s1 p = Some f1" "io_usage f1 \<noteq> 0" "io_fd f1 = AOSL_INVALID_FD \<or> io_fd f1 = fd \<and> same_reading f f1" by (auto simp: user_effect_def)
  have log: "received_bytes fd (io_log s1) = received_bytes fd (io_log s)" "packet_bytes fd (io_log s1) = packet_bytes fd (io_log s) @ unread f (nat n)"
    using s1(2) by (simp_all add: user_effect_def log_io_def)
  note pt = pending_take [OF st(3) n(2)]
  have give: "give_packet e p n s rest = unless_closed p s1 (\<lambda>_ s. ebind (upd_iofd p (\<lambda>f. f\<lparr>r_data := r_data f + nat n\<rparr>) s) rest)" for rest
    using f st n s1(1) by (simp add: give_packet_def iofd_at_def Let_def)
  show ?thesis
  proof (cases "io_fd f1 = AOSL_INVALID_FD")
    case True
    have "prefix (packet_bytes fd (io_log s1)) (received_bytes fd (io_log s1))" using log st(6) pt(2) by simp
    then have "in_order p fd s s1" using True f1 fd log by (simp add: in_order_def r_closed_def io_open_def)
    then show ?thesis using True f1 give by (simp add: unless_closed_def iofd_at_def aosl_fd_invalid_def)
  next
    case False
    then have same: "io_fd f1 = fd" "same_reading f f1" using f1(3) by simp_all
    let ?f = "f1\<lparr>r_data := r_data f1 + nat n\<rparr>"
    let ?s2 = "s1\<lparr>iofds := (iofds s1)(p \<mapsto> ?f)\<rparr>"
    have sr: "same_reading (f\<lparr>r_data := r_data f + nat n\<rparr>) ?f" using same(2) by (simp add: same_reading_def has_flag_def)
    note srs = same_reading_state [OF sr]
    have r2: "r_state p fd ?s2" using srs pt same(1) f1(2) st log sr by (simp add: r_state_def) (simp add: same_reading_def)
    have "give_packet e p n s rest = rest ?s2" for rest using False f1(1) give by (simp add: unless_closed_def iofd_at_def aosl_fd_invalid_def upd_iofd_def)
    moreover have "has_flag IOFD_READ_RETURN_0 ?f = has_flag IOFD_READ_RETURN_0 f" using same(2) by (simp add: same_reading_def has_flag_def)
    moreover have "in_order p fd s ?s2" using r2 log by (simp add: in_order_def)
    ultimately show ?thesis using r2 srs(2) pt(3) by (intro disjI2 exI [of _ ?s2] exI [of _ ?f]) simp
  qed
qed

lemma check_run:
  assumes r: "r_state p fd s" and f: "iofds s p = Some f" and e: "polite_user p fd e" and fd: "fd \<noteq> AOSL_INVALID_FD"
  shows "(\<exists>n s' f'. 0 \<le> n \<and> n \<le> int (length (pending f)) \<and> r_state p fd s' \<and> in_order p fd s s' \<and> iofds s' p = Some f' \<and> same_reading f f'
         \<and> (\<forall>rest. check_packet e q p s rest = rest n s'))
    \<or> (\<exists>r s'. in_order p fd s s' \<and> (\<forall>rest. check_packet e q p s rest = Ret (Finished r, s')))"
proof -
  from r f have st: "io_fd f = fd" "io_usage f \<noteq> 0" "r_ok f" "chk_pkt_f f \<noteq> 0" by (auto simp: r_state_def)
  show ?thesis
  proof (cases "pending f = []")
    case True
    have "\<forall>rest. check_packet e q p s rest = rest 0 s" using True f pending_length(2) [OF st(3)] by (simp add: check_packet_def iofd_at_def)
    moreover have "same_reading f f" "in_order p fd s s" using r by (simp_all add: same_reading_def in_order_def)
    ultimately show ?thesis using r f by (intro disjI1 exI [of _ 0] exI [of _ s] exI [of _ f]) simp
  next
    case False
    then have pl: "0 < pending_len f" "pending_len f = int (length (pending f))" using pending_length(2) [OF st(3)] by simp_all
    obtain n s1 where s1: "user_check e (chk_pkt_f f) (unread f (nat (pending_len f))) s = Ret (n, s1)" "user_effect p fd s s1"
      using e f st(1,2) unfolding polite_user_def by blast
    note ue = user_effect_state [OF r f s1(2) fd]
    then obtain f1 where f1: "iofds s1 p = Some f1" "io_fd f1 = AOSL_INVALID_FD \<or> io_fd f1 = fd \<and> same_reading f f1 \<and> r_state p fd s1" by blast
    have run: "check_packet e q p s rest = (if io_fd f1 = AOSL_INVALID_FD then Ret (Finished 0, s1) else if n < 0 \<or> pending_len f1 < n
       then ebind (f_event_and_close e q p (if n < 0 then n else - AOSL_EINVAL) s1) (\<lambda>s. Ret (Finished (if 0 < n then - AOSL_EINVAL else n), s)) else rest n s1)" for rest
      using f st pl s1(1) f1(1) by (simp add: check_packet_def iofd_at_def unless_closed_def aosl_fd_invalid_def)
    show ?thesis
    proof (cases "io_fd f1 = AOSL_INVALID_FD")
      case True
      then show ?thesis using ue(1) by (auto simp: run)
    next
      case op: False
      then have r1: "r_state p fd s1" and same: "same_reading f f1" using f1(2) by simp_all
      show ?thesis
      proof (cases "n < 0 \<or> pending_len f1 < n")
        case True
        from event_and_close_read [OF r1 fd e, of q "if n < 0 then n else - AOSL_EINVAL"] obtain s' where
          "f_event_and_close e q p (if n < 0 then n else - AOSL_EINVAL) s1 = Ret s'" "in_order p fd s1 s'" by blast
        then show ?thesis using True op in_order_trans [OF ue(1)] by (auto simp: run)
      next
        case False
        then show ?thesis using pl same_reading_state(3) [OF same] op r1 ue(1) f1(1) same by (intro disjI1 exI [of _ n] exI [of _ s1] exI [of _ f1]) (auto simp: run)
      qed
    qed
  qed
qed

text \<open>The inner loop ends: for more bytes with the stream in order, or for good.\<close>

lemma read_packets_run:
  assumes e: "polite_user p fd e" and fd: "fd \<noteq> AOSL_INVALID_FD"
  shows "r_state p fd s \<Longrightarrow> iofds s p = Some f \<Longrightarrow> length (pending f) < fuel \<Longrightarrow>
    \<exists>x s'. read_packets fuel e q p s = Ret (x, s') \<and> in_order p fd s s'
      \<and> (x = More_bytes \<longrightarrow> r_state p fd s' \<and> \<not> has_flag IOFD_READ_RETURN_0 f \<and> (\<exists>f'. iofds s' p = Some f' \<and> length (pending f') \<le> length (pending f)))"
proof (induction fuel arbitrary: s f)
  case (Suc fuel)
  from check_run [OF Suc.prems(1,2) e fd, of q]
  consider (go) n s1 f1 where "0 \<le> n" "n \<le> int (length (pending f))" "r_state p fd s1" "in_order p fd s s1" "iofds s1 p = Some f1" "same_reading f f1"
      "\<forall>rest. check_packet e q p s rest = rest n s1"
    | (bad) r0 s' where "in_order p fd s s'" "\<forall>rest. check_packet e q p s rest = Ret (Finished r0, s')" by blast
  then show ?case
  proof cases
    case bad
    then show ?thesis by simp
  next
    case go
    have pend: "pending f1 = pending f" and flag: "has_flag IOFD_READ_RETURN_0 f1 = has_flag IOFD_READ_RETURN_0 f"
      using same_reading_state(2) [OF go(6)] go(6) by (simp_all add: same_reading_def)
    have n: "nat n \<le> length (pending f1)" using go pend by simp
    have chk: "chk_pkt_f g \<noteq> 0" if "r_state p fd s'" "iofds s' p = Some g" for s' g using that by (auto simp: r_state_def)
    show ?thesis
    proof (cases "0 < n \<or> has_flag IOFD_READ_RETURN_0 f")
      case False
      then have "n = 0" using go(1) by simp
      then show ?thesis using go False flag pend by (auto simp: iofd_at_def)
    next
      case give: True
      from give_packet_run [OF go(3,5) e fd go(1) n]
      consider (stop) s' where "in_order p fd s1 s'" "\<forall>rest. give_packet e p n s1 rest = Ret (Finished 0, s')"
        | (on) s2 f2 where "r_state p fd s2" "in_order p fd s1 s2" "iofds s2 p = Some f2" "length (pending f2) = length (pending f1) - nat n"
            "has_flag IOFD_READ_RETURN_0 f2 = has_flag IOFD_READ_RETURN_0 f1" "\<forall>rest. give_packet e p n s1 rest = rest s2" by blast
      then show ?thesis
      proof cases
        case stop
        then show ?thesis using go(5,7) give flag in_order_trans [OF go(4)] by (simp add: iofd_at_def)
      next
        case on
        have ord: "in_order p fd s s2" by (rule in_order_trans [OF go(4) on(2)])
        show ?thesis
        proof (cases "has_flag IOFD_READ_RETURN_0 f")
          case True
          then show ?thesis using go(5,7) on flag ord chk [OF on(1,3)] by (simp add: iofd_at_def)
        next
          case no: False
          then have pos: "0 < n" using give by simp
          have "length (pending f2) < fuel" using on(4) Suc.prems(3) pos n pend by auto
          from Suc.IH [OF on(1,3) this] obtain x s' where ih: "read_packets fuel e q p s2 = Ret (x, s')" "in_order p fd s2 s'"
            "x = More_bytes \<longrightarrow> r_state p fd s' \<and> \<not> has_flag IOFD_READ_RETURN_0 f2 \<and> (\<exists>f'. iofds s' p = Some f' \<and> length (pending f') \<le> length (pending f2))" by blast
          have "read_packets (Suc fuel) e q p s = Ret (x, s')" using go(5,7) pos no on flag ih(1) by (simp add: iofd_at_def)
          moreover have "in_order p fd s s'" by (rule in_order_trans [OF ord ih(2)])
          ultimately show ?thesis using ih(3) on(4) no pend by (auto intro: le_trans)
        qed
      qed
    qed
  qed
qed simp

lemma call_read_run:
  assumes src: "source_ok e (io_fd f) n" and c: "call_read e f len s = (k, data, s')"
  shows "iofds s' = iofds s" "k \<le> 0 \<Longrightarrow> io_log s' = io_log s"
    "0 < k \<Longrightarrow> io_log s' = io_log s @ [Received (io_fd f) data] \<and> nat k \<le> len \<and> length data = nat k \<and> length (received_bytes (io_fd f) (io_log s)) + nat k \<le> n"
proof -
  have h: "nat k' \<le> len \<and> length data' = nat k' \<and> length (received_bytes (io_fd f) (io_log s)) + nat k' \<le> n"
    if "hal_read e (io_fd f) len s = (k', data') \<or> (\<exists>g. user_read e g (io_fd f) len s = (k', data'))" "0 < k'" for k' data'
    using src that unfolding source_ok_def by blast
  obtain k' data' where r: "(if read_f f = AOSL_DEFAULT_FN then hal_read e (io_fd f) len s else user_read e (read_f f) (io_fd f) len s) = (k', data')" by fastforce
  have pos: "0 < k' \<Longrightarrow> nat k' \<le> len \<and> length data' = nat k' \<and> length (received_bytes (io_fd f) (io_log s)) + nat k' \<le> n"
    using h [of k' data'] r by (metis (full_types))
  show "iofds s' = iofds s" "k \<le> 0 \<Longrightarrow> io_log s' = io_log s"
    "0 < k \<Longrightarrow> io_log s' = io_log s @ [Received (io_fd f) data] \<and> nat k \<le> len \<and> length data = nat k \<and> length (received_bytes (io_fd f) (io_log s)) + nat k \<le> n"
    using c r pos by (auto simp: call_read_def default_read_def aosl_hal_set_error_def hal_error_def log_io_def Let_def split: if_splits)
qed

text \<open>Making room keeps the bytes.\<close>

lemma make_room:
  assumes "r_state p fd s" and "iofds s p = Some f"
  defines "g \<equiv> (if iofd_better_move_buffer f then move_buffer f else f)"
  shows "upd_iofd p (\<lambda>f. if iofd_better_move_buffer f then move_buffer f else f) s = Ret (s\<lparr>iofds := (iofds s)(p \<mapsto> g)\<rparr>)"
    "r_ok g" "pending g = pending f" "io_fd g = fd" "io_usage g \<noteq> 0" "chk_pkt_f g \<noteq> 0" "post_f g = 0" "io_flags g = io_flags f"
proof -
  from assms have f: "io_fd f = fd" "io_usage f \<noteq> 0" "r_ok f" "chk_pkt_f f \<noteq> 0" "post_f f = 0" by (auto simp: r_state_def)
  show "upd_iofd p (\<lambda>f. if iofd_better_move_buffer f then move_buffer f else f) s = Ret (s\<lparr>iofds := (iofds s)(p \<mapsto> g)\<rparr>)"
    using assms(2) by (simp add: upd_iofd_Ret g_def)
  show "r_ok g" "pending g = pending f" "io_fd g = fd" "io_usage g \<noteq> 0" "chk_pkt_f g \<noteq> 0" "post_f g = 0" "io_flags g = io_flags f"
    using f pending_move [OF f(3)] by (simp_all add: g_def move_buffer_def Let_def)
qed

lemma has_set_flag: "b \<noteq> 0 \<Longrightarrow> has_flag b (set_flag b f)"
proof -
  have "(io_flags f OR b) AND b = b" by (rule bit_word_eqI) (auto simp: bit_simps)
  then show "b \<noteq> 0 \<Longrightarrow> has_flag b (set_flag b f)" by (simp add: has_flag_def set_flag_def)
qed

lemma set_flag_keeps [simp]:
  "r_ok (set_flag b f) = r_ok f" "pending (set_flag b f) = pending f" "buff_size (set_flag b f) = buff_size f" "io_fd (set_flag b f) = io_fd f" "io_usage (set_flag b f) = io_usage f"
  "chk_pkt_f (set_flag b f) = chk_pkt_f f" "post_f (set_flag b f) = post_f f" "r_tail (set_flag b f) = r_tail f" "r_data (set_flag b f) = r_data f" "r_buf (set_flag b f) = r_buf f"
  by (simp_all add: set_flag_def r_ok_def pending_def unread_def buff_size_def)

lemma read_data_at_end:
  assumes "polite_user p fd e" and "fd \<noteq> AOSL_INVALID_FD" and "r_state p fd s" and "iofds s p = Some f" and "has_flag IOFD_READ_RETURN_0 f" and "length (pending f) < fuel"
  shows "\<exists>r s'. iofd_read_data fuel e q p s = Ret (r, s') \<and> in_order p fd s s'"
proof -
  from assms(6) obtain fuel' where fuel: "fuel = Suc fuel'" by (cases fuel) auto
  from read_packets_run [OF assms(1-4,6), of q] assms(5) obtain x s' where "read_packets fuel e q p s = Ret (x, s')" "in_order p fd s s'" "x \<noteq> More_bytes" by blast
  then show ?thesis by (cases x) (simp_all add: fuel)
qed

text \<open>The state after a successful read of \<open>data\<close>.\<close>

definition after_read :: "ptr \<Rightarrow> iofd \<Rightarrow> bytes \<Rightarrow> io_sys \<Rightarrow> io_sys" where
  "after_read p g data s = s\<lparr>iofds := (iofds s)(p \<mapsto> (set_flag AOSL_POLLIN g)\<lparr>r_buf := store_bytes (r_tail g) data (r_buf g), r_tail := r_tail g + length data\<rparr>)\<rparr>"

lemma after_read_state:
  assumes g: "r_ok g" "io_fd g = fd" "io_usage g \<noteq> 0" "chk_pkt_f g \<noteq> 0" "post_f g = 0"
    and log: "io_log s1 = io_log s @ [Received fd data]" and len: "length data \<le> buff_size g - r_tail g"
    and ord: "received_bytes fd (io_log s) = packet_bytes fd (io_log s) @ pending g"
  shows "r_state p fd (after_read p g data s1)"
    and "\<exists>f'. iofds (after_read p g data s1) p = Some f' \<and> length (pending f') = length (pending g) + length data"
proof -
  let ?g = "set_flag AOSL_POLLIN g"
  have st: "r_ok (?g\<lparr>r_buf := store_bytes (r_tail g) data (r_buf g), r_tail := r_tail g + length data\<rparr>)"
    "pending (?g\<lparr>r_buf := store_bytes (r_tail g) data (r_buf g), r_tail := r_tail g + length data\<rparr>) = pending g @ data"
    using pending_store [of ?g data] g(1) len by simp_all
  show "r_state p fd (after_read p g data s1)" using g log ord st by (simp add: r_state_def after_read_def)
  show "\<exists>f'. iofds (after_read p g data s1) p = Some f' \<and> length (pending f') = length (pending g) + length data" using st(2) by (simp add: after_read_def)
qed

lemma read_data_run:
  assumes e: "polite_user p fd e" and fd: "fd \<noteq> AOSL_INVALID_FD" and src: "source_ok e fd n"
  shows "r_state p fd s \<Longrightarrow> iofds s p = Some f \<Longrightarrow> 2 * (n - length (received_bytes fd (io_log s))) + length (pending f) + 3 \<le> fuel \<Longrightarrow>
    \<exists>r s'. iofd_read_data fuel e q p s = Ret (r, s') \<and> (r_state p fd s' \<or> r_closed p fd s') \<and> prefix (received_bytes fd (io_log s)) (received_bytes fd (io_log s'))"
proof (induction fuel arbitrary: s f)
  case (Suc fuel)
  have "length (pending f) < Suc fuel" using Suc.prems(3) by simp
  from read_packets_run [OF e fd Suc.prems(1,2) this, of q] obtain x s1 where p1: "read_packets (Suc fuel) e q p s = Ret (x, s1)" "in_order p fd s s1"
    "x = More_bytes \<longrightarrow> r_state p fd s1 \<and> \<not> has_flag IOFD_READ_RETURN_0 f \<and> (\<exists>f'. iofds s1 p = Some f' \<and> length (pending f') \<le> length (pending f))" by blast
  have rec: "received_bytes fd (io_log s1) = received_bytes fd (io_log s)" using p1(2) by (simp add: in_order_def)
  show ?case
  proof (cases x)
    case (Finished r)
    then show ?thesis using p1 by (simp add: in_order_def)
  next
    case More_bytes
    with p1(3) obtain f1 where r1: "r_state p fd s1" and f1: "iofds s1 p = Some f1" "length (pending f1) \<le> length (pending f)" by blast
    define g where "g = (if iofd_better_move_buffer f1 then move_buffer f1 else f1)"
    note room = make_room [OF r1 f1(1), folded g_def]
    let ?s2 = "s1\<lparr>iofds := (iofds s1)(p \<mapsto> g)\<rparr>"
    obtain k data s3 where c: "call_read e g (buff_size g - r_tail g) ?s2 = (k, data, s3)" by (metis prod_cases3)
    note cr = call_read_run [OF src [folded room(4)] c]
    let ?g = "set_flag AOSL_POLLIN g"
    let ?s4 = "s3\<lparr>iofds := (iofds s3)(p \<mapsto> ?g)\<rparr>"
    have ios3: "iofds s3 p = Some g" using cr(1) by simp
    have ord: "received_bytes fd (io_log s1) = packet_bytes fd (io_log s1) @ pending g" using r1 f1(1) room(3) by (auto simp: r_state_def)
    have run: "iofd_read_data (Suc fuel) e q p s =
       (if k < 0 then (if k \<noteq> - AOSL_EAGAIN then ebind (f_event_and_close e q p k ?s4) (\<lambda>s. Ret (k, s)) else Ret (0, ?s4))
        else if k = 0 then ebind (upd_iofd p (set_flag IOFD_READ_RETURN_0) ?s4) (iofd_read_data fuel e q p)
        else if length data \<noteq> nat k \<or> buff_size g - r_tail g < nat k then Fault
        else ebind (upd_iofd p (\<lambda>f. f\<lparr>r_buf := store_bytes (r_tail f) data (r_buf f), r_tail := r_tail f + nat k\<rparr>) ?s4) (iofd_read_data fuel e q p))"
      using c by (simp add: p1(1) More_bytes room(1) iofd_at_def upd_iofd_Ret [OF ios3] del: read_packets.simps)
    consider (err) "k < 0" | (zero) "k = 0" | (some) "0 < k" by linarith
    then show ?thesis
    proof cases
      case err
      have r4: "r_state p fd ?s4" and same: "received_bytes fd (io_log ?s4) = received_bytes fd (io_log s)" using cr(2) err room ord rec by (simp_all add: r_state_def)
      from event_and_close_read [OF r4 fd e, of q k] same r4 err show ?thesis by (auto simp: run in_order_def simp del: iofd_read_data.simps)
    next
      case zero
      let ?h = "set_flag IOFD_READ_RETURN_0 ?g"
      let ?s5 = "?s4\<lparr>iofds := (iofds ?s4)(p \<mapsto> ?h)\<rparr>"
      have r5: "r_state p fd ?s5" and same: "received_bytes fd (io_log ?s5) = received_bytes fd (io_log s)" using cr(2) zero room ord rec by (simp_all add: r_state_def)
      have fl: "has_flag IOFD_READ_RETURN_0 ?h" by (rule has_set_flag) (simp add: IOFD_READ_RETURN_0_def)
      have "length (pending ?h) < fuel" using room(3) f1(2) Suc.prems(3) by simp
      from read_data_at_end [OF e fd r5 _ fl this, of q] same zero show ?thesis by (auto simp: run upd_iofd_Ret in_order_def simp del: iofd_read_data.simps)
    next
      case some
      from cr(3) [OF some] have c3: "io_log s3 = io_log s1 @ [Received fd data]" "nat k \<le> buff_size g - r_tail g" "length data = nat k"
        "length (received_bytes fd (io_log s)) + nat k \<le> n" using room(4) rec by simp_all
      let ?s5 = "after_read p g data s3"
      have r5: "r_state p fd ?s5" "\<exists>f'. iofds ?s5 p = Some f' \<and> length (pending f') = length (pending g) + length data"
        by (rule after_read_state [OF room(2,4,5,6,7) c3(1) _ ord], use c3 in simp)+
      then obtain f5 where f5: "iofds ?s5 p = Some f5" "length (pending f5) = length (pending g) + length data" by blast
      have rec5: "received_bytes fd (io_log ?s5) = received_bytes fd (io_log s) @ data" using c3(1) rec by (simp add: after_read_def)
      have "2 * (n - length (received_bytes fd (io_log ?s5))) + length (pending f5) + 3 \<le> fuel"
        using rec5 f5(2) c3(3,4) some room(3) f1(2) Suc.prems(3) by simp
      from Suc.IH [OF r5(1) f5(1) this] obtain r s' where ih: "iofd_read_data fuel e q p ?s5 = Ret (r, s')" "r_state p fd s' \<or> r_closed p fd s'"
        "prefix (received_bytes fd (io_log ?s5)) (received_bytes fd (io_log s'))" by blast
      have "iofd_read_data (Suc fuel) e q p s = Ret (r, s')" using some c3 ih(1) by (simp add: run upd_iofd_Ret after_read_def del: iofd_read_data.simps)
      moreover have "prefix (received_bytes fd (io_log s)) (received_bytes fd (io_log s'))" using ih(3) rec5 by (auto simp: prefix_def)
      ultimately show ?thesis using ih(2) by blast
    qed
  qed
qed simp

subsection \<open>The properties\<close>

text \<open>A socket that takes two bytes at a time and gives out \<open>input\<close>, and a check function for packets of three bytes: an environment for examples.\<close>

definition sample_env :: "bytes \<Rightarrow> io_env" where
  "sample_env input =
     \<lparr>hal_read = (\<lambda>fd len s. let rest = drop (length (received_bytes fd (io_log s))) input in
        if rest = [] then (AOSL_HAL_RET_EAGAIN, []) else (int (length (take len rest)), take len rest)),
      hal_write = (\<lambda>fd buf s. int (min 2 (length buf))), hal_close = (\<lambda>_ _. 0), user_read = (\<lambda>_ _ _ _. (- 1, [])), user_write = (\<lambda>_ _ _ _. - 1),
      user_check = (\<lambda>_ bs s. Ret (if length bs < 3 then 0 else 3, s)), user_post = (\<lambda>_ _ s. Ret (0, s)), user_data = (\<lambda>_ _ s. Ret s),
      user_event = (\<lambda>_ _ _ s. Ret s), user_put_fd = (\<lambda>_ _ _. 0), add_event = (\<lambda>_ _. 0), oneshot_timer = (\<lambda>_ _. 0)\<rparr>"

definition sample_iofd :: iofd where
  "sample_iofd =
     \<lparr>io_fd = 5, io_usage = 1, io_life = 0, io_flags = 0, io_qid = 7, io_timer = TIMER_INVALID, max_pkt_size = 1024, r_buf = replicate 2048 0, r_data = 0, r_tail = 0,
      r_extra_size = 0, io_wq = w_queue_init, read_f = AOSL_DEFAULT_FN, write_f = AOSL_DEFAULT_FN, chk_pkt_f = 4, post_f = 0, put_fd_f = 0, io_data_f = 4, event_f = 0, io_argv = []\<rparr>"

definition sample_sys :: io_sys where
  "sample_sys = \<lparr>iofds = [3 \<mapsto> sample_iofd], attached_fds = [5 \<mapsto> 3], fobj_life_id = 1, q_iofds = (\<lambda>q. if q = 7 then [3] else []),
     q_iofd_count = (\<lambda>q. if q = 7 then 1 else 0), io_log = [], io_errno = 0\<rparr>"

lemma sample_env_ok: "socket_ok (sample_env input)" "polite_user p fd (sample_env input)" "source_ok (sample_env input) fd (length input)"
  by (auto simp: sample_env_def socket_ok_def polite_user_def user_effect_def same_reading_def source_ok_def Let_def split: if_splits)

theorem write_stream_in_order_witness:
  "\<exists>s. (w_step 3 5)\<^sup>*\<^sup>* sample_sys s \<and> accepted_bytes 5 (io_log s) = [1, 2, 3] \<and> prefix (sent_bytes 5 (io_log s)) (accepted_bytes 5 (io_log s)) \<and> sent_bytes 5 (io_log s) = [1, 2]"
proof -
  obtain s where s: "iofd_write (sample_env []) True 3 [1, 2, 3] sample_sys = Ret (3, s)" "sent_bytes 5 (io_log s) = [1, 2]" "accepted_bytes 5 (io_log s) = []"
    by (simp add: iofd_write_def iofd_at_def sample_sys_def sample_iofd_def sample_env_def w_queue_init_def w_queue_space_def FD_MAX_WBUF_SIZE_def has_flag_def sent_def log_io_def
        upd_iofd_def set_flag_def Let_def)
  define s' where "s' = log_io (Accepted 5 (write_taken 5 [1, 2, 3] 3 sample_sys s)) s"
  have "w_call 3 5 sample_sys s'"
    unfolding s'_def by (rule w_call.Accept [OF sample_env_ok(1) _ s(1)]) (simp add: io_open_def sample_sys_def sample_iofd_def)
  then have run: "(w_step 3 5)\<^sup>*\<^sup>* sample_sys s'" by (blast intro: w_step.Call)
  from write_stream_in_order [OF _ _ _ _ _ _ run, of sample_iofd] have "prefix (sent_bytes 5 (io_log s')) (accepted_bytes 5 (io_log s'))"
    by (simp add: sample_sys_def sample_iofd_def AOSL_INVALID_FD_def)
  moreover have "accepted_bytes 5 (io_log s') = [1, 2, 3]" "sent_bytes 5 (io_log s') = [1, 2]" using s by (simp_all add: s'_def log_io_def write_taken_def)
  ultimately show ?thesis using run by blast
qed

text \<open>
  C6. Reading keeps the order and loses nothing: for a stream with a check function and no post function, whose check, data and event functions may do anything, closing the descriptor
  included, except read from it themselves, \<^verbatim>\<open>__iofd_read_data\<close> returns once the source runs dry, stays within its buffer, and the bytes received are then the packets given to the
  user one after the other, followed by the bytes still in the buffer; a descriptor that was closed on the way has given out a prefix.
\<close>

theorem read_stream_in_order:
  assumes "polite_user p fd e" and "fd \<noteq> AOSL_INVALID_FD" and "source_ok e fd n"
    and "iofds s p = Some f" and "io_fd f = fd" and "io_usage f \<noteq> 0" and "r_ok f" and "chk_pkt_f f \<noteq> 0" and "post_f f = 0"
    and "received_bytes fd (io_log s) = packet_bytes fd (io_log s) @ pending f"
    and "2 * (n - length (received_bytes fd (io_log s))) + length (pending f) + 3 \<le> fuel"
  shows "\<exists>r s'. iofd_read_data fuel e q p s = Ret (r, s') \<and> prefix (received_bytes fd (io_log s)) (received_bytes fd (io_log s'))
    \<and> ((\<exists>f'. iofds s' p = Some f' \<and> io_fd f' = fd \<and> r_ok f' \<and> received_bytes fd (io_log s') = packet_bytes fd (io_log s') @ pending f')
      \<or> \<not> io_open p fd s' \<and> prefix (packet_bytes fd (io_log s')) (received_bytes fd (io_log s')))"
proof -
  have "r_state p fd s" using assms(4-10) by (simp add: r_state_def)
  from read_data_run [OF assms(1-3) this assms(4,11), of q] show ?thesis unfolding r_state_def r_closed_def by blast
qed

theorem read_stream_in_order_witness:
  "\<exists>r s'. iofd_read_data 11 (sample_env [1, 2, 3, 4]) 7 3 sample_sys = Ret (r, s') \<and> prefix (packet_bytes 5 (io_log s')) (received_bytes 5 (io_log s'))"
proof -
  have "fd \<noteq> - 1 \<Longrightarrow> fd \<noteq> AOSL_INVALID_FD" for fd by (simp add: AOSL_INVALID_FD_def)
  moreover have "r_ok sample_iofd" "pending sample_iofd = []" by (simp_all add: r_ok_def sample_iofd_def buff_size_def pending_def unread_def)
  ultimately show ?thesis
    using read_stream_in_order [OF sample_env_ok(2) _ sample_env_ok(3), of 5 sample_sys 3 sample_iofd "[1, 2, 3, 4]" 11 7]
    by (fastforce simp: sample_sys_def sample_iofd_def)
qed

text \<open>
  How much \<^verbatim>\<open>__iofd_read_data\<close> asks for: after \<^verbatim>\<open>__iofd_better_move_buffer\<close> had its say there is room in the buffer unless it is filled completely with the beginning of one packet.
  In that case the length is 0, and the 0 bytes that a read of length 0 returns are taken for the end of the stream.
\<close>

theorem read_has_room:
  assumes "r_ok f" and "chk_pkt_f f \<noteq> 0" and "FD_MAX_PACKET_SIZE_MIN \<le> max_pkt_size f"
  defines "g \<equiv> (if iofd_better_move_buffer f then move_buffer f else f)"
  shows "buff_size g - r_tail g = 0 \<longleftrightarrow> length (pending f) = buff_size f"
proof -
  have size: "buff_size g = max_pkt_size f * 2" using assms(2) by (simp add: g_def buff_size_def move_buffer_def Let_def)
  have len: "length (pending f) = r_tail f - r_data f" "r_data f \<le> r_tail f" "r_tail f \<le> buff_size f" using assms(1) pending_length(1) by (auto simp: r_ok_def)
  have bf: "buff_size f = max_pkt_size f * 2" using assms(2) by (simp add: buff_size_def)
  show ?thesis
  proof (cases "iofd_better_move_buffer f")
    case True
    then have "r_tail g = length (pending f)" using pending_move(3) [OF assms(1)] by (simp add: g_def)
    then show ?thesis using size bf len by auto
  next
    case False
    then have "MIN_SYSCALL_SIZE \<le> max_pkt_size f * 2 - r_tail f" by (auto simp: iofd_better_move_buffer_def)
    then have "r_tail f < buff_size f" using bf by (auto simp: MIN_SYSCALL_SIZE_def)
    then show ?thesis using False size bf len by (auto simp: g_def)
  qed
qed

theorem read_has_room_witness: "(buff_size sample_iofd - r_tail sample_iofd = 0) = (length (pending sample_iofd) = buff_size sample_iofd)"
proof -
  have "r_ok sample_iofd" "\<not> iofd_better_move_buffer sample_iofd"
    by (simp_all add: r_ok_def sample_iofd_def buff_size_def iofd_better_move_buffer_def pending_len_def MIN_SYSCALL_SIZE_def MAX_LW_COPY_SIZE_def)
  then show ?thesis using read_has_room [of sample_iofd] by (simp add: sample_iofd_def FD_MAX_PACKET_SIZE_MIN_def)
qed

text \<open>When the socket takes everything, one round empties the queue.\<close>

definition socket_takes_all :: "io_env \<Rightarrow> bool" where
  "socket_takes_all e \<longleftrightarrow> (\<forall>fd buf s. hal_write e fd buf s = int (length buf))"

text \<open>An event function that only looks.\<close>

definition quiet_event :: "io_env \<Rightarrow> bool" where
  "quiet_event e \<longleftrightarrow> (\<forall>f fd n s. user_event e f fd n s = Ret s)"

lemma write_loop_drains:
  assumes e: "socket_ok e" "quiet_event e" "socket_takes_all e"
  shows "w_state p fd s \<Longrightarrow> iofds s p = Some f \<Longrightarrow> write_f f = AOSL_DEFAULT_FN \<Longrightarrow> length (w_nodes (io_wq f)) < fuel
    \<Longrightarrow> \<exists>s' f'. write_loop fuel e q p s = Ret (0, s') \<and> w_state p fd s' \<and> iofds s' p = Some f' \<and> w_nodes (io_wq f') = []"
proof (induction fuel arbitrary: s f)
  case (Suc fuel)
  note w = \<open>w_state p fd s\<close> and f = \<open>iofds s p = Some f\<close>
  show ?case
  proof (cases "w_nodes (io_wq f)")
    case Nil
    have "w_state p fd (log_io (Event fd' n) s)" "iofds (log_io (Event fd' n) s) = iofds s" for fd' n using w by (auto simp: w_state_def log_io_def)
    then show ?thesis using Nil f w e(2) by (auto simp: iofd_at_def quiet_event_def)
  next
    case (Cons node nodes)
    obtain err s1 where c: "call_write e f (drop (w_sent node) (w_bytes node)) s = (err, s1)" by fastforce
    have err: "err = int (length (w_bytes node) - w_sent node)" using c e(3) Suc.prems(3) by (auto simp: call_write_def default_write_def socket_takes_all_def Let_def)
    have ios: "iofds s1 p = Some f" using call_write_ok(2) [OF e(1) c] f by simp
    let ?f1 = "set_flag AOSL_POLLOUT f"
    let ?q = "(io_wq f)\<lparr>w_nodes := node\<lparr>w_sent := w_sent node + nat err\<rparr> # nodes\<rparr>"
    let ?f3 = "?f1\<lparr>io_wq := w_queue_remove_head ?q\<rparr>"
    let ?s3 = "s1\<lparr>iofds := (iofds s1)(p \<mapsto> ?f3)\<rparr>"
    have full: "\<not> w_sent node + nat err < length (w_bytes node)" "0 \<le> err" using err by simp_all
    have us: "io_wq ?f1 = io_wq f" "write_f ?f3 = AOSL_DEFAULT_FN" using Suc.prems(3) by (simp_all add: set_flag_def)
    have "length (w_nodes (io_wq ?f3)) < fuel" using Suc.prems(4) Cons by (simp add: w_queue_remove_head_def)
    with Suc.IH [OF write_round(3) [OF w f Cons e(1) c full(2)], of ?f3] full us
    have "\<exists>s' f'. write_loop fuel e q p ?s3 = Ret (0, s') \<and> w_state p fd s' \<and> iofds s' p = Some f' \<and> w_nodes (io_wq f') = []" by simp
    then show ?thesis using full Cons f by (simp add: iofd_at_def c upd_iofd_Ret [OF ios] upd_iofd_Ret us(1))
  qed
qed simp

text \<open>
  When the descriptor becomes writable and the socket takes what it is given, \<^verbatim>\<open>__iofd_write_data\<close> sends every byte that was accepted and leaves the queue empty.
\<close>

theorem flush_sends_everything:
  assumes "socket_ok e" and "quiet_event e" and "socket_takes_all e" and "w_state p fd s" and "iofds s p = Some f" and "write_f f = AOSL_DEFAULT_FN"
    and "length (w_nodes (io_wq f)) < fuel"
  shows "\<exists>s' f'. iofd_write_data fuel e q p s = Ret (0, s') \<and> sent_bytes fd (io_log s') = accepted_bytes fd (io_log s') \<and> iofds s' p = Some f' \<and> w_nodes (io_wq f') = []"
proof -
  note w = assms(4) and f = assms(5)
  have "\<exists>s1 f1. (if has_flag IOFD_NOT_READY f then ebind (upd_iofd p (clear_flag IOFD_NOT_READY) s) (kill_timer p) else Ret s) = Ret s1
    \<and> w_state p fd s1 \<and> iofds s1 p = Some f1 \<and> write_f f1 = write_f f \<and> io_wq f1 = io_wq f"
  proof (cases "has_flag IOFD_NOT_READY f")
    case True
    let ?f = "clear_flag IOFD_NOT_READY f" and ?s = "s\<lparr>iofds := (iofds s)(p \<mapsto> clear_flag IOFD_NOT_READY f)\<rparr>"
    from kill_timer_out [of ?s p ?f] obtain s1 t where k: "kill_timer p ?s = Ret s1" "quiet_log ?s s1" "iofds s1 p = Some (?f\<lparr>io_timer := t\<rparr>)" by auto
    have "sent_bytes fd (io_log s1) = sent_bytes fd (io_log s)" "accepted_bytes fd (io_log s1) = accepted_bytes fd (io_log s)" using quiet_log_sent [OF k(2)] by simp_all
    then have "w_state p fd s1" by (intro w_state_upd [OF w f k(3)]) (use w f in \<open>auto simp: w_state_def clear_flag_def\<close>)
    then show ?thesis using True f k by (simp add: upd_iofd_Ret clear_flag_def)
  next
    case False
    then show ?thesis using w f by simp
  qed
  then obtain s1 f1 where s1: "(if has_flag IOFD_NOT_READY f then ebind (upd_iofd p (clear_flag IOFD_NOT_READY) s) (kill_timer p) else Ret s) = Ret s1"
    "w_state p fd s1" "iofds s1 p = Some f1" "write_f f1 = write_f f" "io_wq f1 = io_wq f" by blast
  have "write_f f1 = AOSL_DEFAULT_FN" "length (w_nodes (io_wq f1)) < fuel" using s1(4,5) assms(6,7) by simp_all
  from write_loop_drains [OF assms(1-3) s1(2,3) this, of q] obtain s' f' where r: "write_loop fuel e q p s1 = Ret (0, s')" "w_state p fd s'" "iofds s' p = Some f'"
    "w_nodes (io_wq f') = []" by blast
  have "iofd_write_data fuel e q p s = Ret (0, s')" using f s1(1) r(1) by (simp add: iofd_write_data_def iofd_at_def)
  moreover have "sent_bytes fd (io_log s') = accepted_bytes fd (io_log s')" using r(2-4) by (auto simp: w_state_def unsent_def)
  ultimately show ?thesis using r(3,4) by blast
qed

theorem flush_sends_everything_witness:
  "let e = (sample_env [])\<lparr>hal_write := (\<lambda>_ buf _. int (length buf))\<rparr>; f = sample_iofd\<lparr>io_wq := w_queue_add \<lparr>w_bytes = [1, 2, 3], w_sent = 0\<rparr> w_queue_init\<rparr>;
       s = sample_sys\<lparr>iofds := [3 \<mapsto> f], io_log := [Accepted 5 [1, 2, 3]]\<rparr>
   in \<exists>s' f'. iofd_write_data 2 e 7 3 s = Ret (0, s') \<and> sent_bytes 5 (io_log s') = accepted_bytes 5 (io_log s') \<and> iofds s' 3 = Some f' \<and> w_nodes (io_wq f') = []"
proof -
  let ?e = "(sample_env [])\<lparr>hal_write := (\<lambda>_ buf _. int (length buf))\<rparr>"
  let ?f = "sample_iofd\<lparr>io_wq := w_queue_add \<lparr>w_bytes = [1, 2, 3], w_sent = 0\<rparr> w_queue_init\<rparr>"
  have e: "socket_ok ?e" "quiet_event ?e" "socket_takes_all ?e" by (simp_all add: sample_env_def socket_ok_def quiet_event_def socket_takes_all_def)
  have w: "w_state 3 5 (sample_sys\<lparr>iofds := [3 \<mapsto> ?f], io_log := [Accepted 5 [1, 2, 3]]\<rparr>)" by (simp add: w_state_def sample_sys_def sample_iofd_def w_queue_add_def w_queue_init_def wq_ok_def total_len_def unsent_def FD_MAX_WBUF_SIZE_def)
  show ?thesis using flush_sends_everything [OF e w, of ?f 2 7] by (simp add: sample_iofd_def w_queue_add_def w_queue_init_def)
qed

text \<open>
  When the call on the queue of the descriptor fails, \<^verbatim>\<open>aosl_write\<close> returns the positive error number, which a caller takes for the number of bytes written, although nothing was written.
\<close>

theorem failed_write_looks_written:
  assumes "attached_fds s fd = Some p" and "p \<noteq> 0" and "fd \<noteq> AOSL_INVALID_FD" and "iofds s p = Some f" and "io_usage f \<noteq> 0" and "\<And>work s. on_queue work s = Ret (Inl err)" and "0 < err"
  shows "\<exists>s'. aosl_write e mem on_queue True fd buf s = Ret (err, s') \<and> io_log s' = io_log s \<and> io_wq (the (iofds s' p)) = io_wq f"
proof -
  show ?thesis using assms by (simp add: aosl_write_def iofd_get_def aosl_fd_invalid_def iofd_hold_def upd_iofd_Ret call_on_queue_def iofd_put_def iofd_at_def io_return_err_def)
qed

theorem failed_write_looks_written_witness:
  "\<exists>s'. aosl_write (sample_env []) True (\<lambda>_ _. Ret (Inl AOSL_EINVAL)) True 5 [1, 2] sample_sys = Ret (AOSL_EINVAL, s') \<and> io_log s' = []"
  using failed_write_looks_written [of sample_sys 5 3 sample_iofd "\<lambda>_ _. Ret (Inl AOSL_EINVAL)" AOSL_EINVAL "sample_env []" True "[1, 2]"]
  by (auto simp: sample_sys_def sample_iofd_def AOSL_INVALID_FD_def)

end
