(* ===== verification/Iofd_Tables.thy ===== *)
theory Iofd_Tables
  imports Iofd
begin

text \<open>
  The tables of \<^verbatim>\<open>kernel/fileobj.c\<close> and \<^verbatim>\<open>kernel/iofd.c\<close>: the objects, the tree of attached descriptors and the list of each queue agree after every operation, and
  a queue that ends closes each of its descriptors once.
\<close>

subsection \<open>The tables\<close>

definition closed_fds :: "io_event list \<Rightarrow> int list" where
  "closed_fds evs = concat (map (\<lambda>ev. case ev of Closed fd \<Rightarrow> [fd] | Fd_put fd \<Rightarrow> [fd] | _ \<Rightarrow> []) evs)"

lemma closed_fds_simps [simp]:
  "closed_fds [] = []" "closed_fds (evs @ evs') = closed_fds evs @ closed_fds evs'" "closed_fds [Closed fd] = [fd]" "closed_fds [Fd_put fd] = [fd]"
  "closed_fds [Timer_killed t] = []"
  by (simp_all add: closed_fds_def)

text \<open>The three tables agree: the objects, the attached descriptors, and the list of each queue with its counter.\<close>

definition io_inv :: "io_sys \<Rightarrow> bool" where
  "io_inv s \<longleftrightarrow> (\<forall>q. distinct (q_iofds s q) \<and> q_iofd_count s q = int (length (q_iofds s q)))
     \<and> (\<forall>q p. p \<in> set (q_iofds s q) \<longrightarrow> (\<exists>f. iofds s p = Some f \<and> io_qid f = q \<and> attached_fds s (io_fd f) = Some p))
     \<and> (\<forall>fd p. attached_fds s fd = Some p \<longrightarrow> p \<noteq> 0 \<and> (\<exists>f. iofds s p = Some f \<and> io_fd f = fd \<and> fd \<noteq> AOSL_INVALID_FD \<and> io_usage f \<noteq> 0 \<and> p \<in> set (q_iofds s (io_qid f))))"

lemma io_inv_listed:
  assumes "io_inv s" and "p \<in> set (q_iofds s q)"
  obtains f where "iofds s p = Some f" "io_qid f = q" "attached_fds s (io_fd f) = Some p" "io_usage f \<noteq> 0" "io_fd f \<noteq> AOSL_INVALID_FD"
  using assms unfolding io_inv_def by (metis option.inject)

lemma kill_timer_run:
  "iofds s p = Some f \<Longrightarrow> \<exists>s' t. kill_timer p s = Ret s' \<and> iofds s' = (iofds s)(p \<mapsto> f\<lparr>io_timer := t\<rparr>) \<and> attached_fds s' = attached_fds s \<and> q_iofds s' = q_iofds s
     \<and> q_iofd_count s' = q_iofd_count s \<and> closed_fds (io_log s') = closed_fds (io_log s)"
proof (cases "timer_invalid (io_timer f)")
  case True
  assume f: "iofds s p = Some f"
  have "iofds s = (iofds s)(p \<mapsto> f\<lparr>io_timer := io_timer f\<rparr>)" using f by (simp add: fun_upd_idem)
  with True f show ?thesis by (intro exI [of _ s] exI [of _ "io_timer f"]) (auto simp: kill_timer_def iofd_at_def)
next
  case False
  assume f: "iofds s p = Some f"
  with False show ?thesis by (auto simp: kill_timer_def iofd_at_def upd_iofd_def log_io_def)
qed

lemma q_del_run:
  assumes f: "iofds s p = Some f" "io_qid f = q" "attached_fds s (io_fd f) = Some p"
  shows "\<exists>s' f'. q_del_f q p s = Ret (0, s') \<and> iofds s' = (iofds s)(p := f') \<and> (f' = None \<longleftrightarrow> io_usage f = 1)
    \<and> (\<forall>g. f' = Some g \<longrightarrow> io_usage g = io_usage f - 1) \<and> attached_fds s' = (attached_fds s)(io_fd f := None)
    \<and> q_iofds s' = (q_iofds s)(q := remove1 p (q_iofds s q)) \<and> q_iofd_count s' = (q_iofd_count s)(q := q_iofd_count s q - 1)
    \<and> closed_fds (io_log s') = closed_fds (io_log s)"
proof -
  from kill_timer_run [OF f(1)] obtain s1 t where k: "kill_timer p s = Ret s1" "iofds s1 = (iofds s)(p \<mapsto> f\<lparr>io_timer := t\<rparr>)" "attached_fds s1 = attached_fds s"
    "q_iofds s1 = q_iofds s" "q_iofd_count s1 = q_iofd_count s" "closed_fds (io_log s1) = closed_fds (io_log s)" by blast
  show ?thesis using f k by (auto simp: q_del_f_def iofd_at_def remove_fd_def iofd_put_def Let_def)
qed

text \<open>Closing a descriptor of the queue takes it out of every table and closes it once.\<close>

lemma close_run:
  assumes f: "iofds s p = Some f" "io_qid f = q" "attached_fds s (io_fd f) = Some p" "io_usage f \<noteq> 0"
  shows "\<exists>r s' f'. this_q_close_f e q p s = Ret (r, s') \<and> iofds s' = (iofds s)(p := f') \<and> (\<forall>g. f' = Some g \<longrightarrow> io_fd g = AOSL_INVALID_FD) \<and> (io_usage f = 1 \<longrightarrow> f' = None)
    \<and> attached_fds s' = (attached_fds s)(io_fd f := None) \<and> q_iofds s' = (q_iofds s)(q := remove1 p (q_iofds s q))
    \<and> q_iofd_count s' = (q_iofd_count s)(q := q_iofd_count s q - 1) \<and> closed_fds (io_log s') = closed_fds (io_log s) @ [io_fd f]"
proof -
  let ?f = "f\<lparr>io_usage := io_usage f + 1\<rparr>"
  let ?s = "s\<lparr>iofds := (iofds s)(p \<mapsto> ?f)\<rparr>"
  have hold: "iofd_hold p s = Ret ?s" and at: "iofd_at p s = Ret f" using f by (simp_all add: iofd_hold_def upd_iofd_Ret iofd_at_def)
  from q_del_run [of ?s p ?f q] f obtain s1 g where d: "q_del_f q p ?s = Ret (0, s1)" "iofds s1 = (iofds s)(p \<mapsto> g)" "io_usage g = io_usage f"
    "attached_fds s1 = (attached_fds s)(io_fd f := None)" "q_iofds s1 = (q_iofds s)(q := remove1 p (q_iofds s q))" "q_iofd_count s1 = (q_iofd_count s)(q := q_iofd_count s q - 1)"
    "closed_fds (io_log s1) = closed_fds (io_log s)" by auto
  show ?thesis using d f
    by (auto simp: this_q_close_f_def at hold iofd_at_def upd_iofd_def iofd_put_def close_fd_def log_io_def aosl_hal_set_error_def Let_def)
qed

lemma io_inv_unlist:
  assumes inv: "io_inv s" and f: "iofds s p = Some f" "attached_fds s (io_fd f) = Some p" "io_qid f = q"
    and s': "iofds s' = (iofds s)(p := f')" "attached_fds s' = (attached_fds s)(io_fd f := None)" "q_iofds s' = (q_iofds s)(q := remove1 p (q_iofds s q))"
      "q_iofd_count s' = (q_iofd_count s)(q := q_iofd_count s q - 1)"
  shows "io_inv s'"
proof -
  have pq: "p \<in> set (q_iofds s q)" and dist: "distinct (q_iofds s q')" and cnt: "q_iofd_count s q' = int (length (q_iofds s q'))" for q'
    using inv f unfolding io_inv_def by (metis option.inject, blast, blast)
  have listed: "p' \<noteq> p \<and> p' \<in> set (q_iofds s q')" if "p' \<in> set (q_iofds s' q')" for p' q'
  proof
    show in': "p' \<in> set (q_iofds s q')" using that s'(3) dist by (auto split: if_splits dest: notin_set_remove1)
    show "p' \<noteq> p"
    proof
      assume eq: "p' = p"
      from io_inv_listed [OF inv in'] obtain g where "iofds s p' = Some g" "io_qid g = q'" by blast
      then have "q' = q" using eq f by simp
      then show False using that eq s'(3) dist [of q] by simp
    qed
  qed
  have "1 \<le> length (q_iofds s q)" using pq by (cases "q_iofds s q") auto
  then have 1: "distinct (q_iofds s' q') \<and> q_iofd_count s' q' = int (length (q_iofds s' q'))" for q'
    using s'(3,4) dist cnt pq by (auto simp: length_remove1)
  have 2: "\<exists>f. iofds s' p' = Some f \<and> io_qid f = q' \<and> attached_fds s' (io_fd f) = Some p'" if "p' \<in> set (q_iofds s' q')" for p' q'
    using io_inv_listed [OF inv conjunct2 [OF listed [OF that]]] listed [OF that] s'(1,2) f by (metis fun_upd_apply option.inject)
  have 3: "p' \<noteq> 0 \<and> (\<exists>f. iofds s' p' = Some f \<and> io_fd f = fd \<and> fd \<noteq> AOSL_INVALID_FD \<and> io_usage f \<noteq> 0 \<and> p' \<in> set (q_iofds s' (io_qid f)))"
    if "attached_fds s' fd = Some p'" for fd p'
  proof -
    from that have a: "attached_fds s fd = Some p'" "fd \<noteq> io_fd f" using s'(2) by (auto split: if_splits)
    with inv obtain g where g: "p' \<noteq> 0" "iofds s p' = Some g" "io_fd g = fd" "fd \<noteq> AOSL_INVALID_FD" "io_usage g \<noteq> 0" "p' \<in> set (q_iofds s (io_qid g))"
      unfolding io_inv_def by blast
    then have "p' \<noteq> p" using a(2) f(1) by auto
    then show ?thesis using g s'(1,3) by auto
  qed
  show ?thesis unfolding io_inv_def by (intro conjI allI impI 1 [THEN conjunct1] 1 [THEN conjunct2] 2 3 [THEN conjunct1] 3 [THEN conjunct2])
qed

lemma fini_loop_run:
  "io_inv s \<Longrightarrow> length (q_iofds s q) < fuel \<Longrightarrow> \<exists>s'. fini_iofds_loop fuel e q s = Ret s' \<and> io_inv s' \<and> q_iofds s' = (q_iofds s)(q := [])
    \<and> closed_fds (io_log s') = closed_fds (io_log s) @ map (\<lambda>p. io_fd (the (iofds s p))) (q_iofds s q)
    \<and> attached_fds s' = (\<lambda>fd. case attached_fds s fd of Some p \<Rightarrow> if p \<in> set (q_iofds s q) then None else Some p | None \<Rightarrow> None)
    \<and> (\<forall>p. p \<notin> set (q_iofds s q) \<longrightarrow> iofds s' p = iofds s p)"
proof (induction fuel arbitrary: s)
  case (Suc fuel)
  show ?case
  proof (cases "q_iofds s q")
    case Nil
    then have "(q_iofds s)(q := []) = q_iofds s" by (simp add: fun_upd_idem)
    then show ?thesis using Suc.prems(1) Nil by (intro exI [of _ s]) (simp add: fun_eq_iff split: option.split)
  next
    case (Cons p ps)
    then have "p \<in> set (q_iofds s q)" by simp
    from io_inv_listed [OF Suc.prems(1) this] obtain f where f: "iofds s p = Some f" "io_qid f = q" "attached_fds s (io_fd f) = Some p" "io_usage f \<noteq> 0" by blast
    from close_run [OF f] obtain r s1 f' where c: "this_q_close_f e q p s = Ret (r, s1)" "iofds s1 = (iofds s)(p := f')"
      "attached_fds s1 = (attached_fds s)(io_fd f := None)" "q_iofds s1 = (q_iofds s)(q := remove1 p (q_iofds s q))"
      "q_iofd_count s1 = (q_iofd_count s)(q := q_iofd_count s q - 1)" "closed_fds (io_log s1) = closed_fds (io_log s) @ [io_fd f]" by blast
    have inv: "io_inv s1" by (rule io_inv_unlist [OF Suc.prems(1) f(1,3,2) c(2-5)])
    have ps: "q_iofds s1 q = ps" "p \<notin> set ps" using c(4) Cons Suc.prems(1) by (auto simp: io_inv_def) (metis distinct.simps(2))
    have "length (q_iofds s1 q) < fuel" using ps Cons Suc.prems(2) by simp
    from Suc.IH [OF inv this, unfolded ps(1)] obtain s' where ih: "fini_iofds_loop fuel e q s1 = Ret s'" "io_inv s'" "q_iofds s' = (q_iofds s1)(q := [])"
      "closed_fds (io_log s') = closed_fds (io_log s1) @ map (\<lambda>p. io_fd (the (iofds s1 p))) ps"
      "attached_fds s' = (\<lambda>fd. case attached_fds s1 fd of Some p \<Rightarrow> if p \<in> set ps then None else Some p | None \<Rightarrow> None)"
      "\<forall>p. p \<notin> set ps \<longrightarrow> iofds s' p = iofds s1 p" by blast
    have same: "map (\<lambda>p. io_fd (the (iofds s1 p))) ps = map (\<lambda>p. io_fd (the (iofds s p))) ps" using c(2) ps(2) by auto
    have uniq: "fd = io_fd f" if "attached_fds s fd = Some p" for fd using that Suc.prems(1) f(1) by (force simp: io_inv_def)
    have "attached_fds s' fd = (case attached_fds s fd of Some p \<Rightarrow> if p \<in> set (q_iofds s q) then None else Some p | None \<Rightarrow> None)" for fd
    proof (cases "attached_fds s fd = Some p")
      case True
      with uniq show ?thesis using Cons by (simp add: ih(5) c(3))
    next
      case False
      then show ?thesis using f(3) Cons by (auto simp: ih(5) c(3) split: option.split)
    qed
    then have att: "attached_fds s' = (\<lambda>fd. case attached_fds s fd of Some p \<Rightarrow> if p \<in> set (q_iofds s q) then None else Some p | None \<Rightarrow> None)" by (rule ext)
    show ?thesis using ih(1-4,6) c Cons f(1) same by (intro exI [of _ s'] conjI att) auto
  qed
qed simp

lemma io_inv_enlist:
  assumes inv: "io_inv s" and m: "iofds s m = None" "m \<noteq> 0" and fd: "attached_fds s (io_fd f) = None" "io_fd f \<noteq> AOSL_INVALID_FD"
    and f: "io_usage f \<noteq> 0" "io_qid f = q"
    and s': "iofds s' = (iofds s)(m \<mapsto> f)" "attached_fds s' = (attached_fds s)(io_fd f \<mapsto> m)" "q_iofds s' = (q_iofds s)(q := q_iofds s q @ [m])"
      "q_iofd_count s' = (q_iofd_count s)(q := q_iofd_count s q + 1)"
  shows "io_inv s'"
proof -
  have new: "m \<notin> set (q_iofds s q')" for q' using io_inv_listed [OF inv, of m q'] m(1) by (metis option.distinct(1))
  have 1: "distinct (q_iofds s' q')" "q_iofd_count s' q' = int (length (q_iofds s' q'))" for q'
    using inv new s'(3,4) by (auto simp: io_inv_def)
  have 2: "\<exists>f. iofds s' p = Some f \<and> io_qid f = q' \<and> attached_fds s' (io_fd f) = Some p" if "p \<in> set (q_iofds s' q')" for p q'
  proof (cases "p = m")
    case True
    then have "q' = q" using that new s'(3) by (auto split: if_splits)
    with True show ?thesis using f s'(1,2) by simp
  next
    case False
    then have "p \<in> set (q_iofds s q')" using that s'(3) by (auto split: if_splits)
    from io_inv_listed [OF inv this] obtain g where g: "iofds s p = Some g" "io_qid g = q'" "attached_fds s (io_fd g) = Some p" by blast
    then have "io_fd g \<noteq> io_fd f" using fd(1) by auto
    with g False show ?thesis using s'(1,2) by simp
  qed
  have 3: "p \<noteq> 0" "\<exists>g. iofds s' p = Some g \<and> io_fd g = fd' \<and> fd' \<noteq> AOSL_INVALID_FD \<and> io_usage g \<noteq> 0 \<and> p \<in> set (q_iofds s' (io_qid g))"
    if "attached_fds s' fd' = Some p" for fd' p
  proof -
    have "p \<noteq> 0 \<and> (\<exists>g. iofds s' p = Some g \<and> io_fd g = fd' \<and> fd' \<noteq> AOSL_INVALID_FD \<and> io_usage g \<noteq> 0 \<and> p \<in> set (q_iofds s' (io_qid g)))"
    proof (cases "fd' = io_fd f")
      case True
      then show ?thesis using that m fd f s' by simp
    next
      case False
      then have "attached_fds s fd' = Some p" using that s'(2) by simp
      with inv obtain g where g: "p \<noteq> 0" "iofds s p = Some g" "io_fd g = fd'" "fd' \<noteq> AOSL_INVALID_FD" "io_usage g \<noteq> 0" "p \<in> set (q_iofds s (io_qid g))"
        unfolding io_inv_def by blast
      have "p \<noteq> m" using g(2) m(1) by auto
      with g show ?thesis using s'(1,3) by auto
    qed
    then show "p \<noteq> 0" "\<exists>g. iofds s' p = Some g \<and> io_fd g = fd' \<and> fd' \<noteq> AOSL_INVALID_FD \<and> io_usage g \<noteq> 0 \<and> p \<in> set (q_iofds s' (io_qid g))" by blast+
  qed
  show ?thesis unfolding io_inv_def by (intro conjI allI impI 1 2 3)
qed

text \<open>Looking a descriptor up and letting it go again changes nothing.\<close>

lemma get_put_same:
  assumes "io_inv s" and "attached_fds s fd = Some p"
  shows "\<exists>s'. iofd_get fd s = Ret (p, s') \<and> iofd_put p s' = Ret s"
proof -
  from assms obtain f where f: "iofds s p = Some f" "io_fd f = fd" "fd \<noteq> AOSL_INVALID_FD" "io_usage f \<noteq> 0" unfolding io_inv_def by blast
  have "iofds s = (iofds s)(p \<mapsto> f\<lparr>io_usage := io_usage f\<rparr>)" using f(1) by (simp add: fun_upd_idem)
  then have "s\<lparr>iofds := (iofds s)(p \<mapsto> f\<lparr>io_usage := io_usage f\<rparr>)\<rparr> = s" by (metis io_sys.surjective io_sys.update_convs(1))
  then show ?thesis using f assms(2) by (simp add: iofd_get_def aosl_fd_invalid_def iofd_hold_def upd_iofd_def iofd_at_def iofd_put_def)
qed

definition same_tables :: "io_sys \<Rightarrow> io_sys \<Rightarrow> bool" where
  "same_tables s s' \<longleftrightarrow> iofds s' = iofds s \<and> attached_fds s' = attached_fds s \<and> q_iofds s' = q_iofds s \<and> q_iofd_count s' = q_iofd_count s"

lemma same_tables_inv: "same_tables s s' \<Longrightarrow> io_inv s \<Longrightarrow> io_inv s'"
  by (simp add: same_tables_def io_inv_def)

definition added :: "u64 \<Rightarrow> ptr \<Rightarrow> int \<Rightarrow> io_sys \<Rightarrow> io_sys \<Rightarrow> bool" where
  "added q m fd s s' \<longleftrightarrow> fd \<noteq> AOSL_INVALID_FD \<and> attached_fds s fd = None \<and> attached_fds s' = (attached_fds s)(fd \<mapsto> m)
     \<and> (case iofds s' m of None \<Rightarrow> False | Some f \<Rightarrow> io_fd f = fd \<and> io_usage f = 1 \<and> io_qid f = q) \<and> (\<forall>p. p \<noteq> m \<longrightarrow> iofds s' p = iofds s p)
     \<and> q_iofds s' = (q_iofds s)(q := q_iofds s q @ [m]) \<and> q_iofd_count s' = (q_iofd_count s)(q := q_iofd_count s q + 1)"

lemma addedE:
  assumes "added q m fd s s'"
  obtains f where "iofds s' = (iofds s)(m \<mapsto> f)" "io_fd f = fd" "io_usage f = 1" "io_qid f = q" "fd \<noteq> AOSL_INVALID_FD" "attached_fds s fd = None"
    "attached_fds s' = (attached_fds s)(fd \<mapsto> m)" "q_iofds s' = (q_iofds s)(q := q_iofds s q @ [m])" "q_iofd_count s' = (q_iofd_count s)(q := q_iofd_count s q + 1)"
proof -
  from assms obtain f where f: "iofds s' m = Some f" "io_fd f = fd" "io_usage f = 1" "io_qid f = q" by (auto simp: added_def split: option.splits)
  have "iofds s' = (iofds s)(m \<mapsto> f)" using assms f(1) by (auto simp: added_def fun_eq_iff)
  with f that show ?thesis using assms by (simp add: added_def)
qed

text \<open>The part of \<^verbatim>\<open>__mpq_add_fd_argv\<close> that attaches the new object.\<close>

lemma attach_run:
  assumes m: "iofds s m = None" and f: "io_fd f \<noteq> AOSL_INVALID_FD" "io_usage f = 1" "io_qid f = q" and s0: "s0 = s\<lparr>iofds := (iofds s)(m \<mapsto> f)\<rparr>"
  shows "\<exists>r s'. ebind (install_fd (io_fd f) m s0) (\<lambda>(err, s').
      if err < 0 then Ret (err, s'\<lparr>iofds := (iofds s')(m := None)\<rparr>)
      else
        let (err, s') = q_add_fd e q m s' in
        if err < 0 then ebind (remove_fd m s') (\<lambda>(_, s'). Ret (err, s'\<lparr>iofds := (iofds s')(m := None)\<rparr>))
        else
          ebind (if timed then upd_iofd m (\<lambda>f. f\<lparr>io_timer := oneshot_timer e m s'\<rparr>) s' else Ret s') (\<lambda>s'. Ret (0, s'))) = Ret (r, s')
     \<and> (r < 0 \<and> same_tables s s' \<or> r = 0 \<and> added q m (io_fd f) s s')"
proof -
  have undone: "(iofds s)(m := None) = iofds s" using m by (simp add: fun_upd_idem)
  show ?thesis
  proof (cases "attached_fds s (io_fd f)")
    case (Some p)
    then show ?thesis using f undone by (simp add: s0 install_fd_def aosl_fd_invalid_def same_tables_def)
  next
    case None
    have att: "(attached_fds s)(io_fd f := None) = attached_fds s" using None by (simp add: fun_upd_idem)
    show ?thesis using None f undone att
      by (auto simp: s0 install_fd_def aosl_fd_invalid_def upd_iofd_def iofd_at_def q_add_fd_def remove_fd_def same_tables_def added_def Let_def)
  qed
qed

lemma add_run:
  assumes inv: "io_inv s" and m: "iofds s m = None" "m \<noteq> 0"
  shows "\<exists>r s'. mpq_add_fd_argv e (Some m) get_fd qflags q fd a s = Ret (r, s')
    \<and> (same_tables s s' \<or> r = 0 \<and> (\<exists>fd'. (fd \<noteq> AOSL_INVALID_FD \<longrightarrow> fd' = fd) \<and> added q m fd' s s'))"
proof -
  define bad where "bad \<longleftrightarrow> qflags AND 2 \<noteq> 0 \<or> (pf_check a \<noteq> 0 \<and> pf_max_pkt a < FD_MAX_PACKET_SIZE_MIN \<or> FD_MAX_PACKET_SIZE_MAX < pf_max_pkt a) \<or> FD_MAX_EXTRA_BYTES \<le> pf_extra a \<or> pf_data a = 0"
  have refl: "same_tables s s" by (simp add: same_tables_def)
  consider (bad) bad | (there) p where "\<not> bad" "fd \<noteq> AOSL_INVALID_FD" "attached_fds s fd = Some p" | (new) "\<not> bad" "fd \<noteq> AOSL_INVALID_FD \<longrightarrow> attached_fds s fd = None"
    by (cases "attached_fds s fd") blast+
  then show ?thesis
  proof cases
    case bad
    then show ?thesis using refl by (auto simp: mpq_add_fd_argv_def bad_def)
  next
    case there
    from get_put_same [OF inv there(3)] obtain s1 where g: "iofd_get fd s = Ret (p, s1)" "iofd_put p s1 = Ret s" by blast
    have "p \<noteq> 0" using inv there(3) by (auto simp: io_inv_def)
    then show ?thesis using there g refl by (simp add: mpq_add_fd_argv_def bad_def)
  next
    case new
    obtain err fd' put where t: "(if fd = AOSL_INVALID_FD then get_fd else (0, fd, 0)) = (err, fd', put)" by (metis prod_cases3)
    have get: "(if fd \<noteq> AOSL_INVALID_FD then iofd_get fd s else Ret (0, s)) = Ret (0, s)"
      using new by (simp add: iofd_get_def aosl_fd_invalid_def)
    let ?f = "(new_iofd q a)\<lparr>put_fd_f := put, io_fd := fd'\<rparr>"
    have nf: "io_usage ?f = 1" "io_qid ?f = q" "io_fd ?f = fd'" by (simp_all add: new_iofd_def Let_def)
    show ?thesis
    proof (cases "err < 0 \<or> fd' = AOSL_INVALID_FD")
      case True
      then show ?thesis using new t get refl by (simp add: mpq_add_fd_argv_def bad_def Let_def)
    next
      case False
      then have "io_fd ?f \<noteq> AOSL_INVALID_FD" using nf by simp
      note run = attach_run [OF m(1) this nf(1,2) HOL.refl, of e "pf_flags a AND IOFD_NOT_READY \<noteq> 0 \<and> 0 \<le> pf_timeo a", unfolded nf(3)]
      from run obtain r s' where r: "mpq_add_fd_argv e (Some m) get_fd qflags q fd a s = Ret (r, s')" "r < 0 \<and> same_tables s s' \<or> r = 0 \<and> added q m fd' s s'"
        using new(1) t get False by (auto simp: mpq_add_fd_argv_def bad_def Let_def)
      have "fd \<noteq> AOSL_INVALID_FD \<longrightarrow> fd' = fd" using t by auto
      with r show ?thesis by blast
    qed
  qed
qed

lemma added_close:
  assumes inv: "io_inv s" and m: "iofds s m = None" "m \<noteq> 0" and new: "added q m fd s s'"
  shows "io_inv s'" "\<exists>r s''. this_q_close_f e q m s' = Ret (r, s'') \<and> same_tables s s'' \<and> closed_fds (io_log s'') = closed_fds (io_log s') @ [fd]"
proof -
  from addedE [OF new] obtain f where f: "iofds s' = (iofds s)(m \<mapsto> f)" "io_fd f = fd" "io_usage f = 1" "io_qid f = q" "fd \<noteq> AOSL_INVALID_FD" "attached_fds s fd = None"
    "attached_fds s' = (attached_fds s)(fd \<mapsto> m)" "q_iofds s' = (q_iofds s)(q := q_iofds s q @ [m])" "q_iofd_count s' = (q_iofd_count s)(q := q_iofd_count s q + 1)" by blast
  show "io_inv s'" by (rule io_inv_enlist [OF assms(1-3), where f = f and q = q]) (use f in simp_all)
  have at: "iofds s' m = Some f" "attached_fds s' (io_fd f) = Some m" "io_usage f \<noteq> 0" using f by simp_all
  have "m \<notin> set (q_iofds s q)" using io_inv_listed [OF inv, of m q] m(1) by (metis option.distinct(1))
  then have rm: "remove1 m (q_iofds s q @ [m]) = q_iofds s q" by (simp add: remove1_append)
  from close_run [OF at(1) f(4) at(2,3), of e] f(3) obtain r s'' where c: "this_q_close_f e q m s' = Ret (r, s'')" "iofds s'' = (iofds s')(m := None)"
    "attached_fds s'' = (attached_fds s')(io_fd f := None)" "q_iofds s'' = (q_iofds s')(q := remove1 m (q_iofds s' q))"
    "q_iofd_count s'' = (q_iofd_count s')(q := q_iofd_count s' q - 1)" "closed_fds (io_log s'') = closed_fds (io_log s') @ [io_fd f]" by auto
  have "same_tables s s''" using c f m(1) rm by (simp add: same_tables_def fun_upd_idem)
  with c(1,6) f(2) show "\<exists>r s''. this_q_close_f e q m s' = Ret (r, s'') \<and> same_tables s s'' \<and> closed_fds (io_log s'') = closed_fds (io_log s') @ [fd]" by auto
qed

text \<open>
  C17. Adding a descriptor to a queue either leaves every table as it was or enters exactly the new object everywhere, and the tables agree
  afterwards; closing the new descriptor on its queue then restores them and closes that descriptor once.
\<close>

theorem add_then_close:
  assumes "io_inv s" and "iofds s m = None" and "m \<noteq> 0"
  shows "\<exists>r s'. mpq_add_fd_argv e (Some m) get_fd qflags q fd a s = Ret (r, s') \<and> io_inv s'
    \<and> (same_tables s s' \<or> r = 0 \<and> (\<exists>fd'. (fd \<noteq> AOSL_INVALID_FD \<longrightarrow> fd' = fd) \<and> added q m fd' s s'
         \<and> (\<exists>r' s''. this_q_close_f e q m s' = Ret (r', s'') \<and> same_tables s s'' \<and> closed_fds (io_log s'') = closed_fds (io_log s') @ [fd'])))"
proof -
  from add_run [OF assms, of e get_fd qflags q fd a] obtain r s' where run: "mpq_add_fd_argv e (Some m) get_fd qflags q fd a s = Ret (r, s')"
    and res: "same_tables s s' \<or> r = 0 \<and> (\<exists>fd'. (fd \<noteq> AOSL_INVALID_FD \<longrightarrow> fd' = fd) \<and> added q m fd' s s')" by blast
  from res show ?thesis
  proof
    assume st: "same_tables s s'"
    show ?thesis by (intro exI [of _ r] exI [of _ s'] conjI disjI1 run st same_tables_inv [OF st assms(1)])
  next
    assume "r = 0 \<and> (\<exists>fd'. (fd \<noteq> AOSL_INVALID_FD \<longrightarrow> fd' = fd) \<and> added q m fd' s s')"
    then obtain fd' where r: "r = 0" and fd: "fd \<noteq> AOSL_INVALID_FD \<longrightarrow> fd' = fd" and new: "added q m fd' s s'" by (elim conjE exE)
    show ?thesis
      by (intro exI [of _ r] exI [of _ s'] exI [of _ fd'] conjI disjI2 run r fd new added_close(1) [OF assms new] added_close(2) [OF assms new])
  qed
qed

text \<open>
  C25. When a queue ends, \<^verbatim>\<open>mpq_fini_iofds\<close> returns after at most one round per descriptor, closes every descriptor of the queue once, in the order in which they were
  added, detaches exactly these, and leaves the descriptors of the other queues and the agreement of the tables intact.
\<close>

theorem queue_end_closes_all:
  assumes "io_inv s" and "length (q_iofds s q) < fuel"
  shows "\<exists>s'. mpq_fini_iofds fuel e q s = Ret s' \<and> io_inv s' \<and> q_iofds s' = (q_iofds s)(q := [])
    \<and> closed_fds (io_log s') = closed_fds (io_log s) @ map (\<lambda>p. io_fd (the (iofds s p))) (q_iofds s q)
    \<and> attached_fds s' = (\<lambda>fd. case attached_fds s fd of Some p \<Rightarrow> if p \<in> set (q_iofds s q) then None else Some p | None \<Rightarrow> None)
    \<and> (\<forall>p. p \<notin> set (q_iofds s q) \<longrightarrow> iofds s' p = iofds s p)"
proof -
  from fini_loop_run [OF assms, of e] obtain s' where s': "fini_iofds_loop fuel e q s = Ret s'" "io_inv s'" "q_iofds s' = (q_iofds s)(q := [])"
    "closed_fds (io_log s') = closed_fds (io_log s) @ map (\<lambda>p. io_fd (the (iofds s p))) (q_iofds s q)"
    "attached_fds s' = (\<lambda>fd. case attached_fds s fd of Some p \<Rightarrow> if p \<in> set (q_iofds s q) then None else Some p | None \<Rightarrow> None)"
    "\<forall>p. p \<notin> set (q_iofds s q) \<longrightarrow> iofds s' p = iofds s p" by blast
  have "q_iofd_count s' q = int (length (q_iofds s' q))" using s'(2) unfolding io_inv_def by blast
  then have "(q_iofd_count s')(q := 0) = q_iofd_count s'" using s'(3) by (simp add: fun_upd_idem)
  then have same: "s'\<lparr>q_iofd_count := (q_iofd_count s')(q := 0)\<rparr> = s'" by (metis io_sys.surjective io_sys.update_convs(5))
  have "mpq_fini_iofds fuel e q s = Ret s'" by (simp only: mpq_fini_iofds_def s'(1) ebind.simps same)
  with s' show ?thesis by (intro exI [of _ s'] conjI)
qed

text \<open>Example states: no descriptor, and one descriptor on queue 7.\<close>

definition no_fds :: io_sys where
  "no_fds = \<lparr>iofds = (\<lambda>_. None), attached_fds = (\<lambda>_. None), fobj_life_id = 1, q_iofds = (\<lambda>_. []), q_iofd_count = (\<lambda>_. 0), io_log = [], io_errno = 0\<rparr>"

definition one_params :: fd_params where
  "one_params = \<lparr>pf_flags = 0, pf_timeo = - 1, pf_max_pkt = 2048, pf_extra = 0, pf_read = 1, pf_write = 1, pf_check = 4, pf_post = 0, pf_data = 4, pf_event = 0, pf_argv = []\<rparr>"

definition one_fd :: io_sys where
  "one_fd = no_fds\<lparr>iofds := [3 \<mapsto> (new_iofd 7 one_params)\<lparr>io_fd := 5\<rparr>], attached_fds := [5 \<mapsto> 3], q_iofds := (\<lambda>_. [])(7 := [3]), q_iofd_count := (\<lambda>_. 0)(7 := 1)\<rparr>"

definition plain_env :: io_env where
  "plain_env = \<lparr>hal_read = (\<lambda>_ _ _. (AOSL_HAL_RET_EAGAIN, [])), hal_write = (\<lambda>_ buf _. int (length buf)), hal_close = (\<lambda>_ _. 0), user_read = (\<lambda>_ _ _ _. (- 1, [])),
     user_write = (\<lambda>_ _ _ _. - 1), user_check = (\<lambda>_ _ s. Ret (0, s)), user_post = (\<lambda>_ _ s. Ret (0, s)), user_data = (\<lambda>_ _ s. Ret s), user_event = (\<lambda>_ _ _ s. Ret s),
     user_put_fd = (\<lambda>_ _ _. 0), add_event = (\<lambda>_ _. 0), oneshot_timer = (\<lambda>_ _. 0)\<rparr>"

lemma one_fd_inv: "io_inv one_fd"
  by (auto simp: io_inv_def one_fd_def no_fds_def new_iofd_def AOSL_INVALID_FD_def Let_def)

theorem add_then_close_witness:
  "\<exists>r s'. mpq_add_fd_argv plain_env (Some 9) (0, 6, 0) 0 7 6 one_params one_fd = Ret (r, s') \<and> io_inv s'"
proof -
  have "iofds one_fd 9 = None" by (simp add: one_fd_def)
  from add_then_close [OF one_fd_inv this, of plain_env "(0, 6, 0)" 0 7 6 one_params] show ?thesis by auto
qed

theorem queue_end_closes_all_witness:
  "\<exists>s'. mpq_fini_iofds 2 plain_env 7 one_fd = Ret s' \<and> q_iofds s' 7 = [] \<and> closed_fds (io_log s') = [5] \<and> attached_fds s' 5 = None"
proof -
  have l: "length (q_iofds one_fd 7) < 2" by (simp add: one_fd_def)
  from queue_end_closes_all [OF one_fd_inv l, of plain_env] show ?thesis by (auto simp: one_fd_def no_fds_def)
qed

end
