(* ===== verification/Osmp.thy ===== *)
theory Osmp
  imports Iofd
begin

text \<open>
  Waiting and waking up: \<^verbatim>\<open>kernel/osmp.c\<close>, the kick functions of \<^verbatim>\<open>kernel/mpq.c\<close> and the event of \<^verbatim>\<open>kernel/thread.c\<close>. The thread of a queue goes to sleep
  in \<^verbatim>\<open>os_poll_dispatch\<close> while other threads queue functions or end the queue and kick it. The kicks go through a pipe, or through an event for queues with
  \<^verbatim>\<open>AOSL_MPQ_FLAG_SIGP_EVENT\<close>. Every access to shared memory is one step (the code puts memory barriers between the write and the read that matter), and the steps of the threads
  interleave freely. The time statistics are left out.
\<close>

subsection \<open>The shared state\<close>

text \<open>\<open>k_pipe\<close>: the bytes written to the pipe and not read yet. \<open>k_pulse\<close>: the event is pulsed. \<open>k_socket\<close>: the pipe is a pair of datagram sockets.\<close>

record wake =
  k_event :: bool
  k_terminated :: bool
  k_need :: bool
  k_count :: nat
  k_kicks :: int
  k_iofds :: nat
  k_pipe :: nat
  k_pulse :: bool
  k_socket :: bool

text \<open>Where the thread of the queue is: outside of \<^verbatim>\<open>os_poll_dispatch\<close> (\<open>Loop\<close>), or before the access that the comment names.\<close>

datatype t_pc =
    Loop
  | Entering int      \<comment> \<open>\<open>need_kicking = 1\<close>\<close>
  | Told int          \<comment> \<open>reading \<open>terminated\<close>\<close>
  | Alive int         \<comment> \<open>reading \<open>count\<close>\<close>
  | Busy              \<comment> \<open>\<open>need_kicking = 0\<close>\<close>
  | Unneeded          \<comment> \<open>reading \<open>kick_q_count\<close>\<close>
  | Waiting int       \<comment> \<open>\<open>need_kicking = 1\<close> before the wait\<close>
  | Asleep int        \<comment> \<open>in the wait\<close>
  | Woken bool        \<comment> \<open>\<open>need_kicking = 0\<close>; whether the pipe is among the events\<close>
  | Draining          \<comment> \<open>reading the pipe\<close>
  | Counting nat      \<comment> \<open>\<open>atomic_sub (err, &q->kick_q_count)\<close>\<close>

text \<open>Where another thread is: idle, or before the access of \<^verbatim>\<open>mp_kick_q\<close> or \<^verbatim>\<open>os_mp_kick\<close> that the comment names.\<close>

datatype c_pc =
    Idle
  | Queued            \<comment> \<open>reading \<open>need_kicking\<close>\<close>
  | Saw               \<comment> \<open>\<open>atomic_inc (&q->kick_q_count)\<close>\<close>
  | Kicking           \<comment> \<open>writing to the pipe or pulsing the event\<close>
  | Failed            \<comment> \<open>\<open>atomic_dec (&q->kick_q_count)\<close>\<close>

definition signalled :: "wake \<Rightarrow> bool" where
  "signalled w \<longleftrightarrow> (if k_event w then k_pulse w else 0 < k_pipe w)"

subsection \<open>The accesses\<close>

definition wants_wait :: "int \<Rightarrow> wake \<Rightarrow> bool" where
  "wants_wait timeo w \<longleftrightarrow> \<not> k_terminated w \<and> (0 < k_kicks w \<or> 0 < k_iofds w \<or> timeo \<noteq> 0)"

definition nothing_to_poll :: "wake \<Rightarrow> bool" where
  "nothing_to_poll w \<longleftrightarrow> k_kicks w = 0 \<and> k_iofds w = 0"

text \<open>\<^verbatim>\<open>k_event_timedwait\<close> takes a pulse away when it returns.\<close>

definition event_taken :: "wake \<Rightarrow> wake" where
  "event_taken w = w\<lparr>k_pulse := False\<rparr>"

definition k_event_pulse :: "wake \<Rightarrow> wake" where
  "k_event_pulse w = w\<lparr>k_pulse := True\<rparr>"

text \<open>One read of \<^verbatim>\<open>os_drain_sigp\<close>, of a buffer or of one datagram, and whether it was the last.\<close>

definition drain_size :: "wake \<Rightarrow> nat" where
  "drain_size w = (if k_socket w then 1 else 1024)"

definition drain_read :: "wake \<Rightarrow> nat \<times> wake" where
  "drain_read w = (let n = min (drain_size w) (k_pipe w) in (n, w\<lparr>k_pipe := k_pipe w - n\<rparr>))"

definition drain_finished :: "wake \<Rightarrow> nat \<Rightarrow> bool" where
  "drain_finished w n \<longleftrightarrow> n < drain_size w"

text \<open>
  The steps of the thread of the queue. \<open>Work\<close> is what it does between two calls of \<^verbatim>\<open>os_poll_dispatch\<close>: it runs functions, which may queue others or end the queue, and adds or removes descriptors.
  The wait on the pipe returns when the pipe or a descriptor is ready or the time is over, and may report other descriptors only; the wait on the event may return for no reason.
\<close>

inductive t_step :: "t_pc \<times> wake \<Rightarrow> t_pc \<times> wake \<Rightarrow> bool" where
  Work: "(k_terminated w \<longrightarrow> ended) \<Longrightarrow> t_step (Loop, w) (Loop, w\<lparr>k_count := n, k_terminated := ended, k_iofds := fds\<rparr>)"
| Enter: "wants_wait timeo w \<Longrightarrow> t_step (Loop, w) (Entering timeo, w)"
| Tell: "t_step (Entering timeo, w) (Told timeo, w\<lparr>k_need := True\<rparr>)"
| Ended: "k_terminated w \<Longrightarrow> t_step (Told timeo, w) (Loop, w)"
| Go_on: "\<not> k_terminated w \<Longrightarrow> t_step (Told timeo, w) (Alive timeo, w)"
| Some_work: "0 < k_count w \<Longrightarrow> t_step (Alive timeo, w) (Busy, w)"
| No_work: "k_count w = 0 \<Longrightarrow> t_step (Alive timeo, w) (Waiting timeo, w)"
| Untell: "t_step (Busy, w) (Unneeded, w\<lparr>k_need := False\<rparr>)"
| No_poll: "nothing_to_poll w \<Longrightarrow> t_step (Unneeded, w) (Loop, w)"
| Poll: "\<not> nothing_to_poll w \<Longrightarrow> t_step (Unneeded, w) (Waiting 0, w)"
| Sleep: "t_step (Waiting timeo, w) (Asleep timeo, w\<lparr>k_need := True\<rparr>)"
| Event: "k_event w \<Longrightarrow> t_step (Asleep timeo, w) (Woken False, event_taken w)"
| Ready: "\<not> k_event w \<Longrightarrow> 0 < k_pipe w \<or> 0 < k_iofds w \<or> 0 \<le> timeo \<Longrightarrow> (pipe \<longrightarrow> 0 < k_pipe w) \<Longrightarrow> t_step (Asleep timeo, w) (Woken pipe, w)"
| Wake: "t_step (Woken pipe, w) (if pipe then Draining else Loop, w\<lparr>k_need := False\<rparr>)"
| Drain: "drain_read w = (n, w') \<Longrightarrow> t_step (Draining, w) (Counting n, w')"
| Count: "t_step (Counting n, w) (if drain_finished w n then Loop else Draining, w\<lparr>k_kicks := k_kicks w - int n\<rparr>)"

text \<open>
  The steps of another thread. It queues a function or ends the queue and then calls \<^verbatim>\<open>mp_kick_q\<close>. A write of one byte to the pipe, which does not block, fails only when the pipe is full.
\<close>

inductive c_step :: "c_pc \<times> wake \<Rightarrow> c_pc \<times> wake \<Rightarrow> bool" where
  Queue_f: "c_step (Idle, w) (Queued, w\<lparr>k_count := k_count w + 1\<rparr>)"
| Terminate: "c_step (Idle, w) (Queued, w\<lparr>k_terminated := True\<rparr>)"
| Needed: "k_need w \<Longrightarrow> c_step (Queued, w) (Saw, w)"
| Not_needed: "\<not> k_need w \<Longrightarrow> c_step (Queued, w) (Idle, w)"
| Kick: "c_step (Saw, w) (Kicking, w\<lparr>k_kicks := k_kicks w + 1\<rparr>)"
| Pulse: "k_event w \<Longrightarrow> c_step (Kicking, w) (Idle, k_event_pulse w)"
| Written: "\<not> k_event w \<Longrightarrow> c_step (Kicking, w) (Idle, w\<lparr>k_pipe := k_pipe w + 1\<rparr>)"
| Full: "\<not> k_event w \<Longrightarrow> 0 < k_pipe w \<Longrightarrow> c_step (Kicking, w) (Failed, w)"
| Unkick: "c_step (Failed, w) (Idle, w\<lparr>k_kicks := k_kicks w - 1\<rparr>)"

record threads =
  t_at :: t_pc
  c_at :: "c_pc list"
  t_wake :: wake

inductive w_run :: "threads \<Rightarrow> threads \<Rightarrow> bool" where
  Own: "t_step (t_at s, t_wake s) (pc, w) \<Longrightarrow> w_run s (s\<lparr>t_at := pc, t_wake := w\<rparr>)"
| Other: "i < length (c_at s) \<Longrightarrow> c_step (c_at s ! i, t_wake s) (pc, w) \<Longrightarrow> w_run s (s\<lparr>c_at := (c_at s)[i := pc], t_wake := w\<rparr>)"

text \<open>The queue after \<^verbatim>\<open>__q_create\<close>, with \<open>n\<close> other threads.\<close>

definition wake_init :: "bool \<Rightarrow> bool \<Rightarrow> wake" where
  "wake_init ev sock = \<lparr>k_event = ev, k_terminated = False, k_need = False, k_count = 0, k_kicks = 0, k_iofds = 0, k_pipe = 0, k_pulse = False, k_socket = sock\<rparr>"

definition threads_init :: "bool \<Rightarrow> bool \<Rightarrow> nat \<Rightarrow> threads" where
  "threads_init ev sock n = \<lparr>t_at = Loop, c_at = replicate n Idle, t_wake = wake_init ev sock\<rparr>"

subsection \<open>The functions\<close>

text \<open>
  \<^verbatim>\<open>os_poll_dispatch\<close> without interruption. \<open>wait\<close> is what the wait does: the state afterwards, the number of events and whether the pipe is among them. The fuel is for \<^verbatim>\<open>os_drain_sigp\<close>; the
  descriptors are dispatched by \<^const>\<open>dispatch_event\<close>.
\<close>

fun os_drain_sigp :: "nat \<Rightarrow> wake \<Rightarrow> wake exec" where
  "os_drain_sigp 0 w = NoFuel"
| "os_drain_sigp (Suc fuel) w =
     (let (n, w) = drain_read w; w = w\<lparr>k_kicks := k_kicks w - int n\<rparr> in if drain_finished w n then Ret w else os_drain_sigp fuel w)"

definition os_event_wait :: "(int \<Rightarrow> wake \<Rightarrow> wake) \<Rightarrow> int \<Rightarrow> wake \<Rightarrow> (int \<times> wake) exec" where
  "os_event_wait wait timeo w = (let w = event_taken (wait timeo (w\<lparr>k_need := True\<rparr>)) in Ret (0, w\<lparr>k_need := False\<rparr>))"

definition os_iomp_wait :: "nat \<Rightarrow> (int \<Rightarrow> wake \<Rightarrow> int \<times> bool) \<Rightarrow> int \<Rightarrow> wake \<Rightarrow> (int \<times> wake) exec" where
  "os_iomp_wait fuel wait timeo w =
     (let w = w\<lparr>k_need := True\<rparr>; (err, pipe) = wait timeo w; w = w\<lparr>k_need := False\<rparr> in
      if pipe then ebind (os_drain_sigp fuel w) (\<lambda>w. Ret (err, w)) else Ret (err, w))"

definition os_poll_dispatch :: "nat \<Rightarrow> (int \<Rightarrow> wake \<Rightarrow> wake) \<Rightarrow> (int \<Rightarrow> wake \<Rightarrow> int \<times> bool) \<Rightarrow> int \<Rightarrow> wake \<Rightarrow> (int \<times> wake) exec" where
  "os_poll_dispatch fuel ev_wait io_wait timeo w =
     (if wants_wait timeo w then
        let w = w\<lparr>k_need := True\<rparr>; wait = (\<lambda>timeo w. if k_event w then os_event_wait ev_wait timeo w else os_iomp_wait fuel io_wait timeo w) in
        if k_terminated w then Ret (0, w)
        else if 0 < k_count w then
          let w = w\<lparr>k_need := False\<rparr> in
          if nothing_to_poll w then Ret (0, w) else wait 0 w
        else wait timeo w
      else Ret (0, w))"

subsection \<open>No wake-up is lost\<close>

definition will_sleep :: "t_pc \<Rightarrow> bool" where
  "will_sleep pc \<longleftrightarrow> (case pc of Waiting t \<Rightarrow> t \<noteq> 0 | Asleep t \<Rightarrow> t \<noteq> 0 | _ \<Rightarrow> False)"

definition past_term :: "t_pc \<Rightarrow> bool" where
  "past_term pc \<longleftrightarrow> will_sleep pc \<or> (\<exists>t. pc = Alive t)"

definition told :: "t_pc \<Rightarrow> bool" where
  "told pc \<longleftrightarrow> past_term pc \<or> (\<exists>t. pc = Told t)"

definition about_to_kick :: "c_pc \<Rightarrow> bool" where
  "about_to_kick pc \<longleftrightarrow> pc = Queued \<or> pc = Saw \<or> pc = Kicking"

definition kick_counted :: "c_pc \<Rightarrow> bool" where
  "kick_counted pc \<longleftrightarrow> pc = Kicking \<or> pc = Failed"

definition to_subtract :: "t_pc \<Rightarrow> nat" where
  "to_subtract pc = (case pc of Counting n \<Rightarrow> n | _ \<Rightarrow> 0)"

definition kicks_of :: "c_pc list \<Rightarrow> int" where
  "kicks_of cs = int (length (filter kick_counted cs))"

text \<open>A signal is there or on its way.\<close>

definition coming :: "threads \<Rightarrow> bool" where
  "coming s \<longleftrightarrow> signalled (t_wake s) \<or> (\<exists>c \<in> set (c_at s). about_to_kick c)"

definition wake_inv :: "threads \<Rightarrow> bool" where
  "wake_inv s \<longleftrightarrow> (told (t_at s) \<longrightarrow> k_need (t_wake s))
     \<and> (past_term (t_at s) \<and> k_terminated (t_wake s) \<longrightarrow> coming s)
     \<and> (will_sleep (t_at s) \<and> 0 < k_count (t_wake s) \<longrightarrow> coming s)
     \<and> (\<not> k_event (t_wake s) \<longrightarrow> k_kicks (t_wake s) = int (k_pipe (t_wake s)) + kicks_of (c_at s) + int (to_subtract (t_at s)))"

lemma drain_size_upd [simp]: "drain_size (w\<lparr>k_pipe := a\<rparr>) = drain_size w" "drain_size (w\<lparr>k_kicks := b\<rparr>) = drain_size w" "drain_size (w\<lparr>k_need := c\<rparr>) = drain_size w"
  by (simp_all add: drain_size_def)

lemma drain_finished_upd [simp]: "drain_finished (w\<lparr>k_pipe := a\<rparr>) n = drain_finished w n" "drain_finished (w\<lparr>k_kicks := b\<rparr>) n = drain_finished w n"
  by (simp_all add: drain_finished_def)

lemmas pc_defs = will_sleep_def past_term_def told_def to_subtract_def

lemma kicks_of_Cons: "kicks_of (c # cs) = (if kick_counted c then 1 else 0) + kicks_of cs"
  by (simp add: kicks_of_def)

lemma kicks_of_update:
  "i < length cs \<Longrightarrow> kicks_of (cs[i := c]) = kicks_of cs - (if kick_counted (cs ! i) then 1 else 0) + (if kick_counted c then 1 else 0)"
  by (induction cs arbitrary: i) (auto simp: kicks_of_Cons split: nat.split)

lemma t_step_keeps:
  assumes "t_step (pc, w) (pc', w')" and "wake_inv s" and "t_at s = pc" and "t_wake s = w"
  shows "wake_inv (s\<lparr>t_at := pc', t_wake := w'\<rparr>)"
  using assms
  by cases (auto simp: wake_inv_def pc_defs coming_def signalled_def event_taken_def drain_read_def drain_finished_def Let_def split: if_splits t_pc.splits)

lemma c_step_keeps:
  assumes "c_step (c, w) (c', w')" and "wake_inv s" and "i < length (c_at s)" and "c_at s ! i = c" and "t_wake s = w"
  shows "wake_inv (s\<lparr>c_at := (c_at s)[i := c'], t_wake := w'\<rparr>)"
proof -
  have inv: "told (t_at s) \<longrightarrow> k_need w" "past_term (t_at s) \<and> k_terminated w \<longrightarrow> coming s" "will_sleep (t_at s) \<and> 0 < k_count w \<longrightarrow> coming s"
    "\<not> k_event w \<longrightarrow> k_kicks w = int (k_pipe w) + kicks_of (c_at s) + int (to_subtract (t_at s))"
    using assms(2,5) by (auto simp: wake_inv_def)
  have in': "c' \<in> set ((c_at s)[i := c'])" using assms(3) by (simp add: set_update_memI)
  have told: "past_term (t_at s) \<longrightarrow> k_need w" "will_sleep (t_at s) \<longrightarrow> k_need w" using inv(1) by (auto simp: pc_defs)
  have keep: "coming (s\<lparr>c_at := (c_at s)[i := c'], t_wake := w'\<rparr>)" if "coming s" "k_need w"
  proof -
    from that(1) consider (sig) "signalled w" | (c) "about_to_kick c" | (d) d where "d \<in> set (c_at s)" "about_to_kick d" "d \<noteq> c" unfolding coming_def assms(5) by blast
    then show ?thesis
    proof cases
      case sig
      have "signalled w'" using assms(1) sig by cases (auto simp: signalled_def k_event_pulse_def)
      then show ?thesis by (simp add: coming_def)
    next
      case c
      have "signalled w' \<or> about_to_kick c'" using assms(1) that(2) c by cases (auto simp: signalled_def k_event_pulse_def about_to_kick_def)
      then show ?thesis using in' by (auto simp: coming_def)
    next
      case d
      then obtain j where "j < length (c_at s)" "c_at s ! j = d" "j \<noteq> i" using assms(4) by (metis in_set_conv_nth)
      then have "d \<in> set ((c_at s)[i := c'])" by (metis in_set_conv_nth length_list_update nth_list_update_neq)
      then show ?thesis using d(2) by (auto simp: coming_def)
    qed
  qed
  have new: "coming (s\<lparr>c_at := (c_at s)[i := c'], t_wake := w'\<rparr>)" if "about_to_kick c'" using that in' by (auto simp: coming_def)
  have old: "k_terminated w' \<longrightarrow> k_terminated w \<or> about_to_kick c'" "0 < k_count w' \<longrightarrow> 0 < k_count w \<or> about_to_kick c'" "k_need w' = k_need w" "k_event w' = k_event w"
    using assms(1) by (cases, auto simp: about_to_kick_def k_event_pulse_def)+
  have acct: "\<not> k_event w' \<longrightarrow> k_kicks w' = int (k_pipe w') + kicks_of ((c_at s)[i := c']) + int (to_subtract (t_at s))"
    using assms(1) inv(4) kicks_of_update [OF assms(3), of c'] assms(4) by cases (auto simp: kick_counted_def k_event_pulse_def)
  have need: "told (t_at s) \<longrightarrow> k_need w'" using inv(1) old(3) by simp
  have ended: "past_term (t_at s) \<and> k_terminated w' \<longrightarrow> coming (s\<lparr>c_at := (c_at s)[i := c'], t_wake := w'\<rparr>)" using inv(2) told(1) keep new old(1) by blast
  have queued: "will_sleep (t_at s) \<and> 0 < k_count w' \<longrightarrow> coming (s\<lparr>c_at := (c_at s)[i := c'], t_wake := w'\<rparr>)" using inv(3) told(2) keep new old(2) by blast
  show ?thesis using need ended queued acct by (simp add: wake_inv_def)
qed

lemma w_run_keeps: "w_run s s' \<Longrightarrow> wake_inv s \<Longrightarrow> wake_inv s'"
  by (induction rule: w_run.induct) (auto intro: t_step_keeps c_step_keeps)

lemma wake_inv_init: "wake_inv (threads_init ev sock n)"
  by (simp add: wake_inv_def threads_init_def wake_init_def pc_defs kicks_of_def kick_counted_def)

lemma reachable_wake_inv: "w_run\<^sup>*\<^sup>* (threads_init ev sock n) s \<Longrightarrow> wake_inv s"
  by (induction rule: rtranclp_induct) (auto intro: w_run_keeps wake_inv_init)

text \<open>
  C2. No wake-up is lost: under every interleaving of the queue's thread with any number of others, when the thread sleeps with a time-out other than 0 although a function is queued or the queue is
  to end, then a signal is pending, so that the wait returns, or one of the other threads is about to send it. For queues with a pipe \<^verbatim>\<open>kick_q_count\<close> always is the number
  of bytes in the pipe plus the kicks that are under way.
\<close>

theorem no_lost_wakeup:
  assumes "w_run\<^sup>*\<^sup>* (threads_init ev sock n) s"
  shows "(\<forall>timeo. t_at s = Asleep timeo \<and> timeo \<noteq> 0 \<and> (0 < k_count (t_wake s) \<or> k_terminated (t_wake s))
      \<longrightarrow> (\<exists>c \<in> set (c_at s). about_to_kick c) \<or> signalled (t_wake s) \<and> (\<exists>pc w. w_run s (s\<lparr>t_at := Woken pc, t_wake := w\<rparr>)))
    \<and> (\<not> k_event (t_wake s) \<longrightarrow> k_kicks (t_wake s) = int (k_pipe (t_wake s)) + kicks_of (c_at s) + int (to_subtract (t_at s)))"
proof -
  have inv: "wake_inv s" by (rule reachable_wake_inv [OF assms])
  have wakes: "\<exists>pc w. w_run s (s\<lparr>t_at := Woken pc, t_wake := w\<rparr>)" if "t_at s = Asleep timeo" "signalled (t_wake s)" for timeo
  proof (cases "k_event (t_wake s)")
    case True
    then show ?thesis using that(1) by (intro exI) (rule w_run.Own, simp, rule t_step.Event)
  next
    case False
    then show ?thesis using that by (intro exI) (rule w_run.Own, simp, rule t_step.Ready [where pipe = True], auto simp: signalled_def)
  qed
  have "coming s" if "t_at s = Asleep timeo" "timeo \<noteq> 0" "0 < k_count (t_wake s) \<or> k_terminated (t_wake s)" for timeo
    using inv that by (auto simp: wake_inv_def pc_defs)
  with wakes inv show ?thesis unfolding coming_def wake_inv_def by blast
qed

text \<open>The example: the thread of a new queue falls asleep for an unlimited time while another thread queues a function and has not kicked yet.\<close>

definition asleep_sample :: threads where
  "asleep_sample = \<lparr>t_at = Asleep (- 1), c_at = [Queued], t_wake = (wake_init False False)\<lparr>k_need := True, k_count := 1\<rparr>\<rparr>"

lemma w_runs_own: "w_run\<^sup>*\<^sup>* a s \<Longrightarrow> t_step (t_at s, t_wake s) (pc, w) \<Longrightarrow> s' = s\<lparr>t_at := pc, t_wake := w\<rparr> \<Longrightarrow> w_run\<^sup>*\<^sup>* a s'"
  by (auto intro: rtranclp.rtrancl_into_rtrancl w_run.Own)

lemma asleep_sample_reachable: "w_run\<^sup>*\<^sup>* (threads_init False False 1) asleep_sample"
proof -
  let ?w = "wake_init False False"
  let ?s = "\<lambda>pc w. \<lparr>t_at = pc, c_at = [Idle], t_wake = w\<rparr>"
  have 0: "w_run\<^sup>*\<^sup>* (threads_init False False 1) (?s Loop ?w)" by (simp add: threads_init_def)
  have 1: "w_run\<^sup>*\<^sup>* (threads_init False False 1) (?s (Entering (- 1)) ?w)" by (rule w_runs_own [OF 0]) (auto intro: t_step.Enter simp: wants_wait_def wake_init_def)
  have 2: "w_run\<^sup>*\<^sup>* (threads_init False False 1) (?s (Told (- 1)) (?w\<lparr>k_need := True\<rparr>))" by (rule w_runs_own [OF 1]) (auto intro: t_step.Tell)
  have 3: "w_run\<^sup>*\<^sup>* (threads_init False False 1) (?s (Alive (- 1)) (?w\<lparr>k_need := True\<rparr>))" by (rule w_runs_own [OF 2]) (auto intro: t_step.Go_on simp: wake_init_def)
  have 4: "w_run\<^sup>*\<^sup>* (threads_init False False 1) (?s (Waiting (- 1)) (?w\<lparr>k_need := True\<rparr>))" by (rule w_runs_own [OF 3]) (auto intro: t_step.No_work simp: wake_init_def)
  have 5: "w_run\<^sup>*\<^sup>* (threads_init False False 1) (?s (Asleep (- 1)) (?w\<lparr>k_need := True\<rparr>))" by (rule w_runs_own [OF 4, of "Asleep (- 1)" "?w\<lparr>k_need := True\<rparr>"]) (use t_step.Sleep [of "- 1" "?w\<lparr>k_need := True\<rparr>"] in auto)
  have "w_run (?s (Asleep (- 1)) (?w\<lparr>k_need := True\<rparr>)) asleep_sample"
    using w_run.Other [of 0 "?s (Asleep (- 1)) (?w\<lparr>k_need := True\<rparr>)" Queued "?w\<lparr>k_need := True, k_count := 1\<rparr>"] c_step.Queue_f [of "?w\<lparr>k_need := True\<rparr>"]
    by (simp add: asleep_sample_def wake_init_def)
  with 5 show ?thesis by (rule rtranclp.rtrancl_into_rtrancl)
qed

theorem no_lost_wakeup_witness: "0 < k_count (t_wake asleep_sample) \<and> (\<exists>c \<in> set (c_at asleep_sample). about_to_kick c)"
proof -
  have s: "t_at asleep_sample = Asleep (- 1)" "k_count (t_wake asleep_sample) = 1" "\<not> signalled (t_wake asleep_sample)"
    by (simp_all add: asleep_sample_def signalled_def wake_init_def)
  from no_lost_wakeup [OF asleep_sample_reachable] s show ?thesis by auto
qed

text \<open>The functions are made of these steps.\<close>

lemma drain_steps:
  "k_pipe w < fuel * drain_size w \<Longrightarrow> \<exists>w'. os_drain_sigp fuel w = Ret w' \<and> t_step\<^sup>*\<^sup>* (Draining, w) (Loop, w') \<and> w' = w\<lparr>k_pipe := 0, k_kicks := k_kicks w - int (k_pipe w)\<rparr>"
proof (induction fuel arbitrary: w)
  case (Suc fuel)
  let ?n = "min (drain_size w) (k_pipe w)"
  let ?w = "w\<lparr>k_pipe := k_pipe w - ?n, k_kicks := k_kicks w - int ?n\<rparr>"
  have d: "drain_read w = (?n, w\<lparr>k_pipe := k_pipe w - ?n\<rparr>)" by (simp add: drain_read_def Let_def)
  have "t_step (Draining, w) (Counting ?n, w\<lparr>k_pipe := k_pipe w - ?n\<rparr>)" by (rule t_step.Drain [OF d])
  moreover have "t_step (Counting ?n, w\<lparr>k_pipe := k_pipe w - ?n\<rparr>) (if drain_finished w ?n then Loop else Draining, ?w)"
    using t_step.Count [of ?n "w\<lparr>k_pipe := k_pipe w - ?n\<rparr>"] by simp
  ultimately have two: "t_step\<^sup>*\<^sup>* (Draining, w) (if drain_finished w ?n then Loop else Draining, ?w)" by (meson converse_rtranclp_into_rtranclp r_into_rtranclp)
  show ?case
  proof (cases "drain_finished w ?n")
    case True
    then have "?n = k_pipe w" by (auto simp: drain_finished_def)
    then show ?thesis using True two d by (simp add: Let_def)
  next
    case False
    then have full: "?n = drain_size w" "drain_size w \<le> k_pipe w" by (auto simp: drain_finished_def)
    then have "k_pipe ?w < fuel * drain_size ?w" using Suc.prems by simp
    from Suc.IH [OF this] obtain w' where ih: "os_drain_sigp fuel ?w = Ret w'" "t_step\<^sup>*\<^sup>* (Draining, ?w) (Loop, w')" "w' = ?w\<lparr>k_pipe := 0, k_kicks := k_kicks ?w - int (k_pipe ?w)\<rparr>" by blast
    have "t_step\<^sup>*\<^sup>* (Draining, w) (Loop, w')" using two ih(2) False by simp
    moreover have "os_drain_sigp (Suc fuel) w = Ret w'" using ih(1) False d by (simp add: Let_def)
    moreover have "w' = w\<lparr>k_pipe := 0, k_kicks := k_kicks w - int (k_pipe w)\<rparr>" using ih(3) full by simp
    ultimately show ?thesis by blast
  qed
qed simp

lemma wait_steps:
  assumes io: "\<not> k_event w \<longrightarrow> (0 < k_pipe w \<or> 0 < k_iofds w \<or> 0 \<le> timeo) \<and> (snd (io_wait timeo (w\<lparr>k_need := True\<rparr>)) \<longrightarrow> 0 < k_pipe w)"
    and ev: "ev_wait timeo (w\<lparr>k_need := True\<rparr>) = w\<lparr>k_need := True\<rparr>" and fuel: "k_pipe w < fuel * drain_size w"
  shows "\<exists>r w'. (if k_event w then os_event_wait ev_wait timeo w else os_iomp_wait fuel io_wait timeo w) = Ret (r, w') \<and> t_step\<^sup>*\<^sup>* (Waiting timeo, w) (Loop, w')"
proof -
  let ?w = "w\<lparr>k_need := True\<rparr>" and ?v = "w\<lparr>k_need := False\<rparr>"
  have sleep: "t_step (Waiting timeo, w) (Asleep timeo, ?w)" by (rule t_step.Sleep)
  show ?thesis
  proof (cases "k_event w")
    case True
    have "t_step (Asleep timeo, ?w) (Woken False, event_taken ?w)" by (rule t_step.Event) (use True in simp)
    moreover have "t_step (Woken False, event_taken ?w) (Loop, (event_taken ?w)\<lparr>k_need := False\<rparr>)" using t_step.Wake [of False "event_taken ?w"] by simp
    ultimately have "t_step\<^sup>*\<^sup>* (Waiting timeo, w) (Loop, (event_taken ?w)\<lparr>k_need := False\<rparr>)" using sleep by (meson converse_rtranclp_into_rtranclp rtranclp.rtrancl_refl)
    then show ?thesis using True ev by (auto simp: os_event_wait_def Let_def)
  next
    case False
    obtain err pipe where wt: "io_wait timeo ?w = (err, pipe)" by fastforce
    have "t_step (Asleep timeo, ?w) (Woken pipe, ?w)" by (rule t_step.Ready) (use False io wt in auto)
    moreover have "t_step (Woken pipe, ?w) (if pipe then Draining else Loop, ?v)" using t_step.Wake [of pipe ?w] by simp
    ultimately have go: "t_step\<^sup>*\<^sup>* (Waiting timeo, w) (if pipe then Draining else Loop, ?v)" using sleep by (meson converse_rtranclp_into_rtranclp rtranclp.rtrancl_refl)
    show ?thesis
    proof (cases pipe)
      case True
      from drain_steps [of ?v fuel] fuel obtain w' where d: "os_drain_sigp fuel ?v = Ret w'" "t_step\<^sup>*\<^sup>* (Draining, ?v) (Loop, w')" by auto
      then have "t_step\<^sup>*\<^sup>* (Waiting timeo, w) (Loop, w')" using go True by simp
      then show ?thesis using False True wt d(1) by (auto simp: os_iomp_wait_def Let_def)
    next
      case npipe: False
      then show ?thesis using False go wt by (auto simp: os_iomp_wait_def Let_def)
    qed
  qed
qed

text \<open>
  \<^verbatim>\<open>os_poll_dispatch\<close>, left alone, returns and what it leaves can be reached by steps of \<^const>\<open>t_step\<close>. Only the states before and after the call are related here; the order of the accesses
  is that of the rules of \<^const>\<open>t_step\<close>. The wait is assumed to report the pipe only when there is something in it and to return only when something is ready or its time is over.
\<close>

theorem os_poll_dispatch_refines:
  assumes "\<forall>t w. ev_wait t w = w" and "\<not> k_event w \<longrightarrow> 0 < k_pipe w \<or> 0 < k_iofds w \<or> 0 \<le> timeo" and "\<forall>t w. snd (io_wait t w) \<longrightarrow> 0 < k_pipe w"
    and "k_pipe w < fuel * drain_size w"
  shows "\<exists>r w'. os_poll_dispatch fuel ev_wait io_wait timeo w = Ret (r, w') \<and> t_step\<^sup>*\<^sup>* (Loop, w) (Loop, w')"
proof (cases "wants_wait timeo w")
  case True
  let ?w = "w\<lparr>k_need := True\<rparr>" and ?v = "w\<lparr>k_need := False\<rparr>"
  have told: "t_step\<^sup>*\<^sup>* (Loop, w) (Told timeo, ?w)" using t_step.Enter [OF True] t_step.Tell [of timeo w] by (meson converse_rtranclp_into_rtranclp rtranclp.rtrancl_refl)
  have "\<not> k_terminated w" using True by (simp add: wants_wait_def)
  with told have alive: "t_step\<^sup>*\<^sup>* (Loop, w) (Alive timeo, ?w)" using t_step.Go_on [of ?w timeo] by (simp add: rtranclp.rtrancl_into_rtrancl)
  have sp: "snd (io_wait t (w\<lparr>k_need := b\<rparr>)) \<longrightarrow> 0 < k_pipe w" for t b using assms(3) [rule_format, of t "w\<lparr>k_need := b\<rparr>"] by simp
  show ?thesis
  proof (cases "0 < k_count w")
    case busy: True
    have "t_step\<^sup>*\<^sup>* (Alive timeo, ?w) (Unneeded, ?v)" using t_step.Some_work [of ?w timeo] t_step.Untell [of ?w] busy by (auto intro: converse_rtranclp_into_rtranclp)
    with alive have un: "t_step\<^sup>*\<^sup>* (Loop, w) (Unneeded, ?v)" by (rule rtranclp_trans)
    show ?thesis
    proof (cases "nothing_to_poll w")
      case none: True
      then have "t_step (Unneeded, ?v) (Loop, ?v)" by (intro t_step.No_poll) (simp add: nothing_to_poll_def)
      with un have "t_step\<^sup>*\<^sup>* (Loop, w) (Loop, ?v)" by (rule rtranclp.rtrancl_into_rtrancl)
      then show ?thesis using True busy none \<open>\<not> k_terminated w\<close> by (simp add: os_poll_dispatch_def nothing_to_poll_def Let_def)
    next
      case some: False
      then have "t_step (Unneeded, ?v) (Waiting 0, ?v)" by (intro t_step.Poll) (simp add: nothing_to_poll_def)
      with un have wt: "t_step\<^sup>*\<^sup>* (Loop, w) (Waiting 0, ?v)" by (rule rtranclp.rtrancl_into_rtrancl)
      have "\<exists>r w'. (if k_event ?v then os_event_wait ev_wait 0 ?v else os_iomp_wait fuel io_wait 0 ?v) = Ret (r, w') \<and> t_step\<^sup>*\<^sup>* (Waiting 0, ?v) (Loop, w')"
        by (rule wait_steps) (use assms sp in auto)
      then obtain r w' where
        r: "(if k_event ?v then os_event_wait ev_wait 0 ?v else os_iomp_wait fuel io_wait 0 ?v) = Ret (r, w')" "t_step\<^sup>*\<^sup>* (Waiting 0, ?v) (Loop, w')" by blast
      have "os_poll_dispatch fuel ev_wait io_wait timeo w = Ret (r, w')"
        using True busy some \<open>\<not> k_terminated w\<close> r(1) by (auto simp: os_poll_dispatch_def nothing_to_poll_def Let_def)
      moreover have "t_step\<^sup>*\<^sup>* (Loop, w) (Loop, w')" using wt r(2) by (rule rtranclp_trans)
      ultimately show ?thesis by blast
    qed
  next
    case idle: False
    have "t_step (Alive timeo, ?w) (Waiting timeo, ?w)" by (rule t_step.No_work) (use idle in simp)
    with alive have wt: "t_step\<^sup>*\<^sup>* (Loop, w) (Waiting timeo, ?w)" by (rule rtranclp.rtrancl_into_rtrancl)
    have "\<exists>r w'. (if k_event ?w then os_event_wait ev_wait timeo ?w else os_iomp_wait fuel io_wait timeo ?w) = Ret (r, w') \<and> t_step\<^sup>*\<^sup>* (Waiting timeo, ?w) (Loop, w')"
      by (rule wait_steps) (use assms sp in auto)
    then obtain r w' where
      r: "(if k_event ?w then os_event_wait ev_wait timeo ?w else os_iomp_wait fuel io_wait timeo ?w) = Ret (r, w')" "t_step\<^sup>*\<^sup>* (Waiting timeo, ?w) (Loop, w')" by blast
    have "os_poll_dispatch fuel ev_wait io_wait timeo w = Ret (r, w')" using True idle \<open>\<not> k_terminated w\<close> r(1) by (simp add: os_poll_dispatch_def Let_def)
    moreover have "t_step\<^sup>*\<^sup>* (Loop, w) (Loop, w')" using wt r(2) by (rule rtranclp_trans)
    ultimately show ?thesis by blast
  qed
next
  case False
  then show ?thesis by (simp add: os_poll_dispatch_def)
qed

theorem os_poll_dispatch_refines_witness:
  "\<exists>r w'. os_poll_dispatch 1 (\<lambda>_ w. w) (\<lambda>_ w. (1, 0 < k_pipe w)) (- 1) ((wake_init False False)\<lparr>k_pipe := 2, k_kicks := 2\<rparr>) = Ret (r, w')
     \<and> t_step\<^sup>*\<^sup>* (Loop, (wake_init False False)\<lparr>k_pipe := 2, k_kicks := 2\<rparr>) (Loop, w')"
  using os_poll_dispatch_refines [of "\<lambda>_ w. w" "(wake_init False False)\<lparr>k_pipe := 2, k_kicks := 2\<rparr>" "- 1" "\<lambda>_ w. (1, 0 < k_pipe w)" 1]
  by (simp add: drain_size_def wake_init_def)

subsection \<open>The pipe and the event of a queue\<close>

datatype wakeup_type = WAKEUP_TYPE_NONE | WAKEUP_TYPE_PIPE | WAKEUP_TYPE_SOCKET | WAKEUP_TYPE_SIGNAL | WAKEUP_TYPE_COUNT

record sigp =
  sg_type :: wakeup_type
  sg_piper :: int
  sg_pipew :: int
  sg_activated :: bool
  sg_event :: bool

text \<open>What the functions hold: open descriptors, events, poll back ends and registrations with them; and the static \<^verbatim>\<open>port\<close>.\<close>

record os_res =
  open_fds :: "int list"
  events_made :: nat
  pub_inits :: nat
  sigps_active :: nat
  sock_port :: int

text \<open>The results of the calls: of \<^verbatim>\<open>pipe\<close> (with its two descriptors), the two sockets, \<^verbatim>\<open>bind\<close>, \<^verbatim>\<open>connect\<close>, making a descriptor non-blocking, the back end's functions and the event.\<close>

record sig_env =
  has_pipe :: bool
  pipe_res :: "int \<times> int \<times> int"
  serv_sock :: int
  conn_sock :: int
  bind_res :: int
  connect_res :: int
  nonblock_res :: "int \<Rightarrow> int"
  activate_res :: int
  pub_init_res :: int
  event_res :: bool

definition DEFAULT_SOCKET_PORT :: int where "DEFAULT_SOCKET_PORT = 12543"

definition next_port :: "int \<Rightarrow> int" where
  "next_port port = (port + 1) mod 100 + DEFAULT_SOCKET_PORT"

definition opened :: "int \<Rightarrow> os_res \<Rightarrow> os_res" where
  "opened fd s = s\<lparr>open_fds := fd # open_fds s\<rparr>"

definition closed :: "int \<Rightarrow> os_res \<Rightarrow> os_res" where
  "closed fd s = s\<lparr>open_fds := remove1 fd (open_fds s)\<rparr>"

definition os_socket_pipe :: "sig_env \<Rightarrow> os_res \<Rightarrow> int \<times> int \<times> int \<times> os_res" where
  "os_socket_pipe e s =
     (let s = s\<lparr>sock_port := next_port (sock_port s)\<rparr> in
      if aosl_fd_invalid (serv_sock e) then (- 1, 0, 0, s)
      else
        let s = opened (serv_sock e) s in
        if bind_res e < 0 then (- 1, 0, 0, closed (serv_sock e) s)
        else if aosl_fd_invalid (conn_sock e) then (- 1, 0, 0, s)
        else
          let s = opened (conn_sock e) s in
          if connect_res e < 0 then (- 1, 0, 0, closed (serv_sock e) (closed (conn_sock e) s))
          else (0, serv_sock e, conn_sock e, s))"

definition os_pipe :: "sig_env \<Rightarrow> os_res \<Rightarrow> int \<times> int \<times> int \<times> wakeup_type \<times> os_res" where
  "os_pipe e s =
     (if has_pipe e then
        let (err, r, w) = pipe_res e in (err, r, w, WAKEUP_TYPE_PIPE, if err < 0 then s else opened w (opened r s))
      else let (err, r, w, s) = os_socket_pipe e s in (err, r, w, WAKEUP_TYPE_SOCKET, s))"

definition fini_fd :: "int \<Rightarrow> os_res \<Rightarrow> os_res" where
  "fini_fd fd s = (if \<not> aosl_fd_invalid fd then closed fd s else s)"

definition os_fini_sigp :: "sigp \<Rightarrow> os_res \<Rightarrow> sigp \<times> os_res" where
  "os_fini_sigp g s =
     (let s = (if sg_activated g then s\<lparr>sigps_active := sigps_active s - 1\<rparr> else s);
          s = fini_fd (sg_pipew g) (fini_fd (sg_piper g) s);
          s = (if sg_event g then s\<lparr>events_made := events_made s - 1\<rparr> else s)
      in (g\<lparr>sg_activated := False, sg_piper := AOSL_INVALID_FD, sg_pipew := AOSL_INVALID_FD, sg_event := False\<rparr>, s))"

definition os_init_sigp_pipe :: "sig_env \<Rightarrow> sigp \<Rightarrow> os_res \<Rightarrow> int \<times> sigp \<times> os_res" where
  "os_init_sigp_pipe e g s =
     (let (err, r, w, type, s) = os_pipe e s in
      if err < 0 then let (g, s) = os_fini_sigp g s in (err, g, s)
      else
        let g = g\<lparr>sg_type := type, sg_piper := r, sg_pipew := w\<rparr>;
            err = (if nonblock_res e r < 0 then nonblock_res e r else if nonblock_res e w < 0 then nonblock_res e w else activate_res e) in
        if err < 0 then let (g, s) = os_fini_sigp g s in (err, g, s)
        else (0, g\<lparr>sg_activated := True\<rparr>, s\<lparr>sigps_active := sigps_active s + 1\<rparr>))"

definition os_init_sigp_event :: "sig_env \<Rightarrow> sigp \<Rightarrow> os_res \<Rightarrow> int \<times> sigp \<times> os_res" where
  "os_init_sigp_event e g s = (if event_res e then (0, g\<lparr>sg_event := True\<rparr>, s\<lparr>events_made := events_made s + 1\<rparr>) else (- 1, g, s))"

definition no_sigp :: sigp where
  "no_sigp = \<lparr>sg_type = WAKEUP_TYPE_NONE, sg_piper = AOSL_INVALID_FD, sg_pipew = AOSL_INVALID_FD, sg_activated = False, sg_event = False\<rparr>"

definition os_init_sigp :: "sig_env \<Rightarrow> bool \<Rightarrow> os_res \<Rightarrow> int \<times> sigp \<times> os_res" where
  "os_init_sigp e ev s = (if ev then os_init_sigp_event e no_sigp s else os_init_sigp_pipe e no_sigp s)"

definition os_mp_init :: "sig_env \<Rightarrow> bool \<Rightarrow> os_res \<Rightarrow> int \<times> sigp \<times> os_res" where
  "os_mp_init e ev s =
     (if pub_init_res e \<noteq> 0 then (- 1, no_sigp, s)
      else
        let (r, g, s) = os_init_sigp e ev (s\<lparr>pub_inits := pub_inits s + 1\<rparr>) in
        if r \<noteq> 0 then (- 1, g, s\<lparr>pub_inits := pub_inits s - 1\<rparr>) else (0, g, s))"

definition os_mp_fini :: "sigp \<Rightarrow> os_res \<Rightarrow> os_res" where
  "os_mp_fini g s = (let (g, s) = os_fini_sigp g s in s\<lparr>pub_inits := pub_inits s - 1\<rparr>)"

text \<open>The descriptors that the system hands out are new, valid and different.\<close>

definition fresh_fds :: "sig_env \<Rightarrow> os_res \<Rightarrow> bool" where
  "fresh_fds e s \<longleftrightarrow> (case pipe_res e of (err, r, w) \<Rightarrow> 0 \<le> err \<longrightarrow> r \<noteq> w \<and> r \<noteq> AOSL_INVALID_FD \<and> w \<noteq> AOSL_INVALID_FD \<and> r \<notin> set (open_fds s) \<and> w \<notin> set (open_fds s))
     \<and> (serv_sock e \<noteq> AOSL_INVALID_FD \<longrightarrow> serv_sock e \<notin> set (open_fds s) \<and> serv_sock e \<noteq> conn_sock e) \<and> (conn_sock e \<noteq> AOSL_INVALID_FD \<longrightarrow> conn_sock e \<notin> set (open_fds s))"

lemma fini_fd_simps [simp]: "fd \<noteq> AOSL_INVALID_FD \<Longrightarrow> fini_fd fd s = closed fd s" "fini_fd AOSL_INVALID_FD s = s"
  by (simp_all add: fini_fd_def aosl_fd_invalid_def)

text \<open>
  \<^verbatim>\<open>os_mp_init\<close> holds nothing when it fails, and what it holds when it succeeds \<^verbatim>\<open>os_mp_fini\<close> gives back, except in one case: where the pipe is made of two sockets and the second socket cannot be
  created, the first one stays open.
\<close>

theorem os_mp_init_leaks_only_server_socket:
  assumes "fresh_fds e s" and "os_mp_init e ev s = (r, g, s')"
  defines "lost \<equiv> \<not> ev \<and> \<not> has_pipe e \<and> pub_init_res e = 0 \<and> serv_sock e \<noteq> AOSL_INVALID_FD \<and> 0 \<le> bind_res e \<and> conn_sock e = AOSL_INVALID_FD"
  shows "(r \<noteq> 0 \<longrightarrow> s'\<lparr>sock_port := 0\<rparr> = (if lost then opened (serv_sock e) s else s)\<lparr>sock_port := 0\<rparr>)
    \<and> (r = 0 \<longrightarrow> (os_mp_fini g s')\<lparr>sock_port := 0\<rparr> = s\<lparr>sock_port := 0\<rparr>)"
  using assms(1,2)
  by (auto simp: lost_def os_mp_init_def os_init_sigp_def os_init_sigp_event_def os_init_sigp_pipe_def os_pipe_def os_socket_pipe_def os_fini_sigp_def os_mp_fini_def no_sigp_def
      fresh_fds_def opened_def closed_def aosl_fd_invalid_def Let_def split: if_splits prod.splits)

theorem os_mp_init_leaks_only_server_socket_witness:
  "let e = \<lparr>has_pipe = False, pipe_res = (- 1, 0, 0), serv_sock = 5, conn_sock = AOSL_INVALID_FD, bind_res = 0, connect_res = 0, nonblock_res = (\<lambda>_. 0), activate_res = 0, pub_init_res = 0,
         event_res = False\<rparr>;
       s = \<lparr>open_fds = [], events_made = 0, pub_inits = 0, sigps_active = 0, sock_port = DEFAULT_SOCKET_PORT\<rparr>
   in case os_mp_init e False s of (r, g, s') \<Rightarrow> r = - 1 \<and> open_fds s' = [5] \<and> s'\<lparr>sock_port := 0\<rparr> = (opened 5 s)\<lparr>sock_port := 0\<rparr>"
proof -
  let ?e = "\<lparr>has_pipe = False, pipe_res = (- 1, 0, 0), serv_sock = 5, conn_sock = AOSL_INVALID_FD, bind_res = 0, connect_res = 0, nonblock_res = (\<lambda>_. 0), activate_res = 0, pub_init_res = 0,
         event_res = False\<rparr>"
  let ?s = "\<lparr>open_fds = [], events_made = 0, pub_inits = 0, sigps_active = 0, sock_port = DEFAULT_SOCKET_PORT\<rparr>"
  have fresh: "fresh_fds ?e ?s" by (simp add: fresh_fds_def AOSL_INVALID_FD_def)
  obtain r g s' where run: "os_mp_init ?e False ?s = (r, g, s')" by (metis prod_cases3)
  have "r = - 1" "open_fds s' = [5]"
    using run by (auto simp: os_mp_init_def os_init_sigp_def os_init_sigp_pipe_def os_pipe_def os_socket_pipe_def os_fini_sigp_def no_sigp_def opened_def aosl_fd_invalid_def AOSL_INVALID_FD_def
        fini_fd_def Let_def)
  with os_mp_init_leaks_only_server_socket [OF fresh run] run show ?thesis by (simp add: AOSL_INVALID_FD_def)
qed

text \<open>
  The ports of the socket pairs repeat after 25 steps: \<^verbatim>\<open>((port + 1) % 100) + DEFAULT_SOCKET_PORT\<close> takes the remainder of the whole port number, so that each step adds 44 modulo 100 to the offset
  and only one in four of the hundred ports is used.
\<close>

theorem ports_repeat:
  "(next_port ^^ 25) DEFAULT_SOCKET_PORT = DEFAULT_SOCKET_PORT \<and> card (set (map (\<lambda>n. (next_port ^^ n) DEFAULT_SOCKET_PORT) [0..<100])) = 25"
  by code_simp

end
