(* ===== verification/Dyn_Array.thy ===== *)
theory Dyn_Array
  imports Aosl_Prelude
begin

text \<open>
  Dynamic arrays, bytes and strings: the first part of \<^verbatim>\<open>lib/marshalling.c\<close>. The block behind \<^verbatim>\<open>values\<close> is the list of its bytes; \<^verbatim>\<open>NULL\<close> is the empty list.
  The counters are 16 bits wide. A copy outside of a block is a fault.
\<close>

subsection \<open>Data and operations\<close>

record dyn_array =
  da_count :: u16
  da_allocated :: u16
  da_values :: bytes

definition DYNAMIC_ARRAY_MAX_COUNT :: nat where "DYNAMIC_ARRAY_MAX_COUNT = 10240"
definition DYNAMIC_ARRAY_GROW_STRIDE :: u16 where "DYNAMIC_ARRAY_GROW_STRIDE = 4"
definition DYNAMIC_BYTES_GROW_STRIDE :: u16 where "DYNAMIC_BYTES_GROW_STRIDE = 16"

definition aosl_dynamic_array_init :: dyn_array where
  "aosl_dynamic_array_init = \<lparr>da_count = 0, da_allocated = 0, da_values = []\<rparr>"

definition aosl_dynamic_array_init_with :: "bytes \<Rightarrow> nat \<Rightarrow> dyn_array" where
  "aosl_dynamic_array_init_with data len = \<lparr>da_count = of_nat len, da_allocated = of_nat len, da_values = data\<rparr>"

text \<open>\<^verbatim>\<open>while (allocated < needed) allocated += stride\<close>, where the sum wraps.\<close>

fun grow :: "nat \<Rightarrow> u16 \<Rightarrow> u16 \<Rightarrow> u16 \<Rightarrow> u16 exec" where
  "grow 0 stride needed allocated = NoFuel"
| "grow (Suc fuel) stride needed allocated = (if allocated < needed then grow fuel stride needed (allocated + stride) else Ret allocated)"

text \<open>\<^verbatim>\<open>memcpy\<close> into a block at an offset.\<close>

definition copy_to :: "bytes \<Rightarrow> nat \<Rightarrow> bytes \<Rightarrow> bytes exec" where
  "copy_to block off data = (if off + length data \<le> length block then Ret (take off block @ data @ drop (off + length data) block) else Fault)"

text \<open>
  The common part of \<^verbatim>\<open>aosl_dynamic_array_add_elems\<close> and \<^verbatim>\<open>aosl_dynamic_string_strcat\<close>: room for \<open>needed\<close> elements of \<open>size\<close> bytes. \<open>mem\<close> is the content of the new block, or None
  when there is no memory.
\<close>

definition ensure :: "nat \<Rightarrow> (nat \<Rightarrow> bytes) option \<Rightarrow> u16 \<Rightarrow> nat \<Rightarrow> u16 \<Rightarrow> dyn_array \<Rightarrow> (int + dyn_array) exec" where
  "ensure fuel mem stride sz needed arr =
     ebind (grow fuel stride needed (da_allocated arr)) (\<lambda>allocated.
     if da_allocated arr < allocated then
       (case mem of
          None \<Rightarrow> Ret (Inl (- AOSL_ENOMEM))
        | Some new \<Rightarrow>
            let block = new (sz * unat allocated) in
            if length (da_values arr) < sz * unat (da_count arr) then Fault
            else ebind (copy_to block 0 (take (sz * unat (da_count arr)) (da_values arr))) (\<lambda>block. Ret (Inr (arr\<lparr>da_values := block, da_allocated := allocated\<rparr>))))
     else Ret (Inr arr))"

definition too_many :: "nat \<Rightarrow> dyn_array \<Rightarrow> bool" where
  "too_many n arr \<longleftrightarrow> DYNAMIC_ARRAY_MAX_COUNT \<le> unat (da_count arr) \<or> DYNAMIC_ARRAY_MAX_COUNT \<le> n \<or> DYNAMIC_ARRAY_MAX_COUNT \<le> n + unat (da_count arr)"

definition aosl_dynamic_array_add_elems :: "nat \<Rightarrow> (nat \<Rightarrow> bytes) option \<Rightarrow> bytes \<Rightarrow> nat \<Rightarrow> nat \<Rightarrow> dyn_array \<Rightarrow> (int \<times> dyn_array) exec" where
  "aosl_dynamic_array_add_elems fuel mem elems elem_size nelems arr =
     (if too_many nelems arr then Ret (- AOSL_E2BIG, arr)
      else
        ebind (ensure fuel mem DYNAMIC_ARRAY_GROW_STRIDE elem_size (da_count arr + of_nat nelems) arr) (\<lambda>r.
        case r of
          Inl err \<Rightarrow> Ret (err, arr)
        | Inr arr \<Rightarrow>
            if 0 < nelems then
              ebind (copy_to (da_values arr) (elem_size * unat (da_count arr)) (take (elem_size * nelems) elems)) (\<lambda>block.
              Ret (0, arr\<lparr>da_values := block, da_count := da_count arr + of_nat nelems\<rparr>))
            else Ret (0, arr)))"

text \<open>\<^verbatim>\<open>aosl_dynamic_array_take\<close>: the block that \<open>dst\<close> had is freed.\<close>

definition aosl_dynamic_array_take :: "dyn_array \<Rightarrow> dyn_array \<Rightarrow> dyn_array \<times> dyn_array \<times> bytes option" where
  "aosl_dynamic_array_take dst src = (src, aosl_dynamic_array_init, if 0 < da_allocated dst then Some (da_values dst) else None)"

definition aosl_dynamic_array_is_empty :: "dyn_array \<Rightarrow> bool" where
  "aosl_dynamic_array_is_empty arr \<longleftrightarrow> da_count arr = 0"

definition aosl_dynamic_bytes_copy :: "(nat \<Rightarrow> bytes) option \<Rightarrow> dyn_array \<Rightarrow> dyn_array \<Rightarrow> (int \<times> dyn_array) exec" where
  "aosl_dynamic_bytes_copy mem dst src =
     (if 0 < da_allocated src then
        (case mem of
           None \<Rightarrow> Ret (- 1, dst)
         | Some new \<Rightarrow>
             if length (da_values src) < unat (da_count src) then Fault
             else
               ebind (copy_to (new (unat (da_allocated src))) 0 (take (unat (da_count src)) (da_values src))) (\<lambda>block.
               ebind (if da_count src < da_allocated src then copy_to block (unat (da_count src)) [0] else Ret block) (\<lambda>block.
               Ret (0, src\<lparr>da_values := block\<rparr>))))
      else Ret (0, src\<lparr>da_values := []\<rparr>))"

fun memcmp :: "bytes \<Rightarrow> bytes \<Rightarrow> int" where
  "memcmp (x # xs) (y # ys) = (if x = y then memcmp xs ys else uint x - uint y)"
| "memcmp _ _ = 0"

definition aosl_dynamic_bytes_compare :: "dyn_array \<Rightarrow> dyn_array \<Rightarrow> int" where
  "aosl_dynamic_bytes_compare b1 b2 =
     (if da_count b1 \<noteq> da_count b2 then uint (da_count b1) - uint (da_count b2)
      else memcmp (take (unat (da_count b1)) (da_values b1)) (take (unat (da_count b1)) (da_values b2)))"

definition aosl_dynamic_bytes_add_data :: "nat \<Rightarrow> (nat \<Rightarrow> bytes) option \<Rightarrow> bytes \<Rightarrow> nat \<Rightarrow> dyn_array \<Rightarrow> (int \<times> dyn_array) exec" where
  "aosl_dynamic_bytes_add_data fuel mem data len arr = aosl_dynamic_array_add_elems fuel mem data 1 len arr"

definition aosl_dynamic_bytes_copy_data :: "nat \<Rightarrow> (nat \<Rightarrow> bytes) option \<Rightarrow> bytes \<Rightarrow> nat \<Rightarrow> dyn_array \<Rightarrow> (int \<times> dyn_array) exec" where
  "aosl_dynamic_bytes_copy_data fuel mem data len arr = aosl_dynamic_array_add_elems fuel mem data 1 len (arr\<lparr>da_count := 0\<rparr>)"

text \<open>\<open>str\<close> without its terminating 0.\<close>

definition aosl_dynamic_string_strcat :: "nat \<Rightarrow> (nat \<Rightarrow> bytes) option \<Rightarrow> bytes \<Rightarrow> dyn_array \<Rightarrow> (int \<times> dyn_array) exec" where
  "aosl_dynamic_string_strcat fuel mem str arr =
     (let len = length str in
      if too_many len arr then Ret (- AOSL_E2BIG, arr)
      else
        ebind (ensure fuel mem DYNAMIC_BYTES_GROW_STRIDE 1 (da_count arr + of_nat len + 1) arr) (\<lambda>r.
        case r of
          Inl err \<Rightarrow> Ret (err, arr)
        | Inr arr \<Rightarrow>
            ebind (if 0 < len then
                     ebind (copy_to (da_values arr) (unat (da_count arr)) str) (\<lambda>block. Ret (arr\<lparr>da_values := block, da_count := da_count arr + of_nat len\<rparr>))
                   else Ret arr) (\<lambda>arr.
            ebind (copy_to (da_values arr) (unat (da_count arr)) [0]) (\<lambda>block.
            Ret (0, arr\<lparr>da_values := block\<rparr>)))))"

definition aosl_dynamic_string_strcpy :: "nat \<Rightarrow> (nat \<Rightarrow> bytes) option \<Rightarrow> bytes \<Rightarrow> dyn_array \<Rightarrow> (int \<times> dyn_array) exec" where
  "aosl_dynamic_string_strcpy fuel mem str arr = aosl_dynamic_string_strcat fuel mem str (arr\<lparr>da_count := 0\<rparr>)"

text \<open>\<open>buf_sz - 1\<close> wraps for a buffer of size 0.\<close>

definition aosl_dynamic_string_strcpy_out :: "bytes \<Rightarrow> nat \<Rightarrow> dyn_array \<Rightarrow> bytes exec" where
  "aosl_dynamic_string_strcpy_out buf buf_sz arr =
     (let n = unat (da_count arr); n = (if buf_sz \<le> n then (if buf_sz = 0 then 2 ^ 64 - 1 else buf_sz - 1) else n) in
      if length (da_values arr) < n then Fault else ebind (copy_to buf 0 (take n (da_values arr))) (\<lambda>buf. copy_to buf n [0]))"

subsection \<open>Properties\<close>

text \<open>What an array holds, and when its block has the size it claims.\<close>

definition content :: "nat \<Rightarrow> dyn_array \<Rightarrow> bytes" where
  "content sz arr = take (sz * unat (da_count arr)) (da_values arr)"

definition da_ok :: "nat \<Rightarrow> dyn_array \<Rightarrow> bool" where
  "da_ok sz arr \<longleftrightarrow> da_count arr \<le> da_allocated arr \<and> length (da_values arr) = sz * unat (da_allocated arr)"

definition gives_blocks :: "(nat \<Rightarrow> bytes) option \<Rightarrow> bool" where
  "gives_blocks mem \<longleftrightarrow> (\<forall>new. mem = Some new \<longrightarrow> (\<forall>n. length (new n) = n))"

lemma grow_enough:
  assumes "unat needed + unat stride < 2 ^ 16" and "0 < stride"
  shows "unat needed - unat a < fuel \<Longrightarrow> \<exists>a'. grow fuel stride needed a = Ret a' \<and> needed \<le> a' \<and> a \<le> a'"
proof (induction fuel arbitrary: a)
  case (Suc fuel)
  show ?case
  proof (cases "a < needed")
    case True
    have "unat a + unat stride < 2 ^ 16" using True assms(1) by (simp add: word_less_nat_alt)
    then have u: "unat (a + stride) = unat a + unat stride" by (simp add: unat_add_lem [THEN iffD1])
    have "0 < unat stride" using assms(2) by (simp add: word_less_nat_alt)
    then have "unat needed - unat (a + stride) < fuel" using Suc.prems u True by (auto simp: word_less_nat_alt)
    from Suc.IH [OF this] show ?thesis using True u by (auto simp: word_le_nat_alt)
  next
    case False
    then show ?thesis by (auto simp: not_less)
  qed
qed simp

lemma content_length: "da_ok sz arr \<Longrightarrow> length (content sz arr) = sz * unat (da_count arr)"
  by (simp add: content_def da_ok_def word_le_nat_alt)

lemma copy_to_Ret: "off + length data \<le> length block \<Longrightarrow> copy_to block off data = Ret (take off block @ data @ drop (off + length data) block)"
  by (simp add: copy_to_def)

lemma ensure_ok:
  assumes ok: "da_ok sz arr" and mem: "gives_blocks mem" and needed: "unat needed + unat stride < 2 ^ 16" "0 < stride" "unat needed < fuel"
  shows "ensure fuel mem stride sz needed arr = Ret (Inl (- AOSL_ENOMEM)) \<and> mem = None
    \<or> (\<exists>arr'. ensure fuel mem stride sz needed arr = Ret (Inr arr') \<and> da_ok sz arr' \<and> content sz arr' = content sz arr \<and> da_count arr' = da_count arr \<and> needed \<le> da_allocated arr')"
proof -
  have "unat needed - unat (da_allocated arr) < fuel" using needed(3) by simp
  from grow_enough [OF needed(1,2) this] obtain a where g: "grow fuel stride needed (da_allocated arr) = Ret a" "needed \<le> a" "da_allocated arr \<le> a" by blast
  show ?thesis
  proof (cases "da_allocated arr < a")
    case False
    then have "a = da_allocated arr" using g(3) by simp
    then show ?thesis using False g ok by (simp add: ensure_def)
  next
    case True
    show ?thesis
    proof (cases mem)
      case None
      then show ?thesis using True g by (simp add: ensure_def)
    next
      case (Some new)
      let ?k = "sz * unat (da_count arr)"
      have k: "?k \<le> length (da_values arr)" "?k \<le> sz * unat a" using ok g(3) by (auto simp: da_ok_def word_le_nat_alt)
      have len: "length (new (sz * unat a)) = sz * unat a" using mem Some by (simp add: gives_blocks_def)
      have "ensure fuel mem stride sz needed arr = Ret (Inr (arr\<lparr>da_values := take ?k (da_values arr) @ drop ?k (new (sz * unat a)), da_allocated := a\<rparr>))"
        using True g(1) Some k len by (simp add: ensure_def copy_to_def Let_def)
      moreover have "da_ok sz (arr\<lparr>da_values := take ?k (da_values arr) @ drop ?k (new (sz * unat a)), da_allocated := a\<rparr>)"
        using ok g(3) k len by (auto simp: da_ok_def)
      moreover have "content sz (arr\<lparr>da_values := take ?k (da_values arr) @ drop ?k (new (sz * unat a)), da_allocated := a\<rparr>) = content sz arr"
        using k by (simp add: content_def)
      ultimately show ?thesis using g(2) by simp
    qed
  qed
qed

text \<open>Writing behind the last element.\<close>

lemma append_ok:
  assumes ok: "da_ok sz arr" and n: "unat (da_count arr) + n < 2 ^ 16" "da_count arr + of_nat n \<le> da_allocated arr" and elems: "length elems = sz * n"
  shows "\<exists>block. copy_to (da_values arr) (sz * unat (da_count arr)) elems = Ret block
    \<and> da_ok sz (arr\<lparr>da_values := block, da_count := da_count arr + of_nat n\<rparr>) \<and> content sz (arr\<lparr>da_values := block, da_count := da_count arr + of_nat n\<rparr>) = content sz arr @ elems
    \<and> length block = length (da_values arr)"
proof -
  have u: "unat (da_count arr + of_nat n) = unat (da_count arr) + n" using n(1) by (simp add: unat_word_ariths unat_of_nat)
  have le: "sz * unat (da_count arr) + length elems \<le> length (da_values arr)" using ok n(2) u elems by (simp add: da_ok_def word_le_nat_alt add_mult_distrib2 [symmetric])
  let ?block = "take (sz * unat (da_count arr)) (da_values arr) @ elems @ drop (sz * unat (da_count arr) + length elems) (da_values arr)"
  have "take (sz * (unat (da_count arr) + n)) ?block = take (sz * unat (da_count arr)) (da_values arr) @ elems" using le elems by (simp add: add_mult_distrib2)
  then have c: "content sz (arr\<lparr>da_values := ?block, da_count := da_count arr + of_nat n\<rparr>) = content sz arr @ elems"
    using u by (cases arr) (simp only: content_def dyn_array.simps)
  have len: "length ?block = length (da_values arr)" using le by simp
  have o: "da_ok sz (arr\<lparr>da_values := ?block, da_count := da_count arr + of_nat n\<rparr>)" using ok n(2) len by (simp add: da_ok_def)
  show ?thesis by (intro exI [of _ ?block] conjI copy_to_Ret le o c len)
qed

text \<open>
  \<^verbatim>\<open>aosl_dynamic_array_add_elems\<close> always returns: it refuses what would make the array too long, reports the lack of memory, or appends the elements; on failure the array is as before, on success its
  block has the size it claims and the older elements are kept.
\<close>

theorem add_elems_correct:
  assumes "da_ok sz arr" and "gives_blocks mem" and "length elems = sz * n" and "DYNAMIC_ARRAY_MAX_COUNT < fuel"
  shows "\<exists>r arr'. aosl_dynamic_array_add_elems fuel mem elems sz n arr = Ret (r, arr')
    \<and> (if too_many n arr then r = - AOSL_E2BIG \<and> arr' = arr
       else r = - AOSL_ENOMEM \<and> mem = None \<and> arr' = arr \<or> r = 0 \<and> da_ok sz arr' \<and> content sz arr' = content sz arr @ elems)"
proof (cases "too_many n arr")
  case False
  then have n: "unat (da_count arr) + n < 10240" by (simp add: too_many_def DYNAMIC_ARRAY_MAX_COUNT_def)
  let ?needed = "da_count arr + of_nat n"
  have u: "unat ?needed = unat (da_count arr) + n" using n by (simp add: unat_word_ariths unat_of_nat)
  have needed: "unat ?needed + unat DYNAMIC_ARRAY_GROW_STRIDE < 2 ^ 16" "0 < DYNAMIC_ARRAY_GROW_STRIDE" "unat ?needed < fuel"
    using n u assms(4) by (simp_all add: DYNAMIC_ARRAY_GROW_STRIDE_def DYNAMIC_ARRAY_MAX_COUNT_def)
  from ensure_ok [OF assms(1,2) needed] show ?thesis
  proof
    assume "ensure fuel mem DYNAMIC_ARRAY_GROW_STRIDE sz ?needed arr = Ret (Inl (- AOSL_ENOMEM)) \<and> mem = None"
    then show ?thesis using False by (auto simp: aosl_dynamic_array_add_elems_def)
  next
    assume "\<exists>arr'. ensure fuel mem DYNAMIC_ARRAY_GROW_STRIDE sz ?needed arr = Ret (Inr arr') \<and> da_ok sz arr' \<and> content sz arr' = content sz arr \<and> da_count arr' = da_count arr \<and> ?needed \<le> da_allocated arr'"
    then obtain a where a: "ensure fuel mem DYNAMIC_ARRAY_GROW_STRIDE sz ?needed arr = Ret (Inr a)" "da_ok sz a" "content sz a = content sz arr" "da_count a = da_count arr"
      "?needed \<le> da_allocated a" by blast
    show ?thesis
    proof (cases "0 < n")
      case True
      from append_ok [OF a(2), of n elems] n a(4,5) assms(3) obtain block where
        b: "copy_to (da_values a) (sz * unat (da_count a)) elems = Ret block" "da_ok sz (a\<lparr>da_values := block, da_count := da_count a + of_nat n\<rparr>)"
          "content sz (a\<lparr>da_values := block, da_count := da_count a + of_nat n\<rparr>) = content sz a @ elems" by auto
      have "aosl_dynamic_array_add_elems fuel mem elems sz n arr = Ret (0, a\<lparr>da_values := block, da_count := da_count a + of_nat n\<rparr>)"
        using False a(1) b(1) True assms(3) by (simp add: aosl_dynamic_array_add_elems_def)
      then show ?thesis using False b a(3) by auto
    next
      case none: False
      then have "aosl_dynamic_array_add_elems fuel mem elems sz n arr = Ret (0, a)" using False a(1) by (simp add: aosl_dynamic_array_add_elems_def)
      then show ?thesis using False none a assms(3) by auto
    qed
  qed
next
  case True
  then show ?thesis by (simp add: aosl_dynamic_array_add_elems_def)
qed

theorem add_elems_correct_witness:
  "\<exists>r arr'. aosl_dynamic_array_add_elems 10241 (Some (\<lambda>n. replicate n 0)) [1, 2, 3, 4] 2 2 aosl_dynamic_array_init = Ret (r, arr') \<and> (r = 0 \<longrightarrow> content 2 arr' = [1, 2, 3, 4])"
proof -
  have "da_ok 2 aosl_dynamic_array_init" "gives_blocks (Some (\<lambda>n. replicate n 0))" "\<not> too_many 2 aosl_dynamic_array_init" "content 2 aosl_dynamic_array_init = []"
    by (simp_all add: da_ok_def gives_blocks_def too_many_def aosl_dynamic_array_init_def DYNAMIC_ARRAY_MAX_COUNT_def content_def)
  then show ?thesis using add_elems_correct [of 2 aosl_dynamic_array_init "Some (\<lambda>n. replicate n 0)" "[1, 2, 3, 4]" 2 10241] by (force simp: DYNAMIC_ARRAY_MAX_COUNT_def)
qed

text \<open>
  \<^verbatim>\<open>aosl_dynamic_string_strcat\<close> appends the string and always leaves a terminating 0 behind it, inside of the block.
\<close>

theorem strcat_correct:
  assumes "da_ok 1 arr" and "gives_blocks mem" and "DYNAMIC_ARRAY_MAX_COUNT < fuel"
  shows "\<exists>r arr'. aosl_dynamic_string_strcat fuel mem str arr = Ret (r, arr')
    \<and> (if too_many (length str) arr then r = - AOSL_E2BIG \<and> arr' = arr
       else r = - AOSL_ENOMEM \<and> mem = None \<and> arr' = arr
         \<or> r = 0 \<and> da_ok 1 arr' \<and> content 1 arr' = content 1 arr @ str \<and> unat (da_count arr') < length (da_values arr') \<and> da_values arr' ! unat (da_count arr') = 0)"
proof (cases "too_many (length str) arr")
  case False
  let ?n = "length str"
  have n: "unat (da_count arr) + ?n < 10240" using False by (simp add: too_many_def DYNAMIC_ARRAY_MAX_COUNT_def)
  let ?needed = "da_count arr + of_nat ?n + 1"
  have u0: "unat (da_count arr + of_nat ?n) = unat (da_count arr) + ?n" using n by (simp add: unat_word_ariths unat_of_nat)
  have u: "unat ?needed = unat (da_count arr) + ?n + 1" using n u0 by (simp add: unat_word_ariths)
  have needed: "unat ?needed + unat DYNAMIC_BYTES_GROW_STRIDE < 2 ^ 16" "0 < DYNAMIC_BYTES_GROW_STRIDE" "unat ?needed < fuel"
    using n u assms(3) by (simp_all add: DYNAMIC_BYTES_GROW_STRIDE_def DYNAMIC_ARRAY_MAX_COUNT_def)
  from ensure_ok [OF assms(1,2) needed] show ?thesis
  proof
    assume "ensure fuel mem DYNAMIC_BYTES_GROW_STRIDE 1 ?needed arr = Ret (Inl (- AOSL_ENOMEM)) \<and> mem = None"
    then show ?thesis using False by (auto simp: aosl_dynamic_string_strcat_def Let_def)
  next
    assume "\<exists>arr'. ensure fuel mem DYNAMIC_BYTES_GROW_STRIDE 1 ?needed arr = Ret (Inr arr') \<and> da_ok 1 arr' \<and> content 1 arr' = content 1 arr \<and> da_count arr' = da_count arr \<and> ?needed \<le> da_allocated arr'"
    then obtain a where a: "ensure fuel mem DYNAMIC_BYTES_GROW_STRIDE 1 ?needed arr = Ret (Inr a)" "da_ok 1 a" "content 1 a = content 1 arr" "da_count a = da_count arr"
      "?needed \<le> da_allocated a" by blast
    have room: "unat (da_count a) + ?n + 1 \<le> unat (da_allocated a)" using a(4,5) u by (simp add: word_le_nat_alt)
    have "\<exists>b. (if 0 < ?n then ebind (copy_to (da_values a) (unat (da_count a)) str) (\<lambda>block. Ret (a\<lparr>da_values := block, da_count := da_count a + of_nat ?n\<rparr>)) else Ret a) = Ret b
      \<and> da_ok 1 b \<and> content 1 b = content 1 a @ str \<and> unat (da_count b) = unat (da_count a) + ?n \<and> da_allocated b = da_allocated a"
    proof (cases "0 < ?n")
      case True
      have "da_count a + of_nat ?n \<le> da_allocated a" using room u0 a(4) by (simp add: word_le_nat_alt)
      with append_ok [OF a(2), of ?n str] n a(4) True show ?thesis using u0 by auto
    next
      case none: False
      then show ?thesis using a(2) by simp
    qed
    then obtain b where b: "(if 0 < ?n then ebind (copy_to (da_values a) (unat (da_count a)) str) (\<lambda>block. Ret (a\<lparr>da_values := block, da_count := da_count a + of_nat ?n\<rparr>)) else Ret a) = Ret b"
      "da_ok 1 b" "content 1 b = content 1 a @ str" "unat (da_count b) = unat (da_count a) + ?n" "da_allocated b = da_allocated a" by blast
    let ?c = "unat (da_count b)"
    have c: "?c < length (da_values b)" using b(2,4,5) room by (simp add: da_ok_def)
    let ?block = "take ?c (da_values b) @ [0] @ drop (?c + 1) (da_values b)"
    have "aosl_dynamic_string_strcat fuel mem str arr = Ret (0, b\<lparr>da_values := ?block\<rparr>)"
      using False a(1) b(1) c by (simp add: aosl_dynamic_string_strcat_def copy_to_def Let_def)
    moreover have "da_ok 1 (b\<lparr>da_values := ?block\<rparr>)" "content 1 (b\<lparr>da_values := ?block\<rparr>) = content 1 b" "?c < length ?block" "?block ! ?c = 0"
      using b(2) c by (auto simp: da_ok_def content_def nth_append)
    ultimately show ?thesis using False b(3) a(3) by auto
  qed
next
  case True
  then show ?thesis by (simp add: aosl_dynamic_string_strcat_def Let_def)
qed

theorem strcat_correct_witness:
  "\<exists>r arr'. aosl_dynamic_string_strcat 10241 (Some (\<lambda>n. replicate n 7)) [65, 66] aosl_dynamic_array_init = Ret (r, arr') \<and> (r = 0 \<longrightarrow> content 1 arr' = [65, 66])"
proof -
  have "da_ok 1 aosl_dynamic_array_init" "gives_blocks (Some (\<lambda>n. replicate n 7))" "\<not> too_many 2 aosl_dynamic_array_init" "content 1 aosl_dynamic_array_init = []"
    by (simp_all add: da_ok_def gives_blocks_def too_many_def aosl_dynamic_array_init_def DYNAMIC_ARRAY_MAX_COUNT_def content_def)
  then show ?thesis using strcat_correct [of aosl_dynamic_array_init "Some (\<lambda>n. replicate n 7)" 10241 "[65, 66]"] by (force simp: DYNAMIC_ARRAY_MAX_COUNT_def numeral_2_eq_2)
qed

end
