(* ===== verification/Psbuff.thy ===== *)
theory Psbuff
  imports Aosl_Prelude
begin

text \<open>
  Packet segment buffers: \<^verbatim>\<open>lib/psbuff.c\<close> and \<^verbatim>\<open>include/kernel/psbuff.h\<close>. A buffer is a block of memory; the data pointer is
  its offset from the start of the block, so that a pointer outside the block is visible as an offset outside \<open>{0..size}\<close>. Sizes
  are natural numbers; where the code squeezes a size through an \<^verbatim>\<open>unsigned int\<close> or an \<^verbatim>\<open>int\<close> the reduction is written out. A chain is the
  list of its segments. The heap is the set of blocks handed out by the allocator; to free anything else is a fault.
\<close>

subsection \<open>Data\<close>

record ps_buff =
  psb_head :: ptr
  psb_data :: int
  psb_len :: nat
  psb_size :: nat
  psb_flags :: u32

record psb_heap =
  blocks :: "ptr set"
  psb_errno :: int

definition PSB_USER_BUFFER :: u32 where "PSB_USER_BUFFER = 0x00800000"
definition MAX_PSB_SIZE :: nat where "MAX_PSB_SIZE = 8 * 2 ^ 20"

text \<open>The conversions \<^verbatim>\<open>size_t\<close> to \<^verbatim>\<open>unsigned int\<close> and \<^verbatim>\<open>unsigned int\<close> to \<^verbatim>\<open>int\<close>.\<close>

definition to_uint :: "nat \<Rightarrow> nat" where "to_uint n = n mod 2 ^ 32"
definition uint_to_int :: "nat \<Rightarrow> int" where "uint_to_int n = (if n < 2 ^ 31 then int n else int n - 2 ^ 32)"

subsection \<open>Buffers\<close>

definition free_block :: "ptr \<Rightarrow> psb_heap \<Rightarrow> psb_heap exec" where
  "free_block p h = (if p = 0 then Ret h else if p \<in> blocks h then Ret (h\<lparr>blocks := blocks h - {p}\<rparr>) else Fault)"

text \<open>\<open>mem\<close>: whether the segment itself was allocated.\<close>

definition alloc_user_psb :: "bool \<Rightarrow> ptr \<Rightarrow> nat \<Rightarrow> int + ps_buff" where
  "alloc_user_psb mem buf bufsz =
     (if mem then Inr \<lparr>psb_head = (if 0 < bufsz then buf else 0), psb_data = 0, psb_len = 0, psb_size = bufsz, psb_flags = PSB_USER_BUFFER\<rparr>
      else Inl (- AOSL_ENOMEM))"

definition alloc_psb :: "bool \<Rightarrow> ptr option \<Rightarrow> nat \<Rightarrow> psb_heap \<Rightarrow> (int + ps_buff) \<times> psb_heap" where
  "alloc_psb mem block sz h =
     (if MAX_PSB_SIZE < sz then (Inl (- AOSL_E2BIG), h)
      else if \<not> mem then (Inl (- AOSL_ENOMEM), h)
      else if 0 < sz then
        (case block of
           None \<Rightarrow> (Inl (- AOSL_ENOMEM), h)
         | Some p \<Rightarrow> (Inr \<lparr>psb_head = p, psb_data = 0, psb_len = 0, psb_size = sz, psb_flags = 0\<rparr>, h\<lparr>blocks := insert p (blocks h)\<rparr>))
      else (Inr \<lparr>psb_head = 0, psb_data = 0, psb_len = 0, psb_size = sz, psb_flags = 0\<rparr>, h))"

definition free_psb :: "ps_buff \<Rightarrow> psb_heap \<Rightarrow> psb_heap exec" where
  "free_psb psb h = (if psb_flags psb AND PSB_USER_BUFFER = 0 \<and> psb_head psb \<noteq> 0 then free_block (psb_head psb) h else Ret h)"

definition psb_attach_buf :: "ptr \<Rightarrow> nat \<Rightarrow> ps_buff \<Rightarrow> psb_heap \<Rightarrow> (ps_buff \<times> psb_heap) exec" where
  "psb_attach_buf buf bufsz psb h =
     ebind (if 0 < psb_size psb \<and> psb_flags psb AND PSB_USER_BUFFER = 0 then free_block (psb_head psb) h else Ret h) (\<lambda>h.
     Ret (psb\<lparr>psb_head := (if 0 < bufsz then buf else 0), psb_data := 0, psb_size := bufsz, psb_len := 0\<rparr>, h))"

definition psb_detach_buf :: "ps_buff \<Rightarrow> psb_heap \<Rightarrow> (ps_buff \<times> psb_heap) exec" where
  "psb_detach_buf psb h =
     (if 0 < psb_size psb then
        ebind (if psb_flags psb AND PSB_USER_BUFFER = 0 then free_block (psb_head psb) h else Ret h) (\<lambda>h.
        Ret (psb\<lparr>psb_head := 0, psb_size := 0, psb_data := 0, psb_len := 0\<rparr>, h))
      else Ret (psb, h))"

subsection \<open>Moving the data window\<close>

text \<open>The value returned is an offset in the block, or a negative error number.\<close>

definition psb_headroom :: "ps_buff \<Rightarrow> nat" where
  "psb_headroom psb = nat (psb_data psb mod 2 ^ 32)"

definition psb_tailroom :: "ps_buff \<Rightarrow> nat" where
  "psb_tailroom psb = nat ((int (psb_size psb) - int (psb_len psb) - psb_data psb) mod 2 ^ 32)"

definition psb_reserve :: "nat \<Rightarrow> ps_buff \<Rightarrow> int \<times> ps_buff" where
  "psb_reserve len psb =
     (if 0 < psb_len psb then (- AOSL_EPERM, psb)
      else if int len \<le> (int (psb_size psb) - psb_data psb) mod 2 ^ 64 then (0, psb\<lparr>psb_data := psb_data psb + int len\<rparr>)
      else (- AOSL_ENOSPC, psb))"

definition psb_put :: "nat \<Rightarrow> ps_buff \<Rightarrow> (int + int) \<times> ps_buff" where
  "psb_put len psb =
     (if psb_data psb + int (psb_len psb) + int len \<le> int (psb_size psb)
      then (Inr (psb_data psb + int (psb_len psb)), psb\<lparr>psb_len := psb_len psb + len\<rparr>)
      else (Inl (- AOSL_ENOSPC), psb))"

definition psb_get :: "nat \<Rightarrow> ps_buff \<Rightarrow> (int + int) \<times> ps_buff" where
  "psb_get len psb =
     (if len \<le> psb_len psb then (Inr (psb_data psb), psb\<lparr>psb_data := psb_data psb + int len, psb_len := psb_len psb - len\<rparr>)
      else (Inl (- AOSL_ENOSPC), psb))"

definition psb_peek :: "nat \<Rightarrow> ps_buff \<Rightarrow> int + int" where
  "psb_peek len psb = (if len \<le> psb_len psb then Inr (psb_data psb) else Inl (- AOSL_ENOSPC))"

definition psb_push :: "nat \<Rightarrow> ps_buff \<Rightarrow> (int + int) \<times> ps_buff" where
  "psb_push len psb =
     (if psb_data psb < uint_to_int len then (Inl (- AOSL_ENOSPC), psb)
      else (Inr (psb_data psb - int len), psb\<lparr>psb_len := psb_len psb + len, psb_data := psb_data psb - int len\<rparr>))"

definition psb_pull :: "nat \<Rightarrow> ps_buff \<Rightarrow> (int + int) \<times> ps_buff" where
  "psb_pull len psb =
     (if psb_len psb < len then (Inl (- AOSL_ENOSPC), psb)
      else (Inr (psb_data psb + int len), psb\<lparr>psb_len := psb_len psb - len, psb_data := psb_data psb + int len\<rparr>))"

definition psb_tail :: "ps_buff \<Rightarrow> int" where
  "psb_tail psb = psb_data psb + int (psb_len psb)"

subsection \<open>The exported calls and chains\<close>

definition aosl_psb_reserve :: "nat \<Rightarrow> ps_buff \<Rightarrow> int \<times> int option \<times> ps_buff" where
  "aosl_psb_reserve len psb = (case psb_reserve (to_uint len) psb of (err, psb) \<Rightarrow> if err < 0 then (- 1, Some (- err), psb) else (err, None, psb))"

text \<open>\<^verbatim>\<open>return_ptr_err\<close>: a null pointer and the error number, or the pointer.\<close>

definition return_ptr_err :: "(int + int) \<times> ps_buff \<Rightarrow> int option \<times> int option \<times> ps_buff" where
  "return_ptr_err r = (case r of (Inl err, psb) \<Rightarrow> (None, Some (- err), psb) | (Inr p, psb) \<Rightarrow> (Some p, Some 0, psb))"

definition aosl_psb_put :: "nat \<Rightarrow> ps_buff \<Rightarrow> int option \<times> int option \<times> ps_buff" where
  "aosl_psb_put len psb = return_ptr_err (psb_put (to_uint len) psb)"

definition aosl_psb_get :: "nat \<Rightarrow> ps_buff \<Rightarrow> int option \<times> int option \<times> ps_buff" where
  "aosl_psb_get len psb = return_ptr_err (psb_get (to_uint len) psb)"

definition aosl_psb_peek :: "nat \<Rightarrow> ps_buff \<Rightarrow> int option \<times> int option \<times> ps_buff" where
  "aosl_psb_peek len psb = return_ptr_err (psb_peek (to_uint len) psb, psb)"

definition aosl_psb_push :: "nat \<Rightarrow> ps_buff \<Rightarrow> int option \<times> int option \<times> ps_buff" where
  "aosl_psb_push len psb = return_ptr_err (psb_push (to_uint len) psb)"

definition aosl_psb_pull :: "nat \<Rightarrow> ps_buff \<Rightarrow> int option \<times> int option \<times> ps_buff" where
  "aosl_psb_pull len psb = return_ptr_err (psb_pull (to_uint len) psb)"

fun aosl_psb_total_len :: "ps_buff list \<Rightarrow> nat \<Rightarrow> nat" where
  "aosl_psb_total_len [] acc = acc"
| "aosl_psb_total_len (psb # chain) acc = aosl_psb_total_len chain ((acc + psb_len psb) mod 2 ^ 64)"

definition aosl_psb_single :: "ps_buff list \<Rightarrow> bool" where
  "aosl_psb_single chain = (length chain = 1)"

definition aosl_psb_reset :: "ps_buff list \<Rightarrow> ps_buff list" where
  "aosl_psb_reset chain = map (\<lambda>psb. psb\<lparr>psb_data := 0, psb_len := 0\<rparr>) chain"

fun aosl_free_psb_list :: "ps_buff list \<Rightarrow> psb_heap \<Rightarrow> psb_heap exec" where
  "aosl_free_psb_list [] h = Ret h"
| "aosl_free_psb_list (psb # chain) h = ebind (free_psb psb h) (aosl_free_psb_list chain)"

subsection \<open>The window and its specification\<close>

text \<open>The data lie inside the block. The second condition excludes sizes that an \<^verbatim>\<open>int\<close> cannot hold.\<close>

definition psb_ok :: "ps_buff \<Rightarrow> bool" where
  "psb_ok psb \<longleftrightarrow> 0 \<le> psb_data psb \<and> psb_data psb + int (psb_len psb) \<le> int (psb_size psb) \<and> psb_size psb < 2 ^ 31"

text \<open>
  What a buffer means: the free bytes in front, the data, the free bytes behind. The bytes of the block are a function of
  the offset; the caller writes what it puts or pushes at the pointer it gets.
\<close>

type_synonym block_bytes = "int \<Rightarrow> u8"

definition window :: "block_bytes \<Rightarrow> ps_buff \<Rightarrow> nat \<times> bytes \<times> nat" where
  "window mem psb = (nat (psb_data psb), map (\<lambda>i. mem (psb_data psb + int i)) [0..<psb_len psb], nat (int (psb_size psb) - psb_tail psb))"

definition write_at :: "int \<Rightarrow> bytes \<Rightarrow> block_bytes \<Rightarrow> block_bytes" where
  "write_at p bs mem = (\<lambda>i. if p \<le> i \<and> i < p + int (length bs) then bs ! nat (i - p) else mem i)"

datatype psb_op = Reserve nat | Put bytes | Get nat | Push bytes | Pull nat

text \<open>A step of a client: it calls, and writes its bytes when it got a pointer.\<close>

definition psb_do :: "psb_op \<Rightarrow> block_bytes \<times> ps_buff \<Rightarrow> bool \<times> block_bytes \<times> ps_buff" where
  "psb_do opr s = (case s of (mem, psb) \<Rightarrow> (case opr of
       Reserve n \<Rightarrow> (case psb_reserve n psb of (err, psb) \<Rightarrow> (err = 0, mem, psb))
     | Put bs \<Rightarrow> (case psb_put (length bs) psb of (Inl _, psb) \<Rightarrow> (False, mem, psb) | (Inr p, psb) \<Rightarrow> (True, write_at p bs mem, psb))
     | Get n \<Rightarrow> (case psb_get n psb of (Inl _, psb) \<Rightarrow> (False, mem, psb) | (Inr p, psb) \<Rightarrow> (True, mem, psb))
     | Push bs \<Rightarrow> (case psb_push (length bs) psb of (Inl _, psb) \<Rightarrow> (False, mem, psb) | (Inr p, psb) \<Rightarrow> (True, write_at p bs mem, psb))
     | Pull n \<Rightarrow> (case psb_pull n psb of (Inl _, psb) \<Rightarrow> (False, mem, psb) | (Inr p, psb) \<Rightarrow> (True, mem, psb))))"

definition spec_do :: "psb_op \<Rightarrow> nat \<times> bytes \<times> nat \<Rightarrow> bool \<times> nat \<times> bytes \<times> nat" where
  "spec_do opr w = (case w of (front, ds, room) \<Rightarrow> (case opr of
       Reserve n \<Rightarrow> if ds = [] \<and> n \<le> room then (True, front + n, [], room - n) else (False, front, ds, room)
     | Put bs \<Rightarrow> if length bs \<le> room then (True, front, ds @ bs, room - length bs) else (False, front, ds, room)
     | Get n \<Rightarrow> if n \<le> length ds then (True, front + n, drop n ds, room) else (False, front, ds, room)
     | Push bs \<Rightarrow> if length bs \<le> front then (True, front - length bs, bs @ ds, room) else (False, front, ds, room)
     | Pull n \<Rightarrow> if n \<le> length ds then (True, front + n, drop n ds, room) else (False, front, ds, room)))"

definition small_op :: "psb_op \<Rightarrow> bool" where
  "small_op opr = (case opr of Reserve n \<Rightarrow> n < 2 ^ 31 | Put bs \<Rightarrow> length bs < 2 ^ 31 | Get n \<Rightarrow> n < 2 ^ 31
     | Push bs \<Rightarrow> length bs < 2 ^ 31 | Pull n \<Rightarrow> n < 2 ^ 31)"

subsection \<open>Refinement\<close>

lemma list_window: "map (\<lambda>i. mem (p + int i)) [0..<n] = map (\<lambda>i. mem (p + int i)) [0..<k] @ map (\<lambda>i. mem (p + int k + int i)) [0..<n - k]" if "k \<le> n"
  using that by (intro nth_equalityI) (auto simp: nth_append add.assoc simp flip: of_nat_add)

lemma written: "map (\<lambda>i. write_at p bs mem (p + int i)) [0..<length bs] = bs"
  by (intro nth_equalityI) (simp_all add: write_at_def)

lemma untouched: "(\<And>i. i < n \<Longrightarrow> q + int i < p \<or> p + int (length bs) \<le> q + int i) \<Longrightarrow>
    map (\<lambda>i. write_at p bs mem (q + int i)) [0..<n] = map (\<lambda>i. mem (q + int i)) [0..<n]"
  by (intro map_cong refl) (simp add: write_at_def, metis atLeastLessThan_iff leD)

lemma window_put: "map (\<lambda>i. write_at (q + int n) bs mem (q + int i)) [0..<n + length bs] = map (\<lambda>i. mem (q + int i)) [0..<n] @ bs"
  using list_window [of n "n + length bs" "write_at (q + int n) bs mem" q] written [of "q + int n" bs mem] untouched [of n q "q + int n" bs mem] by simp

lemma window_push: "map (\<lambda>i. write_at (q - int (length bs)) bs mem (q - int (length bs) + int i)) [0..<length bs + n] = bs @ map (\<lambda>i. mem (q + int i)) [0..<n]"
  using list_window [of "length bs" "length bs + n" "write_at (q - int (length bs)) bs mem" "q - int (length bs)"]
    written [of "q - int (length bs)" bs mem] untouched [of n q "q - int (length bs)" bs mem] by simp

lemma window_drop: "k \<le> n \<Longrightarrow> map (\<lambda>i. mem (q + int k + int i)) [0..<n - k] = drop k (map (\<lambda>i. mem (q + int i)) [0..<n])"
  using list_window [of k n mem q] by simp

lemma psb_do_refines:
  assumes "psb_ok psb" and "small_op opr" and "psb_do opr (mem, psb) = (ok, mem', psb')"
  shows "psb_ok psb' \<and> spec_do opr (window mem psb) = (ok, window mem' psb')"
proof (cases opr)
  case (Reserve n)
  have "(int (psb_size psb) - psb_data psb) mod 2 ^ 64 = int (psb_size psb) - psb_data psb" using assms(1) by (simp add: psb_ok_def)
  with Reserve assms show ?thesis by (auto simp: psb_do_def psb_reserve_def spec_do_def window_def psb_tail_def psb_ok_def nat_add_distrib split: if_splits)
next
  case (Put bs)
  with assms show ?thesis
    by (auto simp: psb_do_def psb_put_def spec_do_def window_def psb_tail_def psb_ok_def window_put split: if_splits)
next
  case (Get n)
  with assms show ?thesis
    by (auto simp: psb_do_def psb_get_def spec_do_def window_def psb_tail_def psb_ok_def window_drop nat_add_distrib split: if_splits)
next
  case (Push bs)
  then have "uint_to_int (length bs) = int (length bs)" using assms(2) by (simp add: small_op_def uint_to_int_def)
  with Push assms show ?thesis
    by (auto simp: psb_do_def psb_push_def spec_do_def window_def psb_tail_def psb_ok_def window_push add.commute [of _ "length bs"] split: if_splits)
next
  case (Pull n)
  with assms show ?thesis
    by (auto simp: psb_do_def psb_pull_def spec_do_def window_def psb_tail_def psb_ok_def window_drop nat_add_distrib split: if_splits)
qed

fun psb_run :: "psb_op list \<Rightarrow> block_bytes \<times> ps_buff \<Rightarrow> bool list \<times> block_bytes \<times> ps_buff" where
  "psb_run [] s = ([], s)"
| "psb_run (opr # ops) s = (case psb_do opr s of (ok, s') \<Rightarrow> (case psb_run ops s' of (oks, t) \<Rightarrow> (ok # oks, t)))"

fun spec_run :: "psb_op list \<Rightarrow> nat \<times> bytes \<times> nat \<Rightarrow> bool list \<times> nat \<times> bytes \<times> nat" where
  "spec_run [] w = ([], w)"
| "spec_run (opr # ops) w = (case spec_do opr w of (ok, w') \<Rightarrow> (case spec_run ops w' of (oks, t) \<Rightarrow> (ok # oks, t)))"

text \<open>A chain of segments that own different blocks gives all of them back.\<close>

definition owned_block :: "ps_buff \<Rightarrow> ptr set" where
  "owned_block psb = (if psb_flags psb AND PSB_USER_BUFFER = 0 \<and> psb_head psb \<noteq> 0 then {psb_head psb} else {})"

lemma free_chain:
  assumes "\<forall>psb \<in> set chain. owned_block psb \<subseteq> blocks h" and "\<forall>i j. i < j \<longrightarrow> j < length chain \<longrightarrow> owned_block (chain ! i) \<inter> owned_block (chain ! j) = {}"
  shows "\<exists>h'. aosl_free_psb_list chain h = Ret h' \<and> blocks h' = blocks h - (\<Union>psb \<in> set chain. owned_block psb)"
  using assms
proof (induction chain arbitrary: h)
  case (Cons psb chain)
  let ?h = "h\<lparr>blocks := blocks h - owned_block psb\<rparr>"
  have f: "free_psb psb h = Ret ?h" using Cons.prems(1) by (auto simp: free_psb_def owned_block_def free_block_def)
  have disj: "owned_block psb \<inter> owned_block p = {}" if "p \<in> set chain" for p
  proof -
    from that obtain j where "j < length chain" "p = chain ! j" by (auto simp: in_set_conv_nth)
    with Cons.prems(2) [rule_format, of 0 "Suc j"] show ?thesis by simp
  qed
  have "\<forall>p \<in> set chain. owned_block p \<subseteq> blocks ?h" using Cons.prems(1) disj by fastforce
  moreover have "owned_block (chain ! i) \<inter> owned_block (chain ! j) = {}" if "i < j" "j < length chain" for i j
    using Cons.prems(2) [rule_format, of "Suc i" "Suc j"] that by simp
  ultimately obtain h' where "aosl_free_psb_list chain ?h = Ret h'" "blocks h' = blocks ?h - (\<Union>p \<in> set chain. owned_block p)"
    using Cons.IH [of ?h] by blast
  with f show ?case by auto
qed simp

text \<open>
  A length of \<open>2 ^ 31\<close> or more is negative as an \<^verbatim>\<open>int\<close>: \<^verbatim>\<open>psb_push\<close> lets it pass and moves the data pointer in front of the block.
\<close>

lemma psb_push_huge:
  assumes "psb_ok psb" and "2 ^ 31 \<le> len" and "len < 2 ^ 32"
  shows "\<exists>p psb'. aosl_psb_push len psb = (Some p, Some 0, psb') \<and> p < 0 \<and> \<not> psb_ok psb'"
  using assms by (simp add: aosl_psb_push_def to_uint_def psb_push_def uint_to_int_def return_ptr_err_def psb_ok_def)

text \<open>The exported calls reduce their \<^verbatim>\<open>size_t\<close> modulo \<open>2 ^ 32\<close>.\<close>

lemma aosl_psb_put_truncates: "aosl_psb_put (2 ^ 32 + n) psb = aosl_psb_put n psb"
  by (simp add: aosl_psb_put_def to_uint_def)

text \<open>A buffer attached to an allocated segment is freed with it, although the user provided it.\<close>

lemma attached_buffer_freed:
  assumes "p \<in> blocks h" "p \<noteq> 0" "p \<noteq> buf" "0 < n" "n \<le> MAX_PSB_SIZE" "buf \<noteq> 0" "0 < m"
  shows "\<exists>psb h1. psb_attach_buf buf m \<lparr>psb_head = p, psb_data = 0, psb_len = 0, psb_size = n, psb_flags = 0\<rparr> h = Ret (psb, h1)
    \<and> (buf \<in> blocks h \<longrightarrow> free_psb psb h1 = Ret (h1\<lparr>blocks := blocks h1 - {buf}\<rparr>)) \<and> (buf \<notin> blocks h \<longrightarrow> free_psb psb h1 = Fault)"
  using assms by (simp add: psb_attach_buf_def free_block_def free_psb_def)

text \<open>
  C19. Packet buffers refine their specification: along any sequence of reserving, putting, getting, pushing and pulling, the free bytes in
  front, the data and the free bytes behind are what the specification says, each call succeeds exactly when there is room (or data)
  enough and changes nothing otherwise, and the data stay inside the block (lengths below \<open>2 ^ 31\<close>).
\<close>

theorem psb_refines_spec:
  assumes "psb_ok psb" and "\<forall>opr \<in> set ops. small_op opr"
  shows "case psb_run ops (mem, psb) of (oks, mem', psb') \<Rightarrow> psb_ok psb' \<and> spec_run ops (window mem psb) = (oks, window mem' psb')"
  using assms
proof (induction ops arbitrary: mem psb)
  case (Cons opr ops)
  obtain ok mem1 psb1 where d: "psb_do opr (mem, psb) = (ok, mem1, psb1)" by (metis prod_cases3)
  from psb_do_refines [OF Cons.prems(1) _ d] Cons.prems(2) have 1: "psb_ok psb1" "spec_do opr (window mem psb) = (ok, window mem1 psb1)" by simp_all
  from Cons.IH [OF 1(1), of mem1] Cons.prems(2) d 1(2) show ?case by (simp split: prod.splits)
qed simp

theorem psb_refines_spec_witness:
  "case psb_run [Reserve 2, Put [1, 2, 3], Push [9], Pull 2, Put [0, 0, 0]]
      ((\<lambda>_. 7), \<lparr>psb_head = 1, psb_data = 0, psb_len = 0, psb_size = 6, psb_flags = 0\<rparr>) of (oks, mem', psb') \<Rightarrow>
     oks = [True, True, True, True, False] \<and> window mem' psb' = (3, [2, 3], 1)"
  using psb_refines_spec [of "\<lparr>psb_head = 1, psb_data = 0, psb_len = 0, psb_size = 6, psb_flags = 0\<rparr>" "[Reserve 2, Put [1, 2, 3], Push [9], Pull 2, Put [0, 0, 0]]" "\<lambda>_. 7"]
  by (auto simp: small_op_def psb_ok_def window_def psb_tail_def spec_do_def split: prod.splits)

end
