(* ===== verification/Psb_Chain.thy ===== *)
theory Psb_Chain
  imports Psbuff
begin

text \<open>
  Chains of packet segment buffers as \<^verbatim>\<open>lib/marshalling.c\<close> fills and empties them. A segment is what \<^const>\<open>window\<close> makes of a buffer: the free bytes in front, the data and the free
  bytes behind; putting and getting are the operations of its specification \<^const>\<open>spec_do\<close>, which \<^verbatim>\<open>psbuff.h\<close> refines. A chain has a current segment; at its end \<^verbatim>\<open>alloc_psb\<close>
  gives \<open>ch_alloc\<close> more segments before it fails.
\<close>

subsection \<open>Operations\<close>

type_synonym seg = "nat \<times> bytes \<times> nat"

record chain =
  ch_segs :: "seg list"
  ch_pos :: nat
  ch_alloc :: nat

definition DFLT_MAX_PSB_PKT :: nat where "DFLT_MAX_PSB_PKT = 4096"

definition seg_data :: "seg \<Rightarrow> bytes" where "seg_data g = fst (snd g)"
definition seg_room :: "seg \<Rightarrow> nat" where "seg_room g = snd (snd g)"

definition cur_seg :: "chain \<Rightarrow> seg" where
  "cur_seg c = ch_segs c ! ch_pos c"

definition do_here :: "psb_op \<Rightarrow> chain \<Rightarrow> chain" where
  "do_here opr c = c\<lparr>ch_segs := (ch_segs c)[ch_pos c := snd (spec_do opr (cur_seg c))]\<rparr>"

text \<open>The next segment, or a new one.\<close>

definition next_or_alloc :: "chain \<Rightarrow> int + chain" where
  "next_or_alloc c =
     (if Suc (ch_pos c) < length (ch_segs c) then Inr (c\<lparr>ch_pos := Suc (ch_pos c)\<rparr>)
      else (case ch_alloc c of
        0 \<Rightarrow> Inl (- AOSL_ENOMEM)
      | Suc n \<Rightarrow> Inr \<lparr>ch_segs = ch_segs c @ [(0, [], DFLT_MAX_PSB_PKT)], ch_pos = Suc (ch_pos c), ch_alloc = n\<rparr>))"

lemma next_or_alloc_less: "next_or_alloc c = Inr c' \<Longrightarrow> length (ch_segs c') - ch_pos c' + ch_alloc c' < length (ch_segs c) - ch_pos c + ch_alloc c"
  by (auto simp: next_or_alloc_def split: if_splits nat.splits)

text \<open>\<^verbatim>\<open>__CHECK_AND_ENCODE_BYTES\<close>: what fits goes into the current segment, the rest into the next ones.\<close>

function encode_bytes :: "bytes \<Rightarrow> chain \<Rightarrow> int \<times> chain" where
  "encode_bytes bs c =
     (if bs = [] then (0, c)
      else
        let k = min (seg_room (cur_seg c)) (length bs); c = do_here (Put (take k bs)) c in
        if drop k bs = [] then (0, c)
        else (case next_or_alloc c of Inl err \<Rightarrow> (err, c) | Inr c \<Rightarrow> encode_bytes (drop k bs) c))"
  by pat_completeness auto
termination
proof (relation "measure (\<lambda>(bs, c). length (ch_segs c) - ch_pos c + ch_alloc c)", goal_cases)
  case (2 bs c k c1 c2)
  then show ?case using next_or_alloc_less [of c1 c2] by (simp add: do_here_def)
qed simp

text \<open>\<^verbatim>\<open>__CHECK_AND_ENCODE_BASETYPE\<close>: in one piece when there is room, else byte by byte over the segments.\<close>

definition encode_base :: "bytes \<Rightarrow> chain \<Rightarrow> int \<times> chain" where
  "encode_base bs c = (case spec_do (Put bs) (cur_seg c) of (ok, _) \<Rightarrow> if ok then (0, do_here (Put bs) c) else encode_bytes bs c)"

definition next_in :: "chain \<Rightarrow> chain option" where
  "next_in c = (if Suc (ch_pos c) < length (ch_segs c) then Some (c\<lparr>ch_pos := Suc (ch_pos c)\<rparr>) else None)"

text \<open>\<^verbatim>\<open>__CHECK_AND_DECODE_BYTES\<close>: the bytes copied, also in case of an error.\<close>

function decode_bytes :: "nat \<Rightarrow> chain \<Rightarrow> bytes \<times> int \<times> chain" where
  "decode_bytes n c =
     (let k = min (length (seg_data (cur_seg c))) n; got = take k (seg_data (cur_seg c)); c = do_here (Get k) c in
      if n - k = 0 then (got, 0, c)
      else (case next_in c of None \<Rightarrow> (got, - AOSL_EMSGSIZE, c) | Some c \<Rightarrow> (case decode_bytes (n - k) c of (bs, err, c) \<Rightarrow> (got @ bs, err, c))))"
  by pat_completeness auto
termination
proof (relation "measure (\<lambda>(n, c). length (ch_segs c) - ch_pos c)", goal_cases)
  case (2 n c k got c1 c2)
  then show ?case by (auto simp: next_in_def do_here_def split: if_splits)
qed simp

definition decode_base :: "nat \<Rightarrow> chain \<Rightarrow> bytes \<times> int \<times> chain" where
  "decode_base n c = (case spec_do (Get n) (cur_seg c) of (ok, _) \<Rightarrow> if ok then (take n (seg_data (cur_seg c)), 0, do_here (Get n) c) else decode_bytes n c)"

text \<open>
  \<^verbatim>\<open>SAFE_STRSIZE\<close>: the number of bytes up to and with the next 0. When the current segment is used up the first byte of the next one is read without a look at its length: outside of the data when that segment
  is empty.
\<close>

function strsize_loop :: "bytes \<Rightarrow> seg list \<Rightarrow> nat \<Rightarrow> int exec" where
  "strsize_loop (b # bs) segs l = (if b = 0 then Ret (int l + 1) else strsize_loop bs segs (Suc l))"
| "strsize_loop [] [] l = Ret (- AOSL_EMSGSIZE)"
| "strsize_loop [] (g # segs) l = (case seg_data g of [] \<Rightarrow> Fault | b # bs \<Rightarrow> if b = 0 then Ret (int l + 1) else strsize_loop bs segs (Suc l))"
  by pat_completeness auto
termination
  by (relation "measure (\<lambda>(bs, segs, l). length bs + sum_list (map (\<lambda>g. Suc (length (seg_data g))) segs))") auto

definition SAFE_STRSIZE :: "chain \<Rightarrow> int exec" where
  "SAFE_STRSIZE c = strsize_loop (seg_data (cur_seg c)) (drop (Suc (ch_pos c)) (ch_segs c)) 0"

declare encode_bytes.simps [simp del] decode_bytes.simps [simp del]

subsection \<open>Writing is appending\<close>

text \<open>All the data of a chain, and the room there still is from the current segment on.\<close>

definition all_data :: "chain \<Rightarrow> bytes" where
  "all_data c = concat (map seg_data (ch_segs c))"

definition room :: "chain \<Rightarrow> nat" where
  "room c = sum_list (map seg_room (drop (ch_pos c) (ch_segs c))) + DFLT_MAX_PSB_PKT * ch_alloc c"

definition out_ok :: "chain \<Rightarrow> bool" where
  "out_ok c \<longleftrightarrow> ch_pos c < length (ch_segs c) \<and> (\<forall>g \<in> set (drop (Suc (ch_pos c)) (ch_segs c)). seg_data g = [])"

text \<open>A chain around its current segment.\<close>

lemma segs_split: "ch_pos c < length (ch_segs c) \<Longrightarrow> ch_segs c = take (ch_pos c) (ch_segs c) @ cur_seg c # drop (Suc (ch_pos c)) (ch_segs c)"
  by (simp add: cur_seg_def id_take_nth_drop)

lemma do_here_segs:
  assumes "ch_pos c < length (ch_segs c)"
  shows "ch_segs (do_here opr c) = take (ch_pos c) (ch_segs c) @ snd (spec_do opr (cur_seg c)) # drop (Suc (ch_pos c)) (ch_segs c)"
    "ch_pos (do_here opr c) = ch_pos c" "ch_alloc (do_here opr c) = ch_alloc c"
  using assms by (simp_all add: do_here_def upd_conv_take_nth_drop)

lemma put_here:
  assumes ok: "out_ok c" and le: "length bs \<le> seg_room (cur_seg c)"
  shows "out_ok (do_here (Put bs) c)" "all_data (do_here (Put bs) c) = all_data c @ bs" "room (do_here (Put bs) c) = room c - length bs" "length bs \<le> room c"
    "seg_room (cur_seg (do_here (Put bs) c)) = seg_room (cur_seg c) - length bs"
proof -
  have pos: "ch_pos c < length (ch_segs c)" using ok by (simp add: out_ok_def)
  note ds = do_here_segs [OF pos, of "Put bs"] and sp = segs_split [OF pos]
  obtain f d r where g: "cur_seg c = (f, d, r)" by (metis prod_cases3)
  have p: "snd (spec_do (Put bs) (cur_seg c)) = (f, d @ bs, r - length bs)" using le by (simp add: g spec_do_def seg_room_def)
  have sd: "seg_data (cur_seg c) = d" "seg_data (f, d @ bs, r - length bs) = d @ bs" by (simp_all add: g seg_data_def)
  have drop: "drop (ch_pos c) (ch_segs (do_here (Put bs) c)) = (f, d @ bs, r - length bs) # drop (Suc (ch_pos c)) (ch_segs c)" using pos by (simp add: ds p)
  have drop1: "drop (Suc (ch_pos c)) (ch_segs (do_here (Put bs) c)) = drop (Suc (ch_pos c)) (ch_segs c)" using pos by (simp add: ds)
  have empty: "concat (map seg_data (drop (Suc (ch_pos c)) (ch_segs c))) = []" using ok by (auto simp: out_ok_def)
  show "out_ok (do_here (Put bs) c)" using ok pos drop1 by (simp add: out_ok_def ds)
  have "all_data c = concat (map seg_data (take (ch_pos c) (ch_segs c) @ cur_seg c # drop (Suc (ch_pos c)) (ch_segs c)))" using sp by (simp add: all_data_def)
  then show "all_data (do_here (Put bs) c) = all_data c @ bs" using empty sd by (simp add: all_data_def ds(1) p)
  have old: "drop (ch_pos c) (ch_segs c) = cur_seg c # drop (Suc (ch_pos c)) (ch_segs c)" using pos by (simp add: cur_seg_def Cons_nth_drop_Suc)
  show "room (do_here (Put bs) c) = room c - length bs" "length bs \<le> room c" using le by (simp_all add: room_def ds(2,3) drop old g seg_room_def)
  have "cur_seg (do_here (Put bs) c) = (f, d @ bs, r - length bs)" using pos ds(1,2) p by (simp add: cur_seg_def nth_append)
  then show "seg_room (cur_seg (do_here (Put bs) c)) = seg_room (cur_seg c) - length bs" by (simp add: g seg_room_def)
qed

lemma next_or_alloc_ok:
  assumes ok: "out_ok c" and full: "seg_room (cur_seg c) = 0" and some: "0 < room c"
  shows "\<exists>c'. next_or_alloc c = Inr c' \<and> out_ok c' \<and> all_data c' = all_data c \<and> room c' = room c"
proof -
  have pos: "ch_pos c < length (ch_segs c)" using ok by (simp add: out_ok_def)
  have old: "drop (ch_pos c) (ch_segs c) = cur_seg c # drop (Suc (ch_pos c)) (ch_segs c)" using pos by (simp add: cur_seg_def Cons_nth_drop_Suc)
  show ?thesis
  proof (cases "Suc (ch_pos c) < length (ch_segs c)")
    case True
    have "drop (Suc (ch_pos c)) (ch_segs c) = ch_segs c ! Suc (ch_pos c) # drop (Suc (Suc (ch_pos c))) (ch_segs c)" using True by (simp add: Cons_nth_drop_Suc)
    then show ?thesis using True ok full old by (auto simp: next_or_alloc_def out_ok_def all_data_def room_def)
  next
    case False
    then have last: "Suc (ch_pos c) = length (ch_segs c)" using pos by simp
    then obtain n where n: "ch_alloc c = Suc n" using some full old by (cases "ch_alloc c") (auto simp: room_def)
    then show ?thesis using False last full old by (auto simp: next_or_alloc_def out_ok_def all_data_def room_def seg_data_def seg_room_def)
  qed
qed

lemma encode_bytes_ok:
  "out_ok c \<Longrightarrow> length bs \<le> room c \<Longrightarrow> \<exists>c'. encode_bytes bs c = (0, c') \<and> out_ok c' \<and> all_data c' = all_data c @ bs \<and> room c' = room c - length bs"
proof (induction bs c rule: encode_bytes.induct)
  case (1 bs c)
  show ?case
  proof (cases "bs = []")
    case True
    then show ?thesis using 1 by (simp add: encode_bytes.simps)
  next
    case False
    let ?k = "min (seg_room (cur_seg c)) (length bs)"
    let ?c = "do_here (Put (take ?k bs)) c"
    have le: "length (take ?k bs) \<le> seg_room (cur_seg c)" by simp
    note put = put_here [OF "1.prems"(1) le]
    show ?thesis
    proof (cases "drop ?k bs = []")
      case True
      then have "take ?k bs = bs" "?k = length bs" by simp_all
      then show ?thesis using False True put "1.prems"(2) by (subst encode_bytes.simps) (simp add: Let_def)
    next
      case more: False
      then have k: "?k = seg_room (cur_seg c)" "?k < length bs" by auto
      have "seg_room (cur_seg ?c) = 0" "0 < room ?c" using put(3,5) k "1.prems"(2) by simp_all
      from next_or_alloc_ok [OF put(1) this] obtain c2 where c2: "next_or_alloc ?c = Inr c2" "out_ok c2" "all_data c2 = all_data ?c" "room c2 = room ?c" by blast
      have "length (drop ?k bs) \<le> room c2" using c2(4) put(3) k "1.prems"(2) by simp
      with "1.IH" [OF False refl refl more c2(1) c2(2)] obtain c' where ih: "encode_bytes (drop ?k bs) c2 = (0, c')" "out_ok c'" "all_data c' = all_data c2 @ drop ?k bs"
        "room c' = room c2 - length (drop ?k bs)" by blast
      have "encode_bytes bs c = (0, c')" using False more c2(1) ih(1) by (subst encode_bytes.simps) (simp add: Let_def)
      moreover have "all_data c' = all_data c @ bs" using ih(3) c2(3) put(2) by (metis append.assoc append_take_drop_id)
      moreover have "room c' = room c - length bs" using ih(4) c2(4) put(3) k by simp
      ultimately show ?thesis using ih(2) by blast
    qed
  qed
qed

lemma encode_base_ok:
  "out_ok c \<Longrightarrow> length bs \<le> room c \<Longrightarrow> \<exists>c'. encode_base bs c = (0, c') \<and> out_ok c' \<and> all_data c' = all_data c @ bs \<and> room c' = room c - length bs"
proof (cases "length bs \<le> seg_room (cur_seg c)")
  case True
  assume ok: "out_ok c"
  have "fst (spec_do (Put bs) (cur_seg c))" using True by (cases "cur_seg c") (auto simp: spec_do_def seg_room_def)
  then show ?thesis using put_here [OF ok True] by (simp add: encode_base_def split_beta)
next
  case False
  assume "out_ok c" "length bs \<le> room c"
  moreover have "\<not> fst (spec_do (Put bs) (cur_seg c))" using False by (cases "cur_seg c") (auto simp: spec_do_def seg_room_def)
  ultimately show ?thesis using encode_bytes_ok by (simp add: encode_base_def split_beta)
qed

subsection \<open>Reading is taking from the front\<close>

definition stream :: "chain \<Rightarrow> bytes" where
  "stream c = concat (map seg_data (drop (ch_pos c) (ch_segs c)))"

text \<open>A chain without gaps: no segment behind the current one is empty.\<close>

definition in_ok :: "chain \<Rightarrow> bool" where
  "in_ok c \<longleftrightarrow> ch_pos c < length (ch_segs c) \<and> (\<forall>g \<in> set (drop (Suc (ch_pos c)) (ch_segs c)). seg_data g \<noteq> [])"

lemma get_here:
  assumes ok: "in_ok c" and le: "n \<le> length (seg_data (cur_seg c))"
  shows "in_ok (do_here (Get n) c)" "stream c = take n (seg_data (cur_seg c)) @ stream (do_here (Get n) c)" "seg_data (cur_seg (do_here (Get n) c)) = drop n (seg_data (cur_seg c))"
proof -
  have pos: "ch_pos c < length (ch_segs c)" using ok by (simp add: in_ok_def)
  note ds = do_here_segs [OF pos, of "Get n"]
  obtain f d r where g: "cur_seg c = (f, d, r)" by (metis prod_cases3)
  have p: "snd (spec_do (Get n) (cur_seg c)) = (f + n, drop n d, r)" using le by (simp add: g spec_do_def seg_data_def)
  have sd: "seg_data (cur_seg c) = d" "seg_data (f + n, drop n d, r) = drop n d" by (simp_all add: g seg_data_def)
  have drop1: "drop (Suc (ch_pos c)) (ch_segs (do_here (Get n) c)) = drop (Suc (ch_pos c)) (ch_segs c)" using pos by (simp add: ds)
  show "in_ok (do_here (Get n) c)" using ok pos drop1 by (simp add: in_ok_def ds)
  have old: "drop (ch_pos c) (ch_segs c) = cur_seg c # drop (Suc (ch_pos c)) (ch_segs c)" using pos by (simp add: cur_seg_def Cons_nth_drop_Suc)
  have new: "drop (ch_pos c) (ch_segs (do_here (Get n) c)) = (f + n, drop n d, r) # drop (Suc (ch_pos c)) (ch_segs c)" using pos by (simp add: ds p)
  show "stream c = take n (seg_data (cur_seg c)) @ stream (do_here (Get n) c)" using sd by (simp add: stream_def ds(2) old new)
  have "cur_seg (do_here (Get n) c) = (f + n, drop n d, r)" using pos ds(1,2) p by (simp add: cur_seg_def nth_append)
  then show "seg_data (cur_seg (do_here (Get n) c)) = drop n (seg_data (cur_seg c))" using sd by simp
qed

lemma next_in_ok:
  assumes ok: "in_ok c" and used: "seg_data (cur_seg c) = []" and more: "stream c \<noteq> []"
  shows "\<exists>c'. next_in c = Some c' \<and> in_ok c' \<and> stream c' = stream c"
proof -
  have pos: "ch_pos c < length (ch_segs c)" using ok by (simp add: in_ok_def)
  have old: "drop (ch_pos c) (ch_segs c) = cur_seg c # drop (Suc (ch_pos c)) (ch_segs c)" using pos by (simp add: cur_seg_def Cons_nth_drop_Suc)
  have "Suc (ch_pos c) < length (ch_segs c)"
  proof (rule ccontr)
    assume "\<not> Suc (ch_pos c) < length (ch_segs c)"
    then show False using more used old by (simp add: stream_def)
  qed
  then show ?thesis using ok used old by (auto simp: next_in_def in_ok_def stream_def Cons_nth_drop_Suc [symmetric])
qed

lemma decode_bytes_ok:
  "in_ok c \<Longrightarrow> n \<le> length (stream c) \<Longrightarrow> \<exists>c'. decode_bytes n c = (take n (stream c), 0, c') \<and> in_ok c' \<and> stream c' = drop n (stream c)"
proof (induction n c rule: decode_bytes.induct)
  case (1 n c)
  let ?d = "seg_data (cur_seg c)"
  let ?k = "min (length ?d) n"
  let ?c = "do_here (Get ?k) c"
  have le: "?k \<le> length ?d" by simp
  note get = get_here [OF "1.prems"(1) le]
  show ?case
  proof (cases "n - ?k = 0")
    case True
    then have k: "?k = n" "n \<le> length ?d" by auto
    have "take n (stream c) = take ?k ?d" "drop n (stream c) = stream ?c" using get(2) k by simp_all
    then show ?thesis using True get(1) by (subst decode_bytes.simps) (simp add: Let_def)
  next
    case False
    then have k: "?k = length ?d" "length ?d < n" by auto
    have st: "stream c = ?d @ stream ?c" using get(2) k(1) by simp
    have "seg_data (cur_seg ?c) = []" "stream ?c \<noteq> []" using get(3) k st "1.prems"(2) by auto
    from next_in_ok [OF get(1) this] obtain c2 where c2: "next_in ?c = Some c2" "in_ok c2" "stream c2 = stream ?c" by blast
    have "n - ?k \<le> length (stream c2)" using c2(3) st k "1.prems"(2) by simp
    with "1.IH" [OF refl refl refl False c2(1) c2(2)] obtain c' where ih: "decode_bytes (n - ?k) c2 = (take (n - ?k) (stream c2), 0, c')" "in_ok c'" "stream c' = drop (n - ?k) (stream c2)" by blast
    have "decode_bytes n c = (take ?k ?d @ take (n - ?k) (stream c2), 0, c')" using False c2(1) ih(1) by (subst decode_bytes.simps) (simp add: Let_def)
    then show ?thesis using ih(2,3) c2(3) st k by simp
  qed
qed

lemma decode_base_ok:
  assumes "in_ok c" and "n \<le> length (stream c)"
  shows "\<exists>c'. decode_base n c = (take n (stream c), 0, c') \<and> in_ok c' \<and> stream c' = drop n (stream c)"
proof (cases "n \<le> length (seg_data (cur_seg c))")
  case True
  have "fst (spec_do (Get n) (cur_seg c))" using True by (cases "cur_seg c") (auto simp: spec_do_def seg_data_def)
  moreover have "take n (stream c) = take n (seg_data (cur_seg c))" "drop n (stream c) = stream (do_here (Get n) c)" using get_here(2) [OF assms(1) True] True by simp_all
  ultimately show ?thesis using get_here(1) [OF assms(1) True] by (simp add: decode_base_def split_beta)
next
  case False
  then have "\<not> fst (spec_do (Get n) (cur_seg c))" by (cases "cur_seg c") (auto simp: spec_do_def seg_data_def)
  then show ?thesis using decode_bytes_ok [OF assms] by (simp add: decode_base_def split_beta)
qed

lemma strsize_loop_ok:
  "\<forall>g \<in> set segs. seg_data g \<noteq> [] \<Longrightarrow> bs @ concat (map seg_data segs) = str @ 0 # rest \<Longrightarrow> 0 \<notin> set str \<Longrightarrow> strsize_loop bs segs l = Ret (int (l + length str) + 1)"
proof (induction bs segs l arbitrary: str rule: strsize_loop.induct)
  case (1 b bs segs l)
  then show ?case by (cases str) auto
next
  case (3 g segs l)
  then obtain b bs where g: "seg_data g = b # bs" by (cases "seg_data g") auto
  then show ?case using 3 by (cases str) auto
qed simp

lemma SAFE_STRSIZE_ok:
  assumes "in_ok c" and "stream c = str @ 0 # rest" and "0 \<notin> set str"
  shows "SAFE_STRSIZE c = Ret (int (length str) + 1)"
proof -
  have old: "drop (ch_pos c) (ch_segs c) = cur_seg c # drop (Suc (ch_pos c)) (ch_segs c)" using assms(1) by (simp add: in_ok_def cur_seg_def Cons_nth_drop_Suc)
  show ?thesis using assms strsize_loop_ok [of "drop (Suc (ch_pos c)) (ch_segs c)" "seg_data (cur_seg c)" str rest 0] by (simp add: SAFE_STRSIZE_def in_ok_def stream_def old)
qed

subsection \<open>What was written can be read\<close>

text \<open>A chain that is written from its first segment on: the current segment is the last one and none but the first is empty, so that the reader who starts at the first finds no gap.\<close>

definition tight :: "chain \<Rightarrow> bool" where
  "tight c \<longleftrightarrow> Suc (ch_pos c) = length (ch_segs c) \<and> (\<forall>g \<in> set (tl (ch_segs c)). seg_data g \<noteq> [])"

lemma tight_rewind: "tight c \<Longrightarrow> in_ok (c\<lparr>ch_pos := 0\<rparr>) \<and> stream (c\<lparr>ch_pos := 0\<rparr>) = all_data c"
  by (cases "ch_segs c") (auto simp: tight_def in_ok_def stream_def all_data_def)

lemma last_in_tl: "Suc p = length xs \<Longrightarrow> 0 < p \<Longrightarrow> xs ! p \<in> set (tl xs)"
  by (cases xs; cases p) auto

lemma tight_put:
  assumes "Suc (ch_pos c) = length (ch_segs c)" and "\<forall>g \<in> set (tl (butlast (ch_segs c))). seg_data g \<noteq> []" and "length bs \<le> seg_room (cur_seg c)"
    and "ch_pos c = 0 \<or> seg_data (cur_seg c) @ bs \<noteq> []"
  shows "tight (do_here (Put bs) c)"
proof -
  obtain f d r where g: "cur_seg c = (f, d, r)" by (metis prod_cases3)
  have p: "snd (spec_do (Put bs) (cur_seg c)) = (f, d @ bs, r - length bs)" using assms(3) by (simp add: g spec_do_def seg_room_def)
  have pos: "ch_pos c < length (ch_segs c)" and last: "length (ch_segs c) - Suc 0 = ch_pos c" "drop (Suc (ch_pos c)) (ch_segs c) = []" using assms(1) by simp_all
  have segs: "ch_segs (do_here (Put bs) c) = butlast (ch_segs c) @ [(f, d @ bs, r - length bs)]" "ch_pos (do_here (Put bs) c) = ch_pos c"
    using do_here_segs [OF pos, of "Put bs"] last p by (simp_all add: butlast_conv_take)
  have "seg_data (f, d @ bs, r - length bs) \<noteq> []" if "ch_pos c \<noteq> 0" using that assms(4) g by (simp add: seg_data_def)
  moreover have "tl (butlast (ch_segs c) @ [x]) = (if ch_pos c = 0 then [] else tl (butlast (ch_segs c)) @ [x])" for x
    using last(1) length_butlast [of "ch_segs c"] by (cases "butlast (ch_segs c)") auto
  ultimately show ?thesis using assms(1,2) segs by (auto simp: tight_def)
qed

lemma next_or_alloc_tight:
  assumes "tight c" and "next_or_alloc c = Inr c'"
  shows "Suc (ch_pos c') = length (ch_segs c')" "\<forall>g \<in> set (tl (butlast (ch_segs c'))). seg_data g \<noteq> []" "seg_room (cur_seg c') = DFLT_MAX_PSB_PKT"
  using assms by (auto simp: tight_def next_or_alloc_def cur_seg_def nth_append seg_room_def split: nat.splits)

lemma encode_bytes_tight:
  "Suc (ch_pos c) = length (ch_segs c) \<Longrightarrow> \<forall>g \<in> set (tl (butlast (ch_segs c))). seg_data g \<noteq> [] \<Longrightarrow> tight c \<or> bs \<noteq> [] \<and> 0 < seg_room (cur_seg c) \<Longrightarrow> tight (snd (encode_bytes bs c)) \<or> fst (encode_bytes bs c) < 0"
proof (induction bs c rule: encode_bytes.induct)
  case (1 bs c)
  show ?case
  proof (cases "bs = []")
    case True
    then show ?thesis using 1 by (simp add: encode_bytes.simps)
  next
    case False
    let ?k = "min (seg_room (cur_seg c)) (length bs)"
    let ?c = "do_here (Put (take ?k bs)) c"
    have le: "length (take ?k bs) \<le> seg_room (cur_seg c)" by simp
    have "ch_pos c = 0 \<or> seg_data (cur_seg c) @ take ?k bs \<noteq> []"
    proof (cases "tight c \<and> ch_pos c \<noteq> 0")
      case True
      then have "cur_seg c \<in> set (tl (ch_segs c))" using last_in_tl [of "ch_pos c" "ch_segs c"] by (simp add: tight_def cur_seg_def)
      then show ?thesis using True by (simp add: tight_def)
    next
      case False
      then show ?thesis using "1.prems"(3) \<open>bs \<noteq> []\<close> by auto
    qed
    then have tight: "tight ?c" using tight_put "1.prems"(1,2) le by simp
    show ?thesis
    proof (cases "drop ?k bs = []")
      case True
      then show ?thesis using False tight by (subst (1 2) encode_bytes.simps) (simp add: Let_def)
    next
      case more: False
      show ?thesis
      proof (cases "next_or_alloc ?c")
        case (Inl err)
        then have "err < 0" by (auto simp: next_or_alloc_def split: if_splits nat.splits)
        then show ?thesis using False more Inl by (subst (1 2) encode_bytes.simps) (simp add: Let_def)
      next
        case (Inr c2)
        note nx = next_or_alloc_tight [OF tight Inr]
        have "tight (snd (encode_bytes (drop ?k bs) c2)) \<or> fst (encode_bytes (drop ?k bs) c2) < 0" by (rule "1.IH" [OF False refl refl more Inr nx(1,2)]) (use nx(3) more in \<open>simp add: DFLT_MAX_PSB_PKT_def\<close>)
        moreover have "encode_bytes bs c = encode_bytes (drop ?k bs) c2" using False more Inr by (subst encode_bytes.simps) (simp add: Let_def)
        ultimately show ?thesis by simp
      qed
    qed
  qed
qed

lemma tight_parts:
  assumes "tight c"
  shows "Suc (ch_pos c) = length (ch_segs c)" "\<forall>g \<in> set (tl (butlast (ch_segs c))). seg_data g \<noteq> []"
  using assms in_set_butlastD [of _ "tl (ch_segs c)"] by (auto simp: tight_def simp flip: butlast_tl)

lemma encode_tight:
  assumes "tight c"
  shows "encode_bytes bs c = (0, c') \<Longrightarrow> tight c'" and "encode_base bs c = (0, c') \<Longrightarrow> tight c'"
proof -
  show *: "encode_bytes bs c = (0, c') \<Longrightarrow> tight c'" using encode_bytes_tight [OF tight_parts [OF assms], of bs] assms by simp
  assume base: "encode_base bs c = (0, c')"
  show "tight c'"
  proof (cases "length bs \<le> seg_room (cur_seg c)")
    case True
    have "fst (spec_do (Put bs) (cur_seg c))" using True by (cases "cur_seg c") (auto simp: spec_do_def seg_room_def)
    then have "c' = do_here (Put bs) c" using base by (simp add: encode_base_def split_beta)
    moreover have "ch_pos c = 0 \<or> seg_data (cur_seg c) @ bs \<noteq> []" using assms last_in_tl [of "ch_pos c" "ch_segs c"] by (auto simp: tight_def cur_seg_def)
    ultimately show ?thesis using tight_put [OF tight_parts [OF assms] True] by simp
  next
    case False
    then have "\<not> fst (spec_do (Put bs) (cur_seg c))" by (cases "cur_seg c") (auto simp: spec_do_def seg_room_def)
    then show ?thesis using base * by (simp add: encode_base_def split_beta)
  qed
qed


end
