(* ===== verification/Marshal.thy ===== *)
theory Marshal
  imports Psb_Chain
begin

text \<open>
  Marshalling: the second part of \<^verbatim>\<open>lib/marshalling.c\<close>. A type descriptor is an entry of a table and refers to others by their index, so that descriptors may be recursive; the members of a structure are the entries
  that follow one another up to one of type void. The objects lie in a flat memory of bytes on a little-endian machine with pointers of 8 bytes, where the encoding of the integers is the identity. Fuel bounds
  the depth of the recursion, which on cyclic data has no end.
\<close>

subsection \<open>Types and memory\<close>

datatype type_id = AOSL_TYPE_VOID | AOSL_TYPE_INT8 | AOSL_TYPE_INT16 | AOSL_TYPE_INT32 | AOSL_TYPE_INT64 | AOSL_TYPE_FLOAT | AOSL_TYPE_DOUBLE | AOSL_TYPE_V4_IPADDR | AOSL_TYPE_V6_IPADDR
  | AOSL_TYPE_POINTER | AOSL_TYPE_REFERENCE | AOSL_TYPE_STRING | AOSL_TYPE_STRUCT | AOSL_TYPE_FIXED_BYTES | AOSL_TYPE_VAR_BYTES | AOSL_TYPE_BYTES_WITH_NIL | AOSL_TYPE_DYNAMIC_BYTES
  | AOSL_TYPE_DYNAMIC_STRING | AOSL_TYPE_FIXED_ARRAY | AOSL_TYPE_VAR_ARRAY | AOSL_TYPE_DYNAMIC_ARRAY | Unknown_type

record type_info =
  ti_id :: type_id
  ti_obj_size :: nat
  ti_array_size :: nat
  ti_count_var :: nat
  ti_obj_addr :: nat
  ti_have :: ptr
  ti_child :: nat

type_synonym memory = "nat \<Rightarrow> u8"

text \<open>The table of descriptors, the functions behind \<^verbatim>\<open>is_have\<close>, and what the field \<^verbatim>\<open>is_have\<close> of the local \<^verbatim>\<open>helper_type\<close> holds, which the code never sets.\<close>

record menv =
  ti_table :: "nat \<Rightarrow> type_info"
  have_f :: "ptr \<Rightarrow> nat \<Rightarrow> memory \<Rightarrow> bool"
  junk_have :: ptr

definition load :: "memory \<Rightarrow> nat \<Rightarrow> nat \<Rightarrow> bytes" where
  "load mem a n = map (\<lambda>i. mem (a + i)) [0..<n]"

definition le_nat :: "bytes \<Rightarrow> nat" where
  "le_nat bs = foldr (\<lambda>b n. unat b + 256 * n) bs 0"

definition load_u16 :: "memory \<Rightarrow> nat \<Rightarrow> nat" where "load_u16 mem a = le_nat (load mem a 2)"
definition load_ptr :: "memory \<Rightarrow> nat \<Rightarrow> nat" where "load_ptr mem a = le_nat (load mem a 8)"

fun c_strlen :: "nat \<Rightarrow> memory \<Rightarrow> nat \<Rightarrow> nat exec" where
  "c_strlen 0 mem a = NoFuel"
| "c_strlen (Suc fuel) mem a = (if mem a = 0 then Ret 0 else ebind (c_strlen fuel mem (Suc a)) (\<lambda>n. Ret (Suc n)))"

definition to_u16 :: "nat \<Rightarrow> nat" where "to_u16 n = n mod 65536"

definition DYN_VALUES :: nat where "DYN_VALUES = 8"
definition DYN_SIZE :: nat where "DYN_SIZE = 16"

text \<open>The types of a fixed number of bytes that are copied as they are.\<close>

definition base_size :: "type_id \<Rightarrow> nat option" where
  "base_size t = (case t of AOSL_TYPE_INT8 \<Rightarrow> Some 1 | AOSL_TYPE_INT16 \<Rightarrow> Some 2 | AOSL_TYPE_INT32 \<Rightarrow> Some 4 | AOSL_TYPE_INT64 \<Rightarrow> Some 8 | AOSL_TYPE_FLOAT \<Rightarrow> Some 4
     | AOSL_TYPE_DOUBLE \<Rightarrow> Some 8 | AOSL_TYPE_V4_IPADDR \<Rightarrow> Some 4 | AOSL_TYPE_V6_IPADDR \<Rightarrow> Some 16 | _ \<Rightarrow> None)"

fun get_type_size :: "nat \<Rightarrow> menv \<Rightarrow> nat \<Rightarrow> nat option exec" where
  "get_type_size 0 E t = NoFuel"
| "get_type_size (Suc fuel) E t =
     (let ty = ti_table E t in
      case base_size (ti_id ty) of
        Some n \<Rightarrow> Ret (Some n)
      | None \<Rightarrow> (case ti_id ty of
          AOSL_TYPE_VOID \<Rightarrow> Ret (Some 0)
        | AOSL_TYPE_POINTER \<Rightarrow> Ret (Some 8)
        | AOSL_TYPE_REFERENCE \<Rightarrow> get_type_size fuel E (ti_child ty)
        | AOSL_TYPE_STRING \<Rightarrow> Ret (Some 8)
        | AOSL_TYPE_STRUCT \<Rightarrow> Ret (Some (ti_obj_size ty))
        | AOSL_TYPE_FIXED_BYTES \<Rightarrow> Ret (Some (ti_array_size ty))
        | AOSL_TYPE_VAR_BYTES \<Rightarrow> Ret (Some (ti_array_size ty))
        | AOSL_TYPE_BYTES_WITH_NIL \<Rightarrow> Ret (Some (ti_array_size ty))
        | AOSL_TYPE_DYNAMIC_BYTES \<Rightarrow> Ret (Some DYN_SIZE)
        | AOSL_TYPE_DYNAMIC_STRING \<Rightarrow> Ret (Some DYN_SIZE)
        | AOSL_TYPE_FIXED_ARRAY \<Rightarrow> ebind (get_type_size fuel E (ti_child ty)) (\<lambda>n. Ret (map_option (\<lambda>n. n * ti_array_size ty) n))
        | AOSL_TYPE_VAR_ARRAY \<Rightarrow> ebind (get_type_size fuel E (ti_child ty)) (\<lambda>n. Ret (map_option (\<lambda>n. n * ti_array_size ty) n))
        | AOSL_TYPE_DYNAMIC_ARRAY \<Rightarrow> Ret (Some DYN_SIZE)
        | _ \<Rightarrow> Ret None))"

subsection \<open>Marshalling\<close>

text \<open>Encoding bytes gives their number or the error; one part after the other gives the sum of the numbers or the first error.\<close>

definition emit_base :: "bytes \<Rightarrow> chain \<Rightarrow> (int \<times> chain) exec" where
  "emit_base bs c = (case encode_base bs c of (err, c) \<Rightarrow> Ret (if err < 0 then err else int (length bs), c))"

definition emit_bytes :: "bytes \<Rightarrow> chain \<Rightarrow> (int \<times> chain) exec" where
  "emit_bytes bs c = (case encode_bytes bs c of (err, c) \<Rightarrow> Ret (if err < 0 then err else int (length bs), c))"

definition mseq :: "(int \<times> chain) exec \<Rightarrow> (chain \<Rightarrow> (int \<times> chain) exec) \<Rightarrow> (int \<times> chain) exec" where
  "mseq r k = ebind r (\<lambda>(n, c). if n < 0 then Ret (n, c) else ebind (k c) (\<lambda>(n', c). Ret (if n' < 0 then n' else n + n', c)))"

text \<open>On an error the caller keeps the segment it had (\<^verbatim>\<open>*psb_p\<close> is not set).\<close>

definition on_error_at :: "nat \<Rightarrow> (int \<times> chain) exec \<Rightarrow> (int \<times> chain) exec" where
  "on_error_at pos r = ebind r (\<lambda>(n, c). Ret (n, if n < 0 then c\<lparr>ch_pos := pos\<rparr> else c))"

text \<open>The call for the helper type looks at its \<^verbatim>\<open>is_have\<close> first.\<close>

definition marshal_bool :: "menv \<Rightarrow> bool \<Rightarrow> chain \<Rightarrow> (int \<times> chain) exec" where
  "marshal_bool E b c = (if junk_have E \<noteq> 0 then Fault else emit_base [if b then 1 else 0] c)"

text \<open>Dynamic bytes and strings.\<close>

definition marshal_dyn :: "memory \<Rightarrow> nat \<Rightarrow> chain \<Rightarrow> (int \<times> chain) exec" where
  "marshal_dyn mem this c =
     (let val = load_u16 mem this in mseq (emit_base (load mem this 2) c) (\<lambda>c. if 0 < val then emit_bytes (load mem (load_ptr mem (this + DYN_VALUES)) val) c else Ret (0, c)))"

text \<open>
  One level of the recursion: a typed object, the members of a structure from an entry on, or the elements of an array from an index on. \<open>rec\<close> stands for the recursive calls. The index of the element loop is 16 bits wide.
\<close>

datatype job = Obj nat nat | Fields nat nat | Elems nat nat nat nat nat

definition marshal_obj :: "(job \<Rightarrow> chain \<Rightarrow> (int \<times> chain) exec) \<Rightarrow> nat \<Rightarrow> menv \<Rightarrow> memory \<Rightarrow> nat \<Rightarrow> nat \<Rightarrow> chain \<Rightarrow> (int \<times> chain) exec" where
  "marshal_obj rec fuel E mem t a c =
     (let ty = ti_table E t; this = a + ti_obj_addr ty; child = ti_child ty; cnt = a + ti_count_var ty in
      case base_size (ti_id ty) of
        Some n \<Rightarrow> emit_base (load mem this n) c
      | None \<Rightarrow> (case ti_id ty of
          AOSL_TYPE_VOID \<Rightarrow> Ret (0, c)
        | AOSL_TYPE_POINTER \<Rightarrow> let p = load_ptr mem this in mseq (marshal_bool E (p \<noteq> 0) c) (\<lambda>c. if p \<noteq> 0 then rec (Obj child p) c else Ret (0, c))
        | AOSL_TYPE_REFERENCE \<Rightarrow> rec (Obj child this) c
        | AOSL_TYPE_STRING \<Rightarrow> let p = load_ptr mem this in mseq (marshal_bool E (p \<noteq> 0) c) (\<lambda>c.
            if p \<noteq> 0 then ebind (c_strlen fuel mem p) (\<lambda>l. emit_bytes (load mem p (to_u16 (l + 1))) c) else Ret (0, c))
        | AOSL_TYPE_STRUCT \<Rightarrow> rec (Fields child this) c
        | AOSL_TYPE_FIXED_BYTES \<Rightarrow> emit_bytes (load mem this (ti_array_size ty)) c
        | AOSL_TYPE_VAR_BYTES \<Rightarrow> mseq (emit_base (load mem cnt 2) c) (emit_bytes (load mem this (load_u16 mem cnt)))
        | AOSL_TYPE_BYTES_WITH_NIL \<Rightarrow> ebind (c_strlen fuel mem this) (\<lambda>l. let val = to_u16 (l + 1) in if ti_array_size ty < val then Ret (- AOSL_EINVAL, c) else emit_bytes (load mem this val) c)
        | AOSL_TYPE_DYNAMIC_BYTES \<Rightarrow> marshal_dyn mem this c
        | AOSL_TYPE_DYNAMIC_STRING \<Rightarrow> marshal_dyn mem this c
        | AOSL_TYPE_FIXED_ARRAY \<Rightarrow> ebind (get_type_size fuel E child) (\<lambda>sz. case sz of None \<Rightarrow> Ret (0, c) | Some sz \<Rightarrow> rec (Elems child this sz (ti_array_size ty) 0) c)
        | AOSL_TYPE_VAR_ARRAY \<Rightarrow> ebind (get_type_size fuel E child) (\<lambda>sz. case sz of None \<Rightarrow> Ret (0, c) | Some sz \<Rightarrow> mseq (emit_base (load mem cnt 2) c) (rec (Elems child this sz (load_u16 mem cnt) 0)))
        | AOSL_TYPE_DYNAMIC_ARRAY \<Rightarrow> let val = load_u16 mem this in mseq (emit_base (load mem this 2) c) (\<lambda>c.
            if 0 < val then ebind (get_type_size fuel E child) (\<lambda>sz. case sz of None \<Rightarrow> Ret (- AOSL_EINVAL, c) | Some sz \<Rightarrow> rec (Elems child (load_ptr mem (this + DYN_VALUES)) sz val 0) c)
            else Ret (0, c))
        | _ \<Rightarrow> Ret (- AOSL_EINVAL, c)))"

definition marshal_step :: "(job \<Rightarrow> chain \<Rightarrow> (int \<times> chain) exec) \<Rightarrow> nat \<Rightarrow> menv \<Rightarrow> memory \<Rightarrow> job \<Rightarrow> chain \<Rightarrow> (int \<times> chain) exec" where
  "marshal_step rec fuel E mem j c = (case j of
       Obj t a \<Rightarrow>
         let ty = ti_table E t in
         if ti_have ty \<noteq> 0 \<and> \<not> have_f E (ti_have ty) (a + ti_obj_addr ty) mem then Ret (0, c) else on_error_at (ch_pos c) (marshal_obj rec fuel E mem t a c)
     | Fields t a \<Rightarrow> if ti_id (ti_table E t) = AOSL_TYPE_VOID then Ret (0, c) else mseq (rec (Obj t a) c) (rec (Fields (Suc t) a))
     | Elems t a sz n i \<Rightarrow> if i < n then mseq (rec (Obj t (a + sz * i)) c) (rec (Elems t a sz n (to_u16 (i + 1)))) else Ret (0, c))"

primrec marshal_job :: "nat \<Rightarrow> menv \<Rightarrow> memory \<Rightarrow> job \<Rightarrow> chain \<Rightarrow> (int \<times> chain) exec" where
  "marshal_job 0 E mem j c = NoFuel"
| "marshal_job (Suc fuel) E mem j c = marshal_step (marshal_job fuel E mem) fuel E mem j c"

definition marshal :: "nat \<Rightarrow> menv \<Rightarrow> nat \<Rightarrow> nat \<Rightarrow> memory \<Rightarrow> chain \<Rightarrow> (int \<times> chain) exec" where
  "marshal fuel E t a mem c = marshal_job fuel E mem (Obj t a) c"

text \<open>\<^verbatim>\<open>aosl_marshal\<close> turns an error into -1 and \<^verbatim>\<open>aosl_errno\<close>.\<close>

definition aosl_marshal :: "nat \<Rightarrow> menv \<Rightarrow> nat \<Rightarrow> nat \<Rightarrow> memory \<Rightarrow> chain \<Rightarrow> (int \<times> int option \<times> chain) exec" where
  "aosl_marshal fuel E t a mem c = ebind (marshal fuel E t a mem c) (\<lambda>(n, c). Ret (if n < 0 then (- 1, Some (- n), c) else (n, None, c)))"

subsection \<open>Unmarshalling\<close>

text \<open>
  The memory with the allocator: \<open>um_pool\<close> are the results of the next calls of \<^verbatim>\<open>aosl_malloc\<close> (None, or none left: no memory), \<open>um_blocks\<close> the blocks handed out and \<open>um_freed\<close> those given back.
\<close>

record umem =
  um_bytes :: memory
  um_pool :: "ptr option list"
  um_blocks :: "(ptr \<times> nat) list"
  um_freed :: "ptr list"

definition put_at :: "nat \<Rightarrow> bytes \<Rightarrow> memory \<Rightarrow> memory" where
  "put_at a bs mem = (\<lambda>x. if a \<le> x \<and> x < a + length bs then bs ! (x - a) else mem x)"

definition store :: "nat \<Rightarrow> bytes \<Rightarrow> umem \<Rightarrow> umem" where
  "store a bs s = s\<lparr>um_bytes := put_at a bs (um_bytes s)\<rparr>"

fun le_bytes :: "nat \<Rightarrow> nat \<Rightarrow> bytes" where
  "le_bytes 0 v = []"
| "le_bytes (Suc n) v = of_nat (v mod 256) # le_bytes n (v div 256)"

definition um_malloc :: "nat \<Rightarrow> umem \<Rightarrow> ptr \<times> umem" where
  "um_malloc sz s = (case um_pool s of
       Some p # ps \<Rightarrow> (p, s\<lparr>um_pool := ps, um_blocks := um_blocks s @ [(p, sz)]\<rparr>)
     | None # ps \<Rightarrow> (0, s\<lparr>um_pool := ps\<rparr>)
     | [] \<Rightarrow> (0, s))"

type_synonym uresult = "(int \<times> umem \<times> chain) exec"

definition useq :: "uresult \<Rightarrow> (umem \<Rightarrow> chain \<Rightarrow> uresult) \<Rightarrow> uresult" where
  "useq r k = ebind r (\<lambda>(n, s, c). if n < 0 then Ret (n, s, c) else ebind (k s c) (\<lambda>(n', s, c). Ret (if n' < 0 then n' else n + n', s, c)))"

definition read_base :: "nat \<Rightarrow> umem \<Rightarrow> chain \<Rightarrow> (bytes \<Rightarrow> umem \<Rightarrow> chain \<Rightarrow> uresult) \<Rightarrow> uresult" where
  "read_base n s c k = (case decode_base n c of (bs, err, c) \<Rightarrow> useq (Ret (if err < 0 then err else int n, s, c)) (k bs))"

definition read_into :: "nat \<Rightarrow> nat \<Rightarrow> umem \<Rightarrow> chain \<Rightarrow> uresult" where
  "read_into a n s c = (case decode_bytes n c of (bs, err, c) \<Rightarrow> Ret (if err < 0 then err else int n, store a bs s, c))"

definition read_bool :: "menv \<Rightarrow> umem \<Rightarrow> chain \<Rightarrow> (bool \<Rightarrow> umem \<Rightarrow> chain \<Rightarrow> uresult) \<Rightarrow> uresult" where
  "read_bool E s c k = (if junk_have E \<noteq> 0 then Fault else read_base 1 s c (\<lambda>bs. k (hd bs \<noteq> 0)))"

definition set_dyn :: "nat \<Rightarrow> nat \<Rightarrow> nat \<Rightarrow> umem \<Rightarrow> umem" where
  "set_dyn this count allocated s = store (this + 2) (le_bytes 2 allocated) (store this (le_bytes 2 count) s)"

text \<open>Dynamic bytes (\<open>extra\<close> = 0) and strings (\<open>extra\<close> = 1, for the terminating 0). \<^verbatim>\<open>allocated\<close> is 16 bits wide.\<close>

definition unmarshal_dyn :: "nat \<Rightarrow> nat \<Rightarrow> umem \<Rightarrow> chain \<Rightarrow> uresult" where
  "unmarshal_dyn extra this s c =
     read_base 2 s c (\<lambda>bs s c.
     let val = le_nat bs; s = set_dyn this val (to_u16 (val + extra)) s in
     if 0 < val + extra then
       let (p, s) = um_malloc (val + extra) s in
       if p = 0 then Ret (- AOSL_ENOMEM, set_dyn this 0 0 s, c)
       else
         useq (if 0 < val then read_into p val (store (this + DYN_VALUES) (le_bytes 8 p) s) c else Ret (0, store (this + DYN_VALUES) (le_bytes 8 p) s, c)) (\<lambda>s c.
         Ret (0, if extra = 1 then store (p + val) [0] s else s, c))
     else Ret (0, s, c))"

definition unmarshal_obj :: "(job \<Rightarrow> umem \<Rightarrow> chain \<Rightarrow> uresult) \<Rightarrow> nat \<Rightarrow> menv \<Rightarrow> nat \<Rightarrow> nat \<Rightarrow> umem \<Rightarrow> chain \<Rightarrow> uresult" where
  "unmarshal_obj rec fuel E t a s c =
     (let ty = ti_table E t; this = a + ti_obj_addr ty; child = ti_child ty; cnt = a + ti_count_var ty; pos = ch_pos c in
      case base_size (ti_id ty) of
        Some n \<Rightarrow> read_base n s c (\<lambda>bs s c. Ret (0, store this bs s, c))
      | None \<Rightarrow> (case ti_id ty of
          AOSL_TYPE_VOID \<Rightarrow> Ret (0, s, c)
        | AOSL_TYPE_POINTER \<Rightarrow> read_bool E s c (\<lambda>b s c.
            if b then
              ebind (get_type_size fuel E child) (\<lambda>sz. case sz of
                None \<Rightarrow> Ret (0, s, c\<lparr>ch_pos := pos\<rparr>)
              | Some sz \<Rightarrow> let (p, s) = um_malloc sz s in if p = 0 then Ret (- AOSL_ENOMEM, s, c) else rec (Obj child p) (store this (le_bytes 8 p) s) c)
            else Ret (0, store this (le_bytes 8 0) s, c))
        | AOSL_TYPE_REFERENCE \<Rightarrow> rec (Obj child this) s c
        | AOSL_TYPE_STRING \<Rightarrow> read_bool E s c (\<lambda>b s c.
            if b then
              ebind (SAFE_STRSIZE c) (\<lambda>l. if l < 0 then Ret (l, s, c) else
              let val = to_u16 (nat l); (p, s) = um_malloc val s in if p = 0 then Ret (- AOSL_ENOMEM, s, c) else read_into p val (store this (le_bytes 8 p) s) c)
            else Ret (0, store this (le_bytes 8 0) s, c))
        | AOSL_TYPE_STRUCT \<Rightarrow> rec (Fields child this) s c
        | AOSL_TYPE_FIXED_BYTES \<Rightarrow> read_into this (ti_array_size ty) s c
        | AOSL_TYPE_VAR_BYTES \<Rightarrow> read_base 2 s c (\<lambda>bs s c. if ti_array_size ty < le_nat bs then Ret (- AOSL_ENOSPC, s, c) else read_into this (le_nat bs) (store cnt bs s) c)
        | AOSL_TYPE_BYTES_WITH_NIL \<Rightarrow> ebind (SAFE_STRSIZE c) (\<lambda>l. if l < 0 then Ret (l, s, c) else
            let val = to_u16 (nat l) in if ti_array_size ty < val then Ret (- AOSL_ENOSPC, s, c) else read_into this val s c)
        | AOSL_TYPE_DYNAMIC_BYTES \<Rightarrow> unmarshal_dyn 0 this s c
        | AOSL_TYPE_DYNAMIC_STRING \<Rightarrow> unmarshal_dyn 1 this s c
        | AOSL_TYPE_FIXED_ARRAY \<Rightarrow> ebind (get_type_size fuel E child) (\<lambda>sz. case sz of None \<Rightarrow> Ret (0, s, c) | Some sz \<Rightarrow> rec (Elems child this sz (ti_array_size ty) 0) s c)
        | AOSL_TYPE_VAR_ARRAY \<Rightarrow> ebind (get_type_size fuel E child) (\<lambda>sz. case sz of None \<Rightarrow> Ret (0, s, c) | Some sz \<Rightarrow>
            read_base 2 s c (\<lambda>bs s c. if ti_array_size ty < le_nat bs then Ret (- AOSL_ENOSPC, s, c) else rec (Elems child this sz (le_nat bs) 0) (store cnt bs s) c))
        | AOSL_TYPE_DYNAMIC_ARRAY \<Rightarrow> read_base 2 s c (\<lambda>bs s c.
            let val = le_nat bs; s = set_dyn this val val s in
            if 0 < val then
              ebind (get_type_size fuel E child) (\<lambda>sz. case sz of
                None \<Rightarrow> Ret (- AOSL_EINVAL, set_dyn this 0 0 s, c)
              | Some sz \<Rightarrow>
                  let (p, s) = um_malloc (sz * val) s in
                  if p = 0 then Ret (- AOSL_ENOMEM, set_dyn this 0 0 s, c) else rec (Elems child p sz val 0) (store (this + DYN_VALUES) (le_bytes 8 p) s) c)
            else Ret (0, s, c))
        | _ \<Rightarrow> Ret (- AOSL_EINVAL, s, c)))"

definition unmarshal_step :: "(job \<Rightarrow> umem \<Rightarrow> chain \<Rightarrow> uresult) \<Rightarrow> nat \<Rightarrow> menv \<Rightarrow> job \<Rightarrow> umem \<Rightarrow> chain \<Rightarrow> uresult" where
  "unmarshal_step rec fuel E j s c = (case j of
       Obj t a \<Rightarrow>
         let ty = ti_table E t in
         if ti_have ty \<noteq> 0 \<and> \<not> have_f E (ti_have ty) (a + ti_obj_addr ty) (um_bytes s) then Ret (0, s, c)
         else ebind (unmarshal_obj rec fuel E t a s c) (\<lambda>(n, s, c'). Ret (n, s, if n < 0 then c'\<lparr>ch_pos := ch_pos c\<rparr> else c'))
     | Fields t a \<Rightarrow> if ti_id (ti_table E t) = AOSL_TYPE_VOID then Ret (0, s, c) else useq (rec (Obj t a) s c) (rec (Fields (Suc t) a))
     | Elems t a sz n i \<Rightarrow> if i < n then useq (rec (Obj t (a + sz * i)) s c) (rec (Elems t a sz n (to_u16 (i + 1)))) else Ret (0, s, c))"

primrec unmarshal_job :: "nat \<Rightarrow> menv \<Rightarrow> job \<Rightarrow> umem \<Rightarrow> chain \<Rightarrow> uresult" where
  "unmarshal_job 0 E j s c = NoFuel"
| "unmarshal_job (Suc fuel) E j s c = unmarshal_step (unmarshal_job fuel E) fuel E j s c"

definition unmarshal :: "nat \<Rightarrow> menv \<Rightarrow> nat \<Rightarrow> nat \<Rightarrow> umem \<Rightarrow> chain \<Rightarrow> uresult" where
  "unmarshal fuel E t a s c = unmarshal_job fuel E (Obj t a) s c"

definition aosl_unmarshal :: "nat \<Rightarrow> menv \<Rightarrow> nat \<Rightarrow> nat \<Rightarrow> umem \<Rightarrow> chain \<Rightarrow> (int \<times> int option \<times> umem \<times> chain) exec" where
  "aosl_unmarshal fuel E t a s c = ebind (unmarshal fuel E t a s c) (\<lambda>(n, s, c). Ret (if n < 0 then (- 1, Some (- n), s, c) else (n, None, s, c)))"

subsection \<open>Initialising and freeing typed objects\<close>

definition init_obj :: "(job \<Rightarrow> umem \<Rightarrow> umem exec) \<Rightarrow> nat \<Rightarrow> menv \<Rightarrow> nat \<Rightarrow> nat \<Rightarrow> umem \<Rightarrow> umem exec" where
  "init_obj rec fuel E t a s =
     (let ty = ti_table E t; this = a + ti_obj_addr ty; child = ti_child ty; cnt = a + ti_count_var ty in
      case base_size (ti_id ty) of
        Some n \<Rightarrow> Ret (store this (replicate n 0) s)
      | None \<Rightarrow> (case ti_id ty of
          AOSL_TYPE_POINTER \<Rightarrow> Ret (store this (le_bytes 8 0) s)
        | AOSL_TYPE_REFERENCE \<Rightarrow> rec (Obj child this) s
        | AOSL_TYPE_STRING \<Rightarrow> Ret (store this (le_bytes 8 0) s)
        | AOSL_TYPE_STRUCT \<Rightarrow> rec (Fields child this) s
        | AOSL_TYPE_FIXED_BYTES \<Rightarrow> Ret (store this (replicate (ti_array_size ty) 0) s)
        | AOSL_TYPE_VAR_BYTES \<Rightarrow> Ret (store cnt (le_bytes 2 0) s)
        | AOSL_TYPE_BYTES_WITH_NIL \<Rightarrow> Ret (store this [0] s)
        | AOSL_TYPE_DYNAMIC_BYTES \<Rightarrow> Ret (store (this + DYN_VALUES) (le_bytes 8 0) (set_dyn this 0 0 s))
        | AOSL_TYPE_DYNAMIC_STRING \<Rightarrow> Ret (store (this + DYN_VALUES) (le_bytes 8 0) (set_dyn this 0 0 s))
        | AOSL_TYPE_FIXED_ARRAY \<Rightarrow> ebind (get_type_size fuel E child) (\<lambda>sz. case sz of None \<Rightarrow> Ret s | Some sz \<Rightarrow> rec (Elems child this sz (ti_array_size ty) 0) s)
        | AOSL_TYPE_VAR_ARRAY \<Rightarrow> Ret (store cnt (le_bytes 2 0) s)
        | AOSL_TYPE_DYNAMIC_ARRAY \<Rightarrow> Ret (store (this + DYN_VALUES) (le_bytes 8 0) (set_dyn this 0 0 s))
        | _ \<Rightarrow> Ret s))"

primrec init_job :: "nat \<Rightarrow> menv \<Rightarrow> job \<Rightarrow> umem \<Rightarrow> umem exec" where
  "init_job 0 E j s = NoFuel"
| "init_job (Suc fuel) E j s = (case j of
       Obj t a \<Rightarrow> init_obj (init_job fuel E) fuel E t a s
     | Fields t a \<Rightarrow> if ti_id (ti_table E t) = AOSL_TYPE_VOID then Ret s else ebind (init_job fuel E (Obj t a) s) (init_job fuel E (Fields (Suc t) a))
     | Elems t a sz n i \<Rightarrow> if i < n then ebind (init_job fuel E (Obj t (a + sz * i)) s) (init_job fuel E (Elems t a sz n (i + 1))) else Ret s)"

definition aosl_init_typed_obj :: "nat \<Rightarrow> menv \<Rightarrow> nat \<Rightarrow> nat \<Rightarrow> umem \<Rightarrow> umem exec" where
  "aosl_init_typed_obj fuel E t a s = init_job fuel E (Obj t a) s"

definition um_free :: "ptr \<Rightarrow> umem \<Rightarrow> umem" where
  "um_free p s = s\<lparr>um_freed := um_freed s @ [p]\<rparr>"

text \<open>The loop over a variable array reads its count again in every round.\<close>

datatype fini_job = Fini_obj nat nat | Fini_fields nat nat | Fini_elems nat nat nat nat nat | Fini_var nat nat nat nat nat

definition fini_dyn :: "nat \<Rightarrow> umem \<Rightarrow> umem" where
  "fini_dyn this s = store (this + DYN_VALUES) (le_bytes 8 0) (set_dyn this 0 0 s)"

definition fini_obj :: "(fini_job \<Rightarrow> umem \<Rightarrow> umem exec) \<Rightarrow> nat \<Rightarrow> menv \<Rightarrow> nat \<Rightarrow> nat \<Rightarrow> umem \<Rightarrow> umem exec" where
  "fini_obj rec fuel E t a s =
     (let ty = ti_table E t; this = a + ti_obj_addr ty; child = ti_child ty; cnt = a + ti_count_var ty; p = load_ptr (um_bytes s) this in
      case ti_id ty of
          AOSL_TYPE_POINTER \<Rightarrow> if p \<noteq> 0 then ebind (rec (Fini_obj child p) s) (\<lambda>s. Ret (store this (le_bytes 8 0) (um_free p s))) else Ret s
        | AOSL_TYPE_REFERENCE \<Rightarrow> rec (Fini_obj child this) s
        | AOSL_TYPE_STRING \<Rightarrow> Ret (if p \<noteq> 0 then store this (le_bytes 8 0) (um_free p s) else s)
        | AOSL_TYPE_STRUCT \<Rightarrow> rec (Fini_fields child this) s
        | AOSL_TYPE_DYNAMIC_BYTES \<Rightarrow> Ret (fini_dyn this (if 0 < load_u16 (um_bytes s) (this + 2) then um_free (load_ptr (um_bytes s) (this + DYN_VALUES)) s else s))
        | AOSL_TYPE_DYNAMIC_STRING \<Rightarrow> Ret (fini_dyn this (if 0 < load_u16 (um_bytes s) (this + 2) then um_free (load_ptr (um_bytes s) (this + DYN_VALUES)) s else s))
        | AOSL_TYPE_FIXED_ARRAY \<Rightarrow> ebind (get_type_size fuel E child) (\<lambda>sz. case sz of None \<Rightarrow> Ret s | Some sz \<Rightarrow> rec (Fini_elems child this sz (ti_array_size ty) 0) s)
        | AOSL_TYPE_VAR_ARRAY \<Rightarrow> ebind (get_type_size fuel E child) (\<lambda>sz. case sz of None \<Rightarrow> Ret s | Some sz \<Rightarrow>
            ebind (rec (Fini_var child this sz cnt 0) s) (\<lambda>s. Ret (store cnt (le_bytes 2 0) s)))
        | AOSL_TYPE_DYNAMIC_ARRAY \<Rightarrow>
            ebind (if 0 < load_u16 (um_bytes s) (this + 2) then
                     let p = load_ptr (um_bytes s) (this + DYN_VALUES); count = load_u16 (um_bytes s) this in
                     ebind (if 0 < count then ebind (get_type_size fuel E child) (\<lambda>sz. case sz of None \<Rightarrow> Ret s | Some sz \<Rightarrow> rec (Fini_elems child p sz count 0) s) else Ret s) (\<lambda>s.
                     Ret (um_free p s))
                   else Ret s) (\<lambda>s. Ret (fini_dyn this s))
        | _ \<Rightarrow> Ret s)"

primrec fini_run :: "nat \<Rightarrow> menv \<Rightarrow> fini_job \<Rightarrow> umem \<Rightarrow> umem exec" where
  "fini_run 0 E j s = NoFuel"
| "fini_run (Suc fuel) E j s = (case j of
       Fini_obj t a \<Rightarrow> fini_obj (fini_run fuel E) fuel E t a s
     | Fini_fields t a \<Rightarrow> if ti_id (ti_table E t) = AOSL_TYPE_VOID then Ret s else ebind (fini_run fuel E (Fini_obj t a) s) (fini_run fuel E (Fini_fields (Suc t) a))
     | Fini_elems t a sz n i \<Rightarrow> if i < n then ebind (fini_run fuel E (Fini_obj t (a + sz * i)) s) (fini_run fuel E (Fini_elems t a sz n (i + 1))) else Ret s
     | Fini_var t a sz cnt i \<Rightarrow> if i < load_u16 (um_bytes s) cnt then ebind (fini_run fuel E (Fini_obj t (a + sz * i)) s) (fini_run fuel E (Fini_var t a sz cnt (i + 1))) else Ret s)"

definition aosl_fini_typed_obj :: "nat \<Rightarrow> menv \<Rightarrow> nat \<Rightarrow> nat \<Rightarrow> umem \<Rightarrow> umem exec" where
  "aosl_fini_typed_obj fuel E t a s = fini_run fuel E (Fini_obj t a) s"

end
