(* ===== verification/Marshal_Correct.thy ===== *)
theory Marshal_Correct
  imports Marshal
begin

text \<open>
  Marshalling and unmarshalling are inverse. The wire format is a relation \<open>enc\<close> between an object in memory and the bytes that stand for it, by rules for each type; marshalling writes these bytes
  (for every type; with pointers and strings when an unset field on the stack happens to be 0), unmarshalling reads them back with as many allocations as the object has blocks, and for types without pointers the new object is a copy of the old one and has the same encoding.
\<close>

subsection \<open>The wire format\<close>

definition has_size :: "menv \<Rightarrow> nat \<Rightarrow> nat \<Rightarrow> bool" where
  "has_size E t sz \<longleftrightarrow> eventually (\<lambda>f. get_type_size f E t = Ret (Some sz)) sequentially"

definition present :: "menv \<Rightarrow> memory \<Rightarrow> nat \<Rightarrow> nat \<Rightarrow> bool" where
  "present E mem t a \<longleftrightarrow> ti_have (ti_table E t) = 0 \<or> have_f E (ti_have (ti_table E t)) (a + ti_obj_addr (ti_table E t)) mem"

text \<open>
  \<open>enc fl E mem j bs R K\<close>: \<open>bs\<close> is the encoding of \<open>j\<close>, with \<open>R\<close> the offsets of the bytes of the object that are part of it and \<open>K\<close> the number of blocks that a reader has to allocate. With \<open>fl\<close> only the flat
  types, without pointers, are allowed.
\<close>

inductive enc :: "bool \<Rightarrow> menv \<Rightarrow> memory \<Rightarrow> job \<Rightarrow> bytes \<Rightarrow> nat set \<Rightarrow> nat \<Rightarrow> bool" for fl E mem where
  absent: "\<not> present E mem t a \<Longrightarrow> enc fl E mem (Obj t a) [] {} 0"
| base: "present E mem t a \<Longrightarrow> ty = ti_table E t \<Longrightarrow> base_size (ti_id ty) = Some n \<Longrightarrow>
    enc fl E mem (Obj t a) (load mem (a + ti_obj_addr ty) n) {ti_obj_addr ty..<ti_obj_addr ty + n} 0"
| void: "present E mem t a \<Longrightarrow> ti_id (ti_table E t) = AOSL_TYPE_VOID \<Longrightarrow> enc fl E mem (Obj t a) [] {} 0"
| null: "present E mem t a \<Longrightarrow> \<not> fl \<Longrightarrow> ty = ti_table E t \<Longrightarrow> ti_id ty = AOSL_TYPE_POINTER \<or> ti_id ty = AOSL_TYPE_STRING \<Longrightarrow>
    load_ptr mem (a + ti_obj_addr ty) = 0 \<Longrightarrow> enc fl E mem (Obj t a) [0] {} 0"
| pointer: "present E mem t a \<Longrightarrow> \<not> fl \<Longrightarrow> ty = ti_table E t \<Longrightarrow> ti_id ty = AOSL_TYPE_POINTER \<Longrightarrow> load_ptr mem (a + ti_obj_addr ty) = p \<Longrightarrow> p \<noteq> 0 \<Longrightarrow>
    has_size E (ti_child ty) sz \<Longrightarrow> enc fl E mem (Obj (ti_child ty) p) bs R K \<Longrightarrow> enc fl E mem (Obj t a) (1 # bs) {} (Suc K)"
| reference: "present E mem t a \<Longrightarrow> ty = ti_table E t \<Longrightarrow> ti_id ty = AOSL_TYPE_REFERENCE \<Longrightarrow> enc fl E mem (Obj (ti_child ty) (a + ti_obj_addr ty)) bs R K \<Longrightarrow>
    enc fl E mem (Obj t a) bs ((+) (ti_obj_addr ty) ` R) K"
| string: "present E mem t a \<Longrightarrow> \<not> fl \<Longrightarrow> ty = ti_table E t \<Longrightarrow> ti_id ty = AOSL_TYPE_STRING \<Longrightarrow> load_ptr mem (a + ti_obj_addr ty) = p \<Longrightarrow> p \<noteq> 0 \<Longrightarrow>
    load mem p (Suc (length str)) = str @ [0] \<Longrightarrow> 0 \<notin> set str \<Longrightarrow> Suc (length str) < 65536 \<Longrightarrow> enc fl E mem (Obj t a) (1 # str @ [0]) {} 1"
| struct: "present E mem t a \<Longrightarrow> ty = ti_table E t \<Longrightarrow> ti_id ty = AOSL_TYPE_STRUCT \<Longrightarrow> enc fl E mem (Fields (ti_child ty) (a + ti_obj_addr ty)) bs R K \<Longrightarrow>
    enc fl E mem (Obj t a) bs ((+) (ti_obj_addr ty) ` R) K"
| fixed_bytes: "present E mem t a \<Longrightarrow> ty = ti_table E t \<Longrightarrow> ti_id ty = AOSL_TYPE_FIXED_BYTES \<Longrightarrow>
    enc fl E mem (Obj t a) (load mem (a + ti_obj_addr ty) (ti_array_size ty)) {ti_obj_addr ty..<ti_obj_addr ty + ti_array_size ty} 0"
| var_bytes: "present E mem t a \<Longrightarrow> ty = ti_table E t \<Longrightarrow> ti_id ty = AOSL_TYPE_VAR_BYTES \<Longrightarrow> load_u16 mem (a + ti_count_var ty) = n \<Longrightarrow> n \<le> ti_array_size ty \<Longrightarrow>
    enc fl E mem (Obj t a) (load mem (a + ti_count_var ty) 2 @ load mem (a + ti_obj_addr ty) n) ({ti_count_var ty..<ti_count_var ty + 2} \<union> {ti_obj_addr ty..<ti_obj_addr ty + n}) 0"
| bytes_nil: "present E mem t a \<Longrightarrow> ty = ti_table E t \<Longrightarrow> ti_id ty = AOSL_TYPE_BYTES_WITH_NIL \<Longrightarrow> load mem (a + ti_obj_addr ty) (Suc (length str)) = str @ [0] \<Longrightarrow> 0 \<notin> set str \<Longrightarrow>
    Suc (length str) < 65536 \<Longrightarrow> Suc (length str) \<le> ti_array_size ty \<Longrightarrow> enc fl E mem (Obj t a) (str @ [0]) {ti_obj_addr ty..<ti_obj_addr ty + Suc (length str)} 0"
| dyn_bytes: "present E mem t a \<Longrightarrow> \<not> fl \<Longrightarrow> ty = ti_table E t \<Longrightarrow> ti_id ty = AOSL_TYPE_DYNAMIC_BYTES \<or> ti_id ty = AOSL_TYPE_DYNAMIC_STRING \<Longrightarrow> load_u16 mem (a + ti_obj_addr ty) = n \<Longrightarrow>
    enc fl E mem (Obj t a) (load mem (a + ti_obj_addr ty) 2 @ load mem (load_ptr mem (a + ti_obj_addr ty + DYN_VALUES)) n) {} (if n = 0 \<and> ti_id ty = AOSL_TYPE_DYNAMIC_BYTES then 0 else 1)"
| fixed_array: "present E mem t a \<Longrightarrow> ty = ti_table E t \<Longrightarrow> ti_id ty = AOSL_TYPE_FIXED_ARRAY \<Longrightarrow> has_size E (ti_child ty) sz \<Longrightarrow>
    enc fl E mem (Elems (ti_child ty) (a + ti_obj_addr ty) sz (ti_array_size ty) 0) bs R K \<Longrightarrow> enc fl E mem (Obj t a) bs ((+) (ti_obj_addr ty) ` R) K"
| var_array: "present E mem t a \<Longrightarrow> ty = ti_table E t \<Longrightarrow> ti_id ty = AOSL_TYPE_VAR_ARRAY \<Longrightarrow> has_size E (ti_child ty) sz \<Longrightarrow> load_u16 mem (a + ti_count_var ty) = n \<Longrightarrow> n \<le> ti_array_size ty \<Longrightarrow>
    enc fl E mem (Elems (ti_child ty) (a + ti_obj_addr ty) sz n 0) bs R K \<Longrightarrow>
    enc fl E mem (Obj t a) (load mem (a + ti_count_var ty) 2 @ bs) ({ti_count_var ty..<ti_count_var ty + 2} \<union> (+) (ti_obj_addr ty) ` R) K"
| dyn_empty: "present E mem t a \<Longrightarrow> \<not> fl \<Longrightarrow> ty = ti_table E t \<Longrightarrow> ti_id ty = AOSL_TYPE_DYNAMIC_ARRAY \<Longrightarrow> load_u16 mem (a + ti_obj_addr ty) = 0 \<Longrightarrow>
    enc fl E mem (Obj t a) (load mem (a + ti_obj_addr ty) 2) {} 0"
| dyn_array: "present E mem t a \<Longrightarrow> \<not> fl \<Longrightarrow> ty = ti_table E t \<Longrightarrow> ti_id ty = AOSL_TYPE_DYNAMIC_ARRAY \<Longrightarrow> load_u16 mem (a + ti_obj_addr ty) = n \<Longrightarrow> 0 < n \<Longrightarrow> has_size E (ti_child ty) sz \<Longrightarrow>
    enc fl E mem (Elems (ti_child ty) (load_ptr mem (a + ti_obj_addr ty + DYN_VALUES)) sz n 0) bs R K \<Longrightarrow> enc fl E mem (Obj t a) (load mem (a + ti_obj_addr ty) 2 @ bs) {} (Suc K)"
| fields_end: "ti_id (ti_table E t) = AOSL_TYPE_VOID \<Longrightarrow> enc fl E mem (Fields t a) [] {} 0"
| field: "ti_id (ti_table E t) \<noteq> AOSL_TYPE_VOID \<Longrightarrow> enc fl E mem (Obj t a) bs R K \<Longrightarrow> enc fl E mem (Fields (Suc t) a) bs' R' K' \<Longrightarrow> enc fl E mem (Fields t a) (bs @ bs') (R \<union> R') (K + K')"
| elems_end: "n \<le> i \<Longrightarrow> enc fl E mem (Elems t a sz n i) [] {} 0"
| elem: "i < n \<Longrightarrow> Suc i < 65536 \<Longrightarrow> enc fl E mem (Obj t (a + sz * i)) bs R K \<Longrightarrow> enc fl E mem (Elems t a sz n (Suc i)) bs' R' K' \<Longrightarrow>
    enc fl E mem (Elems t a sz n i) (bs @ bs') ((+) (sz * i) ` R \<union> R') (K + K')"

subsection \<open>Marshalling writes the encoding\<close>

definition writes :: "(chain \<Rightarrow> (int \<times> chain) exec) \<Rightarrow> bytes \<Rightarrow> bool" where
  "writes act bs \<longleftrightarrow> (\<forall>c. out_ok c \<longrightarrow> length bs \<le> room c \<longrightarrow>
     (\<exists>c'. act c = Ret (int (length bs), c') \<and> out_ok c' \<and> all_data c' = all_data c @ bs \<and> room c' = room c - length bs \<and> (tight c \<longrightarrow> tight c')))"

lemma length_load [simp]: "length (load mem a n) = n"
  by (simp add: load_def)

lemma writes_nil [simp]: "writes (\<lambda>c. Ret (0, c)) []"
  by (simp add: writes_def)

lemma writes_emit_base: "writes (emit_base bs) bs"
  using encode_base_ok encode_tight(2) by (fastforce simp: writes_def emit_base_def)

lemma writes_emit_bytes: "writes (emit_bytes bs) bs"
  using encode_bytes_ok encode_tight(1) by (fastforce simp: writes_def emit_bytes_def)

lemma writes_mseq:
  assumes f: "writes f bs" and g: "writes g bs'"
  shows "writes (\<lambda>c. mseq (f c) g) (bs @ bs')"
  unfolding writes_def
proof (intro allI impI)
  fix c assume ok: "out_ok c" and le: "length (bs @ bs') \<le> room c"
  then obtain c1 where c1: "f c = Ret (int (length bs), c1)" "out_ok c1" "all_data c1 = all_data c @ bs" "room c1 = room c - length bs" "tight c \<longrightarrow> tight c1" using f by (auto simp: writes_def)
  have "length bs' \<le> room c1" using le c1(4) by simp
  then obtain c2 where c2: "g c1 = Ret (int (length bs'), c2)" "out_ok c2" "all_data c2 = all_data c1 @ bs'" "room c2 = room c1 - length bs'" "tight c1 \<longrightarrow> tight c2" using g c1(2) by (auto simp: writes_def)
  show "\<exists>c'. mseq (f c) g = Ret (int (length (bs @ bs')), c') \<and> out_ok c' \<and> all_data c' = all_data c @ bs @ bs' \<and> room c' = room c - length (bs @ bs') \<and> (tight c \<longrightarrow> tight c')"
    using c1 c2 by (auto simp: mseq_def)
qed

lemma writes_obj:
  assumes "present E mem t a" and "writes (marshal_obj (marshal_job f E mem) f E mem t a) bs"
  shows "writes (marshal_job (Suc f) E mem (Obj t a)) bs"
  using assms by (fastforce simp: writes_def marshal_step_def Let_def present_def on_error_at_def)

lemma writes_Suc:
  assumes "present E mem t a" and "eventually (\<lambda>f. writes (marshal_obj (marshal_job f E mem) f E mem t a) bs) sequentially"
  shows "eventually (\<lambda>f. writes (marshal_job f E mem (Obj t a)) bs) sequentially"
  unfolding eventually_sequentially_Suc [symmetric, of "\<lambda>f. writes (marshal_job f E mem (Obj t a)) bs"]
  using assms(2) by eventually_elim (rule writes_obj [OF assms(1)])

text \<open>The length of a string is found with enough fuel.\<close>

lemma load_Suc: "load mem a (Suc n) = mem a # load mem (Suc a) n"
  by (simp add: load_def upt_conv_Cons map_Suc_upt [symmetric] del: upt_Suc)

lemma c_strlen_ok: "load mem a (Suc (length str)) = str @ [0] \<Longrightarrow> 0 \<notin> set str \<Longrightarrow> length str < f \<Longrightarrow> c_strlen f mem a = Ret (length str)"
proof (induction str arbitrary: a f)
  case Nil
  then show ?case by (cases f) (auto simp: load_Suc)
next
  case (Cons x str)
  then obtain f' where f: "f = Suc f'" by (cases f) auto
  from Cons.prems(1) have "mem a = x" "load mem (Suc a) (Suc (length str)) = str @ [0]" by (simp_all add: load_Suc [of mem a])
  then show ?case using Cons.IH [of "Suc a" f'] Cons.prems f by auto
qed

lemma eventually_c_strlen:
  assumes "load mem a (Suc (length str)) = str @ [0]" and "0 \<notin> set str"
  shows "eventually (\<lambda>f. c_strlen f mem a = Ret (length str)) sequentially"
  unfolding eventually_sequentially using c_strlen_ok [OF assms] by (intro exI [of _ "Suc (length str)"]) auto

text \<open>What one level of marshalling does on each kind of type.\<close>

lemma writes_pointer:
  assumes "ti_id (ti_table E t) = AOSL_TYPE_POINTER" and "junk_have E = 0" and "load_ptr mem (a + ti_obj_addr (ti_table E t)) = p" and "p \<noteq> 0" and "writes (rec (Obj (ti_child (ti_table E t)) p)) bs"
  shows "writes (marshal_obj rec f E mem t a) (1 # bs)"
proof -
  have "marshal_obj rec f E mem t a = (\<lambda>c. mseq (emit_base [1] c) (rec (Obj (ti_child (ti_table E t)) p)))"
    using assms(1-4) by (intro ext) (simp add: marshal_obj_def base_size_def marshal_bool_def)
  then show ?thesis using writes_mseq [OF writes_emit_base assms(5), of "[1]"] by simp
qed

lemma writes_null:
  assumes "ti_id (ti_table E t) = AOSL_TYPE_POINTER \<or> ti_id (ti_table E t) = AOSL_TYPE_STRING" and "junk_have E = 0" and "load_ptr mem (a + ti_obj_addr (ti_table E t)) = 0"
  shows "writes (marshal_obj rec f E mem t a) [0]"
proof -
  have "marshal_obj rec f E mem t a = (\<lambda>c. mseq (emit_base [0] c) (\<lambda>c. Ret (0, c)))"
    using assms by (intro ext) (auto simp: marshal_obj_def base_size_def marshal_bool_def)
  then show ?thesis using writes_mseq [OF writes_emit_base writes_nil, of "[0]"] by simp
qed

lemma writes_string:
  assumes "ti_id (ti_table E t) = AOSL_TYPE_STRING" and "junk_have E = 0" and "load_ptr mem (a + ti_obj_addr (ti_table E t)) = p" and "p \<noteq> 0"
    and "load mem p (Suc (length str)) = str @ [0]" and "Suc (length str) < 65536" and "c_strlen f mem p = Ret (length str)"
  shows "writes (marshal_obj rec f E mem t a) (1 # str @ [0])"
proof -
  have "marshal_obj rec f E mem t a = (\<lambda>c. mseq (emit_base [1] c) (emit_bytes (str @ [0])))"
    using assms by (intro ext) (simp add: marshal_obj_def base_size_def marshal_bool_def to_u16_def)
  then show ?thesis using writes_mseq [OF writes_emit_base writes_emit_bytes, of "[1]" "str @ [0]"] by simp
qed

lemma writes_dyn:
  assumes "ti_id (ti_table E t) = AOSL_TYPE_DYNAMIC_BYTES \<or> ti_id (ti_table E t) = AOSL_TYPE_DYNAMIC_STRING" and "load_u16 mem (a + ti_obj_addr (ti_table E t)) = n"
  shows "writes (marshal_obj rec f E mem t a) (load mem (a + ti_obj_addr (ti_table E t)) 2 @ load mem (load_ptr mem (a + ti_obj_addr (ti_table E t) + DYN_VALUES)) n)"
proof -
  let ?o = "a + ti_obj_addr (ti_table E t)"
  have "writes (\<lambda>c. if 0 < n then emit_bytes (load mem (load_ptr mem (?o + DYN_VALUES)) n) c else Ret (0, c)) (load mem (load_ptr mem (?o + DYN_VALUES)) n)"
  proof (cases "0 < n")
    case False
    then show ?thesis by (simp add: load_def)
  qed (simp add: writes_emit_bytes)
  moreover have "marshal_obj rec f E mem t a = (\<lambda>c. mseq (emit_base (load mem ?o 2) c) (\<lambda>c. if 0 < n then emit_bytes (load mem (load_ptr mem (?o + DYN_VALUES)) n) c else Ret (0, c)))"
    using assms by (intro ext) (auto simp: marshal_obj_def base_size_def marshal_dyn_def Let_def)
  ultimately show ?thesis using writes_mseq [OF writes_emit_base] by simp
qed

lemma writes_array:
  assumes "get_type_size f E (ti_child ty) = Ret (Some sz)" and "ty = ti_table E t"
  shows "ti_id ty = AOSL_TYPE_FIXED_ARRAY \<Longrightarrow> writes (rec (Elems (ti_child ty) (a + ti_obj_addr ty) sz (ti_array_size ty) 0)) bs \<Longrightarrow> writes (marshal_obj rec f E mem t a) bs"
    and "ti_id ty = AOSL_TYPE_VAR_ARRAY \<Longrightarrow> writes (rec (Elems (ti_child ty) (a + ti_obj_addr ty) sz (load_u16 mem (a + ti_count_var ty)) 0)) bs \<Longrightarrow>
      writes (marshal_obj rec f E mem t a) (load mem (a + ti_count_var ty) 2 @ bs)"
    and "ti_id ty = AOSL_TYPE_DYNAMIC_ARRAY \<Longrightarrow> load_u16 mem (a + ti_obj_addr ty) = n \<Longrightarrow> 0 < n \<Longrightarrow> writes (rec (Elems (ti_child ty) (load_ptr mem (a + ti_obj_addr ty + DYN_VALUES)) sz n 0)) bs \<Longrightarrow>
      writes (marshal_obj rec f E mem t a) (load mem (a + ti_obj_addr ty) 2 @ bs)"
proof -
  let ?o = "a + ti_obj_addr ty" and ?cnt = "a + ti_count_var ty"
  assume id: "ti_id ty = AOSL_TYPE_FIXED_ARRAY" and rec: "writes (rec (Elems (ti_child ty) ?o sz (ti_array_size ty) 0)) bs"
  have "marshal_obj rec f E mem t a = rec (Elems (ti_child ty) ?o sz (ti_array_size ty) 0)" using assms id by (intro ext) (simp add: marshal_obj_def base_size_def Let_def)
  then show "writes (marshal_obj rec f E mem t a) bs" using rec by simp
next
  let ?o = "a + ti_obj_addr ty" and ?cnt = "a + ti_count_var ty"
  assume id: "ti_id ty = AOSL_TYPE_VAR_ARRAY" and rec: "writes (rec (Elems (ti_child ty) ?o sz (load_u16 mem ?cnt) 0)) bs"
  have "marshal_obj rec f E mem t a = (\<lambda>c. mseq (emit_base (load mem ?cnt 2) c) (rec (Elems (ti_child ty) ?o sz (load_u16 mem ?cnt) 0)))"
    using assms id by (intro ext) (simp add: marshal_obj_def base_size_def Let_def)
  then show "writes (marshal_obj rec f E mem t a) (load mem ?cnt 2 @ bs)" using writes_mseq [OF writes_emit_base rec] by simp
next
  let ?o = "a + ti_obj_addr ty"
  assume id: "ti_id ty = AOSL_TYPE_DYNAMIC_ARRAY" "load_u16 mem ?o = n" "0 < n" and rec: "writes (rec (Elems (ti_child ty) (load_ptr mem (?o + DYN_VALUES)) sz n 0)) bs"
  have "marshal_obj rec f E mem t a = (\<lambda>c. mseq (emit_base (load mem ?o 2) c) (rec (Elems (ti_child ty) (load_ptr mem (?o + DYN_VALUES)) sz n 0)))"
    using assms id by (intro ext) (simp add: marshal_obj_def base_size_def Let_def)
  then show "writes (marshal_obj rec f E mem t a) (load mem ?o 2 @ bs)" using writes_mseq [OF writes_emit_base rec] by simp
qed

lemma writes_flat:
  assumes "ty = ti_table E t"
  shows "base_size (ti_id ty) = Some n \<Longrightarrow> writes (marshal_obj rec f E mem t a) (load mem (a + ti_obj_addr ty) n)"
    and "ti_id ty = AOSL_TYPE_VOID \<Longrightarrow> writes (marshal_obj rec f E mem t a) []"
    and "ti_id ty = AOSL_TYPE_FIXED_BYTES \<Longrightarrow> writes (marshal_obj rec f E mem t a) (load mem (a + ti_obj_addr ty) (ti_array_size ty))"
    and "ti_id ty = AOSL_TYPE_VAR_BYTES \<Longrightarrow> load_u16 mem (a + ti_count_var ty) = n \<Longrightarrow> writes (marshal_obj rec f E mem t a) (load mem (a + ti_count_var ty) 2 @ load mem (a + ti_obj_addr ty) n)"
    and "ti_id ty = AOSL_TYPE_BYTES_WITH_NIL \<Longrightarrow> load mem (a + ti_obj_addr ty) (Suc (length str)) = str @ [0] \<Longrightarrow> c_strlen f mem (a + ti_obj_addr ty) = Ret (length str) \<Longrightarrow> Suc (length str) < 65536 \<Longrightarrow>
      Suc (length str) \<le> ti_array_size ty \<Longrightarrow> writes (marshal_obj rec f E mem t a) (str @ [0])"
    and "ti_id ty = AOSL_TYPE_DYNAMIC_ARRAY \<Longrightarrow> load_u16 mem (a + ti_obj_addr ty) = 0 \<Longrightarrow> writes (marshal_obj rec f E mem t a) (load mem (a + ti_obj_addr ty) 2)"
  using assms writes_emit_base [of "load mem (a + ti_obj_addr ty) n"] writes_emit_bytes [of "load mem (a + ti_obj_addr ty) (ti_array_size ty)"]
    writes_mseq [OF writes_emit_base writes_emit_bytes, of "load mem (a + ti_count_var ty) 2" "load mem (a + ti_obj_addr ty) n"] writes_emit_bytes [of "str @ [0]"]
    writes_mseq [OF writes_emit_base writes_nil, of "load mem (a + ti_obj_addr ty) 2"]
  by (simp_all add: marshal_obj_def [abs_def] base_size_def to_u16_def Let_def)

lemma marshal_job_Suc: "marshal_job (Suc f) E mem j = marshal_step (marshal_job f E mem) f E mem j"
  by (intro ext) simp

text \<open>By induction on the encoding.\<close>

lemma marshal_writes:
  assumes helper: "fl \<or> junk_have E = 0"
  shows "enc fl E mem j bs R K \<Longrightarrow> eventually (\<lambda>f. writes (marshal_job f E mem j) bs) sequentially"
proof (induction rule: enc.induct)
  case (absent t a)
  have "writes (marshal_job (Suc f) E mem (Obj t a)) []" for f using absent by (auto simp: writes_def marshal_step_def present_def)
  then show ?case unfolding eventually_sequentially_Suc [symmetric, of "\<lambda>f. writes (marshal_job f E mem (Obj t a)) []"] by simp
next
  case (base t a ty n)
  show ?case by (rule writes_Suc [OF base(1)]) (simp add: writes_flat(1) [OF base(2,3)])
next
  case (void t a)
  show ?case by (rule writes_Suc [OF void(1)]) (simp add: writes_flat(2) [OF refl void(2)])
next
  case (null t a ty)
  show ?case using null helper by (intro writes_Suc [OF null(1)]) (simp add: writes_null)
next
  case (pointer t a ty p sz bs R K)
  show ?case by (rule writes_Suc [OF pointer(1)], use pointer.IH in eventually_elim) (use pointer helper in \<open>simp add: writes_pointer\<close>)
next
  case (reference t a ty bs R K)
  have "marshal_obj (marshal_job f E mem) f E mem t a = marshal_job f E mem (Obj (ti_child ty) (a + ti_obj_addr ty))" for f using reference by (intro ext) (simp add: marshal_obj_def base_size_def Let_def)
  then show ?case using reference by (intro writes_Suc [OF reference(1)]) simp
next
  case (string t a ty p str)
  show ?case by (rule writes_Suc [OF string(1)], use eventually_c_strlen [OF string(7,8)] in eventually_elim) (use string helper in \<open>simp add: writes_string\<close>)
next
  case (struct t a ty bs R K)
  have "marshal_obj (marshal_job f E mem) f E mem t a = marshal_job f E mem (Fields (ti_child ty) (a + ti_obj_addr ty))" for f using struct by (intro ext) (simp add: marshal_obj_def base_size_def Let_def)
  then show ?case using struct by (intro writes_Suc [OF struct(1)]) simp
next
  case (fixed_bytes t a ty)
  show ?case by (rule writes_Suc [OF fixed_bytes(1)]) (simp add: writes_flat(3) [OF fixed_bytes(2,3)])
next
  case (var_bytes t a ty n)
  show ?case by (rule writes_Suc [OF var_bytes(1)]) (simp add: writes_flat(4) [OF var_bytes(2,3,4)])
next
  case (bytes_nil t a ty str)
  show ?case by (rule writes_Suc [OF bytes_nil(1)], use eventually_c_strlen [OF bytes_nil(4,5)] in eventually_elim) (use bytes_nil in \<open>simp add: writes_flat(5)\<close>)
next
  case (dyn_bytes t a ty n)
  show ?case using dyn_bytes by (intro writes_Suc [OF dyn_bytes(1)]) (simp add: writes_dyn)
next
  case (fixed_array t a ty sz bs R K)
  show ?case by (rule writes_Suc [OF fixed_array(1)], use fixed_array.IH fixed_array(4) [unfolded has_size_def] in eventually_elim) (use fixed_array in \<open>simp add: writes_array(1)\<close>)
next
  case (var_array t a ty sz n bs R K)
  show ?case by (rule writes_Suc [OF var_array(1)], use var_array.IH var_array(4) [unfolded has_size_def] in eventually_elim) (use var_array in \<open>simp add: writes_array(2)\<close>)
next
  case (dyn_empty t a ty)
  show ?case by (rule writes_Suc [OF dyn_empty(1)]) (simp add: writes_flat(6) [OF dyn_empty(3,4,5)])
next
  case (dyn_array t a ty n sz bs R K)
  show ?case by (rule writes_Suc [OF dyn_array(1)], use dyn_array.IH dyn_array(7) [unfolded has_size_def] in eventually_elim) (use dyn_array in \<open>simp add: writes_array(3)\<close>)
next
  case (fields_end t a)
  have "writes (marshal_job (Suc f) E mem (Fields t a)) []" for f using fields_end by (simp add: marshal_job_Suc marshal_step_def [abs_def])
  then show ?case unfolding eventually_sequentially_Suc [symmetric, of "\<lambda>f. writes (marshal_job f E mem (Fields t a)) []"] by simp
next
  case (field t a bs R K bs' R' K')
  show ?case unfolding eventually_sequentially_Suc [symmetric, of "\<lambda>f. writes (marshal_job f E mem (Fields t a)) (bs @ bs')"] using field.IH
    by eventually_elim (use field(1) in \<open>simp add: marshal_job_Suc marshal_step_def [abs_def] writes_mseq\<close>)
next
  case (elems_end n i t a sz)
  have "writes (marshal_job (Suc f) E mem (Elems t a sz n i)) []" for f using elems_end by (simp add: marshal_job_Suc marshal_step_def [abs_def])
  then show ?case unfolding eventually_sequentially_Suc [symmetric, of "\<lambda>f. writes (marshal_job f E mem (Elems t a sz n i)) []"] by simp
next
  case (elem i n t a sz bs R K bs' R' K')
  show ?case unfolding eventually_sequentially_Suc [symmetric, of "\<lambda>f. writes (marshal_job f E mem (Elems t a sz n i)) (bs @ bs')"] using elem.IH
    by eventually_elim (use elem(1,2) in \<open>simp add: marshal_job_Suc marshal_step_def [abs_def] writes_mseq to_u16_def\<close>)
qed


subsection \<open>Copies\<close>

text \<open>From \<open>m\<close> to \<open>m'\<close> every change at \<open>dst\<close> is a byte of the object at \<open>a\<close>, and the offsets \<open>R\<close> are copied.\<close>

definition copies :: "memory \<Rightarrow> nat \<Rightarrow> nat \<Rightarrow> nat set \<Rightarrow> memory \<Rightarrow> memory \<Rightarrow> bool" where
  "copies mem a dst R m m' \<longleftrightarrow> (\<forall>z. m' z = m z \<or> (\<exists>x. z = dst + x \<and> m' z = mem (a + x))) \<and> (\<forall>x \<in> R. m' (dst + x) = mem (a + x))"

lemma copies_refl [simp]: "copies mem a dst {} m m"
  by (simp add: copies_def)

lemma copies_trans: "copies mem a dst R m m1 \<Longrightarrow> copies mem a dst R' m1 m2 \<Longrightarrow> copies mem a dst (R \<union> R') m m2"
  unfolding copies_def by (metis Un_iff add_left_cancel)

lemma copies_shift: "copies mem (a + off) (dst + off) R m m' \<Longrightarrow> copies mem a dst ((+) off ` R) m m'"
  by (auto simp: copies_def add.assoc)

lemma load_nth [simp]: "i < n \<Longrightarrow> load mem a n ! i = mem (a + i)"
  by (simp add: load_def)

lemma copies_put: "copies mem a dst {off..<off + n} m (put_at (dst + off) (load mem (a + off) n) m)"
proof -
  have "put_at (dst + off) (load mem (a + off) n) m z = m z \<or> (\<exists>x. z = dst + x \<and> put_at (dst + off) (load mem (a + off) n) m z = mem (a + x))" for z
  proof (cases "dst + off \<le> z \<and> z < dst + off + n")
    case True
    then have "z = dst + (z - dst)" "a + off + (z - (dst + off)) = a + (z - dst)" "z - (dst + off) < n" by auto
    then show ?thesis using True by (intro disjI2 exI [of _ "z - dst"]) (auto simp: put_at_def)
  qed (auto simp: put_at_def)
  moreover have "put_at (dst + off) (load mem (a + off) n) m (dst + x) = mem (a + x)" if "x \<in> {off..<off + n}" for x
    using that by (auto simp: put_at_def intro!: arg_cong [of _ _ mem])
  ultimately show ?thesis by (auto simp: copies_def)
qed

subsection \<open>Unmarshalling reads the encoding\<close>

definition reads :: "(umem \<Rightarrow> chain \<Rightarrow> uresult) \<Rightarrow> bytes \<Rightarrow> nat \<Rightarrow> (memory \<Rightarrow> memory \<Rightarrow> bool) \<Rightarrow> bool" where
  "reads act bs K Q \<longleftrightarrow> (\<forall>s c ps qs rest. in_ok c \<longrightarrow> stream c = bs @ rest \<longrightarrow> um_pool s = map Some ps @ qs \<longrightarrow> K \<le> length ps \<longrightarrow> 0 \<notin> set ps \<longrightarrow>
     (\<exists>s' c'. act s c = Ret (int (length bs), s', c') \<and> in_ok c' \<and> stream c' = rest \<and> um_pool s' = map Some (drop K ps) @ qs \<and> Q (um_bytes s) (um_bytes s')))"

lemma readsI:
  assumes "\<And>s c ps qs rest. in_ok c \<Longrightarrow> stream c = bs @ rest \<Longrightarrow> um_pool s = map Some ps @ qs \<Longrightarrow> K \<le> length ps \<Longrightarrow> 0 \<notin> set ps \<Longrightarrow>
    \<exists>s' c'. act s c = Ret (int (length bs), s', c') \<and> in_ok c' \<and> stream c' = rest \<and> um_pool s' = map Some (drop K ps) @ qs \<and> Q (um_bytes s) (um_bytes s')"
  shows "reads act bs K Q"
  using assms by (simp add: reads_def)

lemma readsD:
  assumes "reads act bs K Q" and "in_ok c" and "stream c = bs @ rest" and "um_pool s = map Some ps @ qs" and "K \<le> length ps" and "0 \<notin> set ps"
  obtains s' c' where "act s c = Ret (int (length bs), s', c')" "in_ok c'" "stream c' = rest" "um_pool s' = map Some (drop K ps) @ qs" "Q (um_bytes s) (um_bytes s')"
  using assms unfolding reads_def by metis

lemma reads_weaken: "reads act bs K Q \<Longrightarrow> (\<And>m m'. Q m m' \<Longrightarrow> Q' m m') \<Longrightarrow> reads act bs K Q'"
  unfolding reads_def by metis

lemma reads_nil: "Q = (\<lambda>m m'. m' = m) \<Longrightarrow> reads (\<lambda>s c. Ret (0, s, c)) [] 0 Q"
  by (simp add: reads_def)

lemma reads_useq:
  assumes f: "reads f bs K Q" and g: "reads g bs' K' Q'"
  shows "reads (\<lambda>s c. useq (f s c) g) (bs @ bs') (K + K') (\<lambda>m m'. \<exists>m1. Q m m1 \<and> Q' m1 m')"
proof (rule readsI)
  fix s :: umem and c :: chain and ps qs rest assume c: "in_ok c" "stream c = (bs @ bs') @ rest" "um_pool s = map Some ps @ qs" "K + K' \<le> length ps" "0 \<notin> set ps"
  have "stream c = bs @ (bs' @ rest)" "K \<le> length ps" using c by simp_all
  from readsD [OF f c(1) this(1) c(3) this(2) c(5)] obtain s1 c1 where 1: "f s c = Ret (int (length bs), s1, c1)" "in_ok c1" "stream c1 = bs' @ rest" "um_pool s1 = map Some (drop K ps) @ qs"
    "Q (um_bytes s) (um_bytes s1)" by metis
  have "K' \<le> length (drop K ps)" "0 \<notin> set (drop K ps)" using c(4,5) by (auto dest: in_set_dropD)
  from readsD [OF g 1(2,3,4) this] obtain s2 c2 where 2: "g s1 c1 = Ret (int (length bs'), s2, c2)" "in_ok c2" "stream c2 = rest" "um_pool s2 = map Some (drop K' (drop K ps)) @ qs"
    "Q' (um_bytes s1) (um_bytes s2)" by metis
  show "\<exists>s' c'. useq (f s c) g = Ret (int (length (bs @ bs')), s', c') \<and> in_ok c' \<and> stream c' = rest \<and> um_pool s' = map Some (drop (K + K') ps) @ qs \<and> (\<exists>m1. Q (um_bytes s) m1 \<and> Q' m1 (um_bytes s'))"
    using 1 2 by (auto simp: useq_def add.commute)
qed

lemma reads_base_dep:
  assumes g: "reads k0 bs' K Q" and k: "\<And>s c. k s c bs = k0"
  shows "reads (\<lambda>s c. read_base (length bs) s c (k s c)) (bs @ bs') K Q"
proof (rule readsI)
  fix s :: umem and c :: chain and ps qs rest assume c: "in_ok c" "stream c = (bs @ bs') @ rest" "um_pool s = map Some ps @ qs" "K \<le> length ps" "0 \<notin> set ps"
  have "length bs \<le> length (stream c)" using c(2) by simp
  from decode_base_ok [OF c(1) this] obtain c1 where c1: "decode_base (length bs) c = (bs, 0, c1)" "in_ok c1" "stream c1 = bs' @ rest" using c(2) by auto
  from readsD [OF g c1(2,3) c(3-5)] obtain s2 c2 where "k s c bs s c1 = Ret (int (length bs'), s2, c2)" "in_ok c2" "stream c2 = rest" "um_pool s2 = map Some (drop K ps) @ qs"
    "Q (um_bytes s) (um_bytes s2)" unfolding k by metis
  then show "\<exists>s' c'. read_base (length bs) s c (k s c) = Ret (int (length (bs @ bs')), s', c') \<and> in_ok c' \<and> stream c' = rest \<and> um_pool s' = map Some (drop K ps) @ qs \<and> Q (um_bytes s) (um_bytes s')"
    using c1 by (auto simp: read_base_def useq_def)
qed

lemma reads_base: "reads (k bs) bs' K Q \<Longrightarrow> reads (\<lambda>s c. read_base (length bs) s c k) (bs @ bs') K Q"
  by (rule reads_base_dep) simp_all

lemma reads_into: "reads (read_into a (length bs)) bs 0 (\<lambda>m m'. m' = put_at a bs m)"
proof (rule readsI)
  fix s :: umem and c :: chain and ps qs rest assume c: "in_ok c" "stream c = bs @ rest" "um_pool s = map Some ps @ qs"
  have "length bs \<le> length (stream c)" using c(2) by simp
  from decode_bytes_ok [OF c(1) this] obtain c1 where "decode_bytes (length bs) c = (bs, 0, c1)" "in_ok c1" "stream c1 = rest" using c(2) by auto
  then show "\<exists>s' c'. read_into a (length bs) s c = Ret (int (length bs), s', c') \<and> in_ok c' \<and> stream c' = rest \<and> um_pool s' = map Some (drop 0 ps) @ qs \<and> um_bytes s' = put_at a bs (um_bytes s)"
    using c by (auto simp: read_into_def store_def)
qed

text \<open>A store before a read, and an allocation before a read.\<close>

lemma reads_store:
  assumes "reads act bs K Q"
  shows "reads (\<lambda>s c. act (store a xs s) c) bs K (\<lambda>m m'. Q (put_at a xs m) m')"
proof (rule readsI)
  fix s :: umem and c :: chain and ps qs rest assume c: "in_ok c" "stream c = bs @ rest" "um_pool s = map Some ps @ qs" "K \<le> length ps" "0 \<notin> set ps"
  have "um_pool (store a xs s) = map Some ps @ qs" using c(3) by (simp add: store_def)
  from readsD [OF assms c(1,2) this c(4,5)] show "\<exists>s' c'. act (store a xs s) c = Ret (int (length bs), s', c') \<and> in_ok c' \<and> stream c' = rest \<and> um_pool s' = map Some (drop K ps) @ qs \<and>
      Q (put_at a xs (um_bytes s)) (um_bytes s')" by (metis store_def umem.select_convs(1) umem.simps(6) umem.surjective umem.update_convs(1))
qed

lemma reads_malloc:
  assumes "\<And>p. p \<noteq> 0 \<Longrightarrow> reads (act p) bs K (\<lambda>m m'. True)"
  shows "reads (\<lambda>s c. case um_malloc sz s of (p, s) \<Rightarrow> if p = 0 then bad s c else act p s c) bs (Suc K) (\<lambda>m m'. True)"
proof (rule readsI)
  fix s :: umem and c :: chain and ps qs rest assume c: "in_ok c" "stream c = bs @ rest" "um_pool s = map Some ps @ qs" "Suc K \<le> length ps" "0 \<notin> set ps"
  then obtain p ps' where ps: "ps = p # ps'" by (cases ps) auto
  let ?s = "s\<lparr>um_pool := map Some ps' @ qs, um_blocks := um_blocks s @ [(p, sz)]\<rparr>"
  have pool: "um_pool ?s = map Some ps' @ qs" and p: "p \<noteq> 0" "K \<le> length ps'" "0 \<notin> set ps'" using c ps by auto
  from readsD [OF assms [OF p(1)] c(1,2) pool p(2,3)] obtain s' c' where "act p ?s c = Ret (int (length bs), s', c')" "in_ok c'" "stream c' = rest" "um_pool s' = map Some (drop K ps') @ qs" by metis
  then show "\<exists>s' c'. (case um_malloc sz s of (p, s) \<Rightarrow> if p = 0 then bad s c else act p s c) = Ret (int (length bs), s', c') \<and> in_ok c' \<and> stream c' = rest \<and> um_pool s' = map Some (drop (Suc K) ps) @ qs \<and> True"
    using c(3) ps p(1) by (simp add: um_malloc_def)
qed


lemma reads_strsize:
  assumes str: "0 \<notin> set str" and k: "reads (k (int (length str) + 1)) (str @ [0]) K Q"
  shows "reads (\<lambda>s c. ebind (SAFE_STRSIZE c) (\<lambda>l. k l s c)) (str @ [0]) K Q"
proof (rule readsI)
  fix s :: umem and c :: chain and ps qs rest assume c: "in_ok c" "stream c = (str @ [0]) @ rest" "um_pool s = map Some ps @ qs" "K \<le> length ps" "0 \<notin> set ps"
  have "SAFE_STRSIZE c = Ret (int (length str) + 1)" using SAFE_STRSIZE_ok [OF c(1) _ str] c(2) by simp
  then show "\<exists>s' c'. ebind (SAFE_STRSIZE c) (\<lambda>l. k l s c) = Ret (int (length (str @ [0])), s', c') \<and> in_ok c' \<and> stream c' = rest \<and> um_pool s' = map Some (drop K ps) @ qs \<and> Q (um_bytes s) (um_bytes s')"
    using readsD [OF k c] by simp metis
qed

lemma reads_ret_store: "reads (\<lambda>s c. Ret (0, store a xs s, c)) [] 0 (\<lambda>m m'. m' = put_at a xs m)"
  using reads_store [OF reads_nil [OF refl], of a xs] by simp

abbreviation any :: "memory \<Rightarrow> memory \<Rightarrow> bool" where "any \<equiv> \<lambda>m m'. True"

lemma reads_any: "reads act bs K Q \<Longrightarrow> reads act bs K any"
  by (rule reads_weaken) simp_all

lemma reads_bool_dep:
  assumes "junk_have E = 0" and "reads k0 bs K Q" and "\<And>s c. k s c (b \<noteq> 0) = k0"
  shows "reads (\<lambda>s c. read_bool E s c (k s c)) (b # bs) K Q"
  using reads_base_dep [of k0 bs K Q "\<lambda>s c xs. k s c (hd xs \<noteq> 0)" "[b]"] assms by (simp add: read_bool_def)

lemma reads_bool: "junk_have E = 0 \<Longrightarrow> reads (k (b \<noteq> 0)) bs K Q \<Longrightarrow> reads (\<lambda>s c. read_bool E s c k) (b # bs) K Q"
  by (rule reads_bool_dep) simp_all

lemma le_nat_load [simp]: "le_nat (load mem a 2) = load_u16 mem a"
  by (simp add: load_u16_def)

lemma reads_load2:
  assumes "reads (k (load mem a 2)) bs K Q"
  shows "reads (\<lambda>s c. read_base 2 s c k) (load mem a 2 @ bs) K Q"
  using reads_base [of k "load mem a 2", OF assms] by simp

text \<open>What one level of unmarshalling does on each kind of type.\<close>

lemma reads_pointer:
  assumes "ti_id (ti_table E t) = AOSL_TYPE_POINTER" and "junk_have E = 0" and "get_type_size f E (ti_child (ti_table E t)) = Ret (Some sz)"
    and rec: "\<And>p. reads (rec (Obj (ti_child (ti_table E t)) p)) bs K any"
  shows "reads (unmarshal_obj rec f E t dst) (1 # bs) (Suc K) any"
proof -
  let ?o = "dst + ti_obj_addr (ti_table E t)" and ?child = "ti_child (ti_table E t)"
  have body: "reads (\<lambda>s c. case um_malloc sz s of (p, s) \<Rightarrow> if p = 0 then Ret (- AOSL_ENOMEM, s, c) else rec (Obj ?child p) (store ?o (le_bytes 8 p) s) c) bs (Suc K) any"
    by (rule reads_malloc) (rule reads_any [OF reads_store [OF rec]])
  have "unmarshal_obj rec f E t dst = (\<lambda>s c. read_bool E s c (\<lambda>b s c. if b then case um_malloc sz s of (p, s) \<Rightarrow> if p = 0 then Ret (- AOSL_ENOMEM, s, c) else rec (Obj ?child p) (store ?o (le_bytes 8 p) s) c
      else Ret (0, store ?o (le_bytes 8 0) s, c)))"
    using assms(1-3) by (intro ext) (simp add: unmarshal_obj_def base_size_def Let_def cong: if_cong)
  then show ?thesis using assms(2) body by (simp add: reads_bool)
qed

lemma reads_null:
  assumes "ti_id (ti_table E t) = AOSL_TYPE_POINTER \<or> ti_id (ti_table E t) = AOSL_TYPE_STRING" and "junk_have E = 0"
  shows "reads (unmarshal_obj rec f E t dst) [0] 0 any"
proof -
  let ?o = "dst + ti_obj_addr (ti_table E t)"
  obtain k where "unmarshal_obj rec f E t dst = (\<lambda>s c. read_bool E s c (k s c))" "\<And>s c. k s c False = (\<lambda>s c. Ret (0, store ?o (le_bytes 8 0) s, c))"
    using assms(1) by (auto simp: unmarshal_obj_def [abs_def] base_size_def Let_def)
  then show ?thesis using reads_bool_dep [OF assms(2) reads_any [OF reads_ret_store], of k 0] by simp
qed

lemma reads_string:
  assumes "ti_id (ti_table E t) = AOSL_TYPE_STRING" and "junk_have E = 0" and "0 \<notin> set str" and "Suc (length str) < 65536"
  shows "reads (unmarshal_obj rec f E t dst) (1 # str @ [0]) 1 any"
proof -
  let ?o = "dst + ti_obj_addr (ti_table E t)"
  let ?k = "\<lambda>l s c. if l < 0 then Ret (l, s, c) else case um_malloc (to_u16 (nat l)) s of (p, s) \<Rightarrow> if p = 0 then Ret (- AOSL_ENOMEM, s, c) else read_into p (to_u16 (nat l)) (store ?o (le_bytes 8 p) s) c"
  have n: "to_u16 (nat (int (length str) + 1)) = length (str @ [0])" using assms(4) by (simp add: to_u16_def nat_add_distrib)
  have "reads (\<lambda>s c. case um_malloc (length (str @ [0])) s of (p, s) \<Rightarrow> if p = 0 then Ret (- AOSL_ENOMEM, s, c) else read_into p (length (str @ [0])) (store ?o (le_bytes 8 p) s) c) (str @ [0]) (Suc 0) any"
    by (rule reads_malloc) (rule reads_any [OF reads_store [OF reads_into]])
  then have k: "reads (?k (int (length str) + 1)) (str @ [0]) (Suc 0) any" using n by (simp cong: prod.case_cong if_cong)
  from reads_bool [OF assms(2), of "\<lambda>b s c. if b then ebind (SAFE_STRSIZE c) (\<lambda>l. ?k l s c) else Ret (0, store ?o (le_bytes 8 0) s, c)" 1] reads_strsize [where k = ?k, OF assms(3) k]
  have "reads (\<lambda>s c. read_bool E s c (\<lambda>b s c. if b then ebind (SAFE_STRSIZE c) (\<lambda>l. ?k l s c) else Ret (0, store ?o (le_bytes 8 0) s, c))) (1 # str @ [0]) 1 any" by simp
  moreover have "unmarshal_obj rec f E t dst = (\<lambda>s c. read_bool E s c (\<lambda>b s c. if b then ebind (SAFE_STRSIZE c) (\<lambda>l. ?k l s c) else Ret (0, store ?o (le_bytes 8 0) s, c)))"
    using assms(1) by (intro ext) (simp add: unmarshal_obj_def base_size_def Let_def cong: if_cong)
  ultimately show ?thesis by simp
qed

lemma um_pool_set_dyn [simp]: "um_pool (set_dyn a n k s) = um_pool s"
  by (simp add: set_dyn_def store_def)

lemma reads_set_dyn: "reads act bs K any \<Longrightarrow> reads (\<lambda>s c. act (set_dyn a n k s) c) bs K any"
  unfolding set_dyn_def by (rule reads_any, rule reads_store, rule reads_any, rule reads_store)

lemma reads_dyn:
  assumes "ti_id (ti_table E t) = AOSL_TYPE_DYNAMIC_BYTES \<or> ti_id (ti_table E t) = AOSL_TYPE_DYNAMIC_STRING" and n: "load_u16 mem a = length bs"
  shows "reads (unmarshal_obj rec f E t dst) (load mem a 2 @ bs) (if length bs = 0 \<and> ti_id (ti_table E t) = AOSL_TYPE_DYNAMIC_BYTES then 0 else 1) any"
proof -
  let ?o = "dst + ti_obj_addr (ti_table E t)" and ?n = "length bs"
  define extra :: nat where "extra = (if ti_id (ti_table E t) = AOSL_TYPE_DYNAMIC_BYTES then 0 else 1)"
  have obj: "unmarshal_obj rec f E t dst = unmarshal_dyn extra ?o" using assms(1) by (intro ext) (auto simp: unmarshal_obj_def base_size_def Let_def extra_def)
  let ?get = "\<lambda>p s c. if 0 < ?n then read_into p ?n (store (?o + DYN_VALUES) (le_bytes 8 p) s) c else Ret (0, store (?o + DYN_VALUES) (le_bytes 8 p) s, c)"
  let ?stop = "\<lambda>p s c. Ret (0 :: int, if extra = 1 then store (p + ?n) [0] s else s, c)"
  have get: "reads (?get p) bs 0 any" for p
  proof (cases "0 < ?n")
    case True
    then show ?thesis using reads_any [OF reads_store [OF reads_into, of p bs "?o + DYN_VALUES" "le_bytes 8 p"]] by simp
  next
    case False
    then show ?thesis using reads_any [OF reads_ret_store, of "?o + DYN_VALUES" "le_bytes 8 p"] by simp
  qed
  have fin: "reads (?stop p) [] 0 any" for p using reads_any [OF reads_ret_store, of "p + ?n" "[0]"] reads_any [OF reads_nil [OF refl]] by (cases "extra = 1") simp_all
  have "reads (\<lambda>s c. useq (?get p s c) (?stop p)) (bs @ []) (0 + 0) any" for p by (rule reads_any [OF reads_useq [OF get fin]])
  then have "reads (\<lambda>s c. case um_malloc (?n + extra) s of (p, s) \<Rightarrow> if p = 0 then Ret (- AOSL_ENOMEM, set_dyn ?o 0 0 s, c) else useq (?get p s c) (?stop p)) bs (Suc 0) any"
    by (intro reads_malloc) simp
  moreover have "reads (\<lambda>s c. Ret (0, s, c)) bs 0 any" if "\<not> 0 < ?n + extra" using that reads_any [OF reads_nil [OF refl]] by simp
  ultimately have "reads (\<lambda>s c. if 0 < ?n + extra then case um_malloc (?n + extra) s of (p, s) \<Rightarrow> if p = 0 then Ret (- AOSL_ENOMEM, set_dyn ?o 0 0 s, c) else useq (?get p s c) (?stop p) else Ret (0, s, c))
    bs (if 0 < ?n + extra then Suc 0 else 0) any" by (cases "0 < ?n + extra") (simp_all only: if_True if_False simp_thms)
  from reads_set_dyn [OF this, of ?o ?n "to_u16 (?n + extra)"] have "reads (unmarshal_dyn extra ?o) (load mem a 2 @ bs) (if 0 < ?n + extra then Suc 0 else 0) any"
    unfolding unmarshal_dyn_def by (intro reads_load2) (simp only: n le_nat_load Let_def)
  then show ?thesis using assms(1) by (auto simp: obj extra_def)
qed

lemma reads_array:
  assumes "get_type_size f E (ti_child ty) = Ret (Some sz)" and "ty = ti_table E t"
  shows "ti_id ty = AOSL_TYPE_FIXED_ARRAY \<Longrightarrow> reads (rec (Elems (ti_child ty) (dst + ti_obj_addr ty) sz (ti_array_size ty) 0)) bs K Q \<Longrightarrow> reads (unmarshal_obj rec f E t dst) bs K Q"
    and "ti_id ty = AOSL_TYPE_VAR_ARRAY \<Longrightarrow> load_u16 mem a \<le> ti_array_size ty \<Longrightarrow> reads (rec (Elems (ti_child ty) (dst + ti_obj_addr ty) sz (load_u16 mem a) 0)) bs K Q \<Longrightarrow>
      reads (unmarshal_obj rec f E t dst) (load mem a 2 @ bs) K (\<lambda>m m'. Q (put_at (dst + ti_count_var ty) (load mem a 2) m) m')"
    and "ti_id ty = AOSL_TYPE_DYNAMIC_ARRAY \<Longrightarrow> load_u16 mem a = n \<Longrightarrow> 0 < n \<Longrightarrow> (\<And>p. reads (rec (Elems (ti_child ty) p sz n 0)) bs K any) \<Longrightarrow>
      reads (unmarshal_obj rec f E t dst) (load mem a 2 @ bs) (Suc K) any"
proof -
  assume id: "ti_id ty = AOSL_TYPE_FIXED_ARRAY" and rec: "reads (rec (Elems (ti_child ty) (dst + ti_obj_addr ty) sz (ti_array_size ty) 0)) bs K Q"
  have "unmarshal_obj rec f E t dst = rec (Elems (ti_child ty) (dst + ti_obj_addr ty) sz (ti_array_size ty) 0)" using assms id by (intro ext) (simp add: unmarshal_obj_def base_size_def Let_def)
  then show "reads (unmarshal_obj rec f E t dst) bs K Q" using rec by simp
next
  assume id: "ti_id ty = AOSL_TYPE_VAR_ARRAY" and le: "load_u16 mem a \<le> ti_array_size ty" and rec: "reads (rec (Elems (ti_child ty) (dst + ti_obj_addr ty) sz (load_u16 mem a) 0)) bs K Q"
  have "unmarshal_obj rec f E t dst = (\<lambda>s c. read_base 2 s c (\<lambda>bs s c. if ti_array_size ty < le_nat bs then Ret (- AOSL_ENOSPC, s, c)
      else rec (Elems (ti_child ty) (dst + ti_obj_addr ty) sz (le_nat bs) 0) (store (dst + ti_count_var ty) bs s) c))"
    using assms id by (intro ext) (simp add: unmarshal_obj_def base_size_def Let_def cong: if_cong)
  then show "reads (unmarshal_obj rec f E t dst) (load mem a 2 @ bs) K (\<lambda>m m'. Q (put_at (dst + ti_count_var ty) (load mem a 2) m) m')"
    using reads_store [OF rec] le by (simp add: reads_load2)
next
  let ?o = "dst + ti_obj_addr ty"
  assume id: "ti_id ty = AOSL_TYPE_DYNAMIC_ARRAY" and n: "load_u16 mem a = n" "0 < n" and rec: "\<And>p. reads (rec (Elems (ti_child ty) p sz n 0)) bs K any"
  have "reads (\<lambda>s c. case um_malloc (sz * n) s of (p, s) \<Rightarrow> if p = 0 then Ret (- AOSL_ENOMEM, set_dyn ?o 0 0 s, c) else rec (Elems (ti_child ty) p sz n 0) (store (?o + DYN_VALUES) (le_bytes 8 p) s) c) bs (Suc K) any"
    by (rule reads_malloc) (rule reads_any [OF reads_store [OF rec]])
  note alloc = reads_set_dyn [OF this, of ?o n n]
  have "unmarshal_obj rec f E t dst = (\<lambda>s c. read_base 2 s c (\<lambda>bs s c. let val = le_nat bs; s = set_dyn ?o val val s in
      if 0 < val then case um_malloc (sz * val) s of (p, s) \<Rightarrow> if p = 0 then Ret (- AOSL_ENOMEM, set_dyn ?o 0 0 s, c) else rec (Elems (ti_child ty) p sz val 0) (store (?o + DYN_VALUES) (le_bytes 8 p) s) c
      else Ret (0, s, c)))"
    using assms id by (intro ext) (simp add: unmarshal_obj_def base_size_def Let_def cong: if_cong)
  then show "reads (unmarshal_obj rec f E t dst) (load mem a 2 @ bs) (Suc K) any" using alloc n by (simp add: reads_load2)
qed


lemma reads_flat:
  assumes "ty = ti_table E t"
  shows "base_size (ti_id ty) = Some n \<Longrightarrow> reads (unmarshal_obj rec f E t dst) (load mem (a + ti_obj_addr ty) n) 0 (copies mem a dst {ti_obj_addr ty..<ti_obj_addr ty + n})"
    and "ti_id ty = AOSL_TYPE_VOID \<Longrightarrow> reads (unmarshal_obj rec f E t dst) [] 0 (copies mem a dst {})"
    and "ti_id ty = AOSL_TYPE_FIXED_BYTES \<Longrightarrow>
      reads (unmarshal_obj rec f E t dst) (load mem (a + ti_obj_addr ty) (ti_array_size ty)) 0 (copies mem a dst {ti_obj_addr ty..<ti_obj_addr ty + ti_array_size ty})"
proof -
  let ?bs = "load mem (a + ti_obj_addr ty) n"
  assume id: "base_size (ti_id ty) = Some n"
  have "reads (\<lambda>s c. read_base (length ?bs) s c (\<lambda>bs s c. Ret (0, store (dst + ti_obj_addr ty) bs s, c))) (?bs @ []) 0 (copies mem a dst {ti_obj_addr ty..<ti_obj_addr ty + n})"
    by (rule reads_base, rule reads_weaken [OF reads_ret_store]) (use copies_put in simp)
  moreover have "unmarshal_obj rec f E t dst = (\<lambda>s c. read_base n s c (\<lambda>bs s c. Ret (0, store (dst + ti_obj_addr ty) bs s, c)))"
    using assms id by (intro ext) (simp add: unmarshal_obj_def Let_def)
  ultimately show "reads (unmarshal_obj rec f E t dst) ?bs 0 (copies mem a dst {ti_obj_addr ty..<ti_obj_addr ty + n})" by simp
next
  assume "ti_id ty = AOSL_TYPE_VOID"
  then have "unmarshal_obj rec f E t dst = (\<lambda>s c. Ret (0, s, c))" using assms by (intro ext) (simp add: unmarshal_obj_def base_size_def Let_def)
  then show "reads (unmarshal_obj rec f E t dst) [] 0 (copies mem a dst {})" using reads_weaken [OF reads_nil [OF refl], of "copies mem a dst {}"] by simp
next
  let ?bs = "load mem (a + ti_obj_addr ty) (ti_array_size ty)"
  assume "ti_id ty = AOSL_TYPE_FIXED_BYTES"
  then have "unmarshal_obj rec f E t dst = read_into (dst + ti_obj_addr ty) (length ?bs)" using assms by (intro ext) (simp add: unmarshal_obj_def base_size_def Let_def)
  then show "reads (unmarshal_obj rec f E t dst) ?bs 0 (copies mem a dst {ti_obj_addr ty..<ti_obj_addr ty + ti_array_size ty})"
    using reads_weaken [OF reads_into, of "dst + ti_obj_addr ty" ?bs "copies mem a dst {ti_obj_addr ty..<ti_obj_addr ty + ti_array_size ty}"] copies_put by simp
qed

lemma reads_var_bytes:
  assumes ty: "ty = ti_table E t" and id: "ti_id ty = AOSL_TYPE_VAR_BYTES" and n: "load_u16 mem (a + ti_count_var ty) = n" "n \<le> ti_array_size ty"
  shows "reads (unmarshal_obj rec f E t dst) (load mem (a + ti_count_var ty) 2 @ load mem (a + ti_obj_addr ty) n) 0
    (copies mem a dst ({ti_count_var ty..<ti_count_var ty + 2} \<union> {ti_obj_addr ty..<ti_obj_addr ty + n}))"
proof -
  let ?bs = "load mem (a + ti_obj_addr ty) n" and ?cb = "load mem (a + ti_count_var ty) 2"
  have "reads (\<lambda>s. read_into (dst + ti_obj_addr ty) (length ?bs) (store (dst + ti_count_var ty) ?cb s)) ?bs 0 (copies mem a dst ({ti_count_var ty..<ti_count_var ty + 2} \<union> {ti_obj_addr ty..<ti_obj_addr ty + n}))"
    by (rule reads_weaken [OF reads_store [OF reads_into]]) (simp only: copies_trans [OF copies_put copies_put])
  moreover have "unmarshal_obj rec f E t dst = (\<lambda>s c. read_base 2 s c (\<lambda>bs s c. if ti_array_size ty < le_nat bs then Ret (- AOSL_ENOSPC, s, c) else read_into (dst + ti_obj_addr ty) (le_nat bs) (store (dst + ti_count_var ty) bs s) c))"
    using id by (intro ext) (simp add: unmarshal_obj_def base_size_def Let_def ty [symmetric] cong: if_cong)
  ultimately show ?thesis using n by (simp add: reads_load2)
qed

lemma reads_bytes_nil:
  assumes ty: "ty = ti_table E t" and id: "ti_id ty = AOSL_TYPE_BYTES_WITH_NIL" and str: "load mem (a + ti_obj_addr ty) (Suc (length str)) = str @ [0]" "0 \<notin> set str"
    and le: "Suc (length str) < 65536" "Suc (length str) \<le> ti_array_size ty"
  shows "reads (unmarshal_obj rec f E t dst) (str @ [0]) 0 (copies mem a dst {ti_obj_addr ty..<ti_obj_addr ty + Suc (length str)})"
proof -
  let ?k = "\<lambda>l s c. if l < 0 then Ret (l, s, c) else if ti_array_size ty < to_u16 (nat l) then Ret (- AOSL_ENOSPC, s, c) else read_into (dst + ti_obj_addr ty) (to_u16 (nat l)) s c"
  have n: "to_u16 (nat (int (length str) + 1)) = Suc (length str)" using le(1) by (simp add: to_u16_def nat_add_distrib)
  have "reads (read_into (dst + ti_obj_addr ty) (length (str @ [0]))) (str @ [0]) 0 (copies mem a dst {ti_obj_addr ty..<ti_obj_addr ty + Suc (length str)})"
    by (rule reads_weaken [OF reads_into]) (use copies_put [of mem a dst "ti_obj_addr ty" "Suc (length str)"] in \<open>simp add: str(1)\<close>)
  then have k: "reads (?k (int (length str) + 1)) (str @ [0]) 0 (copies mem a dst {ti_obj_addr ty..<ti_obj_addr ty + Suc (length str)})" using n le(2) by simp
  have "unmarshal_obj rec f E t dst = (\<lambda>s c. ebind (SAFE_STRSIZE c) (\<lambda>l. ?k l s c))" using id by (intro ext) (simp add: unmarshal_obj_def base_size_def Let_def ty [symmetric] cong: if_cong)
  then show ?thesis using reads_strsize [where k = ?k, OF str(2) k] by simp
qed

lemma reads_dyn_empty:
  assumes "ti_id (ti_table E t) = AOSL_TYPE_DYNAMIC_ARRAY" and n: "load_u16 mem a = 0"
  shows "reads (unmarshal_obj rec f E t dst) (load mem a 2) 0 any"
proof -
  let ?o = "dst + ti_obj_addr (ti_table E t)"
  obtain k where "unmarshal_obj rec f E t dst = (\<lambda>s c. read_base 2 s c k)" "k (load mem a 2) = (\<lambda>s c. Ret (0, set_dyn ?o 0 0 s, c))"
    using assms by (auto simp: unmarshal_obj_def [abs_def] base_size_def Let_def)
  then show ?thesis using reads_load2 [of k mem a "[]" 0 any] reads_set_dyn [OF reads_any [OF reads_nil [OF refl]], of ?o 0 0] by simp
qed

lemma unmarshal_job_Suc: "unmarshal_job (Suc f) E j = unmarshal_step (unmarshal_job f E) f E j"
  by (intro ext) simp

lemma reads_obj:
  assumes "ti_have (ti_table E t) = 0" and r: "reads (unmarshal_obj (unmarshal_job f E) f E t a) bs K Q"
  shows "reads (unmarshal_job (Suc f) E (Obj t a)) bs K Q"
proof (rule readsI)
  fix s :: umem and c :: chain and ps qs rest assume c: "in_ok c" "stream c = bs @ rest" "um_pool s = map Some ps @ qs" "K \<le> length ps" "0 \<notin> set ps"
  from readsD [OF r c] obtain s' c' where "unmarshal_obj (unmarshal_job f E) f E t a s c = Ret (int (length bs), s', c')" "in_ok c'" "stream c' = rest" "um_pool s' = map Some (drop K ps) @ qs"
    "Q (um_bytes s) (um_bytes s')" by metis
  then show "\<exists>s' c'. unmarshal_job (Suc f) E (Obj t a) s c = Ret (int (length bs), s', c') \<and> in_ok c' \<and> stream c' = rest \<and> um_pool s' = map Some (drop K ps) @ qs \<and> Q (um_bytes s) (um_bytes s')"
    using assms(1) by (auto simp: unmarshal_step_def)
qed

lemma reads_Suc:
  assumes "ti_have (ti_table E t) = 0" and "eventually (\<lambda>f. \<forall>dst. reads (unmarshal_obj (unmarshal_job f E) f E t dst) bs K (Q dst)) sequentially"
  shows "eventually (\<lambda>f. \<forall>dst. reads (unmarshal_job f E (Obj t dst)) bs K (Q dst)) sequentially"
  unfolding eventually_sequentially_Suc [symmetric, of "\<lambda>f. \<forall>dst. reads (unmarshal_job f E (Obj t dst)) bs K (Q dst)"]
  using assms(2) by eventually_elim (simp add: reads_obj [OF assms(1)])

text \<open>The same part of an object at another address.\<close>

fun at_addr :: "nat \<Rightarrow> job \<Rightarrow> job" where
  "at_addr d (Obj t a) = Obj t d"
| "at_addr d (Fields t a) = Fields t d"
| "at_addr d (Elems t a sz n i) = Elems t d sz n i"

fun job_addr :: "job \<Rightarrow> nat" where
  "job_addr (Obj t a) = a"
| "job_addr (Fields t a) = a"
| "job_addr (Elems t a sz n i) = a"

lemma reads_and:
  assumes f: "reads f bs K (\<lambda>m m'. fl \<longrightarrow> copies mem a dst R m m')" and g: "reads g bs' K' (\<lambda>m m'. fl \<longrightarrow> copies mem a dst R' m m')"
  shows "reads (\<lambda>s c. useq (f s c) g) (bs @ bs') (K + K') (\<lambda>m m'. fl \<longrightarrow> copies mem a dst (R \<union> R') m m')"
  by (rule reads_weaken [OF reads_useq [OF f g]]) (blast intro: copies_trans)

lemma reads_shift:
  assumes "reads act bs K (\<lambda>m m'. fl \<longrightarrow> copies mem (a + off) (dst + off) R m m')"
  shows "reads act bs K (\<lambda>m m'. fl \<longrightarrow> copies mem a dst ((+) off ` R) m m')"
  using assms by (rule reads_weaken) (simp add: copies_shift)

text \<open>By induction on the encoding.\<close>

lemma unmarshal_reads:
  assumes no_have: "\<And>t. ti_have (ti_table E t) = 0" and helper: "fl \<or> junk_have E = 0"
  shows "enc fl E mem j bs R K \<Longrightarrow> eventually (\<lambda>f. \<forall>dst. reads (unmarshal_job f E (at_addr dst j)) bs K (\<lambda>m m'. fl \<longrightarrow> copies mem (job_addr j) dst R m m')) sequentially"
proof (induction rule: enc.induct)
  case (absent t a)
  then show ?case using no_have by (simp add: present_def)
next
  case (base t a ty n)
  show ?case unfolding at_addr.simps job_addr.simps by (rule reads_Suc [OF no_have]) (simp add: reads_weaken [OF reads_flat(1) [OF base(2,3)]])
next
  case (void t a)
  show ?case unfolding at_addr.simps job_addr.simps by (rule reads_Suc [OF no_have]) (simp add: reads_weaken [OF reads_flat(2) [OF refl void(2), of _ _ _ mem a]])
next
  case (null t a ty)
  with helper show ?case unfolding at_addr.simps job_addr.simps by (intro reads_Suc [OF no_have]) (simp add: reads_null)
next
  case (pointer t a ty p sz bs R K)
  show ?case unfolding at_addr.simps job_addr.simps
    by (rule reads_Suc [OF no_have], use pointer.IH pointer(7) [unfolded has_size_def] in eventually_elim) (use pointer helper in \<open>simp add: reads_pointer\<close>)
next
  case (reference t a ty bs R K)
  have "unmarshal_obj (unmarshal_job f E) f E t dst = unmarshal_job f E (Obj (ti_child ty) (dst + ti_obj_addr ty))" for f dst using reference by (intro ext) (simp add: unmarshal_obj_def base_size_def Let_def)
  then show ?case unfolding at_addr.simps job_addr.simps by (intro reads_Suc [OF no_have], use reference.IH in eventually_elim) (simp add: reads_shift)
next
  case (string t a ty p str)
  with helper show ?case unfolding at_addr.simps job_addr.simps by (intro reads_Suc [OF no_have]) (simp add: reads_string [simplified])
next
  case (struct t a ty bs R K)
  have "unmarshal_obj (unmarshal_job f E) f E t dst = unmarshal_job f E (Fields (ti_child ty) (dst + ti_obj_addr ty))" for f dst using struct by (intro ext) (simp add: unmarshal_obj_def base_size_def Let_def)
  then show ?case unfolding at_addr.simps job_addr.simps by (intro reads_Suc [OF no_have], use struct.IH in eventually_elim) (simp add: reads_shift)
next
  case (fixed_bytes t a ty)
  show ?case unfolding at_addr.simps job_addr.simps by (rule reads_Suc [OF no_have]) (simp add: reads_weaken [OF reads_flat(3) [OF fixed_bytes(2,3)]])
next
  case (var_bytes t a ty n)
  show ?case unfolding at_addr.simps job_addr.simps by (rule reads_Suc [OF no_have], intro always_eventually allI, rule reads_weaken [OF reads_var_bytes [OF var_bytes(2-5)]]) simp
next
  case (bytes_nil t a ty str)
  show ?case unfolding at_addr.simps job_addr.simps by (rule reads_Suc [OF no_have], intro always_eventually allI, rule reads_weaken [OF reads_bytes_nil [OF bytes_nil(2-7)]]) simp
next
  case (dyn_bytes t a ty n)
  show ?case unfolding at_addr.simps job_addr.simps
    by (rule reads_Suc [OF no_have]) (use dyn_bytes reads_dyn [of E t mem "a + ti_obj_addr ty" "load mem (load_ptr mem (a + ti_obj_addr ty + DYN_VALUES)) n"] in simp)
next
  case (fixed_array t a ty sz bs R K)
  show ?case unfolding at_addr.simps job_addr.simps
    by (rule reads_Suc [OF no_have], use fixed_array.IH fixed_array(4) [unfolded has_size_def] in eventually_elim) (use fixed_array in \<open>simp add: reads_array(1) reads_shift\<close>)
next
  case (var_array t a ty sz n bs R K)
  have "reads (unmarshal_obj (unmarshal_job f E) f E t dst) (load mem (a + ti_count_var ty) 2 @ bs) K
      (\<lambda>m m'. fl \<longrightarrow> copies mem a dst ({ti_count_var ty..<ti_count_var ty + 2} \<union> (+) (ti_obj_addr ty) ` R) m m')"
    if sz: "get_type_size f E (ti_child ty) = Ret (Some sz)"
      and ih: "reads (unmarshal_job f E (Elems (ti_child ty) (dst + ti_obj_addr ty) sz n 0)) bs K (\<lambda>m m'. fl \<longrightarrow> copies mem (a + ti_obj_addr ty) (dst + ti_obj_addr ty) R m m')" for f dst
    by (rule reads_weaken [OF reads_array(2) [OF sz var_array(2,3), of mem "a + ti_count_var ty" "unmarshal_job f E" dst, unfolded var_array(5), OF var_array(6) reads_shift [OF ih]]]) (use copies_trans [OF copies_put] in blast)
  then show ?case unfolding at_addr.simps job_addr.simps
    by (intro reads_Suc [OF no_have], use var_array.IH var_array(4) [unfolded has_size_def] in eventually_elim) simp
next
  case (dyn_empty t a ty)
  then show ?case unfolding at_addr.simps job_addr.simps by (intro reads_Suc [OF no_have]) (simp add: reads_dyn_empty)
next
  case (dyn_array t a ty n sz bs R K)
  show ?case unfolding at_addr.simps job_addr.simps
    by (rule reads_Suc [OF no_have], use dyn_array.IH dyn_array(7) [unfolded has_size_def] in eventually_elim) (use dyn_array in \<open>simp add: reads_array(3)\<close>)
next
  case (fields_end t a)
  have "reads (unmarshal_job (Suc f) E (Fields t dst)) [] 0 (\<lambda>m m'. fl \<longrightarrow> copies mem a dst {} m m')" for f dst
    using fields_end reads_weaken [OF reads_nil [OF refl], of "\<lambda>m m'. fl \<longrightarrow> copies mem a dst {} m m'"] by (simp add: unmarshal_job_Suc unmarshal_step_def [abs_def])
  then show ?case by (subst eventually_sequentially_Suc [symmetric]) simp
next
  case (field t a bs R K bs' R' K')
  show ?case unfolding at_addr.simps job_addr.simps
    by (subst eventually_sequentially_Suc [symmetric], use field.IH in eventually_elim) (use field(1) in \<open>simp add: unmarshal_job_Suc unmarshal_step_def [abs_def] reads_and\<close>)
next
  case (elems_end n i t a sz)
  have "reads (unmarshal_job (Suc f) E (Elems t dst sz n i)) [] 0 (\<lambda>m m'. fl \<longrightarrow> copies mem a dst {} m m')" for f dst
    using elems_end reads_weaken [OF reads_nil [OF refl], of "\<lambda>m m'. fl \<longrightarrow> copies mem a dst {} m m'"] by (simp add: unmarshal_job_Suc unmarshal_step_def [abs_def])
  then show ?case by (subst eventually_sequentially_Suc [symmetric]) simp
next
  case (elem i n t a sz bs R K bs' R' K')
  show ?case unfolding at_addr.simps job_addr.simps
    by (subst eventually_sequentially_Suc [symmetric], use elem.IH in eventually_elim)
      (use elem(1,2) in \<open>simp add: unmarshal_job_Suc unmarshal_step_def [abs_def] to_u16_def reads_and reads_shift\<close>)
qed


subsection \<open>The copy has the same encoding\<close>

lemma load_copy: "\<forall>x \<in> {off..<off + n}. mem' (dst + x) = mem (a + x) \<Longrightarrow> load mem' (dst + off) n = load mem (a + off) n"
  by (auto simp: load_def add.assoc)

lemma enc_flat_allocs: "enc fl E mem j bs R K \<Longrightarrow> fl \<Longrightarrow> K = 0"
  by (induction rule: enc.induct) auto

lemma enc_copy:
  assumes no_have: "\<And>t. ti_have (ti_table E t) = 0"
  shows "enc fl E mem j bs R K \<Longrightarrow> fl \<Longrightarrow> \<forall>x \<in> R. mem' (dst + x) = mem (job_addr j + x) \<Longrightarrow> enc fl E mem' (at_addr dst j) bs R K"
proof (induction arbitrary: dst rule: enc.induct)
  case (absent t a)
  then show ?case using no_have by (simp add: present_def)
next
  case (base t a ty n)
  then show ?case using enc.base [of E mem' t dst ty n fl] no_have load_copy [of "ti_obj_addr ty" n mem' dst mem a] by (simp add: present_def)
next
  case (void t a)
  then show ?case using no_have by (simp add: enc.void present_def)
next
  case (reference t a ty bs R K)
  then show ?case using enc.reference [of E mem' t dst ty fl bs R K] no_have by (simp add: present_def add.assoc)
next
  case (struct t a ty bs R K)
  then show ?case using enc.struct [of E mem' t dst ty fl bs R K] no_have by (simp add: present_def add.assoc)
next
  case (fixed_bytes t a ty)
  then show ?case using enc.fixed_bytes [of E mem' t dst ty fl] no_have load_copy [of "ti_obj_addr ty" "ti_array_size ty" mem' dst mem a] by (simp add: present_def)
next
  case (var_bytes t a ty n)
  have l: "load mem' (dst + ti_count_var ty) 2 = load mem (a + ti_count_var ty) 2" "load mem' (dst + ti_obj_addr ty) n = load mem (a + ti_obj_addr ty) n"
    by (rule load_copy; use var_bytes(7) in simp)+
  then have "load_u16 mem' (dst + ti_count_var ty) = n" using var_bytes(4) by (simp only: load_u16_def l)
  from enc.var_bytes [of E mem' t dst ty n fl, OF _ var_bytes(2,3) this var_bytes(5)] show ?case using no_have l by (simp add: present_def)
next
  case (bytes_nil t a ty str)
  have "load mem' (dst + ti_obj_addr ty) (Suc (length str)) = str @ [0]" using load_copy [of "ti_obj_addr ty" "Suc (length str)" mem' dst mem a] bytes_nil by simp
  from enc.bytes_nil [of E mem' t dst ty str fl, OF _ bytes_nil(2,3) this bytes_nil(5-7)] show ?case using no_have by (simp add: present_def)
next
  case (fixed_array t a ty sz bs R K)
  then show ?case using enc.fixed_array [of E mem' t dst ty sz fl bs R K] no_have by (simp add: present_def add.assoc)
next
  case (var_array t a ty sz n bs R K)
  have l: "load mem' (dst + ti_count_var ty) 2 = load mem (a + ti_count_var ty) 2" by (rule load_copy; use var_array.prems(2) in simp)
  then have n: "load_u16 mem' (dst + ti_count_var ty) = n" using var_array(5) by (simp only: load_u16_def l)
  have "enc fl E mem' (Elems (ti_child ty) (dst + ti_obj_addr ty) sz n 0) bs R K" using var_array.IH [of "dst + ti_obj_addr ty"] var_array.prems by (simp add: ball_Un add.assoc)
  from enc.var_array [OF _ var_array(2,3,4) n var_array(6) this] show ?case using no_have l by (simp add: present_def)
next
  case (fields_end t a)
  then show ?case by (simp add: enc.fields_end)
next
  case (field t a bs R K bs' R' K')
  then show ?case by (simp add: enc.field ball_Un)
next
  case (elems_end n i t a sz)
  then show ?case by (simp add: enc.elems_end)
next
  case (elem i n t a sz bs R K bs' R' K')
  then show ?case using enc.elem [of i n fl E mem' t dst sz bs R K bs' R' K'] by (simp add: ball_Un add.assoc)
qed simp_all

subsection \<open>Properties\<close>

text \<open>
  C27. Marshalling an object that has an encoding writes exactly this: with enough fuel it returns the number of bytes, which are appended to the chain over as many segments as they need, as long as there is room. An object has an encoding
  when its types are known, the sizes of the elements of its arrays are, its strings are shorter than 65535 bytes, its counted arrays are not longer than their types say and its arrays have fewer than 65536 elements. For objects with
  pointers or strings the field \<^verbatim>\<open>is_have\<close> of the helper on the stack, which the code does not set, is assumed to be 0; the theorem at the end of the theory shows what happens when it is not.
\<close>

theorem marshal_correct:
  assumes "enc fl E mem (Obj t a) bs R K" and "fl \<or> junk_have E = 0" and "out_ok c" and "length bs \<le> room c"
  shows "\<exists>N. \<forall>fuel \<ge> N. \<exists>c'. marshal fuel E t a mem c = Ret (int (length bs), c') \<and> all_data c' = all_data c @ bs \<and> room c' = room c - length bs"
proof -
  obtain N where "\<forall>f \<ge> N. writes (marshal_job f E mem (Obj t a)) bs" using marshal_writes [OF assms(2,1)] by (auto simp: eventually_sequentially)
  then show ?thesis using assms(3,4) by (intro exI [of _ N]) (auto simp: writes_def marshal_def)
qed

text \<open>
  Unmarshalling the encoding of an object of any type returns its number of bytes, takes exactly these from the chain and makes as many allocations as the object has blocks, when all of them succeed and no type has
  an \<^verbatim>\<open>is_have\<close> function.
\<close>

theorem unmarshal_consumes:
  assumes "enc fl E mem (Obj t a) bs R K" and "\<forall>t. ti_have (ti_table E t) = 0 \<and> (fl \<or> junk_have E = 0)" and "in_ok c" and "stream c = bs @ rest" and "um_pool s = map Some ps @ qs" and "length ps = K" and "0 \<notin> set ps"
  shows "\<exists>N. \<forall>fuel \<ge> N. \<exists>s' c'. unmarshal fuel E t dst s c = Ret (int (length bs), s', c') \<and> stream c' = rest \<and> um_pool s' = qs"
proof -
  have no_have: "\<And>t. ti_have (ti_table E t) = 0" using assms(2) by simp
  obtain N where N: "\<forall>f \<ge> N. \<forall>dst. reads (unmarshal_job f E (Obj t dst)) bs K (\<lambda>m m'. fl \<longrightarrow> copies mem a dst R m m')"
    using unmarshal_reads [OF no_have _ assms(1)] assms(2) by (auto simp: eventually_sequentially)
  have "\<exists>s' c'. unmarshal f E t dst s c = Ret (int (length bs), s', c') \<and> stream c' = rest \<and> um_pool s' = qs" if "N \<le> f" for f
    using readsD [OF N [rule_format, OF that, of dst] assms(3-5) _ assms(7)] assms(6) unfolding unmarshal_def by (metis drop_all list.simps(8) append_Nil order_refl)
  then show ?thesis by blast
qed

text \<open>
  C10. Round trip for flat types (numbers, addresses, references, structures, byte arrays and arrays of such with a fixed or a counted length: no pointers, strings or dynamic parts) when no type has an \<^verbatim>\<open>is_have\<close> function: what
  marshalling an object writes into a chain of one empty segment, with room for it there or in segments that are added, unmarshalling reads back from its first segment on, to the last byte. Every byte that is part of the encoding has in the new
  object the value it has in the old one, and the new object has the same encoding, wherever the two lie and whatever the memory held before.
\<close>

theorem marshal_unmarshal:
  assumes "enc True E mem (Obj t a) bs R K" and "\<forall>t. ti_have (ti_table E t) = 0" and "out_ok c" and "tight c" and "all_data c = []" and "length bs \<le> room c"
  shows "\<exists>N. \<forall>fuel \<ge> N. \<exists>c1 s' c2. marshal fuel E t a mem c = Ret (int (length bs), c1) \<and> unmarshal fuel E t dst s (c1\<lparr>ch_pos := 0\<rparr>) = Ret (int (length bs), s', c2) \<and> stream c2 = [] \<and>
    (\<forall>x \<in> R. um_bytes s' (dst + x) = mem (a + x)) \<and> enc True E (um_bytes s') (Obj t dst) bs R K"
proof -
  have no_have: "\<And>t. ti_have (ti_table E t) = 0" using assms(2) by simp
  have K: "K = 0" using enc_flat_allocs [OF assms(1)] by simp
  have "eventually (\<lambda>f. writes (marshal_job f E mem (Obj t a)) bs \<and> (\<forall>dst. reads (unmarshal_job f E (Obj t dst)) bs K (\<lambda>m m'. True \<longrightarrow> copies mem a dst R m m'))) sequentially"
    using eventually_conj [OF marshal_writes [OF disjI1 [OF TrueI] assms(1)] unmarshal_reads [OF no_have disjI1 [OF TrueI] assms(1)]] by simp
  then obtain N where N: "\<And>f. N \<le> f \<Longrightarrow> writes (marshal_job f E mem (Obj t a)) bs" "\<And>f dst. N \<le> f \<Longrightarrow> reads (unmarshal_job f E (Obj t dst)) bs K (\<lambda>m m'. True \<longrightarrow> copies mem a dst R m m')"
    by (auto simp: eventually_sequentially)
  have "\<exists>c1 s' c2. marshal f E t a mem c = Ret (int (length bs), c1) \<and> unmarshal f E t dst s (c1\<lparr>ch_pos := 0\<rparr>) = Ret (int (length bs), s', c2) \<and> stream c2 = [] \<and>
    (\<forall>x \<in> R. um_bytes s' (dst + x) = mem (a + x)) \<and> enc True E (um_bytes s') (Obj t dst) bs R K" if f: "N \<le> f" for f
  proof -
    obtain c1 where c1: "marshal_job f E mem (Obj t a) c = Ret (int (length bs), c1)" "all_data c1 = bs" "tight c1" using N(1) [OF f] assms(3-6) by (auto simp: writes_def)
    have st: "in_ok (c1\<lparr>ch_pos := 0\<rparr>)" "stream (c1\<lparr>ch_pos := 0\<rparr>) = bs @ []" using tight_rewind [OF c1(3)] c1(2) by simp_all
    have pool: "um_pool s = map Some [] @ um_pool s" by simp
    obtain s' c2 where 2: "unmarshal_job f E (Obj t dst) s (c1\<lparr>ch_pos := 0\<rparr>) = Ret (int (length bs), s', c2)" "stream c2 = []" "copies mem a dst R (um_bytes s) (um_bytes s')"
      by (rule readsD [OF N(2) [OF f, of dst] st pool]) (simp_all add: K)
    have R: "\<forall>x \<in> R. um_bytes s' (dst + x) = mem (a + x)" using 2(3) by (simp add: copies_def)
    from enc_copy [OF no_have assms(1), of "um_bytes s'" dst] have e: "enc True E (um_bytes s') (Obj t dst) bs R K" using R by simp
    show ?thesis unfolding marshal_def unmarshal_def by (intro exI [of _ c1] exI [of _ s'] exI [of _ c2] conjI c1(1) 2(1,2) R e)
  qed
  then show ?thesis by blast
qed


text \<open>
  A structure with a 16-bit count and an array of up to three 16-bit numbers behind it, and a pointer to a 32-bit number. At 100 the structure with the numbers 7 and 8, at 120 a pointer to 140.
\<close>

definition demo_types :: "nat \<Rightarrow> type_info" where
  "demo_types t =
     (let ty = \<lparr>ti_id = AOSL_TYPE_VOID, ti_obj_size = 0, ti_array_size = 0, ti_count_var = 0, ti_obj_addr = 0, ti_have = 0, ti_child = 0\<rparr> in
      if t = 0 then ty\<lparr>ti_id := AOSL_TYPE_STRUCT, ti_obj_size := 8, ti_child := 1\<rparr>
      else if t = 1 then ty\<lparr>ti_id := AOSL_TYPE_INT16\<rparr>
      else if t = 2 then ty\<lparr>ti_id := AOSL_TYPE_VAR_ARRAY, ti_array_size := 3, ti_obj_addr := 2, ti_child := 4\<rparr>
      else if t = 4 then ty\<lparr>ti_id := AOSL_TYPE_INT16\<rparr>
      else if t = 5 then ty\<lparr>ti_id := AOSL_TYPE_POINTER, ti_child := 6\<rparr>
      else if t = 6 then ty\<lparr>ti_id := AOSL_TYPE_INT32\<rparr>
      else ty)"

definition demo_env :: menv where
  "demo_env = \<lparr>ti_table = demo_types, have_f = (\<lambda>f a mem. True), junk_have = 0\<rparr>"

definition demo_mem :: memory where
  "demo_mem x = (if x = 100 then 2 else if x = 102 then 7 else if x = 104 then 8 else if x = 120 then 140 else if 140 \<le> x \<and> x < 144 then of_nat (x - 139) else 0)"

definition demo_out :: chain where
  "demo_out = \<lparr>ch_segs = [(0, [], 3)], ch_pos = 0, ch_alloc = 1\<rparr>"

definition demo_store :: umem where
  "demo_store = \<lparr>um_bytes = (\<lambda>x. 255), um_pool = [Some 300], um_blocks = [], um_freed = []\<rparr>"

lemma demo_env_simps [simp]: "ti_table demo_env = demo_types" "junk_have demo_env = 0" "ti_have (demo_types t) = 0" "present demo_env mem t a"
  by (simp_all add: demo_env_def demo_types_def present_def Let_def)

lemma demo_load [simp]:
  "load demo_mem 100 2 = [2, 0]" "load demo_mem 102 2 = [7, 0]" "load demo_mem 104 2 = [8, 0]" "load demo_mem 140 4 = [1, 2, 3, 4]" "load_u16 demo_mem 100 = 2" "load_ptr demo_mem 120 = 140"
  by (simp_all add: load_u16_def load_ptr_def load_def demo_mem_def upt_rec le_nat_def del: le_nat_load)

lemma demo_out_ok [simp]: "out_ok demo_out" "tight demo_out" "all_data demo_out = []" "room demo_out = 4099"
  by (simp_all add: demo_out_def out_ok_def tight_def all_data_def room_def seg_data_def seg_room_def DFLT_MAX_PSB_PKT_def)

lemma demo_size: "has_size demo_env 4 2" "has_size demo_env 6 4"
  unfolding has_size_def by (subst eventually_sequentially_Suc [symmetric], simp add: demo_types_def base_size_def)+

lemma enc_eq: "enc fl E mem j bs R K \<Longrightarrow> bs' = bs \<Longrightarrow> R' = R \<Longrightarrow> K' = K \<Longrightarrow> enc fl E mem j bs' R' K'"
  by simp

lemma demo_enc: "enc True demo_env demo_mem (Obj 0 100) [2, 0, 2, 0, 7, 0, 8, 0] {0..<6} 0"
proof -
  have el: "enc True demo_env demo_mem (Obj 4 x) (load demo_mem x 2) {0..<2} 0" for x
    by (rule enc_eq [OF enc.base [where n = 2 and ty = "demo_types 4"]]) (simp_all add: demo_types_def base_size_def, simp add: numeral_2_eq_2)
  have step: "enc True demo_env demo_mem (Elems 4 102 2 2 i) (load demo_mem (102 + 2 * i) 2 @ bs) ({2 * i..<2 * i + 2} \<union> R) 0" if "enc True demo_env demo_mem (Elems 4 102 2 2 (Suc i)) bs R 0" "i < 2" for i bs R
    by (rule enc_eq [OF enc.elem [OF _ _ el that(1)]]) (use that(2) in \<open>simp_all only: image_add_atLeastLessThan, simp_all\<close>)
  have e2: "enc True demo_env demo_mem (Elems 4 102 2 2 (Suc (Suc 0))) [] {} 0" by (rule enc.elems_end) simp
  have e1: "enc True demo_env demo_mem (Elems 4 102 2 2 (Suc 0)) [8, 0] {2..<4} 0" by (rule enc_eq [OF step [OF e2]]) simp_all
  have e0: "enc True demo_env demo_mem (Elems 4 102 2 2 0) [7, 0, 8, 0] {0..<4} 0" by (rule enc_eq [OF step [OF e1]]) auto
  have arr: "enc True demo_env demo_mem (Obj 2 100) [2, 0, 7, 0, 8, 0] ({0..<2} \<union> {2..<6}) 0"
    by (rule enc_eq [OF enc.var_array [where ty = "demo_types 2" and sz = 2 and n = 2 and bs = "[7, 0, 8, 0]" and R = "{0..<4}" and K = 0]])
      (use e0 demo_size(1) in \<open>simp_all add: demo_types_def del: add_2_eq_Suc add_2_eq_Suc'\<close>)
  have cnt: "enc True demo_env demo_mem (Obj 1 100) [2, 0] {0..<2} 0"
    by (rule enc_eq [OF enc.base [where n = 2 and ty = "demo_types 1"]]) (simp_all add: demo_types_def base_size_def, simp add: numeral_2_eq_2)
  have f3: "enc True demo_env demo_mem (Fields 3 100) [] {} 0" by (rule enc.fields_end) (simp add: demo_types_def)
  have f2: "enc True demo_env demo_mem (Fields 2 100) [2, 0, 7, 0, 8, 0] ({0..<2} \<union> {2..<6}) 0"
    by (rule enc_eq [OF enc.field [OF _ arr, where bs' = "[]" and R' = "{}" and K' = 0]]) (use f3 in \<open>simp_all add: demo_types_def\<close>)
  have f1: "enc True demo_env demo_mem (Fields 1 100) [2, 0, 2, 0, 7, 0, 8, 0] {0..<6} 0"
    by (rule enc_eq [OF enc.field [OF _ cnt, where bs' = "[2, 0, 7, 0, 8, 0]" and R' = "{0..<2} \<union> {2..<6}" and K' = 0]]) (use f2 in \<open>auto simp: demo_types_def numeral_2_eq_2\<close>)
  show ?thesis by (rule enc_eq [OF enc.struct [where ty = "demo_types 0" and bs = "[2, 0, 2, 0, 7, 0, 8, 0]" and R = "{0..<6}" and K = 0]]) (use f1 in \<open>simp_all add: demo_types_def\<close>)
qed


lemma demo_enc_pointer: "enc False demo_env demo_mem (Obj 5 120) [1, 1, 2, 3, 4] {} 1"
proof -
  have e: "enc False demo_env demo_mem (Obj 6 140) [1, 2, 3, 4] {0..<4} 0" by (rule enc_eq [OF enc.base [where n = 4 and ty = "demo_types 6"]]) (simp_all add: demo_types_def base_size_def)
  show ?thesis
    by (rule enc_eq [OF enc.pointer [where ty = "demo_types 5" and p = 140 and sz = 4 and K = 0 and bs = "[1, 2, 3, 4]" and R = "{0..<4}"]]) (use e demo_size(2) in \<open>simp_all add: demo_types_def\<close>)
qed

theorem marshal_correct_witness:
  "\<exists>N. \<forall>fuel \<ge> N. \<exists>c'. marshal fuel demo_env 5 120 demo_mem demo_out = Ret (5, c') \<and> all_data c' = [1, 1, 2, 3, 4] \<and> room c' = 4094"
  using marshal_correct [OF demo_enc_pointer _ demo_out_ok(1)] by simp

theorem unmarshal_consumes_witness:
  "\<exists>N. \<forall>fuel \<ge> N. \<exists>s' c'. unmarshal fuel demo_env 5 200 demo_store \<lparr>ch_segs = [(0, [1, 1], 0), (0, [2, 3, 4, 9], 0)], ch_pos = 0, ch_alloc = 0\<rparr> = Ret (5, s', c') \<and> stream c' = [9] \<and> um_pool s' = []"
  using unmarshal_consumes [OF demo_enc_pointer, of "\<lparr>ch_segs = [(0, [1, 1], 0), (0, [2, 3, 4, 9], 0)], ch_pos = 0, ch_alloc = 0\<rparr>" "[9]" demo_store "[300]" "[]" 200]
  by (simp add: in_ok_def stream_def seg_data_def demo_store_def)

theorem marshal_unmarshal_witness:
  "\<exists>N. \<forall>fuel \<ge> N. \<exists>c1 s' c2. marshal fuel demo_env 0 100 demo_mem demo_out = Ret (8, c1) \<and> unmarshal fuel demo_env 0 200 demo_store (c1\<lparr>ch_pos := 0\<rparr>) = Ret (8, s', c2) \<and> stream c2 = [] \<and>
    (\<forall>x \<in> {0..<6}. um_bytes s' (200 + x) = demo_mem (100 + x)) \<and> enc True demo_env (um_bytes s') (Obj 0 200) [2, 0, 2, 0, 7, 0, 8, 0] {0..<6} 0"
  using marshal_unmarshal [OF demo_enc _ demo_out_ok(1-3), of 200 demo_store] by simp

text \<open>
  The helper type of pointers and strings: the code sets its type and its address but not \<^verbatim>\<open>is_have\<close>. When the stack holds something else than 0 there, marshalling a pointer or a string calls
  whatever address that is.
\<close>

theorem uninitialised_helper_faults:
  assumes "ti_id (ti_table E t) = AOSL_TYPE_POINTER \<or> ti_id (ti_table E t) = AOSL_TYPE_STRING" and "ti_have (ti_table E t) = 0" and "junk_have E \<noteq> 0"
  shows "marshal (Suc fuel) E t a mem c = Fault"
  using assms by (auto simp: marshal_def marshal_step_def marshal_obj_def base_size_def marshal_bool_def mseq_def on_error_at_def)

theorem uninitialised_helper_faults_witness: "marshal 1 (demo_env\<lparr>junk_have := 77\<rparr>) 5 120 demo_mem demo_out = Fault"
  using uninitialised_helper_faults [of "demo_env\<lparr>junk_have := 77\<rparr>" 5 0 120 demo_mem demo_out] by (simp add: demo_types_def)


end
