(* ===== verification/Poll_Wait.thy ===== *)
theory Poll_Wait
  imports Iofd_Tables
begin

text \<open>
  Waiting for descriptors: \<^verbatim>\<open>kernel/poll_mp.c\<close>, \<^verbatim>\<open>kernel/select_mp.c\<close>, \<^verbatim>\<open>kernel/et_mp.c\<close> and, below them, the Linux port of \<^verbatim>\<open>poll\<close> and \<^verbatim>\<open>epoll_wait\<close>
  (\<^verbatim>\<open>platform/src/linux/aosl_hal_iomp.c\<close>). The calls of the platform are arguments; \<open>n\<close> counts the rounds of a wait that is interrupted by signals, \<open>clock n\<close> is the \<open>n\<close>-th reading of the clock. The
  array of events has as many entries as the caller says.
\<close>

subsection \<open>Rounds\<close>

text \<open>The time to wait is an \<^verbatim>\<open>intptr_t\<close>; the calls of the platform take an \<^verbatim>\<open>int\<close>.\<close>

definition int_timeout :: "int \<Rightarrow> int" where
  "int_timeout timeo = sint (word_of_int timeo :: 32 word)"

fun wait_again :: "nat \<Rightarrow> (nat \<Rightarrow> u64) \<Rightarrow> (nat \<Rightarrow> int \<Rightarrow> int \<times> 'r) \<Rightarrow> nat \<Rightarrow> u64 \<Rightarrow> int \<Rightarrow> (int \<times> 'r) exec" where
  "wait_again 0 clock call n stamp timeo = NoFuel"
| "wait_again (Suc fuel) clock call n stamp timeo =
     (let now = clock (Suc n);
          (timeo, stamp) = (if 0 < timeo then (max 0 (timeo - sint (now - stamp)), now) else (timeo, stamp));
          (err, r) = call n (int_timeout timeo) in
      if err = AOSL_HAL_RET_EINTR then wait_again fuel clock call (Suc n) stamp timeo else Ret (err, r))"

definition wait_rounds :: "nat \<Rightarrow> (nat \<Rightarrow> u64) \<Rightarrow> (nat \<Rightarrow> int \<Rightarrow> int \<times> 'r) \<Rightarrow> int \<Rightarrow> (int \<times> 'r) exec" where
  "wait_rounds fuel clock call timeo = wait_again fuel clock call 0 (if 0 < timeo then clock 0 else 0) timeo"

subsection \<open>poll\<close>

type_synonym poll_event = "int \<times> u32"

definition POLL_MAX_FDS :: int where "POLL_MAX_FDS = 1024"
definition AOSL_ENFILE :: int where [simp]: "AOSL_ENFILE = AOSL_EBASE + 23"
definition AOSL_POLLERR :: u32 where "AOSL_POLLERR = 4"
definition AOSL_POLLHUP :: u32 where "AOSL_POLLHUP = 8"
definition AOSL_POLLET :: u32 where "AOSL_POLLET = 16"
definition AOSL_IOFD_HUP :: int where "AOSL_IOFD_HUP = 2"
definition AOSL_IOFD_ERROR :: int where "AOSL_IOFD_ERROR = - 20000"

definition os_add_event_fd_poll :: "ptr \<Rightarrow> io_sys \<Rightarrow> (int \<times> io_sys) exec" where
  "os_add_event_fd_poll p s =
     ebind (iofd_at p s) (\<lambda>f.
     ebind (if read_f f \<noteq> 0 then upd_iofd p (set_flag AOSL_POLLIN) s else Ret s) (\<lambda>s.
     ebind (if write_f f \<noteq> 0 then upd_iofd p (set_flag AOSL_POLLOUT) s else Ret s) (\<lambda>s. Ret (0, s))))"

definition wanted :: "iofd \<Rightarrow> u32" where
  "wanted f = (if has_flag AOSL_POLLIN f then AOSL_POLLIN else 0) OR (if has_flag AOSL_POLLOUT f then AOSL_POLLOUT else 0)"

primrec emap :: "('a \<Rightarrow> 'b exec) \<Rightarrow> 'a list \<Rightarrow> 'b list exec" where
  "emap f [] = Ret []"
| "emap f (x # xs) = ebind (f x) (\<lambda>y. ebind (emap f xs) (\<lambda>ys. Ret (y # ys)))"

definition poll_request :: "int \<Rightarrow> ptr list \<Rightarrow> io_sys \<Rightarrow> poll_event list exec" where
  "poll_request piper ps s = ebind (emap (\<lambda>p. ebind (iofd_at p s) (\<lambda>f. Ret (io_fd f, wanted f))) ps) (\<lambda>r. Ret ((piper, AOSL_POLLIN) # r))"

text \<open>One bit of a descriptor that is ready: it is asked for no more, and noted in the array of events.\<close>

definition note_bit :: "u32 \<Rightarrow> u32 \<Rightarrow> ptr \<Rightarrow> nat \<Rightarrow> poll_event list \<Rightarrow> io_sys \<Rightarrow> (poll_event list \<times> io_sys) exec" where
  "note_bit b r p i ev s =
     (if r AND b \<noteq> 0 then
        ebind (upd_iofd p (clear_flag b) s) (\<lambda>s. ebind (arr_get ev i) (\<lambda>(fd, e). ebind (arr_set ev i (fd, e OR b)) (\<lambda>ev. Ret (ev, s))))
      else Ret (ev, s))"

definition note_ready :: "u32 \<Rightarrow> ptr \<Rightarrow> int \<Rightarrow> nat \<Rightarrow> poll_event list \<Rightarrow> io_sys \<Rightarrow> (nat \<times> poll_event list \<times> io_sys) exec" where
  "note_ready r p fd i ev s =
     ebind (note_bit AOSL_POLLIN r p i ev s) (\<lambda>(ev, s).
     ebind (note_bit AOSL_POLLOUT r p i ev s) (\<lambda>(ev, s).
     ebind (arr_get ev i) (\<lambda>(_, e). if e \<noteq> 0 then ebind (arr_set ev i (fd, e)) (\<lambda>ev. Ret (Suc i, ev, s)) else Ret (i, ev, s))))"

fun poll_collect :: "nat \<Rightarrow> int \<Rightarrow> poll_event list \<Rightarrow> ptr list \<Rightarrow> nat \<Rightarrow> poll_event list \<Rightarrow> io_sys \<Rightarrow> (nat \<times> poll_event list \<times> io_sys) exec" where
  "poll_collect maxevents err pfds [] i ev s = Ret (i, ev, s)"
| "poll_collect maxevents err [] (p # ps) i ev s = Fault"
| "poll_collect maxevents err ((pfd, r) # pfds) (p # ps) i ev s =
     ebind (iofd_at p s) (\<lambda>f. bug_on (pfd \<noteq> io_fd f) (
     ebind (note_ready r p (io_fd f) i ev s) (\<lambda>(i, ev, s).
     if err \<le> int i \<or> maxevents \<le> i then Ret (i, ev, s) else poll_collect maxevents err pfds ps i ev s)))"

text \<open>The result: the number of events or an error, the array of events and the state.\<close>

definition note_pipe :: "bool \<Rightarrow> int \<Rightarrow> poll_event list \<Rightarrow> (nat \<times> poll_event list) exec" where
  "note_pipe ready piper ev = (if ready then ebind (arr_set ev 0 (piper, AOSL_POLLIN)) (\<lambda>ev. Ret (1, ev)) else Ret (0, ev))"

definition no_events :: "nat \<Rightarrow> poll_event list" where
  "no_events maxevents = replicate maxevents (AOSL_INVALID_FD, 0)"

definition os_mp_wait_poll :: "nat \<Rightarrow> (nat \<Rightarrow> u64) \<Rightarrow> (nat \<Rightarrow> poll_event list \<Rightarrow> int \<Rightarrow> int \<times> u32 list) \<Rightarrow> u64 \<Rightarrow> int \<Rightarrow> nat \<Rightarrow> int \<Rightarrow> io_sys \<Rightarrow> (int \<times> poll_event list \<times> io_sys) exec" where
  "os_mp_wait_poll fuel clock hal_poll q piper maxevents timeo s =
     (let ps = q_iofds s q in
      if POLL_MAX_FDS < q_iofd_count s q then Ret (- AOSL_ENFILE, [], s)
      else if q_iofd_count s q < int (length ps) then Fault
      else
        ebind (poll_request piper ps s) (\<lambda>fds.
        ebind (wait_rounds fuel clock (\<lambda>n. hal_poll n fds) timeo) (\<lambda>(err, revents).
        if 0 < err then
          ebind (arr_get revents 0) (\<lambda>r.
          ebind (note_pipe (r AND AOSL_POLLIN \<noteq> 0) piper (no_events maxevents)) (\<lambda>(i, ev).
          ebind (poll_collect maxevents err (zip (map fst (tl fds)) (tl revents)) ps i ev s) (\<lambda>(i, ev, s).
          Ret (int i, ev, s))))
        else Ret (err, [], s))))"

text \<open>\<open>drain\<close> stands for \<^verbatim>\<open>os_drain_sigp\<close>, whose model has a state of its own.\<close>

fun os_mp_dispatch_poll :: "nat \<Rightarrow> io_env \<Rightarrow> (io_sys \<Rightarrow> io_sys exec) \<Rightarrow> u64 \<Rightarrow> int \<Rightarrow> poll_event list \<Rightarrow> io_sys \<Rightarrow> io_sys exec" where
  "os_mp_dispatch_poll fuel e drain q piper [] s = Ret s"
| "os_mp_dispatch_poll fuel e drain q piper ((fd, events) # ev) s =
     ebind (if fd = piper then drain s else dispatch_event fuel e q fd events s) (os_mp_dispatch_poll fuel e drain q piper ev)"

subsection \<open>select\<close>

text \<open>The sets of descriptors are lists. What the loop over the queue's descriptors asks for, with the largest descriptor.\<close>

fun select_request :: "ptr list \<Rightarrow> io_sys \<Rightarrow> int list \<times> int list \<times> int \<Rightarrow> (int list \<times> int list \<times> int) exec" where
  "select_request [] s r = Ret r"
| "select_request (p # ps) s (rd, wr, maxfd) =
     ebind (iofd_at p s) (\<lambda>f.
     select_request ps s (if has_flag AOSL_POLLIN f then io_fd f # rd else rd, if has_flag AOSL_POLLOUT f then io_fd f # wr else wr, max (io_fd f) maxfd))"

fun select_collect :: "nat \<Rightarrow> int \<Rightarrow> int list \<Rightarrow> int list \<Rightarrow> ptr list \<Rightarrow> nat \<Rightarrow> poll_event list \<Rightarrow> io_sys \<Rightarrow> (nat \<times> poll_event list \<times> io_sys) exec" where
  "select_collect maxevents err rd wr [] i ev s = Ret (i, ev, s)"
| "select_collect maxevents err rd wr (p # ps) i ev s =
     ebind (iofd_at p s) (\<lambda>f.
     ebind (note_ready ((if io_fd f \<in> set rd then AOSL_POLLIN else 0) OR (if io_fd f \<in> set wr then AOSL_POLLOUT else 0)) p (io_fd f) i ev s) (\<lambda>(i, ev, s).
     if err \<le> int i \<or> maxevents \<le> i then Ret (i, ev, s) else select_collect maxevents err rd wr ps i ev s))"

definition os_mp_wait_select :: "nat \<Rightarrow> (nat \<Rightarrow> u64) \<Rightarrow> (nat \<Rightarrow> int \<Rightarrow> int list \<Rightarrow> int list \<Rightarrow> int \<Rightarrow> int \<times> int list \<times> int list) \<Rightarrow> u64 \<Rightarrow> int \<Rightarrow> nat \<Rightarrow> int \<Rightarrow> io_sys \<Rightarrow> (int \<times> poll_event list \<times> io_sys) exec" where
  "os_mp_wait_select fuel clock hal_select q piper maxevents timeo s =
     (let ps = q_iofds s q in
      ebind (select_request ps s ([piper], [], piper)) (\<lambda>(rd, wr, maxfd).
      ebind (wait_rounds fuel clock (\<lambda>n. hal_select n (maxfd + 1) rd wr) timeo) (\<lambda>(err, rd, wr).
      if 0 < err then
        ebind (note_pipe (piper \<in> set rd) piper (no_events maxevents)) (\<lambda>(i, ev).
        ebind (select_collect maxevents err rd wr ps i ev s) (\<lambda>(i, ev, s).
        Ret (int i, ev, s)))
      else Ret (err, [], s))))"

subsection \<open>epoll\<close>

definition os_add_event_fd_epoll :: "(int \<Rightarrow> u32 \<Rightarrow> int) \<Rightarrow> ptr \<Rightarrow> io_sys \<Rightarrow> (int \<times> io_sys) exec" where
  "os_add_event_fd_epoll ctl_add p s =
     ebind (iofd_at p s) (\<lambda>f.
     let err = ctl_add (io_fd f) (AOSL_POLLET OR (if read_f f \<noteq> 0 then AOSL_POLLIN else 0) OR (if write_f f \<noteq> 0 then AOSL_POLLOUT else 0)) in
     if err < 0 then Ret (aosl_hal_set_error err s) else Ret (err, s))"

definition os_del_event_fd_epoll :: "(int \<Rightarrow> int) \<Rightarrow> ptr \<Rightarrow> io_sys \<Rightarrow> (int \<times> io_sys) exec" where
  "os_del_event_fd_epoll ctl_del p s = ebind (iofd_at p s) (\<lambda>f. let err = ctl_del (io_fd f) in if err < 0 then Ret (aosl_hal_set_error err s) else Ret (err, s))"

definition os_mp_wait_epoll :: "nat \<Rightarrow> (nat \<Rightarrow> u64) \<Rightarrow> (nat \<Rightarrow> int \<Rightarrow> int \<times> poll_event list) \<Rightarrow> int \<Rightarrow> (int \<times> poll_event list) exec" where
  "os_mp_wait_epoll fuel clock hal_epoll_wait timeo = wait_rounds fuel clock hal_epoll_wait timeo"

definition dispatch_epoll_event :: "nat \<Rightarrow> io_env \<Rightarrow> u64 \<Rightarrow> int \<Rightarrow> u32 \<Rightarrow> io_sys \<Rightarrow> io_sys exec" where
  "dispatch_epoll_event fuel e q fd events s =
     ebind (iofd_get fd s) (\<lambda>(p, s).
     if p = 0 then Ret s
     else
       ebind (if events AND AOSL_POLLERR \<noteq> 0 then f_event_and_close e q p AOSL_IOFD_ERROR s
              else
                ebind (if events AND AOSL_POLLOUT \<noteq> 0 then iofd_write_data fuel e q p s else Ret (0, s)) (\<lambda>(err, s).
                if err < 0 then Ret s
                else
                  ebind (if events AND AOSL_POLLIN \<noteq> 0 then iofd_read_data fuel e q p s else Ret (0, s)) (\<lambda>(err, s).
                  if err < 0 then Ret s
                  else if events AND AOSL_POLLHUP \<noteq> 0 then f_event_and_close e q p AOSL_IOFD_HUP s
                  else Ret s))) (iofd_put p))"

fun os_mp_dispatch_epoll :: "nat \<Rightarrow> io_env \<Rightarrow> (io_sys \<Rightarrow> io_sys exec) \<Rightarrow> u64 \<Rightarrow> int \<Rightarrow> poll_event list \<Rightarrow> io_sys \<Rightarrow> io_sys exec" where
  "os_mp_dispatch_epoll fuel e drain q piper [] s = Ret s"
| "os_mp_dispatch_epoll fuel e drain q piper ((fd, events) # ev) s =
     ebind (if fd = piper then drain s else dispatch_epoll_event fuel e q fd events s) (os_mp_dispatch_epoll fuel e drain q piper ev)"

subsection \<open>The Linux port\<close>

text \<open>
  The bits of Linux are those of \<^verbatim>\<open>sys/poll.h\<close>. The array for the system call is on the stack and its requested events are never cleared: \<open>junk\<close> is what the stack holds there. \<open>os\<close> is the system call: its
  result, the error number and the returned events.
\<close>

definition LINUX_POLLIN :: u16 where "LINUX_POLLIN = 1"
definition LINUX_POLLOUT :: u16 where "LINUX_POLLOUT = 4"
definition LINUX_POLLERR :: u16 where "LINUX_POLLERR = 8"
definition LINUX_POLLHUP :: u16 where "LINUX_POLLHUP = 16"
definition AOSL_HAL_RET_EHAL :: int where "AOSL_HAL_RET_EHAL = - 2000"

definition aosl_hal_errno_convert :: "int \<Rightarrow> int" where
  "aosl_hal_errno_convert errnum = (if errnum = 0 then 0 else if errnum = 11 then AOSL_HAL_RET_EAGAIN else if errnum = 4 then AOSL_HAL_RET_EINTR
     else if errnum = 115 then AOSL_HAL_RET_EINPROGRESS else AOSL_HAL_RET_EHAL)"

definition to_linux :: "u32 \<Rightarrow> u16" where
  "to_linux e = (if e AND AOSL_POLLIN \<noteq> 0 then LINUX_POLLIN else 0) OR (if e AND AOSL_POLLOUT \<noteq> 0 then LINUX_POLLOUT else 0)"

definition from_linux :: "u16 \<Rightarrow> u32" where
  "from_linux r = (if r AND LINUX_POLLIN \<noteq> 0 then AOSL_POLLIN else 0) OR (if r AND LINUX_POLLOUT \<noteq> 0 then AOSL_POLLOUT else 0)"

definition linux_hal_poll :: "(nat \<Rightarrow> u16) \<Rightarrow> ((int \<times> u16) list \<Rightarrow> int \<Rightarrow> int \<times> int \<times> u16 list) \<Rightarrow> poll_event list \<Rightarrow> int \<Rightarrow> int \<times> u32 list" where
  "linux_hal_poll junk os fds timeo =
     (if fds = [] then (- 1, [])
      else
        let (err, errnum, revents) = os (map (\<lambda>(i, (fd, e)). (fd, junk i OR to_linux e)) (enumerate 0 fds)) timeo in
        if err < 0 then (aosl_hal_errno_convert errnum, []) else (err, map from_linux revents))"

definition linux_epoll_bits :: "u16 \<Rightarrow> u32" where
  "linux_epoll_bits r = from_linux r OR (if r AND LINUX_POLLERR \<noteq> 0 then AOSL_POLLERR else 0) OR (if r AND LINUX_POLLHUP \<noteq> 0 then AOSL_POLLHUP else 0)"

definition linux_hal_epoll_wait :: "(int \<Rightarrow> int \<times> int \<times> (int \<times> u16) list) \<Rightarrow> int \<Rightarrow> int \<times> poll_event list" where
  "linux_hal_epoll_wait os timeo = (let (err, errnum, evs) = os timeo in if err < 0 then (aosl_hal_errno_convert errnum, []) else (err, map (\<lambda>(fd, r). (fd, linux_epoll_bits r)) (take (nat err) evs)))"

subsection \<open>An interrupted wait\<close>

text \<open>What is left of the waiting time in round \<open>n\<close>, with \<open>T n\<close> the time of the \<open>n\<close>-th reading of the clock.\<close>

definition time_left :: "(nat \<Rightarrow> nat) \<Rightarrow> int \<Rightarrow> nat \<Rightarrow> int" where
  "time_left T timeo n = max 0 (timeo - (int (T (Suc n)) - int (T 0)))"

lemma elapsed: "a \<le> b \<Longrightarrow> b - a < 2 ^ 63 \<Longrightarrow> sint (of_nat b - of_nat a :: u64) = int b - int a"
proof -
  assume le: "a \<le> b" and lt: "b - a < 2 ^ 63"
  have "of_nat b - of_nat a = (of_nat (b - a) :: u64)" using le by (simp add: of_nat_diff)
  moreover have "sint (of_nat (b - a) :: u64) = int (b - a)" 
  proof -
    have "uint (of_nat (b - a) :: u64) = int (b - a)" using lt by (simp add: uint_nat unat_of_nat take_bit_nat_eq_self)
    then have "sint (of_nat (b - a) :: u64) = signed_take_bit 63 (int (b - a))" by (simp add: sint_uint)
    also have "\<dots> = int (b - a)" using lt by (intro signed_take_bit_int_eq_self) simp_all
    finally show ?thesis .
  qed
  ultimately show ?thesis using le by (simp add: of_nat_diff)
qed

lemma int_timeout_small: "- (2 ^ 31) \<le> t \<Longrightarrow> t < 2 ^ 31 \<Longrightarrow> int_timeout t = t"
  by (simp add: int_timeout_def sint_uint uint_word_of_int_eq signed_take_bit_take_bit signed_take_bit_int_eq_self)

text \<open>A time of \<open>2 ^ 31\<close> milliseconds, 24 days, or a little more arrives as a negative number, which is for ever.\<close>

lemma long_timeout_for_ever:
  assumes "2 ^ 31 \<le> t" and "t < 2 ^ 32"
  shows "int_timeout t < 0"
proof -
  have "(word_of_int t :: 32 word) = word_of_int (t - 2 ^ 32)" unfolding word_of_int_eq_iff by (simp add: take_bit_eq_mod)
  then have "int_timeout t = int_timeout (t - 2 ^ 32)" by (simp only: int_timeout_def)
  then show ?thesis using assms int_timeout_small [of "t - 2 ^ 32"] by simp
qed

text \<open>When no call takes longer than it was told, all of them together take no longer than the first.\<close>

lemma rounds_in_time:
  assumes T: "mono T" and d: "\<And>n. n \<le> k \<Longrightarrow> T (Suc n) + d n \<le> T (Suc (Suc n))" "\<And>n. n \<le> k \<Longrightarrow> int (d n) \<le> time_left T timeo n" and t: "0 \<le> timeo"
  shows "int (\<Sum>n \<le> k. d n) \<le> timeo"
proof -
  have sum: "T 0 + (\<Sum>n < m. d n) \<le> T (Suc m)" if "m \<le> Suc k" for m
    using that
  proof (induction m)
    case (Suc m)
    then show ?case using d(1) [of m] by simp
  qed (use T in \<open>simp add: monoD\<close>)
  have "int (\<Sum>n < m. d n) \<le> timeo" if "m \<le> Suc k" for m
    using that
  proof (induction m)
    case (Suc m)
    then have m: "m \<le> k" by simp
    show ?case
    proof (cases "time_left T timeo m = 0")
      case True
      then show ?thesis using Suc d(2) [OF m] by simp
    next
      case False
      then have "int (d m) \<le> timeo - (int (T (Suc m)) - int (T 0))" using d(2) [OF m] by (simp add: time_left_def max_def split: if_splits)
      moreover have "int (T 0) + int (\<Sum>n < m. d n) \<le> int (T (Suc m))" using sum [of m] m by linarith
      ultimately show ?thesis by simp
    qed
  qed (use t in simp)
  from this [of "Suc k"] show ?thesis by (simp add: lessThan_Suc_atMost)
qed

lemma wait_again_rounds:
  assumes T: "mono T" "\<And>n. T n - T 0 < 2 ^ 63" "\<And>n. clock n = of_nat (T n)" and small: "0 \<le> timeo" "timeo < 2 ^ 31"
    and intr: "\<And>n. n < k \<Longrightarrow> fst (call n (time_left T timeo n)) = AOSL_HAL_RET_EINTR" and last: "call k (time_left T timeo k) = (err, r)" "err \<noteq> AOSL_HAL_RET_EINTR"
  shows "m \<le> k \<Longrightarrow> k - m < fuel \<Longrightarrow> t = max 0 (timeo - (int (T m) - int (T 0))) \<Longrightarrow> 0 < t \<longrightarrow> stamp = clock m \<Longrightarrow> wait_again fuel clock call m stamp t = Ret (err, r)"
proof (induction fuel arbitrary: m t stamp)
  case (Suc fuel m t stamp)
  have mn: "T 0 \<le> T m" "T m \<le> T (Suc m)" using T(1) by (simp_all add: monoD)
  have "T (Suc m) - T m < 2 ^ 63" using T(2) [of "Suc m"] mn by linarith
  then have el: "sint (clock (Suc m) - clock m) = int (T (Suc m)) - int (T m)" using elapsed [OF mn(2)] by (simp add: T(3))
  let ?t = "if 0 < t then max 0 (t - sint (clock (Suc m) - stamp)) else t"
  have left: "?t = time_left T timeo m" using Suc.prems(3,4) el mn by (auto simp: time_left_def)
  have fits: "int_timeout (time_left T timeo m) = time_left T timeo m" using small mn by (intro int_timeout_small) (auto simp: time_left_def)
  let ?stamp = "if 0 < t then clock (Suc m) else stamp"
  have step: "wait_again (Suc fuel) clock call m stamp t =
      (if fst (call m (time_left T timeo m)) = AOSL_HAL_RET_EINTR then wait_again fuel clock call (Suc m) ?stamp ?t else Ret (call m (time_left T timeo m)))"
    using left fits by (simp add: Let_def split_beta del: AOSL_HAL_RET_EINTR_def split: if_splits)
  show ?case
  proof (cases "m = k")
    case True
    then show ?thesis using step last by (simp del: AOSL_HAL_RET_EINTR_def)
  next
    case False
    then have m: "m < k" "Suc m \<le> k" "k - Suc m < fuel" using Suc.prems(1,2) by simp_all
    have "0 < ?t \<longrightarrow> ?stamp = clock (Suc m)" by auto
    from Suc.IH [OF m(2,3) left [unfolded time_left_def] this] show ?thesis using step intr [OF m(1)] by (simp del: AOSL_HAL_RET_EINTR_def)
  qed
qed simp


subsection \<open>What a wait reports\<close>

text \<open>The bits of a descriptor that count, the descriptor with these bits no longer asked for, and a list of such changes.\<close>

definition ready_bits :: "u32 \<Rightarrow> u32" where
  "ready_bits r = (if r AND AOSL_POLLIN \<noteq> 0 then AOSL_POLLIN else 0) OR (if r AND AOSL_POLLOUT \<noteq> 0 then AOSL_POLLOUT else 0)"

definition disarm :: "u32 \<Rightarrow> iofd \<Rightarrow> iofd" where
  "disarm r f = (if r AND AOSL_POLLOUT \<noteq> 0 then clear_flag AOSL_POLLOUT else id) ((if r AND AOSL_POLLIN \<noteq> 0 then clear_flag AOSL_POLLIN else id) f)"

definition disarm_all :: "(ptr \<times> u32) list \<Rightarrow> io_sys \<Rightarrow> io_sys" where
  "disarm_all hs s = s\<lparr>iofds := \<lambda>p. case map_of hs p of None \<Rightarrow> iofds s p | Some r \<Rightarrow> map_option (disarm r) (iofds s p)\<rparr>"

text \<open>The descriptors that are ready, in the order of the queue, and their entries in the array of events.\<close>

definition hits :: "ptr list \<Rightarrow> u32 list \<Rightarrow> (ptr \<times> u32) list" where
  "hits ps rs = filter (\<lambda>(p, r). ready_bits r \<noteq> 0) (zip ps rs)"

definition entry :: "io_sys \<Rightarrow> ptr \<times> u32 \<Rightarrow> poll_event" where
  "entry s = (\<lambda>(p, r). (io_fd (the (iofds s p)), ready_bits r))"

lemma ready_bits_0: "ready_bits r = 0 \<longleftrightarrow> r AND AOSL_POLLIN = 0 \<and> r AND AOSL_POLLOUT = 0"
  by (auto simp: ready_bits_def AOSL_POLLIN_def AOSL_POLLOUT_def)

lemma disarm_fd [simp]: "io_fd (disarm r f) = io_fd f"
  by (simp add: disarm_def clear_flag_def)

lemma note_ready_ok:
  assumes "i < length ev" "ev ! i = (x, 0)" "iofds s p = Some f"
  shows "note_ready r p fd i ev s =
    (if ready_bits r \<noteq> 0 then Ret (Suc i, ev[i := (fd, ready_bits r)], s\<lparr>iofds := (iofds s)(p \<mapsto> disarm r f)\<rparr>) else Ret (i, ev, s))"
  using assms
  by (cases "r AND AOSL_POLLIN = 0"; cases "r AND AOSL_POLLOUT = 0")
    (simp_all add: note_ready_def note_bit_def ready_bits_def disarm_def upd_iofd_def iofd_at_def AOSL_POLLIN_def AOSL_POLLOUT_def)

lemma disarm_all_Nil [simp]: "disarm_all [] s = s"
  by (simp add: disarm_all_def)

lemma disarm_all_Cons: "p \<notin> fst ` set hs \<Longrightarrow> iofds s p = Some f \<Longrightarrow> disarm_all ((p, r) # hs) s = disarm_all hs (s\<lparr>iofds := (iofds s)(p \<mapsto> disarm r f)\<rparr>)"
proof -
  assume "p \<notin> fst ` set hs" and f: "iofds s p = Some f"
  then have none: "map_of hs p = None" by (simp add: map_of_eq_None_iff)
  have "(case map_of ((p, r) # hs) q of None \<Rightarrow> iofds s q | Some r \<Rightarrow> map_option (disarm r) (iofds s q)) =
      (case map_of hs q of None \<Rightarrow> ((iofds s)(p \<mapsto> disarm r f)) q | Some r' \<Rightarrow> map_option (disarm r') (((iofds s)(p \<mapsto> disarm r f)) q))" for q
    using none f by (cases "q = p") (auto split: option.splits)
  then show ?thesis by (simp add: disarm_all_def del: fun_upd_apply map_of.simps cong: option.case_cong)
qed

text \<open>The loop over the descriptors, from the event \<open>i\<close> on.\<close>

lemma poll_collect_ok:
  "\<lbrakk>length ev = m; i < m; \<forall>k \<ge> i. k < m \<longrightarrow> ev ! k = (AOSL_INVALID_FD, 0); distinct ps; length rs = length ps; \<forall>p \<in> set ps. iofds s p \<noteq> None;
    int (i + length (hits ps rs)) \<le> err\<rbrakk> \<Longrightarrow>
   \<exists>ev'. poll_collect m err (zip (map (\<lambda>p. io_fd (the (iofds s p))) ps) rs) ps i ev s = Ret (i + length (take (m - i) (hits ps rs)), ev', disarm_all (take (m - i) (hits ps rs)) s) \<and>
     take (i + length (take (m - i) (hits ps rs))) ev' = take i ev @ map (entry s) (take (m - i) (hits ps rs))"
proof (induction ps arbitrary: rs i ev s)
  case Nil
  then show ?case by (simp add: hits_def)
next
  case (Cons p ps)
  then obtain r rs' where rs: "rs = r # rs'" by (cases rs) auto
  obtain f where f: "iofds s p = Some f" using Cons.prems(6) by auto
  let ?s = "s\<lparr>iofds := (iofds s)(p \<mapsto> disarm r f)\<rparr>" and ?ev = "ev[i := (io_fd f, ready_bits r)]"
  have noted: "note_ready r p (io_fd f) i ev s = (if ready_bits r \<noteq> 0 then Ret (Suc i, ?ev, ?s) else Ret (i, ev, s))"
    using note_ready_ok [of i ev AOSL_INVALID_FD s p f r "io_fd f"] Cons.prems(1-3) f by simp
  have notin: "p \<notin> set ps" "p \<notin> fst ` set (hits ps rs')" using Cons.prems(4) by (auto simp: hits_def dest: set_zip_leftD)
  show ?case
  proof (cases "ready_bits r = 0")
    case True
    then have h: "hits (p # ps) rs = hits ps rs'" by (simp add: hits_def rs)
    show ?thesis
    proof (cases "err \<le> int i")
      case stop: True
      then have "length (hits ps rs') = 0" using Cons.prems(7) unfolding h by linarith
      then have "hits ps rs' = []" by simp
      then show ?thesis using True stop h f noted by (simp add: rs iofd_at_def)
    next
      case False
      have "\<exists>ev'. poll_collect m err (zip (map (\<lambda>p. io_fd (the (iofds s p))) ps) rs') ps i ev s = Ret (i + length (take (m - i) (hits ps rs')), ev', disarm_all (take (m - i) (hits ps rs')) s) \<and>
        take (i + length (take (m - i) (hits ps rs'))) ev' = take i ev @ map (entry s) (take (m - i) (hits ps rs'))"
        by (rule Cons.IH) (use Cons.prems h rs in simp_all)
      then show ?thesis using False True Cons.prems(2) f noted h by (simp add: rs iofd_at_def)
    qed
  next
    case False
    then have h: "hits (p # ps) rs = (p, r) # hits ps rs'" by (simp add: hits_def rs)
    have e: "entry s (p, r) = (io_fd f, ready_bits r)" by (simp add: entry_def f)
    have tk: "take (Suc i) ?ev = take i ev @ [(io_fd f, ready_bits r)]" using Cons.prems(1,2) by (simp add: take_Suc_conv_app_nth)
    have one: "disarm_all [(p, r)] s = ?s" using disarm_all_Cons [of p "[]" s f r] f by simp
    show ?thesis
    proof (cases "err \<le> int (Suc i) \<or> m \<le> Suc i")
      case stop: True
      have t: "take (m - i) ((p, r) # hits ps rs') = [(p, r)]"
      proof (cases "m \<le> Suc i")
        case True
        then have "m - i = Suc 0" using Cons.prems(2) by simp
        then show ?thesis by simp
      next
        case False
        then have "length (hits ps rs') = 0" using stop Cons.prems(7) unfolding h list.size by linarith
        then have "hits ps rs' = []" by simp
        then show ?thesis using Cons.prems(2) by (cases "m - i") simp_all
      qed
      show ?thesis using stop False f noted by (simp add: rs iofd_at_def h [unfolded rs] t one tk e)
    next
      case go: False
      have same: "map (\<lambda>q. io_fd (the (iofds ?s q))) ps = map (\<lambda>q. io_fd (the (iofds s q))) ps" using notin by auto
      have ent: "map (entry ?s) (take n (hits ps rs')) = map (entry s) (take n (hits ps rs'))" for n using notin(2) f by (auto simp: entry_def dest!: in_set_takeD)
      have "\<exists>ev'. poll_collect m err (zip (map (\<lambda>q. io_fd (the (iofds ?s q))) ps) rs') ps (Suc i) ?ev ?s =
          Ret (Suc i + length (take (m - Suc i) (hits ps rs')), ev', disarm_all (take (m - Suc i) (hits ps rs')) ?s) \<and>
        take (Suc i + length (take (m - Suc i) (hits ps rs'))) ev' = take (Suc i) ?ev @ map (entry ?s) (take (m - Suc i) (hits ps rs'))"
        by (rule Cons.IH) (use Cons.prems h rs go in auto)
      then obtain ev' where ih: "poll_collect m err (zip (map (\<lambda>q. io_fd (the (iofds s q))) ps) rs') ps (Suc i) ?ev ?s =
          Ret (Suc i + length (take (m - Suc i) (hits ps rs')), ev', disarm_all (take (m - Suc i) (hits ps rs')) ?s)"
        "take (Suc i + length (take (m - Suc i) (hits ps rs'))) ev' = take i ev @ (io_fd f, ready_bits r) # map (entry s) (take (m - Suc i) (hits ps rs'))"
        unfolding same ent tk by auto
      have t: "take (m - i) ((p, r) # hits ps rs') = (p, r) # take (m - Suc i) (hits ps rs')" using Cons.prems(2) by (simp add: Suc_diff_Suc [symmetric])
      have "p \<notin> fst ` set (take (m - Suc i) (hits ps rs'))" using notin(2) by (auto dest: in_set_takeD)
      from disarm_all_Cons [of p _ s f r, OF this f] show ?thesis using go False f noted ih by (simp add: rs iofd_at_def h [unfolded rs] t e)
    qed
  qed
qed


lemma emap_Ret: "(\<And>x. x \<in> set xs \<Longrightarrow> f x = Ret (g x)) \<Longrightarrow> emap f xs = Ret (map g xs)"
  by (induction xs) simp_all

lemma poll_request_ok:
  assumes "\<forall>p \<in> set ps. iofds s p \<noteq> None"
  shows "poll_request piper ps s = Ret ((piper, AOSL_POLLIN) # map (\<lambda>p. (io_fd (the (iofds s p)), wanted (the (iofds s p)))) ps)"
proof -
  have "ebind (iofd_at p s) (\<lambda>f. Ret (io_fd f, wanted f)) = Ret (io_fd (the (iofds s p)), wanted (the (iofds s p)))" if "p \<in> set ps" for p
    using assms that by (auto simp: iofd_at_def)
  then have "emap (\<lambda>p. ebind (iofd_at p s) (\<lambda>f. Ret (io_fd f, wanted f))) ps = Ret (map (\<lambda>p. (io_fd (the (iofds s p)), wanted (the (iofds s p)))) ps)" by (rule emap_Ret)
  then show ?thesis by (simp add: poll_request_def)
qed

text \<open>The entries of a wait: the pipe first.\<close>

definition pipe_entry :: "int \<Rightarrow> u32 \<Rightarrow> poll_event list" where
  "pipe_entry piper r = (if r AND AOSL_POLLIN \<noteq> 0 then [(piper, AOSL_POLLIN)] else [])"

lemma note_pipe_ok:
  assumes "0 < m"
  shows "\<exists>ev. note_pipe (r AND AOSL_POLLIN \<noteq> 0) piper (no_events m) = Ret (length (pipe_entry piper r), ev) \<and> length ev = m \<and> take (length (pipe_entry piper r)) ev = pipe_entry piper r \<and>
    (\<forall>k \<ge> length (pipe_entry piper r). k < m \<longrightarrow> ev ! k = (AOSL_INVALID_FD, 0))"
  using assms by (auto simp: note_pipe_def no_events_def pipe_entry_def arr_set_def take_Suc_conv_app_nth nth_list_update)

lemma wait_poll_ok:
  assumes q: "q_iofds s q = ps" "q_iofd_count s q = int (length ps)" "length ps \<le> 1024" "distinct ps" "\<forall>p \<in> set ps. iofds s p \<noteq> None" and m: "2 \<le> m"
    and wait: "wait_rounds fuel clock (\<lambda>n. hal_poll n ((piper, AOSL_POLLIN) # map (\<lambda>p. (io_fd (the (iofds s p)), wanted (the (iofds s p)))) ps)) timeo = Ret (err, r # rs)"
    and hal: "0 < err" "length rs = length ps" "int (length (pipe_entry piper r) + length (hits ps rs)) \<le> err"
  shows "\<exists>ev. os_mp_wait_poll fuel clock hal_poll q piper m timeo s =
      Ret (int (length (pipe_entry piper r) + length (take (m - length (pipe_entry piper r)) (hits ps rs))), ev, disarm_all (take (m - length (pipe_entry piper r)) (hits ps rs)) s) \<and>
    take (length (pipe_entry piper r) + length (take (m - length (pipe_entry piper r)) (hits ps rs))) ev = take m (pipe_entry piper r @ map (entry s) (hits ps rs))"
proof -
  let ?i = "length (pipe_entry piper r)"
  have i: "?i < m" using m by (simp add: pipe_entry_def)
  obtain ev where ev: "note_pipe (r AND AOSL_POLLIN \<noteq> 0) piper (no_events m) = Ret (?i, ev)" "length ev = m" "take ?i ev = pipe_entry piper r" "\<forall>k \<ge> ?i. k < m \<longrightarrow> ev ! k = (AOSL_INVALID_FD, 0)"
    using note_pipe_ok [of m r piper] m by auto
  from poll_collect_ok [OF ev(2) i ev(4) q(4) hal(2) q(5) hal(3)]
  obtain ev' where c: "poll_collect m err (zip (map (\<lambda>p. io_fd (the (iofds s p))) ps) rs) ps ?i ev s = Ret (?i + length (take (m - ?i) (hits ps rs)), ev', disarm_all (take (m - ?i) (hits ps rs)) s)"
    "take (?i + length (take (m - ?i) (hits ps rs))) ev' = take ?i ev @ map (entry s) (take (m - ?i) (hits ps rs))" by blast
  have "os_mp_wait_poll fuel clock hal_poll q piper m timeo s = Ret (int (?i + length (take (m - ?i) (hits ps rs))), ev', disarm_all (take (m - ?i) (hits ps rs)) s)"
    using q(1-3) poll_request_ok [OF q(5)] wait hal(1) ev(1) c(1) by (simp add: os_mp_wait_poll_def POLL_MAX_FDS_def comp_def Let_def)
  moreover have "take (?i + length (take (m - ?i) (hits ps rs))) ev' = take m (pipe_entry piper r @ map (entry s) (hits ps rs))"
    using c(2) ev(3) i by (simp add: take_map)
  ultimately show ?thesis by blast
qed

subsection \<open>select is poll\<close>

lemma note_ready_keeps:
  assumes "note_ready r p fd i ev s = Ret (i', ev', s')"
  shows "map_option io_fd (iofds s' x) = map_option io_fd (iofds s x)"
proof -
  have upd: "upd_iofd p (clear_flag b) s = Ret s' \<Longrightarrow> map_option io_fd (iofds s' x) = map_option io_fd (iofds s x)" for b s s'
    by (auto simp: upd_iofd_def iofd_at_def clear_flag_def split: option.splits)
  have bit: "note_bit b r p i ev s = Ret (ev', s') \<Longrightarrow> map_option io_fd (iofds s' x) = map_option io_fd (iofds s x)" for b ev ev' s s'
    by (auto simp: note_bit_def ebind_Ret_iff upd split: if_splits)
  from assms show ?thesis unfolding note_ready_def by (auto simp: ebind_Ret_iff split: if_splits dest!: bit)
qed

text \<open>The bits that the sets which \<^verbatim>\<open>select\<close> returns stand for.\<close>

definition set_bits :: "int list \<Rightarrow> int list \<Rightarrow> int \<Rightarrow> u32" where
  "set_bits rd wr fd = (if fd \<in> set rd then AOSL_POLLIN else 0) OR (if fd \<in> set wr then AOSL_POLLOUT else 0)"

lemma select_collect_poll:
  "\<forall>p \<in> set ps. map_option io_fd (iofds s p) = Some (fds p) \<Longrightarrow>
   select_collect m err rd wr ps i ev s = poll_collect m err (map (\<lambda>p. (fds p, set_bits rd wr (fds p))) ps) ps i ev s"
proof (induction ps arbitrary: i ev s)
  case (Cons p ps)
  then obtain f where f: "iofds s p = Some f" "io_fd f = fds p" by auto
  have "select_collect m err rd wr ps i' ev' s' = poll_collect m err (map (\<lambda>p. (fds p, set_bits rd wr (fds p))) ps) ps i' ev' s'"
    if "note_ready (set_bits rd wr (fds p)) p (fds p) i ev s = Ret (i', ev', s')" for i' ev' s'
    using Cons.IH [of s' i' ev'] Cons.prems note_ready_keeps [OF that] by simp
  then show ?case using f by (auto simp: iofd_at_def set_bits_def [symmetric] intro!: ebind_cong)
qed simp

lemma wait_again_map: "wait_again fuel clock (\<lambda>n t. (fst (call n t), g (snd (call n t)))) n stamp timeo = ebind (wait_again fuel clock call n stamp timeo) (\<lambda>(err, r). Ret (err, g r))"
  by (induction fuel arbitrary: n stamp timeo) (simp_all add: Let_def split_beta del: AOSL_HAL_RET_EINTR_def)

text \<open>The platform's \<^verbatim>\<open>select\<close> seen as a \<^verbatim>\<open>poll\<close>.\<close>

definition poll_by_select :: "(nat \<Rightarrow> int \<Rightarrow> int list \<Rightarrow> int list \<Rightarrow> int \<Rightarrow> int \<times> int list \<times> int list) \<Rightarrow> nat \<Rightarrow> poll_event list \<Rightarrow> int \<Rightarrow> int \<times> u32 list" where
  "poll_by_select hal_select n fds timeo =
     (let rd = rev (map fst (filter (\<lambda>(fd, e). e AND AOSL_POLLIN \<noteq> 0) fds)); wr = rev (map fst (filter (\<lambda>(fd, e). e AND AOSL_POLLOUT \<noteq> 0) fds));
          (err, rd, wr) = hal_select n (fold max (map fst (tl fds)) (fst (hd fds)) + 1) rd wr timeo in
      (err, map (\<lambda>(fd, e). set_bits rd wr fd) fds))"

lemma wanted_bits: "wanted f AND AOSL_POLLIN \<noteq> 0 \<longleftrightarrow> has_flag AOSL_POLLIN f" "wanted f AND AOSL_POLLOUT \<noteq> 0 \<longleftrightarrow> has_flag AOSL_POLLOUT f"
  by (auto simp: wanted_def AOSL_POLLIN_def AOSL_POLLOUT_def)

lemma select_request_ok:
  "\<forall>p \<in> set ps. iofds s p \<noteq> None \<Longrightarrow> fds = map (\<lambda>p. (io_fd (the (iofds s p)), wanted (the (iofds s p)))) ps \<Longrightarrow>
   select_request ps s (rd, wr, maxfd) =
     Ret (rev (map fst (filter (\<lambda>(fd, e). e AND AOSL_POLLIN \<noteq> 0) fds)) @ rd, rev (map fst (filter (\<lambda>(fd, e). e AND AOSL_POLLOUT \<noteq> 0) fds)) @ wr, fold max (map fst fds) maxfd)"
proof (induction ps arbitrary: fds rd wr maxfd)
  case (Cons p ps)
  then obtain f where f: "iofds s p = Some f" by auto
  show ?case using Cons.IH [OF _ refl] Cons.prems f by (auto simp: iofd_at_def wanted_bits)
qed simp


lemma note_pipe_select: "note_pipe (set_bits rd wr piper AND AOSL_POLLIN \<noteq> 0) piper ev = note_pipe (piper \<in> set rd) piper ev"
  by (simp add: set_bits_def AOSL_POLLIN_def AOSL_POLLOUT_def)

lemma wait_rounds_map: "(\<And>n t. call' n t = (fst (call n t), g (snd (call n t)))) \<Longrightarrow> wait_rounds fuel clock call' timeo = ebind (wait_rounds fuel clock call timeo) (\<lambda>(err, r). Ret (err, g r))"
proof -
  assume "\<And>n t. call' n t = (fst (call n t), g (snd (call n t)))"
  then have "call' = (\<lambda>n t. (fst (call n t), g (snd (call n t))))" by (intro ext)
  then show ?thesis by (simp only: wait_rounds_def wait_again_map)
qed

lemma select_is_poll_lemma:
  assumes q: "q_iofd_count s q = int (length (q_iofds s q))" "length (q_iofds s q) \<le> 1024" "\<forall>p \<in> set (q_iofds s q). iofds s p \<noteq> None"
  shows "os_mp_wait_select fuel clock hal_select q piper m timeo s = os_mp_wait_poll fuel clock (poll_by_select hal_select) q piper m timeo s"
proof -
  define ps where "ps = q_iofds s q"
  define fd where "fd p = io_fd (the (iofds s p))" for p
  define all where "all = (piper, AOSL_POLLIN) # map (\<lambda>p. (fd p, wanted (the (iofds s p)))) ps"
  define rd where "rd = rev (map fst (filter (\<lambda>(fd, e). e AND AOSL_POLLIN \<noteq> 0) all))"
  define wr where "wr = rev (map fst (filter (\<lambda>(fd, e). e AND AOSL_POLLOUT \<noteq> 0) all))"
  define call where "call n = hal_select n (fold max (map fst (tl all)) piper + 1) rd wr" for n
  define g where "g = (\<lambda>(rd, wr). map (\<lambda>(fd, e). set_bits rd wr fd) all)"
  have ps: "\<forall>p \<in> set ps. iofds s p \<noteq> None" "\<forall>p \<in> set ps. map_option io_fd (iofds s p) = Some (fd p)" using q(3) by (auto simp: ps_def fd_def)
  have req: "select_request ps s ([piper], [], piper) = Ret (rd, wr, fold max (map fst (tl all)) piper)" "poll_request piper ps s = Ret all"
    using select_request_ok [OF ps(1) refl, of "[piper]" "[]" piper] poll_request_ok [OF ps(1), of piper] by (simp_all add: rd_def wr_def all_def fd_def AOSL_POLLIN_def AOSL_POLLOUT_def)
  have "poll_by_select hal_select n all t = (fst (call n t), g (snd (call n t)))" for n t
    unfolding poll_by_select_def call_def rd_def wr_def g_def by (simp add: Let_def split_beta) (simp add: all_def)
  note rounds = wait_rounds_map [of "\<lambda>n. poll_by_select hal_select n all", OF this, of fuel clock timeo]
  have "tl all = map (\<lambda>p. (fd p, wanted (the (iofds s p)))) ps" by (simp add: all_def)
  then have g: "zip (map fst (tl all)) (tl (g (rd, wr))) = map (\<lambda>p. (fd p, set_bits rd wr (fd p))) ps" "arr_get (g (rd, wr)) 0 = Ret (set_bits rd wr piper)" for rd wr
    by (simp_all add: g_def all_def zip_map_map zip_same_conv_map comp_def)
  have "os_mp_wait_poll fuel clock (poll_by_select hal_select) q piper m timeo s =
      ebind (wait_rounds fuel clock call timeo) (\<lambda>(err, rd, wr). if 0 < err then
        ebind (note_pipe (set_bits rd wr piper AND AOSL_POLLIN \<noteq> 0) piper (no_events m)) (\<lambda>(i, ev).
        ebind (poll_collect m err (map (\<lambda>p. (fd p, set_bits rd wr (fd p))) ps) ps i ev s) (\<lambda>(i, ev, s). Ret (int i, ev, s))) else Ret (err, [], s))"
    using q(1,2) unfolding os_mp_wait_poll_def ps_def [symmetric] Let_def by (auto simp: POLL_MAX_FDS_def req(2) rounds ebind_assoc g intro!: ebind_cong)
  also have "\<dots> = os_mp_wait_select fuel clock hal_select q piper m timeo s"
    unfolding os_mp_wait_select_def ps_def [symmetric] Let_def by (auto simp: req(1) call_def [abs_def] select_collect_poll [OF ps(2)] note_pipe_select intro!: ebind_cong)
  finally show ?thesis by simp
qed


subsection \<open>Properties\<close>

text \<open>
  C31. What \<^verbatim>\<open>os_mp_wait_poll\<close> reports: when the platform says that descriptors are ready, the events are those of the pipe and then of the ready descriptors in the order of the queue, as many as the
  array holds; of a descriptor that is reported, and of no other, the reported directions are no longer asked for.
\<close>

theorem wait_poll_reports:
  assumes "q_iofds s q = ps" and "q_iofd_count s q = int (length ps)" and "length ps \<le> 1024" and "distinct ps" and "\<forall>p \<in> set ps. iofds s p \<noteq> None" and "2 \<le> m"
    and "wait_rounds fuel clock (\<lambda>n. hal_poll n ((piper, AOSL_POLLIN) # map (\<lambda>p. (io_fd (the (iofds s p)), wanted (the (iofds s p)))) ps)) timeo = Ret (err, r # rs)"
    and "0 < err" and "length rs = length ps" and "int (length (pipe_entry piper r) + length (hits ps rs)) \<le> err"
  shows "\<exists>n ev rep. os_mp_wait_poll fuel clock hal_poll q piper m timeo s = Ret (int n, ev, disarm_all rep s) \<and> n = min m (length (pipe_entry piper r) + length (hits ps rs)) \<and>
    rep = take (m - length (pipe_entry piper r)) (hits ps rs) \<and> take n ev = take m (pipe_entry piper r @ map (entry s) (hits ps rs))"
proof -
  let ?i = "length (pipe_entry piper r)"
  have n: "?i + length (take (m - ?i) (hits ps rs)) = min m (?i + length (hits ps rs))" using assms(6) by (auto simp: pipe_entry_def)
  show ?thesis using wait_poll_ok [where hal_poll = hal_poll, OF assms] unfolding n by blast
qed

text \<open>
  C32. \<^verbatim>\<open>os_mp_wait_select\<close> is \<^verbatim>\<open>os_mp_wait_poll\<close> over the same platform: with the sets of descriptors read as events, both return the same number, the same array and the same state.
\<close>

theorem select_is_poll:
  assumes "q_iofd_count s q = int (length (q_iofds s q))" and "length (q_iofds s q) \<le> 1024" and "\<forall>p \<in> set (q_iofds s q). iofds s p \<noteq> None"
  shows "os_mp_wait_select fuel clock hal_select q piper m timeo s = os_mp_wait_poll fuel clock (poll_by_select hal_select) q piper m timeo s"
  using assms by (rule select_is_poll_lemma)

text \<open>
  C33. A wait for less than \<open>2 ^ 31\<close> milliseconds that signals interrupt \<open>k\<close> times returns what the next call returns, and each of its calls gets what is left of the waiting time, which is never negative
  (that would be for ever) and fits the platform's \<^verbatim>\<open>int\<close>. When no call takes longer than it was told, all of them together take no longer than the caller asked for.
\<close>

theorem interrupted_wait_in_time:
  assumes "0 < timeo" and "timeo < 2 ^ 31" and "mono T" and "\<forall>n. T n - T 0 < 2 ^ 63" and "\<forall>n. clock n = of_nat (T n)"
    and "\<forall>n < k. fst (call n (time_left T timeo n)) = AOSL_HAL_RET_EINTR" and "call k (time_left T timeo k) = (err, ev)" and "err \<noteq> AOSL_HAL_RET_EINTR" and "k < fuel"
  shows "os_mp_wait_epoll fuel clock call timeo = Ret (err, ev) \<and> (\<forall>n. 0 \<le> time_left T timeo n \<and> time_left T timeo n \<le> timeo)
    \<and> (\<forall>took. (\<forall>n \<le> k. T (Suc n) + took n \<le> T (Suc (Suc n)) \<and> int (took n) \<le> time_left T timeo n) \<longrightarrow> int (\<Sum>n \<le> k. took n) \<le> timeo)"
proof -
  have "os_mp_wait_epoll fuel clock call timeo = Ret (err, ev)"
    unfolding os_mp_wait_epoll_def wait_rounds_def using assms by (intro wait_again_rounds [of T clock timeo k call]) auto
  moreover have "0 \<le> time_left T timeo n \<and> time_left T timeo n \<le> timeo" for n using assms(1) monoD [OF assms(3), of 0 "Suc n"] by (auto simp: time_left_def)
  moreover have "int (\<Sum>n \<le> k. took n) \<le> timeo" if "\<forall>n \<le> k. T (Suc n) + took n \<le> T (Suc (Suc n)) \<and> int (took n) \<le> time_left T timeo n" for took
    by (rule rounds_in_time [OF assms(3)]) (use that assms(1) in auto)
  ultimately show ?thesis by blast
qed

text \<open>
  With the Linux port of \<^verbatim>\<open>poll\<close> a descriptor that has failed or was hung up, and is not readable or writable, is not noticed: the call returns at once, reports no event and changes nothing, and so does the next one.
  The queue spins until the descriptor is closed by other means.
\<close>

theorem hangup_not_noticed:
  assumes "q_iofds s q = ps" and "q_iofd_count s q = int (length ps)" and "length ps \<le> 1024" and "distinct ps" and "\<forall>p \<in> set ps. iofds s p \<noteq> None" and "2 \<le> m"
    and os: "\<forall>fds t. os fds t = (err, 0, r # rs)" and "0 < err" and "length rs = length ps" and quiet: "\<forall>x \<in> set (r # rs). x AND LINUX_POLLIN = 0 \<and> x AND LINUX_POLLOUT = 0" and "timeo < 0"
  shows "\<exists>ev. os_mp_wait_poll (Suc fuel) clock (\<lambda>n. linux_hal_poll junk os) q piper m timeo s = Ret (0, ev, s)"
proof -
  have none: "from_linux x = 0" if "x \<in> set (r # rs)" for x using quiet that by (auto simp: from_linux_def)
  have r: "pipe_entry piper (from_linux r) = []" "hits ps (map from_linux rs) = []" using none by (auto simp: pipe_entry_def hits_def ready_bits_def filter_empty_conv zip_map2 dest!: set_zip_rightD)
  have err: "err \<noteq> AOSL_HAL_RET_EINTR" using \<open>0 < err\<close> by simp
  have wait: "wait_rounds (Suc fuel) clock (\<lambda>n. linux_hal_poll junk os ((piper, AOSL_POLLIN) # map (\<lambda>p. (io_fd (the (iofds s p)), wanted (the (iofds s p)))) ps)) timeo = Ret (err, from_linux r # map from_linux rs)"
    using \<open>timeo < 0\<close> \<open>0 < err\<close> err os by (simp add: wait_rounds_def linux_hal_poll_def Let_def split_beta)
  show ?thesis using wait_poll_ok [where hal_poll = "\<lambda>n. linux_hal_poll junk os", OF assms(1-6) wait \<open>0 < err\<close>] assms(9) \<open>0 < err\<close> r by simp
qed

text \<open>A queue with one descriptor, asked for both directions.\<close>

definition wait_demo :: io_sys where
  "wait_demo = one_fd\<lparr>iofds := [3 \<mapsto> (new_iofd 7 one_params)\<lparr>io_fd := 5, io_flags := 3\<rparr>]\<rparr>"

lemma wait_demo_simps [simp]: "q_iofds wait_demo 7 = [3]" "q_iofd_count wait_demo 7 = 1" "iofds wait_demo 3 = Some ((new_iofd 7 one_params)\<lparr>io_fd := 5, io_flags := 3\<rparr>)"
  by (simp_all add: wait_demo_def one_fd_def)

theorem wait_poll_reports_witness:
  "\<exists>n ev rep. os_mp_wait_poll 1 (\<lambda>_. 0) (\<lambda>_ fds _. (2, [1, 3])) 7 4 64 (- 1) wait_demo = Ret (int n, ev, disarm_all rep wait_demo) \<and> n = 2 \<and> rep = [(3, 3)] \<and> take n ev = [(4, 1), (5, 3)]"
proof -
  have "pipe_entry 4 1 = [(4, 1)]" "hits [3] [3] = [(3, 3)]" "entry wait_demo (3, 3) = (5, 3)"
    by (simp_all add: pipe_entry_def hits_def entry_def ready_bits_def AOSL_POLLIN_def AOSL_POLLOUT_def)
  then show ?thesis using wait_poll_reports [of wait_demo 7 "[3]" 64 1 "\<lambda>_. 0" "\<lambda>_ fds _. (2, [1, 3])" 4 "- 1" 2 1 "[3]"]
    by (simp add: wait_rounds_def numeral_2_eq_2)
qed

theorem select_is_poll_witness:
  "os_mp_wait_select 1 (\<lambda>_. 0) (\<lambda>_ _ rd wr _. (2, rd, [])) 7 4 64 (- 1) wait_demo = os_mp_wait_poll 1 (\<lambda>_. 0) (poll_by_select (\<lambda>_ _ rd wr _. (2, rd, []))) 7 4 64 (- 1) wait_demo"
  using select_is_poll [of wait_demo 7] by simp

theorem interrupted_wait_in_time_witness:
  "os_mp_wait_epoll 2 (\<lambda>n. of_nat (min (10 * n) 20)) (\<lambda>n t. if n = 0 then (AOSL_HAL_RET_EINTR, []) else (if t = 30 then 1 else - 1, [(4, 1)])) 50 = Ret (1, [(4, 1)])"
proof -
  have "mono (\<lambda>n :: nat. min (10 * n) 20)" by (auto simp: mono_def)
  moreover have "min (10 * n) 20 < (2 :: nat) ^ 63" for n :: nat by (simp add: min_less_iff_disj)
  ultimately show ?thesis
    using interrupted_wait_in_time [where T = "\<lambda>n. min (10 * n) 20" and k = 1 and timeo = 50 and fuel = 2 and clock = "\<lambda>n. of_nat (min (10 * n) 20)" and err = 1 and ev = "[(4, 1)]"
      and call = "\<lambda>n t. if n = 0 then (AOSL_HAL_RET_EINTR, []) else (if t = 30 then 1 else - 1, [(4, 1)])"]
    by (simp add: time_left_def)
qed

theorem hangup_not_noticed_witness:
  "\<exists>ev. os_mp_wait_poll 1 (\<lambda>_. 0) (\<lambda>n. linux_hal_poll (\<lambda>_. 0) (\<lambda>_ _. (1, 0, [0, LINUX_POLLHUP]))) 7 4 64 (- 1) wait_demo = Ret (0, ev, wait_demo)"
  using hangup_not_noticed [of wait_demo 7 "[3]" 64 "\<lambda>_ _. (1, 0, [0, LINUX_POLLHUP])" 1 0 "[LINUX_POLLHUP]" "- 1" 0 "\<lambda>_. 0" "\<lambda>_. 0" 4]
  by (simp add: LINUX_POLLHUP_def LINUX_POLLIN_def LINUX_POLLOUT_def)


end
