(* ===== verification/Ipv6.thy ===== *)
theory Ipv6
  imports Inet
begin

text \<open>
  IPv6 addresses: \<^verbatim>\<open>include/kernel/ipv6.h\<close>, \<^verbatim>\<open>net/ipv6.c\<close> and the parts of \<^verbatim>\<open>net/sk_utils.c\<close> that choose the socket and the address for a destination. An address is its 16 bytes; \<^verbatim>\<open>s6_addr32_v [i]\<close>,
  which the code only compares with constants in network order, is the number that its four bytes make, the first one most significant. The configuration is the one with IPv6.
\<close>

subsection \<open>Addresses\<close>

definition be32 :: "bytes \<Rightarrow> nat \<Rightarrow> u32" where
  "be32 a i = push_bit 24 (ucast (a ! (4 * i))) OR push_bit 16 (ucast (a ! (4 * i + 1))) OR push_bit 8 (ucast (a ! (4 * i + 2))) OR ucast (a ! (4 * i + 3))"

definition IPV6_ADDR_ANY :: u32 where "IPV6_ADDR_ANY = 0"
definition IPV6_ADDR_UNICAST :: u32 where "IPV6_ADDR_UNICAST = 1"
definition IPV6_ADDR_MULTICAST :: u32 where "IPV6_ADDR_MULTICAST = 2"
definition IPV6_ADDR_LOOPBACK :: u32 where "IPV6_ADDR_LOOPBACK = 0x10"
definition IPV6_ADDR_LINKLOCAL :: u32 where "IPV6_ADDR_LINKLOCAL = 0x20"
definition IPV6_ADDR_SITELOCAL :: u32 where "IPV6_ADDR_SITELOCAL = 0x40"
definition IPV6_ADDR_COMPATv4 :: u32 where "IPV6_ADDR_COMPATv4 = 0x80"
definition IPV6_ADDR_MAPPED :: u32 where "IPV6_ADDR_MAPPED = 0x1000"
definition IPV6_ADDR_SCOPE_NODELOCAL :: u32 where "IPV6_ADDR_SCOPE_NODELOCAL = 1"
definition IPV6_ADDR_SCOPE_LINKLOCAL :: u32 where "IPV6_ADDR_SCOPE_LINKLOCAL = 2"
definition IPV6_ADDR_SCOPE_SITELOCAL :: u32 where "IPV6_ADDR_SCOPE_SITELOCAL = 5"
definition IPV6_ADDR_SCOPE_GLOBAL :: u32 where "IPV6_ADDR_SCOPE_GLOBAL = 0xe"

definition IPV6_ADDR_MC_SCOPE :: "bytes \<Rightarrow> u32" where
  "IPV6_ADDR_MC_SCOPE a = ucast (a ! 1 AND 0x0f)"

definition IPV6_ADDR_SCOPE_TYPE :: "u32 \<Rightarrow> u32" where
  "IPV6_ADDR_SCOPE_TYPE scope = push_bit 16 scope"

definition ipv6_addr_scope2type :: "u32 \<Rightarrow> u32" where
  "ipv6_addr_scope2type scope =
     (if scope = IPV6_ADDR_SCOPE_NODELOCAL then IPV6_ADDR_SCOPE_TYPE IPV6_ADDR_SCOPE_NODELOCAL OR IPV6_ADDR_LOOPBACK
      else if scope = IPV6_ADDR_SCOPE_LINKLOCAL then IPV6_ADDR_SCOPE_TYPE IPV6_ADDR_SCOPE_LINKLOCAL OR IPV6_ADDR_LINKLOCAL
      else if scope = IPV6_ADDR_SCOPE_SITELOCAL then IPV6_ADDR_SCOPE_TYPE IPV6_ADDR_SCOPE_SITELOCAL OR IPV6_ADDR_SITELOCAL
      else IPV6_ADDR_SCOPE_TYPE scope)"

definition ipv6_addr_type_full :: "bytes \<Rightarrow> u32" where
  "ipv6_addr_type_full a =
     (let st = be32 a 0; global = IPV6_ADDR_SCOPE_TYPE IPV6_ADDR_SCOPE_GLOBAL in
      if st AND 0xE0000000 \<noteq> 0 \<and> st AND 0xE0000000 \<noteq> 0xE0000000 then IPV6_ADDR_UNICAST OR global
      else if st AND 0xFF000000 = 0xFF000000 then IPV6_ADDR_MULTICAST OR ipv6_addr_scope2type (IPV6_ADDR_MC_SCOPE a)
      else if st AND 0xFFC00000 = 0xFE800000 then IPV6_ADDR_LINKLOCAL OR IPV6_ADDR_UNICAST OR IPV6_ADDR_SCOPE_TYPE IPV6_ADDR_SCOPE_LINKLOCAL
      else if st AND 0xFFC00000 = 0xFEC00000 then IPV6_ADDR_SITELOCAL OR IPV6_ADDR_UNICAST OR IPV6_ADDR_SCOPE_TYPE IPV6_ADDR_SCOPE_SITELOCAL
      else if st AND 0xFE000000 = 0xFC000000 then IPV6_ADDR_UNICAST OR global
      else if be32 a 0 OR be32 a 1 = 0 \<and> be32 a 2 = 0 then
        (if be32 a 3 = 0 then IPV6_ADDR_ANY
         else if be32 a 3 = 1 then IPV6_ADDR_LOOPBACK OR IPV6_ADDR_UNICAST OR IPV6_ADDR_SCOPE_TYPE IPV6_ADDR_SCOPE_LINKLOCAL
         else IPV6_ADDR_COMPATv4 OR IPV6_ADDR_UNICAST OR global)
      else if be32 a 0 OR be32 a 1 = 0 \<and> be32 a 2 = 0x0000ffff then IPV6_ADDR_MAPPED OR global
      else IPV6_ADDR_UNICAST OR global)"

definition ipv6_addr_v4mapped :: "bytes \<Rightarrow> bool" where
  "ipv6_addr_v4mapped a \<longleftrightarrow> be32 a 0 OR be32 a 1 OR (be32 a 2 XOR 0x0000ffff) = 0"

definition ipv6_addr_nat64 :: "bytes \<Rightarrow> bool" where
  "ipv6_addr_nat64 a \<longleftrightarrow> (be32 a 0 XOR 0x0064ff9b) OR be32 a 1 OR be32 a 2 = 0"

text \<open>Prefixes. The callers have lengths of up to 128; a word outside of the address is a fault.\<close>

definition ipv6_prefix_equal :: "bytes \<Rightarrow> bytes \<Rightarrow> nat \<Rightarrow> bool exec" where
  "ipv6_prefix_equal a1 a2 prefixlen =
     (let pdw = prefixlen div 32; pbi = prefixlen mod 32 in
      if 0 < pdw \<and> 16 < 4 * pdw then Fault
      else if 0 < pdw \<and> take (4 * pdw) a1 \<noteq> take (4 * pdw) a2 then Ret False
      else if 0 < pbi \<and> 16 \<le> 4 * pdw then Fault
      else if 0 < pbi \<and> (be32 a1 pdw XOR be32 a2 pdw) AND push_bit (32 - pbi) 0xffffffff \<noteq> 0 then Ret False
      else Ret True)"

definition high_bits :: "nat \<Rightarrow> u8" where
  "high_bits b = ucast (drop_bit b (0xff00 :: u32))"

definition ipv6_addr_prefix :: "bytes \<Rightarrow> nat \<Rightarrow> bytes exec" where
  "ipv6_addr_prefix addr plen =
     (let o8 = plen div 8; b = plen mod 8; pfx = take o8 addr @ replicate (16 - o8) 0 in
      if 16 < o8 then Fault else if b \<noteq> 0 then arr_set pfx o8 (addr ! o8 AND high_bits b) else Ret pfx)"

definition ipv6_addr_prefix_copy :: "bytes \<Rightarrow> bytes \<Rightarrow> nat \<Rightarrow> bytes exec" where
  "ipv6_addr_prefix_copy addr pfx plen =
     (let o8 = plen div 8; b = plen mod 8; addr = take o8 pfx @ drop o8 addr in
      if 16 < o8 then Fault else if b \<noteq> 0 then arr_set addr o8 ((addr ! o8 AND NOT (high_bits b)) OR (pfx ! o8 AND high_bits b)) else Ret addr)"

subsection \<open>Socket addresses\<close>

text \<open>
  \<^verbatim>\<open>aosl_sockaddr_t\<close>: the word behind the port is the IPv4 address or the flow information; the last two fields are there for IPv4 addresses too. The port is the number that the field stands for. The prefix is that of the calling thread's queue, none outside of
  queues.
\<close>

definition FAM_UNSPEC :: u16 where "FAM_UNSPEC = 0"
definition FAM_INET :: u16 where "FAM_INET = 2"
definition FAM_INET6 :: u16 where "FAM_INET6 = 10"

record sockaddr =
  sa_family :: u16
  sa_port :: u16
  sa_word :: bytes
  sa_addr6 :: bytes
  sa_scope :: u32

definition sa_zero :: sockaddr where
  "sa_zero = \<lparr>sa_family = FAM_UNSPEC, sa_port = 0, sa_word = replicate 4 0, sa_addr6 = replicate 16 0, sa_scope = 0\<rparr>"

definition nat64_prefix :: bytes where
  "nat64_prefix = [0, 0x64, 0xff, 0x9b, 0, 0, 0, 0, 0, 0, 0, 0]"

definition ipv6_sk_addr_from_ipv4 :: "bytes option \<Rightarrow> sockaddr \<Rightarrow> sockaddr" where
  "ipv6_sk_addr_from_ipv4 prefix v4 =
     sa_zero\<lparr>sa_family := FAM_INET6, sa_port := sa_port v4, sa_addr6 := (case prefix of Some p \<Rightarrow> take 12 p | None \<Rightarrow> nat64_prefix) @ sa_word v4\<rparr>"

definition ipv6_addr_v4_compatible :: "bytes option \<Rightarrow> bytes \<Rightarrow> bool exec" where
  "ipv6_addr_v4_compatible prefix a =
     (case prefix of
        None \<Rightarrow> Ret (ipv6_addr_v4mapped a \<or> ipv6_addr_nat64 a)
      | Some p \<Rightarrow> ebind (ipv6_prefix_equal a p 96) (\<lambda>eq. Ret (eq \<or> ipv6_addr_v4mapped a \<or> ipv6_addr_nat64 a)))"

definition sk_addr_ipv4_compatible :: "bytes option \<Rightarrow> sockaddr \<Rightarrow> bool exec" where
  "sk_addr_ipv4_compatible prefix sa =
     (if sa_family sa = FAM_INET then Ret True
      else if sa_family sa = FAM_INET6 then ipv6_addr_v4_compatible prefix (sa_addr6 sa)
      else Ret False)"

text \<open>\<^verbatim>\<open>memset\<close> clears the 16 bytes of an IPv4 address of the output, half of the field for the IPv6 address among them.\<close>

definition ipv6_sk_addr_to_ipv4 :: "bytes option \<Rightarrow> sockaddr \<Rightarrow> sockaddr \<Rightarrow> (int \<times> sockaddr) exec" where
  "ipv6_sk_addr_to_ipv4 prefix out v6 =
     ebind (sk_addr_ipv4_compatible prefix v6) (\<lambda>ok.
     if \<not> ok then Ret (- 1, out)
     else Ret (0, out\<lparr>sa_family := FAM_INET, sa_port := sa_port v6, sa_word := drop 12 (sa_addr6 v6), sa_addr6 := replicate 8 0 @ drop 8 (sa_addr6 out)\<rparr>))"

text \<open>The prefix that a queue keeps; \<open>mem\<close>: whether memory for it can be had.\<close>

definition q_update_ipv6_prefix :: "bool \<Rightarrow> bytes option \<Rightarrow> bytes option \<Rightarrow> bytes option" where
  "q_update_ipv6_prefix mem prefix a6 =
     (case a6 of
        Some a \<Rightarrow> if ipv6_addr_v4mapped a \<or> ipv6_addr_nat64 a then prefix else if prefix = None \<and> \<not> mem then None else Some (take 12 a)
      | None \<Rightarrow> None)"

text \<open>
  A pair of sockets. Which of the two a call uses and with which address: \<^verbatim>\<open>aosl_ip_sk_sendto\<close>, \<^verbatim>\<open>aosl_mpq_ip_sk_connect\<close> and \<^verbatim>\<open>aosl_mpq_ip_sk_connect_on_q\<close> share these lines. \<open>stack\<close> is what the local
  variable \<^verbatim>\<open>addr\<close> holds.
\<close>

record ip_sk =
  sk_v4 :: int
  sk_v6 :: int

definition ip_sk_choose :: "bytes option \<Rightarrow> sockaddr \<Rightarrow> ip_sk \<Rightarrow> sockaddr \<Rightarrow> (int \<times> sockaddr) option exec" where
  "ip_sk_choose prefix stack sk dest =
     (if sa_family dest = FAM_INET then
        (if sk_v4 sk \<noteq> - 1 then Ret (Some (sk_v4 sk, dest))
         else if sk_v6 sk \<noteq> - 1 then Ret (Some (sk_v6 sk, ipv6_sk_addr_from_ipv4 prefix dest))
         else Ret None)
      else if sa_family dest = FAM_INET6 then
        (if sk_v6 sk \<noteq> - 1 then Ret (Some (sk_v6 sk, dest))
         else if sk_v4 sk \<noteq> - 1 then ebind (ipv6_sk_addr_to_ipv4 prefix stack dest) (\<lambda>(err, addr). Ret (if err < 0 then None else Some (sk_v4 sk, addr)))
         else Ret None)
      else Ret None)"

definition aosl_ip_sk_sendto :: "(int \<Rightarrow> sockaddr \<Rightarrow> int \<times> int) \<Rightarrow> bytes option \<Rightarrow> sockaddr \<Rightarrow> ip_sk \<Rightarrow> sockaddr \<Rightarrow> (int \<times> int) exec" where
  "aosl_ip_sk_sendto sendto prefix stack sk dest = ebind (ip_sk_choose prefix stack sk dest) (\<lambda>r. case r of Some (fd, addr) \<Rightarrow> Ret (sendto fd addr) | None \<Rightarrow> Ret (- 1, AOSL_EINVAL))"

definition aosl_sk_addr_ip_equal :: "sockaddr \<Rightarrow> sockaddr \<Rightarrow> bool" where
  "aosl_sk_addr_ip_equal a1 a2 \<longleftrightarrow> sa_family a1 = sa_family a2 \<and>
     (sa_family a1 = FAM_UNSPEC \<or> sa_family a1 = FAM_INET \<and> sa_word a1 = sa_word a2 \<or> sa_family a1 = FAM_INET6 \<and> sa_addr6 a1 = sa_addr6 a2)"

definition aosl_ip_sk_addr_from_string :: "sockaddr \<Rightarrow> string \<Rightarrow> u16 \<Rightarrow> (int \<times> sockaddr) exec" where
  "aosl_ip_sk_addr_from_string sa str port =
     (if CHR '':'' \<in> set str then
        ebind (k_inet_pton AOSL_AF_INET6 str) (\<lambda>r. case r of
          Inr (Some a) \<Rightarrow> Ret (28, sa_zero\<lparr>sa_family := FAM_INET6, sa_port := port, sa_addr6 := map of_nat a\<rparr>)
        | _ \<Rightarrow> Ret (0, sa_zero))
      else
        ebind (k_inet_pton AOSL_AF_INET str) (\<lambda>r. case r of
          Inr (Some a) \<Rightarrow> Ret (16, sa\<lparr>sa_family := FAM_INET, sa_port := port, sa_word := map of_nat a, sa_addr6 := replicate 8 0 @ drop 8 (sa_addr6 sa)\<rparr>)
        | _ \<Rightarrow> Ret (0, sa\<lparr>sa_family := FAM_UNSPEC, sa_port := 0, sa_word := replicate 4 0, sa_addr6 := replicate 8 0 @ drop 8 (sa_addr6 sa)\<rparr>)))"

subsection \<open>Bits\<close>

text \<open>Bit \<open>i\<close> of an address, the first bit of the first byte being bit 0.\<close>

definition addr_bit :: "bytes \<Rightarrow> nat \<Rightarrow> bool" where
  "addr_bit a i \<longleftrightarrow> bit (a ! (i div 8)) (7 - i mod 8)"

lemma bit_u8_ge [simp]: "8 \<le> n \<Longrightarrow> \<not> bit (w :: u8) n"
  using bit_imp_le_length [of w n] by auto

lemma bit_be32: "bit (be32 a i) k \<longleftrightarrow> k < 32 \<and> bit (a ! (4 * i + (3 - k div 8))) (k mod 8)"
proof -
  consider "k < 8" | "8 \<le> k" "k < 16" | "16 \<le> k" "k < 24" | "24 \<le> k" "k < 32" | "32 \<le> k" by linarith
  then show ?thesis
  proof cases
    case 1
    then show ?thesis by (simp add: be32_def bit_or_iff bit_push_bit_iff bit_ucast_iff)
  next
    case 2
    then have "k div 8 = 1" "k mod 8 = k - 8" "k - 8 < 32" by presburger+
    then show ?thesis using 2 by (simp add: be32_def bit_or_iff bit_push_bit_iff bit_ucast_iff)
  next
    case 3
    then have "k div 8 = 2" "k mod 8 = k - 16" "k - 16 < 32" by presburger+
    then show ?thesis using 3 by (simp add: be32_def bit_or_iff bit_push_bit_iff bit_ucast_iff)
  next
    case 4
    then have "k div 8 = 3" "k mod 8 = k - 24" "k - 24 < 32" by presburger+
    then show ?thesis using 4 by (simp add: be32_def bit_or_iff bit_push_bit_iff bit_ucast_iff)
  next
    case 5
    then show ?thesis using bit_imp_le_length [of "be32 a i" k] by auto
  qed
qed

lemma div8: "r < 8 \<Longrightarrow> (r + 8 * q) div 8 = (q :: nat)" "r < 8 \<Longrightarrow> (r + 8 * q) mod 8 = r"
  by simp_all

lemma be32_addr_bit: "k < 32 \<Longrightarrow> bit (be32 a i) (31 - k) \<longleftrightarrow> addr_bit a (32 * i + k)"
proof -
  assume k: "k < 32"
  have "(32 * i + k) div 8 = 4 * i + k div 8" "(32 * i + k) mod 8 = k mod 8" by presburger+
  moreover have *: "31 - k = (7 - k mod 8) + 8 * (3 - k div 8)" using k div_mult_mod_eq [of k 8] by linarith
  have "(31 - k) div 8 = 3 - k div 8" "(31 - k) mod 8 = 7 - k mod 8" unfolding * using div8 [of "7 - k mod 8" "3 - k div 8"] by auto
  moreover have "3 - (3 - k div 8) = k div 8" "31 - k < 32" using k by linarith+
  ultimately show ?thesis using k by (simp add: bit_be32 addr_bit_def)
qed

lemma u8_eq_bits: "x = (y :: u8) \<longleftrightarrow> (\<forall>k < 8. bit x (7 - k) = bit y (7 - k))"
proof -
  have "bit x n = bit y n" if "\<forall>k < 8. bit x (7 - k) = bit y (7 - k)" for n
  proof (cases "n < 8")
    case True
    then have "7 - (7 - n) = n" "7 - n < 8" by auto
    then show ?thesis using that by metis
  qed simp
  then show ?thesis by (auto simp: bit_eq_iff)
qed

lemma take_bits:
  assumes "n \<le> length a" "n \<le> length b"
  shows "take n a = take n b \<longleftrightarrow> (\<forall>i < 8 * n. addr_bit a i = addr_bit b i)"
proof -
  have "take n a = take n b \<longleftrightarrow> (\<forall>j < n. a ! j = b ! j)" using assms by (auto simp: list_eq_iff_nth_eq)
  also have "\<dots> \<longleftrightarrow> (\<forall>j < n. \<forall>k < 8. addr_bit a (8 * j + k) = addr_bit b (8 * j + k))" by (simp add: u8_eq_bits addr_bit_def)
  also have "\<dots> \<longleftrightarrow> (\<forall>i < 8 * n. addr_bit a i = addr_bit b i)"
  proof
    assume *: "\<forall>j < n. \<forall>k < 8. addr_bit a (8 * j + k) = addr_bit b (8 * j + k)"
    show "\<forall>i < 8 * n. addr_bit a i = addr_bit b i"
    proof (intro allI impI)
      fix i assume "i < 8 * n"
      then have "i div 8 < n" "i mod 8 < 8" "i = 8 * (i div 8) + i mod 8" by auto
      then show "addr_bit a i = addr_bit b i" using * by metis
    qed
  qed auto
  finally show ?thesis .
qed

lemma be32_masked:
  assumes "0 < p" "p < 32"
  shows "(be32 a w XOR be32 b w) AND push_bit (32 - p) 0xffffffff = 0 \<longleftrightarrow> (\<forall>i < p. addr_bit a (32 * w + i) = addr_bit b (32 * w + i))"
proof -
  have mask: "(0xffffffff :: u32) = mask 32" by (simp add: mask_eq_exp_minus_1)
  have "(be32 a w XOR be32 b w) AND push_bit (32 - p) 0xffffffff = 0 \<longleftrightarrow> (\<forall>k. 32 - p \<le> k \<and> k < 32 \<longrightarrow> bit (be32 a w) k = bit (be32 b w) k)"
    unfolding bit_eq_iff mask using assms by (auto simp: bit_and_iff bit_xor_iff bit_push_bit_iff bit_mask_iff bit_be32)
  also have "\<dots> \<longleftrightarrow> (\<forall>i < p. bit (be32 a w) (31 - i) = bit (be32 b w) (31 - i))"
  proof
    assume *: "\<forall>i < p. bit (be32 a w) (31 - i) = bit (be32 b w) (31 - i)"
    show "\<forall>k. 32 - p \<le> k \<and> k < 32 \<longrightarrow> bit (be32 a w) k = bit (be32 b w) k"
    proof (intro allI impI)
      fix k :: nat assume "32 - p \<le> k \<and> k < 32"
      then have "31 - k < p" "31 - (31 - k) = k" using assms by auto
      then show "bit (be32 a w) k = bit (be32 b w) k" using * by metis
    qed
  next
    assume *: "\<forall>k. 32 - p \<le> k \<and> k < 32 \<longrightarrow> bit (be32 a w) k = bit (be32 b w) k"
    have "32 - p \<le> 31 - i \<and> 31 - i < 32" if "i < p" for i using that assms by auto
    then show "\<forall>i < p. bit (be32 a w) (31 - i) = bit (be32 b w) (31 - i)" using * by blast
  qed
  also have "\<dots> \<longleftrightarrow> (\<forall>i < p. addr_bit a (32 * w + i) = addr_bit b (32 * w + i))" using assms by (simp add: be32_addr_bit)
  finally show ?thesis .
qed

lemma prefix_equal_bits:
  assumes "length a = 16" "length b = 16" "n \<le> 128"
  shows "ipv6_prefix_equal a b n = Ret (\<forall>i < n. addr_bit a i = addr_bit b i)"
proof -
  let ?w = "n div 32" and ?p = "n mod 32"
  have n: "32 * ?w + ?p = n" by (rule mult_div_mod_eq)
  then have "4 * ?w \<le> 16" "0 < ?p \<longrightarrow> 4 * ?w < 16" using assms(3) by linarith+
  note n = n this
  have tk: "take (4 * ?w) a = take (4 * ?w) b \<longleftrightarrow> (\<forall>i < 32 * ?w. addr_bit a i = addr_bit b i)" using take_bits [of "4 * ?w" a b] assms n(2) by simp
  have all: "(\<forall>i < n. addr_bit a i = addr_bit b i) \<longleftrightarrow> (\<forall>i < 32 * ?w. addr_bit a i = addr_bit b i) \<and> (\<forall>i < ?p. addr_bit a (32 * ?w + i) = addr_bit b (32 * ?w + i))"
  proof
    assume *: "(\<forall>i < 32 * ?w. addr_bit a i = addr_bit b i) \<and> (\<forall>i < ?p. addr_bit a (32 * ?w + i) = addr_bit b (32 * ?w + i))"
    show "\<forall>i < n. addr_bit a i = addr_bit b i"
    proof (intro allI impI)
      fix i assume "i < n"
      then have "i < 32 * ?w \<or> i - 32 * ?w < ?p \<and> i = 32 * ?w + (i - 32 * ?w)" using n(1) by linarith
      then show "addr_bit a i = addr_bit b i" using * by metis
    qed
  next
    assume *: "\<forall>i < n. addr_bit a i = addr_bit b i"
    have "32 * ?w + i < n" if "i < ?p" for i using n(1) that by linarith
    moreover have "i < n" if "i < 32 * ?w" for i using n(1) that by linarith
    ultimately show "(\<forall>i < 32 * ?w. addr_bit a i = addr_bit b i) \<and> (\<forall>i < ?p. addr_bit a (32 * ?w + i) = addr_bit b (32 * ?w + i))" using * by blast
  qed
  show ?thesis
  proof (cases "take (4 * ?w) a = take (4 * ?w) b")
    case True
    then have "(\<forall>i < n. addr_bit a i = addr_bit b i) \<longleftrightarrow> (\<forall>i < ?p. addr_bit a (32 * ?w + i) = addr_bit b (32 * ?w + i))" using all tk by blast
    moreover have "ipv6_prefix_equal a b n = Ret (\<not> (0 < ?p \<and> (be32 a ?w XOR be32 b ?w) AND push_bit (32 - ?p) 0xffffffff \<noteq> 0))" 
    proof (cases "0 < ?p")
      case pos: True
      then have "?w < 4" using n(3) by simp
      then show ?thesis using True pos unfolding ipv6_prefix_equal_def Let_def by simp
    next
      case False
      then show ?thesis using True n(2) unfolding ipv6_prefix_equal_def Let_def by simp
    qed
    moreover have "(\<not> (0 < ?p \<and> (be32 a ?w XOR be32 b ?w) AND push_bit (32 - ?p) 0xffffffff \<noteq> 0)) \<longleftrightarrow> (\<forall>i < ?p. addr_bit a (32 * ?w + i) = addr_bit b (32 * ?w + i))"
      using be32_masked [of ?p a ?w b] by (cases "?p = 0") simp_all
    ultimately show ?thesis by (simp only:)
  next
    case False
    then have "0 < ?w" by (cases "?w") simp_all
    then have "ipv6_prefix_equal a b n = Ret False" using False n(2) unfolding ipv6_prefix_equal_def Let_def by simp
    then show ?thesis using all tk False by simp
  qed
qed


subsection \<open>Words and bytes\<close>

definition byte :: "u32 \<Rightarrow> nat \<Rightarrow> u8" where
  "byte x m = ucast (drop_bit (24 - 8 * m) x)"

lemma bit_byte: "bit (byte x m) k \<longleftrightarrow> k < 8 \<and> bit x (24 - 8 * m + k)"
  by (auto simp: byte_def bit_ucast_iff bit_drop_bit_eq)

lemma byte_ops: "byte (x AND y) m = byte x m AND byte y m" "byte (x OR y) m = byte x m OR byte y m" "byte (x XOR y) m = byte x m XOR byte y m"
  by (auto simp: bit_eq_iff bit_byte bit_and_iff bit_or_iff bit_xor_iff)

lemma word_bytes: "x = y \<longleftrightarrow> byte x 0 = byte y 0 \<and> byte x 1 = byte y 1 \<and> byte x 2 = byte y 2 \<and> byte x 3 = byte y 3"
proof
  assume *: "byte x 0 = byte y 0 \<and> byte x 1 = byte y 1 \<and> byte x 2 = byte y 2 \<and> byte x 3 = byte y 3"
  have "bit x k = bit y k" for k
  proof -
    consider "k < 8" | "8 \<le> k" "k < 16" | "16 \<le> k" "k < 24" | "24 \<le> k" "k < 32" | "32 \<le> k" by linarith
    then show ?thesis
    proof cases
      case 1
      then show ?thesis using * bit_byte [of x 3 k] bit_byte [of y 3 k] by simp
    next
      case 2
      then have "k - 8 < 8" by simp
      then show ?thesis using 2 * bit_byte [of x 2 "k - 8"] bit_byte [of y 2 "k - 8"] by simp
    next
      case 3
      then have "k - 16 < 8" by simp
      then show ?thesis using 3 * bit_byte [of x 1 "k - 16"] bit_byte [of y 1 "k - 16"] by simp
    next
      case 4
      then have "k - 24 < 8" by simp
      then show ?thesis using 4 * bit_byte [of x 0 "k - 24"] bit_byte [of y 0 "k - 24"] by simp
    next
      case 5
      then show ?thesis using bit_imp_le_length [of x k] bit_imp_le_length [of y k] by auto
    qed
  qed
  then show "x = y" by (simp add: bit_eq_iff)
qed simp

lemma byte_be32: "m < 4 \<Longrightarrow> byte (be32 a i) m = a ! (4 * i + m)"
proof -
  assume m: "m < 4"
  have "24 - 8 * m + k = k + 8 * (3 - m)" for k using m by simp
  then have "bit (byte (be32 a i) m) k \<longleftrightarrow> bit (a ! (4 * i + m)) k" for k using m by (cases "k < 8") (auto simp: bit_byte bit_be32 div8)
  then show ?thesis by (simp add: bit_eq_iff)
qed

lemma be32_bytes: "byte (be32 a 0) 0 = a ! 0" "byte (be32 a 0) 1 = a ! 1" "byte (be32 a 0) 2 = a ! 2" "byte (be32 a 0) 3 = a ! 3" "byte (be32 a 1) 0 = a ! 4" "byte (be32 a 1) 1 = a ! 5" "byte (be32 a 1) 2 = a ! 6" "byte (be32 a 1) 3 = a ! 7" "byte (be32 a 2) 0 = a ! 8" "byte (be32 a 2) 1 = a ! 9" "byte (be32 a 2) 2 = a ! 10" "byte (be32 a 2) 3 = a ! 11" "byte (be32 a 3) 0 = a ! 12" "byte (be32 a 3) 1 = a ! 13" "byte (be32 a 3) 2 = a ! 14" "byte (be32 a 3) 3 = a ! 15"
  by (simp_all add: byte_be32 del: One_nat_def add_2_eq_Suc add_2_eq_Suc')

lemma byte_consts: "byte 0 0 = 0" "byte 0 1 = 0" "byte 0 2 = 0" "byte 0 3 = 0" "byte 1 0 = 0" "byte 1 1 = 0" "byte 1 2 = 0" "byte 1 3 = 1" "byte 0xffff 0 = 0" "byte 0xffff 1 = 0" "byte 0xffff 2 = 0xff" "byte 0xffff 3 = 0xff" "byte 0x64ff9b 0 = 0" "byte 0x64ff9b 1 = 0x64" "byte 0x64ff9b 2 = 0xff" "byte 0x64ff9b 3 = 0x9b" "byte 0xe0000000 0 = 0xe0" "byte 0xe0000000 1 = 0" "byte 0xe0000000 2 = 0" "byte 0xe0000000 3 = 0" "byte 0xff000000 0 = 0xff" "byte 0xff000000 1 = 0" "byte 0xff000000 2 = 0" "byte 0xff000000 3 = 0" "byte 0xffc00000 0 = 0xff" "byte 0xffc00000 1 = 0xc0" "byte 0xffc00000 2 = 0" "byte 0xffc00000 3 = 0" "byte 0xfe800000 0 = 0xfe" "byte 0xfe800000 1 = 0x80" "byte 0xfe800000 2 = 0" "byte 0xfe800000 3 = 0" "byte 0xfec00000 0 = 0xfe" "byte 0xfec00000 1 = 0xc0" "byte 0xfec00000 2 = 0" "byte 0xfec00000 3 = 0" "byte 0xfe000000 0 = 0xfe" "byte 0xfe000000 1 = 0" "byte 0xfe000000 2 = 0" "byte 0xfe000000 3 = 0" "byte 0xfc000000 0 = 0xfc" "byte 0xfc000000 1 = 0" "byte 0xfc000000 2 = 0" "byte 0xfc000000 3 = 0"
  by (simp_all add: byte_def)

lemma u8_or_0: "x OR y = 0 \<longleftrightarrow> x = 0 \<and> y = (0 :: u8)" and u8_xor_0: "x XOR y = 0 \<longleftrightarrow> x = (y :: u8)"
  by (auto simp: bit_eq_iff bit_or_iff bit_xor_iff)

text \<open>The two kinds of addresses that stand for IPv4 ones without a prefix of the queue.\<close>

lemma list16: "length a = 16 \<Longrightarrow> a = [a!0, a!1, a!2, a!3, a!4, a!5, a!6, a!7, a!8, a!9, a!10, a!11, a!12, a!13, a!14, a!15]"
  by (rule nth_equalityI) (auto simp: less_Suc_eq numeral_eq_Suc)

lemma take12: "length a = 16 \<Longrightarrow> take 12 a = [a!0, a!1, a!2, a!3, a!4, a!5, a!6, a!7, a!8, a!9, a!10, a!11]"
  by (subst list16) simp_all

lemma v4mapped_iff: "length a = 16 \<Longrightarrow> ipv6_addr_v4mapped a \<longleftrightarrow> take 12 a = [0, 0, 0, 0, 0, 0, 0, 0, 0, 0, 0xff, 0xff]"
  by (simp add: take12 ipv6_addr_v4mapped_def word_bytes byte_ops be32_bytes byte_consts u8_or_0 u8_xor_0 del: One_nat_def) (auto simp del: One_nat_def)

lemma nat64_iff: "length a = 16 \<Longrightarrow> ipv6_addr_nat64 a \<longleftrightarrow> take 12 a = nat64_prefix"
  by (simp add: take12 ipv6_addr_nat64_def nat64_prefix_def word_bytes byte_ops be32_bytes byte_consts u8_or_0 u8_xor_0 del: One_nat_def) (auto simp del: One_nat_def)


lemma bit_high_bits: "b < 8 \<Longrightarrow> r < 8 \<Longrightarrow> bit (high_bits b) (7 - r) \<longleftrightarrow> r < b"
proof -
  assume "b < 8" "r < 8"
  then have r: "r \<in> {0, 1, 2, 3, 4, 5, 6, 7}" and b: "b \<in> {0, 1, 2, 3, 4, 5, 6, 7}" by auto
  show ?thesis using r b by (elim insertE emptyE) (simp_all add: high_bits_def)
qed

lemma less_by_bytes: "i < n \<longleftrightarrow> i div 8 < n div 8 \<or> i div 8 = n div 8 \<and> i mod 8 < n mod (8 :: nat)"
proof -
  have "i = 8 * (i div 8) + i mod 8" "n = 8 * (n div 8) + n mod 8" "i mod 8 < 8" "n mod 8 < 8" by simp_all
  then show ?thesis by (cases "i div 8 < n div 8"; cases "i div 8 = n div 8") linarith+
qed

lemma addr_prefix_bits:
  assumes "length a = 16" "n \<le> 128"
  shows "\<exists>p. ipv6_addr_prefix a n = Ret p \<and> length p = 16 \<and> (\<forall>i < 128. addr_bit p i \<longleftrightarrow> i < n \<and> addr_bit a i)"
proof -
  let ?o = "n div 8" and ?b = "n mod 8"
  let ?p = "take ?o a @ replicate (16 - ?o) 0"
  have o: "?o \<le> 16" "?b \<noteq> 0 \<longrightarrow> ?o < 16" using assms(2) by presburger+
  have len: "length ?p = 16" using o assms(1) by simp
  have nth: "?p ! j = (if j < ?o then a ! j else 0)" if "j < 16" for j using that o assms(1) by (auto simp: nth_append)
  define p where "p = (if ?b \<noteq> 0 then ?p[?o := a ! ?o AND high_bits ?b] else ?p)"
  have "ipv6_addr_prefix a n = Ret p" using o len by (auto simp: ipv6_addr_prefix_def Let_def p_def)
  moreover have "length p = 16" using len by (simp add: p_def)
  moreover have "addr_bit p i \<longleftrightarrow> i < n \<and> addr_bit a i" if i: "i < 128" for i
  proof -
    have j: "i div 8 < 16" "i mod 8 < 8" using i by auto
    show ?thesis
    proof (cases "i div 8 = ?o \<and> ?b \<noteq> 0")
      case True
      then have "p ! (i div 8) = a ! (i div 8) AND high_bits ?b" using o len by (simp add: p_def)
      then show ?thesis using True bit_high_bits [of ?b "i mod 8"] less_by_bytes [of i n] by (auto simp: addr_bit_def bit_and_iff)
    next
      case False
      then have "p ! (i div 8) = (if i div 8 < ?o then a ! (i div 8) else 0)" using nth [OF j(1)] by (auto simp: p_def)
      then show ?thesis using False less_by_bytes [of i n] by (auto simp: addr_bit_def)
    qed
  qed
  ultimately show ?thesis by blast
qed

text \<open>The types of addresses, by their bytes.\<close>

definition addr_type_table :: "bytes \<Rightarrow> u32" where
  "addr_type_table a =
     (if a ! 0 = 0xff then IPV6_ADDR_MULTICAST OR ipv6_addr_scope2type (ucast (a ! 1 AND 0x0f))
      else if a ! 0 = 0xfe \<and> a ! 1 AND 0xc0 = 0x80 then IPV6_ADDR_LINKLOCAL OR IPV6_ADDR_UNICAST OR IPV6_ADDR_SCOPE_TYPE IPV6_ADDR_SCOPE_LINKLOCAL
      else if a ! 0 = 0xfe \<and> a ! 1 AND 0xc0 = 0xc0 then IPV6_ADDR_SITELOCAL OR IPV6_ADDR_UNICAST OR IPV6_ADDR_SCOPE_TYPE IPV6_ADDR_SCOPE_SITELOCAL
      else if a = replicate 16 0 then IPV6_ADDR_ANY
      else if a = replicate 15 0 @ [1] then IPV6_ADDR_LOOPBACK OR IPV6_ADDR_UNICAST OR IPV6_ADDR_SCOPE_TYPE IPV6_ADDR_SCOPE_LINKLOCAL
      else if take 12 a = replicate 12 0 then IPV6_ADDR_COMPATv4 OR IPV6_ADDR_UNICAST OR IPV6_ADDR_SCOPE_TYPE IPV6_ADDR_SCOPE_GLOBAL
      else if take 12 a = replicate 10 0 @ [0xff, 0xff] then IPV6_ADDR_MAPPED OR IPV6_ADDR_SCOPE_TYPE IPV6_ADDR_SCOPE_GLOBAL
      else IPV6_ADDR_UNICAST OR IPV6_ADDR_SCOPE_TYPE IPV6_ADDR_SCOPE_GLOBAL)"

lemma zeros: "replicate 12 (0 :: u8) = [0, 0, 0, 0, 0, 0, 0, 0, 0, 0, 0, 0]" "replicate 10 (0 :: u8) = [0, 0, 0, 0, 0, 0, 0, 0, 0, 0]" "replicate 16 (0 :: u8) = [0, 0, 0, 0, 0, 0, 0, 0, 0, 0, 0, 0, 0, 0, 0, 0]" "replicate 15 (0 :: u8) = [0, 0, 0, 0, 0, 0, 0, 0, 0, 0, 0, 0, 0, 0, 0]"
  by (simp_all add: numeral_eq_Suc)

lemma zero_words:
  assumes "length a = 16"
  shows "be32 a 0 OR be32 a 1 = 0 \<and> be32 a 2 = 0 \<longleftrightarrow> take 12 a = replicate 12 0"
    and "be32 a 0 OR be32 a 1 = 0 \<and> be32 a 2 = 0xffff \<longleftrightarrow> take 12 a = replicate 10 0 @ [0xff, 0xff]"
    and "take 12 a = replicate 12 0 \<Longrightarrow> be32 a 3 = 0 \<longleftrightarrow> a = replicate 16 0"
    and "take 12 a = replicate 12 0 \<Longrightarrow> be32 a 3 = 1 \<longleftrightarrow> a = replicate 15 0 @ [1]"
proof -
  show "be32 a 0 OR be32 a 1 = 0 \<and> be32 a 2 = 0 \<longleftrightarrow> take 12 a = replicate 12 0" "be32 a 0 OR be32 a 1 = 0 \<and> be32 a 2 = 0xffff \<longleftrightarrow> take 12 a = replicate 10 0 @ [0xff, 0xff]"
    unfolding zeros by (simp_all add: take12 [OF assms] word_bytes byte_ops be32_bytes byte_consts u8_or_0 del: One_nat_def) (auto simp del: One_nat_def)
  assume "take 12 a = replicate 12 0"
  then have a: "a = [0, 0, 0, 0, 0, 0, 0, 0, 0, 0, 0, 0, a!12, a!13, a!14, a!15]" using list16 [OF assms] take12 [OF assms] unfolding zeros by simp
  have eq: "a = [0, 0, 0, 0, 0, 0, 0, 0, 0, 0, 0, 0, x, y, z, u] \<longleftrightarrow> a!12 = x \<and> a!13 = y \<and> a!14 = z \<and> a!15 = u" for x y z u
    by (subst (1) a) simp
  show "be32 a 3 = 0 \<longleftrightarrow> a = replicate 16 0" "be32 a 3 = 1 \<longleftrightarrow> a = replicate 15 0 @ [1]"
    unfolding zeros append.simps eq by (simp_all add: word_bytes be32_bytes byte_consts del: One_nat_def)
qed


lemma first_bytes:
  "be32 a 0 AND 0xE0000000 = 0 \<longleftrightarrow> a ! 0 AND 0xE0 = 0" "be32 a 0 AND 0xE0000000 = 0xE0000000 \<longleftrightarrow> a ! 0 AND 0xE0 = 0xE0"
  "be32 a 0 AND 0xFF000000 = 0xFF000000 \<longleftrightarrow> a ! 0 AND 0xff = 0xff" "be32 a 0 AND 0xFFC00000 = 0xFE800000 \<longleftrightarrow> a ! 0 AND 0xff = 0xfe \<and> a ! 1 AND 0xc0 = 0x80"
  "be32 a 0 AND 0xFFC00000 = 0xFEC00000 \<longleftrightarrow> a ! 0 AND 0xff = 0xfe \<and> a ! 1 AND 0xc0 = 0xc0" "be32 a 0 AND 0xFE000000 = 0xFC000000 \<longleftrightarrow> a ! 0 AND 0xfe = 0xfc"
  by (simp_all add: word_bytes byte_ops be32_bytes byte_consts del: One_nat_def)

lemma u8_and_ff [simp]: "(x :: u8) AND 0xff = x"
proof -
  have "(0xff :: u8) = mask 8" by (simp add: mask_eq_exp_minus_1)
  then show ?thesis by (auto simp: bit_eq_iff bit_and_iff bit_mask_iff dest: bit_imp_le_length)
qed

lemma addr_type_by_bytes:
  assumes "length a = 16"
  shows "ipv6_addr_type_full a = addr_type_table a"
proof -
  have zero: "take 12 a = replicate 12 0 \<Longrightarrow> a ! 0 = 0" "take 12 a = replicate 10 0 @ [0xff, 0xff] \<Longrightarrow> a ! 0 = 0" unfolding zeros using take12 [OF assms] by simp_all
  have z: "a = replicate 16 0 \<Longrightarrow> take 12 a = replicate 12 0" "a = replicate 15 0 @ [1] \<Longrightarrow> take 12 a = replicate 12 0" unfolding zeros by simp_all
  consider (ff) "a ! 0 = 0xff" | (fe) "a ! 0 = 0xfe" | (other) "a ! 0 \<noteq> 0xff" "a ! 0 \<noteq> 0xfe" by blast
  then show ?thesis
  proof cases
    case ff
    then show ?thesis by (simp add: ipv6_addr_type_full_def addr_type_table_def first_bytes IPV6_ADDR_MC_SCOPE_def Let_def)
  next
    case fe
    then have n: "take 12 a \<noteq> replicate 12 0" "take 12 a \<noteq> replicate 10 0 @ [0xff, 0xff]" using zero by auto
    then have "a \<noteq> replicate 16 0" "a \<noteq> replicate 15 0 @ [1]" using z by auto
    then show ?thesis using fe n zero_words(1,2) [OF assms] by (cases "be32 a 0 OR be32 a 1 = 0") (simp_all add: ipv6_addr_type_full_def addr_type_table_def first_bytes Let_def del: One_nat_def)
  next
    case other
    show ?thesis
    proof (cases "take 12 a = replicate 12 0")
      case True
      then have "be32 a 0 OR be32 a 1 = 0" "be32 a 2 = 0" using zero_words(1) [OF assms] by auto
      then show ?thesis using True zero(1) [OF True] zero_words(3,4) [OF assms True] by (simp add: ipv6_addr_type_full_def addr_type_table_def first_bytes Let_def)
    next
      case False
      then have n: "a \<noteq> replicate 16 0" "a \<noteq> replicate 15 0 @ [1]" using z by auto
      show ?thesis
      proof (cases "take 12 a = replicate 10 0 @ [0xff, 0xff]")
        case True
        then have "be32 a 0 OR be32 a 1 = 0" "be32 a 2 = 0xffff" using zero_words(2) [OF assms] by auto
        then show ?thesis using True False n zero(2) [OF True] by (simp add: ipv6_addr_type_full_def addr_type_table_def first_bytes Let_def)
      next
        case neither: False
        then have "\<not> (be32 a 0 OR be32 a 1 = 0 \<and> be32 a 2 = 0)" "\<not> (be32 a 0 OR be32 a 1 = 0 \<and> be32 a 2 = 0xffff)" using False zero_words(1,2) [OF assms] by auto
        moreover have "addr_type_table a = IPV6_ADDR_UNICAST OR IPV6_ADDR_SCOPE_TYPE IPV6_ADDR_SCOPE_GLOBAL" using other False neither n by (simp add: addr_type_table_def)
        ultimately show ?thesis using other unfolding ipv6_addr_type_full_def Let_def first_bytes u8_and_ff by (simp only: simp_thms if_False if_cancel)
      qed
    qed
  qed
qed

subsection \<open>IPv4 addresses as IPv6 addresses\<close>

text \<open>What a queue may keep as its prefix: 12 bytes of an address that is not one of the two special kinds.\<close>

definition prefix_ok :: "bytes option \<Rightarrow> bool" where
  "prefix_ok prefix \<longleftrightarrow> (\<forall>p. prefix = Some p \<longrightarrow> length p = 12)"

definition sa_ok :: "sockaddr \<Rightarrow> bool" where
  "sa_ok sa \<longleftrightarrow> length (sa_word sa) = 4 \<and> length (sa_addr6 sa) = 16"

lemma update_prefix_ok: "prefix_ok prefix \<Longrightarrow> (\<forall>a. a6 = Some a \<longrightarrow> length a = 16) \<Longrightarrow> prefix_ok (q_update_ipv6_prefix mem prefix a6)"
  by (auto simp: prefix_ok_def q_update_ipv6_prefix_def split: option.splits if_splits)

lemma prefix_equal_96: "length a = 16 \<Longrightarrow> length p = 12 \<Longrightarrow> ipv6_prefix_equal a p 96 = Ret (take 12 a = p)"
  by (simp add: ipv6_prefix_equal_def)

lemma from_ipv4_ok:
  assumes "sa_ok v4" "prefix_ok prefix"
  shows "sa_ok (ipv6_sk_addr_from_ipv4 prefix v4)" "drop 12 (sa_addr6 (ipv6_sk_addr_from_ipv4 prefix v4)) = sa_word v4" "take 12 (sa_addr6 (ipv6_sk_addr_from_ipv4 prefix v4)) = (case prefix of Some p \<Rightarrow> p | None \<Rightarrow> nat64_prefix)"
    "sa_family (ipv6_sk_addr_from_ipv4 prefix v4) = FAM_INET6" "sa_port (ipv6_sk_addr_from_ipv4 prefix v4) = sa_port v4"
  using assms by (auto simp: sa_ok_def prefix_ok_def ipv6_sk_addr_from_ipv4_def sa_zero_def nat64_prefix_def split: option.splits)

lemma compatible_total:
  assumes "length a = 16" "prefix_ok prefix"
  shows "ipv6_addr_v4_compatible prefix a = Ret (take 12 a \<in> {replicate 10 0 @ [0xff, 0xff], nat64_prefix} \<or> prefix = Some (take 12 a))"
  using assms prefix_equal_96 [OF assms(1)] by (auto simp: ipv6_addr_v4_compatible_def prefix_ok_def v4mapped_iff nat64_iff zeros split: option.splits)


subsection \<open>Properties\<close>

text \<open>
  \<^verbatim>\<open>ipv6_prefix_equal\<close> compares exactly the first \<open>n\<close> bits of two addresses, for every \<open>n\<close> up to 128, and \<^verbatim>\<open>ipv6_addr_prefix\<close> keeps exactly these and clears the others.
\<close>

theorem ipv6_prefixes_exact:
  assumes "length a = 16" and "length b = 16" and "n \<le> 128"
  shows "ipv6_prefix_equal a b n = Ret (\<forall>i < n. addr_bit a i = addr_bit b i) \<and>
    (\<exists>p. ipv6_addr_prefix a n = Ret p \<and> length p = 16 \<and> (\<forall>i < 128. addr_bit p i \<longleftrightarrow> i < n \<and> addr_bit a i))"
  using prefix_equal_bits [OF assms] addr_prefix_bits [OF assms(1,3)] by simp

theorem ipv6_prefixes_exact_witness:
  "ipv6_prefix_equal (replicate 16 0xfe) (replicate 16 0xff) 7 = Ret (\<forall>i < 7. addr_bit (replicate 16 0xfe) i = addr_bit (replicate 16 0xff) i) \<and>
    (\<exists>p. ipv6_addr_prefix (replicate 16 0xfe) 7 = Ret p \<and> length p = 16 \<and> (\<forall>i < 128. addr_bit p i \<longleftrightarrow> i < 7 \<and> addr_bit (replicate 16 0xfe) i))"
  by (rule ipv6_prefixes_exact) simp_all

text \<open>
  The type of an address, which the code finds by masks of 32-bit words, is the one of the table by bytes: multicast addresses start with \<open>ff\<close>, link-local ones with \<open>fe80\<close> to \<open>febf\<close>, site-local ones with
  \<open>fec0\<close> to \<open>feff\<close>; then the addresses that begin with zeros; all others are global unicast addresses.
\<close>

theorem ipv6_addr_type_exact:
  assumes "length a = 16"
  shows "ipv6_addr_type_full a = addr_type_table a"
  using assms by (rule addr_type_by_bytes)

theorem ipv6_addr_type_exact_witness: "ipv6_addr_type_full (replicate 15 0 @ [1]) = addr_type_table (replicate 15 0 @ [1])"
  by (rule ipv6_addr_type_exact) simp

text \<open>
  C34. An IPv4 address that is put into an IPv6 address comes back with its port, with the prefix of the queue or without one, and whatever the output held; an address that carries none of the three prefixes is refused and leaves
  the output alone.
\<close>

theorem ipv4_through_ipv6:
  assumes "sa_ok v4" and "prefix_ok prefix" and "sa_ok v6" and "sa_family v6 = FAM_INET6"
  shows "(\<exists>sa. ipv6_sk_addr_to_ipv4 prefix out (ipv6_sk_addr_from_ipv4 prefix v4) = Ret (0, sa) \<and> sa_family sa = FAM_INET \<and> sa_port sa = sa_port v4 \<and> sa_word sa = sa_word v4) \<and>
    (take 12 (sa_addr6 v6) \<notin> {replicate 10 0 @ [0xff, 0xff], nat64_prefix} \<and> prefix \<noteq> Some (take 12 (sa_addr6 v6)) \<longrightarrow> ipv6_sk_addr_to_ipv4 prefix out v6 = Ret (- 1, out))"
proof -
  let ?v6 = "ipv6_sk_addr_from_ipv4 prefix v4"
  note f = from_ipv4_ok [OF assms(1,2)]
  have fam: "FAM_INET6 \<noteq> FAM_INET" by (simp add: FAM_INET_def FAM_INET6_def)
  have len: "length (sa_addr6 ?v6) = 16" "length (sa_addr6 v6) = 16" using f(1) assms(3) by (simp_all add: sa_ok_def)
  have "sk_addr_ipv4_compatible prefix ?v6 = Ret True" using f(3,4) fam compatible_total [OF len(1) assms(2)] by (cases prefix) (simp_all add: sk_addr_ipv4_compatible_def)
  then have "\<exists>sa. ipv6_sk_addr_to_ipv4 prefix out ?v6 = Ret (0, sa) \<and> sa_family sa = FAM_INET \<and> sa_port sa = sa_port v4 \<and> sa_word sa = sa_word v4" using f(2,5) by (simp add: ipv6_sk_addr_to_ipv4_def)
  moreover have "ipv6_sk_addr_to_ipv4 prefix out v6 = Ret (- 1, out)"
    if "take 12 (sa_addr6 v6) \<notin> {replicate 10 0 @ [0xff, 0xff], nat64_prefix} \<and> prefix \<noteq> Some (take 12 (sa_addr6 v6))"
    using that fam assms(4) compatible_total [OF len(2) assms(2)] by (simp add: ipv6_sk_addr_to_ipv4_def sk_addr_ipv4_compatible_def)
  ultimately show ?thesis by blast
qed

text \<open>What a choice of socket and address has to be: the socket exists and is the one of the family of the address, and the address is the destination or stands for it.\<close>

definition choice_ok :: "bytes option \<Rightarrow> ip_sk \<Rightarrow> sockaddr \<Rightarrow> int \<Rightarrow> sockaddr \<Rightarrow> bool" where
  "choice_ok prefix sk dest fd addr \<longleftrightarrow> fd \<noteq> - 1 \<and> sa_port addr = sa_port dest \<and>
     (sa_family addr = FAM_INET \<and> fd = sk_v4 sk \<or> sa_family addr = FAM_INET6 \<and> fd = sk_v6 sk) \<and>
     (if sa_family addr = sa_family dest then addr = dest
      else if sa_family dest = FAM_INET then drop 12 (sa_addr6 addr) = sa_word dest \<and> ipv6_addr_v4_compatible prefix (sa_addr6 addr) = Ret True
      else sa_word addr = drop 12 (sa_addr6 dest) \<and> ipv6_addr_v4_compatible prefix (sa_addr6 dest) = Ret True)"

lemma choose_ipv4:
  assumes "sa_ok dest" and "prefix_ok prefix" and "sa_family dest = FAM_INET"
  shows "ip_sk_choose prefix stack sk dest = Ret None \<and> sk_v4 sk = - 1 \<and> sk_v6 sk = - 1 \<or>
    (\<exists>fd addr. ip_sk_choose prefix stack sk dest = Ret (Some (fd, addr)) \<and> choice_ok prefix sk dest fd addr)"
proof -
  have fam: "FAM_INET6 \<noteq> FAM_INET" by (simp add: FAM_INET_def FAM_INET6_def)
  note f = from_ipv4_ok [OF assms(1,2)]
  have len: "length (sa_addr6 (ipv6_sk_addr_from_ipv4 prefix dest)) = 16" using f(1) by (simp add: sa_ok_def)
  have comp: "ipv6_addr_v4_compatible prefix (sa_addr6 (ipv6_sk_addr_from_ipv4 prefix dest)) = Ret True" using f(3) compatible_total [OF len assms(2)] by (cases prefix) simp_all
  consider "sk_v4 sk \<noteq> - 1" | "sk_v4 sk = - 1" "sk_v6 sk \<noteq> - 1" | "sk_v4 sk = - 1" "sk_v6 sk = - 1" by blast
  then show ?thesis using assms(3) f(2,4,5) comp fam by cases (simp_all add: ip_sk_choose_def choice_ok_def)
qed

lemma choose_ipv6:
  assumes "sa_ok dest" and "prefix_ok prefix" and "sa_family dest = FAM_INET6"
  shows "ip_sk_choose prefix stack sk dest = Ret None \<and> sk_v6 sk = - 1 \<and> (sk_v4 sk = - 1 \<or> ipv6_addr_v4_compatible prefix (sa_addr6 dest) = Ret False) \<or>
    (\<exists>fd addr. ip_sk_choose prefix stack sk dest = Ret (Some (fd, addr)) \<and> choice_ok prefix sk dest fd addr)"
proof -
  have fam: "FAM_INET6 \<noteq> FAM_INET" by (simp add: FAM_INET_def FAM_INET6_def)
  have len: "length (sa_addr6 dest) = 16" using assms(1) by (simp add: sa_ok_def)
  obtain ok where ok: "ipv6_addr_v4_compatible prefix (sa_addr6 dest) = Ret ok" using compatible_total [OF len assms(2)] by blast
  consider "sk_v6 sk \<noteq> - 1" | "sk_v6 sk = - 1" "sk_v4 sk \<noteq> - 1" | "sk_v4 sk = - 1" "sk_v6 sk = - 1" by blast
  then show ?thesis using assms(3) ok fam by cases (cases ok; simp add: ip_sk_choose_def choice_ok_def ipv6_sk_addr_to_ipv4_def sk_addr_ipv4_compatible_def)+
qed

text \<open>
  A pair of sockets reaches every IPv4 destination with either socket: the address that goes with the chosen socket is of its family, and it is the destination or stands for it. Without a socket, and for IPv6 destinations that
  stand for no IPv4 address when there is only an IPv4 socket, the call fails with \<^verbatim>\<open>AOSL_EINVAL\<close> and sends nothing.
\<close>

theorem ip_sk_sendto_correct:
  assumes "sa_ok dest" and "prefix_ok prefix" and "sa_family dest = FAM_INET \<or> sa_family dest = FAM_INET6"
  shows "aosl_ip_sk_sendto sendto prefix stack sk dest = Ret (- 1, AOSL_EINVAL) \<and> sk_v6 sk = - 1 \<and>
      (sk_v4 sk = - 1 \<or> sa_family dest = FAM_INET6 \<and> ipv6_addr_v4_compatible prefix (sa_addr6 dest) = Ret False) \<or>
    (\<exists>fd addr. aosl_ip_sk_sendto sendto prefix stack sk dest = Ret (sendto fd addr) \<and> choice_ok prefix sk dest fd addr)"
  using assms(3)
proof
  assume "sa_family dest = FAM_INET"
  from choose_ipv4 [OF assms(1,2) this, of stack sk] show ?thesis by (elim disjE exE conjE) (simp_all add: aosl_ip_sk_sendto_def, blast)
next
  assume six: "sa_family dest = FAM_INET6"
  from choose_ipv6 [OF assms(1,2) this, of stack sk] show ?thesis by (elim disjE exE conjE) (simp_all add: aosl_ip_sk_sendto_def six, blast+)
qed

text \<open>
  A prefix that is set after another one may be lost: when the new one is the well-known NAT64 prefix, or the one of mapped addresses, the queue keeps the old prefix, and the IPv6 addresses it makes still carry it.
\<close>

theorem nat64_prefix_not_set:
  assumes "length a = 16" and "take 12 a = nat64_prefix" and "prefix = Some p" and "length p = 12"
  shows "q_update_ipv6_prefix mem prefix (Some a) = prefix \<and> take 12 (sa_addr6 (ipv6_sk_addr_from_ipv4 (q_update_ipv6_prefix mem prefix (Some a)) v4)) = p"
  using assms by (simp add: q_update_ipv6_prefix_def nat64_iff ipv6_sk_addr_from_ipv4_def)

text \<open>
  \<^verbatim>\<open>aosl_ipv6_sk_addr_to_ipv4\<close> accepts an IPv4 address, but does not return it: it reads the field of the IPv6 address.
\<close>

theorem to_ipv4_of_ipv4:
  assumes "sa_family sa = FAM_INET" and "sa_addr6 sa = replicate 16 0"
  shows "\<exists>v4. ipv6_sk_addr_to_ipv4 prefix out sa = Ret (0, v4) \<and> sa_word v4 = replicate 4 0"
  using assms by (simp add: ipv6_sk_addr_to_ipv4_def sk_addr_ipv4_compatible_def)

definition demo_v4 :: sockaddr where
  "demo_v4 = sa_zero\<lparr>sa_family := FAM_INET, sa_port := 80, sa_word := [10, 0, 0, 7]\<rparr>"

lemma demo_v4_ok [simp]: "sa_ok demo_v4" "sa_ok (sa_zero\<lparr>sa_family := FAM_INET6\<rparr>)" "prefix_ok (Some [1, 2, 3, 4, 5, 6, 7, 8, 9, 10, 11, 12])"
  by (simp_all add: demo_v4_def sa_zero_def sa_ok_def prefix_ok_def)

theorem ipv4_through_ipv6_witness:
  "\<exists>sa. ipv6_sk_addr_to_ipv4 (Some [1, 2, 3, 4, 5, 6, 7, 8, 9, 10, 11, 12]) sa_zero (ipv6_sk_addr_from_ipv4 (Some [1, 2, 3, 4, 5, 6, 7, 8, 9, 10, 11, 12]) demo_v4) = Ret (0, sa) \<and>
     sa_family sa = FAM_INET \<and> sa_port sa = 80 \<and> sa_word sa = [10, 0, 0, 7]"
  using ipv4_through_ipv6 [OF demo_v4_ok(1,3,2), of sa_zero] by (auto simp: demo_v4_def)

theorem ip_sk_sendto_correct_witness:
  "\<exists>addr :: sockaddr. aosl_ip_sk_sendto (\<lambda>fd addr. (fd, 0)) None sa_zero \<lparr>sk_v4 = - 1, sk_v6 = 9\<rparr> demo_v4 = Ret (9, 0) \<and> drop 12 (sa_addr6 addr) = [10, 0, 0, 7]"
proof -
  have p: "prefix_ok None" by (simp add: prefix_ok_def)
  have fam: "sa_family demo_v4 = FAM_INET" "sa_word demo_v4 = [10, 0, 0, 7]" "FAM_INET6 \<noteq> FAM_INET" by (simp_all add: demo_v4_def FAM_INET_def FAM_INET6_def)
  show ?thesis using ip_sk_sendto_correct [OF demo_v4_ok(1) p disjI1 [OF fam(1)], of "\<lambda>fd addr. (fd, 0)" sa_zero "\<lparr>sk_v4 = - 1, sk_v6 = 9\<rparr>"] fam by (auto simp: choice_ok_def)
qed

theorem nat64_prefix_not_set_witness:
  "take 12 (sa_addr6 (ipv6_sk_addr_from_ipv4 (q_update_ipv6_prefix True (Some (replicate 12 1)) (Some (nat64_prefix @ [0, 0, 0, 0]))) demo_v4)) = replicate 12 1"
  by (rule conjunct2 [OF nat64_prefix_not_set [of "nat64_prefix @ [0, 0, 0, 0]" "Some (replicate 12 1)" "replicate 12 1" True demo_v4]]) (simp_all add: nat64_prefix_def)

theorem to_ipv4_of_ipv4_witness: "\<exists>v4. ipv6_sk_addr_to_ipv4 None sa_zero demo_v4 = Ret (0, v4) \<and> sa_word v4 = replicate 4 0"
  by (rule to_ipv4_of_ipv4) (simp_all add: demo_v4_def sa_zero_def)


end
