(* ===== verification/Route.thy ===== *)
theory Route
  imports Mpq Ipv6
begin

text \<open>
  The default routes and the events about them: \<^verbatim>\<open>net/netifs.c\<close> (the cache of interfaces), \<^verbatim>\<open>kernel/rt_monitor.c\<close> (what the Linux
  kernel says of the default routes) and \<^verbatim>\<open>net/route.c\<close> (the two buffers of default routes, the events for the subscriber, the sockets
  that go with the routes). The messages of the kernel are arguments, already cut into their attributes.
  The functions of \<^verbatim>\<open>route.c\<close> hold \<^verbatim>\<open>netev_subscriber_lock\<close>, so each is one step.
\<close>

subsection \<open>Interfaces\<close>

record netif =
  if_index :: int
  if_type :: int
  if_name :: string

definition IFINFO_HASH_SIZE :: int where "IFINFO_HASH_SIZE = 16"

record netifs =
  netifs_hash :: "netif list list"
  free_netifs :: "netif list"

definition netif_hash :: "int \<Rightarrow> nat" where
  "netif_hash idx = nat (idx AND (IFINFO_HASH_SIZE - 1))"

definition netif_node_by_index :: "netifs \<Rightarrow> int \<Rightarrow> netif option exec" where
  "netif_node_by_index nf idx = ebind (arr_get (netifs_hash nf) (netif_hash idx)) (\<lambda>b. Ret (find (\<lambda>n. if_index n = idx) b))"

definition netif_by_index :: "netifs \<Rightarrow> int \<Rightarrow> netif option exec" where
  "netif_by_index nf idx = (if idx < 0 then Ret None else netif_node_by_index nf idx)"

text \<open>The node found is the first of its list with the index: it is taken out of the list, or written.\<close>

fun bucket_del :: "int \<Rightarrow> netif list \<Rightarrow> netif list" where
  "bucket_del idx [] = []"
| "bucket_del idx (n # ns) = (if if_index n = idx then ns else n # bucket_del idx ns)"

fun bucket_set :: "int \<Rightarrow> netif \<Rightarrow> netif list \<Rightarrow> netif list" where
  "bucket_set idx v [] = []"
| "bucket_set idx v (n # ns) = (if if_index n = idx then v # ns else n # bucket_set idx v ns)"

text \<open>\<^verbatim>\<open>snprintf\<close> into the 64 characters of \<^verbatim>\<open>if_name\<close>.\<close>

definition name64 :: "string option \<Rightarrow> string" where
  "name64 name = (case name of Some s \<Rightarrow> take 63 s | None \<Rightarrow> [])"

definition rename_netif :: "string option \<Rightarrow> netif \<Rightarrow> netif" where
  "rename_netif name n = (case name of Some s \<Rightarrow> if if_name n \<noteq> s then n\<lparr>if_name := take 63 s\<rparr> else n | None \<Rightarrow> n\<lparr>if_name := []\<rparr>)"

datatype netif_change = Del_Netif int | Set_Netif int "string option" int

text \<open>\<open>mem\<close>: whether memory for a node can be had.\<close>

definition update_netifs :: "bool \<Rightarrow> netif_change \<Rightarrow> netifs \<Rightarrow> (int \<times> netifs) exec" where
  "update_netifs mem c nf =
     (case c of
        Del_Netif idx \<Rightarrow>
          if idx < 0 then Ret (- AOSL_EINVAL, nf)
          else ebind (netif_node_by_index nf idx) (\<lambda>node. case node of
            None \<Rightarrow> Ret (- AOSL_ENOENT, nf)
          | Some n \<Rightarrow> ebind (arr_get (netifs_hash nf) (netif_hash idx)) (\<lambda>b.
              Ret (0, nf\<lparr>netifs_hash := (netifs_hash nf)[netif_hash idx := bucket_del idx b], free_netifs := free_netifs nf @ [n]\<rparr>)))
      | Set_Netif idx name type \<Rightarrow>
          if idx < 0 then Ret (- AOSL_EINVAL, nf)
          else ebind (netif_node_by_index nf idx) (\<lambda>node.
            ebind (arr_get (netifs_hash nf) (netif_hash idx)) (\<lambda>b. case node of
              Some n \<Rightarrow> Ret (0, nf\<lparr>netifs_hash := (netifs_hash nf)[netif_hash idx := bucket_set idx (rename_netif name (n\<lparr>if_type := type\<rparr>)) b]\<rparr>)
            | None \<Rightarrow>
                if free_netifs nf = [] \<and> \<not> mem then Ret (- AOSL_ENOMEM, nf)
                else Ret (0, nf\<lparr>netifs_hash := (netifs_hash nf)[netif_hash idx := b @ [\<lparr>if_index = idx, if_type = type, if_name = name64 name\<rparr>]], free_netifs := tl (free_netifs nf)\<rparr>))))"

definition netifs_hash_init :: "netifs \<Rightarrow> netifs" where
  "netifs_hash_init nf = nf\<lparr>netifs_hash := replicate (nat IFINFO_HASH_SIZE) []\<rparr>"

text \<open>\<^verbatim>\<open>netifs_hash_fini\<close> with the number of nodes it frees.\<close>

definition netif_nodes :: "netifs \<Rightarrow> nat" where
  "netif_nodes nf = length (concat (netifs_hash nf)) + length (free_netifs nf)"

definition netifs_hash_fini :: "netifs \<Rightarrow> nat \<times> netifs" where
  "netifs_hash_fini nf = (netif_nodes nf, nf\<lparr>netifs_hash := replicate (nat IFINFO_HASH_SIZE) [], free_netifs := []\<rparr>)"

subsection \<open>Default routes\<close>

record rt =
  rt_netif :: netif
  if_cellnet :: int
  if_wireless :: int
  def_rt_cnt :: int
  rt_gw :: sockaddr

record def_rt =
  IPv4 :: rt
  IPv6 :: rt

definition rt_valid :: "rt \<Rightarrow> bool" where
  "rt_valid r \<longleftrightarrow> \<not> if_index (rt_netif r) < 0 \<and> (sa_family (rt_gw r) = FAM_INET \<or> sa_family (rt_gw r) = FAM_INET6)"

definition def_rt_valid :: "def_rt \<Rightarrow> bool" where
  "def_rt_valid d \<longleftrightarrow> rt_valid (IPv4 d) \<or> rt_valid (IPv6 d)"

definition same_rt :: "rt \<Rightarrow> rt \<Rightarrow> bool" where
  "same_rt r1 r2 \<longleftrightarrow>
     (if if_index (rt_netif r1) < 0 \<and> if_index (rt_netif r2) < 0 then True
      else if if_index (rt_netif r1) \<noteq> if_index (rt_netif r2) then False
      else if if_type (rt_netif r1) \<noteq> if_type (rt_netif r2) then False
      else aosl_sk_addr_ip_equal (rt_gw r1) (rt_gw r2))"

definition same_def_rt :: "def_rt \<Rightarrow> def_rt \<Rightarrow> bool" where
  "same_def_rt d1 d2 \<longleftrightarrow> same_rt (IPv4 d1) (IPv4 d2) \<and> same_rt (IPv6 d1) (IPv6 d2)"

definition same_def_rt_cnt :: "def_rt \<Rightarrow> def_rt \<Rightarrow> bool" where
  "same_def_rt_cnt d1 d2 \<longleftrightarrow> def_rt_cnt (IPv4 d1) = def_rt_cnt (IPv4 d2) \<and> def_rt_cnt (IPv6 d1) = def_rt_cnt (IPv6 d2)"

definition invalidate_rt :: "rt \<Rightarrow> rt" where
  "invalidate_rt r = r\<lparr>rt_netif := (rt_netif r)\<lparr>if_index := - 1\<rparr>, rt_gw := (rt_gw r)\<lparr>sa_family := FAM_UNSPEC\<rparr>\<rparr>"

definition invalidate_def_rt :: "def_rt \<Rightarrow> def_rt" where
  "invalidate_def_rt d = \<lparr>IPv4 = invalidate_rt (IPv4 d), IPv6 = invalidate_rt (IPv6 d)\<rparr>"

definition init_rt :: rt where
  "init_rt = \<lparr>rt_netif = \<lparr>if_index = - 1, if_type = - 1, if_name = []\<rparr>, if_cellnet = 0, if_wireless = 0, def_rt_cnt = 0, rt_gw = sa_zero\<rparr>"

definition aosl_init_def_rt :: def_rt where
  "aosl_init_def_rt = \<lparr>IPv4 = init_rt, IPv6 = init_rt\<rparr>"

subsection \<open>What the Linux kernel says\<close>

text \<open>
  A message of a dump of routes. The attributes for the interface and the gateway are positions in the buffer of the function, and are only read at its
  end: \<open>oif_at\<close> and \<open>gw_at\<close> are what the buffer then holds there. The metric is read at once. A gateway is an address of the family asked for. The indices of interfaces are not negative.
  A receive that fails ends the list; \<open>Rt_Skip\<close> is every message that the loop passes over.
\<close>

record rtmsg =
  rtm_unicast :: bool
  rtm_family :: u16
  rtm_dst_len :: nat
  rta_priority :: "u32 option"
  rta_oif :: "nat option"
  rta_gateway :: "nat option"

datatype nl_route = Rt_Done | Rt_Error | Rt_New rtmsg | Rt_Skip

record rt_pick =
  pk_oif :: "nat option"
  pk_gw :: "nat option"
  pk_metric :: u32
  pk_cnt :: int

definition pick_route :: "rtmsg \<Rightarrow> rt_pick \<Rightarrow> rt_pick" where
  "pick_route msg p =
     (if \<not> rtm_unicast msg then p
      else if rtm_family msg \<noteq> FAM_INET \<and> rtm_family msg \<noteq> FAM_INET6 then p
      else if rtm_dst_len msg \<noteq> 0 then p
      else if rta_oif msg = None then p
      else
        (let p = p\<lparr>pk_cnt := pk_cnt p + 1\<rparr> in
         case rta_priority msg of
           Some pri \<Rightarrow> if pri < pk_metric p then p\<lparr>pk_metric := pri, pk_oif := rta_oif msg, pk_gw := rta_gateway msg\<rparr> else p
         | None \<Rightarrow> if pk_oif p = None \<and> pk_gw p = None then p\<lparr>pk_oif := rta_oif msg, pk_gw := rta_gateway msg\<rparr> else p))"

fun pick_routes :: "nl_route list \<Rightarrow> rt_pick \<Rightarrow> rt_pick" where
  "pick_routes [] p = p"
| "pick_routes (Rt_Done # ms) p = p"
| "pick_routes (Rt_Error # ms) p = p"
| "pick_routes (Rt_Skip # ms) p = pick_routes ms p"
| "pick_routes (Rt_New msg # ms) p = pick_routes ms (pick_route msg p)"

definition pick_zero :: rt_pick where
  "pick_zero = \<lparr>pk_oif = None, pk_gw = None, pk_metric = 0xffffffff, pk_cnt = 0\<rparr>"

text \<open>The answer to one request: none when the socket or the request failed.\<close>

record rt_dump =
  dump_msgs :: "nl_route list option"
  oif_at :: "nat \<Rightarrow> nat"
  gw_at :: "nat \<Rightarrow> bytes"

definition copy_gw :: "u16 \<Rightarrow> bytes \<Rightarrow> sockaddr \<Rightarrow> sockaddr" where
  "copy_gw af bs gw = (if af = FAM_INET then gw\<lparr>sa_word := bs @ drop (length bs) (sa_word gw)\<rparr> else gw\<lparr>sa_addr6 := bs @ drop (length bs) (sa_addr6 gw)\<rparr>)"

definition fill_rt :: "(string \<Rightarrow> int) \<Rightarrow> netif option \<Rightarrow> u16 \<Rightarrow> rt_dump \<Rightarrow> rt_pick \<Rightarrow> nat \<Rightarrow> rt \<Rightarrow> rt" where
  "fill_rt wireless nif af d p pos r =
     (let oif = oif_at d pos;
          r = (case nif of
                 Some n \<Rightarrow> r\<lparr>rt_netif := \<lparr>if_index = int oif, if_type = if_type n, if_name = if_name n\<rparr>, if_cellnet := 0, if_wireless := wireless (if_name n)\<rparr>
               | None \<Rightarrow> r\<lparr>rt_netif := \<lparr>if_index = int oif, if_type = - 1, if_name = dec_str oif\<rparr>, if_cellnet := 0\<rparr>);
          r = (case pk_gw p of
                 Some g \<Rightarrow> r\<lparr>rt_gw := copy_gw af (gw_at d g) (rt_gw r)\<rparr>
               | None \<Rightarrow> r\<lparr>rt_gw := sa_zero\<rparr>) in
      r\<lparr>rt_gw := (rt_gw r)\<lparr>sa_family := af\<rparr>, def_rt_cnt := (if pk_cnt p > 2 then 2 else pk_cnt p)\<rparr>)"

definition af_get_default_rt :: "(string \<Rightarrow> int) \<Rightarrow> netifs \<Rightarrow> u16 \<Rightarrow> rt_dump \<Rightarrow> rt \<Rightarrow> (int \<times> rt) exec" where
  "af_get_default_rt wireless nf af d r =
     (let r = invalidate_rt r in
      case dump_msgs d of
        None \<Rightarrow> Ret (0, r)
      | Some ms \<Rightarrow>
          (let p = pick_routes ms pick_zero in
           case pk_oif p of
             None \<Rightarrow> Ret (0, r)
           | Some pos \<Rightarrow> ebind (netif_by_index nf (int (oif_at d pos))) (\<lambda>nif. Ret (1, fill_rt wireless nif af d p pos r))))"

record rt_env =
  env_wireless :: "string \<Rightarrow> int"
  env_netifs :: netifs
  env_dump4 :: rt_dump
  env_dump6 :: rt_dump

definition os_get_def_rt :: "rt_env \<Rightarrow> def_rt \<Rightarrow> (int \<times> def_rt) exec" where
  "os_get_def_rt e d =
     ebind (af_get_default_rt (env_wireless e) (env_netifs e) FAM_INET (env_dump4 e) (IPv4 d)) (\<lambda>(got_v4, r4).
     ebind (af_get_default_rt (env_wireless e) (env_netifs e) FAM_INET6 (env_dump6 e) (IPv6 d)) (\<lambda>(got_v6, r6).
     Ret (got_v4 + got_v6, \<lparr>IPv4 = r4, IPv6 = r6\<rparr>)))"

subsection \<open>The events\<close>

text \<open>The two buffers and which of them is current.\<close>

datatype net_ev = NET_EV_NONE | NET_EV_NET_DOWN | NET_EV_NET_UP | NET_EV_NET_UP_CHANGED | NET_EV_NET_SWITCH | NET_EV_RT_CNT_CHANGED

record def_rts =
  def_rts0 :: def_rt
  def_rts1 :: def_rt
  curr_rt :: bool
  last_valid_def_rt :: def_rt

definition get_curr_def_rt :: "def_rts \<Rightarrow> def_rt" where
  "get_curr_def_rt s = (if curr_rt s then def_rts1 s else def_rts0 s)"

definition get_new_def_rt :: "def_rts \<Rightarrow> def_rt" where
  "get_new_def_rt s = (if curr_rt s then def_rts0 s else def_rts1 s)"

definition put_new_def_rt :: "def_rt \<Rightarrow> def_rts \<Rightarrow> def_rts" where
  "put_new_def_rt d s = (if curr_rt s then s\<lparr>def_rts0 := d\<rparr> else s\<lparr>def_rts1 := d\<rparr>)"

definition switch_new_to_curr :: "def_rts \<Rightarrow> def_rts" where
  "switch_new_to_curr s = s\<lparr>curr_rt := \<not> curr_rt s\<rparr>"

definition route_clear :: "def_rts \<Rightarrow> def_rts" where
  "route_clear s = s\<lparr>def_rts0 := aosl_init_def_rt, def_rts1 := aosl_init_def_rt, last_valid_def_rt := aosl_init_def_rt\<rparr>"

definition aosl_network_is_down :: "def_rts \<Rightarrow> bool" where
  "aosl_network_is_down s \<longleftrightarrow> \<not> def_rt_valid (get_curr_def_rt s)"

text \<open>
  The call that the subscriber gets: the event and the two routes. \<open>get\<close> is \<^verbatim>\<open>os_get_def_rt\<close>, \<open>f\<close> whether the function is not null, and
  \<open>stack1\<close>, \<open>stack2\<close> what the two local variables held.
\<close>

type_synonym net_call = "net_ev \<times> def_rt \<times> def_rt"

definition change_event :: "def_rt \<Rightarrow> def_rt \<Rightarrow> def_rts \<Rightarrow> def_rt \<Rightarrow> net_call option" where
  "change_event def_rt1 def_rt2 s new =
     (let curr = get_curr_def_rt s in
      if def_rt_valid curr then
        (if \<not> same_def_rt new curr then Some (NET_EV_NET_SWITCH, curr, new)
         else if \<not> same_def_rt_cnt new curr then Some (NET_EV_RT_CNT_CHANGED, curr, new)
         else None)
      else if def_rt_valid (last_valid_def_rt s) \<and> \<not> same_def_rt new (last_valid_def_rt s) then Some (NET_EV_NET_UP_CHANGED, last_valid_def_rt s, new)
      else Some (NET_EV_NET_UP, new, def_rt2))"

definition check_report_def_rt_change_event :: "(def_rt \<Rightarrow> (int \<times> def_rt) exec) \<Rightarrow> bool \<Rightarrow> def_rt \<Rightarrow> def_rt \<Rightarrow> def_rts \<Rightarrow> (net_call option \<times> def_rts) exec" where
  "check_report_def_rt_change_event get f stack1 stack2 s =
     (let def_rt1 = invalidate_def_rt stack1; def_rt2 = invalidate_def_rt stack2 in
      ebind (get (get_new_def_rt s)) (\<lambda>(n, new).
      let curr_rt_valid = def_rt_valid (get_curr_def_rt s); s = put_new_def_rt new s in
      if n > 0 then Ret (if f then change_event def_rt1 def_rt2 s new else None, switch_new_to_curr (s\<lparr>last_valid_def_rt := new\<rparr>))
      else Ret (if f \<and> curr_rt_valid then Some (NET_EV_NET_DOWN, def_rt1, def_rt2) else None, switch_new_to_curr s)))"

definition aosl_is_mobile_net :: "u16 \<Rightarrow> def_rts \<Rightarrow> int \<times> int option" where
  "aosl_is_mobile_net af s =
     (let r = (if af = FAM_INET then Some (IPv4 (get_curr_def_rt s)) else if af = FAM_INET6 then Some (IPv6 (get_curr_def_rt s)) else None) in
      case r of
        Some r \<Rightarrow> if sa_family (rt_gw r) \<noteq> FAM_UNSPEC then (if_cellnet r, None) else (- 1, Some AOSL_EINVAL)
      | None \<Rightarrow> (- 1, Some AOSL_EINVAL))"

text \<open>\<open>socket\<close> is \<^verbatim>\<open>aosl_socket\<close> for the type and the protocol of the call.\<close>

definition aosl_ip_sk_create :: "(u16 \<Rightarrow> int) \<Rightarrow> def_rts \<Rightarrow> int \<times> ip_sk" where
  "aosl_ip_sk_create socket s =
     (let v4_def_rt_valid = rt_valid (IPv4 (get_curr_def_rt s)); v6_def_rt_valid = rt_valid (IPv6 (get_curr_def_rt s));
          (v4, created) = (if v4_def_rt_valid then (let fd = socket FAM_INET in if fd \<noteq> - 1 then (fd, 1) else (- 1, 0)) else (- 1, 0 :: int));
          (v6, created) = (if v6_def_rt_valid then (let fd = socket FAM_INET6 in if fd \<noteq> - 1 then (fd, created + 1) else (- 1, created)) else (- 1, created)) in
      (if created > 0 then created else - 1, \<lparr>sk_v4 = v4, sk_v6 = v6\<rparr>))"

subsection \<open>The subscriber\<close>

record route =
  route_rts :: def_rts
  route_netifs :: netifs
  netev_subscriber_q :: u64
  netev_f :: ptr
  netev_f_arg :: ptr
  af_netlink_fd :: int

text \<open>What the system answers to a subscription: the socket, \<^verbatim>\<open>bind\<close>, adding it to the queue, the interfaces, the routes of the first check.\<close>

record sub_os =
  so_socket :: int
  so_bind :: int
  so_add :: int
  so_links :: "netif_change list"
  so_wireless :: "string \<Rightarrow> int"
  so_dump4 :: rt_dump
  so_dump6 :: rt_dump

text \<open>The result of \<^verbatim>\<open>__create_and_attach_af_netlink\<close>, the descriptors it closes, and \<^verbatim>\<open>af_netlink_fd\<close>.\<close>

definition create_and_attach_af_netlink :: "sub_os \<Rightarrow> int \<Rightarrow> int \<times> int list \<times> int" where
  "create_and_attach_af_netlink os fd =
     (let sk = so_socket os in
      if sk \<ge> 0 then
        (if so_bind os < 0 then (- 1, [sk, sk], fd)
         else if so_add os < 0 then (- 1, [sk, sk], fd)
         else (0, [], sk))
      else (- 1, [], fd))"

fun update_all_netifs :: "netif_change list \<Rightarrow> netifs \<Rightarrow> netifs exec" where
  "update_all_netifs [] nf = Ret nf"
| "update_all_netifs (c # cs) nf = ebind (update_netifs True c nf) (\<lambda>(err, nf). update_all_netifs cs nf)"

definition os_subscribe_net_events :: "sub_os \<Rightarrow> route \<Rightarrow> (int \<times> int list \<times> route) exec" where
  "os_subscribe_net_events os s =
     (let (err, closed, fd) = create_and_attach_af_netlink os (af_netlink_fd s); s = s\<lparr>af_netlink_fd := fd\<rparr> in
      if err < 0 then Ret (err, closed, s)
      else ebind (update_all_netifs (so_links os) (route_netifs s)) (\<lambda>nf. Ret (err, closed, s\<lparr>route_netifs := nf\<rparr>)))"

definition os_unsubscribe_net_events :: "route \<Rightarrow> int list \<times> route" where
  "os_unsubscribe_net_events s = (if af_netlink_fd s \<noteq> - 1 then ([af_netlink_fd s], s\<lparr>af_netlink_fd := - 1\<rparr>) else ([], s))"

definition check_route :: "(string \<Rightarrow> int) \<Rightarrow> rt_dump \<Rightarrow> rt_dump \<Rightarrow> def_rt \<times> def_rt \<Rightarrow> route \<Rightarrow> (net_call option \<times> route) exec" where
  "check_route wireless d4 d6 stack s =
     ebind (check_report_def_rt_change_event (os_get_def_rt \<lparr>env_wireless = wireless, env_netifs = route_netifs s, env_dump4 = d4, env_dump6 = d6\<rparr>) True (fst stack) (snd stack) (route_rts s))
       (\<lambda>(call, r). Ret (call, s\<lparr>route_rts := r\<rparr>))"

text \<open>The result, the error number if one is set, the descriptors closed, and the call of the subscriber.\<close>

record sub_result =
  sr_err :: int
  sr_errno :: "int option"
  sr_closed :: "int list"
  sr_call :: "net_call option"

definition aosl_subscribe_net_events :: "sub_os \<Rightarrow> def_rt \<times> def_rt \<Rightarrow> u64 \<Rightarrow> ptr \<Rightarrow> ptr \<Rightarrow> route \<Rightarrow> (sub_result \<times> route) exec" where
  "aosl_subscribe_net_events os stack q f arg s =
     (if aosl_mpq_invalid q then Ret (\<lparr>sr_err = - 1, sr_errno = Some AOSL_EINVAL, sr_closed = [], sr_call = None\<rparr>, s)
      else if f \<noteq> 0 then
        (if \<not> aosl_mpq_invalid (netev_subscriber_q s) then Ret (\<lparr>sr_err = - 1, sr_errno = Some AOSL_EEXIST, sr_closed = [], sr_call = None\<rparr>, s)
         else ebind (os_subscribe_net_events os s) (\<lambda>(err, closed, s).
           if err < 0 then Ret (\<lparr>sr_err = err, sr_errno = None, sr_closed = closed, sr_call = None\<rparr>, s)
           else ebind (check_route (so_wireless os) (so_dump4 os) (so_dump6 os) stack (s\<lparr>netev_subscriber_q := q, netev_f := f, netev_f_arg := arg\<rparr>))
             (\<lambda>(call, s). Ret (\<lparr>sr_err = err, sr_errno = None, sr_closed = closed, sr_call = call\<rparr>, s))))
      else if netev_subscriber_q s \<noteq> q then Ret (\<lparr>sr_err = - 1, sr_errno = Some AOSL_EPERM, sr_closed = [], sr_call = None\<rparr>, s)
      else
        (let (closed, s) = os_unsubscribe_net_events s in
         Ret (\<lparr>sr_err = 0, sr_errno = None, sr_closed = closed, sr_call = None\<rparr>,
           s\<lparr>route_rts := route_clear (route_rts s), route_netifs := snd (netifs_hash_fini (route_netifs s)), netev_subscriber_q := AOSL_MPQ_INVALID, netev_f := 0, netev_f_arg := 0\<rparr>)))"

text \<open>The messages that the subscribed socket receives, up to the end or a message that ends the list; each about a route makes a check.\<close>

datatype nl_msg = Nl_Done | Nl_Link netif_change | Nl_Route rt_dump rt_dump | Nl_Skip

fun process_rtmsg :: "(string \<Rightarrow> int) \<Rightarrow> def_rt \<times> def_rt \<Rightarrow> nl_msg list \<Rightarrow> route \<Rightarrow> (net_call list \<times> route) exec" where
  "process_rtmsg wireless stack [] s = Ret ([], s)"
| "process_rtmsg wireless stack (Nl_Done # ms) s = Ret ([], s)"
| "process_rtmsg wireless stack (Nl_Skip # ms) s = process_rtmsg wireless stack ms s"
| "process_rtmsg wireless stack (Nl_Link c # ms) s =
     ebind (update_netifs True c (route_netifs s)) (\<lambda>(err, nf). process_rtmsg wireless stack ms (s\<lparr>route_netifs := nf\<rparr>))"
| "process_rtmsg wireless stack (Nl_Route d4 d6 # ms) s =
     ebind (check_route wireless d4 d6 stack s) (\<lambda>(call, s).
     ebind (process_rtmsg wireless stack ms s) (\<lambda>(calls, s). Ret ((case call of Some c \<Rightarrow> [c] | None \<Rightarrow> []) @ calls, s)))"

definition k_route_init :: "route \<Rightarrow> route" where
  "k_route_init s = s\<lparr>route_rts := route_clear (route_rts s), route_netifs := netifs_hash_init (route_netifs s)\<rparr>"

definition k_route_fini :: "route \<Rightarrow> route" where
  "k_route_fini s = s\<lparr>route_rts := route_clear (route_rts s), route_netifs := netifs_hash_init (route_netifs s)\<rparr>"

definition route_start :: route where
  "route_start = k_route_init \<lparr>route_rts = \<lparr>def_rts0 = aosl_init_def_rt, def_rts1 = aosl_init_def_rt, curr_rt = False, last_valid_def_rt = aosl_init_def_rt\<rparr>,
     route_netifs = \<lparr>netifs_hash = [], free_netifs = []\<rparr>, netev_subscriber_q = AOSL_MPQ_INVALID, netev_f = 0, netev_f_arg = 0, af_netlink_fd = - 1\<rparr>"

subsection \<open>The table of interfaces is a map\<close>

text \<open>What the table stands for: the interfaces by their index, and how many nodes wait to be used again.\<close>

definition netifs_ok :: "netifs \<Rightarrow> bool" where
  "netifs_ok nf \<longleftrightarrow> length (netifs_hash nf) = 16 \<and>
     (\<forall>h < 16. distinct (map if_index (netifs_hash nf ! h)) \<and> (\<forall>n \<in> set (netifs_hash nf ! h). 0 \<le> if_index n \<and> netif_hash (if_index n) = h \<and> length (if_name n) \<le> 63))"

definition netif_map :: "netifs \<Rightarrow> int \<Rightarrow> netif option" where
  "netif_map nf idx = (if idx < 0 then None else find (\<lambda>n. if_index n = idx) (netifs_hash nf ! netif_hash idx))"

text \<open>The same as an abstract map.\<close>

record netif_spec =
  spec_map :: "int \<Rightarrow> netif option"
  spec_free :: nat

definition spec_update :: "bool \<Rightarrow> netif_change \<Rightarrow> netif_spec \<Rightarrow> int \<times> netif_spec" where
  "spec_update mem c sp =
     (case c of
        Del_Netif idx \<Rightarrow>
          if idx < 0 then (- AOSL_EINVAL, sp)
          else if spec_map sp idx = None then (- AOSL_ENOENT, sp)
          else (0, \<lparr>spec_map = (spec_map sp)(idx := None), spec_free = spec_free sp + 1\<rparr>)
      | Set_Netif idx name type \<Rightarrow>
          if idx < 0 then (- AOSL_EINVAL, sp)
          else if spec_map sp idx \<noteq> None then (0, sp\<lparr>spec_map := (spec_map sp)(idx \<mapsto> \<lparr>if_index = idx, if_type = type, if_name = name64 name\<rparr>)\<rparr>)
          else if spec_free sp = 0 \<and> \<not> mem then (- AOSL_ENOMEM, sp)
          else (0, \<lparr>spec_map = (spec_map sp)(idx \<mapsto> \<lparr>if_index = idx, if_type = type, if_name = name64 name\<rparr>), spec_free = spec_free sp - 1\<rparr>))"

definition netif_abs :: "netifs \<Rightarrow> netif_spec" where
  "netif_abs nf = \<lparr>spec_map = netif_map nf, spec_free = length (free_netifs nf)\<rparr>"

lemma netif_hash_less [simp]: "netif_hash idx < 16"
proof -
  have "idx AND 15 = take_bit 4 idx" by (simp add: take_bit_eq_mask mask_eq_exp_minus_1)
  then show ?thesis by (simp add: netif_hash_def IFINFO_HASH_SIZE_def take_bit_eq_mod nat_less_iff)
qed

lemma find_index: "find (\<lambda>n. if_index n = idx) b = Some n \<Longrightarrow> n \<in> set b \<and> if_index n = idx"
  by (induction b) (auto split: if_splits)

lemma find_index_None: "find (\<lambda>n. if_index n = idx) b = None \<longleftrightarrow> idx \<notin> if_index ` set b"
  by (induction b) auto

lemma find_snoc: "find P (b @ [v]) = (case find P b of None \<Rightarrow> if P v then Some v else None | Some x \<Rightarrow> Some x)"
  by (induction b) auto

lemma find_bucket_del: "distinct (map if_index b) \<Longrightarrow> find (\<lambda>n. if_index n = i) (bucket_del j b) = (if i = j then None else find (\<lambda>n. if_index n = i) b)"
  by (induction b) (auto simp: find_index_None)

lemma bucket_del_sub: "set (bucket_del j b) \<subseteq> set b" "distinct (map if_index b) \<Longrightarrow> distinct (map if_index (bucket_del j b))"
proof -
  show sub: "set (bucket_del j b) \<subseteq> set b" for b by (induction b) auto
  show "distinct (map if_index b) \<Longrightarrow> distinct (map if_index (bucket_del j b))" using sub by (induction b) fastforce+
qed

lemma find_bucket_set: "if_index v = j \<Longrightarrow> j \<in> if_index ` set b \<Longrightarrow> find (\<lambda>n. if_index n = i) (bucket_set j v b) = (if i = j then Some v else find (\<lambda>n. if_index n = i) b)"
  by (induction b) auto

lemma bucket_set_index [simp]: "if_index v = j \<Longrightarrow> map if_index (bucket_set j v b) = map if_index b"
  by (induction b) auto

lemma bucket_set_sub: "set (bucket_set j v b) \<subseteq> insert v (set b)"
  by (induction b) auto

lemma netifs_bucket:
  assumes "netifs_ok nf" "0 \<le> idx"
  shows "arr_get (netifs_hash nf) (netif_hash idx) = Ret (netifs_hash nf ! netif_hash idx)" "netif_node_by_index nf idx = Ret (netif_map nf idx)"
    "netif_map nf idx = find (\<lambda>n. if_index n = idx) (netifs_hash nf ! netif_hash idx)"
  using assms by (simp_all add: netifs_ok_def arr_get_def netif_node_by_index_def netif_map_def)

lemma netif_map_upd:
  assumes "length hs = 16" "0 \<le> idx"
  shows "netif_map (nf\<lparr>netifs_hash := hs[netif_hash idx := b], free_netifs := fr\<rparr>) i =
    (if 0 \<le> i \<and> netif_hash i = netif_hash idx then find (\<lambda>n. if_index n = i) b else netif_map (nf\<lparr>netifs_hash := hs\<rparr>) i)"
  using assms by (auto simp: netif_map_def)

lemma netifs_ok_upd:
  assumes "netifs_ok nf" "distinct (map if_index b)" "\<forall>n \<in> set b. 0 \<le> if_index n \<and> netif_hash (if_index n) = netif_hash idx \<and> length (if_name n) \<le> 63"
  shows "netifs_ok (nf\<lparr>netifs_hash := (netifs_hash nf)[netif_hash idx := b], free_netifs := fr\<rparr>)"
  using assms by (auto simp: netifs_ok_def nth_list_update)

lemma rename_netif_eq:
  assumes "length (if_name n) \<le> 63" "if_index n = idx"
  shows "rename_netif name (n\<lparr>if_type := t\<rparr>) = \<lparr>if_index = idx, if_type = t, if_name = name64 name\<rparr>"
  using assms by (cases n) (auto simp: rename_netif_def name64_def split: option.splits)

lemma netifs_entries:
  assumes "netifs_ok nf"
  shows "distinct (map if_index (netifs_hash nf ! netif_hash idx))" "\<forall>n \<in> set (netifs_hash nf ! netif_hash idx). 0 \<le> if_index n \<and> netif_hash (if_index n) = netif_hash idx \<and> length (if_name n) \<le> 63"
  using assms netif_hash_less [of idx] unfolding netifs_ok_def by blast+

lemma netif_map_find: "0 \<le> i \<Longrightarrow> netif_map nf i = find (\<lambda>n. if_index n = i) (netifs_hash nf ! netif_hash i)" "i < 0 \<Longrightarrow> netif_map nf i = None"
  by (simp_all add: netif_map_def)

lemma netif_map_change:
  assumes ok: "netifs_ok nf" and idx: "0 \<le> idx" and b: "\<And>i. 0 \<le> i \<Longrightarrow> netif_hash i = netif_hash idx \<Longrightarrow> find (\<lambda>n. if_index n = i) b = (if i = idx then v else netif_map nf i)"
  shows "netif_map (nf\<lparr>netifs_hash := (netifs_hash nf)[netif_hash idx := b], free_netifs := fr\<rparr>) = (netif_map nf)(idx := v)"
proof
  fix i
  have len: "length (netifs_hash nf) = 16" using ok by (simp add: netifs_ok_def)
  show "netif_map (nf\<lparr>netifs_hash := (netifs_hash nf)[netif_hash idx := b], free_netifs := fr\<rparr>) i = ((netif_map nf)(idx := v)) i"
    using netif_map_upd [OF len idx, where nf = nf and b = b and fr = fr and i = i] b [of i] idx by (auto simp: netif_map_def)
qed

lemma update_del_refines:
  assumes ok: "netifs_ok nf"
  shows "\<exists>nf'. update_netifs mem (Del_Netif idx) nf = Ret (fst (spec_update mem (Del_Netif idx) (netif_abs nf)), nf') \<and> netifs_ok nf' \<and> netif_abs nf' = snd (spec_update mem (Del_Netif idx) (netif_abs nf))"
proof (cases "0 \<le> idx \<and> netif_map nf idx \<noteq> None")
  case False
  then show ?thesis using ok netifs_bucket [OF ok, of idx] by (cases "idx < 0") (simp_all add: update_netifs_def spec_update_def netif_abs_def)
next
  case True
  then obtain n where idx: "0 \<le> idx" and n: "netif_map nf idx = Some n" by blast
  let ?b = "netifs_hash nf ! netif_hash idx"
  let ?nf = "nf\<lparr>netifs_hash := (netifs_hash nf)[netif_hash idx := bucket_del idx ?b], free_netifs := free_netifs nf @ [n]\<rparr>"
  have b: "distinct (map if_index ?b)" "\<forall>n \<in> set ?b. 0 \<le> if_index n \<and> netif_hash (if_index n) = netif_hash idx \<and> length (if_name n) \<le> 63" by (rule netifs_entries [OF ok])+
  have "update_netifs mem (Del_Netif idx) nf = Ret (0, ?nf)" using idx n netifs_bucket [OF ok idx] by (simp add: update_netifs_def)
  moreover have "netifs_ok ?nf" by (rule netifs_ok_upd [OF ok bucket_del_sub(2) [OF b(1)]]) (use b(2) bucket_del_sub(1) [of idx ?b] in blast)
  moreover have "netif_map ?nf = (netif_map nf)(idx := None)" by (rule netif_map_change [OF ok idx]) (simp add: find_bucket_del [OF b(1)] netif_map_find(1))
  ultimately show ?thesis using idx n by (simp add: spec_update_def netif_abs_def)
qed

lemma update_set_refines:
  assumes ok: "netifs_ok nf"
  shows "\<exists>nf'. update_netifs mem (Set_Netif idx name t) nf = Ret (fst (spec_update mem (Set_Netif idx name t) (netif_abs nf)), nf') \<and> netifs_ok nf' \<and> netif_abs nf' = snd (spec_update mem (Set_Netif idx name t) (netif_abs nf))"
proof (cases "idx < 0 \<or> netif_map nf idx = None \<and> free_netifs nf = [] \<and> \<not> mem")
  case True
  then show ?thesis using ok netifs_bucket [OF ok, of idx] by (cases "idx < 0") (simp_all add: update_netifs_def spec_update_def netif_abs_def)
next
  case False
  then have idx: "0 \<le> idx" and room: "netif_map nf idx = None \<Longrightarrow> free_netifs nf \<noteq> [] \<or> mem" by auto
  let ?b = "netifs_hash nf ! netif_hash idx" and ?v = "\<lparr>if_index = idx, if_type = t, if_name = name64 name\<rparr>"
  have b: "distinct (map if_index ?b)" "\<forall>n \<in> set ?b. 0 \<le> if_index n \<and> netif_hash (if_index n) = netif_hash idx \<and> length (if_name n) \<le> 63" by (rule netifs_entries [OF ok])+
  have v: "length (if_name ?v) \<le> 63" by (simp add: name64_def split: option.split)
  note bk = netifs_bucket [OF ok idx]
  show ?thesis
  proof (cases "netif_map nf idx")
    case None
    let ?nf = "nf\<lparr>netifs_hash := (netifs_hash nf)[netif_hash idx := ?b @ [?v]], free_netifs := tl (free_netifs nf)\<rparr>"
    have "update_netifs mem (Set_Netif idx name t) nf = Ret (0, ?nf)" using idx None bk room by (auto simp: update_netifs_def)
    moreover have "netifs_ok ?nf" by (rule netifs_ok_upd [OF ok]) (use b v idx None bk(3) in \<open>auto simp: find_index_None\<close>)
    moreover have "netif_map ?nf = (netif_map nf)(idx \<mapsto> ?v)" 
    proof (rule netif_map_change [OF ok idx])
      fix i assume i: "0 \<le> i" "netif_hash i = netif_hash idx"
      then have "find (\<lambda>n. if_index n = i) ?b = netif_map nf i" by (simp add: netif_map_find(1))
      then show "find (\<lambda>n. if_index n = i) (?b @ [?v]) = (if i = idx then Some ?v else netif_map nf i)" using None by (simp add: find_snoc split: option.split)
    qed
    ultimately show ?thesis using idx None room by (auto simp: spec_update_def netif_abs_def)
  next
    case (Some n)
    then have n: "n \<in> set ?b" "if_index n = idx" using bk(3) find_index by fastforce+
    let ?nf = "nf\<lparr>netifs_hash := (netifs_hash nf)[netif_hash idx := bucket_set idx ?v ?b], free_netifs := free_netifs nf\<rparr>"
    have "rename_netif name (n\<lparr>if_type := t\<rparr>) = ?v" using rename_netif_eq n b(2) by blast
    then have "update_netifs mem (Set_Netif idx name t) nf = Ret (0, ?nf)" using idx Some bk by (simp add: update_netifs_def)
    moreover have "netifs_ok ?nf" by (rule netifs_ok_upd [OF ok]) (use b v idx bucket_set_sub [of idx ?v ?b] in auto)
    moreover have "netif_map ?nf = (netif_map nf)(idx \<mapsto> ?v)" by (rule netif_map_change [OF ok idx]) (use n in \<open>auto simp: find_bucket_set netif_map_find(1)\<close>)
    ultimately show ?thesis using idx Some by (simp add: spec_update_def netif_abs_def)
  qed
qed

lemma update_refines:
  assumes "netifs_ok nf"
  shows "\<exists>nf'. update_netifs mem c nf = Ret (fst (spec_update mem c (netif_abs nf)), nf') \<and> netifs_ok nf' \<and> netif_abs nf' = snd (spec_update mem c (netif_abs nf))"
  using update_del_refines [OF assms] update_set_refines [OF assms] by (cases c) simp_all

subsection \<open>The events tell the network\<close>

text \<open>A route is either marked as none or one with a gateway; on such routes \<^verbatim>\<open>__same_rt\<close> is an equivalence.\<close>

definition rt_proper :: "rt \<Rightarrow> bool" where
  "rt_proper r \<longleftrightarrow> if_index (rt_netif r) < 0 \<or> rt_valid r"

definition def_rt_proper :: "def_rt \<Rightarrow> bool" where
  "def_rt_proper d \<longleftrightarrow> rt_proper (IPv4 d) \<and> rt_proper (IPv6 d)"

lemma ip_equal_trans: "aosl_sk_addr_ip_equal a b \<Longrightarrow> aosl_sk_addr_ip_equal b c \<Longrightarrow> aosl_sk_addr_ip_equal a c"
  by (auto simp: aosl_sk_addr_ip_equal_def FAM_INET_def FAM_INET6_def FAM_UNSPEC_def)

lemma ip_equal_sym: "aosl_sk_addr_ip_equal a b \<Longrightarrow> aosl_sk_addr_ip_equal b a"
  by (auto simp: aosl_sk_addr_ip_equal_def)

lemma same_rt_refl: "rt_proper r \<Longrightarrow> same_rt r r"
  by (auto simp: same_rt_def rt_proper_def rt_valid_def aosl_sk_addr_ip_equal_def)

lemma same_rt_sym: "same_rt a b \<Longrightarrow> same_rt b a"
  by (auto simp: same_rt_def ip_equal_sym split: if_splits)

lemma same_rt_trans: "same_rt a b \<Longrightarrow> same_rt b c \<Longrightarrow> same_rt a c"
  by (auto simp: same_rt_def intro: ip_equal_trans split: if_splits)

lemma same_def_rt_refl: "def_rt_proper d \<Longrightarrow> same_def_rt d d"
  by (simp add: same_def_rt_def def_rt_proper_def same_rt_refl)

lemma same_def_rt_sym: "same_def_rt a b \<Longrightarrow> same_def_rt b a"
  by (simp add: same_def_rt_def same_rt_sym)

lemma same_def_rt_trans: "same_def_rt a b \<Longrightarrow> same_def_rt b c \<Longrightarrow> same_def_rt a c"
  using same_rt_trans [of "IPv4 a" "IPv4 b" "IPv4 c"] same_rt_trans [of "IPv6 a" "IPv6 b" "IPv6 c"] by (simp add: same_def_rt_def)

text \<open>What a subscriber that keeps the routes of the events believes, and the events that make sense to it.\<close>

definition follow :: "net_call \<Rightarrow> def_rt option \<Rightarrow> def_rt option" where
  "follow c v = (case c of (ev, d1, d2) \<Rightarrow> (case ev of
       NET_EV_NET_DOWN \<Rightarrow> None
     | NET_EV_NET_UP \<Rightarrow> Some d1
     | NET_EV_NONE \<Rightarrow> v
     | _ \<Rightarrow> Some d2))"

definition makes_sense :: "def_rt option \<Rightarrow> net_call \<Rightarrow> bool" where
  "makes_sense v c \<longleftrightarrow> (case c of (ev, d1, d2) \<Rightarrow> (case ev of
       NET_EV_NET_DOWN \<Rightarrow> v \<noteq> None
     | NET_EV_NET_UP \<Rightarrow> v = None \<and> def_rt_valid d1
     | NET_EV_NET_UP_CHANGED \<Rightarrow> v = None \<and> def_rt_valid d2 \<and> \<not> same_def_rt d2 d1
     | NET_EV_NET_SWITCH \<Rightarrow> (\<exists>d. v = Some d \<and> same_def_rt d1 d) \<and> def_rt_valid d2 \<and> \<not> same_def_rt d2 d1
     | NET_EV_RT_CNT_CHANGED \<Rightarrow> (\<exists>d. v = Some d \<and> same_def_rt d1 d) \<and> same_def_rt d2 d1 \<and> \<not> same_def_rt_cnt d2 d1
     | NET_EV_NONE \<Rightarrow> False))"

fun all_make_sense :: "def_rt option \<Rightarrow> net_call list \<Rightarrow> bool" where
  "all_make_sense v [] \<longleftrightarrow> True"
| "all_make_sense v (c # cs) \<longleftrightarrow> makes_sense v c \<and> all_make_sense (follow c v) cs"

definition belief_ok :: "def_rt option \<Rightarrow> def_rts \<Rightarrow> bool" where
  "belief_ok v s \<longleftrightarrow> (case v of None \<Rightarrow> \<not> def_rt_valid (get_curr_def_rt s) | Some d \<Rightarrow> def_rt_valid (get_curr_def_rt s) \<and> same_def_rt (get_curr_def_rt s) d)"

lemma curr_after [simp]:
  "get_curr_def_rt (switch_new_to_curr (put_new_def_rt d s)) = d" "get_curr_def_rt (switch_new_to_curr ((put_new_def_rt d s)\<lparr>last_valid_def_rt := l\<rparr>)) = d"
  "get_curr_def_rt (put_new_def_rt d s) = get_curr_def_rt s" "last_valid_def_rt (put_new_def_rt d s) = last_valid_def_rt s"
  by (simp_all add: get_curr_def_rt_def switch_new_to_curr_def put_new_def_rt_def)

text \<open>What the events rest on: the source of the routes returns, says how many there are, and marks those that are not there.\<close>

locale def_rt_source =
  fixes get :: "'e \<Rightarrow> def_rt \<Rightarrow> (int \<times> def_rt) exec" and ok :: "'e \<Rightarrow> bool"
  assumes get_def_rt: "ok e \<Longrightarrow> \<exists>n d'. get e d = Ret (n, d') \<and> (0 < n \<longleftrightarrow> def_rt_valid d') \<and> def_rt_proper d'"
begin

lemma check_keeps_belief:
  assumes "ok e" "belief_ok v s"
  shows "\<exists>call s'. check_report_def_rt_change_event (get e) True st1 st2 s = Ret (call, s') \<and>
    (case call of None \<Rightarrow> belief_ok v s' | Some c \<Rightarrow> makes_sense v c \<and> belief_ok (follow c v) s')"
proof -
  obtain n d where g: "get e (get_new_def_rt s) = Ret (n, d)" "0 < n \<longleftrightarrow> def_rt_valid d" "def_rt_proper d" using get_def_rt [OF assms(1)] by blast
  show ?thesis
  proof (cases "def_rt_valid d")
    case False
    then show ?thesis using g assms(2) by (cases v) (simp_all add: check_report_def_rt_change_event_def belief_ok_def makes_sense_def follow_def)
  next
    case True
    note refl = same_def_rt_refl [OF g(3)]
    let ?call = "change_event (invalidate_def_rt st1) (invalidate_def_rt st2) (put_new_def_rt d s) d"
    let ?s = "switch_new_to_curr ((put_new_def_rt d s)\<lparr>last_valid_def_rt := d\<rparr>)"
    have res: "check_report_def_rt_change_event (get e) True st1 st2 s = Ret (?call, ?s)" using g True by (simp add: check_report_def_rt_change_event_def Let_def)
    have "case ?call of None \<Rightarrow> belief_ok v ?s | Some c \<Rightarrow> makes_sense v c \<and> belief_ok (follow c v) ?s"
    proof (cases v)
      case None
      then show ?thesis using assms(2) True refl by (simp add: change_event_def belief_ok_def makes_sense_def follow_def Let_def)
    next
      case (Some r)
      then have r: "def_rt_valid (get_curr_def_rt s)" "same_def_rt (get_curr_def_rt s) r" using assms(2) by (simp_all add: belief_ok_def)
      then show ?thesis using Some True refl same_def_rt_trans [OF _ r(2), of d] by (simp add: change_event_def belief_ok_def makes_sense_def follow_def Let_def)
    qed
    then show ?thesis using res by blast
  qed
qed

end

text \<open>The Linux source.\<close>

lemma netifs_ok_lookup:
  assumes "netifs_ok nf"
  shows "netif_by_index nf idx = Ret (netif_map nf idx)"
proof (cases "idx < 0")
  case True
  then show ?thesis by (simp add: netif_by_index_def netif_map_def)
next
  case False
  then show ?thesis using netifs_bucket(2) [OF assms, of idx] by (simp add: netif_by_index_def)
qed

lemma fill_rt_valid:
  assumes "af = FAM_INET \<or> af = FAM_INET6"
  shows "rt_valid (fill_rt w nif af d p pos r)"
  using assms by (cases nif; cases "pk_gw p") (auto simp: fill_rt_def rt_valid_def Let_def)

lemma af_get_default_rt_ok:
  assumes "netifs_ok nf" "af = FAM_INET \<or> af = FAM_INET6"
  shows "\<exists>n r'. af_get_default_rt w nf af d r = Ret (n, r') \<and> (n = 0 \<and> if_index (rt_netif r') < 0 \<or> n = 1 \<and> rt_valid r')"
  using fill_rt_valid [OF assms(2)] netifs_ok_lookup [OF assms(1)]
  by (simp add: af_get_default_rt_def Let_def invalidate_rt_def split: option.split)

interpretation linux_rt: def_rt_source os_get_def_rt "\<lambda>e. netifs_ok (env_netifs e)"
proof
  fix e :: rt_env and d :: def_rt
  assume ok: "netifs_ok (env_netifs e)"
  obtain n4 r4 where r4: "af_get_default_rt (env_wireless e) (env_netifs e) FAM_INET (env_dump4 e) (IPv4 d) = Ret (n4, r4)" "n4 = 0 \<and> if_index (rt_netif r4) < 0 \<or> n4 = 1 \<and> rt_valid r4"
    using af_get_default_rt_ok [OF ok, of FAM_INET] by blast
  obtain n6 r6 where r6: "af_get_default_rt (env_wireless e) (env_netifs e) FAM_INET6 (env_dump6 e) (IPv6 d) = Ret (n6, r6)" "n6 = 0 \<and> if_index (rt_netif r6) < 0 \<or> n6 = 1 \<and> rt_valid r6"
    using af_get_default_rt_ok [OF ok, of FAM_INET6] by blast
  have "os_get_def_rt e d = Ret (n4 + n6, \<lparr>IPv4 = r4, IPv6 = r6\<rparr>)" using r4(1) r6(1) by (simp add: os_get_def_rt_def)
  moreover have "0 < n4 + n6 \<longleftrightarrow> def_rt_valid \<lparr>IPv4 = r4, IPv6 = r6\<rparr>" using r4(2) r6(2) by (auto simp: def_rt_valid_def rt_valid_def)
  moreover have "def_rt_proper \<lparr>IPv4 = r4, IPv6 = r6\<rparr>" using r4(2) r6(2) by (auto simp: def_rt_proper_def rt_proper_def)
  ultimately show "\<exists>n d'. os_get_def_rt e d = Ret (n, d') \<and> (0 < n \<longleftrightarrow> def_rt_valid d') \<and> def_rt_proper d'" by blast
qed

abbreviation call_list :: "net_call option \<Rightarrow> net_call list" where
  "call_list c \<equiv> case c of Some c \<Rightarrow> [c] | None \<Rightarrow> []"

definition route_ok :: "def_rt option \<Rightarrow> route \<Rightarrow> bool" where
  "route_ok v s \<longleftrightarrow> netifs_ok (route_netifs s) \<and> belief_ok v (route_rts s)"

lemma check_route_ok:
  assumes "route_ok v s"
  shows "\<exists>call s'. check_route w d4 d6 stack s = Ret (call, s') \<and> all_make_sense v (call_list call) \<and> route_ok (fold follow (call_list call) v) s'"
proof -
  let ?e = "\<lparr>env_wireless = w, env_netifs = route_netifs s, env_dump4 = d4, env_dump6 = d6\<rparr>"
  have "netifs_ok (env_netifs ?e)" "belief_ok v (route_rts s)" using assms by (simp_all add: route_ok_def)
  from linux_rt.check_keeps_belief [OF this, of "fst stack" "snd stack"] obtain call r where
    c: "check_report_def_rt_change_event (os_get_def_rt ?e) True (fst stack) (snd stack) (route_rts s) = Ret (call, r)"
      "case call of None \<Rightarrow> belief_ok v r | Some c \<Rightarrow> makes_sense v c \<and> belief_ok (follow c v) r" by blast
  then show ?thesis using assms by (cases call) (simp_all add: check_route_def route_ok_def)
qed

lemma all_make_sense_append: "all_make_sense v (xs @ ys) \<longleftrightarrow> all_make_sense v xs \<and> all_make_sense (fold follow xs v) ys"
  by (induction xs arbitrary: v) auto

lemma process_rtmsg_ok:
  "route_ok v s \<Longrightarrow> \<exists>calls s'. process_rtmsg w stack ms s = Ret (calls, s') \<and> all_make_sense v calls \<and> route_ok (fold follow calls v) s'"
proof (induction w stack ms s arbitrary: v rule: process_rtmsg.induct)
  case (4 w stack c ms s)
  obtain err nf where u: "update_netifs True c (route_netifs s) = Ret (err, nf)" "netifs_ok nf" using update_refines [of "route_netifs s" True c] 4(2) by (auto simp: route_ok_def)
  then have "route_ok v (s\<lparr>route_netifs := nf\<rparr>)" using 4(2) by (simp add: route_ok_def)
  then show ?case using 4(1) [of "(err, nf)" err nf v] u(1) by simp
next
  case (5 w stack d4 d6 ms s)
  obtain call s1 where c: "check_route w d4 d6 stack s = Ret (call, s1)" "all_make_sense v (call_list call)" "route_ok (fold follow (call_list call) v) s1" using check_route_ok [OF 5(2)] by blast
  obtain calls s2 where r: "process_rtmsg w stack ms s1 = Ret (calls, s2)" "all_make_sense (fold follow (call_list call) v) calls" "route_ok (fold follow calls (fold follow (call_list call) v)) s2"
    using 5(1) [OF c(1) refl c(3)] by blast
  then show ?case using c by (simp add: all_make_sense_append)
qed simp_all

text \<open>The life of the component: subscribing, unsubscribing, messages of the kernel. With it the calls that the subscriber got since it subscribed.\<close>

inductive route_run :: "route \<Rightarrow> net_call list \<Rightarrow> bool" where
  run_start: "route_run route_start []"
| run_subscribe: "route_run s cs \<Longrightarrow> aosl_subscribe_net_events os stack q f arg s = Ret (r, s') \<Longrightarrow>
     route_run s' (if f = 0 \<and> sr_err r = 0 then [] else cs @ call_list (sr_call r))"
| run_messages: "route_run s cs \<Longrightarrow> netev_f s \<noteq> 0 \<Longrightarrow> process_rtmsg w stack ms s = Ret (calls, s') \<Longrightarrow> route_run s' (cs @ calls)"

lemma init_def_rt_invalid [simp]: "\<not> def_rt_valid aosl_init_def_rt"
  by (simp add: aosl_init_def_rt_def init_rt_def def_rt_valid_def rt_valid_def)

lemma update_all_ok: "netifs_ok nf \<Longrightarrow> \<exists>nf'. update_all_netifs cs nf = Ret nf' \<and> netifs_ok nf'"
proof (induction cs arbitrary: nf)
  case (Cons c cs)
  obtain err nf1 where "update_netifs True c nf = Ret (err, nf1)" "netifs_ok nf1" using update_refines [OF Cons(2), of True c] by blast
  then show ?case using Cons(1) [of nf1] by simp
qed simp

lemma subscribe_ok:
  assumes ok: "route_ok v s" and f: "f \<noteq> 0"
  shows "\<exists>r s'. aosl_subscribe_net_events os stack q f arg s = Ret (r, s') \<and> all_make_sense v (call_list (sr_call r)) \<and> route_ok (fold follow (call_list (sr_call r)) v) s'"
proof (cases "aosl_mpq_invalid q \<or> \<not> aosl_mpq_invalid (netev_subscriber_q s)")
  case True
  then show ?thesis using ok f by (auto simp: aosl_subscribe_net_events_def)
next
  case False
  obtain err closed fd where a: "create_and_attach_af_netlink os (af_netlink_fd s) = (err, closed, fd)" by (metis prod_cases3)
  have ok1: "route_ok v (s\<lparr>af_netlink_fd := fd\<rparr>)" using ok by (simp add: route_ok_def)
  obtain nf where nf: "update_all_netifs (so_links os) (route_netifs s) = Ret nf" "netifs_ok nf" using update_all_ok ok unfolding route_ok_def by blast
  let ?s = "s\<lparr>af_netlink_fd := fd, route_netifs := nf, netev_subscriber_q := q, netev_f := f, netev_f_arg := arg\<rparr>"
  have ok2: "route_ok v ?s" using ok nf(2) by (simp add: route_ok_def)
  obtain call s' where c: "check_route (so_wireless os) (so_dump4 os) (so_dump6 os) stack ?s = Ret (call, s')" "all_make_sense v (call_list call)" "route_ok (fold follow (call_list call) v) s'"
    using check_route_ok [OF ok2] by blast
  show ?thesis
  proof (cases "err < 0")
    case True
    then show ?thesis using False f a ok1 by (simp add: aosl_subscribe_net_events_def os_subscribe_net_events_def)
  next
    case no_err: False
    then show ?thesis using False f a nf c by (simp add: aosl_subscribe_net_events_def os_subscribe_net_events_def)
  qed
qed

lemma unsubscribe_ok:
  assumes ok: "route_ok v s"
  shows "\<exists>r s'. aosl_subscribe_net_events os stack q 0 arg s = Ret (r, s') \<and> (sr_err r = 0 \<and> route_ok None s' \<or> sr_err r \<noteq> 0 \<and> sr_call r = None \<and> s' = s)"
proof (cases "aosl_mpq_invalid q \<or> netev_subscriber_q s \<noteq> q")
  case True
  then show ?thesis by (auto simp: aosl_subscribe_net_events_def)
next
  case False
  obtain closed s1 where u: "os_unsubscribe_net_events s = (closed, s1)" by fastforce
  then show ?thesis using False
    by (auto simp: aosl_subscribe_net_events_def netifs_hash_fini_def IFINFO_HASH_SIZE_def route_ok_def belief_ok_def route_clear_def get_curr_def_rt_def netifs_ok_def nth_replicate)
qed

lemma route_run_ok: "route_run s cs \<Longrightarrow> all_make_sense None cs \<and> route_ok (fold follow cs None) s"
proof (induction rule: route_run.induct)
  case run_start
  then show ?case by (simp add: route_start_def k_route_init_def route_ok_def belief_ok_def route_clear_def get_curr_def_rt_def netifs_ok_def netifs_hash_init_def IFINFO_HASH_SIZE_def)
next
  case (run_subscribe s cs os stack q f arg r s')
  then have ok: "all_make_sense None cs" "route_ok (fold follow cs None) s" by simp_all
  show ?case
  proof (cases "f = 0")
    case True
    then show ?thesis using unsubscribe_ok [OF ok(2), of os stack q arg] run_subscribe(2) ok by auto
  next
    case False
    then show ?thesis using subscribe_ok [OF ok(2) False, of os stack q arg] run_subscribe(2) ok(1) by (auto simp: all_make_sense_append)
  qed
next
  case (run_messages s cs w stack ms calls s')
  then have ok: "all_make_sense None cs" "route_ok (fold follow cs None) s" by simp_all
  then show ?case using process_rtmsg_ok [OF ok(2), of w stack ms] run_messages(3) by (auto simp: all_make_sense_append)
qed

subsection \<open>Which route\<close>

definition default_route :: "rtmsg \<Rightarrow> bool" where
  "default_route msg \<longleftrightarrow> rtm_unicast msg \<and> (rtm_family msg = FAM_INET \<or> rtm_family msg = FAM_INET6) \<and> rtm_dst_len msg = 0 \<and> rta_oif msg \<noteq> None"

fun heard :: "nl_route list \<Rightarrow> rtmsg list" where
  "heard (Rt_New msg # ms) = (if default_route msg then msg # heard ms else heard ms)"
| "heard (Rt_Skip # ms) = heard ms"
| "heard _ = []"

definition usable :: "rtmsg \<Rightarrow> bool" where
  "usable msg \<longleftrightarrow> (case rta_priority msg of Some pri \<Rightarrow> pri < 0xffffffff | None \<Rightarrow> True)"

text \<open>The metric of the pick is that of the picked message, or the largest one when no message with a metric is picked.\<close>

definition pick_ok :: "rtmsg list \<Rightarrow> rt_pick \<Rightarrow> bool" where
  "pick_ok ms p \<longleftrightarrow> pk_cnt p = int (length ms) \<and> (pk_oif p = None \<longrightarrow> pk_gw p = None \<and> pk_metric p = 0xffffffff) \<and>
     (\<forall>m \<in> set ms. \<forall>pri. rta_priority m = Some pri \<longrightarrow> pk_metric p \<le> pri) \<and>
     (pk_oif p = None \<longleftrightarrow> (\<forall>m \<in> set ms. \<not> usable m)) \<and>
     (pk_oif p \<noteq> None \<longrightarrow> (\<exists>m \<in> set ms. rta_oif m = pk_oif p \<and> rta_gateway m = pk_gw p \<and> (pk_metric p < 0xffffffff \<longrightarrow> rta_priority m = Some (pk_metric p))))"

lemma pick_route_skip: "\<not> default_route msg \<Longrightarrow> pick_route msg p = p"
  by (auto simp: default_route_def pick_route_def)

lemma pick_route_ok:
  assumes "pick_ok ms p" "default_route msg"
  shows "pick_ok (ms @ [msg]) (pick_route msg p)"
proof -
  have step: "pick_route msg p = (case rta_priority msg of
      Some pri \<Rightarrow> if pri < pk_metric p then p\<lparr>pk_cnt := pk_cnt p + 1, pk_metric := pri, pk_oif := rta_oif msg, pk_gw := rta_gateway msg\<rparr> else p\<lparr>pk_cnt := pk_cnt p + 1\<rparr>
    | None \<Rightarrow> if pk_oif p = None then p\<lparr>pk_cnt := pk_cnt p + 1, pk_oif := rta_oif msg, pk_gw := rta_gateway msg\<rparr> else p\<lparr>pk_cnt := pk_cnt p + 1\<rparr>)"
    using assms by (auto simp: pick_route_def default_route_def pick_ok_def Let_def split: option.split)
  have "(0xffffffff :: u32) = - 1" by simp
  then have max: "(q :: u32) \<le> 0xffffffff" for q by (simp only: word_n1_ge)
  show ?thesis
  proof (cases "rta_priority msg")
    case None
    then show ?thesis using assms by (cases "pk_oif p") (auto simp: step pick_ok_def usable_def default_route_def)
  next
    case (Some pri)
    show ?thesis
    proof (cases "pri < pk_metric p")
      case True
      then have "pri < 0xffffffff" using max less_le_trans by blast
      then show ?thesis using Some True assms by (fastforce simp: step pick_ok_def usable_def default_route_def)
    next
      case False
      then show ?thesis using Some assms by (cases "pk_oif p") (auto simp: step pick_ok_def usable_def not_less)
    qed
  qed
qed

lemma pick_routes_ok: "pick_ok ms p \<Longrightarrow> pick_ok (ms @ heard msgs) (pick_routes msgs p)"
proof (induction msgs arbitrary: ms p rule: heard.induct)
  case (1 msg msgs)
  then show ?case using pick_route_ok [of ms p msg] 1(1,2) [of "ms @ [msg]" "pick_route msg p"] by (cases "default_route msg") (simp_all add: pick_route_skip)
qed simp_all

subsection \<open>Counts that stay behind\<close>

text \<open>The IPv4 route that a check writes over an old one: only an old gateway of another length could show in it.\<close>

definition picks :: "rt_dump \<Rightarrow> bool" where
  "picks d \<longleftrightarrow> (\<exists>ms. dump_msgs d = Some ms \<and> pk_oif (pick_routes ms pick_zero) \<noteq> None)"

lemma af_get_none: "\<not> picks d \<Longrightarrow> af_get_default_rt w nf af d r = Ret (0, invalidate_rt r)"
  by (auto simp: picks_def af_get_default_rt_def Let_def split: option.split)

lemma af_get_some:
  assumes "picks d" "netifs_ok nf"
  shows "\<exists>fill cnt. (\<forall>r. af_get_default_rt w nf af d r = Ret (1, fill r) \<and> def_rt_cnt (fill r) = cnt) \<and> 0 < cnt \<and>
    (af = FAM_INET \<and> (\<forall>g. length (gw_at d g) = 4) \<longrightarrow> (\<forall>r r'. length (sa_word (rt_gw r)) = 4 \<and> length (sa_word (rt_gw r')) = 4 \<longrightarrow> length (sa_word (rt_gw (fill r))) = 4 \<and> same_rt (fill r) (fill r')))"
proof -
  obtain ms pos where ms: "dump_msgs d = Some ms" "pk_oif (pick_routes ms pick_zero) = Some pos" using assms(1) by (auto simp: picks_def)
  let ?p = "pick_routes ms pick_zero"
  have "pick_ok [] pick_zero" by (simp add: pick_ok_def pick_zero_def)
  then have "pick_ok (heard ms) ?p" using pick_routes_ok [of "[]" pick_zero ms] by simp
  then have "0 < pk_cnt ?p" using ms(2) by (auto simp: pick_ok_def)
  then show ?thesis
    using ms netifs_ok_lookup [OF assms(2)]
    by (intro exI [of _ "\<lambda>r. fill_rt w (netif_map nf (int (oif_at d pos))) af d ?p pos (invalidate_rt r)"] exI [of _ "if pk_cnt ?p > 2 then 2 else pk_cnt ?p"])
      (auto simp: af_get_default_rt_def fill_rt_def Let_def same_rt_def copy_gw_def aosl_sk_addr_ip_equal_def invalidate_rt_def sa_zero_def split: option.split)
qed

lemma af_get_some6:
  assumes "picks d" "netifs_ok nf"
  shows "\<exists>fill cnt. (\<forall>r. af_get_default_rt w nf FAM_INET6 d r = Ret (1, fill r) \<and> def_rt_cnt (fill r) = cnt) \<and> 0 < cnt \<and>
    ((\<forall>g. length (gw_at d g) = 16) \<longrightarrow> (\<forall>r r'. length (sa_addr6 (rt_gw r)) = 16 \<and> length (sa_addr6 (rt_gw r')) = 16 \<longrightarrow> length (sa_addr6 (rt_gw (fill r))) = 16 \<and> same_rt (fill r) (fill r')))"
proof -
  obtain ms pos where ms: "dump_msgs d = Some ms" "pk_oif (pick_routes ms pick_zero) = Some pos" using assms(1) by (auto simp: picks_def)
  let ?p = "pick_routes ms pick_zero"
  have "pick_ok [] pick_zero" by (simp add: pick_ok_def pick_zero_def)
  then have "pick_ok (heard ms) ?p" using pick_routes_ok [of "[]" pick_zero ms] by simp
  then have "0 < pk_cnt ?p" using ms(2) by (auto simp: pick_ok_def)
  moreover have "FAM_INET6 \<noteq> FAM_INET" by (simp add: FAM_INET_def FAM_INET6_def)
  ultimately show ?thesis
    using ms netifs_ok_lookup [OF assms(2)]
    by (intro exI [of _ "\<lambda>r. fill_rt w (netif_map nf (int (oif_at d pos))) FAM_INET6 d ?p pos (invalidate_rt r)"] exI [of _ "if pk_cnt ?p > 2 then 2 else pk_cnt ?p"])
      (auto simp: af_get_default_rt_def fill_rt_def Let_def same_rt_def copy_gw_def aosl_sk_addr_ip_equal_def invalidate_rt_def sa_zero_def split: option.split)
qed

lemma new_after [simp]:
  "get_new_def_rt (switch_new_to_curr (put_new_def_rt d s)) = get_curr_def_rt s" "get_new_def_rt (switch_new_to_curr ((put_new_def_rt d s)\<lparr>last_valid_def_rt := l\<rparr>)) = get_curr_def_rt s"
  by (simp_all add: get_curr_def_rt_def get_new_def_rt_def switch_new_to_curr_def put_new_def_rt_def)

text \<open>The state between two checks that see the same IPv4 route and no IPv6 route; \<open>differ\<close>: whether the two buffers hold different numbers of IPv6 routes.\<close>

definition stale :: "(rt \<Rightarrow> rt) \<Rightarrow> bool \<Rightarrow> def_rts \<Rightarrow> bool" where
  "stale fill differ s \<longleftrightarrow> (\<exists>r. length (sa_word (rt_gw r)) = 4 \<and> IPv4 (get_curr_def_rt s) = fill r) \<and> length (sa_word (rt_gw (IPv4 (get_new_def_rt s)))) = 4 \<and>
     if_index (rt_netif (IPv6 (get_curr_def_rt s))) < 0 \<and> (def_rt_cnt (IPv6 (get_new_def_rt s)) \<noteq> def_rt_cnt (IPv6 (get_curr_def_rt s)) \<longleftrightarrow> differ)"

text \<open>The state after checks that saw a route of both families: \<open>f4\<close> and \<open>f6\<close> are what a check makes of a buffer.\<close>

definition seen :: "(rt \<Rightarrow> rt) \<Rightarrow> (rt \<Rightarrow> rt) \<Rightarrow> def_rts \<Rightarrow> bool" where
  "seen f4 f6 s \<longleftrightarrow> (\<exists>r r6. length (sa_word (rt_gw r)) = 4 \<and> length (sa_addr6 (rt_gw r6)) = 16 \<and> get_curr_def_rt s = \<lparr>IPv4 = f4 r, IPv6 = f6 r6\<rparr>)
     \<and> length (sa_word (rt_gw (IPv4 (get_new_def_rt s)))) = 4 \<and> length (sa_addr6 (rt_gw (IPv6 (get_new_def_rt s)))) = 16"

definition fills4 :: "(rt \<Rightarrow> rt) \<Rightarrow> bool" where
  "fills4 f \<longleftrightarrow> (\<forall>r r'. length (sa_word (rt_gw r)) = 4 \<and> length (sa_word (rt_gw r')) = 4 \<longrightarrow> length (sa_word (rt_gw (f r))) = 4 \<and> same_rt (f r) (f r'))
     \<and> (\<forall>r. rt_valid (f r)) \<and> (\<forall>r r'. def_rt_cnt (f r) = def_rt_cnt (f r'))"

definition fills6 :: "(rt \<Rightarrow> rt) \<Rightarrow> bool" where
  "fills6 f \<longleftrightarrow> (\<forall>r r'. length (sa_addr6 (rt_gw r)) = 16 \<and> length (sa_addr6 (rt_gw r')) = 16 \<longrightarrow> length (sa_addr6 (rt_gw (f r))) = 16 \<and> same_rt (f r) (f r'))
     \<and> (\<forall>r. rt_valid (f r)) \<and> (\<forall>r r'. def_rt_cnt (f r) = def_rt_cnt (f r'))"

lemma seen_check:
  assumes st: "seen f4 f6 (route_rts s)" and f4: "fills4 f4" "\<And>r. af_get_default_rt w (route_netifs s) FAM_INET d4 r = Ret (1, f4 r)"
    and f6: "fills6 f6" "\<And>r. af_get_default_rt w (route_netifs s) FAM_INET6 d6 r = Ret (1, f6 r)"
  shows "\<exists>s'. check_route w d4 d6 stack s = Ret (None, s') \<and> seen f4 f6 (route_rts s') \<and> route_netifs s' = route_netifs s \<and> def_rt_cnt (IPv6 (get_new_def_rt (route_rts s'))) = def_rt_cnt (f6 init_rt)"
proof -
  let ?c = "get_curr_def_rt (route_rts s)" and ?n = "get_new_def_rt (route_rts s)"
  obtain r r6 where r: "length (sa_word (rt_gw r)) = 4" "length (sa_addr6 (rt_gw r6)) = 16" "?c = \<lparr>IPv4 = f4 r, IPv6 = f6 r6\<rparr>" using st by (auto simp: seen_def)
  have n: "length (sa_word (rt_gw (IPv4 ?n))) = 4" "length (sa_addr6 (rt_gw (IPv6 ?n))) = 16" using st by (simp_all add: seen_def)
  let ?d = "\<lparr>IPv4 = f4 (IPv4 ?n), IPv6 = f6 (IPv6 ?n)\<rparr>"
  let ?r = "switch_new_to_curr ((put_new_def_rt ?d (route_rts s))\<lparr>last_valid_def_rt := ?d\<rparr>)"
  have l: "length (sa_word (rt_gw (f4 r))) = 4" "length (sa_addr6 (rt_gw (f6 r6))) = 16" using f4(1) f6(1) r by (auto simp: fills4_def fills6_def)
  have v: "def_rt_valid ?c" using f4(1) r(3) by (simp add: def_rt_valid_def fills4_def)
  have same: "same_def_rt ?d ?c" using f4(1) f6(1) n r by (simp add: same_def_rt_def fills4_def fills6_def)
  have c4: "def_rt_cnt (f4 a) = def_rt_cnt (f4 b)" and c6: "def_rt_cnt (f6 a) = def_rt_cnt (f6 b)" for a b using f4(1) f6(1) unfolding fills4_def fills6_def by blast+
  have cnt: "same_def_rt_cnt ?d ?c" using r(3) c4 [of "IPv4 ?n" r] c6 [of "IPv6 ?n" r6] by (simp add: same_def_rt_cnt_def)
  have "os_get_def_rt \<lparr>env_wireless = w, env_netifs = route_netifs s, env_dump4 = d4, env_dump6 = d6\<rparr> ?n = Ret (2, ?d)" by (simp add: os_get_def_rt_def f4(2) f6(2))
  then have "check_route w d4 d6 stack s = Ret (None, s\<lparr>route_rts := ?r\<rparr>)"
    using v same cnt by (simp add: check_route_def check_report_def_rt_change_event_def change_event_def Let_def)
  moreover have "seen f4 f6 ?r" using n r(3) l by (auto simp: seen_def)
  moreover have "def_rt_cnt (IPv6 (get_new_def_rt ?r)) = def_rt_cnt (f6 init_rt)" using r(3) c6 [of r6 init_rt] by simp
  ultimately show ?thesis by auto
qed

lemma seen_checks:
  assumes f4: "fills4 f4" and f6: "fills6 f6"
  shows "seen f4 f6 (route_rts s) \<Longrightarrow> (\<And>r. af_get_default_rt w (route_netifs s) FAM_INET d4 r = Ret (1, f4 r)) \<Longrightarrow> (\<And>r. af_get_default_rt w (route_netifs s) FAM_INET6 d6 r = Ret (1, f6 r))
    \<Longrightarrow> \<exists>s'. (\<forall>ys. process_rtmsg w stack (replicate m (Nl_Route d4 d6) @ ys) s = process_rtmsg w stack ys s') \<and> seen f4 f6 (route_rts s') \<and> route_netifs s' = route_netifs s
      \<and> (if m = 0 then s' = s else def_rt_cnt (IPv6 (get_new_def_rt (route_rts s'))) = def_rt_cnt (f6 init_rt))"
proof (induction m arbitrary: s)
  case (Suc m)
  obtain s1 where c: "check_route w d4 d6 stack s = Ret (None, s1)" "seen f4 f6 (route_rts s1)" "route_netifs s1 = route_netifs s" "def_rt_cnt (IPv6 (get_new_def_rt (route_rts s1))) = def_rt_cnt (f6 init_rt)"
    using seen_check [OF Suc(2) f4 Suc(3) f6 Suc(4), where stack = stack] by blast
  obtain s' where s': "\<forall>ys. process_rtmsg w stack (replicate m (Nl_Route d4 d6) @ ys) s1 = process_rtmsg w stack ys s'" "seen f4 f6 (route_rts s')" "route_netifs s' = route_netifs s1"
    "if m = 0 then s' = s1 else def_rt_cnt (IPv6 (get_new_def_rt (route_rts s'))) = def_rt_cnt (f6 init_rt)"
    using Suc(1) [OF c(2)] Suc(3,4) c(3) by auto
  have pass: "ebind x (\<lambda>(calls, s). Ret ([] @ calls, s)) = x" for x :: "(net_call list \<times> route) exec" by (cases x) auto
  have "process_rtmsg w stack (replicate (Suc m) (Nl_Route d4 d6) @ ys) s = process_rtmsg w stack ys s'" for ys
    using c(1) s'(1) pass by simp
  then show ?case using s'(2-4) c(3,4) by (intro exI [of _ s']) (auto split: if_splits)
qed simp

lemma lost_check:
  assumes st: "seen f4 f6 (route_rts s)" and f4: "fills4 f4" "\<And>r. af_get_default_rt w (route_netifs s) FAM_INET d4 r = Ret (1, f4 r)" and f6: "fills6 f6" and no6: "\<not> picks d6"
  shows "\<exists>d s'. check_route w d4 d6 stack s = Ret (Some (NET_EV_NET_SWITCH, d), s') \<and> route_netifs s' = route_netifs s
    \<and> stale f4 (def_rt_cnt (IPv6 (get_new_def_rt (route_rts s))) \<noteq> def_rt_cnt (f6 init_rt)) (route_rts s')"
proof -
  let ?c = "get_curr_def_rt (route_rts s)" and ?n = "get_new_def_rt (route_rts s)"
  obtain r r6 where r: "length (sa_word (rt_gw r)) = 4" "?c = \<lparr>IPv4 = f4 r, IPv6 = f6 r6\<rparr>" using st by (auto simp: seen_def)
  have n: "length (sa_word (rt_gw (IPv4 ?n))) = 4" using st by (simp add: seen_def)
  let ?d = "\<lparr>IPv4 = f4 (IPv4 ?n), IPv6 = invalidate_rt (IPv6 ?n)\<rparr>"
  let ?r = "switch_new_to_curr ((put_new_def_rt ?d (route_rts s))\<lparr>last_valid_def_rt := ?d\<rparr>)"
  have inv: "if_index (rt_netif (invalidate_rt x)) < 0" "def_rt_cnt (invalidate_rt x) = def_rt_cnt x" for x by (simp_all add: invalidate_rt_def)
  have v: "def_rt_valid ?c" using f4(1) r(2) by (simp add: def_rt_valid_def fills4_def)
  have "rt_valid (f6 r6)" using f6 by (simp add: fills6_def)
  then have "0 \<le> if_index (rt_netif (f6 r6))" by (simp add: rt_valid_def)
  then have diff: "\<not> same_def_rt ?d ?c" using inv(1) [of "IPv6 ?n"] r(2) by (auto simp: same_def_rt_def same_rt_def)
  have c6: "def_rt_cnt (f6 r6) = def_rt_cnt (f6 init_rt)" using f6 unfolding fills6_def by blast
  have "os_get_def_rt \<lparr>env_wireless = w, env_netifs = route_netifs s, env_dump4 = d4, env_dump6 = d6\<rparr> ?n = Ret (1, ?d)" by (simp add: os_get_def_rt_def f4(2) af_get_none [OF no6])
  then have "check_route w d4 d6 stack s = Ret (Some (NET_EV_NET_SWITCH, ?c, ?d), s\<lparr>route_rts := ?r\<rparr>)"
    using v diff by (simp add: check_route_def check_report_def_rt_change_event_def change_event_def Let_def)
  moreover have "length (sa_word (rt_gw (f4 r))) = 4" using f4(1) r(1) by (simp add: fills4_def)
  then have "stale f4 (def_rt_cnt (IPv6 ?n) \<noteq> def_rt_cnt (f6 init_rt)) ?r" using n r(2) inv c6 by (auto simp: stale_def)
  ultimately show ?thesis by auto
qed

lemma stale_check:
  assumes st: "stale fill differ (route_rts s)" and no6: "\<not> picks d6"
    and fill: "\<And>r. af_get_default_rt w (route_netifs s) FAM_INET d4 r = Ret (1, fill r)"
    and same: "\<And>r r'. length (sa_word (rt_gw r)) = 4 \<Longrightarrow> length (sa_word (rt_gw r')) = 4 \<Longrightarrow> length (sa_word (rt_gw (fill r))) = 4 \<and> same_rt (fill r) (fill r') \<and> rt_valid (fill r)" and cnt4: "\<And>r r'. def_rt_cnt (fill r) = def_rt_cnt (fill r')"
  shows "\<exists>d1 d2 s'. check_route w d4 d6 stack s = Ret (if differ then Some (NET_EV_RT_CNT_CHANGED, d1, d2) else None, s') \<and> stale fill differ (route_rts s') \<and> route_netifs s' = route_netifs s"
proof -
  let ?c = "get_curr_def_rt (route_rts s)" and ?n = "get_new_def_rt (route_rts s)"
  obtain r where r: "length (sa_word (rt_gw r)) = 4" "IPv4 ?c = fill r" using st by (auto simp: stale_def)
  have n4: "length (sa_word (rt_gw (IPv4 ?n))) = 4" using st by (simp add: stale_def)
  let ?d = "\<lparr>IPv4 = fill (IPv4 ?n), IPv6 = invalidate_rt (IPv6 ?n)\<rparr>"
  have inv: "if_index (rt_netif (invalidate_rt x)) < 0" "def_rt_cnt (invalidate_rt x) = def_rt_cnt x" for x by (simp_all add: invalidate_rt_def)
  have v: "def_rt_valid ?c" using same [OF r(1) r(1)] r(2) by (simp add: def_rt_valid_def)
  have "same_rt (invalidate_rt (IPv6 ?n)) (IPv6 ?c)" using inv(1) st by (simp add: same_rt_def stale_def)
  then have s: "same_def_rt ?d ?c" using same [OF n4 r(1)] r(2) by (simp add: same_def_rt_def)
  have c4: "def_rt_cnt (fill (IPv4 ?n)) = def_rt_cnt (fill r)" by (rule cnt4)
  have cnt: "same_def_rt_cnt ?d ?c \<longleftrightarrow> \<not> differ" using st r(2) c4 by (auto simp: same_def_rt_cnt_def stale_def inv(2))
  have "os_get_def_rt \<lparr>env_wireless = w, env_netifs = route_netifs s, env_dump4 = d4, env_dump6 = d6\<rparr> ?n = Ret (1, ?d)" by (simp add: os_get_def_rt_def fill af_get_none [OF no6])
  then have c: "check_route w d4 d6 stack s = Ret (if differ then Some (NET_EV_RT_CNT_CHANGED, ?c, ?d) else None, s\<lparr>route_rts := switch_new_to_curr ((put_new_def_rt ?d (route_rts s))\<lparr>last_valid_def_rt := ?d\<rparr>)\<rparr>)"
    using v s cnt by (simp add: check_route_def check_report_def_rt_change_event_def change_event_def Let_def)
  have "stale fill differ (switch_new_to_curr ((put_new_def_rt ?d (route_rts s))\<lparr>last_valid_def_rt := ?d\<rparr>))"
    using st n4 same [OF r(1) r(1)] r(2) inv by (auto simp: stale_def)
  then show ?thesis using c by auto
qed

lemma stale_checks:
  assumes no6: "\<not> picks d6"
    and same: "\<And>r r'. length (sa_word (rt_gw r)) = 4 \<Longrightarrow> length (sa_word (rt_gw r')) = 4 \<Longrightarrow> length (sa_word (rt_gw (fill r))) = 4 \<and> same_rt (fill r) (fill r') \<and> rt_valid (fill r)" and cnt4: "\<And>r r'. def_rt_cnt (fill r) = def_rt_cnt (fill r')"
  shows "stale fill differ (route_rts s) \<Longrightarrow> (\<And>r. af_get_default_rt w (route_netifs s) FAM_INET d4 r = Ret (1, fill r)) \<Longrightarrow>
    \<exists>calls s'. process_rtmsg w stack (replicate n (Nl_Route d4 d6)) s = Ret (calls, s') \<and> map fst calls = (if differ then replicate n NET_EV_RT_CNT_CHANGED else [])"
proof (induction n arbitrary: s)
  case (Suc n)
  obtain d1 d2 s1 where c: "check_route w d4 d6 stack s = Ret (if differ then Some (NET_EV_RT_CNT_CHANGED, d1, d2) else None, s1)" "stale fill differ (route_rts s1)" "route_netifs s1 = route_netifs s"
    using stale_check [OF Suc(2) no6 Suc(3) same cnt4, where stack = stack] by blast
  obtain calls s' where "process_rtmsg w stack (replicate n (Nl_Route d4 d6)) s1 = Ret (calls, s')" "map fst calls = (if differ then replicate n NET_EV_RT_CNT_CHANGED else [])"
    using Suc(1) [OF c(2)] Suc(3) c(3) by auto
  then show ?case using c(1) by simp
qed simp

subsection \<open>Properties\<close>

text \<open>
  C35. The events tell the subscriber the network. Whatever the kernel says, every call makes sense to a subscriber that has followed the calls before: the network goes down only when it was up, comes up only when it was down, and a switch starts from the
  routes that the subscriber knows and changes them. After any number of calls, what the subscriber believes is so: it believes in no network exactly when \<^verbatim>\<open>aosl_network_is_down\<close>, and otherwise the routes that it was told are the current
  ones. The messages of the kernel never make the component fail.
\<close>

theorem events_tell_the_network:
  assumes "route_run s calls"
  shows "all_make_sense None calls \<and>
    (case fold follow calls None of
       None \<Rightarrow> aosl_network_is_down (route_rts s)
     | Some d \<Rightarrow> \<not> aosl_network_is_down (route_rts s) \<and> same_def_rt (get_curr_def_rt (route_rts s)) d) \<and>
    (\<forall>w stack ms. \<exists>calls' s'. process_rtmsg w stack ms s = Ret (calls', s'))"
proof -
  have ok: "all_make_sense None calls" "route_ok (fold follow calls None) s" using route_run_ok [OF assms] by simp_all
  then have "case fold follow calls None of None \<Rightarrow> aosl_network_is_down (route_rts s) | Some d \<Rightarrow> \<not> aosl_network_is_down (route_rts s) \<and> same_def_rt (get_curr_def_rt (route_rts s)) d"
    by (simp add: route_ok_def belief_ok_def aosl_network_is_down_def split: option.splits)
  then show ?thesis using ok(1) process_rtmsg_ok [OF ok(2)] by blast
qed

fun netif_run :: "(bool \<times> netif_change) list \<Rightarrow> netifs \<Rightarrow> (int list \<times> netifs) exec" where
  "netif_run [] nf = Ret ([], nf)"
| "netif_run ((mem, c) # us) nf = ebind (update_netifs mem c nf) (\<lambda>(err, nf). ebind (netif_run us nf) (\<lambda>(errs, nf). Ret (err # errs, nf)))"

fun spec_run :: "(bool \<times> netif_change) list \<Rightarrow> netif_spec \<Rightarrow> int list \<times> netif_spec" where
  "spec_run [] sp = ([], sp)"
| "spec_run ((mem, c) # us) sp = (fst (spec_update mem c sp) # fst (spec_run us (snd (spec_update mem c sp))), snd (spec_run us (snd (spec_update mem c sp))))"

lemma netif_run_refines: "netifs_ok nf \<Longrightarrow> \<exists>nf'. netif_run us nf = Ret (fst (spec_run us (netif_abs nf)), nf') \<and> netifs_ok nf' \<and> netif_abs nf' = snd (spec_run us (netif_abs nf))"
proof (induction us arbitrary: nf)
  case (Cons u us)
  obtain mem c where u: "u = (mem, c)" by fastforce
  obtain nf1 where 1: "update_netifs mem c nf = Ret (fst (spec_update mem c (netif_abs nf)), nf1)" "netifs_ok nf1" "netif_abs nf1 = snd (spec_update mem c (netif_abs nf))" using update_refines [OF Cons(2)] by blast
  obtain nf2 where "netif_run us nf1 = Ret (fst (spec_run us (netif_abs nf1)), nf2)" "netifs_ok nf2" "netif_abs nf2 = snd (spec_run us (netif_abs nf1))" using Cons(1) [OF 1(2)] by blast
  then show ?case using 1 by (simp add: u)
qed simp

text \<open>
  C36. The hash table of interfaces with its list of nodes to use again is a map from indices to interfaces: any sequence of updates returns what it returns on the map, and afterwards every index finds what the map has for it. Names are cut to 63
  characters.
\<close>

theorem netifs_refine_map:
  "\<exists>nf. netif_run us (netifs_hash_init \<lparr>netifs_hash = hs, free_netifs = []\<rparr>) = Ret (fst (spec_run us \<lparr>spec_map = Map.empty, spec_free = 0\<rparr>), nf) \<and>
     (\<forall>idx. netif_by_index nf idx = Ret (spec_map (snd (spec_run us \<lparr>spec_map = Map.empty, spec_free = 0\<rparr>)) idx))"
proof -
  let ?nf = "netifs_hash_init \<lparr>netifs_hash = hs, free_netifs = []\<rparr>"
  have ok: "netifs_ok ?nf" by (simp add: netifs_ok_def netifs_hash_init_def IFINFO_HASH_SIZE_def)
  have "netif_map ?nf i = None" for i using netif_hash_less [of i] by (simp add: netif_map_def netifs_hash_init_def IFINFO_HASH_SIZE_def)
  then have abs: "netif_abs ?nf = \<lparr>spec_map = Map.empty, spec_free = 0\<rparr>" by (auto simp: netif_abs_def netifs_hash_init_def)
  obtain nf where nf: "netif_run us ?nf = Ret (fst (spec_run us (netif_abs ?nf)), nf)" "netifs_ok nf" "netif_abs nf = snd (spec_run us (netif_abs ?nf))" using netif_run_refines [OF ok] by blast
  have "netif_by_index nf idx = Ret (spec_map (snd (spec_run us (netif_abs ?nf))) idx)" for idx unfolding nf(3) [symmetric] netifs_ok_lookup [OF nf(2)] by (simp add: netif_abs_def)
  then show ?thesis using nf(1) unfolding abs by blast
qed

text \<open>
  C37. A family that loses its default route keeps the number of its routes in the two buffers. With a steady IPv4 route and an IPv6 route that \<open>m\<close> checks after a start have seen before it is lost, the subscriber is told that the
  network is up and that it switched; after that, though nothing changes any more, each of \<open>n\<close> further messages about routes is reported as a change of the number of routes when exactly one check has seen the IPv6 route
  (the buffers then hold different numbers), and none is when more than one has.
\<close>

theorem stale_route_count_repeats:
  assumes ok: "netifs_ok (route_netifs s)" and clear: "route_rts s = route_clear c" and d4: "picks d4" "\<forall>g. length (gw_at d4 g) = 4" and d6: "picks d6" "\<forall>g. length (gw_at d6 g) = 16" "\<not> picks d6'"
    and m: "0 < m"
  shows "\<exists>calls s'. process_rtmsg w stack (replicate m (Nl_Route d4 d6) @ Nl_Route d4 d6' # replicate n (Nl_Route d4 d6')) s = Ret (calls, s') \<and>
    map fst calls = NET_EV_NET_UP # NET_EV_NET_SWITCH # (if m = 1 then replicate n NET_EV_RT_CNT_CHANGED else [])"
proof -
  obtain f4 n4 where f4: "\<forall>r. af_get_default_rt w (route_netifs s) FAM_INET d4 r = Ret (1, f4 r) \<and> def_rt_cnt (f4 r) = n4"
    "\<forall>r r'. length (sa_word (rt_gw r)) = 4 \<and> length (sa_word (rt_gw r')) = 4 \<longrightarrow> length (sa_word (rt_gw (f4 r))) = 4 \<and> same_rt (f4 r) (f4 r')"
    using af_get_some [OF d4(1) ok, of w FAM_INET] d4(2) by blast
  obtain f6 n6 where f6: "\<forall>r. af_get_default_rt w (route_netifs s) FAM_INET6 d6 r = Ret (1, f6 r) \<and> def_rt_cnt (f6 r) = n6" "0 < n6"
    "\<forall>r r'. length (sa_addr6 (rt_gw r)) = 16 \<and> length (sa_addr6 (rt_gw r')) = 16 \<longrightarrow> length (sa_addr6 (rt_gw (f6 r))) = 16 \<and> same_rt (f6 r) (f6 r')"
    using af_get_some6 [OF d6(1) ok, of w] d6(2) by blast
  have v: "rt_valid (f4 r)" "rt_valid (f6 r)" for r using af_get_default_rt_ok [OF ok, of FAM_INET w d4 r] af_get_default_rt_ok [OF ok, of FAM_INET6 w d6 r] f4(1) f6(1) by simp_all
  have fills: "fills4 f4" "fills6 f6" using f4 f6 v by (auto simp: fills4_def fills6_def)
  have g4: "af_get_default_rt w (route_netifs s) FAM_INET d4 r = Ret (1, f4 r)" and g6: "af_get_default_rt w (route_netifs s) FAM_INET6 d6 r = Ret (1, f6 r)" for r using f4(1) f6(1) by simp_all
  have init: "length (sa_word (rt_gw init_rt)) = 4" "length (sa_addr6 (rt_gw init_rt)) = 16" "def_rt_cnt init_rt = 0" by (simp_all add: init_rt_def sa_zero_def)
  let ?d = "\<lparr>IPv4 = f4 init_rt, IPv6 = f6 init_rt\<rparr>"
  let ?s1 = "s\<lparr>route_rts := switch_new_to_curr ((put_new_def_rt ?d (route_rts s))\<lparr>last_valid_def_rt := ?d\<rparr>)\<rparr>"
  have cur: "get_curr_def_rt (route_rts s) = aosl_init_def_rt" "get_new_def_rt (route_rts s) = aosl_init_def_rt" "last_valid_def_rt (route_rts s) = aosl_init_def_rt"
    by (simp_all add: clear route_clear_def get_curr_def_rt_def get_new_def_rt_def)
  have o1: "os_get_def_rt \<lparr>env_wireless = w, env_netifs = route_netifs s, env_dump4 = d4, env_dump6 = d6\<rparr> aosl_init_def_rt = Ret (2, ?d)" by (simp add: os_get_def_rt_def g4 g6 aosl_init_def_rt_def)
  then obtain x1 where c1: "check_route w d4 d6 stack s = Ret (Some (NET_EV_NET_UP, x1), ?s1)"
    by (simp add: check_route_def check_report_def_rt_change_event_def change_event_def Let_def cur)
  have seen1: "seen f4 f6 (route_rts ?s1)" using init by (auto simp: seen_def cur aosl_init_def_rt_def)
  obtain k where k: "m = Suc k" using m by (cases m) auto
  obtain s2 where s2: "\<forall>ys. process_rtmsg w stack (replicate k (Nl_Route d4 d6) @ ys) ?s1 = process_rtmsg w stack ys s2" "seen f4 f6 (route_rts s2)" "route_netifs s2 = route_netifs s"
    "if k = 0 then s2 = ?s1 else def_rt_cnt (IPv6 (get_new_def_rt (route_rts s2))) = def_rt_cnt (f6 init_rt)"
    using seen_checks [OF fills seen1, of w d4 d6 stack k] g4 g6 by auto
  have differ: "def_rt_cnt (IPv6 (get_new_def_rt (route_rts s2))) \<noteq> def_rt_cnt (f6 init_rt) \<longleftrightarrow> m = 1"
    using s2(4) f6(1,2) init(3) by (auto simp: k cur aosl_init_def_rt_def split: if_splits)
  obtain x2 s3 where c2: "check_route w d4 d6' stack s2 = Ret (Some (NET_EV_NET_SWITCH, x2), s3)" "route_netifs s3 = route_netifs s2" "stale f4 (m = 1) (route_rts s3)"
    using lost_check [OF s2(2) fills(1) _ fills(2) d6(3), of w d4 stack] g4 s2(3) unfolding differ by auto
  obtain calls s' where "process_rtmsg w stack (replicate n (Nl_Route d4 d6')) s3 = Ret (calls, s')" "map fst calls = (if m = 1 then replicate n NET_EV_RT_CNT_CHANGED else [])"
    using stale_checks [OF d6(3) _ _ c2(3), of w d4 stack n] f4 v(1) c2(2) s2(3) by auto
  then show ?thesis using c1 c2(1) s2(1) by (simp add: k)
qed

lemma created_pair:
  assumes "aosl_ip_sk_create socket s = (n, sk)"
  shows "sk_v4 sk = (if rt_valid (IPv4 (get_curr_def_rt s)) then socket FAM_INET else - 1)" "sk_v6 sk = (if rt_valid (IPv6 (get_curr_def_rt s)) then socket FAM_INET6 else - 1)"
    "0 < n \<longleftrightarrow> sk_v4 sk \<noteq> - 1 \<or> sk_v6 sk \<noteq> - 1" "n = - 1 \<or> n = (if sk_v4 sk \<noteq> - 1 then 1 else 0) + (if sk_v6 sk \<noteq> - 1 then 1 else 0)"
  using assms by (auto simp: aosl_ip_sk_create_def Let_def split: if_splits)

text \<open>
  C38. \<^verbatim>\<open>aosl_ip_sk_create\<close> makes a socket for exactly the families with a default route: the entry of the pair is what \<^verbatim>\<open>aosl_socket\<close> gave (\<open>- 1\<close> when that failed), and \<open>- 1\<close> for a family without a route. The result is the
  number of sockets, or \<open>- 1\<close> when there are none. When there is one, every IPv4 destination is sent to: through the IPv4 socket itself, or through the IPv6 socket to an address that stands for it.
\<close>

theorem created_sockets_reach_ipv4:
  assumes "aosl_ip_sk_create socket s = (n, sk)" and "0 < n" and "sa_ok dest" and "prefix_ok prefix" and "sa_family dest = FAM_INET"
  shows "sk_v4 sk = (if rt_valid (IPv4 (get_curr_def_rt s)) then socket FAM_INET else - 1) \<and> sk_v6 sk = (if rt_valid (IPv6 (get_curr_def_rt s)) then socket FAM_INET6 else - 1) \<and>
    n = (if sk_v4 sk \<noteq> - 1 then 1 else 0) + (if sk_v6 sk \<noteq> - 1 then 1 else 0) \<and> \<not> aosl_network_is_down s \<and>
    (\<exists>fd addr. aosl_ip_sk_sendto sendto prefix stack sk dest = Ret (sendto fd addr) \<and> choice_ok prefix sk dest fd addr \<and>
      (if fd = sk_v4 sk \<and> addr = dest then rt_valid (IPv4 (get_curr_def_rt s)) else rt_valid (IPv6 (get_curr_def_rt s))))"
proof -
  note c = created_pair [OF assms(1)]
  have n: "n = (if sk_v4 sk \<noteq> - 1 then 1 else 0) + (if sk_v6 sk \<noteq> - 1 then 1 else 0)" using c(4) assms(2) by auto
  have up: "\<not> aosl_network_is_down s" using c(1-3) assms(2) by (auto simp: aosl_network_is_down_def def_rt_valid_def split: if_splits)
  obtain fd addr where ch: "ip_sk_choose prefix stack sk dest = Ret (Some (fd, addr))" "choice_ok prefix sk dest fd addr"
    using choose_ipv4 [OF assms(3-5), of stack sk] c(3) assms(2) by auto
  have fam: "FAM_INET6 \<noteq> FAM_INET" by (simp add: FAM_INET_def FAM_INET6_def)
  have "aosl_ip_sk_sendto sendto prefix stack sk dest = Ret (sendto fd addr)" using ch(1) by (simp add: aosl_ip_sk_sendto_def)
  moreover have "if fd = sk_v4 sk \<and> addr = dest then rt_valid (IPv4 (get_curr_def_rt s)) else rt_valid (IPv6 (get_curr_def_rt s))"
    using ch(2) c(1,2) fam assms(5) by (auto simp: choice_ok_def split: if_splits)
  ultimately show ?thesis using n up ch(2) c(1,2) by blast
qed

text \<open>
  Of the default routes in the answer of the kernel the one with the least metric is taken; one without a metric only when no other has one. The number of the routes is reported as at most two.
\<close>

theorem least_metric_route:
  assumes "pk_oif (pick_routes ms pick_zero) = Some pos"
  shows "\<exists>m \<in> set (heard ms). rta_oif m = Some pos \<and> rta_gateway m = pk_gw (pick_routes ms pick_zero) \<and>
    (\<forall>m' \<in> set (heard ms). \<forall>pri'. rta_priority m' = Some pri' \<and> pri' < 0xffffffff \<longrightarrow> (\<exists>pri. rta_priority m = Some pri \<and> pri \<le> pri'))"
proof -
  have "pick_ok [] pick_zero" by (simp add: pick_ok_def pick_zero_def)
  then have p: "pick_ok (heard ms) (pick_routes ms pick_zero)" using pick_routes_ok [of "[]" pick_zero ms] by simp
  then obtain m where m: "m \<in> set (heard ms)" "rta_oif m = Some pos" "rta_gateway m = pk_gw (pick_routes ms pick_zero)" "pk_metric (pick_routes ms pick_zero) < 0xffffffff \<longrightarrow> rta_priority m = Some (pk_metric (pick_routes ms pick_zero))"
    using assms by (auto simp: pick_ok_def)
  have least: "pk_metric (pick_routes ms pick_zero) \<le> pri'" if "m' \<in> set (heard ms)" "rta_priority m' = Some pri'" for m' pri' using p that by (auto simp: pick_ok_def)
  show ?thesis using m least by (intro bexI [of _ m]) (auto dest: le_less_trans)
qed

text \<open>
  A subscription that fails after its socket was made closes that descriptor twice: the second call hits whatever has got the descriptor meanwhile.
\<close>

theorem failed_subscription_closes_twice:
  assumes "\<not> aosl_mpq_invalid q" and "aosl_mpq_invalid (netev_subscriber_q s)" and "f \<noteq> 0" and "0 \<le> so_socket os" and "so_bind os < 0 \<or> so_add os < 0"
  shows "\<exists>r s'. aosl_subscribe_net_events os stack q f arg s = Ret (r, s') \<and> sr_err r = - 1 \<and> sr_closed r = [so_socket os, so_socket os]"
  proof -
  have "create_and_attach_af_netlink os (af_netlink_fd s) = (- 1, [so_socket os, so_socket os], af_netlink_fd s)" using assms(4,5) by (auto simp: create_and_attach_af_netlink_def Let_def)
  then show ?thesis using assms(1-3) by (simp add: aosl_subscribe_net_events_def os_subscribe_net_events_def Let_def)
qed

definition demo_dump :: rt_dump where
  "demo_dump = \<lparr>dump_msgs = Some [Rt_New \<lparr>rtm_unicast = True, rtm_family = FAM_INET, rtm_dst_len = 0, rta_priority = Some 100, rta_oif = Some 0, rta_gateway = Some 1\<rparr>, Rt_Done],
     oif_at = (\<lambda>_. 2), gw_at = (\<lambda>_. [192, 168, 0, 1])\<rparr>"

definition no_dump :: rt_dump where
  "no_dump = \<lparr>dump_msgs = None, oif_at = (\<lambda>_. 0), gw_at = (\<lambda>_. [])\<rparr>"

definition demo_os :: sub_os where
  "demo_os = \<lparr>so_socket = 5, so_bind = 0, so_add = 0, so_links = [], so_wireless = (\<lambda>_. 0), so_dump4 = demo_dump, so_dump6 = no_dump\<rparr>"

lemma demo_picks [simp]: "picks demo_dump" "\<not> picks no_dump" "\<forall>g. length (gw_at demo_dump g) = 4"
  by (simp_all add: picks_def demo_dump_def no_dump_def pick_route_def pick_zero_def Let_def)

lemma demo_start [simp]: "route_ok None route_start" "netifs_ok (route_netifs route_start)"
  using route_run_ok [OF run_start] by (simp_all add: route_ok_def)

lemma demo_start2: "route_rts route_start = route_clear (route_rts route_start)" "\<not> aosl_mpq_invalid 1" "aosl_mpq_invalid (netev_subscriber_q route_start)"
proof -
  show "route_rts route_start = route_clear (route_rts route_start)" by (simp add: route_start_def k_route_init_def route_clear_def)
  show "\<not> aosl_mpq_invalid 1" by (simp add: aosl_mpq_invalid_def get_mpq_id_def)
  have "netev_subscriber_q route_start = AOSL_MPQ_INVALID" by (simp add: route_start_def k_route_init_def)
  moreover have "aosl_mpq_invalid AOSL_MPQ_INVALID" by code_simp
  ultimately show "aosl_mpq_invalid (netev_subscriber_q route_start)" by simp
qed

lemma demo_check:
  assumes "route_rts s = route_clear c" "netifs_ok (route_netifs s)"
  shows "\<exists>d s'. check_route w demo_dump no_dump stack s = Ret (Some (NET_EV_NET_UP, d), s')"
proof -
  let ?e = "\<lparr>env_wireless = w, env_netifs = route_netifs s, env_dump4 = demo_dump, env_dump6 = no_dump\<rparr>"
  obtain f n where f: "\<And>r. af_get_default_rt w (route_netifs s) FAM_INET demo_dump r = Ret (1, f r)" using af_get_some [OF demo_picks(1) assms(2), of w FAM_INET] by blast
  then show ?thesis using assms(1)
    by (simp add: check_route_def check_report_def_rt_change_event_def os_get_def_rt_def af_get_none [OF demo_picks(2)] change_event_def route_clear_def get_curr_def_rt_def put_new_def_rt_def Let_def)
qed

theorem events_tell_the_network_witness:
  "\<exists>s d. route_run s [(NET_EV_NET_UP, d)] \<and> \<not> aosl_network_is_down (route_rts s)"
proof -
  let ?stack = "(aosl_init_def_rt, aosl_init_def_rt)"
  let ?s = "route_start\<lparr>af_netlink_fd := 5, netev_subscriber_q := 1, netev_f := 7, netev_f_arg := 0\<rparr>"
  obtain d s where c: "check_route (\<lambda>_. 0) demo_dump no_dump ?stack ?s = Ret (Some (NET_EV_NET_UP, d), s)"
    using demo_check [of ?s "route_rts route_start" "\<lambda>_. 0" ?stack] demo_start2(1) demo_start(2) by (simp, blast)
  then have s: "aosl_subscribe_net_events demo_os ?stack 1 7 0 route_start = Ret (\<lparr>sr_err = 0, sr_errno = None, sr_closed = [], sr_call = Some (NET_EV_NET_UP, d)\<rparr>, s)"
    by (simp add: aosl_subscribe_net_events_def os_subscribe_net_events_def create_and_attach_af_netlink_def demo_os_def Let_def demo_start2(2,3))
  have run: "route_run s [(NET_EV_NET_UP, d)]" using run_subscribe [OF run_start s] by simp
  then show ?thesis using events_tell_the_network [OF run] by (cases d) (auto simp: follow_def)
qed

definition demo_dump6 :: rt_dump where
  "demo_dump6 = demo_dump\<lparr>gw_at := (\<lambda>_. replicate 16 1)\<rparr>"

theorem stale_route_count_repeats_witness:
  "\<exists>calls s'. process_rtmsg (\<lambda>_. 0) (aosl_init_def_rt, aosl_init_def_rt) (replicate 1 (Nl_Route demo_dump demo_dump6) @ Nl_Route demo_dump no_dump # replicate 3 (Nl_Route demo_dump no_dump)) route_start = Ret (calls, s') \<and>
     map fst calls = [NET_EV_NET_UP, NET_EV_NET_SWITCH, NET_EV_RT_CNT_CHANGED, NET_EV_RT_CNT_CHANGED, NET_EV_RT_CNT_CHANGED]"
proof -
  have d6: "picks demo_dump6" "\<forall>g. length (gw_at demo_dump6 g) = 16" using demo_picks(1) by (simp_all add: demo_dump6_def picks_def)
  show ?thesis
    using stale_route_count_repeats [OF demo_start(2) demo_start2(1) demo_picks(1,3) d6 demo_picks(2) zero_less_one, where n = 3 and w = "\<lambda>_. 0" and stack = "(aosl_init_def_rt, aosl_init_def_rt)"]
    by (simp add: numeral_3_eq_3)
qed

theorem created_sockets_reach_ipv4_witness:
  "\<exists>r. aosl_ip_sk_sendto (\<lambda>fd addr. (fd, 0)) None sa_zero \<lparr>sk_v4 = 9, sk_v6 = - 1\<rparr> demo_v4 = Ret r"
proof -
  let ?d = "\<lparr>IPv4 = init_rt\<lparr>rt_netif := \<lparr>if_index = 2, if_type = 1, if_name = ''eth0''\<rparr>, rt_gw := demo_v4\<rparr>, IPv6 = init_rt\<rparr>"
  let ?s = "\<lparr>def_rts0 = ?d, def_rts1 = ?d, curr_rt = False, last_valid_def_rt = ?d\<rparr>"
  have s: "aosl_ip_sk_create (\<lambda>_. 9) ?s = (1, \<lparr>sk_v4 = 9, sk_v6 = - 1\<rparr>)" by (simp add: aosl_ip_sk_create_def get_curr_def_rt_def rt_valid_def init_rt_def demo_v4_def)
  have p: "prefix_ok None" "sa_family demo_v4 = FAM_INET" by (simp_all add: prefix_ok_def demo_v4_def)
  from created_sockets_reach_ipv4 [OF s zero_less_one demo_v4_ok(1) p, of "\<lambda>fd addr. (fd, 0)" sa_zero] show ?thesis by blast
qed

theorem least_metric_route_witness: "\<exists>m \<in> set (heard (the (dump_msgs demo_dump))). rta_oif m = Some 0 \<and> rta_priority m = Some 100"
proof -
  have "pk_oif (pick_routes (the (dump_msgs demo_dump)) pick_zero) = Some 0" by (simp add: demo_dump_def pick_route_def pick_zero_def Let_def)
  from least_metric_route [OF this] show ?thesis by (auto simp: demo_dump_def default_route_def)
qed

theorem failed_subscription_closes_twice_witness:
  "\<exists>r s'. aosl_subscribe_net_events (demo_os\<lparr>so_bind := - 1\<rparr>) (aosl_init_def_rt, aosl_init_def_rt) 1 7 0 route_start = Ret (r, s') \<and> sr_err r = - 1 \<and> sr_closed r = [5, 5]"
  using failed_subscription_closes_twice [OF demo_start2(2,3), of 7 "demo_os\<lparr>so_bind := - 1\<rparr>" "(aosl_init_def_rt, aosl_init_def_rt)" 0] by (simp add: demo_os_def)

end
