(* ===== verification/Dns.thy ===== *)
theory Dns
  imports Ipv6
begin

text \<open>
  Resolving names in the background, \<^verbatim>\<open>net/dns.c\<close>. The system's resolver is an argument: the number it returns and the array of eight addresses it fills. A worker of the pool of long tasks resolves, sets the prefix of the
  requester's queue and queues the answer. The queue may be gone at any moment: for each call that sets a prefix it is an argument whether the call reaches the queue and whether there is memory, and so is the acceptance of the answer. What
  the requester's function has been called with is part of the state, so that a call too many or too few shows.
\<close>

subsection \<open>Resolving\<close>

definition MAX_DNS_RES_CNT :: nat where "MAX_DNS_RES_CNT = 8"

record addrinfo =
  sk_af :: u16
  sk_type :: int
  sk_prot :: int
  sk_addr :: sockaddr

text \<open>\<^verbatim>\<open>__resolved_an_addr\<close>: negative when the array of the requester is full. The index is an \<^verbatim>\<open>unsigned int\<close> and the size of the array, a \<^verbatim>\<open>size_t\<close>, is narrowed to one.\<close>

definition resolved_an_addr :: "u16 \<Rightarrow> int \<Rightarrow> int \<Rightarrow> sockaddr \<Rightarrow> u32 \<Rightarrow> nat \<Rightarrow> addrinfo list \<Rightarrow> (int \<times> addrinfo list) exec" where
  "resolved_an_addr af socktype prot addr index addr_count addrs =
     (if index < (of_nat addr_count :: u32) then
        ebind (arr_set addrs (unat index) \<lparr>sk_af = af, sk_type = socktype, sk_prot = prot, sk_addr = addr\<rparr>) (\<lambda>addrs. Ret (1, addrs))
      else Ret (- 1, addrs))"

text \<open>The loop of \<^verbatim>\<open>vhostbyname_timed_do\<close> over the first addresses, with the callback above.\<close>

fun resolve_loop :: "u16 \<Rightarrow> int \<Rightarrow> int \<Rightarrow> nat \<Rightarrow> sockaddr list \<Rightarrow> nat \<Rightarrow> addrinfo list \<Rightarrow> (nat \<times> addrinfo list) exec" where
  "resolve_loop port socktype proto addr_count [] count addrs = Ret (count, addrs)"
| "resolve_loop port socktype proto addr_count (a # as) count addrs =
     (let a = a\<lparr>sa_port := port\<rparr> in
      ebind (resolved_an_addr (sa_family a) socktype proto a (of_nat count) addr_count addrs) (\<lambda>(err, addrs).
      if err < 0 then Ret (count, addrs)
      else if err = 0 then Ret (count + 1, addrs)
      else resolve_loop port socktype proto addr_count as (count + 1) addrs))"

definition vhostbyname_timed_do :: "int \<times> sockaddr list \<Rightarrow> u16 \<Rightarrow> int \<Rightarrow> int \<Rightarrow> nat \<Rightarrow> addrinfo list \<Rightarrow> (nat \<times> addrinfo list) exec" where
  "vhostbyname_timed_do hal port socktype proto addr_count addrs =
     (let (rescnt, res) = hal in
      if rescnt > 0 then resolve_loop port socktype proto addr_count (take (min (nat rescnt) MAX_DNS_RES_CNT) res) 0 addrs
      else Ret (0, addrs))"

subsection \<open>Answering\<close>

text \<open>
  \<^verbatim>\<open>aosl_mpq_set_ipv6_prefix_on_q\<close>, called by a worker: when \<open>found\<close>, the queue exists and runs the call; otherwise nothing happens. \<open>mem\<close>: whether there is memory for a first prefix.
\<close>

definition mpq_set_ipv6_prefix_on_q :: "bool \<Rightarrow> bool \<Rightarrow> bytes \<Rightarrow> bytes option \<Rightarrow> bytes option" where
  "mpq_set_ipv6_prefix_on_q found mem a6 prefix = (if \<not> found then prefix else q_update_ipv6_prefix mem prefix (Some a6))"

text \<open>The prefix of the requester's queue after all addresses of the answer; \<open>found\<close> and \<open>mem\<close> say for the address at each index what the call meets.\<close>

fun update_prefixes :: "(nat \<Rightarrow> bool) \<Rightarrow> (nat \<Rightarrow> bool) \<Rightarrow> nat \<Rightarrow> addrinfo list \<Rightarrow> bytes option \<Rightarrow> bytes option" where
  "update_prefixes found mem i [] prefix = prefix"
| "update_prefixes found mem i (ai # ais) prefix =
     update_prefixes found mem (i + 1) ais (if sk_af ai = FAM_INET6 then mpq_set_ipv6_prefix_on_q (found i) (mem i) (sa_addr6 (sk_addr ai)) prefix else prefix)"

text \<open>
  The arguments of a call of the requester's function, and the requester: the calls that its queue has taken, the calls made at once only to free, and the prefix of the queue.
\<close>

record 'h reply =
  r_host :: 'h
  r_count :: nat
  r_addrs :: "addrinfo list"
  r_args :: "nat list"

record 'h requester =
  queued_calls :: "'h reply list"
  free_only_calls :: "'h reply list"
  q_prefix :: "bytes option"

text \<open>\<^verbatim>\<open>aosl_mpq_queue_argv\<close> as the worker sees it: a queue that is gone, ending or full refuses the call.\<close>

definition queue_call :: "bool \<Rightarrow> 'h reply \<Rightarrow> 'h requester \<Rightarrow> int \<times> 'h requester" where
  "queue_call accepted r s = (if accepted then (0, s\<lparr>queued_calls := queued_calls s @ [r]\<rparr>) else (- 1, s))"

definition queue_resolve_async_reply :: "(nat \<Rightarrow> bool) \<Rightarrow> (nat \<Rightarrow> bool) \<Rightarrow> bool \<Rightarrow> nat list \<Rightarrow> 'h \<Rightarrow> nat \<Rightarrow> addrinfo list \<Rightarrow> 'h requester \<Rightarrow> 'h requester" where
  "queue_resolve_async_reply found mem accepted argv host resolved_count addrs s =
     (let this_argv = \<lparr>r_host = host, r_count = resolved_count, r_addrs = addrs, r_args = argv\<rparr>;
          s = s\<lparr>q_prefix := update_prefixes found mem 0 (take resolved_count addrs) (q_prefix s)\<rparr>;
          (err, s) = queue_call accepted this_argv s
      in if err < 0 then s\<lparr>free_only_calls := free_only_calls s @ [this_argv]\<rparr> else s)"

definition dns_resolve_host :: "int \<times> sockaddr list \<Rightarrow> (nat \<Rightarrow> bool) \<Rightarrow> (nat \<Rightarrow> bool) \<Rightarrow> bool \<Rightarrow> 'h \<Rightarrow> u16 \<Rightarrow> int \<Rightarrow> int \<Rightarrow> addrinfo list \<Rightarrow> nat \<Rightarrow> nat list \<Rightarrow> 'h requester \<Rightarrow> 'h requester exec" where
  "dns_resolve_host hal found mem accepted host port socktype prot addrs addr_count argv s =
     ebind (vhostbyname_timed_do hal port socktype prot addr_count addrs) (\<lambda>(count, addrs).
     Ret (queue_resolve_async_reply found mem accepted argv host count addrs s))"

text \<open>
  The request. \<open>Inr\<close> is the argument vector of the call that the pool of long tasks takes, without the pointers that the model passes as values; the result is that of the pool.
\<close>

definition AOSL_VAR_ARGS_MAX :: nat where "AOSL_VAR_ARGS_MAX = 64"

definition prot_resolve_host_async_args :: "bool \<Rightarrow> nat list \<Rightarrow> int \<times> int option" where
  "prot_resolve_host_async_args pool_ok args =
     (if length args > AOSL_VAR_ARGS_MAX then (- 1, Some AOSL_EPERM)
      else if \<not> pool_ok then (- 1, None)
      else (0, None))"

subsection \<open>The answer\<close>

definition answer :: "u16 \<Rightarrow> int \<Rightarrow> int \<Rightarrow> sockaddr \<Rightarrow> addrinfo" where
  "answer port socktype proto a = \<lparr>sk_af = sa_family a, sk_type = socktype, sk_prot = proto, sk_addr = a\<lparr>sa_port := port\<rparr>\<rparr>"

definition array_size :: "nat \<Rightarrow> nat" where "array_size addr_count = addr_count mod 2 ^ 32"

lemma array_size_word: "unat (of_nat addr_count :: u32) = array_size addr_count" by (simp add: array_size_def unat_of_nat)

lemma array_size_lt: "array_size addr_count < 2 ^ 32" by (simp add: array_size_def)

lemma resolve_loop_exact:
  assumes "array_size addr_count \<le> length addrs" "count \<le> array_size addr_count"
  shows "resolve_loop port socktype proto addr_count as count addrs =
    Ret (count + min (length as) (array_size addr_count - count),
      take count addrs @ map (answer port socktype proto) (take (array_size addr_count - count) as) @ drop (count + min (length as) (array_size addr_count - count)) addrs)"
  using assms
proof (induction as arbitrary: count addrs)
  case (Cons a as)
  let ?c = "array_size addr_count"
  have u: "unat (of_nat count :: u32) = count" using Cons.prems(2) array_size_lt [of addr_count] by (simp add: unat_of_nat)
  then have less: "(of_nat count :: u32) < of_nat addr_count \<longleftrightarrow> count < ?c" by (simp only: word_less_nat_alt array_size_word [of addr_count] u)
  show ?case
  proof (cases "count < ?c")
    case False
    then show ?thesis using Cons.prems less by (simp add: resolved_an_addr_def)
  next
    case True
    let ?e = "answer port socktype proto a"
    have "take (Suc count) (addrs[count := ?e]) = take count addrs @ [?e]" using True Cons.prems(1) by (simp add: take_Suc_conv_app_nth)
    moreover have "drop (Suc count + n) (addrs[count := ?e]) = drop (Suc count + n) addrs" for n by simp
    moreover have "?c - count = Suc (?c - Suc count)" using True by simp
    moreover have "?c \<le> length (addrs[count := ?e])" using Cons.prems(1) by simp
    ultimately show ?thesis using Cons.IH [of "addrs[count := ?e]" "Suc count"] True Cons.prems(1) less u by (simp add: resolved_an_addr_def arr_set_def answer_def)
  qed
qed simp

lemma update_prefixes_none:
  "\<forall>ai \<in> set ais. sk_af ai \<noteq> FAM_INET6 \<Longrightarrow> update_prefixes found mem i ais prefix = prefix"
  by (induction ais arbitrary: i) simp_all

lemma reply_once:
  "queue_resolve_async_reply found mem accepted argv host n addrs s =
    (let r = \<lparr>r_host = host, r_count = n, r_addrs = addrs, r_args = argv\<rparr> in
     s\<lparr>queued_calls := queued_calls s @ (if accepted then [r] else []), free_only_calls := free_only_calls s @ (if accepted then [] else [r]),
       q_prefix := update_prefixes found mem 0 (take n addrs) (q_prefix s)\<rparr>)"
  by (simp add: queue_resolve_async_reply_def queue_call_def Let_def)

subsection \<open>Properties\<close>

text \<open>What a request leaves, with \<open>n\<close> addresses stored.\<close>

definition answered :: "nat \<Rightarrow> sockaddr list \<Rightarrow> (nat \<Rightarrow> bool) \<Rightarrow> (nat \<Rightarrow> bool) \<Rightarrow> bool \<Rightarrow> 'h \<Rightarrow> u16 \<Rightarrow> int \<Rightarrow> int \<Rightarrow> addrinfo list \<Rightarrow> nat list \<Rightarrow> 'h requester \<Rightarrow> 'h requester" where
  "answered n res found mem accepted host port socktype prot addrs argv s =
    (let new = map (answer port socktype prot) (take n res);
         r = \<lparr>r_host = host, r_count = n, r_addrs = new @ drop n addrs, r_args = argv\<rparr> in
     s\<lparr>queued_calls := queued_calls s @ (if accepted then [r] else []), free_only_calls := free_only_calls s @ (if accepted then [] else [r]),
       q_prefix := update_prefixes found mem 0 new (q_prefix s)\<rparr>)"

lemma dns_result:
  assumes "array_size addr_count \<le> length addrs"
  shows "dns_resolve_host (rescnt, res) found mem accepted host port socktype prot addrs addr_count argv s =
    Ret (answered (min (min (nat rescnt) (min MAX_DNS_RES_CNT (length res))) (array_size addr_count)) res found mem accepted host port socktype prot addrs argv s)"
proof (cases "0 < rescnt")
  case False
  then show ?thesis by (simp add: dns_resolve_host_def vhostbyname_timed_do_def reply_once answered_def Let_def)
next
  case True
  let ?c = "array_size addr_count"
  let ?as = "take (min (nat rescnt) MAX_DNS_RES_CNT) res" and ?n = "min (min (nat rescnt) (min MAX_DNS_RES_CNT (length res))) ?c"
  let ?f = "answer port socktype prot"
  have len: "min (length ?as) ?c = ?n" by (simp add: ac_simps)
  have cut: "take (min (length res) m) res = take m res" for m by (simp add: min_def)
  have "take ?c ?as = take (min ?c (min (nat rescnt) MAX_DNS_RES_CNT)) res" by simp
  also have "\<dots> = take ?n res" unfolding cut [of "min ?c (min (nat rescnt) MAX_DNS_RES_CNT)", symmetric] by (rule arg_cong [where f = "\<lambda>k. take k res"]) (simp add: ac_simps)
  finally have t: "take ?c ?as = take ?n res" .
  have "resolve_loop port socktype prot addr_count ?as 0 addrs = Ret (min (length ?as) ?c, map ?f (take ?c ?as) @ drop (min (length ?as) ?c) addrs)"
    using resolve_loop_exact [OF assms, of 0 port socktype prot ?as] by (simp del: length_take take_take)
  then have r: "resolve_loop port socktype prot addr_count ?as 0 addrs = Ret (?n, map ?f (take ?n res) @ drop ?n addrs)" unfolding len t .
  have v: "vhostbyname_timed_do (rescnt, res) port socktype prot addr_count addrs = Ret (?n, map ?f (take ?n res) @ drop ?n addrs)"
    unfolding vhostbyname_timed_do_def Let_def prod.case using True by (simp only: if_True r)
  have "take k (map ?f (take k res) @ xs) = map ?f (take k res)" if "k \<le> length res" for k xs using that by simp
  from this [of ?n "drop ?n addrs"] have "take ?n (map ?f (take ?n res) @ drop ?n addrs) = map ?f (take ?n res)" by (simp only: min.coboundedI1 min.coboundedI2 order_refl)
  then show ?thesis unfolding dns_resolve_host_def v by (simp only: ebind.simps prod.case reply_once answered_def Let_def)
qed

text \<open>
  C39. A name is resolved within the array of the requester: the addresses of the resolver, up to eight of them and up to the size of the array, are stored in order with the port of the request, the rest of the array stays as it was, and the number
  is reported. The size counts as the \<^verbatim>\<open>unsigned int\<close> that the code makes of it. The requester's function is called exactly once with this, by its queue when that takes the call and otherwise at once to free what belongs to the request, and
  the prefix of the queue follows the stored addresses whose calls reach the queue, whether or not there is memory.
\<close>

theorem resolve_in_bounds:
  assumes "addr_count mod 2 ^ 32 \<le> length addrs"
  shows "let n = min (min (nat rescnt) (min MAX_DNS_RES_CNT (length res))) (addr_count mod 2 ^ 32);
      new = map (answer port socktype prot) (take n res);
      r = \<lparr>r_host = host, r_count = n, r_addrs = new @ drop n addrs, r_args = argv\<rparr> in
    dns_resolve_host (rescnt, res) found mem accepted host port socktype prot addrs addr_count argv s =
      Ret (s\<lparr>queued_calls := queued_calls s @ (if accepted then [r] else []), free_only_calls := free_only_calls s @ (if accepted then [] else [r]),
        q_prefix := update_prefixes found mem 0 new (q_prefix s)\<rparr>)"
  unfolding Let_def by (rule dns_result [of addr_count addrs rescnt res found mem accepted host port socktype prot argv s, unfolded array_size_def answered_def Let_def, OF assms])

text \<open>
  C40. Resolving a name moves the prefix of the queue. When the answer has an IPv6 address that is neither mapped nor under the NAT64 prefix and the call that sets the prefix reaches the queue, its first 96 bits become the prefix, also when they are the
  network of an ordinary host: from then on the IPv6 addresses that the queue makes of IPv4 destinations lie in that network.
\<close>

theorem resolving_moves_prefix:
  assumes "addr_count mod 2 ^ 32 \<le> length addrs" and "0 < rescnt" and "0 < addr_count mod 2 ^ 32" and "res = a # rest" and "length (sa_addr6 a) = 16"
    and "sa_family a = FAM_INET6" and "\<not> ipv6_addr_v4mapped (sa_addr6 a)" and "\<not> ipv6_addr_nat64 (sa_addr6 a)" and "\<forall>b \<in> set rest. sa_family b \<noteq> FAM_INET6"
    and "found 0" and "mem 0"
  shows "\<exists>s'. dns_resolve_host (rescnt, res) found mem accepted host port socktype prot addrs addr_count argv s = Ret s' \<and>
    take 12 (sa_addr6 (ipv6_sk_addr_from_ipv4 (q_prefix s') v4)) = take 12 (sa_addr6 a)"
proof -
  let ?n = "min (min (nat rescnt) (min MAX_DNS_RES_CNT (length res))) (array_size addr_count)" and ?f = "answer port socktype prot"
  have "0 < ?n" using assms(2-4) by (simp add: MAX_DNS_RES_CNT_def array_size_def)
  then obtain k where k: "?n = Suc k" using gr0_implies_Suc by blast
  have "\<forall>ai \<in> set (map ?f (take k rest)). sk_af ai \<noteq> FAM_INET6" using assms(9) by (auto simp: answer_def dest: in_set_takeD)
  then have "update_prefixes found mem 1 (map ?f (take k rest)) p = p" for p by (rule update_prefixes_none)
  then have "update_prefixes found mem 0 (map ?f (a # take k rest)) (q_prefix s) = Some (take 12 (sa_addr6 a))"
    using assms(6-8,10,11) by (simp add: answer_def mpq_set_ipv6_prefix_on_q_def q_update_ipv6_prefix_def)
  moreover have "take ?n res = a # take k rest" unfolding k by (simp add: assms(4))
  ultimately have "q_prefix (answered ?n res found mem accepted host port socktype prot addrs argv s) = Some (take 12 (sa_addr6 a))" by (simp add: answered_def Let_def)
  moreover have "take 12 (sa_addr6 (ipv6_sk_addr_from_ipv4 (Some (take 12 (sa_addr6 a))) v4)) = take 12 (sa_addr6 a)" using assms(5) by (simp add: ipv6_sk_addr_from_ipv4_def)
  moreover have "array_size addr_count \<le> length addrs" using assms(1) by (simp add: array_size_def)
  ultimately show ?thesis using dns_result [of addr_count addrs rescnt res found mem accepted host port socktype prot argv s] by auto
qed

definition demo_dns :: sockaddr where
  "demo_dns = sa_zero\<lparr>sa_family := FAM_INET6, sa_addr6 := [0x20, 1, 0xd, 0xb8, 0, 0, 0, 0, 0, 0, 0, 0, 0, 0, 0, 1]\<rparr>"

definition demo_requester :: "string requester" where
  "demo_requester = \<lparr>queued_calls = [], free_only_calls = [], q_prefix = None\<rparr>"

theorem resolve_in_bounds_witness:
  "dns_resolve_host (1, [demo_v4]) (\<lambda>_. True) (\<lambda>_. False) False ''host'' 443 1 1 [answer 0 0 0 sa_zero, answer 0 0 0 sa_zero] 2 [] demo_requester =
     Ret \<lparr>queued_calls = [], free_only_calls = [\<lparr>r_host = ''host'', r_count = 1, r_addrs = [answer 443 1 1 demo_v4, answer 0 0 0 sa_zero], r_args = []\<rparr>], q_prefix = None\<rparr>"
  using resolve_in_bounds [where addr_count = 2 and addrs = "[answer 0 0 0 sa_zero, answer 0 0 0 sa_zero]" and rescnt = 1 and res = "[demo_v4]" and port = 443 and socktype = 1 and prot = 1 and found = "\<lambda>_. True" and mem = "\<lambda>_. False" and accepted = False and host = "''host''" and argv = "[]" and s = demo_requester]
  by (simp add: MAX_DNS_RES_CNT_def Let_def answer_def demo_v4_def FAM_INET_def FAM_INET6_def demo_requester_def)

theorem resolving_moves_prefix_witness:
  "\<exists>s'. dns_resolve_host (1, [demo_dns]) (\<lambda>_. True) (\<lambda>_. True) True ''host'' 443 1 1 [answer 0 0 0 sa_zero] 1 [] demo_requester = Ret s' \<and>
     take 12 (sa_addr6 (ipv6_sk_addr_from_ipv4 (q_prefix s') demo_v4)) = [0x20, 1, 0xd, 0xb8, 0, 0, 0, 0, 0, 0, 0, 0]"
  using resolving_moves_prefix [where addr_count = 1 and addrs = "[answer 0 0 0 sa_zero]" and rescnt = 1 and res = "[demo_dns]" and a = demo_dns and rest = "[]" and found = "\<lambda>_. True" and mem = "\<lambda>_. True" and accepted = True and host = "''host''" and port = 443 and socktype = 1 and prot = 1 and argv = "[]" and s = demo_requester and ?v4.0 = demo_v4]
  by (simp add: demo_dns_def ipv6_addr_v4mapped_def ipv6_addr_nat64_def be32_def)

end
