(* ===== verification/Spec2Isabelle.thy ===== *)
theory Spec2Isabelle
  imports Tls Timer_Api Mpqp Inet Rwlock Iofd_Stream Iofd_Tables Osmp Dyn_Array Marshal_Correct Poll_Wait Route Dns
begin

text \<open>
  Verification of AOSL, a C library of queues with threads of their own for small devices.

  \<^bold>\<open>The program.\<close> A multiplex queue (\<^verbatim>\<open>kernel/mpq.c\<close>) owns a thread. Clients of any thread queue functions to it by identifier; the thread runs them in order, runs the
  timers of the queue that are due (\<^verbatim>\<open>kernel/timer.c\<close>), waits for its descriptors with \<^verbatim>\<open>poll\<close>, \<^verbatim>\<open>select\<close> or \<^verbatim>\<open>epoll\<close>
  (\<^verbatim>\<open>kernel/osmp.c\<close>, \<^verbatim>\<open>poll_mp.c\<close>, \<^verbatim>\<open>select_mp.c\<close>, \<^verbatim>\<open>et_mp.c\<close>) and reads and writes them (\<^verbatim>\<open>kernel/iofd.c\<close>,
  \<^verbatim>\<open>fileobj.c\<close>). Pools make queues on demand and pick one for a call (\<^verbatim>\<open>kernel/mpqp.c\<close>). A reference object (\<^verbatim>\<open>kernel/refobj.c\<close>) can be
  handed along with a function: once it is destroyed, the function is only told to free. Queues, timers and objects are known by identifiers from growing tables over a bitmap
  (\<^verbatim>\<open>lib/bitmap.c\<close>); timers and descriptors are kept in red-black trees (\<^verbatim>\<open>lib/rbtree.c\<close>) and linked lists. On top lie buffers and marshalling (\<^verbatim>\<open>lib/psbuff.c\<close>,
  \<^verbatim>\<open>lib/marshalling.c\<close>), thread-local storage (\<^verbatim>\<open>lib/tls.c\<close>), a read-write lock (\<^verbatim>\<open>lib/rwlockimpl.c\<close>), and the network part
  (\<^verbatim>\<open>net/\<close>): text of addresses, IPv4 addresses inside of IPv6 addresses, default routes with the events about them, names.

  \<^bold>\<open>How it is modelled.\<close> A C function is a HOL function on explicit state and has the outcome type \<open>exec\<close> of \<open>Aosl_Prelude\<close>: \<open>Ret\<close> of its
  result, \<open>Abort\<close> where a \<^verbatim>\<open>BUG_ON\<close> fires, \<open>Fault\<close> where it would read or write outside of an object or follow a dangling pointer, and \<open>NoFuel\<close>.
  A theorem with \<open>Ret\<close> in its conclusion thus says that the call returns, without abort and without fault. Loops over linked memory and recursion over data of the user take fuel; the
  theorems hold from a stated amount on (the height of the tree, the number of nodes, the depth of the data), and nothing is claimed by running out of it. Integers are words where their width matters (counters, identifiers, sizes, addresses) and
  \<open>int\<close> where the code cannot overflow them. Heaps, tables and lists are maps and lists; what C leaves on the stack or in fresh memory is an argument. Code that is not part of the
  repository (system calls, the platform layer, user callbacks, the clock, other threads) is an argument too, or a field of an environment record, and what is needed of it is a hypothesis.
  A function that holds a lock throughout is one step; where the code is lock-free (\<open>Rwlock\<close>, \<open>Osmp\<close>) every access to shared memory is a step of an \<^theory_text>\<open>inductive\<close> relation and the
  threads interleave freely.

  \<^bold>\<open>The theories.\<close>

  \<^item> \<open>Aosl_Prelude\<close>: machine integers, outcomes, error numbers, generic lemmas.
  \<^item> \<open>Bitmap\<close>, \<open>Id_Table\<close>, \<open>Handle_Table\<close>, \<open>Use_Count\<close> (\<^verbatim>\<open>lib/bitmap.c\<close> and the identifier tables of \<^verbatim>\<open>refobj.c\<close>, \<^verbatim>\<open>timer.c\<close>, \<^verbatim>\<open>mpq.c\<close>):
    the byte-wise search finds the least clear bit; identifiers in use are never handed out again; tables end at 248 entries because a size is cut to 8 bits. The contracts are the locales
    \<open>slot_bitmap\<close>, \<open>id_allocator\<close> and \<open>handle_table\<close>, interpreted on the tables of all three clients; \<open>Use_Count\<close> adds the accounting of references.
  \<^item> \<open>Rb_Heap\<close>, \<open>Rb_Tree\<close>, \<open>Rb_Insert\<close>, \<open>Rb_Erase\<close>, \<open>Rb_Walk\<close> (\<^verbatim>\<open>lib/rbtree.c\<close>): insertion, removal, search and traversal as pointer assignments refine insertion into
    and removal from a sorted list and keep the tree balanced (locales \<open>parent_and_color\<close> for the packed word of a node, \<open>ordered_nodes\<close> for the clients).
  \<^item> \<open>Aosl_List\<close> (\<^verbatim>\<open>include/api/aosl_list.h\<close>): circular lists as rings in a heap (locale \<open>entry_list\<close>).
  \<^item> \<open>Timer\<close>, \<open>Timer_Api\<close>: scheduling, firing in order of expiry, that a pass ends, handles and use counts: no timer is used after it was freed as long as no killed timer is
    rescheduled, and what the code does when one is. The theorems about firing are for callbacks that leave the timers alone.
  \<^item> \<open>Refobj\<close>: locks, counts and destruction of reference objects under any sequence of calls.
  \<^item> \<open>Mpq\<close>, \<open>Mpq_Api\<close>, \<open>Mpq_Life\<close>, \<open>Queue_Create\<close>: functions are run once and in order, or told to free; a queue that ends loses no function; creation gives a fresh queue or nothing. The theorems
    about one round of a queue are for callbacks that leave the queues alone; those about its life interleave it with any number of clients.
  \<^item> \<open>Mpqp\<close>: pools of queues: the choice of a queue, and that an allocated queue stays until it is given back or the whole pool is shrunk, over the locale \<open>queue_creator\<close>, which \<open>Queue_Create\<close> provides.
  \<^item> \<open>Iofd\<close>, \<open>Iofd_Stream\<close>, \<open>Iofd_Tables\<close>: descriptors on queues: the bytes written and the packets read keep their order, with failed allocations and with
    callbacks that write to the descriptor or close it; the tables agree after every operation; the end of a queue closes each descriptor once.
  \<^item> \<open>Osmp\<close>, \<open>Poll_Wait\<close>: no wake-up is lost between a queue's thread and its clients; what the three back ends report, their equivalence, and that interrupted waits below \<open>2 ^ 31\<close> milliseconds keep their time-out.
  \<^item> \<open>Rwlock\<close>: readers and writers exclude one another under all interleavings of the atomic steps.
  \<^item> \<open>Tls\<close>: keys and values of threads refine a map as long as only live keys are deleted (locale \<open>tls_provider\<close>).
  \<^item> \<open>Psbuff\<close>, \<open>Psb_Chain\<close>, \<open>Dyn_Array\<close>, \<open>Marshal\<close>, \<open>Marshal_Correct\<close>: buffers refine a window of bytes; marshalling writes the encoding of an object and unmarshalling gives
    back the objects of flat types.
  \<^item> \<open>Inet\<close>, \<open>Ipv6\<close>: printing and parsing addresses, types and prefixes of IPv6 addresses, IPv4 destinations over IPv6 sockets.
  \<^item> \<open>Route\<close>: the cache of interfaces refines a map; the events about default routes tell a subscriber the network (locale \<open>def_rt_source\<close>, interpreted on the Linux source); sockets for exactly the families with a route.
  \<^item> \<open>Dns\<close>: resolved addresses stay within the array of the requester, which is answered exactly once: by its queue or, when that refuses, to free.

  Several theorems show what the code does where it should do something else (tables that end early, a killed timer that is linked again and freed there, events repeated for a route that is gone, a prefix taken from any resolved address): they are stated as the code behaves.

  \<^bold>\<open>Bounds.\<close> Counters of references and of kicks are assumed not to reach the end of their width where a theorem says so; handles of reused slots are told apart for 65534 installations. Marshalling is proved for
  little-endian machines with 8-byte pointers. Buffer lengths are below \<open>2 ^ 31\<close>. Queue arguments are limited by \<^verbatim>\<open>MPQ_ARGC_MAX\<close>, as in the code.

  \<^bold>\<open>Not modelled.\<close> The ports in \<^verbatim>\<open>platform/src\<close> other than the wait functions of Linux, \<^verbatim>\<open>kernel/thread.c\<close> and the other wrappers of locks, threads, files, atomics, time and memory: each function is one call of
  the system. Logging, panics, version, the statistics of \<^verbatim>\<open>mm/mm.c\<close> and the functions that print routes only print. The rest of \<^verbatim>\<open>net/sk_utils.c\<close> passes its arguments on to the descriptors and to queue calls, which are
  modelled. The condition on which clients wait for a full queue to drain (\<^verbatim>\<open>wait_q\<close>) is left out of the run of the functions, and the cache of interfaces is
  updated with memory available when it follows the kernel's messages. The cutting of the kernel's messages into attributes is done by macros of the system headers. Scheduling fairness is not assumed, so that progress is stated as an enabled step.
\<close>

end
